(* ===== verification/Prelude.thy ===== *)
theory Prelude
  imports Main "HOL-Library.Word" "HOL-Library.Multiset"
begin

unbundle bit_operations_syntax

section \<open>Shared types, faults and lemmas\<close>

text \<open>
  What every component of the development uses: bytes and slices, the faults that stop the
  program, the sequencing of computations that can fault, decimal printing
  (\<open>std::to_string\<close>), the iteration order of an \<open>std::unordered_map\<close>, and the lemmas
  about them.
\<close>

named_theorems res_simps \<open>unfolding of computations that can fault\<close>

subsection \<open>Bytes, machine integers and slices\<close>

type_synonym byte = "8 word"
type_synonym u16 = "16 word"
type_synonym u32 = "32 word"
type_synonym u64 = "64 word"

text \<open>A \<open>leveldb::Slice\<close> (and the buffer of a \<open>std::string\<close> used as bytes).\<close>

type_synonym slice = "byte list"

text \<open>
  How a run can stop other than by returning. \<open>AssertFail\<close>: a failed \<open>assert\<close> (the
  Makefile does not define \<open>NDEBUG\<close>). \<open>Undefined\<close>: behaviour the C++ standard leaves
  undefined (an index outside a \<open>std::vector\<close>, a shift by the width or more, an overflow of
  a signed integer, an access to freed memory). \<open>DivByZero\<close> and \<open>NullDeref\<close> are named
  apart from it. \<open>Uncaught\<close>: an exception no handler catches. \<open>OutOfFuel\<close> is not a
  behaviour of the program but of the model: the bound on the recursion was too small.
\<close>

datatype fault = AssertFail | Undefined | DivByZero | NullDeref | Uncaught | OutOfFuel

type_synonym 'a res = "fault + 'a"

definition bind_res :: "'a res \<Rightarrow> ('a \<Rightarrow> 'b res) \<Rightarrow> 'b res" where
  "bind_res m f = (case m of Inl e \<Rightarrow> Inl e | Inr x \<Rightarrow> f x)"

lemma bind_res_Inl [simp]: "bind_res (Inl e) f = Inl e"
  by (simp add: bind_res_def)

lemma bind_res_Inr [simp]: "bind_res (Inr x) f = f x"
  by (simp add: bind_res_def)

lemma bind_res_eq_Inr [res_simps]:
  "bind_res m f = Inr y \<longleftrightarrow> (\<exists>x. m = Inr x \<and> f x = Inr y)"
  by (cases m) auto

lemma bind_res_eq_Inl [res_simps]:
  "bind_res m f = Inl e \<longleftrightarrow> m = Inl e \<or> (\<exists>x. m = Inr x \<and> f x = Inl e)"
  by (cases m) auto

lemma bind_res_neq_Inl [intro]:
  "m \<noteq> Inl e \<Longrightarrow> (\<And>x. m = Inr x \<Longrightarrow> f x \<noteq> Inl e) \<Longrightarrow> bind_res m f \<noteq> Inl e"
  by (cases m) auto

lemma bind_res_assoc: "bind_res (bind_res m f) g = bind_res m (\<lambda>x. bind_res (f x) g)"
  by (cases m) auto

lemma bind_res_cong [fundef_cong]:
  "m = m' \<Longrightarrow> (\<And>x. m' = Inr x \<Longrightarrow> f x = f' x) \<Longrightarrow> bind_res m f = bind_res m' f'"
  by (cases m') auto

text \<open>\<open>guard_res c e\<close> stops with \<open>e\<close> unless \<open>c\<close> holds.\<close>

definition guard_res :: "bool \<Rightarrow> fault \<Rightarrow> unit res" where
  "guard_res c e = (if c then Inr () else Inl e)"

lemma guard_res_simps [simp]: "guard_res True e = Inr ()" "guard_res False e = Inl e"
  by (simp_all add: guard_res_def)

lemma guard_res_eq_Inr [res_simps]: "guard_res c e = Inr u \<longleftrightarrow> c"
  by (simp add: guard_res_def)

lemma guard_res_eq_Inl [res_simps]: "guard_res c e = Inl f \<longleftrightarrow> \<not> c \<and> e = f"
  by (auto simp: guard_res_def)

text \<open>A pointer that may be \<open>nullptr\<close>, dereferenced.\<close>

definition deref :: "'a option \<Rightarrow> 'a res" where
  "deref p = (case p of None \<Rightarrow> Inl NullDeref | Some x \<Rightarrow> Inr x)"

lemma deref_simps [simp]: "deref None = Inl NullDeref" "deref (Some x) = Inr x"
  by (simp_all add: deref_def)

lemma deref_eq_Inr [res_simps]: "deref p = Inr x \<longleftrightarrow> p = Some x"
  by (cases p) auto

text \<open>A read of a variable the program may not have written yet.\<close>

definition initialised :: "'a option \<Rightarrow> 'a res" where
  "initialised p = (case p of None \<Rightarrow> Inl Undefined | Some x \<Rightarrow> Inr x)"

lemma initialised_simps [simp]:
  "initialised None = Inl Undefined" "initialised (Some x) = Inr x"
  by (simp_all add: initialised_def)

lemma initialised_eq_Inr [res_simps]: "initialised p = Inr x \<longleftrightarrow> p = Some x"
  by (cases p) auto

text \<open>\<open>Slice::operator[]\<close>: the index is a \<open>size_t\<close>, so a negative one is out of range.\<close>

definition slice_at :: "slice \<Rightarrow> int \<Rightarrow> byte res" where
  "slice_at s i = (if 0 \<le> i \<and> i < int (length s) then Inr (s ! nat i) else Inl AssertFail)"

lemma slice_at_eq_Inr [res_simps]:
  "slice_at s i = Inr b \<longleftrightarrow> 0 \<le> i \<and> i < int (length s) \<and> b = s ! nat i"
  by (auto simp: slice_at_def)

lemma slice_at_not_OutOfFuel [simp]: "slice_at s i \<noteq> Inl OutOfFuel"
  by (simp add: slice_at_def)

lemma slice_at_append:
  "slice_at (xs @ ys) (int (length xs) + int i) = slice_at ys (int i)"
  by (auto simp: slice_at_def nth_append nat_add_distrib)

text \<open>
  \<open>std::vector::operator[]\<close> and \<open>std::string::operator[]\<close> do not check: an index out
  of range is undefined behaviour.
\<close>

definition vec_at :: "'a list \<Rightarrow> int \<Rightarrow> 'a res" where
  "vec_at xs i = (if 0 \<le> i \<and> i < int (length xs) then Inr (xs ! nat i) else Inl Undefined)"

definition vec_set :: "'a list \<Rightarrow> int \<Rightarrow> 'a \<Rightarrow> 'a list res" where
  "vec_set xs i v =
     (if 0 \<le> i \<and> i < int (length xs) then Inr (xs[nat i := v]) else Inl Undefined)"

lemma vec_at_eq_Inr [res_simps]:
  "vec_at xs i = Inr x \<longleftrightarrow> 0 \<le> i \<and> i < int (length xs) \<and> x = xs ! nat i"
  by (auto simp: vec_at_def)

lemma vec_set_eq_Inr [res_simps]:
  "vec_set xs i v = Inr ys \<longleftrightarrow> 0 \<le> i \<and> i < int (length xs) \<and> ys = xs[nat i := v]"
  by (auto simp: vec_set_def)

lemma vec_at_nat [simp]: "i < length xs \<Longrightarrow> vec_at xs (int i) = Inr (xs ! i)"
  by (simp add: vec_at_def)

lemma vec_set_nat [simp]: "i < length xs \<Longrightarrow> vec_set xs (int i) v = Inr (xs[i := v])"
  by (simp add: vec_set_def)

text \<open>The C++ type \<open>int\<close> is 32 bits wide; an overflow of signed arithmetic is undefined.\<close>

definition int32_ok :: "int \<Rightarrow> bool" where
  "int32_ok i \<longleftrightarrow> - (2 ^ 31) \<le> i \<and> i < 2 ^ 31"

definition to_int32 :: "int \<Rightarrow> int res" where
  "to_int32 i = (if int32_ok i then Inr i else Inl Undefined)"

lemma to_int32_eq_Inr [res_simps]: "to_int32 i = Inr j \<longleftrightarrow> int32_ok i \<and> j = i"
  by (auto simp: to_int32_def)

lemma int32_ok_sint [simp]: "int32_ok (sint (w :: u32))"
  using sint_greater_eq [of w] sint_lt [of w] by (simp add: int32_ok_def)

text \<open>A \<open>char\<close> of a name read from the database.\<close>

definition byte_char :: "byte \<Rightarrow> char" where
  "byte_char b = char_of (unat b)"

lemma byte_char_inj [simp]: "byte_char a = byte_char b \<longleftrightarrow> a = b"
proof
  assume "byte_char a = byte_char b"
  then have "of_char (byte_char a) = (of_char (byte_char b) :: nat)" by simp
  moreover have "unat a < 256" "unat b < 256"
    using unsigned_less [of a, where ?'a = nat] unsigned_less [of b, where ?'a = nat]
    by (simp_all del: unsigned_less)
  ultimately show "a = b" by (simp add: byte_char_def word_unat_eq_iff)
qed simp

definition char_byte :: "char \<Rightarrow> byte" where
  "char_byte c = of_nat (of_char c)"

lemma byte_char_char_byte [simp]: "byte_char (char_byte c) = c"
proof -
  have "(of_char c :: nat) < 256" by simp
  then show ?thesis by (simp add: byte_char_def char_byte_def unat_of_nat)
qed

subsection \<open>Little-endian integers\<close>

text \<open>The bytes of an integer, least significant first, and the integer they spell.\<close>

definition le16 :: "u16 \<Rightarrow> byte list" where
  "le16 v = [ucast v, ucast (drop_bit 8 v)]"

definition le32 :: "u32 \<Rightarrow> byte list" where
  "le32 v = [ucast v, ucast (drop_bit 8 v), ucast (drop_bit 16 v), ucast (drop_bit 24 v)]"

definition le64 :: "u64 \<Rightarrow> byte list" where
  "le64 v = [ucast v, ucast (drop_bit 8 v), ucast (drop_bit 16 v), ucast (drop_bit 24 v),
     ucast (drop_bit 32 v), ucast (drop_bit 40 v), ucast (drop_bit 48 v), ucast (drop_bit 56 v)]"

definition of_le16 :: "byte \<Rightarrow> byte \<Rightarrow> u16" where
  "of_le16 a b = ucast a OR push_bit 8 (ucast b)"

definition of_le32 :: "byte \<Rightarrow> byte \<Rightarrow> byte \<Rightarrow> byte \<Rightarrow> u32" where
  "of_le32 a b c d =
     ucast a OR push_bit 8 (ucast b) OR push_bit 16 (ucast c) OR push_bit 24 (ucast d)"

lemma no_bit_beyond: "8 \<le> n \<Longrightarrow> \<not> bit (b :: byte) n" "32 \<le> m \<Longrightarrow> \<not> bit (v :: u32) m"
  using bit_imp_le_length [of b n] bit_imp_le_length [of v m] by auto

lemma length_le [simp]: "length (le16 v) = 2" "length (le32 w) = 4" "length (le64 x) = 8"
  by (simp_all add: le16_def le32_def le64_def)

lemma of_le16_le16: "of_le16 (ucast v) (ucast (drop_bit 8 v)) = v"
  unfolding of_le16_def
  by (rule bit_word_eqI) (auto simp: bit_simps)

lemma of_le32_le32:
  "of_le32 (ucast v) (ucast (drop_bit 8 v)) (ucast (drop_bit 16 v)) (ucast (drop_bit 24 v)) = v"
  unfolding of_le32_def
proof (rule bit_word_eqI)
  fix n
  assume "n < LENGTH(32)"
  then consider "n < 8" | "8 \<le> n" "n < 16" | "16 \<le> n" "n < 24" | "24 \<le> n" "n < 32"
    by fastforce
  then show "bit ((ucast (ucast v :: byte) :: u32) OR
      push_bit 8 (ucast (ucast (drop_bit 8 v) :: byte)) OR
      push_bit 16 (ucast (ucast (drop_bit 16 v) :: byte)) OR
      push_bit 24 (ucast (ucast (drop_bit 24 v) :: byte))) n = bit v n"
    by cases (auto simp: bit_simps)
qed

lemma unat_add_small:
  "unat (a :: u32) + k < 2 ^ 32 \<Longrightarrow> unat (a + of_nat k) = unat a + k"
  by (simp add: unat_word_ariths unat_of_nat)

lemma unat_of_nat_small: "n < 2 ^ 32 \<Longrightarrow> unat (of_nat n :: u32) = n"
  by (simp add: unat_of_nat)

lemma uint_of_nat_small: "n < 2 ^ 32 \<Longrightarrow> uint (of_nat n :: u32) = int n"
  by (simp add: uint_nat unat_of_nat)

lemma uint_less_of_unat: "unat (w :: 'a :: len word) < n \<Longrightarrow> uint w < int n"
  by (metis of_nat_less_iff uint_nat)

lemma uint_ge_of_unat: "n \<le> unat (w :: 'a :: len word) \<Longrightarrow> int n \<le> uint w"
  by (metis of_nat_le_iff uint_nat)

lemma uint_less_iff: "uint (w :: 'a :: len word) < int n \<longleftrightarrow> unat w < n"
  by (metis of_nat_less_iff uint_nat)

lemma uint_add_less_iff: "uint (w :: 'a :: len word) + int k < int n \<longleftrightarrow> unat w + k < n"
  by (metis of_nat_add of_nat_less_iff uint_nat)

lemma sint_eq_uint_small:
  assumes "uint (w :: 'a :: len word) < 2 ^ (LENGTH('a) - Suc 0)"
  shows "sint w = uint w"
proof -
  have "- (2 ^ (LENGTH('a) - Suc 0)) \<le> (0 :: int)" by simp
  also have "0 \<le> uint w" by simp
  finally have "signed_take_bit (LENGTH('a) - Suc 0) (uint w) = uint w"
    using assms by (rule signed_take_bit_int_eq_self)
  then show ?thesis by (simp only: sint_uint)
qed

lemma sint_small:
  assumes "unat (w :: u32) < 2 ^ 31"
  shows "sint w = int (unat w)"
proof -
  from assms have "int (unat w) < int (2 ^ 31)" by (simp only: of_nat_less_iff)
  then have "uint w < 2 ^ (LENGTH(32) - Suc 0)" by simp
  from sint_eq_uint_small [OF this] show ?thesis by simp
qed

lemma sint_small16:
  assumes "unat (w :: u16) < 2 ^ 15"
  shows "sint w = int (unat w)"
proof -
  from assms have "int (unat w) < int (2 ^ 15)" by (simp only: of_nat_less_iff)
  then have "uint w < 2 ^ (LENGTH(16) - Suc 0)" by simp
  from sint_eq_uint_small [OF this] show ?thesis by simp
qed

lemma sint_of_nat_small: "n < 2 ^ 31 \<Longrightarrow> sint (of_nat n :: u32) = int n"
  by (simp add: sint_small unat_of_nat_small)

lemma sint_ucast_small:
  assumes "unat (w :: u32) < 2 ^ 15"
  shows "sint (ucast w :: u16) = int (unat w)"
proof -
  have "unat (ucast w :: u16) = unat w"
    using assms by (simp add: unsigned_ucast_eq take_bit_nat_eq_self)
  with assms show ?thesis by (simp add: sint_small16)
qed

lemma unat_of_sint:
  assumes "0 \<le> sint (w :: u32)"
  shows "unat w = nat (sint w)"
proof -
  have "sint w < 2 ^ 31" using sint_lt [of w] by simp
  with assms have "take_bit LENGTH(32) (sint w) = sint w"
    by (intro take_bit_int_eq_self) simp_all
  moreover have "uint (word_of_int (sint w) :: u32) = take_bit LENGTH(32) (sint w)"
    by (rule uint_word_of_int_eq)
  moreover have "(word_of_int (sint w) :: u32) = w" by simp
  ultimately have "uint w = sint w" by simp
  then show ?thesis by (simp only: unat_eq_nat_uint)
qed

lemma ceiling_div:
  assumes "0 < n"
  shows "- ((- int a) div int n) = int ((a + (n - 1)) div n)"
proof -
  define q r where "q = (a + (n - 1)) div n" and "r = (a + (n - 1)) mod n"
  have "a + (n - 1) = n * q + r" by (simp add: q_def r_def)
  then have "int a + int (n - 1) = int n * int q + int r"
    by (metis of_nat_add of_nat_mult)
  moreover have "int (n - 1) = int n - 1" using assms by simp
  moreover have "int r < int n" using assms by (simp add: r_def)
  ultimately have "(- int a) div int n = - int q"
    by (intro int_div_pos_eq [where r = "int n - 1 - int r"]) (simp_all add: algebra_simps)
  then show ?thesis by (simp add: q_def)
qed

lemma sint_of_nat8:
  assumes "n < 128"
  shows "sint (of_nat n :: byte) = int n"
proof -
  have "uint (of_nat n :: byte) = int n"
    using assms by (simp add: uint_nat unat_of_nat)
  moreover from this have "uint (of_nat n :: byte) < 2 ^ (LENGTH(8) - Suc 0)"
    using assms by simp
  ultimately show ?thesis using sint_eq_uint_small [of "of_nat n :: byte"] by simp
qed

lemma distinct_concat_disjoint:
  "distinct (map g (concat L)) \<Longrightarrow> c < length L \<Longrightarrow> d < length L \<Longrightarrow> c \<noteq> d \<Longrightarrow> g ` set (L ! c) \<inter> g ` set (L ! d) = {}"
proof (induction L arbitrary: c d)
  case (Cons xs L)
  have "g ` set xs \<inter> g ` set (L ! e) = {}" if "e < length L" for e
  proof -
    have "L ! e \<in> set L" using that by simp
    then have "g ` set (L ! e) \<subseteq> g ` set (concat L)" by (auto simp del: set_concat simp: set_concat)
    moreover have "g ` set xs \<inter> g ` set (concat L) = {}" using Cons.prems(1) by simp
    ultimately show ?thesis by blast
  qed
  then show ?case using Cons.IH [of "c - 1" "d - 1"] Cons.prems by (cases c; cases d) (auto simp del: set_concat simp: Int_commute)
qed simp

end
