(* ===== verification/Cpp_Std.thy ===== *)
theory Cpp_Std
  imports Prelude
begin

section \<open>What the program uses of the C++ library\<close>

text \<open>
  \<open>std::to_string\<close> and \<open>std::stoi\<close> on the 32-bit \<open>int\<close>, and
  \<open>std::unordered_map<std::string, T>\<close> with the iteration order the standard leaves open.
\<close>

subsection \<open>Decimal printing and parsing\<close>

definition digit_char :: "nat \<Rightarrow> char" where
  "digit_char n = char_of (48 + n)"

definition is_digit :: "char \<Rightarrow> bool" where
  "is_digit c \<longleftrightarrow> 48 \<le> (of_char c :: nat) \<and> (of_char c :: nat) \<le> 57"

definition digit_val :: "char \<Rightarrow> int" where
  "digit_val c = int (of_char c) - 48"

fun nat_to_string :: "nat \<Rightarrow> string" where
  "nat_to_string n =
     (if n < 10 then [digit_char n] else nat_to_string (n div 10) @ [digit_char (n mod 10)])"

declare nat_to_string.simps [simp del]

text \<open>\<open>std::to_string (int)\<close>, and \<open>operator<<\<close> of an \<open>int\<close>.\<close>

definition int_to_string :: "int \<Rightarrow> string" where
  "int_to_string i = (if i < 0 then CHR ''-'' # nat_to_string (nat (- i))
                      else nat_to_string (nat i))"

text \<open>\<open>isspace\<close> in the \<open>C\<close> locale: space, tab, newline, vertical tab, form feed, return.\<close>

definition isspace :: "char \<Rightarrow> bool" where
  "isspace c \<longleftrightarrow> (of_char c :: nat) = 32 \<or> 9 \<le> (of_char c :: nat) \<and> (of_char c :: nat) \<le> 13"

fun digits_val :: "int \<Rightarrow> string \<Rightarrow> int" where
  "digits_val acc [] = acc"
| "digits_val acc (c # cs) = (if is_digit c then digits_val (10 * acc + digit_val c) cs else acc)"

definition strip_sign :: "string \<Rightarrow> bool \<times> string" where
  "strip_sign s = (case s of
     [] \<Rightarrow> (False, [])
   | c # cs \<Rightarrow> if c = CHR ''-'' then (True, cs) else if c = CHR ''+'' then (False, cs) else (False, s))"

text \<open>
  \<open>std::stoi\<close>: leading white space, an optional sign and the longest run of digits; what
  follows is ignored. \<open>None\<close> is either of its exceptions, \<open>invalid_argument\<close> where there
  is no digit and \<open>out_of_range\<close> where the value is not an \<open>int\<close>.
\<close>

definition stoi :: "string \<Rightarrow> int option" where
  "stoi s =
     (let (neg, ds) = strip_sign (dropWhile isspace s)
      in if ds = [] \<or> \<not> is_digit (hd ds) then None
         else let v = (if neg then - digits_val 0 ds else digits_val 0 ds)
              in if int32_ok v then Some v else None)"

lemma of_char_digit [simp]: "n < 10 \<Longrightarrow> (of_char (digit_char n) :: nat) = 48 + n"
  by (simp add: digit_char_def)

lemma is_digit_digit_char [simp]: "n < 10 \<Longrightarrow> is_digit (digit_char n)"
  by (simp add: is_digit_def)

lemma digit_val_digit_char [simp]: "n < 10 \<Longrightarrow> digit_val (digit_char n) = int n"
  by (simp add: digit_val_def)

lemma nat_to_string_digits: "\<forall>c \<in> set (nat_to_string n). is_digit c"
proof (induction n rule: nat_to_string.induct)
  case (1 n)
  then show ?case by (subst nat_to_string.simps) auto
qed

lemma nat_to_string_nonempty [simp]: "nat_to_string n \<noteq> []"
  by (subst nat_to_string.simps) simp

lemma digits_val_append:
  "\<forall>c \<in> set xs. is_digit c \<Longrightarrow> digits_val acc (xs @ ys) = digits_val (digits_val acc xs) ys"
  by (induction xs arbitrary: acc) auto

lemma digits_val_nat_to_string: "digits_val 0 (nat_to_string n) = int n"
proof (induction n rule: nat_to_string.induct)
  case (1 n)
  show ?case
  proof (cases "n < 10")
    case True
    then show ?thesis by (subst nat_to_string.simps) simp
  next
    case False
    then have "nat_to_string n = nat_to_string (n div 10) @ [digit_char (n mod 10)]"
      by (subst nat_to_string.simps) simp
    then have "digits_val 0 (nat_to_string n) = 10 * int (n div 10) + int (n mod 10)"
      using "1.IH" False by (simp add: digits_val_append nat_to_string_digits)
    also have "\<dots> = int n" by presburger
    finally show ?thesis .
  qed
qed

text \<open>A rest that does not start with a digit is not looked at.\<close>

definition no_digit_first :: "string \<Rightarrow> bool" where
  "no_digit_first r \<longleftrightarrow> r = [] \<or> \<not> is_digit (hd r)"

lemma digits_val_stop: "no_digit_first r \<Longrightarrow> digits_val acc r = acc"
  by (cases r) (auto simp: no_digit_first_def)

lemma digits_val_nat_to_string_rest:
  "no_digit_first r \<Longrightarrow> digits_val 0 (nat_to_string n @ r) = int n"
  by (simp add: digits_val_append nat_to_string_digits digits_val_stop digits_val_nat_to_string)

lemma is_digit_not_space: "is_digit c \<Longrightarrow> \<not> isspace c"
  by (auto simp: is_digit_def isspace_def)

lemma digit_not_sign: "is_digit c \<Longrightarrow> c \<noteq> CHR ''-'' \<and> c \<noteq> CHR ''+'' \<and> c \<noteq> CHR ''|''"
  by (auto simp: is_digit_def)

lemma minus_not_space [simp]: "\<not> isspace (CHR ''-'')"
  by (simp add: isspace_def)

lemma nat_to_string_hd: "is_digit (hd (nat_to_string n))"
  using nat_to_string_digits [of n] by (simp add: hd_in_set)

lemma nat_to_string_Cons:
  obtains c cs where "nat_to_string n = c # cs" "is_digit c"
  using nat_to_string_hd [of n] by (cases "nat_to_string n") auto

text \<open>Reading what \<open>to_string\<close> printed gives the number back, whatever follows it.\<close>

lemma stoi_int_to_string:
  assumes "int32_ok i" and "no_digit_first r"
  shows "stoi (int_to_string i @ r) = Some i"
proof (cases "i < 0")
  case True
  obtain c cs where "nat_to_string (nat (- i)) = c # cs" "is_digit c"
    by (rule nat_to_string_Cons)
  then show ?thesis
    using digits_val_nat_to_string_rest [OF assms(2), of "nat (- i)"] True assms(1)
    by (simp add: stoi_def int_to_string_def strip_sign_def)
next
  case False
  obtain c cs where "nat_to_string (nat i) = c # cs" "is_digit c"
    by (rule nat_to_string_Cons)
  then show ?thesis
    using digits_val_nat_to_string_rest [OF assms(2), of "nat i"] False assms(1)
    by (simp add: stoi_def int_to_string_def strip_sign_def is_digit_not_space digit_not_sign)
qed

lemma stoi_range: "stoi s = Some i \<Longrightarrow> int32_ok i"
  by (auto simp: stoi_def Let_def split: prod.splits if_splits)

lemma int_to_string_no_bar: "CHR ''|'' \<notin> set (int_to_string i)"
  using nat_to_string_digits [of "nat (- i)"] nat_to_string_digits [of "nat i"]
  by (auto simp: int_to_string_def dest: digit_not_sign)

lemma int_to_string_inj:
  assumes "int_to_string i = int_to_string j"
  shows "i = j"
proof -
  have sign: "hd (nat_to_string n) \<noteq> CHR ''-''" for n
    using nat_to_string_hd [of n] digit_not_sign by blast
  have inj: "m = n" if "nat_to_string m = nat_to_string n" for m n
    using that digits_val_nat_to_string by (metis of_nat_eq_iff)
  show ?thesis
    using assms sign inj
    by (auto simp: int_to_string_def split: if_splits dest: inj)
      (metis list.sel(1) sign)+
qed

subsection \<open>\<open>std::unordered_map\<close>\<close>

text \<open>
  A map is the list of its nodes in iteration order. \<open>operator[]\<close> with a new key links a node
  in and may rehash, after which the nodes are in an order the standard does not fix: that
  order is the parameter \<open>rehash\<close>, a permutation of the nodes. An assignment to an existing key
  changes the value in place.
\<close>

type_synonym 'a umap = "(string \<times> 'a) list"

definition um_set :: "('a umap \<Rightarrow> 'a umap) \<Rightarrow> string \<Rightarrow> 'a \<Rightarrow> 'a umap \<Rightarrow> 'a umap" where
  "um_set rehash k v m =
     (if k \<in> fst ` set m then map (\<lambda>n. if fst n = k then (k, v) else n) m
      else rehash ((k, v) # m))"

definition um_ok :: "'a umap \<Rightarrow> bool" where
  "um_ok m \<longleftrightarrow> distinct (map fst m)"

lemma map_fst_assign [simp]:
  "map fst (map (\<lambda>n. if fst n = k then (k, v) else n) m) = map fst m"
  by (induction m) auto

lemma map_of_assign [simp]:
  "map_of (map (\<lambda>n. if fst n = k then (k, v) else n) m) x =
    (if x = k then map_option (\<lambda>_. v) (map_of m k) else map_of m x)"
  by (induction m) auto

locale unordered_map =
  fixes rehash :: "'a umap \<Rightarrow> 'a umap"
  assumes rehash_perm: "mset (rehash m) = mset m"
begin

lemma set_rehash [simp]: "set (rehash m) = set m"
  using rehash_perm [of m] by (metis set_mset_mset)

lemma um_ok_rehash [simp]: "um_ok (rehash m) \<longleftrightarrow> um_ok m"
proof -
  have "mset (map fst (rehash m)) = mset (map fst m)"
    by (simp add: rehash_perm)
  then show ?thesis unfolding um_ok_def by (rule mset_eq_imp_distinct_iff)
qed

lemma map_of_rehash: "um_ok m \<Longrightarrow> map_of (rehash m) = map_of m"
proof -
  assume m: "um_ok m"
  have "map_of (rehash m) k = map_of m k" for k
  proof -
    have "map_of (rehash m) k = Some v \<longleftrightarrow> map_of m k = Some v" for v
      using m um_ok_rehash [of m] by (simp add: um_ok_def)
    then show ?thesis by (metis option.exhaust)
  qed
  then show ?thesis by blast
qed

lemma um_ok_set: "um_ok m \<Longrightarrow> um_ok (um_set rehash k v m)"
proof -
  assume m: "um_ok m"
  then show ?thesis
    using um_ok_rehash [of "(k, v) # m"]
    by (cases "k \<in> fst ` set m") (simp_all add: um_set_def um_ok_def del: map_map)
qed

lemma map_of_um_set:
  assumes "um_ok m"
  shows "map_of (um_set rehash k v m) = (map_of m)(k \<mapsto> v)"
proof (cases "k \<in> fst ` set m")
  case True
  then obtain w where "map_of m k = Some w"
    by (metis map_of_eq_None_iff option.exhaust)
  with True show ?thesis by (simp add: um_set_def fun_eq_iff)
next
  case False
  with assms have "um_ok ((k, v) # m)" by (auto simp: um_ok_def)
  from map_of_rehash [OF this] False show ?thesis by (simp add: um_set_def)
qed

lemma set_um_set: "set (um_set rehash k v m) \<subseteq> insert (k, v) (set m)"
  by (auto simp: um_set_def split: if_splits)

end

text \<open>
  The order of libstdc++ while no rehash happens and the bucket is empty: a new node is linked
  in at the front.
\<close>

definition front_order :: "'a umap \<Rightarrow> 'a umap" where
  "front_order m = m"

interpretation front: unordered_map front_order
  by unfold_locales (simp add: front_order_def)

text \<open>The other extreme, nodes in the order of their insertion.\<close>

definition insertion_order :: "'a umap \<Rightarrow> 'a umap" where
  "insertion_order m = (case m of [] \<Rightarrow> [] | n # ns \<Rightarrow> ns @ [n])"

interpretation insertion: unordered_map insertion_order
  by unfold_locales (simp add: insertion_order_def split: list.split)

subsection \<open>Properties\<close>

text \<open>
  what \<open>to_string\<close> printed of an \<open>int\<close>, \<open>stoi\<close> reads back, whatever follows it as long as
  that does not start with a digit. A chunk id and the answer of a command are printed by the
  first, coordinates and flags are read by the second.
\<close>

theorem stoi_to_string:
  assumes "int32_ok i" and "no_digit_first r"
  shows "stoi (int_to_string i @ r) = Some i"
  by (rule stoi_int_to_string [OF assms])

theorem stoi_to_string_witness:
  "stoi (int_to_string (- 120) @ '' blocks'') = Some (- 120)"
  by (rule stoi_to_string) (simp_all add: int32_ok_def no_digit_first_def is_digit_def)

end
