(* ===== verification/NBT_Tag.thy ===== *)
theory NBT_Tag
  imports Cpp_Std
begin

section \<open>NBT tags\<close>

text \<open>
  \<open>NBTTag.h\<close> and \<open>NBTTag.cpp\<close>: the tag with its scalar fields and its inner tags, kept in an
  \<open>unordered_map\<close> by name, the recursive search, the names derived for textures, the printing
  and the freeing of the tree. Every tag is owned by the one map that holds it (the parser adds
  each \<open>new NBTTag\<close> once), so a tag is a value with its inner tags inside.
\<close>

subsection \<open>The data\<close>

text \<open>
  The enumerators of \<open>NBTType\<close> (\<open>INT\<close> is a token of HOL, hence \<open>INT'\<close>). \<open>OTHER b\<close> is a
  variable of the type that holds a byte which is none of them, as the parser's \<open>static_cast\<close>
  makes it.
\<close>

datatype NBTType = END | BYTE | SHORT | INT' | LONG | STRING | LIST | COMPOUND | OTHER byte

definition NBTType_of :: "byte \<Rightarrow> NBTType" where
  "NBTType_of b =
     (if b = 0 then END else if b = 1 then BYTE else if b = 2 then SHORT else if b = 3 then INT'
      else if b = 4 then LONG else if b = 8 then STRING else if b = 9 then LIST
      else if b = 10 then COMPOUND else OTHER b)"

text \<open>The scalar fields; \<open>None\<close> where a \<open>new NBTTag\<close> leaves the field indeterminate.\<close>

record tag_fields =
  tag_type :: "NBTType option"
  tag_name :: string
  intVal :: "u32 option"
  shortVal :: "u16 option"
  byteVal :: "byte option"
  longVal :: "u64 option"
  stringVal :: string

datatype NBTTag = NBTTag (fields: tag_fields) (innerTags: "(string \<times> NBTTag) list")

definition new_NBTTag :: NBTTag where
  "new_NBTTag = NBTTag \<lparr>tag_type = None, tag_name = [], intVal = None, shortVal = None,
     byteVal = None, longVal = None, stringVal = []\<rparr> []"

definition upd_fields :: "(tag_fields \<Rightarrow> tag_fields) \<Rightarrow> NBTTag \<Rightarrow> NBTTag" where
  "upd_fields f t = NBTTag (f (fields t)) (innerTags t)"

lemma upd_fields_sel [simp]:
  "fields (upd_fields f t) = f (fields t)" "innerTags (upd_fields f t) = innerTags t"
  by (simp_all add: upd_fields_def)

subsection \<open>Operations\<close>

definition addInnerTag :: "(NBTTag umap \<Rightarrow> NBTTag umap) \<Rightarrow> NBTTag \<Rightarrow> NBTTag \<Rightarrow> NBTTag" where
  "addInnerTag rehash t tag =
     NBTTag (fields t) (um_set rehash (tag_name (fields tag)) tag (innerTags t))"

text \<open>\<open>findInnerTag\<close>: the map first, then each inner tag in iteration order.\<close>

fun findInnerTag :: "NBTTag \<Rightarrow> string \<Rightarrow> NBTTag option"
and findInnerTags :: "(string \<times> NBTTag) list \<Rightarrow> string \<Rightarrow> NBTTag option" where
  "findInnerTag (NBTTag f its) key =
     (case map_of its key of
        Some t \<Rightarrow> Some t
      | None \<Rightarrow> findInnerTags its key)"
| "findInnerTags [] key = None"
| "findInnerTags ((k, it) # its) key =
     (case findInnerTag it key of
        Some t \<Rightarrow> Some t
      | None \<Rightarrow> findInnerTags its key)"

text \<open>\<open>freeMemory\<close>: the tags it deletes, in the order of the \<open>delete\<close>s.\<close>

fun freeMemory :: "NBTTag \<Rightarrow> NBTTag list"
and freeMemories :: "(string \<times> NBTTag) list \<Rightarrow> NBTTag list" where
  "freeMemory (NBTTag f its) = freeMemories its"
| "freeMemories [] = []"
| "freeMemories ((k, it) # its) = freeMemory it @ [it] @ freeMemories its"

text \<open>The \<open>stringVal\<close> of the inner tag \<open>key\<close>, dereferencing the pointer that was found.\<close>

definition inner_string :: "NBTTag \<Rightarrow> string \<Rightarrow> string res" where
  "inner_string t key =
     bind_res (deref (findInnerTag t key)) (\<lambda>u. Inr (stringVal (fields u)))"

definition getBlockType :: "NBTTag \<Rightarrow> string res" where
  "getBlockType t =
     bind_res (inner_string t ''name'') (\<lambda>blockName.
       if blockName = ''minecraft:stone'' then
         bind_res (inner_string t ''stone_type'') (\<lambda>v.
           if v = ''stone'' then Inr ''stone'' else Inr (''stone_'' @ v))
       else if blockName = ''minecraft:leaves'' \<or> blockName = ''minecraft:leaves2'' then
         (case findInnerTag t ''old_leaf_type'' of
            Some u \<Rightarrow> Inr (''leaves_'' @ stringVal (fields u) @ ''_opaque'')
          | None \<Rightarrow> bind_res (inner_string t ''new_leaf_type'') (\<lambda>v.
              Inr (''leaves_'' @ v @ ''_opaque'')))
       else if blockName = ''minecraft:log'' then
         (case findInnerTag t ''old_log_type'' of
            Some u \<Rightarrow> Inr (''log_'' @ stringVal (fields u))
          | None \<Rightarrow> bind_res (inner_string t ''new_log_type'') (\<lambda>v. Inr (''log'' @ v)))
       else if blockName = ''minecraft:sand'' then
         bind_res (inner_string t ''sand_type'') (\<lambda>v.
           if v = ''normal'' then Inr ''sand'' else Inr v)
       else if blockName = ''minecraft:grass'' then Inr ''grass_side_carried''
       else if blockName = ''minecraft:sandstone'' then Inr ''sandstone_normal''
       else if blockName = ''minecraft:water'' then Inr ''water_still''
       else if blockName = ''minecraft:lava'' then Inr ''lava_still''
       else Inr ''NULL'')"

fun printInnerTags :: "NBTTag \<Rightarrow> string"
and printInnerList :: "(string \<times> NBTTag) list \<Rightarrow> string" where
  "printInnerTags (NBTTag f its) = printInnerList its"
| "printInnerList [] = []"
| "printInnerList ((k, it) # its) =
     (if tag_type (fields it) = Some STRING
      then tag_name (fields it) @ '':'' @ stringVal (fields it) @ '' '' else []) @
     printInnerTags it @ printInnerList its"

subsection \<open>The tree of tags\<close>

text \<open>\<open>inner t k u\<close>: \<open>u\<close> is under the key \<open>k\<close> of \<open>t\<close> or of a tag below it.\<close>

inductive inner :: "NBTTag \<Rightarrow> string \<Rightarrow> NBTTag \<Rightarrow> bool" where
  here: "(k, u) \<in> set (innerTags t) \<Longrightarrow> inner t k u"
| below: "(k', t') \<in> set (innerTags t) \<Longrightarrow> inner t' k u \<Longrightarrow> inner t k u"

inductive_simps inner_NBTTag: "inner (NBTTag f its) k u"

text \<open>
  A tag as \<open>addInnerTag\<close> builds it: in every map of the tree the keys are distinct and each is
  the name of its tag.
\<close>

fun tag_ok :: "NBTTag \<Rightarrow> bool" where
  "tag_ok (NBTTag f its) \<longleftrightarrow>
     um_ok its \<and> (\<forall>(k, it) \<in> set its. tag_name (fields it) = k \<and> tag_ok it)"

lemma tag_ok_iff:
  "tag_ok t \<longleftrightarrow> um_ok (innerTags t) \<and>
    (\<forall>(k, it) \<in> set (innerTags t). tag_name (fields it) = k \<and> tag_ok it)"
  by (cases t) simp

lemma tag_ok_new [simp]: "tag_ok new_NBTTag"
  by (simp add: new_NBTTag_def um_ok_def)

lemma tag_ok_upd_fields [simp]: "tag_ok (upd_fields f t) \<longleftrightarrow> tag_ok t"
  by (simp add: tag_ok_iff [of t] tag_ok_iff [of "upd_fields f t"])

lemma tag_ok_addInnerTag:
  assumes "unordered_map rehash" and "tag_ok t" and "tag_ok u"
  shows "tag_ok (addInnerTag rehash t u)"
proof -
  let ?m = "um_set rehash (tag_name (fields u)) u (innerTags t)"
  from assms(2) have t: "um_ok (innerTags t)"
    and ts: "\<forall>(k, it) \<in> set (innerTags t). tag_name (fields it) = k \<and> tag_ok it"
    by (simp_all add: tag_ok_iff [of t])
  have "um_ok ?m" using assms(1) t by (rule unordered_map.um_ok_set)
  moreover have "\<forall>(k, it) \<in> set ?m. tag_name (fields it) = k \<and> tag_ok it"
    using ts assms(3) unordered_map.set_um_set [OF assms(1)] by fastforce
  ultimately show ?thesis by (simp add: addInnerTag_def)
qed

lemma map_of_addInnerTag:
  assumes "unordered_map rehash" and "tag_ok t"
  shows "map_of (innerTags (addInnerTag rehash t u)) =
    (map_of (innerTags t))(tag_name (fields u) \<mapsto> u)"
  using unordered_map.map_of_um_set [OF assms(1)] assms(2)
  by (simp add: addInnerTag_def tag_ok_iff [of t])

lemma findInnerTag_sound:
  "findInnerTag t key = Some u \<Longrightarrow> inner t key u"
  "findInnerTags its key = Some u \<Longrightarrow> \<exists>(k, it) \<in> set its. inner it key u"
proof (induction t key and its key rule: findInnerTag_findInnerTags.induct)
  case (1 f its key)
  then show ?case
    by (auto simp: inner_NBTTag dest: map_of_SomeD split: option.splits)
qed (auto split: option.splits)

lemma findInnerTag_complete:
  "findInnerTag t key = None \<Longrightarrow> \<not> inner t key u"
  "findInnerTags its key = None \<Longrightarrow> (k, it) \<in> set its \<Longrightarrow> \<not> inner it key u"
proof (induction t key and its key arbitrary: u and k it u
    rule: findInnerTag_findInnerTags.induct)
  case (1 f its key)
  from "1.prems" have m: "map_of its key = None" and r: "findInnerTags its key = None"
    by (auto split: option.splits)
  from m have "(key, u) \<notin> set its" by (auto simp: map_of_eq_None_iff image_iff)
  moreover have "\<not> inner it key u" if "(k, it) \<in> set its" for k it
    using "1.IH" [OF m] r that by blast
  ultimately show ?case by (auto simp: inner_NBTTag)
next
  case (3 k' it' its key)
  from "3.prems"(1) have h: "findInnerTag it' key = None" and r: "findInnerTags its key = None"
    by (auto split: option.splits)
  from "3.prems"(2) show ?case
    using "3.IH"(1) [OF h] "3.IH"(2) [OF h r] by auto
qed simp

lemma findInnerTag_iff: "(\<exists>u. findInnerTag t key = Some u) \<longleftrightarrow> (\<exists>u. inner t key u)"
  using findInnerTag_sound(1) findInnerTag_complete(1) by (metis option.exhaust)

lemma findInnerTag_unique:
  assumes "inner t key u" and "\<And>v. inner t key v \<Longrightarrow> v = u"
  shows "findInnerTag t key = Some u"
  using assms findInnerTag_iff findInnerTag_sound(1) by metis

lemma findInnerTag_surface: "map_of (innerTags t) key = Some u \<Longrightarrow> findInnerTag t key = Some u"
  by (cases t) simp

lemma set_freeMemory:
  "u \<in> set (freeMemory t) \<longleftrightarrow> (\<exists>k. inner t k u)"
  "u \<in> set (freeMemories its) \<longleftrightarrow> (\<exists>(k, it) \<in> set its. u = it \<or> (\<exists>k. inner it k u))"
proof (induction t and its rule: freeMemory_freeMemories.induct)
  case (1 f its)
  then show ?case by (fastforce simp: inner_NBTTag)
qed auto

text \<open>The number of tags below a tag.\<close>

fun inner_count :: "NBTTag \<Rightarrow> nat"
and inner_counts :: "(string \<times> NBTTag) list \<Rightarrow> nat" where
  "inner_count (NBTTag f its) = inner_counts its"
| "inner_counts [] = 0"
| "inner_counts ((k, it) # its) = Suc (inner_count it + inner_counts its)"

lemma length_freeMemory:
  "length (freeMemory t) = inner_count t"
  "length (freeMemories its) = inner_counts its"
  by (induction t and its rule: freeMemory_freeMemories.induct) auto

subsection \<open>Properties\<close>

text \<open>
  the search finds a tag exactly when one is under the name somewhere below, what it finds is
  one, and a tag directly inside is found before any deeper one.
\<close>

theorem findInnerTag_correct:
  "(findInnerTag t key = None \<longleftrightarrow> \<not> (\<exists>u. inner t key u)) \<and>
   (\<forall>u. findInnerTag t key = Some u \<longrightarrow> inner t key u) \<and>
   (\<forall>u. map_of (innerTags t) key = Some u \<longrightarrow> findInnerTag t key = Some u)"
  using findInnerTag_iff [of t key] findInnerTag_sound(1) findInnerTag_surface
  by (metis option.distinct(1) option.exhaust)

theorem findInnerTag_correct_witness:
  "findInnerTag (addInnerTag front_order new_NBTTag (upd_fields (\<lambda>f. f\<lparr>tag_name := ''name''\<rparr>) new_NBTTag))
     ''name'' = Some (upd_fields (\<lambda>f. f\<lparr>tag_name := ''name''\<rparr>) new_NBTTag)"
proof -
  let ?u = "upd_fields (\<lambda>f. f\<lparr>tag_name := ''name''\<rparr>) new_NBTTag"
  have "map_of (innerTags (addInnerTag front_order new_NBTTag ?u)) ''name'' = Some ?u"
    by (simp add: addInnerTag_def um_set_def front_order_def new_NBTTag_def)
  then show ?thesis using findInnerTag_correct by blast
qed

text \<open>
  C25: freeing a tag deletes every tag below it and nothing else, with as many \<open>delete\<close>s as there are
  tags below it.
\<close>

theorem freeMemory_exact:
  "set (freeMemory t) = {u. \<exists>k. inner t k u} \<and> length (freeMemory t) = inner_count t"
  using set_freeMemory(1) [of _ t] length_freeMemory(1) [of t] by auto

end
