(* ===== verification/NBT_Parse.thy ===== *)
theory NBT_Parse
  imports NBT_Tag
begin

section \<open>Parsing NBT\<close>

text \<open>
  The first half of \<open>ParseBedrock.cpp\<close>: the little-endian readers and the mutually recursive
  \<open>parseNBTPayload\<close> and \<open>parseNBTTag\<close>. The conversions of the offset are the source's: a
  \<open>uint32_t\<close> in the recursion, narrowed to \<open>int16_t\<close> by \<open>parseShort\<close> and \<open>parseLong\<close>.
  The recursion is bounded by fuel; a fuel of a few times the length is enough
  (\<open>parseNBTTag_fuel\<close>).
\<close>

subsection \<open>The readers\<close>

text \<open>
  One loop per reader, over the remaining indices \<open>i\<close> of \<open>s[offset + i]\<close>; the index is
  computed in \<open>int\<close>.
\<close>

fun read_bytes32 :: "slice \<Rightarrow> int \<Rightarrow> nat list \<Rightarrow> u32 \<Rightarrow> u32 res" where
  "read_bytes32 s offset [] result = Inr result"
| "read_bytes32 s offset (i # is) result =
     bind_res (slice_at s (offset + int i)) (\<lambda>b.
       read_bytes32 s offset is (result OR push_bit (i * 8) (ucast b)))"

definition parseInt32 :: "slice \<Rightarrow> u32 \<Rightarrow> u32 res" where
  "parseInt32 s offset = read_bytes32 s (sint offset) [0..<4] 0"

fun read_bytes16 :: "slice \<Rightarrow> int \<Rightarrow> nat list \<Rightarrow> u16 \<Rightarrow> u16 res" where
  "read_bytes16 s offset [] result = Inr result"
| "read_bytes16 s offset (i # is) result =
     bind_res (slice_at s (offset + int i)) (\<lambda>b.
       read_bytes16 s offset is (result OR push_bit (i * 8) (ucast b)))"

definition parseShort :: "slice \<Rightarrow> u16 \<Rightarrow> u16 res" where
  "parseShort s offset = read_bytes16 s (sint offset) [0..<2] 0"

text \<open>
  \<open>parseLong\<close> shifts an \<open>int\<close>: a shift by 32 or more is undefined, and the shifted \<open>int\<close> is
  sign-extended when it is or-ed into the 64-bit result.
\<close>

fun read_bytes64 :: "slice \<Rightarrow> int \<Rightarrow> nat list \<Rightarrow> u64 \<Rightarrow> u64 res" where
  "read_bytes64 s offset [] result = Inr result"
| "read_bytes64 s offset (i # is) result =
     bind_res (slice_at s (offset + int i)) (\<lambda>b.
     bind_res (guard_res (i * 8 < 32) Undefined) (\<lambda>_.
       read_bytes64 s offset is (result OR scast (push_bit (i * 8) (ucast b :: u32)))))"

definition parseLong :: "slice \<Rightarrow> u16 \<Rightarrow> u64 res" where
  "parseLong s offset = read_bytes64 s (sint offset) [0..<8] 0"

subsection \<open>Payloads and tags\<close>

text \<open>The loops that append \<open>n\<close> characters to a string.\<close>

fun read_chars :: "slice \<Rightarrow> u32 \<Rightarrow> nat \<Rightarrow> (u32 \<times> string) res" where
  "read_chars s offset 0 = Inr (offset, [])"
| "read_chars s offset (Suc n) =
     bind_res (slice_at s (uint offset)) (\<lambda>b.
     bind_res (read_chars s (offset + 1) n) (\<lambda>(offset', cs).
       Inr (offset', byte_char b # cs)))"

text \<open>
  The recursive call is an argument \<open>parseTag\<close> of the payload and its loops; \<open>parseNBTTag\<close>
  ties the knot, with one unit of fuel per level of nesting, and gives each loop the fuel left.
  A variable \<open>tag->type\<close> is always written before it is read; reading it goes through
  \<open>initialised\<close>. The loop of a list counts an \<open>int\<close> against the \<open>uint32_t\<close> length, so a
  length above \<open>2 ^ 31 - 1\<close> overflows the counter.
\<close>

type_synonym tag_parser = "slice \<Rightarrow> u32 \<Rightarrow> NBTTag \<Rightarrow> bool \<Rightarrow> (u32 \<times> NBTTag) res"

fun parseNBTList :: "(NBTTag umap \<Rightarrow> NBTTag umap) \<Rightarrow> tag_parser \<Rightarrow> nat \<Rightarrow> slice \<Rightarrow> u32 \<Rightarrow> NBTTag
      \<Rightarrow> NBTType \<Rightarrow> u32 \<Rightarrow> nat \<Rightarrow> (u32 \<times> NBTTag) res" where
  "parseNBTList rehash parseTag 0 s offset tag listType listLength x = Inl OutOfFuel"
| "parseNBTList rehash parseTag (Suc fuel) s offset tag listType listLength x =
     (if x < unat listLength then
        let innerTag = upd_fields (\<lambda>f. f\<lparr>tag_type := Some listType\<rparr>) new_NBTTag in
        bind_res (parseTag s offset innerTag False) (\<lambda>(offset, innerTag).
        bind_res (guard_res (Suc x < 2 ^ 31) Undefined) (\<lambda>_.
          parseNBTList rehash parseTag fuel s offset (addInnerTag rehash tag innerTag)
            listType listLength (Suc x)))
      else Inr (offset, tag))"

fun parseNBTCompound :: "(NBTTag umap \<Rightarrow> NBTTag umap) \<Rightarrow> tag_parser \<Rightarrow> nat \<Rightarrow> slice \<Rightarrow> u32 \<Rightarrow> NBTTag
      \<Rightarrow> (u32 \<times> NBTTag) res" where
  "parseNBTCompound rehash parseTag 0 s offset tag = Inl OutOfFuel"
| "parseNBTCompound rehash parseTag (Suc fuel) s offset tag =
     bind_res (slice_at s (uint offset)) (\<lambda>b.
       if b \<noteq> 0 then
         bind_res (parseTag s offset new_NBTTag True) (\<lambda>(offset, innerTag).
           parseNBTCompound rehash parseTag fuel s offset (addInnerTag rehash tag innerTag))
       else Inr (offset + 1, tag))"

definition parseNBTPayload :: "(NBTTag umap \<Rightarrow> NBTTag umap) \<Rightarrow> tag_parser \<Rightarrow> nat \<Rightarrow> slice \<Rightarrow> u32
      \<Rightarrow> NBTTag \<Rightarrow> (u32 \<times> NBTTag) res" where
  "parseNBTPayload rehash parseTag fuel s offset tag =
     bind_res (initialised (tag_type (fields tag))) (\<lambda>ty. case ty of
       BYTE \<Rightarrow> bind_res (slice_at s (uint offset)) (\<lambda>v.
         Inr (offset + 1, upd_fields (\<lambda>f. f\<lparr>byteVal := Some v\<rparr>) tag))
     | SHORT \<Rightarrow> bind_res (parseShort s (ucast offset)) (\<lambda>v.
         Inr (offset + 2, upd_fields (\<lambda>f. f\<lparr>shortVal := Some v\<rparr>) tag))
     | INT' \<Rightarrow> bind_res (parseInt32 s offset) (\<lambda>v.
         Inr (offset + 4, upd_fields (\<lambda>f. f\<lparr>intVal := Some v\<rparr>) tag))
     | LONG \<Rightarrow> bind_res (parseLong s (ucast offset)) (\<lambda>v.
         Inr (offset + 8, upd_fields (\<lambda>f. f\<lparr>longVal := Some v\<rparr>) tag))
     | STRING \<Rightarrow> bind_res (parseShort s (ucast offset)) (\<lambda>len.
         let stringLength = (scast len :: u32) in
         bind_res (read_chars s (offset + 2) (unat stringLength)) (\<lambda>(offset, v).
           Inr (offset, upd_fields (\<lambda>f. f\<lparr>stringVal := v\<rparr>) tag)))
     | LIST \<Rightarrow> bind_res (slice_at s (uint offset)) (\<lambda>b.
         bind_res (parseInt32 s (offset + 1)) (\<lambda>listLength.
           parseNBTList rehash parseTag fuel s (offset + 1 + 4) tag (NBTType_of b) listLength 0))
     | COMPOUND \<Rightarrow> parseNBTCompound rehash parseTag fuel s offset tag
     | _ \<Rightarrow> Inr (offset, tag))"

fun parseNBTTag :: "(NBTTag umap \<Rightarrow> NBTTag umap) \<Rightarrow> nat \<Rightarrow> tag_parser" where
  "parseNBTTag rehash 0 s offset tag parseType = Inl OutOfFuel"
| "parseNBTTag rehash (Suc fuel) s offset tag parseType =
     bind_res (if parseType
       then bind_res (slice_at s (uint offset)) (\<lambda>b.
         Inr (offset + 1, upd_fields (\<lambda>f. f\<lparr>tag_type := Some (NBTType_of b)\<rparr>) tag))
       else Inr (offset, tag)) (\<lambda>(offset, tag).
     bind_res (parseShort s (ucast offset)) (\<lambda>len.
     bind_res (read_chars s (offset + 2) (nat (sint len))) (\<lambda>(offset, nm).
       parseNBTPayload rehash (parseNBTTag rehash fuel) fuel s offset
         (upd_fields (\<lambda>f. f\<lparr>tag_name := nm\<rparr>) tag))))"

subsection \<open>The readers in range\<close>

lemma parseInt32_eq:
  "parseInt32 s offset = bind_res (slice_at s (sint offset)) (\<lambda>a.
     bind_res (slice_at s (sint offset + 1)) (\<lambda>b. bind_res (slice_at s (sint offset + 2)) (\<lambda>c.
     bind_res (slice_at s (sint offset + 3)) (\<lambda>d. Inr (of_le32 a b c d)))))"
  by (simp add: parseInt32_def of_le32_def numeral_eq_Suc or.assoc)

lemma parseShort_eq:
  "parseShort s offset = bind_res (slice_at s (sint offset)) (\<lambda>a.
     bind_res (slice_at s (sint offset + 1)) (\<lambda>b. Inr (of_le16 a b)))"
  by (simp add: parseShort_def of_le16_def numeral_eq_Suc)

lemma parseShort_not_OutOfFuel [simp]: "parseShort s offset \<noteq> Inl OutOfFuel"
  by (auto simp: parseShort_eq res_simps)

lemma parseInt32_not_OutOfFuel [simp]: "parseInt32 s offset \<noteq> Inl OutOfFuel"
  by (auto simp: parseInt32_eq res_simps)

text \<open>
  \<open>parseLong\<close> never returns: its fifth byte is out of the slice or is shifted by 32.
\<close>

lemma parseLong_faults: "parseLong s offset = Inl AssertFail \<or> parseLong s offset = Inl Undefined"
  by (simp add: parseLong_def numeral_eq_Suc slice_at_def)

lemma parseLong_shift:
  assumes "0 \<le> sint offset" and "sint offset + 5 \<le> int (length s)"
  shows "parseLong s offset = Inl Undefined"
  using assms by (simp add: parseLong_def numeral_eq_Suc slice_at_def)

text \<open>\<open>parseShort\<close> narrows the offset: from \<open>2 ^ 15\<close> on, the index is negative.\<close>

lemma sint_ucast_wraps:
  assumes "2 ^ 15 \<le> unat (w :: u32)" and "unat w < 2 ^ 16"
  shows "sint (ucast w :: u16) = int (unat w) - 2 ^ 16"
proof -
  have u: "uint (ucast w :: u16) = int (unat w)"
    using uint_less_of_unat [OF assms(2)] by (simp add: unsigned_ucast_eq take_bit_int_eq_self)
  have "sint (ucast w :: u16) = signed_take_bit 15 (int (unat w))"
    using u by (simp add: sint_uint)
  also have "\<dots> = take_bit 16 (int (unat w) + 2 ^ 15) - 2 ^ 15"
    by (simp add: signed_take_bit_eq_take_bit_shift)
  also have "take_bit 16 (int (unat w) + 2 ^ 15) = int (unat w) + 2 ^ 15 - 2 ^ 16"
  proof -
    have "int (unat w) + 2 ^ 15 = (int (unat w) + 2 ^ 15 - 2 ^ 16) + 2 ^ 16" by simp
    moreover have "0 \<le> int (unat w) + 2 ^ 15 - 2 ^ 16" "int (unat w) + 2 ^ 15 - 2 ^ 16 < 2 ^ 16"
      using uint_ge_of_unat [OF assms(1)] uint_less_of_unat [OF assms(2)] by simp_all
    ultimately show ?thesis
      by (metis add.commute mod_add_self1 mod_pos_pos_trivial take_bit_eq_mod)
  qed
  finally show ?thesis by simp
qed

lemma parseShort_far:
  assumes "2 ^ 15 \<le> unat (w :: u32)" and "unat w < 2 ^ 16"
  shows "parseShort s (ucast w) = Inl AssertFail"
  using sint_ucast_wraps [OF assms] uint_less_of_unat [OF assms(2)]
  by (simp add: parseShort_eq slice_at_def)

subsection \<open>Offsets and fuel\<close>

text \<open>
  In a slice shorter than \<open>2 ^ 15\<close> bytes no conversion of the offset changes it: whatever is
  read successfully lies in the slice, and the offset moves forward by what was read.
\<close>

lemma parseShort_advance:
  assumes "length s < 2 ^ 15" and "unat (off :: u32) \<le> length s" and "parseShort s (ucast off) = Inr v"
  shows "unat off + 2 \<le> length s" and "unat (off + 2) = unat off + 2"
proof -
  have "sint (ucast off :: u16) = int (unat off)"
    using assms(1,2) by (intro sint_ucast_small) simp
  with assms(3) show l: "unat off + 2 \<le> length s"
    using uint_add_less_iff [of off 1 "length s"] by (auto simp: parseShort_eq res_simps)
  show "unat (off + 2) = unat off + 2"
    using unat_add_small [of off 2] l assms(1) by simp
qed

lemma parseInt32_advance:
  assumes "length s < 2 ^ 15" and "unat off \<le> length s" and "parseInt32 s off = Inr v"
  shows "unat off + 4 \<le> length s" and "unat (off + 4) = unat off + 4"
proof -
  have "sint off = int (unat off)"
    using assms(1,2) by (intro sint_small) simp
  with assms(3) show l: "unat off + 4 \<le> length s"
    using uint_add_less_iff [of off 3 "length s"] by (auto simp: parseInt32_eq res_simps)
  show "unat (off + 4) = unat off + 4"
    using unat_add_small [of off 4] l assms(1) by simp
qed

lemma slice_at_advance:
  assumes "length s < 2 ^ 15" and "slice_at s (uint (off :: u32)) = Inr b"
  shows "unat off + 1 \<le> length s" and "unat (off + 1) = unat off + 1"
proof -
  from assms(2) show l: "unat off + 1 \<le> length s"
    by (simp add: res_simps uint_less_iff)
  show "unat (off + 1) = unat off + 1"
    using unat_add_small [of off 1] l assms(1) by simp
qed

lemma read_chars_advance:
  assumes "length s < 2 ^ 15" and "unat off \<le> length s"
    and "read_chars s off n = Inr (off', cs)"
  shows "unat off' = unat off + n" and "unat off' \<le> length s" and "length cs = n"
  using assms(2,3)
proof (induction n arbitrary: off off' cs)
  case (Suc n)
  {
    case 1
    from 1(2) obtain b cs' where b: "slice_at s (uint off) = Inr b"
      and r: "read_chars s (off + 1) n = Inr (off', cs')" and "cs = byte_char b # cs'"
      by (auto simp: res_simps split: prod.splits)
    note a = slice_at_advance [OF assms(1) b]
    show ?case using Suc.IH(1) [OF _ r] a by simp
  next
    case 2
    from 2(2) obtain b cs' where b: "slice_at s (uint off) = Inr b"
      and r: "read_chars s (off + 1) n = Inr (off', cs')"
      by (auto simp: res_simps split: prod.splits)
    note a = slice_at_advance [OF assms(1) b]
    show ?case using Suc.IH(2) [OF _ r] a by simp
  next
    case 3
    from 3(2) obtain b cs' where b: "slice_at s (uint off) = Inr b"
      and r: "read_chars s (off + 1) n = Inr (off', cs')" and "cs = byte_char b # cs'"
      by (auto simp: res_simps split: prod.splits)
    note a = slice_at_advance [OF assms(1) b]
    show ?case using Suc.IH(3) [OF _ r] a \<open>cs = byte_char b # cs'\<close> by simp
  }
qed auto

text \<open>The same as single rules, for the classical reasoner.\<close>

lemma advance_rules:
  assumes "length s < 2 ^ 15"
  shows "slice_at s (uint (off :: u32)) = Inr b \<Longrightarrow>
      unat (off + 1) = unat off + 1 \<and> unat off + 1 \<le> length s"
    and "parseShort s (ucast off) = Inr v \<Longrightarrow> unat off \<le> length s \<Longrightarrow>
      unat (off + 2) = unat off + 2 \<and> unat off + 2 \<le> length s"
    and "parseInt32 s off = Inr w \<Longrightarrow> unat off \<le> length s \<Longrightarrow>
      unat (off + 4) = unat off + 4 \<and> unat off + 4 \<le> length s"
    and "read_chars s off n = Inr (off', cs) \<Longrightarrow> unat off \<le> length s \<Longrightarrow>
      unat off' = unat off + n \<and> unat off' \<le> length s"
  using slice_at_advance [OF assms] parseShort_advance [OF assms]
    parseInt32_advance [OF assms] read_chars_advance [OF assms] by metis+

lemma read_chars_not_OutOfFuel [simp]: "read_chars s off n \<noteq> Inl OutOfFuel"
  by (induction n arbitrary: off) (auto simp: res_simps split: prod.splits)

text \<open>
  \<open>parser_ok s k n pt\<close>: on offsets inside \<open>s\<close> the parser moves forward by at least \<open>k\<close> bytes and
  stays inside, and it does not run out of fuel where fewer than \<open>n\<close> bytes are left.
\<close>

definition moves :: "slice \<Rightarrow> nat \<Rightarrow> nat \<Rightarrow> u32 \<Rightarrow> (u32 \<times> NBTTag) res \<Rightarrow> bool" where
  "moves s k n off r \<longleftrightarrow>
     (case r of
        Inr (off', t) \<Rightarrow> unat off + k \<le> unat off' \<and> unat off' \<le> length s
      | Inl e \<Rightarrow> length s - unat off < n \<longrightarrow> e \<noteq> OutOfFuel)"

definition parser_ok :: "slice \<Rightarrow> nat \<Rightarrow> tag_parser \<Rightarrow> bool" where
  "parser_ok s n pt \<longleftrightarrow>
     (\<forall>off tag b. unat off \<le> length s \<longrightarrow> moves s 2 n off (pt s off tag b))"

lemma moves_Inr [simp]:
  "moves s k n off (Inr (off', t)) \<longleftrightarrow> unat off + k \<le> unat off' \<and> unat off' \<le> length s"
  by (simp add: moves_def)

lemma moves_Inl: "e \<noteq> OutOfFuel \<Longrightarrow> moves s k n off (Inl e)"
  by (simp add: moves_def)

lemma moves_bind:
  assumes "m \<noteq> Inl OutOfFuel" and "\<And>x. m = Inr x \<Longrightarrow> moves s k n off (f x)"
  shows "moves s k n off (bind_res m f)"
  using assms by (cases m) (auto simp: moves_def)

text \<open>A step to a later offset carries over what is shown of the rest.\<close>

lemma moves_later:
  assumes "moves s k n off r" and "unat off0 + j \<le> unat off" and "k0 \<le> j + k"
    and "n0 \<le> n + j" and "unat off \<le> length s"
  shows "moves s k0 n0 off0 r"
  using assms by (auto simp: moves_def split: sum.splits)

lemma parseNBTList_moves:
  assumes "length s < 2 ^ 15" and "parser_ok s n pt" and "unat off \<le> length s"
  shows "moves s 0 (min n fuel) off (parseNBTList rh pt fuel s off tag lt len x)"
  using assms(3)
proof (induction fuel arbitrary: off tag x)
  case 0
  then show ?case by (simp add: moves_def)
next
  case (Suc fuel)
  let ?it = "upd_fields (\<lambda>f. f\<lparr>tag_type := Some lt\<rparr>) new_NBTTag"
  have p: "moves s 2 n off (pt s off ?it False)"
    using assms(2) Suc.prems by (simp add: parser_ok_def)
  show ?case
  proof (cases "x < unat len")
    case False
    with Suc.prems show ?thesis by simp
  next
    case True
    show ?thesis
    proof (cases "pt s off ?it False")
      case (Inl e)
      with True p show ?thesis by (simp add: moves_def Let_def)
    next
      case (Inr r)
      obtain off' t where r: "r = (off', t)" by (cases r)
      from p Inr r have m: "unat off + 2 \<le> unat off'" "unat off' \<le> length s" by simp_all
      show ?thesis
        using moves_later [OF Suc.IH [OF m(2)] m(1) _ _ m(2), of 0 "min n (Suc fuel)"]
        by (cases "Suc x < 2 ^ 31")
          (auto simp: True Inr r Let_def moves_Inl min_def)
    qed
  qed
qed

lemma parseNBTCompound_moves:
  assumes "length s < 2 ^ 15" and "parser_ok s n pt" and "unat off \<le> length s"
  shows "moves s 0 (min n fuel) off (parseNBTCompound rh pt fuel s off tag)"
  using assms(3)
proof (induction fuel arbitrary: off tag)
  case 0
  then show ?case by (simp add: moves_def)
next
  case (Suc fuel)
  have p: "moves s 2 n off (pt s off new_NBTTag True)"
    using assms(2) Suc.prems by (simp add: parser_ok_def)
  show ?case
    unfolding parseNBTCompound.simps
  proof (rule moves_bind)
    fix b
    assume b: "slice_at s (uint off) = Inr b"
    note a = slice_at_advance [OF assms(1) b]
    show "moves s 0 (min n (Suc fuel)) off (if b \<noteq> 0
        then bind_res (pt s off new_NBTTag True) (\<lambda>(off', innerTag).
          parseNBTCompound rh pt fuel s off' (addInnerTag rh tag innerTag))
        else Inr (off + 1, tag))"
    proof (cases "pt s off new_NBTTag True")
      case (Inl e)
      with a p show ?thesis by (simp add: moves_def)
    next
      case (Inr r)
      obtain off' t where r: "r = (off', t)" by (cases r)
      from p Inr r have m: "unat off + 2 \<le> unat off'" "unat off' \<le> length s" by simp_all
      show ?thesis
        using moves_later [OF Suc.IH [OF m(2)] m(1) _ _ m(2), of 0 "min n (Suc fuel)"] a
        by (auto simp: Inr r min_def)
    qed
  qed simp
qed

lemma parseNBTPayload_moves:
  assumes "length s < 2 ^ 15" and "parser_ok s n pt" and "unat off \<le> length s"
  shows "moves s 0 (min n fuel) off (parseNBTPayload rh pt fuel s off tag)"
proof (cases "tag_type (fields tag)")
  case None
  then show ?thesis by (simp add: parseNBTPayload_def moves_Inl)
next
  case (Some ty)
  note adv = advance_rules [OF assms(1)]
  show ?thesis
  proof (cases ty)
    case BYTE
    with Some show ?thesis
      by (simp add: parseNBTPayload_def) (rule moves_bind, auto dest!: adv(1))
  next
    case SHORT
    with Some assms(3) show ?thesis
      by (simp add: parseNBTPayload_def) (rule moves_bind, auto dest!: adv(2))
  next
    case INT'
    with Some assms(3) show ?thesis
      by (simp add: parseNBTPayload_def) (rule moves_bind, auto dest!: adv(3))
  next
    case LONG
    with Some parseLong_faults [of s "ucast off"] show ?thesis
      by (auto simp: parseNBTPayload_def moves_Inl)
  next
    case STRING
    have "moves s 0 (min n fuel) off (bind_res (read_chars s (off + 2) k) (\<lambda>(off', v).
        Inr (off', upd_fields (\<lambda>f. f\<lparr>stringVal := v\<rparr>) tag)))"
      if "parseShort s (ucast off) = Inr len" for len k
      using adv(2) [OF that assms(3)] by (intro moves_bind) (auto dest!: adv(4))
    with STRING Some show ?thesis
      by (simp add: parseNBTPayload_def Let_def) (rule moves_bind, auto)
  next
    case LIST
    have "moves s 0 (min n fuel) off
        (parseNBTList rh pt fuel s (off + 1 + 4) tag lt len 0)"
      if b: "slice_at s (uint off) = Inr b" and l: "parseInt32 s (off + 1) = Inr len"
      for b lt len
    proof -
      from adv(1) [OF b] have o: "unat (off + 1) \<le> length s" by simp
      have o5: "unat (off + 1 + 4) = unat off + 5" "unat (off + 1 + 4) \<le> length s"
        using adv(1) [OF b] adv(3) [OF l o] by simp_all
      from moves_later [OF parseNBTList_moves [OF assms(1,2) o5(2)] _ _ _ o5(2),
          of off 5 0 "min n fuel"]
      show ?thesis using o5 by simp
    qed
    with LIST Some show ?thesis
      by (simp add: parseNBTPayload_def) (intro moves_bind; simp)
  next
    case COMPOUND
    with Some parseNBTCompound_moves [OF assms] show ?thesis
      by (simp add: parseNBTPayload_def)
  qed (use assms Some in \<open>simp_all add: parseNBTPayload_def\<close>)
qed

text \<open>
  One level of fuel per level of nesting and per element, and every element takes two bytes: the
  number of bytes left is enough.
\<close>

lemma parseNBTTag_parser_ok:
  assumes "length s < 2 ^ 15"
  shows "parser_ok s fuel (parseNBTTag rh fuel)"
proof (induction fuel)
  case 0
  then show ?case by (simp add: parser_ok_def moves_def)
next
  case (Suc fuel)
  note adv = advance_rules [OF assms]
  have body: "moves s 2 (Suc fuel) off1
      (bind_res (parseShort s (ucast off1)) (\<lambda>len.
       bind_res (read_chars s (off1 + 2) (nat (sint len))) (\<lambda>(off2, nm).
         parseNBTPayload rh (parseNBTTag rh fuel) fuel s off2
           (upd_fields (\<lambda>f. f\<lparr>tag_name := nm\<rparr>) tag1))))"
    if o1: "unat off1 \<le> length s" for off1 tag1
  proof (intro moves_bind)
    fix len r
    assume l: "parseShort s (ucast off1) = Inr len"
      and r: "read_chars s (off1 + 2) (nat (sint len)) = Inr r"
    obtain off2 nm where r': "r = (off2, nm)" by (cases r)
    from adv(2) [OF l o1] adv(4) [OF r [unfolded r']]
    have o2: "unat off1 + 2 \<le> unat off2" "unat off2 \<le> length s" by simp_all
    from moves_later [OF parseNBTPayload_moves [OF assms Suc.IH o2(2)] o2(1) _ _ o2(2),
        of 2 "Suc fuel" fuel]
    show "moves s 2 (Suc fuel) off1 (case r of (off2, nm) \<Rightarrow>
        parseNBTPayload rh (parseNBTTag rh fuel) fuel s off2
          (upd_fields (\<lambda>f. f\<lparr>tag_name := nm\<rparr>) tag1))"
      by (simp add: r')
  qed simp_all
  show ?case
    unfolding parser_ok_def
  proof (intro allI impI)
    fix off :: u32 and tag b
    assume o: "unat off \<le> length s"
    show "moves s 2 (Suc fuel) off (parseNBTTag rh (Suc fuel) s off tag b)"
    proof (cases b)
      case False
      with body [OF o, of tag] show ?thesis by simp
    next
      case True
      have "moves s 2 (Suc fuel) off (bind_res (slice_at s (uint off)) (\<lambda>ty.
          bind_res (parseShort s (ucast (off + 1))) (\<lambda>len.
          bind_res (read_chars s (off + 1 + 2) (nat (sint len))) (\<lambda>(off2, nm).
            parseNBTPayload rh (parseNBTTag rh fuel) fuel s off2
              (upd_fields (\<lambda>f. f\<lparr>tag_name := nm\<rparr>)
                (upd_fields (\<lambda>f. f\<lparr>tag_type := Some (NBTType_of ty)\<rparr>) tag))))))"
      proof (rule moves_bind)
        fix ty
        assume ty: "slice_at s (uint off) = Inr ty"
        from adv(1) [OF ty] have o1: "unat (off + 1) \<le> length s"
          "unat off + 1 \<le> unat (off + 1)" by simp_all
        from moves_later [OF body [OF o1(1)] o1(2) _ _ o1(1), of 2 "Suc fuel"]
        show "moves s 2 (Suc fuel) off (bind_res (parseShort s (ucast (off + 1))) (\<lambda>len.
            bind_res (read_chars s (off + 1 + 2) (nat (sint len))) (\<lambda>(off2, nm).
              parseNBTPayload rh (parseNBTTag rh fuel) fuel s off2
                (upd_fields (\<lambda>f. f\<lparr>tag_name := nm\<rparr>)
                  (upd_fields (\<lambda>f. f\<lparr>tag_type := Some (NBTType_of ty)\<rparr>) tag)))))"
          by simp
      qed simp
      with True show ?thesis by (simp add: bind_res_assoc)
    qed
  qed
qed

lemma parseNBTTag_fuel:
  assumes "length s < 2 ^ 15" and "unat off \<le> length s" and "length s - unat off < fuel"
  shows "parseNBTTag rh fuel s off tag b \<noteq> Inl OutOfFuel"
  using parseNBTTag_parser_ok [OF assms(1), of fuel rh] assms
  by (auto simp: parser_ok_def moves_def split: sum.splits)

lemma parseNBTTag_bounds:
  assumes "length s < 2 ^ 15" and "unat off \<le> length s"
    and "parseNBTTag rh fuel s off tag b = Inr (off', tag')"
  shows "unat off + 2 \<le> unat off'" and "unat off' \<le> length s"
proof -
  have "moves s 2 fuel off (parseNBTTag rh fuel s off tag b)"
    using parseNBTTag_parser_ok [OF assms(1), of fuel rh] assms(2) by (simp add: parser_ok_def)
  with assms(3) show "unat off + 2 \<le> unat off'" and "unat off' \<le> length s" by simp_all
qed

subsection \<open>More fuel does not change a result\<close>

definition fuel_le :: "tag_parser \<Rightarrow> tag_parser \<Rightarrow> bool" where
  "fuel_le p q \<longleftrightarrow> (\<forall>s off tag b. p s off tag b \<noteq> Inl OutOfFuel \<longrightarrow> q s off tag b = p s off tag b)"

lemma fuel_leD: "fuel_le p q \<Longrightarrow> p s off tag b \<noteq> Inl OutOfFuel \<Longrightarrow> q s off tag b = p s off tag b"
  by (simp add: fuel_le_def)

lemma bind_res_fuel_mono:
  assumes "bind_res m f \<noteq> Inl OutOfFuel"
    and "m \<noteq> Inl OutOfFuel \<Longrightarrow> m' = m"
    and "\<And>x. m = Inr x \<Longrightarrow> f x \<noteq> Inl OutOfFuel \<Longrightarrow> f' x = f x"
  shows "bind_res m' f' = bind_res m f"
  using assms by (cases m) (auto simp: res_simps)

lemma parseNBTList_mono:
  assumes "fuel_le p q" and "n \<le> n'"
    and "parseNBTList rh p n s off tag lt len x \<noteq> Inl OutOfFuel"
  shows "parseNBTList rh q n' s off tag lt len x = parseNBTList rh p n s off tag lt len x"
  using assms(2,3)
proof (induction n arbitrary: n' off tag x)
  case (Suc n)
  then obtain m where n': "n' = Suc m" and m: "n \<le> m" by (cases n') auto
  show ?case
  proof (cases "x < unat len")
    case True
    with Suc.prems(2) show ?thesis
      unfolding n' parseNBTList.simps Let_def if_P [OF True]
      by (intro bind_res_fuel_mono)
        (auto simp: fuel_leD [OF assms(1)] res_simps split: prod.splits intro!: bind_res_fuel_mono Suc.IH [OF m])
  qed (simp add: n')
qed simp

lemma parseNBTCompound_mono:
  assumes "fuel_le p q" and "n \<le> n'"
    and "parseNBTCompound rh p n s off tag \<noteq> Inl OutOfFuel"
  shows "parseNBTCompound rh q n' s off tag = parseNBTCompound rh p n s off tag"
  using assms(2,3)
proof (induction n arbitrary: n' off tag)
  case (Suc n)
  then obtain m where n': "n' = Suc m" and m: "n \<le> m" by (cases n') auto
  from Suc.prems(2) show ?case
    unfolding n' parseNBTCompound.simps
    by (intro bind_res_fuel_mono)
      (auto simp: fuel_leD [OF assms(1)] split: prod.splits intro!: bind_res_fuel_mono Suc.IH [OF m])
qed simp

lemma parseNBTPayload_mono:
  assumes "fuel_le p q" and "n \<le> n'"
    and "parseNBTPayload rh p n s off tag \<noteq> Inl OutOfFuel"
  shows "parseNBTPayload rh q n' s off tag = parseNBTPayload rh p n s off tag"
proof (cases "tag_type (fields tag)")
  case (Some ty)
  show ?thesis
  proof (cases ty)
    case LIST
    with Some assms(3) show ?thesis
      unfolding parseNBTPayload_def
      by (auto intro!: bind_res_fuel_mono parseNBTList_mono [OF assms(1,2)])
  next
    case COMPOUND
    with Some assms(3) parseNBTCompound_mono [OF assms(1,2)] show ?thesis
      by (simp add: parseNBTPayload_def)
  qed (use Some in \<open>simp_all add: parseNBTPayload_def\<close>)
qed (simp add: parseNBTPayload_def)

lemma parseNBTTag_mono: "n \<le> n' \<Longrightarrow> fuel_le (parseNBTTag rh n) (parseNBTTag rh n')"
proof (induction n arbitrary: n')
  case 0
  then show ?case by (simp add: fuel_le_def)
next
  case (Suc n)
  then obtain m where n': "n' = Suc m" and m: "n \<le> m" by (cases n') auto
  show ?case
    unfolding fuel_le_def n' parseNBTTag.simps
    by (auto intro!: bind_res_fuel_mono parseNBTPayload_mono [OF Suc.IH [OF m] m]
        split: prod.splits)
qed

subsection \<open>Properties\<close>

text \<open>
  C29: on a slice shorter than \<open>2 ^ 15\<close> bytes the parser always comes to an end: a bound on the
  recursion larger than the bytes left is enough, every larger bound gives the same result, and a
  tag that was read took at least two bytes and stayed inside the slice.
\<close>

theorem parseNBTTag_terminates:
  assumes "length s < 2 ^ 15" and "unat off \<le> length s" and "length s - unat off < fuel"
  shows "parseNBTTag rh fuel s off tag b \<noteq> Inl OutOfFuel \<and>
    (\<forall>more. parseNBTTag rh (fuel + more) s off tag b = parseNBTTag rh fuel s off tag b) \<and>
    (\<forall>off' tag'. parseNBTTag rh fuel s off tag b = Inr (off', tag') \<longrightarrow>
      unat off + 2 \<le> unat off' \<and> unat off' \<le> length s)"
proof -
  have f: "parseNBTTag rh fuel s off tag b \<noteq> Inl OutOfFuel"
    by (rule parseNBTTag_fuel [OF assms])
  moreover have "parseNBTTag rh (fuel + more) s off tag b = parseNBTTag rh fuel s off tag b" for more
    by (rule fuel_leD [OF parseNBTTag_mono f]) simp
  ultimately show ?thesis using parseNBTTag_bounds [OF assms(1,2)] by blast
qed

theorem parseNBTTag_terminates_witness:
  "parseNBTTag front_order 9 [10, 0, 0, 1, 1, 0, 0x61, 7] 0 new_NBTTag True \<noteq> Inl OutOfFuel"
  using parseNBTTag_terminates [of "[10, 0, 0, 1, 1, 0, 0x61, 7]" 0 9 front_order new_NBTTag True]
  by simp

text \<open>
  C40: a tag of type \<open>LONG\<close> is never read: the loop of \<open>parseLong\<close> shifts an \<open>int\<close> by 32 bits and
  more, so either a byte is missing and an assertion fails or the shift is undefined; no such call
  returns.
\<close>

theorem parseLong_never_returns:
  "(parseLong s offset = Inl AssertFail \<or> parseLong s offset = Inl Undefined) \<and>
   (0 \<le> sint offset \<and> sint offset + 5 \<le> int (length s) \<longrightarrow> parseLong s offset = Inl Undefined)"
  using parseLong_faults [of s offset] parseLong_shift [of offset s] by blast

theorem parseLong_never_returns_witness:
  "parseLong [1, 0, 0, 0, 0, 0, 0, 0] 0 = Inl Undefined"
  using parseLong_never_returns [of "[1, 0, 0, 0, 0, 0, 0, 0]" 0] by simp

text \<open>
  \<open>parseShort\<close> takes its offset as a signed 16-bit integer: called with an offset from \<open>2 ^ 15\<close>
  on, however long the slice is, it indexes below the slice and the assertion fails.
\<close>

theorem parseShort_wraps:
  assumes "2 ^ 15 \<le> unat (offset :: u32)" and "unat offset < 2 ^ 16"
  shows "parseShort s (ucast offset) = Inl AssertFail"
  by (rule parseShort_far [OF assms])

theorem parseShort_wraps_witness:
  "parseShort (replicate 40000 7) (ucast (32768 :: u32)) = Inl AssertFail"
  by (rule parseShort_wraps) simp_all

end
