(* ===== verification/Chunk.thy ===== *)
theory Chunk
  imports NBT_Tag
begin

section \<open>Chunks\<close>

text \<open>
  \<open>Chunk.h\<close> and \<open>Chunk.cpp\<close>: a column of 16x256x16 block states and, for each of its 16
  sub-chunks, the palette its states index. The accesses to the vectors are the source's,
  unchecked ones included; the invariant \<open>chunk_ok\<close> says when they are in range.
\<close>

subsection \<open>The data and the operations\<close>

text \<open>\<open>struct Block\<close>; \<open>stateTag\<close> is \<open>None\<close> where the code leaves the pointer uninitialised.\<close>

record Block =
  state :: int
  stateTag :: "NBTTag option"

text \<open>The constructor of \<open>Chunk\<close> does not set the position.\<close>

record Chunk =
  chunk_x :: "int option"
  chunk_y :: "int option"
  chunk_z :: "int option"
  blocks :: "int list list list"
  blockStates :: "NBTTag list list"

definition new_Chunk :: Chunk where
  "new_Chunk = \<lparr>chunk_x = None, chunk_y = None, chunk_z = None,
     blocks = replicate 16 (replicate 16 (replicate 256 (- 1))),
     blockStates = replicate 16 []\<rparr>"

definition addBlock :: "Chunk \<Rightarrow> int \<Rightarrow> int \<Rightarrow> int \<Rightarrow> int \<Rightarrow> Chunk res" where
  "addBlock c st rawX y rawZ =
     bind_res (vec_at (blocks c) rawX) (\<lambda>plane.
     bind_res (vec_at plane rawZ) (\<lambda>column.
     bind_res (vec_set column y st) (\<lambda>column'.
     bind_res (vec_set plane rawZ column') (\<lambda>plane'.
     bind_res (vec_set (blocks c) rawX plane') (\<lambda>blocks'.
       Inr (c\<lparr>blocks := blocks'\<rparr>))))))"

text \<open>The bound on \<open>y\<close> is the source's \<open>y > 256\<close>.\<close>

definition getBlock :: "Chunk \<Rightarrow> int \<Rightarrow> int \<Rightarrow> int \<Rightarrow> Block res" where
  "getBlock c rawX y rawZ =
     (if rawX < 0 \<or> rawX \<ge> int (length (blocks c)) \<or> rawZ < 0 \<or>
         rawZ \<ge> int (length (blocks c ! nat rawX)) \<or> y < 0 \<or> y > 256
      then Inr \<lparr>state = - 1, stateTag = None\<rparr>
      else
        bind_res (vec_at (blocks c) rawX) (\<lambda>plane.
        bind_res (vec_at plane rawZ) (\<lambda>column.
        bind_res (vec_at column y) (\<lambda>st.
          if st \<ge> 0 then
            bind_res (vec_at (blockStates c) (y div 16)) (\<lambda>palette.
            bind_res (vec_at palette st) (\<lambda>tag.
              Inr \<lparr>state = st, stateTag = Some tag\<rparr>))
          else Inr \<lparr>state = st, stateTag = None\<rparr>))))"

definition addBlockState :: "Chunk \<Rightarrow> int \<Rightarrow> NBTTag \<Rightarrow> Chunk res" where
  "addBlockState c y tag =
     bind_res (vec_at (blockStates c) y) (\<lambda>palette.
     bind_res (vec_set (blockStates c) y (palette @ [tag])) (\<lambda>states.
       Inr (c\<lparr>blockStates := states\<rparr>)))"

definition getBlockState :: "Chunk \<Rightarrow> int \<Rightarrow> int \<Rightarrow> NBTTag res" where
  "getBlockState c y st = bind_res (vec_at (blockStates c) y) (\<lambda>palette. vec_at palette st)"

text \<open>The tags \<open>Chunk::freeMemory\<close> deletes, in order.\<close>

fun free_palettes :: "NBTTag list list \<Rightarrow> nat list \<Rightarrow> NBTTag list res" where
  "free_palettes states [] = Inr []"
| "free_palettes states (y # ys) =
     bind_res (vec_at states (int y)) (\<lambda>palette.
     bind_res (free_palettes states ys) (\<lambda>rest.
       Inr (concat (map (\<lambda>t. freeMemory t @ [t]) palette) @ rest)))"

definition Chunk_freeMemory :: "Chunk \<Rightarrow> NBTTag list res" where
  "Chunk_freeMemory c = free_palettes (blockStates c) [0..<16]"

subsection \<open>Well-formed chunks\<close>

definition grid_ok :: "Chunk \<Rightarrow> bool" where
  "grid_ok c \<longleftrightarrow> length (blocks c) = 16 \<and> length (blockStates c) = 16 \<and>
     (\<forall>plane \<in> set (blocks c). length plane = 16 \<and>
        (\<forall>column \<in> set plane. length column = 256))"

text \<open>A position is \<open>(rawX, rawZ, y)\<close>, the order of the indices of \<open>blocks\<close>.\<close>

type_synonym pos = "nat \<times> nat \<times> nat"

fun pos_ok :: "pos \<Rightarrow> bool" where
  "pos_ok (x, z, y) \<longleftrightarrow> x < 16 \<and> z < 16 \<and> y < 256"

fun block_at :: "Chunk \<Rightarrow> pos \<Rightarrow> int" where
  "block_at c (x, z, y) = blocks c ! x ! z ! y"

fun put_block :: "Chunk \<Rightarrow> pos \<Rightarrow> int \<Rightarrow> Chunk" where
  "put_block c (x, z, y) st =
     c\<lparr>blocks := (blocks c)[x := (blocks c ! x)[z := (blocks c ! x ! z)[y := st]]]\<rparr>"

definition palette_at :: "Chunk \<Rightarrow> nat \<Rightarrow> NBTTag list" where
  "palette_at c y = blockStates c ! y"

text \<open>Every state is one of the two markers or an index of the palette of its sub-chunk.\<close>

definition chunk_ok :: "Chunk \<Rightarrow> bool" where
  "chunk_ok c \<longleftrightarrow> grid_ok c \<and>
     (\<forall>x z y. pos_ok (x, z, y) \<longrightarrow>
        block_at c (x, z, y) \<in> {- 1, - 2} \<or>
        (0 \<le> block_at c (x, z, y) \<and>
         block_at c (x, z, y) < int (length (palette_at c (y div 16)))))"

lemma grid_ok_lengths:
  assumes "grid_ok c"
  shows "length (blocks c) = 16" "length (blockStates c) = 16"
    and "x < 16 \<Longrightarrow> length (blocks c ! x) = 16"
    and "x < 16 \<Longrightarrow> z < 16 \<Longrightarrow> length (blocks c ! x ! z) = 256"
proof -
  show l: "length (blocks c) = 16" "length (blockStates c) = 16"
    using assms by (simp_all add: grid_ok_def)
  show p: "length (blocks c ! x) = 16" if "x < 16"
    using assms that by (simp add: grid_ok_def)
  show "length (blocks c ! x ! z) = 256" if "x < 16" "z < 16"
  proof -
    have "blocks c ! x \<in> set (blocks c)" using that(1) l by simp
    moreover have "blocks c ! x ! z \<in> set (blocks c ! x)" using that p by simp
    ultimately show ?thesis using assms by (simp add: grid_ok_def)
  qed
qed

lemma subchunk_of_y: "y < 256 \<Longrightarrow> y div 16 < (16 :: nat)"
  by (rule less_mult_imp_div_less) simp

lemma grid_ok_new [simp]: "grid_ok new_Chunk"
  by (auto simp: grid_ok_def new_Chunk_def)

lemma block_at_new: "pos_ok p \<Longrightarrow> block_at new_Chunk p = - 1"
  by (cases p) (simp add: new_Chunk_def)

lemma palette_at_new [simp]: "k < 16 \<Longrightarrow> palette_at new_Chunk k = []"
  by (simp add: palette_at_def new_Chunk_def)

lemma chunk_ok_new [simp]: "chunk_ok new_Chunk"
  by (simp add: chunk_ok_def block_at_new del: block_at.simps)

lemma grid_ok_put_block:
  assumes "grid_ok c" and "pos_ok p"
  shows "grid_ok (put_block c p st)"
proof -
  obtain x z y where p: "p = (x, z, y)" by (cases p)
  with assms have "length ((blocks c ! x)[z := (blocks c ! x ! z)[y := st]]) = 16"
    "\<forall>column \<in> set ((blocks c ! x)[z := (blocks c ! x ! z)[y := st]]). length column = 256"
    using grid_ok_lengths [OF assms(1)]
    by (auto simp: grid_ok_def dest!: in_set_conv_nth [THEN iffD1] set_update_subset_insert [THEN subsetD])
  with assms p show ?thesis
    by (auto simp: grid_ok_def dest!: set_update_subset_insert [THEN subsetD])
qed

lemma block_at_put_block:
  assumes "grid_ok c" and "pos_ok p" and "pos_ok q"
  shows "block_at (put_block c p st) q = (if q = p then st else block_at c q)"
  using assms grid_ok_lengths [OF assms(1)]
  by (cases p; cases q) (auto simp: nth_list_update)

text \<open>
  A store of cells that can be written one at a time. What the decoder of a sub-chunk relies on
  is the law for a whole sequence of writes: the last write to a cell wins.
\<close>

locale cell_store =
  fixes get :: "'s \<Rightarrow> 'p \<Rightarrow> 'v" and put :: "'s \<Rightarrow> 'p \<Rightarrow> 'v \<Rightarrow> 's"
    and store_inv :: "'s \<Rightarrow> bool" and valid :: "'p \<Rightarrow> bool"
  assumes get_put: "store_inv s \<Longrightarrow> valid p \<Longrightarrow> valid q \<Longrightarrow>
      get (put s p v) q = (if q = p then v else get s q)"
    and inv_put: "store_inv s \<Longrightarrow> valid p \<Longrightarrow> store_inv (put s p v)"
begin

lemma inv_puts:
  "store_inv s \<Longrightarrow> \<forall>w \<in> set ws. valid (fst w) \<Longrightarrow>
    store_inv (foldl (\<lambda>s w. put s (fst w) (snd w)) s ws)"
  by (induction ws arbitrary: s) (auto simp: inv_put)

lemma get_puts:
  "store_inv s \<Longrightarrow> \<forall>w \<in> set ws. valid (fst w) \<Longrightarrow> valid q \<Longrightarrow>
    get (foldl (\<lambda>s w. put s (fst w) (snd w)) s ws) q =
      (case map_of (rev ws) q of Some v \<Rightarrow> v | None \<Rightarrow> get s q)"
proof (induction ws rule: rev_induct)
  case (snoc w ws)
  then show ?case
    by (auto simp: get_put inv_puts split: option.splits)
qed simp

end

interpretation chunk_cells: cell_store block_at put_block grid_ok pos_ok
  by unfold_locales (auto simp only: block_at_put_block grid_ok_put_block)

subsection \<open>The operations on well-formed chunks\<close>

lemma addBlock_in_range:
  assumes "grid_ok c" and "pos_ok (x, z, y)"
  shows "addBlock c st (int x) (int y) (int z) = Inr (put_block c (x, z, y) st)"
  using assms grid_ok_lengths [OF assms(1)] by (simp add: addBlock_def)

lemma addBlock_out_of_range:
  assumes "grid_ok c" and "y < 0 \<or> 256 \<le> y" and "x < 16" and "z < 16"
  shows "addBlock c st (int x) y (int z) = Inl Undefined"
  using assms grid_ok_lengths [OF assms(1)] by (auto simp: addBlock_def vec_set_def)

lemma addBlockState_in_range:
  assumes "grid_ok c" and "y < 16"
  shows "addBlockState c (int y) tag =
    Inr (c\<lparr>blockStates := (blockStates c)[y := palette_at c y @ [tag]]\<rparr>)"
  using assms by (simp add: addBlockState_def palette_at_def grid_ok_lengths)

lemma addBlockState_out_of_range:
  assumes "grid_ok c" and "y < 0 \<or> 16 \<le> y"
  shows "addBlockState c y tag = Inl Undefined"
  using assms by (auto simp: addBlockState_def vec_at_def grid_ok_lengths)

lemma addBlockState_keeps:
  assumes "addBlockState c y tag = Inr c'"
  shows "blocks c' = blocks c" "chunk_x c' = chunk_x c" "chunk_z c' = chunk_z c"
    "length (blockStates c') = length (blockStates c)"
    "palette_at c' k = palette_at c k @ (if int k = y then [tag] else [])"
  using assms
  by (auto simp: addBlockState_def palette_at_def res_simps)

lemma grid_ok_addBlockState:
  "grid_ok c \<Longrightarrow> addBlockState c y tag = Inr c' \<Longrightarrow> grid_ok c'"
  using addBlockState_keeps [of c y tag c'] by (simp add: grid_ok_def)

lemma chunk_ok_put_block:
  assumes "chunk_ok c" and "pos_ok (x, z, y)"
    and "st \<in> {- 1, - 2} \<or> 0 \<le> st \<and> st < int (length (palette_at c (y div 16)))"
  shows "chunk_ok (put_block c (x, z, y) st)"
proof -
  have g: "grid_ok c" using assms(1) by (simp add: chunk_ok_def)
  have "palette_at (put_block c (x, z, y) st) k = palette_at c k" for k
    by (simp add: palette_at_def)
  with assms show ?thesis
    by (auto simp: chunk_ok_def block_at_put_block [OF g] grid_ok_put_block [OF g]
        simp del: block_at.simps put_block.simps)
qed

lemma chunk_ok_addBlockState:
  assumes "chunk_ok c" and "addBlockState c y tag = Inr c'"
  shows "chunk_ok c'"
proof -
  have "block_at c' p = block_at c p" for p
    using addBlockState_keeps(1) [OF assms(2)] by (cases p) simp
  then show ?thesis
    using assms addBlockState_keeps(5) [OF assms(2)]
    by (fastforce simp: chunk_ok_def grid_ok_addBlockState simp del: block_at.simps)
qed

lemma getBlock_in_range:
  assumes "chunk_ok c" and "pos_ok (x, z, y)"
  shows "getBlock c (int x) (int y) (int z) =
    Inr \<lparr>state = block_at c (x, z, y),
         stateTag = (if block_at c (x, z, y) < 0 then None
           else Some (palette_at c (y div 16) ! nat (block_at c (x, z, y))))\<rparr>"
proof -
  have g: "grid_ok c" using assms(1) by (simp add: chunk_ok_def)
  note l = grid_ok_lengths [OF g]
  have "y div 16 < length (blockStates c)" using assms(2) l(2) subchunk_of_y [of y] by simp
  then have dy: "vec_at (blockStates c) (int y div 16) = Inr (palette_at c (y div 16))"
    using vec_at_nat [of "y div 16" "blockStates c"] by (simp add: palette_at_def zdiv_int)
  have n: "nat (int y div 16) = y div 16" by (simp add: nat_div_distrib)
  have "0 \<le> block_at c (x, z, y) \<Longrightarrow>
      block_at c (x, z, y) < int (length (palette_at c (y div 16)))"
    using assms by (fastforce simp: chunk_ok_def simp del: block_at.simps)
  then show ?thesis
    using assms(2) l by (auto simp: getBlock_def dy vec_at_def n palette_at_def)
qed

lemma getBlock_above:
  assumes "grid_ok c" and "x < 16" and "z < 16"
  shows "getBlock c (int x) 256 (int z) = Inl Undefined"
  using assms grid_ok_lengths [OF assms(1)] by (simp add: getBlock_def vec_at_def)

lemma getBlock_outside:
  assumes "grid_ok c" and "x < 0 \<or> 16 \<le> x \<or> z < 0 \<or> 16 \<le> z \<or> y < 0 \<or> 256 < y"
  shows "getBlock c x y z = Inr \<lparr>state = - 1, stateTag = None\<rparr>"
  using assms grid_ok_lengths [OF assms(1)]
  by (auto simp: getBlock_def nat_less_iff)

lemma Chunk_freeMemory_ok:
  assumes "grid_ok c"
  shows "Chunk_freeMemory c =
    Inr (concat (map (\<lambda>t. freeMemory t @ [t]) (concat (blockStates c))))"
proof -
  have "free_palettes states ys =
      Inr (concat (map (\<lambda>t. freeMemory t @ [t]) (concat (map (\<lambda>y. states ! y) ys))))"
    if "\<forall>y \<in> set ys. y < length states" for states ys
    using that by (induction ys) auto
  moreover have "map (\<lambda>y. blockStates c ! y) [0..<16] = blockStates c"
    using grid_ok_lengths(2) [OF assms] map_nth [of "blockStates c"] by simp
  ultimately show ?thesis
    using grid_ok_lengths(2) [OF assms] by (simp add: Chunk_freeMemory_def)
qed

subsection \<open>Properties\<close>

text \<open>
  C23: writing a state of the palette into a position of the chunk makes \<open>getBlock\<close> answer that
  state with its palette entry there, and leaves the answer everywhere else, in or out of range, as
  it was (but for the height 256, which \<open>getBlock\<close> reads out of range); the chunk stays well-formed.
\<close>

theorem addBlock_getBlock:
  assumes "chunk_ok c" and "pos_ok (x, z, y)" and "st < length (palette_at c (y div 16))"
  shows "\<exists>c'. addBlock c (int st) (int x) (int y) (int z) = Inr c' \<and> chunk_ok c' \<and>
    getBlock c' (int x) (int y) (int z) =
      Inr \<lparr>state = int st, stateTag = Some (palette_at c (y div 16) ! st)\<rparr> \<and>
    (\<forall>i j k. (i, k, j) \<noteq> (int x, int z, int y) \<and> j \<noteq> 256 \<longrightarrow>
       getBlock c' i j k = getBlock c i j k)"
proof -
  let ?c = "put_block c (x, z, y) (int st)"
  have g: "grid_ok c" using assms(1) by (simp add: chunk_ok_def)
  have p: "palette_at ?c k = palette_at c k" for k by (simp add: palette_at_def)
  have ok: "chunk_ok ?c" by (rule chunk_ok_put_block [OF assms(1,2)]) (use assms(3) in simp)
  then have g': "grid_ok ?c" by (simp add: chunk_ok_def)
  have b: "block_at ?c q = (if q = (x, z, y) then int st else block_at c q)" if "pos_ok q" for q
    by (rule block_at_put_block [OF g assms(2) that])
  have "getBlock ?c i j k = getBlock c i j k"
    if n: "(i, k, j) \<noteq> (int x, int z, int y)" "j \<noteq> 256" for i j k
  proof (cases "0 \<le> i \<and> i < 16 \<and> 0 \<le> k \<and> k < 16 \<and> 0 \<le> j \<and> j < 256")
    case True
    then have q: "pos_ok (nat i, nat k, nat j)" by (simp add: nat_less_iff)
    from True n have "(nat i, nat k, nat j) \<noteq> (x, z, y)" by auto
    then have e: "block_at ?c (nat i, nat k, nat j) = block_at c (nat i, nat k, nat j)"
      using b [OF q] by (simp only: if_False)
    show ?thesis
      using getBlock_in_range [OF ok q] getBlock_in_range [OF assms(1) q] True
      unfolding e p by (simp del: block_at.simps put_block.simps)
  next
    case False
    then have "i < 0 \<or> 16 \<le> i \<or> k < 0 \<or> 16 \<le> k \<or> j < 0 \<or> 256 < j" using n by auto
    with getBlock_outside [OF g] getBlock_outside [OF g'] show ?thesis by metis
  qed
  then show ?thesis
    using addBlock_in_range [OF g assms(2)] ok getBlock_in_range [OF ok assms(2)] b [OF assms(2)]
    by (simp add: p del: block_at.simps put_block.simps)
qed

text \<open>A chunk with one entry in its lowest palette, for the witnesses.\<close>

definition small_chunk :: "NBTTag \<Rightarrow> Chunk" where
  "small_chunk t = new_Chunk\<lparr>blockStates := (blockStates new_Chunk)[0 := [t]]\<rparr>"

lemma chunk_ok_small: "chunk_ok (small_chunk t)" "palette_at (small_chunk t) 0 = [t]"
proof -
  have "addBlockState new_Chunk (int 0) t = Inr (small_chunk t)"
    using addBlockState_in_range [of new_Chunk 0 t] by (simp add: small_chunk_def)
  from chunk_ok_addBlockState [OF _ this] show "chunk_ok (small_chunk t)" by simp
  show "palette_at (small_chunk t) 0 = [t]"
    by (simp add: palette_at_def small_chunk_def new_Chunk_def)
qed

theorem addBlock_getBlock_witness:
  "\<exists>c'. addBlock (small_chunk new_NBTTag) 0 3 5 7 = Inr c' \<and>
    getBlock c' 3 5 7 = Inr \<lparr>state = 0, stateTag = Some new_NBTTag\<rparr>"
  using addBlock_getBlock [of "small_chunk new_NBTTag" 3 7 5 0]
  by (auto simp: chunk_ok_small)

end
