(* ===== verification/World_Data.thy ===== *)
theory World_Data
  imports Chunk
begin

section \<open>The world\<close>

text \<open>
  \<open>WorldData.h\<close> and \<open>WorldData.cpp\<close>: three maps from chunk ids to chunks, one per dimension, the
  translation of block coordinates to a chunk and a position in it, and the lookups. The maps
  hold pointers: a chunk that was found and is then changed changes in the world, which is
  \<open>update_chunk\<close> here.
\<close>

subsection \<open>The data and the operations\<close>

datatype ChunkDimension = OVERWORLD | NETHER | ENDWORLD

record WorldData =
  chunks :: "Chunk umap"
  netherChunks :: "Chunk umap"
  endChunks :: "Chunk umap"

definition new_WorldData :: WorldData where
  "new_WorldData = \<lparr>chunks = [], netherChunks = [], endChunks = []\<rparr>"

definition chunkID :: "int \<Rightarrow> int \<Rightarrow> string" where
  "chunkID x z = int_to_string x @ ''|'' @ int_to_string z"

definition addChunk ::
    "(Chunk umap \<Rightarrow> Chunk umap) \<Rightarrow> WorldData \<Rightarrow> Chunk \<Rightarrow> ChunkDimension \<Rightarrow> WorldData res" where
  "addChunk rehash w c dimension =
     bind_res (initialised (chunk_x c)) (\<lambda>x.
     bind_res (initialised (chunk_z c)) (\<lambda>z.
       let cid = chunkID x z in
       if dimension = OVERWORLD then Inr (w\<lparr>chunks := um_set rehash cid c (chunks w)\<rparr>)
       else if dimension = NETHER
         then Inr (w\<lparr>netherChunks := um_set rehash cid c (netherChunks w)\<rparr>)
       else Inr (w\<lparr>endChunks := um_set rehash cid c (endChunks w)\<rparr>)))"

definition findChunk :: "WorldData \<Rightarrow> string \<Rightarrow> ChunkDimension \<Rightarrow> Chunk option" where
  "findChunk w cid dimension =
     (if dimension = OVERWORLD then map_of (chunks w) cid
      else if dimension = NETHER then map_of (netherChunks w) cid
      else map_of (endChunks w) cid)"

text \<open>
  \<open>floor (x / 16.0)\<close> of an \<open>int\<close> is exact in \<open>double\<close>, so it is the division that rounds
  down; \<open>16 * chunkX\<close> does not overflow.
\<close>

definition World_getBlock ::
    "WorldData \<Rightarrow> int \<Rightarrow> int \<Rightarrow> int \<Rightarrow> ChunkDimension \<Rightarrow> Block res" where
  "World_getBlock w x y z dimension =
     (let chunkX = x div 16; chunkZ = z div 16;
          rawX = x - 16 * chunkX; rawZ = z - 16 * chunkZ
      in case findChunk w (chunkID chunkX chunkZ) dimension of
           None \<Rightarrow> Inr \<lparr>state = - 1, stateTag = None\<rparr>
         | Some c \<Rightarrow> getBlock c rawX y rawZ)"

definition getBlockChunk ::
    "WorldData \<Rightarrow> int \<Rightarrow> int \<Rightarrow> int \<Rightarrow> ChunkDimension \<Rightarrow> Chunk option" where
  "getBlockChunk w x y z dimension =
     (let chunkX = x div 16; chunkZ = z div 16
      in findChunk w (chunkID chunkX chunkZ) dimension)"

text \<open>The chunks \<open>WorldData::freeMemory\<close> deletes, each with the tags deleted before it.\<close>

fun free_chunks :: "Chunk umap \<Rightarrow> (NBTTag list \<times> Chunk) list res" where
  "free_chunks [] = Inr []"
| "free_chunks ((cid, c) # m) =
     bind_res (Chunk_freeMemory c) (\<lambda>tags.
     bind_res (free_chunks m) (\<lambda>rest. Inr ((tags, c) # rest)))"

definition World_freeMemory :: "WorldData \<Rightarrow> (NBTTag list \<times> Chunk) list res" where
  "World_freeMemory w =
     bind_res (free_chunks (chunks w)) (\<lambda>a.
     bind_res (free_chunks (netherChunks w)) (\<lambda>b.
     bind_res (free_chunks (endChunks w)) (\<lambda>c. Inr (a @ b @ c))))"

text \<open>The map of a dimension, and the chunk under an id replaced through its pointer.\<close>

definition dim_map :: "WorldData \<Rightarrow> ChunkDimension \<Rightarrow> Chunk umap" where
  "dim_map w d = (case d of OVERWORLD \<Rightarrow> chunks w | NETHER \<Rightarrow> netherChunks w | ENDWORLD \<Rightarrow> endChunks w)"

definition set_dim_map :: "WorldData \<Rightarrow> ChunkDimension \<Rightarrow> Chunk umap \<Rightarrow> WorldData" where
  "set_dim_map w d m = (case d of OVERWORLD \<Rightarrow> w\<lparr>chunks := m\<rparr>
     | NETHER \<Rightarrow> w\<lparr>netherChunks := m\<rparr> | ENDWORLD \<Rightarrow> w\<lparr>endChunks := m\<rparr>)"

definition update_chunk :: "WorldData \<Rightarrow> string \<Rightarrow> ChunkDimension \<Rightarrow> Chunk \<Rightarrow> WorldData" where
  "update_chunk w cid d c =
     set_dim_map w d (map (\<lambda>n. if fst n = cid then (cid, c) else n) (dim_map w d))"

lemma dim_map_set [simp]:
  "dim_map (set_dim_map w d m) d' = (if d' = d then m else dim_map w d')"
  by (cases d; cases d') (simp_all add: dim_map_def set_dim_map_def)

lemma findChunk_dim_map: "findChunk w cid d = map_of (dim_map w d) cid"
  by (cases d) (simp_all add: findChunk_def dim_map_def)

lemma addChunk_dim_map:
  assumes "chunk_x c = Some x" and "chunk_z c = Some z"
  shows "addChunk rehash w c d =
    Inr (set_dim_map w d (um_set rehash (chunkID x z) c (dim_map w d)))"
  using assms by (cases d) (simp_all add: addChunk_def dim_map_def set_dim_map_def Let_def)

subsection \<open>Chunk ids\<close>

lemma append_bar_inj:
  assumes "CHR ''|'' \<notin> set a" "CHR ''|'' \<notin> set a'" "a @ CHR ''|'' # b = a' @ CHR ''|'' # b'"
  shows "a = a' \<and> b = b'"
  using assms
proof (induction a arbitrary: a')
  case Nil
  then show ?case by (cases a') auto
next
  case (Cons c a)
  then show ?case by (cases a') auto
qed

lemma chunkID_eq_iff [simp]: "chunkID x z = chunkID x' z' \<longleftrightarrow> x = x' \<and> z = z'"
proof
  assume "chunkID x z = chunkID x' z'"
  then have "int_to_string x = int_to_string x' \<and> int_to_string z = int_to_string z'"
    using int_to_string_no_bar [of x] int_to_string_no_bar [of x']
    by (intro append_bar_inj) (simp_all add: chunkID_def)
  then show "x = x' \<and> z = z'" by (auto dest: int_to_string_inj)
qed simp

subsection \<open>Well-formed worlds\<close>

text \<open>Every chunk is well-formed and filed under the id of its own position.\<close>

definition filed_ok :: "string \<Rightarrow> Chunk \<Rightarrow> bool" where
  "filed_ok cid c \<longleftrightarrow> chunk_ok c \<and>
     (case (chunk_x c, chunk_z c) of
        (Some x, Some z) \<Rightarrow> int32_ok x \<and> int32_ok z \<and> cid = chunkID x z
      | _ \<Rightarrow> False)"

definition world_ok :: "WorldData \<Rightarrow> bool" where
  "world_ok w \<longleftrightarrow> (\<forall>d. um_ok (dim_map w d) \<and> (\<forall>(cid, c) \<in> set (dim_map w d). filed_ok cid c))"

lemma world_ok_new [simp]: "world_ok new_WorldData"
proof -
  have "dim_map new_WorldData d = []" for d
    by (cases d) (simp_all add: dim_map_def new_WorldData_def)
  then show ?thesis by (simp add: world_ok_def um_ok_def)
qed

lemma findChunk_new [simp]: "findChunk new_WorldData cid d = None"
  by (simp add: findChunk_def new_WorldData_def)

lemma findChunk_ok: "world_ok w \<Longrightarrow> findChunk w cid d = Some c \<Longrightarrow> filed_ok cid c"
  by (auto simp: world_ok_def findChunk_dim_map dest!: map_of_SomeD)

text \<open>
  What the reader of the database and the commands rely on: an index of chunks by id and
  dimension with lookup, insertion and in-place update.
\<close>

locale chunk_index =
  fixes lookup :: "'w \<Rightarrow> 'k \<Rightarrow> 'c option"
    and insert_at :: "'w \<Rightarrow> 'k \<Rightarrow> 'c \<Rightarrow> 'w"
    and replace_at :: "'w \<Rightarrow> 'k \<Rightarrow> 'c \<Rightarrow> 'w"
    and index_ok :: "'w \<Rightarrow> bool" and fits :: "'k \<Rightarrow> 'c \<Rightarrow> bool"
  assumes lookup_insert: "index_ok w \<Longrightarrow>
      lookup (insert_at w k c) k' = (if k' = k then Some c else lookup w k')"
    and lookup_replace: "index_ok w \<Longrightarrow> lookup w k = Some c0 \<Longrightarrow>
      lookup (replace_at w k c) k' = (if k' = k then Some c else lookup w k')"
    and ok_insert: "index_ok w \<Longrightarrow> fits k c \<Longrightarrow> index_ok (insert_at w k c)"
    and ok_replace: "index_ok w \<Longrightarrow> lookup w k = Some c0 \<Longrightarrow> fits k c \<Longrightarrow>
      index_ok (replace_at w k c)"
begin

text \<open>Opening an entry, inserting the default where it is missing, then replacing it.\<close>

lemma lookup_open_replace:
  assumes "index_ok w" and "fits k dflt"
    and "w1 = (case lookup w k of None \<Rightarrow> insert_at w k dflt | Some _ \<Rightarrow> w)"
  shows "index_ok w1"
    and "lookup w1 k = Some (case lookup w k of None \<Rightarrow> dflt | Some c \<Rightarrow> c)"
    and "lookup (replace_at w1 k c) k' = (if k' = k then Some c else lookup w k')"
    and "fits k c \<Longrightarrow> index_ok (replace_at w1 k c)"
proof -
  show ok1: "index_ok w1"
    using assms by (auto simp: ok_insert split: option.splits)
  show l1: "lookup w1 k = Some (case lookup w k of None \<Rightarrow> dflt | Some c \<Rightarrow> c)"
    using assms by (auto simp: lookup_insert split: option.splits)
  show "lookup (replace_at w1 k c) k' = (if k' = k then Some c else lookup w k')"
    using lookup_replace [OF ok1 l1, of c k'] assms
    by (auto simp: lookup_insert split: option.splits)
  show "index_ok (replace_at w1 k c)" if "fits k c"
    using ok_replace [OF ok1 l1 that] .
qed

end

definition file_chunk ::
    "(Chunk umap \<Rightarrow> Chunk umap) \<Rightarrow> WorldData \<Rightarrow> string \<times> ChunkDimension \<Rightarrow> Chunk \<Rightarrow> WorldData" where
  "file_chunk rehash w k c =
     set_dim_map w (snd k) (um_set rehash (fst k) c (dim_map w (snd k)))"

lemma map_of_update_chunk:
  "findChunk w cid d = Some c0 \<Longrightarrow>
    findChunk (update_chunk w cid d c) cid' d' = (if (cid', d') = (cid, d) then Some c else findChunk w cid' d')"
  by (auto simp: findChunk_dim_map update_chunk_def)

lemma chunk_index_World:
  assumes "unordered_map rehash"
  shows "chunk_index (\<lambda>w k. findChunk w (fst k) (snd k)) (file_chunk rehash)
    (\<lambda>w k c. update_chunk w (fst k) (snd k) c) world_ok (\<lambda>k c. filed_ok (fst k) c)"
proof
  fix w :: WorldData and k k' :: "string \<times> ChunkDimension" and c c0 :: Chunk
  assume w: "world_ok w"
  then have u: "um_ok (dim_map w d)" for d by (simp add: world_ok_def)
  show "findChunk (file_chunk rehash w k c) (fst k') (snd k') =
      (if k' = k then Some c else findChunk w (fst k') (snd k'))"
    by (auto simp: findChunk_dim_map file_chunk_def prod_eq_iff
        unordered_map.map_of_um_set [OF assms u])
  show "world_ok (file_chunk rehash w k c)" if "filed_ok (fst k) c"
    using w that unordered_map.set_um_set [OF assms, of "fst k" c "dim_map w (snd k)"]
      unordered_map.um_ok_set [OF assms u]
    by (fastforce simp: world_ok_def file_chunk_def)
  assume f: "findChunk w (fst k) (snd k) = Some c0"
  show "findChunk (update_chunk w (fst k) (snd k) c) (fst k') (snd k') =
      (if k' = k then Some c else findChunk w (fst k') (snd k'))"
    using map_of_update_chunk [OF f] by (auto simp: prod_eq_iff)
  show "world_ok (update_chunk w (fst k) (snd k) c)" if "filed_ok (fst k) c"
    using w that by (auto simp: world_ok_def update_chunk_def um_ok_def simp del: map_map)
qed

interpretation world_index: chunk_index
  "\<lambda>w k. findChunk w (fst k) (snd k)" "file_chunk front_order"
  "\<lambda>w k c. update_chunk w (fst k) (snd k) c" world_ok "\<lambda>k c. filed_ok (fst k) c"
  by (rule chunk_index_World) unfold_locales

subsection \<open>Lookups\<close>

lemma raw_mod [simp]: "(x :: int) - 16 * (x div 16) = x mod 16"
  by (simp add: minus_mult_div_eq_mod)

text \<open>A coordinate as a chunk coordinate and a position of the chunk.\<close>

definition block_pos :: "int \<Rightarrow> int \<Rightarrow> int \<Rightarrow> pos" where
  "block_pos x y z = (nat (x mod 16), nat (z mod 16), nat y)"

lemma World_getBlock_missing:
  "findChunk w (chunkID (x div 16) (z div 16)) d = None \<Longrightarrow>
    World_getBlock w x y z d = Inr \<lparr>state = - 1, stateTag = None\<rparr>"
  by (simp add: World_getBlock_def Let_def)

lemma World_getBlock_found:
  assumes "world_ok w" and "findChunk w (chunkID (x div 16) (z div 16)) d = Some c"
    and "0 \<le> y" and "y < 256"
  shows "World_getBlock w x y z d =
    Inr \<lparr>state = block_at c (block_pos x y z),
         stateTag = (if block_at c (block_pos x y z) < 0 then None
           else Some (palette_at c (nat y div 16) ! nat (block_at c (block_pos x y z))))\<rparr>"
proof -
  have c: "chunk_ok c" using findChunk_ok [OF assms(1,2)] by (simp add: filed_ok_def)
  have "pos_ok (nat (x mod 16), nat (z mod 16), nat y)"
    using assms(3,4) by (simp add: nat_less_iff)
  from getBlock_in_range [OF c this] assms(2-4) show ?thesis
    by (simp add: World_getBlock_def Let_def block_pos_def)
qed

lemma World_getBlock_outside:
  assumes "world_ok w" and "y < 0 \<or> 256 < y"
  shows "World_getBlock w x y z d = Inr \<lparr>state = - 1, stateTag = None\<rparr>"
proof (cases "findChunk w (chunkID (x div 16) (z div 16)) d")
  case None
  then show ?thesis by (rule World_getBlock_missing)
next
  case (Some c)
  then have "grid_ok c" using findChunk_ok [OF assms(1)] by (simp add: filed_ok_def chunk_ok_def)
  from getBlock_outside [OF this] assms(2) Some show ?thesis
    by (simp add: World_getBlock_def Let_def)
qed

lemma World_getBlock_top:
  assumes "world_ok w" and "findChunk w (chunkID (x div 16) (z div 16)) d = Some c"
  shows "World_getBlock w x 256 z d = Inl Undefined"
proof -
  have "grid_ok c" using findChunk_ok [OF assms] by (simp add: filed_ok_def chunk_ok_def)
  from getBlock_above [OF this, of "nat (x mod 16)" "nat (z mod 16)"] assms(2) show ?thesis
    by (simp add: World_getBlock_def Let_def nat_less_iff)
qed

lemma free_chunks_ok:
  "\<forall>(cid, c) \<in> set m. grid_ok c \<Longrightarrow>
    free_chunks m = Inr (map (\<lambda>(cid, c).
      (concat (map (\<lambda>t. freeMemory t @ [t]) (concat (blockStates c))), c)) m)"
  by (induction m rule: free_chunks.induct) (auto simp: Chunk_freeMemory_ok)

lemma World_freeMemory_ok:
  assumes "world_ok w"
  shows "\<exists>freed. World_freeMemory w = Inr freed \<and>
    map snd freed = map snd (chunks w) @ map snd (netherChunks w) @ map snd (endChunks w)"
proof -
  have "\<forall>(cid, c) \<in> set (dim_map w d). grid_ok c" for d
    using assms by (fastforce simp: world_ok_def filed_ok_def chunk_ok_def)
  from this [of OVERWORLD] this [of NETHER] this [of ENDWORLD] show ?thesis
    by (simp add: World_freeMemory_def free_chunks_ok dim_map_def case_prod_beta comp_def)
qed

subsection \<open>Properties\<close>

text \<open>
  a chunk that has its position is filed by \<open>addChunk\<close> so that \<open>findChunk\<close> answers it under the
  id of that position and in that dimension, and no other answer changes; the world stays
  well-formed, whatever order the map puts its nodes in.
\<close>

theorem addChunk_findChunk:
  assumes "unordered_map rehash" and "world_ok w" and "chunk_ok c"
    and "chunk_x c = Some x" and "chunk_z c = Some z" and "int32_ok x" and "int32_ok z"
  shows "\<exists>w'. addChunk rehash w c d = Inr w' \<and> world_ok w' \<and>
    (\<forall>x' z' d'. findChunk w' (chunkID x' z') d' =
      (if (x', z', d') = (x, z, d) then Some c else findChunk w (chunkID x' z') d'))"
proof -
  have f: "filed_ok (chunkID x z) c" using assms(3-7) by (simp add: filed_ok_def)
  note index = chunk_index_World [OF assms(1)]
  let ?w = "file_chunk rehash w (chunkID x z, d) c"
  have "findChunk ?w (chunkID x' z') d' =
      (if (x', z', d') = (x, z, d) then Some c else findChunk w (chunkID x' z') d')" for x' z' d'
    using chunk_index.lookup_insert [OF index assms(2), of "(chunkID x z, d)" c "(chunkID x' z', d')"]
    by simp
  moreover have "world_ok ?w"
    using chunk_index.ok_insert [OF index assms(2), of "(chunkID x z, d)" c] f by simp
  moreover have "addChunk rehash w c d = Inr ?w"
    using addChunk_dim_map [OF assms(4,5)] by (simp add: file_chunk_def)
  ultimately show ?thesis by blast
qed

text \<open>A world with one chunk at the origin of the overworld, for the witnesses.\<close>

definition origin_chunk :: "NBTTag \<Rightarrow> Chunk" where
  "origin_chunk t = (small_chunk t)\<lparr>chunk_x := Some 0, chunk_z := Some 0\<rparr>"

definition small_world :: "NBTTag \<Rightarrow> WorldData" where
  "small_world t = file_chunk front_order new_WorldData (chunkID 0 0, OVERWORLD) (origin_chunk t)"

lemma palettes_origin: "concat (blockStates (origin_chunk t)) = [t]"
  by (simp add: origin_chunk_def small_chunk_def new_Chunk_def numeral_eq_Suc)

lemma chunk_ok_pos: "chunk_ok (c\<lparr>chunk_x := x, chunk_z := z\<rparr>) \<longleftrightarrow> chunk_ok c"
  by (simp add: chunk_ok_def grid_ok_def palette_at_def)

lemma origin_chunk_ok: "filed_ok (chunkID 0 0) (origin_chunk t)" "chunk_ok (origin_chunk t)"
  by (simp_all add: filed_ok_def origin_chunk_def chunk_ok_pos chunk_ok_small int32_ok_def)

lemma small_world_ok: "world_ok (small_world t)"
  "findChunk (small_world t) (chunkID 0 0) OVERWORLD = Some (origin_chunk t)"
  using world_index.ok_insert [of new_WorldData "(chunkID 0 0, OVERWORLD)" "origin_chunk t"]
    world_index.lookup_insert [of new_WorldData "(chunkID 0 0, OVERWORLD)" "origin_chunk t"
      "(chunkID 0 0, OVERWORLD)"] origin_chunk_ok
  by (simp_all add: small_world_def)

theorem addChunk_findChunk_witness:
  "\<exists>w'. addChunk insertion_order new_WorldData (origin_chunk new_NBTTag) NETHER = Inr w' \<and>
    findChunk w' (chunkID 0 0) NETHER = Some (origin_chunk new_NBTTag) \<and>
    findChunk w' (chunkID 0 0) OVERWORLD = None"
proof -
  have "unordered_map insertion_order" by unfold_locales
  from addChunk_findChunk [OF this world_ok_new origin_chunk_ok(2) [of new_NBTTag], of 0 0 NETHER]
  show ?thesis by (force simp: origin_chunk_def int32_ok_def)
qed

text \<open>
  C24: a lookup in a well-formed world answers, without any access out of range, wherever \<open>y\<close> is not
  256: the state and palette entry of the block in the chunk that is filed there, or the marker of
  an absent block outside the height of the world and where no chunk is loaded.
\<close>

theorem World_getBlock_safe:
  assumes "world_ok w" and "y \<noteq> 256"
  shows "World_getBlock w x y z d = Inr
    (case findChunk w (chunkID (x div 16) (z div 16)) d of
       None \<Rightarrow> \<lparr>state = - 1, stateTag = None\<rparr>
     | Some c \<Rightarrow>
         if y < 0 \<or> 256 \<le> y then \<lparr>state = - 1, stateTag = None\<rparr>
         else let st = block_at c (block_pos x y z) in
           \<lparr>state = st, stateTag = (if st < 0 then None
              else Some (palette_at c (nat y div 16) ! nat st))\<rparr>)"
  using assms(2) World_getBlock_missing [of w x z d y] World_getBlock_outside [OF assms(1), of y x z d]
    World_getBlock_found [OF assms(1), of x z d _ y]
  by (auto simp: Let_def not_le not_less split: option.split)

theorem World_getBlock_safe_witness:
  "World_getBlock (small_world new_NBTTag) 3 255 7 OVERWORLD = Inr \<lparr>state = - 1, stateTag = None\<rparr>"
  using World_getBlock_safe [OF small_world_ok(1), of 255 new_NBTTag 3 7 OVERWORLD]
  by (simp add: small_world_ok block_pos_def origin_chunk_def small_chunk_def new_Chunk_def)

text \<open>
  the height 256 passes the bound check of \<open>getBlock\<close>, which compares with \<open>>\<close>, although the
  columns have 256 blocks: wherever a chunk is loaded, asking for the block at height 256 reads
  past the end of a vector.
\<close>

theorem World_getBlock_height_256:
  assumes "world_ok w" and "findChunk w (chunkID (x div 16) (z div 16)) d = Some c"
  shows "World_getBlock w x 256 z d = Inl Undefined"
  by (rule World_getBlock_top [OF assms])

theorem World_getBlock_height_256_witness:
  "World_getBlock (small_world new_NBTTag) 3 256 7 OVERWORLD = Inl Undefined"
  by (rule World_getBlock_height_256 [OF small_world_ok(1)]) (simp add: small_world_ok)

text \<open>
  C26: freeing a well-formed world deletes each of its chunks, overworld first, then the nether and
  the end, with every tag of their palettes before them, and accesses nothing out of range.
\<close>

theorem World_freeMemory_complete:
  assumes "world_ok w"
  shows "World_freeMemory w = Inr (map (\<lambda>(cid, c).
      (concat (map (\<lambda>t. freeMemory t @ [t]) (concat (blockStates c))), c))
    (chunks w @ netherChunks w @ endChunks w))"
proof -
  have "\<forall>(cid, c) \<in> set (dim_map w d). grid_ok c" for d
    using assms by (fastforce simp: world_ok_def filed_ok_def chunk_ok_def)
  from this [of OVERWORLD] this [of NETHER] this [of ENDWORLD] show ?thesis
    by (simp add: World_freeMemory_def free_chunks_ok dim_map_def)
qed

theorem World_freeMemory_complete_witness:
  "World_freeMemory (small_world new_NBTTag) = Inr [([new_NBTTag], origin_chunk new_NBTTag)]"
  using World_freeMemory_complete [OF small_world_ok(1), of new_NBTTag]
  by (simp add: small_world_def file_chunk_def dim_map_def set_dim_map_def new_WorldData_def
      um_set_def front_order_def palettes_origin) (simp add: new_NBTTag_def)

end
