(* ===== verification/Parse_Bedrock.thy ===== *)
theory Parse_Bedrock
  imports NBT_Parse World_Data
begin

section \<open>Reading the database\<close>

text \<open>
  \<open>parseBedrock\<close> of \<open>ParseBedrock.cpp\<close>: the loop over the records of the database, the test of
  the key, the palettes and the packed block states of a sub-chunk. The database itself is the
  sequence of key/value slices its iterator yields, or \<open>None\<close> where \<open>DB::Open\<close> failed.
\<close>

subsection \<open>Arithmetic of the source\<close>

text \<open>Division of \<open>int\<close>s truncates; by zero it traps.\<close>

definition cdiv :: "int \<Rightarrow> int \<Rightarrow> int res" where
  "cdiv a b = (if b = 0 then Inl DivByZero else Inr (sgn a * sgn b * (\<bar>a\<bar> div \<bar>b\<bar>)))"

text \<open>
  \<open>ceil (4096.0 / blocksPerWord)\<close>: the quotient is infinite for 0, and converting that to
  \<open>int\<close> is undefined; otherwise the rounding of the \<open>double\<close> does not matter to the ceiling.
\<close>

definition num_words :: "int \<Rightarrow> int res" where
  "num_words blocksPerWord =
     (if blocksPerWord = 0 then Inl Undefined else Inr (- ((- 4096) div blocksPerWord)))"

text \<open>
  \<open>(word >> k) & ((1 << bitsPerBlock) - 1)\<close> on \<open>int32_t\<close>: the shift amounts must be below 32, and
  \<open>(1 << 31) - 1\<close> overflows.
\<close>

definition extract_state :: "u32 \<Rightarrow> int \<Rightarrow> int \<Rightarrow> int res" where
  "extract_state w k bitsPerBlock =
     bind_res (guard_res (0 \<le> k \<and> k < 32) Undefined) (\<lambda>_.
     bind_res (guard_res (0 \<le> bitsPerBlock \<and> bitsPerBlock < 31) Undefined) (\<lambda>_.
       Inr (sint (signed_drop_bit (nat k) w AND (push_bit (nat bitsPerBlock) 1 - 1)))))"

subsection \<open>The block states of a storage\<close>

text \<open>The state of the block at \<open>pos\<close>, \<open>- 2\<close> where it is no index of the palette.\<close>

definition block_state :: "int \<Rightarrow> int \<Rightarrow> int \<Rightarrow> u32 \<Rightarrow> nat \<Rightarrow> int res" where
  "block_state bitsPerBlock blocksPerWord paletteSize w pos =
     bind_res (extract_state w ((int pos mod blocksPerWord) * bitsPerBlock) bitsPerBlock) (\<lambda>st.
     bind_res (to_int32 (paletteSize - 1)) (\<lambda>last.
       Inr (if st > last then - 2 else st)))"

text \<open>The loop over the blocks of a word; \<open>i\<close> is the number of the storage.\<close>

fun read_word :: "nat \<Rightarrow> int \<Rightarrow> int \<Rightarrow> int \<Rightarrow> int \<Rightarrow> u32 \<Rightarrow> nat \<Rightarrow> nat \<Rightarrow> Chunk
      \<Rightarrow> (nat \<times> Chunk) res" where
  "read_word i bitsPerBlock blocksPerWord paletteSize chunkY w 0 pos c = Inr (pos, c)"
| "read_word i bitsPerBlock blocksPerWord paletteSize chunkY w (Suc n) pos c =
     bind_res
       (if i = 0 then
          bind_res (block_state bitsPerBlock blocksPerWord paletteSize w pos) (\<lambda>st.
            let rawX = drop_bit 8 pos AND 15; rawY = pos AND 15; rawZ = drop_bit 4 pos AND 15
            in addBlock c st (int rawX) (int rawY + 16 * chunkY) (int rawZ))
        else Inr c) (\<lambda>c.
       read_word i bitsPerBlock blocksPerWord paletteSize chunkY w n (Suc pos) c)"

fun read_words :: "slice \<Rightarrow> nat \<Rightarrow> int \<Rightarrow> int \<Rightarrow> int \<Rightarrow> int \<Rightarrow> nat \<Rightarrow> u32 \<Rightarrow> nat \<Rightarrow> Chunk
      \<Rightarrow> Chunk res" where
  "read_words v i bitsPerBlock blocksPerWord paletteSize chunkY 0 currOffset pos c = Inr c"
| "read_words v i bitsPerBlock blocksPerWord paletteSize chunkY (Suc n) currOffset pos c =
     bind_res (parseInt32 v currOffset) (\<lambda>w.
     bind_res (read_word i bitsPerBlock blocksPerWord paletteSize chunkY w
         (nat blocksPerWord) pos c) (\<lambda>(pos, c).
       read_words v i bitsPerBlock blocksPerWord paletteSize chunkY n (currOffset + 4) pos c))"

fun read_palette :: "(NBTTag umap \<Rightarrow> NBTTag umap) \<Rightarrow> nat \<Rightarrow> slice \<Rightarrow> int \<Rightarrow> nat \<Rightarrow> u32 \<Rightarrow> Chunk
      \<Rightarrow> (u32 \<times> Chunk) res" where
  "read_palette rehash fuel v chunkY 0 currOffset c = Inr (currOffset, c)"
| "read_palette rehash fuel v chunkY (Suc n) currOffset c =
     bind_res (parseNBTTag rehash fuel v currOffset new_NBTTag True) (\<lambda>(currOffset, rootTag).
     bind_res (addBlockState c chunkY rootTag) (\<lambda>c.
       read_palette rehash fuel v chunkY n currOffset c))"

text \<open>
  The loop over the storages, \<open>n\<close> of them left. The result is \<open>False\<close> where the code returns
  \<open>false\<close> from \<open>parseBedrock\<close>. The test \<open>storageVersion & 0x01 == 1\<close> is
  \<open>storageVersion & (0x01 == 1)\<close>, so it is the low bit.
\<close>

fun read_storages :: "(NBTTag umap \<Rightarrow> NBTTag umap) \<Rightarrow> nat \<Rightarrow> slice \<Rightarrow> int \<Rightarrow> nat \<Rightarrow> nat \<Rightarrow> u32 \<Rightarrow> Chunk
      \<Rightarrow> (bool \<times> Chunk) res" where
  "read_storages rehash fuel v chunkY i 0 currOffset c = Inr (True, c)"
| "read_storages rehash fuel v chunkY i (Suc n) currOffset c =
     bind_res (slice_at v (uint currOffset)) (\<lambda>b.
     let storageVersion = sint b; currOffset = currOffset + 1 in
     if odd storageVersion then Inr (False, c)
     else
       let bitsPerBlock = storageVersion div 2 in
       bind_res (cdiv 32 bitsPerBlock) (\<lambda>blocksPerWord.
       bind_res (num_words blocksPerWord) (\<lambda>numWords.
       let blockDataOffset = currOffset; currOffset = currOffset + of_int (numWords * 4) in
       bind_res (parseInt32 v currOffset) (\<lambda>size.
       let paletteSize = sint size; currOffset = currOffset + 4 in
       bind_res (read_palette rehash fuel v chunkY (nat paletteSize) currOffset c)
         (\<lambda>(paletteOffset, c).
       bind_res (read_words v i bitsPerBlock blocksPerWord paletteSize chunkY (nat numWords)
           blockDataOffset 0 c) (\<lambda>c.
         read_storages rehash fuel v chunkY (Suc i) n paletteOffset c))))))"

subsection \<open>Records and the database\<close>

record parse_state =
  world :: WorldData
  totalChunks :: nat
  cerr :: string

text \<open>Keys of 10 and 14 bytes whose ninth or thirteenth byte is \<open>'/'\<close>.\<close>

definition subchunk_key :: "slice \<Rightarrow> bool" where
  "subchunk_key k \<longleftrightarrow> length k = 10 \<and> k ! 8 = 0x2F \<or> length k = 14 \<and> k ! 12 = 0x2F"

definition key_dimension :: "slice \<Rightarrow> ChunkDimension res" where
  "key_dimension k =
     (if length k = 13 \<or> length k = 14 then
        bind_res (parseInt32 k 8) (\<lambda>regionID.
          Inr (if sint regionID = 1 then NETHER else ENDWORLD))
      else Inr OVERWORLD)"

text \<open>One iteration of the loop; \<open>False\<close> is the early \<open>return false\<close>.\<close>

definition parse_record :: "(NBTTag umap \<Rightarrow> NBTTag umap) \<Rightarrow> (Chunk umap \<Rightarrow> Chunk umap) \<Rightarrow> nat
      \<Rightarrow> slice \<times> slice \<Rightarrow> parse_state \<Rightarrow> (bool \<times> parse_state) res" where
  "parse_record rehash rehashc fuel kv st =
     (let (k, v) = kv in
      if \<not> subchunk_key k then Inr (True, st)
      else
        bind_res (parseInt32 k 0) (\<lambda>x.
        bind_res (slice_at k (int (length k) - 1)) (\<lambda>y.
        bind_res (parseInt32 k 4) (\<lambda>z.
        let chunkX = sint x; chunkY = sint y; chunkZ = sint z; cid = chunkID chunkX chunkZ in
        bind_res (key_dimension k) (\<lambda>dimension.
        bind_res (slice_at v 0) (\<lambda>format.
        let chunkFormat = sint format in
        if chunkFormat \<noteq> 8 then
          Inr (True, st\<lparr>cerr := cerr st @ ''Unexpected sub chunk format! ('' @
            int_to_string chunkFormat @ '') Skipping...'' @ [CHR 0x0A]\<rparr>)
        else
        bind_res (case findChunk (world st) cid dimension of
            Some c \<Rightarrow> Inr (c, st)
          | None \<Rightarrow>
              let c = new_Chunk\<lparr>chunk_x := Some chunkX, chunk_z := Some chunkZ\<rparr> in
              bind_res (addChunk rehashc (world st) c dimension) (\<lambda>w.
                Inr (c, st\<lparr>world := w, totalChunks := Suc (totalChunks st)\<rparr>))) (\<lambda>(c, st).
        bind_res (slice_at v 1) (\<lambda>num.
        bind_res (read_storages rehash fuel v chunkY 0 (nat (sint num)) 2 c) (\<lambda>(ok, c).
        let st = st\<lparr>world := update_chunk (world st) cid dimension c\<rparr> in
        if ok then Inr (True, st)
        else Inr (False, st\<lparr>cerr := cerr st @
          ''Error: Block serialized for runtime!'' @ [CHR 0x0A]\<rparr>))))))))))"

fun parse_records :: "(NBTTag umap \<Rightarrow> NBTTag umap) \<Rightarrow> (Chunk umap \<Rightarrow> Chunk umap) \<Rightarrow> nat
      \<Rightarrow> (slice \<times> slice) list \<Rightarrow> parse_state \<Rightarrow> (bool \<times> parse_state) res" where
  "parse_records rehash rehashc fuel [] st = Inr (True, st)"
| "parse_records rehash rehashc fuel (kv # kvs) st =
     bind_res (parse_record rehash rehashc fuel kv st) (\<lambda>(ok, st).
       if ok then parse_records rehash rehashc fuel kvs st else Inr (False, st))"

definition parseBedrock :: "(NBTTag umap \<Rightarrow> NBTTag umap) \<Rightarrow> (Chunk umap \<Rightarrow> Chunk umap) \<Rightarrow> nat
      \<Rightarrow> string \<Rightarrow> (slice \<times> slice) list option \<Rightarrow> WorldData \<Rightarrow> (bool \<times> WorldData \<times> string) res" where
  "parseBedrock rehash rehashc fuel path db w =
     (case db of
        None \<Rightarrow> Inr (False, w, ''Could not open db folder '' @ [CHR 0x27] @ path @ [CHR 0x27, CHR 0x0A])
      | Some kvs \<Rightarrow>
          bind_res (parse_records rehash rehashc fuel kvs
              \<lparr>world = w, totalChunks = 0,
               cerr = ''Reading world save...'' @ [CHR 0x0A]\<rparr>) (\<lambda>(ok, st).
            if ok then Inr (True, world st, cerr st @ ''Total Chunks: '' @
              int_to_string (int (totalChunks st)) @ [CHR 0x0A])
            else Inr (False, world st, cerr st)))"

subsection \<open>Extraction of a state\<close>

lemma extract_state_eq:
  assumes "0 < b" and "b < 31" and "k + b \<le> 32"
  shows "extract_state w (int k) (int b) = Inr (uint (take_bit b (drop_bit k w)))"
proof -
  have m: "(push_bit b 1 - 1 :: u32) = mask b"
    by (simp add: mask_eq_exp_minus_1 push_bit_of_1)
  have t: "take_bit b (signed_drop_bit k w) = take_bit b (drop_bit k w)"
    using assms by (intro bit_word_eqI) (auto simp: bit_simps)
  have "uint (take_bit b (drop_bit k w)) < 2 ^ b"
    by (simp add: unsigned_take_bit_eq)
  also have "(2 :: int) ^ b \<le> 2 ^ 31"
    using assms(2) by (intro power_increasing) simp_all
  finally have "sint (take_bit b (drop_bit k w)) = uint (take_bit b (drop_bit k w))"
    by (intro sint_eq_uint_small) simp
  with assms m t show ?thesis
    by (simp add: extract_state_def take_bit_eq_mask [symmetric])
qed

lemma extract_state_range:
  assumes "extract_state w k b = Inr st"
  shows "0 \<le> st"
proof -
  from assms have b: "0 \<le> b" "b < 31"
    and st: "st = sint (signed_drop_bit (nat k) w AND (push_bit (nat b) 1 - 1))"
    by (auto simp: extract_state_def res_simps)
  let ?x = "signed_drop_bit (nat k) w"
  have m: "(push_bit (nat b) 1 - 1 :: u32) = mask (nat b)"
    by (simp add: mask_eq_exp_minus_1 push_bit_of_1)
  have "uint (take_bit (nat b) ?x) < 2 ^ nat b"
    by (simp add: unsigned_take_bit_eq)
  also have "(2 :: int) ^ nat b \<le> 2 ^ 31"
    using b by (intro power_increasing) simp_all
  finally have "sint (take_bit (nat b) ?x) = uint (take_bit (nat b) ?x)"
    by (intro sint_eq_uint_small) simp
  then show ?thesis
    unfolding st m take_bit_eq_mask [symmetric] by (simp del: push_bit_of_1)
qed

lemma block_state_range:
  assumes "block_state b bpw psize w pos = Inr st"
  shows "st = - 2 \<or> 0 \<le> st \<and> st < psize"
  using assms extract_state_range by (fastforce simp: block_state_def res_simps split: if_splits)

subsection \<open>Well-formed chunks are kept\<close>

lemma addBlock_Inr:
  assumes "grid_ok c" and "addBlock c st x y z = Inr c'"
  obtains "0 \<le> x" "x < 16" "0 \<le> z" "z < 16" "0 \<le> y" "y < 256"
    "c' = put_block c (nat x, nat z, nat y) st"
proof -
  note l = grid_ok_lengths [OF assms(1)]
  from assms(2) have r: "0 \<le> x" "x < 16" "0 \<le> z" "z < int (length (blocks c ! nat x))"
    "0 \<le> y" "y < int (length (blocks c ! nat x ! nat z))"
    by (auto simp: addBlock_def res_simps l)
  then have "pos_ok (nat x, nat z, nat y)" using l by auto
  from addBlock_in_range [OF assms(1) this, of st] assms(2) r
  have "c' = put_block c (nat x, nat z, nat y) st" by simp
  moreover have "z < 16" "y < 256" using r l by auto
  ultimately show thesis using r that by blast
qed

lemma addBlock_chunk_ok:
  assumes "chunk_ok c" and "addBlock c st x (ry + 16 * cy) z = Inr c'"
    and "0 \<le> ry" and "ry < 16"
    and "st = - 2 \<or> 0 \<le> st \<and> st < psize"
    and "psize \<le> int (length (palette_at c (nat cy))) \<or> cy < 0"
  shows "chunk_ok c'"
proof -
  have "grid_ok c" using assms(1) by (simp add: chunk_ok_def)
  from this assms(2) show ?thesis
  proof (rule addBlock_Inr)
    assume r: "0 \<le> x" "x < 16" "0 \<le> z" "z < 16" "0 \<le> ry + 16 * cy" "ry + 16 * cy < 256"
      and c': "c' = put_block c (nat x, nat z, nat (ry + 16 * cy)) st"
    have cy: "0 \<le> cy" using r(5) assms(3,4) by linarith
    have "nat (ry + 16 * cy) div 16 = nat ((ry + 16 * cy) div 16)"
      by (simp add: nat_div_distrib r(5))
    also have "(ry + 16 * cy) div 16 = cy" using assms(3,4) by simp
    finally have d: "nat (ry + 16 * cy) div 16 = nat cy" .
    show ?thesis
      unfolding c'
      by (rule chunk_ok_put_block [OF assms(1)]) (use r assms(5,6) cy in \<open>auto simp: d\<close>)
  qed
qed

text \<open>What stays of a chunk while blocks are written to it.\<close>

definition same_frame :: "Chunk \<Rightarrow> Chunk \<Rightarrow> bool" where
  "same_frame c c' \<longleftrightarrow> chunk_x c' = chunk_x c \<and> chunk_z c' = chunk_z c \<and>
     blockStates c' = blockStates c"

lemma same_frame_refl [simp]: "same_frame c c"
  by (simp add: same_frame_def)

lemma same_frame_trans: "same_frame a b \<Longrightarrow> same_frame b c \<Longrightarrow> same_frame a c"
  by (simp add: same_frame_def)

lemma addBlock_frame: "addBlock c st x y z = Inr c' \<Longrightarrow> same_frame c c'"
  by (auto simp: addBlock_def same_frame_def res_simps)

lemma same_frame_palette: "same_frame c c' \<Longrightarrow> palette_at c' k = palette_at c k"
  by (simp add: same_frame_def palette_at_def)

lemma and_15 [simp]: "(n :: nat) AND 15 = n mod 16"
  using and_exp_eq_0_iff_not_bit take_bit_eq_mask [of 4 n]
  by (simp add: take_bit_eq_mod mask_eq_exp_minus_1)

lemma read_word_keeps:
  assumes "read_word i b bpw psize cy w n pos c = Inr (pos', c')" and "chunk_ok c"
    and "psize \<le> int (length (palette_at c (nat cy))) \<or> cy < 0"
  shows "chunk_ok c' \<and> same_frame c c'"
  using assms
proof (induction n arbitrary: pos c)
  case (Suc n)
  show ?case
  proof (cases "i = 0")
    case False
    with Suc.prems show ?thesis by (intro Suc.IH) (simp_all add: res_simps)
  next
    case True
    with Suc.prems(1) obtain st c1 where
      st: "block_state b bpw psize w pos = Inr st"
      and a: "addBlock c st (int (drop_bit 8 pos mod 16)) (int (pos mod 16) + 16 * cy)
        (int (drop_bit 4 pos mod 16)) = Inr c1"
      and r: "read_word i b bpw psize cy w n (Suc pos) c1 = Inr (pos', c')"
      by (auto simp: res_simps Let_def)
    have c1: "chunk_ok c1"
      using addBlock_chunk_ok [OF Suc.prems(2) a _ _ block_state_range [OF st] Suc.prems(3)]
      by simp
    have f: "same_frame c c1" using addBlock_frame [OF a] .
    have "chunk_ok c' \<and> same_frame c1 c'"
      using Suc.IH [OF r c1] Suc.prems(3) by (simp add: same_frame_palette [OF f])
    with f show ?thesis by (blast intro: same_frame_trans)
  qed
qed auto

lemma read_words_keeps:
  assumes "read_words v i b bpw psize cy n off pos c = Inr c'" and "chunk_ok c"
    and "psize \<le> int (length (palette_at c (nat cy))) \<or> cy < 0"
  shows "chunk_ok c' \<and> same_frame c c'"
  using assms
proof (induction n arbitrary: off pos c)
  case (Suc n)
  from Suc.prems(1) obtain w pos1 c1 where
    w: "read_word i b bpw psize cy w (nat bpw) pos c = Inr (pos1, c1)"
    and r: "read_words v i b bpw psize cy n (off + 4) pos1 c1 = Inr c'"
    by (auto simp: res_simps split: prod.splits)
  from read_word_keeps [OF w Suc.prems(2,3)] have c1: "chunk_ok c1" and f: "same_frame c c1"
    by auto
  have "chunk_ok c' \<and> same_frame c1 c'"
    using Suc.IH [OF r c1] Suc.prems(3) by (simp add: same_frame_palette [OF f])
  with f show ?case by (blast intro: same_frame_trans)
qed auto

lemma read_palette_keeps:
  assumes "read_palette rh fuel v cy n off c = Inr (off', c')" and "chunk_ok c"
  shows "chunk_ok c'" and "chunk_x c' = chunk_x c" and "chunk_z c' = chunk_z c"
    and "n = 0 \<or> 0 \<le> cy \<and> cy < 16"
    and "\<exists>tags. length tags = n \<and>
      (\<forall>k. palette_at c' k = palette_at c k @ (if int k = cy then tags else []))"
proof -
  have "chunk_ok c' \<and> chunk_x c' = chunk_x c \<and> chunk_z c' = chunk_z c \<and>
    (n = 0 \<or> 0 \<le> cy \<and> cy < 16) \<and> (\<exists>tags. length tags = n \<and>
      (\<forall>k. palette_at c' k = palette_at c k @ (if int k = cy then tags else [])))"
    using assms
  proof (induction n arbitrary: off c)
    case (Suc n)
    from Suc.prems(1) obtain off1 tag c1 where
      a: "addBlockState c cy tag = Inr c1"
      and r: "read_palette rh fuel v cy n off1 c1 = Inr (off', c')"
      by (auto simp: res_simps split: prod.splits)
    note c1 = chunk_ok_addBlockState [OF Suc.prems(2) a]
    have "grid_ok c" using Suc.prems(2) by (simp add: chunk_ok_def)
    then have cy: "0 \<le> cy \<and> cy < 16"
      using a addBlockState_out_of_range [of c cy tag] by fastforce
    from Suc.IH [OF r c1] obtain tags where "length tags = n"
      "\<forall>k. palette_at c' k = palette_at c1 k @ (if int k = cy then tags else [])" by blast
    then have "length (tag # tags) = Suc n \<and>
      (\<forall>k. palette_at c' k = palette_at c k @ (if int k = cy then tag # tags else []))"
      using addBlockState_keeps(5) [OF a] by simp
    with Suc.IH [OF r c1] addBlockState_keeps(2,3) [OF a] cy show ?case by metis
  qed auto
  then show "chunk_ok c'" and "chunk_x c' = chunk_x c" and "chunk_z c' = chunk_z c"
    and "n = 0 \<or> 0 \<le> cy \<and> cy < 16"
    and "\<exists>tags. length tags = n \<and>
      (\<forall>k. palette_at c' k = palette_at c k @ (if int k = cy then tags else []))" by blast+
qed

lemma read_storages_keeps:
  assumes "read_storages rh fuel v cy i n off c = Inr (ok, c')" and "chunk_ok c"
  shows "chunk_ok c' \<and> chunk_x c' = chunk_x c \<and> chunk_z c' = chunk_z c"
  using assms
proof (induction n arbitrary: i off c)
  case (Suc n)
  show ?case
  proof (cases "ok = False \<and> c' = c")
    case True
    with Suc.prems show ?thesis by simp
  next
    case False
    with Suc.prems(1) obtain size off1 off2 off3 bb bpw nw c1 c2 where
      p: "read_palette rh fuel v cy (nat (sint (size :: u32))) off1 c = Inr (off2, c1)"
      and w: "read_words v i bb bpw (sint size) cy (nat nw) off3 0 c1 = Inr c2"
      and r: "read_storages rh fuel v cy (Suc i) n off2 c2 = Inr (ok, c')"
      by (auto simp: res_simps Let_def split: prod.splits if_splits)
    note k = read_palette_keeps [OF p Suc.prems(2)]
    have "sint size \<le> int (length (palette_at c1 (nat cy))) \<or> cy < 0"
    proof (cases "cy < 0")
      case False
      from k(5) obtain tags where "length tags = nat (sint size)"
        "palette_at c1 (nat cy) = palette_at c (nat cy) @ tags"
        using False by force
      then show ?thesis by simp
    qed simp
    from read_words_keeps [OF w k(1) this] have "chunk_ok c2" "same_frame c1 c2" by auto
    with Suc.IH [OF r] k(2,3) show ?thesis by (simp add: same_frame_def)
  qed
qed auto

subsection \<open>Well-formed worlds are kept\<close>

lemma sint_byte: "int32_ok (sint (b :: byte))"
  using sint_greater_eq [of b] sint_lt [of b] by (simp add: int32_ok_def)

text \<open>The empty chunk a record opens.\<close>

definition fresh_chunk :: "int \<Rightarrow> int \<Rightarrow> Chunk" where
  "fresh_chunk x z = new_Chunk\<lparr>chunk_x := Some x, chunk_z := Some z\<rparr>"

lemma chunk_ok_position [simp]:
  "chunk_ok (c\<lparr>chunk_x := a\<rparr>) \<longleftrightarrow> chunk_ok c" "chunk_ok (c\<lparr>chunk_z := a\<rparr>) \<longleftrightarrow> chunk_ok c"
proof -
  have b: "block_at (c\<lparr>chunk_x := a\<rparr>) p = block_at c p"
    "block_at (c\<lparr>chunk_z := a\<rparr>) p = block_at c p" for p by (cases p; simp)+
  show "chunk_ok (c\<lparr>chunk_x := a\<rparr>) \<longleftrightarrow> chunk_ok c" "chunk_ok (c\<lparr>chunk_z := a\<rparr>) \<longleftrightarrow> chunk_ok c"
    by (simp_all add: chunk_ok_def grid_ok_def palette_at_def b del: block_at.simps)
qed

lemma fresh_chunk_simps [simp]:
  "chunk_x (fresh_chunk x z) = Some x" "chunk_z (fresh_chunk x z) = Some z"
  "chunk_ok (fresh_chunk x z)" "palette_at (fresh_chunk x z) k = palette_at new_Chunk k"
  "pos_ok p \<Longrightarrow> block_at (fresh_chunk x z) p = - 1"
  using block_at_new [of p]
  by (cases p; simp add: fresh_chunk_def palette_at_def)+

lemma filed_ok_fresh:
  "int32_ok x \<Longrightarrow> int32_ok z \<Longrightarrow> filed_ok (chunkID x z) (fresh_chunk x z)"
  by (simp add: filed_ok_def)

text \<open>The chunk a record is read into, and the state with that chunk in the world.\<close>

definition open_chunk :: "(Chunk umap \<Rightarrow> Chunk umap) \<Rightarrow> parse_state \<Rightarrow> int \<Rightarrow> int \<Rightarrow> ChunkDimension
      \<Rightarrow> Chunk \<times> parse_state" where
  "open_chunk rehashc st x z d =
     (case findChunk (world st) (chunkID x z) d of
        Some c \<Rightarrow> (c, st)
      | None \<Rightarrow> (fresh_chunk x z,
          st\<lparr>world := file_chunk rehashc (world st) (chunkID x z, d) (fresh_chunk x z),
             totalChunks := Suc (totalChunks st)\<rparr>))"

lemma open_chunk_eq:
  "(case findChunk (world st) (chunkID x z) d of
      Some c \<Rightarrow> Inr (c, st)
    | None \<Rightarrow>
        let c = new_Chunk\<lparr>chunk_x := Some x, chunk_z := Some z\<rparr> in
        bind_res (addChunk rehashc (world st) c d) (\<lambda>w.
          Inr (c, st\<lparr>world := w, totalChunks := Suc (totalChunks st)\<rparr>))) =
    Inr (open_chunk rehashc st x z d)"
  by (simp add: open_chunk_def addChunk_dim_map file_chunk_def fresh_chunk_def Let_def
      split: option.split)

text \<open>
  What a record that is decoded does to the world: its chunk is opened and replaced by the chunk
  the storages were read into. The laws of \<open>chunk_index\<close> then say what is found afterwards.
\<close>

lemma parse_record_eq:
  "parse_record rehash rehashc fuel (k, v) st =
     (if \<not> subchunk_key k then Inr (True, st)
      else
        bind_res (parseInt32 k 0) (\<lambda>x.
        bind_res (slice_at k (int (length k) - 1)) (\<lambda>y.
        bind_res (parseInt32 k 4) (\<lambda>z.
        bind_res (key_dimension k) (\<lambda>d.
        bind_res (slice_at v 0) (\<lambda>format.
        if sint format \<noteq> 8 then
          Inr (True, st\<lparr>cerr := cerr st @ ''Unexpected sub chunk format! ('' @
            int_to_string (sint format) @ '') Skipping...'' @ [CHR 0x0A]\<rparr>)
        else
        bind_res (slice_at v 1) (\<lambda>num.
        bind_res (read_storages rehash fuel v (sint y) 0 (nat (sint num)) 2
          (fst (open_chunk rehashc st (sint x) (sint z) d))) (\<lambda>(ok, c).
        let st' = (snd (open_chunk rehashc st (sint x) (sint z) d));
            st = st'\<lparr>world := update_chunk (world st') (chunkID (sint x) (sint z)) d c\<rparr> in
        if ok then Inr (True, st)
        else Inr (False, st\<lparr>cerr := cerr st @
          ''Error: Block serialized for runtime!'' @ [CHR 0x0A]\<rparr>)))))))))"
  by (simp add: parse_record_def Let_def open_chunk_eq case_prod_beta cong: if_cong)

lemma open_chunk_world:
  "world (snd (open_chunk rehashc st x z d)) =
    (case findChunk (world st) (chunkID x z) d of
       None \<Rightarrow> file_chunk rehashc (world st) (chunkID x z, d) (fresh_chunk x z)
     | Some _ \<Rightarrow> world st)"
  "fst (open_chunk rehashc st x z d) =
    (case findChunk (world st) (chunkID x z) d of None \<Rightarrow> fresh_chunk x z | Some c \<Rightarrow> c)"
  by (simp_all add: open_chunk_def split: option.split)

text \<open>The chunk that is opened fits its id, and so does the chunk it is replaced by.\<close>

lemma open_chunk_fits:
  assumes "world_ok (world st)" and "int32_ok x" and "int32_ok z"
  shows "filed_ok (chunkID x z) (fst (open_chunk rehashc st x z d))"
  using assms findChunk_ok [OF assms(1), of "chunkID x z" d]
  by (auto simp: open_chunk_world filed_ok_fresh split: option.split)

lemma open_replace_world:
  assumes "unordered_map rehashc" and "world_ok (world st)" and "int32_ok x" and "int32_ok z"
    and "w' = update_chunk (world (snd (open_chunk rehashc st x z d))) (chunkID x z) d c"
  shows "findChunk w' cid' d' = (if (cid', d') = (chunkID x z, d) then Some c
      else findChunk (world st) cid' d')"
    and "filed_ok (chunkID x z) c \<Longrightarrow> world_ok w'"
proof -
  note laws = chunk_index.lookup_open_replace [OF chunk_index_World [OF assms(1)] assms(2),
      of "(chunkID x z, d)", simplified, OF filed_ok_fresh [OF assms(3,4)] refl]
  show "findChunk w' cid' d' = (if (cid', d') = (chunkID x z, d) then Some c
      else findChunk (world st) cid' d')"
    using laws(3) [of c "(cid', d')"] by (simp add: assms(5) open_chunk_world(1))
  show "world_ok w'" if "filed_ok (chunkID x z) c"
    using laws(4) [of c] that by (simp add: assms(5) open_chunk_world(1))
qed

lemma filed_ok_read:
  assumes "filed_ok (chunkID x z) c" and "read_storages rh fuel v cy i n off c = Inr (ok, c')"
  shows "filed_ok (chunkID x z) c'"
  using assms read_storages_keeps [OF assms(2)] by (simp add: filed_ok_def)

lemma parse_record_world_ok:
  assumes "unordered_map rehashc" and "world_ok (world st)"
    and "parse_record rehash rehashc fuel kv st = Inr (ok, st')"
  shows "world_ok (world st')"
proof -
  obtain k v where kv: "kv = (k, v)" by (cases kv)
  show ?thesis
  proof (cases "world st' = world st")
    case True
    with assms(2) show ?thesis by simp
  next
    case False
    from assms(3) [unfolded kv parse_record_eq] False obtain x z d y n off c where
      r: "read_storages rehash fuel v y 0 n off (fst (open_chunk rehashc st (sint (x :: u32)) (sint (z :: u32)) d)) = Inr (ok, c)"
      and w: "world st' = update_chunk (world (snd (open_chunk rehashc st (sint x) (sint z) d)))
        (chunkID (sint x) (sint z)) d c"
      by (auto simp: res_simps Let_def split: if_splits prod.splits)
    have "filed_ok (chunkID (sint x) (sint z)) c"
      by (rule filed_ok_read [OF open_chunk_fits r]) (simp_all add: assms(2))
    with open_replace_world(2) [OF assms(1,2) int32_ok_sint int32_ok_sint w] show ?thesis .
  qed
qed

lemma parse_records_world_ok:
  assumes "unordered_map rehashc"
  shows "world_ok (world st) \<Longrightarrow> parse_records rehash rehashc fuel kvs st = Inr (ok, st') \<Longrightarrow>
    world_ok (world st')"
proof (induction kvs arbitrary: st)
  case (Cons kv kvs)
  from Cons.prems(2) obtain ok1 st1 where
    p: "parse_record rehash rehashc fuel kv st = Inr (ok1, st1)"
    and r: "(if ok1 then parse_records rehash rehashc fuel kvs st1 else Inr (False, st1)) =
      Inr (ok, st')"
    by (auto simp: res_simps)
  from parse_record_world_ok [OF assms Cons.prems(1) p] have "world_ok (world st1)" .
  with r show ?case by (cases ok1) (auto intro: Cons.IH)
qed simp

lemma parseBedrock_world_ok:
  assumes "unordered_map rehashc" and "world_ok w"
    and "parseBedrock rehash rehashc fuel path db w = Inr (ok, w', log)"
  shows "world_ok w'"
proof (cases db)
  case None
  with assms(2,3) show ?thesis by (simp add: parseBedrock_def)
next
  case (Some kvs)
  with assms(3) obtain ok1 st1 where
    r: "parse_records rehash rehashc fuel kvs \<lparr>world = w, totalChunks = 0,
      cerr = ''Reading world save...'' @ [CHR 0x0A]\<rparr> = Inr (ok1, st1)" and "w' = world st1"
    by (auto simp: parseBedrock_def res_simps split: if_splits)
  with parse_records_world_ok [OF assms(1) _ r] assms(2) show ?thesis by simp
qed

subsection \<open>Fuel\<close>

text \<open>
  A value shorter than \<open>2 ^ 15\<close> bytes never exhausts a fuel above its length. Values from that
  size on can: \<open>parseShort\<close> then reads elsewhere in the value than the offset says.
\<close>

lemma addBlock_not_OutOfFuel [simp]: "addBlock c st x y z \<noteq> Inl OutOfFuel"
  by (auto simp: addBlock_def res_simps vec_at_def vec_set_def)

lemma addBlockState_not_OutOfFuel [simp]: "addBlockState c y t \<noteq> Inl OutOfFuel"
  by (auto simp: addBlockState_def res_simps vec_at_def vec_set_def)

lemma block_state_not_OutOfFuel [simp]: "block_state b bpw psize w pos \<noteq> Inl OutOfFuel"
  by (auto simp: block_state_def extract_state_def to_int32_def res_simps)

lemma read_word_not_OutOfFuel [simp]: "read_word i b bpw psize cy w n pos c \<noteq> Inl OutOfFuel"
  by (induction n arbitrary: pos c) (auto simp: res_simps Let_def)

lemma read_words_not_OutOfFuel [simp]:
  "read_words v i b bpw psize cy n off pos c \<noteq> Inl OutOfFuel"
  by (induction n arbitrary: off pos c) (auto simp: res_simps split: prod.splits)

lemma read_palette_fuel:
  assumes "length v < 2 ^ 15" and "length v < fuel" and "unat off \<le> length v"
  shows "read_palette rh fuel v cy n off c \<noteq> Inl OutOfFuel"
  using assms(3)
proof (induction n arbitrary: off c)
  case (Suc n)
  have p: "parseNBTTag rh fuel v off new_NBTTag True \<noteq> Inl OutOfFuel"
    using assms Suc.prems by (intro parseNBTTag_fuel) simp_all
  show ?case
    using p Suc.IH parseNBTTag_bounds [OF assms(1) Suc.prems]
    by (fastforce simp: res_simps split: prod.splits)
qed simp

lemma parseInt32_in_slice:
  assumes "length s < 2 ^ 15" and "parseInt32 s off = Inr v"
  shows "unat (off + 4) \<le> length s"
proof -
  from assms(2) have i: "0 \<le> sint off" "sint off < int (length s)"
    by (auto simp: parseInt32_eq res_simps)
  then have "unat off \<le> length s" using unat_of_sint [OF i(1)] by simp
  from parseInt32_advance [OF assms(1) this assms(2)] show ?thesis by simp
qed

lemma quotient_not_OutOfFuel [simp]:
  "cdiv a b \<noteq> Inl OutOfFuel" "num_words a \<noteq> Inl OutOfFuel"
  by (simp_all add: cdiv_def num_words_def)

lemma read_storages_fuel:
  assumes "length v < 2 ^ 15" and "length v < fuel"
  shows "read_storages rh fuel v cy i n off c \<noteq> Inl OutOfFuel"
proof (induction n arbitrary: i off c)
  case (Suc n)
  note p = read_palette_fuel [OF assms parseInt32_in_slice [OF assms(1)]]
  show ?case
    unfolding read_storages.simps Let_def
    by (intro bind_res_neq_Inl slice_at_not_OutOfFuel; split if_split;
        intro conjI impI bind_res_neq_Inl quotient_not_OutOfFuel parseInt32_not_OutOfFuel;
        (erule p)?; simp add: Suc.IH bind_res_neq_Inl split: prod.split)
qed simp

lemma parse_record_fuel:
  assumes "length (snd kv) < 2 ^ 15" and "length (snd kv) < fuel"
  shows "parse_record rehash rehashc fuel kv st \<noteq> Inl OutOfFuel"
proof -
  obtain k v where kv: "kv = (k, v)" by (cases kv)
  have "key_dimension k \<noteq> Inl OutOfFuel" by (auto simp: key_dimension_def res_simps)
  with assms read_storages_fuel [of v fuel] show ?thesis
    by (auto simp: kv parse_record_eq res_simps Let_def split: prod.splits if_splits)
qed

lemma parse_records_fuel:
  assumes "\<forall>kv \<in> set kvs. length (snd kv) < 2 ^ 15 \<and> length (snd kv) < fuel"
  shows "parse_records rehash rehashc fuel kvs st \<noteq> Inl OutOfFuel"
  using assms
proof (induction kvs arbitrary: st)
  case (Cons kv kvs)
  then show ?case
    using parse_record_fuel [of kv fuel rehash rehashc st]
    by (auto simp: res_simps split: prod.splits if_splits)
qed simp

subsection \<open>Properties\<close>

text \<open>
  C1: whatever bytes the database holds, if reading it returns, successfully or not, the world it
  leaves is well-formed: every chunk has the full grid, is filed under its own position, and every
  block state is a marker or an index of the palette of its sub-chunk. So the later lookups are in
  range although \<open>getBlock\<close> does not check them.
\<close>

theorem parseBedrock_well_formed:
  assumes "unordered_map rehashc" and "world_ok w"
    and "parseBedrock rehash rehashc fuel path db w = Inr (ok, w', log)"
  shows "world_ok w'"
  by (rule parseBedrock_world_ok [OF assms])

theorem parseBedrock_well_formed_witness:
  "\<exists>w' log. parseBedrock front_order front_order 9 ''db'' (Some [
      ([1, 0, 0, 0, 2, 0, 0, 0, 0x2F, 0], [8, 0]),
      ([1, 0, 0, 0, 2, 0, 0, 0, 0x2D], [1])]) new_WorldData = Inr (True, w', log) \<and> world_ok w'"
  (is "\<exists>w' log. ?p = _ \<and> _")
proof -
  have "\<exists>w' log. ?p = Inr (True, w', log)"
    by (simp add: parseBedrock_def parse_record_def subchunk_key_def parseInt32_eq slice_at_def
        key_dimension_def addChunk_def Let_def)
  with parseBedrock_well_formed [OF front.unordered_map_axioms world_ok_new] show ?thesis by blast
qed

text \<open>
  C28: reading the database always comes to an end: where every value is shorter than \<open>2 ^ 15\<close> bytes
  and than the bound on the recursion, the bound is not reached, whatever the bytes are.
\<close>

theorem parseBedrock_terminates:
  assumes "\<forall>kv \<in> set kvs. length (snd kv) < 2 ^ 15 \<and> length (snd kv) < fuel"
  shows "parseBedrock rehash rehashc fuel path (Some kvs) w \<noteq> Inl OutOfFuel"
  using parse_records_fuel [OF assms] by (auto simp: parseBedrock_def res_simps split: prod.splits)

theorem parseBedrock_terminates_witness:
  "parseBedrock front_order front_order 5 ''db''
    (Some [([1, 0, 0, 0, 2, 0, 0, 0, 0x2F, 0], [8, 1, 4, 9])]) new_WorldData \<noteq> Inl OutOfFuel"
  by (rule parseBedrock_terminates) simp

end
