(* ===== verification/Commands.thy ===== *)
theory Commands
  imports Complex_Main Parse_Bedrock
begin

section \<open>The commands\<close>

text \<open>
  \<open>ChunkViewer.cpp\<close>: the parsing of coordinates and flags, the \<open>what\<close>, \<open>graph\<close> and \<open>help\<close>
  commands, \<open>drawSlice\<close> and the command loop of \<open>main\<close>. The standard output is a string; a
  written file is the sequence of values the code inserts into it, a \<open>double\<close> as the exact
  value of its expression. What the file system answers to \<open>stat\<close> and \<open>open\<close> is a parameter.
\<close>

subsection \<open>Files and input\<close>

datatype token = Str string | Num int | Dbl rat | Endl

type_synonym filesys = "string \<rightharpoonup> token list"

text \<open>
  \<open>stat_ok fs path\<close>: \<open>stat\<close> succeeds on \<open>path\<close> after the program left the files \<open>fs\<close>;
  \<open>can_open fs path\<close>: the file can be opened for writing.
\<close>

record environment =
  stat_ok :: "filesys \<Rightarrow> string \<Rightarrow> bool"
  can_open :: "filesys \<Rightarrow> string \<Rightarrow> bool"

text \<open>The lines \<open>getline\<close> yields and the words \<open>operator>>\<close> extracts from a line.\<close>

fun getlines_acc :: "string \<Rightarrow> string \<Rightarrow> string list" where
  "getlines_acc acc [] = (if acc = [] then [] else [acc])"
| "getlines_acc acc (c # cs) =
     (if c = CHR 0x0A then acc # getlines_acc [] cs else getlines_acc (acc @ [c]) cs)"

definition getlines :: "string \<Rightarrow> string list" where
  "getlines s = getlines_acc [] s"

fun words_acc :: "string \<Rightarrow> string \<Rightarrow> string list" where
  "words_acc acc [] = (if acc = [] then [] else [acc])"
| "words_acc acc (c # cs) =
     (if isspace c then (if acc = [] then words_acc [] cs else acc # words_acc [] cs)
      else words_acc (acc @ [c]) cs)"

definition words_of :: "string \<Rightarrow> string list" where
  "words_of line = words_acc [] line"

text \<open>\<open>ss >> word\<close>: at the end of the stream the variable keeps its value.\<close>

definition next_word :: "string list \<Rightarrow> string \<Rightarrow> string \<times> string list" where
  "next_word ts w = (case ts of [] \<Rightarrow> (w, []) | t # ts' \<Rightarrow> (t, ts'))"

definition line_end :: string where
  "line_end = [CHR 0x0A]"

definition quoted :: "string \<Rightarrow> string" where
  "quoted s = CHR 0x27 # s @ [CHR 0x27]"

subsection \<open>Parameters\<close>

text \<open>
  The loop over the characters between the parentheses: the field a character belongs to is the
  number of commas before it, and a character after a third comma stops the loop.
\<close>

fun coords_loop :: "string \<Rightarrow> nat \<Rightarrow> string \<times> string \<times> string
      \<Rightarrow> bool \<times> nat \<times> string \<times> string \<times> string" where
  "coords_loop [] currentPos (xs, ys, zs) = (True, currentPos, xs, ys, zs)"
| "coords_loop (c # cs) currentPos (xs, ys, zs) =
     (if c = CHR '','' then coords_loop cs (Suc currentPos) (xs, ys, zs)
      else if currentPos = 0 then coords_loop cs currentPos (xs @ [c], ys, zs)
      else if currentPos = 1 then coords_loop cs currentPos (xs, ys @ [c], zs)
      else if currentPos = 2 then coords_loop cs currentPos (xs, ys, zs @ [c])
      else (False, currentPos, xs, ys, zs))"

definition coords_message :: string where
  "coords_message = ''Coordinates must be in format (x,y,z)'' @ line_end"

text \<open>The coordinates, or \<open>None\<close> for the null pointer; the second component is what is printed.\<close>

definition parseCoords :: "string \<Rightarrow> (int \<times> int \<times> int) option \<times> string" where
  "parseCoords w =
     (if w = [] \<or> hd w \<noteq> CHR ''('' \<or> last w \<noteq> CHR '')'' then (None, coords_message)
      else
        let (valid, currentPos, xs, ys, zs) = coords_loop (butlast (tl w)) 0 ([], [], []) in
        case (stoi xs, stoi ys, stoi zs) of
          (Some x, Some y, Some z) \<Rightarrow>
            if \<not> valid \<or> currentPos \<noteq> 2 then (None, coords_message) else (Some (x, y, z), [])
        | _ \<Rightarrow> (None, coords_message))"

definition parseInt :: "string \<Rightarrow> int option \<times> string" where
  "parseInt w =
     (case stoi w of
        Some i \<Rightarrow> (Some i, [])
      | None \<Rightarrow> (None, ''Error on parameter '' @ quoted w @ '': Integer expected.'' @ line_end))"

definition parse_dimension :: "string \<Rightarrow> ChunkDimension option" where
  "parse_dimension w =
     (if w = ''overworld'' then Some OVERWORLD else if w = ''nether'' then Some NETHER
      else if w = ''end'' then Some ENDWORLD else None)"

definition dimension_message :: string where
  "dimension_message = ''Dimension must be overworld, nether, or end.'' @ line_end"

subsection \<open>\<open>drawSlice\<close>\<close>

text \<open>One block: the texture, then the position, unless the name is \<open>air\<close>.\<close>

definition draw_block :: "(string \<Rightarrow> bool) \<Rightarrow> Chunk \<Rightarrow> int \<Rightarrow> int \<Rightarrow> int \<Rightarrow> nat \<Rightarrow> token list res" where
  "draw_block exists c rawX y rawZ index =
     bind_res (getBlock c rawX y rawZ) (\<lambda>b.
     bind_res
       (if state b \<ge> 0 then
          bind_res (initialised (stateTag b)) (\<lambda>tag.
          bind_res (inner_string tag ''name'') (\<lambda>full.
          bind_res (guard_res (10 \<le> length full) Uncaught) (\<lambda>_.
          let name = drop 10 full; path = ''./blocks-eps/'' @ name @ ''.eps'' in
          bind_res (getBlockType tag) (\<lambda>blockType.
            Inr (name,
              if name \<noteq> ''air'' \<or> blockType \<noteq> ''NULL'' then
                Str ''newcurve eps '' #
                (if blockType = ''NULL'' \<and> exists path then [Str path, Str '' '']
                 else
                   let path = ''./blocks-eps/'' @ blockType @ ''.eps'' in
                   if exists path then [Str path, Str '' '']
                   else [Str ''./blocks-eps/unknown.eps ''])
              else [])))))
        else if state b = - 2 then Inr ([], [Str ''newcurve eps ./blocks-eps/barrier.eps ''])
        else Inr ([], [Str ''newcurve eps ./blocks-eps/unknown.eps ''])) (\<lambda>(name, out).
     Inr (out @ (if name \<noteq> ''air''
       then [Str ''marksize 1 1 pts '', Dbl (52 / 100 + of_nat index), Str '' '',
         Dbl (52 / 100 + of_int y), Endl]
       else []))))"

text \<open>The two loops: columns in the order of the facing, \<open>y\<close> upwards in each.\<close>

fun draw_column :: "(string \<Rightarrow> bool) \<Rightarrow> Chunk \<Rightarrow> int \<Rightarrow> int \<Rightarrow> nat \<Rightarrow> int list \<Rightarrow> token list res" where
  "draw_column exists c rawX rawZ index [] = Inr []"
| "draw_column exists c rawX rawZ index (y # ys) =
     bind_res (draw_block exists c rawX y rawZ index) (\<lambda>a.
     bind_res (draw_column exists c rawX rawZ index ys) (\<lambda>b. Inr (a @ b)))"

fun draw_columns :: "(string \<Rightarrow> bool) \<Rightarrow> Chunk \<Rightarrow> string \<Rightarrow> int \<Rightarrow> int \<Rightarrow> int list \<Rightarrow> nat \<Rightarrow> int list
      \<Rightarrow> token list res" where
  "draw_columns exists c facing rawX rawZ ys index [] = Inr []"
| "draw_columns exists c facing rawX rawZ ys index (i # is) =
     (let (rawX, rawZ) = (if facing = ''n'' \<or> facing = ''s'' then (i, rawZ) else (rawX, i)) in
      bind_res (draw_column exists c rawX rawZ index ys) (\<lambda>a.
      bind_res (draw_columns exists c facing rawX rawZ ys (Suc index) is) (\<lambda>b.
        Inr (a @ b))))"

definition drawSlice :: "(string \<Rightarrow> bool) \<Rightarrow> Chunk \<Rightarrow> int \<times> int \<times> int \<Rightarrow> string \<Rightarrow> int \<Rightarrow> int
      \<Rightarrow> token list res" where
  "drawSlice exists c xyz facing yMin yMax =
     (let (x, y, z) = xyz in
      bind_res (initialised (chunk_x c)) (\<lambda>cx.
      bind_res (to_int32 (16 * cx)) (\<lambda>ox.
      bind_res (to_int32 (x - ox)) (\<lambda>rawX.
      bind_res (initialised (chunk_z c)) (\<lambda>cz.
      bind_res (to_int32 (16 * cz)) (\<lambda>oz.
      bind_res (to_int32 (z - oz)) (\<lambda>rawZ.
        draw_columns exists c facing rawX rawZ [yMin..yMax - 1] 0
          (if facing = ''n'' \<or> facing = ''e'' then [0..15] else rev [0..15]))))))))"

subsection \<open>The commands\<close>

text \<open>The state of the command loop; \<open>word\<close> keeps its value from one line to the next.\<close>

record viewer =
  word :: string
  cout :: string
  files :: filesys

definition say :: "string \<Rightarrow> viewer \<Rightarrow> viewer" where
  "say s st = st\<lparr>cout := cout st @ s\<rparr>"

text \<open>
  The flags of \<open>what block\<close>. A bad dimension deletes the coordinates and continues with the next
  flag: \<open>freed\<close> records that, and a second \<open>delete[]\<close> of them is undefined.
\<close>

fun what_flags :: "string list \<Rightarrow> ChunkDimension \<Rightarrow> bool \<Rightarrow> viewer
      \<Rightarrow> (ChunkDimension \<times> bool \<times> viewer) res" where
  "what_flags [] dimn freed st = Inr (dimn, freed, st)"
| "what_flags [w] dimn freed st =
     (if w = ''-d'' then
        if freed then Inl Undefined
        else Inr (dimn, True, say (dimension_message @ ''cv> '') (st\<lparr>word := w\<rparr>))
      else Inr (dimn, freed, st\<lparr>word := w\<rparr>))"
| "what_flags (w # u # ws) dimn freed st =
     (if w = ''-d'' then
        (case parse_dimension u of
           Some d \<Rightarrow> what_flags ws d freed (st\<lparr>word := u\<rparr>)
         | None \<Rightarrow>
             if freed then Inl Undefined
             else what_flags ws dimn True (say (dimension_message @ ''cv> '') (st\<lparr>word := u\<rparr>)))
      else what_flags (u # ws) dimn freed (st\<lparr>word := w\<rparr>))"

text \<open>\<open>what block\<close>; reading the coordinates after they were deleted is undefined.\<close>

definition what_block :: "WorldData \<Rightarrow> string list \<Rightarrow> viewer \<Rightarrow> viewer res" where
  "what_block wd ts st =
     (let (w, ts) = next_word ts (word st); st = st\<lparr>word := w\<rparr>;
          (xyz, msg) = parseCoords w; st = say msg st in
      case xyz of
        None \<Rightarrow> Inr st
      | Some (x, y, z) \<Rightarrow>
          bind_res (what_flags ts OVERWORLD False st) (\<lambda>(dimn, freed, st).
          bind_res (guard_res (\<not> freed) Undefined) (\<lambda>_.
          bind_res (World_getBlock wd x y z dimn) (\<lambda>b.
            if state b < 0 then Inr (say (''Block not valid for this world.'' @ line_end) st)
            else
              bind_res (initialised (stateTag b)) (\<lambda>tag.
                Inr (say (''Block at ('' @ int_to_string x @ '','' @ int_to_string y @ '','' @
                  int_to_string z @ '') is '' @ printInnerTags tag @ line_end) st))))))"

text \<open>The flags of \<open>graph block\<close>; \<open>None\<close> is the break with \<open>foundFlags = false\<close>.\<close>

record graph_params =
  g_dim :: ChunkDimension
  g_facing :: string
  g_yMin :: int
  g_yMax :: int

fun graph_flags :: "nat \<Rightarrow> string list \<Rightarrow> graph_params \<Rightarrow> viewer
      \<Rightarrow> (graph_params option \<times> viewer) res" where
  "graph_flags 0 ts p st = Inl OutOfFuel"
| "graph_flags (Suc n) [] p st = Inr (Some p, st)"
| "graph_flags (Suc n) (w # ts) p st =
     (let (u, us) = next_word ts w; st' = st\<lparr>word := u\<rparr> in
      if w = ''-d'' then
        (case parse_dimension u of
           Some d \<Rightarrow> graph_flags n us (p\<lparr>g_dim := d\<rparr>) st'
         | None \<Rightarrow> Inr (None, say dimension_message st'))
      else if w = ''-f'' then
        (if u \<noteq> ''n'' \<and> u \<noteq> ''s'' \<and> u \<noteq> ''e'' \<and> u \<noteq> ''w''
         then Inr (None, say (''Direction must be n, s, e, or w.'' @ line_end) st')
         else graph_flags n us (p\<lparr>g_facing := u\<rparr>) st')
      else if w = ''-ymin'' then
        (case parseInt u of
           (Some v, _) \<Rightarrow> graph_flags n us (p\<lparr>g_yMin := v\<rparr>) st'
         | (None, msg) \<Rightarrow> Inr (None, say msg st'))
      else if w = ''-ymax'' then
        (case parseInt u of
           (Some v, _) \<Rightarrow> bind_res (to_int32 (v + 1)) (\<lambda>v.
             graph_flags n us (p\<lparr>g_yMax := v\<rparr>) st')
         | (None, msg) \<Rightarrow> Inr (None, say msg st'))
      else Inr (None, say (quoted w @ '' is not a valid flag.'' @ line_end) (st\<lparr>word := w\<rparr>)))"

definition graph_header :: "string \<Rightarrow> int \<Rightarrow> int \<Rightarrow> token list" where
  "graph_header facing yMin yMax =
     [Str ''newgraph'', Endl, Str ''x_translate -7'', Endl,
      Str ''y_translate '', Dbl ((64 / of_int (yMax - yMin) - 1) * (- 1)), Endl,
      Str ''xaxis min 0 max 16 size '', Dbl (5 / 2),
      Str '' hash 4 mhash 3 label : Block '',
      Str (if facing = ''n'' \<or> facing = ''s'' then ''X'' else ''Z''), Endl,
      Str ''yaxis min '', Num yMin, Str '' max '', Num yMax,
      Str '' size '', Dbl (5 / 2 * (of_int (yMax - yMin) / 16)),
      Str '' hash 4 mhash 3 label : Block Y'', Endl]"

text \<open>
  The part after the parameters: the bounds, the chunk, the file. \<open>perror\<close> writes to the standard
  error, which is not part of the state.
\<close>

definition graph_draw :: "environment \<Rightarrow> WorldData \<Rightarrow> int \<times> int \<times> int \<Rightarrow> string \<Rightarrow> graph_params \<Rightarrow> viewer
      \<Rightarrow> viewer res" where
  "graph_draw env wd xyz fileName p st =
     (let (x, y, z) = xyz; yMin = g_yMin p; yMax = g_yMax p in
      if yMax < 0 \<or> yMax \<le> yMin \<or> yMin < 0 then
        Inr (say (''Graph bounds must be positive and (y > 0)'' @ line_end) st)
      else
        case getBlockChunk wd x y z (g_dim p) of
          None \<Rightarrow> Inr (say (''Block not valid for this world.'' @ line_end) st)
        | Some c \<Rightarrow>
            let st = st\<lparr>files := (files st)(fileName := None)\<rparr> in
            if \<not> can_open env (files st) fileName then Inr st
            else
              let fs = (files st)(fileName \<mapsto> []) in
              bind_res (drawSlice (stat_ok env fs) c xyz (g_facing p) yMin yMax) (\<lambda>out.
                Inr (st\<lparr>files := fs(fileName \<mapsto> graph_header (g_facing p) yMin yMax @ out)\<rparr>)))"

definition graph_block :: "environment \<Rightarrow> WorldData \<Rightarrow> string list \<Rightarrow> viewer \<Rightarrow> viewer res" where
  "graph_block env wd ts st =
     (let (w, ts) = next_word ts (word st); st = st\<lparr>word := w\<rparr>;
          (xyz, msg) = parseCoords w; st = say msg st in
      case xyz of
        None \<Rightarrow> Inr st
      | Some (x, y, z) \<Rightarrow>
          let yMin = y div 16 * 16 in
          bind_res (to_int32 (yMin + 16)) (\<lambda>yMax.
          let (fileName, ts) = next_word ts [] in
          if \<not> (\<exists>ch \<in> set fileName. ch \<noteq> CHR '' '') then
            Inr (say (quoted fileName @ '' is not a valid file name.'' @ line_end) st)
          else
            bind_res (graph_flags (Suc (length ts)) ts
              \<lparr>g_dim = OVERWORLD, g_facing = ''n'', g_yMin = yMin, g_yMax = yMax\<rparr> st) (\<lambda>(p, st).
              case p of
                None \<Rightarrow> Inr st
              | Some p \<Rightarrow> graph_draw env wd (x, y, z) fileName p st)))"

definition help_text :: "string \<Rightarrow> string" where
  "help_text w =
     (if w = ''what'' then ''what [block] [(x,y,z)] [-d overworld|nether|end]''
      else if w = ''graph'' then ''graph [block] [(x,y,z)] [filename] [-d overworld|nether|end] [-f n|s|e|w] [-ymin int] [-ymax int]''
      else ''Unknown command '' @ quoted w) @ line_end"

text \<open>One line; every path of the body ends with the prompt.\<close>

definition run_line :: "environment \<Rightarrow> WorldData \<Rightarrow> string \<Rightarrow> viewer \<Rightarrow> viewer res" where
  "run_line env wd line st =
     bind_res
       (let (cmd, ts) = next_word (words_of line) (word st); st = st\<lparr>word := cmd\<rparr> in
        if cmd = ''what'' then
          (let (w, ts) = next_word ts (word st); st = st\<lparr>word := w\<rparr> in
           if w = ''block'' then what_block wd ts st
           else Inr (say (''Invalid '' @ quoted ''what'' @ '' argument '' @ quoted w @ line_end) st))
        else if cmd = ''graph'' then
          (let (w, ts) = next_word ts (word st); st = st\<lparr>word := w\<rparr> in
           if w = ''block'' then graph_block env wd ts st
           else Inr (say (''Invalid '' @ quoted ''graph'' @ '' argument '' @ quoted w @ line_end) st))
        else if cmd = ''help'' then
          (let (w, ts) = next_word ts (word st)
           in Inr (say (help_text w) (st\<lparr>word := w\<rparr>)))
        else Inr (say (''Unknown command '' @ quoted cmd @ line_end) st)) (\<lambda>st.
     Inr (say ''cv> '' st))"

fun run_lines :: "environment \<Rightarrow> WorldData \<Rightarrow> string list \<Rightarrow> viewer \<Rightarrow> viewer res" where
  "run_lines env wd [] st = Inr st"
| "run_lines env wd (l # ls) st = bind_res (run_line env wd l st) (run_lines env wd ls)"

text \<open>
  \<open>main\<close>: \<open>argv\<close> with the program's name first. A missing argument is a null pointer, from which
  no \<open>std::string\<close> can be made. The results are the exit status, the final state and what
  \<open>freeMemory\<close> deletes.
\<close>

definition main :: "(NBTTag umap \<Rightarrow> NBTTag umap) \<Rightarrow> (Chunk umap \<Rightarrow> Chunk umap) \<Rightarrow> nat
      \<Rightarrow> environment \<Rightarrow> (string \<Rightarrow> (slice \<times> slice) list option) \<Rightarrow> string list \<Rightarrow> string
      \<Rightarrow> (int \<times> viewer \<times> (NBTTag list \<times> Chunk) list) res" where
  "main rehash rehashc fuel env open_db argv stdin =
     bind_res (guard_res (2 \<le> length argv) Undefined) (\<lambda>_.
     let dbpath = argv ! 1; st = \<lparr>word = [], cout = [], files = Map.empty\<rparr> in
     bind_res (parseBedrock rehash rehashc fuel dbpath (open_db dbpath) new_WorldData)
       (\<lambda>(ok, wd, log).
       if ok then
         bind_res (run_lines env wd (getlines stdin) (say ''cv> '' st)) (\<lambda>st.
         bind_res (World_freeMemory wd) (\<lambda>freed.
           Inr (0, say line_end st, freed)))
       else Inr (- 1, st, [])))"

end
