(* ===== verification/Commands_Correct.thy ===== *)
theory Commands_Correct
  imports Commands
begin

section \<open>What the commands do\<close>

text \<open>
  The lemmas about \<open>Commands\<close>: the coordinates \<open>parseCoords\<close> accepts, the walk of \<open>drawSlice\<close> over
  the columns of a chunk and when it is safe, what a line leaves unchanged, that the reader of
  the flags never runs out of its bound.
\<close>

subsection \<open>Coordinates\<close>

lemma coords_loop_field:
  "CHR '','' \<notin> set cs \<Longrightarrow> coords_loop (cs @ r) 0 (xs, ys, zs) = coords_loop r 0 (xs @ cs, ys, zs)"
  "CHR '','' \<notin> set cs \<Longrightarrow> coords_loop (cs @ r) 1 (xs, ys, zs) = coords_loop r 1 (xs, ys @ cs, zs)"
  "CHR '','' \<notin> set cs \<Longrightarrow> coords_loop (cs @ r) 2 (xs, ys, zs) = coords_loop r 2 (xs, ys, zs @ cs)"
  by (induction cs arbitrary: xs ys zs) auto

lemma coords_loop_past:
  "2 < n \<Longrightarrow> fst (coords_loop cs n f) \<longrightarrow> fst (snd (coords_loop cs n f)) \<noteq> 2"
  by (induction cs n f rule: coords_loop.induct) auto

text \<open>The fields of a text between parentheses.\<close>

definition coords_text :: "string \<Rightarrow> string \<Rightarrow> string \<Rightarrow> string" where
  "coords_text xs ys zs = CHR ''('' # xs @ CHR '','' # ys @ CHR '','' # zs @ [CHR '')'']"

definition no_comma :: "string \<Rightarrow> bool" where
  "no_comma s \<longleftrightarrow> CHR '','' \<notin> set s"

lemma coords_loop_three:
  assumes "no_comma xs" and "no_comma ys" and "no_comma zs"
  shows "coords_loop (xs @ CHR '','' # ys @ CHR '','' # zs) 0 ([], [], []) = (True, 2, xs, ys, zs)"
proof -
  have "coords_loop zs 2 f = (case f of (a, b, c) \<Rightarrow> (True, 2, a, b, c @ zs))" for f
    using coords_loop_field(3) [of zs "[]"] assms(3) by (cases f) (simp add: no_comma_def)
  then show ?thesis
    using assms coords_loop_field(1,2) by (simp add: no_comma_def numeral_2_eq_2)
qed

lemma split_comma:
  obtains "no_comma s" | a b where "s = a @ CHR '','' # b" "no_comma a"
  using split_list_first [of "CHR '',''" s] unfolding no_comma_def by blast

lemma coords_loop_sound:
  assumes "coords_loop s 0 ([], [], []) = (True, 2, xs, ys, zs)"
  shows "s = xs @ CHR '','' # ys @ CHR '','' # zs \<and> no_comma xs \<and> no_comma ys \<and> no_comma zs"
proof (cases s rule: split_comma)
  case 1
  then show ?thesis using coords_loop_field(1) [of s "[]"] assms by (simp add: no_comma_def)
next
  case (2 a b)
  note ab = 2
  have s: "coords_loop s 0 ([], [], []) = coords_loop b 1 (a, [], [])"
    using ab coords_loop_field(1) by (simp add: no_comma_def)
  show ?thesis
  proof (cases b rule: split_comma)
    case 1
    then show ?thesis using coords_loop_field(2) [of b "[]"] assms s by (simp add: no_comma_def)
  next
    case (2 c d)
    note cd = 2
    have s2: "coords_loop s 0 ([], [], []) = coords_loop d 2 (a, c, [])"
      using cd s coords_loop_field(2) [of c "CHR '','' # d"]
      by (simp add: no_comma_def numeral_2_eq_2)
    show ?thesis
    proof (cases d rule: split_comma)
      case 1
      then show ?thesis
        using coords_loop_field(3) [of d "[]" a c "[]"] assms s2 ab cd by (simp add: no_comma_def)
    next
      case (2 e f)
      then have "coords_loop s 0 ([], [], []) = coords_loop f 3 (a, c, e)"
        using s2 coords_loop_field(3) [of e "CHR '','' # f"]
        by (simp add: no_comma_def numeral_3_eq_3)
      then have "coords_loop f 3 (a, c, e) = (True, 2, xs, ys, zs)" using assms by simp
      then show ?thesis using coords_loop_past [of 3 f "(a, c, e)"] by simp
    qed
  qed
qed

lemma parens_split:
  assumes "w \<noteq> []" and "hd w = CHR ''(''" and "last w = CHR '')''"
  shows "w = CHR ''('' # butlast (tl w) @ [CHR '')'']"
proof (cases w)
  case (Cons c cs)
  with assms have "cs \<noteq> []" by auto
  with assms Cons show ?thesis using append_butlast_last_id [of cs] by simp
qed (use assms in simp)

lemma parseCoords_eq:
  "parseCoords w = (Some (x, y, z), []) \<longleftrightarrow>
    (\<exists>xs ys zs. w = coords_text xs ys zs \<and> no_comma xs \<and> no_comma ys \<and> no_comma zs \<and>
      stoi xs = Some x \<and> stoi ys = Some y \<and> stoi zs = Some z)" (is "?l \<longleftrightarrow> ?r")
proof
  assume l: ?l
  then have p: "w \<noteq> []" "hd w = CHR ''(''" "last w = CHR '')''"
    unfolding parseCoords_def by (simp_all split: if_split_asm)
  note w = parens_split [OF p]
  obtain v n xs ys zs where c: "coords_loop (butlast (tl w)) 0 ([], [], []) = (v, n, xs, ys, zs)"
    by (metis prod.exhaust)
  with l p have "v \<and> n = 2 \<and> stoi xs = Some x \<and> stoi ys = Some y \<and> stoi zs = Some z"
    unfolding parseCoords_def by (simp split: if_split_asm option.split_asm)
  with coords_loop_sound [of "butlast (tl w)" xs ys zs] c w show ?r
    unfolding coords_text_def by auto
next
  assume ?r
  then obtain xs ys zs where w: "w = coords_text xs ys zs"
    and n: "no_comma xs" "no_comma ys" "no_comma zs"
    and s: "stoi xs = Some x" "stoi ys = Some y" "stoi zs = Some z" by blast
  have "butlast (tl w) = xs @ CHR '','' # ys @ CHR '','' # zs"
    by (simp add: w coords_text_def butlast_append)
  with coords_loop_three [OF n] s show ?l
    by (simp add: parseCoords_def w coords_text_def)
qed

lemma parseCoords_cases:
  obtains x y z where "parseCoords w = (Some (x, y, z), [])"
    | "parseCoords w = (None, coords_message)"
proof -
  obtain v n xs ys zs where c: "coords_loop (butlast (tl w)) 0 ([], [], []) = (v, n, xs, ys, zs)"
    by (metis prod.exhaust)
  have "parseCoords w = (None, coords_message) \<or> (\<exists>x y z. parseCoords w = (Some (x, y, z), []))"
    unfolding parseCoords_def c by (simp split: option.split)
  with that show thesis by blast
qed

lemma no_comma_int_to_string: "no_comma (int_to_string i)"
  using nat_to_string_digits [of "nat (- i)"] nat_to_string_digits [of "nat i"]
  by (auto simp: no_comma_def int_to_string_def is_digit_def)

lemma parseCoords_printed_text:
  assumes "int32_ok x" and "int32_ok y" and "int32_ok z"
  shows "parseCoords (coords_text (int_to_string x) (int_to_string y) (int_to_string z)) =
    (Some (x, y, z), [])"
  using assms stoi_int_to_string [of _ "[]"]
  by (auto simp: parseCoords_eq no_digit_first_def intro!: exI no_comma_int_to_string)

subsection \<open>Drawing a slice\<close>

text \<open>The results of a computation on each element, concatenated up to the first fault.\<close>

fun collect_res :: "('a \<Rightarrow> 'b list res) \<Rightarrow> 'a list \<Rightarrow> 'b list res" where
  "collect_res f [] = Inr []"
| "collect_res f (x # xs) = bind_res (f x) (\<lambda>a. bind_res (collect_res f xs) (\<lambda>b. Inr (a @ b)))"

lemma collect_res_Inr:
  "\<forall>x \<in> set xs. \<exists>ys. f x = Inr ys \<Longrightarrow> \<exists>ys. collect_res f xs = Inr ys"
  by (induction xs) fastforce+

lemma collect_res_fault:
  "x \<in> set xs \<Longrightarrow> f x = Inl e \<Longrightarrow> \<exists>e'. collect_res f xs = Inl e'"
  by (induction xs) (auto simp: bind_res_def split: sum.splits)

lemma collect_res_not_Inl:
  "\<forall>x \<in> set xs. f x \<noteq> Inl e \<Longrightarrow> collect_res f xs \<noteq> Inl e"
  by (induction xs) (auto simp: res_simps)

lemma draw_column_collect:
  "draw_column exists c rawX rawZ index ys =
    collect_res (\<lambda>y. draw_block exists c rawX y rawZ index) ys"
  by (induction ys) simp_all

text \<open>
  The column drawn at the place \<open>k\<close> of the graph: looking north or east the chunk's columns run
  from left to right, looking south or west from right to left.
\<close>

definition slice_index :: "string \<Rightarrow> nat \<Rightarrow> int" where
  "slice_index facing k = (if facing = ''n'' \<or> facing = ''e'' then int k else 15 - int k)"

definition slice_pos :: "string \<Rightarrow> int \<Rightarrow> int \<Rightarrow> nat \<Rightarrow> int \<times> int" where
  "slice_pos facing rawX rawZ k =
     (if facing = ''n'' \<or> facing = ''s'' then (slice_index facing k, rawZ)
      else (rawX, slice_index facing k))"

definition slice_spec :: "(string \<Rightarrow> bool) \<Rightarrow> Chunk \<Rightarrow> string \<Rightarrow> int \<Rightarrow> int \<Rightarrow> int \<Rightarrow> int \<Rightarrow> token list res" where
  "slice_spec exists c facing rawX rawZ yMin yMax =
     collect_res (\<lambda>k. collect_res (\<lambda>y.
       draw_block exists c (fst (slice_pos facing rawX rawZ k)) y
         (snd (slice_pos facing rawX rawZ k)) k) [yMin..yMax - 1]) [0..<16]"

lemma draw_columns_collect:
  assumes "\<And>j. j < length is \<Longrightarrow> is ! j = slice_index facing (n + j)"
  shows "draw_columns exists c facing rawX rawZ ys n is =
    collect_res (\<lambda>k. collect_res (\<lambda>y.
       draw_block exists c (fst (slice_pos facing rawX rawZ k)) y
         (snd (slice_pos facing rawX rawZ k)) k) ys) [n..<n + length is]"
  using assms
proof (induction "is" arbitrary: n rawX rawZ)
  case (Cons i "is")
  have i: "i = slice_index facing n" using Cons.prems [of 0] by simp
  have IH: "draw_columns exists c facing rX rZ ys (Suc n) is =
    collect_res (\<lambda>k. collect_res (\<lambda>y.
       draw_block exists c (fst (slice_pos facing rX rZ k)) y
         (snd (slice_pos facing rX rZ k)) k) ys) [Suc n..<Suc n + length is]" for rX rZ
    by (rule Cons.IH) (use Cons.prems [of "Suc _"] in simp)
  have u: "[n..<n + length (i # is)] = n # [Suc n..<Suc n + length is]"
    using upt_conv_Cons [of n "Suc n + length is"] by (simp del: upt_Suc)
  have p: "slice_pos facing (slice_index facing n) rawZ = slice_pos facing rawX rawZ"
    if "facing = ''n'' \<or> facing = ''s''"
    using that by (simp add: slice_pos_def fun_eq_iff)
  have q: "slice_pos facing rawX (slice_index facing n) = slice_pos facing rawX rawZ"
    if "\<not> (facing = ''n'' \<or> facing = ''s'')"
    using that by (simp add: slice_pos_def fun_eq_iff)
  show ?case
  proof (cases "facing = ''n'' \<or> facing = ''s''")
    case True
    have s: "slice_pos facing rawX rawZ n = (i, rawZ)" using True i by (simp add: slice_pos_def)
    show ?thesis
      unfolding u using True IH p [OF True] i s
      by (simp add: draw_column_collect del: upt_Suc)
  next
    case False
    have s: "slice_pos facing rawX rawZ n = (rawX, i)" using False i by (simp add: slice_pos_def)
    show ?thesis
      unfolding u using False IH q [OF False] i s
      by (simp add: draw_column_collect del: upt_Suc)
  qed
qed simp

lemma drawSlice_columns:
  assumes "chunk_x c = Some cx" and "chunk_z c = Some cz"
    and "int32_ok (16 * cx)" and "int32_ok (x - 16 * cx)"
    and "int32_ok (16 * cz)" and "int32_ok (z - 16 * cz)"
  shows "drawSlice exists c (x, y, z) facing yMin yMax =
    slice_spec exists c facing (x - 16 * cx) (z - 16 * cz) yMin yMax"
proof -
  let ?is = "if facing = ''n'' \<or> facing = ''e'' then [0..15] else rev [0..15 :: int]"
  have l: "length ?is = 16" by simp
  have "[0..15] ! j = int j" "rev [0..15] ! j = 15 - int j" if "j < 16" for j
    using that by (simp_all add: rev_nth nth_upto)
  then have "?is ! j = slice_index facing (0 + j)" if "j < length ?is" for j
    using that unfolding l by (simp add: slice_index_def)
  note d = draw_columns_collect [of ?is, OF this]
  show ?thesis
    using assms d by (simp add: drawSlice_def to_int32_def slice_spec_def l)
qed

text \<open>The tags whose block can be drawn: a name with the prefix to drop, and the type it asks for.\<close>

definition draw_ok :: "NBTTag \<Rightarrow> bool" where
  "draw_ok t \<longleftrightarrow> (case inner_string t ''name'' of Inl _ \<Rightarrow> False | Inr n \<Rightarrow> 10 \<le> length n) \<and>
     (case getBlockType t of Inl _ \<Rightarrow> False | Inr _ \<Rightarrow> True)"

lemma draw_block_ok:
  assumes "chunk_ok c" and "pos_ok (rx, rz, ry)"
    and "\<forall>k < 16. \<forall>t \<in> set (palette_at c k). draw_ok t"
  shows "\<exists>out. draw_block exists c (int rx) (int ry) (int rz) index = Inr out"
proof (cases "block_at c (rx, rz, ry) < 0")
  case True
  then show ?thesis
    using getBlock_in_range [OF assms(1,2)] by (simp add: draw_block_def del: block_at.simps)
next
  case False
  let ?st = "block_at c (rx, rz, ry)" and ?p = "palette_at c (ry div 16)"
  have "ry div 16 < 16" using assms(2) subchunk_of_y by simp
  moreover have "?st < int (length ?p)"
    using False assms(1,2) by (fastforce simp: chunk_ok_def simp del: block_at.simps)
  then have "?p ! nat ?st \<in> set ?p" using False by (intro nth_mem) (simp del: block_at.simps)
  ultimately have "draw_ok (?p ! nat ?st)" using assms(3) by blast
  then obtain n b where "inner_string (?p ! nat ?st) ''name'' = Inr n" "10 \<le> length n"
    "getBlockType (?p ! nat ?st) = Inr b"
    by (auto simp: draw_ok_def split: sum.splits)
  then show ?thesis
    using getBlock_in_range [OF assms(1,2)] False
    by (simp add: draw_block_def Let_def del: block_at.simps)
qed

lemma slice_pos_range:
  assumes "k < 16" and "0 \<le> rawX" and "rawX < 16" and "0 \<le> rawZ" and "rawZ < 16"
  obtains rx rz where "slice_pos facing rawX rawZ k = (int rx, int rz)" "rx < 16" "rz < 16"
proof -
  have i: "slice_index facing k = int (nat (slice_index facing k))" "nat (slice_index facing k) < 16"
    using assms(1) by (simp_all add: slice_index_def nat_less_iff)
  show thesis
  proof (cases "facing = ''n'' \<or> facing = ''s''")
    case True
    then show thesis using i assms that [of "nat (slice_index facing k)" "nat rawZ"]
      by (simp add: slice_pos_def nat_less_iff)
  next
    case False
    then show thesis using i assms that [of "nat rawX" "nat (slice_index facing k)"]
      by (simp add: slice_pos_def nat_less_iff)
  qed
qed

lemma slice_spec_ok:
  assumes "chunk_ok c" and "\<forall>k < 16. \<forall>t \<in> set (palette_at c k). draw_ok t"
    and "0 \<le> rawX" "rawX < 16" "0 \<le> rawZ" "rawZ < 16" and "0 \<le> yMin" "yMax \<le> 256"
  shows "\<exists>out. slice_spec exists c facing rawX rawZ yMin yMax = Inr out"
  unfolding slice_spec_def
proof (intro collect_res_Inr ballI)
  fix k y
  assume k: "k \<in> set [0..<16]" and y: "y \<in> set [yMin..yMax - 1]"
  from k obtain rx rz where p: "slice_pos facing rawX rawZ k = (int rx, int rz)" "rx < 16" "rz < 16"
    using slice_pos_range [of k rawX rawZ facing] assms by auto
  have "pos_ok (rx, rz, nat y)" using p y assms by (simp add: nat_less_iff)
  from draw_block_ok [OF assms(1) this assms(2)] y assms(7)
  show "\<exists>out. draw_block exists c (fst (slice_pos facing rawX rawZ k)) y
      (snd (slice_pos facing rawX rawZ k)) k = Inr out"
    unfolding p by simp
qed

lemma slice_spec_top:
  assumes "grid_ok c" and "0 \<le> rawX" "rawX < 16" "0 \<le> rawZ" "rawZ < 16"
    and "yMin \<le> 256" "256 < yMax"
  shows "\<exists>e. slice_spec exists c facing rawX rawZ yMin yMax = Inl e"
proof -
  obtain rx rz where p: "slice_pos facing rawX rawZ 0 = (int rx, int rz)" "rx < 16" "rz < 16"
    using slice_pos_range [of 0 rawX rawZ facing] assms by auto
  have "draw_block exists c (int rx) 256 (int rz) 0 = Inl Undefined"
    using getBlock_above [OF assms(1) p(2,3)] by (simp add: draw_block_def)
  then have "\<exists>e. collect_res (\<lambda>y. draw_block exists c (fst (slice_pos facing rawX rawZ 0)) y
       (snd (slice_pos facing rawX rawZ 0)) 0) [yMin..yMax - 1] = Inl e"
    using assms(6,7) unfolding p by (intro collect_res_fault [of 256]) simp_all
  then obtain e where e: "collect_res (\<lambda>y. draw_block exists c (fst (slice_pos facing rawX rawZ 0)) y
       (snd (slice_pos facing rawX rawZ 0)) 0) [yMin..yMax - 1] = Inl e" ..
  show ?thesis
    unfolding slice_spec_def
    by (rule collect_res_fault [of 0 "[0..<16]" "\<lambda>k. collect_res (\<lambda>y.
        draw_block exists c (fst (slice_pos facing rawX rawZ k)) y
        (snd (slice_pos facing rawX rawZ k)) k) [yMin..yMax - 1]" e]) (simp_all add: e)
qed

text \<open>A chunk a command found is at the position of the coordinates.\<close>

lemma found_chunk:
  assumes "world_ok wd" and "getBlockChunk wd x y z d = Some c" and "int32_ok x" and "int32_ok z"
  shows "chunk_ok c" and "drawSlice exists c (x, y, z) facing yMin yMax =
    slice_spec exists c facing (x mod 16) (z mod 16) yMin yMax"
proof -
  have "filed_ok (chunkID (x div 16) (z div 16)) c"
    using findChunk_ok [OF assms(1)] assms(2) by (simp add: getBlockChunk_def Let_def)
  then have c: "chunk_x c = Some (x div 16)" "chunk_z c = Some (z div 16)" and ok: "chunk_ok c"
    by (auto simp: filed_ok_def split: option.splits)
  show "chunk_ok c" by (rule ok)
  have "int32_ok (16 * (v div 16))" "int32_ok (v - 16 * (v div 16))" if "int32_ok v" for v
  proof -
    have m: "0 \<le> v mod 16" "v mod 16 < 16" by simp_all
    have q: "16 * (v div 16) = v - v mod 16" by (simp add: minus_mod_eq_mult_div)
    have l: "- (2 ^ 31) \<le> 16 * (v div 16)"
    proof -
      have "(- (2 ^ 31)) div 16 \<le> v div 16"
        using that by (intro zdiv_mono1) (simp_all add: int32_ok_def)
      then show ?thesis by simp
    qed
    show "int32_ok (16 * (v div 16))"
      using that m q l unfolding int32_ok_def by linarith
    show "int32_ok (v - 16 * (v div 16))"
      using m unfolding q int32_ok_def by simp linarith
  qed
  from drawSlice_columns [OF c this(1) [OF assms(3)] this(2) [OF assms(3)]
      this(1) [OF assms(4)] this(2) [OF assms(4)]]
  show "drawSlice exists c (x, y, z) facing yMin yMax =
    slice_spec exists c facing (x mod 16) (z mod 16) yMin yMax"
    by (simp add: minus_mult_div_eq_mod)
qed

subsection \<open>The command loop\<close>

lemma say_simps [simp]:
  "word (say s st) = word st" "files (say s st) = files st" "cout (say s st) = cout st @ s"
  by (simp_all add: say_def)

text \<open>No computation of the viewer stops because of the bound of the flag reader.\<close>

lemma no_fuel_simps [simp]:
  "deref p \<noteq> Inl OutOfFuel" "initialised q \<noteq> Inl OutOfFuel" "to_int32 i \<noteq> Inl OutOfFuel"
  "vec_at xs i \<noteq> Inl OutOfFuel" "vec_set xs i v \<noteq> Inl OutOfFuel"
  "guard_res b Undefined \<noteq> Inl OutOfFuel" "guard_res b Uncaught \<noteq> Inl OutOfFuel"
  by (auto simp: deref_def initialised_def to_int32_def vec_at_def vec_set_def guard_res_def
      split: option.split)

lemma getBlock_no_fuel [simp]: "getBlock c x y z \<noteq> Inl OutOfFuel"
  by (auto simp: getBlock_def res_simps)

lemma inner_string_no_fuel [simp]: "inner_string t key \<noteq> Inl OutOfFuel"
  by (auto simp: inner_string_def res_simps)

lemma getBlockType_no_fuel [simp]: "getBlockType t \<noteq> Inl OutOfFuel"
  by (auto simp: getBlockType_def res_simps split: option.splits)

lemma draw_block_no_fuel [simp]: "draw_block exists c x y z index \<noteq> Inl OutOfFuel"
  by (auto simp: draw_block_def Let_def res_simps split: if_splits)

lemma drawSlice_no_fuel: "drawSlice exists c xyz facing yMin yMax \<noteq> Inl OutOfFuel"
proof -
  have "draw_columns exists c facing rX rZ ys n is \<noteq> Inl OutOfFuel" for rX rZ ys n "is"
    by (induction "is" arbitrary: rX rZ n)
      (auto simp: draw_column_collect collect_res_not_Inl Let_def res_simps split: if_splits)
  then show ?thesis by (cases xyz) (auto simp: drawSlice_def res_simps)
qed

lemma next_word_length: "length (snd (next_word ts w)) \<le> length ts"
  by (simp add: next_word_def split: list.split)

lemma graph_flags_no_fuel: "length ts < n \<Longrightarrow> graph_flags n ts p st \<noteq> Inl OutOfFuel"
proof (induction n arbitrary: ts p st)
  case (Suc n)
  show ?case
  proof (cases ts)
    case (Cons w ts')
    obtain u us where u: "next_word ts' w = (u, us)" by (cases "next_word ts' w")
    then have "length us < n" using next_word_length [of ts' w] Suc.prems Cons by simp
    note IH = Suc.IH [OF this]
    have "bind_res (to_int32 i) (\<lambda>v. graph_flags n us (f v) st') \<noteq> Inl OutOfFuel" for i f st'
      using IH by (auto simp: res_simps)
    then show ?thesis
      unfolding Cons graph_flags.simps(3) u Let_def prod.case parseInt_def
      using IH by (simp split: option.split)
  qed simp
qed simp

lemma what_flags_no_fuel: "what_flags ts d b st \<noteq> Inl OutOfFuel"
  by (induction ts d b st rule: what_flags.induct) (auto split: option.splits)

lemma World_getBlock_no_fuel [simp]: "World_getBlock w x y z d \<noteq> Inl OutOfFuel"
  by (simp add: World_getBlock_def Let_def split: option.split)

lemma what_block_no_fuel: "what_block wd ts st \<noteq> Inl OutOfFuel"
proof -
  obtain w ts' where n: "next_word ts (word st) = (w, ts')" by (metis prod.exhaust)
  show ?thesis
    by (cases w rule: parseCoords_cases)
      (auto simp: what_block_def n Let_def what_flags_no_fuel res_simps split: if_splits)
qed

lemma graph_draw_no_fuel: "graph_draw env wd xyz fileName p st \<noteq> Inl OutOfFuel"
  by (cases xyz) (auto simp: graph_draw_def Let_def res_simps drawSlice_no_fuel split: option.split)

lemma graph_block_no_fuel: "graph_block env wd ts st \<noteq> Inl OutOfFuel"
proof -
  obtain w ts' where n: "next_word ts (word st) = (w, ts')" by (metis prod.exhaust)
  show ?thesis
    by (cases w rule: parseCoords_cases)
      (auto simp: graph_block_def n Let_def graph_flags_no_fuel graph_draw_no_fuel res_simps
        split: prod.splits option.splits)
qed

lemma run_line_no_fuel: "run_line env wd l st \<noteq> Inl OutOfFuel"
  by (auto simp: run_line_def Let_def res_simps what_block_no_fuel graph_block_no_fuel
      split: prod.splits if_splits)

lemma run_lines_no_fuel: "run_lines env wd ls st \<noteq> Inl OutOfFuel"
  by (induction ls arbitrary: st) (auto simp: res_simps run_line_no_fuel)

subsection \<open>Answers of \<open>what block\<close>\<close>

definition what_answer :: "int \<Rightarrow> int \<Rightarrow> int \<Rightarrow> Block \<Rightarrow> string" where
  "what_answer x y z b =
     (case stateTag b of
        None \<Rightarrow> ''Block not valid for this world.''
      | Some t \<Rightarrow> ''Block at ('' @ int_to_string x @ '','' @ int_to_string y @ '','' @ int_to_string z @
          '') is '' @ printInnerTags t) @ line_end"

text \<open>The words that choose a dimension: none, or the flag with one of the three names.\<close>

definition dimension_words :: "ChunkDimension \<Rightarrow> string list \<Rightarrow> bool" where
  "dimension_words d ws \<longleftrightarrow> ws = [] \<and> d = OVERWORLD \<or>
     length ws = 2 \<and> hd ws = ''-d'' \<and> parse_dimension (last ws) = Some d"

lemma what_flags_dimension_words:
  "dimension_words d ws \<Longrightarrow> what_flags ws OVERWORLD False st =
    Inr (d, False, st\<lparr>word := last (word st # ws)\<rparr>)"
proof (cases ws)
  case Nil
  moreover assume "dimension_words d ws"
  ultimately show ?thesis by (simp add: dimension_words_def)
next
  case (Cons w us)
  moreover assume "dimension_words d ws"
  ultimately obtain u where "ws = [''-d'', u]" "parse_dimension u = Some d"
    by (cases us) (auto simp: dimension_words_def)
  then show ?thesis by simp
qed

lemma World_getBlock_total:
  assumes "world_ok wd" and "y \<noteq> 256"
  obtains b where "World_getBlock wd x y z d = Inr b" "state b < 0 \<longleftrightarrow> stateTag b = None"
proof (cases "0 \<le> y \<and> y < 256 \<and> findChunk wd (chunkID (x div 16) (z div 16)) d \<noteq> None")
  case True
  then obtain c where "findChunk wd (chunkID (x div 16) (z div 16)) d = Some c" by blast
  from World_getBlock_found [OF assms(1) this, of y] True that show thesis
    by (simp del: block_at.simps)
next
  case False
  then have "World_getBlock wd x y z d = Inr \<lparr>state = - 1, stateTag = None\<rparr>"
    using World_getBlock_outside [OF assms(1), of y] World_getBlock_missing assms(2)
    by (metis linorder_neqE_linordered_idom not_less)
  with that show thesis by simp
qed

lemma what_block_answered:
  assumes "world_ok wd" and "y \<noteq> 256" and "parseCoords w = (Some (x, y, z), [])"
    and "dimension_words d ws"
  shows "\<exists>b. World_getBlock wd x y z d = Inr b \<and>
    what_block wd (w # ws) st =
      Inr (say (what_answer x y z b) (st\<lparr>word := last (w # ws)\<rparr>))"
proof -
  obtain b where b: "World_getBlock wd x y z d = Inr b" "state b < 0 \<longleftrightarrow> stateTag b = None"
    using World_getBlock_total [OF assms(1,2)] .
  have s: "say [] st = st" for st by (simp add: say_def)
  show ?thesis
    using b assms(3) what_flags_dimension_words [OF assms(4)]
    by (auto simp: what_block_def next_word_def s what_answer_def split: option.split)
qed

text \<open>A bad dimension deletes the coordinates, which every continuation then uses or deletes.\<close>

lemma what_flags_freed:
  "what_flags ws d True st = Inl Undefined \<or> (\<exists>d' st'. what_flags ws d True st = Inr (d', True, st'))"
  by (induction ws d True st rule: what_flags.induct) (auto split: option.splits)

lemma what_flags_bad:
  assumes "parse_dimension u = None" and "''-d'' \<notin> set pre"
  shows "what_flags (pre @ ''-d'' # u # post) d False st = Inl Undefined \<or>
    (\<exists>d' st'. what_flags (pre @ ''-d'' # u # post) d False st = Inr (d', True, st'))"
  using assms(2)
proof (induction pre arbitrary: st)
  case Nil
  then show ?case using what_flags_freed assms(1) by simp
next
  case (Cons p ps)
  obtain v vs where v: "ps @ ''-d'' # u # post = v # vs" by (cases ps) auto
  from Cons show ?case unfolding append_Cons v by auto
qed

lemma what_block_bad:
  assumes "parse_dimension u = None" and "''-d'' \<notin> set pre"
    and "parseCoords w = (Some (x, y, z), [])"
  shows "what_block wd (w # pre @ ''-d'' # u # post) st = Inl Undefined"
  using what_flags_bad [OF assms(1,2), of post OVERWORLD "say [] (st\<lparr>word := w\<rparr>)"] assms(3)
  by (auto simp: what_block_def next_word_def)

subsection \<open>What a line leaves as it was\<close>

lemma what_flags_files:
  "what_flags ws d b st = Inr (d', b', st') \<Longrightarrow>
    files st' = files st \<and> (\<exists>msg. cout st' = cout st @ msg)"
  by (induction ws d b st arbitrary: d' b' st' rule: what_flags.induct)
    (fastforce split: option.splits if_splits)+

lemma what_block_files:
  assumes "what_block wd ts st = Inr st'"
  shows "files st' = files st \<and> (\<exists>msg. cout st' = cout st @ msg)"
proof -
  obtain w ts' where n: "next_word ts (word st) = (w, ts')" by (metis prod.exhaust)
  show ?thesis
    using assms
    by (cases w rule: parseCoords_cases)
      (auto simp: what_block_def n Let_def res_simps dest!: what_flags_files split: if_splits)
qed

lemma graph_flags_files:
  "graph_flags n ts p st = Inr (q, st') \<Longrightarrow>
    files st' = files st \<and> (\<exists>msg. cout st' = cout st @ msg)"
proof (induction n arbitrary: ts p st)
  case (Suc n)
  show ?case
  proof (cases ts)
    case (Cons w ts')
    obtain u us where u: "next_word ts' w = (u, us)" by (cases "next_word ts' w")
    have IH: "files st' = files st \<and> (\<exists>msg. cout st' = cout st @ msg)"
      if "graph_flags n us p' (st\<lparr>word := u\<rparr>) = Inr (q, st')" for p'
      using Suc.IH [OF that] by simp
    show ?thesis
      using Suc.prems
      unfolding Cons graph_flags.simps(3) u Let_def prod.case parseInt_def
      by (auto simp: res_simps split: if_split_asm option.split_asm dest!: IH)
  qed (use Suc.prems in simp)
qed simp

lemma graph_draw_out:
  "graph_draw env wd xyz fileName p st = Inr st' \<Longrightarrow>
    (\<exists>msg. cout st' = cout st @ msg) \<and> (\<forall>f. f \<noteq> fileName \<longrightarrow> files st' f = files st f)"
  by (cases xyz) (auto simp: graph_draw_def Let_def res_simps split: if_splits option.splits)

lemma graph_block_out:
  assumes "graph_block env wd ts st = Inr st'"
  shows "\<exists>msg. cout st' = cout st @ msg"
proof -
  obtain w ts' where n: "next_word ts (word st) = (w, ts')" by (metis prod.exhaust)
  show ?thesis
  proof (cases w rule: parseCoords_cases)
    case (1 x y z)
    obtain f us where f: "next_word ts' [] = (f, us)" by (metis prod.exhaust)
    have draw: "\<exists>msg. cout st' = cout st @ msg"
      if "(case r of None \<Rightarrow> Inr st1 | Some q \<Rightarrow> graph_draw env wd (x, y, z) f q st1) = Inr st'"
        "cout st1 = cout st @ m" for r st1 m
      using that graph_draw_out [of env wd "(x, y, z)" f _ st1 st'] by (cases r) auto
    have flags: "\<exists>msg. cout st1 = cout st @ msg"
      if "graph_flags k us q (say [] (st\<lparr>word := w\<rparr>)) = Inr (r, st1)" for k q r st1
      using graph_flags_files [OF that] by simp
    let ?p = "\<lambda>m. \<lparr>g_dim = OVERWORLD, g_facing = ''n'', g_yMin = y div 16 * 16, g_yMax = m\<rparr>"
    let ?bad = "say (quoted f @ '' is not a valid file name.'' @ line_end) (say [] (st\<lparr>word := w\<rparr>))"
    have "st' = ?bad \<or> (\<exists>m r st1.
        graph_flags (Suc (length us)) us (?p m) (say [] (st\<lparr>word := w\<rparr>)) = Inr (r, st1) \<and>
        (case r of None \<Rightarrow> Inr st1 | Some q \<Rightarrow> graph_draw env wd (x, y, z) f q st1) = Inr st')"
      using assms 1 unfolding graph_block_def
      by (simp add: n f bind_res_eq_Inr Let_def split: if_split_asm) blast+
    then show ?thesis
    proof
      assume "st' = ?bad"
      then show ?thesis by simp
    qed (blast dest: flags draw)
  next
    case 2
    with assms show ?thesis by (auto simp: graph_block_def n Let_def)
  qed
qed

definition first_word :: "string \<Rightarrow> viewer \<Rightarrow> string" where
  "first_word line st = fst (next_word (words_of line) (word st))"

lemma run_line_frame:
  assumes "run_line env wd line st = Inr st'"
  shows "(\<exists>msg. cout st' = cout st @ msg @ ''cv> '') \<and>
    (first_word line st \<noteq> ''graph'' \<longrightarrow> files st' = files st)"
proof -
  obtain cmd ts where n: "next_word (words_of line) (word st) = (cmd, ts)" by (metis prod.exhaust)
  obtain w ts' where m: "next_word ts cmd = (w, ts')" by (metis prod.exhaust)
  have wb: "files st1 = files st \<and> (\<exists>msg. cout st1 = cout st @ msg)"
    if "what_block wd ts' (st\<lparr>word := v\<rparr>) = Inr st1" for v st1
    using what_block_files [OF that] by simp
  have gb: "\<exists>msg. cout st1 = cout st @ msg"
    if "graph_block env wd ts' (st\<lparr>word := v\<rparr>) = Inr st1" for v st1
    using graph_block_out [OF that] by simp
  consider "cmd = ''what''" | "cmd = ''graph''" | "cmd = ''help''"
    | "cmd \<noteq> ''what'' \<and> cmd \<noteq> ''graph'' \<and> cmd \<noteq> ''help''" by blast
  then show ?thesis
    using assms m
    by cases (auto simp: run_line_def n Let_def first_word_def res_simps
        dest!: wb gb split: if_splits)
qed

text \<open>A line without a word leaves the previous word to be run as the command.\<close>

lemma run_line_blank:
  assumes "words_of line = []" and "words_of l' = [word st]"
  shows "run_line env wd line st = run_line env wd l' st"
  using assms by (simp add: run_line_def next_word_def)

lemma words_of_blank: "\<forall>c \<in> set line. isspace c \<Longrightarrow> words_of line = []"
proof -
  have "words_acc [] line = []" if "\<forall>c \<in> set line. isspace c" for line
    using that by (induction line) auto
  then show "\<forall>c \<in> set line. isspace c \<Longrightarrow> words_of line = []" by (simp add: words_of_def)
qed

lemma words_of_word: "w \<noteq> [] \<Longrightarrow> \<forall>c \<in> set w. \<not> isspace c \<Longrightarrow> words_of w = [w]"
proof -
  have "words_acc acc w = (if acc @ w = [] then [] else [acc @ w])"
    if "\<forall>c \<in> set w. \<not> isspace c" for acc
    using that by (induction w arbitrary: acc) auto
  then show "w \<noteq> [] \<Longrightarrow> \<forall>c \<in> set w. \<not> isspace c \<Longrightarrow> words_of w = [w]"
    by (simp add: words_of_def)
qed

subsection \<open>Properties\<close>

text \<open>A tag with the name of a block, for the witnesses.\<close>

definition dirt_tag :: NBTTag where
  "dirt_tag = addInnerTag front_order new_NBTTag
     (upd_fields (\<lambda>f. f\<lparr>tag_name := ''name'', stringVal := ''minecraft:dirt''\<rparr>) new_NBTTag)"

lemma draw_ok_dirt: "draw_ok dirt_tag"
  by (simp add: draw_ok_def dirt_tag_def inner_string_def getBlockType_def addInnerTag_def
      um_set_def front_order_def new_NBTTag_def upd_fields_def)

lemma small_world_chunk:
  "getBlockChunk (small_world t) 3 5 7 OVERWORLD = Some (origin_chunk t)"
  "\<forall>k < 16. \<forall>u \<in> set (palette_at (origin_chunk dirt_tag) k). draw_ok u"
proof -
  show "getBlockChunk (small_world t) 3 5 7 OVERWORLD = Some (origin_chunk t)"
    by (simp add: getBlockChunk_def small_world_ok)
  have "palette_at (origin_chunk dirt_tag) k \<in> {[], [dirt_tag]}" if "k < 16" for k
    using that by (simp add: palette_at_def origin_chunk_def small_chunk_def new_Chunk_def
        nth_list_update)
  then show "\<forall>k < 16. \<forall>u \<in> set (palette_at (origin_chunk dirt_tag) k). draw_ok u"
    using draw_ok_dirt by fastforce
qed

text \<open>
  \<open>parseCoords\<close> accepts exactly the texts of three fields in parentheses, separated by two
  commas, each of which \<open>stoi\<close> reads; everything else is answered with the null pointer and the
  message.
\<close>

theorem parseCoords_accepts:
  "(parseCoords w = (Some (x, y, z), []) \<longleftrightarrow>
    (\<exists>xs ys zs. w = coords_text xs ys zs \<and> no_comma xs \<and> no_comma ys \<and> no_comma zs \<and>
      stoi xs = Some x \<and> stoi ys = Some y \<and> stoi zs = Some z)) \<and>
   ((\<exists>i j k. parseCoords w = (Some (i, j, k), [])) \<or> parseCoords w = (None, coords_message))"
  using parseCoords_eq [of w x y z] parseCoords_cases [of w] by metis

text \<open>
  the coordinates a position prints as are read back as that position.
\<close>

theorem parseCoords_printed:
  assumes "int32_ok x" and "int32_ok y" and "int32_ok z"
  shows "parseCoords (coords_text (int_to_string x) (int_to_string y) (int_to_string z)) =
    (Some (x, y, z), [])"
  by (rule parseCoords_printed_text [OF assms])

theorem parseCoords_printed_witness:
  "parseCoords (coords_text (int_to_string (- 12)) (int_to_string 70) (int_to_string 2048)) =
    (Some (- 12, 70, 2048), [])"
  by (rule parseCoords_printed) (simp_all add: int32_ok_def)

text \<open>
  C16: \<open>drawSlice\<close> on the chunk a command found draws, at each of the 16 places of the graph from left
  to right, the column of the chunk that is seen there: looking north and east the columns with
  ascending \<open>x\<close> or \<open>z\<close>, looking south and west the same ones in the opposite order, the other
  coordinate being the one of the block; in each column the blocks from \<open>yMin\<close> up to below \<open>yMax\<close>.
\<close>

theorem drawSlice_order:
  assumes "world_ok wd" and "getBlockChunk wd x y z d = Some c" and "int32_ok x" and "int32_ok z"
  shows "drawSlice exists c (x, y, z) facing yMin yMax =
    collect_res (\<lambda>k. collect_res (\<lambda>h.
      (let i = (if facing = ''n'' \<or> facing = ''e'' then int k else 15 - int k)
       in if facing = ''n'' \<or> facing = ''s'' then draw_block exists c i h (z mod 16) k
          else draw_block exists c (x mod 16) h i k)) [yMin..yMax - 1]) [0..<16]"
  unfolding found_chunk(2) [OF assms] slice_spec_def slice_pos_def slice_index_def
  by (cases "facing = ''n'' \<or> facing = ''s''") (simp_all add: Let_def)

theorem drawSlice_order_witness:
  "drawSlice (\<lambda>_. True) (origin_chunk dirt_tag) (3, 5, 7) ''s'' 0 1 =
    collect_res (\<lambda>k. draw_block (\<lambda>_. True) (origin_chunk dirt_tag) (15 - int k) 0 7 k) [0..<16]"
proof -
  have "bind_res r Inr = r" for r :: "token list res"
    by (cases r) auto
  then show ?thesis
    using drawSlice_order [of "small_world dirt_tag" 3 5 7 OVERWORLD "origin_chunk dirt_tag"
        "\<lambda>_. True" "''s''" 0 1, OF small_world_ok(1) small_world_chunk(1)]
    by (simp add: int32_ok_def)
qed

text \<open>
  drawing is safe: for a chunk of a well-formed world whose palette entries are named, and
  bounds inside the height of the world, every slice is drawn to its end, with no fault.
\<close>

theorem drawSlice_safe:
  assumes "world_ok wd" and "getBlockChunk wd x y z d = Some c" and "int32_ok x" and "int32_ok z"
    and "\<forall>k < 16. \<forall>t \<in> set (palette_at c k). draw_ok t" and "0 \<le> yMin" and "yMax \<le> 256"
  shows "\<exists>out. drawSlice exists c (x, y, z) facing yMin yMax = Inr out"
  unfolding found_chunk(2) [OF assms(1-4)]
  by (rule slice_spec_ok [OF found_chunk(1) [OF assms(1-4)] assms(5)]) (use assms in simp_all)

theorem drawSlice_safe_witness:
  "\<exists>out. drawSlice (\<lambda>_. False) (origin_chunk dirt_tag) (3, 5, 7) ''w'' 0 256 = Inr out"
  by (rule drawSlice_safe [OF small_world_ok(1) small_world_chunk(1) _ _ small_world_chunk(2)])
    (simp_all add: int32_ok_def)

text \<open>
  the bounds of \<open>graph block\<close> are only checked from below: with a maximum above the height of the
  world, which \<open>-ymax 256\<close> already is, the command faults on every loaded chunk and every facing
  once the file is open.
\<close>

theorem graph_above_height_faults:
  assumes "world_ok wd" and "getBlockChunk wd x y z (g_dim p) = Some c" and "int32_ok x" and "int32_ok z"
    and "0 \<le> g_yMin p" and "g_yMin p \<le> 256" and "256 < g_yMax p"
    and "can_open env ((files st)(fileName := None)) fileName"
  shows "\<exists>e. graph_draw env wd (x, y, z) fileName p st = Inl e"
proof -
  have "grid_ok c" using found_chunk(1) [OF assms(1-4)] by (simp add: chunk_ok_def)
  then obtain e where "slice_spec (stat_ok env ((files st)(fileName \<mapsto> []))) c (g_facing p)
      (x mod 16) (z mod 16) (g_yMin p) (g_yMax p) = Inl e"
    using slice_spec_top [of c "x mod 16" "z mod 16" "g_yMin p" "g_yMax p"] assms(6,7) by fastforce
  then show ?thesis
    using assms found_chunk(2) [OF assms(1-4)] by (simp add: graph_draw_def Let_def)
qed

theorem graph_above_height_faults_witness:
  "\<exists>e. graph_draw \<lparr>stat_ok = \<lambda>_ _. True, can_open = \<lambda>_ _. True\<rparr> (small_world dirt_tag) (3, 5, 7)
    ''out.txt'' \<lparr>g_dim = OVERWORLD, g_facing = ''n'', g_yMin = 0, g_yMax = 257\<rparr>
    \<lparr>word = [], cout = [], files = Map.empty\<rparr> = Inl e"
  by (rule graph_above_height_faults [OF small_world_ok(1)])
    (simp_all add: small_world_chunk(1) int32_ok_def)

text \<open>
  C15: \<open>what block\<close>: for coordinates \<open>parseCoords\<close> accepts, with no flag or a good dimension flag, in a
  well-formed world and off the height 256, the line prints the position and the tags of the block
  \<open>getBlock\<close> answers there, or that the block is not valid, then the prompt; no file changes.
\<close>

theorem what_block_correct:
  assumes "world_ok wd" and "y \<noteq> 256" and "parseCoords w = (Some (x, y, z), [])"
    and "dimension_words d ws" and "words_of line = ''what'' # ''block'' # w # ws"
  shows "\<exists>b. World_getBlock wd x y z d = Inr b \<and> run_line env wd line st =
    Inr (st\<lparr>word := last (w # ws), cout := cout st @ what_answer x y z b @ ''cv> ''\<rparr>)"
proof -
  obtain b where "World_getBlock wd x y z d = Inr b" "what_block wd (w # ws) (st\<lparr>word := ''block''\<rparr>) =
      Inr (say (what_answer x y z b) (st\<lparr>word := last (w # ws)\<rparr>))"
    using what_block_answered [OF assms(1-4), of "st\<lparr>word := ''block''\<rparr>"] by auto
  then show ?thesis by (simp add: run_line_def assms(5) next_word_def say_def)
qed

lemma sample_coords: "parseCoords ''(3,5,7)'' = (Some (3, 5, 7), [])"
  by (simp add: parseCoords_def stoi_def strip_sign_def isspace_def is_digit_def digit_val_def
      int32_ok_def)

theorem what_block_correct_witness:
  "\<exists>b. World_getBlock (small_world dirt_tag) 3 5 7 NETHER = Inr b \<and>
    run_line \<lparr>stat_ok = \<lambda>_ _. True, can_open = \<lambda>_ _. True\<rparr> (small_world dirt_tag)
      ''what block (3,5,7) -d nether'' \<lparr>word = [], cout = [], files = Map.empty\<rparr> =
    Inr \<lparr>word = ''nether'', cout = what_answer 3 5 7 b @ ''cv> '', files = Map.empty\<rparr>"
proof -
  have "words_of ''what block (3,5,7) -d nether'' = ''what'' # ''block'' # ''(3,5,7)'' # [''-d'', ''nether'']"
    by (simp add: words_of_def isspace_def)
  from what_block_correct [OF small_world_ok(1) _ sample_coords _ this, of NETHER dirt_tag
      "\<lparr>stat_ok = \<lambda>_ _. True, can_open = \<lambda>_ _. True\<rparr>" "\<lparr>word = [], cout = [], files = Map.empty\<rparr>"]
  show ?thesis by (simp add: dimension_words_def parse_dimension_def)
qed

text \<open>
  a \<open>-d\<close> of \<open>what block\<close> that is not followed by a dimension deletes the coordinates and goes on
  with the loop over the flags instead of the next line: whatever follows, the line then reads the
  deleted array or deletes it again.
\<close>

theorem what_block_bad_dimension:
  assumes "parse_dimension u = None" and "''-d'' \<notin> set pre"
    and "parseCoords w = (Some (x, y, z), [])"
    and "words_of line = ''what'' # ''block'' # w # pre @ ''-d'' # u # post"
  shows "run_line env wd line st = Inl Undefined"
  using what_block_bad [OF assms(1-3)] by (simp add: run_line_def assms(4) next_word_def)

theorem what_block_bad_dimension_witness:
  "run_line \<lparr>stat_ok = \<lambda>_ _. True, can_open = \<lambda>_ _. True\<rparr> (small_world dirt_tag)
     ''what block (3,5,7) -d moon'' \<lparr>word = [], cout = [], files = Map.empty\<rparr> = Inl Undefined"
  by (rule what_block_bad_dimension [of "''moon''" "[]" _ _ _ _ _ "[]", OF _ _ sample_coords])
    (simp_all add: parse_dimension_def words_of_def isspace_def)

text \<open>
  a blank line is not ignored: \<open>ss >> word\<close> leaves the previous word in place, so the last word
  of the line before is run as a command of its own.
\<close>

theorem blank_line_repeats_word:
  assumes "\<forall>c \<in> set line. isspace c" and "word st \<noteq> []" and "\<forall>c \<in> set (word st). \<not> isspace c"
  shows "run_line env wd line st = run_line env wd (word st) st"
  by (rule run_line_blank [OF words_of_blank [OF assms(1)] words_of_word [OF assms(2,3)]])

theorem blank_line_repeats_word_witness:
  "run_line \<lparr>stat_ok = \<lambda>_ _. True, can_open = \<lambda>_ _. True\<rparr> new_WorldData '' ''
     \<lparr>word = ''help'', cout = [], files = Map.empty\<rparr> =
   run_line \<lparr>stat_ok = \<lambda>_ _. True, can_open = \<lambda>_ _. True\<rparr> new_WorldData ''help''
     \<lparr>word = ''help'', cout = [], files = Map.empty\<rparr>"
  using blank_line_repeats_word [of "'' ''" "\<lparr>word = ''help'', cout = [], files = Map.empty\<rparr>"]
  by (simp add: isspace_def)

text \<open>
  what a line that is run leaves as it was: the output only grows, and ends with the prompt, and
  no command but \<open>graph\<close> touches a file.
\<close>

theorem run_line_frame_prompt:
  assumes "run_line env wd line st = Inr st'"
  shows "(\<exists>msg. cout st' = cout st @ msg @ ''cv> '') \<and>
    (first_word line st \<noteq> ''graph'' \<longrightarrow> files st' = files st)"
  by (rule run_line_frame [OF assms])

theorem run_line_frame_prompt_witness:
  "\<exists>st' msg. run_line \<lparr>stat_ok = \<lambda>_ _. True, can_open = \<lambda>_ _. True\<rparr> new_WorldData ''help what''
     \<lparr>word = [], cout = ''x'', files = Map.empty\<rparr> = Inr st' \<and> cout st' = ''x'' @ msg @ ''cv> ''"
proof -
  let ?r = "run_line \<lparr>stat_ok = \<lambda>_ _. True, can_open = \<lambda>_ _. True\<rparr> new_WorldData ''help what''
     \<lparr>word = [], cout = ''x'', files = Map.empty\<rparr>"
  have "\<exists>st'. ?r = Inr st'"
    by (simp add: run_line_def words_of_def isspace_def next_word_def)
  then show ?thesis using run_line_frame_prompt by fastforce
qed

lemma main_db:
  "main rehash rehashc fuel env open_db (prog # db # args) stdin =
     bind_res (parseBedrock rehash rehashc fuel db (open_db db) new_WorldData)
       (\<lambda>(ok, wd, log).
       if ok then
         bind_res (run_lines env wd (getlines stdin) \<lparr>word = [], cout = ''cv> '', files = Map.empty\<rparr>) (\<lambda>st.
         bind_res (World_freeMemory wd) (\<lambda>freed. Inr (0, say line_end st, freed)))
       else Inr (- 1, \<lparr>word = [], cout = [], files = Map.empty\<rparr>, []))"
proof -
  have "say ''cv> '' \<lparr>word = [], cout = [], files = Map.empty\<rparr> =
      \<lparr>word = [], cout = ''cv> '', files = Map.empty\<rparr>"
    by (simp add: say_def)
  then show ?thesis unfolding main_def Let_def by (simp only:) simp
qed

text \<open>
  \<open>main\<close>: where the database cannot be opened the status is \<open>-1\<close> and nothing is read from the
  input; where it is read and the lines of the input run, the status is 0, the output ends with a
  line end, and every chunk of the world is deleted with its tags. No run stops because of a bound
  on a recursion, where every value is shorter than \<open>2 ^ 15\<close> bytes and than the bound.
\<close>

theorem main_runs:
  assumes "unordered_map rehashc"
    and "\<And>kvs kv. open_db db = Some kvs \<Longrightarrow> kv \<in> set kvs \<Longrightarrow>
      length (snd kv) < 2 ^ 15 \<and> length (snd kv) < fuel"
  shows "main rehash rehashc fuel env open_db (prog # db # args) stdin \<noteq> Inl OutOfFuel \<and>
    (open_db db = None \<longrightarrow> main rehash rehashc fuel env open_db (prog # db # args) stdin =
      Inr (- 1, \<lparr>word = [], cout = [], files = Map.empty\<rparr>, [])) \<and>
    (\<forall>wd log st. parseBedrock rehash rehashc fuel db (open_db db) new_WorldData = Inr (True, wd, log) \<and>
        run_lines env wd (getlines stdin) \<lparr>word = [], cout = ''cv> '', files = Map.empty\<rparr> = Inr st \<longrightarrow>
      (\<exists>freed. main rehash rehashc fuel env open_db (prog # db # args) stdin =
          Inr (0, say line_end st, freed) \<and>
        map snd freed = map snd (chunks wd) @ map snd (netherChunks wd) @ map snd (endChunks wd)))"
proof (intro conjI impI allI)
  have "parseBedrock rehash rehashc fuel db (open_db db) new_WorldData \<noteq> Inl OutOfFuel"
  proof (cases "open_db db")
    case (Some kvs)
    have "parse_records rehash rehashc fuel kvs st \<noteq> Inl OutOfFuel" for st
      by (rule parse_records_fuel) (use assms(2) [OF Some] in blast)
    then show ?thesis by (auto simp: parseBedrock_def Some res_simps split: prod.splits)
  qed (simp add: parseBedrock_def)
  moreover have "World_freeMemory wd \<noteq> Inl OutOfFuel"
    if "parseBedrock rehash rehashc fuel db (open_db db) new_WorldData = Inr (ok, wd, log)" for ok wd log
    using World_freeMemory_ok [OF parseBedrock_world_ok [OF assms(1) world_ok_new that]] by auto
  ultimately show "main rehash rehashc fuel env open_db (prog # db # args) stdin \<noteq> Inl OutOfFuel"
    unfolding main_db by (auto simp: res_simps run_lines_no_fuel split: if_splits)
next
  assume "open_db db = None"
  then show "main rehash rehashc fuel env open_db (prog # db # args) stdin =
      Inr (- 1, \<lparr>word = [], cout = [], files = Map.empty\<rparr>, [])"
    unfolding main_db by (simp add: parseBedrock_def)
next
  fix wd log st
  assume p: "parseBedrock rehash rehashc fuel db (open_db db) new_WorldData = Inr (True, wd, log) \<and>
    run_lines env wd (getlines stdin) \<lparr>word = [], cout = ''cv> '', files = Map.empty\<rparr> = Inr st"
  then have "world_ok wd" using parseBedrock_world_ok [OF assms(1) world_ok_new] by blast
  from World_freeMemory_ok [OF this] p
  show "\<exists>freed. main rehash rehashc fuel env open_db (prog # db # args) stdin =
      Inr (0, say line_end st, freed) \<and>
    map snd freed = map snd (chunks wd) @ map snd (netherChunks wd) @ map snd (endChunks wd)"
    unfolding main_db by auto
qed

theorem main_runs_witness:
  "\<exists>st. main front_order front_order 9 \<lparr>stat_ok = \<lambda>_ _. True, can_open = \<lambda>_ _. True\<rparr>
     (\<lambda>path. Some [([], [])]) [''ChunkViewer'', ''db''] ''help'' = Inr (0, st, [])"
proof -
  let ?e = "\<lparr>stat_ok = \<lambda>_ _. True, can_open = \<lambda>_ _. True\<rparr> :: environment"
  obtain log where p: "parseBedrock front_order front_order 9 ''db'' (Some [([], [])]) new_WorldData =
      Inr (True, new_WorldData, log)"
    by (simp add: parseBedrock_def parse_record_def subchunk_key_def)
  obtain st where "run_lines ?e new_WorldData (getlines ''help'')
      \<lparr>word = [], cout = ''cv> '', files = Map.empty\<rparr> = Inr st"
    by (simp add: getlines_def run_line_def words_of_def isspace_def next_word_def)
  with p main_runs [OF front.unordered_map_axioms, of "\<lambda>path. Some [([], [])]" "''db''" 9 front_order
      ?e "''ChunkViewer''" "[]" "''help''"]
  show ?thesis by (force simp: new_WorldData_def)
qed

end
