(* ===== verification/NBT_Format.thy ===== *)
theory NBT_Format
  imports NBT_Parse
begin

section \<open>The parser against the format\<close>

text \<open>
  The little-endian NBT of a palette entry, written down as an encoder on abstract values, and
  the proof that \<open>parseNBTTag\<close> reads back what it encodes. Longs and lists are left out: the
  program's \<open>parseLong\<close> never returns, and its lists carry a name per element, which the
  format does not have.
\<close>

datatype nbt =
    NByte byte
  | NShort u16
  | NInt u32
  | NString string
  | NCompound "(string \<times> nbt) list"

fun nbt_type :: "nbt \<Rightarrow> NBTType" where
  "nbt_type (NByte b) = BYTE"
| "nbt_type (NShort v) = SHORT"
| "nbt_type (NInt v) = INT'"
| "nbt_type (NString s) = STRING"
| "nbt_type (NCompound ms) = COMPOUND"

fun type_byte :: "nbt \<Rightarrow> byte" where
  "type_byte (NByte b) = 1"
| "type_byte (NShort v) = 2"
| "type_byte (NInt v) = 3"
| "type_byte (NString s) = 8"
| "type_byte (NCompound ms) = 10"

definition encode_string :: "string \<Rightarrow> byte list" where
  "encode_string s = le16 (of_nat (length s)) @ map char_byte s"

fun encode_payload :: "nbt \<Rightarrow> byte list"
and encode_members :: "(string \<times> nbt) list \<Rightarrow> byte list" where
  "encode_payload (NByte b) = [b]"
| "encode_payload (NShort v) = le16 v"
| "encode_payload (NInt v) = le32 v"
| "encode_payload (NString s) = encode_string s"
| "encode_payload (NCompound ms) = encode_members ms @ [0]"
| "encode_members [] = []"
| "encode_members ((nm, v) # ms) =
     (type_byte v # encode_string nm @ encode_payload v) @ encode_members ms"

definition encode_tag :: "string \<Rightarrow> nbt \<Rightarrow> byte list" where
  "encode_tag nm v = type_byte v # encode_string nm @ encode_payload v"

text \<open>The object the program should build for a value.\<close>

definition named :: "string \<Rightarrow> NBTType \<Rightarrow> NBTTag" where
  "named nm ty =
     upd_fields (\<lambda>f. f\<lparr>tag_type := Some ty, tag_name := nm\<rparr>) new_NBTTag"

fun fill :: "(NBTTag umap \<Rightarrow> NBTTag umap) \<Rightarrow> nbt \<Rightarrow> NBTTag \<Rightarrow> NBTTag"
and fill_members ::
    "(NBTTag umap \<Rightarrow> NBTTag umap) \<Rightarrow> (string \<times> nbt) list \<Rightarrow> NBTTag \<Rightarrow> NBTTag" where
  "fill rh (NByte b) t = upd_fields (\<lambda>f. f\<lparr>byteVal := Some b\<rparr>) t"
| "fill rh (NShort v) t = upd_fields (\<lambda>f. f\<lparr>shortVal := Some v\<rparr>) t"
| "fill rh (NInt v) t = upd_fields (\<lambda>f. f\<lparr>intVal := Some v\<rparr>) t"
| "fill rh (NString s) t = upd_fields (\<lambda>f. f\<lparr>stringVal := s\<rparr>) t"
| "fill rh (NCompound ms) t = fill_members rh ms t"
| "fill_members rh [] t = t"
| "fill_members rh ((nm, v) # ms) t =
     fill_members rh ms (addInnerTag rh t (fill rh v (named nm (nbt_type v))))"

definition tag_of :: "(NBTTag umap \<Rightarrow> NBTTag umap) \<Rightarrow> string \<Rightarrow> nbt \<Rightarrow> NBTTag" where
  "tag_of rh nm v = fill rh v (named nm (nbt_type v))"

lemma NBTType_of_type_byte [simp]: "NBTType_of (type_byte v) = nbt_type v"
  by (cases v) (simp_all add: NBTType_of_def)

lemma type_byte_nonzero [simp]: "type_byte v \<noteq> 0"
  by (cases v) simp_all

subsection \<open>Reading at the end of a prefix\<close>

text \<open>The offset of what follows a prefix.\<close>

abbreviation at :: "byte list \<Rightarrow> u32" where
  "at pre \<equiv> of_nat (length pre)"

lemma slice_at_at:
  "length pre < 2 ^ 32 \<Longrightarrow> slice_at (pre @ b # post) (uint (at pre)) = Inr b"
  by (simp add: uint_of_nat_small slice_at_def del: of_nat_numeral)

lemma slice_at_plus:
  "slice_at (pre @ post) (int (length pre) + int i) = slice_at post (int i)"
  by (rule slice_at_append)

lemma parseShort_at:
  assumes "length pre < 2 ^ 15"
  shows "parseShort (pre @ le16 v @ post) (ucast (at pre)) = Inr v"
proof -
  have "sint (ucast (at pre) :: u16) = int (length pre)"
    using assms sint_ucast_small [of "at pre"] by (simp add: unat_of_nat_small)
  then show ?thesis
    using slice_at_plus [of pre "le16 v @ post" 0] slice_at_plus [of pre "le16 v @ post" 1]
    by (simp add: parseShort_eq le16_def of_le16_le16 slice_at_def)
qed

lemma parseInt32_at:
  assumes "length pre < 2 ^ 31"
  shows "parseInt32 (pre @ le32 v @ post) (at pre) = Inr v"
proof -
  have "sint (at pre) = int (length pre)"
    using assms by (rule sint_of_nat_small)
  then show ?thesis
    using slice_at_plus [of pre "le32 v @ post" 0] slice_at_plus [of pre "le32 v @ post" 1]
      slice_at_plus [of pre "le32 v @ post" 2] slice_at_plus [of pre "le32 v @ post" 3]
    by (simp add: parseInt32_eq le32_def of_le32_le32 slice_at_def)
qed

lemma read_chars_at:
  "length pre + length cs < 2 ^ 32 \<Longrightarrow>
    read_chars (pre @ map char_byte cs @ post) (at pre) (length cs) =
      Inr (of_nat (length pre + length cs), cs)"
proof (induction cs arbitrary: pre)
  case (Cons c cs)
  have "at pre + 1 = at (pre @ [char_byte c])" by simp
  then show ?case
    using Cons.IH [of "pre @ [char_byte c]"] Cons.prems slice_at_at [of pre "char_byte c"]
    by (simp add: algebra_simps)
qed simp

lemma unat_of_nat16: "n < 2 ^ 16 \<Longrightarrow> unat (of_nat n :: u16) = n"
  by (simp add: unat_of_nat)

lemma nat_sint_length: "n < 2 ^ 15 \<Longrightarrow> nat (sint (of_nat n :: u16)) = n"
  by (simp add: sint_small16 unat_of_nat16)

lemma unat_scast_length:
  assumes "n < 2 ^ 15"
  shows "unat (scast (of_nat n :: u16) :: u32) = n"
proof -
  have "sint (of_nat n :: u16) = int n"
    using assms by (simp add: sint_small16 unat_of_nat16)
  then have "(scast (of_nat n :: u16) :: u32) = of_nat n"
    by (simp add: scast_eq)
  then show ?thesis using assms by (simp add: unat_of_nat_small)
qed

text \<open>A length and the characters it counts, as both a name and a string payload are read.\<close>

lemma read_string_at:
  assumes "length (pre @ encode_string cs @ post) < 2 ^ 15"
  shows "parseShort (pre @ encode_string cs @ post) (ucast (at pre)) = Inr (of_nat (length cs))"
    and "read_chars (pre @ encode_string cs @ post) (at pre + 2) (length cs) =
      Inr (at (pre @ encode_string cs), cs)"
proof -
  have l: "length pre + 2 + length cs < 2 ^ 15"
    using assms by (simp add: encode_string_def)
  show "parseShort (pre @ encode_string cs @ post) (ucast (at pre)) = Inr (of_nat (length cs))"
    using parseShort_at [of pre "of_nat (length cs)" "map char_byte cs @ post"] l
    by (simp add: encode_string_def)
  have "at pre + 2 = at (pre @ le16 (of_nat (length cs)))" by simp
  then show "read_chars (pre @ encode_string cs @ post) (at pre + 2) (length cs) =
      Inr (at (pre @ encode_string cs), cs)"
    using read_chars_at [of "pre @ le16 (of_nat (length cs))" cs post] l
    by (simp add: encode_string_def algebra_simps)
qed

subsection \<open>Parsing what was encoded\<close>

lemma length_encode_string [simp]: "length (encode_string s) = 2 + length s"
  by (simp add: encode_string_def)

text \<open>One tag, given that its payload is parsed right.\<close>

lemma parseNBTTag_step:
  assumes "length (pre @ (type_byte v # encode_string nm @ encode_payload v) @ post) < 2 ^ 15"
    and "parseNBTPayload rh (parseNBTTag rh fuel) fuel
        ((pre @ type_byte v # encode_string nm) @ encode_payload v @ post)
        (at (pre @ type_byte v # encode_string nm)) (named nm (nbt_type v)) =
      Inr (at ((pre @ type_byte v # encode_string nm) @ encode_payload v), t)"
  shows "parseNBTTag rh (Suc fuel) (pre @ (type_byte v # encode_string nm @ encode_payload v) @ post)
      (at pre) new_NBTTag True =
    Inr (at (pre @ type_byte v # encode_string nm @ encode_payload v), t)"
proof -
  let ?pre1 = "pre @ [type_byte v]"
  have s: "pre @ (type_byte v # encode_string nm @ encode_payload v) @ post =
      ?pre1 @ encode_string nm @ encode_payload v @ post" by simp
  have l: "length (?pre1 @ encode_string nm @ encode_payload v @ post) < 2 ^ 15"
    using assms(1) by simp
  have ty: "slice_at (?pre1 @ encode_string nm @ encode_payload v @ post) (uint (at pre)) =
      Inr (type_byte v)"
    using slice_at_at [of pre "type_byte v"] assms(1) by simp
  have a1: "at pre + 1 = at ?pre1" by simp
  have nm: "nat (sint (of_nat (length nm) :: u16)) = length nm"
    using assms(1) by (intro nat_sint_length) simp
  have tag: "upd_fields (\<lambda>f. f\<lparr>tag_name := nm\<rparr>)
      (upd_fields (\<lambda>f. f\<lparr>tag_type := Some (nbt_type v)\<rparr>) new_NBTTag) = named nm (nbt_type v)"
    by (simp add: named_def upd_fields_def)
  show ?thesis
    unfolding s parseNBTTag.simps
    using assms(2)
    by (simp only: if_True ty bind_res_Inr NBTType_of_type_byte prod.case a1
        read_string_at [OF l] nm tag) simp
qed

lemma fields_named [simp]: "tag_type (fields (named nm ty)) = Some ty"
  by (simp add: named_def)

lemma tag_type_addInnerTag [simp]: "fields (addInnerTag rh t u) = fields t"
  by (simp add: addInnerTag_def)

lemma parse_encoded:
  "length (pre @ encode_payload v @ post) < 2 ^ 15 \<Longrightarrow> length (encode_payload v) \<le> fuel \<Longrightarrow>
    tag_type (fields tag) = Some (nbt_type v) \<Longrightarrow>
    parseNBTPayload rh (parseNBTTag rh fuel) fuel (pre @ encode_payload v @ post) (at pre) tag =
      Inr (at (pre @ encode_payload v), fill rh v tag)"
  "length (pre @ encode_members ms @ 0 # post) < 2 ^ 15 \<Longrightarrow>
    length (encode_members ms) \<le> fuel \<Longrightarrow> length (encode_members ms) < n \<Longrightarrow>
    parseNBTCompound rh (parseNBTTag rh fuel) n (pre @ encode_members ms @ 0 # post) (at pre) tag =
      Inr (at (pre @ encode_members ms @ [0]), fill_members rh ms tag)"
proof (induction v and ms arbitrary: pre post tag fuel and pre post tag fuel n
    rule: encode_payload_encode_members.induct)
  case (1 b)
  then show ?case
    using slice_at_at [of pre b post] by (simp add: parseNBTPayload_def)
next
  case (2 v)
  then show ?case
    using parseShort_at [of pre v post] by (simp add: parseNBTPayload_def)
next
  case (3 v)
  then show ?case
    using parseInt32_at [of pre v post] by (simp add: parseNBTPayload_def)
next
  case (4 s)
  have l: "length (pre @ encode_string s @ post) < 2 ^ 15" using 4 by simp
  then have "unat (scast (of_nat (length s) :: u16) :: u32) = length s"
    by (intro unat_scast_length) simp
  with 4(3) show ?case
    using read_string_at [OF l] by (simp add: parseNBTPayload_def)
next
  case (5 ms)
  then show ?case
    using "5.IH" [of pre post fuel fuel tag] by (simp add: parseNBTPayload_def)
next
  case 6
  then obtain m where "n = Suc m" by (cases n) auto
  with 6 show ?case using slice_at_at [of pre 0 post] by simp
next
  case (7 nm v ms)
  let ?e = "type_byte v # encode_string nm @ encode_payload v"
  let ?rest = "encode_members ms @ 0 # post"
  from 7(4) obtain f where f: "fuel = Suc f" by (cases fuel) auto
  from 7(5) obtain m where n: "n = Suc m" by (cases n) auto
  have l: "length (pre @ ?e @ ?rest) < 2 ^ 15" using 7(3) by simp
  have "parseNBTPayload rh (parseNBTTag rh f) f
      ((pre @ type_byte v # encode_string nm) @ encode_payload v @ ?rest)
      (at (pre @ type_byte v # encode_string nm)) (named nm (nbt_type v)) =
    Inr (at ((pre @ type_byte v # encode_string nm) @ encode_payload v),
      fill rh v (named nm (nbt_type v)))"
    using 7(3,4) f by (intro "7.IH"(1)) simp_all
  from parseNBTTag_step [OF l this]
  have tag: "parseNBTTag rh fuel (pre @ ?e @ ?rest) (at pre) new_NBTTag True =
      Inr (at (pre @ ?e), fill rh v (named nm (nbt_type v)))"
    by (simp only: f)
  have rest: "parseNBTCompound rh (parseNBTTag rh fuel) m ((pre @ ?e) @ ?rest) (at (pre @ ?e)) t =
      Inr (at ((pre @ ?e) @ encode_members ms @ [0]), fill_members rh ms t)" for t
    using 7(3-5) n by (intro "7.IH"(2)) simp_all
  have b: "slice_at (pre @ ?e @ ?rest) (uint (at pre)) = Inr (type_byte v)"
    using slice_at_at [of pre "type_byte v"] l by simp
  have s: "pre @ encode_members ((nm, v) # ms) @ 0 # post = pre @ ?e @ ?rest" by simp
  show ?case
    unfolding s n parseNBTCompound.simps
    using rest by (simp only: b bind_res_Inr tag prod.case type_byte_nonzero if_True) simp
qed

lemma parse_encode_tag:
  assumes "length (pre @ encode_tag nm v @ post) < 2 ^ 15" and "length (encode_tag nm v) \<le> fuel"
  shows "parseNBTTag rh fuel (pre @ encode_tag nm v @ post) (at pre) new_NBTTag True =
    Inr (at (pre @ encode_tag nm v), tag_of rh nm v)"
proof -
  from assms(2) obtain f where f: "fuel = Suc f" by (cases fuel) (auto simp: encode_tag_def)
  have "parseNBTPayload rh (parseNBTTag rh f) f
      ((pre @ type_byte v # encode_string nm) @ encode_payload v @ post)
      (at (pre @ type_byte v # encode_string nm)) (named nm (nbt_type v)) =
    Inr (at ((pre @ type_byte v # encode_string nm) @ encode_payload v),
      fill rh v (named nm (nbt_type v)))"
    using assms f by (intro parse_encoded(1)) (simp_all add: encode_tag_def)
  from parseNBTTag_step [OF assms(1) [unfolded encode_tag_def] this] show ?thesis
    by (simp only: encode_tag_def tag_of_def f)
qed

subsection \<open>The tag that is built\<close>

lemma tag_ok_named [simp]: "tag_ok (named nm ty)"
  by (simp add: named_def)

lemma fields_fill:
  "tag_name (fields (fill rh v t)) = tag_name (fields t)"
  "fields (fill_members rh ms t) = fields t"
  by (induction rh v t and rh ms t rule: fill_fill_members.induct) simp_all

lemma tag_name_tag_of [simp]: "tag_name (fields (tag_of rh nm v)) = nm"
  by (simp add: tag_of_def fields_fill named_def)

lemma tag_ok_fill:
  "unordered_map rh \<Longrightarrow> tag_ok t \<Longrightarrow> tag_ok (fill rh v t)"
  "unordered_map rh \<Longrightarrow> tag_ok t \<Longrightarrow> tag_ok (fill_members rh ms t)"
  by (induction rh v t and rh ms t rule: fill_fill_members.induct)
    (simp_all add: tag_ok_addInnerTag)

lemma tag_ok_tag_of: "unordered_map rh \<Longrightarrow> tag_ok (tag_of rh nm v)"
  by (simp add: tag_of_def tag_ok_fill)

text \<open>The members of a compound are found under their names; a later one of the same name wins.\<close>

lemma map_of_fill_members:
  assumes "unordered_map rh" and "tag_ok t"
  shows "map_of (innerTags (fill_members rh ms t)) key =
    (case map_of (rev ms) key of
       Some v \<Rightarrow> Some (tag_of rh key v)
     | None \<Rightarrow> map_of (innerTags t) key)"
  using assms(2)
proof (induction ms arbitrary: t)
  case (Cons m ms)
  obtain nm v where m: "m = (nm, v)" by (cases m)
  let ?u = "tag_of rh nm v"
  have u: "tag_ok ?u" by (rule tag_ok_tag_of [OF assms(1)])
  have "map_of (innerTags (fill_members rh ms (addInnerTag rh t ?u))) key =
      (case map_of (rev ms) key of
         Some v \<Rightarrow> Some (tag_of rh key v)
       | None \<Rightarrow> map_of (innerTags (addInnerTag rh t ?u)) key)"
    by (rule Cons.IH) (rule tag_ok_addInnerTag [OF assms(1) Cons.prems u])
  then show ?case
    by (auto simp: m map_of_addInnerTag [OF assms(1) Cons.prems] map_add_def
        tag_of_def [symmetric] split: option.splits)
qed simp

lemma findInnerTag_member:
  assumes "unordered_map rh" and "map_of (rev ms) key = Some v"
  shows "findInnerTag (tag_of rh nm (NCompound ms)) key = Some (tag_of rh key v)"
proof (rule findInnerTag_surface)
  show "map_of (innerTags (tag_of rh nm (NCompound ms))) key = Some (tag_of rh key v)"
    using map_of_fill_members [OF assms(1) tag_ok_named [of nm COMPOUND], of ms key] assms(2)
    by (simp add: tag_of_def)
qed

lemma stringVal_tag_of [simp]: "stringVal (fields (tag_of rh nm (NString s))) = s"
  by (simp add: tag_of_def)

lemma inner_string_member:
  assumes "unordered_map rh" and "map_of (rev ms) key = Some (NString v)"
  shows "inner_string (tag_of rh nm (NCompound ms)) key = Inr v"
  using findInnerTag_member [OF assms] by (simp add: inner_string_def)

subsection \<open>Properties\<close>

text \<open>
  C14: round trip of the tag format: in a slice shorter than \<open>2 ^ 15\<close> bytes, the parser placed at an
  encoded tag (bytes, shorts, ints, strings and compounds of those, nested to any depth) builds the
  tag of the value and stops right behind it, whatever surrounds it and whatever order the maps
  keep their nodes in.
\<close>

theorem parseNBTTag_encode:
  assumes "length (pre @ encode_tag nm v @ post) < 2 ^ 15" and "length (encode_tag nm v) \<le> fuel"
  shows "parseNBTTag rh fuel (pre @ encode_tag nm v @ post) (of_nat (length pre)) new_NBTTag True =
    Inr (of_nat (length (pre @ encode_tag nm v)), tag_of rh nm v)"
  by (rule parse_encode_tag [OF assms])

theorem parseNBTTag_encode_witness:
  "parseNBTTag insertion_order 40 ([8, 1] @
      encode_tag ''b'' (NCompound [(''name'', NString ''log''), (''val'', NInt 7)]) @ [0])
    2 new_NBTTag True =
    Inr (29, tag_of insertion_order ''b'' (NCompound [(''name'', NString ''log''), (''val'', NInt 7)]))"
  using parseNBTTag_encode [of "[8, 1]" "''b''"
      "NCompound [(''name'', NString ''log''), (''val'', NInt 7)]" "[0]" 40 insertion_order]
  by (simp add: encode_tag_def encode_string_def)

text \<open>
  of a compound read from the database \<open>findInnerTag\<close> answers the member of that name, the last
  one where a name occurs twice; its string is what \<open>getBlockType\<close> and the drawing of a block use.
\<close>

theorem findInnerTag_compound:
  assumes "unordered_map rh" and "map_of (rev ms) key = Some v"
  shows "findInnerTag (tag_of rh nm (NCompound ms)) key = Some (tag_of rh key v)"
  by (rule findInnerTag_member [OF assms])

theorem findInnerTag_compound_witness:
  "findInnerTag (tag_of front_order [] (NCompound [(''name'', NString ''a''), (''name'', NString ''b'')]))
    ''name'' = Some (tag_of front_order ''name'' (NString ''b''))"
  by (rule findInnerTag_compound [OF front.unordered_map_axioms]) simp

end
