(* ===== verification/Subchunk_Format.thy ===== *)
theory Subchunk_Format
  imports Parse_Bedrock NBT_Format
begin

section \<open>A sub-chunk record from its bytes to its blocks\<close>

text \<open>
  The record of a sub-chunk with one block storage, written down as bytes, and what reading it
  leaves in the world: block by block, the entry of the palette its packed index names. Where
  the number of indices per word does not divide 4096 the padding of the last word is decoded as
  well, over the first blocks.
\<close>

subsection \<open>Positions\<close>

fun pos_of :: "nat \<Rightarrow> nat \<Rightarrow> pos" where
  "pos_of cy p = (p div 256 mod 16, p div 16 mod 16, p mod 16 + 16 * cy)"

lemma pos_ok_pos_of [simp]: "cy < 16 \<Longrightarrow> pos_ok (pos_of cy p)"
  using mod_less_divisor [of 16 p] by simp

lemma mod_4096: "p mod 4096 = 256 * (p div 256 mod 16) + (16 * (p div 16 mod 16) + p mod 16)"
  for p :: nat
proof -
  have "p mod (256 * 16) = 256 * (p div 256 mod 16) + p mod 256" by (rule mod_mult2_eq)
  moreover have "p mod (16 * 16) = 16 * (p div 16 mod 16) + p mod 16" by (rule mod_mult2_eq)
  ultimately show ?thesis by simp
qed

lemma pos_of_mod: "pos_of cy (p mod 4096) = pos_of cy p"
proof -
  have "p mod (256 * 16) = 256 * (p div 256 mod 16) + p mod 256" by (rule mod_mult2_eq)
  then have "p mod 4096 div 256 = p div 256 mod 16" by simp
  moreover have "p mod (16 * 256) = 16 * (p div 16 mod 256) + p mod 16" by (rule mod_mult2_eq)
  then have "p mod 4096 div 16 = p div 16 mod 256" by simp
  moreover have "p div 16 mod 256 mod 16 = p div 16 mod 16" by (rule mod_mod_cancel) simp
  moreover have "p mod 4096 mod 16 = p mod 16" by (rule mod_mod_cancel) simp
  ultimately show ?thesis by simp
qed

lemma pos_of_index: "pos_of cy p = pos_of cy q \<longleftrightarrow> p mod 4096 = q mod 4096"
proof
  assume "pos_of cy p = pos_of cy q"
  then show "p mod 4096 = q mod 4096" by (simp add: mod_4096)
next
  assume "p mod 4096 = q mod 4096"
  then show "pos_of cy p = pos_of cy q" by (metis pos_of_mod)
qed

lemma mod_second_round: "4096 \<le> p \<Longrightarrow> p < 8192 \<Longrightarrow> p mod 4096 = p - (4096 :: nat)"
  by (simp add: le_mod_geq)

text \<open>The index of the block at \<open>(rx, rz, ry)\<close> of a sub-chunk.\<close>

definition block_index :: "nat \<Rightarrow> nat \<Rightarrow> nat \<Rightarrow> nat" where
  "block_index rx rz ry = 256 * rx + 16 * rz + ry"

lemma pos_of_block_index:
  assumes "rx < 16" and "rz < 16" and "ry < 16"
  shows "pos_of cy (block_index rx rz ry) = (rx, rz, ry + 16 * cy)"
    and "block_index rx rz ry < 4096"
proof -
  have "block_index rx rz ry div 256 = rx"
    using assms by (intro div_nat_eqI) (simp_all add: block_index_def)
  moreover have "block_index rx rz ry div 16 = 16 * rx + rz"
    using assms by (intro div_nat_eqI) (simp_all add: block_index_def)
  moreover have "block_index rx rz ry mod 16 = ry"
  proof -
    have "block_index rx rz ry = ry + 16 * (16 * rx + rz)" by (simp add: block_index_def)
    also have "\<dots> mod 16 = ry mod 16" by (rule mod_mult_self2)
    finally show ?thesis using assms(3) by simp
  qed
  ultimately show "pos_of cy (block_index rx rz ry) = (rx, rz, ry + 16 * cy)"
    using assms by simp
  show "block_index rx rz ry < 4096" using assms by (simp add: block_index_def)
qed

lemma map_of_rev_image:
  assumes "inj_on g (set xs)" and "distinct xs" and "x \<in> set xs"
  shows "map_of (rev (map (\<lambda>p. (g p, f p)) xs)) (g x) = Some (f x)"
proof (rule map_of_is_SomeI)
  have "map fst (rev (map (\<lambda>p. (g p, f p)) xs)) = map g (rev xs)"
    by (simp add: rev_map comp_def)
  then show "distinct (map fst (rev (map (\<lambda>p. (g p, f p)) xs)))"
    using assms(1,2) by (simp add: distinct_map)
qed (use assms(3) in simp)

text \<open>
  Writing the positions \<open>0, \<dots>, n - 1\<close> in order, with \<open>n\<close> at most two rounds of 4096: a block
  holds what its position in the second round wrote, where there is one.
\<close>

lemma last_write:
  assumes "idx < 4096" and "4096 \<le> n" and "n \<le> 8192"
  shows "map_of (rev (map (\<lambda>p. (pos_of cy p, f p)) [0..<n])) (pos_of cy idx) =
    Some (if idx + 4096 < n then f (idx + 4096) else f idx)"
proof -
  have split: "[0..<n] = [0..<4096] @ [4096..<n]"
    using assms(2) by (metis le_add_diff_inverse upt_add_eq_append zero_le)
  have "inj_on (pos_of cy) (set [4096..<n])"
    using assms(3) by (intro inj_onI)
      (auto simp: pos_of_index mod_second_round eq_diff_iff simp del: pos_of.simps)
  moreover have "inj_on (pos_of cy) (set [0..<4096])"
    by (intro inj_onI) (simp add: pos_of_index del: pos_of.simps)
  ultimately have inj: "inj_on (pos_of cy) (set [4096..<n])"
    "inj_on (pos_of cy) (set [0..<4096])" .
  show ?thesis
  proof (cases "idx + 4096 < n")
    case True
    have "map_of (rev (map (\<lambda>p. (pos_of cy p, f p)) [4096..<n])) (pos_of cy (idx + 4096)) =
        Some (f (idx + 4096))"
      using True by (intro map_of_rev_image inj) auto
    moreover have "pos_of cy (idx + 4096) = pos_of cy idx"
      by (simp add: pos_of_index del: pos_of.simps)
    ultimately show ?thesis using True by (simp add: split map_add_def del: pos_of.simps)
  next
    case False
    have "pos_of cy idx \<noteq> pos_of cy p" if "4096 \<le> p" "p < n" for p
    proof -
      have "p mod 4096 = p - 4096" using that assms(3) by (simp add: mod_second_round)
      with that False assms(1) show ?thesis by (simp add: pos_of_index del: pos_of.simps)
    qed
    then have "map_of (rev (map (\<lambda>p. (pos_of cy p, f p)) [4096..<n])) (pos_of cy idx) = None"
      by (auto simp: map_of_eq_None_iff simp del: pos_of.simps) (metis)
    moreover have "map_of (rev (map (\<lambda>p. (pos_of cy p, f p)) [0..<4096])) (pos_of cy idx) =
        Some (f idx)"
      using assms(1) by (intro map_of_rev_image inj) auto
    ultimately show ?thesis using False by (simp add: split map_add_def del: pos_of.simps)
  qed
qed

subsection \<open>The packed states\<close>

text \<open>
  The specification of the packing: 32 div \<open>b\<close> indices of \<open>b\<close> bits per little-endian word, lowest
  bits first; \<open>- 2\<close> for an index that is not in the palette.
\<close>

definition word_state :: "nat \<Rightarrow> nat \<Rightarrow> u32 \<Rightarrow> nat \<Rightarrow> int" where
  "word_state b psize w j =
     (let st = uint (take_bit b (drop_bit (j * b) w)) in if st < int psize then st else - 2)"

definition packed_state :: "nat \<Rightarrow> nat \<Rightarrow> u32 list \<Rightarrow> nat \<Rightarrow> int" where
  "packed_state b psize ws p = word_state b psize (ws ! (p div (32 div b))) (p mod (32 div b))"

definition put_all :: "Chunk \<Rightarrow> (pos \<times> int) list \<Rightarrow> Chunk" where
  "put_all c ws = foldl (\<lambda>c w. put_block c (fst w) (snd w)) c ws"

lemma put_all_simps [simp]:
  "put_all c [] = c" "put_all c (w # ws) = put_all (put_block c (fst w) (snd w)) ws"
  "put_all c (ws @ us) = put_all (put_all c ws) us"
  by (simp_all add: put_all_def)

definition width_ok :: "nat \<Rightarrow> bool" where
  "width_ok b \<longleftrightarrow> 0 < b \<and> b < 31"

lemma width_fits:
  assumes "width_ok b"
  shows "0 < 32 div b" and "j < 32 div b \<Longrightarrow> j * b + b \<le> 32"
proof -
  show "0 < 32 div b" using assms by (simp add: width_ok_def div_greater_zero_iff)
  assume "j < 32 div b"
  then have "Suc j * b \<le> (32 div b) * b" by (intro mult_le_mono) simp_all
  also have "\<dots> \<le> 32" by simp
  finally show "j * b + b \<le> 32" by (simp add: add.commute)
qed

lemma block_state_word_state:
  assumes "width_ok b" and "psize < 2 ^ 31"
  shows "block_state (int b) (int (32 div b)) (int psize) w pos =
    Inr (word_state b psize w (pos mod (32 div b)))"
proof -
  let ?j = "pos mod (32 div b)"
  have j: "?j < 32 div b" using width_fits(1) [OF assms(1)] by simp
  have "(int pos mod int (32 div b)) * int b = int (?j * b)"
    by (simp only: zmod_int of_nat_mult)
  then have "extract_state w ((int pos mod int (32 div b)) * int b) (int b) =
      Inr (uint (take_bit b (drop_bit (?j * b) w)))"
    using extract_state_eq [of b "?j * b" w] width_fits(2) [OF assms(1) j] assms(1)
    by (simp add: width_ok_def)
  then show ?thesis
    using assms(2) by (auto simp: block_state_def to_int32_def int32_ok_def word_state_def Let_def)
qed

lemma read_word_eq:
  assumes "width_ok b" and "psize < 2 ^ 31" and "cy < 16" and "grid_ok c"
  shows "read_word 0 (int b) (int (32 div b)) (int psize) (int cy) w n pos c =
    Inr (pos + n, put_all c
      (map (\<lambda>p. (pos_of cy p, word_state b psize w (p mod (32 div b)))) [pos..<pos + n]))"
  using assms(4)
proof (induction n arbitrary: pos c)
  case (Suc n)
  let ?st = "word_state b psize w (pos mod (32 div b))"
  have d: "drop_bit 8 pos = pos div 256" "drop_bit 4 pos = pos div 16"
    by (simp_all add: drop_bit_eq_div)
  have "addBlock c ?st (int (pos div 256 mod 16)) (int (pos mod 16 + 16 * cy))
      (int (pos div 16 mod 16)) = Inr (put_block c (pos_of cy pos) ?st)"
    unfolding pos_of.simps
    by (rule addBlock_in_range [OF Suc.prems]) (use pos_ok_pos_of [OF assms(3), of pos] in simp)
  moreover have "grid_ok (put_block c (pos_of cy pos) ?st)"
    by (rule grid_ok_put_block [OF Suc.prems pos_ok_pos_of [OF assms(3)]])
  moreover have "[pos..<pos + Suc n] = pos # [Suc pos..<Suc pos + n]"
    by (simp add: upt_conv_Cons)
  ultimately show ?case
    using Suc.IH [of "put_block c (pos_of cy pos) ?st" "Suc pos"]
    by (simp add: block_state_word_state [OF assms(1,2)] d Let_def
        del: pos_of.simps put_block.simps upt_Suc)
qed simp

lemma grid_ok_put_all:
  "grid_ok c \<Longrightarrow> \<forall>w \<in> set ws. pos_ok (fst w) \<Longrightarrow> grid_ok (put_all c ws)"
  unfolding put_all_def by (rule chunk_cells.inv_puts)

lemma block_at_put_all:
  "grid_ok c \<Longrightarrow> \<forall>w \<in> set ws. pos_ok (fst w) \<Longrightarrow> pos_ok q \<Longrightarrow>
    block_at (put_all c ws) q = (case map_of (rev ws) q of Some v \<Rightarrow> v | None \<Rightarrow> block_at c q)"
  unfolding put_all_def by (rule chunk_cells.get_puts)

lemma put_all_frame: "same_frame c (put_all c ws)"
proof (induction ws arbitrary: c)
  case (Cons w ws)
  obtain x z y where "fst w = (x, z, y)" by (cases "fst w")
  then have "same_frame c (put_block c (fst w) (snd w))" by (simp add: same_frame_def)
  with Cons show ?case by (auto intro: same_frame_trans)
qed simp

text \<open>The writes of all words, the first one starting at position \<open>j\<close> words in.\<close>

definition storage_writes :: "nat \<Rightarrow> nat \<Rightarrow> nat \<Rightarrow> u32 list \<Rightarrow> (pos \<times> int) list" where
  "storage_writes b psize cy ws =
     map (\<lambda>p. (pos_of cy p, packed_state b psize ws p)) [0..<length ws * (32 div b)]"

lemma storage_writes_snoc:
  assumes "width_ok b"
  shows "storage_writes b psize cy (ws @ [w]) = storage_writes b psize cy ws @
    map (\<lambda>p. (pos_of cy p, word_state b psize w (p mod (32 div b))))
      [length ws * (32 div b)..<length ws * (32 div b) + 32 div b]"
proof -
  let ?n = "32 div b"
  have n: "0 < ?n" using width_fits(1) [OF assms] .
  have s: "[0..<length (ws @ [w]) * ?n] =
      [0..<length ws * ?n] @ [length ws * ?n..<length ws * ?n + ?n]"
    using upt_add_eq_append [of 0 "length ws * ?n" ?n] by (simp add: add.commute)
  have a: "packed_state b psize (ws @ [w]) p = packed_state b psize ws p"
    if "p < length ws * ?n" for p
  proof -
    have "p div ?n < length ws" using that n by (simp add: less_mult_imp_div_less)
    then show ?thesis by (simp add: packed_state_def nth_append)
  qed
  have b: "packed_state b psize (ws @ [w]) p = word_state b psize w (p mod ?n)"
    if "length ws * ?n \<le> p" "p < length ws * ?n + ?n" for p
  proof -
    have "p div ?n = length ws"
      using that n by (intro div_nat_eqI) (simp_all add: mult.commute)
    then show ?thesis by (simp add: packed_state_def)
  qed
  show ?thesis
    unfolding storage_writes_def s map_append using a b by (auto simp del: pos_of.simps)
qed

lemma storage_writes_ok: "cy < 16 \<Longrightarrow> w \<in> set (storage_writes b psize cy ws) \<Longrightarrow> pos_ok (fst w)"
  by (auto simp: storage_writes_def simp del: pos_of.simps pos_ok.simps)

subsection \<open>Reading the words and the palette\<close>

definition encode_words :: "u32 list \<Rightarrow> byte list" where
  "encode_words ws = concat (map le32 ws)"

lemma encode_words_simps [simp]:
  "encode_words [] = []" "encode_words (w # ws) = le32 w @ encode_words ws"
  "encode_words (ws @ us) = encode_words ws @ encode_words us"
  "length (encode_words ws) = 4 * length ws"
  by (simp_all add: encode_words_def length_concat comp_def sum_list_triv)

lemma read_words_from:
  assumes "width_ok b" and "psize < 2 ^ 31" and "cy < 16" and "grid_ok c"
    and "length (pre @ encode_words (us @ ws) @ post) < 2 ^ 31"
  shows "read_words (pre @ encode_words (us @ ws) @ post) 0 (int b) (int (32 div b)) (int psize)
      (int cy) (length ws) (at (pre @ encode_words us)) (length us * (32 div b))
      (put_all c (storage_writes b psize cy us)) =
    Inr (put_all c (storage_writes b psize cy (us @ ws)))"
  using assms(5)
proof (induction ws arbitrary: us)
  case (Cons w ws)
  let ?c = "put_all c (storage_writes b psize cy us)"
  let ?v = "pre @ encode_words (us @ w # ws) @ post"
  have v: "?v = (pre @ encode_words us) @ le32 w @ encode_words ws @ post" by simp
  have p: "parseInt32 ?v (at (pre @ encode_words us)) = Inr w"
    unfolding v by (rule parseInt32_at) (use Cons.prems in simp)
  have g: "grid_ok ?c"
    by (rule grid_ok_put_all [OF assms(4)]) (use storage_writes_ok [OF assms(3)] in blast)
  have w: "read_word 0 (int b) (int (32 div b)) (int psize) (int cy) w (32 div b)
      (length us * (32 div b)) ?c =
      Inr (length (us @ [w]) * (32 div b), put_all c (storage_writes b psize cy (us @ [w])))"
    using read_word_eq [OF assms(1-3) g, of w "32 div b" "length us * (32 div b)"]
    by (simp add: storage_writes_snoc [OF assms(1)])
  have o: "at (pre @ encode_words us) + 4 = at (pre @ encode_words (us @ [w]))" by simp
  show ?case
    using Cons.IH [of "us @ [w]"] Cons.prems
    by (simp only: read_words.simps length_Cons p bind_res_Inr nat_int w prod.case o) simp
qed simp

lemma read_words_eq:
  assumes "width_ok b" and "psize < 2 ^ 31" and "cy < 16" and "grid_ok c"
    and "length (pre @ encode_words ws @ post) < 2 ^ 31"
  shows "read_words (pre @ encode_words ws @ post) 0 (int b) (int (32 div b)) (int psize)
      (int cy) (length ws) (at pre) 0 c = Inr (put_all c (storage_writes b psize cy ws))"
  using read_words_from [OF assms(1-4), of pre "[]" ws post] assms(5)
  by (simp add: storage_writes_def)

definition encode_palette :: "(string \<times> nbt) list \<Rightarrow> byte list" where
  "encode_palette es = concat (map (\<lambda>(nm, v). encode_tag nm v) es)"

lemma encode_palette_simps [simp]:
  "encode_palette [] = []"
  "encode_palette ((nm, v) # es) = encode_tag nm v @ encode_palette es"
  by (simp_all add: encode_palette_def)

definition append_palette :: "Chunk \<Rightarrow> nat \<Rightarrow> NBTTag list \<Rightarrow> Chunk" where
  "append_palette c cy ts = c\<lparr>blockStates := (blockStates c)[cy := palette_at c cy @ ts]\<rparr>"

lemma append_palette_props:
  assumes "grid_ok c" and "cy < 16"
  shows "grid_ok (append_palette c cy ts)"
    and "palette_at (append_palette c cy ts) k = palette_at c k @ (if k = cy then ts else [])"
    and "block_at (append_palette c cy ts) p = block_at c p"
    and "chunk_x (append_palette c cy ts) = chunk_x c" "chunk_z (append_palette c cy ts) = chunk_z c"
    and "append_palette (append_palette c cy ts) cy us = append_palette c cy (ts @ us)"
    and "append_palette c cy [] = c"
  using assms
  by (auto simp: append_palette_def grid_ok_def palette_at_def; cases p; simp)+

lemma read_palette_eq:
  assumes "cy < 16" and "grid_ok c" and "length (pre @ encode_palette es @ post) < 2 ^ 15"
    and "length (encode_palette es) \<le> fuel"
  shows "read_palette rh fuel (pre @ encode_palette es @ post) (int cy) (length es) (at pre) c =
    Inr (at (pre @ encode_palette es), append_palette c cy (map (\<lambda>(nm, v). tag_of rh nm v) es))"
  using assms(2-4)
proof (induction es arbitrary: pre c)
  case Nil
  then show ?case using append_palette_props(7) [OF Nil.prems(1) assms(1)] by simp
next
  case (Cons e es)
  obtain nm v where e: "e = (nm, v)" by (cases e)
  let ?s = "pre @ encode_tag nm v @ encode_palette es @ post"
  have t: "parseNBTTag rh fuel ?s (at pre) new_NBTTag True =
      Inr (at (pre @ encode_tag nm v), tag_of rh nm v)"
    using Cons.prems by (intro parse_encode_tag) (simp_all add: e)
  have a: "addBlockState c (int cy) (tag_of rh nm v) = Inr (append_palette c cy [tag_of rh nm v])"
    using addBlockState_in_range [OF Cons.prems(1) assms(1)] by (simp add: append_palette_def)
  note ap = append_palette_props [OF Cons.prems(1) assms(1)]
  have "read_palette rh fuel ((pre @ encode_tag nm v) @ encode_palette es @ post) (int cy) (length es)
      (at (pre @ encode_tag nm v)) (append_palette c cy [tag_of rh nm v]) =
    Inr (at ((pre @ encode_tag nm v) @ encode_palette es),
      append_palette (append_palette c cy [tag_of rh nm v]) cy (map (\<lambda>(nm, v). tag_of rh nm v) es))"
    using Cons.prems by (intro Cons.IH ap(1)) (simp_all add: e)
  then show ?case
    using t by (simp only: e encode_palette_simps append_assoc list.size(4) One_nat_def
        add_Suc_right add_0_right read_palette.simps bind_res_Inr prod.case a ap(6)) simp
qed

subsection \<open>A storage and its record\<close>

text \<open>The number of words 4096 indices take, and the value of a sub-chunk record.\<close>

definition words_needed :: "nat \<Rightarrow> nat" where
  "words_needed b = (4096 + (32 div b - 1)) div (32 div b)"

definition encode_subchunk :: "nat \<Rightarrow> u32 list \<Rightarrow> (string \<times> nbt) list \<Rightarrow> byte list" where
  "encode_subchunk b ws es =
     [8, 1, of_nat (2 * b)] @ encode_words ws @ le32 (of_nat (length es)) @ encode_palette es"

definition region_bytes :: "ChunkDimension \<Rightarrow> byte list" where
  "region_bytes d = (case d of OVERWORLD \<Rightarrow> [] | NETHER \<Rightarrow> le32 1 | ENDWORLD \<Rightarrow> le32 2)"

definition subchunk_key_of :: "u32 \<Rightarrow> nat \<Rightarrow> u32 \<Rightarrow> ChunkDimension \<Rightarrow> slice" where
  "subchunk_key_of x cy z d = le32 x @ le32 z @ region_bytes d @ [0x2F, of_nat cy]"

lemma num_words_eq:
  assumes "width_ok b"
  shows "num_words (int (32 div b)) = Inr (int (words_needed b))"
proof -
  have n: "0 < 32 div b" using width_fits(1) [OF assms] .
  have "- ((- 4096) div int (32 div b)) = int (words_needed b)"
    using ceiling_div [OF n, of 4096] by (simp only: words_needed_def of_nat_numeral)
  moreover have "int (32 div b) \<noteq> 0" using n by linarith
  ultimately show ?thesis by (simp only: num_words_def if_False)
qed

lemma read_storages_eq:
  assumes "width_ok b" and "length ws = words_needed b" and "cy < 16" and "grid_ok c"
    and "length (encode_subchunk b ws es) < 2 ^ 15"
    and "length (encode_subchunk b ws es) \<le> fuel"
  shows "read_storages rh fuel (encode_subchunk b ws es) (int cy) 0 1 2 c =
    Inr (True, put_all (append_palette c cy (map (\<lambda>(nm, v). tag_of rh nm v) es))
      (storage_writes b (length es) cy ws))"
proof -
  let ?v = "encode_subchunk b ws es" and ?n = "length es"
  let ?pre = "[8, 1, of_nat (2 * b)] :: byte list"
  let ?c = "append_palette c cy (map (\<lambda>(nm, v). tag_of rh nm v) es)"
  have v1: "?v = [8, 1] @ of_nat (2 * b) # (encode_words ws @ le32 (of_nat ?n) @ encode_palette es)"
    and v2: "?v = ?pre @ encode_words ws @ (le32 (of_nat ?n) @ encode_palette es)"
    and v3: "?v = (?pre @ encode_words ws) @ le32 (of_nat ?n) @ encode_palette es"
    and v4: "?v = (?pre @ encode_words ws @ le32 (of_nat ?n)) @ encode_palette es @ []"
    by (simp_all add: encode_subchunk_def)
  have len: "length (?pre @ encode_words ws @ le32 (of_nat ?n) @ encode_palette es) < 2 ^ 15"
    using assms(5) by (simp only: v2)
  have "?n \<le> length (encode_palette es)"
    by (induction es) (auto simp: encode_tag_def encode_palette_def)
  with len have n: "?n < 2 ^ 15" by simp
  have s0: "slice_at ?v (uint (2 :: u32)) = Inr (of_nat (2 * b))"
    using slice_at_at [of "[8, 1]" "of_nat (2 * b)"] unfolding v1 by simp
  have sv: "sint (of_nat (2 * b) :: byte) = int (2 * b)"
    using assms(1) by (intro sint_of_nat8) (simp add: width_ok_def)
  have bpw: "cdiv 32 (int b) = Inr (int (32 div b))"
    using assms(1) by (simp add: cdiv_def width_ok_def zdiv_int)
  have o1: "(2 :: u32) + 1 = at ?pre"
    and o2: "at ?pre + of_int (int (words_needed b) * 4) = at (?pre @ encode_words ws)"
    and o3: "at (?pre @ encode_words ws) + 4 = at (?pre @ encode_words ws @ le32 (of_nat ?n))"
    using assms(2) by (simp_all add: mult.commute)
  have ps: "parseInt32 ?v (at (?pre @ encode_words ws)) = Inr (of_nat ?n)"
    unfolding v3 by (rule parseInt32_at) (use len in simp)
  have sn: "sint (of_nat ?n :: u32) = int ?n"
    using n by (intro sint_of_nat_small) simp
  have pal: "read_palette rh fuel ?v (int cy) ?n (at (?pre @ encode_words ws @ le32 (of_nat ?n))) c =
      Inr (at ((?pre @ encode_words ws @ le32 (of_nat ?n)) @ encode_palette es), ?c)"
    unfolding v4 by (rule read_palette_eq [OF assms(3,4)])
      (use len assms(6) in \<open>simp_all add: encode_subchunk_def\<close>)
  have ws: "read_words ?v 0 (int b) (int (32 div b)) (int ?n) (int cy) (words_needed b) (at ?pre) 0 ?c =
      Inr (put_all ?c (storage_writes b ?n cy ws))"
    unfolding v2 assms(2) [symmetric]
    by (rule read_words_eq [OF assms(1) _ assms(3) append_palette_props(1) [OF assms(4,3)]])
      (use n len in simp_all)
  have even: "\<not> odd (int (2 * b))" "int (2 * b) div 2 = int b" by simp_all
  show ?thesis
    by (simp only: One_nat_def read_storages.simps Let_def s0 bind_res_Inr sv even(1) if_False bpw
        num_words_eq [OF assms(1)] o1 o2 ps o3 sn nat_int pal prod.case ws even(2))
qed

lemma key_parts:
  assumes "cy < 16"
  shows "subchunk_key (subchunk_key_of x cy z d)"
    and "parseInt32 (subchunk_key_of x cy z d) 0 = Inr x"
    and "parseInt32 (subchunk_key_of x cy z d) 4 = Inr z"
    and "slice_at (subchunk_key_of x cy z d) (int (length (subchunk_key_of x cy z d)) - 1) =
      Inr (of_nat cy)"
    and "key_dimension (subchunk_key_of x cy z d) = Inr d"
proof -
  let ?k = "subchunk_key_of x cy z d"
  show "subchunk_key ?k"
    by (cases d) (simp_all add: subchunk_key_def subchunk_key_of_def region_bytes_def nth_append le32_def)
  show "parseInt32 ?k 0 = Inr x"
    using parseInt32_at [of "[]" x] by (simp add: subchunk_key_of_def)
  show "parseInt32 ?k 4 = Inr z"
    using parseInt32_at [of "le32 x" z] by (simp add: subchunk_key_of_def)
  show "slice_at ?k (int (length ?k) - 1) = Inr (of_nat cy)"
    by (cases d) (simp_all add: subchunk_key_of_def region_bytes_def slice_at_def nth_append le32_def)
  have "parseInt32 (le32 x @ le32 z @ le32 r @ [0x2F, of_nat cy]) 8 = Inr r" for r
    using parseInt32_at [of "le32 x @ le32 z" r] by simp
  then show "key_dimension ?k = Inr d"
    by (cases d) (simp_all add: key_dimension_def subchunk_key_of_def region_bytes_def)
qed

text \<open>What reading the record makes of the world.\<close>

lemma parse_subchunk_record:
  assumes "width_ok b" and "length ws = words_needed b" and "cy < 16"
    and "unordered_map rehashc" and "world_ok (world st)"
    and "length (encode_subchunk b ws es) < 2 ^ 15"
    and "length (encode_subchunk b ws es) \<le> fuel"
    and "c = (case findChunk (world st) (chunkID (sint x) (sint z)) d of
      None \<Rightarrow> fresh_chunk (sint x) (sint z) | Some c \<Rightarrow> c)"
  shows "\<exists>st'. parse_record rehash rehashc fuel
      (subchunk_key_of x cy z d, encode_subchunk b ws es) st = Inr (True, st') \<and>
    world_ok (world st') \<and>
    (\<forall>cid d'. findChunk (world st') cid d' =
      (if (cid, d') = (chunkID (sint x) (sint z), d)
       then Some (put_all (append_palette c cy (map (\<lambda>(nm, v). tag_of rehash nm v) es))
         (storage_writes b (length es) cy ws))
       else findChunk (world st) cid d'))"
proof -
  let ?k = "subchunk_key_of x cy z d" and ?v = "encode_subchunk b ws es"
  let ?o = "open_chunk rehashc st (sint x) (sint z) d"
  let ?c = "put_all (append_palette c cy (map (\<lambda>(nm, v). tag_of rehash nm v) es))
    (storage_writes b (length es) cy ws)"
  have c: "fst ?o = c" using assms(8) by (simp add: open_chunk_world)
  have f: "filed_ok (chunkID (sint x) (sint z)) c"
    using open_chunk_fits [OF assms(5) int32_ok_sint int32_ok_sint, of x z rehashc d] c
    by simp
  then have g: "grid_ok c" by (simp add: filed_ok_def chunk_ok_def)
  note r = read_storages_eq [OF assms(1-3) g assms(6,7), of rehash]
  have v: "slice_at ?v 0 = Inr 8" "slice_at ?v 1 = Inr 1"
    by (simp_all add: encode_subchunk_def slice_at_def)
  have y: "sint (of_nat cy :: byte) = int cy"
    using assms(3) by (intro sint_of_nat8) simp
  obtain st' where p: "parse_record rehash rehashc fuel (?k, ?v) st = Inr (True, st')"
    and w: "world st' = update_chunk (world (snd ?o)) (chunkID (sint x) (sint z)) d ?c"
    using r by (simp add: parse_record_eq key_parts [OF assms(3)] v c y Let_def
        del: read_storages.simps)
  show ?thesis
    using p open_replace_world(1) [OF assms(4,5) int32_ok_sint int32_ok_sint w]
      parse_record_world_ok [OF assms(4,5) p] by blast
qed

subsection \<open>Block by block\<close>

lemma words_needed_bounds:
  assumes "width_ok b"
  shows "4096 \<le> words_needed b * (32 div b)" and "words_needed b * (32 div b) < 4096 + 32 div b"
proof -
  define n where "n = 32 div b"
  have n: "0 < n" using width_fits(1) [OF assms] by (simp add: n_def)
  have "4096 + (n - 1) = (4096 + (n - 1)) div n * n + (4096 + (n - 1)) mod n" by simp
  moreover have "(4096 + (n - 1)) mod n < n" using n by simp
  ultimately show "4096 \<le> words_needed b * (32 div b)"
    and "words_needed b * (32 div b) < 4096 + 32 div b"
    unfolding words_needed_def n_def [symmetric] using n by linarith+
qed

text \<open>The position in the packed data a block ends up with.\<close>

definition decoded_index :: "nat \<Rightarrow> nat \<Rightarrow> nat" where
  "decoded_index b idx =
     (if idx + 4096 < words_needed b * (32 div b) then idx + 4096 else idx)"

lemma block_at_storage:
  assumes "width_ok b" and "length ws = words_needed b" and "cy < 16" and "grid_ok c"
    and "rx < 16" and "rz < 16" and "ry < 16"
  shows "block_at (put_all c (storage_writes b psize cy ws)) (rx, rz, ry + 16 * cy) =
    packed_state b psize ws (decoded_index b (block_index rx rz ry))"
proof -
  let ?idx = "block_index rx rz ry" and ?n = "words_needed b * (32 div b)"
  have d: "32 div b \<le> 4096" by (rule order_trans [OF div_le_dividend]) simp
  have "map_of (rev (storage_writes b psize cy ws)) (pos_of cy ?idx) =
      Some (packed_state b psize ws (decoded_index b ?idx))"
    unfolding storage_writes_def decoded_index_def assms(2)
    using last_write [of ?idx ?n cy "packed_state b psize ws"] words_needed_bounds [OF assms(1)] d
      pos_of_block_index(2) [OF assms(5-7)] by (simp split: if_split)
  moreover have "pos_ok (pos_of cy ?idx)" by (rule pos_ok_pos_of [OF assms(3)])
  ultimately show ?thesis
    using block_at_put_all [OF assms(4), of "storage_writes b psize cy ws" "pos_of cy ?idx"]
      storage_writes_ok [OF assms(3)] pos_of_block_index(1) [OF assms(5-7), of cy]
    by fastforce
qed

text \<open>The block of a palette entry, as the world hands it out.\<close>

definition palette_block :: "NBTTag list \<Rightarrow> int \<Rightarrow> Block" where
  "palette_block tags st = \<lparr>state = st, stateTag = (if st < 0 then None else Some (tags ! nat st))\<rparr>"

text \<open>The palette of a sub-chunk before a record of it is read.\<close>

definition old_palette :: "WorldData \<Rightarrow> u32 \<Rightarrow> nat \<Rightarrow> u32 \<Rightarrow> ChunkDimension \<Rightarrow> NBTTag list" where
  "old_palette w x cy z d = (case findChunk w (chunkID (sint x) (sint z)) d of None \<Rightarrow> [] | Some c \<Rightarrow> palette_at c cy)"

lemma subchunk_blocks:
  assumes "width_ok b" and "length ws = words_needed b" and "cy < 16"
    and "unordered_map rehashc" and "world_ok (world st)"
    and "length (encode_subchunk b ws es) < 2 ^ 15"
    and "length (encode_subchunk b ws es) \<le> fuel"
    and tags: "tags = old_palette (world st) x cy z d @ map (\<lambda>(nm, v). tag_of rehash nm v) es"
  shows "\<exists>st'. parse_record rehash rehashc fuel
      (subchunk_key_of x cy z d, encode_subchunk b ws es) st = Inr (True, st') \<and>
    (\<forall>rx < 16. \<forall>ry < 16. \<forall>rz < 16.
      World_getBlock (world st') (16 * sint x + int rx) (16 * int cy + int ry) (16 * sint z + int rz) d =
      Inr (palette_block tags (packed_state b (length es) ws (decoded_index b (block_index rx rz ry)))))"
proof -
  define c where "c = (case findChunk (world st) (chunkID (sint x) (sint z)) d of
      None \<Rightarrow> fresh_chunk (sint x) (sint z) | Some c \<Rightarrow> c)"
  let ?tags = "map (\<lambda>(nm, v). tag_of rehash nm v) es"
  let ?c' = "put_all (append_palette c cy ?tags) (storage_writes b (length es) cy ws)"
  from parse_subchunk_record [where rehash = rehash, OF assms(1-7) c_def] obtain st' where
    p: "parse_record rehash rehashc fuel
      (subchunk_key_of x cy z d, encode_subchunk b ws es) st = Inr (True, st')"
    and ok: "world_ok (world st')"
    and f: "findChunk (world st') (chunkID (sint x) (sint z)) d = Some ?c'"
    by auto
  have old: "palette_at c cy = old_palette (world st) x cy z d" and "chunk_ok c"
    using assms(3) findChunk_ok [OF assms(5), of "chunkID (sint x) (sint z)" d]
    by (auto simp: c_def filed_ok_def old_palette_def split: option.splits)
  then have g: "grid_ok c" by (simp add: chunk_ok_def)
  note ap = append_palette_props(1,2) [OF g assms(3), of ?tags]
  have pal: "palette_at ?c' cy = tags"
    using same_frame_palette [OF put_all_frame, of "append_palette c cy ?tags"
        "storage_writes b (length es) cy ws" cy] ap(2) [of cy] old tags by simp
  have "World_getBlock (world st') (16 * sint x + int rx) (16 * int cy + int ry) (16 * sint z + int rz) d =
    Inr (palette_block tags (packed_state b (length es) ws (decoded_index b (block_index rx rz ry))))"
    if r: "rx < 16" "ry < 16" "rz < 16" for rx ry rz
  proof -
    let ?st = "packed_state b (length es) ws (decoded_index b (block_index rx rz ry))"
    have y: "nat (16 * int cy + int ry) = ry + 16 * cy" "(ry + 16 * cy) div 16 = cy"
      using r(2) by simp_all
    have "block_at ?c' (rx, rz, ry + 16 * cy) = ?st"
      by (rule block_at_storage [OF assms(1-3) ap(1) r(1,3,2)])
    then have b: "block_at ?c' (block_pos (16 * sint x + int rx) (16 * int cy + int ry)
        (16 * sint z + int rz)) = ?st"
      using r by (simp add: block_pos_def y del: block_at.simps)
    show ?thesis
      using World_getBlock_found [OF ok, of "16 * sint x + int rx" "16 * sint z + int rz"
          d ?c' "16 * int cy + int ry"] f r assms(3) y b pal
      by (auto simp: palette_block_def)
  qed
  with p show ?thesis by blast
qed

subsection \<open>Properties\<close>

text \<open>
  C9: from the bytes of a sub-chunk (heights 0 to 15) to its blocks. A record has the key of one of the three dimensions (10 bytes, or 14 with
  the region) and a value of less than 2^15 bytes, which \<open>int16_t\<close> offsets can reach: format 8, one storage with indices of
  \<open>b\<close> bits (1 to 30) and a palette of compounds, strings and integers of 8, 16 and 32 bits (\<open>nbt\<close>; the reader of \<open>LONG\<close> is
  undefined and lists are misread). Into a well-formed world such a record is read without a fault, with fuel for its bytes.
  Afterwards \<open>getBlock\<close> answers, at the world coordinates of each of the 4096 blocks, with the entry its packed index names in
  the palette of the sub-chunk, or with the marker of corrupt data where the index is not below the entries of the record.
  The palette is that of the record when the sub-chunk had none, else it is appended behind the old one. The index is
  the one at the block's own place in the packed data, except where the padding of the last word is read over it
  (\<open>decoded_index\<close>).
\<close>

theorem subchunk_to_blocks:
  fixes rehash :: "NBTTag umap \<Rightarrow> NBTTag umap" and x z :: u32 and d :: ChunkDimension
  assumes "width_ok b" and "length ws = words_needed b" and "cy < 16"
    and "unordered_map rehashc" and "world_ok (world st)"
    and "length (encode_subchunk b ws es) < 2 ^ 15"
    and "length (encode_subchunk b ws es) \<le> fuel"
  defines "tags \<equiv> old_palette (world st) x cy z d @ map (\<lambda>(nm, v). tag_of rehash nm v) es"
  shows "\<exists>st'. parse_record rehash rehashc fuel
      (subchunk_key_of x cy z d, encode_subchunk b ws es) st = Inr (True, st') \<and>
    (\<forall>rx < 16. \<forall>ry < 16. \<forall>rz < 16.
      World_getBlock (world st') (16 * sint x + int rx) (16 * int cy + int ry) (16 * sint z + int rz) d =
      Inr (palette_block tags (packed_state b (length es) ws (decoded_index b (block_index rx rz ry)))))"
  unfolding tags_def by (rule subchunk_blocks [OF assms(1-7) refl])

definition sample_palette :: "(string \<times> nbt) list" where
  "sample_palette = [([], NCompound [(''name'', NString ''minecraft:dirt'')])]"

definition sample_state :: parse_state where
  "sample_state = \<lparr>world = new_WorldData, totalChunks = 0, cerr = []\<rparr>"

lemma sample_record: "length (encode_subchunk 1 (replicate 128 0) sample_palette) = 546"
  by (simp add: encode_subchunk_def encode_tag_def encode_string_def sample_palette_def)

theorem subchunk_to_blocks_witness:
  "\<exists>st'. parse_record front_order front_order 600
      (subchunk_key_of 5 2 7 NETHER, encode_subchunk 1 (replicate 128 0) sample_palette) sample_state =
        Inr (True, st') \<and>
    World_getBlock (world st') 83 41 117 NETHER = Inr \<lparr>state = 0, stateTag = Some
      (tag_of front_order [] (NCompound [(''name'', NString ''minecraft:dirt'')]))\<rparr>"
proof -
  have w: "width_ok 1" "length (replicate 128 (0 :: u32)) = words_needed 1" "world_ok (world sample_state)"
    by (simp_all add: width_ok_def words_needed_def sample_state_def)
  have old: "old_palette (world sample_state) 5 2 7 NETHER = []"
    by (simp add: old_palette_def sample_state_def)
  obtain st' where p: "parse_record front_order front_order 600
      (subchunk_key_of 5 2 7 NETHER, encode_subchunk 1 (replicate 128 0) sample_palette) sample_state =
        Inr (True, st')"
    and blocks: "\<forall>rx < 16. \<forall>ry < 16. \<forall>rz < 16.
      World_getBlock (world st') (16 * sint (5 :: u32) + int rx) (16 * int 2 + int ry)
        (16 * sint (7 :: u32) + int rz) NETHER =
      Inr (palette_block (map (\<lambda>(nm, v). tag_of front_order nm v) sample_palette)
        (packed_state 1 (length sample_palette) (replicate 128 0) (decoded_index 1 (block_index rx rz ry))))"
    using subchunk_to_blocks [OF w(1,2) _ front.unordered_map_axioms w(3), of 2
        sample_palette 600 front_order 5 7 NETHER] sample_record unfolding old by auto
  have d: "decoded_index 1 (block_index 3 5 9) = 857"
    by (simp add: decoded_index_def words_needed_def block_index_def)
  have "packed_state 1 (length sample_palette) (replicate 128 0) 857 = 0"
    by (simp add: packed_state_def word_state_def sample_palette_def)
  then show ?thesis
    using p blocks [THEN spec [of _ 3], THEN mp, THEN spec [of _ 9], THEN mp,
        THEN spec [of _ 5], THEN mp] d
    by (simp add: palette_block_def sample_palette_def)
qed

text \<open>
  C36: where the number of indices per word does not divide 4096 (the widths 3, 5 and 6 among those
  the game writes) the loops run over the padding of the last word as well: the first block of the
  sub-chunk ends up with the padding at place 4096, not with its own index.
\<close>

theorem padding_overwrites_block:
  assumes "width_ok b" and "\<not> 32 div b dvd 4096" and "length ws = words_needed b"
    and "cy < 16" and "grid_ok c" and "psize < 2 ^ 31" and "length (encode_words ws) < 2 ^ 31"
  shows "\<exists>c'. read_words (encode_words ws) 0 (int b) (int (32 div b)) (int psize) (int cy)
      (words_needed b) 0 0 c = Inr c' \<and>
    block_at c' (0, 0, 16 * cy) = packed_state b psize ws 4096"
proof -
  have "4096 < words_needed b * (32 div b)"
    using words_needed_bounds(1) [OF assms(1)] assms(2)
    by (metis dvd_triv_right le_neq_implies_less)
  then have "decoded_index b (block_index 0 0 0) = 4096"
    by (simp add: decoded_index_def block_index_def)
  then show ?thesis
    using read_words_eq [OF assms(1,6,4,5), of "[]" ws "[]"] assms(3,7)
      block_at_storage [OF assms(1,3,4,5), of 0 0 0 psize]
    by (simp del: block_at.simps)
qed

theorem padding_overwrites_block_witness:
  "\<exists>c'. read_words (encode_words (replicate 682 0 @ [0x100000])) 0 5 6 2 0 683 0 0 new_Chunk = Inr c' \<and>
    block_at c' (0, 0, 0) = 1 \<and> packed_state 5 2 (replicate 682 0 @ [0x100000]) 0 = 0"
proof -
  have w: "words_needed 5 = 683" by (simp add: words_needed_def)
  have "packed_state 5 2 (replicate 682 0 @ [0x100000]) 4096 = 1"
    "packed_state 5 2 (replicate 682 0 @ [0x100000]) 0 = 0"
    by (simp_all add: packed_state_def word_state_def nth_append Let_def)
  then show ?thesis
    using padding_overwrites_block [of 5 "replicate 682 0 @ [0x100000]" 0 new_Chunk 2]
    by (simp add: w width_ok_def del: block_at.simps)
qed

end
