(* ===== verification/Coding.thy ===== *)
theory Coding
  imports Prelude
begin

section \<open>The integer encodings of the database\<close>

text \<open>
  \<open>leveldb-mcpe/util/coding.cc\<close> and \<open>coding.h\<close>: fixed-width little-endian integers, varints of 32
  and 64 bits and length-prefixed slices, on which every format of the database library is built.
  A pair \<open>[p, limit)\<close> of pointers is the list of the bytes between them, a returned pointer the
  list of the bytes from it to the limit, \<open>NULL\<close> is \<open>None\<close>. The machine is little-endian, as the
  code finds out from \<open>port::kLittleEndian\<close>; both of its branches store the same bytes then.
\<close>

subsection \<open>Fixed-width integers\<close>

definition EncodeFixed32 :: "u32 \<Rightarrow> byte list" where
  "EncodeFixed32 value =
     [ucast (value AND 0xff), ucast (drop_bit 8 value AND 0xff),
      ucast (drop_bit 16 value AND 0xff), ucast (drop_bit 24 value AND 0xff)]"

definition EncodeFixed64 :: "u64 \<Rightarrow> byte list" where
  "EncodeFixed64 value =
     [ucast (value AND 0xff), ucast (drop_bit 8 value AND 0xff),
      ucast (drop_bit 16 value AND 0xff), ucast (drop_bit 24 value AND 0xff),
      ucast (drop_bit 32 value AND 0xff), ucast (drop_bit 40 value AND 0xff),
      ucast (drop_bit 48 value AND 0xff), ucast (drop_bit 56 value AND 0xff)]"

definition PutFixed32 :: "slice \<Rightarrow> u32 \<Rightarrow> slice" where
  "PutFixed32 dst value = dst @ EncodeFixed32 value"

definition PutFixed64 :: "slice \<Rightarrow> u64 \<Rightarrow> slice" where
  "PutFixed64 dst value = dst @ EncodeFixed64 value"

text \<open>The decoders read 4 or 8 bytes unchecked.\<close>

definition DecodeFixed32 :: "slice \<Rightarrow> u32 res" where
  "DecodeFixed32 p = (case p of
     a # b # c # d # _ \<Rightarrow>
       Inr (ucast a OR push_bit 8 (ucast b) OR push_bit 16 (ucast c) OR push_bit 24 (ucast d))
   | _ \<Rightarrow> Inl Undefined)"

definition DecodeFixed64 :: "slice \<Rightarrow> u64 res" where
  "DecodeFixed64 p =
     bind_res (DecodeFixed32 p) (\<lambda>lo.
     bind_res (DecodeFixed32 (drop 4 p)) (\<lambda>hi.
       Inr (push_bit 32 (ucast hi) OR ucast lo)))"

subsection \<open>Varints\<close>

definition EncodeVarint32 :: "u32 \<Rightarrow> byte list" where
  "EncodeVarint32 v =
     (if v < push_bit 7 1 then [ucast v]
      else if v < push_bit 14 1 then [ucast (v OR 128), ucast (drop_bit 7 v)]
      else if v < push_bit 21 1 then
        [ucast (v OR 128), ucast (drop_bit 7 v OR 128), ucast (drop_bit 14 v)]
      else if v < push_bit 28 1 then
        [ucast (v OR 128), ucast (drop_bit 7 v OR 128), ucast (drop_bit 14 v OR 128),
         ucast (drop_bit 21 v)]
      else
        [ucast (v OR 128), ucast (drop_bit 7 v OR 128), ucast (drop_bit 14 v OR 128),
         ucast (drop_bit 21 v OR 128), ucast (drop_bit 28 v)])"

lemma unat_drop_bit_7: "unat (drop_bit 7 (v :: u64)) = unat v div 128"
  by (simp add: drop_bit_eq_div unat_div)

function EncodeVarint64 :: "u64 \<Rightarrow> byte list" where
  "EncodeVarint64 v =
     (if v \<ge> 128 then ucast ((v AND (128 - 1)) OR 128) # EncodeVarint64 (drop_bit 7 v)
      else [ucast v])"
  by pat_completeness auto
termination
  by (relation "measure unat") (auto simp: unat_drop_bit_7 word_le_nat_alt)

declare EncodeVarint64.simps [simp del]

definition PutVarint32 :: "slice \<Rightarrow> u32 \<Rightarrow> slice" where
  "PutVarint32 dst v = dst @ EncodeVarint32 v"

definition PutVarint64 :: "slice \<Rightarrow> u64 \<Rightarrow> slice" where
  "PutVarint64 dst v = dst @ EncodeVarint64 v"

function VarintLength_from :: "u64 \<Rightarrow> int \<Rightarrow> int" where
  "VarintLength_from v len =
     (if v \<ge> 128 then VarintLength_from (drop_bit 7 v) (len + 1) else len)"
  by pat_completeness auto
termination
  by (relation "measure (unat \<circ> fst)") (auto simp: unat_drop_bit_7 word_le_nat_alt)

declare VarintLength_from.simps [simp del]

definition VarintLength :: "u64 \<Rightarrow> int" where
  "VarintLength v = VarintLength_from v 1"

text \<open>
  The loop of both decoders, in the width of the result: \<open>max_shift\<close> is 28 for 32 bits and 63 for
  64 bits.
\<close>

fun varint_loop :: "nat \<Rightarrow> nat \<Rightarrow> slice \<Rightarrow> ('a :: len) word \<Rightarrow> ('a word \<times> slice) option" where
  "varint_loop max_shift shift [] result = None"
| "varint_loop max_shift shift (b # p) result =
     (if shift \<le> max_shift then
        let byte = (ucast b :: 'a word) in
        if byte AND 128 \<noteq> 0 then
          varint_loop max_shift (shift + 7) p (result OR push_bit shift (byte AND 127))
        else Some (result OR push_bit shift byte, p)
      else None)"

definition GetVarint32PtrFallback :: "slice \<Rightarrow> (u32 \<times> slice) option" where
  "GetVarint32PtrFallback p = varint_loop 28 0 p 0"

definition GetVarint32Ptr :: "slice \<Rightarrow> (u32 \<times> slice) option" where
  "GetVarint32Ptr p = (case p of
     b # q \<Rightarrow>
       let result = (ucast b :: u32) in
       if result AND 128 = 0 then Some (result, q) else GetVarint32PtrFallback p
   | [] \<Rightarrow> GetVarint32PtrFallback p)"

definition GetVarint64Ptr :: "slice \<Rightarrow> (u64 \<times> slice) option" where
  "GetVarint64Ptr p = varint_loop 63 0 p 0"

text \<open>The versions on a \<open>Slice\<close> move its start: the new slice is the second component.\<close>

definition GetVarint32 :: "slice \<Rightarrow> (u32 \<times> slice) option" where
  "GetVarint32 inp = GetVarint32Ptr inp"

definition GetVarint64 :: "slice \<Rightarrow> (u64 \<times> slice) option" where
  "GetVarint64 inp = GetVarint64Ptr inp"

definition PutLengthPrefixedSlice :: "slice \<Rightarrow> slice \<Rightarrow> slice" where
  "PutLengthPrefixedSlice dst value = PutVarint32 dst (of_nat (length value)) @ value"

definition GetLengthPrefixedSlice :: "slice \<Rightarrow> (slice \<times> slice) option" where
  "GetLengthPrefixedSlice inp = (case GetVarint32 inp of
     Some (len, q) \<Rightarrow>
       if unat len \<le> length q then Some (take (unat len) q, drop (unat len) q) else None
   | None \<Rightarrow> None)"

subsection \<open>Fixed-width integers are read back\<close>

lemma EncodeFixed32_le32: "EncodeFixed32 v = le32 v"
proof -
  have m: "(0xff :: u32) = mask 8" by (simp add: mask_eq_exp_minus_1)
  have "(ucast (w AND 0xff) :: byte) = ucast w" for w :: u32
    unfolding m by (rule bit_word_eqI) (auto simp: bit_simps)
  then show ?thesis by (simp add: EncodeFixed32_def le32_def)
qed

lemma EncodeFixed64_le64: "EncodeFixed64 v = le64 v"
proof -
  have m: "(0xff :: u64) = mask 8" by (simp add: mask_eq_exp_minus_1)
  have "(ucast (w AND 0xff) :: byte) = ucast w" for w :: u64
    unfolding m by (rule bit_word_eqI) (auto simp: bit_simps)
  then show ?thesis by (simp add: EncodeFixed64_def le64_def)
qed

lemma length_EncodeFixed [simp]: "length (EncodeFixed32 v) = 4" "length (EncodeFixed64 w) = 8"
  by (simp_all add: EncodeFixed32_def EncodeFixed64_def)

lemma DecodeFixed32_Encode [simp]: "DecodeFixed32 (EncodeFixed32 v @ r) = Inr v"
  using of_le32_le32 [of v]
  by (simp add: EncodeFixed32_le32 le32_def DecodeFixed32_def of_le32_def)

lemma DecodeFixed32_Inr: "4 \<le> length p \<Longrightarrow> \<exists>v. DecodeFixed32 p = Inr v"
  by (cases p rule: list.exhaust; cases "tl p"; cases "tl (tl p)"; cases "tl (tl (tl p))")
    (auto simp: DecodeFixed32_def)

lemma DecodeFixed64_Encode [simp]: "DecodeFixed64 (EncodeFixed64 v @ r) = Inr v"
proof -
  have e: "EncodeFixed64 v = EncodeFixed32 (ucast v) @ EncodeFixed32 (ucast (drop_bit 32 v))"
    unfolding EncodeFixed64_le64 EncodeFixed32_le32 le64_def le32_def
    by (auto intro!: bit_word_eqI simp: bit_simps)
  have "push_bit 32 (ucast (ucast (drop_bit 32 v) :: u32)) OR ucast (ucast v :: u32) = v"
    by (rule bit_word_eqI) (auto simp: bit_simps)
  then show ?thesis by (simp add: DecodeFixed64_def e)
qed

subsection \<open>Varints are read back\<close>

text \<open>The encoding of a number in groups of seven bits, the reference for both encoders.\<close>

fun varint_bytes :: "nat \<Rightarrow> byte list" where
  "varint_bytes n =
     (if n < 128 then [of_nat n] else of_nat (n mod 128 + 128) # varint_bytes (n div 128))"

declare varint_bytes.simps [simp del]

lemma varint_bytes_unfold:
  "varint_bytes n =
     (if n < 128 then [of_nat (take_bit 7 n)]
      else of_nat (take_bit 7 n + 128) # varint_bytes (drop_bit 7 n))"
  by (subst varint_bytes.simps) (simp add: take_bit_eq_mod drop_bit_eq_div)

lemma byte_low: "(ucast (of_nat (take_bit 7 n) :: byte) :: 'a :: len word) = of_nat (take_bit 7 n)"
  by (rule bit_word_eqI) (auto simp: bit_simps)

lemma bit_128: "bit (128 :: nat) i \<longleftrightarrow> i = 7" "bit (128 :: int) i \<longleftrightarrow> i = 7"
  "bit (128 :: 'a :: len word) i \<longleftrightarrow> i = 7 \<and> 7 < LENGTH('a)"
proof -
  have "bit (2 ^ 7 :: nat) i \<longleftrightarrow> i = 7" by (subst bit_exp_iff) auto
  then show "bit (128 :: nat) i \<longleftrightarrow> i = 7" by simp
  have "bit (2 ^ 7 :: int) i \<longleftrightarrow> i = 7" by (subst bit_exp_iff) auto
  then show "bit (128 :: int) i \<longleftrightarrow> i = 7" by simp
  have "bit (2 ^ 7 :: 'a word) i \<longleftrightarrow> i = 7 \<and> 7 < LENGTH('a)" by (subst bit_exp_iff) auto
  then show "bit (128 :: 'a :: len word) i \<longleftrightarrow> i = 7 \<and> 7 < LENGTH('a)" by simp
qed

lemma plus_128: "take_bit 7 n + 128 = take_bit 7 n OR (128 :: nat)"
  by (rule disjunctive_add_eq_or) (auto intro!: bit_eqI simp: bit_simps bit_128)

lemma mask_127: "(127 :: 'a :: len word) = mask 7"
  by (simp add: mask_eq_exp_minus_1)

lemma byte_more:
  assumes "8 \<le> LENGTH('a :: len)"
  shows "(ucast (of_nat (take_bit 7 n + 128) :: byte) :: 'a word) AND 127 = of_nat (take_bit 7 n)"
    and "(ucast (of_nat (take_bit 7 n + 128) :: byte) :: 'a word) AND 128 \<noteq> 0"
proof -
  show "(ucast (of_nat (take_bit 7 n + 128) :: byte) :: 'a word) AND 127 = of_nat (take_bit 7 n)"
    unfolding plus_128 mask_127 by (rule bit_word_eqI) (auto simp: bit_simps bit_128)
  have "bit ((ucast (of_nat (take_bit 7 n + 128) :: byte) :: 'a word) AND 128) 7"
    using assms unfolding plus_128 by (auto simp: bit_simps bit_128)
  then show "(ucast (of_nat (take_bit 7 n + 128) :: byte) :: 'a word) AND 128 \<noteq> 0"
    by (metis bit_0_eq bot_apply bot_bool_def)
qed

lemma byte_last: "(of_nat (take_bit 7 n) :: 'a :: len word) AND 128 = 0"
  by (rule bit_word_eqI) (simp add: bit_and_iff bit_128 bit_of_nat_iff bit_take_bit_iff)

lemma or_groups:
  "(acc OR push_bit s (of_nat (take_bit 7 n))) OR push_bit (s + 7) (of_nat (drop_bit 7 n)) =
    acc OR push_bit s (of_nat n :: 'a :: len word)"
proof (rule bit_word_eqI)
  fix i
  assume "i < LENGTH('a)"
  then show "bit ((acc OR push_bit s (of_nat (take_bit 7 n))) OR push_bit (s + 7) (of_nat (drop_bit 7 n))) i =
      bit (acc OR push_bit s (of_nat n :: 'a word)) i"
    by (cases "i < s + 7") (auto simp: bit_simps)
qed

text \<open>The decoding loop stops right behind an encoding that fits its width.\<close>

lemma varint_loop_bytes:
  assumes "8 \<le> LENGTH('a :: len)" and "\<And>s. 7 dvd s \<Longrightarrow> s < LENGTH('a) \<Longrightarrow> s \<le> max_shift"
    and "7 dvd s" and "s < LENGTH('a)" and "n < 2 ^ (LENGTH('a) - s)"
  shows "varint_loop max_shift s (varint_bytes n @ r) acc =
    Some (acc OR push_bit s (of_nat n :: 'a word), r)"
  using assms(3-5)
proof (induction n arbitrary: s acc rule: varint_bytes.induct)
  case (1 n)
  have s: "s \<le> max_shift" using assms(2) "1.prems"(1,2) .
  show ?case
  proof (cases "n < 128")
    case True
    then have "take_bit 7 n = n" by (simp add: take_bit_nat_eq_self)
    with True s byte_low [of n, where 'a = 'a] byte_last [of n, where 'a = 'a] show ?thesis
      by (subst varint_bytes_unfold) (simp add: Let_def)
  next
    case False
    have "\<not> LENGTH('a) - s \<le> 7"
    proof
      assume "LENGTH('a) - s \<le> 7"
      then have "(2 :: nat) ^ (LENGTH('a) - s) \<le> 2 ^ 7" by (intro power_increasing) simp_all
      with "1.prems"(3) False show False by simp
    qed
    then have l: "s + 7 < LENGTH('a)" by simp
    have "(2 :: nat) ^ (LENGTH('a) - s) = 2 ^ (LENGTH('a) - (s + 7)) * 2 ^ 7"
      using l by (subst power_add [symmetric]) simp
    then have "drop_bit 7 n < 2 ^ (LENGTH('a) - (s + 7))"
      using "1.prems"(3) by (simp add: drop_bit_eq_div less_mult_imp_div_less)
    then have "varint_loop max_shift (s + 7) (varint_bytes (drop_bit 7 n) @ r)
        (acc OR push_bit s (of_nat (take_bit 7 n))) =
      Some ((acc OR push_bit s (of_nat (take_bit 7 n))) OR push_bit (s + 7) (of_nat (drop_bit 7 n)), r)"
      using "1.IH" [OF False, of "s + 7"] "1.prems"(1) l by (simp add: drop_bit_eq_div)
    moreover have "varint_loop max_shift s (of_nat (take_bit 7 n + 128) # p) acc =
        varint_loop max_shift (s + 7) p (acc OR push_bit s (of_nat (take_bit 7 n)))" for p
      using s by (simp only: varint_loop.simps Let_def byte_more [OF assms(1)] if_True not_False_eq_True)
    ultimately show ?thesis
      using False by (subst varint_bytes_unfold) (simp only: or_groups if_False append_Cons)
  qed
qed

lemma EncodeVarint64_bytes: "EncodeVarint64 v = varint_bytes (unat v)"
proof (induction v rule: EncodeVarint64.induct)
  case (1 v)
  have m: "(128 - 1 :: u64) = mask 7" by (simp add: mask_eq_exp_minus_1)
  have c: "128 \<le> v \<longleftrightarrow> \<not> unat v < 128" by (simp add: word_le_nat_alt not_less)
  have "(ucast ((v AND (128 - 1)) OR 128) :: byte) = of_nat (take_bit 7 (unat v) + 128)"
    unfolding plus_128 m by (rule bit_word_eqI) (auto simp: bit_simps bit_128)
  moreover have "unat (drop_bit 7 v) = drop_bit 7 (unat v)" by (simp add: unat_drop_bit_eq)
  moreover have "(ucast v :: byte) = of_nat (take_bit 7 (unat v))" if "unat v < 128"
    using that by (simp add: take_bit_nat_eq_self)
  ultimately show ?case
    using 1 c by (subst EncodeVarint64.simps, subst varint_bytes_unfold) simp
qed

lemma EncodeVarint32_bytes: "EncodeVarint32 v = varint_bytes (unat v)"
proof -
  have b: "(ucast (drop_bit k v OR 128) :: byte) = of_nat (take_bit 7 (drop_bit k (unat v)) + 128)" for k
    unfolding plus_128 by (rule bit_word_eqI) (auto simp: bit_simps bit_128)
  have c: "(ucast (drop_bit k v) :: byte) = of_nat (take_bit 7 (drop_bit k (unat v)))"
    if "unat v < 2 ^ (k + 7)" for k
  proof -
    have "take_bit 7 (drop_bit k (unat v)) = unat (drop_bit k v)"
    proof -
      have "drop_bit k (unat v) < 2 ^ 7"
        using that by (simp add: drop_bit_eq_div less_mult_imp_div_less power_add mult.commute)
      then show ?thesis by (simp only: unat_drop_bit_eq take_bit_nat_eq_self)
    qed
    then show ?thesis by simp
  qed
  have l: "v < push_bit 7 1 \<longleftrightarrow> unat v < 2 ^ 7" "v < push_bit 14 1 \<longleftrightarrow> unat v < 2 ^ 14"
    "v < push_bit 21 1 \<longleftrightarrow> unat v < 2 ^ 21" "v < push_bit 28 1 \<longleftrightarrow> unat v < 2 ^ 28"
    by (simp_all add: word_less_nat_alt)
  have d: "drop_bit k (unat v) < 128 \<longleftrightarrow> unat v < 2 ^ (k + 7)" for k
    by (simp add: drop_bit_eq_div div_less_iff_less_mult power_add mult.commute)
  have u: "unat v < 2 ^ (28 + 7)" using unsigned_less [of v, where ?'a = nat] by simp
  have step: "varint_bytes (drop_bit k (unat v)) =
      (if unat v < 2 ^ (k + 7) then [ucast (drop_bit k v)]
       else ucast (drop_bit k v OR 128) # varint_bytes (drop_bit (7 + k) (unat v)))" for k
    using c [of k] b [of k] by (subst varint_bytes_unfold) (simp add: d drop_bit_drop_bit)
  show ?thesis
    unfolding EncodeVarint32_def
    using step [of 0] step [of 7] step [of 14] step [of 21] step [of 28] l u
    by simp
qed

lemma varint_bytes_nonempty [simp]: "varint_bytes n \<noteq> []"
  by (subst varint_bytes.simps) simp

lemma GetVarint32Ptr_fallback: "GetVarint32Ptr p = GetVarint32PtrFallback p"
  by (cases p) (simp_all add: GetVarint32Ptr_def GetVarint32PtrFallback_def Let_def)

lemma GetVarint32Ptr_Encode [simp]: "GetVarint32Ptr (EncodeVarint32 v @ r) = Some (v, r)"
proof -
  have "s \<le> 28" if "7 dvd s" "s < LENGTH(32)" for s :: nat
    using that by (auto simp: dvd_def)
  from varint_loop_bytes [where 'a = 32, OF _ this, of 0 "unat v" r 0] show ?thesis
    using unsigned_less [of v, where ?'a = nat]
    by (simp add: GetVarint32Ptr_fallback GetVarint32PtrFallback_def EncodeVarint32_bytes)
qed

lemma GetVarint64Ptr_Encode [simp]: "GetVarint64Ptr (EncodeVarint64 v @ r) = Some (v, r)"
proof -
  have "s \<le> 63" if "7 dvd s" "s < LENGTH(64)" for s :: nat
    using that by (auto simp: dvd_def)
  from varint_loop_bytes [where 'a = 64, OF _ this, of 0 "unat v" r 0] show ?thesis
    using unsigned_less [of v, where ?'a = nat]
    by (simp add: GetVarint64Ptr_def EncodeVarint64_bytes)
qed

lemma GetVarint_Encode [simp]:
  "GetVarint32 (EncodeVarint32 v @ r) = Some (v, r)" "GetVarint64 (EncodeVarint64 w @ r) = Some (w, r)"
  by (simp_all add: GetVarint32_def GetVarint64_def)

lemma GetLengthPrefixedSlice_Put:
  "length s < 2 ^ 32 \<Longrightarrow> GetLengthPrefixedSlice (PutLengthPrefixedSlice [] s @ r) = Some (s, r)"
  by (simp add: GetLengthPrefixedSlice_def PutLengthPrefixedSlice_def PutVarint32_def unat_of_nat_small)

lemma PutLengthPrefixedSlice_append:
  "PutLengthPrefixedSlice dst s = dst @ PutLengthPrefixedSlice [] s"
  by (simp add: PutLengthPrefixedSlice_def PutVarint32_def)

text \<open>What a decoder read is a proper prefix of its input.\<close>

lemma varint_loop_consumes:
  "varint_loop m s p acc = Some (v, q) \<Longrightarrow> \<exists>used. p = used @ q \<and> used \<noteq> [] \<and> (length used - 1) * 7 + s \<le> m"
proof (induction m s p acc rule: varint_loop.induct)
  case (2 m s b p acc)
  show ?case
  proof (cases "(ucast b :: 'a word) AND 128 = 0")
    case True
    with 2(2) have "b # p = [b] @ q" "s \<le> m" by (auto simp: Let_def split: if_splits)
    then show ?thesis by force
  next
    case False
    with 2 obtain used where "p = used @ q" "used \<noteq> []" "(length used - 1) * 7 + (s + 7) \<le> m"
      by (auto simp: Let_def split: if_splits)
    then show ?thesis by (intro exI [of _ "b # used"]) (cases used; simp)
  qed
qed simp

lemma GetVarint32_consumes:
  "GetVarint32 p = Some (v, q) \<Longrightarrow> \<exists>used. p = used @ q \<and> 1 \<le> length used \<and> length used \<le> 5"
  using varint_loop_consumes [of 28 0 p 0 v q]
  by (fastforce simp: GetVarint32_def GetVarint32Ptr_fallback GetVarint32PtrFallback_def Suc_le_eq)

lemma GetVarint64_consumes:
  "GetVarint64 p = Some (v, q) \<Longrightarrow> \<exists>used. p = used @ q \<and> 1 \<le> length used \<and> length used \<le> 10"
  using varint_loop_consumes [of 63 0 p 0 v q]
  by (fastforce simp: GetVarint64_def GetVarint64Ptr_def Suc_le_eq)

lemma GetLengthPrefixedSlice_consumes:
  assumes "GetLengthPrefixedSlice p = Some (s, q)"
  shows "\<exists>len. p = len @ s @ q \<and> 1 \<le> length len \<and> length len \<le> 5"
proof -
  obtain n r where n: "GetVarint32 p = Some (n, r)" "s = take (unat n) r" "q = drop (unat n) r"
    using assms by (auto simp: GetLengthPrefixedSlice_def split: option.splits if_splits)
  with GetVarint32_consumes [OF n(1)] show ?thesis by auto
qed

lemma VarintLength_from_bytes: "VarintLength_from v len = len + int (length (EncodeVarint64 v)) - 1"
proof (induction v len rule: VarintLength_from.induct)
  case (1 v len)
  then show ?case by (subst VarintLength_from.simps, subst EncodeVarint64.simps) simp
qed

lemma length_varint_bytes: "n < 128 ^ k \<Longrightarrow> 0 < k \<Longrightarrow> length (varint_bytes n) \<le> k"
proof (induction k arbitrary: n)
  case (Suc k)
  show ?case
  proof (cases "n < 128")
    case True
    then show ?thesis by (subst varint_bytes.simps) simp
  next
    case False
    with Suc.prems(1) have "k \<noteq> 0" by (cases k) auto
    with Suc.IH [of "n div 128"] Suc.prems False show ?thesis
      by (subst varint_bytes.simps) (simp add: less_mult_imp_div_less mult.commute)
  qed
qed simp

lemma length_EncodeVarint: "length (EncodeVarint32 v) \<le> 5" "length (EncodeVarint64 w) \<le> 10"
  "EncodeVarint32 v \<noteq> []" "EncodeVarint64 w \<noteq> []"
proof -
  show "length (EncodeVarint32 v) \<le> 5"
    using length_varint_bytes [of "unat v" 5] unsigned_less [of v, where ?'a = nat]
    by (simp add: EncodeVarint32_bytes)
  show "length (EncodeVarint64 w) \<le> 10"
    using length_varint_bytes [of "unat w" 10] unsigned_less [of w, where ?'a = nat]
    by (simp add: EncodeVarint64_bytes)
qed (simp_all add: EncodeVarint32_bytes EncodeVarint64_bytes)

subsection \<open>Properties\<close>

text \<open>
  the varint encoders and decoders agree: what either encoder wrote is read back with the decoder
  placed right behind it, whatever follows; an encoding has at most 5 or 10 bytes, which is the size
  of the buffers the \<open>Put\<close> routines reserve, and \<open>VarintLength\<close> is its length.
\<close>

theorem varint_roundtrip:
  "GetVarint32 (EncodeVarint32 v @ r) = Some (v, r) \<and> GetVarint64 (EncodeVarint64 w @ r) = Some (w, r) \<and>
   length (EncodeVarint32 v) \<le> 5 \<and> length (EncodeVarint64 w) \<le> 10 \<and>
   VarintLength w = int (length (EncodeVarint64 w))"
  by (simp add: length_EncodeVarint VarintLength_def VarintLength_from_bytes)

text \<open>
  fixed-width integers are stored little-endian and read back, and a length-prefixed slice is read
  back with what follows it left over, for every slice whose length fits the 32 bits of the prefix.
\<close>

theorem fixed_and_slice_roundtrip:
  assumes "length s < 2 ^ 32"
  shows "DecodeFixed32 (PutFixed32 [] v @ r) = Inr v \<and> DecodeFixed64 (PutFixed64 [] w @ r) = Inr w \<and>
    GetLengthPrefixedSlice (PutLengthPrefixedSlice [] s @ r) = Some (s, r)"
  using GetLengthPrefixedSlice_Put [OF assms, of r] by (simp add: PutFixed32_def PutFixed64_def)

theorem fixed_and_slice_roundtrip_witness:
  "DecodeFixed32 (PutFixed32 [] 0xDEADBEEF @ [1]) = Inr 0xDEADBEEF \<and>
   GetLengthPrefixedSlice (PutLengthPrefixedSlice [] [7, 8] @ [9]) = Some ([7, 8], [9])"
  using fixed_and_slice_roundtrip [of "[7, 8]" "0xDEADBEEF" "[1]" 0]
    fixed_and_slice_roundtrip [of "[7, 8]" 0 "[9]" 0] by simp

end
