(* ===== verification/Comparator.thy ===== *)
theory Comparator
  imports Coding "HOL-Library.List_Lexorder"
begin

section \<open>Slices and comparators\<close>

text \<open>
  \<open>leveldb-mcpe/include/leveldb/slice.h\<close>, \<open>comparator.h\<close> and \<open>util/comparator.cc\<close>: the three-way
  comparison of slices, the interface of a comparator as a record of its methods, the contract
  its header states as a locale, and the bytewise comparator.
\<close>

subsection \<open>Slices\<close>

text \<open>
  \<open>memcmp\<close> compares unsigned bytes; of its result only the sign is specified, so it is \<open>-1\<close>, \<open>0\<close> or
  \<open>1\<close> here. The slices have at least \<open>n\<close> bytes at every call.
\<close>

fun memcmp :: "slice \<Rightarrow> slice \<Rightarrow> nat \<Rightarrow> int" where
  "memcmp (x # a) (y # b) (Suc n) = (if x < y then - 1 else if y < x then 1 else memcmp a b n)"
| "memcmp a b n = 0"

definition slice_compare :: "slice \<Rightarrow> slice \<Rightarrow> int" where
  "slice_compare a b =
     (let min_len = (if length a < length b then length a else length b);
          r = memcmp a b min_len in
      if r = 0 then
        if length a < length b then - 1 else if length a > length b then 1 else r
      else r)"

definition starts_with :: "slice \<Rightarrow> slice \<Rightarrow> bool" where
  "starts_with s x \<longleftrightarrow> length s \<ge> length x \<and> memcmp s x (length x) = 0"

definition remove_prefix :: "nat \<Rightarrow> slice \<Rightarrow> slice res" where
  "remove_prefix n s = bind_res (guard_res (n \<le> length s) AssertFail) (\<lambda>_. Inr (drop n s))"

lemma slice_compare_simps [simp]:
  "slice_compare [] [] = 0" "slice_compare [] (y # b) = - 1" "slice_compare (x # a) [] = 1"
  "slice_compare (x # a) (y # b) = (if x < y then - 1 else if y < x then 1 else slice_compare a b)"
  by (auto simp: slice_compare_def Let_def)

lemma slice_compare_order: "slice_compare a b = (if a < b then - 1 else if a = b then 0 else 1)"
proof (induction a arbitrary: b)
  case Nil
  then show ?case by (cases b) auto
next
  case (Cons x a)
  then show ?case by (cases b) auto
qed

lemma starts_with_prefix: "starts_with s x \<longleftrightarrow> (\<exists>r. s = x @ r)"
proof (induction x arbitrary: s)
  case Nil
  then show ?case by (simp add: starts_with_def)
next
  case (Cons c x)
  then show ?case by (cases s) (auto simp: starts_with_def)
qed

subsection \<open>The interface\<close>

record comparator =
  Compare :: "slice \<Rightarrow> slice \<Rightarrow> int res"
  FindShortestSeparator :: "slice \<Rightarrow> slice \<Rightarrow> slice res"
  FindShortSuccessor :: "slice \<Rightarrow> slice res"

text \<open>
  The contract of \<open>comparator.h\<close>: a total order on the valid keys, a separator that lies in
  \<open>[start, limit)\<close> where \<open>start < limit\<close>, a successor that is not below the key. \<open>le\<close> is the order
  it stands for.
\<close>

locale key_order =
  fixes cmp :: comparator and valid :: "slice \<Rightarrow> bool" and before :: "slice \<Rightarrow> slice \<Rightarrow> bool"
  assumes compare_before: "valid a \<Longrightarrow> valid b \<Longrightarrow>
      \<exists>r. Compare cmp a b = Inr r \<and> (r < 0 \<longleftrightarrow> before a b) \<and> (r = 0 \<longleftrightarrow> a = b) \<and> (r > 0 \<longleftrightarrow> before b a)"
    and before_trans: "valid a \<Longrightarrow> valid b \<Longrightarrow> valid c \<Longrightarrow> before a b \<Longrightarrow> before b c \<Longrightarrow> before a c"
    and separator: "valid a \<Longrightarrow> valid b \<Longrightarrow> before a b \<Longrightarrow>
      \<exists>s. FindShortestSeparator cmp a b = Inr s \<and> valid s \<and> (s = a \<or> before a s) \<and> before s b"
    and successor: "valid a \<Longrightarrow> \<exists>s. FindShortSuccessor cmp a = Inr s \<and> valid s \<and> (s = a \<or> before a s)"
begin

lemma before_total: "valid a \<Longrightarrow> valid b \<Longrightarrow> before a b \<or> a = b \<or> before b a"
  using compare_before [of a b] by fastforce

lemma before_irrefl: "valid a \<Longrightarrow> \<not> before a a"
  using compare_before [of a a] by fastforce

lemma before_asym: "valid a \<Longrightarrow> valid b \<Longrightarrow> before a b \<Longrightarrow> \<not> before b a"
  using compare_before [of a b] by fastforce

lemma compare_less: "valid a \<Longrightarrow> valid b \<Longrightarrow>
    (case Compare cmp a b of Inr r \<Rightarrow> r < 0 | Inl e \<Rightarrow> False) \<longleftrightarrow> before a b"
  using compare_before [of a b] by auto

lemma separator_between:
  assumes "valid a" and "valid b" and "before a b" and "valid x" and "valid y"
    and "x = a \<or> before x a" and "y = b \<or> before b y"
  shows "\<exists>s. FindShortestSeparator cmp a b = Inr s \<and> valid s \<and> (x = s \<or> before x s) \<and> before s y"
  using separator [OF assms(1-3)] assms(4-7) assms(1,2) by (metis before_trans)

end

subsection \<open>The bytewise comparator\<close>

text \<open>The loop that finds the length of the common prefix, for the first \<open>n\<close> bytes.\<close>

fun common_prefix :: "slice \<Rightarrow> slice \<Rightarrow> nat" where
  "common_prefix (x # a) (y # b) = (if x = y then Suc (common_prefix a b) else 0)"
| "common_prefix a b = 0"

definition bytewise_separator :: "slice \<Rightarrow> slice \<Rightarrow> slice res" where
  "bytewise_separator start limit =
     (let min_length = min (length start) (length limit); diff_index = common_prefix start limit in
      if diff_index \<ge> min_length then Inr start
      else
        let diff_byte = start ! diff_index in
        if diff_byte < 0xff \<and> uint diff_byte + 1 < uint (limit ! diff_index) then
          let start = take (diff_index + 1) (start[diff_index := diff_byte + 1]) in
          bind_res (guard_res (slice_compare start limit < 0) AssertFail) (\<lambda>_. Inr start)
        else Inr start)"

fun bytewise_successor :: "slice \<Rightarrow> slice" where
  "bytewise_successor [] = []"
| "bytewise_successor (b # bs) = (if b \<noteq> 0xff then [b + 1] else b # bytewise_successor bs)"

definition BytewiseComparator :: comparator where
  "BytewiseComparator =
     \<lparr>Compare = \<lambda>a b. Inr (slice_compare a b), FindShortestSeparator = bytewise_separator,
      FindShortSuccessor = \<lambda>key. Inr (bytewise_successor key)\<rparr>"

lemma common_prefix_split:
  assumes "common_prefix a b < min (length a) (length b)"
  shows "take (common_prefix a b) a = take (common_prefix a b) b"
    and "a ! common_prefix a b \<noteq> b ! common_prefix a b"
  using assms by (induction a b rule: common_prefix.induct) auto

lemma common_prefix_decompose:
  assumes "common_prefix a b < min (length a) (length b)"
  obtains p x y u v where "a = p @ x # u" "b = p @ y # v" "x \<noteq> y" "common_prefix a b = length p"
proof -
  let ?n = "common_prefix a b"
  have "a = take ?n a @ a ! ?n # drop (Suc ?n) a" using assms by (simp add: id_take_nth_drop)
  moreover have "b = take ?n a @ b ! ?n # drop (Suc ?n) b"
    using assms common_prefix_split(1) [OF assms] by (simp add: id_take_nth_drop)
  moreover have "length (take ?n a) = ?n" using assms by simp
  ultimately show thesis using that common_prefix_split(2) [OF assms] by metis
qed

lemma byte_plus_one:
  assumes "(b :: byte) \<noteq> 0xff"
  shows "b < b + 1" and "uint (b + 1) = uint b + 1"
proof -
  have "uint b \<noteq> uint (0xff :: byte)" using assms by (metis word_uint_eq_iff)
  moreover have "uint b < 2 ^ LENGTH(8)" by (rule uint_bounded)
  ultimately have "uint b < 255" by simp
  then show "uint (b + 1) = uint b + 1" by (simp add: uint_word_ariths)
  then show "b < b + 1" by (simp add: word_less_def)
qed

lemma append_less_iff: "p @ a < p @ (b :: byte list) \<longleftrightarrow> a < b"
  by (induction p) auto

lemma bytewise_separator_between:
  assumes "start < limit"
  shows "\<exists>s. bytewise_separator start limit = Inr s \<and> start \<le> s \<and> s < limit \<and>
    length s \<le> length start"
proof (cases "common_prefix start limit < min (length start) (length limit)")
  case False
  then have "min (length start) (length limit) \<le> common_prefix start limit" by (simp only: not_less)
  then show ?thesis using assms by (simp add: bytewise_separator_def)
next
  case True
  then obtain p x y u v where s: "start = p @ x # u" "limit = p @ y # v"
    and n: "common_prefix start limit = length p" by (rule common_prefix_decompose)
  show ?thesis
  proof (cases "x < 0xff \<and> uint x + 1 < uint y")
    case True
    note x = byte_plus_one [of x]
    have t: "take (length p + 1) (start[length p := x + 1]) = p @ [x + 1]"
      by (simp add: s)
    have "x \<noteq> 0xff" using True by auto
    note x = byte_plus_one [OF this]
    have l: "p @ [x + 1] < limit" using True x(2) by (simp add: s append_less_iff word_less_def)
    have "start < p @ [x + 1]" using x(1) by (simp add: s append_less_iff)
    moreover have "bytewise_separator start limit = Inr (p @ [x + 1])"
      unfolding bytewise_separator_def n
      using True l t by (simp add: s Let_def slice_compare_order)
    ultimately show ?thesis using l by (auto simp: s)
  next
    case False
    then have "bytewise_separator start limit = Inr start"
      unfolding bytewise_separator_def n by (auto simp: s Let_def)
    with assms show ?thesis by simp
  qed
qed

lemma bytewise_separator_same: "bytewise_separator start start = Inr start"
proof -
  have "common_prefix start start = length start" by (induction start) auto
  then show ?thesis by (simp add: bytewise_separator_def)
qed

lemma bytewise_successor_above: "key \<le> bytewise_successor key \<and> length (bytewise_successor key) \<le> length key"
proof (induction key)
  case (Cons b bs)
  then show ?case using byte_plus_one(1) [of b] by auto
qed simp

interpretation bytewise: key_order BytewiseComparator "\<lambda>_. True" "(<) :: slice \<Rightarrow> slice \<Rightarrow> bool"
proof
  show "\<exists>s. FindShortestSeparator BytewiseComparator a b = Inr s \<and> True \<and> (s = a \<or> a < s) \<and> s < b"
    if "a < b" for a b
    using bytewise_separator_between [OF that] by (auto simp: BytewiseComparator_def)
  show "\<exists>s. FindShortSuccessor BytewiseComparator a = Inr s \<and> True \<and> (s = a \<or> a < s)" for a
    using bytewise_successor_above [of a] by (auto simp: BytewiseComparator_def)
qed (auto simp: BytewiseComparator_def slice_compare_order)

subsection \<open>Properties\<close>

text \<open>
  the bytewise comparator meets the contract of \<open>comparator.h\<close>: the sign of \<open>Compare\<close> is the
  lexicographic order of the bytes, for \<open>start < limit\<close> the separator lies in \<open>[start, limit)\<close> and
  is not longer than \<open>start\<close>, its assertion never failing, and the successor is at least the key.
\<close>

theorem bytewise_contract:
  "(\<exists>r. Compare BytewiseComparator a b = Inr r \<and>
      (r < 0 \<longleftrightarrow> a < b) \<and> (r = 0 \<longleftrightarrow> a = b) \<and> (r > 0 \<longleftrightarrow> b < a)) \<and>
   (a < b \<longrightarrow> (\<exists>s. FindShortestSeparator BytewiseComparator a b = Inr s \<and>
      a \<le> s \<and> s < b \<and> length s \<le> length a)) \<and>
   (\<exists>s. FindShortSuccessor BytewiseComparator a = Inr s \<and> a \<le> s \<and> length s \<le> length a)"
  using bytewise.compare_before [of a b] bytewise_separator_between [of a b]
    bytewise_successor_above [of a]
  by (auto simp: BytewiseComparator_def)

theorem bytewise_contract_witness:
  "\<exists>s. FindShortestSeparator BytewiseComparator [1, 2, 3] [1, 9] = Inr s \<and> [1, 2, 3] \<le> s \<and> s < [1, 9]"
  using bytewise_contract [of "[1, 2, 3]" "[1, 9]"] by simp blast

end
