(* ===== verification/DB_Format.thy ===== *)
theory DB_Format
  imports Comparator
begin

section \<open>Internal keys\<close>

text \<open>
  \<open>leveldb-mcpe/db/dbformat.h\<close> and \<open>dbformat.cc\<close>: a user key with a sequence number and a type,
  packed into one slice, the comparator that orders these by user key and then by descending
  sequence number, and the key a lookup at a snapshot seeks for.
\<close>

datatype ValueType = kTypeDeletion | kTypeValue

definition type_code :: "ValueType \<Rightarrow> u64" where
  "type_code t = (case t of kTypeDeletion \<Rightarrow> 0 | kTypeValue \<Rightarrow> 1)"

definition kValueTypeForSeek :: ValueType where
  "kValueTypeForSeek = kTypeValue"

type_synonym SequenceNumber = u64

definition kMaxSequenceNumber :: SequenceNumber where
  "kMaxSequenceNumber = push_bit 56 1 - 1"

record ParsedInternalKey =
  user_key :: slice
  "sequence" :: SequenceNumber
  key_type :: ValueType

definition PackSequenceAndType :: "SequenceNumber \<Rightarrow> ValueType \<Rightarrow> u64 res" where
  "PackSequenceAndType seq t =
     bind_res (guard_res (seq \<le> kMaxSequenceNumber) AssertFail) (\<lambda>_.
     bind_res (guard_res (type_code t \<le> type_code kValueTypeForSeek) AssertFail) (\<lambda>_.
       Inr (push_bit 8 seq OR type_code t)))"

definition AppendInternalKey :: "slice \<Rightarrow> ParsedInternalKey \<Rightarrow> slice res" where
  "AppendInternalKey result key =
     bind_res (PackSequenceAndType (sequence key) (key_type key)) (\<lambda>tag.
       Inr (PutFixed64 (result @ user_key key) tag))"

definition InternalKeyEncodingLength :: "ParsedInternalKey \<Rightarrow> nat" where
  "InternalKeyEncodingLength key = length (user_key key) + 8"

definition ExtractUserKey :: "slice \<Rightarrow> slice res" where
  "ExtractUserKey k =
     bind_res (guard_res (8 \<le> length k) AssertFail) (\<lambda>_. Inr (take (length k - 8) k))"

definition ExtractValueType :: "slice \<Rightarrow> byte res" where
  "ExtractValueType k =
     bind_res (guard_res (8 \<le> length k) AssertFail) (\<lambda>_.
     bind_res (DecodeFixed64 (drop (length k - 8) k)) (\<lambda>num. Inr (ucast (num AND 0xff))))"

text \<open>\<open>None\<close> is the result \<open>false\<close>, after which the parsed key must not be used.\<close>

definition ParseInternalKey :: "slice \<Rightarrow> ParsedInternalKey option res" where
  "ParseInternalKey k =
     (let n = length k in
      if n < 8 then Inr None
      else
        bind_res (DecodeFixed64 (drop (n - 8) k)) (\<lambda>num.
        let c = (ucast (num AND 0xff) :: byte) in
        Inr (if c \<le> 1
          then Some \<lparr>user_key = take (n - 8) k, sequence = drop_bit 8 num,
            key_type = (if c = 0 then kTypeDeletion else kTypeValue)\<rparr>
          else None)))"

subsection \<open>The comparator of internal keys\<close>

definition internal_compare :: "comparator \<Rightarrow> slice \<Rightarrow> slice \<Rightarrow> int res" where
  "internal_compare c akey bkey =
     bind_res (ExtractUserKey akey) (\<lambda>ua.
     bind_res (ExtractUserKey bkey) (\<lambda>ub.
     bind_res (Compare c ua ub) (\<lambda>r.
       if r = 0 then
         bind_res (DecodeFixed64 (drop (length akey - 8) akey)) (\<lambda>anum.
         bind_res (DecodeFixed64 (drop (length bkey - 8) bkey)) (\<lambda>bnum.
           Inr (if anum > bnum then - 1 else if anum < bnum then 1 else r)))
       else Inr r)))"

definition internal_separator :: "comparator \<Rightarrow> slice \<Rightarrow> slice \<Rightarrow> slice res" where
  "internal_separator c start limit =
     bind_res (ExtractUserKey start) (\<lambda>user_start.
     bind_res (ExtractUserKey limit) (\<lambda>user_limit.
     bind_res (FindShortestSeparator c user_start user_limit) (\<lambda>tmp.
       if length tmp < length user_start then
         bind_res (Compare c user_start tmp) (\<lambda>r.
           if r < 0 then
             bind_res (PackSequenceAndType kMaxSequenceNumber kValueTypeForSeek) (\<lambda>tag.
             let tmp = PutFixed64 tmp tag in
             bind_res (internal_compare c start tmp) (\<lambda>r1.
             bind_res (guard_res (r1 < 0) AssertFail) (\<lambda>_.
             bind_res (internal_compare c tmp limit) (\<lambda>r2.
             bind_res (guard_res (r2 < 0) AssertFail) (\<lambda>_. Inr tmp)))))
           else Inr start)
       else Inr start)))"

definition internal_successor :: "comparator \<Rightarrow> slice \<Rightarrow> slice res" where
  "internal_successor c key =
     bind_res (ExtractUserKey key) (\<lambda>ukey.
     bind_res (FindShortSuccessor c ukey) (\<lambda>tmp.
       if length tmp < length ukey then
         bind_res (Compare c ukey tmp) (\<lambda>r.
           if r < 0 then
             bind_res (PackSequenceAndType kMaxSequenceNumber kValueTypeForSeek) (\<lambda>tag.
             let tmp = PutFixed64 tmp tag in
             bind_res (internal_compare c key tmp) (\<lambda>r1.
             bind_res (guard_res (r1 < 0) AssertFail) (\<lambda>_. Inr tmp)))
           else Inr key)
       else Inr key))"

definition InternalKeyComparator :: "comparator \<Rightarrow> comparator" where
  "InternalKeyComparator c =
     \<lparr>Compare = internal_compare c, FindShortestSeparator = internal_separator c,
      FindShortSuccessor = internal_successor c\<rparr>"

subsection \<open>The key of a lookup\<close>

text \<open>The buffer from \<open>start_\<close> to \<open>end_\<close>, and \<open>kstart_\<close> as an offset into it.\<close>

record LookupKey =
  space :: slice
  kstart :: nat

definition new_LookupKey :: "slice \<Rightarrow> SequenceNumber \<Rightarrow> LookupKey res" where
  "new_LookupKey ukey s =
     (let usize = length ukey; dst = EncodeVarint32 (of_nat usize + 8); k = length dst in
      bind_res (PackSequenceAndType s kValueTypeForSeek) (\<lambda>tag.
        Inr \<lparr>space = dst @ ukey @ EncodeFixed64 tag, kstart = k\<rparr>))"

definition memtable_key :: "LookupKey \<Rightarrow> slice" where
  "memtable_key lk = space lk"

definition lookup_internal_key :: "LookupKey \<Rightarrow> slice" where
  "lookup_internal_key lk = drop (kstart lk) (space lk)"

definition lookup_user_key :: "LookupKey \<Rightarrow> slice" where
  "lookup_user_key lk = take (length (space lk) - kstart lk - 8) (drop (kstart lk) (space lk))"

subsection \<open>Packing and parsing\<close>

text \<open>An internal key as its two parts.\<close>

definition internal_key :: "slice \<Rightarrow> u64 \<Rightarrow> slice" where
  "internal_key u tag = u @ EncodeFixed64 tag"

lemma length_internal_key [simp]: "length (internal_key u tag) = length u + 8"
  by (simp add: internal_key_def)

lemma DecodeFixed64_exact [simp]: "DecodeFixed64 (EncodeFixed64 v) = Inr v"
  using DecodeFixed64_Encode [of v "[]"] by simp

lemma ExtractUserKey_internal [simp]: "ExtractUserKey (internal_key u tag) = Inr u"
  by (simp add: ExtractUserKey_def internal_key_def)

lemma tag_internal_key [simp]:
  "DecodeFixed64 (drop (length u) (internal_key u tag)) = Inr tag"
  by (simp add: internal_key_def)

lemma four_bytes: "length p = 4 \<Longrightarrow> \<exists>v. p = EncodeFixed32 v"
proof -
  assume "length p = 4"
  then obtain a b c d where p: "p = [a, b, c, d]"
    by (auto simp: numeral_eq_Suc length_Suc_conv)
  have "le32 (of_le32 a b c d) = [a, b, c, d]"
    unfolding le32_def of_le32_def
    by (auto intro!: bit_word_eqI simp: bit_simps no_bit_beyond)
  then show ?thesis by (metis p EncodeFixed32_le32)
qed

lemma eight_bytes: "length p = 8 \<Longrightarrow> \<exists>v. p = EncodeFixed64 v"
proof -
  assume p: "length p = 8"
  then obtain lo hi where l: "take 4 p = EncodeFixed32 lo" "drop 4 p = EncodeFixed32 hi"
    using four_bytes [of "take 4 p"] four_bytes [of "drop 4 p"] by auto
  have "le64 (push_bit 32 (ucast hi) OR ucast lo) = le32 lo @ le32 hi"
    unfolding le64_def le32_def
    by (auto intro!: bit_word_eqI simp: bit_simps no_bit_beyond)
  then show ?thesis by (metis l append_take_drop_id EncodeFixed32_le32 EncodeFixed64_le64)
qed

lemma internal_key_cases:
  assumes "8 \<le> length k"
  obtains u tag where "k = internal_key u tag"
proof -
  obtain tag where "drop (length k - 8) k = EncodeFixed64 tag"
    using eight_bytes [of "drop (length k - 8) k"] assms by auto
  then have "k = internal_key (take (length k - 8) k) tag"
    by (metis internal_key_def append_take_drop_id)
  with that show thesis by blast
qed

lemma EncodeFixed64_inj [simp]: "EncodeFixed64 v = EncodeFixed64 w \<longleftrightarrow> v = w"
  by (metis DecodeFixed64_exact sum.inject(2))

lemma internal_key_inj [simp]: "internal_key u t = internal_key v s \<longleftrightarrow> u = v \<and> t = s"
  by (auto simp: internal_key_def)

lemma type_code_small: "type_code t \<le> 1" "type_code t < 256"
  by (cases t; simp add: type_code_def)+

lemma Pack_ok: "seq \<le> kMaxSequenceNumber \<Longrightarrow>
    PackSequenceAndType seq t = Inr (push_bit 8 seq OR type_code t)"
  using type_code_small(1) [of t]
  by (simp add: PackSequenceAndType_def kValueTypeForSeek_def type_code_def)

lemma seq_bits: "seq \<le> kMaxSequenceNumber \<Longrightarrow> drop_bit 8 (push_bit 8 seq OR type_code t) = seq"
proof -
  assume "seq \<le> kMaxSequenceNumber"
  then have "unat seq < 2 ^ 56" by (simp add: kMaxSequenceNumber_def word_le_nat_alt)
  then have m: "take_bit 56 seq = seq"
    by (simp only: word_unat_eq_iff unsigned_take_bit_eq take_bit_nat_eq_self)
  have "drop_bit 8 (push_bit 8 (take_bit 56 seq) OR type_code t) = take_bit 56 seq"
    by (cases t; rule bit_word_eqI) (auto simp: bit_simps type_code_def)
  then show ?thesis by (simp add: m)
qed

lemma type_bits: "(ucast ((push_bit 8 seq OR type_code t) AND 0xff) :: byte) = ucast (type_code t)"
proof -
  have m: "(0xff :: u64) = mask 8" by (simp add: mask_eq_exp_minus_1)
  show ?thesis
    unfolding m by (cases t; rule bit_word_eqI) (auto simp: bit_simps type_code_def)
qed

lemma AppendInternalKey_ok:
  "sequence key \<le> kMaxSequenceNumber \<Longrightarrow> AppendInternalKey result key =
    Inr (result @ internal_key (user_key key) (push_bit 8 (sequence key) OR type_code (key_type key)))"
  by (simp add: AppendInternalKey_def Pack_ok PutFixed64_def internal_key_def)

lemma ParseInternalKey_internal:
  "seq \<le> kMaxSequenceNumber \<Longrightarrow> ParseInternalKey (internal_key u (push_bit 8 seq OR type_code t)) =
    Inr (Some \<lparr>user_key = u, sequence = seq, key_type = t\<rparr>)"
  using type_bits [of seq t] seq_bits [of seq t]
  by (cases t) (simp_all add: ParseInternalKey_def Let_def, simp_all add: internal_key_def type_code_def)

text \<open>The order of the tags is the order of the sequence numbers, then of the types.\<close>

lemma tag_less:
  assumes "s \<le> kMaxSequenceNumber" and "s' \<le> kMaxSequenceNumber" and "s < s'"
  shows "push_bit 8 s OR type_code t < push_bit 8 s' OR type_code t'"
proof (rule ccontr)
  assume "\<not> push_bit 8 s OR type_code t < push_bit 8 s' OR type_code t'"
  then have "unat (push_bit 8 s' OR type_code t') \<le> unat (push_bit 8 s OR type_code t)"
    by (simp add: word_le_nat_alt not_less)
  then have "unat (drop_bit 8 (push_bit 8 s' OR type_code t')) \<le>
      unat (drop_bit 8 (push_bit 8 s OR type_code t))"
    by (simp only: unat_drop_bit_eq) (simp add: drop_bit_eq_div div_le_mono)
  with assms show False by (simp only: seq_bits word_le_nat_alt word_less_nat_alt not_less)
qed

text \<open>The tag a lookup at sequence number \<open>s\<close> seeks for comes first among the tags of \<open>s\<close>.\<close>

lemma seek_tag_first: "push_bit 8 s OR type_code t \<le> push_bit 8 s OR type_code kTypeValue"
proof -
  have "type_code t = 0 \<or> type_code t = type_code kTypeValue" by (cases t) (simp_all add: type_code_def)
  moreover have "push_bit 8 s \<le> push_bit 8 s OR type_code kTypeValue" by (simp add: word_le_def or_greater_eq unsigned_or_eq)
  ultimately show ?thesis by auto
qed

lemma tag_newer:
  assumes "s \<le> kMaxSequenceNumber" and "n \<le> kMaxSequenceNumber"
  shows "push_bit 8 s OR type_code kTypeValue < push_bit 8 n OR type_code t \<longleftrightarrow> s < n"
proof (cases s n rule: linorder_cases)
  case less
  then show ?thesis using tag_less [OF assms less] by simp
next
  case equal
  then show ?thesis using seek_tag_first [of s t] by (simp add: not_less)
next
  case greater
  with tag_less [OF assms(2,1) greater, of t kTypeValue] show ?thesis by (metis order_less_asym)
qed

subsection \<open>The order of internal keys\<close>

text \<open>User keys ascending, and for one user key the tags descending.\<close>

definition internal_before :: "slice \<Rightarrow> slice \<Rightarrow> bool" where
  "internal_before a b \<longleftrightarrow>
     (let ua = take (length a - 8) a; ub = take (length b - 8) b
      in ua < ub \<or> ua = ub \<and> DecodeFixed64 (drop (length b - 8) b) \<noteq> DecodeFixed64 (drop (length a - 8) a) \<and>
         (case (DecodeFixed64 (drop (length a - 8) a), DecodeFixed64 (drop (length b - 8) b)) of
            (Inr s, Inr t) \<Rightarrow> t < s | _ \<Rightarrow> False))"

lemma internal_before_key [simp]:
  "internal_before (internal_key u t) (internal_key v s) \<longleftrightarrow> u < v \<or> u = v \<and> s < t"
  by (auto simp: internal_before_def Let_def) (simp_all add: internal_key_def)

lemma bytewise_Compare [simp]: "Compare BytewiseComparator a b = Inr (slice_compare a b)"
  by (simp add: BytewiseComparator_def)

lemma internal_compare_key [simp]:
  "internal_compare BytewiseComparator (internal_key u t) (internal_key v s) =
    Inr (if u < v then - 1 else if v < u then 1 else if t > s then - 1 else if t < s then 1 else 0)"
  by (auto simp: internal_compare_def slice_compare_order)

definition seek_tag :: u64 where
  "seek_tag = push_bit 8 kMaxSequenceNumber OR type_code kValueTypeForSeek"

lemma internal_separator_key:
  assumes "u < v \<or> u = v \<and> s < t"
  shows "\<exists>w r. internal_separator BytewiseComparator (internal_key u t) (internal_key v s) =
      Inr (internal_key w r) \<and> (w = u \<and> r = t \<or> u < w \<and> w < v) \<and>
    internal_before (internal_key w r) (internal_key v s)"
proof -
  obtain tmp where f: "FindShortestSeparator BytewiseComparator u v = Inr tmp"
    and tmp: "u < v \<Longrightarrow> u \<le> tmp \<and> tmp < v" "u = v \<Longrightarrow> tmp = u"
    using bytewise_separator_between [of u v] bytewise_separator_same [of u] assms
    by (cases "u < v") (auto simp: BytewiseComparator_def)
  show ?thesis
  proof (cases "length tmp < length u \<and> u < tmp")
    case True
    then have uv: "u < v" using tmp assms by auto
    then have "internal_separator BytewiseComparator (internal_key u t) (internal_key v s) =
        Inr (internal_key tmp seek_tag)"
      using True tmp(1) [OF uv]
      by (simp add: internal_separator_def f slice_compare_order Pack_ok Let_def PutFixed64_def
          seek_tag_def flip: internal_key_def)
    with True tmp(1) [OF uv] show ?thesis by auto
  next
    case False
    then have "internal_separator BytewiseComparator (internal_key u t) (internal_key v s) =
        Inr (internal_key u t)"
      by (auto simp: internal_separator_def f slice_compare_order)
    with assms show ?thesis by auto
  qed
qed

lemma internal_successor_key:
  "\<exists>w r. internal_successor BytewiseComparator (internal_key u t) = Inr (internal_key w r) \<and>
    (w = u \<and> r = t \<or> internal_before (internal_key u t) (internal_key w r))"
proof -
  define tmp where "tmp = bytewise_successor u"
  have f: "FindShortSuccessor BytewiseComparator u = Inr tmp"
    by (simp add: BytewiseComparator_def tmp_def)
  show ?thesis
  proof (cases "length tmp < length u \<and> u < tmp")
    case True
    then have "internal_successor BytewiseComparator (internal_key u t) = Inr (internal_key tmp seek_tag)"
      by (simp add: internal_successor_def f slice_compare_order Pack_ok Let_def PutFixed64_def
          seek_tag_def flip: internal_key_def)
    with True show ?thesis by auto
  next
    case False
    then have "internal_successor BytewiseComparator (internal_key u t) = Inr (internal_key u t)"
      by (auto simp: internal_successor_def f slice_compare_order)
    then show ?thesis by blast
  qed
qed

definition internal_valid :: "slice \<Rightarrow> bool" where
  "internal_valid k \<longleftrightarrow> 8 \<le> length k"

lemma internal_valid_iff: "internal_valid k \<longleftrightarrow> (\<exists>u t. k = internal_key u t)"
  by (auto simp: internal_valid_def elim: internal_key_cases)

interpretation internal: key_order "InternalKeyComparator BytewiseComparator" internal_valid internal_before
proof
  fix a b c
  assume a: "internal_valid a"
  then obtain u t where ka: "a = internal_key u t" by (auto simp: internal_valid_iff)
  show "\<exists>s. FindShortSuccessor (InternalKeyComparator BytewiseComparator) a = Inr s \<and>
      internal_valid s \<and> (s = a \<or> internal_before a s)"
    using internal_successor_key [of u t] by (auto simp: InternalKeyComparator_def internal_valid_iff ka)
  assume b: "internal_valid b"
  then obtain v s where kb: "b = internal_key v s" by (auto simp: internal_valid_iff)
  show "\<exists>r. Compare (InternalKeyComparator BytewiseComparator) a b = Inr r \<and>
      (r < 0 \<longleftrightarrow> internal_before a b) \<and> (r = 0 \<longleftrightarrow> a = b) \<and> (r > 0 \<longleftrightarrow> internal_before b a)"
    by (auto simp: InternalKeyComparator_def ka kb)
  show "\<exists>s. FindShortestSeparator (InternalKeyComparator BytewiseComparator) a b = Inr s \<and>
      internal_valid s \<and> (s = a \<or> internal_before a s) \<and> internal_before s b"
    if "internal_before a b"
    using internal_separator_key [of u v s t] that
    by (auto simp: InternalKeyComparator_def internal_valid_iff ka kb)
  assume "internal_valid c"
  then obtain w r where "c = internal_key w r" by (auto simp: internal_valid_iff)
  then show "internal_before a c" if "internal_before a b" "internal_before b c"
    using that by (auto simp: ka kb)
qed

subsection \<open>Properties\<close>

text \<open>
  C33: internal keys round trip and order: what \<open>AppendInternalKey\<close> packs, \<open>ParseInternalKey\<close> and
  \<open>ExtractUserKey\<close> take apart again, and the internal comparator puts two such keys in the order
  of their user keys and, where these are equal, the later sequence number first.
\<close>

theorem internal_key_roundtrip_order:
  assumes "sequence k \<le> kMaxSequenceNumber" and "sequence k' \<le> kMaxSequenceNumber"
  shows "\<exists>p p'. AppendInternalKey [] k = Inr p \<and> AppendInternalKey [] k' = Inr p' \<and>
    ParseInternalKey p = Inr (Some (ParsedInternalKey.truncate k)) \<and>
    ExtractUserKey p = Inr (user_key k) \<and> length p = InternalKeyEncodingLength k \<and>
    (user_key k < user_key k' \<or> user_key k = user_key k' \<and> sequence k' < sequence k \<longrightarrow>
      Compare (InternalKeyComparator BytewiseComparator) p p' = Inr (- 1) \<and>
      Compare (InternalKeyComparator BytewiseComparator) p' p = Inr 1)"
  using AppendInternalKey_ok [OF assms(1), of "[]"] AppendInternalKey_ok [OF assms(2), of "[]"]
    ParseInternalKey_internal [OF assms(1), of "user_key k" "key_type k"]
    tag_less [OF assms(2,1), of "key_type k'" "key_type k"]
  by (auto simp: InternalKeyEncodingLength_def InternalKeyComparator_def ParsedInternalKey.truncate_def)

theorem internal_key_roundtrip_order_witness:
  "\<exists>p p'. AppendInternalKey [] \<lparr>user_key = [1], sequence = 9, key_type = kTypeDeletion\<rparr> = Inr p \<and>
    AppendInternalKey [] \<lparr>user_key = [1], sequence = 8, key_type = kTypeValue\<rparr> = Inr p' \<and>
    Compare (InternalKeyComparator BytewiseComparator) p p' = Inr (- 1)"
  using internal_key_roundtrip_order [of "\<lparr>user_key = [1], sequence = 9, key_type = kTypeDeletion\<rparr>"
    "\<lparr>user_key = [1], sequence = 8, key_type = kTypeValue\<rparr>"]
  by (auto simp: kMaxSequenceNumber_def)

text \<open>
  the internal comparator over the bytewise one meets the contract of \<open>comparator.h\<close> on the keys
  of at least 8 bytes; so the separators a table puts into its index stay between the blocks they
  separate, and no assertion in \<open>FindShortestSeparator\<close> or \<open>FindShortSuccessor\<close> fails.
\<close>

theorem internal_contract:
  assumes "8 \<le> length a" and "8 \<le> length b"
  shows "(\<exists>r. Compare (InternalKeyComparator BytewiseComparator) a b = Inr r \<and>
      (r < 0 \<longleftrightarrow> internal_before a b) \<and> (r = 0 \<longleftrightarrow> a = b) \<and> (r > 0 \<longleftrightarrow> internal_before b a)) \<and>
    (internal_before a b \<longrightarrow>
      (\<exists>s. FindShortestSeparator (InternalKeyComparator BytewiseComparator) a b = Inr s \<and>
        (s = a \<or> internal_before a s) \<and> internal_before s b)) \<and>
    (\<exists>s. FindShortSuccessor (InternalKeyComparator BytewiseComparator) a = Inr s \<and>
      (s = a \<or> internal_before a s))"
  using internal.compare_before [of a b] internal.separator [of a b] internal.successor [of a] assms
  by (auto simp: internal_valid_def)

theorem internal_contract_witness:
  "\<exists>r. Compare (InternalKeyComparator BytewiseComparator)
    [5, 1, 0, 0, 0, 0, 0, 0, 0] [5, 1, 2, 0, 0, 0, 0, 0, 0] = Inr r \<and> r \<noteq> 0"
  using internal_contract [of "[5, 1, 0, 0, 0, 0, 0, 0, 0]" "[5, 1, 2, 0, 0, 0, 0, 0, 0]"] by auto

text \<open>
  the key of a lookup at sequence number \<open>s\<close> fits the buffer of \<open>usize + 13\<close> bytes, gives the
  user key back, and stands in the order of internal keys exactly between the entries of that user
  key that are newer than \<open>s\<close> and those that are not: a seek for it finds the newest visible one.
\<close>

theorem LookupKey_seeks:
  assumes "s \<le> kMaxSequenceNumber" and "length ukey + 8 < 2 ^ 32" and "n \<le> kMaxSequenceNumber"
  shows "\<exists>lk. new_LookupKey ukey s = Inr lk \<and> length (memtable_key lk) \<le> length ukey + 13 \<and>
    lookup_user_key lk = ukey \<and>
    GetLengthPrefixedSlice (memtable_key lk) = Some (lookup_internal_key lk, []) \<and>
    (let entry = internal_key ukey (push_bit 8 n OR type_code t) in
     if n \<le> s then lookup_internal_key lk = entry \<or> internal_before (lookup_internal_key lk) entry
     else internal_before entry (lookup_internal_key lk))"
proof -
  let ?tag = "\<lambda>n t. push_bit 8 n OR type_code t" and ?len = "EncodeVarint32 (of_nat (length ukey) + 8)"
  let ?lk = "\<lparr>space = ?len @ ukey @ EncodeFixed64 (?tag s kTypeValue), kstart = length ?len\<rparr>"
  have lk: "new_LookupKey ukey s = Inr ?lk"
    using assms(1) by (simp add: new_LookupKey_def Pack_ok Let_def kValueTypeForSeek_def)
  have u: "unat (of_nat (length ukey) + 8 :: u32) = length ukey + 8"
    using unat_of_nat_small [of "length ukey + 8"] assms(2) by simp
  have g: "GetLengthPrefixedSlice (memtable_key ?lk) = Some (lookup_internal_key ?lk, [])"
    by (simp add: GetLengthPrefixedSlice_def memtable_key_def lookup_internal_key_def u)
  have "if n \<le> s then lookup_internal_key ?lk = internal_key ukey (?tag n t) \<or>
      internal_before (lookup_internal_key ?lk) (internal_key ukey (?tag n t))
    else internal_before (internal_key ukey (?tag n t)) (lookup_internal_key ?lk)"
    using tag_newer [OF assms(1,3), of t] by (auto simp: lookup_internal_key_def internal_key_def [symmetric])
  with lk g show ?thesis
    using length_EncodeVarint(1) [of "of_nat (length ukey) + 8"]
    by (simp add: memtable_key_def lookup_user_key_def lookup_internal_key_def Let_def)
qed

theorem LookupKey_seeks_witness:
  "\<exists>lk. new_LookupKey [3, 4] 7 = Inr lk \<and> lookup_user_key lk = [3, 4] \<and>
    internal_before (internal_key [3, 4] (push_bit 8 9 OR type_code kTypeValue)) (lookup_internal_key lk)"
proof -
  have "(7 :: u64) \<le> kMaxSequenceNumber" "(9 :: u64) \<le> kMaxSequenceNumber"
    by (simp_all add: kMaxSequenceNumber_def)
  from LookupKey_seeks [OF this(1) _ this(2), of "[3, 4]" kTypeValue] show ?thesis
    by (auto simp: Let_def)
qed

end
