(* ===== verification/Filter_Policy.thy ===== *)
theory Filter_Policy
  imports DB_Format
begin

section \<open>Hashing and Bloom filters\<close>

text \<open>
  \<open>leveldb-mcpe/util/hash.cc\<close>, \<open>util/bloom.cc\<close>, \<open>include/leveldb/filter_policy.h\<close> and the filter
  policy of internal keys in \<open>db/dbformat.cc\<close>. The program opens its database with
  \<open>NewBloomFilterPolicy(10)\<close>. The contract of a policy is a locale: a key the filter was made of
  may always match.
\<close>

subsection \<open>The hash\<close>

definition hash_m :: u32 where
  "hash_m = 0xc6a4a793"

text \<open>The loop over four bytes at a time, then the switch on the 0 to 3 bytes that remain.\<close>

fun hash_loop :: "slice \<Rightarrow> u32 \<Rightarrow> u32" where
  "hash_loop (a # b # c # d # data) h =
     (let w = ucast a OR push_bit 8 (ucast b) OR push_bit 16 (ucast c) OR push_bit 24 (ucast d);
          h = (h + w) * hash_m
      in hash_loop data (h XOR drop_bit 16 h))"
| "hash_loop [a, b, c] h =
     (let h = (h + push_bit 16 (ucast c) + push_bit 8 (ucast b) + ucast a) * hash_m
      in h XOR drop_bit 24 h)"
| "hash_loop [a, b] h = (let h = (h + push_bit 8 (ucast b) + ucast a) * hash_m in h XOR drop_bit 24 h)"
| "hash_loop [a] h = (let h = (h + ucast a) * hash_m in h XOR drop_bit 24 h)"
| "hash_loop [] h = h"

definition Hash :: "slice \<Rightarrow> u32 \<Rightarrow> u32" where
  "Hash data seed = hash_loop data (seed XOR (of_nat (length data) * hash_m))"

definition BloomHash :: "slice \<Rightarrow> u32" where
  "BloomHash key = Hash key 0xbc9f1d34"

subsection \<open>Filter policies\<close>

record filter_policy =
  policy_Name :: slice
  CreateFilter :: "slice list \<Rightarrow> slice \<Rightarrow> slice res"
  KeyMayMatch :: "slice \<Rightarrow> slice \<Rightarrow> bool res"

text \<open>
  The contract of \<open>filter_policy.h\<close>: the filter is appended to \<open>dst\<close>, what \<open>dst\<close> held stays as it
  was, and every key the filter was made of may match it.
\<close>

locale filter_contract =
  fixes policy :: filter_policy and valid :: "slice \<Rightarrow> bool"
  assumes create_match: "\<forall>k \<in> set keys. valid k \<Longrightarrow>
      \<exists>f. CreateFilter policy keys dst = Inr (dst @ f) \<and> (\<forall>k \<in> set keys. KeyMayMatch policy k f = Inr True)"
    and match_total: "valid k \<Longrightarrow> \<exists>r. KeyMayMatch policy k f = Inr r"

text \<open>
  The number of probes: \<open>bits_per_key * 0.69\<close> rounded down, which is exact below the cut at 30.
\<close>

definition bloom_k :: "nat \<Rightarrow> nat" where
  "bloom_k bits_per_key =
     (let k = bits_per_key * 69 div 100; k = (if k < 1 then 1 else k)
      in if k > 30 then 30 else k)"

definition bloom_delta :: "u32 \<Rightarrow> u32" where
  "bloom_delta h = drop_bit 17 h OR push_bit 15 h"

text \<open>The inner loop of \<open>CreateFilter\<close>, \<open>j\<close> probes left.\<close>

fun bloom_set :: "nat \<Rightarrow> u32 \<Rightarrow> nat \<Rightarrow> u32 \<Rightarrow> slice \<Rightarrow> slice res" where
  "bloom_set bits delta 0 h arr = Inr arr"
| "bloom_set bits delta (Suc j) h arr =
     (let bitpos = unat h mod bits in
      bind_res (vec_at arr (int (bitpos div 8))) (\<lambda>b.
      bind_res (vec_set arr (int (bitpos div 8)) (b OR push_bit (bitpos mod 8) 1)) (\<lambda>arr.
        bloom_set bits delta j (h + delta) arr)))"

fun bloom_add :: "nat \<Rightarrow> nat \<Rightarrow> slice list \<Rightarrow> slice \<Rightarrow> slice res" where
  "bloom_add bits k [] arr = Inr arr"
| "bloom_add bits k (key # keys) arr =
     (let h = BloomHash key in
      bind_res (bloom_set bits (bloom_delta h) k h arr) (bloom_add bits k keys))"

definition bloom_create :: "nat \<Rightarrow> slice list \<Rightarrow> slice \<Rightarrow> slice res" where
  "bloom_create bits_per_key keys dst =
     (let bits = length keys * bits_per_key; bits = (if bits < 64 then 64 else bits);
          bytes = (bits + 7) div 8; bits = bytes * 8; k = bloom_k bits_per_key in
      bind_res (bloom_add bits k keys (replicate bytes 0)) (\<lambda>arr.
        Inr (dst @ arr @ [of_nat k])))"

fun bloom_probe :: "nat \<Rightarrow> u32 \<Rightarrow> nat \<Rightarrow> u32 \<Rightarrow> slice \<Rightarrow> bool res" where
  "bloom_probe bits delta 0 h arr = Inr True"
| "bloom_probe bits delta (Suc j) h arr =
     (let bitpos = unat h mod bits in
      bind_res (vec_at arr (int (bitpos div 8))) (\<lambda>b.
        if b AND push_bit (bitpos mod 8) 1 = 0 then Inr False
        else bloom_probe bits delta j (h + delta) arr))"

text \<open>The last byte is a \<open>char\<close>: a negative one is above 30 as a \<open>size_t\<close>, like its unsigned value.\<close>

definition bloom_match :: "slice \<Rightarrow> slice \<Rightarrow> bool res" where
  "bloom_match key bloom_filter =
     (let len = length bloom_filter in
      if len < 2 then Inr False
      else
        let bits = (len - 1) * 8; k = unat (bloom_filter ! (len - 1)) in
        if k > 30 then Inr True
        else let h = BloomHash key in bloom_probe bits (bloom_delta h) k h bloom_filter)"

definition NewBloomFilterPolicy :: "nat \<Rightarrow> filter_policy" where
  "NewBloomFilterPolicy bits_per_key =
     \<lparr>policy_Name = map char_byte ''leveldb.BuiltinBloomFilter2'', CreateFilter = bloom_create bits_per_key, KeyMayMatch = bloom_match\<rparr>"

text \<open>The policy of internal keys strips the sequence number and the type.\<close>

fun extract_user_keys :: "slice list \<Rightarrow> slice list res" where
  "extract_user_keys [] = Inr []"
| "extract_user_keys (k # ks) =
     bind_res (ExtractUserKey k) (\<lambda>u. bind_res (extract_user_keys ks) (\<lambda>us. Inr (u # us)))"

definition InternalFilterPolicy :: "filter_policy \<Rightarrow> filter_policy" where
  "InternalFilterPolicy p =
     \<lparr>policy_Name = policy_Name p,
      CreateFilter = \<lambda>keys dst. bind_res (extract_user_keys keys) (\<lambda>us. CreateFilter p us dst),
      KeyMayMatch = \<lambda>key f. bind_res (ExtractUserKey key) (\<lambda>u. KeyMayMatch p u f)\<rparr>"

subsection \<open>No false negatives\<close>

text \<open>\<open>covers a b\<close>: every bit of \<open>a\<close> is set in \<open>b\<close>, which may be longer.\<close>

definition covers :: "slice \<Rightarrow> slice \<Rightarrow> bool" where
  "covers a b \<longleftrightarrow> length a \<le> length b \<and> (\<forall>i < length a. \<forall>n. bit (a ! i) n \<longrightarrow> bit (b ! i) n)"

lemma covers_refl [simp]: "covers a a"
  by (simp add: covers_def)

lemma covers_trans: "covers a b \<Longrightarrow> covers b c \<Longrightarrow> covers a c"
  by (auto simp: covers_def)

lemma covers_append: "covers a b \<Longrightarrow> covers a (b @ c)"
  by (auto simp: covers_def nth_append)

lemma covers_or: "i < length a \<Longrightarrow> covers a (a[i := a ! i OR x])"
  by (auto simp: covers_def nth_list_update bit_simps)

lemma probe_in_range: "0 < bytes \<Longrightarrow> (h :: nat) mod (bytes * 8) div 8 < bytes"
  by (simp add: less_mult_imp_div_less)

lemma bloom_set_ok:
  assumes "0 < bytes" and "length arr = bytes"
  shows "\<exists>arr'. bloom_set (bytes * 8) delta j h arr = Inr arr' \<and> length arr' = bytes \<and> covers arr arr' \<and>
    (\<forall>arr''. covers arr' arr'' \<longrightarrow> bloom_probe (bytes * 8) delta j h arr'' = Inr True)"
  using assms(2)
proof (induction j arbitrary: h arr)
  case (Suc j)
  define p where "p = unat h mod (bytes * 8)"
  define arr1 where "arr1 = arr[p div 8 := arr ! (p div 8) OR push_bit (p mod 8) 1]"
  have p: "p div 8 < bytes" unfolding p_def by (rule probe_in_range [OF assms(1)])
  have l: "length arr1 = bytes" using Suc.prems by (simp add: arr1_def)
  obtain arr' where arr': "bloom_set (bytes * 8) delta j (h + delta) arr1 = Inr arr'"
    "length arr' = bytes" "covers arr1 arr'"
    and probe: "\<And>arr''. covers arr' arr'' \<Longrightarrow> bloom_probe (bytes * 8) delta j (h + delta) arr'' = Inr True"
    using Suc.IH [OF l, of "h + delta"] by blast
  have "covers arr arr1" unfolding arr1_def by (rule covers_or) (use p Suc.prems in simp)
  then have c: "covers arr arr'" using arr'(3) by (rule covers_trans)
  have hit: "bloom_probe (bytes * 8) delta (Suc j) h arr'' = Inr True" if "covers arr' arr''" for arr''
  proof -
    have "bit (arr1 ! (p div 8)) (p mod 8)"
      using p Suc.prems by (simp add: arr1_def bit_simps possible_bit_def)
    with covers_trans [OF arr'(3) that] p l have b: "p div 8 < length arr''" "bit (arr'' ! (p div 8)) (p mod 8)"
      by (auto simp: covers_def)
    then have "bit (arr'' ! (p div 8) AND push_bit (p mod 8) 1) (p mod 8)"
      by (simp add: bit_simps possible_bit_def)
    then have "arr'' ! (p div 8) AND push_bit (p mod 8) 1 \<noteq> 0" by (metis bit_0_eq bot_apply bot_bool_def)
    with b(1) probe [OF that] show ?thesis by (simp add: Let_def flip: p_def)
  qed
  have "bloom_set (bytes * 8) delta (Suc j) h arr = bloom_set (bytes * 8) delta j (h + delta) arr1"
    using p Suc.prems by (simp add: Let_def arr1_def flip: p_def)
  with arr'(1,2) c hit show ?case by (metis (no_types, lifting))
qed simp

lemma bloom_add_ok:
  assumes "0 < bytes" and "length arr = bytes"
  shows "\<exists>arr'. bloom_add (bytes * 8) k keys arr = Inr arr' \<and> length arr' = bytes \<and> covers arr arr' \<and>
    (\<forall>key \<in> set keys. \<forall>arr''. covers arr' arr'' \<longrightarrow>
      bloom_probe (bytes * 8) (bloom_delta (BloomHash key)) k (BloomHash key) arr'' = Inr True)"
  using assms(2)
proof (induction keys arbitrary: arr)
  case (Cons key keys)
  obtain arr1 where a1: "bloom_set (bytes * 8) (bloom_delta (BloomHash key)) k (BloomHash key) arr = Inr arr1"
    "length arr1 = bytes" "covers arr arr1"
    "\<And>arr''. covers arr1 arr'' \<Longrightarrow>
      bloom_probe (bytes * 8) (bloom_delta (BloomHash key)) k (BloomHash key) arr'' = Inr True"
    using bloom_set_ok [OF assms(1) Cons.prems] by blast
  obtain arr2 where a2: "bloom_add (bytes * 8) k keys arr1 = Inr arr2" "length arr2 = bytes" "covers arr1 arr2"
    "\<And>key arr''. key \<in> set keys \<Longrightarrow> covers arr2 arr'' \<Longrightarrow>
      bloom_probe (bytes * 8) (bloom_delta (BloomHash key)) k (BloomHash key) arr'' = Inr True"
    using Cons.IH [OF a1(2)] by blast
  show ?case
    using a1 a2 by (auto simp: Let_def intro: covers_trans)
qed simp

lemma bloom_k_small: "bloom_k b \<le> 30"
  by (simp add: bloom_k_def Let_def)

lemma bloom_create_match:
  "\<exists>f. bloom_create b keys dst = Inr (dst @ f) \<and> (\<forall>key \<in> set keys. bloom_match key f = Inr True)"
proof -
  define bits where "bits = (if length keys * b < 64 then 64 else length keys * b)"
  define bytes where "bytes = (bits + 7) div 8"
  have "64 \<le> bits" by (simp add: bits_def)
  then have bytes: "0 < bytes" unfolding bytes_def by (intro div_greater_zero_iff [THEN iffD2]) simp
  obtain arr where arr: "bloom_add (bytes * 8) (bloom_k b) keys (replicate bytes 0) = Inr arr"
    "length arr = bytes"
    "\<And>key arr''. key \<in> set keys \<Longrightarrow> covers arr arr'' \<Longrightarrow>
      bloom_probe (bytes * 8) (bloom_delta (BloomHash key)) (bloom_k b) (BloomHash key) arr'' = Inr True"
    using bloom_add_ok [OF bytes, of "replicate bytes 0" "bloom_k b" keys] by auto
  have "unat (of_nat (bloom_k b) :: byte) = bloom_k b"
    using bloom_k_small [of b] by (simp add: unat_of_nat)
  then have "bloom_match key (arr @ [of_nat (bloom_k b)]) = Inr True" if "key \<in> set keys" for key
    using arr(3) [OF that covers_append [OF covers_refl], of "[of_nat (bloom_k b)]"] arr(2) bytes
      bloom_k_small [of b]
    by (simp add: bloom_match_def Let_def nth_append)
  then show ?thesis
    using arr(1) by (auto simp: bloom_create_def Let_def simp flip: bits_def bytes_def)
qed

lemma bloom_probe_total:
  assumes "0 < bytes" and "bytes \<le> length arr"
  shows "\<exists>r. bloom_probe (bytes * 8) delta j h arr = Inr r"
proof (induction j arbitrary: h)
  case (Suc j)
  have "unat h mod (bytes * 8) div 8 < length arr"
    using assms probe_in_range [of bytes "unat h"] by simp
  with Suc [of "h + delta"] show ?case by (auto simp: Let_def)
qed auto

lemma bloom_match_total: "\<exists>r. bloom_match key f = Inr r"
  using bloom_probe_total [of "length f - 1" f] by (auto simp: bloom_match_def Let_def)

interpretation bloom: filter_contract "NewBloomFilterPolicy b" "\<lambda>_. True" for b
  using bloom_create_match bloom_match_total
  by unfold_locales (simp_all add: NewBloomFilterPolicy_def)

context filter_contract
begin

text \<open>The policy of internal keys keeps the contract of the policy of user keys.\<close>

lemma internal_create_match:
  assumes "\<forall>k \<in> set keys. internal_valid k \<and> valid (take (length k - 8) k)"
  shows "\<exists>f. CreateFilter (InternalFilterPolicy policy) keys dst = Inr (dst @ f) \<and>
    (\<forall>k \<in> set keys. KeyMayMatch (InternalFilterPolicy policy) k f = Inr True)"
proof -
  let ?u = "\<lambda>k. take (length k - 8) k"
  have e: "extract_user_keys ks = Inr (map ?u ks)" if "\<forall>k \<in> set ks. internal_valid k" for ks
    using that by (induction ks) (simp_all add: ExtractUserKey_def internal_valid_def)
  obtain f where "CreateFilter policy (map ?u keys) dst = Inr (dst @ f)"
    "\<forall>k \<in> set (map ?u keys). KeyMayMatch policy k f = Inr True"
    using create_match [of "map ?u keys" dst] assms by auto
  then show ?thesis
    using assms e [of keys]
    by (intro exI [of _ f]) (simp add: InternalFilterPolicy_def ExtractUserKey_def internal_valid_def)
qed

lemma internal_match_total:
  "internal_valid k \<Longrightarrow> valid (take (length k - 8) k) \<Longrightarrow> \<exists>r. KeyMayMatch (InternalFilterPolicy policy) k f = Inr r"
  using match_total by (simp add: InternalFilterPolicy_def ExtractUserKey_def internal_valid_def)

end

interpretation internal_bloom: filter_contract "InternalFilterPolicy (NewBloomFilterPolicy b)" internal_valid
  for b
  using bloom.internal_create_match bloom.internal_match_total
  by unfold_locales simp_all

subsection \<open>Properties\<close>

text \<open>
  the Bloom filter has no false negative: \<open>CreateFilter\<close> appends a filter, in range for every
  write, that each of its keys may match, whatever the number of bits per key, and a match of any
  key against any filter answers without reading past its end.
\<close>

theorem bloom_no_false_negative:
  "(\<exists>f. CreateFilter (NewBloomFilterPolicy b) keys dst = Inr (dst @ f) \<and>
     (\<forall>key \<in> set keys. KeyMayMatch (NewBloomFilterPolicy b) key f = Inr True)) \<and>
   (\<exists>r. KeyMayMatch (NewBloomFilterPolicy b) any_key any_filter = Inr r)"
  using bloom.create_match [of keys b dst] bloom.match_total by simp

theorem bloom_no_false_negative_witness:
  "\<exists>f. CreateFilter (NewBloomFilterPolicy 10) [[1, 2, 3], [4]] [] = Inr f \<and>
    KeyMayMatch (NewBloomFilterPolicy 10) [4] f = Inr True"
  using bloom_no_false_negative [of 10 "[[1, 2, 3], [4]]" "[]" "[]" "[]"] by auto

end
