(* ===== verification/Filter_Block.thy ===== *)
theory Filter_Block
  imports Filter_Policy
begin

section \<open>The filter block of a table\<close>

text \<open>
  \<open>leveldb-mcpe/table/filter_block.cc\<close> and \<open>filter_block.h\<close>: one filter for every 2 KB of block
  offsets, built from the keys added after \<open>StartBlock\<close>, and the reader that finds the filter of a
  block. The client lemma is proved in the locale of filter policies.
\<close>

subsection \<open>The builder\<close>

definition kFilterBaseLg :: nat where
  "kFilterBaseLg = 11"

definition kFilterBase :: nat where
  "kFilterBase = push_bit kFilterBaseLg 1"

record FilterBlockBuilder =
  fb_keys :: slice
  fb_start :: "nat list"
  fb_result :: slice
  fb_offsets :: "u32 list"

definition new_FilterBlockBuilder :: FilterBlockBuilder where
  "new_FilterBlockBuilder = \<lparr>fb_keys = [], fb_start = [], fb_result = [], fb_offsets = []\<rparr>"

text \<open>The keys between consecutive starting indices of the flattened buffer.\<close>

definition flat_keys :: "slice \<Rightarrow> nat list \<Rightarrow> nat \<Rightarrow> slice list" where
  "flat_keys ks start num_keys =
     map (\<lambda>i. take (start ! (i + 1) - start ! i) (drop (start ! i) ks)) [0..<num_keys]"

definition GenerateFilter :: "filter_policy \<Rightarrow> FilterBlockBuilder \<Rightarrow> FilterBlockBuilder res" where
  "GenerateFilter policy b =
     (let num_keys = length (fb_start b) in
      if num_keys = 0 then
        Inr (b\<lparr>fb_offsets := fb_offsets b @ [of_nat (length (fb_result b))]\<rparr>)
      else
        let start = fb_start b @ [length (fb_keys b)];
            tmp_keys = flat_keys (fb_keys b) start num_keys;
            offsets = fb_offsets b @ [of_nat (length (fb_result b))] in
        bind_res (CreateFilter policy tmp_keys (fb_result b)) (\<lambda>result.
          Inr (b\<lparr>fb_keys := [], fb_start := [], fb_result := result, fb_offsets := offsets\<rparr>)))"

lemma GenerateFilter_offsets:
  "GenerateFilter policy b = Inr b' \<Longrightarrow> length (fb_offsets b') = Suc (length (fb_offsets b))"
  by (auto simp: GenerateFilter_def Let_def res_simps split: if_splits)

text \<open>The loop of \<open>StartBlock\<close>: every \<open>GenerateFilter\<close> adds one offset, so it ends.\<close>

function start_loop :: "filter_policy \<Rightarrow> nat \<Rightarrow> FilterBlockBuilder \<Rightarrow> FilterBlockBuilder res" where
  "start_loop policy filter_index b =
     (if filter_index > length (fb_offsets b)
      then bind_res (GenerateFilter policy b) (start_loop policy filter_index)
      else Inr b)"
  by pat_completeness auto
termination
  by (relation "measure (\<lambda>(policy, filter_index, b). filter_index - length (fb_offsets b))")
    (auto dest: GenerateFilter_offsets)

declare start_loop.simps [simp del]

definition StartBlock :: "filter_policy \<Rightarrow> FilterBlockBuilder \<Rightarrow> u64 \<Rightarrow> FilterBlockBuilder res" where
  "StartBlock policy b block_offset =
     (let filter_index = unat block_offset div kFilterBase in
      bind_res (guard_res (filter_index \<ge> length (fb_offsets b)) AssertFail) (\<lambda>_.
        start_loop policy filter_index b))"

definition AddKey :: "FilterBlockBuilder \<Rightarrow> slice \<Rightarrow> FilterBlockBuilder" where
  "AddKey b key = b\<lparr>fb_start := fb_start b @ [length (fb_keys b)], fb_keys := fb_keys b @ key\<rparr>"

definition Finish :: "filter_policy \<Rightarrow> FilterBlockBuilder \<Rightarrow> slice res" where
  "Finish policy b =
     bind_res (if fb_start b \<noteq> [] then GenerateFilter policy b else Inr b) (\<lambda>b.
     let array_offset = (of_nat (length (fb_result b)) :: u32);
         result = foldl PutFixed32 (fb_result b) (fb_offsets b) in
       Inr (PutFixed32 result array_offset @ [of_nat kFilterBaseLg]))"

subsection \<open>The reader\<close>

text \<open>\<open>fr_offset\<close> is the position of \<open>offset_\<close> in \<open>data_\<close>; both are \<open>NULL\<close> together.\<close>

record FilterBlockReader =
  fr_data :: slice
  fr_offset :: nat
  fr_num :: nat
  fr_base_lg :: int

definition new_FilterBlockReader :: "slice \<Rightarrow> FilterBlockReader res" where
  "new_FilterBlockReader contents =
     (let n = length contents; r = \<lparr>fr_data = [], fr_offset = 0, fr_num = 0, fr_base_lg = 0\<rparr> in
      if n < 5 then Inr r
      else
        bind_res (slice_at contents (int n - 1)) (\<lambda>base.
        let r = r\<lparr>fr_base_lg := sint base\<rparr> in
        bind_res (DecodeFixed32 (drop (n - 5) contents)) (\<lambda>last_word.
          if unat last_word > n - 5 then Inr r
          else Inr (r\<lparr>fr_data := contents, fr_offset := unat last_word,
            fr_num := (n - 5 - unat last_word) div 4\<rparr>))))"

text \<open>A shift of the 64-bit offset by 64 or more, or by a negative number, is undefined.\<close>

definition filter_key_may_match :: "filter_policy \<Rightarrow> FilterBlockReader \<Rightarrow> u64 \<Rightarrow> slice \<Rightarrow> bool res" where
  "filter_key_may_match policy r block_offset key =
     bind_res (guard_res (0 \<le> fr_base_lg r \<and> fr_base_lg r < 64) Undefined) (\<lambda>_.
     let index = unat (drop_bit (nat (fr_base_lg r)) block_offset) in
     if index < fr_num r then
       bind_res (DecodeFixed32 (drop (fr_offset r + index * 4) (fr_data r))) (\<lambda>start.
       bind_res (DecodeFixed32 (drop (fr_offset r + index * 4 + 4) (fr_data r))) (\<lambda>limit.
         if start \<le> limit \<and> unat limit \<le> fr_offset r then
           KeyMayMatch policy key (take (unat limit - unat start) (drop (unat start) (fr_data r)))
         else if start = limit then Inr False
         else Inr True))
     else Inr True)"

subsection \<open>The flattened keys\<close>

lemma concat_split_nth:
  "i < length xs \<Longrightarrow> concat xs = concat (take i xs) @ xs ! i @ concat (drop (Suc i) xs)"
  by (metis concat.simps(2) concat_append id_take_nth_drop)

definition starts :: "'a list list \<Rightarrow> nat list" where
  "starts xs = map (\<lambda>i. length (concat (take i xs))) [0..<length xs]"

lemma starts_snoc: "starts (xs @ [x]) = starts xs @ [length (concat xs)]"
  by (simp add: starts_def)

lemma starts_nth: "i \<le> length xs \<Longrightarrow> (starts xs @ [length (concat xs)]) ! i = length (concat (take i xs))"
  by (auto simp: starts_def nth_append)

lemma flat_keys_starts: "flat_keys (concat ks) (starts ks @ [length (concat ks)]) (length ks) = ks"
proof (rule nth_equalityI)
  fix i
  assume "i < length (flat_keys (concat ks) (starts ks @ [length (concat ks)]) (length ks))"
  then have i: "i < length ks" by (simp add: flat_keys_def)
  have s: "length (concat (take (Suc i) ks)) = length (concat (take i ks)) + length (ks ! i)"
    using i by (simp add: take_Suc_conv_app_nth)
  have d: "drop (length (concat (take i ks))) (concat ks) = ks ! i @ concat (drop (Suc i) ks)"
    by (subst concat_split_nth [OF i]) simp
  show "flat_keys (concat ks) (starts ks @ [length (concat ks)]) (length ks) ! i = ks ! i"
    using i starts_nth [of i ks] starts_nth [of "Suc i" ks] by (simp add: flat_keys_def s d)
qed (simp add: flat_keys_def)

subsection \<open>The builder keeps every key in its filter\<close>

text \<open>
  What a builder stands for: the groups of keys its filters \<open>segs\<close> were made of, and the pending
  keys, which go into the next group.
\<close>

definition builder_ok ::
    "filter_policy \<Rightarrow> FilterBlockBuilder \<Rightarrow> slice list list \<Rightarrow> slice list \<Rightarrow> slice list \<Rightarrow> bool" where
  "builder_ok policy b groups pending segs \<longleftrightarrow>
     fb_keys b = concat pending \<and> fb_start b = starts pending \<and>
     fb_result b = concat segs \<and> fb_offsets b = map of_nat (starts segs) \<and>
     length segs = length groups \<and>
     (\<forall>i < length groups. \<forall>k \<in> set (groups ! i). KeyMayMatch policy k (segs ! i) = Inr True)"

text \<open>The index of the filter that every key is in, or will be in.\<close>

definition located :: "slice list list \<Rightarrow> slice list \<Rightarrow> (nat \<times> slice) set" where
  "located groups pending = {(i, k). i < length groups \<and> k \<in> set (groups ! i)} \<union>
     {length groups} \<times> set pending"

lemma located_generate: "located (groups @ [pending]) [] = located groups pending"
  by (auto simp: located_def nth_append less_Suc_eq split: if_splits)

lemma located_add: "located groups (pending @ [k]) = insert (length groups, k) (located groups pending)"
  by (auto simp: located_def)

lemma starts_length [simp]: "length (starts xs) = length xs"
  by (simp add: starts_def)

lemma starts_empty [simp]: "starts [] = []" "starts xs = [] \<longleftrightarrow> xs = []"
  by (simp_all add: starts_def)

lemma builder_ok_offsets: "builder_ok policy b groups pending segs \<Longrightarrow> length (fb_offsets b) = length groups"
  by (simp add: builder_ok_def)

lemma builder_ok_new: "builder_ok policy new_FilterBlockBuilder [] [] []"
  by (simp add: builder_ok_def new_FilterBlockBuilder_def)

lemma builder_ok_AddKey:
  "builder_ok policy b groups pending segs \<Longrightarrow> builder_ok policy (AddKey b k) groups (pending @ [k]) segs"
  by (simp add: builder_ok_def AddKey_def starts_snoc)

subsection \<open>The finished block\<close>

definition filter_block :: "slice list \<Rightarrow> slice" where
  "filter_block segs = concat segs @ concat (map (EncodeFixed32 \<circ> of_nat) (starts segs)) @
     EncodeFixed32 (of_nat (length (concat segs))) @ [11]"

lemma foldl_PutFixed32: "foldl PutFixed32 r vs = r @ concat (map EncodeFixed32 vs)"
  by (induction vs arbitrary: r) (simp_all add: PutFixed32_def)

lemma length_fixed_array [simp]: "length (concat (map (EncodeFixed32 \<circ> f) xs)) = 4 * length xs"
  by (induction xs) simp_all

lemma drop_fixed_array:
  assumes "i < length xs"
  shows "drop (4 * i) (concat (map (EncodeFixed32 \<circ> f) xs) @ r) =
    EncodeFixed32 (f (xs ! i)) @ drop (4 * Suc i) (concat (map (EncodeFixed32 \<circ> f) xs) @ r)"
  using assms
proof (induction xs arbitrary: i)
  case (Cons x xs)
  then show ?case by (cases i) simp_all
qed simp

lemma length_filter_block: "length (filter_block segs) = length (concat segs) + 4 * length segs + 5"
  by (simp add: filter_block_def)

definition filter_reader :: "slice list \<Rightarrow> FilterBlockReader" where
  "filter_reader segs = \<lparr>fr_data = filter_block segs, fr_offset = length (concat segs),
     fr_num = length segs, fr_base_lg = 11\<rparr>"

lemma slice_at_last: "slice_at (xs @ [b]) (int (length (xs @ [b])) - 1) = Inr b"
  by (simp add: slice_at_def nat_diff_distrib)

lemma read_filter_block:
  assumes "length (filter_block segs) < 2 ^ 32"
  shows "new_FilterBlockReader (filter_block segs) = Inr (filter_reader segs)"
proof -
  let ?n = "length (filter_block segs)"
  have n: "?n = length (concat segs) + 4 * length segs + 5" by (rule length_filter_block)
  have d: "drop (?n - 5) (filter_block segs) = EncodeFixed32 (of_nat (length (concat segs))) @ [11]"
    unfolding n by (simp add: filter_block_def)
  have l: "slice_at (filter_block segs) (int ?n - 1) = Inr 11"
    unfolding filter_block_def by (simp only: append_assoc [symmetric] slice_at_last)
  have s: "sint (11 :: byte) = 11" using sint_of_nat8 [of 11] by simp
  have o: "unat (of_nat (length (concat segs)) :: u32) = length (concat segs)"
    using assms n by (intro unat_of_nat_small) simp
  show ?thesis
    unfolding new_FilterBlockReader_def Let_def l d
    by (simp add: s o n filter_reader_def)
qed

lemma filter_bounds:
  assumes "length (filter_block segs) < 2 ^ 32" and "i < length segs"
  shows "DecodeFixed32 (drop (length (concat segs) + i * 4) (filter_block segs)) =
      Inr (of_nat (length (concat (take i segs))))"
    and "DecodeFixed32 (drop (length (concat segs) + i * 4 + 4) (filter_block segs)) =
      Inr (of_nat (length (concat (take (Suc i) segs))))"
proof -
  define xs where "xs = starts segs @ [length (concat segs)]"
  have b: "filter_block segs = concat segs @ concat (map (EncodeFixed32 \<circ> of_nat) xs) @ [11]"
    by (simp add: filter_block_def xs_def)
  have d: "DecodeFixed32 (drop (length (concat segs) + 4 * j) (filter_block segs)) =
      Inr (of_nat (length (concat (take j segs))))" if "j \<le> length segs" for j
  proof -
    have "j < length xs" using that by (simp add: xs_def)
    from drop_fixed_array [OF this, of of_nat "[11]"] show ?thesis
      using starts_nth [OF that] by (simp add: b flip: xs_def)
  qed
  show "DecodeFixed32 (drop (length (concat segs) + i * 4) (filter_block segs)) =
      Inr (of_nat (length (concat (take i segs))))"
    using d [of i] assms(2) by (simp add: mult.commute)
  show "DecodeFixed32 (drop (length (concat segs) + i * 4 + 4) (filter_block segs)) =
      Inr (of_nat (length (concat (take (Suc i) segs))))"
    using d [of "Suc i"] assms(2) by (simp add: algebra_simps)
qed

context filter_contract
begin

lemma GenerateFilter_ok:
  assumes "builder_ok policy b groups pending segs" and "\<forall>k \<in> set pending. valid k"
  shows "\<exists>b' f. GenerateFilter policy b = Inr b' \<and> builder_ok policy b' (groups @ [pending]) [] (segs @ [f])"
proof (cases "pending = []")
  case True
  with assms(1) show ?thesis
    by (intro exI [of _ "b\<lparr>fb_offsets := fb_offsets b @ [of_nat (length (fb_result b))]\<rparr>"] exI [of _ "[]"])
      (auto simp: GenerateFilter_def builder_ok_def starts_snoc nth_append less_Suc_eq)
next
  case False
  have k: "flat_keys (fb_keys b) (fb_start b @ [length (fb_keys b)]) (length (fb_start b)) = pending"
    using assms(1) flat_keys_starts [of pending] by (simp add: builder_ok_def)
  obtain f where f: "CreateFilter policy pending (fb_result b) = Inr (fb_result b @ f)"
    "\<forall>k \<in> set pending. KeyMayMatch policy k f = Inr True"
    using create_match [OF assms(2), of "fb_result b"] by blast
  have "fb_start b \<noteq> []" using assms(1) False by (simp add: builder_ok_def)
  then have "GenerateFilter policy b = Inr (b\<lparr>fb_keys := [], fb_start := [],
      fb_result := fb_result b @ f, fb_offsets := fb_offsets b @ [of_nat (length (fb_result b))]\<rparr>)"
    by (simp add: GenerateFilter_def k f(1) Let_def)
  with assms(1) f(2) show ?thesis
    by (intro exI [of _ "b\<lparr>fb_keys := [], fb_start := [],
        fb_result := fb_result b @ f, fb_offsets := fb_offsets b @ [of_nat (length (fb_result b))]\<rparr>"]
        exI [of _ f])
      (auto simp: builder_ok_def starts_snoc nth_append less_Suc_eq)
qed

lemma start_loop_ok:
  assumes "builder_ok policy b groups pending segs" and "\<forall>k \<in> set pending. valid k"
    and "length groups \<le> n"
  shows "\<exists>b' groups' pending' segs'. start_loop policy n b = Inr b' \<and>
    builder_ok policy b' groups' pending' segs' \<and> (\<forall>k \<in> set pending'. valid k) \<and>
    length groups' = n \<and> located groups' pending' = located groups pending"
  using assms
proof (induction "n - length groups" arbitrary: b groups pending segs)
  case 0
  then show ?case
    using builder_ok_offsets [OF 0(2)] by (subst start_loop.simps) auto
next
  case (Suc m)
  obtain b' f where b': "GenerateFilter policy b = Inr b'"
    "builder_ok policy b' (groups @ [pending]) [] (segs @ [f])"
    using GenerateFilter_ok [OF Suc.prems(1,2)] by blast
  have "length groups < n" using Suc.hyps(2) by simp
  then have "start_loop policy n b = start_loop policy n b'"
    using builder_ok_offsets [OF Suc.prems(1)] b'(1) by (subst start_loop.simps) simp
  then show ?case
    using Suc.hyps(1) [OF _ b'(2)] Suc.hyps(2) Suc.prems(3) by (simp add: located_generate)
qed

lemma StartBlock_ok:
  assumes "builder_ok policy b groups pending segs" and "\<forall>k \<in> set pending. valid k"
    and "length groups \<le> unat off div kFilterBase"
  shows "\<exists>b' groups' pending' segs'. StartBlock policy b off = Inr b' \<and>
    builder_ok policy b' groups' pending' segs' \<and> (\<forall>k \<in> set pending'. valid k) \<and>
    length groups' = unat off div kFilterBase \<and> located groups' pending' = located groups pending"
  using start_loop_ok [OF assms] assms(3) builder_ok_offsets [OF assms(1)]
  by (simp add: StartBlock_def Let_def)

lemma Finish_ok:
  assumes "builder_ok policy b groups pending segs" and "\<forall>k \<in> set pending. valid k"
  shows "\<exists>segs'. Finish policy b = Inr (filter_block segs') \<and>
    (\<forall>(i, k) \<in> located groups pending. i < length segs' \<and> KeyMayMatch policy k (segs' ! i) = Inr True)"
proof -
  have fin: "Inr (PutFixed32 (foldl PutFixed32 (fb_result b) (fb_offsets b)) (of_nat (length (fb_result b))) @
      [of_nat kFilterBaseLg]) = (Inr (filter_block segs) :: slice res)"
    if "builder_ok policy b groups [] segs" for b groups segs
    using that by (simp add: builder_ok_def foldl_PutFixed32 filter_block_def PutFixed32_def kFilterBaseLg_def)
  have loc: "\<forall>(i, k) \<in> located groups []. i < length segs \<and> KeyMayMatch policy k (segs ! i) = Inr True"
    if "builder_ok policy b groups [] segs" for b groups segs
    using that by (auto simp: builder_ok_def located_def)
  show ?thesis
  proof (cases "pending = []")
    case True
    with assms(1) have "fb_start b = []" by (simp add: builder_ok_def)
    with assms(1) True fin loc show ?thesis by (fastforce simp: Finish_def Let_def)
  next
    case False
    with assms(1) have "fb_start b \<noteq> []" by (simp add: builder_ok_def)
    moreover obtain b' f where "GenerateFilter policy b = Inr b'"
      and b': "builder_ok policy b' (groups @ [pending]) [] (segs @ [f])"
      using GenerateFilter_ok [OF assms] by blast
    ultimately have "Finish policy b = Inr (filter_block (segs @ [f]))"
      using fin [OF b'] by (simp add: Finish_def Let_def)
    with loc [OF b'] show ?thesis unfolding located_generate by blast
  qed
qed

lemma reader_match:
  assumes "length (filter_block segs) < 2 ^ 32" and "unat off div kFilterBase < length segs"
  shows "filter_key_may_match policy (filter_reader segs) off key =
    KeyMayMatch policy key (segs ! (unat off div kFilterBase))"
proof -
  define i where "i = unat off div kFilterBase"
  have i: "i < length segs" using assms(2) by (simp add: i_def)
  have x: "unat (drop_bit 11 off) = i"
    by (simp only: unat_drop_bit_eq) (simp add: drop_bit_eq_div i_def kFilterBase_def kFilterBaseLg_def)
  have c: "concat segs = concat (take i segs) @ segs ! i @ concat (drop (Suc i) segs)"
    by (rule concat_split_nth [OF i])
  have s: "concat (take (Suc i) segs) = concat (take i segs) @ segs ! i"
    using i by (simp add: take_Suc_conv_app_nth)
  have l: "length (concat (take (Suc i) segs)) \<le> length (concat segs)" by (simp add: c s)
  moreover have "length (concat segs) < 2 ^ 32" using assms(1) by (simp add: length_filter_block)
  ultimately have l2: "length (concat (take (Suc i) segs)) < 2 ^ 32" by linarith
  then have l1: "length (concat (take i segs)) < 2 ^ 32" by (simp add: s)
  define lo hi where "lo = (of_nat (length (concat (take i segs))) :: u32)"
    and "hi = (of_nat (length (concat (take (Suc i) segs))) :: u32)"
  have u: "unat lo = length (concat (take i segs))"
    "unat hi = length (concat (take i segs)) + length (segs ! i)"
    unfolding lo_def hi_def using unat_of_nat_small [OF l1] unat_of_nat_small [OF l2] s by simp_all
  then have le: "lo \<le> hi" by (simp add: word_le_nat_alt)
  have "take (length (segs ! i)) (drop (length (concat (take i segs))) (filter_block segs)) = segs ! i"
    unfolding filter_block_def by (subst c) simp
  then show ?thesis
    using filter_bounds [OF assms(1) i, folded lo_def hi_def] l le u
    by (simp add: filter_key_may_match_def filter_reader_def x i s flip: i_def)
qed

end

text \<open>A table being built: blocks at offsets, each with its keys.\<close>

fun add_blocks :: "filter_policy \<Rightarrow> (u64 \<times> slice list) list \<Rightarrow> FilterBlockBuilder \<Rightarrow> FilterBlockBuilder res" where
  "add_blocks policy [] b = Inr b"
| "add_blocks policy ((off, ks) # bs) b =
     bind_res (StartBlock policy b off) (\<lambda>b. add_blocks policy bs (foldl AddKey b ks))"

context filter_contract
begin

lemma AddKeys_ok:
  assumes "builder_ok policy b groups pending segs"
  shows "builder_ok policy (foldl AddKey b ks) groups (pending @ ks) segs"
  using assms
proof (induction ks arbitrary: b pending)
  case (Cons k ks)
  from Cons.IH [OF builder_ok_AddKey [OF Cons.prems, of k]] show ?case by simp
qed simp

lemma add_blocks_ok:
  assumes "builder_ok policy b groups pending segs" and "\<forall>k \<in> set pending. valid k"
    and "sorted (map fst bs)" and "\<forall>(off, ks) \<in> set bs. length groups \<le> unat off div kFilterBase"
    and "\<forall>(off, ks) \<in> set bs. \<forall>k \<in> set ks. valid k"
  shows "\<exists>b' groups' pending' segs'. add_blocks policy bs b = Inr b' \<and>
    builder_ok policy b' groups' pending' segs' \<and> (\<forall>k \<in> set pending'. valid k) \<and>
    located groups pending \<union> {(unat off div kFilterBase, k) | off ks k. (off, ks) \<in> set bs \<and> k \<in> set ks} =
      located groups' pending'"
  using assms
proof (induction bs arbitrary: b groups pending segs)
  case (Cons ok bs)
  obtain off ks where ok: "ok = (off, ks)" by (cases ok)
  obtain b1 groups1 pending1 segs1 where b1: "StartBlock policy b off = Inr b1"
    "builder_ok policy b1 groups1 pending1 segs1" "\<forall>k \<in> set pending1. valid k"
    "length groups1 = unat off div kFilterBase" "located groups1 pending1 = located groups pending"
    using StartBlock_ok [OF Cons.prems(1,2), of off] Cons.prems(4) ok by auto
  have add: "located groups1 (pending1 @ ks) =
      located groups pending \<union> {unat off div kFilterBase} \<times> set ks"
    using b1(4,5) by (auto simp: located_def)
  have later: "length groups1 \<le> unat off' div kFilterBase" if "(off', ks') \<in> set bs" for off' ks'
    using Cons.prems(3) that b1(4) ok by (force simp: word_le_nat_alt intro: div_le_mono)
  obtain b2 groups2 pending2 segs2 where "add_blocks policy bs (foldl AddKey b1 ks) = Inr b2"
    "builder_ok policy b2 groups2 pending2 segs2" "\<forall>k \<in> set pending2. valid k"
    and loc: "located groups1 (pending1 @ ks) \<union>
      {(unat off div kFilterBase, k) | off ks k. (off, ks) \<in> set bs \<and> k \<in> set ks} = located groups2 pending2"
    using Cons.IH [OF AddKeys_ok [OF b1(2)], of ks] Cons.prems(3,5) b1(3) later ok by fastforce
  moreover have "located groups pending \<union>
      {(unat off div kFilterBase, k) | off ks k. (off, ks) \<in> set (ok # bs) \<and> k \<in> set ks} =
      located groups2 pending2"
    unfolding loc [symmetric] add ok by auto
  ultimately show ?case using b1(1) unfolding ok by auto
qed auto

lemma filter_block_correct:
  assumes "sorted (map fst bs)" and "\<forall>(off, ks) \<in> set bs. \<forall>k \<in> set ks. valid k"
  shows "\<exists>b data. add_blocks policy bs new_FilterBlockBuilder = Inr b \<and> Finish policy b = Inr data \<and>
    (length data < 2 ^ 32 \<longrightarrow> (\<exists>r. new_FilterBlockReader data = Inr r \<and>
      (\<forall>(off, ks) \<in> set bs. \<forall>k \<in> set ks. filter_key_may_match policy r off k = Inr True)))"
proof -
  obtain b groups pending segs where b: "add_blocks policy bs new_FilterBlockBuilder = Inr b"
    "builder_ok policy b groups pending segs" "\<forall>k \<in> set pending. valid k"
    and loc: "{(unat off div kFilterBase, k) | off ks k. (off, ks) \<in> set bs \<and> k \<in> set ks} =
      located groups pending"
    using add_blocks_ok [OF builder_ok_new _ assms(1) _ assms(2)] by (auto simp: located_def)
  obtain segs' where f: "Finish policy b = Inr (filter_block segs')"
    "\<forall>(i, k) \<in> located groups pending. i < length segs' \<and> KeyMayMatch policy k (segs' ! i) = Inr True"
    using Finish_ok [OF b(2,3)] by blast
  have "filter_key_may_match policy (filter_reader segs') off k = Inr True"
    if "length (filter_block segs') < 2 ^ 32" "(off, ks) \<in> set bs" "k \<in> set ks" for off ks k
  proof -
    have "(unat off div kFilterBase, k) \<in> located groups pending" using that(2,3) loc by blast
    with f(2) have i: "unat off div kFilterBase < length segs'"
      "KeyMayMatch policy k (segs' ! (unat off div kFilterBase)) = Inr True" by auto
    with reader_match [OF that(1) i(1)] show ?thesis by simp
  qed
  then show ?thesis using b(1) f(1) read_filter_block [of segs'] by fastforce
qed

end

subsection \<open>Properties\<close>

text \<open>
  C32: the filter block of a table never loses a key: over the filter policy of internal keys with
  Bloom filters, building the block for blocks at ascending offsets runs to its end, no assertion
  of \<open>StartBlock\<close> failing, and the reader of the finished block (below 4 GB) answers for each key
  and the offset of its block that the key may match.
\<close>

theorem filter_block_no_false_negative:
  assumes "sorted (map fst bs)" and "\<forall>(off, ks) \<in> set bs. \<forall>k \<in> set ks. 8 \<le> length k"
  shows "\<exists>b data. add_blocks (InternalFilterPolicy (NewBloomFilterPolicy n)) bs new_FilterBlockBuilder = Inr b \<and>
    Finish (InternalFilterPolicy (NewBloomFilterPolicy n)) b = Inr data \<and>
    (length data < 2 ^ 32 \<longrightarrow> (\<exists>r. new_FilterBlockReader data = Inr r \<and>
      (\<forall>(off, ks) \<in> set bs. \<forall>k \<in> set ks.
        filter_key_may_match (InternalFilterPolicy (NewBloomFilterPolicy n)) r off k = Inr True)))"
  using internal_bloom.filter_block_correct [of bs n] assms by (simp add: internal_valid_def)

theorem filter_block_no_false_negative_witness:
  "\<exists>b data. add_blocks (InternalFilterPolicy (NewBloomFilterPolicy 10))
      [(0, [[1, 1, 0, 0, 0, 0, 0, 0, 0]]), (5000, [[2, 1, 0, 0, 0, 0, 0, 0, 0]])] new_FilterBlockBuilder = Inr b \<and>
    Finish (InternalFilterPolicy (NewBloomFilterPolicy 10)) b = Inr data"
  using filter_block_no_false_negative [of
      "[(0, [[1, 1, 0, 0, 0, 0, 0, 0, 0]]), (5000, [[2, 1, 0, 0, 0, 0, 0, 0, 0]])]" 10]
  by auto

end
