(* ===== verification/Status.thy ===== *)
theory Status
  imports Coding Cpp_Std
begin

section \<open>Statuses and files\<close>

text \<open>
  \<open>leveldb-mcpe/include/leveldb/status.h\<close> and \<open>util/status.cc\<close>: the outcome of an operation, kept
  as the bytes the class keeps; and the interfaces of \<open>include/leveldb/env.h\<close> that the log uses, as
  records of operations over a state, with the contract of a file as a locale.
\<close>

subsection \<open>Statuses\<close>

datatype Code = kOk | kNotFound | kCorruption | kNotSupported | kInvalidArgument | kIOError

definition code_number :: "Code \<Rightarrow> int" where
  "code_number c = (case c of kOk \<Rightarrow> 0 | kNotFound \<Rightarrow> 1 | kCorruption \<Rightarrow> 2 | kNotSupported \<Rightarrow> 3
     | kInvalidArgument \<Rightarrow> 4 | kIOError \<Rightarrow> 5)"

text \<open>\<open>state_\<close>: \<open>NULL\<close>, or the length of the message, the code and the message.\<close>

type_synonym Status = "slice option"

definition OK :: Status where
  "OK = None"

definition new_Status :: "Code \<Rightarrow> slice \<Rightarrow> slice \<Rightarrow> Status res" where
  "new_Status c msg msg2 =
     bind_res (guard_res (c \<noteq> kOk) AssertFail) (\<lambda>_.
     let len1 = (of_nat (length msg) :: u32); len2 = (of_nat (length msg2) :: u32);
         size = len1 + (if len2 \<noteq> 0 then 2 + len2 else 0) in
     Inr (Some (EncodeFixed32 size @ [of_int (code_number c)] @ take (unat len1) msg @
       (if len2 \<noteq> 0 then map char_byte '': '' @ take (unat len2) msg2 else []))))"

definition NotFound :: "slice \<Rightarrow> slice \<Rightarrow> Status res" where
  "NotFound msg msg2 = new_Status kNotFound msg msg2"

definition Corruption :: "slice \<Rightarrow> slice \<Rightarrow> Status res" where
  "Corruption msg msg2 = new_Status kCorruption msg msg2"

definition NotSupported :: "slice \<Rightarrow> slice \<Rightarrow> Status res" where
  "NotSupported msg msg2 = new_Status kNotSupported msg msg2"

definition InvalidArgument :: "slice \<Rightarrow> slice \<Rightarrow> Status res" where
  "InvalidArgument msg msg2 = new_Status kInvalidArgument msg msg2"

definition IOError :: "slice \<Rightarrow> slice \<Rightarrow> Status res" where
  "IOError msg msg2 = new_Status kIOError msg msg2"

definition ok :: "Status \<Rightarrow> bool" where
  "ok s \<longleftrightarrow> s = None"

text \<open>The number of the code: the byte is a signed \<open>char\<close>; casting it to \<open>Code\<close> does not change it.\<close>

definition status_code :: "Status \<Rightarrow> int res" where
  "status_code s = (case s of None \<Rightarrow> Inr (code_number kOk)
     | Some st \<Rightarrow> bind_res (vec_at st 4) (\<lambda>b. Inr (sint b)))"

definition IsNotFound :: "Status \<Rightarrow> bool res" where
  "IsNotFound s = bind_res (status_code s) (\<lambda>c. Inr (c = code_number kNotFound))"

definition IsCorruption :: "Status \<Rightarrow> bool res" where
  "IsCorruption s = bind_res (status_code s) (\<lambda>c. Inr (c = code_number kCorruption))"

definition IsIOError :: "Status \<Rightarrow> bool res" where
  "IsIOError s = bind_res (status_code s) (\<lambda>c. Inr (c = code_number kIOError))"

definition IsNotSupportedError :: "Status \<Rightarrow> bool res" where
  "IsNotSupportedError s = bind_res (status_code s) (\<lambda>c. Inr (c = code_number kNotSupported))"

definition IsInvalidArgument :: "Status \<Rightarrow> bool res" where
  "IsInvalidArgument s = bind_res (status_code s) (\<lambda>c. Inr (c = code_number kInvalidArgument))"

text \<open>The copy reads the length, then that many bytes and five more.\<close>

definition CopyState :: "slice \<Rightarrow> slice res" where
  "CopyState state =
     bind_res (DecodeFixed32 state) (\<lambda>size.
     bind_res (guard_res (unat (size + 5) \<le> length state) Undefined) (\<lambda>_.
       Inr (take (unat (size + 5)) state)))"

definition copy_Status :: "Status \<Rightarrow> Status res" where
  "copy_Status s = (case s of None \<Rightarrow> Inr None
     | Some st \<Rightarrow> bind_res (CopyState st) (\<lambda>st. Inr (Some st)))"

definition code_text :: "int \<Rightarrow> string" where
  "code_text c =
     (if c = 0 then ''OK''
      else if c = 1 then ''NotFound: ''
      else if c = 2 then ''Corruption: ''
      else if c = 3 then ''Not implemented: ''
      else if c = 4 then ''Invalid argument: ''
      else if c = 5 then ''IO error: ''
      else ''Unknown code('' @ int_to_string c @ ''): '')"

definition Status_ToString :: "Status \<Rightarrow> slice res" where
  "Status_ToString s = (case s of
     None \<Rightarrow> Inr (map char_byte ''OK'')
   | Some st \<Rightarrow>
       bind_res (status_code s) (\<lambda>c.
       bind_res (DecodeFixed32 st) (\<lambda>len.
       bind_res (guard_res (5 + unat len \<le> length st) Undefined) (\<lambda>_.
         Inr (map char_byte (code_text c) @ take (unat len) (drop 5 st))))))"

text \<open>A status of a message, as the components below make them, and its copy, code and text.\<close>

definition status_of :: "Code \<Rightarrow> slice \<Rightarrow> Status" where
  "status_of c msg = Some (EncodeFixed32 (of_nat (length msg)) @ of_int (code_number c) # msg)"

lemma status_of_not_ok [simp]: "\<not> ok (status_of c msg)" "ok OK" "ok None"
  by (simp_all add: ok_def status_of_def OK_def)

lemma sint_code [simp]: "sint (of_int (code_number c) :: byte) = code_number c"
  by (cases c) (simp_all add: code_number_def)

lemma code_number_inj [simp]: "code_number c = code_number d \<longleftrightarrow> c = d"
  by (auto simp: code_number_def split: Code.splits)

lemma new_Status_one:
  assumes "c \<noteq> kOk" and "length msg < 2 ^ 32"
  shows "new_Status c msg [] = Inr (status_of c msg)"
  using assms by (simp add: new_Status_def status_of_def unat_of_nat_small)

lemma new_Status_two:
  assumes "c \<noteq> kOk" and "length msg + length msg2 + 2 < 2 ^ 32" and "msg2 \<noteq> []"
  shows "new_Status c msg msg2 = Inr (status_of c (msg @ map char_byte '': '' @ msg2))"
proof -
  have "unat (of_nat (length msg2) :: u32) = length msg2"
    using assms(2) by (intro unat_of_nat_small) simp
  then have "(of_nat (length msg2) :: u32) \<noteq> 0" using assms(3) by force
  then show ?thesis
    using assms by (simp add: new_Status_def status_of_def unat_of_nat_small add.left_commute)
qed

lemma status_code_status_of [simp]: "status_code (status_of c msg) = Inr (code_number c)"
  by (simp add: status_code_def status_of_def vec_at_def nth_append)

lemma CopyState_status_of:
  assumes "length msg + 5 < 2 ^ 32"
  shows "copy_Status (status_of c msg) = Inr (status_of c msg)"
proof -
  have "(of_nat (length msg) :: u32) + 5 = of_nat (length msg + 5)" by simp
  then have "unat ((of_nat (length msg) :: u32) + 5) = length msg + 5"
    by (simp only: unat_of_nat_small [OF assms])
  then show ?thesis by (simp add: copy_Status_def CopyState_def status_of_def)
qed

lemma ToString_status_of:
  assumes "length msg < 2 ^ 32"
  shows "Status_ToString (status_of c msg) = Inr (map char_byte (code_text (code_number c)) @ msg)"
proof -
  define st where "st = EncodeFixed32 (of_nat (length msg)) @ of_int (code_number c) # msg"
  have "status_code (Some st) = Inr (code_number c)"
    using status_code_status_of [of c msg] by (simp add: status_of_def st_def)
  then show ?thesis
    using assms by (simp add: Status_ToString_def status_of_def unat_of_nat_small
      flip: st_def) (simp add: st_def unat_of_nat_small)
qed

text \<open>
  a status keeps what it was made of: with messages that fit the 32-bit length, the constructor
  succeeds for every code but \<open>kOk\<close>, the code is read back, a copy equals the original and does not
  read past its end, and the text is the name of the code followed by the two messages.
\<close>

theorem status_roundtrip:
  assumes "c \<noteq> kOk" and "length msg + length msg2 + 7 < 2 ^ 32"
  shows "\<exists>s. new_Status c msg msg2 = Inr s \<and> \<not> ok s \<and> status_code s = Inr (code_number c) \<and>
    copy_Status s = Inr s \<and>
    Status_ToString s = Inr (map char_byte (code_text (code_number c)) @ msg @
      (if msg2 = [] then [] else map char_byte '': '' @ msg2))"
proof (cases "msg2 = []")
  case True
  then show ?thesis
    using assms new_Status_one [of c msg] CopyState_status_of [of msg c] ToString_status_of [of msg c]
    by auto
next
  case False
  let ?m = "msg @ map char_byte '': '' @ msg2"
  have "length ?m + 5 < 2 ^ 32" "length msg + length msg2 + 2 < 2 ^ 32" using assms(2) by simp_all
  then show ?thesis
    using new_Status_two [OF assms(1) _ False, of msg] CopyState_status_of [of ?m c]
      ToString_status_of [of ?m c] False by auto
qed

theorem status_roundtrip_witness:
  "\<exists>s. new_Status kIOError [102] [120] = Inr s \<and> Status_ToString s = Inr (map char_byte ''IO error: f: x'')"
  using status_roundtrip [of kIOError "[102]" "[120]"]
  by (auto simp: code_number_def code_text_def char_byte_def)

end
