(* ===== verification/Mem_File.thy ===== *)
theory Mem_File
  imports Status
begin

section \<open>Files\<close>

text \<open>
  The file interfaces of \<open>leveldb-mcpe/include/leveldb/env.h\<close> that the log uses, as records of
  operations over a state with their contracts as locales, and the objects \<open>FileState\<close> of
  \<open>helpers/memenv/memenv.cc\<close>: files as lists of blocks of 8 KiB. Sizes and positions are below
  \<open>2 ^ 64\<close> and are natural numbers.
\<close>

subsection \<open>The interfaces\<close>

text \<open>
  \<open>Read\<close> gets the number of bytes and the slice \<open>*result\<close> refers to, and returns the slice it
  refers to afterwards.
\<close>

record 's SequentialFile =
  sf_Read :: "nat \<Rightarrow> slice \<Rightarrow> 's \<Rightarrow> (Status \<times> slice \<times> 's) res"
  sf_Skip :: "nat \<Rightarrow> 's \<Rightarrow> (Status \<times> 's) res"

record 's WritableFile =
  wf_Append :: "slice \<Rightarrow> 's \<Rightarrow> (Status \<times> 's) res"
  wf_Flush :: "'s \<Rightarrow> (Status \<times> 's) res"

text \<open>
  A file that can be read: \<open>rest\<close> is what follows its position. A file that can be written:
  \<open>contents\<close> is what was appended.
\<close>

locale sequential_file =
  fixes f :: "'s SequentialFile" and inv :: "'s \<Rightarrow> bool" and rest :: "'s \<Rightarrow> slice"
  assumes read: "inv s \<Longrightarrow> \<exists>s'. sf_Read f n r s = Inr (OK, take n (rest s), s') \<and> inv s' \<and>
      rest s' = drop n (rest s)"
    and skip: "inv s \<Longrightarrow> \<exists>s'. sf_Skip f n s = Inr (OK, s') \<and> inv s' \<and> rest s' = drop n (rest s)"

locale writable_file =
  fixes f :: "'s WritableFile" and inv :: "'s \<Rightarrow> bool" and contents :: "'s \<Rightarrow> slice"
  assumes append: "inv s \<Longrightarrow> \<exists>s'. wf_Append f d s = Inr (OK, s') \<and> inv s' \<and>
      contents s' = contents s @ d"
    and flush: "inv s \<Longrightarrow> \<exists>s'. wf_Flush f s = Inr (OK, s') \<and> inv s' \<and> contents s' = contents s"

subsection \<open>The state of a file\<close>

definition mem_kBlockSize :: nat where
  "mem_kBlockSize = 8 * 1024"

text \<open>A block from \<open>new char[kBlockSize]\<close>; \<open>None\<close> is a byte not written yet.\<close>

type_synonym block = "byte option list"

definition new_block :: block where
  "new_block = replicate mem_kBlockSize None"

definition memcpy_to :: "block \<Rightarrow> nat \<Rightarrow> slice \<Rightarrow> block res" where
  "memcpy_to b offset src =
     bind_res (guard_res (offset + length src \<le> length b) Undefined) (\<lambda>_.
       Inr (take offset b @ map Some src @ drop (offset + length src) b))"

definition memcpy_from :: "block \<Rightarrow> nat \<Rightarrow> nat \<Rightarrow> slice res" where
  "memcpy_from b offset n =
     bind_res (guard_res (offset + n \<le> length b) Undefined) (\<lambda>_.
     let bs = take n (drop offset b) in
     bind_res (guard_res (None \<notin> set bs) Undefined) (\<lambda>_. Inr (map the bs)))"

record FileState =
  refs :: int
  file_blocks :: "block list"
  file_size :: nat

definition new_FileState :: FileState where
  "new_FileState = \<lparr>refs = 0, file_blocks = [], file_size = 0\<rparr>"

text \<open>The loop of \<open>Read\<close> over the blocks from the one of the offset on.\<close>

fun read_blocks :: "block list \<Rightarrow> nat \<Rightarrow> nat \<Rightarrow> slice res" where
  "read_blocks bs block_offset 0 = Inr []"
| "read_blocks [] block_offset (Suc n) = Inl Undefined"
| "read_blocks (b # bs) block_offset (Suc n) =
     (let avail = mem_kBlockSize - block_offset; avail = (if avail > Suc n then Suc n else avail) in
      bind_res (memcpy_from b block_offset avail) (\<lambda>x.
      bind_res (read_blocks bs 0 (Suc n - avail)) (\<lambda>y. Inr (x @ y))))"

definition FileState_Read :: "FileState \<Rightarrow> nat \<Rightarrow> nat \<Rightarrow> slice \<Rightarrow> (Status \<times> slice) res" where
  "FileState_Read f offset n result =
     (if offset > file_size f then
        bind_res (IOError (map char_byte ''Offset greater than file size.'') []) (\<lambda>s. Inr (s, result))
      else
        let available = file_size f - offset; n = (if n > available then available else n) in
        if n = 0 then Inr (OK, [])
        else
          let block = offset div mem_kBlockSize; block_offset = offset mod mem_kBlockSize in
          if n \<le> mem_kBlockSize - block_offset then
            bind_res (vec_at (file_blocks f) (int block)) (\<lambda>b.
            bind_res (memcpy_from b block_offset n) (\<lambda>r. Inr (OK, r)))
          else bind_res (read_blocks (drop block (file_blocks f)) block_offset n) (\<lambda>r. Inr (OK, r)))"

function append_loop :: "FileState \<Rightarrow> slice \<Rightarrow> FileState res" where
  "append_loop f src =
     (if src = [] then Inr f
      else
        let offset = file_size f mod mem_kBlockSize;
            f = (if offset \<noteq> 0 then f else f\<lparr>file_blocks := file_blocks f @ [new_block]\<rparr>);
            avail = (if offset \<noteq> 0 then mem_kBlockSize - offset else mem_kBlockSize);
            avail = (if avail > length src then length src else avail) in
        bind_res (guard_res (file_blocks f \<noteq> []) Undefined) (\<lambda>_.
        bind_res (memcpy_to (last (file_blocks f)) offset (take avail src)) (\<lambda>b.
          append_loop (f\<lparr>file_blocks := butlast (file_blocks f) @ [b],
            file_size := file_size f + avail\<rparr>) (drop avail src))))"
  by pat_completeness auto
termination
proof (relation "measure (\<lambda>(f, src). length src)", goal_cases)
  case (2 f src)
  have "file_size f mod mem_kBlockSize < mem_kBlockSize" by (simp add: mem_kBlockSize_def)
  moreover have "0 < mem_kBlockSize" by (simp add: mem_kBlockSize_def)
  ultimately show ?case using 2 by simp
qed simp

declare append_loop.simps [simp del]

definition FileState_Append :: "FileState \<Rightarrow> slice \<Rightarrow> (Status \<times> FileState) res" where
  "FileState_Append f data = bind_res (append_loop f data) (\<lambda>f. Inr (OK, f))"

text \<open>What a file holds: the bytes appended to it, block after block.\<close>

definition file_holds :: "FileState \<Rightarrow> slice \<Rightarrow> bool" where
  "file_holds f data \<longleftrightarrow> file_size f = length data \<and>
     (\<forall>b \<in> set (file_blocks f). length b = mem_kBlockSize) \<and>
     (\<exists>k < mem_kBlockSize. concat (file_blocks f) = map Some data @ replicate k None)"

lemma kBlockSize_pos [simp]: "0 < mem_kBlockSize"
  by (simp add: mem_kBlockSize_def)

lemma memcpy_step:
  assumes bs: "bs \<noteq> []" "\<forall>b \<in> set bs. length b = mem_kBlockSize"
    and c: "concat bs = map Some d @ replicate k None"
    and k: "k \<le> mem_kBlockSize" "length xs \<le> k"
  shows "\<exists>b. memcpy_to (last bs) (mem_kBlockSize - k) xs = Inr b \<and> length b = mem_kBlockSize \<and>
    concat (butlast bs @ [b]) = map Some (d @ xs) @ replicate (k - length xs) None"
proof -
  let ?B = mem_kBlockSize and ?p = "concat (butlast bs)" and ?l = "last bs"
  have l: "length ?l = ?B" using bs by simp
  have split: "concat bs = ?p @ ?l"
    using bs(1) by (metis append_butlast_last_id concat.simps concat_append append_Nil2)
  have len: "length ?p + ?B = length d + k" using arg_cong [OF c, of length] l by (simp add: split)
  then have o: "length ?p + (?B - k) = length d" using k(1) by simp
  have "?p @ take (?B - k) ?l = take (length ?p + (?B - k)) (concat bs)" by (simp add: split)
  also have "\<dots> = map Some d" by (simp add: c o)
  finally have 1: "?p @ take (?B - k) ?l = map Some d" .
  have "drop (?B - k + length xs) ?l = drop (length ?p + (?B - k) + length xs) (concat bs)"
    by (simp add: split add.assoc)
  also have "\<dots> = replicate (k - length xs) None" by (simp add: c o)
  finally have 2: "drop (?B - k + length xs) ?l = replicate (k - length xs) None" .
  let ?b = "take (?B - k) ?l @ map Some xs @ drop (?B - k + length xs) ?l"
  have "?B - k + length xs \<le> length ?l" using k by (simp add: l)
  then have "memcpy_to ?l (?B - k) xs = Inr ?b \<and> length ?b = ?B"
    using l by (simp add: memcpy_to_def)
  moreover have "concat (butlast bs @ [?b]) = map Some (d @ xs) @ replicate (k - length xs) None"
    using 1 by (simp add: 2)
  ultimately show ?thesis by blast
qed

lemma holds_new [simp]: "file_holds new_FileState []"
  by (auto simp: file_holds_def new_FileState_def)

lemma holds_offset:
  assumes "\<forall>b \<in> set bs. length b = mem_kBlockSize" "concat bs = map Some d @ replicate k None" "k < mem_kBlockSize"
  shows "length d mod mem_kBlockSize = (if k = 0 then 0 else mem_kBlockSize - k)"
proof -
  have "length (concat bs) = length bs * mem_kBlockSize" using assms(1) by (induction bs) auto
  then have e: "length d + k = length bs * mem_kBlockSize" using assms(2) by simp
  show ?thesis
  proof (cases "k = 0")
    case False
    with e assms(3) have "0 < length bs" by (cases bs) auto
    then obtain n where "length bs = Suc n" by (cases "length bs") auto
    with e assms(3) have "length d = (mem_kBlockSize - k) + n * mem_kBlockSize" by simp
    then show ?thesis using False assms(3) by (simp only: mod_mult_self1) simp
  qed (use e in simp)
qed

lemma append_loop_holds:
  "file_holds f d \<Longrightarrow> \<exists>f'. append_loop f src = Inr f' \<and> file_holds f' (d @ src) \<and> refs f' = refs f"
proof (induction "length src" arbitrary: f d src rule: less_induct)
  case less
  show ?case
  proof (cases "src = []")
    case False
    let ?B = mem_kBlockSize
    from less.prems obtain k where h: "file_size f = length d" "\<forall>b \<in> set (file_blocks f). length b = ?B"
      "k < ?B" "concat (file_blocks f) = map Some d @ replicate k None"
      by (auto simp: file_holds_def)
    define offset where "offset = file_size f mod ?B"
    define k' where "k' = (if k = 0 then ?B else k)"
    define g where "g = (if offset \<noteq> 0 then f else f\<lparr>file_blocks := file_blocks f @ [new_block]\<rparr>)"
    define avail where "avail = (if k' > length src then length src else k')"
    have o: "offset = (if k = 0 then 0 else ?B - k)"
      using holds_offset [OF h(2,4,3)] h(1) by (simp add: offset_def)
    have k0: "offset \<noteq> 0 \<longleftrightarrow> k \<noteq> 0" using o h(3) by simp
    have off: "offset = ?B - k'" "k' \<le> ?B" "0 < k'" "avail \<le> k'" "length (take avail src) = avail"
      using o h(3) by (auto simp: k'_def avail_def)
    have g: "file_blocks g \<noteq> []" "\<forall>b \<in> set (file_blocks g). length b = ?B"
      "concat (file_blocks g) = map Some d @ replicate k' None" "refs g = refs f" "file_size g = length d"
      using h k0 by (auto simp: g_def k'_def new_block_def split: if_splits)
    from memcpy_step [OF g(1-3) off(2), of "take avail src"] off obtain b where
      b: "memcpy_to (last (file_blocks g)) offset (take avail src) = Inr b" "length b = ?B"
        "concat (butlast (file_blocks g) @ [b]) = map Some (d @ take avail src) @ replicate (k' - avail) None"
      by auto
    define f2 where "f2 = g\<lparr>file_blocks := butlast (file_blocks g) @ [b], file_size := file_size g + avail\<rparr>"
    have pos: "0 < avail" using False off(3) by (simp add: avail_def)
    have "file_holds f2 (d @ take avail src)"
      using g b off pos by (auto simp: f2_def file_holds_def dest: in_set_butlastD intro!: exI [of _ "k' - avail"])
    moreover have av: "(if (if offset \<noteq> 0 then ?B - offset else ?B) > length src then length src
        else (if offset \<noteq> 0 then ?B - offset else ?B)) = avail"
      using k0 o h(3) by (auto simp: avail_def k'_def)
    have "append_loop f src = append_loop f2 (drop avail src)"
      by (subst append_loop.simps)
        (simp only: Let_def offset_def [symmetric] av g_def [symmetric] False if_False b(1) bind_res_Inr
          f2_def [symmetric] g(1) guard_res_simps not_False_eq_True)
    moreover have "length (drop avail src) < length src" using pos False by simp
    ultimately show ?thesis using less.hyps [of "drop avail src" f2 "d @ take avail src"] g(4)
      by (auto simp: f2_def)
  qed (use less.prems in \<open>simp add: append_loop.simps\<close>)
qed

lemma drop_concat:
  "\<forall>b \<in> set bs. length b = n \<Longrightarrow> 0 < n \<Longrightarrow> drop i (concat bs) = drop (i mod n) (concat (drop (i div n) bs))"
proof (induction bs arbitrary: i)
  case (Cons b bs)
  show ?case
  proof (cases "i < n")
    case False
    then obtain j where "i = n + j" by (metis le_Suc_ex not_less)
    moreover from this have "i div n = Suc (j div n)" "i mod n = j mod n"
      using Cons.prems(2) by (simp_all add: div_add_self1)
    ultimately show ?thesis using Cons by simp
  qed (use Cons.prems in simp)
qed simp

lemma read_blocks_eq:
  assumes "\<forall>b \<in> set bs. length b = mem_kBlockSize" and "off < mem_kBlockSize"
    and "take n (drop off (concat bs)) = map Some x" and "length x = n"
  shows "read_blocks bs off n = Inr x"
  using assms
proof (induction bs arbitrary: off n x)
  case (Cons b bs)
  show ?case
  proof (cases n)
  case (Suc m)
    define av where "av = (if mem_kBlockSize - off > n then n else mem_kBlockSize - off)"
  have b: "length b = mem_kBlockSize" using Cons.prems(1) by simp
  have o: "off + av \<le> mem_kBlockSize" "0 < av" "av \<le> n" using Cons.prems(2) Suc by (auto simp: av_def)
  have "take (n) (drop off (concat (b # bs))) = take (n) (drop off b @ concat bs)"
    using b Cons.prems(2) by simp
  also have "\<dots> = take av (drop off b) @ take (n - av) (concat bs)"
    using o b by (auto simp: av_def not_less)
  finally have t: "take av (drop off b) @ take (n - av) (concat bs) = map Some x"
    using Cons.prems(3) by simp
  have l: "length (take av (drop off b)) = av" using o b by simp
  have t1: "take av (drop off b) = map Some (take av x)"
    using arg_cong [OF t, of "take av"] l by (simp add: take_map)
  have t2: "take (n - av) (concat bs) = map Some (drop av x)"
    using arg_cong [OF t, of "drop av"] l by (simp add: drop_map)
  have "memcpy_from b off av = Inr (take av x)"
    using o b by (simp add: memcpy_from_def t1 comp_def image_iff)
  moreover have "read_blocks bs 0 (n - av) = Inr (drop av x)"
    using Cons.IH [of 0 "n - av" "drop av x"] Cons.prems(1,4) t2 by simp
  moreover have "read_blocks (b # bs) off n =
      bind_res (memcpy_from b off av) (\<lambda>x. bind_res (read_blocks bs 0 (n - av)) (\<lambda>y. Inr (x @ y)))"
    by (simp only: Suc read_blocks.simps Let_def av_def)
  ultimately show ?thesis by simp
  qed (use Cons.prems in simp)
qed (use assms in \<open>auto split: nat.splits\<close>)

lemma FileState_Read_holds:
  assumes "file_holds f d" and "offset \<le> length d"
  shows "FileState_Read f offset n r = Inr (OK, take n (drop offset d))"
proof -
  let ?B = mem_kBlockSize and ?bs = "file_blocks f"
  from assms obtain k where h: "file_size f = length d" "\<forall>b \<in> set ?bs. length b = ?B"
    "concat ?bs = map Some d @ replicate k None"
    by (auto simp: file_holds_def)
  define m where "m = (if n > length d - offset then length d - offset else n)"
  have m: "take n (drop offset d) = take m (drop offset d)" "length (take m (drop offset d)) = m"
    "m \<le> length d - offset" using assms(2) by (auto simp: m_def)
  let ?x = "take m (drop offset d)" and ?ds = "drop (offset div ?B) ?bs"
  have o: "offset mod ?B < ?B" by simp
  have "drop (offset mod ?B) (concat ?ds) = drop offset (concat ?bs)"
    using drop_concat [OF h(2) kBlockSize_pos, of offset] by simp
  also have "take m \<dots> = map Some ?x"
    using assms(2) m(3) by (simp add: h(3) take_map drop_map)
  finally have t: "take m (drop (offset mod ?B) (concat ?ds)) = map Some ?x" .
  have ds: "\<forall>b \<in> set ?ds. length b = ?B" using h(2) by (auto dest: in_set_dropD)
  have rb: "read_blocks ?ds (offset mod ?B) m = Inr ?x"
    by (rule read_blocks_eq [OF ds o t m(2)])
  have one: "\<exists>b. vec_at ?bs (int (offset div ?B)) = Inr b \<and> memcpy_from b (offset mod ?B) m = Inr ?x"
    if "m \<noteq> 0" "m \<le> ?B - offset mod ?B"
  proof -
    from t m(2) that(1) have "?ds \<noteq> []" by (metis concat.simps(1) drop_Nil length_0_conv list.map_disc_iff take_Nil)
    then obtain b bs where b: "?ds = b # bs" by (cases ?ds) auto
    then have i: "offset div ?B < length ?bs" "?bs ! (offset div ?B) = b"
      by (metis drop_all length_Cons linorder_not_less list.size(3) nat.simps(3), metis Cons_nth_drop_Suc b drop_all linorder_not_less list.distinct(1) list.inject)
    have "length b = ?B" "offset mod ?B + m \<le> ?B" using ds b o that(2) by (simp, linarith)
    then show ?thesis using i t by (auto simp: b memcpy_from_def comp_def image_iff)
  qed
  show ?thesis
    using assms(2) one rb m(1) unfolding FileState_Read_def h(1) Let_def m_def [symmetric]
    by (auto simp: OK_def)
qed

end
