(* ===== verification/Log.thy ===== *)
theory Log
  imports Mem_File Crc32c
begin

section \<open>The log\<close>

text \<open>
  \<open>leveldb-mcpe/db/log_format.h\<close>, \<open>log_writer.cc\<close>, \<open>log_reader.h\<close> and \<open>log_reader.cc\<close>: records cut
  into fragments that do not cross a block of 32 KiB, each with a checksum, a length and a type. The
  file and what \<open>port::AcceleratedCRC32C\<close> answers (\<open>acc\<close>) are parameters. The checksum does not
  depend on where its bytes are, so the address of a buffer is 0.
\<close>

lemma Extend_address: "Extend acc p c b = Extend acc q c b"
  by (cases "CanAccelerateCRC32C acc") (simp_all add: Extend_reference, simp add: Extend_def)

subsection \<open>The format\<close>

datatype RecordType = kZeroType | kFullType | kFirstType | kMiddleType | kLastType

definition type_number :: "RecordType \<Rightarrow> nat" where
  "type_number t = (case t of kZeroType \<Rightarrow> 0 | kFullType \<Rightarrow> 1 | kFirstType \<Rightarrow> 2 | kMiddleType \<Rightarrow> 3
     | kLastType \<Rightarrow> 4)"

definition kMaxRecordType :: nat where
  "kMaxRecordType = type_number kLastType"

definition kBlockSize :: nat where
  "kBlockSize = 32768"

definition kHeaderSize :: nat where
  "kHeaderSize = 4 + 2 + 1"

subsection \<open>The writer\<close>

record Writer =
  block_offset :: nat
  type_crc :: "u32 list"

definition InitTypeCrc :: "(u32 \<Rightarrow> slice \<Rightarrow> u32) \<Rightarrow> u32 list" where
  "InitTypeCrc acc = map (\<lambda>i. crc_value acc 0 [of_nat i]) [0..<Suc kMaxRecordType]"

definition new_Writer :: "(u32 \<Rightarrow> slice \<Rightarrow> u32) \<Rightarrow> Writer" where
  "new_Writer acc = \<lparr>block_offset = 0, type_crc = InitTypeCrc acc\<rparr>"

definition new_Writer_at :: "(u32 \<Rightarrow> slice \<Rightarrow> u32) \<Rightarrow> nat \<Rightarrow> Writer" where
  "new_Writer_at acc dest_length =
     \<lparr>block_offset = dest_length mod kBlockSize, type_crc = InitTypeCrc acc\<rparr>"

definition EmitPhysicalRecord :: "(u32 \<Rightarrow> slice \<Rightarrow> u32) \<Rightarrow> 's WritableFile \<Rightarrow> RecordType \<Rightarrow> slice \<Rightarrow> Writer
    \<Rightarrow> 's \<Rightarrow> (Status \<times> Writer \<times> 's) res" where
  "EmitPhysicalRecord acc dest t ptr w s =
     (let n = length ptr in
      bind_res (guard_res (n \<le> 0xffff) AssertFail) (\<lambda>_.
      bind_res (guard_res (block_offset w + kHeaderSize + n \<le> kBlockSize) AssertFail) (\<lambda>_.
      bind_res (vec_at (type_crc w) (int (type_number t))) (\<lambda>tc.
      let crc = Mask (Extend acc 0 tc ptr);
          buf = EncodeFixed32 crc @ [of_nat (n mod 256), of_nat (n div 256), of_nat (type_number t)] in
      bind_res (wf_Append dest buf s) (\<lambda>(st, s).
      bind_res
        (if ok st then
           bind_res (wf_Append dest ptr s) (\<lambda>(st, s).
             if ok st then wf_Flush dest s else Inr (st, s))
         else Inr (st, s)) (\<lambda>(st, s).
        Inr (st, w\<lparr>block_offset := block_offset w + kHeaderSize + n\<rparr>, s)))))))"

lemma Emit_block_offset:
  "EmitPhysicalRecord acc dest t ptr w s = Inr (st, w', s') \<Longrightarrow>
    w' = w\<lparr>block_offset := block_offset w + kHeaderSize + length ptr\<rparr>"
  by (auto simp: EmitPhysicalRecord_def Let_def res_simps split: prod.splits)

definition fragment_type :: "bool \<Rightarrow> bool \<Rightarrow> RecordType" where
  "fragment_type beg end' =
     (if beg \<and> end' then kFullType else if beg then kFirstType else if end' then kLastType
      else kMiddleType)"

text \<open>
  The \<open>do ... while\<close> loop of \<open>AddRecord\<close>; \<open>ptr\<close> is what is left of the record. The fragment of a
  block with exactly a header left is empty.
\<close>

function add_fragments :: "(u32 \<Rightarrow> slice \<Rightarrow> u32) \<Rightarrow> 's WritableFile \<Rightarrow> bool \<Rightarrow> slice \<Rightarrow> Writer \<Rightarrow> 's
    \<Rightarrow> (Status \<times> Writer \<times> 's) res" where
  "add_fragments acc dest beg ptr w s =
     bind_res (guard_res (block_offset w \<le> kBlockSize) AssertFail) (\<lambda>_.
     let leftover = kBlockSize - block_offset w in
     bind_res
       (if leftover < kHeaderSize then
          bind_res (if leftover > 0 then wf_Append dest (replicate leftover 0) s else Inr (OK, s))
            (\<lambda>(_, s). Inr (0, s))
        else Inr (block_offset w, s)) (\<lambda>(off, s).
     let w = w\<lparr>block_offset := off\<rparr> in
     bind_res (guard_res (off + kHeaderSize \<le> kBlockSize) AssertFail) (\<lambda>_.
     let avail = kBlockSize - off - kHeaderSize;
         fragment_length = (if length ptr < avail then length ptr else avail);
         end' = (length ptr = fragment_length) in
     bind_res (EmitPhysicalRecord acc dest (fragment_type beg end') (take fragment_length ptr) w s)
       (\<lambda>(st, w, s).
     let ptr = drop fragment_length ptr in
       if ok st \<and> length ptr > 0 then add_fragments acc dest False ptr w s else Inr (st, w, s)))))"
  by pat_completeness auto
termination
proof (relation "measure (\<lambda>(acc, dest, beg, ptr, w, s).
      2 * length ptr + (if block_offset w + kHeaderSize = kBlockSize then 1 else 0))", goal_cases)
  case 2
  then show ?case
    by (auto dest!: Emit_block_offset simp: guard_res_def res_simps split: if_splits)
      (auto simp: kHeaderSize_def kBlockSize_def)
qed simp

declare add_fragments.simps [simp del]

definition AddRecord :: "(u32 \<Rightarrow> slice \<Rightarrow> u32) \<Rightarrow> 's WritableFile \<Rightarrow> slice \<Rightarrow> Writer \<Rightarrow> 's
    \<Rightarrow> (Status \<times> Writer \<times> 's) res" where
  "AddRecord acc dest rec w s = add_fragments acc dest True rec w s"

subsection \<open>The reader\<close>

text \<open>
  The types of physical records are \<open>unsigned int\<close>s: those of the file, a signed \<open>char\<close> converted,
  and two more. The drops reported are kept in \<open>reports\<close>.
\<close>

definition kEof :: u32 where
  "kEof = of_nat kMaxRecordType + 1"

definition kBadRecord :: u32 where
  "kBadRecord = of_nat kMaxRecordType + 2"

record Reader =
  reporter :: bool
  checksum :: bool
  buffer :: slice
  eof :: bool
  last_record_offset :: u64
  end_of_buffer_offset :: u64
  initial_offset :: u64
  resyncing :: bool
  reports :: "(u64 \<times> Status) list"

definition new_Reader :: "bool \<Rightarrow> bool \<Rightarrow> u64 \<Rightarrow> Reader" where
  "new_Reader rep chk start = \<lparr>reporter = rep, checksum = chk, buffer = [], eof = False,
     last_record_offset = 0, end_of_buffer_offset = 0, initial_offset = start,
     resyncing = (start > 0), reports = []\<rparr>"

definition ReportDrop :: "u64 \<Rightarrow> Status \<Rightarrow> Reader \<Rightarrow> Reader" where
  "ReportDrop bytes reason r =
     (if reporter r \<and> end_of_buffer_offset r - of_nat (length (buffer r)) - bytes \<ge> initial_offset r
      then r\<lparr>reports := reports r @ [(bytes, reason)]\<rparr> else r)"

definition ReportCorruption :: "u64 \<Rightarrow> string \<Rightarrow> Reader \<Rightarrow> Reader res" where
  "ReportCorruption bytes reason r =
     bind_res (Corruption (map char_byte reason) []) (\<lambda>s. Inr (ReportDrop bytes s r))"

definition SkipToInitialBlock :: "'s SequentialFile \<Rightarrow> Reader \<Rightarrow> 's \<Rightarrow> (bool \<times> Reader \<times> 's) res" where
  "SkipToInitialBlock f r s =
     (let offset_in_block = initial_offset r mod of_nat kBlockSize;
          start = initial_offset r - offset_in_block;
          start = (if offset_in_block > of_nat kBlockSize - 6 then start + of_nat kBlockSize else start);
          r = r\<lparr>end_of_buffer_offset := start\<rparr> in
      if start > 0 then
        bind_res (sf_Skip f (unat start) s) (\<lambda>(st, s).
          if ok st then Inr (True, r, s) else Inr (False, ReportDrop start st r, s))
      else Inr (True, r, s))"

text \<open>A physical record parsed from the buffer: the type and what \<open>*result\<close> refers to after it.\<close>

definition parse_physical :: "(u32 \<Rightarrow> slice \<Rightarrow> u32) \<Rightarrow> slice \<Rightarrow> Reader \<Rightarrow> (u32 \<times> slice \<times> Reader) res" where
  "parse_physical acc result r =
     (let header = buffer r in
      bind_res (vec_at header 4) (\<lambda>h4. bind_res (vec_at header 5) (\<lambda>h5. bind_res (vec_at header 6) (\<lambda>h6.
      let a = unat h4; b = unat h5; type = (scast h6 :: u32); len = a + b * 256 in
      if kHeaderSize + len > length (buffer r) then
        let drop_size = of_nat (length (buffer r)); r = r\<lparr>buffer := []\<rparr> in
        if \<not> eof r then
          bind_res (ReportCorruption drop_size ''bad record length'' r) (\<lambda>r. Inr (kBadRecord, result, r))
        else Inr (kEof, result, r)
      else if type = 0 \<and> len = 0 then Inr (kBadRecord, result, r\<lparr>buffer := []\<rparr>)
      else
        bind_res (DecodeFixed32 header) (\<lambda>stored.
        if checksum r \<and> crc_value acc 0 (take (1 + len) (drop 6 header)) \<noteq> Unmask stored then
          let drop_size = of_nat (length (buffer r)); r = r\<lparr>buffer := []\<rparr> in
          bind_res (ReportCorruption drop_size ''checksum mismatch'' r) (\<lambda>r. Inr (kBadRecord, result, r))
        else
          let r = r\<lparr>buffer := drop (kHeaderSize + len) (buffer r)\<rparr> in
          if end_of_buffer_offset r - of_nat (length (buffer r)) - of_nat kHeaderSize - of_nat len
              < initial_offset r
          then Inr (kBadRecord, [], r)
          else Inr (type, take len (drop kHeaderSize header), r))))))"

text \<open>The loop goes round once at most: after a read the buffer has a header or is the last.\<close>

function ReadPhysicalRecord :: "(u32 \<Rightarrow> slice \<Rightarrow> u32) \<Rightarrow> 's SequentialFile \<Rightarrow> slice \<Rightarrow> Reader \<Rightarrow> 's
    \<Rightarrow> (u32 \<times> slice \<times> Reader \<times> 's) res" where
  "ReadPhysicalRecord acc f result r s =
     (if length (buffer r) < kHeaderSize then
        if \<not> eof r then
          bind_res (sf_Read f kBlockSize [] s) (\<lambda>(st, buf, s).
          let r = r\<lparr>buffer := buf,
                end_of_buffer_offset := end_of_buffer_offset r + of_nat (length buf)\<rparr> in
          if \<not> ok st then
            Inr (kEof, result, (ReportDrop (of_nat kBlockSize) st (r\<lparr>buffer := []\<rparr>))\<lparr>eof := True\<rparr>, s)
          else
            ReadPhysicalRecord acc f result (if length buf < kBlockSize then r\<lparr>eof := True\<rparr> else r) s)
        else Inr (kEof, result, r\<lparr>buffer := []\<rparr>, s)
      else bind_res (parse_physical acc result r) (\<lambda>(t, result, r). Inr (t, result, r, s)))"
  by pat_completeness auto
termination
  by (relation "measure (\<lambda>(acc, f, result, r, s).
      if length (buffer r) < kHeaderSize \<and> \<not> eof r then 1 else 0)")
    (auto simp: kHeaderSize_def kBlockSize_def)

declare ReadPhysicalRecord.simps [simp del]

text \<open>
  The loop of \<open>ReadRecord\<close>, which goes round as long as the file has records to skip, with fuel.
  The result is the answer, \<open>*record\<close> and the reader; the locals are \<open>in_fragmented_record\<close>,
  \<open>prospective_record_offset\<close>, the fragment and the scratch string.
\<close>

fun read_loop :: "nat \<Rightarrow> (u32 \<Rightarrow> slice \<Rightarrow> u32) \<Rightarrow> 's SequentialFile \<Rightarrow> bool \<Rightarrow> u64 \<Rightarrow> slice \<Rightarrow> slice \<Rightarrow> Reader \<Rightarrow> 's
    \<Rightarrow> (bool \<times> slice \<times> Reader \<times> 's) res" where
  "read_loop 0 acc f in_frag prospective fragment scratch r s = Inl OutOfFuel"
| "read_loop (Suc n) acc f in_frag prospective fragment scratch r s =
     bind_res (ReadPhysicalRecord acc f fragment r s) (\<lambda>(t, fragment, r, s).
     let physical = end_of_buffer_offset r - of_nat (length (buffer r)) - of_nat kHeaderSize -
           of_nat (length fragment) in
     if resyncing r \<and> t = of_nat (type_number kMiddleType) then
       read_loop n acc f in_frag prospective fragment scratch r s
     else if resyncing r \<and> t = of_nat (type_number kLastType) then
       read_loop n acc f in_frag prospective fragment scratch (r\<lparr>resyncing := False\<rparr>) s
     else
       let r = (if resyncing r then r\<lparr>resyncing := False\<rparr> else r) in
       if t = of_nat (type_number kFullType) then
         bind_res (if in_frag \<and> scratch \<noteq> []
           then ReportCorruption (of_nat (length scratch)) ''partial record without end(1)'' r
           else Inr r) (\<lambda>r.
           Inr (True, fragment, r\<lparr>last_record_offset := physical\<rparr>, s))
       else if t = of_nat (type_number kFirstType) then
         bind_res (if in_frag \<and> scratch \<noteq> []
           then ReportCorruption (of_nat (length scratch)) ''partial record without end(2)'' r
           else Inr r) (\<lambda>r.
           read_loop n acc f True physical fragment fragment r s)
       else if t = of_nat (type_number kMiddleType) then
         if \<not> in_frag then
           bind_res (ReportCorruption (of_nat (length fragment)) ''missing start of fragmented record(1)'' r)
             (\<lambda>r. read_loop n acc f in_frag prospective fragment scratch r s)
         else read_loop n acc f in_frag prospective fragment (scratch @ fragment) r s
       else if t = of_nat (type_number kLastType) then
         if \<not> in_frag then
           bind_res (ReportCorruption (of_nat (length fragment)) ''missing start of fragmented record(2)'' r)
             (\<lambda>r. read_loop n acc f in_frag prospective fragment scratch r s)
         else Inr (True, scratch @ fragment, r\<lparr>last_record_offset := prospective\<rparr>, s)
       else if t = kEof then Inr (False, [], r, s)
       else if t = kBadRecord then
         if in_frag then
           bind_res (ReportCorruption (of_nat (length scratch)) ''error in middle of record'' r)
             (\<lambda>r. read_loop n acc f False prospective fragment [] r s)
         else read_loop n acc f in_frag prospective fragment scratch r s
       else
         bind_res (ReportCorruption (of_nat (length fragment + (if in_frag then length scratch else 0)))
             (''unknown record type '' @ nat_to_string (unat t)) r)
           (\<lambda>r. read_loop n acc f False prospective fragment [] r s))"

definition ReadRecord :: "nat \<Rightarrow> (u32 \<Rightarrow> slice \<Rightarrow> u32) \<Rightarrow> 's SequentialFile \<Rightarrow> Reader \<Rightarrow> 's
    \<Rightarrow> (bool \<times> slice \<times> Reader \<times> 's) res" where
  "ReadRecord n acc f r s =
     bind_res (if last_record_offset r < initial_offset r then SkipToInitialBlock f r s
       else Inr (True, r, s)) (\<lambda>(go, r, s).
       if go then read_loop n acc f False 0 [] [] r s else Inr (False, [], r, s))"

end
