(* ===== verification/Mem_Env.thy ===== *)
theory Mem_Env
  imports Mem_File "HOL-Library.List_Lexorder" "HOL-Library.Char_ord"
begin

section \<open>The in-memory environment\<close>

text \<open>
  \<open>leveldb-mcpe/helpers/memenv/memenv.cc\<close>: a table of names over shared file objects, which are
  counted by reference by the table and by the open handles. The mutexes are left out: every call is
  one step. The lemmas follow the references through every operation; the files meet the contracts
  of \<open>Mem_File\<close>.
\<close>

subsection \<open>The environment\<close>

text \<open>
  The objects \<open>FileState\<close> live in a heap; an address that was deleted has no object. The table of
  files is an \<open>std::map\<close>: sorted by name, each name with a pointer, which may be \<open>NULL\<close>.
\<close>

record mem_env =
  heap :: "nat \<Rightarrow> FileState option"
  next_addr :: nat
  file_map :: "(string \<times> nat option) list"

definition new_InMemoryEnv :: mem_env where
  "new_InMemoryEnv = \<lparr>heap = (\<lambda>_. None), next_addr = 0, file_map = []\<rparr>"

fun fm_set :: "string \<Rightarrow> nat option \<Rightarrow> (string \<times> nat option) list \<Rightarrow> (string \<times> nat option) list" where
  "fm_set k v [] = [(k, v)]"
| "fm_set k v ((l, w) # m) =
     (if k = l then (k, v) # m else if k < l then (k, v) # (l, w) # m else (l, w) # fm_set k v m)"

definition fm_erase :: "string \<Rightarrow> (string \<times> nat option) list \<Rightarrow> (string \<times> nat option) list" where
  "fm_erase k m = filter (\<lambda>(l, w). l \<noteq> k) m"

text \<open>\<open>file_map_[k]\<close>: a missing name is inserted with \<open>NULL\<close>.\<close>

definition fm_index :: "string \<Rightarrow> mem_env \<Rightarrow> nat option \<times> mem_env" where
  "fm_index k e = (case map_of (file_map e) k of
     Some p \<Rightarrow> (p, e)
   | None \<Rightarrow> (None, e\<lparr>file_map := fm_set k None (file_map e)\<rparr>))"

definition object :: "mem_env \<Rightarrow> nat \<Rightarrow> FileState res" where
  "object e a = (case heap e a of None \<Rightarrow> Inl Undefined | Some f \<Rightarrow> Inr f)"

definition set_object :: "nat \<Rightarrow> FileState option \<Rightarrow> mem_env \<Rightarrow> mem_env" where
  "set_object a f e = e\<lparr>heap := (heap e)(a := f)\<rparr>"

definition Ref :: "nat option \<Rightarrow> mem_env \<Rightarrow> (nat \<times> mem_env) res" where
  "Ref p e =
     bind_res (deref p) (\<lambda>a. bind_res (object e a) (\<lambda>f.
       Inr (a, set_object a (Some (f\<lparr>refs := refs f + 1\<rparr>)) e)))"

definition Unref :: "nat option \<Rightarrow> mem_env \<Rightarrow> mem_env res" where
  "Unref p e =
     bind_res (deref p) (\<lambda>a. bind_res (object e a) (\<lambda>f.
     let r = refs f - 1 in
     bind_res (guard_res (r \<ge> 0) AssertFail) (\<lambda>_.
       Inr (set_object a (if r \<le> 0 then None else Some (f\<lparr>refs := r\<rparr>)) e))))"

definition alloc :: "mem_env \<Rightarrow> nat \<times> mem_env" where
  "alloc e = (next_addr e,
     set_object (next_addr e) (Some new_FileState) (e\<lparr>next_addr := Suc (next_addr e)\<rparr>))"

text \<open>The handles; a \<open>WritableFileImpl\<close> and a \<open>RandomAccessFileImpl\<close> only keep the pointer.\<close>

record SequentialFileImpl =
  sq_file :: nat
  sq_pos :: nat

definition new_SequentialFileImpl :: "nat option \<Rightarrow> mem_env \<Rightarrow> (SequentialFileImpl \<times> mem_env) res" where
  "new_SequentialFileImpl p e = bind_res (Ref p e) (\<lambda>(a, e). Inr (\<lparr>sq_file = a, sq_pos = 0\<rparr>, e))"

definition Sequential_Read :: "nat \<Rightarrow> slice \<Rightarrow> SequentialFileImpl \<times> mem_env
    \<Rightarrow> (Status \<times> slice \<times> SequentialFileImpl \<times> mem_env) res" where
  "Sequential_Read n result = (\<lambda>(h, e).
     bind_res (object e (sq_file h)) (\<lambda>f.
     bind_res (FileState_Read f (sq_pos h) n result) (\<lambda>(s, r).
       Inr (s, r, if ok s then h\<lparr>sq_pos := sq_pos h + length r\<rparr> else h, e))))"

definition Sequential_Skip :: "nat \<Rightarrow> SequentialFileImpl \<times> mem_env
    \<Rightarrow> (Status \<times> SequentialFileImpl \<times> mem_env) res" where
  "Sequential_Skip n = (\<lambda>(h, e).
     bind_res (object e (sq_file h)) (\<lambda>f.
       if sq_pos h > file_size f then
         bind_res (IOError (map char_byte ''pos_ > file_->Size()'') []) (\<lambda>s. Inr (s, h, e))
       else
         let available = file_size f - sq_pos h; n = (if n > available then available else n) in
         Inr (OK, h\<lparr>sq_pos := sq_pos h + n\<rparr>, e)))"

definition mem_sequential :: "(SequentialFileImpl \<times> mem_env) SequentialFile" where
  "mem_sequential = \<lparr>sf_Read = Sequential_Read, sf_Skip = Sequential_Skip\<rparr>"

definition Random_Read :: "nat \<Rightarrow> nat \<Rightarrow> nat \<Rightarrow> slice \<Rightarrow> mem_env \<Rightarrow> (Status \<times> slice) res" where
  "Random_Read a offset n result e = bind_res (object e a) (\<lambda>f. FileState_Read f offset n result)"

definition Writable_Append :: "nat \<Rightarrow> slice \<Rightarrow> mem_env \<Rightarrow> (Status \<times> mem_env) res" where
  "Writable_Append a d e =
     bind_res (object e a) (\<lambda>f. bind_res (FileState_Append f d) (\<lambda>(s, f).
       Inr (s, set_object a (Some f) e)))"

definition mem_writable :: "nat \<Rightarrow> mem_env WritableFile" where
  "mem_writable a = \<lparr>wf_Append = Writable_Append a, wf_Flush = (\<lambda>e. Inr (OK, e))\<rparr>"

definition not_found :: "string \<Rightarrow> Status res" where
  "not_found fname = IOError (map char_byte fname) (map char_byte ''File not found'')"

definition NewSequentialFile :: "string \<Rightarrow> mem_env \<Rightarrow> (Status \<times> SequentialFileImpl option \<times> mem_env) res" where
  "NewSequentialFile fname e = (case map_of (file_map e) fname of
     None \<Rightarrow> bind_res (not_found fname) (\<lambda>s. Inr (s, None, e))
   | Some p \<Rightarrow> bind_res (new_SequentialFileImpl p e) (\<lambda>(h, e). Inr (OK, Some h, e)))"

definition NewRandomAccessFile :: "string \<Rightarrow> mem_env \<Rightarrow> (Status \<times> nat option \<times> mem_env) res" where
  "NewRandomAccessFile fname e = (case map_of (file_map e) fname of
     None \<Rightarrow> bind_res (not_found fname) (\<lambda>s. Inr (s, None, e))
   | Some p \<Rightarrow> bind_res (Ref p e) (\<lambda>(a, e). Inr (OK, Some a, e)))"

definition DeleteFileInternal :: "string \<Rightarrow> mem_env \<Rightarrow> mem_env res" where
  "DeleteFileInternal fname e = (case map_of (file_map e) fname of
     None \<Rightarrow> Inr e
   | Some p \<Rightarrow> bind_res (Unref p e) (\<lambda>e. Inr (e\<lparr>file_map := fm_erase fname (file_map e)\<rparr>)))"

definition NewWritableFile :: "string \<Rightarrow> mem_env \<Rightarrow> (Status \<times> nat \<times> mem_env) res" where
  "NewWritableFile fname e =
     bind_res (if map_of (file_map e) fname \<noteq> None then DeleteFileInternal fname e else Inr e) (\<lambda>e.
     let (a, e) = alloc e in
     bind_res (Ref (Some a) e) (\<lambda>(a, e).
     let e = e\<lparr>file_map := fm_set fname (Some a) (file_map e)\<rparr> in
     bind_res (Ref (Some a) e) (\<lambda>(a, e). Inr (OK, a, e))))"

definition NewAppendableFile :: "string \<Rightarrow> mem_env \<Rightarrow> (Status \<times> nat \<times> mem_env) res" where
  "NewAppendableFile fname e =
     (let (p, e) = fm_index fname e in
      bind_res (case p of
          Some a \<Rightarrow> Inr (a, e)
        | None \<Rightarrow> let (a, e) = alloc e in Ref (Some a) e) (\<lambda>(a, e).
      bind_res (Ref (Some a) e) (\<lambda>(a, e). Inr (OK, a, e))))"

definition FileExists :: "string \<Rightarrow> mem_env \<Rightarrow> bool" where
  "FileExists fname e \<longleftrightarrow> map_of (file_map e) fname \<noteq> None"

definition child_of :: "string \<Rightarrow> string \<Rightarrow> bool" where
  "child_of dir f \<longleftrightarrow> length f \<ge> length dir + 1 \<and> f ! length dir = CHR ''/'' \<and>
     take (length dir) f = dir"

definition GetChildren :: "string \<Rightarrow> mem_env \<Rightarrow> string list" where
  "GetChildren dir e =
     map (\<lambda>f. drop (length dir + 1) f) (filter (child_of dir) (map fst (file_map e)))"

definition DeleteFile :: "string \<Rightarrow> mem_env \<Rightarrow> (Status \<times> mem_env) res" where
  "DeleteFile fname e =
     (if map_of (file_map e) fname = None then bind_res (not_found fname) (\<lambda>s. Inr (s, e))
      else bind_res (DeleteFileInternal fname e) (\<lambda>e. Inr (OK, e)))"

definition GetFileSize :: "string \<Rightarrow> mem_env \<Rightarrow> (Status \<times> nat option) res" where
  "GetFileSize fname e = (case map_of (file_map e) fname of
     None \<Rightarrow> bind_res (not_found fname) (\<lambda>s. Inr (s, None))
   | Some p \<Rightarrow> bind_res (deref p) (\<lambda>a. bind_res (object e a) (\<lambda>f. Inr (OK, Some (file_size f)))))"

definition RenameFile :: "string \<Rightarrow> string \<Rightarrow> mem_env \<Rightarrow> (Status \<times> mem_env) res" where
  "RenameFile src target e =
     (if map_of (file_map e) src = None then bind_res (not_found src) (\<lambda>s. Inr (s, e))
      else
        bind_res (DeleteFileInternal target e) (\<lambda>e.
        let (p, e) = fm_index src e;
            e = e\<lparr>file_map := fm_set target p (file_map e)\<rparr>;
            e = e\<lparr>file_map := fm_erase src (file_map e)\<rparr> in
        Inr (OK, e)))"

text \<open>The destructor drops the references of the table.\<close>

fun unref_all :: "(string \<times> nat option) list \<Rightarrow> mem_env \<Rightarrow> mem_env res" where
  "unref_all [] e = Inr e"
| "unref_all ((k, p) # m) e = bind_res (Unref p e) (unref_all m)"

definition delete_InMemoryEnv :: "mem_env \<Rightarrow> mem_env res" where
  "delete_InMemoryEnv e = unref_all (file_map e) e"

subsection \<open>Counting references\<close>

text \<open>
  \<open>counted e M\<close>: the objects of the heap are those of the multiset \<open>M\<close> of their owners, and each
  holds the number of its owners; addresses are handed out in order.
\<close>

definition counted :: "mem_env \<Rightarrow> nat multiset \<Rightarrow> bool" where
  "counted e M \<longleftrightarrow> (\<forall>a. heap e a \<noteq> None \<longleftrightarrow> a \<in># M) \<and>
     (\<forall>a f. heap e a = Some f \<longrightarrow> refs f = int (count M a)) \<and> (\<forall>a \<in># M. a < next_addr e)"

text \<open>
  The bytes of a file. The objects of \<open>e'\<close> outside \<open>X\<close> are objects of \<open>e\<close> with the same bytes.
\<close>

definition file_contents :: "FileState \<Rightarrow> slice" where
  "file_contents f = map the (take (file_size f) (concat (file_blocks f)))"

lemma holds_contents: "file_holds f d \<Longrightarrow> file_contents f = d"
  by (auto simp: file_holds_def file_contents_def comp_def)

definition same_files :: "nat set \<Rightarrow> mem_env \<Rightarrow> mem_env \<Rightarrow> bool" where
  "same_files X e e' \<longleftrightarrow> (\<forall>a f'. a \<notin> X \<longrightarrow> heap e' a = Some f' \<longrightarrow>
     (\<exists>f. heap e a = Some f \<and> file_blocks f' = file_blocks f \<and> file_size f' = file_size f))"

lemma same_files_refl [simp]: "same_files X e e"
  by (simp add: same_files_def)

lemma same_files_trans: "same_files X e e' \<Longrightarrow> same_files Y e' e'' \<Longrightarrow> same_files (X \<union> Y) e e''"
  unfolding same_files_def by (metis UnI1 UnI2)

lemma counted_empty: "counted new_InMemoryEnv {#}"
  by (simp add: counted_def new_InMemoryEnv_def)

lemma counted_file_map [simp]: "counted (e\<lparr>file_map := m\<rparr>) M = counted e M"
  "heap (e\<lparr>file_map := m\<rparr>) = heap e" "same_files X e (e'\<lparr>file_map := m\<rparr>) = same_files X e e'"
  "same_files X (e\<lparr>file_map := m\<rparr>) e' = same_files X e e'"
  by (simp_all add: counted_def same_files_def)

lemma counted_object:
  assumes "counted e M" and "a \<in># M"
  obtains f where "heap e a = Some f" "object e a = Inr f" "refs f = int (count M a)"
  using assms by (force simp: counted_def object_def)

lemma Ref_counted:
  assumes "counted e M" and "a \<in># M"
  shows "\<exists>e'. Ref (Some a) e = Inr (a, e') \<and> counted e' (add_mset a M) \<and>
    file_map e' = file_map e \<and> same_files {} e e'"
proof (rule counted_object [OF assms])
  fix f
  assume "heap e a = Some f" "object e a = Inr f" "refs f = int (count M a)"
  then show ?thesis using assms by (auto simp: Ref_def set_object_def counted_def same_files_def)
qed

lemma Unref_counted:
  assumes "counted e M" and "a \<in># M"
  shows "\<exists>e'. Unref (Some a) e = Inr e' \<and> counted e' (M - {#a#}) \<and>
    file_map e' = file_map e \<and> same_files {} e e'"
proof (rule counted_object [OF assms])
  fix f
  assume f: "heap e a = Some f" "object e a = Inr f" "refs f = int (count M a)"
  have "0 < count M a" using assms(2) by simp
  then obtain n where n: "count M a = Suc n" using not0_implies_Suc by blast
  then have "Unref (Some a) e = Inr (set_object a
      (if count M a = 1 then None else Some (f\<lparr>refs := int (count M a) - 1\<rparr>)) e)"
    using f by (auto simp: Unref_def)
  moreover have "counted (set_object a
      (if count M a = 1 then None else Some (f\<lparr>refs := int (count M a) - 1\<rparr>)) e) (M - {#a#})"
    using assms n
    by (auto simp: counted_def set_object_def in_diff_count dest: in_diffD)
  ultimately show ?thesis using f(1) by (auto simp: set_object_def same_files_def)
qed

lemma alloc_counted:
  assumes "counted e M"
  shows "\<exists>e' e''. alloc e = (next_addr e, e') \<and> Ref (Some (next_addr e)) e' = Inr (next_addr e, e'') \<and>
    counted e'' (add_mset (next_addr e) M) \<and> file_map e'' = file_map e \<and> same_files {next_addr e} e e'' \<and>
    next_addr e \<notin># M \<and> (\<exists>f. heap e'' (next_addr e) = Some f \<and> file_holds f [])"
proof -
  have n: "next_addr e \<notin># M" "heap e (next_addr e) = None"
    using assms by (auto simp: counted_def)
  moreover have "file_holds (new_FileState\<lparr>refs := 1\<rparr>) []"
    using holds_new by (simp add: file_holds_def)
  ultimately show ?thesis
    using assms by (auto simp: alloc_def Ref_def object_def set_object_def counted_def same_files_def
      new_FileState_def count_eq_zero_iff [THEN iffD2] less_SucI)
qed

subsection \<open>The table of names\<close>

definition owners :: "(string \<times> nat option) list \<Rightarrow> nat multiset" where
  "owners m = mset (map (\<lambda>(k, p). the p) m)"

definition names_ok :: "(string \<times> nat option) list \<Rightarrow> bool" where
  "names_ok m \<longleftrightarrow> sorted_wrt (<) (map fst m) \<and> None \<notin> snd ` set m"

lemma fm_set_keys: "fst ` set (fm_set k v m) = insert k (fst ` set m)"
  by (induction k v m rule: fm_set.induct) auto

lemma fm_set_sorted: "sorted_wrt (<) (map fst m) \<Longrightarrow> sorted_wrt (<) (map fst (fm_set k v m))"
proof (induction k v m rule: fm_set.induct)
  case (2 k v l w m)
  then show ?case using fm_set_keys [of k v m] by (auto dest: less_trans)
qed simp

lemma fm_set_map_of: "map_of (fm_set k v m) = (map_of m)(k \<mapsto> v)"
  if "sorted_wrt (<) (map fst m)"
  using that by (induction k v m rule: fm_set.induct) (auto simp: fun_eq_iff)

lemma fm_set_values: "snd ` set (fm_set k v m) \<subseteq> insert v (snd ` set m)"
  by (induction k v m rule: fm_set.induct) auto

lemma fm_set_owners: "k \<notin> fst ` set m \<Longrightarrow> owners (fm_set k (Some a) m) = add_mset a (owners m)"
  by (induction k "Some a" m rule: fm_set.induct) (simp_all add: owners_def)

lemma fm_erase_map_of: "map_of (fm_erase k m) = (map_of m)(k := None)"
  by (induction m) (auto simp: fm_erase_def fun_eq_iff)

lemma fm_erase_owners:
  "sorted_wrt (<) (map fst m) \<Longrightarrow> map_of m k = Some (Some a) \<Longrightarrow> owners m = add_mset a (owners (fm_erase k m))"
proof (induction m)
  case (Cons x m)
  obtain l w where x: "x = (l, w)" by fastforce
  show ?case
  proof (cases "l = k")
    case True
    with Cons.prems x have "\<forall>y \<in> set m. fst y \<noteq> k" by fastforce
    then have "fm_erase k m = m" unfolding fm_erase_def by (intro filter_True) auto
    then show ?thesis using True Cons.prems x by (simp add: owners_def fm_erase_def)
  next
    case False
    then show ?thesis using Cons x by (simp add: owners_def fm_erase_def)
  qed
qed simp

lemma fm_erase_names: "names_ok m \<Longrightarrow> names_ok (fm_erase k m)"
  by (induction m) (fastforce simp: names_ok_def fm_erase_def)+

lemma fm_set_names: "names_ok m \<Longrightarrow> names_ok (fm_set k (Some a) m)"
  using fm_set_sorted [of m k "Some a"] fm_set_values [of k "Some a" m]
  by (auto simp only: names_ok_def)

lemma names_lookup:
  assumes "names_ok m" and "map_of m k = Some p"
  obtains a where "p = Some a" "a \<in># owners m"
proof -
  from assms(2) have "(k, p) \<in> set m" by (rule map_of_SomeD)
  moreover from this assms(1) obtain a where "p = Some a" by (cases p) (force simp: names_ok_def)+
  ultimately show ?thesis using that by (force simp: owners_def)
qed

lemma owners_empty [simp]: "owners [] = {#}"
  by (simp add: owners_def)

subsection \<open>Every operation keeps the references\<close>

definition env_ok :: "mem_env \<Rightarrow> nat multiset \<Rightarrow> bool" where
  "env_ok e H \<longleftrightarrow> names_ok (file_map e) \<and> counted e (owners (file_map e) + H)"

lemma env_ok_empty: "env_ok new_InMemoryEnv {#}"
  using counted_empty by (simp add: env_ok_def names_ok_def new_InMemoryEnv_def)

lemma not_found_total: "length fname + 16 < 2 ^ 32 \<Longrightarrow> \<exists>s. not_found fname = Inr s \<and> \<not> ok s"
  using new_Status_two [of kIOError "map char_byte fname" "map char_byte ''File not found''"]
  by (auto simp: not_found_def IOError_def)

lemma DeleteFileInternal_ok:
  assumes "env_ok e H"
  shows "\<exists>e'. DeleteFileInternal k e = Inr e' \<and> env_ok e' H \<and> same_files {} e e' \<and>
    file_map e' = fm_erase k (file_map e)"
proof (cases "map_of (file_map e) k")
  case None
  then have "fm_erase k (file_map e) = file_map e"
    unfolding fm_erase_def by (intro filter_True) (force simp: map_of_eq_None_iff)
  then show ?thesis using None assms by (simp add: DeleteFileInternal_def)
next
  case (Some p)
  let ?m = "file_map e"
  from assms have m: "names_ok ?m" "counted e (owners ?m + H)" by (simp_all add: env_ok_def)
  from names_lookup [OF m(1) Some] obtain a where a: "p = Some a" "a \<in># owners ?m" .
  from m(1) have "owners ?m = add_mset a (owners (fm_erase k ?m))"
    using Some a(1) by (intro fm_erase_owners) (simp_all add: names_ok_def)
  then have o: "owners ?m + H - {#a#} = owners (fm_erase k ?m) + H" by simp
  from Unref_counted [OF m(2), of a] a(2) o show ?thesis
    using Some a(1) fm_erase_names [OF m(1), of k] by (auto simp: DeleteFileInternal_def env_ok_def)
qed

lemma open_ok:
  assumes "env_ok e H" and "map_of (file_map e) k = Some p"
  shows "\<exists>a e'. p = Some a \<and> Ref p e = Inr (a, e') \<and> env_ok e' (add_mset a H) \<and> same_files {} e e' \<and>
    file_map e' = file_map e"
proof -
  from assms have m: "names_ok (file_map e)" "counted e (owners (file_map e) + H)"
    by (simp_all add: env_ok_def)
  from names_lookup [OF m(1) assms(2)] obtain a where a: "p = Some a" "a \<in># owners (file_map e)" .
  then show ?thesis using Ref_counted [OF m(2), of a] m(1) by (auto simp: env_ok_def)
qed

lemma create_ok:
  assumes "env_ok e H" and "k \<notin> fst ` set (file_map e)"
  shows "\<exists>e1 e2 e3 a. alloc e = (a, e1) \<and> Ref (Some a) e1 = Inr (a, e2) \<and>
    Ref (Some a) (e2\<lparr>file_map := fm_set k (Some a) (file_map e2)\<rparr>) = Inr (a, e3) \<and>
    env_ok e3 (add_mset a H) \<and> same_files {a} e e3 \<and> file_map e3 = fm_set k (Some a) (file_map e) \<and>
    a \<notin># H \<and> (\<exists>f. heap e3 a = Some f \<and> file_holds f [])"
proof -
  let ?M = "owners (file_map e) + H" and ?a = "next_addr e"
  from assms(1) have m: "names_ok (file_map e)" "counted e ?M" by (simp_all add: env_ok_def)
  from alloc_counted [OF m(2)] obtain e1 e2 f where 1: "alloc e = (?a, e1)" "Ref (Some ?a) e1 = Inr (?a, e2)"
    "counted e2 (add_mset ?a ?M)" "file_map e2 = file_map e" "same_files {?a} e e2" "?a \<notin># ?M"
    "heap e2 ?a = Some f" "file_holds f []" by blast
  let ?e = "e2\<lparr>file_map := fm_set k (Some ?a) (file_map e2)\<rparr>"
  from Ref_counted [of ?e "add_mset ?a ?M" ?a] 1(3) obtain e3 where 2: "Ref (Some ?a) ?e = Inr (?a, e3)"
    "counted e3 (add_mset ?a (add_mset ?a ?M))" "file_map e3 = fm_set k (Some ?a) (file_map e)"
    "same_files {} ?e e3" using 1(4) by auto
  then obtain f3 where f3: "heap e3 ?a = Some f3"
    by (metis counted_object union_single_eq_member)
  with 2(4) 1(7) have "file_blocks f3 = file_blocks f" "file_size f3 = file_size f"
    unfolding same_files_def by force+
  then have h: "file_holds f3 []" using 1(8) by (simp add: file_holds_def)
  have "env_ok e3 (add_mset ?a H)"
    using 2(2,3) fm_set_names [OF m(1), of k ?a] fm_set_owners [OF assms(2), of ?a]
    by (simp add: env_ok_def)
  moreover have "same_files {?a} e e3"
    using same_files_trans [OF 1(5), of "{}" e3] 2(4) by simp
  ultimately show ?thesis using 1 2 f3 h by auto
qed

definition files_ok :: "mem_env \<Rightarrow> bool" where
  "files_ok e \<longleftrightarrow> (\<forall>a f. heap e a = Some f \<longrightarrow> (\<exists>d. file_holds f d))"

lemma files_ok_same:
  assumes "files_ok e" and "same_files X e e'" and "\<And>a f. a \<in> X \<Longrightarrow> heap e' a = Some f \<Longrightarrow> \<exists>d. file_holds f d"
  shows "files_ok e'"
  unfolding files_ok_def
proof (intro allI impI)
  fix a f'
  assume f': "heap e' a = Some f'"
  show "\<exists>d. file_holds f' d"
  proof (cases "a \<in> X")
    case False
    with assms(2) f' obtain f where "heap e a = Some f" "file_blocks f' = file_blocks f" "file_size f' = file_size f"
      by (auto simp: same_files_def)
    with assms(1) show ?thesis by (auto simp: files_ok_def file_holds_def)
  qed (use assms(3) f' in blast)
qed

subsection \<open>Runs of the environment\<close>

text \<open>
  What its users do: open, create, delete and rename files, append to an open file, and close one.
  The multiset holds the objects of the open handles.
\<close>

datatype env_op = OpenSequential string | OpenRandom string | CreateWritable string
  | OpenAppendable string | AppendTo nat slice | Delete string | Rename string string | Close nat

type_synonym env_state = "mem_env \<times> nat multiset"

fun env_exec :: "env_op \<Rightarrow> env_state \<Rightarrow> env_state res" where
  "env_exec (OpenSequential k) (e, H) = bind_res (NewSequentialFile k e) (\<lambda>(s, h, e).
     Inr (e, case h of None \<Rightarrow> H | Some h \<Rightarrow> add_mset (sq_file h) H))"
| "env_exec (OpenRandom k) (e, H) = bind_res (NewRandomAccessFile k e) (\<lambda>(s, h, e).
     Inr (e, case h of None \<Rightarrow> H | Some a \<Rightarrow> add_mset a H))"
| "env_exec (CreateWritable k) (e, H) = bind_res (NewWritableFile k e) (\<lambda>(s, a, e). Inr (e, add_mset a H))"
| "env_exec (OpenAppendable k) (e, H) = bind_res (NewAppendableFile k e) (\<lambda>(s, a, e). Inr (e, add_mset a H))"
| "env_exec (AppendTo a d) (e, H) = bind_res (Writable_Append a d e) (\<lambda>(s, e). Inr (e, H))"
| "env_exec (Delete k) (e, H) = bind_res (DeleteFile k e) (\<lambda>(s, e). Inr (e, H))"
| "env_exec (Rename k l) (e, H) = bind_res (RenameFile k l e) (\<lambda>(s, e). Inr (e, H))"
| "env_exec (Close a) (e, H) = bind_res (Unref (Some a) e) (\<lambda>e. Inr (e, H - {#a#}))"

text \<open>
  The operations that go well: names fit a status, appending opens a file that exists, a file is not
  renamed to itself, and the handle is open.
\<close>

definition name_fits :: "string \<Rightarrow> bool" where
  "name_fits k \<longleftrightarrow> length k + 16 < 2 ^ 32"

fun op_allowed :: "env_op \<Rightarrow> env_state \<Rightarrow> bool" where
  "op_allowed (OpenSequential k) (e, H) \<longleftrightarrow> name_fits k"
| "op_allowed (OpenRandom k) (e, H) \<longleftrightarrow> name_fits k"
| "op_allowed (CreateWritable k) (e, H) \<longleftrightarrow> True"
| "op_allowed (OpenAppendable k) (e, H) \<longleftrightarrow> FileExists k e"
| "op_allowed (AppendTo a d) (e, H) \<longleftrightarrow> a \<in># H"
| "op_allowed (Delete k) (e, H) \<longleftrightarrow> name_fits k"
| "op_allowed (Rename k l) (e, H) \<longleftrightarrow> name_fits k \<and> k \<noteq> l"
| "op_allowed (Close a) (e, H) \<longleftrightarrow> a \<in># H"

inductive env_reachable :: "env_state \<Rightarrow> bool" where
  init: "env_reachable (new_InMemoryEnv, {#})"
| step: "env_reachable s \<Longrightarrow> op_allowed op s \<Longrightarrow> env_exec op s = Inr s' \<Longrightarrow> env_reachable s'"

definition state_ok :: "env_state \<Rightarrow> bool" where
  "state_ok = (\<lambda>(e, H). env_ok e H \<and> files_ok e)"

lemma Writable_Append_ok:
  assumes "env_ok e H" "files_ok e" "a \<in># H"
  shows "\<exists>f e'. heap e a = Some f \<and> Writable_Append a d e = Inr (OK, e') \<and> env_ok e' H \<and> files_ok e' \<and>
    file_map e' = file_map e \<and> (\<forall>x. file_holds f x \<longrightarrow> (\<exists>f'. heap e' a = Some f' \<and> file_holds f' (x @ d)))"
proof -
  from assms(1) have c: "counted e (owners (file_map e) + H)" by (simp add: env_ok_def)
  from assms(3) have "a \<in># owners (file_map e) + H" by simp
  from counted_object [OF c this] obtain f where f: "heap e a = Some f" "object e a = Inr f" by auto
  with assms(2) obtain x where x: "file_holds f x" by (auto simp: files_ok_def)
  then obtain f' where f': "append_loop f d = Inr f'" "file_holds f' (x @ d)" "refs f' = refs f"
    using append_loop_holds by blast
  have "Writable_Append a d e = Inr (OK, set_object a (Some f') e)"
    using f f' by (simp add: Writable_Append_def FileState_Append_def)
  moreover have "env_ok (set_object a (Some f') e) H" "files_ok (set_object a (Some f') e)"
    using assms f f' by (auto simp: env_ok_def counted_def set_object_def files_ok_def)
  moreover have "y = x" if "file_holds f y" for y
    using holds_contents [OF that] holds_contents [OF x] by simp
  ultimately show ?thesis using f f' by (auto simp: set_object_def)
qed

lemma NewSequential_ok:
  assumes "state_ok (e, H)" "name_fits k"
  shows "\<exists>s' . env_exec (OpenSequential k) (e, H) = Inr s' \<and> state_ok s'"
proof (cases "map_of (file_map e) k")
  case None
  then show ?thesis using assms not_found_total [of k]
    by (auto simp: NewSequentialFile_def name_fits_def)
next
  case (Some p)
  from assms(1) open_ok [OF _ Some, of H] files_ok_same [of e "{}"] show ?thesis
    by (fastforce simp: state_ok_def NewSequentialFile_def Some new_SequentialFileImpl_def)
qed

lemma NewRandom_ok:
  assumes "state_ok (e, H)" "name_fits k"
  shows "\<exists>s' . env_exec (OpenRandom k) (e, H) = Inr s' \<and> state_ok s'"
proof (cases "map_of (file_map e) k")
  case None
  then show ?thesis using assms not_found_total [of k]
    by (auto simp: NewRandomAccessFile_def name_fits_def)
next
  case (Some p)
  from assms(1) open_ok [OF _ Some, of H] files_ok_same [of e "{}"] show ?thesis
    by (fastforce simp: state_ok_def NewRandomAccessFile_def Some)
qed

lemma NewWritable_ok:
  assumes "state_ok (e, H)"
  shows "\<exists>a e'. NewWritableFile k e = Inr (OK, a, e') \<and> state_ok (e', add_mset a H) \<and>
    map_of (file_map e') k = Some (Some a) \<and> (\<exists>f. heap e' a = Some f \<and> file_holds f [])"
proof -
  from assms have e: "env_ok e H" "files_ok e" by (simp_all add: state_ok_def)
  from DeleteFileInternal_ok [OF e(1), of k] obtain e1 where
    1: "DeleteFileInternal k e = Inr e1" "env_ok e1 H" "same_files {} e e1" "file_map e1 = fm_erase k (file_map e)"
    by blast
  have d: "(if map_of (file_map e) k \<noteq> None then DeleteFileInternal k e else Inr e) = Inr e1"
    using 1(1) by (auto simp: DeleteFileInternal_def)
  have "k \<notin> fst ` set (file_map e1)" by (auto simp: 1(4) fm_erase_def)
  from create_ok [OF 1(2) this] obtain e2 e3 e4 a where
    2: "alloc e1 = (a, e2)" "Ref (Some a) e2 = Inr (a, e3)"
      "Ref (Some a) (e3\<lparr>file_map := fm_set k (Some a) (file_map e3)\<rparr>) = Inr (a, e4)"
      "env_ok e4 (add_mset a H)" "same_files {a} e1 e4" "file_map e4 = fm_set k (Some a) (file_map e1)"
      "\<exists>f. heap e4 a = Some f \<and> file_holds f []" by blast
  have "files_ok e4"
    using files_ok_same [OF files_ok_same [OF e(2) 1(3)] 2(5)] 2(7) by force
  moreover have "map_of (file_map e4) k = Some (Some a)"
    using 1(2) by (simp add: 2(6) fm_set_map_of env_ok_def names_ok_def)
  moreover have "NewWritableFile k e = Inr (OK, a, e4)"
    unfolding NewWritableFile_def d using 2(1-3) by simp
  ultimately show ?thesis using 2(4,7) by (simp add: state_ok_def)
qed

lemma NewAppendable_ok:
  assumes "state_ok (e, H)" "FileExists k e"
  shows "\<exists>s' . env_exec (OpenAppendable k) (e, H) = Inr s' \<and> state_ok s'"
proof -
  from assms(2) obtain p where p: "map_of (file_map e) k = Some p" by (auto simp: FileExists_def)
  from assms(1) open_ok [OF _ p, of H] files_ok_same [of e "{}"] show ?thesis
    by (fastforce simp: state_ok_def NewAppendableFile_def p fm_index_def)
qed

lemma Delete_ok:
  assumes "state_ok (e, H)" "name_fits k"
  shows "\<exists>s' . env_exec (Delete k) (e, H) = Inr s' \<and> state_ok s'"
  using assms not_found_total [of k] DeleteFileInternal_ok [of e H k] files_ok_same [of e "{}"]
  by (cases "map_of (file_map e) k") (fastforce simp: DeleteFile_def state_ok_def name_fits_def)+

lemma Rename_ok:
  assumes "state_ok (e, H)" "name_fits k" "k \<noteq> l" and k: "map_of (file_map e) k = Some p"
  shows "\<exists>e'. RenameFile k l e = Inr (OK, e') \<and> state_ok (e', H) \<and>
    map_of (file_map e') = (map_of (file_map e))(l := Some p, k := None)"
proof -
  from assms(1) have e: "env_ok e H" "files_ok e" by (simp_all add: state_ok_def)
  from DeleteFileInternal_ok [OF e(1), of l] obtain e1 where
    1: "DeleteFileInternal l e = Inr e1" "env_ok e1 H" "same_files {} e e1" "file_map e1 = fm_erase l (file_map e)"
    by blast
  let ?m = "file_map e1"
  from 1(2) have m: "names_ok ?m" "counted e1 (owners ?m + H)" by (simp_all add: env_ok_def)
  then have srt: "sorted_wrt (<) (map fst ?m)" by (simp add: names_ok_def)
  have k1: "map_of ?m k = Some p" using k assms(3) by (simp add: 1(4) fm_erase_map_of)
  from names_lookup [OF m(1) k1] obtain a where a: "p = Some a" "a \<in># owners ?m" .
  have l: "l \<notin> fst ` set ?m" by (auto simp: 1(4) fm_erase_def)
  let ?m' = "fm_erase k (fm_set l p ?m)"
  have "owners (fm_set l p ?m) = add_mset a (owners ?m)" using fm_set_owners [OF l] by (simp add: a(1))
  moreover have "owners (fm_set l p ?m) = add_mset a (owners ?m')"
    using k1 assms(3) fm_set_sorted [OF srt] by (intro fm_erase_owners) (simp_all add: fm_set_map_of [OF srt] a(1))
  ultimately have o: "owners ?m' = owners ?m" by simp
  have "names_ok ?m'" using fm_erase_names [OF fm_set_names [OF m(1), of l a]] by (simp add: a(1))
  then have "env_ok (e1\<lparr>file_map := ?m'\<rparr>) H" using m(2) o by (simp add: env_ok_def)
  moreover have "files_ok (e1\<lparr>file_map := ?m'\<rparr>)"
    using files_ok_same [OF e(2) 1(3)] by (simp add: files_ok_def)
  moreover have "map_of ?m' = (map_of (file_map e))(l := Some p, k := None)"
    using assms(3) by (simp only: fm_erase_map_of fm_set_map_of [OF srt])
      (auto simp: 1(4) fm_erase_map_of fun_eq_iff)
  moreover have "RenameFile k l e = Inr (OK, e1\<lparr>file_map := ?m'\<rparr>)"
    using k k1 1(1) by (simp add: RenameFile_def fm_index_def)
  ultimately show ?thesis by (auto simp: state_ok_def)
qed

lemma Close_ok:
  assumes "state_ok (e, H)" "a \<in># H"
  shows "\<exists>s' . env_exec (Close a) (e, H) = Inr s' \<and> state_ok s'"
proof -
  from assms(1) have e: "env_ok e H" "files_ok e" by (simp_all add: state_ok_def)
  then have c: "counted e (owners (file_map e) + H)" by (simp add: env_ok_def)
  have "a \<in># owners (file_map e) + H" using assms(2) by simp
  from Unref_counted [OF c this] files_ok_same [OF e(2)] show ?thesis
    using e(1) assms(2) by (fastforce simp: state_ok_def env_ok_def)
qed

lemma env_exec_ok:
  assumes "state_ok s" "op_allowed op s"
  shows "\<exists>s'. env_exec op s = Inr s' \<and> state_ok s'"
proof -
  obtain e H where s: "s = (e, H)" by fastforce
  show ?thesis
  proof (cases op)
    case (CreateWritable k)
    then show ?thesis using NewWritable_ok [of e H k] assms(1) s by auto
  next
    case (AppendTo a d)
    then show ?thesis using Writable_Append_ok [of e H a d] assms s by (auto simp: state_ok_def)
  next
    case (Rename k l)
    show ?thesis
    proof (cases "map_of (file_map e) k")
      case None
      then show ?thesis using Rename assms not_found_total [of k] s by (auto simp: RenameFile_def name_fits_def)
    next
      case (Some p)
      then show ?thesis using Rename Rename_ok [of e H k l p] assms s by auto
    qed
  qed (use assms s NewSequential_ok NewRandom_ok NewAppendable_ok Delete_ok Close_ok in auto)
qed

lemma reachable_ok: "env_reachable s \<Longrightarrow> state_ok s"
proof (induction rule: env_reachable.induct)
  case init
  show ?case using env_ok_empty by (simp add: state_ok_def files_ok_def new_InMemoryEnv_def)
next
  case (step s op s')
  then show ?case using env_exec_ok [of s op] by auto
qed

lemma unref_all_counted:
  "counted e (owners m + H) \<Longrightarrow> None \<notin> snd ` set m \<Longrightarrow> \<exists>e'. unref_all m e = Inr e' \<and> counted e' H"
proof (induction m arbitrary: e)
  case (Cons x m)
  obtain k p where x: "x = (k, p)" by fastforce
  with Cons.prems(2) obtain a where a: "p = Some a" by (cases p) auto
  with Cons.prems(1) x have "counted e (add_mset a (owners m + H))" by (simp add: owners_def)
  from Unref_counted [OF this, of a] Cons.IH Cons.prems(2) show ?case by (fastforce simp: x a)
qed simp

subsection \<open>The files meet their contracts\<close>

definition seq_inv :: "SequentialFileImpl \<times> mem_env \<Rightarrow> bool" where
  "seq_inv = (\<lambda>(h, e). \<exists>f d. heap e (sq_file h) = Some f \<and> file_holds f d \<and> sq_pos h \<le> length d)"

definition seq_rest :: "SequentialFileImpl \<times> mem_env \<Rightarrow> slice" where
  "seq_rest = (\<lambda>(h, e). drop (sq_pos h) (file_contents (the (heap e (sq_file h)))))"

lemma drop_min: "drop (n + min m (length (drop n d))) d = drop m (drop n d)"
  by (cases "m \<le> length d - n") (auto simp: add.commute min_def)

interpretation mem_seq: sequential_file mem_sequential seq_inv seq_rest
proof
  fix s :: "SequentialFileImpl \<times> mem_env" and n r
  assume s: "seq_inv s"
  obtain h e where he: "s = (h, e)" by fastforce
  with s obtain f d where f: "heap e (sq_file h) = Some f" "file_holds f d" "sq_pos h \<le> length d"
    by (auto simp: seq_inv_def)
  have c: "file_contents f = d" "file_size f = length d"
    using f(2) by (auto simp: file_holds_def intro: holds_contents)
  note R = FileState_Read_holds [OF f(2,3), of n r]
  show "\<exists>s'. sf_Read mem_sequential n r s = Inr (OK, take n (seq_rest s), s') \<and> seq_inv s' \<and>
      seq_rest s' = drop n (seq_rest s)"
    using f c R drop_min [of "sq_pos h" n d]
    by (auto simp: he mem_sequential_def Sequential_Read_def object_def seq_rest_def seq_inv_def min.commute)
  show "\<exists>s'. sf_Skip mem_sequential n s = Inr (OK, s') \<and> seq_inv s' \<and> seq_rest s' = drop n (seq_rest s)"
    using f c drop_min [of "sq_pos h" n d]
    by (auto simp: he mem_sequential_def Sequential_Skip_def object_def seq_rest_def seq_inv_def min_def Let_def)
qed

definition wr_inv :: "nat \<Rightarrow> mem_env \<Rightarrow> bool" where
  "wr_inv a e \<longleftrightarrow> (\<exists>f d. heap e a = Some f \<and> file_holds f d)"

definition wr_contents :: "nat \<Rightarrow> mem_env \<Rightarrow> slice" where
  "wr_contents a e = file_contents (the (heap e a))"

interpretation mem_wr: writable_file "mem_writable a" "wr_inv a" "wr_contents a" for a
proof
  fix e d
  assume "wr_inv a e"
  then obtain f x where f: "heap e a = Some f" "file_holds f x" by (auto simp: wr_inv_def)
  from append_loop_holds [OF f(2), of d] obtain f' where f': "append_loop f d = Inr f'" "file_holds f' (x @ d)"
    by blast
  then show "\<exists>s'. wf_Append (mem_writable a) d e = Inr (OK, s') \<and> wr_inv a s' \<and>
      wr_contents a s' = wr_contents a e @ d"
    using f holds_contents [OF f(2)] holds_contents [OF f'(2)]
    by (auto simp: mem_writable_def Writable_Append_def object_def FileState_Append_def set_object_def
      wr_inv_def wr_contents_def)
  show "\<exists>s'. wf_Flush (mem_writable a) e = Inr (OK, s') \<and> wr_inv a s' \<and> wr_contents a s' = wr_contents a e"
    using f by (auto simp: mem_writable_def wr_inv_def)
qed

subsection \<open>Properties\<close>

text \<open>
  C31: the environment is safe under the operations of \<open>op_allowed\<close>, in whatever order: opening files for reading, creating,
  deleting and renaming them, appending to and closing the handles that are open. Not among them are the two operations
  that break it (\<open>mem_env_broken\<close>), \<open>NewAppendableFile\<close> of a missing file and renaming a file to itself, and names of
  2^32 - 16 bytes or more, which do not fit the message of a status. Then the environment never follows a null or
  dangling pointer, never deletes an object twice and never leaks one: in every state that is reached so, every
  allowed operation succeeds, and when the environment is destroyed exactly the objects of the open handles are left.
\<close>

theorem mem_env_safe:
  assumes "env_reachable (e, H)"
  shows "(\<forall>op. op_allowed op (e, H) \<longrightarrow> (\<exists>s'. env_exec op (e, H) = Inr s')) \<and>
    (\<exists>e'. delete_InMemoryEnv e = Inr e' \<and> (\<forall>a. heap e' a \<noteq> None \<longleftrightarrow> a \<in># H))"
proof -
  have ok: "state_ok (e, H)" by (rule reachable_ok [OF assms])
  then have "counted e (owners (file_map e) + H)" "None \<notin> snd ` set (file_map e)"
    by (simp_all add: state_ok_def env_ok_def names_ok_def)
  from unref_all_counted [OF this] have "\<exists>e'. delete_InMemoryEnv e = Inr e' \<and> (\<forall>a. heap e' a \<noteq> None \<longleftrightarrow> a \<in># H)"
    by (auto simp: delete_InMemoryEnv_def counted_def)
  then show ?thesis using env_exec_ok [OF ok] by blast
qed

theorem mem_env_safe_witness:
  "\<exists>e e'. env_exec (CreateWritable ''f'') (new_InMemoryEnv, {#}) = Inr (e, {#0#}) \<and>
    delete_InMemoryEnv e = Inr e' \<and> heap e' 0 \<noteq> None \<and> heap e' 1 = None"
proof -
  obtain e where e: "env_exec (CreateWritable ''f'') (new_InMemoryEnv, {#}) = Inr (e, {#0#})"
    by (simp add: NewWritableFile_def new_InMemoryEnv_def alloc_def Ref_def object_def set_object_def)
  have "env_reachable (e, {#0#})"
    using env_reachable.step [OF env_reachable.init _ e] by simp
  from mem_env_safe [OF this] e show ?thesis by force
qed

lemma kept:
  assumes "env_ok e' H" "a \<in># H" "same_files {} e e'" "heap e a = Some f" "file_holds f d"
  shows "\<exists>f'. heap e' a = Some f' \<and> file_holds f' d"
proof -
  from assms(1) have c: "counted e' (owners (file_map e') + H)" by (simp add: env_ok_def)
  from assms(2) have "a \<in># owners (file_map e') + H" by simp
  from counted_object [OF c this] obtain f' where f': "heap e' a = Some f'" by auto
  with assms(3,4) have "file_blocks f' = file_blocks f" "file_size f' = file_size f"
    unfolding same_files_def by force+
  with f' assms(5) show ?thesis by (auto simp: file_holds_def)
qed

text \<open>
  what is appended to a new file is what is read back from it, in reads of any size and even
  after the file has been deleted while it is open.
\<close>

theorem mem_file_roundtrip:
  assumes "env_reachable (e, H)" and "name_fits k"
  shows "\<exists>a e1 e2 h e3 e4 s t. NewWritableFile k e = Inr (OK, a, e1) \<and>
    wf_Append (mem_writable a) d e1 = Inr (OK, e2) \<and> NewSequentialFile k e2 = Inr (OK, Some h, e3) \<and>
    DeleteFile k e3 = Inr (OK, e4) \<and> sf_Read mem_sequential n r (h, e4) = Inr (OK, take n d, s) \<and>
    sf_Read mem_sequential m r s = Inr (OK, take m (drop n d), t)"
proof -
  from NewWritable_ok [OF reachable_ok [OF assms(1)], of k] obtain a e1 f1 where
    1: "NewWritableFile k e = Inr (OK, a, e1)" "env_ok e1 (add_mset a H)" "files_ok e1"
      "map_of (file_map e1) k = Some (Some a)" "heap e1 a = Some f1" "file_holds f1 []"
    by (auto simp: state_ok_def)
  from Writable_Append_ok [OF 1(2,3), of a d] 1(5,6) obtain e2 f2 where
    2: "Writable_Append a d e1 = Inr (OK, e2)" "env_ok e2 (add_mset a H)" "file_map e2 = file_map e1"
      "heap e2 a = Some f2" "file_holds f2 d" by force
  from open_ok [OF 2(2), of k "Some a"] 1(4) 2(3) obtain e3 where
    3: "Ref (Some a) e2 = Inr (a, e3)" "env_ok e3 (add_mset a (add_mset a H))" "same_files {} e2 e3"
      "file_map e3 = file_map e1" by auto
  from kept [OF 3(2) _ 3(3) 2(4,5)] obtain f3 where f3: "heap e3 a = Some f3" "file_holds f3 d" by auto
  from DeleteFileInternal_ok [OF 3(2), of k] obtain e4 where
    4: "DeleteFileInternal k e3 = Inr e4" "env_ok e4 (add_mset a (add_mset a H))" "same_files {} e3 e4" by auto
  from kept [OF 4(2) _ 4(3) f3] obtain f4 where f4: "heap e4 a = Some f4" "file_holds f4 d" by auto
  let ?h = "\<lparr>sq_file = a, sq_pos = 0\<rparr>"
  have "seq_inv (?h, e4)" "seq_rest (?h, e4) = d"
    using f4 holds_contents [OF f4(2)] by (auto simp: seq_inv_def seq_rest_def)
  from mem_seq.read [OF this(1), of n r] this(2) obtain s where
    s: "sf_Read mem_sequential n r (?h, e4) = Inr (OK, take n d, s)" "seq_inv s" "seq_rest s = drop n d" by auto
  from mem_seq.read [OF s(2), of m r] s(3) obtain t where
    "sf_Read mem_sequential m r s = Inr (OK, take m (drop n d), t)" by auto
  moreover have "NewSequentialFile k e2 = Inr (OK, Some ?h, e3)"
    using 1(4) 2(3) 3(1) by (simp add: NewSequentialFile_def new_SequentialFileImpl_def)
  moreover have "DeleteFile k e3 = Inr (OK, e4)"
    using 1(4) 3(4) 4(1) by (simp add: DeleteFile_def)
  moreover have "wf_Append (mem_writable a) d e1 = Inr (OK, e2)" using 2(1) by (simp add: mem_writable_def)
  ultimately show ?thesis using 1(1) s(1) by blast
qed

theorem mem_file_roundtrip_witness:
  "\<exists>a e1 e2 h e3 e4 s t. NewWritableFile ''log'' new_InMemoryEnv = Inr (OK, a, e1) \<and>
    wf_Append (mem_writable a) [1, 2, 3] e1 = Inr (OK, e2) \<and>
    NewSequentialFile ''log'' e2 = Inr (OK, Some h, e3) \<and> DeleteFile ''log'' e3 = Inr (OK, e4) \<and>
    sf_Read mem_sequential 2 [] (h, e4) = Inr (OK, [1, 2], s) \<and>
    sf_Read mem_sequential 5 [] s = Inr (OK, [3], t)"
  using mem_file_roundtrip [OF env_reachable.init, of "''log''" "[1, 2, 3]" 2 "[]" 5]
  by (simp add: name_fits_def)

text \<open>
  C35: the two operations that break it. \<open>NewAppendableFile\<close> of a missing file leaves a null pointer
  under the name, which the table then reports as existing, and opening it for reading dereferences
  it; renaming a file to itself succeeds and removes it.
\<close>

theorem mem_env_broken:
  assumes "env_reachable (e, H)"
  shows "(\<not> FileExists k e \<longrightarrow> (\<exists>a e'. NewAppendableFile k e = Inr (OK, a, e') \<and> FileExists k e' \<and>
      NewSequentialFile k e' = Inl NullDeref)) \<and>
    (FileExists k e \<longrightarrow> (\<exists>e'. RenameFile k k e = Inr (OK, e') \<and> \<not> FileExists k e'))"
proof -
  from reachable_ok [OF assms] have e: "env_ok e H" by (simp add: state_ok_def)
  then have m: "names_ok (file_map e)" "counted e (owners (file_map e) + H)" by (simp_all add: env_ok_def)
  then have srt: "sorted_wrt (<) (map fst (file_map e))" by (simp add: names_ok_def)
  let ?e = "e\<lparr>file_map := fm_set k None (file_map e)\<rparr>"
  from alloc_counted [of ?e "owners (file_map e) + H"] m(2) obtain e1 e2 where
    a: "alloc ?e = (next_addr ?e, e1)" "Ref (Some (next_addr ?e)) e1 = Inr (next_addr ?e, e2)"
      "counted e2 (add_mset (next_addr ?e) (owners (file_map e) + H))" "file_map e2 = file_map ?e" by auto
  from Ref_counted [OF a(3), of "next_addr ?e"] obtain e3 where
    b: "Ref (Some (next_addr ?e)) e2 = Inr (next_addr ?e, e3)" "file_map e3 = file_map ?e" using a(4) by auto
  have "\<exists>a e'. NewAppendableFile k e = Inr (OK, a, e') \<and> FileExists k e' \<and> NewSequentialFile k e' = Inl NullDeref"
    if "map_of (file_map e) k = None"
    using that a b fm_set_map_of [OF srt, of k None]
    by (auto simp: NewAppendableFile_def fm_index_def FileExists_def NewSequentialFile_def
      new_SequentialFileImpl_def Ref_def)
  moreover have "\<exists>e'. RenameFile k k e = Inr (OK, e') \<and> \<not> FileExists k e'" if "map_of (file_map e) k = Some p" for p
    using that DeleteFileInternal_ok [OF e, of k]
    by (auto simp: RenameFile_def FileExists_def fm_index_def Let_def fm_erase_map_of split: option.splits)
  ultimately show ?thesis by (auto simp: FileExists_def)
qed

theorem mem_env_broken_witness:
  "\<exists>a e'. NewAppendableFile ''x'' new_InMemoryEnv = Inr (OK, a, e') \<and>
    NewSequentialFile ''x'' e' = Inl NullDeref"
  using mem_env_broken [OF env_reachable.init, of "''x''"]
  by (auto simp: FileExists_def new_InMemoryEnv_def)

end
