(* ===== verification/Log_Correct.thy ===== *)
theory Log_Correct
  imports Log Mem_Env
begin

section \<open>Correctness of the log\<close>

text \<open>
  What the writer writes, as a relation between records and bytes; that the writer writes it and the
  reader reads it back, over every file that meets its contract; what is left of a log that was cut
  off; and that the reader stops on every file.
\<close>

subsection \<open>The bytes of a record\<close>

definition port_crc_ok :: "(u32 \<Rightarrow> slice \<Rightarrow> u32) \<Rightarrow> bool" where
  "port_crc_ok acc \<longleftrightarrow> (CanAccelerateCRC32C acc \<longrightarrow> (\<forall>c b. acc c b = crc32c c b))"

lemma Extend_ok: "port_crc_ok acc \<Longrightarrow> Extend acc p c b = crc32c c b"
  by (cases "CanAccelerateCRC32C acc") (simp_all add: Extend_reference port_crc_ok_def, simp add: Extend_def)

lemma crc_value_ok: "port_crc_ok acc \<Longrightarrow> crc_value acc p b = crc32c 0 b"
  by (simp add: crc_value_def Extend_ok)

lemma log_sizes: "kHeaderSize = 7" "kBlockSize = 32768" "kMaxRecordType = 4"
  by (simp_all add: kHeaderSize_def kBlockSize_def kMaxRecordType_def type_number_def)

definition phys :: "RecordType \<Rightarrow> slice \<Rightarrow> slice" where
  "phys t x = EncodeFixed32 (Mask (crc32c 0 (of_nat (type_number t) # x))) @
     [of_nat (length x mod 256), of_nat (length x div 256), of_nat (type_number t)] @ x"

lemma length_phys [simp]: "length (phys t x) = 7 + length x"
  by (simp add: phys_def)

lemma type_number_less: "type_number t < 5"
  by (cases t) (simp_all add: type_number_def)

lemma type_number_inj [simp]: "type_number t = type_number u \<longleftrightarrow> t = u"
  by (cases t; cases u) (simp_all add: type_number_def)

text \<open>Where the next physical record starts, and the trailer before it.\<close>

definition frame_start :: "nat \<Rightarrow> nat" where
  "frame_start off = (if kBlockSize - off < kHeaderSize then 0 else off)"

definition frame_pad :: "nat \<Rightarrow> slice" where
  "frame_pad off = (if kBlockSize - off < kHeaderSize then replicate (kBlockSize - off) 0 else [])"

definition frame_avail :: "nat \<Rightarrow> nat" where
  "frame_avail off = kBlockSize - frame_start off - kHeaderSize"

text \<open>
  \<open>frames off beg x bs off'\<close>: from offset \<open>off\<close> of a block, the rest \<open>x\<close> of a record, with \<open>beg\<close>
  all of it, is written as \<open>bs\<close> and ends at \<open>off'\<close>.
\<close>

inductive frames :: "nat \<Rightarrow> bool \<Rightarrow> slice \<Rightarrow> slice \<Rightarrow> nat \<Rightarrow> bool" where
  last_frame: "length x \<le> frame_avail off \<Longrightarrow>
    frames off beg x (frame_pad off @ phys (fragment_type beg True) x) (frame_start off + 7 + length x)"
| more_frames: "\<not> length x \<le> frame_avail off \<Longrightarrow> frames kBlockSize False (drop (frame_avail off) x) bs off' \<Longrightarrow>
    frames off beg x (frame_pad off @ phys (fragment_type beg False) (take (frame_avail off) x) @ bs) off'"

inductive log_of :: "nat \<Rightarrow> slice list \<Rightarrow> slice \<Rightarrow> nat \<Rightarrow> bool" where
  log_nil: "log_of off [] [] off"
| log_cons: "frames off True x b off1 \<Longrightarrow> log_of off1 xs bs off' \<Longrightarrow> log_of off (x # xs) (b @ bs) off'"

inductive_cases log_consE: "log_of off (x # xs) bs off'"
inductive_cases log_nilE: "log_of off [] bs off'"

lemma log_of_append: "log_of off xs bs off1 \<Longrightarrow> log_of off1 ys cs off2 \<Longrightarrow> log_of off (xs @ ys) (bs @ cs) off2"
  by (induction rule: log_of.induct) (auto intro: log_cons)

lemma frame_fits: "off \<le> kBlockSize \<Longrightarrow> frame_start off + 7 + frame_avail off = kBlockSize"
  by (auto simp: frame_start_def frame_avail_def log_sizes)

lemma frames_offset: "frames off beg x bs off' \<Longrightarrow> off \<le> kBlockSize \<Longrightarrow> off' \<le> kBlockSize"
proof (induction rule: frames.induct)
  case (last_frame x off beg)
  then show ?case using frame_fits [of off] by simp
qed simp

subsection \<open>The writer writes them\<close>

text \<open>The records are added one after the other, up to the first error.\<close>

fun add_records :: "(u32 \<Rightarrow> slice \<Rightarrow> u32) \<Rightarrow> 's WritableFile \<Rightarrow> slice list \<Rightarrow> Writer \<Rightarrow> 's
    \<Rightarrow> (Status \<times> Writer \<times> 's) res" where
  "add_records acc f [] w s = Inr (OK, w, s)"
| "add_records acc f (x # xs) w s = bind_res (AddRecord acc f x w s) (\<lambda>(st, w, s).
     if ok st then add_records acc f xs w s else Inr (st, w, s))"

lemma type_crc_nth: "InitTypeCrc acc ! type_number t = crc_value acc 0 [of_nat (type_number t)]"
  and type_crc_length: "length (InitTypeCrc acc) = 5"
  using type_number_less [of t] by (simp_all add: InitTypeCrc_def log_sizes del: upt_Suc)

context writable_file
begin

lemma Emit_appends:
  assumes "port_crc_ok acc" "type_crc w = InitTypeCrc acc" "inv s"
    and "block_offset w + 7 + length x \<le> kBlockSize"
  shows "\<exists>s'. EmitPhysicalRecord acc f t x w s =
      Inr (OK, w\<lparr>block_offset := block_offset w + 7 + length x\<rparr>, s') \<and> inv s' \<and>
      contents s' = contents s @ phys t x"
proof -
  let ?tc = "crc_value acc 0 [of_nat (type_number t)]"
  let ?buf = "EncodeFixed32 (Mask (Extend acc 0 ?tc x)) @
    [of_nat (length x mod 256), of_nat (length x div 256), of_nat (type_number t)]"
  have crc: "Extend acc 0 ?tc x = crc32c 0 (of_nat (type_number t) # x)"
    using crc32c_append [of 0 "[of_nat (type_number t)]" x]
    by (simp add: Extend_ok [OF assms(1)] crc_value_ok [OF assms(1)])
  from append [OF assms(3), of ?buf] obtain s1 where
    1: "wf_Append f ?buf s = Inr (OK, s1)" "inv s1" "contents s1 = contents s @ ?buf" by blast
  from append [OF 1(2), of x] obtain s2 where
    2: "wf_Append f x s1 = Inr (OK, s2)" "inv s2" "contents s2 = contents s1 @ x" by blast
  from flush [OF 2(2)] obtain s3 where
    3: "wf_Flush f s2 = Inr (OK, s3)" "inv s3" "contents s3 = contents s2" by blast
  have "vec_at (type_crc w) (int (type_number t)) = Inr ?tc"
    using type_number_less [of t] by (simp add: assms(2) type_crc_nth type_crc_length)
  moreover have "length x \<le> 0xffff" using assms(4) by (simp add: log_sizes)
  moreover have "?buf @ x = phys t x" by (simp add: phys_def crc)
  ultimately show ?thesis
    using assms(4) 1 2 3 by (simp add: EmitPhysicalRecord_def Let_def log_sizes(1))
qed

lemma add_fragments_appends:
  assumes "port_crc_ok acc" "type_crc w = InitTypeCrc acc" "inv s" "block_offset w \<le> kBlockSize"
  shows "\<exists>bs off s'. add_fragments acc f beg x w s = Inr (OK, w\<lparr>block_offset := off\<rparr>, s') \<and> inv s' \<and>
    frames (block_offset w) beg x bs off \<and> contents s' = contents s @ bs"
  using assms(2-4)
proof (induction "2 * length x + (if block_offset w + kHeaderSize = kBlockSize then 1 else 0)"
    arbitrary: beg x w s rule: less_induct)
  case less
  let ?off = "block_offset w" and ?n = "if length x < frame_avail (block_offset w) then length x else frame_avail (block_offset w)"
  from append [OF less.prems(2), of "replicate (kBlockSize - ?off) 0"] have "\<exists>s1. (if kBlockSize - ?off < kHeaderSize then
      bind_res (if kBlockSize - ?off > 0 then wf_Append f (replicate (kBlockSize - ?off) 0) s else Inr (OK, s))
        (\<lambda>(_, s). Inr (0, s)) else Inr (?off, s)) = Inr (frame_start ?off, s1) \<and> inv s1 \<and>
      contents s1 = contents s @ frame_pad ?off"
    using less.prems(2) by (cases "kBlockSize - ?off < kHeaderSize"; cases "0 < kBlockSize - ?off")
      (auto simp: frame_start_def frame_pad_def)
  then obtain s1 where 1: "(if kBlockSize - ?off < kHeaderSize then
      bind_res (if kBlockSize - ?off > 0 then wf_Append f (replicate (kBlockSize - ?off) 0) s else Inr (OK, s))
        (\<lambda>(_, s). Inr (0, s)) else Inr (?off, s)) = Inr (frame_start ?off, s1)" "inv s1"
      "contents s1 = contents s @ frame_pad ?off" by blast
  have fit: "frame_start ?off + 7 + frame_avail ?off = kBlockSize" by (rule frame_fits [OF less.prems(3)])
  let ?w = "w\<lparr>block_offset := frame_start ?off\<rparr>"
  have "block_offset ?w + 7 + length (take ?n x) \<le> kBlockSize" using fit by simp
  from Emit_appends [OF assms(1) _ 1(2) this, of "fragment_type beg (length x = ?n)"] less.prems(1) fit obtain s2 where
    2: "EmitPhysicalRecord acc f (fragment_type beg (length x = ?n)) (take ?n x) ?w s1 =
        Inr (OK, w\<lparr>block_offset := frame_start ?off + 7 + ?n\<rparr>, s2)" "inv s2"
      "contents s2 = contents s1 @ phys (fragment_type beg (length x = ?n)) (take ?n x)"
    by (auto simp: min_def split: if_splits)
  let ?w2 = "w\<lparr>block_offset := frame_start ?off + 7 + ?n\<rparr>"
  have g: "(?off \<le> kBlockSize) = True" "(frame_start ?off + kHeaderSize \<le> kBlockSize) = True"
    using less.prems(3) fit by (simp_all add: log_sizes(1))
  have e: "add_fragments acc f beg x w s =
      (if length (drop ?n x) > 0 then add_fragments acc f False (drop ?n x) ?w2 s2 else Inr (OK, ?w2, s2))"
    by (subst add_fragments.simps) (simp only: g 2(1) Let_def 1(1) bind_res_Inr case_prod_conv frame_avail_def [symmetric] guard_res_simps
        status_of_not_ok simp_thms cong: if_cong)
  show ?case
  proof (cases "length x \<le> frame_avail ?off")
    case True
    then have n: "?n = length x" by simp
    then show ?thesis
      using e 1 2 last_frame [OF True, of beg] by (auto simp: n)
  next
    case False
    then have n: "?n = frame_avail ?off" by simp
    have o: "block_offset ?w2 = kBlockSize" using fit by (simp add: n)
    have "2 * length (drop ?n x) + (if block_offset ?w2 + kHeaderSize = kBlockSize then 1 else 0)
        < 2 * length x + (if block_offset w + kHeaderSize = kBlockSize then 1 else 0)"
      using False o less.prems(3) by (auto simp: n log_sizes frame_avail_def frame_start_def split: if_splits)
    from less.hyps [OF this, of s2 False] less.prems(1) 2(2) o obtain bs off s3 where
      3: "add_fragments acc f False (drop ?n x) ?w2 s2 = Inr (OK, w\<lparr>block_offset := off\<rparr>, s3)" "inv s3"
        "frames kBlockSize False (drop ?n x) bs off" "contents s3 = contents s2 @ bs" by auto
    have "frames ?off beg x (frame_pad ?off @ phys (fragment_type beg False) (take (frame_avail ?off) x) @ bs) off"
      using more_frames [OF False, of bs off beg] 3(3) by (simp add: n)
    then show ?thesis
      using e 1 2 3 False by (auto simp: n)
  qed
qed

lemma add_records_appends:
  assumes "port_crc_ok acc" "type_crc w = InitTypeCrc acc" "inv s" "block_offset w \<le> kBlockSize"
  shows "\<exists>bs off s'. add_records acc f xs w s = Inr (OK, w\<lparr>block_offset := off\<rparr>, s') \<and> inv s' \<and>
    log_of (block_offset w) xs bs off \<and> off \<le> kBlockSize \<and> contents s' = contents s @ bs"
  using assms(2-4)
proof (induction xs arbitrary: w s)
  case Nil
  then show ?case by (auto intro: exI [of _ "[]"] exI [of _ "block_offset w"] log_nil)
next
  case (Cons x xs)
  from add_fragments_appends [OF assms(1) Cons.prems, of True x] obtain bs off s1 where
    1: "AddRecord acc f x w s = Inr (OK, w\<lparr>block_offset := off\<rparr>, s1)" "inv s1"
      "frames (block_offset w) True x bs off" "contents s1 = contents s @ bs" by (auto simp: AddRecord_def)
  from Cons.IH [of "w\<lparr>block_offset := off\<rparr>" s1] Cons.prems 1 frames_offset [OF 1(3)] obtain cs off2 s2 where
    "add_records acc f xs (w\<lparr>block_offset := off\<rparr>) s1 = Inr (OK, w\<lparr>block_offset := off2\<rparr>, s2)" "inv s2"
    "log_of off xs cs off2" "off2 \<le> kBlockSize" "contents s2 = contents s1 @ cs" by auto
  then show ?case using 1 log_cons [OF 1(3)] by auto
qed

end

subsection \<open>The reader reads them\<close>

lemma scast_type: "(scast (of_nat (type_number t) :: byte) :: u32) = of_nat (type_number t)"
  by (cases t) (simp_all add: type_number_def)

lemma header_length: "n \<le> 0xffff \<Longrightarrow> unat (of_nat (n mod 256) :: byte) + unat (of_nat (n div 256) :: byte) * 256 = n"
  by (simp add: unat_of_nat less_mult_imp_div_less)

text \<open>A whole physical record at the start of the buffer, and one that is cut off.\<close>

lemma phys_header:
  assumes "h = phys t x" and "length x \<le> 0xffff"
  shows "vec_at (h @ y) 4 = Inr (of_nat (length x mod 256))" "vec_at (h @ y) 5 = Inr (of_nat (length x div 256))"
    "vec_at (h @ y) 6 = Inr (of_nat (type_number t))"
    "DecodeFixed32 (h @ y) = Inr (Mask (crc32c 0 (of_nat (type_number t) # x)))"
    "take (Suc (length x)) (drop 6 (h @ y)) = of_nat (type_number t) # x"
    "take (length x) (drop 7 (h @ y)) = x"
  using assms by (simp_all add: phys_def vec_at_def nth_append)

lemma phys_drop: "drop (7 + length x) (phys t x @ y) = y"
  by (metis append_eq_conv_conj length_phys)

lemma parse_phys:
  assumes "port_crc_ok acc" "buffer r = phys t x @ y" "length x \<le> 0xffff" "t \<noteq> kZeroType" "initial_offset r = 0"
  shows "parse_physical acc result r = Inr (of_nat (type_number t), x, r\<lparr>buffer := y\<rparr>)"
proof -
  have "(of_nat (type_number t) :: u32) \<noteq> 0"
    using assms(4) by (cases t) (simp_all add: type_number_def)
  moreover note h = phys_header [OF refl assms(3), of t y]
  ultimately show ?thesis
    using assms(2,5) header_length [OF assms(3)]
    by (simp add: parse_physical_def h phys_drop scast_type log_sizes(1) crc_value_ok [OF assms(1)] Unmask_Mask)
qed

lemma parse_cut:
  assumes "buffer r = b" "b @ z = phys t x" "z \<noteq> []" "7 \<le> length b" "length x \<le> 0xffff" "eof r"
  shows "parse_physical acc result r = Inr (kEof, result, r\<lparr>buffer := []\<rparr>)"
proof -
  have "vec_at b i = vec_at (b @ z) i" if "0 \<le> i" "i < 7" for i
  proof -
    have "nat i < length b" "i < int (length b)" using that assms(4) by linarith+
    then show ?thesis using that by (simp add: vec_at_def nth_append)
  qed
  then have h: "vec_at b 4 = Inr (of_nat (length x mod 256))" "vec_at b 5 = Inr (of_nat (length x div 256))"
    "vec_at b 6 = Inr (of_nat (type_number t))"
    using phys_header(1-3) [OF refl assms(5), of t "[]"] by (simp_all add: assms(2))
  have "length b + length z = 7 + length x" using arg_cong [OF assms(2), of length] by simp
  then have "7 + length x > length b" using assms(3) by (cases z) auto
  then show ?thesis
    using assms(1,6) header_length [OF assms(5)] by (simp add: parse_physical_def h log_sizes(1))
qed

text \<open>All records up to the first \<open>false\<close>: \<open>m\<close> bounds their number, \<open>n\<close> is the fuel of each.\<close>

fun read_records :: "nat \<Rightarrow> nat \<Rightarrow> (u32 \<Rightarrow> slice \<Rightarrow> u32) \<Rightarrow> 's SequentialFile \<Rightarrow> Reader \<Rightarrow> 's
    \<Rightarrow> (slice list \<times> Reader \<times> 's) res" where
  "read_records 0 n acc f r s = Inl OutOfFuel"
| "read_records (Suc m) n acc f r s = bind_res (ReadRecord n acc f r s) (\<lambda>(go, x, r, s).
     if go then bind_res (read_records m n acc f r s) (\<lambda>(xs, r, s). Inr (x # xs, r, s))
     else Inr ([], r, s))"

text \<open>The reader stops without a fault on any bytes.\<close>

lemma length_nat_to_string: "length (nat_to_string n) \<le> 1 + n div 10"
proof (induction n rule: nat_to_string.induct)
  case (1 n)
  show ?case
  proof (cases "n < 10")
    case False
    then have "1 \<le> n div 10" by simp
    then have "1 + n div 10 div 10 \<le> n div 10" by linarith
    then show ?thesis using 1 [OF False] by (subst nat_to_string.simps) (simp add: False)
  qed (simp add: nat_to_string.simps)
qed

lemma ReportCorruption_total:
  assumes "length reason < 2 ^ 32"
  shows "\<exists>r'. ReportCorruption bytes reason r = Inr r' \<and> buffer r' = buffer r"
  using new_Status_one [of kCorruption "map char_byte reason"] assms
  by (auto simp: ReportCorruption_def Corruption_def ReportDrop_def)

lemma parse_total:
  assumes "7 \<le> length (buffer r)"
  shows "\<exists>t x r'. parse_physical acc result r = Inr (t, x, r') \<and> length (buffer r') < length (buffer r)"
proof -
  from assms obtain a b c d e g h y where y: "buffer r = a # b # c # d # e # g # h # y"
    by (auto simp: Suc_le_length_iff numeral_eq_Suc)
  obtain w where w: "DecodeFixed32 (buffer r) = Inr w" by (simp add: y DecodeFixed32_def)
  have v: "vec_at (buffer r) 4 = Inr e" "vec_at (buffer r) 5 = Inr g" "vec_at (buffer r) 6 = Inr h"
    by (simp_all add: y vec_at_def nth_Cons')
  from ReportCorruption_total [of "''bad record length''" "of_nat (length (buffer r))" "r\<lparr>buffer := []\<rparr>"]
  obtain r1 where 1: "ReportCorruption (of_nat (length (buffer r))) ''bad record length'' (r\<lparr>buffer := []\<rparr>) = Inr r1"
    "buffer r1 = []" by auto
  from ReportCorruption_total [of "''checksum mismatch''" "of_nat (length (buffer r))" "r\<lparr>buffer := []\<rparr>"]
  obtain r2 where 2: "ReportCorruption (of_nat (length (buffer r))) ''checksum mismatch'' (r\<lparr>buffer := []\<rparr>) = Inr r2"
    "buffer r2 = []" by auto
  have "0 < length (buffer r)" by (simp add: y)
  then show ?thesis
    unfolding parse_physical_def Let_def v bind_res_Inr w log_sizes(1)
    using 1 2 by (auto simp: diff_less)
qed

context sequential_file
begin

text \<open>The reader stands at offset \<open>off\<close> of a block, before the bytes \<open>R\<close>.\<close>

definition reader_at :: "Reader \<Rightarrow> 's \<Rightarrow> nat \<Rightarrow> slice \<Rightarrow> bool" where
  "reader_at r s off R \<longleftrightarrow> inv s \<and> R = buffer r @ rest s \<and> off \<le> kBlockSize \<and>
     initial_offset r = 0 \<and> \<not> resyncing r \<and>
     (if eof r then rest s = [] \<and> length (buffer r) \<le> kBlockSize - off
      else length (buffer r) = kBlockSize - off)"

lemma reader_at_new: "inv s \<Longrightarrow> reader_at (new_Reader rep chk 0) s kBlockSize (rest s)"
  by (simp add: reader_at_def new_Reader_def)

text \<open>A buffer shorter than a header is filled with the next block.\<close>

lemma fill:
  assumes "reader_at r s off R" "kBlockSize - off < 7" "\<not> eof r"
  shows "\<exists>r' s'. ReadPhysicalRecord acc f result r s = ReadPhysicalRecord acc f result r' s' \<and>
    reader_at r' s' 0 (drop (kBlockSize - off) R) \<and> (length (drop (kBlockSize - off) R) < kBlockSize \<longrightarrow> eof r') \<and>
    reports r' = reports r \<and> checksum r' = checksum r"
proof -
  from assms(1,3) have a: "inv s" "R = buffer r @ rest s" "length (buffer r) = kBlockSize - off"
    by (simp_all add: reader_at_def)
  from read [OF a(1), of kBlockSize "[]"] obtain s' where
    s': "sf_Read f kBlockSize [] s = Inr (OK, take kBlockSize (rest s), s')" "inv s'" "rest s' = drop kBlockSize (rest s)"
    by blast
  let ?r = "r\<lparr>buffer := take kBlockSize (rest s),
    end_of_buffer_offset := end_of_buffer_offset r + of_nat (length (take kBlockSize (rest s)))\<rparr>"
  let ?r' = "if length (take kBlockSize (rest s)) < kBlockSize then ?r\<lparr>eof := True\<rparr> else ?r"
  have "ReadPhysicalRecord acc f result r s = ReadPhysicalRecord acc f result ?r' s'"
    using a(3) assms(2,3) s'(1)
    by (subst ReadPhysicalRecord.simps) (simp add: log_sizes(1) Let_def min_less_iff_disj)
  moreover have "reader_at ?r' s' 0 (rest s)"
    using assms(1,3) s' by (auto simp: reader_at_def)
  moreover have "drop (kBlockSize - off) R = rest s" using a by simp
  ultimately show ?thesis by (intro exI [of _ ?r'] exI [of _ s']) auto
qed

lemma ReadPhysical_parse:
  "7 \<le> length (buffer r) \<Longrightarrow> ReadPhysicalRecord acc f result r s =
    bind_res (parse_physical acc result r) (\<lambda>(t, result, r). Inr (t, result, r, s))"
  by (subst ReadPhysicalRecord.simps) (simp add: log_sizes(1))

lemma ReadPhysical_eof:
  "length (buffer r) < 7 \<Longrightarrow> eof r \<Longrightarrow> ReadPhysicalRecord acc f result r s = Inr (kEof, result, r\<lparr>buffer := []\<rparr>, s)"
  by (subst ReadPhysicalRecord.simps) (simp add: log_sizes(1))

lemma read_phys_aligned:
  assumes "port_crc_ok acc" "reader_at r s off R" "R = phys t x @ R'" "t \<noteq> kZeroType"
    and "off + 7 + length x \<le> kBlockSize"
  shows "\<exists>r'. ReadPhysicalRecord acc f result r s = Inr (of_nat (type_number t), x, r', s) \<and>
    reader_at r' s (off + 7 + length x) R' \<and> reports r' = reports r"
proof -
  have len: "length (phys t x) \<le> length (buffer r)"
    using assms(2,3,5) by (auto simp: reader_at_def dest: arg_cong [of _ _ length] split: if_splits)
  have "take (7 + length x) R = take (7 + length x) (buffer r)"
    using assms(2) len by (simp add: reader_at_def)
  moreover have "take (7 + length x) R = phys t x" using assms(3) by simp
  ultimately obtain y where y: "buffer r = phys t x @ y" by (metis append_take_drop_id)
  have "length x \<le> 0xffff" using assms(5) by (simp add: log_sizes)
  from parse_phys [OF assms(1) y this assms(4)] assms(2)
  have "parse_physical acc result r = Inr (of_nat (type_number t), x, r\<lparr>buffer := y\<rparr>)"
    by (simp add: reader_at_def)
  moreover have "reader_at (r\<lparr>buffer := y\<rparr>) s (off + 7 + length x) R'"
    using assms(2,3,5) y by (auto simp: reader_at_def)
  ultimately show ?thesis by (simp add: ReadPhysical_parse y)
qed

lemma read_frame:
  assumes "port_crc_ok acc" "reader_at r s off R" "R = frame_pad off @ phys t x @ R'" "t \<noteq> kZeroType"
    and "length x \<le> frame_avail off"
  shows "\<exists>r' s'. ReadPhysicalRecord acc f result r s = Inr (of_nat (type_number t), x, r', s') \<and>
    reader_at r' s' (frame_start off + 7 + length x) R' \<and> reports r' = reports r"
proof -
  have off: "off \<le> kBlockSize" using assms(2) by (simp add: reader_at_def)
  have fit: "frame_start off + 7 + length x \<le> kBlockSize" using frame_fits [OF off] assms(5) by simp
  show ?thesis
  proof (cases "kBlockSize - off < 7")
    case True
    have "\<not> eof r"
    proof
      assume "eof r"
      with assms(2) have "length R \<le> kBlockSize - off" by (simp add: reader_at_def)
      with True assms(3) show False by simp
    qed
    from fill [OF assms(2) True this, of acc result] obtain r1 s1 where
      1: "ReadPhysicalRecord acc f result r s = ReadPhysicalRecord acc f result r1 s1"
        "reader_at r1 s1 0 (phys t x @ R')" "reports r1 = reports r"
      using True assms(3) by (auto simp: frame_pad_def log_sizes(1))
    from read_phys_aligned [OF assms(1) 1(2) refl assms(4), of result] fit True 1 show ?thesis
      by (fastforce simp: frame_start_def log_sizes(1))
  next
    case False
    with read_phys_aligned [OF assms(1,2) _ assms(4), of x R' result] fit assms(3) show ?thesis
      by (fastforce simp: frame_start_def frame_pad_def log_sizes(1))
  qed
qed

lemma read_cut_aligned:
  assumes "reader_at r s off R" "R @ z = phys t x" "z \<noteq> []" "off + 7 + length x \<le> kBlockSize" "eof r"
  shows "\<exists>r'. ReadPhysicalRecord acc f result r s = Inr (kEof, result, r', s) \<and> reports r' = reports r"
proof (cases "length (buffer r) < 7")
  case True
  then show ?thesis using ReadPhysical_eof [OF True assms(5)] by auto
next
  case False
  have b: "buffer r @ z = phys t x" using assms(1,2,5) by (simp add: reader_at_def)
  have "length x \<le> 0xffff" using assms(4) by (simp add: log_sizes)
  from parse_cut [OF refl b assms(3) _ this assms(5)] False ReadPhysical_parse [of r] show ?thesis by simp
qed

lemma read_cut:
  assumes "reader_at r s off R" "R @ z = frame_pad off @ phys t x" "z \<noteq> []" "length x \<le> frame_avail off"
  shows "\<exists>r' s'. ReadPhysicalRecord acc f result r s = Inr (kEof, result, r', s') \<and> reports r' = reports r"
proof -
  have off: "off \<le> kBlockSize" using assms(1) by (simp add: reader_at_def)
  have fit: "frame_start off + 7 + length x \<le> kBlockSize" using frame_fits [OF off] assms(4) by simp
  have len: "length R < length (frame_pad off) + (7 + length x)"
    using arg_cong [OF assms(2), of length] assms(3) by (cases z) auto
  show ?thesis
  proof (cases "kBlockSize - off < 7")
    case True
    show ?thesis
    proof (cases "eof r")
      case eof: True
      with assms(1) True have "length (buffer r) < 7" by (simp add: reader_at_def)
      with eof show ?thesis using ReadPhysical_eof [of r acc result s] by auto
    next
      case False
      from fill [OF assms(1) True False, of acc result] obtain r1 s1 where
        1: "ReadPhysicalRecord acc f result r s = ReadPhysicalRecord acc f result r1 s1"
          "reader_at r1 s1 0 (drop (kBlockSize - off) R)"
          "length (drop (kBlockSize - off) R) < kBlockSize \<longrightarrow> eof r1" "reports r1 = reports r" by blast
      have "kBlockSize - off \<le> length R" using assms(1) False by (simp add: reader_at_def)
      then have "drop (kBlockSize - off) R @ z = drop (kBlockSize - off) (R @ z)" by simp
      also have "\<dots> = phys t x" using True by (simp add: assms(2) frame_pad_def log_sizes(1))
      finally have c: "drop (kBlockSize - off) R @ z = phys t x" .
      have fit0: "0 + 7 + length x \<le> kBlockSize" using fit by simp
      have "eof r1" using 1(3) len True fit0 by (simp add: frame_pad_def log_sizes(1))
      from read_cut_aligned [OF 1(2) c assms(3) fit0 this, of acc result] 1(1,4) show ?thesis by metis
    qed
  next
    case False
    then have p: "frame_pad off = []" "frame_start off = off" by (simp_all add: frame_pad_def frame_start_def log_sizes(1))
    have "eof r"
    proof (rule ccontr)
      assume "\<not> eof r"
      then have "kBlockSize - off \<le> length R" using assms(1) by (simp add: reader_at_def)
      with len fit p show False by simp
    qed
    from read_cut_aligned [OF assms(1) _ assms(3) _ this, of t x acc result] assms(2) p fit show ?thesis by fastforce
  qed
qed

lemma reader_at_last [simp]: "reader_at (r\<lparr>last_record_offset := p\<rparr>) s off R = reader_at r s off R"
  by (simp add: reader_at_def)

lemma reader_at_off: "reader_at r s off R \<Longrightarrow> off \<le> kBlockSize"
  by (simp add: reader_at_def)

lemma reader_at_resync: "reader_at r s off R \<Longrightarrow> \<not> resyncing r"
  by (simp add: reader_at_def)

lemma type_numbers: "of_nat (type_number kFullType) = (1 :: u32)" "of_nat (type_number kFirstType) = (2 :: u32)"
  "of_nat (type_number kMiddleType) = (3 :: u32)" "of_nat (type_number kLastType) = (4 :: u32)"
  "kEof = 5" "kBadRecord = 6"
  by (simp_all add: type_number_def kEof_def kBadRecord_def kMaxRecordType_def)

lemma fragment_not_zero: "fragment_type beg end' \<noteq> kZeroType"
  by (simp add: fragment_type_def)

lemma read_loop_frames:
  assumes "port_crc_ok acc"
  shows "frames off beg x bs off' \<Longrightarrow> reader_at r s off (bs @ R') \<Longrightarrow> length bs < n \<Longrightarrow> (beg \<Longrightarrow> scratch = []) \<Longrightarrow>
    \<exists>r' s'. read_loop n acc f (\<not> beg) p fr scratch r s = Inr (True, scratch @ x, r', s') \<and>
      reader_at r' s' off' R' \<and> reports r' = reports r"
proof (induction arbitrary: r s n scratch p fr rule: frames.induct)
  case (last_frame x off beg)
  then obtain m where n: "n = Suc m" by (cases n) auto
  from read_frame [OF assms last_frame.prems(1) _ fragment_not_zero last_frame.hyps, of beg True R' fr]
  obtain r' s' where 1: "ReadPhysicalRecord acc f fr r s = Inr (of_nat (type_number (fragment_type beg True)), x, r', s')"
    "reader_at r' s' (frame_start off + 7 + length x) R'" "reports r' = reports r" by auto
  then show ?case using last_frame.prems(3) reader_at_resync [OF 1(2)]
    by (cases beg) (auto simp: n fragment_type_def type_numbers Let_def)
next
  case (more_frames x off bs off' beg)
  then obtain m where n: "n = Suc m" by (cases n) auto
  have lx: "length (take (frame_avail off) x) \<le> frame_avail off" by simp
  have o: "frame_start off + 7 + length (take (frame_avail off) x) = kBlockSize"
    using frame_fits [OF reader_at_off [OF more_frames.prems(1)]] more_frames.hyps(1) by simp
  from read_frame [OF assms more_frames.prems(1) _ fragment_not_zero lx, of beg False "bs @ R'" fr, unfolded o]
    more_frames.prems(1)
  obtain r1 s1 where 1: "ReadPhysicalRecord acc f fr r s =
      Inr (of_nat (type_number (fragment_type beg False)), take (frame_avail off) x, r1, s1)"
    "reader_at r1 s1 kBlockSize (bs @ R')" "reports r1 = reports r"
    by auto
  let ?sc = "if beg then take (frame_avail off) x else scratch @ take (frame_avail off) x"
  have "length bs < m" using more_frames.prems(2) by (simp add: n)
  note IH = more_frames.IH [OF 1(2) this]
  have "\<exists>r' s'. read_loop m acc f True q (take (frame_avail off) x) ?sc r1 s1 =
      Inr (True, ?sc @ drop (frame_avail off) x, r', s') \<and> reader_at r' s' off' R' \<and> reports r' = reports r1" for q
    using IH by simp
  then show ?case using 1 more_frames.prems(3) reader_at_resync [OF 1(2)]
    by (cases beg) (simp_all add: n fragment_type_def type_numbers Let_def)
qed

lemma read_loop_cut:
  assumes "port_crc_ok acc"
  shows "frames off beg x bs off' \<Longrightarrow> reader_at r s off R \<Longrightarrow> R @ z = bs \<Longrightarrow> z \<noteq> [] \<Longrightarrow> length bs < n \<Longrightarrow>
    \<exists>r' s'. read_loop n acc f (\<not> beg) p fr scratch r s = Inr (False, [], r', s') \<and> reports r' = reports r"
proof (induction arbitrary: r s n scratch p fr R z rule: frames.induct)
  case (last_frame x off beg)
  then obtain m where n: "n = Suc m" by (cases n) auto
  from read_cut [OF last_frame.prems(1,2,3) last_frame.hyps, of acc fr] obtain r1 s1 where
    "ReadPhysicalRecord acc f fr r s = Inr (kEof, fr, r1, s1)" "reports r1 = reports r" by blast
  then show ?case by (simp add: n type_numbers Let_def)
next
  case (more_frames x off bs off' beg)
  then obtain m where n: "n = Suc m" by (cases n) auto
  let ?x = "take (frame_avail off) x"
  have lx: "length ?x \<le> frame_avail off" by simp
  have o: "frame_start off + 7 + length (take (frame_avail off) x) = kBlockSize"
    using frame_fits [OF reader_at_off [OF more_frames.prems(1)]] more_frames.hyps(1) by simp
  let ?A = "frame_pad off @ phys (fragment_type beg False) ?x"
  have "R @ z = ?A @ bs" using more_frames.prems(2) by simp
  then obtain us where us: "R = ?A @ us \<and> us @ z = bs \<or> R @ us = ?A \<and> us @ bs = z"
    unfolding append_eq_append_conv2 by auto
  consider (whole) us where "R = ?A @ us" "us @ z = bs" | (cut) us where "R @ us = ?A" "us \<noteq> []"
  proof (cases "R = ?A @ us \<and> us @ z = bs")
    case False
    with us show ?thesis using that(1) [of "[]"] that(2) [of us] by (cases "us = []") auto
  qed (use that(1) in blast)
  then show ?case
  proof cases
    case cut
    from read_cut [OF more_frames.prems(1) cut lx, of acc fr] obtain r1 s1 where
      "ReadPhysicalRecord acc f fr r s = Inr (kEof, fr, r1, s1)" "reports r1 = reports r" by blast
    then show ?thesis by (simp add: n type_numbers Let_def)
  next
    case whole
    from read_frame [OF assms more_frames.prems(1) _ fragment_not_zero lx, of beg False us fr, unfolded o] whole(1)
    obtain r1 s1 where 1: "ReadPhysicalRecord acc f fr r s =
        Inr (of_nat (type_number (fragment_type beg False)), ?x, r1, s1)"
      "reader_at r1 s1 kBlockSize us" "reports r1 = reports r"
      by auto
    have m: "length bs < m" using more_frames.prems(4) by (simp add: n)
    note IH = more_frames.IH [OF 1(2) whole(2) more_frames.prems(3) m]
    have "\<exists>r' s'. read_loop m acc f True q g sc r1 s1 = Inr (False, [], r', s') \<and> reports r' = reports r1" for q g sc
      using IH by simp
    then show ?thesis using 1 reader_at_resync [OF 1(2)] more_frames.prems(1)
      by (cases beg) (simp_all add: n fragment_type_def type_numbers Let_def)
  qed
qed

lemma ReadRecord_at: "reader_at r s off R \<Longrightarrow> ReadRecord n acc f r s = read_loop n acc f False 0 [] [] r s"
  by (simp add: ReadRecord_def reader_at_def)

lemma read_record_whole:
  assumes "port_crc_ok acc" "frames off True x b off1" "reader_at r s off (b @ R)" "length b < n"
  shows "\<exists>r' s'. ReadRecord n acc f r s = Inr (True, x, r', s') \<and> reader_at r' s' off1 R \<and> reports r' = reports r"
  using read_loop_frames [OF assms, of "[]" 0 "[]"] ReadRecord_at [OF assms(3)] by simp

lemma read_records_whole:
  assumes "port_crc_ok acc"
  shows "log_of off xs bs off' \<Longrightarrow> reader_at r s off (bs @ R) \<Longrightarrow> length bs < n \<Longrightarrow>
    \<exists>r' s'. read_records (length xs + m) n acc f r s =
      bind_res (read_records m n acc f r' s') (\<lambda>(ys, r, s). Inr (xs @ ys, r, s)) \<and>
      reader_at r' s' off' R \<and> reports r' = reports r"
proof (induction arbitrary: r s rule: log_of.induct)
  case (log_nil off)
  then show ?case
    by (intro exI [of _ r] exI [of _ s]) (cases "read_records m n acc f r s"; auto)
next
  case (log_cons off x b off1 xs bs off')
  from read_record_whole [OF assms log_cons.hyps(1), of r s "bs @ R" n] log_cons.prems obtain r1 s1 where
    1: "ReadRecord n acc f r s = Inr (True, x, r1, s1)" "reader_at r1 s1 off1 (bs @ R)" "reports r1 = reports r"
    by auto
  from log_cons.IH [OF 1(2)] log_cons.prems(2) 1 show ?case
    by (fastforce simp: bind_res_assoc split_def)
qed

lemma read_records_cut:
  assumes "port_crc_ok acc"
  shows "log_of off xs bs off' \<Longrightarrow> reader_at r s off R \<Longrightarrow> R @ z = bs \<Longrightarrow> length bs < n \<Longrightarrow> length xs < m \<Longrightarrow>
    \<exists>k r' s'. k \<le> length xs \<and> (z = [] \<longrightarrow> k = length xs) \<and>
      read_records m n acc f r s = Inr (take k xs, r', s') \<and> reports r' = reports r"
proof (induction arbitrary: r s R m rule: log_of.induct)
  case (log_nil off)
  then obtain m' n' where m: "m = Suc m'" "n = Suc n'" by (cases m; cases n) auto
  have "R @ (frame_pad off @ phys kFullType []) = frame_pad off @ phys kFullType []"
    using log_nil.prems(2) by simp
  from read_cut [OF log_nil.prems(1) this, of acc "[]"] obtain r1 s1 where
    "ReadPhysicalRecord acc f [] r s = Inr (kEof, [], r1, s1)" "reports r1 = reports r"
    by (auto simp: phys_def)
  then show ?case using ReadRecord_at [OF log_nil.prems(1)] by (simp add: m type_numbers Let_def)
next
  case (log_cons off x b off1 xs bs off')
  from log_cons.prems(4) obtain m' where m: "m = Suc m'" by (cases m) auto
  from log_cons.prems(2) obtain us where us: "R = b @ us \<and> us @ z = bs \<or> R @ us = b \<and> us @ bs = z"
    unfolding append_eq_append_conv2 by auto
  show ?case
  proof (cases "R = b @ us \<and> us @ z = bs")
    case True
    from read_record_whole [OF assms log_cons.hyps(1), of r s us n] log_cons.prems True obtain r1 s1 where
      1: "ReadRecord n acc f r s = Inr (True, x, r1, s1)" "reader_at r1 s1 off1 us" "reports r1 = reports r"
      by auto
    from log_cons.IH [OF 1(2), of m'] True log_cons.prems(3,4) m obtain k r2 s2 where
      "k \<le> length xs" "z = [] \<longrightarrow> k = length xs" "read_records m' n acc f r1 s1 = Inr (take k xs, r2, s2)"
      "reports r2 = reports r1" by auto
    then show ?thesis using 1 m by (intro exI [of _ "Suc k"]) simp
  next
    case False
    with us have c: "R @ us = b" "us @ bs = z" by auto
    show ?thesis
    proof (cases "us = []")
      case True
      with c have "R = b @ []" "[] @ z = bs" by auto
      from read_record_whole [OF assms log_cons.hyps(1), of r s "[]" n] log_cons.prems this obtain r1 s1 where
        1: "ReadRecord n acc f r s = Inr (True, x, r1, s1)" "reader_at r1 s1 off1 []" "reports r1 = reports r"
        by auto
      from log_cons.IH [OF 1(2), of m'] c True log_cons.prems(3,4) m obtain k r2 s2 where
        "k \<le> length xs" "z = [] \<longrightarrow> k = length xs" "read_records m' n acc f r1 s1 = Inr (take k xs, r2, s2)"
        "reports r2 = reports r1" by auto
      then show ?thesis using 1 m by (intro exI [of _ "Suc k"]) simp
    next
      case False
      from read_loop_cut [OF assms log_cons.hyps(1) log_cons.prems(1) c(1) False, of n 0 "[]" "[]"] log_cons.prems(3)
        ReadRecord_at [OF log_cons.prems(1), of n acc] c(2) False
      show ?thesis by (intro exI [of _ 0]) (auto simp: m)
    qed
  qed
qed

lemma read_physical_total:
  assumes "inv s"
  shows "\<exists>t x r' s'. ReadPhysicalRecord acc f result r s = Inr (t, x, r', s') \<and> inv s' \<and>
    (t \<noteq> kEof \<longrightarrow> length (buffer r') + length (rest s') < length (buffer r) + length (rest s))"
proof -
  have big: "\<exists>t x r' s'. ReadPhysicalRecord acc f result r s = Inr (t, x, r', s') \<and> inv s' \<and>
    (t \<noteq> kEof \<longrightarrow> length (buffer r') + length (rest s') < length (buffer r) + length (rest s))"
    if "7 \<le> length (buffer r)" "inv s" for r s
    using parse_total [OF that(1), of acc result] that by (fastforce simp: ReadPhysical_parse)
  show ?thesis
  proof (cases "length (buffer r) < 7 \<and> \<not> eof r")
    case False
    then show ?thesis using big [OF _ assms, of r] ReadPhysical_eof [of r acc result s] assms by force
  next
    case True
    from read [OF assms, of kBlockSize "[]"] obtain s' where
      s': "sf_Read f kBlockSize [] s = Inr (OK, take kBlockSize (rest s), s')" "inv s'" "rest s' = drop kBlockSize (rest s)"
      by blast
    let ?r = "r\<lparr>buffer := take kBlockSize (rest s),
      end_of_buffer_offset := end_of_buffer_offset r + of_nat (length (take kBlockSize (rest s)))\<rparr>"
    let ?r' = "if length (take kBlockSize (rest s)) < kBlockSize then ?r\<lparr>eof := True\<rparr> else ?r"
    have e: "ReadPhysicalRecord acc f result r s = ReadPhysicalRecord acc f result ?r' s'"
      using True s'(1)
      by (subst ReadPhysicalRecord.simps) (simp add: log_sizes(1) Let_def min_less_iff_disj)
    have b: "buffer ?r' = take kBlockSize (rest s)" by simp
    show ?thesis
    proof (cases "7 \<le> length (buffer ?r')")
      case True
      from big [OF this s'(2)] s'(3) show ?thesis unfolding e b by fastforce
    next
      case False
      then have "eof ?r'" by (auto simp: log_sizes(2))
      from ReadPhysical_eof [OF _ this, of acc result s'] False s'(2) show ?thesis unfolding e by force
    qed
  qed
qed

lemma read_loop_total:
  "inv s \<Longrightarrow> length (buffer r) + length (rest s) < n \<Longrightarrow>
    \<exists>z. read_loop n acc f in_frag p fr scratch r s = Inr z"
proof (induction n arbitrary: in_frag p fr scratch r s)
  case (Suc n)
  from read_physical_total [OF Suc.prems(1), of acc fr r] obtain t x r1 s1 where
    1: "ReadPhysicalRecord acc f fr r s = Inr (t, x, r1, s1)" "inv s1"
      "t \<noteq> kEof \<longrightarrow> length (buffer r1) + length (rest s1) < length (buffer r) + length (rest s)" by blast
  have IH: "\<exists>z. read_loop n acc f i q g sc r2 s1 = Inr z"
    if "t \<noteq> kEof" "buffer r2 = buffer r1" for i q g sc r2
    using Suc.IH [OF 1(2)] 1(3) that Suc.prems(2) by simp
  have report: "\<exists>z. bind_res (ReportCorruption bytes m r3) g = Inr z"
    if "length m < 2 ^ 32" "\<And>r2. buffer r2 = buffer r3 \<Longrightarrow> \<exists>z. g r2 = Inr z" for bytes m r3 g
    using ReportCorruption_total [OF that(1), of bytes r3] that(2) by auto
  have len: "length (''unknown record type '' @ nat_to_string (unat t)) < 2 ^ 32"
  proof -
    have "unat t < 2 ^ 32" using unsigned_less [of t, where ?'a = nat] by simp
    then show ?thesis using length_nat_to_string [of "unat t"] by simp
  qed
  show ?case
  proof (cases "t = kEof")
    case True
    then show ?thesis by (auto simp: 1(1) Let_def type_numbers)
  next
    case False
    show ?thesis
      unfolding read_loop.simps 1(1) bind_res_Inr prod.case Let_def type_numbers
      by (auto intro!: report IH [OF False] len simp del: length_append append_Cons split_paired_Ex)
  qed
qed simp

lemma ReadRecord_total:
  assumes "inv s" "length (buffer r) + length (rest s) < n"
  shows "\<exists>z. ReadRecord n acc f r s = Inr z"
proof -
  have go: "\<exists>z. read_loop n acc f False 0 [] [] r' s' = Inr z"
    if "inv s'" "buffer r' = buffer r" "length (rest s') \<le> length (rest s)" for r' s'
    using read_loop_total [OF that(1), of r' n] that assms(2) by simp
  have skipped: "\<exists>s'. sf_Skip f k s = Inr (OK, s') \<and> inv s' \<and> length (rest s') \<le> length (rest s)" for k
    using skip [OF assms(1), of k] by auto
  have "\<exists>r' s'. SkipToInitialBlock f r s = Inr (True, r', s') \<and> inv s' \<and> buffer r' = buffer r \<and>
      length (rest s') \<le> length (rest s)"
  proof -
    define o1 where "o1 = initial_offset r mod of_nat kBlockSize"
    define st where "st = (if o1 > of_nat kBlockSize - 6 then initial_offset r - o1 + of_nat kBlockSize
      else initial_offset r - o1)"
    from skipped [of "unat st"] obtain s' where
      "sf_Skip f (unat st) s = Inr (OK, s')" "inv s'" "length (rest s') \<le> length (rest s)" by blast
    then show ?thesis
      unfolding SkipToInitialBlock_def Let_def o1_def [symmetric] st_def [symmetric]
      using assms(1) by (cases "st > 0") auto
  qed
  then show ?thesis using go assms(1) by (fastforce simp: ReadRecord_def)
qed

end

lemma frames_block: "frames 0 beg x bs off' \<Longrightarrow> frames kBlockSize beg x bs off'"
proof (erule frames.cases, goal_cases)
  case (1 y off b)
  then show ?case using last_frame [of x kBlockSize beg]
    by (simp add: frame_avail_def frame_start_def frame_pad_def log_sizes)
next
  case (2 y off bs2 o2 b)
  then show ?case using more_frames [of x kBlockSize bs2 o2 beg]
    by (simp add: frame_avail_def frame_start_def frame_pad_def log_sizes)
qed

lemma log_of_block: "log_of 0 xs bs off' \<Longrightarrow> log_of kBlockSize xs bs (if xs = [] then kBlockSize else off')"
  by (erule log_of.cases) (auto intro: log_nil log_cons frames_block)

subsection \<open>More fuel does not change a result\<close>

definition res_le :: "'a res \<Rightarrow> 'a res \<Rightarrow> bool" where
  "res_le x y \<longleftrightarrow> (\<forall>z. x = Inr z \<longrightarrow> y = Inr z)"

lemma res_le_bind: "(\<And>y. res_le (g y) (h y)) \<Longrightarrow> res_le (bind_res m g) (bind_res m h)"
  by (cases m) (simp_all add: res_le_def)

lemma res_le_intros:
  "res_le x x"
  "res_le x x' \<Longrightarrow> res_le y y' \<Longrightarrow> res_le (if c then x else y) (if c then x' else y')"
  "(\<And>a b. res_le (k a b) (k' a b)) \<Longrightarrow> res_le (case p of (a, b) \<Rightarrow> k a b) (case p of (a, b) \<Rightarrow> k' a b)"
  by (auto simp: res_le_def split: prod.split)

lemma read_loop_Suc_mono:
  assumes "\<And>i p fr sc r s. res_le (read_loop n acc f i p fr sc r s) (read_loop m acc f i p fr sc r s)"
  shows "res_le (read_loop (Suc n) acc f i p fr sc r s) (read_loop (Suc m) acc f i p fr sc r s)"
  unfolding read_loop.simps Let_def by (intro res_le_bind res_le_intros assms)

lemma read_loop_mono: "n \<le> m \<Longrightarrow> res_le (read_loop n acc f i p fr sc r s) (read_loop m acc f i p fr sc r s)"
proof (induction n arbitrary: m i p fr sc r s)
  case (Suc n)
  then obtain k where "m = Suc k" "n \<le> k" by (cases m) auto
  then show ?case using read_loop_Suc_mono [OF Suc.IH] by blast
qed (simp add: res_le_def)

lemma ReadRecord_mono:
  assumes "ReadRecord n acc f r s = Inr z" and "n \<le> m"
  shows "ReadRecord m acc f r s = Inr z"
proof -
  have "res_le (ReadRecord n acc f r s) (ReadRecord m acc f r s)"
    unfolding ReadRecord_def by (intro res_le_bind res_le_intros read_loop_mono [OF assms(2)])
  then show ?thesis using assms(1) by (simp add: res_le_def)
qed

subsection \<open>Properties\<close>

text \<open>
  C11: a log survives a crash. Records are written to a new file, then more of them; if the first
  \<open>m\<close> bytes of the file are left, among them all of the first records, then reading it gives the
  first records in order and a prefix of the others, and reports no corruption, with or without
  checking the checksums; if all bytes are left, it gives all records. Fragments across blocks,
  trailers, and headers or payloads cut in the middle are covered.
\<close>

theorem log_crash_safe:
  assumes "port_crc_ok acc" and "wr_inv a e" and "wr_contents a e = []"
  shows "\<exists>w1 e1 w2 e2. add_records acc (mem_writable a) xs (new_Writer acc) e = Inr (OK, w1, e1) \<and>
    add_records acc (mem_writable a) ys w1 e1 = Inr (OK, w2, e2) \<and>
    (\<forall>s m n rep chk. seq_inv s \<and> seq_rest s = take m (wr_contents a e2) \<and>
      length (wr_contents a e1) \<le> m \<and> length xs + length ys + length (wr_contents a e2) < n \<longrightarrow>
      (\<exists>k r s'. read_records n n acc mem_sequential (new_Reader rep chk 0) s = Inr (xs @ take k ys, r, s') \<and>
        reports r = [] \<and> (length (wr_contents a e2) \<le> m \<longrightarrow> length ys \<le> k)))"
proof -
  from mem_wr.add_records_appends [OF assms(1) _ assms(2), of "new_Writer acc" xs] obtain bs1 o1 e1 where
    1: "add_records acc (mem_writable a) xs (new_Writer acc) e = Inr (OK, (new_Writer acc)\<lparr>block_offset := o1\<rparr>, e1)"
      "wr_inv a e1" "log_of 0 xs bs1 o1" "o1 \<le> kBlockSize" "wr_contents a e1 = bs1"
    using assms(3) by (auto simp: new_Writer_def)
  from mem_wr.add_records_appends [OF assms(1) _ 1(2), of "(new_Writer acc)\<lparr>block_offset := o1\<rparr>" ys] 1(4) obtain bs2 o2 e2 where
    2: "add_records acc (mem_writable a) ys ((new_Writer acc)\<lparr>block_offset := o1\<rparr>) e1 =
        Inr (OK, (new_Writer acc)\<lparr>block_offset := o2\<rparr>, e2)"
      "log_of o1 ys bs2 o2" "wr_contents a e2 = bs1 @ bs2"
    using 1(5) by (auto simp: new_Writer_def)
  have all: "\<exists>k r s'. read_records n n acc mem_sequential (new_Reader rep chk 0) s = Inr (xs @ take k ys, r, s') \<and>
      reports r = [] \<and> (length (bs1 @ bs2) \<le> m \<longrightarrow> length ys \<le> k)"
    if s: "seq_inv s" "seq_rest s = take m (bs1 @ bs2)" "length bs1 \<le> m"
      "length xs + length ys + length (bs1 @ bs2) < n" for s m n rep chk
  proof -
    let ?R = "take (m - length bs1) bs2" and ?o = "if xs = [] then kBlockSize else o1"
    have R: "seq_rest s = bs1 @ ?R" using s(2,3) by simp
    have ys: "log_of ?o ys bs2 (if xs = [] \<and> ys = [] then kBlockSize else o2)"
      using 1(3) 2(2) log_of_block [of ys bs2 o2] by (auto elim: log_nilE)
    have n: "length xs + (n - length xs) = n" "length bs1 < n" "length bs2 < n" "length ys < n - length xs"
      using s(4) by auto
    from mem_seq.read_records_whole [OF assms(1) log_of_block [OF 1(3)] _ n(2), of "new_Reader rep chk 0" s ?R "n - length xs"]
      mem_seq.reader_at_new [OF s(1), of rep chk] R obtain r1 s1 where
      r1: "read_records n n acc mem_sequential (new_Reader rep chk 0) s =
          bind_res (read_records (n - length xs) n acc mem_sequential r1 s1) (\<lambda>(zs, r, s). Inr (xs @ zs, r, s))"
        "mem_seq.reader_at r1 s1 ?o ?R" "reports r1 = []"
      using n(1) by (auto simp: new_Reader_def)
    have "?R @ drop (m - length bs1) bs2 = bs2" by simp
    from mem_seq.read_records_cut [OF assms(1) ys r1(2) this n(3,4)] obtain k r2 s2 where
      "k \<le> length ys" "drop (m - length bs1) bs2 = [] \<longrightarrow> k = length ys"
      "read_records (n - length xs) n acc mem_sequential r1 s1 = Inr (take k ys, r2, s2)" "reports r2 = reports r1"
      by blast
    then show ?thesis using r1 by auto
  qed
  then have "\<forall>s m n rep chk. seq_inv s \<and> seq_rest s = take m (wr_contents a e2) \<and>
      length (wr_contents a e1) \<le> m \<and> length xs + length ys + length (wr_contents a e2) < n \<longrightarrow>
      (\<exists>k r s'. read_records n n acc mem_sequential (new_Reader rep chk 0) s = Inr (xs @ take k ys, r, s') \<and>
        reports r = [] \<and> (length (wr_contents a e2) \<le> m \<longrightarrow> length ys \<le> k))"
    unfolding 1(5) 2(3) by blast
  with 1(1) 2(1) show ?thesis by blast
qed

theorem log_crash_safe_witness:
  "\<exists>w1 e1 w2 e2. add_records (\<lambda>_ _. 0) (mem_writable 0) [[1], []] (new_Writer (\<lambda>_ _. 0))
      (snd (alloc new_InMemoryEnv)) = Inr (OK, w1, e1) \<and>
    add_records (\<lambda>_ _. 0) (mem_writable 0) [[2, 3]] w1 e1 = Inr (OK, w2, e2)"
proof -
  have p: "port_crc_ok (\<lambda>_ _. 0)" by (simp add: port_crc_ok_def CanAccelerateCRC32C_def kTestCRCValue_def)
  have h: "heap (snd (alloc new_InMemoryEnv)) 0 = Some new_FileState"
    by (simp add: alloc_def new_InMemoryEnv_def set_object_def)
  then have "wr_inv 0 (snd (alloc new_InMemoryEnv))" "wr_contents 0 (snd (alloc new_InMemoryEnv)) = []"
    using holds_contents [OF holds_new] by (auto simp: wr_inv_def wr_contents_def intro: exI [of _ "[]"])
  from log_crash_safe [OF p this, of "[[1], []]" "[[2, 3]]"] show ?thesis by blast
qed

text \<open>
  C30: the reader stops on every file, whatever its bytes. A call of \<open>ReadRecord\<close> has one result that every fuel above the
  number of bytes left, in the buffer and in the file, reaches: the loop goes round at most once for each of these bytes
  and once more to find the end.
\<close>

theorem ReadRecord_terminates:
  assumes "seq_inv s"
  shows "\<exists>go x r' s'. \<forall>n > length (buffer r) + length (seq_rest s). ReadRecord n acc mem_sequential r s = Inr (go, x, r', s')"
proof -
  let ?n = "Suc (length (buffer r) + length (seq_rest s))"
  obtain go x r' s' where "ReadRecord ?n acc mem_sequential r s = Inr (go, x, r', s')"
    using mem_seq.ReadRecord_total [OF assms, of r ?n acc] by (metis lessI prod_cases4)
  from ReadRecord_mono [OF this] show ?thesis by (metis Suc_leI)
qed

theorem ReadRecord_terminates_witness:
  "\<exists>e1 go x r' s'. wf_Append (mem_writable 0) [0, 0, 0, 0, 2, 0, 1, 7] (snd (alloc new_InMemoryEnv)) = Inr (OK, e1) \<and>
    (\<forall>n > 8. ReadRecord n (\<lambda>_ _. 0) mem_sequential (new_Reader True True 0) (\<lparr>sq_file = 0, sq_pos = 0\<rparr>, e1) = Inr (go, x, r', s'))"
proof -
  let ?bytes = "[0, 0, 0, 0, 2, 0, 1, 7] :: slice"
  have h: "heap (snd (alloc new_InMemoryEnv)) 0 = Some new_FileState"
    by (simp add: alloc_def new_InMemoryEnv_def set_object_def)
  then have w: "wr_inv 0 (snd (alloc new_InMemoryEnv))" "wr_contents 0 (snd (alloc new_InMemoryEnv)) = []"
    using holds_contents [OF holds_new] by (auto simp: wr_inv_def wr_contents_def intro: exI [of _ "[]"])
  from mem_wr.append [OF w(1), of ?bytes] w(2) obtain e1 where
    e1: "wf_Append (mem_writable 0) ?bytes (snd (alloc new_InMemoryEnv)) = Inr (OK, e1)" "wr_inv 0 e1" "wr_contents 0 e1 = ?bytes"
    by auto
  let ?s = "(\<lparr>sq_file = 0, sq_pos = 0\<rparr>, e1)"
  have "seq_inv ?s" "seq_rest ?s = ?bytes"
    using e1(2,3) by (auto simp: seq_inv_def seq_rest_def wr_inv_def wr_contents_def)
  then have s: "seq_inv ?s" and n: "length (buffer (new_Reader True True 0)) + length (seq_rest ?s) = 8" by (simp_all add: new_Reader_def)
  show ?thesis using ReadRecord_terminates [OF s, of "new_Reader True True 0" "\<lambda>_ _. 0", unfolded n] e1(1) by blast
qed

end
