(* ===== verification/Random_Gen.thy ===== *)
theory Random_Gen
  imports Prelude
begin

section \<open>The random number generator\<close>

text \<open>
  \<open>leveldb-mcpe/util/random.h\<close>: the multiplicative generator modulo the prime \<open>2^31 - 1\<close>, whose
  division is done with a shift, a mask and a conditional subtraction. The state is \<open>seed_\<close>.
\<close>

definition new_Random :: "u32 \<Rightarrow> u32" where
  "new_Random s = (let seed = s AND 0x7fffffff in if seed = 0 \<or> seed = 2147483647 then 1 else seed)"

text \<open>The new seed, which is also what \<open>Next\<close> returns.\<close>

definition Random_Next :: "u32 \<Rightarrow> u32" where
  "Random_Next seed =
     (let product = (ucast seed :: u64) * 16807;
          seed = (ucast (drop_bit 31 product + (product AND 2147483647)) :: u32)
      in if seed > 2147483647 then seed - 2147483647 else seed)"

text \<open>The argument is converted from \<open>int\<close> to \<open>uint32_t\<close>. Results: the value and the new seed.\<close>

definition Random_Uniform :: "u32 \<Rightarrow> int \<Rightarrow> (u32 \<times> u32) res" where
  "Random_Uniform seed n =
     (let seed = Random_Next seed in
      bind_res (guard_res (word_of_int n \<noteq> (0 :: u32)) DivByZero) (\<lambda>_. Inr (seed mod word_of_int n, seed)))"

definition Random_OneIn :: "u32 \<Rightarrow> int \<Rightarrow> (bool \<times> u32) res" where
  "Random_OneIn seed n =
     (let seed = Random_Next seed in
      bind_res (guard_res (word_of_int n \<noteq> (0 :: u32)) DivByZero) (\<lambda>_. Inr (seed mod word_of_int n = 0, seed)))"

text \<open>\<open>1 << k\<close> on \<open>int\<close> is undefined for \<open>k \<ge> 31\<close>.\<close>

definition Random_Skewed :: "u32 \<Rightarrow> int \<Rightarrow> (u32 \<times> u32) res" where
  "Random_Skewed seed max_log =
     bind_res (to_int32 (max_log + 1)) (\<lambda>n.
     bind_res (Random_Uniform seed n) (\<lambda>(k, seed).
     bind_res (guard_res (unat k < 31) Undefined) (\<lambda>_.
       Random_Uniform seed (2 ^ unat k))))"

lemma mod_Mersenne:
  assumes "p = q * 2 ^ 31 + (r :: nat)" and "r < 2 ^ 31" and "q < 16807" and "p mod 2147483647 \<noteq> 0"
  shows "p mod 2147483647 = (if q + r > 2147483647 then q + r - 2147483647 else q + r)"
proof -
  have "p = (q + r) + 2147483647 * q" using assms(1) by simp
  then have p: "p mod 2147483647 = (q + r) mod 2147483647" by (metis mod_mult_self2)
  then have "q + r \<noteq> 2147483647" using assms(4) by auto
  then show ?thesis
    using p assms(2,3) by (auto simp: le_mod_geq mod_less not_less)
qed

lemma Random_Next_unat:
  assumes "0 < unat seed" and "unat seed < 2147483647"
  shows "unat (Random_Next seed) = unat seed * 16807 mod 2147483647"
proof -
  define p :: u64 where "p = ucast seed * 16807"
  have u: "unat (ucast seed :: u64) = unat seed"
    using assms(2) by (simp add: unsigned_ucast_eq take_bit_nat_eq_self)
  have pn: "unat p = unat seed * 16807"
    using assms(2) by (simp add: p_def unat_word_ariths u take_bit_nat_eq_self)
  have hi: "unat (drop_bit 31 p) = unat p div 2 ^ 31" by (simp only: unat_drop_bit_eq) (simp only: drop_bit_eq_div)
  have "p AND 2147483647 = take_bit 31 p" by (simp add: take_bit_eq_mask mask_eq_exp_minus_1)
  then have lo: "unat (p AND 2147483647) = unat p mod 2 ^ 31"
    by (simp only: unsigned_take_bit_eq) (simp only: take_bit_eq_mod)
  have q: "unat p div 2 ^ 31 < 16807" using assms(2) pn by simp
  have r: "unat p mod 2 ^ 31 < 2 ^ 31" by simp
  let ?s = "unat p div 2 ^ 31 + unat p mod 2 ^ 31"
  have s: "?s < 2 ^ 32" using q r by simp
  have "unat (drop_bit 31 p + (p AND 2147483647)) = ?s"
    using s by (simp add: unat_word_ariths hi lo)
  then have us: "unat (ucast (drop_bit 31 p + (p AND 2147483647)) :: u32) = ?s"
    using s by (simp add: unsigned_ucast_eq take_bit_nat_eq_self)
  have "coprime (2147483647 :: nat) 16807" by (simp add: coprime_iff_gcd_eq_1 gcd_non_0_nat)
  then have nz: "unat p mod 2147483647 \<noteq> 0"
    using assms pn by (metis coprime_dvd_mult_left_iff mod_eq_0_iff_dvd nat_dvd_not_less)
  note m = mod_Mersenne [OF div_mult_mod_eq [symmetric] r q nz]
  show ?thesis
    unfolding Random_Next_def Let_def p_def [symmetric] pn [symmetric] m
    using us unat_sub [of 2147483647 "ucast (drop_bit 31 p + (p AND 2147483647)) :: u32"]
    by (auto simp: word_less_nat_alt word_le_nat_alt)
qed

lemma new_Random_range: "0 < unat (new_Random s) \<and> unat (new_Random s) < 2147483647"
proof -
  have m: "(0x7fffffff :: u32) = mask 31" by (simp add: mask_eq_exp_minus_1)
  let ?s = "s AND 0x7fffffff"
  have "unat ?s < 2 ^ 31" by (simp only: m take_bit_eq_mask [symmetric] unsigned_take_bit_eq take_bit_nat_less_exp)
  moreover have "?s \<noteq> 0 \<Longrightarrow> unat ?s \<noteq> 0" by (simp add: unat_eq_zero)
  moreover have "?s \<noteq> 2147483647 \<Longrightarrow> unat ?s \<noteq> 2147483647" by (simp add: word_unat_eq_iff)
  ultimately show ?thesis by (auto simp: new_Random_def Let_def)
qed

lemma Random_Next_range:
  assumes "0 < unat seed" and "unat seed < 2147483647"
  shows "0 < unat (Random_Next seed)" and "unat (Random_Next seed) < 2147483647"
proof -
  have "coprime (2147483647 :: nat) 16807" by (simp add: coprime_iff_gcd_eq_1 gcd_non_0_nat)
  then have "unat seed * 16807 mod 2147483647 \<noteq> 0"
    using assms by (metis coprime_dvd_mult_left_iff mod_eq_0_iff_dvd nat_dvd_not_less)
  then show "0 < unat (Random_Next seed)" by (simp add: Random_Next_unat [OF assms])
  show "unat (Random_Next seed) < 2147483647" by (simp add: Random_Next_unat [OF assms])
qed

text \<open>The seed after \<open>n\<close> calls.\<close>

definition Random_seed :: "u32 \<Rightarrow> nat \<Rightarrow> u32" where
  "Random_seed s n = (Random_Next ^^ n) (new_Random s)"

lemma Random_seed_range: "0 < unat (Random_seed s n) \<and> unat (Random_seed s n) < 2147483647"
  by (induction n) (simp_all add: Random_seed_def new_Random_range Random_Next_range)

subsection \<open>Properties\<close>

text \<open>
  the generator computes what its comment says. From any argument of the constructor, every
  value ever returned lies in \<open>[1, 2^31 - 2]\<close> and is the last one times 16807 modulo \<open>2^31 - 1\<close>:
  the 64-bit product does not overflow, one conditional subtraction is enough, and the state never
  reaches \<open>0\<close> or \<open>2^31 - 1\<close>, where it would stay. A value drawn by \<open>Uniform(n)\<close> is below \<open>n\<close>.
\<close>

theorem random_next_bounds:
  "unat (Random_seed s (Suc k)) = unat (Random_seed s k) * 16807 mod 2147483647 \<and>
   0 < unat (Random_seed s k) \<and> unat (Random_seed s k) < 2147483647 \<and>
   (0 < n \<and> n < 2 ^ 31 \<longrightarrow> (\<exists>v. Random_Uniform (Random_seed s k) n = Inr (v, Random_seed s (Suc k)) \<and> uint v < n))"
proof -
  have "unat (Random_seed s (Suc k)) = unat (Random_seed s k) * 16807 mod 2147483647"
    using Random_seed_range [of s k] by (simp add: Random_seed_def Random_Next_unat)
  moreover have "\<exists>v. Random_Uniform (Random_seed s k) n = Inr (v, Random_seed s (Suc k)) \<and> uint v < n"
    if n: "0 < n" "n < 2 ^ 31"
  proof -
    have u: "uint (word_of_int n :: u32) = n" using n by (simp add: uint_word_of_int_eq take_bit_int_eq_self)
    then have "(word_of_int n :: u32) \<noteq> 0" using n by (metis less_irrefl uint_0_eq)
    then show ?thesis
      using n by (simp add: Random_Uniform_def Random_seed_def Let_def uint_mod u)
  qed
  ultimately show ?thesis using Random_seed_range [of s k] by simp
qed

theorem random_next_bounds_witness:
  "\<exists>v. Random_Uniform (Random_seed 0xdeadbeef 3) 10 = Inr (v, Random_seed 0xdeadbeef 4) \<and> uint v < 10"
  using random_next_bounds [of "0xdeadbeef" 3 10] by simp

end
