(* ===== verification/Skip_List.thy ===== *)
theory Skip_List
  imports Comparator Random_Gen
begin

section \<open>The skip list\<close>

text \<open>
  \<open>leveldb-mcpe/db/skiplist.h\<close>: nodes in an arena, never freed, each with an array of atomic links
  (one per level of its height), the searches over them, \<open>Insert\<close>, and the iterator. An address is
  an index into the list of the nodes allocated so far. A link no one has written is \<open>None\<close>, a written
  one \<open>Some p\<close> with \<open>p\<close> the pointer, itself \<open>None\<close> for \<open>NULL\<close>. The key, its value for the head
  (\<open>0\<close>) and the comparator are the template's parameters; a comparator may fault. The searches loop
  until they reach the bottom level: they recurse on fuel, one unit for each node of the arena and one
  for each level, and never run out of it on the lists the class builds.
\<close>

definition kMaxHeight :: nat where
  "kMaxHeight = 12"

type_synonym ptr = "nat option"

record 'k Node =
  node_key :: 'k
  node_next :: "ptr option list"

record 'k SkipList =
  sl_compare :: "'k \<Rightarrow> 'k \<Rightarrow> int res"
  sl_arena :: "'k Node list"
  sl_head :: nat
  sl_max_height :: int
  sl_rnd :: u32

subsection \<open>Nodes\<close>

definition NewNode :: "'k \<Rightarrow> int \<Rightarrow> 'k SkipList \<Rightarrow> nat \<times> 'k SkipList" where
  "NewNode key height sl =
     (length (sl_arena sl),
      sl\<lparr>sl_arena := sl_arena sl @ [\<lparr>node_key = key, node_next = replicate (nat height) None\<rparr>]\<rparr>)"

definition Node_Next :: "'k SkipList \<Rightarrow> nat \<Rightarrow> int \<Rightarrow> ptr res" where
  "Node_Next sl x n =
     bind_res (guard_res (n \<ge> 0) AssertFail) (\<lambda>_.
     bind_res (vec_at (sl_arena sl) (int x)) (\<lambda>node.
     bind_res (vec_at (node_next node) n) initialised))"

definition Node_SetNext :: "'k SkipList \<Rightarrow> nat \<Rightarrow> int \<Rightarrow> ptr \<Rightarrow> 'k SkipList res" where
  "Node_SetNext sl x n p =
     bind_res (guard_res (n \<ge> 0) AssertFail) (\<lambda>_.
     bind_res (vec_at (sl_arena sl) (int x)) (\<lambda>node.
     bind_res (vec_set (node_next node) n (Some p)) (\<lambda>links.
       Inr (sl\<lparr>sl_arena := (sl_arena sl)[x := node\<lparr>node_next := links\<rparr>]\<rparr>))))"

definition key_at :: "'k SkipList \<Rightarrow> nat \<Rightarrow> 'k res" where
  "key_at sl x = bind_res (vec_at (sl_arena sl) (int x)) (\<lambda>node. Inr (node_key node))"

subsection \<open>The searches\<close>

definition Equal :: "'k SkipList \<Rightarrow> 'k \<Rightarrow> 'k \<Rightarrow> bool res" where
  "Equal sl a b = bind_res (sl_compare sl a b) (\<lambda>r. Inr (r = 0))"

definition KeyIsAfterNode :: "'k SkipList \<Rightarrow> 'k \<Rightarrow> ptr \<Rightarrow> bool res" where
  "KeyIsAfterNode sl key n =
     (case n of
        None \<Rightarrow> Inr False
      | Some x \<Rightarrow> bind_res (key_at sl x) (\<lambda>k. bind_res (sl_compare sl k key) (\<lambda>r. Inr (r < 0))))"

definition GetMaxHeight :: "'k SkipList \<Rightarrow> int" where
  "GetMaxHeight sl = sl_max_height sl"

text \<open>The array \<open>prev\<close>, when it is not \<open>NULL\<close>: \<open>None\<close> in it is an element not yet written.\<close>

definition record_prev :: "nat option list option \<Rightarrow> int \<Rightarrow> nat \<Rightarrow> nat option list option res" where
  "record_prev prev level x =
     (case prev of
        None \<Rightarrow> Inr None
      | Some ps \<Rightarrow> bind_res (vec_set ps level (Some x)) (\<lambda>ps. Inr (Some ps)))"

fun find_ge_loop :: "nat \<Rightarrow> 'k SkipList \<Rightarrow> 'k \<Rightarrow> nat \<Rightarrow> int \<Rightarrow> nat option list option \<Rightarrow>
    (ptr \<times> nat option list option) res" where
  "find_ge_loop 0 sl key x level prev = Inl OutOfFuel"
| "find_ge_loop (Suc fuel) sl key x level prev =
     bind_res (Node_Next sl x level) (\<lambda>nxt.
     bind_res (KeyIsAfterNode sl key nxt) (\<lambda>after.
     if after then
       bind_res (deref nxt) (\<lambda>x. find_ge_loop fuel sl key x level prev)
     else
       bind_res (record_prev prev level x) (\<lambda>prev.
       if level = 0 then Inr (nxt, prev)
       else find_ge_loop fuel sl key x (level - 1) prev)))"

definition search_fuel :: "'k SkipList \<Rightarrow> nat" where
  "search_fuel sl = length (sl_arena sl) + kMaxHeight"

definition FindGreaterOrEqual :: "'k SkipList \<Rightarrow> 'k \<Rightarrow> nat option list option \<Rightarrow>
    (ptr \<times> nat option list option) res" where
  "FindGreaterOrEqual sl key prev =
     find_ge_loop (search_fuel sl) sl key (sl_head sl) (GetMaxHeight sl - 1) prev"

fun find_lt_loop :: "nat \<Rightarrow> 'k SkipList \<Rightarrow> 'k \<Rightarrow> nat \<Rightarrow> int \<Rightarrow> nat res" where
  "find_lt_loop 0 sl key x level = Inl OutOfFuel"
| "find_lt_loop (Suc fuel) sl key x level =
     bind_res (if x = sl_head sl then Inr True else KeyIsAfterNode sl key (Some x)) (\<lambda>before.
     bind_res (guard_res before AssertFail) (\<lambda>_.
     bind_res (Node_Next sl x level) (\<lambda>nxt.
     bind_res (KeyIsAfterNode sl key nxt) (\<lambda>after.
     if \<not> after then
       if level = 0 then Inr x
       else find_lt_loop fuel sl key x (level - 1)
     else bind_res (deref nxt) (\<lambda>x. find_lt_loop fuel sl key x level)))))"

definition FindLessThan :: "'k SkipList \<Rightarrow> 'k \<Rightarrow> nat res" where
  "FindLessThan sl key = find_lt_loop (search_fuel sl) sl key (sl_head sl) (GetMaxHeight sl - 1)"

fun find_last_loop :: "nat \<Rightarrow> 'k SkipList \<Rightarrow> nat \<Rightarrow> int \<Rightarrow> nat res" where
  "find_last_loop 0 sl x level = Inl OutOfFuel"
| "find_last_loop (Suc fuel) sl x level =
     bind_res (Node_Next sl x level) (\<lambda>nxt.
     case nxt of
       None \<Rightarrow> if level = 0 then Inr x else find_last_loop fuel sl x (level - 1)
     | Some x \<Rightarrow> find_last_loop fuel sl x level)"

definition FindLast :: "'k SkipList \<Rightarrow> nat res" where
  "FindLast sl = find_last_loop (search_fuel sl) sl (sl_head sl) (GetMaxHeight sl - 1)"

definition Contains :: "'k SkipList \<Rightarrow> 'k \<Rightarrow> bool res" where
  "Contains sl key =
     bind_res (FindGreaterOrEqual sl key None) (\<lambda>(x, _).
     case x of
       None \<Rightarrow> Inr False
     | Some x \<Rightarrow> bind_res (key_at sl x) (\<lambda>k. Equal sl key k))"

subsection \<open>Construction and insertion\<close>

text \<open>The loop \<open>for (int i = 0; i < kMaxHeight; i++) head_->SetNext(i, NULL)\<close>, for the last \<open>n\<close> values.\<close>

fun null_links :: "'k SkipList \<Rightarrow> nat \<Rightarrow> nat \<Rightarrow> 'k SkipList res" where
  "null_links sl i 0 = Inr sl"
| "null_links sl i (Suc n) =
     bind_res (Node_SetNext sl (sl_head sl) (int i) None) (\<lambda>sl. null_links sl (Suc i) n)"

definition new_SkipList :: "('k \<Rightarrow> 'k \<Rightarrow> int res) \<Rightarrow> 'k \<Rightarrow> 'k SkipList res" where
  "new_SkipList cmp zero =
     (let (h, sl) = NewNode zero (int kMaxHeight)
        \<lparr>sl_compare = cmp, sl_arena = [], sl_head = 0, sl_max_height = 1, sl_rnd = new_Random 0xdeadbeef\<rparr>
      in null_links (sl\<lparr>sl_head := h\<rparr>) 0 kMaxHeight)"

function height_loop :: "u32 \<Rightarrow> nat \<Rightarrow> nat \<times> u32" where
  "height_loop seed height =
     (if height < kMaxHeight then
        let seed = Random_Next seed in
        if seed mod 4 = 0 then height_loop seed (height + 1) else (height, seed)
      else (height, seed))"
  by pat_completeness auto
termination
  by (relation "measure (\<lambda>(seed, height). kMaxHeight - height)") auto

declare height_loop.simps [simp del]

definition RandomHeight :: "'k SkipList \<Rightarrow> (int \<times> 'k SkipList) res" where
  "RandomHeight sl =
     (let (height, seed) = height_loop (sl_rnd sl) 1 in
      bind_res (guard_res (height > 0) AssertFail) (\<lambda>_.
      bind_res (guard_res (height \<le> kMaxHeight) AssertFail) (\<lambda>_.
        Inr (int height, sl\<lparr>sl_rnd := seed\<rparr>))))"

text \<open>\<open>prev[i] = head_\<close> for \<open>n\<close> levels from \<open>i\<close>, then the links of the new node for \<open>n\<close> levels from \<open>i\<close>.\<close>

fun fill_prev :: "nat option list \<Rightarrow> nat \<Rightarrow> int \<Rightarrow> nat \<Rightarrow> nat option list res" where
  "fill_prev prev head i 0 = Inr prev"
| "fill_prev prev head i (Suc n) =
     bind_res (vec_set prev i (Some head)) (\<lambda>prev. fill_prev prev head (i + 1) n)"

definition link_level :: "nat option list \<Rightarrow> nat \<Rightarrow> int \<Rightarrow> 'k SkipList \<Rightarrow> 'k SkipList res" where
  "link_level prev x i sl =
     bind_res (bind_res (vec_at prev i) initialised) (\<lambda>p.
     bind_res (Node_Next sl p i) (\<lambda>nxt.
     bind_res (Node_SetNext sl x i nxt) (\<lambda>sl.
       Node_SetNext sl p i (Some x))))"

fun link_loop :: "nat option list \<Rightarrow> nat \<Rightarrow> int \<Rightarrow> nat \<Rightarrow> 'k SkipList \<Rightarrow> 'k SkipList res" where
  "link_loop prev x i 0 sl = Inr sl"
| "link_loop prev x i (Suc n) sl =
     bind_res (link_level prev x i sl) (\<lambda>sl. link_loop prev x (i + 1) n sl)"

text \<open>
  The first part of \<open>Insert\<close>, up to the new node, whose links are not written yet and which no
  link points to, and the whole of it.
\<close>

definition prepare_insert :: "'k SkipList \<Rightarrow> 'k \<Rightarrow> (nat option list \<times> nat \<times> int \<times> 'k SkipList) res" where
  "prepare_insert sl key =
     bind_res (FindGreaterOrEqual sl key (Some (replicate kMaxHeight None))) (\<lambda>(x, prev).
     bind_res (deref prev) (\<lambda>prev.
     bind_res (case x of
         None \<Rightarrow> Inr True
       | Some x \<Rightarrow> bind_res (key_at sl x) (\<lambda>k. bind_res (Equal sl key k) (\<lambda>e. Inr (\<not> e)))) (\<lambda>fresh.
     bind_res (guard_res fresh AssertFail) (\<lambda>_.
     bind_res (RandomHeight sl) (\<lambda>(height, sl).
     bind_res
       (if height > GetMaxHeight sl then
          bind_res (fill_prev prev (sl_head sl) (GetMaxHeight sl) (nat (height - GetMaxHeight sl))) (\<lambda>prev.
            Inr (prev, sl\<lparr>sl_max_height := height\<rparr>))
        else Inr (prev, sl)) (\<lambda>(prev, sl).
     let (x, sl) = NewNode key height sl in Inr (prev, x, height, sl)))))))"

definition Insert :: "'k SkipList \<Rightarrow> 'k \<Rightarrow> 'k SkipList res" where
  "Insert sl key =
     bind_res (prepare_insert sl key) (\<lambda>(prev, x, height, sl). link_loop prev x 0 (nat height) sl)"

subsection \<open>The iterator\<close>

text \<open>Its \<open>node_\<close>; the list it points to is an argument, as it may have changed since the last call.\<close>

type_synonym iterator = ptr

definition new_Iterator :: iterator where
  "new_Iterator = None"

definition Valid :: "iterator \<Rightarrow> bool" where
  "Valid it \<longleftrightarrow> it \<noteq> None"

definition iter_node :: "iterator \<Rightarrow> nat res" where
  "iter_node it = bind_res (guard_res (Valid it) AssertFail) (\<lambda>_. deref it)"

definition iter_key :: "'k SkipList \<Rightarrow> iterator \<Rightarrow> 'k res" where
  "iter_key sl it = bind_res (iter_node it) (\<lambda>x. key_at sl x)"

definition iter_Next :: "'k SkipList \<Rightarrow> iterator \<Rightarrow> iterator res" where
  "iter_Next sl it = bind_res (iter_node it) (\<lambda>x. Node_Next sl x 0)"

definition iter_Prev :: "'k SkipList \<Rightarrow> iterator \<Rightarrow> iterator res" where
  "iter_Prev sl it =
     bind_res (iter_node it) (\<lambda>x.
     bind_res (key_at sl x) (\<lambda>k.
     bind_res (FindLessThan sl k) (\<lambda>x. Inr (if x = sl_head sl then None else Some x))))"

definition iter_Seek :: "'k SkipList \<Rightarrow> 'k \<Rightarrow> iterator res" where
  "iter_Seek sl target = bind_res (FindGreaterOrEqual sl target None) (\<lambda>(x, _). Inr x)"

definition iter_SeekToFirst :: "'k SkipList \<Rightarrow> iterator res" where
  "iter_SeekToFirst sl = Node_Next sl (sl_head sl) 0"

definition iter_SeekToLast :: "'k SkipList \<Rightarrow> iterator res" where
  "iter_SeekToLast sl = bind_res (FindLast sl) (\<lambda>x. Inr (if x = sl_head sl then None else Some x))"

end
