(* ===== verification/Skip_List_Correct.thy ===== *)
theory Skip_List_Correct
  imports Skip_List
begin

section \<open>Correctness of the skip list\<close>

text \<open>
  The addresses of the nodes in the order of the bottom level, the height to which each is linked,
  the invariant that every level is the chain of the nodes that reach it, and from it what the
  searches, \<open>Insert\<close> and the iterator do.
\<close>

subsection \<open>Chains\<close>

definition hd_opt :: "'a list \<Rightarrow> 'a option" where
  "hd_opt xs = (case xs of [] \<Rightarrow> None | x # _ \<Rightarrow> Some x)"

lemma hd_opt_simps [simp]: "hd_opt [] = None" "hd_opt (x # xs) = Some x"
  by (simp_all add: hd_opt_def)

lemma hd_opt_filter: "hd_opt (filter P ys) = Some b \<Longrightarrow>
    \<exists>us vs. ys = us @ b # vs \<and> P b \<and> filter P us = []"
  by (cases "filter P ys") (auto simp: filter_eq_Cons_iff)

lemma hd_opt_None [simp]: "hd_opt xs = None \<longleftrightarrow> xs = []"
  by (cases xs) auto

fun chain :: "(nat \<Rightarrow> ptr option) \<Rightarrow> nat list \<Rightarrow> bool" where
  "chain nx [] \<longleftrightarrow> True"
| "chain nx (a # xs) \<longleftrightarrow> nx a = Some (hd_opt xs) \<and> chain nx xs"

lemma chain_at: "chain nx (P @ x # Q) \<Longrightarrow> nx x = Some (hd_opt Q)"
  by (induction P) auto

lemma chain_cong: "(\<And>a. a \<in> set xs \<Longrightarrow> nx a = nx' a) \<Longrightarrow> chain nx xs = chain nx' xs"
  by (induction xs) auto

lemma chain_insert:
  "chain nx (P @ p # Q) \<Longrightarrow> distinct (P @ p # n # Q) \<Longrightarrow> nx' n = nx p \<Longrightarrow> nx' p = Some (Some n) \<Longrightarrow>
    (\<And>a. a \<noteq> n \<Longrightarrow> a \<noteq> p \<Longrightarrow> nx' a = nx a) \<Longrightarrow> chain nx' (P @ p # n # Q)"
proof (induction P)
  case Nil
  have "nx' a = nx a" if "a \<in> set Q" for a
    using that Nil.prems(2) by (intro Nil.prems(5)) auto
  then have "chain nx' Q = chain nx Q" by (rule chain_cong)
  then show ?case using Nil.prems by simp
next
  case (Cons a P)
  then have "nx' a = nx a" by auto
  then show ?case using Cons by (cases P) auto
qed

subsection \<open>The invariant\<close>

definition link :: "'k SkipList \<Rightarrow> nat \<Rightarrow> nat \<Rightarrow> ptr option" where
  "link sl i a = node_next (sl_arena sl ! a) ! i"

definition nkey :: "'k SkipList \<Rightarrow> nat \<Rightarrow> 'k" where
  "nkey sl a = node_key (sl_arena sl ! a)"

definition linked :: "'k SkipList \<Rightarrow> nat list \<Rightarrow> (nat \<Rightarrow> nat) \<Rightarrow> bool" where
  "linked sl as lv \<longleftrightarrow>
     (\<forall>i < kMaxHeight. chain (link sl i) (filter (\<lambda>a. i < lv a) (sl_head sl # as)))"

definition in_arena :: "'k SkipList \<Rightarrow> nat list \<Rightarrow> (nat \<Rightarrow> nat) \<Rightarrow> bool" where
  "in_arena sl as lv \<longleftrightarrow> distinct as \<and>
     (\<forall>a \<in> set as. a < length (sl_arena sl) \<and> lv a \<le> length (node_next (sl_arena sl ! a)))"

definition skip_shape :: "'k SkipList \<Rightarrow> nat list \<Rightarrow> (nat \<Rightarrow> nat) \<Rightarrow> bool" where
  "skip_shape sl as lv \<longleftrightarrow> in_arena sl (sl_head sl # as) lv \<and> lv (sl_head sl) = kMaxHeight \<and>
     (\<forall>a \<in> set as. 0 < lv a \<and> int (lv a) \<le> sl_max_height sl) \<and>
     1 \<le> sl_max_height sl \<and> sl_max_height sl \<le> int kMaxHeight \<and> linked sl as lv"

lemma Node_Next_link:
  "a < length (sl_arena sl) \<Longrightarrow> i < length (node_next (sl_arena sl ! a)) \<Longrightarrow>
    Node_Next sl a (int i) = initialised (link sl i a)"
  by (simp add: Node_Next_def link_def)

text \<open>A search stands at \<open>x\<close>, with \<open>ys\<close> behind it, at level \<open>i\<close>, having passed only nodes it moves past.\<close>

definition at_pos :: "'k SkipList \<Rightarrow> nat list \<Rightarrow> (nat \<Rightarrow> nat) \<Rightarrow> (nat \<Rightarrow> bool) \<Rightarrow> nat \<Rightarrow> nat list \<Rightarrow> nat \<Rightarrow> bool" where
  "at_pos sl as lv mv x ys i \<longleftrightarrow>
     (\<exists>xs. sl_head sl # as = xs @ x # ys \<and> i < lv x \<and> (\<forall>a \<in> set (tl (xs @ [x])). mv a))"

text \<open>The nodes it moves past are the first ones.\<close>

definition prefix_pred :: "(nat \<Rightarrow> bool) \<Rightarrow> nat list \<Rightarrow> bool" where
  "prefix_pred mv as \<longleftrightarrow> (\<forall>us b vs. as = us @ b # vs \<and> mv b \<longrightarrow> (\<forall>u \<in> set us. mv u))"

definition pred_at :: "nat \<Rightarrow> nat list \<Rightarrow> (nat \<Rightarrow> nat) \<Rightarrow> (nat \<Rightarrow> bool) \<Rightarrow> nat \<Rightarrow> nat" where
  "pred_at h as lv mv i = last (filter (\<lambda>a. i < lv a) (h # takeWhile mv as))"

lemma tl_append_Cons: "tl (xs @ [x]) @ ys = tl (xs @ x # ys)"
  by (cases xs) auto

lemma at_pos_split:
  "at_pos sl as lv mv x ys i \<Longrightarrow> \<exists>xs. sl_head sl # as = xs @ x # ys \<and> as = tl (xs @ [x]) @ ys \<and>
    i < lv x \<and> (\<forall>a \<in> set (tl (xs @ [x])). mv a)"
  unfolding at_pos_def by (metis tl_append_Cons list.sel(3))

lemma at_pos_start: "skip_shape sl as lv \<Longrightarrow> i < kMaxHeight \<Longrightarrow> at_pos sl as lv mv (sl_head sl) as i"
  unfolding at_pos_def by (rule exI [of _ "[]"]) (simp add: skip_shape_def)

lemma at_pos_down: "at_pos sl as lv mv x ys (Suc i) \<Longrightarrow> at_pos sl as lv mv x ys i"
  unfolding at_pos_def by fastforce

lemma level_le: "skip_shape sl as lv \<Longrightarrow> a \<in> set (sl_head sl # as) \<Longrightarrow> lv a \<le> kMaxHeight"
  unfolding skip_shape_def by fastforce

lemma at_pos_level: "skip_shape sl as lv \<Longrightarrow> at_pos sl as lv mv x ys i \<Longrightarrow> i < kMaxHeight"
  by (drule at_pos_split) (metis in_set_conv_decomp level_le order_less_le_trans)

lemma at_pos_next:
  assumes "skip_shape sl as lv" and "at_pos sl as lv mv x ys i"
  shows "Node_Next sl x (int i) = Inr (hd_opt (filter (\<lambda>a. i < lv a) ys))"
proof -
  obtain xs where s: "sl_head sl # as = xs @ x # ys" "i < lv x" using assms(2) by (auto simp: at_pos_def)
  have x: "x \<in> set (sl_head sl # as)" by (simp add: s)
  then have a: "x < length (sl_arena sl)" "lv x \<le> length (node_next (sl_arena sl ! x))" "lv x \<le> kMaxHeight"
    using assms(1) by (auto simp: skip_shape_def in_arena_def)
  have "chain (link sl i) (filter (\<lambda>a. i < lv a) (sl_head sl # as))"
    using assms(1) a(3) s(2) by (simp only: skip_shape_def linked_def)
  then have "chain (link sl i) (filter (\<lambda>a. i < lv a) xs @ x # filter (\<lambda>a. i < lv a) ys)"
    using s by simp
  from chain_at [OF this] show ?thesis using a s(2) by (simp add: Node_Next_link)
qed

lemma at_pos_move:
  assumes "at_pos sl as lv mv x ys i" and "hd_opt (filter (\<lambda>a. i < lv a) ys) = Some b" and "mv b"
    and "prefix_pred mv as"
  shows "\<exists>vs. at_pos sl as lv mv b vs i \<and> length vs < length ys"
proof -
  obtain xs where s: "sl_head sl # as = xs @ x # ys" "as = tl (xs @ [x]) @ ys"
    using at_pos_split [OF assms(1)] by blast
  obtain us vs where ys: "ys = us @ b # vs" "i < lv b" using hd_opt_filter [OF assms(2)] by blast
  have "\<forall>a \<in> set (tl (xs @ [x]) @ us). mv a"
    using assms(3,4) s(2) ys(1) unfolding prefix_pred_def by (metis append.assoc)
  moreover have "tl ((xs @ x # us) @ [b]) = (tl (xs @ [x]) @ us) @ [b]" by (cases xs) auto
  ultimately have "at_pos sl as lv mv b vs i"
    unfolding at_pos_def using s(1) ys assms(3)
    by (intro exI [of _ "xs @ x # us"]) auto
  with ys(1) show ?thesis by auto
qed

lemma at_pos_stop:
  assumes "at_pos sl as lv mv x ys i" and "\<And>b. hd_opt (filter (\<lambda>a. i < lv a) ys) = Some b \<Longrightarrow> \<not> mv b"
    and "prefix_pred mv as"
  shows "x = pred_at (sl_head sl) as lv mv i"
    and "i = 0 \<Longrightarrow> \<forall>a \<in> set as. 0 < lv a \<Longrightarrow> hd_opt (filter (\<lambda>a. i < lv a) ys) = hd_opt (dropWhile mv as)"
proof -
  obtain xs where s: "sl_head sl # as = xs @ x # ys" "as = tl (xs @ [x]) @ ys" "i < lv x"
    "\<forall>a \<in> set (tl (xs @ [x])). mv a"
    using at_pos_split [OF assms(1)] by blast
  have tw: "takeWhile mv as = tl (xs @ [x]) @ takeWhile mv ys" "dropWhile mv as = dropWhile mv ys"
    using s(4) by (simp_all add: s(2))
  have no: "filter (\<lambda>a. i < lv a) (takeWhile mv ys) = []"
  proof (rule ccontr)
    assume "filter (\<lambda>a. i < lv a) (takeWhile mv ys) \<noteq> []"
    then obtain b where b: "hd_opt (filter (\<lambda>a. i < lv a) (takeWhile mv ys)) = Some b"
      by (metis not_None_eq hd_opt_None)
    then have "b \<in> set (takeWhile mv ys)" using hd_opt_filter [OF b] by (metis in_set_conv_decomp)
    then have "mv b" by (rule set_takeWhileD [THEN conjunct2])
    moreover have "filter (\<lambda>a. i < lv a) ys =
        filter (\<lambda>a. i < lv a) (takeWhile mv ys) @ filter (\<lambda>a. i < lv a) (dropWhile mv ys)"
      by (metis filter_append takeWhile_dropWhile_id)
    then have "hd_opt (filter (\<lambda>a. i < lv a) ys) = Some b"
      using b by (cases "filter (\<lambda>a. i < lv a) (takeWhile mv ys)") auto
    ultimately show False using assms(2) by simp
  qed
  have "sl_head sl # takeWhile mv as = xs @ x # takeWhile mv ys"
    using s(1) tw(1) by (cases xs) auto
  then show "x = pred_at (sl_head sl) as lv mv i" using s(3) no by (simp add: pred_at_def)
  assume z: "i = 0" "\<forall>a \<in> set as. 0 < lv a"
  then have "\<forall>a \<in> set ys. 0 < lv a" by (simp add: s(2))
  then have "filter (\<lambda>a. i < lv a) ys = ys" "filter (\<lambda>a. i < lv a) (takeWhile mv ys) = takeWhile mv ys"
    using z(1) by (auto intro!: filter_True dest: set_takeWhileD)
  then have f: "filter (\<lambda>a. i < lv a) ys = ys" "takeWhile mv ys = []" using no by simp_all
  show "hd_opt (filter (\<lambda>a. i < lv a) ys) = hd_opt (dropWhile mv as)"
    using f by (simp add: tw) (metis append_Nil takeWhile_dropWhile_id)
qed

subsection \<open>Keys in order\<close>

text \<open>
  The contract of the comparator of a skip list: three-way results that are a strict weak order on
  the keys that occur; keys that compare equal need not be the same.
\<close>

locale compare_keys =
  fixes cmp :: "'k \<Rightarrow> 'k \<Rightarrow> int res" and valid :: "'k \<Rightarrow> bool" and before :: "'k \<Rightarrow> 'k \<Rightarrow> bool"
  assumes cmp_before: "valid a \<Longrightarrow> valid b \<Longrightarrow>
      \<exists>r. cmp a b = Inr r \<and> (r < 0 \<longleftrightarrow> before a b) \<and> (r > 0 \<longleftrightarrow> before b a)"
    and before_weak: "valid a \<Longrightarrow> valid b \<Longrightarrow> valid c \<Longrightarrow> before a c \<Longrightarrow> before a b \<or> before b c"
begin

lemma before_asym: "valid a \<Longrightarrow> valid b \<Longrightarrow> before a b \<Longrightarrow> \<not> before b a"
  using cmp_before [of a b] by fastforce

lemma before_irrefl: "valid a \<Longrightarrow> \<not> before a a"
  using before_asym by blast

lemma before_trans: "valid a \<Longrightarrow> valid b \<Longrightarrow> valid c \<Longrightarrow> before a b \<Longrightarrow> before b c \<Longrightarrow> before a c"
  using before_weak [of a c b] before_asym [of c b] by blast

text \<open>The invariant, with the nodes in order and the height each is linked to.\<close>

definition skip_ok :: "'k SkipList \<Rightarrow> nat list \<Rightarrow> (nat \<Rightarrow> nat) \<Rightarrow> bool" where
  "skip_ok sl as lv \<longleftrightarrow> skip_shape sl as lv \<and> sl_compare sl = cmp \<and>
     (\<forall>a \<in> set as. valid (nkey sl a)) \<and> sorted_wrt before (map (nkey sl) as)"

definition less_key :: "'k SkipList \<Rightarrow> 'k \<Rightarrow> nat \<Rightarrow> bool" where
  "less_key sl key a \<longleftrightarrow> before (nkey sl a) key"

lemma prefix_less_key:
  assumes "skip_ok sl as lv" and "valid key"
  shows "prefix_pred (less_key sl key) as"
proof -
  have "less_key sl key u" if "as = us @ b # vs" "less_key sl key b" "u \<in> set us" for us b vs u
    using assms that before_trans [of "nkey sl u" "nkey sl b" key]
    by (auto simp: skip_ok_def sorted_wrt_append less_key_def)
  then show ?thesis unfolding prefix_pred_def by blast
qed

lemma KeyIsAfterNode_less:
  assumes "skip_ok sl as lv" and "valid key" and "b \<in> set as"
  shows "KeyIsAfterNode sl key (Some b) = Inr (less_key sl key b)"
proof -
  have "b < length (sl_arena sl)" using assms(1,3) by (auto simp: skip_ok_def skip_shape_def in_arena_def)
  then have "key_at sl b = Inr (nkey sl b)" by (simp add: key_at_def nkey_def)
  then show ?thesis
    using assms cmp_before [of "nkey sl b" key] by (auto simp: KeyIsAfterNode_def skip_ok_def less_key_def)
qed

lemma next_cases:
  assumes "skip_ok sl as lv" and "valid key" and "at_pos sl as lv mv x ys i"
  shows "KeyIsAfterNode sl key (hd_opt (filter (\<lambda>a. i < lv a) ys)) =
    Inr (case hd_opt (filter (\<lambda>a. i < lv a) ys) of None \<Rightarrow> False | Some b \<Rightarrow> less_key sl key b)"
proof (cases "hd_opt (filter (\<lambda>a. i < lv a) ys)")
  case None
  then show ?thesis by (simp only: KeyIsAfterNode_def option.case)
next
  case (Some b)
  then have "b \<in> set ys" using hd_opt_filter [OF Some] by (metis in_set_conv_decomp)
  then have "b \<in> set as" using at_pos_split [OF assms(3)] by auto
  then show ?thesis using KeyIsAfterNode_less [OF assms(1,2)] by (simp add: Some)
qed

text \<open>What a search has recorded in \<open>prev\<close> from level \<open>i\<close> down.\<close>

definition prev_ok :: "nat option list option \<Rightarrow> nat option list option \<Rightarrow> nat \<Rightarrow> (nat \<Rightarrow> nat) \<Rightarrow> bool" where
  "prev_ok prev prev' i pred \<longleftrightarrow>
     (case prev of None \<Rightarrow> prev' = None
      | Some ps \<Rightarrow> \<exists>ps'. prev' = Some ps' \<and> length ps' = length ps \<and> (\<forall>j \<le> i. ps' ! j = Some (pred j)) \<and>
          (\<forall>j > i. ps' ! j = ps ! j))"

lemma find_ge_loop_correct:
  assumes ok: "skip_ok sl as lv" and key: "valid key"
  defines "mv \<equiv> less_key sl key"
  shows "at_pos sl as lv mv x ys i \<Longrightarrow> length ys + i < fuel \<Longrightarrow> (\<And>ps. prev = Some ps \<Longrightarrow> length ps = kMaxHeight) \<Longrightarrow>
    \<exists>prev'. find_ge_loop fuel sl key x (int i) prev = Inr (hd_opt (dropWhile mv as), prev') \<and>
      prev_ok prev prev' i (pred_at (sl_head sl) as lv mv)"
proof (induction fuel arbitrary: x ys i prev)
  case (Suc fuel)
  note pos = Suc.prems(1)
  let ?b = "hd_opt (filter (\<lambda>a. i < lv a) ys)"
  have shape: "skip_shape sl as lv" and pre: "prefix_pred mv as"
    using ok prefix_less_key [OF ok key] by (simp_all add: skip_ok_def mv_def)
  note i = at_pos_level [OF shape pos]
  note step = at_pos_next [OF shape pos] next_cases [OF ok key pos, folded mv_def]
  show ?case
  proof (cases "\<exists>b. ?b = Some b \<and> mv b")
    case True
    then obtain b where b: "?b = Some b" "mv b" by blast
    then obtain vs where vs: "at_pos sl as lv mv b vs i" "length vs < length ys"
      using at_pos_move [OF pos _ _ pre] by blast
    then show ?thesis
      using Suc.IH [OF vs(1), of prev] Suc.prems(2,3) step b by simp
  next
    case False
    then have stop: "\<And>b. ?b = Some b \<Longrightarrow> \<not> mv b" by blast
    note x = at_pos_stop [OF pos stop pre]
    obtain prev1 where p: "record_prev prev (int i) x = Inr prev1" "prev1 = map_option (\<lambda>ps. ps[i := Some x]) prev"
      using i Suc.prems(3) by (cases prev) (auto simp: record_prev_def)
    have k: "KeyIsAfterNode sl key ?b = Inr False"
      using step(2) stop by (auto split: option.splits)
    show ?thesis
    proof (cases i)
      case 0
      have "\<forall>a \<in> set as. 0 < lv a" using shape by (simp add: skip_shape_def)
      then have "find_ge_loop (Suc fuel) sl key x (int i) prev = Inr (hd_opt (dropWhile mv as), prev1)"
        using x(2) 0 p(1) step(1) k by simp
      moreover have "prev_ok prev prev1 i (pred_at (sl_head sl) as lv mv)"
        using x(1) p(2) i Suc.prems(3) 0 by (cases prev) (auto simp: prev_ok_def)
      ultimately show ?thesis by blast
    next
      case (Suc j)
      have len: "\<And>ps. prev1 = Some ps \<Longrightarrow> length ps = kMaxHeight" using p(2) Suc.prems(3) by auto
      have "at_pos sl as lv mv x ys j" using pos Suc by (simp add: at_pos_down)
      from Suc.IH [OF this _ len] Suc.prems(2) Suc obtain prev'
        where r: "find_ge_loop fuel sl key x (int j) prev1 = Inr (hd_opt (dropWhile mv as), prev')"
          "prev_ok prev1 prev' j (pred_at (sl_head sl) as lv mv)" by auto
      have "find_ge_loop (Suc fuel) sl key x (int i) prev = Inr (hd_opt (dropWhile mv as), prev')"
        using r(1) p(1) step(1) k Suc by simp
      moreover have "prev_ok prev prev' i (pred_at (sl_head sl) as lv mv)"
        using r(2) x(1) p(2) i Suc.prems(3) Suc
        by (cases prev) (auto simp: prev_ok_def le_Suc_eq nth_list_update)
      ultimately show ?thesis by blast
    qed
  qed
qed simp

text \<open>The fuel is enough: one unit for each node and each level.\<close>

lemma shape_fuel:
  assumes "skip_shape sl as lv"
  shows "length as + nat (sl_max_height sl - 1) < search_fuel sl"
    and "at_pos sl as lv mv (sl_head sl) as (nat (sl_max_height sl - 1))"
    and "int (nat (GetMaxHeight sl - 1)) = GetMaxHeight sl - 1"
proof -
  have "set (sl_head sl # as) \<subseteq> {..< length (sl_arena sl)}" "distinct (sl_head sl # as)"
    using assms unfolding skip_shape_def in_arena_def by auto
  then have "length (sl_head sl # as) \<le> length (sl_arena sl)"
    by (metis card_lessThan card_mono distinct_card finite_lessThan)
  moreover have "1 \<le> sl_max_height sl" "sl_max_height sl \<le> int kMaxHeight"
    using assms by (simp_all add: skip_shape_def)
  ultimately show "length as + nat (sl_max_height sl - 1) < search_fuel sl"
    by (simp add: search_fuel_def)
  show "at_pos sl as lv mv (sl_head sl) as (nat (sl_max_height sl - 1))"
    using assms by (intro at_pos_start) (auto simp: skip_shape_def)
  show "int (nat (GetMaxHeight sl - 1)) = GetMaxHeight sl - 1"
    using assms by (simp add: skip_shape_def GetMaxHeight_def)
qed

lemma FindGreaterOrEqual_correct:
  assumes "skip_ok sl as lv" and "valid key" and "\<And>ps. prev = Some ps \<Longrightarrow> length ps = kMaxHeight"
  shows "\<exists>prev'. FindGreaterOrEqual sl key prev = Inr (hd_opt (dropWhile (less_key sl key) as), prev') \<and>
    prev_ok prev prev' (nat (sl_max_height sl - 1)) (pred_at (sl_head sl) as lv (less_key sl key))"
proof -
  have shape: "skip_shape sl as lv" using assms(1) by (simp add: skip_ok_def)
  note f = shape_fuel [OF shape]
  have h: "GetMaxHeight sl - 1 = int (nat (sl_max_height sl - 1))" using f(3) by (simp add: GetMaxHeight_def)
  show ?thesis
    unfolding FindGreaterOrEqual_def h
    by (rule find_ge_loop_correct [OF assms(1,2) f(2) f(1)]) (rule assms(3))
qed

lemma Seek_correct:
  assumes "skip_ok sl as lv" and "valid key"
  shows "iter_Seek sl key = Inr (hd_opt (dropWhile (less_key sl key) as))"
  using FindGreaterOrEqual_correct [OF assms, of None] by (auto simp: iter_Seek_def)

text \<open>The node at which a search that cannot move on stops, at the bottom level.\<close>

lemma pred_bottom:
  assumes "skip_shape sl as lv"
  shows "pred_at (sl_head sl) as lv mv 0 = last (sl_head sl # takeWhile mv as)"
proof -
  have "0 < lv (sl_head sl)" "\<forall>a \<in> set as. 0 < lv a"
    using assms by (auto simp: skip_shape_def kMaxHeight_def)
  then have "filter (\<lambda>a. 0 < lv a) (sl_head sl # takeWhile mv as) = sl_head sl # takeWhile mv as"
    by (intro filter_True) (auto dest: set_takeWhileD)
  then show ?thesis by (simp only: pred_at_def)
qed

lemma at_pos_less:
  assumes "skip_ok sl as lv" and "valid key" and "at_pos sl as lv (less_key sl key) x ys i"
  shows "(if x = sl_head sl then Inr True else KeyIsAfterNode sl key (Some x)) = Inr True"
proof (cases "x = sl_head sl")
  case False
  obtain xs where s: "sl_head sl # as = xs @ x # ys" "\<forall>a \<in> set (tl (xs @ [x])). less_key sl key a"
    "as = tl (xs @ [x]) @ ys"
    using at_pos_split [OF assms(3)] by blast
  then have "x \<in> set (tl (xs @ [x]))" using False by (cases xs) auto
  with s have "less_key sl key x" "x \<in> set as" by auto
  then show ?thesis using False KeyIsAfterNode_less [OF assms(1,2)] by simp
qed simp

lemma find_lt_loop_correct:
  assumes ok: "skip_ok sl as lv" and key: "valid key"
  defines "mv \<equiv> less_key sl key"
  shows "at_pos sl as lv mv x ys i \<Longrightarrow> length ys + i < fuel \<Longrightarrow>
    find_lt_loop fuel sl key x (int i) = Inr (last (sl_head sl # takeWhile mv as))"
proof (induction fuel arbitrary: x ys i)
  case (Suc fuel)
  note pos = Suc.prems(1)
  let ?b = "hd_opt (filter (\<lambda>a. i < lv a) ys)"
  have shape: "skip_shape sl as lv" and pre: "prefix_pred mv as"
    using ok prefix_less_key [OF ok key] by (simp_all add: skip_ok_def mv_def)
  note step = at_pos_next [OF shape pos] next_cases [OF ok key pos, folded mv_def]
    at_pos_less [OF ok key pos [unfolded mv_def]]
  show ?case
  proof (cases "\<exists>b. ?b = Some b \<and> mv b")
    case True
    then obtain b where b: "?b = Some b" "mv b" by blast
    then obtain vs where "at_pos sl as lv mv b vs i" "length vs < length ys"
      using at_pos_move [OF pos _ _ pre] by blast
    then show ?thesis using Suc.IH [of b vs i] Suc.prems(2) step b by simp
  next
    case False
    then have stop: "\<And>b. ?b = Some b \<Longrightarrow> \<not> mv b" by blast
    note x = at_pos_stop(1) [OF pos stop pre]
    have k: "KeyIsAfterNode sl key ?b = Inr False" using step(2) stop by (auto split: option.splits)
    show ?thesis
    proof (cases i)
      case 0
      then have "find_lt_loop (Suc fuel) sl key x (int i) = Inr x" using step k by simp
      moreover have "x = last (sl_head sl # takeWhile mv as)"
        using x 0 pred_bottom [OF shape, of mv] by (simp only:)
      ultimately show ?thesis by (simp only:)
    next
      case (Suc j)
      then show ?thesis using Suc.IH [of x ys j] Suc.prems pos step k by (simp add: at_pos_down)
    qed
  qed
qed simp

lemma find_last_loop_correct:
  assumes shape: "skip_shape sl as lv"
  shows "at_pos sl as lv (\<lambda>_. True) x ys i \<Longrightarrow> length ys + i < fuel \<Longrightarrow>
    find_last_loop fuel sl x (int i) = Inr (last (sl_head sl # as))"
proof (induction fuel arbitrary: x ys i)
  case (Suc fuel)
  note pos = Suc.prems(1)
  have pre: "prefix_pred (\<lambda>_. True) as" by (simp add: prefix_pred_def)
  note step = at_pos_next [OF shape pos]
  show ?case
  proof (cases "hd_opt (filter (\<lambda>a. i < lv a) ys)")
    case (Some b)
    then obtain vs where "at_pos sl as lv (\<lambda>_. True) b vs i" "length vs < length ys"
      using at_pos_move [OF pos _ _ pre] by blast
    then show ?thesis using Suc.IH [of b vs i] Suc.prems(2) step Some by simp
  next
    case None
    have x: "x = pred_at (sl_head sl) as lv (\<lambda>_. True) i"
      using at_pos_stop(1) [OF pos _ pre] None by simp
    show ?thesis
    proof (cases i)
      case 0
      then have "find_last_loop (Suc fuel) sl x (int i) = Inr x" using step None by simp
      moreover have "takeWhile (\<lambda>_. True) as = as" by (simp add: takeWhile_eq_all_conv)
      then have "x = last (sl_head sl # as)"
        using x 0 pred_bottom [OF shape, of "\<lambda>_. True"] by (simp only:)
      ultimately show ?thesis by (simp only:)
    next
      case (Suc j)
      then show ?thesis using Suc.IH [of x ys j] Suc.prems pos step None by (simp add: at_pos_down)
    qed
  qed
qed simp

lemma FindLessThan_correct:
  assumes "skip_ok sl as lv" and "valid key"
  shows "FindLessThan sl key = Inr (last (sl_head sl # takeWhile (less_key sl key) as))"
proof -
  have shape: "skip_shape sl as lv" using assms(1) by (simp add: skip_ok_def)
  note f = shape_fuel [OF shape]
  have h: "GetMaxHeight sl - 1 = int (nat (sl_max_height sl - 1))" using f(3) by (simp add: GetMaxHeight_def)
  show ?thesis unfolding FindLessThan_def h by (rule find_lt_loop_correct [OF assms f(2) f(1)])
qed

lemma FindLast_correct:
  assumes "skip_shape sl as lv"
  shows "FindLast sl = Inr (last (sl_head sl # as))"
proof -
  note f = shape_fuel [OF assms]
  have h: "GetMaxHeight sl - 1 = int (nat (sl_max_height sl - 1))" using f(3) by (simp add: GetMaxHeight_def)
  show ?thesis unfolding FindLast_def h by (rule find_last_loop_correct [OF assms f(2) f(1)])
qed

end

subsection \<open>Linking a node\<close>

text \<open>A store changes links only: addresses, keys and heights stay.\<close>

definition relinked :: "'k SkipList \<Rightarrow> 'k SkipList \<Rightarrow> bool" where
  "relinked sl sl' \<longleftrightarrow> (\<exists>ar. sl' = sl\<lparr>sl_arena := ar\<rparr> \<and> map node_key ar = map node_key (sl_arena sl) \<and>
     map (length \<circ> node_next) ar = map (length \<circ> node_next) (sl_arena sl))"

lemma relinked_refl [simp]: "relinked sl sl"
  unfolding relinked_def by (rule exI [of _ "sl_arena sl"]) simp

lemma relinked_trans: "relinked sl sl' \<Longrightarrow> relinked sl' sl'' \<Longrightarrow> relinked sl sl''"
  unfolding relinked_def by fastforce

lemma relinked_fields:
  assumes "relinked sl sl'"
  shows "sl_head sl' = sl_head sl" "sl_max_height sl' = sl_max_height sl" "sl_compare sl' = sl_compare sl"
    "sl_rnd sl' = sl_rnd sl" "length (sl_arena sl') = length (sl_arena sl)"
    "a < length (sl_arena sl) \<Longrightarrow> nkey sl' a = nkey sl a"
    "a < length (sl_arena sl) \<Longrightarrow> length (node_next (sl_arena sl' ! a)) = length (node_next (sl_arena sl ! a))"
proof -
  obtain ar where ar: "sl' = sl\<lparr>sl_arena := ar\<rparr>" "map node_key ar = map node_key (sl_arena sl)"
    "map (length \<circ> node_next) ar = map (length \<circ> node_next) (sl_arena sl)"
    using assms unfolding relinked_def by blast
  then show "sl_head sl' = sl_head sl" "sl_max_height sl' = sl_max_height sl" "sl_compare sl' = sl_compare sl"
    "sl_rnd sl' = sl_rnd sl" by simp_all
  show l: "length (sl_arena sl') = length (sl_arena sl)" using arg_cong [OF ar(2), of length] ar(1) by simp
  assume a: "a < length (sl_arena sl)"
  then show "nkey sl' a = nkey sl a"
    using arg_cong [OF ar(2), of "\<lambda>xs. xs ! a"] ar(1) l by (simp add: nkey_def)
  show "length (node_next (sl_arena sl' ! a)) = length (node_next (sl_arena sl ! a))"
    using arg_cong [OF ar(3), of "\<lambda>xs. xs ! a"] ar(1) l a by simp
qed

lemma Node_SetNext_link:
  assumes "a < length (sl_arena sl)" and "i < length (node_next (sl_arena sl ! a))"
  shows "\<exists>sl'. Node_SetNext sl a (int i) p = Inr sl' \<and> relinked sl sl' \<and>
    (\<forall>j b. link sl' j b = (if j = i \<and> b = a then Some p else link sl j b))"
proof -
  let ?ar = "(sl_arena sl)[a := (sl_arena sl ! a)\<lparr>node_next := (node_next (sl_arena sl ! a))[i := Some p]\<rparr>]"
  have "Node_SetNext sl a (int i) p = Inr (sl\<lparr>sl_arena := ?ar\<rparr>)"
    using assms by (simp add: Node_SetNext_def)
  moreover have "map node_key ?ar = map node_key (sl_arena sl)"
    "map (length \<circ> node_next) ?ar = map (length \<circ> node_next) (sl_arena sl)"
    using assms(1) by (auto intro!: nth_equalityI simp: nth_list_update)
  then have "relinked sl (sl\<lparr>sl_arena := ?ar\<rparr>)" unfolding relinked_def by blast
  moreover have "link (sl\<lparr>sl_arena := ?ar\<rparr>) j b = (if j = i \<and> b = a then Some p else link sl j b)" for j b
    using assms by (cases "b = a") (auto simp: link_def nth_list_update_eq nth_list_update_neq)
  ultimately show ?thesis by blast
qed

lemma in_arena_relinked: "relinked sl sl' \<Longrightarrow> in_arena sl as lv \<Longrightarrow> in_arena sl' as lv"
  by (auto simp: in_arena_def relinked_fields)

lemma filter_upd: "n \<notin> set xs \<Longrightarrow> filter (\<lambda>a. i < (lv(n := k)) a) xs = filter (\<lambda>a. i < lv a) xs"
  by (induction xs) auto

lemma filter_insert:
  assumes "distinct (h # ls @ n # rs)"
  shows "filter (\<lambda>a. i < (lv(n := k)) a) (h # ls @ n # rs) =
    filter (\<lambda>a. i < lv a) (h # ls) @ (if i < k then [n] else []) @ filter (\<lambda>a. i < lv a) rs"
proof -
  have "h # ls @ n # rs = (h # ls) @ [n] @ rs" by simp
  moreover have "n \<notin> set (h # ls)" "n \<notin> set rs" using assms by auto
  ultimately show ?thesis
    using filter_upd [of n "h # ls" i lv k] filter_upd [of n rs i lv k]
    by (simp only: filter_append) simp
qed

lemma link_level_correct:
  assumes ar: "in_arena sl (sl_head sl # ls @ n # rs) (lv(n := Suc j))"
    and lk: "linked sl (ls @ n # rs) (lv(n := j))" and j: "j < kMaxHeight" "j < lv (sl_head sl)"
    and prev: "j < length prev" "prev ! j = Some (last (filter (\<lambda>a. j < lv a) (sl_head sl # ls)))"
  shows "\<exists>sl'. link_level prev n (int j) sl = Inr sl' \<and> relinked sl sl' \<and> linked sl' (ls @ n # rs) (lv(n := Suc j))"
proof -
  let ?h = "sl_head sl" and ?F = "filter (\<lambda>a. j < lv a)"
  define p P Q where "p = last (?F (?h # ls))" and "P = butlast (?F (?h # ls))" and "Q = ?F rs"
  have ne: "?F (?h # ls) \<noteq> []" using j(2) by simp
  have d: "distinct (?h # ls @ n # rs)" using ar by (simp add: in_arena_def)
  have Pp: "?F (?h # ls) = P @ [p]" using ne by (simp add: p_def P_def)
  have "p \<in> set (?F (?h # ls))" using Pp by simp
  then have "p \<in> set (?h # ls)" "j < lv p" unfolding set_filter by blast+
  moreover from this have "p \<noteq> n" using d by auto
  ultimately have p: "p \<in> set (?h # ls)" "j < lv p" "p \<noteq> n" by blast+
  note old = filter_insert [OF d, of _ lv]
  have "chain (link sl j) (filter (\<lambda>a. j < (lv(n := j)) a) (?h # ls @ n # rs))"
    using lk j(1) unfolding linked_def by blast
  then have "chain (link sl j) (P @ p # Q)" unfolding old by (simp add: Q_def Pp del: filter.simps)
  note ch = this chain_at [OF this]
  have inA: "a < length (sl_arena sl) \<and> (lv(n := Suc j)) a \<le> length (node_next (sl_arena sl ! a))"
    if "a \<in> set (?h # ls @ n # rs)" for a
    using that ar unfolding in_arena_def by blast
  have pa: "p < length (sl_arena sl)" "j < length (node_next (sl_arena sl ! p))"
    and na: "n < length (sl_arena sl)" "j < length (node_next (sl_arena sl ! n))"
    using inA [of p] inA [of n] p by auto
  have nx: "Node_Next sl p (int j) = Inr (hd_opt Q)" using pa ch(2) by (simp add: Node_Next_link)
  obtain sl1 where s1: "Node_SetNext sl n (int j) (hd_opt Q) = Inr sl1" "relinked sl sl1"
    "\<And>i b. link sl1 i b = (if i = j \<and> b = n then Some (hd_opt Q) else link sl i b)"
    using Node_SetNext_link [OF na] by blast
  have pa1: "p < length (sl_arena sl1)" "j < length (node_next (sl_arena sl1 ! p))"
    using pa by (simp_all add: relinked_fields [OF s1(2)])
  obtain sl2 where s2: "Node_SetNext sl1 p (int j) (Some n) = Inr sl2" "relinked sl1 sl2"
    "\<And>i b. link sl2 i b = (if i = j \<and> b = p then Some (Some n) else link sl1 i b)"
    using Node_SetNext_link [OF pa1] by blast
  have "prev ! j = Some p" using prev(2) by (simp only: p_def)
  then have ll: "link_level prev n (int j) sl = Inr sl2"
    using prev(1) nx s1(1) s2(1) by (simp add: link_level_def)
  have dq: "distinct (P @ p # n # Q)"
  proof -
    have "distinct (P @ [p])" "distinct Q" using d Pp [symmetric] by (simp_all add: Q_def)
    moreover have "set (P @ [p]) \<subseteq> set (?h # ls)" using Pp [symmetric] by auto
    moreover have "set Q \<subseteq> set rs" by (auto simp: Q_def)
    ultimately show ?thesis using d by auto
  qed
  have "chain (link sl2 j) (P @ p # n # Q)"
    by (rule chain_insert [OF ch(1) dq]) (auto simp: s1(3) s2(3) ch(2) p(3) p(3) [symmetric])
  moreover have "chain (link sl2 i) (filter (\<lambda>a. i < (lv(n := Suc j)) a) (?h # ls @ n # rs))"
    if "i < kMaxHeight" "i \<noteq> j" for i
  proof -
    have "link sl2 i = link sl i" using that(2) by (intro ext) (simp add: s1(3) s2(3))
    moreover have "(i < Suc j) = (i < j)" using that(2) by auto
    moreover have "chain (link sl i) (filter (\<lambda>a. i < (lv(n := j)) a) (?h # ls @ n # rs))"
      using lk that(1) unfolding linked_def by blast
    ultimately show ?thesis unfolding old by simp
  qed
  ultimately have "linked sl2 (ls @ n # rs) (lv(n := Suc j))"
    unfolding linked_def
    using relinked_fields(1) [OF s1(2)] relinked_fields(1) [OF s2(2)] old [of j "Suc j"] Pp Q_def
    by (metis append.assoc append_Cons append_Nil lessI)
  with ll relinked_trans [OF s1(2) s2(2)] show ?thesis by blast
qed

lemma link_loop_correct:
  "in_arena sl (sl_head sl # ls @ n # rs) (lv(n := j + m)) \<Longrightarrow> linked sl (ls @ n # rs) (lv(n := j)) \<Longrightarrow>
    j + m \<le> kMaxHeight \<Longrightarrow> lv (sl_head sl) = kMaxHeight \<Longrightarrow> length prev = kMaxHeight \<Longrightarrow>
    (\<And>i. i < j + m \<Longrightarrow> prev ! i = Some (last (filter (\<lambda>a. i < lv a) (sl_head sl # ls)))) \<Longrightarrow>
    \<exists>sl'. link_loop prev n (int j) m sl = Inr sl' \<and> relinked sl sl' \<and> linked sl' (ls @ n # rs) (lv(n := j + m))"
proof (induction m arbitrary: j sl)
  case (Suc m)
  have "in_arena sl (sl_head sl # ls @ n # rs) (lv(n := Suc j))"
    using Suc.prems(1) by (auto simp: in_arena_def split: if_splits)
  then obtain sl1 where s1: "link_level prev n (int j) sl = Inr sl1" "relinked sl sl1"
    "linked sl1 (ls @ n # rs) (lv(n := Suc j))"
    using link_level_correct [of sl ls n rs lv j prev] Suc.prems by force
  have "in_arena sl1 (sl_head sl1 # ls @ n # rs) (lv(n := Suc j + m))"
    using in_arena_relinked [OF s1(2) Suc.prems(1)]
    by (simp add: relinked_fields(1) [OF s1(2)] del: fun_upd_apply)
  from Suc.IH [OF this s1(3)] Suc.prems obtain sl2 where s2: "link_loop prev n (int (Suc j)) m sl1 = Inr sl2"
    "relinked sl1 sl2" "linked sl2 (ls @ n # rs) (lv(n := j + Suc m))"
    by (auto simp: relinked_fields(1) [OF s1(2)] simp del: fun_upd_apply)
  have "link_loop prev n (int j) (Suc m) sl = Inr sl2" using s1(1) s2(1) by (simp add: add.commute)
  with relinked_trans [OF s1(2) s2(2)] s2(3) show ?case by blast
qed simp

lemma height_loop_bounds:
  "height \<le> kMaxHeight \<Longrightarrow> height_loop seed height = (h, seed') \<Longrightarrow> height \<le> h \<and> h \<le> kMaxHeight"
proof (induction seed height rule: height_loop.induct)
  case (1 seed height)
  show ?case
  proof (cases "height < kMaxHeight \<and> Random_Next seed mod 4 = 0")
    case True
    then have "height_loop seed height = height_loop (Random_Next seed) (height + 1)"
      by (subst height_loop.simps) (simp add: Let_def)
    with 1 True show ?thesis by (metis Suc_eq_plus1 Suc_leD Suc_leI)
  next
    case False
    then have "h = height"
      using 1(3) by (subst (asm) height_loop.simps) (auto simp: Let_def split: if_splits)
    then show ?thesis using 1(2) by simp
  qed
qed

lemma RandomHeight_ok:
  "\<exists>h seed. RandomHeight sl = Inr (int h, sl\<lparr>sl_rnd := seed\<rparr>) \<and> 1 \<le> h \<and> h \<le> kMaxHeight"
  using height_loop_bounds [of 1 "sl_rnd sl"]
  by (cases "height_loop (sl_rnd sl) 1") (auto simp: RandomHeight_def kMaxHeight_def)

lemma fill_prev_ok:
  "i + n \<le> length ps \<Longrightarrow> \<exists>ps'. fill_prev ps h (int i) n = Inr ps' \<and> length ps' = length ps \<and>
    (\<forall>j. ps' ! j = (if i \<le> j \<and> j < i + n then Some h else ps ! j))"
proof (induction n arbitrary: i ps)
  case (Suc n)
  from Suc.IH [of "Suc i" "ps[i := Some h]"] Suc.prems obtain ps' where
    "fill_prev (ps[i := Some h]) h (int (Suc i)) n = Inr ps'" "length ps' = length ps"
    "\<forall>j. ps' ! j = (if Suc i \<le> j \<and> j < Suc i + n then Some h else (ps[i := Some h]) ! j)"
    by auto
  then show ?case using Suc.prems by (auto simp: add.commute nth_list_update)
qed auto

lemma linked_new_node:
  assumes "distinct (sl_head sl # ls @ n # rs)"
  shows "linked sl (ls @ n # rs) (lv(n := 0)) = linked sl (ls @ rs) lv"
  unfolding linked_def filter_insert [OF assms]
  by (simp only: not_less_zero if_False append_Nil filter_append [symmetric] append_Cons)

lemma link_levels:
  assumes shape: "skip_shape sl (ls @ rs) lv" and n: "n \<notin> set (sl_head sl # ls @ rs)" "n < length (sl_arena sl)"
    "length (node_next (sl_arena sl ! n)) = h" and h: "h \<le> kMaxHeight" "int h \<le> sl_max_height sl"
    and prev: "length prev = kMaxHeight"
      "\<And>i. i < h \<Longrightarrow> prev ! i = Some (last (filter (\<lambda>a. i < lv a) (sl_head sl # ls)))"
    and m: "m \<le> h"
  shows "\<exists>sl'. link_loop prev n 0 m sl = Inr sl' \<and> relinked sl sl' \<and>
    (m \<noteq> 0 \<longrightarrow> skip_shape sl' (ls @ n # rs) (lv(n := m)))"
proof -
  have ina: "in_arena sl (sl_head sl # ls @ rs) lv" and lvh: "lv (sl_head sl) = kMaxHeight"
    using shape by (simp_all add: skip_shape_def)
  have dd: "distinct (sl_head sl # ls @ n # rs)" using ina n(1) by (auto simp: in_arena_def)
  have ar: "in_arena sl (sl_head sl # ls @ n # rs) (lv(n := m))"
    using dd ina m n by (auto simp: in_arena_def)
  have lk: "linked sl (ls @ n # rs) (lv(n := 0))"
    using shape linked_new_node [OF dd, of lv] by (simp add: skip_shape_def del: fun_upd_apply)
  have "\<exists>sl'. link_loop prev n (int 0) m sl = Inr sl' \<and> relinked sl sl' \<and> linked sl' (ls @ n # rs) (lv(n := 0 + m))"
    by (rule link_loop_correct) (use ar lk m h(1) lvh prev in \<open>simp_all del: fun_upd_apply filter.simps\<close>)
  then obtain sl' where s: "link_loop prev n 0 m sl = Inr sl'" "relinked sl sl'"
    "linked sl' (ls @ n # rs) (lv(n := m))" by auto
  have "skip_shape sl' (ls @ n # rs) (lv(n := m))" if "m \<noteq> 0"
    using s(3) in_arena_relinked [OF s(2) ar] that shape m h(2) n(1)
    unfolding skip_shape_def by (auto simp: relinked_fields [OF s(2)])
  with s show ?thesis by blast
qed

text \<open>Insertions one after the other, and the keys an iterator passes on its way forward or back.\<close>

fun insert_all :: "'k SkipList \<Rightarrow> 'k list \<Rightarrow> 'k SkipList res" where
  "insert_all sl [] = Inr sl"
| "insert_all sl (k # ks) = bind_res (Insert sl k) (\<lambda>sl. insert_all sl ks)"

fun iter_keys :: "nat \<Rightarrow> ('k SkipList \<Rightarrow> iterator \<Rightarrow> iterator res) \<Rightarrow> 'k SkipList \<Rightarrow> iterator \<Rightarrow> 'k list res" where
  "iter_keys 0 step sl it = Inl OutOfFuel"
| "iter_keys (Suc n) step sl it =
     (if Valid it then
        bind_res (iter_key sl it) (\<lambda>k. bind_res (step sl it) (\<lambda>it.
        bind_res (iter_keys n step sl it) (\<lambda>ks. Inr (k # ks))))
      else Inr [])"

context compare_keys
begin

text \<open>\<open>prepare_insert\<close> leaves the list as it was, with a fresh node in the arena.\<close>

lemma skip_ok_fresh:
  assumes "skip_ok sl as lv" and "h \<le> kMaxHeight" and "sl' = sl\<lparr>sl_arena := sl_arena sl @ [node],
    sl_rnd := seed, sl_max_height := (if int h > sl_max_height sl then int h else sl_max_height sl)\<rparr>"
  shows "skip_ok sl' as lv"
proof -
  have ar: "in_arena sl (sl_head sl # as) lv" using assms(1) by (simp add: skip_ok_def skip_shape_def)
  have "link sl' i a = link sl i a" "nkey sl' a = nkey sl a" if "a \<in> set (sl_head sl # as)" for i a
    using that ar by (auto simp: assms(3) link_def nkey_def in_arena_def nth_append)
  note same = this
  have "chain (link sl' i) (filter (\<lambda>a. i < lv a) (sl_head sl' # as)) =
      chain (link sl i) (filter (\<lambda>a. i < lv a) (sl_head sl # as))" for i
  proof -
    have "sl_head sl' = sl_head sl" by (simp add: assms(3))
    then show ?thesis
      using same(1) by (simp only:) (rule chain_cong, metis filter_is_subset subsetD)
  qed
  then have "linked sl' as lv = linked sl as lv" by (simp add: linked_def)
  moreover have "in_arena sl' (sl_head sl' # as) lv"
    using ar by (auto simp: assms(3) in_arena_def nth_append)
  moreover have "map (nkey sl') as = map (nkey sl) as" using same(2) by simp
  then have "sorted_wrt before (map (nkey sl') as)" using assms(1) by (simp only: skip_ok_def)
  moreover have "\<forall>a \<in> set as. valid (nkey sl' a)" using assms(1) same(2) by (simp add: skip_ok_def)
  moreover have "sl_head sl' = sl_head sl" "sl_compare sl' = sl_compare sl"
    "sl_max_height sl' = (if int h > sl_max_height sl then int h else sl_max_height sl)"
    by (simp_all add: assms(3))
  moreover from this have max: "sl_max_height sl \<le> sl_max_height sl'" "1 \<le> sl_max_height sl'"
    "sl_max_height sl' \<le> int kMaxHeight"
    using assms(1,2) by (auto simp: skip_ok_def skip_shape_def)
  moreover have "0 < lv a" "int (lv a) \<le> sl_max_height sl'" if "a \<in> set as" for a
    using that assms(1) max(1) unfolding skip_ok_def skip_shape_def by fastforce+
  ultimately show ?thesis
    using assms(1) unfolding skip_ok_def skip_shape_def by simp
qed

definition fresh_key :: "'k SkipList \<Rightarrow> nat list \<Rightarrow> 'k \<Rightarrow> bool" where
  "fresh_key sl as key \<longleftrightarrow> valid key \<and> (\<forall>a \<in> set as. before (nkey sl a) key \<or> before key (nkey sl a))"

lemma prepare_insert_correct:
  assumes ok: "skip_ok sl as lv" and fresh: "fresh_key sl as key"
  shows "\<exists>prev h sl'. prepare_insert sl key = Inr (prev, length (sl_arena sl), int h, sl') \<and>
    1 \<le> h \<and> h \<le> kMaxHeight \<and> int h \<le> sl_max_height sl' \<and> length prev = kMaxHeight \<and>
    (\<forall>j < h. prev ! j = Some (pred_at (sl_head sl) as lv (less_key sl key) j)) \<and>
    skip_ok sl' as lv \<and> sl_head sl' = sl_head sl \<and>
    sl_arena sl' = sl_arena sl @ [\<lparr>node_key = key, node_next = replicate h None\<rparr>]"
proof -
  let ?mv = "less_key sl key" and ?m = "nat (sl_max_height sl)"
  have key: "valid key" using fresh by (simp add: fresh_key_def)
  have shape: "skip_shape sl as lv" using ok by (simp add: skip_ok_def)
  then have m: "1 \<le> ?m" "?m \<le> kMaxHeight" "int ?m = sl_max_height sl" by (auto simp: skip_shape_def)
  let ?x = "hd_opt (dropWhile ?mv as)"
  obtain ps where f: "FindGreaterOrEqual sl key (Some (replicate kMaxHeight None)) = Inr (?x, Some ps)"
    and ps: "length ps = kMaxHeight" "\<And>j. j < ?m \<Longrightarrow> ps ! j = Some (pred_at (sl_head sl) as lv ?mv j)"
  proof -
    have l: "length ps = kMaxHeight" if "Some (replicate kMaxHeight None) = Some ps" for ps :: "nat option list"
      using that by auto
    obtain prev' where "FindGreaterOrEqual sl key (Some (replicate kMaxHeight None)) = Inr (?x, prev')"
      "prev_ok (Some (replicate kMaxHeight None)) prev' (nat (sl_max_height sl - 1)) (pred_at (sl_head sl) as lv ?mv)"
      using FindGreaterOrEqual_correct [OF ok key l] by blast
    with m show thesis using that by (auto simp: prev_ok_def)
  qed
  have "(case ?x of None \<Rightarrow> Inr True
     | Some x \<Rightarrow> bind_res (key_at sl x) (\<lambda>k. bind_res (Equal sl key k) (\<lambda>e. Inr (\<not> e)))) = Inr True"
  proof (cases ?x)
    case (Some b)
    then have "dropWhile ?mv as \<noteq> []" "b = hd (dropWhile ?mv as)" by (cases "dropWhile ?mv as"; simp)+
    then have b: "b \<in> set as" "\<not> ?mv b"
      using hd_dropWhile [of ?mv as] set_dropWhileD [of b ?mv as] hd_in_set [of "dropWhile ?mv as"] by simp_all
    then have bk: "before key (nkey sl b)" using fresh by (auto simp: fresh_key_def less_key_def)
    have "b < length (sl_arena sl)" "valid (nkey sl b)"
      using b(1) ok by (auto simp: skip_ok_def skip_shape_def in_arena_def)
    moreover obtain r where "cmp key (nkey sl b) = Inr r" "r < 0" using cmp_before [OF key calculation(2)] bk by blast
    ultimately show ?thesis
      using ok by (simp add: Some key_at_def Equal_def skip_ok_def) (simp add: nkey_def)
  qed (simp only: option.case)
  note fresh_node = this
  obtain h seed where h: "RandomHeight sl = Inr (int h, sl\<lparr>sl_rnd := seed\<rparr>)" "1 \<le> h" "h \<le> kMaxHeight"
    using RandomHeight_ok by blast
  have high: "pred_at (sl_head sl) as lv ?mv j = sl_head sl" if "?m \<le> j" "j < kMaxHeight" for j
  proof -
    have "\<forall>a \<in> set as. lv a \<le> j" using shape that(1) m(3) by (fastforce simp: skip_shape_def)
    then have "filter (\<lambda>a. j < lv a) (takeWhile ?mv as) = []"
      by (simp only: filter_empty_conv) (meson leD set_takeWhileD)
    then show ?thesis using shape that(2) by (simp add: pred_at_def skip_shape_def)
  qed
  define sl1 where "sl1 = sl\<lparr>sl_arena := sl_arena sl @ [\<lparr>node_key = key, node_next = replicate h None\<rparr>],
    sl_rnd := seed, sl_max_height := (if int h > sl_max_height sl then int h else sl_max_height sl)\<rparr>"
  obtain ps' where fp: "fill_prev ps (sl_head sl) (int ?m) (h - ?m) = Inr ps'" "length ps' = kMaxHeight"
    "\<forall>j. ps' ! j = (if ?m \<le> j \<and> j < ?m + (h - ?m) then Some (sl_head sl) else ps ! j)"
  proof -
    have "?m + (h - ?m) \<le> length ps" using ps(1) m(2) h(3) by linarith
    from fill_prev_ok [OF this, of "sl_head sl", unfolded ps(1)] show thesis using that by blast
  qed
  have ps'_ok: "ps' ! j = Some (pred_at (sl_head sl) as lv ?mv j)" if "j < h" for j
    using that fp(3) ps(2) [of j] high [of j] h(3) by auto
  have "prepare_insert sl key =
      Inr (if int h > sl_max_height sl then ps' else ps, length (sl_arena sl), int h, sl1)"
  proof -
    have "nat (int h - sl_max_height sl) = h - ?m" using m(3) by linarith
    then show ?thesis
      using f fresh_node h(1) fp(1) m(3)
      by (simp add: prepare_insert_def GetMaxHeight_def NewNode_def sl1_def)
  qed
  moreover have "skip_ok sl1 as lv" using skip_ok_fresh [OF ok h(3)] sl1_def by blast
  moreover have "\<forall>j < h. (if int h > sl_max_height sl then ps' else ps) ! j = Some (pred_at (sl_head sl) as lv ?mv j)"
    using ps'_ok ps(2) m(3) by auto
  ultimately show ?thesis
    using h(2,3) ps(1) fp(2) by (intro exI [of _ "if int h > sl_max_height sl then ps' else ps"] exI [of _ h] exI [of _ sl1])
      (auto simp: sl1_def)
qed

text \<open>
  After the stores of any number \<open>m\<close> of levels the invariant holds, with the new node linked to
  height \<open>m\<close>: a reader that searches between two stores finds a well-formed list.
\<close>

definition before_part :: "'k SkipList \<Rightarrow> 'k \<Rightarrow> nat list \<Rightarrow> nat list" where
  "before_part sl key as = takeWhile (less_key sl key) as"

definition after_part :: "'k SkipList \<Rightarrow> 'k \<Rightarrow> nat list \<Rightarrow> nat list" where
  "after_part sl key as = dropWhile (less_key sl key) as"

lemma fresh_after:
  assumes ok: "skip_ok sl as lv" and fresh: "fresh_key sl as key" and "a \<in> set (after_part sl key as)"
  shows "before key (nkey sl a)"
proof -
  obtain us vs where d: "after_part sl key as = us @ a # vs" using assms(3) by (meson split_list)
  have a: "a \<in> set as" using assms(3) unfolding after_part_def by (rule set_dropWhileD)
  have "\<not> less_key sl key a"
  proof
    assume l: "less_key sl key a"
    have "as = (before_part sl key as @ us) @ a # vs" using d by (simp add: before_part_def after_part_def flip: d)
    then have "\<forall>u \<in> set (before_part sl key as @ us). less_key sl key u"
      using prefix_less_key [OF ok, of key] l fresh unfolding prefix_pred_def fresh_key_def by blast
    then show False
      using d l hd_dropWhile [of "less_key sl key" as] by (cases us) (auto simp: after_part_def)
  qed
  then show ?thesis using fresh a by (auto simp: fresh_key_def less_key_def)
qed

lemma skip_ok_linked:
  assumes ok: "skip_ok sl (ls @ rs) lv" and rel: "relinked sl sl'" and shape: "skip_shape sl' (ls @ n # rs) lv'"
    and n: "valid (nkey sl n)" "n < length (sl_arena sl)"
    and ls: "\<And>a. a \<in> set ls \<Longrightarrow> before (nkey sl a) (nkey sl n)"
    and rs: "\<And>a. a \<in> set rs \<Longrightarrow> before (nkey sl n) (nkey sl a)"
  shows "skip_ok sl' (ls @ n # rs) lv'"
proof -
  have keys: "nkey sl' a = nkey sl a" if "a \<in> set (ls @ n # rs)" for a
    using that ok n(2) by (intro relinked_fields(6) [OF rel]) (auto simp: skip_ok_def skip_shape_def in_arena_def)
  then have "map (nkey sl') (ls @ n # rs) = map (nkey sl) (ls @ n # rs)" by simp
  moreover have "sorted_wrt before (map (nkey sl) (ls @ n # rs))"
    using ok ls rs by (auto simp: skip_ok_def sorted_wrt_append)
  moreover have "\<forall>a \<in> set (ls @ n # rs). valid (nkey sl' a)"
    using ok n keys by (auto simp: skip_ok_def)
  ultimately show ?thesis
    using ok shape relinked_fields(3) [OF rel] unfolding skip_ok_def by metis
qed

lemma insert_step_correct:
  assumes ok: "skip_ok sl as lv" and fresh: "fresh_key sl as key"
    and prep: "prepare_insert sl key = Inr (prev, n, height, sl1)" and m: "m \<le> nat height"
  shows "\<exists>sl2. link_loop prev n 0 m sl1 = Inr sl2 \<and>
    (if m = 0 then skip_ok sl2 as lv
     else skip_ok sl2 (before_part sl key as @ n # after_part sl key as) (lv(n := m))) \<and>
    (\<forall>a \<in> set as. nkey sl2 a = nkey sl a) \<and> nkey sl2 n = key"
proof -
  let ?ls = "before_part sl key as" and ?rs = "after_part sl key as"
  obtain h where h: "n = length (sl_arena sl)" "height = int h" "h \<le> kMaxHeight" "int h \<le> sl_max_height sl1"
    and prev: "length prev = kMaxHeight" "\<And>j. j < h \<Longrightarrow> prev ! j = Some (pred_at (sl_head sl) as lv (less_key sl key) j)"
    and ok1: "skip_ok sl1 (?ls @ ?rs) lv" and hd: "sl_head sl1 = sl_head sl"
    and ar1: "sl_arena sl1 = sl_arena sl @ [\<lparr>node_key = key, node_next = replicate h None\<rparr>]"
    using prepare_insert_correct [OF ok fresh] prep by (auto simp: before_part_def after_part_def)
  have as: "?ls @ ?rs = as" by (simp add: before_part_def after_part_def)
  have small: "a < length (sl_arena sl)" if "a \<in> set (sl_head sl # as)" for a
    using that ok unfolding skip_ok_def skip_shape_def in_arena_def by blast
  have k1: "nkey sl1 a = nkey sl a" if "a \<in> set as" for a
    using small [of a] that by (simp add: nkey_def ar1 nth_append)
  have kn: "nkey sl1 n = key" by (simp add: nkey_def ar1 h(1))
  have shape1: "skip_shape sl1 (?ls @ ?rs) lv" using ok1 by (simp add: skip_ok_def)
  have pv: "prev ! i = Some (last (filter (\<lambda>a. i < lv a) (sl_head sl1 # ?ls)))" if "i < h" for i
    using prev(2) [OF that] by (simp only: pred_at_def before_part_def hd)
  have "n \<notin> set (sl_head sl1 # ?ls @ ?rs)" using small as hd h(1) by fastforce
  note lk = link_levels [OF shape1 this _ _ h(3,4) prev(1) pv, of m]
  obtain sl2 where s2: "link_loop prev n 0 m sl1 = Inr sl2" "relinked sl1 sl2"
    "m \<noteq> 0 \<Longrightarrow> skip_shape sl2 (?ls @ n # ?rs) (lv(n := m))"
    using lk m by (auto simp: h ar1)
  note f = relinked_fields(6) [OF s2(2)]
  have "nkey sl2 a = nkey sl a" if "a \<in> set as" for a
    using that small [of a] by (simp add: f ar1 k1)
  moreover have "nkey sl2 n = key" using kn by (simp add: f ar1 h(1))
  moreover have "skip_ok sl2 (?ls @ n # ?rs) (lv(n := m))" if "m \<noteq> 0"
  proof (rule skip_ok_linked [OF ok1 s2(2) s2(3) [OF that]])
    show "valid (nkey sl1 n)" using fresh unfolding kn fresh_key_def by blast
    show "n < length (sl_arena sl1)" by (simp add: ar1 h(1))
    have "set ?ls \<subseteq> set as" "set ?rs \<subseteq> set as" by (subst as [symmetric], simp)+
    then show "before (nkey sl1 a) (nkey sl1 n)" if "a \<in> set ?ls" for a
      using that k1 kn by (auto simp: before_part_def less_key_def dest: set_takeWhileD)
    show "before (nkey sl1 n) (nkey sl1 a)" if "a \<in> set ?rs" for a
      using that k1 kn fresh_after [OF ok fresh that] \<open>set ?rs \<subseteq> set as\<close> by auto
  qed
  moreover have "skip_ok sl2 as lv" if "m = 0" using that s2(1) ok1 as by simp
  ultimately show ?thesis using s2(1) by auto
qed

text \<open>What the list stands for: the sorted list of its keys.\<close>

definition holds :: "'k SkipList \<Rightarrow> 'k list \<Rightarrow> bool" where
  "holds sl ks \<longleftrightarrow> (\<exists>as lv. skip_ok sl as lv \<and> map (nkey sl) as = ks)"

definition new_key :: "'k list \<Rightarrow> 'k \<Rightarrow> bool" where
  "new_key ks key \<longleftrightarrow> valid key \<and> (\<forall>k \<in> set ks. before k key \<or> before key k)"

definition insert_key :: "'k \<Rightarrow> 'k list \<Rightarrow> 'k list" where
  "insert_key key ks = takeWhile (\<lambda>k. before k key) ks @ key # dropWhile (\<lambda>k. before k key) ks"

lemma map_parts:
  "map (nkey sl) (before_part sl key as) = takeWhile (\<lambda>k. before k key) (map (nkey sl) as)"
  "map (nkey sl) (after_part sl key as) = dropWhile (\<lambda>k. before k key) (map (nkey sl) as)"
  by (simp_all add: before_part_def after_part_def takeWhile_map dropWhile_map comp_def less_key_def [abs_def])

lemma holds_empty: "\<exists>sl. new_SkipList cmp zero = Inr sl \<and> holds sl []"
proof -
  let ?sl = "\<lparr>sl_compare = cmp, sl_arena = [\<lparr>node_key = zero, node_next = replicate 12 (Some None)\<rparr>],
    sl_head = 0, sl_max_height = 1, sl_rnd = new_Random 0xdeadbeef\<rparr>"
  have "new_SkipList cmp zero = Inr ?sl"
    by (simp add: new_SkipList_def NewNode_def kMaxHeight_def numeral_eq_Suc Node_SetNext_def vec_at_def vec_set_def
        del: of_nat_Suc)
  moreover have "skip_ok ?sl [] (\<lambda>_. kMaxHeight)"
    by (auto simp: skip_ok_def skip_shape_def in_arena_def linked_def link_def kMaxHeight_def)
  ultimately show ?thesis by (auto simp: holds_def)
qed

lemma holds_prepared:
  assumes "holds sl ks" and "new_key ks key"
  shows "\<exists>prev n height sl1. prepare_insert sl key = Inr (prev, n, height, sl1) \<and> 1 \<le> height \<and>
    (\<forall>m \<le> nat height. \<exists>sl2. link_loop prev n 0 m sl1 = Inr sl2 \<and>
      holds sl2 (if m = 0 then ks else insert_key key ks))"
proof -
  obtain as lv where ok: "skip_ok sl as lv" and ks: "map (nkey sl) as = ks" using assms(1) by (auto simp: holds_def)
  have fresh: "fresh_key sl as key" using assms(2) ks by (auto simp: new_key_def fresh_key_def)
  obtain prev n h sl1 where p: "prepare_insert sl key = Inr (prev, n, int h, sl1)" "1 \<le> h"
    using prepare_insert_correct [OF ok fresh] by blast
  have "\<exists>sl2. link_loop prev n 0 m sl1 = Inr sl2 \<and> holds sl2 (if m = 0 then ks else insert_key key ks)"
    if "m \<le> h" for m
  proof -
    have "m \<le> nat (int h)" using that by simp
    then obtain sl2 where s2: "link_loop prev n 0 m sl1 = Inr sl2"
      "if m = 0 then skip_ok sl2 as lv
       else skip_ok sl2 (before_part sl key as @ n # after_part sl key as) (lv(n := m))"
      "\<forall>a \<in> set as. nkey sl2 a = nkey sl a" "nkey sl2 n = key"
      using insert_step_correct [OF ok fresh p(1)] by blast
    have "set (before_part sl key as) \<subseteq> set as" "set (after_part sl key as) \<subseteq> set as"
      by (auto simp: before_part_def after_part_def dest: set_takeWhileD set_dropWhileD)
    then have "map (nkey sl2) (before_part sl key as) = map (nkey sl) (before_part sl key as)"
      "map (nkey sl2) (after_part sl key as) = map (nkey sl) (after_part sl key as)" "map (nkey sl2) as = ks"
      using s2(3) ks by auto
    then have "map (nkey sl2) (before_part sl key as @ n # after_part sl key as) = insert_key key ks"
      using s2(4) ks by (simp add: map_parts insert_key_def)
    with s2(1,2) \<open>map (nkey sl2) as = ks\<close> show ?thesis
      unfolding holds_def by (cases "m = 0") (metis (full_types))+
  qed
  with p show ?thesis by (metis nat_int of_nat_1 of_nat_le_iff)
qed

lemma holds_Insert:
  assumes "holds sl ks" and "new_key ks key"
  shows "\<exists>sl'. Insert sl key = Inr sl' \<and> holds sl' (insert_key key ks)"
proof -
  obtain prev n height sl1 where p: "prepare_insert sl key = Inr (prev, n, height, sl1)" "1 \<le> height"
    "\<And>m. m \<le> nat height \<Longrightarrow> \<exists>sl2. link_loop prev n 0 m sl1 = Inr sl2 \<and>
      holds sl2 (if m = 0 then ks else insert_key key ks)"
    using holds_prepared [OF assms] by blast
  from p(3) [of "nat height"] p(1,2) show ?thesis by (auto simp: Insert_def)
qed

subsection \<open>The iterator\<close>

text \<open>An iterator at position \<open>i\<close> of the keys; past the end it is not valid.\<close>

definition iter_at :: "'k SkipList \<Rightarrow> 'k list \<Rightarrow> nat \<Rightarrow> iterator \<Rightarrow> bool" where
  "iter_at sl ks i it \<longleftrightarrow> (\<exists>as lv. skip_ok sl as lv \<and> map (nkey sl) as = ks \<and> it = hd_opt (drop i as))"

lemma drop_Cons_split: "i < length as \<Longrightarrow> as = take i as @ as ! i # drop (Suc i) as"
  by (simp add: id_take_nth_drop)

lemma hd_opt_drop: "hd_opt (drop i as) = (if i < length as then Some (as ! i) else None)"
  by (auto simp flip: Cons_nth_drop_Suc)

lemma iter_at_Valid: "iter_at sl ks i it \<Longrightarrow> Valid it \<longleftrightarrow> i < length ks"
  by (auto simp: iter_at_def Valid_def hd_opt_drop split: if_splits)

lemma at_pos_nth:
  assumes "skip_ok sl as lv" and "i < length as"
  shows "at_pos sl as lv (\<lambda>_. True) (as ! i) (drop (Suc i) as) 0"
proof -
  have "sl_head sl # as = (sl_head sl # take i as) @ as ! i # drop (Suc i) as"
    using drop_Cons_split [OF assms(2)] by simp
  moreover have "0 < lv (as ! i)" using assms by (simp add: skip_ok_def skip_shape_def)
  ultimately show ?thesis unfolding at_pos_def by blast
qed

lemma next_nth:
  assumes ok: "skip_ok sl as lv" and pos: "at_pos sl as lv (\<lambda>_. True) x ys 0"
  shows "Node_Next sl x 0 = Inr (hd_opt ys)"
proof -
  have "\<forall>a \<in> set ys. 0 < lv a"
    using at_pos_split [OF pos] ok by (auto simp: skip_ok_def skip_shape_def)
  then have "filter (\<lambda>a. 0 < lv a) ys = ys" by (simp add: filter_True)
  with at_pos_next [OF _ pos] ok show ?thesis by (simp add: skip_ok_def)
qed

lemma iter_Next_at:
  assumes "iter_at sl ks i it" and "i < length ks"
  shows "\<exists>it'. iter_Next sl it = Inr it' \<and> iter_at sl ks (Suc i) it' \<and> iter_key sl it = Inr (ks ! i)"
proof -
  obtain as lv where ok: "skip_ok sl as lv" and ks: "map (nkey sl) as = ks" and it: "it = hd_opt (drop i as)"
    using assms(1) by (auto simp: iter_at_def)
  have i: "i < length as" using assms(2) ks by auto
  have it': "it = Some (as ! i)" using i it by (simp flip: Cons_nth_drop_Suc)
  have "as ! i < length (sl_arena sl)" using ok i by (simp add: skip_ok_def skip_shape_def in_arena_def)
  then have "iter_key sl it = Inr (ks ! i)"
    using ks i by (auto simp: iter_key_def iter_node_def Valid_def it' key_at_def nkey_def)
  moreover have "iter_Next sl it = Inr (hd_opt (drop (Suc i) as))"
    using next_nth [OF ok at_pos_nth [OF ok i]] by (simp add: iter_Next_def iter_node_def Valid_def it')
  ultimately show ?thesis using ok ks by (auto simp: iter_at_def)
qed

lemma iter_SeekToFirst_at:
  assumes "holds sl ks"
  shows "\<exists>it. iter_SeekToFirst sl = Inr it \<and> iter_at sl ks 0 it"
proof -
  obtain as lv where ok: "skip_ok sl as lv" and ks: "map (nkey sl) as = ks" using assms by (auto simp: holds_def)
  have "at_pos sl as lv (\<lambda>_. True) (sl_head sl) as 0"
    using ok by (intro at_pos_start) (simp_all add: skip_ok_def kMaxHeight_def)
  from next_nth [OF ok this] show ?thesis using ok ks by (auto simp: iter_SeekToFirst_def iter_at_def)
qed

lemma dropWhile_drop: "dropWhile P xs = drop (length (takeWhile P xs)) xs"
  by (simp add: dropWhile_eq_drop)

lemma iter_Seek_at:
  assumes "holds sl ks" and "valid key"
  shows "\<exists>it. iter_Seek sl key = Inr it \<and> iter_at sl ks (length (takeWhile (\<lambda>k. before k key) ks)) it"
proof -
  obtain as lv where ok: "skip_ok sl as lv" and ks: "map (nkey sl) as = ks" using assms(1) by (auto simp: holds_def)
  have "length (takeWhile (\<lambda>k. before k key) ks) = length (takeWhile (less_key sl key) as)"
    using map_parts(1) [of sl key as] ks by (metis before_part_def length_map)
  then show ?thesis
    using Seek_correct [OF ok assms(2)] ok ks by (auto simp: iter_at_def dropWhile_drop)
qed

lemma iter_Prev_at:
  assumes "iter_at sl ks i it" and "i < length ks"
  shows "\<exists>it'. iter_Prev sl it = Inr it' \<and> iter_at sl ks (if i = 0 then length ks else i - 1) it'"
proof -
  obtain as lv where ok: "skip_ok sl as lv" and ks: "map (nkey sl) as = ks" and it: "it = hd_opt (drop i as)"
    using assms(1) by (auto simp: iter_at_def)
  have i: "i < length as" using assms(2) ks by auto
  let ?k = "nkey sl (as ! i)"
  have it': "it = Some (as ! i)" using i it by (simp flip: Cons_nth_drop_Suc)
  have a: "as ! i < length (sl_arena sl)" "valid ?k" using ok i by (simp_all add: skip_ok_def skip_shape_def in_arena_def)
  have "less_key sl ?k b" if "b \<in> set (take i as)" for b
    using that ok i by (auto simp: less_key_def skip_ok_def in_set_conv_nth sorted_wrt_iff_nth_less)
  moreover have "\<not> less_key sl ?k (as ! i)" using before_irrefl [OF a(2)] by (simp add: less_key_def)
  ultimately have tw: "takeWhile (less_key sl ?k) as = take i as"
    by (subst (1) drop_Cons_split [OF i]) (simp add: takeWhile_append2)
  have hd: "sl_head sl \<notin> set as" using ok by (simp add: skip_ok_def skip_shape_def in_arena_def)
  have "iter_Prev sl it = Inr (if i = 0 then None else Some (as ! (i - 1)))"
  proof (cases i)
    case 0
    then show ?thesis
      using FindLessThan_correct [OF ok a(2)] tw a(1)
      by (simp add: iter_Prev_def iter_node_def Valid_def it' key_at_def nkey_def)
  next
    case (Suc j)
    then have "FindLessThan sl ?k = Inr (as ! j)"
      using FindLessThan_correct [OF ok a(2)] tw i by (simp add: take_Suc_conv_app_nth del: takeWhile.simps)
    moreover have "as ! j \<noteq> sl_head sl" using hd i Suc by (metis Suc_lessD nth_mem)
    ultimately show ?thesis
      using a(1) Suc
      by (simp add: iter_Prev_def iter_node_def Valid_def it' key_at_def nkey_def)
  qed
  moreover have "(if i = 0 then None else Some (as ! (i - 1))) = hd_opt (drop (if i = 0 then length ks else i - 1) as)"
    using i ks by (cases i) (auto simp flip: Cons_nth_drop_Suc)
  ultimately show ?thesis using ok ks by (auto simp: iter_at_def)
qed

lemma iter_SeekToLast_at:
  assumes "holds sl ks"
  shows "\<exists>it. iter_SeekToLast sl = Inr it \<and> iter_at sl ks (length ks - 1) it"
proof -
  obtain as lv where ok: "skip_ok sl as lv" and ks: "map (nkey sl) as = ks" using assms by (auto simp: holds_def)
  have hd: "sl_head sl \<notin> set as" using ok by (simp add: skip_ok_def skip_shape_def in_arena_def)
  have l: "FindLast sl = Inr (last (sl_head sl # as))" using ok by (intro FindLast_correct [of _ _ lv]) (simp add: skip_ok_def)
  have "iter_SeekToLast sl = Inr (hd_opt (drop (length as - 1) as))"
  proof (cases as rule: rev_cases)
    case (snoc bs b)
    then show ?thesis using l hd by (auto simp: iter_SeekToLast_def)
  qed (simp add: iter_SeekToLast_def l)
  then show ?thesis using ok ks by (auto simp: iter_at_def)
qed

lemma Contains_iff:
  assumes "holds sl ks" and "valid key"
  shows "Contains sl key = Inr (\<exists>k \<in> set ks. \<not> before k key \<and> \<not> before key k)"
proof -
  obtain as lv where ok: "skip_ok sl as lv" and ks: "map (nkey sl) as = ks" using assms(1) by (auto simp: holds_def)
  have f: "FindGreaterOrEqual sl key None = Inr (hd_opt (dropWhile (less_key sl key) as), None)"
    using FindGreaterOrEqual_correct [OF ok assms(2), of None] by (auto simp: prev_ok_def)
  have va: "valid (nkey sl a)" if "a \<in> set as" for a using that ok by (simp add: skip_ok_def)
  show ?thesis
  proof (cases "dropWhile (less_key sl key) as")
    case Nil
    then have "\<forall>a \<in> set as. before (nkey sl a) key" by (simp add: dropWhile_eq_Nil_conv less_key_def)
    then show ?thesis using f Nil ks by (auto simp: Contains_def)
  next
    case (Cons b bs)
    have b: "b \<in> set as" "\<not> before (nkey sl b) key"
      using Cons hd_dropWhile [of "less_key sl key" as] set_dropWhileD [of b "less_key sl key" as]
      by (auto simp: less_key_def)
    have as: "as = takeWhile (less_key sl key) as @ b # bs" using Cons by (metis takeWhile_dropWhile_id)
    have "before (nkey sl b) (nkey sl c)" if "c \<in> set bs" for c
      using ok that by (subst (asm) as) (auto simp: skip_ok_def sorted_wrt_append)
    then have later: "before key (nkey sl c)" if "c \<in> set bs" "before key (nkey sl b)" for c
      using that before_trans [of key "nkey sl b" "nkey sl c"] va b(1) assms(2) as
      by (metis Un_iff list.set_intros(2) set_append)
    have same: "(\<exists>k \<in> set ks. \<not> before k key \<and> \<not> before key k) \<longleftrightarrow> \<not> before key (nkey sl b)"
    proof
      assume "\<exists>k \<in> set ks. \<not> before k key \<and> \<not> before key k"
      then obtain c where c: "c \<in> set as" "\<not> less_key sl key c" "\<not> before key (nkey sl c)"
        using ks by (auto simp: less_key_def)
      then have "c \<in> set (b # bs)" using as by (metis Un_iff set_append set_takeWhileD)
      then show "\<not> before key (nkey sl b)" using c later by auto
    qed (use b ks in auto)
    obtain r where r: "cmp key (nkey sl b) = Inr r" "(r < 0) = before key (nkey sl b)" "(r > 0) = before (nkey sl b) key"
      using cmp_before [OF assms(2) va [OF b(1)]] by blast
    have "b < length (sl_arena sl)" using b(1) ok by (simp add: skip_ok_def skip_shape_def in_arena_def)
    then have "Contains sl key = Inr (r = 0)"
      using f Cons r(1) ok by (simp add: Contains_def key_at_def Equal_def skip_ok_def) (simp add: nkey_def)
    moreover have "r = 0 \<longleftrightarrow> \<not> before key (nkey sl b)" using r(2,3) b(2) by auto
    ultimately show ?thesis unfolding same by simp
  qed
qed

lemma iter_keys_forward:
  "iter_at sl ks i it \<Longrightarrow> length ks - i < n \<Longrightarrow> iter_keys n iter_Next sl it = Inr (drop i ks)"
proof (induction n arbitrary: i it)
  case (Suc n)
  show ?case
  proof (cases "i < length ks")
    case True
    obtain it' where it': "iter_Next sl it = Inr it'" "iter_at sl ks (Suc i) it'" "iter_key sl it = Inr (ks ! i)"
      using iter_Next_at [OF Suc.prems(1) True] by blast
    have "length ks - Suc i < n" using Suc.prems(2) True by linarith
    then have "iter_keys n iter_Next sl it' = Inr (drop (Suc i) ks)" by (rule Suc.IH [OF it'(2)])
    then show ?thesis
      using it'(1,3) True by (simp add: iter_at_Valid [OF Suc.prems(1)] Cons_nth_drop_Suc)
  qed (simp add: iter_at_Valid [OF Suc.prems(1)])
qed simp

lemma iter_keys_back:
  "iter_at sl ks i it \<Longrightarrow> Suc i < n \<Longrightarrow> i < length ks \<Longrightarrow>
    iter_keys n iter_Prev sl it = Inr (rev (take (Suc i) ks))"
proof (induction n arbitrary: i it)
  case (Suc n)
  obtain it' where it': "iter_Prev sl it = Inr it'" "iter_at sl ks (if i = 0 then length ks else i - 1) it'"
    using iter_Prev_at [OF Suc.prems(1,3)] by blast
  have k: "iter_key sl it = Inr (ks ! i)" using iter_Next_at [OF Suc.prems(1,3)] by blast
  show ?case
  proof (cases i)
    case 0
    then have "\<not> Valid it'" using iter_at_Valid [OF it'(2)] by simp
    then have "iter_keys n iter_Prev sl it' = Inr []" using Suc.prems(2) by (cases n) simp_all
    then show ?thesis
      using it'(1) k Suc.prems(3) 0 by (cases ks) (simp_all add: iter_at_Valid [OF Suc.prems(1)])
  next
    case (Suc j)
    then have "iter_keys n iter_Prev sl it' = Inr (rev (take (Suc j) ks))"
      using Suc.IH [of j it'] it'(2) Suc.prems by simp
    then show ?thesis
      using it'(1) k Suc.prems(3) Suc
      by (simp add: iter_at_Valid [OF Suc.prems(1)] take_Suc_conv_app_nth [of "Suc j"])
  qed
qed simp

lemma holds_sorted: "holds sl ks \<Longrightarrow> sorted_wrt before ks"
  by (auto simp: holds_def skip_ok_def)

lemma holds_valid: "holds sl ks \<Longrightarrow> k \<in> set ks \<Longrightarrow> valid k"
  by (auto simp: holds_def skip_ok_def)

lemma set_insert_key [simp]: "set (insert_key key ks) = insert key (set ks)"
proof -
  have "set (insert_key key ks) = insert key (set (takeWhile (\<lambda>k. before k key) ks @ dropWhile (\<lambda>k. before k key) ks))"
    by (simp add: insert_key_def del: takeWhile_dropWhile_id)
  then show ?thesis by simp
qed

fun all_new :: "'k list \<Rightarrow> 'k list \<Rightarrow> bool" where
  "all_new ks [] \<longleftrightarrow> True"
| "all_new ks (m # ms) \<longleftrightarrow> new_key ks m \<and> all_new (insert_key m ks) ms"

lemma holds_insert_all:
  "holds sl ks \<Longrightarrow> all_new ks ms \<Longrightarrow> \<exists>sl'. insert_all sl ms = Inr sl' \<and> holds sl' (fold insert_key ms ks)"
proof (induction ms arbitrary: sl ks)
  case (Cons m ms)
  then obtain sl1 where "Insert sl m = Inr sl1" "holds sl1 (insert_key m ks)" using holds_Insert by fastforce
  with Cons.IH [of sl1] Cons.prems(2) show ?case by auto
qed auto

lemma set_fold_insert_key: "set (fold insert_key ms ks) = set ms \<union> set ks"
  by (induction ms arbitrary: ks) auto

text \<open>The whole list, forward and back, and from a key on.\<close>

lemma holds_traverse:
  assumes "holds sl ks"
  shows "bind_res (iter_SeekToFirst sl) (iter_keys (Suc (length ks)) iter_Next sl) = Inr ks"
    and "bind_res (iter_SeekToLast sl) (iter_keys (Suc (length ks)) iter_Prev sl) = Inr (rev ks)"
    and "valid k \<Longrightarrow> bind_res (iter_Seek sl k) (iter_keys (Suc (length ks)) iter_Next sl) =
      Inr (dropWhile (\<lambda>x. before x k) ks)"
proof -
  show "bind_res (iter_SeekToFirst sl) (iter_keys (Suc (length ks)) iter_Next sl) = Inr ks"
    using iter_SeekToFirst_at [OF assms] iter_keys_forward [of sl ks 0 _ "Suc (length ks)"] by auto
  show "bind_res (iter_SeekToLast sl) (iter_keys (Suc (length ks)) iter_Prev sl) = Inr (rev ks)"
  proof -
    obtain it where it: "iter_SeekToLast sl = Inr it" "iter_at sl ks (length ks - 1) it"
      using iter_SeekToLast_at [OF assms] by blast
    show ?thesis
    proof (cases "ks = []")
      case False
      then show ?thesis using it iter_keys_back [OF it(2), of "Suc (length ks)"] by simp
    qed (use it iter_at_Valid [OF it(2)] in simp)
  qed
  assume "valid k"
  then show "bind_res (iter_Seek sl k) (iter_keys (Suc (length ks)) iter_Next sl) =
      Inr (dropWhile (\<lambda>x. before x k) ks)"
    using iter_Seek_at [OF assms, of k] iter_keys_forward [of sl ks _ _ "Suc (length ks)"]
    by (force simp: dropWhile_drop)
qed

end

text \<open>A comparator that meets the contract of \<open>comparator.h\<close> orders a skip list.\<close>

sublocale key_order < keys: compare_keys "Compare cmp" valid before
proof
  show "before a b \<or> before b c" if "valid a" "valid b" "valid c" "before a c" for a b c
    using that before_total [of a b] before_trans [of b a c] by blast
qed (use compare_before in blast)

subsection \<open>Properties\<close>

lemma bytes_all_new: "distinct ms \<Longrightarrow> set ms \<inter> set ks = {} \<Longrightarrow> bytewise.keys.all_new ks ms"
proof (induction ms arbitrary: ks)
  case (Cons m ms)
  then have "bytewise.keys.new_key ks m" by (auto simp: bytewise.keys.new_key_def)
  moreover have "bytewise.keys.all_new (bytewise.keys.insert_key m ks) ms"
    using Cons.prems by (intro Cons.IH) auto
  ultimately show ?case by simp
qed simp

lemma bytes_sorted: "bytewise.keys.holds sl ms \<Longrightarrow> set ms = set ks \<Longrightarrow> distinct ks \<Longrightarrow> ms = sort ks"
  using bytewise.keys.holds_sorted [of sl ms]
  by (metis distinct_sort set_sort sorted_distinct_set_unique sorted_sort strict_sorted_iff)

lemma bytes_Contains: "bytewise.keys.holds sl ks \<Longrightarrow> Contains sl t = Inr (t \<in> set ks)"
proof -
  assume h: "bytewise.keys.holds sl ks"
  have "(\<exists>k \<in> set ks. \<not> k < t \<and> \<not> t < k) \<longleftrightarrow> t \<in> set ks" by (auto simp: not_less dest: order.antisym)
  then show ?thesis using bytewise.keys.Contains_iff [OF h, of t] by simp
qed

definition bytes_list :: "slice list \<Rightarrow> slice SkipList res" where
  "bytes_list ks = bind_res (new_SkipList (Compare BytewiseComparator) []) (\<lambda>sl. insert_all sl ks)"

lemma bytes_list_holds:
  assumes "distinct ks"
  shows "\<exists>sl. bytes_list ks = Inr sl \<and> bytewise.keys.holds sl (sort ks)"
proof -
  obtain sl0 where n: "new_SkipList (Compare BytewiseComparator) [] = Inr sl0" "bytewise.keys.holds sl0 []"
    using bytewise.keys.holds_empty by blast
  then obtain sl where sl: "insert_all sl0 ks = Inr sl" "bytewise.keys.holds sl (fold bytewise.keys.insert_key ks [])"
    using bytewise.keys.holds_insert_all [OF n(2) bytes_all_new [OF assms]] by auto
  with bytes_sorted [OF sl(2), of ks] assms n(1) show ?thesis
    by (auto simp: bytes_list_def bytewise.keys.set_fold_insert_key)
qed

text \<open>
  C17: the skip list is a sorted set. Inserting distinct keys in any order, with the heights the random
  generator gives, neither faults nor runs on without end, and then the iterator yields the keys in order
  from the first one, in reverse order from the last one, from the first key not below the target after
  \<open>Seek\<close>, and \<open>Contains\<close> answers membership.
\<close>

theorem skip_list_sorted:
  assumes "distinct ks"
  shows "\<exists>sl. bytes_list ks = Inr sl \<and>
    bind_res (iter_SeekToFirst sl) (iter_keys (Suc (length ks)) iter_Next sl) = Inr (sort ks) \<and>
    bind_res (iter_SeekToLast sl) (iter_keys (Suc (length ks)) iter_Prev sl) = Inr (rev (sort ks)) \<and>
    bind_res (iter_Seek sl k) (iter_keys (Suc (length ks)) iter_Next sl) = Inr (dropWhile (\<lambda>x. x < k) (sort ks)) \<and>
    Contains sl k = Inr (k \<in> set ks)"
proof -
  obtain sl where sl: "bytes_list ks = Inr sl" "bytewise.keys.holds sl (sort ks)"
    using bytes_list_holds [OF assms] by blast
  have "Contains sl k = Inr (k \<in> set ks)"
    using bytes_Contains [OF sl(2)] by simp
  then show ?thesis using sl(1) bytewise.keys.holds_traverse [OF sl(2)] by simp
qed

theorem skip_list_sorted_witness:
  "\<exists>sl. bytes_list [[3], [1, 2], [2]] = Inr sl \<and>
    bind_res (iter_SeekToFirst sl) (iter_keys 4 iter_Next sl) = Inr [[1, 2], [2], [3]] \<and>
    Contains sl [4] = Inr False"
proof -
  have four: "Suc (length [[3], [1, 2], [2 :: byte]]) = 4" by simp
  show ?thesis using skip_list_sorted [of "[[3], [1, 2], [2]]" "[4]", unfolded four] by auto
qed

text \<open>
  C18: a reader may search while \<open>Insert\<close> is under way. Between any two of its steps (the stores
  of one level of the new node), the list a reader sees is well formed: it is the old one until
  the bottom level is linked and the new one from then on, in the order of traversal and in membership,
  although the maximum height is raised first and the upper levels are linked last.
\<close>

theorem insert_published:
  assumes "distinct (key # ks)"
  shows "\<exists>sl prev n height sl1. bytes_list ks = Inr sl \<and> prepare_insert sl key = Inr (prev, n, height, sl1) \<and>
    Insert sl key = link_loop prev n 0 (nat height) sl1 \<and> 1 \<le> height \<and>
    (\<forall>m \<le> nat height. \<exists>sl2. link_loop prev n 0 m sl1 = Inr sl2 \<and>
      (let seen = (if m = 0 then ks else key # ks) in
       bind_res (iter_SeekToFirst sl2) (iter_keys (Suc (length seen)) iter_Next sl2) = Inr (sort seen) \<and>
       Contains sl2 t = Inr (t \<in> set seen)))"
proof -
  obtain sl where sl: "bytes_list ks = Inr sl" "bytewise.keys.holds sl (sort ks)"
    using bytes_list_holds assms by (metis distinct.simps(2))
  have "bytewise.keys.new_key (sort ks) key"
    using assms unfolding bytewise.keys.new_key_def by (metis distinct.simps(2) linorder_neqE set_sort)
  then obtain prev n height sl1 where p: "prepare_insert sl key = Inr (prev, n, height, sl1)" "1 \<le> height"
    "\<And>m. m \<le> nat height \<Longrightarrow> \<exists>sl2. link_loop prev n 0 m sl1 = Inr sl2 \<and>
      bytewise.keys.holds sl2 (if m = 0 then sort ks else bytewise.keys.insert_key key (sort ks))"
    using bytewise.keys.holds_prepared [OF sl(2)] by blast
  have "\<exists>sl2. link_loop prev n 0 m sl1 = Inr sl2 \<and>
      (let seen = (if m = 0 then ks else key # ks) in
       bind_res (iter_SeekToFirst sl2) (iter_keys (Suc (length seen)) iter_Next sl2) = Inr (sort seen) \<and>
       Contains sl2 t = Inr (t \<in> set seen))" if m: "m \<le> nat height" for m
  proof -
    let ?seen = "if m = 0 then ks else key # ks"
    obtain sl2 where s2: "link_loop prev n 0 m sl1 = Inr sl2"
      "bytewise.keys.holds sl2 (if m = 0 then sort ks else bytewise.keys.insert_key key (sort ks))"
      using p(3) [OF m] by blast
    have eq: "(if m = 0 then sort ks else bytewise.keys.insert_key key (sort ks)) = sort ?seen"
      using assms by (intro bytes_sorted [OF s2(2)]) auto
    have h: "bytewise.keys.holds sl2 (sort ?seen)" using s2(2) by (simp only: eq)
    have "Contains sl2 t = Inr (t \<in> set ?seen)"
      using bytes_Contains [OF h] by simp
    with s2(1) bytewise.keys.holds_traverse(1) [OF h] show ?thesis by (simp only: Let_def length_sort) blast
  qed
  moreover have "Insert sl key = link_loop prev n 0 (nat height) sl1" by (simp add: Insert_def p(1))
  ultimately show ?thesis using sl(1) p(1,2) by blast
qed

theorem insert_published_witness:
  "\<exists>sl prev n height sl1. bytes_list [[3], [1]] = Inr sl \<and> prepare_insert sl [2] = Inr (prev, n, height, sl1) \<and>
    Contains sl1 [2] = Inr False \<and> (\<exists>sl2. link_loop prev n 0 1 sl1 = Inr sl2 \<and> Contains sl2 [2] = Inr True)"
proof -
  obtain sl prev n height sl1 where p: "bytes_list [[3], [1]] = Inr sl"
    "prepare_insert sl [2] = Inr (prev, n, height, sl1)" "1 \<le> height"
    and q: "\<forall>m \<le> nat height. \<exists>sl2. link_loop prev n 0 m sl1 = Inr sl2 \<and>
      (let seen = (if m = 0 then [[3], [1]] else [2] # [[3], [1]]) in
       bind_res (iter_SeekToFirst sl2) (iter_keys (Suc (length seen)) iter_Next sl2) = Inr (sort seen) \<and>
       Contains sl2 [2] = Inr ([2] \<in> set seen))"
    using insert_published [of "[2]" "[[3], [1]]" "[2]"] by auto
  have "1 \<le> nat height" using p(3) by simp
  with q [rule_format, of 0] q [rule_format, of 1] p show ?thesis by (auto simp: Let_def)
qed

end
