(* ===== verification/Write_Batch.thy ===== *)
theory Write_Batch
  imports Status DB_Format
begin

section \<open>Write batches\<close>

text \<open>
  \<open>leveldb-mcpe/db/write_batch.cc\<close>, \<open>write_batch_internal.h\<close> and \<open>include/leveldb/write_batch.h\<close>: a
  batch of updates as the bytes of a \<open>std::string\<close>, a header of sequence number and count followed
  by tagged records, and their iteration with a handler. A batch is the bytes of \<open>rep_\<close>.
\<close>

definition kHeader :: nat where
  "kHeader = 12"

subsection \<open>The batch\<close>

definition batch_Clear :: slice where
  "batch_Clear = replicate kHeader 0"

definition batch_Count :: "slice \<Rightarrow> int res" where
  "batch_Count rep = bind_res (DecodeFixed32 (drop 8 rep)) (\<lambda>n. Inr (sint n))"

text \<open>The encoders write over the bytes of the string.\<close>

definition overwrite :: "slice \<Rightarrow> nat \<Rightarrow> slice \<Rightarrow> slice res" where
  "overwrite rep i bs = bind_res (guard_res (i + length bs \<le> length rep) Undefined) (\<lambda>_.
     Inr (take i rep @ bs @ drop (i + length bs) rep))"

definition batch_SetCount :: "slice \<Rightarrow> int \<Rightarrow> slice res" where
  "batch_SetCount rep n = overwrite rep 8 (EncodeFixed32 (of_int n))"

definition batch_Sequence :: "slice \<Rightarrow> SequenceNumber res" where
  "batch_Sequence rep = DecodeFixed64 rep"

definition batch_SetSequence :: "slice \<Rightarrow> SequenceNumber \<Rightarrow> slice res" where
  "batch_SetSequence rep seq = overwrite rep 0 (EncodeFixed64 seq)"

definition batch_Put :: "slice \<Rightarrow> slice \<Rightarrow> slice \<Rightarrow> slice res" where
  "batch_Put rep key value =
     bind_res (batch_Count rep) (\<lambda>n. bind_res (to_int32 (n + 1)) (\<lambda>n.
     bind_res (batch_SetCount rep n) (\<lambda>rep.
       Inr (PutLengthPrefixedSlice (PutLengthPrefixedSlice (rep @ [ucast (type_code kTypeValue)]) key) value))))"

definition batch_Delete :: "slice \<Rightarrow> slice \<Rightarrow> slice res" where
  "batch_Delete rep key =
     bind_res (batch_Count rep) (\<lambda>n. bind_res (to_int32 (n + 1)) (\<lambda>n.
     bind_res (batch_SetCount rep n) (\<lambda>rep.
       Inr (PutLengthPrefixedSlice (rep @ [ucast (type_code kTypeDeletion)]) key))))"

definition batch_SetContents :: "slice \<Rightarrow> slice res" where
  "batch_SetContents contents = bind_res (guard_res (kHeader \<le> length contents) AssertFail) (\<lambda>_. Inr contents)"

definition batch_Append :: "slice \<Rightarrow> slice \<Rightarrow> slice res" where
  "batch_Append dst src =
     bind_res (batch_Count dst) (\<lambda>m. bind_res (batch_Count src) (\<lambda>n. bind_res (to_int32 (m + n)) (\<lambda>k.
     bind_res (batch_SetCount dst k) (\<lambda>dst.
     bind_res (guard_res (kHeader \<le> length src) AssertFail) (\<lambda>_. Inr (dst @ drop kHeader src))))))"

subsection \<open>Iteration\<close>

text \<open>A handler, over its own state.\<close>

record 's Handler =
  h_Put :: "slice \<Rightarrow> slice \<Rightarrow> 's \<Rightarrow> 's res"
  h_Delete :: "slice \<Rightarrow> 's \<Rightarrow> 's res"

lemma GetLengthPrefixedSlice_shorter:
  "GetLengthPrefixedSlice p = Some (s, q) \<Longrightarrow> length q < length p"
  using GetLengthPrefixedSlice_consumes by fastforce

function iterate_loop :: "'s Handler \<Rightarrow> slice \<Rightarrow> int \<Rightarrow> 's \<Rightarrow> (Status option \<times> int \<times> 's) res" where
  "iterate_loop h [] found s = Inr (None, found, s)"
| "iterate_loop h (tag # inp) found s =
     bind_res (to_int32 (found + 1)) (\<lambda>found.
     if tag = ucast (type_code kTypeValue) then
       (case GetLengthPrefixedSlice inp of
          Some (key, inp') \<Rightarrow>
            (case GetLengthPrefixedSlice inp' of
               Some (value, inp'') \<Rightarrow>
                 bind_res (h_Put h key value s) (\<lambda>s. iterate_loop h inp'' found s)
             | None \<Rightarrow> bind_res (Corruption (map char_byte ''bad WriteBatch Put'') [])
                 (\<lambda>st. Inr (Some st, found, s)))
        | None \<Rightarrow> bind_res (Corruption (map char_byte ''bad WriteBatch Put'') [])
            (\<lambda>st. Inr (Some st, found, s)))
     else if tag = ucast (type_code kTypeDeletion) then
       (case GetLengthPrefixedSlice inp of
          Some (key, inp') \<Rightarrow> bind_res (h_Delete h key s) (\<lambda>s. iterate_loop h inp' found s)
        | None \<Rightarrow> bind_res (Corruption (map char_byte ''bad WriteBatch Delete'') [])
            (\<lambda>st. Inr (Some st, found, s)))
     else bind_res (Corruption (map char_byte ''unknown WriteBatch tag'') [])
       (\<lambda>st. Inr (Some st, found, s)))"
  by pat_completeness auto
termination
  by (relation "measure (\<lambda>(h, inp, found, s). length inp)")
    (auto dest!: GetLengthPrefixedSlice_shorter)

definition batch_Iterate :: "slice \<Rightarrow> 's Handler \<Rightarrow> 's \<Rightarrow> (Status \<times> 's) res" where
  "batch_Iterate rep h s =
     (if length rep < kHeader then
        bind_res (Corruption (map char_byte ''malformed WriteBatch (too small)'') []) (\<lambda>st. Inr (st, s))
      else
        bind_res (iterate_loop h (drop kHeader rep) 0 s) (\<lambda>(st, found, s).
        case st of
          Some st \<Rightarrow> Inr (st, s)
        | None \<Rightarrow>
            bind_res (batch_Count rep) (\<lambda>n.
            if found \<noteq> n then
              bind_res (Corruption (map char_byte ''WriteBatch has wrong count'') []) (\<lambda>st. Inr (st, s))
            else Inr (OK, s))))"

subsection \<open>The format\<close>

text \<open>The updates of a batch, the bytes the comment at the top of the file gives them, and their effect.\<close>

datatype batch_op = PutOp slice slice | DeleteOp slice

fun op_bytes :: "batch_op \<Rightarrow> slice" where
  "op_bytes (PutOp k v) = 1 # PutLengthPrefixedSlice [] k @ PutLengthPrefixedSlice [] v"
| "op_bytes (DeleteOp k) = 0 # PutLengthPrefixedSlice [] k"

fun op_fits :: "batch_op \<Rightarrow> bool" where
  "op_fits (PutOp k v) \<longleftrightarrow> length k < 2 ^ 32 \<and> length v < 2 ^ 32"
| "op_fits (DeleteOp k) \<longleftrightarrow> length k < 2 ^ 32"

definition batch_bytes :: "SequenceNumber \<Rightarrow> batch_op list \<Rightarrow> slice" where
  "batch_bytes seq ops = EncodeFixed64 seq @ EncodeFixed32 (of_nat (length ops)) @ concat (map op_bytes ops)"

fun batch_add :: "batch_op \<Rightarrow> slice \<Rightarrow> slice res" where
  "batch_add (PutOp k v) rep = batch_Put rep k v"
| "batch_add (DeleteOp k) rep = batch_Delete rep k"

fun handle_op :: "'s Handler \<Rightarrow> batch_op \<Rightarrow> 's \<Rightarrow> 's res" where
  "handle_op h (PutOp k v) s = h_Put h k v s"
| "handle_op h (DeleteOp k) s = h_Delete h k s"

fun handle_ops :: "'s Handler \<Rightarrow> batch_op list \<Rightarrow> 's \<Rightarrow> 's res" where
  "handle_ops h [] s = Inr s"
| "handle_ops h (op # ops) s = bind_res (handle_op h op s) (handle_ops h ops)"

fun batch_of :: "batch_op list \<Rightarrow> slice \<Rightarrow> slice res" where
  "batch_of [] rep = Inr rep"
| "batch_of (op # ops) rep = bind_res (batch_add op rep) (batch_of ops)"

lemma tag_bytes [simp]: "(ucast (type_code kTypeValue) :: byte) = 1" "(ucast (type_code kTypeDeletion) :: byte) = 0"
  by (simp_all add: type_code_def)

lemma length_batch_bytes [simp]: "length (batch_bytes seq ops) = 12 + length (concat (map op_bytes ops))"
  by (simp add: batch_bytes_def)

lemma Clear_bytes: "batch_Clear = batch_bytes 0 []"
  by (simp add: batch_Clear_def batch_bytes_def kHeader_def EncodeFixed64_def EncodeFixed32_def numeral_eq_Suc)

lemma Count_bytes: "length ops < 2 ^ 31 \<Longrightarrow> batch_Count (batch_bytes seq ops) = Inr (int (length ops))"
  by (simp add: batch_Count_def batch_bytes_def sint_of_nat_small)

lemma Sequence_bytes: "batch_Sequence (batch_bytes seq ops) = Inr seq"
  by (simp add: batch_Sequence_def batch_bytes_def)

lemma SetSequence_bytes: "batch_SetSequence (batch_bytes seq ops) seq' = Inr (batch_bytes seq' ops)"
  by (simp add: batch_SetSequence_def overwrite_def batch_bytes_def)

lemma SetCount_bytes:
  "batch_SetCount (batch_bytes seq ops) n = Inr (EncodeFixed64 seq @ EncodeFixed32 (of_int n) @ concat (map op_bytes ops))"
  by (simp add: batch_SetCount_def overwrite_def batch_bytes_def)

lemma Put_append:
  "NO_MATCH [] dst \<Longrightarrow> PutLengthPrefixedSlice dst v = dst @ PutLengthPrefixedSlice [] v"
  by (simp add: PutLengthPrefixedSlice_def PutVarint32_def)

lemma batch_add_bytes:
  assumes "Suc (length ops) < 2 ^ 31"
  shows "batch_add op (batch_bytes seq ops) = Inr (batch_bytes seq (ops @ [op]))"
proof -
  have "to_int32 (int (length ops) + 1) = Inr (int (length ops) + 1)"
    using assms by (simp add: to_int32_def int32_ok_def)
  then show ?thesis
    using assms Count_bytes [of ops seq]
    by (cases op) (simp_all add: batch_Put_def batch_Delete_def SetCount_bytes add.commute,
      simp_all add: Put_append batch_bytes_def)
qed

lemma batch_of_bytes:
  "length ops + length rest < 2 ^ 31 \<Longrightarrow> batch_of rest (batch_bytes seq ops) = Inr (batch_bytes seq (ops @ rest))"
proof (induction rest arbitrary: ops)
  case (Cons op rest)
  then show ?case using batch_add_bytes [of ops op seq] Cons.IH [of "ops @ [op]"] by simp
qed simp

lemma iterate_ops:
  "\<forall>op \<in> set ops. op_fits op \<Longrightarrow> 0 \<le> found \<Longrightarrow> found + int (length ops) < 2 ^ 31 \<Longrightarrow>
    iterate_loop h (concat (map op_bytes ops)) found s =
      bind_res (handle_ops h ops s) (\<lambda>s. Inr (None, found + int (length ops), s))"
proof (induction ops arbitrary: found s)
  case (Cons op ops)
  have "to_int32 (found + 1) = Inr (found + 1)"
    using Cons.prems by (simp add: to_int32_def int32_ok_def)
  moreover have "iterate_loop h (concat (map op_bytes ops)) (found + 1) =
      (\<lambda>s'. bind_res (handle_ops h ops s') (\<lambda>s. Inr (None, found + int (length (op # ops)), s)))"
    using Cons.IH [of "found + 1"] Cons.prems by (intro ext) (simp add: add.assoc)
  ultimately show ?case
    using Cons.prems(1)
    by (cases op) (simp_all add: GetLengthPrefixedSlice_Put bind_res_assoc)
qed simp

lemma Iterate_bytes:
  assumes "\<forall>op \<in> set ops. op_fits op" and "length ops < 2 ^ 31"
  shows "batch_Iterate (batch_bytes seq ops) h s = bind_res (handle_ops h ops s) (\<lambda>s. Inr (OK, s))"
proof -
  have "drop kHeader (batch_bytes seq ops) = concat (map op_bytes ops)"
    by (simp add: batch_bytes_def kHeader_def)
  moreover have "int (length ops) < 2 ^ 31" using assms(2) by simp
  ultimately show ?thesis
    using iterate_ops [OF assms(1), of 0 h s] Count_bytes [OF assms(2), of seq]
    by (simp add: batch_Iterate_def kHeader_def bind_res_assoc)
qed

lemma Append_bytes:
  assumes "length ops + length rest < 2 ^ 31"
  shows "batch_Append (batch_bytes seq ops) (batch_bytes seq' rest) = Inr (batch_bytes seq (ops @ rest))"
proof -
  have "to_int32 (int (length ops) + int (length rest)) = Inr (int (length ops) + int (length rest))"
    using assms by (simp add: to_int32_def int32_ok_def)
  then show ?thesis
    using assms Count_bytes [of ops seq] Count_bytes [of rest seq']
    by (simp add: batch_Append_def SetCount_bytes kHeader_def) (simp add: batch_bytes_def)
qed

subsection \<open>Properties\<close>

text \<open>
  C19: a batch plays back what was put into it. Starting from an empty batch, any puts and deletes,
  a sequence number, and the contents of another batch appended, leave the bytes of the format;
  the count and the sequence number are read back, and iterating calls the handler with exactly these
  updates in order and answers OK (as long as the handler does not fail).
\<close>

theorem write_batch_roundtrip:
  assumes "\<forall>op \<in> set (ops @ rest). op_fits op" and "length ops + length rest < 2 ^ 31"
  shows "\<exists>b0 b1 c b. batch_of ops batch_Clear = Inr b0 \<and> batch_SetSequence b0 seq = Inr b1 \<and>
    batch_of rest batch_Clear = Inr c \<and> batch_Append b1 c = Inr b \<and> b = batch_bytes seq (ops @ rest) \<and>
    batch_Count b = Inr (int (length ops + length rest)) \<and> batch_Sequence b = Inr seq \<and>
    batch_Iterate b h s = bind_res (handle_ops h (ops @ rest) s) (\<lambda>s. Inr (OK, s))"
  using assms batch_of_bytes [of "[]" ops 0] batch_of_bytes [of "[]" rest 0] Append_bytes [OF assms(2), of seq 0]
    Iterate_bytes [OF assms(1), of seq h s] Count_bytes [of "ops @ rest" seq]
  by (simp add: Clear_bytes SetSequence_bytes Sequence_bytes)

definition op_logger :: "batch_op list Handler" where
  "op_logger = \<lparr>h_Put = (\<lambda>k v s. Inr (s @ [PutOp k v])), h_Delete = (\<lambda>k s. Inr (s @ [DeleteOp k]))\<rparr>"

theorem write_batch_roundtrip_witness:
  "\<exists>b. batch_Count b = Inr 2 \<and> batch_Sequence b = Inr 7 \<and>
    batch_Iterate b op_logger [] = Inr (OK, [PutOp [1] [2, 3], DeleteOp [4]])"
  using write_batch_roundtrip [of "[PutOp [1] [2, 3]]" "[DeleteOp [4]]" 7 op_logger "[]"]
  by (auto simp: op_logger_def)

text \<open>
  a batch whose count is wrong is still applied: every update reaches the handler before
  \<open>Iterate\<close> reports the corruption.
\<close>

theorem wrong_count_applied:
  assumes "\<forall>op \<in> set ops. op_fits op" and "length ops < 2 ^ 31"
    and "batch_SetCount (batch_bytes seq ops) n = Inr b" and "int32_ok n" and "n \<noteq> int (length ops)"
  shows "batch_Iterate b h s = bind_res (handle_ops h ops s) (\<lambda>s.
    Inr (status_of kCorruption (map char_byte ''WriteBatch has wrong count''), s))"
proof -
  have b: "b = EncodeFixed64 seq @ EncodeFixed32 (of_int n) @ concat (map op_bytes ops)"
    using assms(3) by (simp add: SetCount_bytes)
  have "signed_take_bit 31 n = n"
    using assms(4) by (intro signed_take_bit_int_eq_self) (simp_all add: int32_ok_def)
  then have "sint (of_int n :: u32) = n" by (simp add: sint_sbintrunc')
  then have c: "batch_Count b = Inr n" by (simp add: batch_Count_def b)
  have "drop kHeader b = concat (map op_bytes ops)" by (simp add: b kHeader_def)
  moreover have "int (length ops) < 2 ^ 31" using assms(2) by simp
  ultimately show ?thesis
    using iterate_ops [OF assms(1), of 0 h s] c assms(5) new_Status_one [of kCorruption "map char_byte ''WriteBatch has wrong count''"]
    by (simp add: batch_Iterate_def kHeader_def bind_res_assoc b Corruption_def)
qed

theorem wrong_count_applied_witness:
  "\<exists>b. batch_SetCount (batch_bytes 0 [DeleteOp [4]]) 5 = Inr b \<and> batch_Iterate b op_logger [] =
    Inr (status_of kCorruption (map char_byte ''WriteBatch has wrong count''), [DeleteOp [4]])"
  using wrong_count_applied [of "[DeleteOp [4]]" 0 5 _ op_logger "[]"]
  by (auto simp: SetCount_bytes op_logger_def int32_ok_def)

end
