(* ===== verification/Mem_Table.thy ===== *)
theory Mem_Table
  imports Skip_List_Correct Write_Batch
begin

section \<open>The memtable\<close>

text \<open>
  \<open>leveldb-mcpe/db/memtable.cc\<close> and \<open>memtable.h\<close>, and \<open>MemTableInserter\<close> of \<open>write_batch.cc\<close>: the
  recent updates in a skip list of encoded entries, ordered by the internal keys at their start, the
  lookup of a key at a snapshot, the iterator, and the insertion of a batch. An entry (a
  \<open>const char*\<close>) is the bytes from the pointer to the end of its buffer; reading beyond these is
  undefined behaviour. The accounting of the arena is a component of its own.
\<close>

subsection \<open>Entries\<close>

text \<open>
  \<open>GetLengthPrefixedSlice(const char*)\<close>, which looks at five bytes at most: the slice, and what
  follows it in the buffer.
\<close>

definition get_prefixed :: "slice \<Rightarrow> (slice \<times> slice) res" where
  "get_prefixed data =
     (case GetVarint32Ptr (take 5 data) of
        None \<Rightarrow> Inl Undefined
      | Some (len, q) \<Rightarrow>
          let p = drop (length (take 5 data) - length q) data in
          bind_res (guard_res (unat len \<le> length p) Undefined) (\<lambda>_.
            Inr (take (unat len) p, drop (unat len) p)))"

text \<open>\<open>MemTable::KeyComparator\<close>, over the user comparator that its internal comparator wraps.\<close>

definition KeyComparator :: "comparator \<Rightarrow> slice \<Rightarrow> slice \<Rightarrow> int res" where
  "KeyComparator c aptr bptr =
     bind_res (get_prefixed aptr) (\<lambda>(a, _).
     bind_res (get_prefixed bptr) (\<lambda>(b, _).
       Compare (InternalKeyComparator c) a b))"

definition EncodeKey :: "slice \<Rightarrow> slice" where
  "EncodeKey target = PutVarint32 [] (of_nat (length target)) @ target"

subsection \<open>The table\<close>

record MemTable =
  user_comparator :: comparator
  mt_refs :: int
  mt_table :: "slice SkipList"

text \<open>The key of the head is the null pointer: no bytes can be read from it.\<close>

definition new_MemTable :: "comparator \<Rightarrow> MemTable res" where
  "new_MemTable c =
     bind_res (new_SkipList (KeyComparator c) []) (\<lambda>t.
       Inr \<lparr>user_comparator = c, mt_refs = 0, mt_table = t\<rparr>)"

definition MemTable_Ref :: "MemTable \<Rightarrow> MemTable res" where
  "MemTable_Ref m = bind_res (to_int32 (mt_refs m + 1)) (\<lambda>n. Inr (m\<lparr>mt_refs := n\<rparr>))"

text \<open>\<open>None\<close>: the table was deleted. Its destructor asserts that no reference is left.\<close>

definition delete_MemTable :: "MemTable \<Rightarrow> unit res" where
  "delete_MemTable m = guard_res (mt_refs m = 0) AssertFail"

definition MemTable_Unref :: "MemTable \<Rightarrow> MemTable option res" where
  "MemTable_Unref m =
     bind_res (to_int32 (mt_refs m - 1)) (\<lambda>n.
     bind_res (guard_res (n \<ge> 0) AssertFail) (\<lambda>_.
     let m = m\<lparr>mt_refs := n\<rparr> in
     if n \<le> 0 then bind_res (delete_MemTable m) (\<lambda>_. Inr None) else Inr (Some m)))"

definition MemTable_Add :: "MemTable \<Rightarrow> SequenceNumber \<Rightarrow> ValueType \<Rightarrow> slice \<Rightarrow> slice \<Rightarrow> MemTable res" where
  "MemTable_Add m s t key value =
     (let key_size = length key; val_size = length value; internal_key_size = key_size + 8;
          encoded_len = VarintLength (of_nat internal_key_size) + int internal_key_size +
            VarintLength (of_nat val_size) + int val_size
      in bind_res (guard_res (encoded_len > 0) AssertFail) (\<lambda>_.
         let buf = EncodeVarint32 (of_nat internal_key_size) @ key @
           EncodeFixed64 (push_bit 8 s OR type_code t) @ EncodeVarint32 (of_nat val_size) @ value
         in bind_res (guard_res (int (length buf) = encoded_len) AssertFail) (\<lambda>_.
            bind_res (Insert (mt_table m) buf) (\<lambda>table. Inr (m\<lparr>mt_table := table\<rparr>)))))"

text \<open>
  \<open>want\<close> tells whether the pointer \<open>value\<close> is not null; \<open>value\<close> and \<open>s\<close> are what it and the status
  pointer point to, before the call and in the result.
\<close>

definition MemTable_Get :: "MemTable \<Rightarrow> LookupKey \<Rightarrow> bool \<Rightarrow> slice \<Rightarrow> Status \<Rightarrow> (bool \<times> slice \<times> Status) res" where
  "MemTable_Get m lk want value s =
     bind_res (iter_Seek (mt_table m) (memtable_key lk)) (\<lambda>it.
     if Valid it then
       bind_res (iter_key (mt_table m) it) (\<lambda>entry.
       bind_res (get_prefixed entry) (\<lambda>(ikey, rest).
       bind_res (guard_res (8 \<le> length ikey) Undefined) (\<lambda>_.
       bind_res (Compare (user_comparator m) (take (length ikey - 8) ikey) (lookup_user_key lk)) (\<lambda>r.
       if r = 0 then
         bind_res (DecodeFixed64 (drop (length ikey - 8) ikey)) (\<lambda>tag.
         if tag AND 0xff = type_code kTypeValue then
           (if want then bind_res (get_prefixed rest) (\<lambda>(v, _). Inr (True, v, s))
            else Inr (True, value, s))
         else if tag AND 0xff = type_code kTypeDeletion then
           bind_res (NotFound [] []) (\<lambda>s. Inr (True, value, s))
         else Inr (False, value, s))
       else Inr (False, value, s)))))
     else Inr (False, value, s))"

subsection \<open>The iterator\<close>

definition mem_Seek :: "MemTable \<Rightarrow> slice \<Rightarrow> iterator res" where
  "mem_Seek m k = iter_Seek (mt_table m) (EncodeKey k)"

definition mem_SeekToFirst :: "MemTable \<Rightarrow> iterator res" where
  "mem_SeekToFirst m = iter_SeekToFirst (mt_table m)"

definition mem_SeekToLast :: "MemTable \<Rightarrow> iterator res" where
  "mem_SeekToLast m = iter_SeekToLast (mt_table m)"

definition mem_Next :: "MemTable \<Rightarrow> iterator \<Rightarrow> iterator res" where
  "mem_Next m it = iter_Next (mt_table m) it"

definition mem_Prev :: "MemTable \<Rightarrow> iterator \<Rightarrow> iterator res" where
  "mem_Prev m it = iter_Prev (mt_table m) it"

definition mem_key :: "MemTable \<Rightarrow> iterator \<Rightarrow> slice res" where
  "mem_key m it =
     bind_res (iter_key (mt_table m) it) (\<lambda>e. bind_res (get_prefixed e) (\<lambda>(k, _). Inr k))"

definition mem_value :: "MemTable \<Rightarrow> iterator \<Rightarrow> slice res" where
  "mem_value m it =
     bind_res (iter_key (mt_table m) it) (\<lambda>e. bind_res (get_prefixed e) (\<lambda>(_, rest).
     bind_res (get_prefixed rest) (\<lambda>(v, _). Inr v)))"

subsection \<open>Batches into the table\<close>

text \<open>\<open>MemTableInserter\<close>: the handler whose state is the next sequence number and the table.\<close>

definition MemTableInserter :: "(SequenceNumber \<times> MemTable) Handler" where
  "MemTableInserter =
     \<lparr>h_Put = (\<lambda>key value (seq, m).
        bind_res (MemTable_Add m seq kTypeValue key value) (\<lambda>m. Inr (seq + 1, m))),
      h_Delete = (\<lambda>key (seq, m).
        bind_res (MemTable_Add m seq kTypeDeletion key []) (\<lambda>m. Inr (seq + 1, m)))\<rparr>"

definition InsertInto :: "slice \<Rightarrow> MemTable \<Rightarrow> (Status \<times> MemTable) res" where
  "InsertInto b m =
     bind_res (batch_Sequence b) (\<lambda>seq.
     bind_res (batch_Iterate b MemTableInserter (seq, m)) (\<lambda>(st, _, m). Inr (st, m)))"

subsection \<open>The history of the updates\<close>

text \<open>
  What the table promises: it holds the updates with their sequence numbers, and a lookup at snapshot
  \<open>s\<close> answers with the last update of the key whose number is at most \<open>s\<close>.
\<close>

type_synonym history = "(SequenceNumber \<times> batch_op) list"

fun op_key :: "batch_op \<Rightarrow> slice" where
  "op_key (PutOp k v) = k"
| "op_key (DeleteOp k) = k"

fun op_value :: "batch_op \<Rightarrow> slice" where
  "op_value (PutOp k v) = v"
| "op_value (DeleteOp k) = []"

fun op_type :: "batch_op \<Rightarrow> ValueType" where
  "op_type (PutOp k v) = kTypeValue"
| "op_type (DeleteOp k) = kTypeDeletion"

definition visible :: "history \<Rightarrow> slice \<Rightarrow> SequenceNumber \<Rightarrow> batch_op option" where
  "visible h k s = (case filter (\<lambda>(q, op). q \<le> s \<and> op_key op = k) h of
     [] \<Rightarrow> None | es \<Rightarrow> Some (snd (last es)))"

definition answer :: "batch_op option \<Rightarrow> bool \<Rightarrow> slice \<Rightarrow> Status \<Rightarrow> bool \<times> slice \<times> Status" where
  "answer r want value s = (case r of
     None \<Rightarrow> (False, value, s)
   | Some (PutOp k v) \<Rightarrow> (True, if want then v else value, s)
   | Some (DeleteOp k) \<Rightarrow> (True, value, status_of kNotFound []))"

text \<open>The updates of a batch, numbered from the sequence number of the batch on.\<close>

definition numbered :: "SequenceNumber \<Rightarrow> batch_op list \<Rightarrow> history" where
  "numbered seq ops = zip (map (\<lambda>i. seq + of_nat i) [0..<length ops]) ops"

text \<open>Batches one after the other, with the statuses they give.\<close>

fun insert_batches :: "slice list \<Rightarrow> MemTable \<Rightarrow> (Status list \<times> MemTable) res" where
  "insert_batches [] m = Inr ([], m)"
| "insert_batches (b # bs) m =
     bind_res (InsertInto b m) (\<lambda>(st, m). bind_res (insert_batches bs m) (\<lambda>(sts, m). Inr (st # sts, m)))"

text \<open>The batches, as their sequence numbers and updates, fit: the numbers rise and stay in their 56 bits.\<close>

fun mem_op_fits :: "batch_op \<Rightarrow> bool" where
  "mem_op_fits op \<longleftrightarrow> length (op_key op) + 8 < 2 ^ 32 \<and> length (op_value op) < 2 ^ 32"

fun batches_fit :: "nat \<Rightarrow> (SequenceNumber \<times> batch_op list) list \<Rightarrow> bool" where
  "batches_fit n [] \<longleftrightarrow> True"
| "batches_fit n ((seq, ops) # bs) \<longleftrightarrow> n \<le> unat seq \<and> unat seq + length ops \<le> 2 ^ 56 \<and>
     length ops < 2 ^ 31 \<and> (\<forall>op \<in> set ops. mem_op_fits op) \<and> batches_fit (unat seq + length ops) bs"

definition history_of :: "(SequenceNumber \<times> batch_op list) list \<Rightarrow> history" where
  "history_of bs = concat (map (\<lambda>(seq, ops). numbered seq ops) bs)"

subsection \<open>Entries in order\<close>

lemma get_prefixed_bytes [simp]:
  assumes "length s < 2 ^ 32"
  shows "get_prefixed (EncodeVarint32 (of_nat (length s)) @ s @ r) = Inr (s, r)"
proof -
  let ?v = "EncodeVarint32 (of_nat (length s))"
  have l: "length ?v \<le> 5" by (rule length_EncodeVarint)
  then have "take 5 (?v @ s @ r) = ?v @ take (5 - length ?v) (s @ r)" by simp
  then show ?thesis
    using assms by (simp add: get_prefixed_def unat_of_nat_small Let_def)
qed

definition op_tag :: "SequenceNumber \<Rightarrow> batch_op \<Rightarrow> u64" where
  "op_tag q op = push_bit 8 q OR type_code (op_type op)"

definition entry_bytes :: "SequenceNumber \<Rightarrow> batch_op \<Rightarrow> slice" where
  "entry_bytes q op = EncodeVarint32 (of_nat (length (internal_key (op_key op) (op_tag q op)))) @
     internal_key (op_key op) (op_tag q op) @ EncodeVarint32 (of_nat (length (op_value op))) @ op_value op"

definition ikey_of :: "slice \<Rightarrow> slice" where
  "ikey_of e = (case get_prefixed e of Inr (k, _) \<Rightarrow> k | Inl _ \<Rightarrow> [])"

definition mem_valid :: "slice \<Rightarrow> bool" where
  "mem_valid e \<longleftrightarrow> (\<exists>u t r. get_prefixed e = Inr (internal_key u t, r))"

definition mem_before :: "slice \<Rightarrow> slice \<Rightarrow> bool" where
  "mem_before a b \<longleftrightarrow> internal_before (ikey_of a) (ikey_of b)"

interpretation mem: compare_keys "KeyComparator BytewiseComparator" mem_valid mem_before
proof
  fix a b c
  assume "mem_valid a" "mem_valid b"
  then obtain u t r v s r' where ab: "get_prefixed a = Inr (internal_key u t, r)" "get_prefixed b = Inr (internal_key v s, r')"
    unfolding mem_valid_def by blast
  then show "\<exists>x. KeyComparator BytewiseComparator a b = Inr x \<and> (x < 0 \<longleftrightarrow> mem_before a b) \<and> (x > 0 \<longleftrightarrow> mem_before b a)"
    by (auto simp: KeyComparator_def InternalKeyComparator_def mem_before_def ikey_of_def)
  assume "mem_valid c" "mem_before a c"
  then show "mem_before a b \<or> mem_before b c"
    using ab by (auto simp: mem_valid_def mem_before_def ikey_of_def)
qed

lemma entry_prefixed:
  "mem_op_fits op \<Longrightarrow> get_prefixed (entry_bytes q op) =
    Inr (internal_key (op_key op) (op_tag q op), EncodeVarint32 (of_nat (length (op_value op))) @ op_value op)"
  by (simp only: entry_bytes_def) (rule get_prefixed_bytes, simp)

lemma entry_value: "mem_op_fits op \<Longrightarrow>
    get_prefixed (EncodeVarint32 (of_nat (length (op_value op))) @ op_value op) = Inr (op_value op, [])"
  using get_prefixed_bytes [of "op_value op" "[]"] by simp

lemma entry_valid: "mem_op_fits op \<Longrightarrow> mem_valid (entry_bytes q op)"
  using entry_prefixed [of op q] unfolding mem_valid_def by blast

lemma entry_before: "mem_op_fits op \<Longrightarrow> mem_op_fits op' \<Longrightarrow>
    mem_before (entry_bytes q op) (entry_bytes q' op') \<longleftrightarrow>
      op_key op < op_key op' \<or> op_key op = op_key op' \<and> op_tag q' op' < op_tag q op"
  by (simp add: mem_before_def ikey_of_def entry_prefixed del: mem_op_fits.simps)

lemma length_varint_32_64: "n < 2 ^ 32 \<Longrightarrow> length (EncodeVarint64 (of_nat n)) = length (EncodeVarint32 (of_nat n))"
  by (simp add: EncodeVarint32_bytes EncodeVarint64_bytes unat_of_nat)

lemma MemTable_Add_bytes:
  assumes "mem_op_fits op"
  shows "MemTable_Add m q (op_type op) (op_key op) (op_value op) =
    bind_res (Insert (mt_table m) (entry_bytes q op)) (\<lambda>table. Inr (m\<lparr>mt_table := table\<rparr>))"
proof -
  have v: "VarintLength (of_nat n) = int (length (EncodeVarint32 (of_nat n)))" if "n < 2 ^ 32" for n
    using that by (simp add: VarintLength_def VarintLength_from_bytes length_varint_32_64)
  let ?n = "length (op_key op) + 8" and ?w = "length (op_value op)"
  have n: "?n < 2 ^ 32" "?w < 2 ^ 32" using assms by simp_all
  show ?thesis
    unfolding MemTable_Add_def Let_def v [OF n(1)] v [OF n(2)]
    by (simp add: entry_bytes_def internal_key_def op_tag_def)
qed

subsection \<open>The table holds the history\<close>

definition history_ok :: "history \<Rightarrow> bool" where
  "history_ok h \<longleftrightarrow> (\<forall>(q, op) \<in> set h. q \<le> kMaxSequenceNumber \<and> mem_op_fits op) \<and> sorted_wrt (<) (map fst h)"

definition table_ok :: "MemTable \<Rightarrow> history \<Rightarrow> bool" where
  "table_ok m h \<longleftrightarrow> user_comparator m = BytewiseComparator \<and> history_ok h \<and>
     (\<exists>ks. mem.holds (mt_table m) ks \<and> set ks = (\<lambda>(q, op). entry_bytes q op) ` set h)"

lemma table_ok_new: "\<exists>m. new_MemTable BytewiseComparator = Inr m \<and> table_ok m []"
proof -
  obtain t where "new_SkipList (KeyComparator BytewiseComparator) [] = Inr t" "mem.holds t []"
    using mem.holds_empty by blast
  then show ?thesis by (auto simp: new_MemTable_def table_ok_def history_ok_def)
qed

lemma op_tag_less: "q \<le> kMaxSequenceNumber \<Longrightarrow> q' \<le> kMaxSequenceNumber \<Longrightarrow> q < q' \<Longrightarrow> op_tag q op < op_tag q' op'"
  unfolding op_tag_def by (rule tag_less)

lemma table_ok_add:
  assumes m: "table_ok m h" and h: "history_ok (h @ [(q, op)])"
  shows "\<exists>m'. MemTable_Add m q (op_type op) (op_key op) (op_value op) = Inr m' \<and> table_ok m' (h @ [(q, op)])"
proof -
  obtain ks where ks: "mem.holds (mt_table m) ks" "set ks = (\<lambda>(q, op). entry_bytes q op) ` set h"
    using m by (auto simp: table_ok_def)
  have fit: "mem_op_fits op" using h by (auto simp: history_ok_def)
  have "mem_before (entry_bytes q' op') (entry_bytes q op) \<or> mem_before (entry_bytes q op) (entry_bytes q' op')"
    if "(q', op') \<in> set h" for q' op'
  proof -
    have "q' < q" "q' \<le> kMaxSequenceNumber" "q \<le> kMaxSequenceNumber" "mem_op_fits op'"
      using h that by (auto simp: history_ok_def sorted_wrt_append)
    with op_tag_less [of q' q op' op] fit show ?thesis by (auto simp: entry_before simp del: mem_op_fits.simps)
  qed
  then have "mem.new_key ks (entry_bytes q op)"
    using entry_valid [OF fit] ks(2) by (auto simp: mem.new_key_def)
  then obtain t where t: "Insert (mt_table m) (entry_bytes q op) = Inr t" "mem.holds t (mem.insert_key (entry_bytes q op) ks)"
    using mem.holds_Insert [OF ks(1)] by blast
  then have "table_ok (m\<lparr>mt_table := t\<rparr>) (h @ [(q, op)])"
    using m h ks(2) unfolding table_ok_def by (auto intro!: exI [of _ "mem.insert_key (entry_bytes q op) ks"])
  then show ?thesis using t(1) by (simp add: MemTable_Add_bytes [OF fit])
qed

lemma numbered_simps [simp]: "numbered seq [] = []" "numbered seq (op # ops) = (seq, op) # numbered (seq + 1) ops"
proof -
  have "map (\<lambda>i. seq + of_nat i) [0..<length (op # ops)] = seq # map (\<lambda>i. (seq + 1) + of_nat i) [0..<length ops]"
    by (simp add: upt_conv_Cons map_Suc_upt [symmetric] del: upt_Suc map_map) (simp add: comp_def add.assoc)
  then show "numbered seq (op # ops) = (seq, op) # numbered (seq + 1) ops" by (simp add: numbered_def del: upt_Suc)
qed (simp add: numbered_def)

lemma handle_Inserter:
  "mem_op_fits op \<Longrightarrow> handle_op MemTableInserter op (q, m) =
    bind_res (MemTable_Add m q (op_type op) (op_key op) (op_value op)) (\<lambda>m. Inr (q + 1, m))"
  by (cases op) (simp_all add: MemTableInserter_def)

lemma unat_plus1: "unat seq + Suc n \<le> 2 ^ 56 \<Longrightarrow> unat (seq + 1 :: u64) = unat seq + 1"
  by (simp add: unat_word_ariths)

lemma table_ok_batch:
  "table_ok m h \<Longrightarrow> \<forall>(q, op) \<in> set h. unat q < unat seq \<Longrightarrow> unat seq + length ops \<le> 2 ^ 56 \<Longrightarrow>
    \<forall>op \<in> set ops. mem_op_fits op \<Longrightarrow>
    \<exists>seq' m'. handle_ops MemTableInserter ops (seq, m) = Inr (seq', m') \<and> table_ok m' (h @ numbered seq ops) \<and>
      (\<forall>(q, op) \<in> set (h @ numbered seq ops). unat q < unat seq + length ops)"
proof (induction ops arbitrary: seq m h)
  case Nil
  then show ?case by auto
next
  case (Cons op ops)
  have fit: "mem_op_fits op" using Cons.prems(4) by simp
  have q: "seq \<le> kMaxSequenceNumber" using Cons.prems(3) by (simp add: kMaxSequenceNumber_def word_le_nat_alt)
  have "history_ok (h @ [(seq, op)])"
    using Cons.prems(1,2) fit q
    by (auto simp: history_ok_def table_ok_def sorted_wrt_append word_less_nat_alt simp del: mem_op_fits.simps)
  then obtain m1 where m1: "MemTable_Add m seq (op_type op) (op_key op) (op_value op) = Inr m1" "table_ok m1 (h @ [(seq, op)])"
    using table_ok_add [OF Cons.prems(1)] by blast
  have s1: "unat (seq + 1) = unat seq + 1" using Cons.prems(3) by (intro unat_plus1) simp
  have "\<exists>seq' m'. handle_ops MemTableInserter ops (seq + 1, m1) = Inr (seq', m') \<and>
      table_ok m' ((h @ [(seq, op)]) @ numbered (seq + 1) ops) \<and>
      (\<forall>(q, op) \<in> set ((h @ [(seq, op)]) @ numbered (seq + 1) ops). unat q < unat (seq + 1) + length ops)"
    using Cons.prems by (intro Cons.IH [OF m1(2)]) (auto simp: s1 less_Suc_eq)
  then show ?case using m1(1) by (auto simp: handle_Inserter [OF fit] s1)
qed

lemma InsertInto_batch:
  assumes "length ops < 2 ^ 31" and "\<forall>op \<in> set ops. mem_op_fits op"
  shows "InsertInto (batch_bytes seq ops) m =
    bind_res (handle_ops MemTableInserter ops (seq, m)) (\<lambda>(_, m). Inr (OK, m))"
proof -
  have "op_fits op" if "op \<in> set ops" for op
    using assms(2) that by (cases op) auto
  then show ?thesis
    using Iterate_bytes [of ops seq MemTableInserter "(seq, m)"] assms(1)
    by (simp add: InsertInto_def Sequence_bytes bind_res_assoc case_prod_beta')
qed

lemma table_ok_batches:
  "table_ok m h \<Longrightarrow> \<forall>(q, op) \<in> set h. unat q < n \<Longrightarrow> batches_fit n bs \<Longrightarrow>
    \<exists>m'. insert_batches (map (\<lambda>(seq, ops). batch_bytes seq ops) bs) m = Inr (map (\<lambda>_. OK) bs, m') \<and>
      table_ok m' (h @ history_of bs)"
proof (induction bs arbitrary: m h n)
  case Nil
  then show ?case by (simp add: history_of_def)
next
  case (Cons b bs)
  obtain seq ops where b: "b = (seq, ops)" by fastforce
  have fits: "n \<le> unat seq" "unat seq + length ops \<le> 2 ^ 56" "length ops < 2 ^ 31"
    "\<forall>op \<in> set ops. mem_op_fits op" "batches_fit (unat seq + length ops) bs"
    using Cons.prems(3) b by (simp_all del: mem_op_fits.simps)
  have below: "\<forall>(q, op) \<in> set h. unat q < unat seq" using Cons.prems(2) fits(1) by fastforce
  obtain seq' m1 where m1: "handle_ops MemTableInserter ops (seq, m) = Inr (seq', m1)" "table_ok m1 (h @ numbered seq ops)"
    "\<forall>(q, op) \<in> set (h @ numbered seq ops). unat q < unat seq + length ops"
    using table_ok_batch [OF Cons.prems(1) below fits(2,4)] by blast
  then have i: "InsertInto (batch_bytes seq ops) m = Inr (OK, m1)" by (simp add: InsertInto_batch [OF fits(3,4)])
  from Cons.IH [OF m1(2,3) fits(5)] obtain m' where
    "insert_batches (map (\<lambda>(seq, ops). batch_bytes seq ops) bs) m1 = Inr (map (\<lambda>_. OK) bs, m')"
    "table_ok m' ((h @ numbered seq ops) @ history_of bs)" by blast
  then show ?case by (simp add: b i history_of_def)
qed

subsection \<open>Lookups\<close>

lemma visible_None: "visible h k s = None \<Longrightarrow> (q, op) \<in> set h \<Longrightarrow> q \<le> s \<Longrightarrow> op_key op \<noteq> k"
  by (auto simp: visible_def filter_empty_conv split: list.splits)

lemma visible_Some:
  assumes "visible h k s = Some op" and "history_ok h"
  shows "\<exists>q. (q, op) \<in> set h \<and> q \<le> s \<and> op_key op = k \<and>
    (\<forall>(q', op') \<in> set h. q' \<le> s \<and> op_key op' = k \<and> q \<le> q' \<longrightarrow> op' = op)"
proof -
  let ?P = "\<lambda>(q, op). q \<le> s \<and> op_key op = k"
  have ne: "filter ?P h \<noteq> []" and op: "op = snd (last (filter ?P h))"
    using assms(1) by (auto simp: visible_def split: list.splits)
  obtain q where q: "last (filter ?P h) = (q, op)" using op by (metis prod.collapse)
  have srt: "sorted_wrt (<) (map fst (filter ?P h))"
    using assms(2) by (simp add: history_ok_def sorted_wrt_map sorted_wrt_filter)
  have f: "filter ?P h = butlast (filter ?P h) @ [(q, op)]" using ne q by (metis append_butlast_last_id)
  have "op' = op" if "(q', op') \<in> set h" "q' \<le> s" "op_key op' = k" "q \<le> q'" for q' op'
  proof -
    have "(q', op') \<in> set (butlast (filter ?P h) @ [(q, op)])" using that f [symmetric] by simp
    moreover have "(q', op') \<notin> set (butlast (filter ?P h))"
    proof
      assume "(q', op') \<in> set (butlast (filter ?P h))"
      then have "q' < q" using srt by (subst (asm) f) (force simp: sorted_wrt_append)
      then show False using that(4) by simp
    qed
    ultimately show ?thesis by simp
  qed
  moreover have "(q, op) \<in> set (filter ?P h)" using ne q last_in_set by fastforce
  ultimately show ?thesis by auto
qed

lemma tag_at_most_seek:
  assumes "q \<le> kMaxSequenceNumber" and "s \<le> kMaxSequenceNumber"
  shows "op_tag s (PutOp k v) < op_tag q op \<longleftrightarrow> s < q"
proof -
  have "op_tag s op \<le> op_tag s (PutOp k v)"
    by (cases op) (simp_all add: op_tag_def type_code_def word_le_def or_greater_eq unsigned_or_eq)
  with op_tag_less [OF assms, of op "PutOp k v"] op_tag_less [OF assms(2,1), of "PutOp k v" op] show ?thesis
    by (metis linorder_cases order_less_asym order_less_le_trans order_less_irrefl)
qed

lemma seek_key:
  assumes "length k + 8 < 2 ^ 32" and "s \<le> kMaxSequenceNumber"
  shows "\<exists>lk. new_LookupKey k s = Inr lk \<and> lookup_user_key lk = k \<and> mem_valid (memtable_key lk) \<and>
    ikey_of (memtable_key lk) = internal_key k (op_tag s (PutOp k []))"
proof -
  let ?e = "EncodeVarint32 (of_nat (length k + 8)) @ internal_key k (op_tag s (PutOp k []))"
  let ?lk = "\<lparr>space = ?e, kstart = length (EncodeVarint32 (of_nat (length k + 8)))\<rparr>"
  have "new_LookupKey k s = Inr ?lk"
    using assms(2) by (simp add: new_LookupKey_def Pack_ok Let_def kValueTypeForSeek_def internal_key_def op_tag_def
        add.commute)
  moreover have "lookup_user_key ?lk = k" by (simp add: lookup_user_key_def internal_key_def)
  moreover have "get_prefixed ?e = Inr (internal_key k (op_tag s (PutOp k [])), [])"
    using get_prefixed_bytes [of "internal_key k (op_tag s (PutOp k []))" "[]"] assms(1) by simp
  ultimately show ?thesis by (auto simp: memtable_key_def mem_valid_def ikey_of_def)
qed

lemma op_tag_type: "op_tag q op AND 0xff = type_code (op_type op)"
proof -
  have m: "(0xff :: u64) = mask 8" by (simp add: mask_eq_exp_minus_1)
  show ?thesis unfolding m op_tag_def
    by (cases op; rule bit_word_eqI) (auto simp: bit_simps type_code_def)
qed

lemma Get_entry:
  assumes "mem_op_fits op" and "iter_Seek (mt_table m) (memtable_key lk) = Inr it" and "Valid it"
    and "iter_key (mt_table m) it = Inr (entry_bytes q op)" and "user_comparator m = BytewiseComparator"
  shows "MemTable_Get m lk want value st =
    Inr (if op_key op = lookup_user_key lk then answer (Some op) want value st else (False, value, st))"
proof -
  have n: "NotFound [] [] = Inr (status_of kNotFound [])" by (simp add: NotFound_def new_Status_one)
  have d: "DecodeFixed64 (drop (length (op_key op)) (internal_key (op_key op) (op_tag q op))) = Inr (op_tag q op)"
    by simp
  show ?thesis
  proof (cases op)
    case (PutOp k v)
    then show ?thesis
      using assms entry_value [OF assms(1)] op_tag_type [of q op] d
      by (auto simp: MemTable_Get_def entry_prefixed slice_compare_order answer_def internal_key_def
          simp del: mem_op_fits.simps)
  next
    case (DeleteOp k)
    then show ?thesis
      using assms op_tag_type [of q op] d n
      by (auto simp: MemTable_Get_def entry_prefixed slice_compare_order answer_def internal_key_def type_code_def
          simp del: mem_op_fits.simps)
  qed
qed

text \<open>The updates a seek for \<open>k\<close> at snapshot \<open>s\<close> leaves behind, and the first one it does not.\<close>

definition skipped :: "slice \<Rightarrow> SequenceNumber \<Rightarrow> SequenceNumber \<Rightarrow> batch_op \<Rightarrow> bool" where
  "skipped k s q op \<longleftrightarrow> op_key op < k \<or> op_key op = k \<and> s < q"

lemma first_visible:
  assumes h: "history_ok h" and e: "(q, op) \<in> set h" "\<not> skipped k s q op"
    and least: "\<And>q' op'. (q', op') \<in> set h \<Longrightarrow> \<not> skipped k s q' op' \<Longrightarrow>
      op_key op < op_key op' \<or> op_key op = op_key op' \<and> op_tag q' op' \<le> op_tag q op"
  shows "visible h k s = (if op_key op = k then Some op else None)"
proof (cases "visible h k s")
  case None
  then show ?thesis using visible_None [OF None e(1)] e(2) by (auto simp: skipped_def not_less)
next
  case (Some op1)
  then obtain q1 where q1: "(q1, op1) \<in> set h" "q1 \<le> s" "op_key op1 = k"
    "\<forall>(q', op') \<in> set h. q' \<le> s \<and> op_key op' = k \<and> q1 \<le> q' \<longrightarrow> op' = op1"
    using visible_Some [OF Some h] by blast
  have max: "q1 \<le> kMaxSequenceNumber" "q \<le> kMaxSequenceNumber" using q1(1) e(1) h by (auto simp: history_ok_def)
  have "op_key op \<le> k \<and> (op_key op = k \<longrightarrow> op_tag q1 op1 \<le> op_tag q op)"
    using least [OF q1(1)] q1(2,3) by (auto simp: skipped_def not_less)
  then have "op_key op = k" "q \<le> s" "q1 \<le> q"
    using e(2) op_tag_less [OF max(2,1), of op op1] by (auto simp: skipped_def not_less [symmetric])
  then have "op = op1" using q1(4) e(1) by blast
  then show ?thesis using Some q1(3) by simp
qed

lemma before_seek:
  assumes "ikey_of e = internal_key k (op_tag s (PutOp k []))" and "s \<le> kMaxSequenceNumber"
    and "history_ok h" and "(q, op) \<in> set h"
  shows "mem_before (entry_bytes q op) e \<longleftrightarrow> skipped k s q op"
proof -
  have fit: "mem_op_fits op" "q \<le> kMaxSequenceNumber" using assms(3,4) by (auto simp: history_ok_def)
  have "mem_before (entry_bytes q op) e = internal_before (internal_key (op_key op) (op_tag q op)) (ikey_of e)"
    using entry_prefixed [OF fit(1), of q] by (simp add: mem_before_def ikey_of_def [of "entry_bytes q op"])
  then show ?thesis unfolding assms(1) by (simp add: tag_at_most_seek [OF fit(2) assms(2)] skipped_def)
qed

lemma not_before_entry:
  assumes "mem_op_fits op" and "mem_op_fits op'"
    and "entry_bytes q' op' = entry_bytes q op \<or> mem_before (entry_bytes q op) (entry_bytes q' op')"
  shows "op_key op < op_key op' \<or> op_key op = op_key op' \<and> op_tag q' op' \<le> op_tag q op"
  using assms(3)
proof
  assume "entry_bytes q' op' = entry_bytes q op"
  then have "internal_key (op_key op') (op_tag q' op') = internal_key (op_key op) (op_tag q op)"
    using entry_prefixed [OF assms(2), of q'] entry_prefixed [OF assms(1), of q] by simp
  then show ?thesis by simp
qed (use entry_before [OF assms(1,2)] in auto)

lemma sorted_first:
  assumes "sorted_wrt R ks" and "i = length (takeWhile P ks)" and "i < length ks" and "f \<in> set ks" and "\<not> P f"
  shows "f = ks ! i \<or> R (ks ! i) f"
proof -
  have "f \<in> set (dropWhile P ks)" using assms(4,5) by (metis Un_iff set_append set_takeWhileD takeWhile_dropWhile_id)
  then have "f \<in> set (ks ! i # drop (Suc i) ks)" using assms(2,3) by (simp add: dropWhile_eq_drop Cons_nth_drop_Suc)
  moreover have "sorted_wrt R (drop i ks)" using assms(1) by (rule sorted_wrt_drop)
  then have "sorted_wrt R (ks ! i # drop (Suc i) ks)" using assms(3) by (simp add: Cons_nth_drop_Suc)
  ultimately show ?thesis by auto
qed

lemma Get_visible:
  assumes m: "table_ok m h" and k: "length k + 8 < 2 ^ 32" and s: "s \<le> kMaxSequenceNumber"
  shows "\<exists>lk. new_LookupKey k s = Inr lk \<and>
    MemTable_Get m lk want value st = Inr (answer (visible h k s) want value st)"
proof -
  obtain lk where lk: "new_LookupKey k s = Inr lk" "lookup_user_key lk = k" "mem_valid (memtable_key lk)"
    "ikey_of (memtable_key lk) = internal_key k (op_tag s (PutOp k []))"
    using seek_key [OF k s] by blast
  obtain ks where ks: "mem.holds (mt_table m) ks" "set ks = (\<lambda>(q, op). entry_bytes q op) ` set h"
    and h: "history_ok h" and cmp: "user_comparator m = BytewiseComparator" using m by (auto simp: table_ok_def)
  let ?P = "\<lambda>e. mem_before e (memtable_key lk)"
  define i where "i = length (takeWhile ?P ks)"
  note bef = before_seek [OF lk(4) s h]
  obtain it where it: "iter_Seek (mt_table m) (memtable_key lk) = Inr it" "mem.iter_at (mt_table m) ks i it"
    using mem.iter_Seek_at [OF ks(1) lk(3)] i_def by blast
  show ?thesis
  proof (cases "i < length ks")
    case False
    then have "takeWhile ?P ks = ks"
      by (metis i_def length_takeWhile_le nat_less_le takeWhile_eq_take take_all_iff le_refl)
    then have all: "skipped k s q op" if "(q, op) \<in> set h" for q op
      using that ks(2) bef [OF that] by (metis (mono_tags, lifting) case_prod_conv image_eqI takeWhile_eq_all_conv)
    have "visible h k s = None"
    proof (rule ccontr)
      assume "visible h k s \<noteq> None"
      then obtain op q where "(q, op) \<in> set h" "q \<le> s" "op_key op = k" using visible_Some [OF _ h] by blast
      with all [of q op] show False by (auto simp: skipped_def)
    qed
    moreover have "\<not> Valid it" using mem.iter_at_Valid [OF it(2)] False by simp
    ultimately show ?thesis using lk(1) it(1) by (simp add: MemTable_Get_def answer_def)
  next
    case True
    have first: "\<not> ?P (ks ! i)" using True nth_length_takeWhile i_def by blast
    obtain q op where e: "ks ! i = entry_bytes q op" "(q, op) \<in> set h"
      using True ks(2) by (metis (mono_tags, lifting) imageE nth_mem old.prod.exhaust split_conv)
    have fit: "mem_op_fits op" if "(q, op) \<in> set h" for q op using that h by (auto simp: history_ok_def)
    have "visible h k s = (if op_key op = k then Some op else None)"
    proof (rule first_visible [OF h e(2)])
      show "\<not> skipped k s q op" using first bef [OF e(2)] e(1) by simp
      show "op_key op < op_key op' \<or> op_key op = op_key op' \<and> op_tag q' op' \<le> op_tag q op"
        if "(q', op') \<in> set h" "\<not> skipped k s q' op'" for q' op'
        using sorted_first [OF mem.holds_sorted [OF ks(1)] i_def True, of "entry_bytes q' op'"] that ks(2) bef [OF that(1)] e(1)
        by (intro not_before_entry [OF fit [OF e(2)] fit [OF that(1)]]) force
    qed
    then show ?thesis
      using Get_entry [OF fit [OF e(2)] it(1) _ _ cmp, of q] mem.iter_at_Valid [OF it(2)] mem.iter_Next_at [OF it(2) True]
        True e(1) lk(1,2)
      by (auto simp: answer_def)
  qed
qed

subsection \<open>Properties\<close>

text \<open>
  C10: the memtable answers every snapshot. After any batches have been inserted, with rising sequence
  numbers below \<open>2^56\<close> and lengths that fit their prefixes, every insertion gives OK and a \<open>Get\<close>
  at any snapshot finds exactly the last update of the key that is not newer: its value, \<open>NotFound\<close>
  where it was a deletion, and \<open>false\<close> where there is none. The skip list of encoded entries
  implements the history of the updates.
\<close>

theorem memtable_reads_latest:
  assumes "batches_fit 0 bs" and "length k + 8 < 2 ^ 32" and "s \<le> kMaxSequenceNumber"
  shows "\<exists>m lk. bind_res (new_MemTable BytewiseComparator)
      (insert_batches (map (\<lambda>(seq, ops). batch_bytes seq ops) bs)) = Inr (map (\<lambda>_. OK) bs, m) \<and>
    new_LookupKey k s = Inr lk \<and>
    MemTable_Get m lk want value st = Inr (answer (visible (history_of bs) k s) want value st)"
proof -
  obtain m0 where m0: "new_MemTable BytewiseComparator = Inr m0" "table_ok m0 []" using table_ok_new by blast
  obtain m where m: "insert_batches (map (\<lambda>(seq, ops). batch_bytes seq ops) bs) m0 = Inr (map (\<lambda>_. OK) bs, m)"
    "table_ok m ([] @ history_of bs)"
    using table_ok_batches [OF m0(2) _ assms(1)] by auto
  from m(2) have "table_ok m (history_of bs)" by simp
  from Get_visible [OF this assms(2,3)] m0(1) m(1) show ?thesis by auto
qed

theorem memtable_reads_latest_witness:
  "\<exists>m lk. bind_res (new_MemTable BytewiseComparator)
      (insert_batches [batch_bytes 1 [PutOp [7] [1], PutOp [7] [2]], batch_bytes 3 [DeleteOp [7]]]) = Inr ([OK, OK], m) \<and>
    new_LookupKey [7] 2 = Inr lk \<and> MemTable_Get m lk True [] OK = Inr (True, [2], OK)"
proof -
  have "visible (history_of [(1, [PutOp [7] [1], PutOp [7] [2]]), (3, [DeleteOp [7]])]) [7] 2 = Some (PutOp [7] [2])"
    by (simp add: history_of_def visible_def)
  moreover have "batches_fit 0 [(1, [PutOp [7] [1], PutOp [7] [2]]), (3, [DeleteOp [7]])]" by simp
  moreover have "(2 :: u64) \<le> kMaxSequenceNumber" by (simp add: kMaxSequenceNumber_def)
  ultimately show ?thesis
    using memtable_reads_latest [of "[(1, [PutOp [7] [1], PutOp [7] [2]]), (3, [DeleteOp [7]])]" "[7]" 2 True "[]" OK]
    by (auto simp: answer_def)
qed

end
