(* ===== verification/Block.thy ===== *)
theory Block
  imports DB_Format Status
begin

section \<open>Blocks\<close>

text \<open>
  \<open>leveldb-mcpe/table/block_builder.cc\<close>, \<open>block.cc\<close> and their headers: key/value pairs with the
  prefix a key shares with the one before left out, restart points at which the whole key is stored,
  and their offsets at the end of the block; the builder, and the iterator that searches the restart
  points and then scans. A pointer into a block is an offset from \<open>data_\<close>. The loops of the iterator that
  its code does not bound recurse on fuel, one unit for each byte of the block.
\<close>

subsection \<open>The builder\<close>

text \<open>Of the options, the restart interval and the comparator.\<close>

record BlockBuilder =
  bb_interval :: int
  bb_comparator :: comparator
  bb_buffer :: slice
  bb_restarts :: "u32 list"
  bb_counter :: int
  bb_finished :: bool
  bb_last_key :: slice

definition new_BlockBuilder :: "int \<Rightarrow> comparator \<Rightarrow> BlockBuilder res" where
  "new_BlockBuilder interval cmp =
     bind_res (guard_res (interval \<ge> 1) AssertFail) (\<lambda>_.
       Inr \<lparr>bb_interval = interval, bb_comparator = cmp, bb_buffer = [], bb_restarts = [0],
         bb_counter = 0, bb_finished = False, bb_last_key = []\<rparr>)"

definition Block_Reset :: "BlockBuilder \<Rightarrow> BlockBuilder" where
  "Block_Reset b = b\<lparr>bb_buffer := [], bb_restarts := [0], bb_counter := 0, bb_finished := False, bb_last_key := []\<rparr>"

definition CurrentSizeEstimate :: "BlockBuilder \<Rightarrow> nat" where
  "CurrentSizeEstimate b = length (bb_buffer b) + length (bb_restarts b) * 4 + 4"

definition block_empty :: "BlockBuilder \<Rightarrow> bool" where
  "block_empty b \<longleftrightarrow> bb_buffer b = []"

definition Block_Finish :: "BlockBuilder \<Rightarrow> slice \<times> BlockBuilder" where
  "Block_Finish b =
     (let buffer = foldl PutFixed32 (bb_buffer b) (bb_restarts b);
          buffer = PutFixed32 buffer (of_nat (length (bb_restarts b)))
      in (buffer, b\<lparr>bb_buffer := buffer, bb_finished := True\<rparr>))"

text \<open>The loop that counts the shared bytes stops at the shorter of the two keys, like \<open>common_prefix\<close>.\<close>

definition Block_Add :: "BlockBuilder \<Rightarrow> slice \<Rightarrow> slice \<Rightarrow> BlockBuilder res" where
  "Block_Add b key value =
     bind_res (guard_res (\<not> bb_finished b) AssertFail) (\<lambda>_.
     bind_res (guard_res (bb_counter b \<le> bb_interval b) AssertFail) (\<lambda>_.
     bind_res (if block_empty b then Inr True
       else bind_res (Compare (bb_comparator b) key (bb_last_key b)) (\<lambda>r. Inr (r > 0))) (\<lambda>after.
     bind_res (guard_res after AssertFail) (\<lambda>_.
     let (shared, b) =
       (if bb_counter b < bb_interval b then (common_prefix (bb_last_key b) key, b)
        else (0, b\<lparr>bb_restarts := bb_restarts b @ [of_nat (length (bb_buffer b))], bb_counter := 0\<rparr>));
       non_shared = length key - shared;
       buffer = PutVarint32 (bb_buffer b) (of_nat shared);
       buffer = PutVarint32 buffer (of_nat non_shared);
       buffer = PutVarint32 buffer (of_nat (length value));
       buffer = buffer @ take non_shared (drop shared key);
       buffer = buffer @ value;
       last_key = take shared (bb_last_key b) @ take non_shared (drop shared key)
     in bind_res (guard_res (last_key = key) AssertFail) (\<lambda>_.
        bind_res (to_int32 (bb_counter b + 1)) (\<lambda>counter.
          Inr (b\<lparr>bb_buffer := buffer, bb_last_key := last_key, bb_counter := counter\<rparr>)))))))"

subsection \<open>The block\<close>

text \<open>\<open>restart_offset_\<close> is not written where the contents are rejected.\<close>

record Block =
  b_data :: slice
  b_size :: nat
  b_restart_offset :: "u32 option"

definition NumRestarts :: "Block \<Rightarrow> u32 res" where
  "NumRestarts b =
     bind_res (guard_res (b_size b \<ge> 4) AssertFail) (\<lambda>_. DecodeFixed32 (drop (b_size b - 4) (b_data b)))"

definition new_Block :: "slice \<Rightarrow> Block res" where
  "new_Block contents =
     (let b = \<lparr>b_data = contents, b_size = length contents, b_restart_offset = None\<rparr> in
      if b_size b < 4 then Inr (b\<lparr>b_size := 0\<rparr>)
      else
        let max_restarts_allowed = (b_size b - 4) div 4 in
        bind_res (NumRestarts b) (\<lambda>n.
          if unat n > max_restarts_allowed then Inr (b\<lparr>b_size := 0\<rparr>)
          else Inr (b\<lparr>b_restart_offset := Some (of_nat (b_size b) - (1 + n) * 4)\<rparr>)))"

text \<open>
  \<open>DecodeEntry\<close> on the bytes from \<open>p\<close> to \<open>limit\<close> (none where \<open>p\<close> lies behind): the three lengths,
  and the bytes left up to the limit. The sum of two lengths is one of \<open>uint32_t\<close>.
\<close>

definition DecodeEntry :: "slice \<Rightarrow> (u32 \<times> u32 \<times> u32 \<times> slice) option" where
  "DecodeEntry p =
     (case p of
        s # n # v # rest \<Rightarrow>
          let decoded =
            (if ((ucast s :: u32) OR ucast n) OR ucast v < 128 then Some (ucast s, ucast n, ucast v, rest)
             else
               case GetVarint32Ptr p of None \<Rightarrow> None
               | Some (shared, p) \<Rightarrow>
                 (case GetVarint32Ptr p of None \<Rightarrow> None
                  | Some (non_shared, p) \<Rightarrow>
                    (case GetVarint32Ptr p of None \<Rightarrow> None
                     | Some (value_length, p) \<Rightarrow> Some (shared, non_shared, value_length, p))))
          in (case decoded of None \<Rightarrow> None
              | Some (shared, non_shared, value_length, p) \<Rightarrow>
                  if (of_nat (length p) :: u32) < non_shared + value_length then None
                  else Some (shared, non_shared, value_length, p))
      | _ \<Rightarrow> None)"

subsection \<open>The iterator\<close>

text \<open>\<open>value_\<close> is an offset and a length; \<open>None\<close> is the empty slice outside the block.\<close>

record BlockIter =
  bi_comparator :: comparator
  bi_data :: slice
  bi_restarts :: u32
  bi_num_restarts :: u32
  bi_current :: u32
  bi_restart_index :: u32
  bi_key :: slice
  bi_value :: "(nat \<times> nat) option"
  bi_status :: Status

definition new_BlockIter :: "comparator \<Rightarrow> slice \<Rightarrow> u32 \<Rightarrow> u32 \<Rightarrow> BlockIter res" where
  "new_BlockIter cmp data restarts num_restarts =
     bind_res (guard_res (num_restarts > 0) AssertFail) (\<lambda>_.
       Inr \<lparr>bi_comparator = cmp, bi_data = data, bi_restarts = restarts, bi_num_restarts = num_restarts,
         bi_current = restarts, bi_restart_index = num_restarts, bi_key = [], bi_value = None, bi_status = OK\<rparr>)"

definition NextEntryOffset :: "BlockIter \<Rightarrow> nat res" where
  "NextEntryOffset it = (case bi_value it of None \<Rightarrow> Inl Undefined | Some (p, n) \<Rightarrow> Inr (p + n))"

definition GetRestartPoint :: "BlockIter \<Rightarrow> u32 \<Rightarrow> u32 res" where
  "GetRestartPoint it index =
     bind_res (guard_res (index < bi_num_restarts it) AssertFail) (\<lambda>_.
       DecodeFixed32 (drop (unat (bi_restarts it) + unat index * 4) (bi_data it)))"

definition SeekToRestartPoint :: "BlockIter \<Rightarrow> u32 \<Rightarrow> BlockIter res" where
  "SeekToRestartPoint it index =
     bind_res (GetRestartPoint it index) (\<lambda>offset.
       Inr (it\<lparr>bi_key := [], bi_restart_index := index, bi_value := Some (unat offset, 0)\<rparr>))"

definition bi_Valid :: "BlockIter \<Rightarrow> bool" where
  "bi_Valid it \<longleftrightarrow> bi_current it < bi_restarts it"

definition CorruptionError :: "BlockIter \<Rightarrow> BlockIter res" where
  "CorruptionError it =
     bind_res (Corruption (map char_byte ''bad entry in block'') []) (\<lambda>st.
       Inr (it\<lparr>bi_current := bi_restarts it, bi_restart_index := bi_num_restarts it, bi_status := st,
         bi_key := [], bi_value := None\<rparr>))"

fun restart_loop :: "nat \<Rightarrow> BlockIter \<Rightarrow> BlockIter res" where
  "restart_loop 0 it = Inl OutOfFuel"
| "restart_loop (Suc fuel) it =
     (if bi_restart_index it + 1 < bi_num_restarts it then
        bind_res (GetRestartPoint it (bi_restart_index it + 1)) (\<lambda>r.
        if r < bi_current it then restart_loop fuel (it\<lparr>bi_restart_index := bi_restart_index it + 1\<rparr>)
        else Inr it)
      else Inr it)"

text \<open>The bytes of the key are read from the memory of the block, wherever the entry ends.\<close>

definition ParseNextKey :: "BlockIter \<Rightarrow> (bool \<times> BlockIter) res" where
  "ParseNextKey it =
     bind_res (NextEntryOffset it) (\<lambda>off.
     let it = it\<lparr>bi_current := of_nat off\<rparr>; p = unat (bi_current it); limit = unat (bi_restarts it) in
     if p \<ge> limit then
       Inr (False, it\<lparr>bi_current := bi_restarts it, bi_restart_index := bi_num_restarts it\<rparr>)
     else
       bind_res (guard_res (limit \<le> length (bi_data it)) Undefined) (\<lambda>_.
       case DecodeEntry (drop p (take limit (bi_data it))) of
         None \<Rightarrow> bind_res (CorruptionError it) (\<lambda>it. Inr (False, it))
       | Some (shared, non_shared, value_length, rest) \<Rightarrow>
           if length (bi_key it) < unat shared then bind_res (CorruptionError it) (\<lambda>it. Inr (False, it))
           else
             let q = limit - length rest in
             bind_res (guard_res (q + unat non_shared \<le> length (bi_data it)) Undefined) (\<lambda>_.
             let it = it\<lparr>bi_key := take (unat shared) (bi_key it) @ take (unat non_shared) (drop q (bi_data it)),
               bi_value := Some (q + unat non_shared, unat value_length)\<rparr>
             in bind_res (restart_loop (unat (bi_num_restarts it) + 2) it) (\<lambda>it. Inr (True, it)))))"

definition bi_key_at :: "BlockIter \<Rightarrow> slice res" where
  "bi_key_at it = bind_res (guard_res (bi_Valid it) AssertFail) (\<lambda>_. Inr (bi_key it))"

definition bi_value_at :: "BlockIter \<Rightarrow> slice res" where
  "bi_value_at it =
     bind_res (guard_res (bi_Valid it) AssertFail) (\<lambda>_.
     bind_res (initialised (bi_value it)) (\<lambda>(p, n).
     bind_res (guard_res (p + n \<le> length (bi_data it)) Undefined) (\<lambda>_.
       Inr (take n (drop p (bi_data it))))))"

definition bi_Next :: "BlockIter \<Rightarrow> BlockIter res" where
  "bi_Next it =
     bind_res (guard_res (bi_Valid it) AssertFail) (\<lambda>_. bind_res (ParseNextKey it) (\<lambda>(_, it). Inr it))"

text \<open>The \<open>do\<close> loop of \<open>Prev\<close> and the \<open>while\<close> loop of \<open>SeekToLast\<close>: parse until an entry ends at \<open>stop\<close>.\<close>

fun scan_loop :: "nat \<Rightarrow> nat \<Rightarrow> BlockIter \<Rightarrow> BlockIter res" where
  "scan_loop 0 stop it = Inl OutOfFuel"
| "scan_loop (Suc fuel) stop it =
     bind_res (ParseNextKey it) (\<lambda>(ok, it).
     if ok then
       bind_res (NextEntryOffset it) (\<lambda>off.
       if off < stop then scan_loop fuel stop it else Inr it)
     else Inr it)"

fun back_loop :: "nat \<Rightarrow> u32 \<Rightarrow> BlockIter \<Rightarrow> (bool \<times> BlockIter) res" where
  "back_loop 0 original it = Inl OutOfFuel"
| "back_loop (Suc fuel) original it =
     bind_res (GetRestartPoint it (bi_restart_index it)) (\<lambda>r.
     if r \<ge> original then
       if bi_restart_index it = 0 then
         Inr (False, it\<lparr>bi_current := bi_restarts it, bi_restart_index := bi_num_restarts it\<rparr>)
       else back_loop fuel original (it\<lparr>bi_restart_index := bi_restart_index it - 1\<rparr>)
     else Inr (True, it))"

definition bi_fuel :: "BlockIter \<Rightarrow> nat" where
  "bi_fuel it = length (bi_data it) + 2"

definition bi_Prev :: "BlockIter \<Rightarrow> BlockIter res" where
  "bi_Prev it =
     bind_res (guard_res (bi_Valid it) AssertFail) (\<lambda>_.
     let original = bi_current it in
     bind_res (back_loop (bi_fuel it) original it) (\<lambda>(found, it).
     if found then
       bind_res (SeekToRestartPoint it (bi_restart_index it)) (\<lambda>it.
         scan_loop (bi_fuel it) (unat original) it)
     else Inr it))"

definition bi_SeekToFirst :: "BlockIter \<Rightarrow> BlockIter res" where
  "bi_SeekToFirst it =
     bind_res (SeekToRestartPoint it 0) (\<lambda>it. bind_res (ParseNextKey it) (\<lambda>(_, it). Inr it))"

definition bi_SeekToLast :: "BlockIter \<Rightarrow> BlockIter res" where
  "bi_SeekToLast it =
     bind_res (SeekToRestartPoint it (bi_num_restarts it - 1)) (\<lambda>it.
       scan_loop (bi_fuel it) (unat (bi_restarts it)) it)"

text \<open>The binary search: \<open>None\<close> where an entry is corrupt.\<close>

fun search_loop :: "nat \<Rightarrow> BlockIter \<Rightarrow> slice \<Rightarrow> u32 \<Rightarrow> u32 \<Rightarrow> u32 option res" where
  "search_loop 0 it target left right = Inl OutOfFuel"
| "search_loop (Suc fuel) it target left right =
     (if left < right then
        let mid = (left + right + 1) div 2; limit = unat (bi_restarts it) in
        bind_res (GetRestartPoint it mid) (\<lambda>region_offset.
        bind_res (guard_res (limit \<le> length (bi_data it)) Undefined) (\<lambda>_.
        case DecodeEntry (drop (unat region_offset) (take limit (bi_data it))) of
          None \<Rightarrow> Inr None
        | Some (shared, non_shared, value_length, rest) \<Rightarrow>
            if shared \<noteq> 0 then Inr None
            else
              let q = limit - length rest in
              bind_res (guard_res (q + unat non_shared \<le> length (bi_data it)) Undefined) (\<lambda>_.
              let mid_key = take (unat non_shared) (drop q (bi_data it)) in
              bind_res (Compare (bi_comparator it) mid_key target) (\<lambda>r.
              if r < 0 then search_loop fuel it target mid right
              else search_loop fuel it target left (mid - 1)))))
      else Inr (Some left))"

fun linear_loop :: "nat \<Rightarrow> slice \<Rightarrow> BlockIter \<Rightarrow> BlockIter res" where
  "linear_loop 0 target it = Inl OutOfFuel"
| "linear_loop (Suc fuel) target it =
     bind_res (ParseNextKey it) (\<lambda>(ok, it).
     if \<not> ok then Inr it
     else
       bind_res (Compare (bi_comparator it) (bi_key it) target) (\<lambda>r.
       if r \<ge> 0 then Inr it else linear_loop fuel target it))"

definition bi_Seek :: "BlockIter \<Rightarrow> slice \<Rightarrow> BlockIter res" where
  "bi_Seek it target =
     bind_res (search_loop (bi_fuel it) it target 0 (bi_num_restarts it - 1)) (\<lambda>left.
     case left of
       None \<Rightarrow> CorruptionError it
     | Some left \<Rightarrow> bind_res (SeekToRestartPoint it left) (\<lambda>it. linear_loop (bi_fuel it) target it))"

text \<open>
  \<open>NewIterator\<close>: the iterator of an error, the empty iterator, or one over the entries. The first two
  are never valid and carry a status.
\<close>

datatype AnyIter = ErrorIter Status | EmptyIter | EntryIter BlockIter

definition Block_NewIterator :: "Block \<Rightarrow> comparator \<Rightarrow> AnyIter res" where
  "Block_NewIterator b cmp =
     (if b_size b < 4 then
        bind_res (Corruption (map char_byte ''bad block contents'') []) (\<lambda>st. Inr (ErrorIter st))
      else
        bind_res (NumRestarts b) (\<lambda>num_restarts.
        if num_restarts = 0 then Inr EmptyIter
        else
          bind_res (initialised (b_restart_offset b)) (\<lambda>off.
          bind_res (new_BlockIter cmp (b_data b) off num_restarts) (\<lambda>it. Inr (EntryIter it)))))"

end
