(* ===== verification/Block_Correct.thy ===== *)
theory Block_Correct
  imports Block
begin

section \<open>Correctness of blocks\<close>

text \<open>
  The entries of a block as a list of shared lengths, keys and values, the bytes these stand for, and the
  restart points among them; what the iterator does on such a block, and that the builder makes one.
\<close>

subsection \<open>One entry\<close>

type_synonym entry = "nat \<times> slice \<times> slice"

definition ekey :: "entry \<Rightarrow> slice" where
  "ekey e = fst (snd e)"

definition evalue :: "entry \<Rightarrow> slice" where
  "evalue e = snd (snd e)"

definition enc_entry :: "entry \<Rightarrow> slice" where
  "enc_entry = (\<lambda>(sh, k, v). EncodeVarint32 (of_nat sh) @ EncodeVarint32 (of_nat (length k - sh)) @
     EncodeVarint32 (of_nat (length v)) @ drop sh k @ v)"

lemma or_less_128: "a OR b < (128 :: u32) \<Longrightarrow> a < 128 \<and> b < 128"
proof -
  have "a \<le> a OR b" "b \<le> a OR b"
    by (simp_all add: word_le_def or_greater_eq unsigned_or_eq) (metis or.commute or_greater_eq unsigned_greater_eq)
  then show "a OR b < 128 \<Longrightarrow> a < 128 \<and> b < 128" by (meson order_le_less_trans)
qed

lemma GetVarint32Ptr_small:
  assumes "(ucast b :: u32) < 128"
  shows "GetVarint32Ptr (b # q) = Some (ucast b, q)"
proof -
  let ?b = "ucast b :: u32"
  have "take_bit 7 ?b = ?b"
    using assms by (simp only: word_unat_eq_iff unsigned_take_bit_eq word_less_nat_alt) (simp add: take_bit_nat_eq_self)
  then have "\<not> bit ?b 7" by (metis bit_take_bit_iff less_irrefl)
  then have "?b AND 2 ^ 7 = 0" by (rule and_exp_eq_0_iff_not_bit [THEN iffD2])
  moreover have "(2 ^ 7 :: u32) = 128" by simp
  ultimately have "?b AND 128 = 0" by (simp only:)
  then show ?thesis unfolding GetVarint32Ptr_def list.case Let_def by (simp only: if_True simp_thms)
qed

text \<open>The fast path of \<open>DecodeEntry\<close> agrees with the general one.\<close>

lemma DecodeEntry_slow:
  assumes "3 \<le> length p" and "GetVarint32Ptr p = Some (shared, p1)" and "GetVarint32Ptr p1 = Some (non_shared, p2)"
    and "GetVarint32Ptr p2 = Some (value_length, p3)"
  shows "DecodeEntry p =
    (if (of_nat (length p3) :: u32) < non_shared + value_length then None else Some (shared, non_shared, value_length, p3))"
proof -
  obtain s n v rest where p: "p = s # n # v # rest" using assms(1) by (auto simp: numeral_eq_Suc Suc_le_length_iff)
  show ?thesis
  proof (cases "((ucast s :: u32) OR ucast n) OR ucast v < 128")
    case True
    then have "(ucast s :: u32) < 128" "(ucast n :: u32) < 128" "(ucast v :: u32) < 128" using or_less_128 by blast+
    note small = this [THEN GetVarint32Ptr_small]
    have "shared = ucast s" "p1 = n # v # rest" using assms(2) small(1) [of "n # v # rest"] by (simp_all add: p)
    moreover from this have "non_shared = ucast n" "p2 = v # rest" using assms(3) small(2) [of "v # rest"] by simp_all
    moreover from this have "value_length = ucast v" "p3 = rest" using assms(4) small(3) [of rest] by simp_all
    ultimately show ?thesis using True by (simp add: DecodeEntry_def p)
  qed (use assms(2-4) in \<open>simp add: DecodeEntry_def p\<close>)
qed

definition entry_fits :: "entry \<Rightarrow> bool" where
  "entry_fits = (\<lambda>(sh, k, v). sh \<le> length k \<and> length k + length v < 2 ^ 32)"

lemma length_varint_pos: "1 \<le> length (EncodeVarint32 w)"
  by (simp add: EncodeVarint32_bytes Suc_le_eq)

lemma length_enc_entry: "entry_fits (sh, k, v) \<Longrightarrow> 3 \<le> length (enc_entry (sh, k, v))"
  using length_varint_pos [of "of_nat sh"] length_varint_pos [of "of_nat (length k - sh)"]
    length_varint_pos [of "of_nat (length v)"]
  unfolding enc_entry_def case_prod_conv length_append by linarith

lemma DecodeEntry_enc:
  assumes "entry_fits (sh, k, v)" and "length (enc_entry (sh, k, v) @ r) < 2 ^ 32"
  shows "DecodeEntry (enc_entry (sh, k, v) @ r) =
    Some (of_nat sh, of_nat (length k - sh), of_nat (length v), drop sh k @ v @ r)"
proof -
  let ?n = "of_nat (length k - sh) :: u32" and ?v = "of_nat (length v) :: u32"
  have small: "length k - sh + length v < 2 ^ 32" "length (drop sh k @ v @ r) < 2 ^ 32"
    using assms by (simp_all add: entry_fits_def enc_entry_def)
  have "?n + ?v = of_nat (length k - sh + length v)" by simp
  then have "unat (?n + ?v) = length k - sh + length v" using small(1) by (simp only: unat_of_nat_small)
  moreover have "unat (of_nat (length (drop sh k @ v @ r)) :: u32) = length (drop sh k @ v @ r)"
    using small(2) by (rule unat_of_nat_small)
  ultimately have "\<not> (of_nat (length (drop sh k @ v @ r)) :: u32) < ?n + ?v"
    by (simp only: word_less_nat_alt) simp
  moreover have "3 \<le> length (enc_entry (sh, k, v) @ r)" using length_enc_entry [OF assms(1)] by simp
  ultimately show ?thesis
    by (subst DecodeEntry_slow [of _ "of_nat sh" "EncodeVarint32 ?n @ EncodeVarint32 ?v @ drop sh k @ v @ r"
        ?n "EncodeVarint32 ?v @ drop sh k @ v @ r" ?v "drop sh k @ v @ r"])
      (simp_all add: enc_entry_def)
qed

subsection \<open>The layout of a block\<close>

definition entry_bytes :: "entry list \<Rightarrow> slice" where
  "entry_bytes es = concat (map enc_entry es)"

definition eoff :: "entry list \<Rightarrow> nat \<Rightarrow> nat" where
  "eoff es i = length (entry_bytes (take i es))"

fun shares :: "slice \<Rightarrow> entry list \<Rightarrow> bool" where
  "shares prev [] \<longleftrightarrow> True"
| "shares prev ((sh, k, v) # es) \<longleftrightarrow> sh \<le> length prev \<and> take sh prev = take sh k \<and> shares k es"

definition restarts_ok :: "entry list \<Rightarrow> nat list \<Rightarrow> bool" where
  "restarts_ok es rs \<longleftrightarrow> rs \<noteq> [] \<and> hd rs = 0 \<and> sorted_wrt (<) rs \<and>
     (\<forall>r \<in> set rs. (r < length es \<and> fst (es ! r) = 0) \<or> es = [] \<and> r = 0)"

definition block_bytes :: "entry list \<Rightarrow> nat list \<Rightarrow> slice" where
  "block_bytes es rs = entry_bytes es @ concat (map (\<lambda>r. EncodeFixed32 (of_nat (eoff es r))) rs) @
     EncodeFixed32 (of_nat (length rs))"

definition layout :: "entry list \<Rightarrow> nat list \<Rightarrow> bool" where
  "layout es rs \<longleftrightarrow> (\<forall>e \<in> set es. entry_fits e) \<and> shares [] es \<and> restarts_ok es rs \<and>
     length (block_bytes es rs) < 2 ^ 32"

lemma entry_bytes_simps [simp]: "entry_bytes [] = []" "entry_bytes (e # es) = enc_entry e @ entry_bytes es"
  "entry_bytes (es @ es') = entry_bytes es @ entry_bytes es'"
  by (simp_all add: entry_bytes_def)

lemma length_fixed_offsets [simp]: "length (concat (map (\<lambda>r. EncodeFixed32 (f r)) rs)) = 4 * length rs"
  by (induction rs) auto

lemma length_block_bytes: "length (block_bytes es rs) = length (entry_bytes es) + 4 * length rs + 4"
  by (simp add: block_bytes_def)

lemma eoff_0 [simp]: "eoff es 0 = 0"
  by (simp add: eoff_def)

lemma eoff_end [simp]: "length es \<le> i \<Longrightarrow> eoff es i = length (entry_bytes es)"
  by (simp add: eoff_def)

lemma eoff_Suc: "i < length es \<Longrightarrow> eoff es (Suc i) = eoff es i + length (enc_entry (es ! i))"
  by (simp add: eoff_def take_Suc_conv_app_nth)

lemma eoff_step: "\<forall>e \<in> set es. entry_fits e \<Longrightarrow> i < length es \<Longrightarrow> eoff es i + 3 \<le> eoff es (Suc i)"
  using length_enc_entry [of "fst (es ! i)" "fst (snd (es ! i))" "snd (snd (es ! i))"] by (simp add: eoff_Suc)

lemma eoff_mono: "i \<le> j \<Longrightarrow> eoff es i \<le> eoff es j"
proof -
  assume "i \<le> j"
  then have "take j es = take i es @ take (j - i) (drop i es)" by (metis le_add_diff_inverse take_add)
  then show ?thesis by (simp add: eoff_def)
qed

lemma eoff_less_iff:
  assumes "\<forall>e \<in> set es. entry_fits e" and "i \<le> length es" and "j \<le> length es"
  shows "eoff es i < eoff es j \<longleftrightarrow> i < j"
proof
  assume "i < j"
  then have "eoff es (Suc i) \<le> eoff es j" by (intro eoff_mono) simp
  then show "eoff es i < eoff es j" using eoff_step [OF assms(1), of i] \<open>i < j\<close> assms(3) by linarith
next
  assume "eoff es i < eoff es j"
  then show "i < j" using eoff_mono [of j i es] by (meson leD leI)
qed

lemma eoff_bound: "eoff es i \<le> length (entry_bytes es)"
  by (metis append_take_drop_id entry_bytes_simps(3) eoff_def length_append le_add1)

lemma drop_eoff: "i < length es \<Longrightarrow> drop (eoff es i) (entry_bytes es @ r) = enc_entry (es ! i) @ entry_bytes (drop (Suc i) es) @ r"
proof -
  assume "i < length es"
  then have "entry_bytes es = entry_bytes (take i es) @ enc_entry (es ! i) @ entry_bytes (drop (Suc i) es)"
    by (metis entry_bytes_simps(2,3) id_take_nth_drop)
  then show ?thesis by (simp add: eoff_def)
qed

lemma shares_nth:
  "shares prev es \<Longrightarrow> Suc i < length es \<Longrightarrow> fst (es ! Suc i) \<le> length (ekey (es ! i)) \<and>
    take (fst (es ! Suc i)) (ekey (es ! i)) = take (fst (es ! Suc i)) (ekey (es ! Suc i))"
proof (induction prev es arbitrary: i rule: shares.induct)
  case (2 prev sh k v es)
  then show ?case by (cases i; cases es) (auto simp: ekey_def)
qed simp

lemma GetRestart_bytes:
  assumes "j < length rs"
  shows "DecodeFixed32 (drop (length (entry_bytes es) + j * 4) (block_bytes es rs)) = Inr (of_nat (eoff es (rs ! j)))"
proof -
  have "drop (j * 4) (concat (map (\<lambda>r. EncodeFixed32 (f r)) rs) @ t) =
      EncodeFixed32 (f (rs ! j)) @ concat (map (\<lambda>r. EncodeFixed32 (f r)) (drop (Suc j) rs)) @ t" for f :: "nat \<Rightarrow> u32" and t
    using assms
  proof (induction rs arbitrary: j)
    case (Cons r rs)
    then show ?case by (cases j) auto
  qed simp
  then show ?thesis by (simp add: block_bytes_def)
qed

subsection \<open>The iterator on a block\<close>

definition iter_on :: "entry list \<Rightarrow> nat list \<Rightarrow> comparator \<Rightarrow> BlockIter \<Rightarrow> bool" where
  "iter_on es rs cmp it \<longleftrightarrow> bi_comparator it = cmp \<and> bi_data it = block_bytes es rs \<and>
     bi_restarts it = of_nat (length (entry_bytes es)) \<and> bi_num_restarts it = of_nat (length rs) \<and> bi_status it = OK"

text \<open>About to parse entry \<open>i\<close>; standing at it; past the entries.\<close>

definition pending :: "entry list \<Rightarrow> nat list \<Rightarrow> comparator \<Rightarrow> nat \<Rightarrow> BlockIter \<Rightarrow> bool" where
  "pending es rs cmp i it \<longleftrightarrow> iter_on es rs cmp it \<and> i \<le> length es \<and>
     (\<exists>p n. bi_value it = Some (p, n) \<and> p + n = eoff es i) \<and> unat (bi_restart_index it) < length rs \<and>
     (i < length es \<longrightarrow> fst (es ! i) \<le> length (bi_key it) \<and> take (fst (es ! i)) (bi_key it) = take (fst (es ! i)) (ekey (es ! i)))"

definition standing :: "entry list \<Rightarrow> nat list \<Rightarrow> comparator \<Rightarrow> nat \<Rightarrow> BlockIter \<Rightarrow> bool" where
  "standing es rs cmp i it \<longleftrightarrow> iter_on es rs cmp it \<and> i < length es \<and> bi_current it = of_nat (eoff es i) \<and>
     bi_key it = ekey (es ! i) \<and> unat (bi_restart_index it) < length rs \<and>
     bi_value it = Some (eoff es (Suc i) - length (evalue (es ! i)), length (evalue (es ! i)))"

definition past :: "entry list \<Rightarrow> nat list \<Rightarrow> comparator \<Rightarrow> BlockIter \<Rightarrow> bool" where
  "past es rs cmp it \<longleftrightarrow> iter_on es rs cmp it \<and> bi_current it = bi_restarts it"

lemma layout_sizes:
  assumes "layout es rs"
  shows "length (entry_bytes es) < 2 ^ 32" "length rs < 2 ^ 30" "0 < length rs"
    "\<forall>e \<in> set es. entry_fits e" "shares [] es" "unat (of_nat (eoff es i) :: u32) = eoff es i"
    "unat (of_nat (length rs) :: u32) = length rs"
proof -
  have l: "length (entry_bytes es) + 4 * length rs + 4 < 2 ^ 32"
    using assms by (simp add: layout_def length_block_bytes)
  then show "length (entry_bytes es) < 2 ^ 32" "length rs < 2 ^ 30" by simp_all
  then show "unat (of_nat (length rs) :: u32) = length rs" by (intro unat_of_nat_small) simp
  show "unat (of_nat (eoff es i) :: u32) = eoff es i"
    using l eoff_bound [of es i] by (intro unat_of_nat_small) simp
  show "0 < length rs" using assms by (simp add: layout_def restarts_ok_def)
  show "\<forall>e \<in> set es. entry_fits e" "shares [] es" using assms by (simp_all add: layout_def)
qed

lemma GetRestartPoint_on:
  assumes "layout es rs" and "iter_on es rs cmp it" and "unat j < length rs"
  shows "GetRestartPoint it j = Inr (of_nat (eoff es (rs ! unat j)))"
proof -
  have "j < of_nat (length rs)" using assms(3) layout_sizes(7) [OF assms(1)] by (simp add: word_less_nat_alt)
  moreover have "unat (of_nat (length (entry_bytes es)) :: u32) = length (entry_bytes es)"
    using layout_sizes(1) [OF assms(1)] by (rule unat_of_nat_small)
  ultimately show ?thesis
    using assms(2) GetRestart_bytes [OF assms(3), of es] by (simp add: GetRestartPoint_def iter_on_def)
qed

lemma restart_entry:
  assumes "layout es rs" and "j < length rs"
  shows "rs ! j \<le> length es" "rs ! j < length es \<Longrightarrow> fst (es ! (rs ! j)) = 0" "es \<noteq> [] \<Longrightarrow> rs ! j < length es"
    "es = [] \<Longrightarrow> rs ! j = 0"
proof -
  have "rs ! j \<in> set rs" using assms(2) by simp
  then have "(rs ! j < length es \<and> fst (es ! (rs ! j)) = 0) \<or> es = [] \<and> rs ! j = 0"
    using assms(1) unfolding layout_def restarts_ok_def by blast
  then show "rs ! j \<le> length es" "rs ! j < length es \<Longrightarrow> fst (es ! (rs ! j)) = 0" "es \<noteq> [] \<Longrightarrow> rs ! j < length es"
    "es = [] \<Longrightarrow> rs ! j = 0" by auto
qed

lemma restart_first: "layout es rs \<Longrightarrow> rs ! 0 = 0"
  unfolding layout_def restarts_ok_def by (metis hd_conv_nth)

lemma SeekToRestartPoint_pending:
  assumes "layout es rs" and "iter_on es rs cmp it" and "unat j < length rs"
  shows "\<exists>it'. SeekToRestartPoint it j = Inr it' \<and> pending es rs cmp (rs ! unat j) it' \<and> bi_data it' = bi_data it"
  using assms(2,3) GetRestartPoint_on [OF assms] restart_entry [OF assms(1,3)] layout_sizes(6) [OF assms(1)]
  by (auto simp: SeekToRestartPoint_def pending_def iter_on_def)

lemma restart_loop_on:
  assumes "layout es rs" and "iter_on es rs cmp it" and "unat (bi_restart_index it) < length rs"
    and "length rs - unat (bi_restart_index it) < fuel"
  shows "\<exists>j. restart_loop fuel it = Inr (it\<lparr>bi_restart_index := j\<rparr>) \<and> unat j < length rs"
  using assms(2-)
proof (induction fuel arbitrary: it)
  case (Suc fuel)
  let ?j = "bi_restart_index it"
  have u: "unat (?j + 1) = unat ?j + 1"
    using Suc.prems(2) layout_sizes(2) [OF assms(1)] by (simp add: unat_word_ariths)
  have num: "bi_num_restarts it = of_nat (length rs)" using Suc.prems(1) by (simp add: iter_on_def)
  show ?case
  proof (cases "unat ?j + 1 < length rs \<and> of_nat (eoff es (rs ! unat (?j + 1))) < bi_current it")
    case True
    then have lt: "?j + 1 < bi_num_restarts it" using u layout_sizes(7) [OF assms(1)] by (simp add: num word_less_nat_alt)
    have j: "unat (?j + 1) < length rs" using True u by simp
    have "iter_on es rs cmp (it\<lparr>bi_restart_index := ?j + 1\<rparr>)" using Suc.prems(1) by (simp add: iter_on_def)
    moreover have "length rs - unat (?j + 1) < fuel" using Suc.prems(3) j u by linarith
    ultimately obtain j' where
      "restart_loop fuel (it\<lparr>bi_restart_index := ?j + 1\<rparr>) = Inr (it\<lparr>bi_restart_index := j'\<rparr>)" "unat j' < length rs"
      using Suc.IH [of "it\<lparr>bi_restart_index := ?j + 1\<rparr>"] j by auto
    then show ?thesis using GetRestartPoint_on [OF assms(1) Suc.prems(1) j] lt True by auto
  next
    case False
    have "restart_loop (Suc fuel) it = Inr it"
    proof (cases "?j + 1 < bi_num_restarts it")
      case True
      then have j: "unat (?j + 1) < length rs" using layout_sizes(7) [OF assms(1)] by (simp add: num word_less_nat_alt)
      then show ?thesis using GetRestartPoint_on [OF assms(1) Suc.prems(1) j] False u by auto
    qed simp
    moreover have "it = it\<lparr>bi_restart_index := ?j\<rparr>" by simp
    ultimately show ?thesis using Suc.prems(2) by metis
  qed
qed simp

lemma drop_eoff_Suc:
  assumes "i < length es"
  shows "drop (eoff es i) (entry_bytes es @ r) = enc_entry (es ! i) @ drop (eoff es (Suc i)) (entry_bytes es @ r)"
proof -
  have "drop (eoff es (Suc i)) (entry_bytes es @ r) = drop (length (enc_entry (es ! i))) (drop (eoff es i) (entry_bytes es @ r))"
    by (simp only: eoff_Suc [OF assms] drop_drop add.commute)
  then show ?thesis unfolding drop_eoff [OF assms] by simp
qed

text \<open>What the decoder finds at the offset of an entry: where its key and its value begin.\<close>

lemma entry_decoded:
  assumes lay: "layout es rs" and i: "i < length es" and e: "es ! i = (sh, k, v)"
  shows "\<exists>rest q. DecodeEntry (drop (eoff es i) (take (length (entry_bytes es)) (block_bytes es rs))) =
      Some (of_nat sh, of_nat (length k - sh), of_nat (length v), rest) \<and>
    q = length (entry_bytes es) - length rest \<and> q + (length k - sh) + length v = eoff es (Suc i) \<and>
    take (length k - sh) (drop q (block_bytes es rs)) = drop sh k \<and>
    take (length v) (drop (q + (length k - sh)) (block_bytes es rs)) = v"
proof -
  let ?data = "block_bytes es rs" and ?lim = "length (entry_bytes es)" and ?r = "entry_bytes (drop (Suc i) es)"
  have fit: "entry_fits (sh, k, v)" using layout_sizes(4) [OF lay] i e by (metis nth_mem)
  have data: "?data = entry_bytes es @ drop ?lim ?data" by (simp add: block_bytes_def)
  have d: "drop (eoff es i) (take ?lim ?data) = enc_entry (sh, k, v) @ ?r"
    using drop_eoff [OF i, of "[]"] e by (simp add: block_bytes_def)
  have "length (drop (eoff es i) (take ?lim ?data)) < 2 ^ 32" using layout_sizes(1) [OF lay] by simp
  then have dec: "DecodeEntry (enc_entry (sh, k, v) @ ?r) =
      Some (of_nat sh, of_nat (length k - sh), of_nat (length v), drop sh k @ v @ ?r)"
    unfolding d by (rule DecodeEntry_enc [OF fit])
  have es: "?lim = eoff es (Suc i) + length ?r"
    by (metis append_take_drop_id entry_bytes_simps(3) eoff_def length_append)
  define q where "q = ?lim - length (drop sh k @ v @ ?r)"
  have lk: "length (drop sh k @ v) \<le> length (enc_entry (sh, k, v))" by (simp add: enc_entry_def)
  then have q: "q + (length k - sh) + length v = eoff es (Suc i)"
    "q = (length (enc_entry (sh, k, v)) - length (drop sh k @ v)) + eoff es i"
    using es e by (simp_all add: q_def eoff_Suc [OF i])
  have "drop q ?data = drop (length (enc_entry (sh, k, v)) - length (drop sh k @ v)) (drop (eoff es i) ?data)"
    by (simp only: q(2) drop_drop)
  also have "\<dots> = drop sh k @ v @ drop (eoff es (Suc i)) ?data"
    by (subst (1) data, subst drop_eoff_Suc [OF i], simp only: e data [symmetric]) (simp add: enc_entry_def)
  finally have "drop q ?data = drop sh k @ v @ drop (eoff es (Suc i)) ?data" .
  moreover from this have "drop (q + (length k - sh)) ?data = v @ drop (eoff es (Suc i)) ?data"
    by (metis append_eq_conv_conj drop_drop length_drop add.commute)
  ultimately show ?thesis using dec q(1) unfolding d q_def by (intro exI conjI) auto
qed

lemma ParseNextKey_entry:
  assumes lay: "layout es rs" and p: "pending es rs cmp i it" and i: "i < length es"
  shows "\<exists>it'. ParseNextKey it = Inr (True, it') \<and> standing es rs cmp i it'"
proof -
  obtain sh k v where e: "es ! i = (sh, k, v)" by (metis prod_cases3)
  let ?data = "block_bytes es rs" and ?lim = "length (entry_bytes es)"
  have on: "iter_on es rs cmp it" and sh: "sh \<le> length (bi_key it)" "take sh (bi_key it) = take sh k"
    and ri: "unat (bi_restart_index it) < length rs" and off: "NextEntryOffset it = Inr (eoff es i)"
    using p i e by (auto simp: pending_def ekey_def NextEntryOffset_def)
  have fit: "sh \<le> length k" "length k + length v < 2 ^ 32"
    using layout_sizes(4) [OF lay] i e nth_mem by (fastforce simp: entry_fits_def)+
  have uo: "unat (of_nat (eoff es i) :: u32) = eoff es i" "unat (of_nat ?lim :: u32) = ?lim"
    using layout_sizes(6) [OF lay, of i] unat_of_nat_small [OF layout_sizes(1) [OF lay]] by simp_all
  have small: "unat (of_nat sh :: u32) = sh" "unat (of_nat (length k - sh) :: u32) = length k - sh"
    "unat (of_nat (length v) :: u32) = length v"
    by (rule unat_of_nat_small, use fit in simp)+
  have lt: "eoff es i < ?lim" "?lim \<le> length ?data"
    using eoff_step [OF layout_sizes(4) [OF lay] i] eoff_bound [of es "Suc i"] by (simp_all add: length_block_bytes)
  obtain rest q where dec: "DecodeEntry (drop (eoff es i) (take ?lim ?data)) =
      Some (of_nat sh, of_nat (length k - sh), of_nat (length v), rest)"
    and q: "q = ?lim - length rest" "q + (length k - sh) + length v = eoff es (Suc i)"
      "take (length k - sh) (drop q ?data) = drop sh k"
    using entry_decoded [OF lay i e] by blast
  define it1 where "it1 = it\<lparr>bi_current := of_nat (eoff es i), bi_key := k,
    bi_value := Some (q + (length k - sh), length v)\<rparr>"
  have on1: "iter_on es rs cmp it1" using on by (simp add: it1_def iter_on_def)
  have "unat (bi_restart_index it1) < length rs" using ri by (simp add: it1_def)
  moreover have "length rs - unat (bi_restart_index it1) < unat (bi_num_restarts it1) + 2"
    using on1 layout_sizes(7) [OF lay] by (simp add: iter_on_def)
  ultimately obtain j where j: "restart_loop (unat (bi_num_restarts it1) + 2) it1 = Inr (it1\<lparr>bi_restart_index := j\<rparr>)"
    "unat j < length rs" using restart_loop_on [OF lay on1] by blast
  have key: "take sh (bi_key it) @ take (length k - sh) (drop q ?data) = k" using sh(2) q(3) by simp
  have inside: "q + (length k - sh) \<le> length ?data" using q(2) eoff_bound [of es "Suc i"] lt(2) by linarith
  have it1: "it\<lparr>bi_current := of_nat (eoff es i), bi_key := take sh (bi_key it) @ take (length k - sh) (drop q ?data),
      bi_value := Some (q + (length k - sh), length v)\<rparr> = it1"
    by (simp only: it1_def key)
  have fields: "bi_restarts it = of_nat ?lim" "bi_data it = ?data" "bi_num_restarts it = bi_num_restarts it1"
    using on by (simp_all add: iter_on_def it1_def)
  have "ParseNextKey it = bind_res (restart_loop (unat (bi_num_restarts it1) + 2) it1) (\<lambda>it. Inr (True, it))"
    unfolding ParseNextKey_def off bind_res_Inr Let_def
    using lt dec sh(1) small inside it1
    by (simp add: fields(1,2) uo q(1) [symmetric] fields(3) [symmetric] del: restart_loop.simps of_nat_diff)
  then have "ParseNextKey it = Inr (True, it1\<lparr>bi_restart_index := j\<rparr>)" unfolding j(1) by simp
  moreover have "standing es rs cmp i (it1\<lparr>bi_restart_index := j\<rparr>)"
    using on1 i e j(2) q(2) by (auto simp: standing_def it1_def iter_on_def ekey_def evalue_def)
  ultimately show ?thesis by blast
qed

lemma ParseNextKey_end:
  assumes lay: "layout es rs" and p: "pending es rs cmp (length es) it"
  shows "\<exists>it'. ParseNextKey it = Inr (False, it') \<and> past es rs cmp it'"
proof -
  have on: "iter_on es rs cmp it" using p by (simp add: pending_def)
  have off: "NextEntryOffset it = Inr (length (entry_bytes es))" using p by (auto simp: pending_def NextEntryOffset_def)
  then show ?thesis using on by (simp add: ParseNextKey_def iter_on_def past_def Let_def)
qed

lemma standing_pending:
  assumes "layout es rs" and "standing es rs cmp i it"
  shows "pending es rs cmp (Suc i) it"
proof -
  have i: "i < length es" using assms(2) by (simp add: standing_def)
  have "length (evalue (es ! i)) \<le> eoff es (Suc i)"
    using i by (simp add: eoff_Suc enc_entry_def evalue_def split: prod.splits)
  then show ?thesis
    using assms(2) shares_nth [OF layout_sizes(5) [OF assms(1)], of i] by (auto simp: pending_def standing_def)
qed

subsection \<open>Moving along the entries\<close>

lemma past_Valid: "past es rs cmp it \<Longrightarrow> \<not> bi_Valid it"
  by (simp add: past_def bi_Valid_def)

lemma standing_current:
  assumes "layout es rs" and "standing es rs cmp i it"
  shows "unat (bi_current it) = eoff es i" "unat (bi_restarts it) = length (entry_bytes es)" "bi_Valid it"
    "NextEntryOffset it = Inr (eoff es (Suc i))" "bi_fuel it = length (block_bytes es rs) + 2"
proof -
  have i: "i < length es" and on: "iter_on es rs cmp it" using assms(2) by (simp_all add: standing_def)
  show c: "unat (bi_current it) = eoff es i" "unat (bi_restarts it) = length (entry_bytes es)"
    using assms(2) layout_sizes(6) [OF assms(1), of i] unat_of_nat_small [OF layout_sizes(1) [OF assms(1)]]
    by (simp_all add: standing_def iter_on_def)
  show "bi_Valid it"
    using c eoff_step [OF layout_sizes(4) [OF assms(1)] i] eoff_bound [of es "Suc i"]
    by (simp add: bi_Valid_def word_less_nat_alt)
  have "length (evalue (es ! i)) \<le> eoff es (Suc i)"
    using i by (simp add: eoff_Suc enc_entry_def evalue_def split: prod.splits)
  then show "NextEntryOffset it = Inr (eoff es (Suc i))"
    using assms(2) by (simp add: standing_def NextEntryOffset_def)
  show "bi_fuel it = length (block_bytes es rs) + 2" using on by (simp add: bi_fuel_def iter_on_def)
qed

lemma standing_read:
  assumes "layout es rs" and "standing es rs cmp i it"
  shows "bi_key_at it = Inr (ekey (es ! i))" "bi_value_at it = Inr (evalue (es ! i))"
proof -
  obtain sh k v where e: "es ! i = (sh, k, v)" by (metis prod_cases3)
  have i: "i < length es" using assms(2) by (simp add: standing_def)
  obtain q where q: "q + (length k - sh) + length v = eoff es (Suc i)"
    "take (length v) (drop (q + (length k - sh)) (block_bytes es rs)) = v"
    using entry_decoded [OF assms(1) i e] by blast
  have "eoff es (Suc i) \<le> length (block_bytes es rs)" using eoff_bound [of es "Suc i"] by (simp add: length_block_bytes)
  moreover have "eoff es (Suc i) - length v = q + (length k - sh)" using q(1) by linarith
  ultimately show "bi_key_at it = Inr (ekey (es ! i))" "bi_value_at it = Inr (evalue (es ! i))"
    using assms(2) standing_current(3) [OF assms] q e
    by (auto simp: bi_key_at_def bi_value_at_def standing_def iter_on_def evalue_def)
qed

lemma entries_small: "layout es rs \<Longrightarrow> length es \<le> length (entry_bytes es)"
proof -
  assume "layout es rs"
  then have "\<forall>e \<in> set es. entry_fits e" by (rule layout_sizes)
  then show ?thesis
  proof (induction es)
    case (Cons e es)
    then show ?case using length_enc_entry [of "fst e" "fst (snd e)" "snd (snd e)"] by simp
  qed simp
qed

lemma bi_Next_on:
  assumes "layout es rs" and "standing es rs cmp i it"
  shows "\<exists>it'. bi_Next it = Inr it' \<and> (if Suc i < length es then standing es rs cmp (Suc i) it' else past es rs cmp it')"
proof -
  have p: "pending es rs cmp (Suc i) it" and i: "Suc i \<le> length es"
    using standing_pending [OF assms] assms(2) by (simp_all add: standing_def Suc_le_eq)
  note v = standing_current(3) [OF assms]
  show ?thesis
  proof (cases "Suc i < length es")
    case True
    then show ?thesis using ParseNextKey_entry [OF assms(1) p True] v by (auto simp: bi_Next_def)
  next
    case False
    then have "Suc i = length es" using i by simp
    then show ?thesis using ParseNextKey_end [OF assms(1), of cmp it] p v False by (auto simp: bi_Next_def)
  qed
qed

lemma scan_loop_on:
  "layout es rs \<Longrightarrow> pending es rs cmp i it \<Longrightarrow> i < m \<Longrightarrow> m \<le> length es \<Longrightarrow> m - i < fuel \<Longrightarrow>
    \<exists>it'. scan_loop fuel (eoff es m) it = Inr it' \<and> standing es rs cmp (m - 1) it'"
proof (induction fuel arbitrary: i it)
  case (Suc fuel)
  obtain it1 where it1: "ParseNextKey it = Inr (True, it1)" "standing es rs cmp i it1"
    using ParseNextKey_entry [OF Suc.prems(1,2)] Suc.prems(3,4) by auto
  have c: "eoff es (Suc i) < eoff es m \<longleftrightarrow> Suc i < m"
    using Suc.prems(3,4) by (intro eoff_less_iff layout_sizes(4) [OF Suc.prems(1)]) auto
  show ?case
  proof (cases "Suc i < m")
    case True
    then have "\<exists>it'. scan_loop fuel (eoff es m) it1 = Inr it' \<and> standing es rs cmp (m - 1) it'"
      using Suc.prems(5) by (intro Suc.IH [OF Suc.prems(1) standing_pending [OF Suc.prems(1) it1(2)] True Suc.prems(4)]) linarith
    then show ?thesis using it1 True c standing_current(4) [OF Suc.prems(1) it1(2)] by simp
  next
    case False
    then have "m - 1 = i" using Suc.prems(3) by simp
    then show ?thesis using it1 False c standing_current(4) [OF Suc.prems(1) it1(2)] by simp
  qed
qed simp

lemma back_loop_on:
  assumes "layout es rs" and "i < length es"
  shows "iter_on es rs cmp it \<Longrightarrow> unat (bi_restart_index it) < length rs \<Longrightarrow> unat (bi_restart_index it) < fuel \<Longrightarrow>
    \<exists>found it'. back_loop fuel (of_nat (eoff es i)) it = Inr (found, it') \<and> iter_on es rs cmp it' \<and>
      (if found then unat (bi_restart_index it') < length rs \<and> rs ! unat (bi_restart_index it') < i
       else i = 0 \<and> past es rs cmp it')"
proof (induction fuel arbitrary: it)
  case (Suc fuel)
  let ?j = "bi_restart_index it"
  have r: "GetRestartPoint it ?j = Inr (of_nat (eoff es (rs ! unat ?j)))"
    by (rule GetRestartPoint_on [OF assms(1) Suc.prems(1,2)])
  have rj: "rs ! unat ?j \<le> length es" using restart_entry(1) [OF assms(1) Suc.prems(2)] .
  have cmp_off: "(of_nat (eoff es (rs ! unat ?j)) :: u32) \<ge> of_nat (eoff es i) \<longleftrightarrow> \<not> rs ! unat ?j < i"
    using eoff_less_iff [OF layout_sizes(4) [OF assms(1)] rj, of i] assms(2)
    by (simp only: word_le_nat_alt layout_sizes(6) [OF assms(1)] linorder_not_less [symmetric])
  show ?case
  proof (cases "rs ! unat ?j < i")
    case True
    then show ?thesis using r cmp_off Suc.prems(1,2) by (intro exI [of _ True] exI [of _ it]) simp
  next
    case False
    show ?thesis
    proof (cases "?j = 0")
      case True
      have "i = 0" using False True restart_first [OF assms(1)] by simp
      then show ?thesis using r cmp_off False True Suc.prems(1) by (auto simp: past_def iter_on_def)
    next
      case j0: False
      then have u: "unat (?j - 1) = unat ?j - 1" "0 < unat ?j" by (simp_all add: unat_minus_one unat_gt_0)
      have on: "iter_on es rs cmp (it\<lparr>bi_restart_index := ?j - 1\<rparr>)" using Suc.prems(1) by (simp add: iter_on_def)
      have "unat (?j - 1) < length rs" "unat (?j - 1) < fuel" using u Suc.prems(2,3) by linarith+
      then obtain found it' where "back_loop fuel (of_nat (eoff es i)) (it\<lparr>bi_restart_index := ?j - 1\<rparr>) = Inr (found, it')"
        "iter_on es rs cmp it'" "if found then unat (bi_restart_index it') < length rs \<and> rs ! unat (bi_restart_index it') < i
          else i = 0 \<and> past es rs cmp it'"
        using Suc.IH [OF on] by auto
      then show ?thesis using r cmp_off False j0 by auto
    qed
  qed
qed simp

lemma bi_Prev_on:
  assumes lay: "layout es rs" and it: "standing es rs cmp i it"
  shows "\<exists>it'. bi_Prev it = Inr it' \<and> (if 0 < i then standing es rs cmp (i - 1) it' else past es rs cmp it')"
proof -
  have i: "i < length es" and on: "iter_on es rs cmp it" and ri: "unat (bi_restart_index it) < length rs"
    and cur: "bi_current it = of_nat (eoff es i)" using it by (simp_all add: standing_def)
  have fuel: "bi_fuel it = length (block_bytes es rs) + 2" using standing_current(5) [OF lay it] .
  have "unat (bi_restart_index it) < bi_fuel it" using ri by (simp add: fuel length_block_bytes)
  from back_loop_on [OF lay i on ri this] obtain found it1 where
    b: "back_loop (bi_fuel it) (of_nat (eoff es i)) it = Inr (found, it1)" "iter_on es rs cmp it1"
      "if found then unat (bi_restart_index it1) < length rs \<and> rs ! unat (bi_restart_index it1) < i else i = 0 \<and> past es rs cmp it1"
    by blast
  show ?thesis
  proof (cases found)
    case True
    let ?r = "rs ! unat (bi_restart_index it1)"
    have r: "unat (bi_restart_index it1) < length rs" "?r < i" using b(3) True by simp_all
    obtain it2 where it2: "SeekToRestartPoint it1 (bi_restart_index it1) = Inr it2" "pending es rs cmp ?r it2"
      "bi_data it2 = bi_data it1"
      using SeekToRestartPoint_pending [OF lay b(2) r(1)] by blast
    have "i - ?r < bi_fuel it2"
      using i entries_small [OF lay] it2(3) b(2) by (simp add: bi_fuel_def iter_on_def length_block_bytes)
    then obtain it' where "scan_loop (bi_fuel it2) (eoff es i) it2 = Inr it'" "standing es rs cmp (i - 1) it'"
      using scan_loop_on [OF lay it2(2) r(2), of "bi_fuel it2"] i by auto
    then show ?thesis
      using b(1) True it2(1) r(2) standing_current(1,3) [OF lay it] cur layout_sizes(6) [OF lay, of i]
      by (auto simp: bi_Prev_def Let_def)
  next
    case False
    then show ?thesis using b standing_current(3) [OF lay it] cur by (auto simp: bi_Prev_def Let_def)
  qed
qed

lemma bi_SeekToFirst_on:
  assumes lay: "layout es rs" and on: "iter_on es rs cmp it"
  shows "\<exists>it'. bi_SeekToFirst it = Inr it' \<and> (if es \<noteq> [] then standing es rs cmp 0 it' else past es rs cmp it')"
proof -
  obtain it1 where it1: "SeekToRestartPoint it 0 = Inr it1" "pending es rs cmp 0 it1"
    using SeekToRestartPoint_pending [OF lay on, of 0] layout_sizes(3) [OF lay] restart_first [OF lay] by auto
  show ?thesis
  proof (cases "es = []")
    case True
    then show ?thesis using ParseNextKey_end [OF lay, of cmp it1] it1 by (auto simp: bi_SeekToFirst_def)
  next
    case False
    then show ?thesis using ParseNextKey_entry [OF lay it1(2)] it1(1) by (auto simp: bi_SeekToFirst_def)
  qed
qed

lemma bi_SeekToLast_on:
  assumes lay: "layout es rs" and on: "iter_on es rs cmp it"
  shows "\<exists>it'. bi_SeekToLast it = Inr it' \<and> (if es \<noteq> [] then standing es rs cmp (length es - 1) it' else past es rs cmp it')"
proof -
  have "bi_num_restarts it = of_nat (length rs)" using on by (simp add: iter_on_def)
  moreover have "unat (of_nat (length rs) - 1 :: u32) = length rs - 1"
    using layout_sizes(3,7) [OF lay] by (subst unat_minus_one) auto
  ultimately have j: "unat (bi_num_restarts it - 1) = length rs - 1" by simp
  have last: "length rs - 1 < length rs" using layout_sizes(3) [OF lay] by simp
  obtain it1 where it1: "SeekToRestartPoint it (bi_num_restarts it - 1) = Inr it1"
    "pending es rs cmp (rs ! (length rs - 1)) it1" "bi_data it1 = bi_data it"
    using SeekToRestartPoint_pending [OF lay on, of "bi_num_restarts it - 1"] j last by auto
  have lim: "unat (bi_restarts it1) = length (entry_bytes es)" and fuel: "bi_fuel it1 = length (block_bytes es rs) + 2"
    using it1(2) unat_of_nat_small [OF layout_sizes(1) [OF lay]] by (simp_all add: pending_def iter_on_def bi_fuel_def)
  show ?thesis
  proof (cases "es = []")
    case True
    then have "rs ! (length rs - 1) = length es" using restart_entry(4) [OF lay last] by simp
    then show ?thesis
      using ParseNextKey_end [OF lay, of cmp it1] it1 True lim fuel
      by (auto simp: bi_SeekToLast_def numeral_eq_Suc)
  next
    case False
    have r: "rs ! (length rs - 1) < length es" using restart_entry(3) [OF lay last False] .
    have "length es - rs ! (length rs - 1) < bi_fuel it1"
      using entries_small [OF lay] by (simp add: fuel length_block_bytes)
    from scan_loop_on [OF lay it1(2) r order_refl this] show ?thesis
      using it1(1) False lim by (auto simp: bi_SeekToLast_def)
  qed
qed

end
