(* ===== verification/Iterators.thy ===== *)
theory Iterators
  imports DB_Format Status
begin

section \<open>Iterators\<close>

text \<open>
  \<open>leveldb-mcpe/include/leveldb/iterator.h\<close>, \<open>table/iterator.cc\<close> and \<open>table/iterator_wrapper.h\<close>: the
  interface of an iterator as a record of operations over a state, the iterator that yields nothing, the
  cleanup functions, and the wrapper that caches \<open>Valid\<close> and \<open>key\<close>. What the header promises is the
  locale \<open>sorted_iterator\<close>; its clients see a cursor over a list.
\<close>

subsection \<open>The interface\<close>

record 's iterator =
  it_Valid :: "'s \<Rightarrow> bool"
  it_SeekToFirst :: "'s \<Rightarrow> 's res"
  it_SeekToLast :: "'s \<Rightarrow> 's res"
  it_Seek :: "slice \<Rightarrow> 's \<Rightarrow> 's res"
  it_Next :: "'s \<Rightarrow> 's res"
  it_Prev :: "'s \<Rightarrow> 's res"
  it_key :: "'s \<Rightarrow> slice res"
  it_value :: "'s \<Rightarrow> slice res"
  it_status :: "'s \<Rightarrow> Status res"

text \<open>The iterator over nothing; its state is the status it was made with.\<close>

definition EmptyIterator :: "Status iterator" where
  "EmptyIterator =
     \<lparr>it_Valid = \<lambda>s. False, it_SeekToFirst = Inr, it_SeekToLast = Inr, it_Seek = \<lambda>target. Inr,
      it_Next = \<lambda>s. Inl AssertFail, it_Prev = \<lambda>s. Inl AssertFail, it_key = \<lambda>s. Inl AssertFail,
      it_value = \<lambda>s. Inl AssertFail, it_status = Inr\<rparr>"

text \<open>
  The cleanup functions of an iterator, in the order of the linked list whose first node lies in the
  object; a function that is \<open>NULL\<close> fails the assertion. The destructor runs them in this order.
\<close>

type_synonym 'a cleanups = "('a option \<times> nat \<times> nat) list"

definition RegisterCleanup :: "'a option \<Rightarrow> nat \<Rightarrow> nat \<Rightarrow> 'a cleanups \<Rightarrow> 'a cleanups res" where
  "RegisterCleanup func arg1 arg2 cs =
     bind_res (guard_res (func \<noteq> None) AssertFail) (\<lambda>_.
       Inr (case cs of [] \<Rightarrow> [(func, arg1, arg2)] | c # rest \<Rightarrow> c # (func, arg1, arg2) # rest))"

fun cleanup_calls :: "'a cleanups \<Rightarrow> ('a \<times> nat \<times> nat) list res" where
  "cleanup_calls [] = Inr []"
| "cleanup_calls ((func, arg1, arg2) # cs) =
     bind_res (deref func) (\<lambda>f. bind_res (cleanup_calls cs) (\<lambda>calls. Inr ((f, arg1, arg2) # calls)))"

subsection \<open>The wrapper\<close>

record 's wrapper =
  w_iter :: "'s option"
  w_valid :: bool
  w_key :: "slice option"

definition new_wrapper :: "'s wrapper" where
  "new_wrapper = \<lparr>w_iter = None, w_valid = False, w_key = None\<rparr>"

definition w_Update :: "'s iterator \<Rightarrow> 's wrapper \<Rightarrow> 's wrapper res" where
  "w_Update ops w =
     bind_res (deref (w_iter w)) (\<lambda>s.
     let w = w\<lparr>w_valid := it_Valid ops s\<rparr> in
     if w_valid w then bind_res (it_key ops s) (\<lambda>k. Inr (w\<lparr>w_key := Some k\<rparr>)) else Inr w)"

text \<open>The iterator that was set before is deleted.\<close>

definition w_Set :: "'s iterator \<Rightarrow> 's option \<Rightarrow> 's wrapper \<Rightarrow> 's wrapper res" where
  "w_Set ops iter w =
     (let w = w\<lparr>w_iter := iter\<rparr> in
      if iter = None then Inr (w\<lparr>w_valid := False\<rparr>) else w_Update ops w)"

definition w_key_at :: "'s wrapper \<Rightarrow> slice res" where
  "w_key_at w = bind_res (guard_res (w_valid w) AssertFail) (\<lambda>_. initialised (w_key w))"

definition w_value :: "'s iterator \<Rightarrow> 's wrapper \<Rightarrow> slice res" where
  "w_value ops w =
     bind_res (guard_res (w_valid w) AssertFail) (\<lambda>_. bind_res (deref (w_iter w)) (it_value ops))"

text \<open>The movements assert that there is an iterator, move it and update the cache.\<close>

definition w_move :: "'s iterator \<Rightarrow> ('s \<Rightarrow> 's res) \<Rightarrow> 's wrapper \<Rightarrow> 's wrapper res" where
  "w_move ops f w =
     (case w_iter w of None \<Rightarrow> Inl AssertFail
      | Some s \<Rightarrow> bind_res (f s) (\<lambda>s. w_Update ops (w\<lparr>w_iter := Some s\<rparr>)))"

definition w_status :: "'s iterator \<Rightarrow> 's wrapper \<Rightarrow> Status res" where
  "w_status ops w = (case w_iter w of None \<Rightarrow> Inl AssertFail | Some s \<Rightarrow> it_status ops s)"

definition w_Next :: "'s iterator \<Rightarrow> 's wrapper \<Rightarrow> 's wrapper res" where
  "w_Next ops = w_move ops (it_Next ops)"

definition w_Prev :: "'s iterator \<Rightarrow> 's wrapper \<Rightarrow> 's wrapper res" where
  "w_Prev ops = w_move ops (it_Prev ops)"

definition w_Seek :: "'s iterator \<Rightarrow> slice \<Rightarrow> 's wrapper \<Rightarrow> 's wrapper res" where
  "w_Seek ops k = w_move ops (it_Seek ops k)"

definition w_SeekToFirst :: "'s iterator \<Rightarrow> 's wrapper \<Rightarrow> 's wrapper res" where
  "w_SeekToFirst ops = w_move ops (it_SeekToFirst ops)"

definition w_SeekToLast :: "'s iterator \<Rightarrow> 's wrapper \<Rightarrow> 's wrapper res" where
  "w_SeekToLast ops = w_move ops (it_SeekToLast ops)"

subsection \<open>What a client sees\<close>

datatype it_op = SeekToFirst | SeekToLast | Seek slice | Next | Prev

definition run_op :: "'s iterator \<Rightarrow> it_op \<Rightarrow> 's \<Rightarrow> 's res" where
  "run_op ops c = (case c of SeekToFirst \<Rightarrow> it_SeekToFirst ops | SeekToLast \<Rightarrow> it_SeekToLast ops
     | Seek t \<Rightarrow> it_Seek ops t | Next \<Rightarrow> it_Next ops | Prev \<Rightarrow> it_Prev ops)"

definition observe :: "'s iterator \<Rightarrow> 's \<Rightarrow> (slice \<times> slice) option res" where
  "observe ops s =
     (if it_Valid ops s then
        bind_res (it_key ops s) (\<lambda>k. bind_res (it_value ops s) (\<lambda>v. Inr (Some (k, v))))
      else Inr None)"

text \<open>The entry the iterator stands at after every movement.\<close>

fun run_ops :: "'s iterator \<Rightarrow> it_op list \<Rightarrow> 's \<Rightarrow> (slice \<times> slice) option list res" where
  "run_ops ops [] s = Inr []"
| "run_ops ops (c # cs) s =
     bind_res (run_op ops c s) (\<lambda>s. bind_res (observe ops s) (\<lambda>x. bind_res (run_ops ops cs s) (\<lambda>xs. Inr (x # xs))))"

text \<open>
  The specification: a position in a list of pairs, the length where the iterator is not valid. \<open>Next\<close>
  and \<open>Prev\<close> there fail their assertion.
\<close>

definition rank :: "(slice \<Rightarrow> slice \<Rightarrow> bool) \<Rightarrow> slice \<Rightarrow> (slice \<times> slice) list \<Rightarrow> nat" where
  "rank before target kvs = length (filter (\<lambda>(k, _). before k target) kvs)"

definition cursor_op :: "(slice \<Rightarrow> slice \<Rightarrow> bool) \<Rightarrow> (slice \<times> slice) list \<Rightarrow> it_op \<Rightarrow> nat \<Rightarrow> nat res" where
  "cursor_op before kvs c i = (case c of
     SeekToFirst \<Rightarrow> Inr 0
   | SeekToLast \<Rightarrow> Inr (length kvs - 1)
   | Seek t \<Rightarrow> Inr (rank before t kvs)
   | Next \<Rightarrow> if i < length kvs then Inr (Suc i) else Inl AssertFail
   | Prev \<Rightarrow> if i < length kvs then Inr (if i = 0 then length kvs else i - 1) else Inl AssertFail)"

fun run_cursor :: "(slice \<Rightarrow> slice \<Rightarrow> bool) \<Rightarrow> (slice \<times> slice) list \<Rightarrow> it_op list \<Rightarrow> nat \<Rightarrow>
    (slice \<times> slice) option list res" where
  "run_cursor before kvs [] i = Inr []"
| "run_cursor before kvs (c # cs) i =
     bind_res (cursor_op before kvs c i) (\<lambda>i. bind_res (run_cursor before kvs cs i) (\<lambda>xs.
       Inr ((if i < length kvs then Some (kvs ! i) else None) # xs)))"

definition targets :: "it_op list \<Rightarrow> slice set" where
  "targets cs = {t. Seek t \<in> set cs}"

subsection \<open>The contract\<close>

context key_order
begin

definition increasing :: "slice list \<Rightarrow> bool" where
  "increasing ks \<longleftrightarrow> (\<forall>k \<in> set ks. valid k) \<and> sorted_wrt before ks"

end

locale sorted_iterator = key_order cmp valid before
  for cmp :: comparator and valid :: "slice \<Rightarrow> bool" and before :: "slice \<Rightarrow> slice \<Rightarrow> bool" +
  fixes ops :: "'s iterator" and at :: "(slice \<times> slice) list \<Rightarrow> nat \<Rightarrow> 's \<Rightarrow> bool"
  assumes at_increasing: "at kvs i s \<Longrightarrow> increasing (map fst kvs) \<and> i \<le> length kvs"
    and at_Valid: "at kvs i s \<Longrightarrow> it_Valid ops s \<longleftrightarrow> i < length kvs"
    and at_key: "at kvs i s \<Longrightarrow> i < length kvs \<Longrightarrow> it_key ops s = Inr (fst (kvs ! i))"
    and at_value: "at kvs i s \<Longrightarrow> i < length kvs \<Longrightarrow> it_value ops s = Inr (snd (kvs ! i))"
    and at_status: "at kvs i s \<Longrightarrow> it_status ops s = Inr OK"
    and at_SeekToFirst: "at kvs i s \<Longrightarrow> \<exists>s'. it_SeekToFirst ops s = Inr s' \<and> at kvs 0 s'"
    and at_SeekToLast: "at kvs i s \<Longrightarrow> \<exists>s'. it_SeekToLast ops s = Inr s' \<and> at kvs (length kvs - 1) s'"
    and at_Seek: "at kvs i s \<Longrightarrow> valid t \<Longrightarrow> \<exists>s'. it_Seek ops t s = Inr s' \<and> at kvs (rank before t kvs) s'"
    and at_Next: "at kvs i s \<Longrightarrow> i < length kvs \<Longrightarrow> \<exists>s'. it_Next ops s = Inr s' \<and> at kvs (Suc i) s'"
    and at_Prev: "at kvs i s \<Longrightarrow> i < length kvs \<Longrightarrow>
      \<exists>s'. it_Prev ops s = Inr s' \<and> at kvs (if i = 0 then length kvs else i - 1) s'"
    and at_end: "at kvs i s \<Longrightarrow> i = length kvs \<Longrightarrow> it_Next ops s = Inl AssertFail \<and> it_Prev ops s = Inl AssertFail"
begin

text \<open>Whatever a client does, it sees the cursor.\<close>

lemma run_op_cursor:
  assumes "at kvs i s" and "\<And>t. c = Seek t \<Longrightarrow> valid t"
  shows "case cursor_op before kvs c i of Inl e \<Rightarrow> run_op ops c s = Inl e
    | Inr j \<Rightarrow> \<exists>s'. run_op ops c s = Inr s' \<and> at kvs j s'"
proof -
  have i: "i < length kvs \<or> i = length kvs" using at_increasing [OF assms(1)] by linarith
  show ?thesis
  proof (cases c)
    case (Seek t)
    then show ?thesis using at_Seek [OF assms(1), of t] assms(2) by (simp add: run_op_def cursor_op_def)
  next
    case Next
    then show ?thesis using at_Next [OF assms(1)] at_end [OF assms(1)] i by (auto simp: run_op_def cursor_op_def)
  next
    case Prev
    then show ?thesis using at_Prev [OF assms(1)] at_end [OF assms(1)] i by (auto simp: run_op_def cursor_op_def)
  qed (use at_SeekToFirst [OF assms(1)] at_SeekToLast [OF assms(1)] in \<open>simp_all add: run_op_def cursor_op_def\<close>)
qed

lemma observe_at: "at kvs i s \<Longrightarrow> observe ops s = Inr (if i < length kvs then Some (kvs ! i) else None)"
  by (auto simp: observe_def at_Valid at_key at_value)

lemma run_ops_cursor:
  "at kvs i s \<Longrightarrow> \<forall>t \<in> targets cs. valid t \<Longrightarrow> run_ops ops cs s = run_cursor before kvs cs i"
proof (induction cs arbitrary: i s)
  case (Cons c cs)
  have t: "c = Seek t \<Longrightarrow> valid t" for t using Cons.prems(2) by (auto simp: targets_def)
  have rest: "\<forall>t \<in> targets cs. valid t" using Cons.prems(2) by (auto simp: targets_def)
  have step: "case cursor_op before kvs c i of Inl e \<Rightarrow> run_op ops c s = Inl e
    | Inr j \<Rightarrow> \<exists>s'. run_op ops c s = Inr s' \<and> at kvs j s'"
    by (rule run_op_cursor [OF Cons.prems(1) t])
  show ?case
  proof (cases "cursor_op before kvs c i")
    case (Inl e)
    then show ?thesis using step by simp
  next
    case (Inr j)
    then obtain s' where "run_op ops c s = Inr s'" "at kvs j s'" using step by auto
    then show ?thesis using Inr Cons.IH [OF _ rest] by (simp add: observe_at)
  qed
qed simp

text \<open>The same for the wrapper.\<close>

definition w_at :: "(slice \<times> slice) list \<Rightarrow> nat \<Rightarrow> 's wrapper \<Rightarrow> bool" where
  "w_at kvs i w \<longleftrightarrow> (\<exists>s. w_iter w = Some s \<and> at kvs i s) \<and> w_valid w = (i < length kvs) \<and>
     (i < length kvs \<longrightarrow> w_key w = Some (fst (kvs ! i)))"

lemma w_Update_at: "at kvs i s \<Longrightarrow> w_iter w = Some s \<Longrightarrow> \<exists>w'. w_Update ops w = Inr w' \<and> w_at kvs i w'"
  by (auto simp: w_Update_def w_at_def Let_def at_Valid at_key)

lemma w_Set_at: "at kvs i s \<Longrightarrow> \<exists>w'. w_Set ops (Some s) w = Inr w' \<and> w_at kvs i w'"
  by (auto simp: w_Set_def Let_def intro!: w_Update_at)

lemma w_move_at:
  assumes "w_at kvs i w" and "\<And>s. at kvs i s \<Longrightarrow> \<exists>s'. f s = Inr s' \<and> at kvs j s'"
  shows "\<exists>w'. w_move ops f w = Inr w' \<and> w_at kvs j w'"
proof -
  obtain s where "w_iter w = Some s" "at kvs i s" using assms(1) by (auto simp: w_at_def)
  then obtain s' where s: "w_iter w = Some s" "f s = Inr s'" "at kvs j s'" using assms(2) by blast
  then show ?thesis using w_Update_at [OF s(3), of "w\<lparr>w_iter := Some s'\<rparr>"] by (simp add: w_move_def)
qed

lemma w_moves_at:
  assumes "w_at kvs i w"
  shows "\<exists>w'. w_SeekToFirst ops w = Inr w' \<and> w_at kvs 0 w'"
    and "\<exists>w'. w_SeekToLast ops w = Inr w' \<and> w_at kvs (length kvs - 1) w'"
    and "valid t \<Longrightarrow> \<exists>w'. w_Seek ops t w = Inr w' \<and> w_at kvs (rank before t kvs) w'"
    and "i < length kvs \<Longrightarrow> \<exists>w'. w_Next ops w = Inr w' \<and> w_at kvs (Suc i) w'"
    and "i < length kvs \<Longrightarrow> \<exists>w'. w_Prev ops w = Inr w' \<and> w_at kvs (if i = 0 then length kvs else i - 1) w'"
  unfolding w_SeekToFirst_def w_SeekToLast_def w_Seek_def w_Next_def w_Prev_def
  using w_move_at [OF assms] at_SeekToFirst at_SeekToLast at_Seek at_Next at_Prev by blast+

lemma w_read_at:
  assumes "w_at kvs i w"
  shows "w_valid w \<longleftrightarrow> i < length kvs" and "i < length kvs \<Longrightarrow> w_key_at w = Inr (fst (kvs ! i))"
    and "i < length kvs \<Longrightarrow> w_value ops w = Inr (snd (kvs ! i))" and "w_status ops w = Inr OK"
    and "increasing (map fst kvs)" and "i \<le> length kvs"
  using assms by (auto simp: w_at_def w_key_at_def w_value_def w_status_def at_value at_status dest: at_increasing)

end

end
