(* ===== verification/Block_Roundtrip.thy ===== *)
theory Block_Roundtrip
  imports Block_Correct Iterators
begin

section \<open>Building a block and reading it back\<close>

text \<open>
  The builder makes a block of the layout of \<open>Block_Correct\<close> from keys in increasing order; the iterator
  over it visits the pairs in both directions, and \<open>Seek\<close> finds the first key at or after a target, for
  every comparator that meets its contract.
\<close>

subsection \<open>The builder\<close>

fun add_all :: "BlockBuilder \<Rightarrow> (slice \<times> slice) list \<Rightarrow> BlockBuilder res" where
  "add_all b [] = Inr b"
| "add_all b ((k, v) # kvs) = bind_res (Block_Add b k v) (\<lambda>b. add_all b kvs)"

definition pairs :: "entry list \<Rightarrow> (slice \<times> slice) list" where
  "pairs es = map (\<lambda>e. (ekey e, evalue e)) es"

lemma ekey_triple: "ekey (sh, k, v) = k" "evalue (sh, k, v) = v"
  by (simp_all add: ekey_def evalue_def)

definition last_of :: "entry list \<Rightarrow> slice" where
  "last_of es = (if es = [] then [] else ekey (last es))"

definition building :: "comparator \<Rightarrow> BlockBuilder \<Rightarrow> entry list \<Rightarrow> nat list \<Rightarrow> bool" where
  "building cmp b es rs \<longleftrightarrow> bb_comparator b = cmp \<and> \<not> bb_finished b \<and> bb_buffer b = entry_bytes es \<and>
     bb_restarts b = map (\<lambda>r. of_nat (eoff es r)) rs \<and> bb_last_key b = last_of es \<and>
     0 \<le> bb_counter b \<and> bb_counter b \<le> bb_interval b \<and> 1 \<le> bb_interval b \<and> bb_interval b < 2 ^ 31 \<and>
     (es = [] \<longrightarrow> bb_counter b = 0) \<and> (\<forall>e \<in> set es. entry_fits e) \<and> shares [] es \<and> restarts_ok es rs"

lemma building_new:
  assumes "1 \<le> n" and "n < 2 ^ 31"
  shows "\<exists>b. new_BlockBuilder n cmp = Inr b \<and> building cmp b [] [0]"
  using assms by (simp add: new_BlockBuilder_def building_def last_of_def restarts_ok_def)

lemma common_prefix_take: "take (common_prefix a b) a = take (common_prefix a b) b"
  "common_prefix a b \<le> length a" "common_prefix a b \<le> length b"
  by (induction a b rule: common_prefix.induct) auto

lemma shares_append: "shares prev (es @ [(sh, k, v)]) \<longleftrightarrow>
    shares prev es \<and> sh \<le> length (if es = [] then prev else ekey (last es)) \<and>
      take sh (if es = [] then prev else ekey (last es)) = take sh k"
  by (induction prev es rule: shares.induct) (auto simp: ekey_def)

lemma eoff_append: "r \<le> length es \<Longrightarrow> eoff (es @ es') r = eoff es r"
  by (simp add: eoff_def)

lemma restarts_ok_append:
  assumes "restarts_ok es rs" and "es = [] \<longrightarrow> fst e = 0"
  shows "restarts_ok (es @ [e]) rs" and "es \<noteq> [] \<Longrightarrow> fst e = 0 \<Longrightarrow> restarts_ok (es @ [e]) (rs @ [length es])"
proof -
  have all: "\<forall>r \<in> set rs. r < length (es @ [e]) \<and> fst ((es @ [e]) ! r) = 0"
    using assms unfolding restarts_ok_def by (force simp: nth_append)
  then show "restarts_ok (es @ [e]) rs" using assms(1) by (auto simp: restarts_ok_def)
  show "restarts_ok (es @ [e]) (rs @ [length es])" if "es \<noteq> []" "fst e = 0"
  proof -
    have "sorted_wrt (<) (rs @ [length es])" "hd (rs @ [length es]) = 0"
      using assms(1) that(1) by (auto simp: restarts_ok_def sorted_wrt_append)
    moreover have "fst ((es @ [e]) ! length es) = 0" using that(2) by simp
    ultimately show ?thesis using all unfolding restarts_ok_def by auto
  qed
qed

lemma enc_entry_put:
  "PutVarint32 (PutVarint32 (PutVarint32 buf (of_nat sh)) (of_nat (length k - sh))) (of_nat (length v)) @
    drop sh k @ v = buf @ enc_entry (sh, k, v)"
  unfolding PutVarint32_def enc_entry_def by (simp only: case_prod_conv append_assoc)

lemma enc_entry_nonempty: "enc_entry e \<noteq> []"
proof
  assume "enc_entry e = []"
  then have "EncodeVarint32 (of_nat (fst e)) = []" by (simp add: enc_entry_def split: prod.splits)
  then show False using length_varint_pos [of "of_nat (fst e)"] by simp
qed

lemma building_append:
  assumes b: "building cmp b es rs" and fits: "length k + length v < 2 ^ 32"
    and sh: "sh \<le> length (last_of es)" "sh \<le> length k" "take sh (last_of es) = take sh k"
    and rs: "restarts_ok (es @ [(sh, k, v)]) rs'" and c: "0 \<le> c" "c \<le> bb_interval b"
  shows "building cmp (b\<lparr>bb_buffer := bb_buffer b @ enc_entry (sh, k, v),
      bb_restarts := map (\<lambda>r. of_nat (eoff (es @ [(sh, k, v)]) r)) rs', bb_counter := c, bb_last_key := k\<rparr>)
    (es @ [(sh, k, v)]) rs'"
proof -
  have "shares [] (es @ [(sh, k, v)])" using b sh by (auto simp: shares_append building_def last_of_def)
  moreover have "entry_fits (sh, k, v)" using sh(2) fits by (simp add: entry_fits_def)
  ultimately show ?thesis using b rs c by (auto simp: building_def last_of_def ekey_def)
qed

lemma restart_offsets:
  assumes "restarts_ok es rs"
  shows "map (\<lambda>r. of_nat (eoff (es @ es') r)) rs = (map (\<lambda>r. of_nat (eoff es r)) rs :: u32 list)"
  using assms by (auto simp: restarts_ok_def eoff_append)

lemma Block_Add_building:
  assumes b: "building cmp b es rs" and fits: "length k + length v < 2 ^ 32"
    and after: "es \<noteq> [] \<Longrightarrow> \<exists>r > 0. Compare cmp k (last_of es) = Inr r"
  shows "\<exists>b' sh rs'. Block_Add b k v = Inr b' \<and> building cmp b' (es @ [(sh, k, v)]) rs' \<and>
    bb_interval b' = bb_interval b"
proof -
  have empty: "block_empty b \<longleftrightarrow> es = []"
    using b enc_entry_nonempty by (cases es) (auto simp: block_empty_def building_def)
  have counter: "0 \<le> bb_counter b" "bb_counter b \<le> bb_interval b" "1 \<le> bb_interval b" "bb_interval b < 2 ^ 31"
    using b by (simp_all add: building_def)
  have asserted: "(if block_empty b then Inr True
      else bind_res (Compare (bb_comparator b) k (bb_last_key b)) (\<lambda>r. Inr (r > 0))) = Inr True"
    using after b by (auto simp: empty building_def)
  show ?thesis
  proof (cases "bb_counter b < bb_interval b")
    case True
    let ?sh = "common_prefix (last_of es) k"
    have sh: "?sh \<le> length (last_of es)" "?sh \<le> length k" "take ?sh (last_of es) = take ?sh k"
      using common_prefix_take [of "last_of es" k] by simp_all
    have "to_int32 (bb_counter b + 1) = Inr (bb_counter b + 1)" using True counter by (simp add: to_int32_def int32_ok_def)
    then have add: "Block_Add b k v = Inr (b\<lparr>bb_buffer := bb_buffer b @ enc_entry (?sh, k, v), bb_last_key := k,
        bb_counter := bb_counter b + 1\<rparr>)"
      unfolding Block_Add_def asserted
      using True b sh by (simp add: building_def Let_def enc_entry_put [symmetric])
    have "restarts_ok (es @ [(?sh, k, v)]) rs"
      using b by (intro restarts_ok_append) (auto simp: building_def last_of_def)
    from building_append [OF b fits sh this, of "bb_counter b + 1"]
    have "building cmp (b\<lparr>bb_buffer := bb_buffer b @ enc_entry (?sh, k, v), bb_last_key := k,
        bb_counter := bb_counter b + 1\<rparr>) (es @ [(?sh, k, v)]) rs"
      using True counter b by (simp add: restart_offsets building_def)
    then show ?thesis using add by fastforce
  next
    case False
    let ?rs = "rs @ [length es]" and ?buf = "bb_buffer b"
    have ne: "es \<noteq> []" using False b by (auto simp: building_def)
    have add: "Block_Add b k v = Inr (b\<lparr>bb_restarts := bb_restarts b @ [of_nat (length ?buf)],
        bb_buffer := ?buf @ enc_entry (0, k, v), bb_last_key := k, bb_counter := 1\<rparr>)"
      unfolding Block_Add_def asserted
      using False b enc_entry_put [of ?buf 0 k v] by (simp add: building_def Let_def to_int32_def int32_ok_def)
    have "restarts_ok (es @ [(0, k, v)]) ?rs"
      using b ne by (intro restarts_ok_append) (auto simp: building_def)
    from building_append [OF b fits _ _ _ this, of 1]
    have "building cmp (b\<lparr>bb_restarts := bb_restarts b @ [of_nat (length ?buf)],
        bb_buffer := ?buf @ enc_entry (0, k, v), bb_last_key := k, bb_counter := 1\<rparr>) (es @ [(0, k, v)]) ?rs"
      using counter b by (simp add: restart_offsets building_def eoff_append)
    then show ?thesis using add by fastforce
  qed
qed

lemma PutFixed32_all: "foldl PutFixed32 buf ws = buf @ concat (map EncodeFixed32 ws)"
  by (induction ws arbitrary: buf) (simp_all add: PutFixed32_def)

text \<open>What \<open>Finish\<close> returns, of the size the estimate announces.\<close>

lemma Block_Finish_bytes:
  assumes "building cmp b es rs"
  shows "fst (Block_Finish b) = block_bytes es rs" and "CurrentSizeEstimate b = length (block_bytes es rs)"
  using assms
  by (simp_all add: Block_Finish_def Let_def PutFixed32_all PutFixed32_def block_bytes_def building_def comp_def
      CurrentSizeEstimate_def)

subsection \<open>Seek\<close>

lemma empty_restarts: "layout [] rs \<Longrightarrow> length rs = 1"
  by (cases rs; cases "tl rs") (auto simp: layout_def restarts_ok_def)

lemma ekey_pairs: "map fst (pairs es) = map ekey es"
  by (simp add: pairs_def)

context key_order
begin

lemma add_all_building:
  assumes "building cmp b es rs" and "increasing (map ekey es @ map fst kvs)"
    and "\<forall>(k, v) \<in> set kvs. length k + length v < 2 ^ 32"
  shows "\<exists>b' es' rs'. add_all b kvs = Inr b' \<and> building cmp b' es' rs' \<and> pairs es' = pairs es @ kvs"
  using assms
proof (induction kvs arbitrary: b es rs)
  case (Cons kv kvs)
  obtain k v where kv: "kv = (k, v)" by (cases kv)
  have "\<exists>r > 0. Compare cmp k (last_of es) = Inr r" if "es \<noteq> []"
  proof -
    have "last_of es \<in> set (map ekey es)" using that by (simp add: last_of_def)
    then have "valid k" "valid (last_of es)" "before (last_of es) k"
      using Cons.prems(2) kv by (auto simp: increasing_def sorted_wrt_append)
    then show ?thesis using compare_before [of k "last_of es"] by blast
  qed
  moreover have "length k + length v < 2 ^ 32" using Cons.prems(3) kv by simp
  ultimately obtain b' sh rs' where b': "Block_Add b k v = Inr b'" "building cmp b' (es @ [(sh, k, v)]) rs'"
    using Block_Add_building [OF Cons.prems(1), of k v] by blast
  have "increasing (map ekey (es @ [(sh, k, v)]) @ map fst kvs)" using Cons.prems(2) kv by (simp add: ekey_triple)
  with Cons.IH [OF b'(2)] Cons.prems(3) kv obtain b'' es' rs'' where
    "add_all b' kvs = Inr b''" "building cmp b'' es' rs''" "pairs es' = pairs (es @ [(sh, k, v)]) @ kvs"
    by auto
  then show ?case using b'(1) kv by (auto simp: pairs_def ekey_def evalue_def)
qed auto

lemma compare_less_0:
  assumes "valid a" and "valid b" and "Compare cmp a b = Inr r"
  shows "r < 0 \<longleftrightarrow> before a b"
  using compare_before [OF assms(1,2)] assms(3) by auto

lemma search_loop_on:
  assumes lay: "layout es rs" and ok: "increasing (map ekey es)" and target: "valid target"
    and on: "iter_on es rs cmp it"
  shows "unat left \<le> unat right \<Longrightarrow> unat right < length rs \<Longrightarrow> unat right - unat left < fuel \<Longrightarrow>
    left = 0 \<or> before (ekey (es ! (rs ! unat left))) target \<Longrightarrow>
    \<exists>j. search_loop fuel it target left right = Inr (Some j) \<and> unat j < length rs \<and>
      (j = 0 \<or> before (ekey (es ! (rs ! unat j))) target)"
proof (induction fuel arbitrary: left right)
  case (Suc fuel)
  show ?case
  proof (cases "left < right")
    case False
    then have "left = right" using Suc.prems(1) by (simp add: word_less_nat_alt word_unat_eq_iff)
    then show ?thesis using Suc.prems by auto
  next
    case True
    define mid where "mid = (left + right + 1) div 2"
    have "unat left + unat right + 1 < 2 ^ 32"
      using Suc.prems(1,2) layout_sizes(2) [OF lay] by simp
    then have um: "unat mid = (unat left + unat right + 1) div 2"
      by (simp add: mid_def unat_div unat_word_ariths)
    have m: "unat left < unat mid" "unat mid \<le> unat right" "unat mid < length rs"
      using True Suc.prems(2) unfolding um word_less_nat_alt by linarith+
    then have um1: "unat (mid - 1) = unat mid - 1" by (intro unat_minus_one) auto
    have "es \<noteq> []" using empty_restarts [of rs] lay m by auto
    let ?i = "rs ! unat mid"
    have i: "?i < length es" using restart_entry(3) [OF lay m(3) \<open>es \<noteq> []\<close>] .
    then obtain k v where e: "es ! ?i = (0, k, v)"
      using restart_entry(2) [OF lay m(3)] by (metis prod_cases3 fst_conv)
    have k: "valid k" "k = ekey (es ! ?i)" using ok nth_mem [OF i] e by (auto simp: increasing_def ekey_triple dest!: bspec)
    obtain rest q where dec: "DecodeEntry (drop (eoff es ?i) (take (length (entry_bytes es)) (block_bytes es rs))) =
        Some (0, of_nat (length k), of_nat (length v), rest)"
      and q: "q = length (entry_bytes es) - length rest" "q + length k + length v = eoff es (Suc ?i)"
        "take (length k) (drop q (block_bytes es rs)) = k"
      using entry_decoded [OF lay i e] by auto
    have "entry_fits (0, k, v)" using layout_sizes(4) [OF lay] i e by (metis nth_mem)
    then have uk: "unat (of_nat (length k) :: u32) = length k"
      by (intro unat_of_nat_small) (simp add: entry_fits_def)
    have lim: "unat (of_nat (length (entry_bytes es)) :: u32) = length (entry_bytes es)"
      using layout_sizes(1) [OF lay] by (rule unat_of_nat_small)
    have fields: "bi_comparator it = cmp" "bi_data it = block_bytes es rs"
      "bi_restarts it = of_nat (length (entry_bytes es))"
      using on by (simp_all add: iter_on_def)
    have inside: "q + length k \<le> length (block_bytes es rs)" "length (entry_bytes es) \<le> length (block_bytes es rs)"
      using q(2) eoff_bound [of es "Suc ?i"] by (simp_all add: length_block_bytes)
    obtain r where r: "Compare cmp k target = Inr r" using compare_before [OF k(1) target] by blast
    note less = compare_less_0 [OF k(1) target r]
    have step: "search_loop (Suc fuel) it target left right =
        (if r < 0 then search_loop fuel it target mid right else search_loop fuel it target left (mid - 1))"
      unfolding search_loop.simps mid_def [symmetric] Let_def if_P [OF True] GetRestartPoint_on [OF lay on m(3)]
        bind_res_Inr fields lim layout_sizes(6) [OF lay] dec option.case prod.case q(1) [symmetric] uk q(3) r
      by (simp only: inside guard_res_simps bind_res_Inr simp_thms if_False)
    show ?thesis
    proof (cases "r < 0")
      case True
      then show ?thesis using Suc.IH [of mid right] Suc.prems m less k(2) unfolding step by simp
    next
      case False
      then show ?thesis using Suc.IH [of left "mid - 1"] Suc.prems m um1 unfolding step by simp
    qed
  qed
qed simp

lemma linear_loop_on:
  assumes lay: "layout es rs" and ok: "increasing (map ekey es)" and target: "valid target"
  shows "pending es rs cmp i it \<Longrightarrow> length es - i < fuel \<Longrightarrow>
    \<exists>it' j. linear_loop fuel target it = Inr it' \<and> i \<le> j \<and> j \<le> length es \<and>
      (\<forall>l. i \<le> l \<and> l < j \<longrightarrow> before (ekey (es ! l)) target) \<and>
      (if j < length es then standing es rs cmp j it' \<and> \<not> before (ekey (es ! j)) target else past es rs cmp it')"
proof (induction fuel arbitrary: i it)
  case (Suc fuel)
  show ?case
  proof (cases "i < length es")
    case False
    then have i: "i = length es" using Suc.prems(1) by (simp add: pending_def)
    then show ?thesis using ParseNextKey_end [OF lay, of cmp it] Suc.prems(1) by force
  next
    case True
    obtain it1 where it1: "ParseNextKey it = Inr (True, it1)" "standing es rs cmp i it1"
      using ParseNextKey_entry [OF lay Suc.prems(1) True] by blast
    have k: "valid (ekey (es ! i))" using ok True by (auto simp: increasing_def)
    obtain r where r: "Compare cmp (ekey (es ! i)) target = Inr r" using compare_before [OF k target] by blast
    note less = compare_less_0 [OF k target r]
    have step: "linear_loop (Suc fuel) target it = (if r \<ge> 0 then Inr it1 else linear_loop fuel target it1)"
      using it1 r by (simp add: standing_def iter_on_def)
    show ?thesis
    proof (cases "r \<ge> 0")
      case True
      then show ?thesis unfolding step using it1(2) less \<open>i < length es\<close> by (intro exI [of _ it1] exI [of _ i]) auto
    next
      case False
      have "length es - Suc i < fuel" using Suc.prems(2) True by linarith
      from Suc.IH [OF standing_pending [OF lay it1(2)] this] obtain it' j where
        "linear_loop fuel target it1 = Inr it'" "Suc i \<le> j" "j \<le> length es"
        "\<forall>l. Suc i \<le> l \<and> l < j \<longrightarrow> before (ekey (es ! l)) target"
        "if j < length es then standing es rs cmp j it' \<and> \<not> before (ekey (es ! j)) target else past es rs cmp it'"
        by blast
      moreover from this(4) False less have "\<forall>l. i \<le> l \<and> l < j \<longrightarrow> before (ekey (es ! l)) target"
        by (metis Suc_leI le_neq_implies_less not_le)
      ultimately show ?thesis unfolding step using False by (intro exI [of _ it'] exI [of _ j]) auto
    qed
  qed
qed simp

lemma first_not_before:
  assumes ok: "increasing (map ekey es)" and target: "valid target" and j: "j \<le> length es"
    and below: "\<forall>l < j. before (ekey (es ! l)) target" and at: "j < length es \<Longrightarrow> \<not> before (ekey (es ! j)) target"
  shows "pairs (drop j es) = filter (\<lambda>(k, _). \<not> before k target) (pairs es)"
proof -
  have "before (ekey e) target" if e: "e \<in> set (take j es)" for e
  proof -
    obtain l where "l < j" "e = es ! l" using e j by (auto simp: in_set_conv_nth)
    then show ?thesis using below by simp
  qed
  then have "filter (\<lambda>(k, _). \<not> before k target) (pairs (take j es)) = []"
    by (auto simp: pairs_def filter_empty_conv)
  moreover have "\<not> before (ekey e) target" if e: "e \<in> set (drop j es)" for e
  proof
    assume b: "before (ekey e) target"
    obtain i where i: "i < length es - j" "e = es ! (j + i)" using e by (auto simp: in_set_conv_nth)
    then have "valid (ekey (es ! j))" "valid (ekey e)" using ok by (auto simp: increasing_def)
    moreover have "before (ekey (es ! j)) (ekey e)" if "0 < i"
    proof -
      have "sorted_wrt before (map ekey es)" using ok by (simp add: increasing_def)
      from sorted_wrt_nth_less [OF this, of j "j + i"] show ?thesis using i that by simp
    qed
    ultimately have "before (ekey (es ! j)) target"
      using b i before_trans [OF _ _ target, of "ekey (es ! j)" "ekey e"] by (cases "i = 0") simp_all
    then show False using at i by simp
  qed
  then have "filter (\<lambda>(k, _). \<not> before k target) (pairs (drop j es)) = pairs (drop j es)"
    by (auto simp: pairs_def filter_id_conv)
  moreover have "pairs es = pairs (take j es) @ pairs (drop j es)" by (simp add: pairs_def flip: map_append)
  ultimately show ?thesis by simp
qed

lemma bi_Seek_on:
  assumes lay: "layout es rs" and ok: "increasing (map ekey es)" and target: "valid target"
    and on: "iter_on es rs cmp it"
  shows "\<exists>it' j. bi_Seek it target = Inr it' \<and> j \<le> length es \<and>
    pairs (drop j es) = filter (\<lambda>(k, _). \<not> before k target) (pairs es) \<and>
    (if j < length es then standing es rs cmp j it' else past es rs cmp it')"
proof -
  have num: "unat (bi_num_restarts it - 1) = length rs - 1"
    using on layout_sizes(3,7) [OF lay] by (subst unat_minus_one) (auto simp: iter_on_def)
  have "length rs - 1 < bi_fuel it" using on by (simp add: bi_fuel_def iter_on_def length_block_bytes)
  then obtain left where left: "search_loop (bi_fuel it) it target 0 (bi_num_restarts it - 1) = Inr (Some left)"
    "unat left < length rs" "left = 0 \<or> before (ekey (es ! (rs ! unat left))) target"
    using search_loop_on [OF lay ok target on, of 0 "bi_num_restarts it - 1" "bi_fuel it"] layout_sizes(3) [OF lay]
    by (auto simp: num)
  let ?i = "rs ! unat left"
  obtain it1 where it1: "SeekToRestartPoint it left = Inr it1" "pending es rs cmp ?i it1" "bi_data it1 = bi_data it"
    using SeekToRestartPoint_pending [OF lay on left(2)] by blast
  have "length es - ?i < bi_fuel it1"
    using entries_small [OF lay] it1(3) on by (simp add: bi_fuel_def iter_on_def length_block_bytes)
  from linear_loop_on [OF lay ok target it1(2) this] obtain it' j where it': "linear_loop (bi_fuel it1) target it1 = Inr it'"
    "?i \<le> j" "j \<le> length es" "\<forall>l. ?i \<le> l \<and> l < j \<longrightarrow> before (ekey (es ! l)) target"
    "if j < length es then standing es rs cmp j it' \<and> \<not> before (ekey (es ! j)) target else past es rs cmp it'"
    by blast
  have "before (ekey (es ! l)) target" if l: "l < j" for l
  proof (cases "?i \<le> l")
    case False
    then have "left \<noteq> 0" using restart_first [OF lay] by auto
    then have "before (ekey (es ! ?i)) target" using left(3) by simp
    moreover have len: "l < length es" using l it'(3) by simp
    moreover have "?i < length es" using len restart_entry(3) [OF lay left(2)] by fastforce
    moreover from len this have "valid (ekey (es ! l))" "valid (ekey (es ! ?i))" using ok by (auto simp: increasing_def)
    moreover have "before (ekey (es ! l)) (ekey (es ! ?i))"
      using ok False \<open>?i < length es\<close> by (auto simp: increasing_def sorted_wrt_iff_nth_less)
    ultimately show ?thesis using target before_trans by blast
  qed (use it'(4) l in blast)
  then have "pairs (drop j es) = filter (\<lambda>(k, _). \<not> before k target) (pairs es)"
    using it'(5) by (intro first_not_before [OF ok target it'(3)]) auto
  moreover have "bi_Seek it target = Inr it'" using left(1) it1(1) it'(1) by (simp add: bi_Seek_def)
  ultimately show ?thesis using it'(3,5) by (auto split: if_splits)
qed

end

subsection \<open>Opening and walking\<close>

definition build_block :: "int \<Rightarrow> comparator \<Rightarrow> (slice \<times> slice) list \<Rightarrow> slice res" where
  "build_block interval cmp kvs =
     bind_res (new_BlockBuilder interval cmp) (\<lambda>b.
     bind_res (add_all b kvs) (\<lambda>b. Inr (fst (Block_Finish b))))"

definition open_block :: "slice \<Rightarrow> comparator \<Rightarrow> AnyIter res" where
  "open_block contents cmp = bind_res (new_Block contents) (\<lambda>b. Block_NewIterator b cmp)"

text \<open>What a client reads that steps through the block while the iterator is valid.\<close>

fun bi_walk :: "(BlockIter \<Rightarrow> BlockIter res) \<Rightarrow> nat \<Rightarrow> BlockIter \<Rightarrow> (slice \<times> slice) list res" where
  "bi_walk step 0 it = Inl OutOfFuel"
| "bi_walk step (Suc fuel) it =
     (if bi_Valid it then
        bind_res (bi_key_at it) (\<lambda>k. bind_res (bi_value_at it) (\<lambda>v.
        bind_res (step it) (\<lambda>it. bind_res (bi_walk step fuel it) (\<lambda>kvs. Inr ((k, v) # kvs)))))
      else Inr [])"

lemma open_block_on:
  assumes lay: "layout es rs"
  shows "\<exists>it. open_block (block_bytes es rs) cmp = Inr (EntryIter it) \<and> iter_on es rs cmp it \<and>
    bi_current it = bi_restarts it"
proof -
  let ?d = "block_bytes es rs" and ?n = "of_nat (length rs) :: u32"
  have len: "length ?d = length (entry_bytes es) + 4 * length rs + 4" "4 \<le> length ?d"
    by (simp_all add: length_block_bytes)
  have "drop (length ?d - 4) ?d = EncodeFixed32 ?n"
    by (simp add: block_bytes_def)
  then have num: "NumRestarts \<lparr>b_data = ?d, b_size = length ?d, b_restart_offset = off\<rparr> = Inr ?n" for off
    using len DecodeFixed32_Encode [of ?n "[]"] by (simp add: NumRestarts_def)
  have n: "unat ?n = length rs" "?n \<noteq> 0"
    using layout_sizes(3,7) [OF lay] by (auto simp: word_unat_eq_iff simp del: unat_of_nat)
  have "of_nat (length ?d) - (1 + ?n) * 4 = (of_nat (length (entry_bytes es)) :: u32)"
    by (simp add: len(1) algebra_simps)
  then show ?thesis
    using len n num
    by (simp add: open_block_def new_Block_def Let_def Block_NewIterator_def new_BlockIter_def iter_on_def
        word_neq_0_conv [symmetric])
qed

lemma walk_forward:
  assumes "layout es rs"
  shows "(if i < length es then standing es rs cmp i it else past es rs cmp it) \<Longrightarrow> length es - i < fuel \<Longrightarrow>
    bi_walk bi_Next fuel it = Inr (pairs (drop i es))"
proof (induction fuel arbitrary: i it)
  case (Suc fuel)
  show ?case
  proof (cases "i < length es")
    case False
    then show ?thesis using Suc.prems past_Valid by (simp add: pairs_def)
  next
    case True
    then have st: "standing es rs cmp i it" using Suc.prems(1) by simp
    obtain it' where it': "bi_Next it = Inr it'"
      "if Suc i < length es then standing es rs cmp (Suc i) it' else past es rs cmp it'"
      using bi_Next_on [OF assms st] by blast
    have "length es - Suc i < fuel" using Suc.prems(2) True by linarith
    then show ?thesis
      using Suc.IH [OF it'(2)] it'(1) standing_current(3) [OF assms st] standing_read [OF assms st] True
      by (simp add: pairs_def Cons_nth_drop_Suc [symmetric])
  qed
qed simp

lemma walk_backward:
  assumes "layout es rs"
  shows "i \<le> length es \<Longrightarrow> (if 0 < i then standing es rs cmp (i - 1) it else past es rs cmp it) \<Longrightarrow> i < fuel \<Longrightarrow>
    bi_walk bi_Prev fuel it = Inr (rev (pairs (take i es)))"
proof (induction fuel arbitrary: i it)
  case (Suc fuel)
  show ?case
  proof (cases i)
    case 0
    then show ?thesis using Suc.prems past_Valid by (simp add: pairs_def)
  next
    case (Suc m)
    then have st: "standing es rs cmp m it" using Suc.prems(2) by simp
    obtain it' where it': "bi_Prev it = Inr it'" "if 0 < m then standing es rs cmp (m - 1) it' else past es rs cmp it'"
      using bi_Prev_on [OF assms st] by blast
    have "bi_walk bi_Prev fuel it' = Inr (rev (pairs (take m es)))"
      using Suc Suc.prems(1,3) by (intro Suc.IH it'(2)) simp_all
    then show ?thesis
      using it'(1) standing_current(3) [OF assms st] standing_read [OF assms st] Suc Suc.prems(1)
      by (simp add: pairs_def take_Suc_conv_app_nth)
  qed
qed simp

context key_order
begin

lemma build_block_layout:
  assumes "1 \<le> interval" and "interval < 2 ^ 31" and "increasing (map fst kvs)"
    and "\<forall>(k, v) \<in> set kvs. length k + length v < 2 ^ 32"
  shows "\<exists>contents. build_block interval cmp kvs = Inr contents \<and>
    (length contents < 2 ^ 32 \<longrightarrow> (\<exists>es rs it. layout es rs \<and> pairs es = kvs \<and> increasing (map ekey es) \<and>
      open_block contents cmp = Inr (EntryIter it) \<and> iter_on es rs cmp it \<and> bi_current it = bi_restarts it))"
proof -
  obtain b where b: "new_BlockBuilder interval cmp = Inr b" "building cmp b [] [0]"
    using building_new [OF assms(1,2)] by blast
  have "increasing (map ekey [] @ map fst kvs)" using assms(3) by simp
  from add_all_building [OF b(2) this assms(4)] obtain b' es rs where
    b': "add_all b kvs = Inr b'" "building cmp b' es rs" "pairs es = kvs" by (auto simp: pairs_def)
  have f: "fst (Block_Finish b') = block_bytes es rs" by (rule Block_Finish_bytes [OF b'(2)])
  have "layout es rs" if "length (block_bytes es rs) < 2 ^ 32"
    using b'(2) that by (simp add: building_def layout_def)
  moreover have "increasing (map ekey es)" using assms(3) b'(3) ekey_pairs by metis
  moreover have "build_block interval cmp kvs = Inr (block_bytes es rs)"
    using b(1) b'(1) f by (simp add: build_block_def)
  ultimately show ?thesis using b'(3) open_block_on by (metis (no_types, lifting))
qed

lemma block_reads:
  assumes "layout es rs" and "iter_on es rs cmp it"
  shows "bind_res (bi_SeekToFirst it) (bi_walk bi_Next (Suc (length es))) = Inr (pairs es)"
    and "bind_res (bi_SeekToLast it) (bi_walk bi_Prev (Suc (length es))) = Inr (rev (pairs es))"
    and "increasing (map ekey es) \<Longrightarrow> valid target \<Longrightarrow>
      bind_res (bi_Seek it target) (bi_walk bi_Next (Suc (length es))) =
        Inr (filter (\<lambda>(k, _). \<not> before k target) (pairs es))"
proof -
  obtain it' where "bi_SeekToFirst it = Inr it'" "if es \<noteq> [] then standing es rs cmp 0 it' else past es rs cmp it'"
    using bi_SeekToFirst_on [OF assms] by blast
  then show "bind_res (bi_SeekToFirst it) (bi_walk bi_Next (Suc (length es))) = Inr (pairs es)"
    using walk_forward [OF assms(1), of 0 cmp it' "Suc (length es)"] by simp
  obtain it' where "bi_SeekToLast it = Inr it'"
    "if es \<noteq> [] then standing es rs cmp (length es - 1) it' else past es rs cmp it'"
    using bi_SeekToLast_on [OF assms] by blast
  then show "bind_res (bi_SeekToLast it) (bi_walk bi_Prev (Suc (length es))) = Inr (rev (pairs es))"
    using walk_backward [OF assms(1), of "length es" cmp it' "Suc (length es)"] by simp
  assume "increasing (map ekey es)" "valid target"
  then obtain it' j where it': "bi_Seek it target = Inr it'" "j \<le> length es"
    "pairs (drop j es) = filter (\<lambda>(k, _). \<not> before k target) (pairs es)"
    "if j < length es then standing es rs cmp j it' else past es rs cmp it'"
    using bi_Seek_on [OF assms(1) _ _ assms(2)] by blast
  then show "bind_res (bi_Seek it target) (bi_walk bi_Next (Suc (length es))) =
      Inr (filter (\<lambda>(k, _). \<not> before k target) (pairs es))"
    using walk_forward [OF assms(1) it'(4), of "Suc (length es)"] by simp
qed

end

subsection \<open>Properties\<close>

text \<open>
  C12: a block of less than \<open>2^32\<close> bytes built from pairs with strictly increasing keys reads back: the
  builder accepts the pairs without a failing assertion, the block opens, and a client that walks it from
  \<open>SeekToFirst\<close> with \<open>Next\<close> reads the pairs in order, from \<open>SeekToLast\<close> with \<open>Prev\<close> in reverse,
  and from \<open>Seek\<close> exactly the pairs whose keys are at or after the target, whatever the restart interval.
\<close>

theorem block_roundtrip:
  assumes "1 \<le> interval" and "interval < 2 ^ 31" and "sorted_wrt (<) (map fst kvs)"
    and "\<forall>(k, v) \<in> set kvs. length k + length v < 2 ^ 32"
  shows "\<exists>contents. build_block interval BytewiseComparator kvs = Inr contents \<and>
    (length contents < 2 ^ 32 \<longrightarrow>
      (\<exists>it. open_block contents BytewiseComparator = Inr (EntryIter it) \<and>
        bind_res (bi_SeekToFirst it) (bi_walk bi_Next (Suc (length kvs))) = Inr kvs \<and>
        bind_res (bi_SeekToLast it) (bi_walk bi_Prev (Suc (length kvs))) = Inr (rev kvs) \<and>
        (\<forall>target. bind_res (bi_Seek it target) (bi_walk bi_Next (Suc (length kvs))) =
          Inr (filter (\<lambda>(k, _). target \<le> k) kvs))))"
proof -
  have "bytewise.increasing (map fst kvs)" using assms(3) by (simp add: bytewise.increasing_def)
  from bytewise.build_block_layout [OF assms(1,2) this assms(4)] obtain contents where
    c: "build_block interval BytewiseComparator kvs = Inr contents"
    "length contents < 2 ^ 32 \<Longrightarrow> \<exists>es rs it. layout es rs \<and> pairs es = kvs \<and> bytewise.increasing (map ekey es) \<and>
      open_block contents BytewiseComparator = Inr (EntryIter it) \<and> iter_on es rs BytewiseComparator it" by blast
  have "length es = length kvs" if "pairs es = kvs" for es using that by (auto simp: pairs_def)
  then show ?thesis using c bytewise.block_reads by (fastforce simp: not_less)
qed

theorem block_roundtrip_witness:
  "\<exists>contents. build_block 2 BytewiseComparator [([1], [7]), ([1, 2], []), ([3], [9, 9])] = Inr contents"
  using block_roundtrip [of 2 "[([1], [7]), ([1, 2], []), ([3], [9, 9])]"] by auto

definition wrapping_block :: slice where
  "wrapping_block = [0, 0xff, 0xff, 0xff, 0xff, 0x0f, 1, 0, 0, 0, 0, 1, 0, 0, 0]"

lemma wrapping_entry: "DecodeEntry (take 7 wrapping_block) = Some (0, 0xffffffff, 1, [])"
  by code_simp

lemma open_wrapping_block:
  "open_block wrapping_block BytewiseComparator = Inr (EntryIter
     \<lparr>bi_comparator = BytewiseComparator, bi_data = wrapping_block, bi_restarts = 7, bi_num_restarts = 1,
       bi_current = 7, bi_restart_index = 1, bi_key = [], bi_value = None, bi_status = OK\<rparr>)"
  by (simp add: open_block_def new_Block_def NumRestarts_def Block_NewIterator_def new_BlockIter_def Let_def
      wrapping_block_def DecodeFixed32_def)

text \<open>
  the check of an entry against the limit adds two lengths in 32 bits: an entry that announces
  \<open>2^32 - 1\<close> bytes of key and one of value passes with no byte left, and \<open>SeekToFirst\<close> on a block with
  that entry reads behind the contents, where the comment on \<open>DecodeEntry\<close> excludes it.
\<close>

theorem entry_length_wraps:
  "DecodeEntry (take 7 wrapping_block) = Some (0, 0xffffffff, 1, []) \<and>
   (case open_block wrapping_block BytewiseComparator of
      Inr (EntryIter it) \<Rightarrow> bi_SeekToFirst it = Inl Undefined | _ \<Rightarrow> False)"
proof -
  have "length wrapping_block = 15" "DecodeFixed32 (drop 7 wrapping_block) = Inr 0"
    by (simp_all add: wrapping_block_def DecodeFixed32_def)
  then show ?thesis
    by (simp add: wrapping_entry open_wrapping_block bi_SeekToFirst_def SeekToRestartPoint_def GetRestartPoint_def
        ParseNextKey_def NextEntryOffset_def Let_def)
qed

end
