(* ===== verification/Merger.thy ===== *)
theory Merger
  imports Iterators
begin

section \<open>Merging iterators\<close>

text \<open>
  \<open>leveldb-mcpe/table/merger.cc\<close>: one iterator over the entries of several children, which are wrapped.
  \<open>current_\<close> points to a child, so it is the index of one; \<open>n_\<close> is the number of children.
\<close>

datatype direction = kForward | kReverse

record 's MergingIterator =
  mi_comparator :: comparator
  mi_children :: "'s wrapper list"
  mi_current :: "nat option"
  mi_direction :: direction

fun set_children :: "'s iterator \<Rightarrow> 's list \<Rightarrow> 's wrapper list res" where
  "set_children ops [] = Inr []"
| "set_children ops (c # cs) =
     bind_res (w_Set ops (Some c) new_wrapper) (\<lambda>w. bind_res (set_children ops cs) (\<lambda>ws. Inr (w # ws)))"

definition new_MergingIterator :: "'s iterator \<Rightarrow> comparator \<Rightarrow> 's list \<Rightarrow> 's MergingIterator res" where
  "new_MergingIterator ops cmp children =
     bind_res (set_children ops children) (\<lambda>ws.
       Inr \<lparr>mi_comparator = cmp, mi_children = ws, mi_current = None, mi_direction = kForward\<rparr>)"

definition mi_Valid :: "'s MergingIterator \<Rightarrow> bool" where
  "mi_Valid m \<longleftrightarrow> mi_current m \<noteq> None"

definition mi_current_child :: "'s MergingIterator \<Rightarrow> 's wrapper res" where
  "mi_current_child m = bind_res (deref (mi_current m)) (\<lambda>c. vec_at (mi_children m) (int c))"

definition mi_key :: "'s MergingIterator \<Rightarrow> slice res" where
  "mi_key m = bind_res (guard_res (mi_Valid m) AssertFail) (\<lambda>_. bind_res (mi_current_child m) w_key_at)"

definition mi_value :: "'s iterator \<Rightarrow> 's MergingIterator \<Rightarrow> slice res" where
  "mi_value ops m = bind_res (guard_res (mi_Valid m) AssertFail) (\<lambda>_. bind_res (mi_current_child m) (w_value ops))"

text \<open>The first status that is not \<open>ok\<close>, or the last one.\<close>

fun first_status :: "'s iterator \<Rightarrow> Status \<Rightarrow> 's wrapper list \<Rightarrow> Status res" where
  "first_status ops status [] = Inr status"
| "first_status ops status (w # ws) =
     bind_res (w_status ops w) (\<lambda>status. if \<not> ok status then Inr status else first_status ops status ws)"

definition mi_status :: "'s iterator \<Rightarrow> 's MergingIterator \<Rightarrow> Status res" where
  "mi_status ops m = first_status ops OK (mi_children m)"

text \<open>The loops of \<open>FindSmallest\<close> and \<open>FindLargest\<close>, over the indices they visit.\<close>

fun smallest_loop :: "comparator \<Rightarrow> 's wrapper list \<Rightarrow> nat list \<Rightarrow> nat option \<Rightarrow> nat option res" where
  "smallest_loop cmp ws [] smallest = Inr smallest"
| "smallest_loop cmp ws (i # is) smallest =
     (if w_valid (ws ! i) then
        case smallest of
          None \<Rightarrow> smallest_loop cmp ws is (Some i)
        | Some j \<Rightarrow>
            bind_res (w_key_at (ws ! i)) (\<lambda>k. bind_res (w_key_at (ws ! j)) (\<lambda>k'.
            bind_res (Compare cmp k k') (\<lambda>r.
              smallest_loop cmp ws is (if r < 0 then Some i else smallest))))
      else smallest_loop cmp ws is smallest)"

definition FindSmallest :: "'s MergingIterator \<Rightarrow> 's MergingIterator res" where
  "FindSmallest m =
     bind_res (smallest_loop (mi_comparator m) (mi_children m) [0..<length (mi_children m)] None) (\<lambda>smallest.
       Inr (m\<lparr>mi_current := smallest\<rparr>))"

fun largest_loop :: "comparator \<Rightarrow> 's wrapper list \<Rightarrow> nat list \<Rightarrow> nat option \<Rightarrow> nat option res" where
  "largest_loop cmp ws [] largest = Inr largest"
| "largest_loop cmp ws (i # is) largest =
     (if w_valid (ws ! i) then
        case largest of
          None \<Rightarrow> largest_loop cmp ws is (Some i)
        | Some j \<Rightarrow>
            bind_res (w_key_at (ws ! i)) (\<lambda>k. bind_res (w_key_at (ws ! j)) (\<lambda>k'.
            bind_res (Compare cmp k k') (\<lambda>r.
              largest_loop cmp ws is (if r > 0 then Some i else largest))))
      else largest_loop cmp ws is largest)"

definition FindLargest :: "'s MergingIterator \<Rightarrow> 's MergingIterator res" where
  "FindLargest m =
     bind_res (largest_loop (mi_comparator m) (mi_children m) (rev [0..<length (mi_children m)]) None) (\<lambda>largest.
       Inr (m\<lparr>mi_current := largest\<rparr>))"

text \<open>A loop that moves the children; the iterator \<open>f\<close> sees is the one after the moves before.\<close>

fun each_child :: "('s MergingIterator \<Rightarrow> nat \<Rightarrow> 's wrapper \<Rightarrow> 's wrapper res) \<Rightarrow> nat list \<Rightarrow>
    's MergingIterator \<Rightarrow> 's MergingIterator res" where
  "each_child f [] m = Inr m"
| "each_child f (i # is) m =
     bind_res (f m i (mi_children m ! i)) (\<lambda>w. each_child f is (m\<lparr>mi_children := (mi_children m)[i := w]\<rparr>))"

definition mi_SeekToFirst :: "'s iterator \<Rightarrow> 's MergingIterator \<Rightarrow> 's MergingIterator res" where
  "mi_SeekToFirst ops m =
     bind_res (each_child (\<lambda>_ _. w_SeekToFirst ops) [0..<length (mi_children m)] m) (\<lambda>m.
     bind_res (FindSmallest m) (\<lambda>m. Inr (m\<lparr>mi_direction := kForward\<rparr>)))"

definition mi_SeekToLast :: "'s iterator \<Rightarrow> 's MergingIterator \<Rightarrow> 's MergingIterator res" where
  "mi_SeekToLast ops m =
     bind_res (each_child (\<lambda>_ _. w_SeekToLast ops) [0..<length (mi_children m)] m) (\<lambda>m.
     bind_res (FindLargest m) (\<lambda>m. Inr (m\<lparr>mi_direction := kReverse\<rparr>)))"

definition mi_Seek :: "'s iterator \<Rightarrow> slice \<Rightarrow> 's MergingIterator \<Rightarrow> 's MergingIterator res" where
  "mi_Seek ops target m =
     bind_res (each_child (\<lambda>_ _. w_Seek ops target) [0..<length (mi_children m)] m) (\<lambda>m.
     bind_res (FindSmallest m) (\<lambda>m. Inr (m\<lparr>mi_direction := kForward\<rparr>)))"

text \<open>The bodies of the loops that turn the direction, and the move of the current child.\<close>

definition turn_forward :: "'s iterator \<Rightarrow> 's MergingIterator \<Rightarrow> nat \<Rightarrow> 's wrapper \<Rightarrow> 's wrapper res" where
  "turn_forward ops m i w =
     (if mi_current m \<noteq> Some i then
        bind_res (mi_key m) (\<lambda>k.
        bind_res (w_Seek ops k w) (\<lambda>w.
        if w_valid w then
          bind_res (mi_key m) (\<lambda>k. bind_res (w_key_at w) (\<lambda>k'.
          bind_res (Compare (mi_comparator m) k k') (\<lambda>r.
            if r = 0 then w_Next ops w else Inr w)))
        else Inr w))
      else Inr w)"

definition turn_reverse :: "'s iterator \<Rightarrow> 's MergingIterator \<Rightarrow> nat \<Rightarrow> 's wrapper \<Rightarrow> 's wrapper res" where
  "turn_reverse ops m i w =
     (if mi_current m \<noteq> Some i then
        bind_res (mi_key m) (\<lambda>k.
        bind_res (w_Seek ops k w) (\<lambda>w.
        if w_valid w then w_Prev ops w else w_SeekToLast ops w))
      else Inr w)"

definition move_current :: "('s wrapper \<Rightarrow> 's wrapper res) \<Rightarrow> 's MergingIterator \<Rightarrow> 's MergingIterator res" where
  "move_current f m =
     bind_res (deref (mi_current m)) (\<lambda>c.
     bind_res (vec_at (mi_children m) (int c)) (\<lambda>w.
     bind_res (f w) (\<lambda>w. Inr (m\<lparr>mi_children := (mi_children m)[c := w]\<rparr>))))"

definition mi_Next :: "'s iterator \<Rightarrow> 's MergingIterator \<Rightarrow> 's MergingIterator res" where
  "mi_Next ops m =
     bind_res (guard_res (mi_Valid m) AssertFail) (\<lambda>_.
     bind_res (if mi_direction m \<noteq> kForward then
         bind_res (each_child (turn_forward ops) [0..<length (mi_children m)] m) (\<lambda>m.
           Inr (m\<lparr>mi_direction := kForward\<rparr>))
       else Inr m) (\<lambda>m.
     bind_res (move_current (w_Next ops) m) FindSmallest))"

definition mi_Prev :: "'s iterator \<Rightarrow> 's MergingIterator \<Rightarrow> 's MergingIterator res" where
  "mi_Prev ops m =
     bind_res (guard_res (mi_Valid m) AssertFail) (\<lambda>_.
     bind_res (if mi_direction m \<noteq> kReverse then
         bind_res (each_child (turn_reverse ops) [0..<length (mi_children m)] m) (\<lambda>m.
           Inr (m\<lparr>mi_direction := kReverse\<rparr>))
       else Inr m) (\<lambda>m.
     bind_res (move_current (w_Prev ops) m) FindLargest))"

text \<open>\<open>NewMergingIterator\<close>: nothing, the only child, or a merging iterator; and the interface.\<close>

datatype 's Merged = NoChild | OneChild 's | Children "'s MergingIterator"

definition NewMergingIterator :: "'s iterator \<Rightarrow> comparator \<Rightarrow> 's list \<Rightarrow> 's Merged res" where
  "NewMergingIterator ops cmp children =
     (case children of
        [] \<Rightarrow> Inr NoChild
      | [c] \<Rightarrow> Inr (OneChild c)
      | _ \<Rightarrow> bind_res (new_MergingIterator ops cmp children) (\<lambda>m. Inr (Children m)))"

definition merged_move :: "(Status \<Rightarrow> Status res) \<Rightarrow> ('s \<Rightarrow> 's res) \<Rightarrow>
    ('s MergingIterator \<Rightarrow> 's MergingIterator res) \<Rightarrow> 's Merged \<Rightarrow> 's Merged res" where
  "merged_move f g h x = (case x of
     NoChild \<Rightarrow> bind_res (f OK) (\<lambda>_. Inr NoChild)
   | OneChild s \<Rightarrow> bind_res (g s) (\<lambda>s. Inr (OneChild s))
   | Children m \<Rightarrow> bind_res (h m) (\<lambda>m. Inr (Children m)))"

definition merged_read :: "(Status \<Rightarrow> 'r) \<Rightarrow> ('s \<Rightarrow> 'r) \<Rightarrow> ('s MergingIterator \<Rightarrow> 'r) \<Rightarrow> 's Merged \<Rightarrow> 'r" where
  "merged_read f g h x = (case x of NoChild \<Rightarrow> f OK | OneChild s \<Rightarrow> g s | Children m \<Rightarrow> h m)"

definition merging_iterator :: "'s iterator \<Rightarrow> 's Merged iterator" where
  "merging_iterator ops =
     \<lparr>it_Valid = merged_read (it_Valid EmptyIterator) (it_Valid ops) mi_Valid,
      it_SeekToFirst = merged_move (it_SeekToFirst EmptyIterator) (it_SeekToFirst ops) (mi_SeekToFirst ops),
      it_SeekToLast = merged_move (it_SeekToLast EmptyIterator) (it_SeekToLast ops) (mi_SeekToLast ops),
      it_Seek = \<lambda>t. merged_move (it_Seek EmptyIterator t) (it_Seek ops t) (mi_Seek ops t),
      it_Next = merged_move (it_Next EmptyIterator) (it_Next ops) (mi_Next ops),
      it_Prev = merged_move (it_Prev EmptyIterator) (it_Prev ops) (mi_Prev ops),
      it_key = merged_read (it_key EmptyIterator) (it_key ops) mi_key,
      it_value = merged_read (it_value EmptyIterator) (it_value ops) (mi_value ops),
      it_status = merged_read (it_status EmptyIterator) (it_status ops) (mi_status ops)\<rparr>"

end
