(* ===== verification/Merger_Correct.thy ===== *)
theory Merger_Correct
  imports Merger
begin

section \<open>Correctness of merging\<close>

text \<open>
  Over children that meet the interface and share no key, the merging iterator meets it over the
  merged list: whatever the movements, with turns of the direction at any place.
\<close>

subsection \<open>Counting keys\<close>

definition count_keys :: "(slice \<Rightarrow> bool) \<Rightarrow> (slice \<times> slice) list \<Rightarrow> nat" where
  "count_keys p kvs = length (filter (\<lambda>(k, _). p k) kvs)"

lemma rank_count: "rank before t kvs = count_keys (\<lambda>k. before k t) kvs"
  by (simp add: rank_def count_keys_def)

lemma count_keys_le: "count_keys p kvs \<le> length kvs"
  by (simp add: count_keys_def)

lemma count_keys_trivial [simp]: "count_keys (\<lambda>_. False) kvs = 0" "count_keys (\<lambda>_. True) kvs = length kvs"
  by (simp_all add: count_keys_def case_prod_unfold)

lemma count_keys_cong: "(\<And>k. k \<in> fst ` set kvs \<Longrightarrow> p k = q k) \<Longrightarrow> count_keys p kvs = count_keys q kvs"
  unfolding count_keys_def by (rule arg_cong [of _ _ length], rule filter_cong) force+

lemma key_nth: "k \<in> fst ` set kvs \<Longrightarrow> \<exists>j < length kvs. fst (kvs ! j) = k"
  by (metis image_iff in_set_conv_nth)

lemma count_keys_eqI:
  assumes "n \<le> length kvs" and "\<And>i. i < length kvs \<Longrightarrow> p (fst (kvs ! i)) \<longleftrightarrow> i < n"
  shows "count_keys p kvs = n"
proof -
  have "p (fst x)" if x: "x \<in> set (take n kvs)" for x
  proof -
    obtain i where "i < n" "i < length kvs" "x = kvs ! i" using x by (auto simp: in_set_conv_nth)
    then show ?thesis using assms(2) by simp
  qed
  then have "filter (\<lambda>(k, _). p k) (take n kvs) = take n kvs" by (simp add: filter_id_conv case_prod_unfold)
  moreover have "\<not> p (fst x)" if x: "x \<in> set (drop n kvs)" for x
  proof -
    obtain i where "i < length kvs - n" "x = kvs ! (n + i)" using x assms(1) by (auto simp: in_set_conv_nth)
    then show ?thesis using assms(2) [of "n + i"] by simp
  qed
  then have "filter (\<lambda>(k, _). p k) (drop n kvs) = []" by (simp add: filter_empty_conv case_prod_unfold)
  moreover have "kvs = take n kvs @ drop n kvs" by simp
  ultimately have "filter (\<lambda>(k, _). p k) kvs = take n kvs" by (metis append_Nil2 filter_append)
  then show ?thesis using assms(1) by (simp add: count_keys_def)
qed

context key_order
begin

definition downward :: "(slice \<Rightarrow> bool) \<Rightarrow> bool" where
  "downward p \<longleftrightarrow> (\<forall>a b. valid a \<and> valid b \<and> before a b \<and> p b \<longrightarrow> p a)"

lemma increasing_nth:
  assumes "increasing (map fst kvs)"
  shows "i < length kvs \<Longrightarrow> valid (fst (kvs ! i))"
    and "i < j \<Longrightarrow> j < length kvs \<Longrightarrow> before (fst (kvs ! i)) (fst (kvs ! j))"
proof -
  show "valid (fst (kvs ! i))" if "i < length kvs" using assms that by (simp add: increasing_def)
  have "sorted_wrt before (map fst kvs)" using assms by (simp add: increasing_def)
  from sorted_wrt_nth_less [OF this, of i j]
  show "before (fst (kvs ! i)) (fst (kvs ! j))" if "i < j" "j < length kvs" using that by simp
qed

lemma increasing_before_iff:
  assumes "increasing (map fst kvs)" and "i < length kvs" and "j < length kvs"
  shows "before (fst (kvs ! i)) (fst (kvs ! j)) \<longleftrightarrow> i < j"
  using increasing_nth [OF assms(1)] assms(2,3) before_asym before_irrefl by (metis linorder_neqE_nat)

lemma increasing_inj: "increasing (map fst kvs) \<Longrightarrow> i < length kvs \<Longrightarrow> j < length kvs \<Longrightarrow>
    fst (kvs ! i) = fst (kvs ! j) \<Longrightarrow> i = j"
  by (metis increasing_nth before_irrefl linorder_neqE_nat)

lemma increasing_unique:
  assumes "set kvs = set kvs'" and "increasing (map fst kvs)" and "increasing (map fst kvs')"
  shows "kvs = kvs'"
  using assms
proof (induction kvs arbitrary: kvs')
  case (Cons kv kvs)
  then obtain kv' rest where k: "kvs' = kv' # rest" by (cases kvs') auto
  have kv: "kv = kv'"
  proof (rule ccontr)
    assume "kv \<noteq> kv'"
    then have "kv \<in> set rest" "kv' \<in> set kvs" using Cons.prems(1) by (auto simp: k)
    then have "before (fst kv') (fst kv)" "before (fst kv) (fst kv')" "valid (fst kv)" "valid (fst kv')"
      using Cons.prems(2,3) by (auto simp: increasing_def k)
    then show False using before_asym by blast
  qed
  have "kv \<notin> set kvs" "kv' \<notin> set rest"
    using Cons.prems(2,3) before_irrefl by (auto simp: increasing_def k)
  then have "set kvs = set rest" using Cons.prems(1) kv by (auto simp: k)
  then show ?case using Cons.IH [of rest] Cons.prems(2,3) kv by (simp add: increasing_def k)
qed simp

lemma increasing_tail: "increasing (map fst (kv # kvs)) \<Longrightarrow> increasing (map fst kvs)"
  by (simp add: increasing_def)

lemma count_keys_nth:
  assumes "increasing (map fst kvs)" and "downward p" and "i < length kvs"
  shows "p (fst (kvs ! i)) \<longleftrightarrow> i < count_keys p kvs"
  using assms(1,3)
proof (induction kvs arbitrary: i)
  case (Cons kv kvs)
  have inc: "increasing (map fst kvs)" using Cons.prems(1) by (simp add: increasing_def)
  note nth = increasing_nth [OF Cons.prems(1)]
  show ?case
  proof (cases "p (fst kv)")
    case True
    then have "count_keys p (kv # kvs) = Suc (count_keys p kvs)" by (simp add: count_keys_def case_prod_unfold)
    then show ?thesis using Cons.IH [OF inc] Cons.prems(2) True by (cases i) auto
  next
    case False
    have "\<not> p k" if k: "k \<in> fst ` set kvs" for k
    proof -
      obtain j where j: "j < length kvs" "fst (kvs ! j) = k" using key_nth [OF k] by blast
      then have "before (fst kv) k" "valid (fst kv)" "valid k" using nth(2) [of 0 "Suc j"] nth(1) [of 0] nth(1) [of "Suc j"] by auto
      then show ?thesis using False assms(2) unfolding downward_def by blast
    qed
    moreover from this have "count_keys p kvs = 0" using count_keys_cong [of kvs p "\<lambda>_. False"] by simp
    ultimately show ?thesis
      using False Cons.prems(2) by (cases i) (auto simp: count_keys_def case_prod_unfold)
  qed
qed simp

lemma downward_before: "valid t \<Longrightarrow> downward (\<lambda>k. before k t)"
  unfolding downward_def using before_trans by blast

lemma downward_upto: "valid t \<Longrightarrow> downward (\<lambda>k. \<not> before t k)"
  unfolding downward_def using before_trans by blast

lemma rank_nth:
  assumes "increasing (map fst kvs)" and "j < length kvs"
  shows "rank before (fst (kvs ! j)) kvs = j"
  unfolding rank_count using assms increasing_before_iff by (intro count_keys_eqI) auto

lemma count_keys_upto:
  assumes "increasing (map fst kvs)" and "valid t"
  shows "count_keys (\<lambda>k. \<not> before t k) kvs = rank before t kvs + (if t \<in> fst ` set kvs then 1 else 0)"
proof (cases "t \<in> fst ` set kvs")
  case True
  then obtain j where j: "j < length kvs" "fst (kvs ! j) = t" using key_nth [OF True] by blast
  have "count_keys (\<lambda>k. \<not> before t k) kvs = Suc j"
  proof (rule count_keys_eqI)
    show "\<not> before t (fst (kvs ! i)) \<longleftrightarrow> i < Suc j" if "i < length kvs" for i
      using increasing_before_iff [OF assms(1) j(1) that] j(2) by (simp add: less_Suc_eq_le not_less)
  qed (use j(1) in simp)
  then show ?thesis using True rank_nth [OF assms(1) j(1)] j(2) by simp
next
  case False
  have "valid k" if "k \<in> fst ` set kvs" for k using that assms(1) by (auto simp: increasing_def)
  then have "count_keys (\<lambda>k. \<not> before t k) kvs = count_keys (\<lambda>k. before k t) kvs"
    using False assms(2) before_total [of _ t] before_asym [of _ t] by (intro count_keys_cong) blast
  then show ?thesis using False by (simp add: rank_count)
qed

subsection \<open>Merged lists\<close>

definition merge_of :: "(slice \<times> slice) list list \<Rightarrow> (slice \<times> slice) list \<Rightarrow> bool" where
  "merge_of L M \<longleftrightarrow> increasing (map fst M) \<and> (\<forall>kvs \<in> set L. increasing (map fst kvs)) \<and>
     set M = \<Union> (set ` set L) \<and>
     (\<forall>c < length L. \<forall>d < length L. c \<noteq> d \<longrightarrow> fst ` set (L ! c) \<inter> fst ` set (L ! d) = {})"

lemma merge_ofD:
  assumes "merge_of L M"
  shows "increasing (map fst M)" and "d < length L \<Longrightarrow> increasing (map fst (L ! d))"
    and "d < length L \<Longrightarrow> j < length (L ! d) \<Longrightarrow> \<exists>n < length M. M ! n = L ! d ! j"
    and "n < length M \<Longrightarrow> \<exists>d < length L. \<exists>j < length (L ! d). L ! d ! j = M ! n"
    and "c < length L \<Longrightarrow> d < length L \<Longrightarrow> c \<noteq> d \<Longrightarrow> j < length (L ! c) \<Longrightarrow> fst (L ! c ! j) \<notin> fst ` set (L ! d)"
proof -
  show "increasing (map fst M)" using assms by (simp add: merge_of_def)
  show "increasing (map fst (L ! d))" if "d < length L" using assms that by (simp add: merge_of_def)
  show "\<exists>n < length M. M ! n = L ! d ! j" if "d < length L" "j < length (L ! d)"
  proof -
    have "L ! d \<in> set L" "L ! d ! j \<in> set (L ! d)" using that by simp_all
    then have "L ! d ! j \<in> set M" using assms unfolding merge_of_def by blast
    then show ?thesis by (auto simp: in_set_conv_nth)
  qed
  show "\<exists>d < length L. \<exists>j < length (L ! d). L ! d ! j = M ! n" if "n < length M"
  proof -
    have "M ! n \<in> \<Union> (set ` set L)" using assms nth_mem [OF that] unfolding merge_of_def by simp
    then obtain kvs where "kvs \<in> set L" "M ! n \<in> set kvs" by blast
    then show ?thesis by (metis in_set_conv_nth)
  qed
  show "fst (L ! c ! j) \<notin> fst ` set (L ! d)" if "c < length L" "d < length L" "c \<noteq> d" "j < length (L ! c)"
  proof -
    have "fst (L ! c ! j) \<in> fst ` set (L ! c)" using that(4) by simp
    moreover have "fst ` set (L ! c) \<inter> fst ` set (L ! d) = {}" using assms that(1-3) by (simp add: merge_of_def)
    ultimately show ?thesis by blast
  qed
qed

lemma merge_keys_count:
  assumes "merge_of L M" and "downward p" and "n < length M" and "count_keys p M = n" and "d < length L"
  shows "count_keys p (L ! d) = rank before (fst (M ! n)) (L ! d)"
  unfolding rank_count
proof (rule count_keys_cong)
  fix k assume "k \<in> fst ` set (L ! d)"
  from key_nth [OF this] obtain j where "j < length (L ! d)" "fst (L ! d ! j) = k" by blast
  then obtain m where "m < length M" "k = fst (M ! m)" using merge_ofD(3) [OF assms(1,5), of j] by auto
  then show "p k \<longleftrightarrow> before k (fst (M ! n))"
    using count_keys_nth [OF merge_ofD(1) [OF assms(1)] assms(2), of m]
      increasing_before_iff [OF merge_ofD(1) [OF assms(1)], of m n] assms(3,4) by simp
qed

lemma increasing_distinct: "increasing ks \<Longrightarrow> distinct ks"
proof (induction ks)
  case (Cons k ks)
  then show ?case using before_irrefl by (auto simp: increasing_def)
qed simp

lemma merge_of_mset:
  assumes "increasing (map fst M)" and "\<forall>kvs \<in> set L. increasing (map fst kvs)" and "mset M = mset (concat L)"
  shows "merge_of L M"
proof -
  have "mset (map fst M) = mset (map fst (concat L))" using assms(3) by simp
  then have "distinct (map fst (concat L))" using increasing_distinct [OF assms(1)] by (metis mset_eq_imp_distinct_iff)
  moreover have "set M = \<Union> (set ` set L)" using assms(3) by (metis set_concat set_mset_mset)
  ultimately show ?thesis using assms(1,2) distinct_concat_disjoint [of fst L] by (auto simp: merge_of_def)
qed

end

subsection \<open>Picking a child\<close>

text \<open>Both loops pick the best key in an order.\<close>

fun pick_loop :: "(int \<Rightarrow> bool) \<Rightarrow> comparator \<Rightarrow> 's wrapper list \<Rightarrow> nat list \<Rightarrow> nat option \<Rightarrow> nat option res" where
  "pick_loop better cmp ws [] best = Inr best"
| "pick_loop better cmp ws (i # is) best =
     (if w_valid (ws ! i) then
        case best of
          None \<Rightarrow> pick_loop better cmp ws is (Some i)
        | Some j \<Rightarrow>
            bind_res (w_key_at (ws ! i)) (\<lambda>k. bind_res (w_key_at (ws ! j)) (\<lambda>k'.
            bind_res (Compare cmp k k') (\<lambda>r.
              pick_loop better cmp ws is (if better r then Some i else best))))
      else pick_loop better cmp ws is best)"

lemma smallest_pick: "smallest_loop cmp ws is best = pick_loop (\<lambda>r. r < 0) cmp ws is best"
  by (induction cmp ws "is" best rule: smallest_loop.induct) (auto split: option.splits intro!: bind_res_cong)

lemma largest_pick: "largest_loop cmp ws is best = pick_loop (\<lambda>r. r > 0) cmp ws is best"
  by (induction cmp ws "is" best rule: largest_loop.induct) (auto split: option.splits intro!: bind_res_cong)

lemma pick_loop_best:
  assumes cmp: "\<And>a b. a \<in> K \<Longrightarrow> b \<in> K \<Longrightarrow> \<exists>r. Compare cmp a b = Inr r \<and> (better r \<longleftrightarrow> lt a b)"
    and trans: "\<And>a b c. a \<in> K \<Longrightarrow> b \<in> K \<Longrightarrow> c \<in> K \<Longrightarrow> lt a b \<Longrightarrow> lt b c \<Longrightarrow> lt a c"
    and total: "\<And>a b. a \<in> K \<Longrightarrow> b \<in> K \<Longrightarrow> lt a b \<or> a = b \<or> lt b a"
    and irrefl: "\<And>a. a \<in> K \<Longrightarrow> \<not> lt a a"
    and key: "\<And>i. i < n \<Longrightarrow> w_valid (ws ! i) \<Longrightarrow> w_key_at (ws ! i) = Inr (key i) \<and> key i \<in> K"
  shows "set is \<subseteq> {..<n} \<Longrightarrow> (\<And>j. best = Some j \<Longrightarrow> j < n \<and> w_valid (ws ! j)) \<Longrightarrow>
    \<exists>r. pick_loop better cmp ws is best = Inr r \<and>
      (r = None \<longleftrightarrow> best = None \<and> (\<forall>i \<in> set is. \<not> w_valid (ws ! i))) \<and>
      (\<forall>c. r = Some c \<longrightarrow> c < n \<and> w_valid (ws ! c) \<and>
        (\<forall>i \<in> set is \<union> set_option best. w_valid (ws ! i) \<longrightarrow> \<not> lt (key i) (key c)))"
proof (induction "is" arbitrary: best)
  case Nil
  then show ?case using irrefl key by (cases best) (simp, fastforce)
next
  case (Cons i "is")
  have i: "i < n" and sub: "set is \<subseteq> {..<n}" using Cons.prems(1) by auto
  show ?case
  proof (cases "w_valid (ws ! i)")
    case False
    then show ?thesis using Cons.IH [OF sub Cons.prems(2)] by auto
  next
    case v: True
    note ki = key [OF i v]
    show ?thesis
    proof (cases best)
      case None
      then show ?thesis using Cons.IH [OF sub, of "Some i"] i v by auto
    next
      case (Some j)
      then have j: "j < n" "w_valid (ws ! j)" using Cons.prems(2) by auto
      note kj = key [OF j]
      obtain r where r: "Compare cmp (key i) (key j) = Inr r" "better r \<longleftrightarrow> lt (key i) (key j)"
        using cmp ki kj by blast
      let ?b = "if better r then i else j"
      have b: "?b < n" "w_valid (ws ! ?b)" using i v j by auto
      have step: "pick_loop better cmp ws (i # is) best = pick_loop better cmp ws is (Some ?b)"
        using v ki kj r(1) by (simp add: Some)
      obtain c where c: "pick_loop better cmp ws is (Some ?b) = Inr (Some c)" "c < n" "w_valid (ws ! c)"
        "\<forall>x \<in> set is \<union> {?b}. w_valid (ws ! x) \<longrightarrow> \<not> lt (key x) (key c)"
        using Cons.IH [OF sub, of "Some ?b"] b by auto
      have kc: "key c \<in> K" using key [OF c(2,3)] by blast
      have bc: "\<not> lt (key ?b) (key c)" using c(4) b(2) by blast
      have "\<not> lt (key i) (key c) \<and> \<not> lt (key j) (key c)"
      proof (cases "better r")
        case True
        then show ?thesis using bc r(2) trans [of "key i" "key j" "key c"] ki kj kc by auto
      next
        case False
        then show ?thesis using bc r(2) trans [of "key j" "key i" "key c"] total [of "key i" "key j"] ki kj kc by auto
      qed
      then show ?thesis using c Some unfolding step by auto
    qed
  qed
qed

subsection \<open>The next key of the merge\<close>

context sorted_iterator
begin

text \<open>The children stand at positions \<open>pos\<close>.\<close>

definition children_at :: "(slice \<times> slice) list list \<Rightarrow> (nat \<Rightarrow> nat) \<Rightarrow> 's wrapper list \<Rightarrow> bool" where
  "children_at L pos ws \<longleftrightarrow> length ws = length L \<and> (\<forall>d < length L. w_at (L ! d) (pos d) (ws ! d))"

lemma children_at_live:
  assumes "children_at L pos ws" and "d < length L"
  shows "w_valid (ws ! d) \<longleftrightarrow> pos d < length (L ! d)"
    and "pos d < length (L ! d) \<Longrightarrow> w_key_at (ws ! d) = Inr (fst (L ! d ! pos d)) \<and> valid (fst (L ! d ! pos d))"
proof -
  have w: "w_at (L ! d) (pos d) (ws ! d)" using assms by (simp add: children_at_def)
  show "w_valid (ws ! d) \<longleftrightarrow> pos d < length (L ! d)" by (rule w_read_at [OF w])
  show "w_key_at (ws ! d) = Inr (fst (L ! d ! pos d)) \<and> valid (fst (L ! d ! pos d))" if "pos d < length (L ! d)"
    using w_read_at [OF w] increasing_nth(1) that by simp
qed

lemma pick_children:
  assumes ch: "children_at L pos ws" and lt: "lt = before \<or> lt = (\<lambda>a b. before b a)"
    and better: "\<And>a b r. valid a \<Longrightarrow> valid b \<Longrightarrow> Compare cmp a b = Inr r \<Longrightarrow> better r \<longleftrightarrow> lt a b"
    and all: "set ix = {..<length L}"
  shows "\<exists>r. pick_loop better cmp ws ix None = Inr r \<and>
    (r = None \<longleftrightarrow> (\<forall>d < length L. \<not> pos d < length (L ! d))) \<and>
    (\<forall>c. r = Some c \<longrightarrow> c < length L \<and> pos c < length (L ! c) \<and>
      (\<forall>d < length L. pos d < length (L ! d) \<longrightarrow> \<not> lt (fst (L ! d ! pos d)) (fst (L ! c ! pos c))))"
proof -
  have "\<exists>r. pick_loop better cmp ws ix None = Inr r \<and> (r = None \<longleftrightarrow> (None :: nat option) = None \<and> (\<forall>i \<in> set ix. \<not> w_valid (ws ! i))) \<and>
      (\<forall>c. r = Some c \<longrightarrow> c < length L \<and> w_valid (ws ! c) \<and> (\<forall>i \<in> set ix \<union> set_option (None :: nat option). w_valid (ws ! i) \<longrightarrow>
        \<not> lt (fst (L ! i ! pos i)) (fst (L ! c ! pos c))))"
  proof (rule pick_loop_best [where K = "{k. valid k}" and key = "\<lambda>i. fst (L ! i ! pos i)"])
    show "\<exists>r. Compare cmp a b = Inr r \<and> (better r \<longleftrightarrow> lt a b)" if "a \<in> {k. valid k}" "b \<in> {k. valid k}" for a b
      using compare_before [of a b] better that by auto
    show "lt a c" if "a \<in> {k. valid k}" "b \<in> {k. valid k}" "c \<in> {k. valid k}" "lt a b" "lt b c" for a b c
      using lt that before_trans by auto
    show "lt a b \<or> a = b \<or> lt b a" if "a \<in> {k. valid k}" "b \<in> {k. valid k}" for a b
      using lt that before_total by auto
    show "\<not> lt a a" if "a \<in> {k. valid k}" for a using lt that before_irrefl by auto
    show "w_key_at (ws ! i) = Inr (fst (L ! i ! pos i)) \<and> fst (L ! i ! pos i) \<in> {k. valid k}"
      if "i < length L" "w_valid (ws ! i)" for i
      using children_at_live [OF ch that(1)] that(2) by simp
  qed (use all in auto)
  then show ?thesis using children_at_live(1) [OF ch] all by auto
qed

lemma set_upto: "set [0..<n] = {..<n}" and set_upto_rev: "set (rev [0..<n]) = {..<n}"
  by (simp_all add: atLeast0LessThan)

text \<open>
  Where every child stands behind its keys with \<open>p\<close>, the smallest key is the first of the merge
  without it; where it stands at its last key with \<open>p\<close>, the largest is the last of the merge with it.
\<close>

lemma FindSmallest_at:
  assumes M: "merge_of L M" and p: "downward p" and ch: "children_at L (\<lambda>d. count_keys p (L ! d)) (mi_children m)"
    and cmp: "mi_comparator m = cmp"
  shows "\<exists>r. FindSmallest m = Inr (m\<lparr>mi_current := r\<rparr>) \<and>
    (if count_keys p M < length M then \<exists>c < length L. r = Some c \<and> count_keys p (L ! c) < length (L ! c) \<and>
       L ! c ! count_keys p (L ! c) = M ! count_keys p M
     else r = None)"
proof -
  let ?pos = "\<lambda>d. count_keys p (L ! d)" and ?n = "count_keys p M"
  have len: "length (mi_children m) = length L" using ch by (simp add: children_at_def)
  have better: "r < 0 \<longleftrightarrow> before a b" if "valid a" "valid b" "Compare cmp a b = Inr r" for a b r
    using compare_before [OF that(1,2)] that(3) by auto
  obtain r where r: "smallest_loop cmp (mi_children m) [0..<length L] None = Inr r"
    "r = None \<longleftrightarrow> (\<forall>d < length L. \<not> ?pos d < length (L ! d))"
    "\<And>c. r = Some c \<Longrightarrow> c < length L \<and> ?pos c < length (L ! c) \<and>
      (\<forall>d < length L. ?pos d < length (L ! d) \<longrightarrow> \<not> before (fst (L ! d ! ?pos d)) (fst (L ! c ! ?pos c)))"
    using pick_children [where lt = before and better = "\<lambda>r. r < 0" and ix = "[0..<length L]", OF ch disjI1 [OF refl]
        better set_upto] unfolding smallest_pick by blast
  note incM = merge_ofD(1) [OF M] and inc = merge_ofD(2) [OF M]
  have out: "\<exists>j < length M. M ! j = L ! d ! i \<and> ?n \<le> j" if d: "d < length L" "?pos d \<le> i" "i < length (L ! d)" for d i
  proof -
    obtain j where j: "j < length M" "M ! j = L ! d ! i" using merge_ofD(3) [OF M d(1,3)] by blast
    have "\<not> p (fst (L ! d ! i))" using count_keys_nth [OF inc [OF d(1)] p d(3)] d(2) by simp
    then show ?thesis using count_keys_nth [OF incM p j(1)] j by auto
  qed
  have "if ?n < length M then \<exists>c < length L. r = Some c \<and> ?pos c < length (L ! c) \<and> L ! c ! ?pos c = M ! ?n else r = None"
  proof (cases "?n < length M")
    case True
    obtain d i where d: "d < length L" "i < length (L ! d)" "L ! d ! i = M ! ?n" using merge_ofD(4) [OF M True] by blast
    have "\<not> p (fst (M ! ?n))" using count_keys_nth [OF incM p True] by simp
    then have di: "?pos d \<le> i" using count_keys_nth [OF inc [OF d(1)] p d(2)] d(3) by simp
    then have "r \<noteq> None" using r(2) d(1) le_less_trans [OF di d(2)] by blast
    then obtain c where c: "r = Some c" by blast
    note rc = r(3) [OF c]
    obtain j where j: "j < length M" "M ! j = L ! c ! ?pos c" "?n \<le> j" using out [of c "?pos c"] rc by auto
    obtain j' where j': "j' < length M" "M ! j' = L ! d ! ?pos d" "?n \<le> j'" using out [of d "?pos d"] d di by auto
    have "fst (L ! d ! ?pos d) = fst (L ! d ! i) \<or> before (fst (L ! d ! ?pos d)) (fst (L ! d ! i))"
      using increasing_nth(2) [OF inc [OF d(1)], of "?pos d" i] di d(2) by (cases "?pos d = i") auto
    then have "fst (M ! j') = fst (M ! ?n) \<or> before (fst (M ! j')) (fst (M ! ?n))" by (simp only: j'(2) d(3))
    then have "j' \<le> ?n"
      using increasing_before_iff [OF incM j'(1) True] increasing_inj [OF incM j'(1) True] by auto
    moreover have "\<not> before (fst (M ! j')) (fst (M ! j))"
      using rc d(1) le_less_trans [OF di d(2)] unfolding j(2) j'(2) by blast
    ultimately have "j = ?n" using increasing_before_iff [OF incM j'(1) j(1)] j(3) j'(3) by auto
    then show ?thesis using True c rc j(2) by auto
  next
    case False
    have "\<not> ?pos d < length (L ! d)" if d: "d < length L" for d
    proof
      assume "?pos d < length (L ! d)"
      from out [OF d order_refl this] show False using False by auto
    qed
    then show ?thesis using r(2) False by simp
  qed
  moreover have "FindSmallest m = Inr (m\<lparr>mi_current := r\<rparr>)" using r(1) by (simp add: FindSmallest_def cmp len)
  ultimately show ?thesis by blast
qed

definition last_pos :: "(slice \<Rightarrow> bool) \<Rightarrow> (slice \<times> slice) list \<Rightarrow> nat" where
  "last_pos p kvs = (if count_keys p kvs = 0 then length kvs else count_keys p kvs - 1)"

lemma last_pos_live: "last_pos p kvs < length kvs \<longleftrightarrow> 0 < count_keys p kvs"
  using count_keys_le [of p kvs] by (auto simp: last_pos_def)

lemma FindLargest_at:
  assumes M: "merge_of L M" and p: "downward p" and ch: "children_at L (\<lambda>d. last_pos p (L ! d)) (mi_children m)"
    and cmp: "mi_comparator m = cmp"
  shows "\<exists>r. FindLargest m = Inr (m\<lparr>mi_current := r\<rparr>) \<and>
    (if 0 < count_keys p M then \<exists>c < length L. r = Some c \<and> 0 < count_keys p (L ! c) \<and>
       L ! c ! last_pos p (L ! c) = M ! (count_keys p M - 1)
     else r = None)"
proof -
  let ?pos = "\<lambda>d. last_pos p (L ! d)" and ?n = "count_keys p M"
  have len: "length (mi_children m) = length L" using ch by (simp add: children_at_def)
  have better: "r > 0 \<longleftrightarrow> before b a" if "valid a" "valid b" "Compare cmp a b = Inr r" for a b r
    using compare_before [OF that(1,2)] that(3) by auto
  obtain r where r: "largest_loop cmp (mi_children m) (rev [0..<length L]) None = Inr r"
    "r = None \<longleftrightarrow> (\<forall>d < length L. \<not> ?pos d < length (L ! d))"
    "\<And>c. r = Some c \<Longrightarrow> c < length L \<and> ?pos c < length (L ! c) \<and>
      (\<forall>d < length L. ?pos d < length (L ! d) \<longrightarrow> \<not> before (fst (L ! c ! ?pos c)) (fst (L ! d ! ?pos d)))"
    using pick_children [where lt = "\<lambda>a b. before b a" and better = "\<lambda>r. r > 0" and ix = "rev [0..<length L]", OF ch
        disjI2 [OF refl] better set_upto_rev] unfolding largest_pick by blast
  note incM = merge_ofD(1) [OF M] and inc = merge_ofD(2) [OF M]
  have inside: "\<exists>j < length M. M ! j = L ! d ! i \<and> j < ?n" if d: "d < length L" "i < count_keys p (L ! d)" for d i
  proof -
    have i: "i < length (L ! d)" using d(2) count_keys_le [of p "L ! d"] by simp
    obtain j where j: "j < length M" "M ! j = L ! d ! i" using merge_ofD(3) [OF M d(1) i] by blast
    have "p (fst (L ! d ! i))" using count_keys_nth [OF inc [OF d(1)] p i] d(2) by simp
    then show ?thesis using count_keys_nth [OF incM p j(1)] j by auto
  qed
  have "if 0 < ?n then \<exists>c < length L. r = Some c \<and> 0 < count_keys p (L ! c) \<and> L ! c ! ?pos c = M ! (?n - 1) else r = None"
  proof (cases "0 < ?n")
    case True
    have n: "?n - 1 < length M" using True count_keys_le [of p M] by linarith
    obtain d i where d: "d < length L" "i < length (L ! d)" "L ! d ! i = M ! (?n - 1)" using merge_ofD(4) [OF M n] by blast
    have "p (fst (M ! (?n - 1)))" using count_keys_nth [OF incM p n] True by simp
    then have di: "i < count_keys p (L ! d)" using count_keys_nth [OF inc [OF d(1)] p d(2)] d(3) by simp
    then have pd: "?pos d = count_keys p (L ! d) - 1" "?pos d < length (L ! d)" "i \<le> ?pos d"
      using last_pos_live [of p "L ! d"] by (auto simp: last_pos_def)
    then have "r \<noteq> None" using r(2) d(1) by blast
    then obtain c where c: "r = Some c" by blast
    note rc = r(3) [OF c]
    have pc: "?pos c = count_keys p (L ! c) - 1" "0 < count_keys p (L ! c)"
      using rc last_pos_live [of p "L ! c"] by (auto simp: last_pos_def)
    obtain j where j: "j < length M" "M ! j = L ! c ! ?pos c" "j < ?n" using inside [of c "?pos c"] rc pc by auto
    obtain j' where j': "j' < length M" "M ! j' = L ! d ! ?pos d" "j' < ?n" using inside [of d "?pos d"] d di pd by auto
    have "fst (L ! d ! i) = fst (L ! d ! ?pos d) \<or> before (fst (L ! d ! i)) (fst (L ! d ! ?pos d))"
      using increasing_nth(2) [OF inc [OF d(1)], of i "?pos d"] pd(2,3) by (cases "?pos d = i") auto
    then have "fst (M ! (?n - 1)) = fst (M ! j') \<or> before (fst (M ! (?n - 1))) (fst (M ! j'))" by (simp only: j'(2) d(3))
    then have "?n - 1 \<le> j'"
      using increasing_before_iff [OF incM n j'(1)] increasing_inj [OF incM n j'(1)] by auto
    moreover have "\<not> before (fst (M ! j)) (fst (M ! j'))" using rc d(1) pd(2) unfolding j(2) j'(2) by blast
    ultimately have "j = ?n - 1" using increasing_before_iff [OF incM j(1) j'(1)] j(3) j'(3) by auto
    then show ?thesis using True c rc pc j(2) by auto
  next
    case False
    have "\<not> ?pos d < length (L ! d)" if d: "d < length L" for d
    proof
      assume "?pos d < length (L ! d)"
      then have "0 < count_keys p (L ! d)" using last_pos_live by simp
      from inside [OF d this] show False using False by auto
    qed
    then show ?thesis using r(2) False by simp
  qed
  moreover have "FindLargest m = Inr (m\<lparr>mi_current := r\<rparr>)" using r(1) by (simp add: FindLargest_def cmp len)
  ultimately show ?thesis by blast
qed

subsection \<open>The state of the merging iterator\<close>

definition mi_at :: "(slice \<times> slice) list list \<Rightarrow> (slice \<times> slice) list \<Rightarrow> nat \<Rightarrow> 's MergingIterator \<Rightarrow> bool" where
  "mi_at L M i m \<longleftrightarrow> merge_of L M \<and> i \<le> length M \<and> mi_comparator m = cmp \<and>
     (\<exists>pos. children_at L pos (mi_children m) \<and>
       (if i < length M then
          \<exists>c < length L. mi_current m = Some c \<and> pos c < length (L ! c) \<and> L ! c ! pos c = M ! i \<and>
            (\<forall>d < length L. d \<noteq> c \<longrightarrow> pos d =
              (if mi_direction m = kForward then rank before (fst (M ! i)) (L ! d)
               else last_pos (\<lambda>a. before a (fst (M ! i))) (L ! d)))
        else mi_current m = None))"

lemma mi_at_smallest:
  assumes "merge_of L M" and "downward p" and "children_at L (\<lambda>d. count_keys p (L ! d)) (mi_children m)"
    and "mi_comparator m = cmp"
  shows "\<exists>r. FindSmallest m = Inr (m\<lparr>mi_current := r\<rparr>) \<and>
    mi_at L M (count_keys p M) (m\<lparr>mi_current := r, mi_direction := kForward\<rparr>)"
proof -
  let ?n = "count_keys p M"
  obtain r where r: "FindSmallest m = Inr (m\<lparr>mi_current := r\<rparr>)"
    "if ?n < length M then \<exists>c < length L. r = Some c \<and> count_keys p (L ! c) < length (L ! c) \<and>
       L ! c ! count_keys p (L ! c) = M ! ?n else r = None"
    using FindSmallest_at [OF assms] by blast
  have "count_keys p (L ! d) = rank before (fst (M ! ?n)) (L ! d)" if "?n < length M" "d < length L" for d
    by (rule merge_keys_count [OF assms(1,2) that(1) refl that(2)])
  then have "mi_at L M ?n (m\<lparr>mi_current := r, mi_direction := kForward\<rparr>)"
    unfolding mi_at_def using assms r(2) count_keys_le
    by (intro conjI exI [of _ "\<lambda>d. count_keys p (L ! d)"]) auto
  then show ?thesis using r(1) by blast
qed

lemma mi_at_largest:
  assumes M: "merge_of L M" and p: "downward p" and ch: "children_at L (\<lambda>d. last_pos p (L ! d)) (mi_children m)"
    and cmp: "mi_comparator m = cmp"
  shows "\<exists>r. FindLargest m = Inr (m\<lparr>mi_current := r\<rparr>) \<and>
    mi_at L M (last_pos p M) (m\<lparr>mi_current := r, mi_direction := kReverse\<rparr>)"
proof -
  let ?n = "count_keys p M"
  obtain r where r: "FindLargest m = Inr (m\<lparr>mi_current := r\<rparr>)"
    "if 0 < ?n then \<exists>c < length L. r = Some c \<and> 0 < count_keys p (L ! c) \<and>
       L ! c ! last_pos p (L ! c) = M ! (?n - 1) else r = None"
    using FindLargest_at [OF assms] by blast
  have others: "last_pos p (L ! d) = last_pos (\<lambda>a. before a (fst (M ! (?n - 1)))) (L ! d)"
    if c: "0 < ?n" "c < length L" "j < length (L ! c)" "L ! c ! j = M ! (?n - 1)" and d: "d < length L" "d \<noteq> c" for c d j
  proof -
    note incM = merge_ofD(1) [OF M]
    have n: "?n - 1 < length M" using c(1) count_keys_le [of p M] by linarith
    have "count_keys p (L ! d) = count_keys (\<lambda>a. before a (fst (M ! (?n - 1)))) (L ! d)"
    proof (rule count_keys_cong)
      fix k assume k: "k \<in> fst ` set (L ! d)"
      from key_nth [OF this] obtain l where "l < length (L ! d)" "fst (L ! d ! l) = k" by blast
      then obtain m where m: "m < length M" "fst (M ! m) = k" using merge_ofD(3) [OF M d(1), of l] by auto
      have "k \<noteq> fst (M ! (?n - 1))"
        using merge_ofD(5) [OF M c(2) d(1) d(2) [symmetric] c(3)] k unfolding c(4) by blast
      then have "m \<noteq> ?n - 1" using m(2) by blast
      then show "p k \<longleftrightarrow> before k (fst (M ! (?n - 1)))"
        using count_keys_nth [OF incM p m(1)] increasing_before_iff [OF incM m(1) n] unfolding m(2) by linarith
    qed
    then show ?thesis by (simp add: last_pos_def)
  qed
  have "mi_at L M (last_pos p M) (m\<lparr>mi_current := r, mi_direction := kReverse\<rparr>)"
  proof (cases "0 < ?n")
    case True
    then obtain c where c: "c < length L" "r = Some c" "0 < count_keys p (L ! c)" "L ! c ! last_pos p (L ! c) = M ! (?n - 1)"
      using r(2) by auto
    have live: "last_pos p (L ! c) < length (L ! c)" using c(3) last_pos_live by simp
    have pos: "last_pos p M = ?n - 1" "last_pos p M < length M" using True last_pos_live [of p M] by (simp_all add: last_pos_def)
    show ?thesis
      unfolding mi_at_def using M ch cmp pos c live others [OF True c(1) live c(4)]
      by (intro conjI exI [of _ "\<lambda>d. last_pos p (L ! d)"]) auto
  next
    case False
    then show ?thesis
      unfolding mi_at_def using M ch cmp r(2)
      by (intro conjI exI [of _ "\<lambda>d. last_pos p (L ! d)"]) (auto simp: last_pos_def)
  qed
  then show ?thesis using r(1) by blast
qed

subsection \<open>Moving the children\<close>

lemma each_child_all:
  assumes step: "\<And>ws i. i < n \<Longrightarrow> length ws = n \<Longrightarrow> (\<And>j. j < n \<Longrightarrow> ws ! j = mi_children m ! j \<or> P j (ws ! j)) \<Longrightarrow>
      \<exists>w. f (m\<lparr>mi_children := ws\<rparr>) i (mi_children m ! i) = Inr w \<and> P i w"
  shows "distinct ix \<Longrightarrow> set ix \<subseteq> {..<n} \<Longrightarrow> length ws = n \<Longrightarrow> (\<And>j. j \<in> set ix \<Longrightarrow> ws ! j = mi_children m ! j) \<Longrightarrow>
    (\<And>j. j < n \<Longrightarrow> j \<notin> set ix \<Longrightarrow> P j (ws ! j)) \<Longrightarrow>
    \<exists>ws'. each_child f ix (m\<lparr>mi_children := ws\<rparr>) = Inr (m\<lparr>mi_children := ws'\<rparr>) \<and> length ws' = n \<and> (\<forall>j < n. P j (ws' ! j))"
proof (induction ix arbitrary: ws)
  case Nil
  then show ?case by auto
next
  case (Cons i ix)
  have i: "i < n" "ws ! i = mi_children m ! i" using Cons.prems(2,4) by auto
  obtain w where w: "f (m\<lparr>mi_children := ws\<rparr>) i (mi_children m ! i) = Inr w" "P i w"
    using step [OF i(1) Cons.prems(3)] Cons.prems(4,5) by blast
  have "\<exists>ws'. each_child f ix (m\<lparr>mi_children := ws[i := w]\<rparr>) = Inr (m\<lparr>mi_children := ws'\<rparr>) \<and> length ws' = n \<and>
      (\<forall>j < n. P j (ws' ! j))"
  proof (rule Cons.IH)
    show "ws[i := w] ! j = mi_children m ! j" if "j \<in> set ix" for j
      using Cons.prems(1,4) that by (cases "j = i") auto
    show "P j (ws[i := w] ! j)" if "j < n" "j \<notin> set ix" for j
      using Cons.prems(3,5) that w(2) by (cases "j = i") auto
  qed (use Cons.prems in auto)
  then show ?case using w(1) i(2) by simp
qed

lemma each_child_from:
  assumes "length (mi_children m) = n" and "\<And>ws i. i < n \<Longrightarrow> length ws = n \<Longrightarrow>
      (\<And>j. j < n \<Longrightarrow> ws ! j = mi_children m ! j \<or> P j (ws ! j)) \<Longrightarrow>
      \<exists>w. f (m\<lparr>mi_children := ws\<rparr>) i (mi_children m ! i) = Inr w \<and> P i w"
  shows "\<exists>ws. each_child f [0..<n] m = Inr (m\<lparr>mi_children := ws\<rparr>) \<and> length ws = n \<and> (\<forall>j < n. P j (ws ! j))"
proof -
  have "\<exists>ws. each_child f [0..<n] (m\<lparr>mi_children := mi_children m\<rparr>) = Inr (m\<lparr>mi_children := ws\<rparr>) \<and> length ws = n \<and>
      (\<forall>j < n. P j (ws ! j))"
    by (rule each_child_all, fact assms(2)) (simp_all add: assms(1) atLeast0LessThan)
  then show ?thesis by simp
qed

lemma mi_at_children:
  assumes "mi_at L M i m"
  obtains pos where "children_at L pos (mi_children m)" "length (mi_children m) = length L"
  using assms by (auto simp: mi_at_def children_at_def)

text \<open>Every child is moved alike.\<close>

lemma each_child_move:
  assumes "mi_at L M i m" and "\<And>d j w. d < length L \<Longrightarrow> w_at (L ! d) j w \<Longrightarrow> \<exists>w'. f w = Inr w' \<and> w_at (L ! d) (pos' d) w'"
  shows "\<exists>ws. each_child (\<lambda>_ _. f) [0..<length (mi_children m)] m = Inr (m\<lparr>mi_children := ws\<rparr>) \<and> children_at L pos' ws"
proof -
  obtain pos where ch: "children_at L pos (mi_children m)" "length (mi_children m) = length L"
    using mi_at_children [OF assms(1)] .
  have "\<exists>ws. each_child (\<lambda>_ _. f) [0..<length L] m = Inr (m\<lparr>mi_children := ws\<rparr>) \<and> length ws = length L \<and>
      (\<forall>d < length L. w_at (L ! d) (pos' d) (ws ! d))"
    using ch assms(2) by (intro each_child_from) (auto simp: children_at_def)
  then show ?thesis unfolding ch(2) by (simp add: children_at_def)
qed

lemma mi_at_cmp: "mi_at L M i m \<Longrightarrow> merge_of L M \<and> mi_comparator m = cmp"
  by (simp add: mi_at_def)

lemma mi_SeekToFirst_at:
  assumes "mi_at L M i m"
  shows "\<exists>m'. mi_SeekToFirst ops m = Inr m' \<and> mi_at L M 0 m'"
proof -
  obtain ws where ws: "each_child (\<lambda>_ _. w_SeekToFirst ops) [0..<length (mi_children m)] m = Inr (m\<lparr>mi_children := ws\<rparr>)"
    "children_at L (\<lambda>d. 0) ws"
    using each_child_move [OF assms, of "w_SeekToFirst ops" "\<lambda>_. 0"] w_moves_at(1) by blast
  have "downward (\<lambda>_. False)" by (simp add: downward_def)
  with mi_at_smallest [of L M "\<lambda>_. False" "m\<lparr>mi_children := ws\<rparr>"] mi_at_cmp [OF assms] ws(2)
  show ?thesis by (auto simp: mi_SeekToFirst_def ws(1))
qed

lemma mi_SeekToLast_at:
  assumes "mi_at L M i m"
  shows "\<exists>m'. mi_SeekToLast ops m = Inr m' \<and> mi_at L M (length M - 1) m'"
proof -
  have last: "last_pos (\<lambda>_. True) kvs = length kvs - 1" for kvs by (simp add: last_pos_def)
  obtain ws where ws: "each_child (\<lambda>_ _. w_SeekToLast ops) [0..<length (mi_children m)] m = Inr (m\<lparr>mi_children := ws\<rparr>)"
    "children_at L (\<lambda>d. length (L ! d) - 1) ws"
    using each_child_move [OF assms, of "w_SeekToLast ops" "\<lambda>d. length (L ! d) - 1"] w_moves_at(2) by blast
  have "downward (\<lambda>_. True)" by (simp add: downward_def)
  with mi_at_largest [of L M "\<lambda>_. True" "m\<lparr>mi_children := ws\<rparr>"] mi_at_cmp [OF assms] ws(2)
  show ?thesis by (auto simp: mi_SeekToLast_def ws(1) last)
qed

lemma mi_Seek_at:
  assumes "mi_at L M i m" and "valid t"
  shows "\<exists>m'. mi_Seek ops t m = Inr m' \<and> mi_at L M (rank before t M) m'"
proof -
  obtain ws where ws: "each_child (\<lambda>_ _. w_Seek ops t) [0..<length (mi_children m)] m = Inr (m\<lparr>mi_children := ws\<rparr>)"
    "children_at L (\<lambda>d. rank before t (L ! d)) ws"
    using each_child_move [OF assms(1), of "w_Seek ops t" "\<lambda>d. rank before t (L ! d)"] w_moves_at(3) assms(2) by blast
  with mi_at_smallest [OF _ downward_before [OF assms(2)], of L M "m\<lparr>mi_children := ws\<rparr>"] mi_at_cmp [OF assms(1)]
  show ?thesis by (auto simp: mi_Seek_def ws(1) rank_count)
qed

text \<open>The current child and its key.\<close>

lemma mi_at_current:
  assumes "mi_at L M i m" and "i < length M"
  obtains pos c where "children_at L pos (mi_children m)" "length (mi_children m) = length L" "c < length L"
    "mi_current m = Some c" "pos c = rank before (fst (M ! i)) (L ! c)" "pos c < length (L ! c)" "L ! c ! pos c = M ! i"
    "\<forall>d < length L. d \<noteq> c \<longrightarrow> pos d = (if mi_direction m = kForward then rank before (fst (M ! i)) (L ! d)
       else last_pos (\<lambda>a. before a (fst (M ! i))) (L ! d))"
    "\<forall>d < length L. d \<noteq> c \<longrightarrow> fst (M ! i) \<notin> fst ` set (L ! d)" "valid (fst (M ! i))"
proof -
  obtain pos c where p: "children_at L pos (mi_children m)" "c < length L" "mi_current m = Some c"
    "pos c < length (L ! c)" "L ! c ! pos c = M ! i"
    "\<forall>d < length L. d \<noteq> c \<longrightarrow> pos d = (if mi_direction m = kForward then rank before (fst (M ! i)) (L ! d)
       else last_pos (\<lambda>a. before a (fst (M ! i))) (L ! d))"
    using assms by (auto simp: mi_at_def)
  have M: "merge_of L M" using mi_at_cmp [OF assms(1)] by simp
  have "pos c = rank before (fst (M ! i)) (L ! c)"
    using rank_nth [OF merge_ofD(2) [OF M p(2)] p(4)] p(5) by simp
  moreover have "fst (M ! i) \<notin> fst ` set (L ! d)" if "d < length L" "d \<noteq> c" for d
    using merge_ofD(5) [OF M p(2) that(1) that(2) [symmetric] p(4)] p(5) by simp
  moreover have "valid (fst (M ! i))" using increasing_nth(1) [OF merge_ofD(1) [OF M] assms(2)] .
  ultimately show thesis using that [OF p(1) _ p(2,3) _ p(4,5)] p(1,6) by (simp add: children_at_def)
qed

lemma mi_read_at:
  assumes "mi_at L M i m"
  shows "mi_Valid m \<longleftrightarrow> i < length M" and "i < length M \<Longrightarrow> mi_key m = Inr (fst (M ! i))"
    and "i < length M \<Longrightarrow> mi_value ops m = Inr (snd (M ! i))" and "mi_status ops m = Inr OK"
proof -
  show v: "mi_Valid m \<longleftrightarrow> i < length M" using assms by (auto simp: mi_at_def mi_Valid_def split: if_splits)
  show "mi_key m = Inr (fst (M ! i))" "mi_value ops m = Inr (snd (M ! i))" if i: "i < length M"
  proof -
    obtain pos c where p: "children_at L pos (mi_children m)" "length (mi_children m) = length L" "c < length L"
      "mi_current m = Some c" "pos c < length (L ! c)" "L ! c ! pos c = M ! i"
      by (rule mi_at_current [OF assms i])
    have w: "w_at (L ! c) (pos c) (mi_children m ! c)" using p(1,3) by (simp add: children_at_def)
    have "mi_current_child m = Inr (mi_children m ! c)" using p(2-4) by (simp add: mi_current_child_def)
    then show "mi_key m = Inr (fst (M ! i))" "mi_value ops m = Inr (snd (M ! i))"
      using v i w_read_at(2,3) [OF w p(5)] p(6) by (simp_all add: mi_key_def mi_value_def)
  qed
  obtain pos where ch: "children_at L pos (mi_children m)" "length (mi_children m) = length L"
    using mi_at_children [OF assms] .
  have "\<forall>w \<in> set (mi_children m). w_status ops w = Inr OK"
    using ch w_read_at(4) by (fastforce simp: children_at_def in_set_conv_nth)
  moreover have "first_status ops OK ws = Inr OK" if "\<forall>w \<in> set ws. w_status ops w = Inr OK" for ws
    using that by (induction ws) (auto simp: ok_def OK_def)
  ultimately show "mi_status ops m = Inr OK" by (simp add: mi_status_def)
qed

text \<open>
  The loops that turn the direction leave the current child and place the others as if the iterator had
  come from the other side.
\<close>

lemma turn_children:
  assumes at: "mi_at L M i m" and i: "i < length M" and f: "\<And>m' d w j. d < length L \<Longrightarrow> w_at (L ! d) j w \<Longrightarrow>
      fst (M ! i) \<notin> fst ` set (L ! d) \<Longrightarrow> mi_key m' = Inr (fst (M ! i)) \<Longrightarrow> mi_current m' \<noteq> Some d \<Longrightarrow>
      mi_comparator m' = cmp \<Longrightarrow> \<exists>w'. f m' d w = Inr w' \<and> w_at (L ! d) (pos' d) w'"
    and same: "\<And>m' d w. mi_current m' = Some d \<Longrightarrow> f m' d w = Inr w"
  shows "\<exists>ws c. each_child f [0..<length (mi_children m)] m = Inr (m\<lparr>mi_children := ws\<rparr>) \<and> mi_current m = Some c \<and>
    c < length L \<and> fst (M ! i) \<in> fst ` set (L ! c) \<and> (\<forall>d < length L. d \<noteq> c \<longrightarrow> fst (M ! i) \<notin> fst ` set (L ! d)) \<and>
    rank before (fst (M ! i)) (L ! c) < length (L ! c) \<and>
    children_at L (\<lambda>d. if d = c then rank before (fst (M ! i)) (L ! d) else pos' d) ws"
proof -
  let ?k = "fst (M ! i)"
  obtain pos c where p: "children_at L pos (mi_children m)" "length (mi_children m) = length L" "c < length L"
    "mi_current m = Some c" "pos c = rank before ?k (L ! c)" "pos c < length (L ! c)" "L ! c ! pos c = M ! i"
    "\<forall>d < length L. d \<noteq> c \<longrightarrow> ?k \<notin> fst ` set (L ! d)"
    by (rule mi_at_current [OF at i])
  have wc: "w_at (L ! c) (pos c) (mi_children m ! c)" using p(1,3) by (simp add: children_at_def)
  let ?P = "\<lambda>d w. if d = c then w = mi_children m ! c else w_at (L ! d) (pos' d) w"
  have "\<exists>ws. each_child f [0..<length L] m = Inr (m\<lparr>mi_children := ws\<rparr>) \<and> length ws = length L \<and> (\<forall>d < length L. ?P d (ws ! d))"
  proof (rule each_child_from [OF p(2)])
    fix ws d assume d: "d < length L" "length ws = length L" "\<And>j. j < length L \<Longrightarrow> ws ! j = mi_children m ! j \<or> ?P j (ws ! j)"
    let ?m = "m\<lparr>mi_children := ws\<rparr>"
    show "\<exists>w. f ?m d (mi_children m ! d) = Inr w \<and> ?P d w"
    proof (cases "d = c")
      case True
      then show ?thesis using same [of ?m d] p(4) by simp
    next
      case False
      have "ws ! c = mi_children m ! c" using d(3) [OF p(3)] by auto
      then have "mi_key ?m = Inr ?k"
        using p(3,4,7) d(2) w_read_at(2) [OF wc p(6)] by (simp add: mi_key_def mi_Valid_def mi_current_child_def)
      moreover have "w_at (L ! d) (pos d) (mi_children m ! d)" using p(1) d(1) by (simp add: children_at_def)
      ultimately show ?thesis using f [OF d(1), of "pos d"] p(4,8) d(1) False mi_at_cmp [OF at] by auto
    qed
  qed
  then obtain ws where ws: "each_child f [0..<length L] m = Inr (m\<lparr>mi_children := ws\<rparr>)" "length ws = length L"
    "\<forall>d < length L. ?P d (ws ! d)" by blast
  have "children_at L (\<lambda>d. if d = c then rank before ?k (L ! d) else pos' d) ws"
    using ws(2,3) wc p(3,5) by (auto simp: children_at_def)
  moreover have "?k \<in> fst ` set (L ! c)" using p(6,7) by (metis imageI nth_mem)
  ultimately show ?thesis using ws(1) p by (intro exI [of _ ws] exI [of _ c]) auto
qed

lemma turn_forward_at:
  assumes "w_at kvs j w" and "k \<notin> fst ` set kvs" and "valid k" and "mi_key m' = Inr k" and "mi_current m' \<noteq> Some d"
    and "mi_comparator m' = cmp"
  shows "\<exists>w'. turn_forward ops m' d w = Inr w' \<and> w_at kvs (rank before k kvs) w'"
proof -
  obtain w' where w': "w_Seek ops k w = Inr w'" "w_at kvs (rank before k kvs) w'" using w_moves_at(3) [OF assms(1,3)] by blast
  show ?thesis
  proof (cases "w_valid w'")
    case True
    then have r: "rank before k kvs < length kvs" using w_read_at(1) [OF w'(2)] by simp
    let ?k = "fst (kvs ! rank before k kvs)"
    have "?k \<noteq> k" using assms(2) r by (metis imageI nth_mem)
    moreover have "valid ?k" using increasing_nth(1) [OF w_read_at(5) [OF w'(2)] r] .
    ultimately obtain r' where "Compare cmp k ?k = Inr r'" "r' \<noteq> 0" using compare_before [OF assms(3), of ?k] by auto
    then show ?thesis using w' assms(4-6) True w_read_at(2) [OF w'(2) r] by (simp add: turn_forward_def)
  qed (use w' assms(4,5) in \<open>simp add: turn_forward_def\<close>)
qed

lemma turn_reverse_at:
  assumes "w_at kvs j w" and "valid k" and "mi_key m' = Inr k" and "mi_current m' \<noteq> Some d"
  shows "\<exists>w'. turn_reverse ops m' d w = Inr w' \<and> w_at kvs (last_pos (\<lambda>a. before a k) kvs) w'"
proof -
  obtain w' where w': "w_Seek ops k w = Inr w'" "w_at kvs (rank before k kvs) w'" using w_moves_at(3) [OF assms(1,2)] by blast
  have le: "rank before k kvs \<le> length kvs" by (rule w_read_at [OF w'(2)])
  show ?thesis
  proof (cases "w_valid w'")
    case True
    then have "rank before k kvs < length kvs" using w_read_at(1) [OF w'(2)] by simp
    from w_moves_at(5) [OF w'(2) this] show ?thesis
      using w'(1) assms(3,4) True by (auto simp: turn_reverse_def last_pos_def rank_count)
  next
    case False
    then have "rank before k kvs = length kvs" using w_read_at(1) [OF w'(2)] le by simp
    then have "last_pos (\<lambda>a. before a k) kvs = length kvs - 1" by (simp add: last_pos_def rank_count)
    then show ?thesis using w_moves_at(2) [OF w'(2)] w'(1) assms(3,4) False by (auto simp: turn_reverse_def)
  qed
qed

lemma direction_same: "mi_direction m = d \<Longrightarrow> m\<lparr>mi_direction := d\<rparr> = m"
  by (cases m) simp

lemma move_current_at:
  assumes "children_at L pos (mi_children m)" and "mi_current m = Some c" and "c < length L"
    and "\<And>w. w_at (L ! c) (pos c) w \<Longrightarrow> \<exists>w'. f w = Inr w' \<and> w_at (L ! c) j w'"
  shows "\<exists>ws. move_current f m = Inr (m\<lparr>mi_children := ws\<rparr>) \<and> children_at L (pos(c := j)) ws"
proof -
  have len: "length (mi_children m) = length L" using assms(1) by (simp add: children_at_def)
  have "w_at (L ! c) (pos c) (mi_children m ! c)" using assms(1,3) by (simp add: children_at_def)
  then obtain w where w: "f (mi_children m ! c) = Inr w" "w_at (L ! c) j w" using assms(4) by blast
  have "children_at L (pos(c := j)) ((mi_children m)[c := w])"
    using assms(1,3) w(2) by (auto simp: children_at_def nth_list_update)
  then show ?thesis using assms(2,3) w(1) len by (auto simp: move_current_def)
qed

lemma children_at_cong:
  "children_at L pos ws \<Longrightarrow> (\<And>d. d < length L \<Longrightarrow> pos d = pos' d) \<Longrightarrow> children_at L pos' ws"
  by (simp add: children_at_def)

text \<open>Before the current child moves, every child stands at its first key from the current one on.\<close>

definition facing :: "(nat \<Rightarrow> nat) \<Rightarrow> (slice \<times> slice) list list \<Rightarrow> slice \<Rightarrow> nat \<Rightarrow> 's MergingIterator \<Rightarrow> bool" where
  "facing pos L k c m \<longleftrightarrow> children_at L pos (mi_children m) \<and> mi_comparator m = cmp \<and> mi_current m = Some c \<and>
     c < length L \<and> k \<in> fst ` set (L ! c) \<and> (\<forall>d < length L. d \<noteq> c \<longrightarrow> k \<notin> fst ` set (L ! d)) \<and>
     pos c = rank before k (L ! c) \<and> pos c < length (L ! c)"

lemma mi_at_facing:
  assumes "mi_at L M i m" and "i < length M"
  obtains pos c where "facing pos L (fst (M ! i)) c m"
    "\<forall>d < length L. d \<noteq> c \<longrightarrow> pos d = (if mi_direction m = kForward then rank before (fst (M ! i)) (L ! d)
       else last_pos (\<lambda>a. before a (fst (M ! i))) (L ! d))"
proof -
  obtain pos c where p: "children_at L pos (mi_children m)" "c < length L"
    "mi_current m = Some c" "pos c = rank before (fst (M ! i)) (L ! c)" "pos c < length (L ! c)" "L ! c ! pos c = M ! i"
    "\<forall>d < length L. d \<noteq> c \<longrightarrow> pos d = (if mi_direction m = kForward then rank before (fst (M ! i)) (L ! d)
       else last_pos (\<lambda>a. before a (fst (M ! i))) (L ! d))"
    "\<forall>d < length L. d \<noteq> c \<longrightarrow> fst (M ! i) \<notin> fst ` set (L ! d)"
    by (rule mi_at_current [OF assms])
  have "fst (M ! i) \<in> fst ` set (L ! c)" using p(5,6) by (metis imageI nth_mem)
  then have "facing pos L (fst (M ! i)) c m" using p mi_at_cmp [OF assms(1)] by (simp add: facing_def)
  then show thesis using that p(7) by blast
qed

lemma mi_turn:
  assumes at: "mi_at L M i m" and i: "i < length M"
  shows "\<exists>m' c. (if mi_direction m \<noteq> kForward then
        bind_res (each_child (turn_forward ops) [0..<length (mi_children m)] m) (\<lambda>m. Inr (m\<lparr>mi_direction := kForward\<rparr>))
      else Inr m) = Inr m' \<and> mi_direction m' = kForward \<and>
      facing (\<lambda>d. rank before (fst (M ! i)) (L ! d)) L (fst (M ! i)) c m'"
    and "\<exists>m' c. (if mi_direction m \<noteq> kReverse then
        bind_res (each_child (turn_reverse ops) [0..<length (mi_children m)] m) (\<lambda>m. Inr (m\<lparr>mi_direction := kReverse\<rparr>))
      else Inr m) = Inr m' \<and> mi_direction m' = kReverse \<and>
      facing (\<lambda>d. if d = c then rank before (fst (M ! i)) (L ! d) else last_pos (\<lambda>a. before a (fst (M ! i))) (L ! d))
        L (fst (M ! i)) c m'"
proof -
  let ?k = "fst (M ! i)"
  have k: "valid ?k" using increasing_nth(1) [OF merge_ofD(1) i] mi_at_cmp [OF at] by blast
  obtain pos c where p: "facing pos L ?k c m" "\<forall>d < length L. d \<noteq> c \<longrightarrow> pos d =
      (if mi_direction m = kForward then rank before ?k (L ! d) else last_pos (\<lambda>a. before a ?k) (L ! d))"
    by (rule mi_at_facing [OF at i])
  show "\<exists>m' c. (if mi_direction m \<noteq> kForward then
        bind_res (each_child (turn_forward ops) [0..<length (mi_children m)] m) (\<lambda>m. Inr (m\<lparr>mi_direction := kForward\<rparr>))
      else Inr m) = Inr m' \<and> mi_direction m' = kForward \<and> facing (\<lambda>d. rank before ?k (L ! d)) L ?k c m'"
  proof (cases "mi_direction m = kForward")
    case True
    have "children_at L pos (mi_children m)" using p(1) by (simp add: facing_def)
    then have "children_at L (\<lambda>d. rank before ?k (L ! d)) (mi_children m)"
      by (rule children_at_cong) (use p True in \<open>auto simp: facing_def\<close>)
    then have "facing (\<lambda>d. rank before ?k (L ! d)) L ?k c m" using p(1) by (simp add: facing_def)
    then show ?thesis using True by auto
  next
    case False
    obtain ws c' where ws: "each_child (turn_forward ops) [0..<length (mi_children m)] m = Inr (m\<lparr>mi_children := ws\<rparr>)"
      "mi_current m = Some c'" "c' < length L" "?k \<in> fst ` set (L ! c')" "\<forall>d < length L. d \<noteq> c' \<longrightarrow> ?k \<notin> fst ` set (L ! d)"
      "rank before ?k (L ! c') < length (L ! c')"
      "children_at L (\<lambda>d. if d = c' then rank before ?k (L ! d) else rank before ?k (L ! d)) ws"
      using turn_children [OF at i, of "turn_forward ops" "\<lambda>d. rank before ?k (L ! d)"] turn_forward_at k
      by (auto simp: turn_forward_def)
    then have "facing (\<lambda>d. rank before ?k (L ! d)) L ?k c' (m\<lparr>mi_children := ws, mi_direction := kForward\<rparr>)"
      using mi_at_cmp [OF at] by (simp add: facing_def)
    then show ?thesis using False ws(1) by auto
  qed
  show "\<exists>m' c. (if mi_direction m \<noteq> kReverse then
        bind_res (each_child (turn_reverse ops) [0..<length (mi_children m)] m) (\<lambda>m. Inr (m\<lparr>mi_direction := kReverse\<rparr>))
      else Inr m) = Inr m' \<and> mi_direction m' = kReverse \<and>
      facing (\<lambda>d. if d = c then rank before ?k (L ! d) else last_pos (\<lambda>a. before a ?k) (L ! d)) L ?k c m'"
  proof (cases "mi_direction m = kReverse")
    case True
    have "children_at L pos (mi_children m)" using p(1) by (simp add: facing_def)
    then have "children_at L (\<lambda>d. if d = c then rank before ?k (L ! d) else last_pos (\<lambda>a. before a ?k) (L ! d)) (mi_children m)"
      by (rule children_at_cong) (use p True in \<open>auto simp: facing_def\<close>)
    then have "facing (\<lambda>d. if d = c then rank before ?k (L ! d) else last_pos (\<lambda>a. before a ?k) (L ! d)) L ?k c m"
      using p(1) by (simp add: facing_def)
    then show ?thesis using True by auto
  next
    case False
    obtain ws c' where ws: "each_child (turn_reverse ops) [0..<length (mi_children m)] m = Inr (m\<lparr>mi_children := ws\<rparr>)"
      "mi_current m = Some c'" "c' < length L" "?k \<in> fst ` set (L ! c')" "\<forall>d < length L. d \<noteq> c' \<longrightarrow> ?k \<notin> fst ` set (L ! d)"
      "rank before ?k (L ! c') < length (L ! c')"
      "children_at L (\<lambda>d. if d = c' then rank before ?k (L ! d) else last_pos (\<lambda>a. before a ?k) (L ! d)) ws"
      using turn_children [OF at i, of "turn_reverse ops" "\<lambda>d. last_pos (\<lambda>a. before a ?k) (L ! d)"] turn_reverse_at k
      by (auto simp: turn_reverse_def)
    then have "facing (\<lambda>d. if d = c' then rank before ?k (L ! d) else last_pos (\<lambda>a. before a ?k) (L ! d)) L ?k c'
        (m\<lparr>mi_children := ws, mi_direction := kReverse\<rparr>)"
      using mi_at_cmp [OF at] by (simp add: facing_def)
    then show ?thesis using False ws(1) by auto
  qed
qed

lemma mi_Next_at:
  assumes at: "mi_at L M i m" and i: "i < length M"
  shows "\<exists>m'. mi_Next ops m = Inr m' \<and> mi_at L M (Suc i) m'"
proof -
  let ?k = "fst (M ! i)" and ?p = "\<lambda>a. \<not> before (fst (M ! i)) a"
  have M: "merge_of L M" using mi_at_cmp [OF at] by simp
  note incM = merge_ofD(1) [OF M] and inc = merge_ofD(2) [OF M]
  have k: "valid ?k" by (rule increasing_nth(1) [OF incM i])
  obtain m1 c where m1: "(if mi_direction m \<noteq> kForward then
        bind_res (each_child (turn_forward ops) [0..<length (mi_children m)] m) (\<lambda>m. Inr (m\<lparr>mi_direction := kForward\<rparr>))
      else Inr m) = Inr m1" "mi_direction m1 = kForward" "facing (\<lambda>d. rank before ?k (L ! d)) L ?k c m1"
    using mi_turn(1) [OF at i] by blast
  obtain ws where ws: "move_current (w_Next ops) m1 = Inr (m1\<lparr>mi_children := ws\<rparr>)"
    "children_at L ((\<lambda>d. rank before ?k (L ! d))(c := Suc (rank before ?k (L ! c)))) ws"
    using move_current_at [of L _ m1 c "w_Next ops" "Suc (rank before ?k (L ! c))"] m1(3) w_moves_at(4)
    unfolding facing_def by blast
  have upto: "count_keys ?p (L ! d) = (if d = c then Suc (rank before ?k (L ! c)) else rank before ?k (L ! d))"
    if "d < length L" for d
    using count_keys_upto [OF inc [OF that] k] m1(3) that by (auto simp: facing_def)
  have "children_at L (\<lambda>d. count_keys ?p (L ! d)) ws"
    by (rule children_at_cong [OF ws(2)]) (simp add: upto)
  moreover have "count_keys ?p M = Suc i"
    using count_keys_upto [OF incM k] rank_nth [OF incM i] i by simp
  ultimately obtain r where r: "FindSmallest (m1\<lparr>mi_children := ws\<rparr>) = Inr (m1\<lparr>mi_children := ws, mi_current := r\<rparr>)"
    "mi_at L M (Suc i) (m1\<lparr>mi_children := ws, mi_current := r, mi_direction := kForward\<rparr>)"
    using mi_at_smallest [OF M downward_upto [OF k], of "m1\<lparr>mi_children := ws\<rparr>"] m1(3) by (auto simp: facing_def)
  have "m1\<lparr>mi_children := ws, mi_current := r, mi_direction := kForward\<rparr> = m1\<lparr>mi_children := ws, mi_current := r\<rparr>"
    using m1(2) by (intro direction_same) simp
  moreover have "mi_Next ops m = Inr (m1\<lparr>mi_children := ws, mi_current := r\<rparr>)"
    using mi_read_at(1) [OF at] i by (simp add: mi_Next_def m1(1) ws(1) r(1))
  ultimately show ?thesis using r(2) by simp
qed

lemma mi_Prev_at:
  assumes at: "mi_at L M i m" and i: "i < length M"
  shows "\<exists>m'. mi_Prev ops m = Inr m' \<and> mi_at L M (if i = 0 then length M else i - 1) m'"
proof -
  let ?k = "fst (M ! i)" and ?p = "\<lambda>a. before a (fst (M ! i))"
  have M: "merge_of L M" using mi_at_cmp [OF at] by simp
  note incM = merge_ofD(1) [OF M]
  have k: "valid ?k" by (rule increasing_nth(1) [OF incM i])
  obtain m1 c where m1: "(if mi_direction m \<noteq> kReverse then
        bind_res (each_child (turn_reverse ops) [0..<length (mi_children m)] m) (\<lambda>m. Inr (m\<lparr>mi_direction := kReverse\<rparr>))
      else Inr m) = Inr m1" "mi_direction m1 = kReverse"
      "facing (\<lambda>d. if d = c then rank before ?k (L ! d) else last_pos ?p (L ! d)) L ?k c m1"
    using mi_turn(2) [OF at i] by blast
  let ?pos = "\<lambda>d. if d = c then rank before ?k (L ! d) else last_pos ?p (L ! d)"
  have move: "\<exists>w'. w_Prev ops w = Inr w' \<and> w_at (L ! c) (last_pos ?p (L ! c)) w'" if "w_at (L ! c) (?pos c) w" for w
    using w_moves_at(5) [OF that] m1(3) by (auto simp: facing_def last_pos_def rank_count)
  obtain ws where ws: "move_current (w_Prev ops) m1 = Inr (m1\<lparr>mi_children := ws\<rparr>)"
    "children_at L (?pos(c := last_pos ?p (L ! c))) ws"
    using move_current_at [of L ?pos m1 c "w_Prev ops" "last_pos ?p (L ! c)"] m1(3) move unfolding facing_def by blast
  have "children_at L (\<lambda>d. last_pos ?p (L ! d)) ws"
    by (rule children_at_cong [OF ws(2)]) simp
  moreover have "last_pos ?p M = (if i = 0 then length M else i - 1)"
    using rank_nth [OF incM i] by (simp add: last_pos_def rank_count)
  ultimately obtain r where r: "FindLargest (m1\<lparr>mi_children := ws\<rparr>) = Inr (m1\<lparr>mi_children := ws, mi_current := r\<rparr>)"
    "mi_at L M (if i = 0 then length M else i - 1) (m1\<lparr>mi_children := ws, mi_current := r, mi_direction := kReverse\<rparr>)"
    using mi_at_largest [OF M downward_before [OF k], of "m1\<lparr>mi_children := ws\<rparr>"] m1(3) by (auto simp: facing_def)
  have "m1\<lparr>mi_children := ws, mi_current := r, mi_direction := kReverse\<rparr> = m1\<lparr>mi_children := ws, mi_current := r\<rparr>"
    using m1(2) by (intro direction_same) simp
  moreover have "mi_Prev ops m = Inr (m1\<lparr>mi_children := ws, mi_current := r\<rparr>)"
    using mi_read_at(1) [OF at] i by (simp add: mi_Prev_def m1(1) ws(1) r(1))
  ultimately show ?thesis using r(2) by simp
qed

subsection \<open>The merging iterator meets the interface\<close>

definition merged_at :: "(slice \<times> slice) list \<Rightarrow> nat \<Rightarrow> 's Merged \<Rightarrow> bool" where
  "merged_at M i x \<longleftrightarrow> (case x of NoChild \<Rightarrow> M = [] \<and> i = 0 | OneChild s \<Rightarrow> at M i s
     | Children m \<Rightarrow> \<exists>L. mi_at L M i m)"

lemma merging_sorted: "sorted_iterator cmp valid before (merging_iterator ops) merged_at"
proof unfold_locales
  fix M i and x :: "'s Merged"
  assume at: "merged_at M i x"
  note defs = merging_iterator_def merged_read_def merged_move_def merged_at_def EmptyIterator_def
  show "increasing (map fst M) \<and> i \<le> length M"
    using at at_increasing by (cases x) (auto simp: merged_at_def increasing_def mi_at_def merge_of_def)
  show "it_Valid (merging_iterator ops) x \<longleftrightarrow> i < length M"
    using at at_Valid mi_read_at(1) by (cases x) (auto simp: defs)
  show "it_key (merging_iterator ops) x = Inr (fst (M ! i))" "it_value (merging_iterator ops) x = Inr (snd (M ! i))"
    if "i < length M"
    using at that at_key at_value mi_read_at(2,3) by (cases x; auto simp: defs)+
  show "it_status (merging_iterator ops) x = Inr OK"
    using at at_status mi_read_at(4) by (cases x) (auto simp: defs)
  show "\<exists>s'. it_SeekToFirst (merging_iterator ops) x = Inr s' \<and> merged_at M 0 s'"
    using at at_SeekToFirst mi_SeekToFirst_at by (cases x) (fastforce simp: defs)+
  show "\<exists>s'. it_SeekToLast (merging_iterator ops) x = Inr s' \<and> merged_at M (length M - 1) s'"
    using at at_SeekToLast mi_SeekToLast_at by (cases x) (fastforce simp: defs)+
  show "\<exists>s'. it_Seek (merging_iterator ops) t x = Inr s' \<and> merged_at M (rank before t M) s'" if "valid t" for t
    using at at_Seek [OF _ that] mi_Seek_at [OF _ that] by (cases x) (fastforce simp: defs rank_def)+
  show "\<exists>s'. it_Next (merging_iterator ops) x = Inr s' \<and> merged_at M (Suc i) s'" if "i < length M"
    using at that at_Next mi_Next_at by (cases x) (fastforce simp: defs)+
  show "\<exists>s'. it_Prev (merging_iterator ops) x = Inr s' \<and> merged_at M (if i = 0 then length M else i - 1) s'" if "i < length M"
    using at that at_Prev mi_Prev_at by (cases x) (fastforce simp: defs)+
  show "it_Next (merging_iterator ops) x = Inl AssertFail \<and> it_Prev (merging_iterator ops) x = Inl AssertFail"
    if "i = length M"
    using at that at_end mi_read_at(1) by (cases x) (auto simp: defs mi_Next_def mi_Prev_def)
qed

lemma set_children_at:
  assumes "length ss = length L" and "\<And>d. d < length L \<Longrightarrow> \<exists>j. at (L ! d) j (ss ! d)"
  shows "\<exists>ws pos. set_children ops ss = Inr ws \<and> children_at L pos ws"
  using assms
proof (induction ss arbitrary: L)
  case (Cons s ss)
  then obtain kvs L' where L: "L = kvs # L'" by (cases L) auto
  obtain j where "at kvs j s" using Cons.prems(2) [of 0] by (auto simp: L)
  then obtain w where w: "w_Set ops (Some s) new_wrapper = Inr w" "w_at kvs j w" using w_Set_at by blast
  have "\<exists>j. at (L' ! d) j (ss ! d)" if "d < length L'" for d using Cons.prems(2) [of "Suc d"] that by (simp add: L)
  then obtain ws pos where ws: "set_children ops ss = Inr ws" "children_at L' pos ws"
    using Cons.IH [of L'] Cons.prems(1) by (auto simp: L)
  have "children_at L (case_nat j pos) (w # ws)"
    unfolding children_at_def using w(2) ws(2) by (auto simp: L children_at_def nth_Cons split: nat.splits)
  then show ?case using w(1) ws(1) by auto
qed (simp add: children_at_def)

lemma NewMergingIterator_at:
  assumes "merge_of L M" and "length ss = length L" and "\<And>d. d < length L \<Longrightarrow> at (L ! d) (length (L ! d)) (ss ! d)"
  shows "\<exists>x. NewMergingIterator ops cmp ss = Inr x \<and> merged_at M (length M) x"
proof -
  consider "ss = []" | s where "ss = [s]" | s s' ss' where "ss = s # s' # ss'" by (metis neq_Nil_conv)
  then show ?thesis
  proof cases
    case 1
    then have "M = []" using assms(1,2) by (simp add: merge_of_def)
    then show ?thesis using 1 by (simp add: NewMergingIterator_def merged_at_def)
  next
    case (2 s)
    then obtain kvs where L: "L = [kvs]" using assms(2) by (cases L) auto
    then have "set M = set kvs" "increasing (map fst M)" "increasing (map fst kvs)" using assms(1) by (auto simp: merge_of_def)
    then have "M = kvs" by (rule increasing_unique)
    then show ?thesis using 2 assms(3) [of 0] by (simp add: NewMergingIterator_def merged_at_def L)
  next
    case (3 s s' ss')
    have "\<And>d. d < length L \<Longrightarrow> \<exists>j. at (L ! d) j (ss ! d)" using assms(3) by blast
    then obtain ws pos where ws: "set_children ops ss = Inr ws" "children_at L pos ws" using set_children_at [OF assms(2)] by blast
    have "mi_at L M (length M) \<lparr>mi_comparator = cmp, mi_children = ws, mi_current = None, mi_direction = kForward\<rparr>"
      using assms(1) ws(2) by (auto simp: mi_at_def)
    then show ?thesis using ws(1) 3 by (auto simp: NewMergingIterator_def new_MergingIterator_def merged_at_def)
  qed
qed

end

end
