(* ===== verification/Block_Iterator.thy ===== *)
theory Block_Iterator
  imports Block_Roundtrip Merger_Correct
begin

section \<open>The iterator of a block meets the interface\<close>

text \<open>
  What \<open>Block::NewIterator\<close> returns, as an \<open>iterator\<close>: a call goes to the iterator over the entries or
  to one over nothing. Over a block that was built it is a \<open>sorted_iterator\<close>, for every comparator that
  meets its contract.
\<close>

definition any_empty :: "AnyIter \<Rightarrow> Status" where
  "any_empty a = (case a of ErrorIter st \<Rightarrow> st | _ \<Rightarrow> OK)"

definition any_move :: "(BlockIter \<Rightarrow> BlockIter res) \<Rightarrow> (Status \<Rightarrow> Status res) \<Rightarrow> AnyIter \<Rightarrow> AnyIter res" where
  "any_move f g a = (case a of EntryIter it \<Rightarrow> bind_res (f it) (\<lambda>it. Inr (EntryIter it))
     | _ \<Rightarrow> bind_res (g (any_empty a)) (\<lambda>st. Inr a))"

definition any_read :: "(BlockIter \<Rightarrow> 'r) \<Rightarrow> (Status \<Rightarrow> 'r) \<Rightarrow> AnyIter \<Rightarrow> 'r" where
  "any_read f g a = (case a of EntryIter it \<Rightarrow> f it | _ \<Rightarrow> g (any_empty a))"

definition block_iterator :: "AnyIter iterator" where
  "block_iterator =
     \<lparr>it_Valid = any_read bi_Valid (it_Valid EmptyIterator),
      it_SeekToFirst = any_move bi_SeekToFirst (it_SeekToFirst EmptyIterator),
      it_SeekToLast = any_move bi_SeekToLast (it_SeekToLast EmptyIterator),
      it_Seek = \<lambda>t. any_move (\<lambda>it. bi_Seek it t) (it_Seek EmptyIterator t),
      it_Next = any_move bi_Next (it_Next EmptyIterator),
      it_Prev = any_move bi_Prev (it_Prev EmptyIterator),
      it_key = any_read bi_key_at (it_key EmptyIterator),
      it_value = any_read bi_value_at (it_value EmptyIterator),
      it_status = any_read (\<lambda>it. Inr (bi_status it)) (it_status EmptyIterator)\<rparr>"

lemma block_iterator_entry [simp]:
  "it_Valid block_iterator (EntryIter it) = bi_Valid it"
  "it_SeekToFirst block_iterator (EntryIter it) = bind_res (bi_SeekToFirst it) (\<lambda>it. Inr (EntryIter it))"
  "it_SeekToLast block_iterator (EntryIter it) = bind_res (bi_SeekToLast it) (\<lambda>it. Inr (EntryIter it))"
  "it_Seek block_iterator t (EntryIter it) = bind_res (bi_Seek it t) (\<lambda>it. Inr (EntryIter it))"
  "it_Next block_iterator (EntryIter it) = bind_res (bi_Next it) (\<lambda>it. Inr (EntryIter it))"
  "it_Prev block_iterator (EntryIter it) = bind_res (bi_Prev it) (\<lambda>it. Inr (EntryIter it))"
  "it_key block_iterator (EntryIter it) = bi_key_at it"
  "it_value block_iterator (EntryIter it) = bi_value_at it"
  "it_status block_iterator (EntryIter it) = Inr (bi_status it)"
  by (simp_all add: block_iterator_def any_read_def any_move_def)

lemma pairs_nth: "i < length es \<Longrightarrow> pairs es ! i = (ekey (es ! i), evalue (es ! i))"
  by (simp add: pairs_def)

lemma length_pairs [simp]: "length (pairs es) = length es"
  by (simp add: pairs_def)

text \<open>The iterator stands at position \<open>i\<close> of the entries, which is behind them where it is not valid.\<close>

definition placed :: "entry list \<Rightarrow> nat list \<Rightarrow> comparator \<Rightarrow> nat \<Rightarrow> BlockIter \<Rightarrow> bool" where
  "placed es rs cmp i it \<longleftrightarrow> layout es rs \<and>
     (if i < length es then standing es rs cmp i it else i = length es \<and> past es rs cmp it)"

lemma placed_iter_on: "placed es rs cmp i it \<Longrightarrow> layout es rs \<and> iter_on es rs cmp it \<and> i \<le> length es"
  by (auto simp: placed_def standing_def past_def split: if_splits)

lemma placed_read:
  assumes "placed es rs cmp i it"
  shows "bi_Valid it \<longleftrightarrow> i < length es" and "i < length es \<Longrightarrow> bi_key_at it = Inr (ekey (es ! i))"
    and "i < length es \<Longrightarrow> bi_value_at it = Inr (evalue (es ! i))" and "bi_status it = OK"
  using assms standing_current(3) [of es rs cmp i it] standing_read [of es rs cmp i it] past_Valid placed_iter_on [OF assms]
  by (auto simp: placed_def iter_on_def split: if_splits)

lemma placed_moves:
  assumes "placed es rs cmp i it"
  shows "\<exists>it'. bi_SeekToFirst it = Inr it' \<and> placed es rs cmp 0 it'"
    and "\<exists>it'. bi_SeekToLast it = Inr it' \<and> placed es rs cmp (length es - 1) it'"
    and "i < length es \<Longrightarrow> \<exists>it'. bi_Next it = Inr it' \<and> placed es rs cmp (Suc i) it'"
    and "i < length es \<Longrightarrow> \<exists>it'. bi_Prev it = Inr it' \<and> placed es rs cmp (if i = 0 then length es else i - 1) it'"
    and "i = length es \<Longrightarrow> bi_Next it = Inl AssertFail \<and> bi_Prev it = Inl AssertFail"
proof -
  have lay: "layout es rs" and on: "iter_on es rs cmp it" using placed_iter_on [OF assms] by simp_all
  show "\<exists>it'. bi_SeekToFirst it = Inr it' \<and> placed es rs cmp 0 it'"
    using bi_SeekToFirst_on [OF lay on] lay by (auto simp: placed_def)
  show "\<exists>it'. bi_SeekToLast it = Inr it' \<and> placed es rs cmp (length es - 1) it'"
    using bi_SeekToLast_on [OF lay on] lay by (cases "es = []") (auto simp: placed_def)
  show "\<exists>it'. bi_Next it = Inr it' \<and> placed es rs cmp (Suc i) it'" if "i < length es"
    using bi_Next_on [OF lay, of cmp i it] assms that lay by (auto simp: placed_def split: if_splits)
  show "\<exists>it'. bi_Prev it = Inr it' \<and> placed es rs cmp (if i = 0 then length es else i - 1) it'" if "i < length es"
    using bi_Prev_on [OF lay, of cmp i it] assms that lay by (auto simp: placed_def split: if_splits)
  show "bi_Next it = Inl AssertFail \<and> bi_Prev it = Inl AssertFail" if "i = length es"
    using placed_read(1) [OF assms] that by (simp add: bi_Next_def bi_Prev_def)
qed

context key_order
begin

definition block_at :: "(slice \<times> slice) list \<Rightarrow> nat \<Rightarrow> AnyIter \<Rightarrow> bool" where
  "block_at kvs i a \<longleftrightarrow> (\<exists>es rs it. a = EntryIter it \<and> placed es rs cmp i it \<and> pairs es = kvs \<and>
     increasing (map ekey es))"

lemma block_atI: "placed es rs cmp i it \<Longrightarrow> increasing (map ekey es) \<Longrightarrow> block_at (pairs es) i (EntryIter it)"
  unfolding block_at_def by blast

lemma placed_Seek:
  assumes "placed es rs cmp i it" and "increasing (map ekey es)" and "valid t"
  shows "\<exists>it'. bi_Seek it t = Inr it' \<and> placed es rs cmp (rank before t (pairs es)) it'"
proof -
  have lay: "layout es rs" and on: "iter_on es rs cmp it" using placed_iter_on [OF assms(1)] by simp_all
  obtain it' j where it': "bi_Seek it t = Inr it'" "j \<le> length es"
    "pairs (drop j es) = filter (\<lambda>(k, _). \<not> before k t) (pairs es)"
    "if j < length es then standing es rs cmp j it' else past es rs cmp it'"
    using bi_Seek_on [OF lay assms(2,3) on] by blast
  have "length (filter (\<lambda>(k, _). before k t) (pairs es)) + length (filter (\<lambda>(k, _). \<not> before k t) (pairs es)) = length es"
    using sum_length_filter_compl [of "\<lambda>(k, _). before k t" "pairs es"] by (simp add: case_prod_unfold)
  then have "rank before t (pairs es) = j"
    using it'(2) arg_cong [OF it'(3), of length] by (simp add: rank_def)
  then show ?thesis using it' lay by (auto simp: placed_def)
qed

end

sublocale key_order < blocks: sorted_iterator cmp valid before block_iterator block_at
proof unfold_locales
  fix kvs i a
  assume "block_at kvs i a"
  then obtain es rs it where a: "a = EntryIter it" "placed es rs cmp i it" "kvs = pairs es" "increasing (map ekey es)"
    by (auto simp: block_at_def)
  note moves = placed_moves [OF a(2)] and read = placed_read [OF a(2)]
  show "increasing (map fst kvs) \<and> i \<le> length kvs"
    using a(4) placed_iter_on [OF a(2)] by (simp add: a(3) ekey_pairs)
  show "it_Valid block_iterator a \<longleftrightarrow> i < length kvs" "it_status block_iterator a = Inr OK"
    using read by (simp_all add: a(1,3))
  show "it_key block_iterator a = Inr (fst (kvs ! i))" "it_value block_iterator a = Inr (snd (kvs ! i))" if "i < length kvs"
    using read that by (simp_all add: a(1,3) pairs_nth)
  show "\<exists>s'. it_SeekToFirst block_iterator a = Inr s' \<and> block_at kvs 0 s'"
    "\<exists>s'. it_SeekToLast block_iterator a = Inr s' \<and> block_at kvs (length kvs - 1) s'"
    using moves(1,2) block_atI [OF _ a(4)] by (fastforce simp: a(1,3))+
  show "\<exists>s'. it_Seek block_iterator t a = Inr s' \<and> block_at kvs (rank before t kvs) s'" if "valid t" for t
    using placed_Seek [OF a(2,4) that] block_atI [OF _ a(4)] by (fastforce simp: a(1,3))
  show "\<exists>s'. it_Next block_iterator a = Inr s' \<and> block_at kvs (Suc i) s'"
    "\<exists>s'. it_Prev block_iterator a = Inr s' \<and> block_at kvs (if i = 0 then length kvs else i - 1) s'" if "i < length kvs"
    using moves(3,4) that block_atI [OF _ a(4)] by (fastforce simp: a(1,3))+
  show "it_Next block_iterator a = Inl AssertFail \<and> it_Prev block_iterator a = Inl AssertFail" if "i = length kvs"
    using moves(5) a that by simp
qed

context key_order
begin

text \<open>A block that was built, opened: the cursor behind its pairs.\<close>

lemma open_block_at:
  assumes "1 \<le> interval" and "interval < 2 ^ 31" and "increasing (map fst kvs)"
    and "\<forall>(k, v) \<in> set kvs. length k + length v < 2 ^ 32"
  shows "\<exists>contents. build_block interval cmp kvs = Inr contents \<and>
    (length contents < 2 ^ 32 \<longrightarrow> (\<exists>a. open_block contents cmp = Inr a \<and> block_at kvs (length kvs) a))"
proof -
  obtain contents where c: "build_block interval cmp kvs = Inr contents"
    "length contents < 2 ^ 32 \<Longrightarrow> \<exists>es rs it. layout es rs \<and> pairs es = kvs \<and> increasing (map ekey es) \<and>
      open_block contents cmp = Inr (EntryIter it) \<and> iter_on es rs cmp it \<and> bi_current it = bi_restarts it"
    using build_block_layout [OF assms] by blast
  have "\<exists>a. open_block contents cmp = Inr a \<and> block_at kvs (length kvs) a" if l: "length contents < 2 ^ 32"
  proof -
    obtain es rs it where e: "layout es rs" "pairs es = kvs" "increasing (map ekey es)"
      "open_block contents cmp = Inr (EntryIter it)" "iter_on es rs cmp it" "bi_current it = bi_restarts it"
      using c(2) [OF l] by blast
    then have "placed es rs cmp (length es) it" by (simp add: placed_def past_def)
    then have "block_at kvs (length kvs) (EntryIter it)" using block_atI [OF _ e(3)] e(2) by fastforce
    then show ?thesis using e(4) by blast
  qed
  then show ?thesis using c(1) by blast
qed

end

end
