(* ===== verification/Merged_Blocks.thy ===== *)
theory Merged_Blocks
  imports Block_Iterator
begin

section \<open>Merging the blocks\<close>

text \<open>
  The merging iterator over the iterators of blocks that were built: the interface of the first is met
  by the second, so that what a client sees of the merge is a cursor over the sorted pairs.
\<close>

interpretation merged_blocks: sorted_iterator BytewiseComparator "\<lambda>_. True" "(<)" "merging_iterator block_iterator"
  bytewise.blocks.merged_at
  by (rule bytewise.blocks.merging_sorted)

fun open_blocks :: "int \<Rightarrow> (slice \<times> slice) list list \<Rightarrow> AnyIter list res" where
  "open_blocks interval [] = Inr []"
| "open_blocks interval (kvs # L) =
     bind_res (build_block interval BytewiseComparator kvs) (\<lambda>contents.
     bind_res (open_block contents BytewiseComparator) (\<lambda>a.
     bind_res (open_blocks interval L) (\<lambda>as. Inr (a # as))))"

text \<open>The sizes fit the 32-bit offsets of a block.\<close>

definition block_fits :: "int \<Rightarrow> (slice \<times> slice) list \<Rightarrow> bool" where
  "block_fits interval kvs \<longleftrightarrow> (\<forall>(k, v) \<in> set kvs. length k + length v < 2 ^ 32) \<and>
     (case build_block interval BytewiseComparator kvs of Inl e \<Rightarrow> False | Inr contents \<Rightarrow> length contents < 2 ^ 32)"

lemma open_blocks_at:
  assumes "1 \<le> interval" and "interval < 2 ^ 31" and "\<forall>kvs \<in> set L. bytewise.increasing (map fst kvs) \<and> block_fits interval kvs"
  shows "\<exists>as. open_blocks interval L = Inr as \<and> length as = length L \<and>
    (\<forall>d < length L. bytewise.block_at (L ! d) (length (L ! d)) (as ! d))"
  using assms(3)
proof (induction L)
  case (Cons kvs L)
  have k: "bytewise.increasing (map fst kvs)" "\<forall>(k, v) \<in> set kvs. length k + length v < 2 ^ 32" and f: "block_fits interval kvs"
    using Cons.prems by (auto simp: block_fits_def)
  obtain contents a where "build_block interval BytewiseComparator kvs = Inr contents"
    "open_block contents BytewiseComparator = Inr a" "bytewise.block_at kvs (length kvs) a"
    using bytewise.open_block_at [OF assms(1,2) k] f by (auto simp: block_fits_def)
  moreover obtain as where "open_blocks interval L = Inr as" "length as = length L"
    "\<forall>d < length L. bytewise.block_at (L ! d) (length (L ! d)) (as ! d)"
    using Cons by auto
  ultimately show ?case by (auto simp: nth_Cons split: nat.splits)
qed simp

lemma sorted_concat_merge:
  assumes "\<forall>kvs \<in> set L. sorted_wrt (<) (map fst kvs)" and "distinct (map fst (concat L))"
  shows "bytewise.merge_of L (sort_key fst (concat L))"
proof (rule bytewise.merge_of_mset)
  have "distinct (map fst (sort_key fst (concat L)))"
    using assms(2) by (simp add: distinct_map)
  then show "bytewise.increasing (map fst (sort_key fst (concat L)))" by (simp add: bytewise.increasing_def strict_sorted_iff)
qed (use assms(1) in \<open>simp_all add: bytewise.increasing_def\<close>)

subsection \<open>Properties\<close>

text \<open>
  C13: merging blocks whose keys are distinct gives one iterator over all their pairs in order: for
  every sequence of calls, in both directions and with turns anywhere, the merging iterator shows exactly
  the entries a cursor over the sorted list of the pairs shows, and fails the assertions the cursor fails.
\<close>

theorem merging_iterator_merges:
  assumes "1 \<le> interval" and "interval < 2 ^ 31" and "\<forall>kvs \<in> set L. sorted_wrt (<) (map fst kvs) \<and> block_fits interval kvs"
    and "distinct (map fst (concat L))"
  shows "\<exists>as x. open_blocks interval L = Inr as \<and> NewMergingIterator block_iterator BytewiseComparator as = Inr x \<and>
    (\<forall>cs. run_ops (merging_iterator block_iterator) cs x =
      run_cursor (<) (sort_key fst (concat L)) cs (length (concat L)))"
proof -
  obtain as where as: "open_blocks interval L = Inr as" "length as = length L"
    "\<forall>d < length L. bytewise.block_at (L ! d) (length (L ! d)) (as ! d)"
    using open_blocks_at [OF assms(1,2), of L] assms(3) by (auto simp: bytewise.increasing_def)
  have "bytewise.merge_of L (sort_key fst (concat L))" using assms(3,4) by (intro sorted_concat_merge) auto
  from bytewise.blocks.NewMergingIterator_at [OF this as(2)] as(3) obtain x where
    x: "NewMergingIterator block_iterator BytewiseComparator as = Inr x"
    "bytewise.blocks.merged_at (sort_key fst (concat L)) (length (sort_key fst (concat L))) x" by auto
  then show ?thesis using as(1) merged_blocks.run_ops_cursor [OF x(2)] by auto
qed

theorem merging_iterator_merges_witness:
  "\<exists>as x. open_blocks 1 [[([1], [7]), ([3], [])], [([2], [9])]] = Inr as \<and>
    NewMergingIterator block_iterator BytewiseComparator as = Inr x \<and>
    run_ops (merging_iterator block_iterator) [SeekToFirst, Next, Prev, Seek [2, 5], Prev, Prev, Prev] x =
      Inr [Some ([1], [7]), Some ([2], [9]), Some ([1], [7]), Some ([3], []), Some ([2], [9]), Some ([1], [7]), None]"
proof -
  let ?L = "[[([1], [7]), ([3], [])], [([2], [9])]] :: (slice \<times> slice) list list"
  have "build_block 1 BytewiseComparator [([1], [7]), ([3], [])] =
      Inr [0, 1, 1, 1, 7, 0, 1, 0, 3, 0, 0, 0, 0, 5, 0, 0, 0, 2, 0, 0, 0]"
    "build_block 1 BytewiseComparator [([2], [9])] = Inr [0, 1, 1, 2, 9, 0, 0, 0, 0, 1, 0, 0, 0]"
    by code_simp+
  then have "\<forall>kvs \<in> set ?L. sorted_wrt (<) (map fst kvs) \<and> block_fits 1 kvs" "distinct (map fst (concat ?L))"
    by (simp_all add: block_fits_def)
  then obtain as x where x: "open_blocks 1 ?L = Inr as" "NewMergingIterator block_iterator BytewiseComparator as = Inr x"
    "\<And>cs. run_ops (merging_iterator block_iterator) cs x = run_cursor (<) (sort_key fst (concat ?L)) cs (length (concat ?L))"
    using merging_iterator_merges [of 1 ?L] by auto
  have "run_cursor (<) (sort_key fst (concat ?L)) [SeekToFirst, Next, Prev, Seek [2, 5], Prev, Prev, Prev] (length (concat ?L)) =
    Inr [Some ([1], [7]), Some ([2], [9]), Some ([1], [7]), Some ([3], []), Some ([2], [9]), Some ([1], [7]), None]"
    by code_simp
  then have "run_ops (merging_iterator block_iterator) [SeekToFirst, Next, Prev, Seek [2, 5], Prev, Prev, Prev] x =
    Inr [Some ([1], [7]), Some ([2], [9]), Some ([1], [7]), Some ([3], []), Some ([2], [9]), Some ([1], [7]), None]"
    unfolding x(3) .
  then show ?thesis using x(1,2) by blast
qed

end
