(* ===== verification/Random_File.thy ===== *)
theory Random_File
  imports Mem_Env
begin

section \<open>Random-access files\<close>

text \<open>
  The interface \<open>RandomAccessFile\<close> of \<open>leveldb-mcpe/include/leveldb/env.h\<close> as a record with its contract as a
  locale, and the random-access files of the in-memory environment over it.
\<close>

text \<open>
  \<open>Read\<close> gets the offset and the number of bytes, and returns what the result refers to and whether that
  is the scratch buffer of the caller, and not memory of the file. It does not change the file.
\<close>

record 's RandomAccessFile =
  ra_Read :: "u64 \<Rightarrow> nat \<Rightarrow> 's \<Rightarrow> (Status \<times> slice \<times> bool) res"

locale random_file =
  fixes f :: "'s RandomAccessFile" and inv :: "'s \<Rightarrow> bool" and contents :: "'s \<Rightarrow> slice"
  assumes read: "inv s \<Longrightarrow> unat off \<le> length (contents s) \<Longrightarrow>
      \<exists>b. ra_Read f off n s = Inr (OK, take n (drop (unat off) (contents s)), b)"

text \<open>
  \<open>FileState::Read\<close> copies into the scratch buffer what does not lie in one block.
\<close>

definition mem_random :: "nat \<Rightarrow> mem_env RandomAccessFile" where
  "mem_random a = \<lparr>ra_Read = \<lambda>offset n e.
     bind_res (Random_Read a (unat offset) n [] e) (\<lambda>(s, r).
       Inr (s, r, length r > mem_kBlockSize - unat offset mod mem_kBlockSize))\<rparr>"

interpretation mem_ra: random_file "mem_random a" "wr_inv a" "wr_contents a" for a
proof
  fix e and off :: u64 and n
  assume "wr_inv a e" and off: "unat off \<le> length (wr_contents a e)"
  then obtain f d where f: "heap e a = Some f" "file_holds f d" by (auto simp: wr_inv_def)
  then have d: "wr_contents a e = d" using holds_contents [OF f(2)] by (simp add: wr_contents_def)
  show "\<exists>b. ra_Read (mem_random a) off n e = Inr (OK, take n (drop (unat off) (wr_contents a e)), b)"
    using FileState_Read_holds [OF f(2), of "unat off" n "[]"] off f(1)
    by (simp add: d mem_random_def Random_Read_def object_def)
qed

end
