(* ===== verification/Table_Format.thy ===== *)
theory Table_Format
  imports Random_File Filter_Block Crc32c Block
begin

section \<open>The format of a table\<close>

text \<open>
  \<open>leveldb-mcpe/table/format.h\<close> and \<open>format.cc\<close>: the handle that names a block of a file, the footer, the
  trailer of a block, and \<open>ReadBlock\<close>, with the fields of the options (\<open>include/leveldb/options.h\<close>) that tables use
  and the interface of a compressor (\<open>include/leveldb/compressor.h\<close>). The compressors themselves wrap
  libraries; they are parameters. Memory is never exhausted.
\<close>

subsection \<open>Compressors and options\<close>

text \<open>
  \<open>compress\<close> and \<open>decompress\<close> get the input and what the output string holds; the counters that
  \<open>compress\<close> keeps for statistics are left out. The identifier is a \<open>char\<close>.
\<close>

record Compressor =
  uniqueCompressionID :: byte
  compress :: "slice \<Rightarrow> slice \<Rightarrow> slice res"
  decompress :: "slice \<Rightarrow> slice \<Rightarrow> (bool \<times> slice) res"

text \<open>\<open>comparator_at\<close> is the address of the comparator, which \<open>ChangeOptions\<close> compares.\<close>

record Options =
  comparator_at :: nat
  options_comparator :: comparator
  paranoid_checks :: bool
  block_size :: nat
  block_restart_interval :: int
  compressors :: "Compressor option list"
  options_filter_policy :: "filter_policy option"

record ReadOptions =
  verify_checksums :: bool
  fill_cache :: bool

definition new_ReadOptions :: ReadOptions where
  "new_ReadOptions = \<lparr>verify_checksums = False, fill_cache = True\<rparr>"

text \<open>
  The pool of strings that a client can pass for decompression: \<open>get\<close> hands out an empty string, the
  pool only keeps its memory.
\<close>

definition allocator_get :: "slice list \<Rightarrow> slice \<times> slice list" where
  "allocator_get stack = (if stack \<noteq> [] then ([], butlast stack) else ([], stack))"

definition allocator_release :: "slice \<Rightarrow> slice list \<Rightarrow> slice list" where
  "allocator_release string stack = stack @ [string]"

definition allocator_prune :: "slice list \<Rightarrow> slice list" where
  "allocator_prune stack = []"

lemma allocator_get_empty: "fst (allocator_get stack) = []"
  by (simp add: allocator_get_def)

subsection \<open>Handles\<close>

record BlockHandle =
  bh_offset :: u64
  bh_size :: u64

definition new_BlockHandle :: BlockHandle where
  "new_BlockHandle = \<lparr>bh_offset = NOT 0, bh_size = NOT 0\<rparr>"

definition kMaxEncodedLength :: nat where
  "kMaxEncodedLength = 10 + 10"

definition BlockHandle_EncodeTo :: "BlockHandle \<Rightarrow> slice \<Rightarrow> slice res" where
  "BlockHandle_EncodeTo h dst =
     bind_res (guard_res (bh_offset h \<noteq> NOT 0) AssertFail) (\<lambda>_.
     bind_res (guard_res (bh_size h \<noteq> NOT 0) AssertFail) (\<lambda>_.
       Inr (PutVarint64 (PutVarint64 dst (bh_offset h)) (bh_size h))))"

text \<open>The handle and the input afterwards: a varint that fails writes and consumes nothing.\<close>

definition BlockHandle_DecodeFrom :: "slice \<Rightarrow> BlockHandle \<Rightarrow> (Status \<times> BlockHandle \<times> slice) res" where
  "BlockHandle_DecodeFrom inp h =
     (let failed = (\<lambda>h inp. bind_res (Corruption (map char_byte ''bad block handle'') []) (\<lambda>s. Inr (s, h, inp))) in
      case GetVarint64 inp of None \<Rightarrow> failed h inp
      | Some (offset, inp) \<Rightarrow>
          let h = h\<lparr>bh_offset := offset\<rparr> in
          (case GetVarint64 inp of None \<Rightarrow> failed h inp
           | Some (sz, inp) \<Rightarrow> Inr (OK, h\<lparr>bh_size := sz\<rparr>, inp)))"

subsection \<open>The footer\<close>

record Footer =
  metaindex_handle :: BlockHandle
  index_handle :: BlockHandle

definition kEncodedLength :: nat where
  "kEncodedLength = 2 * kMaxEncodedLength + 8"

definition kTableMagicNumber :: u64 where
  "kTableMagicNumber = 0xdb4775248b80fb57"

definition kBlockTrailerSize :: nat where
  "kBlockTrailerSize = 5"

text \<open>\<open>std::string::resize\<close> cuts or pads with zeros.\<close>

definition string_resize :: "nat \<Rightarrow> slice \<Rightarrow> slice" where
  "string_resize n s = take n s @ replicate (n - length s) 0"

definition Footer_EncodeTo :: "Footer \<Rightarrow> slice \<Rightarrow> slice res" where
  "Footer_EncodeTo f dst =
     (let original_size = length dst in
      bind_res (BlockHandle_EncodeTo (metaindex_handle f) dst) (\<lambda>dst.
      bind_res (BlockHandle_EncodeTo (index_handle f) dst) (\<lambda>dst.
      let dst = string_resize (2 * kMaxEncodedLength) dst;
          dst = PutFixed32 dst (ucast (kTableMagicNumber AND 0xffffffff));
          dst = PutFixed32 dst (ucast (drop_bit 32 kTableMagicNumber)) in
      bind_res (guard_res (length dst = original_size + kEncodedLength) AssertFail) (\<lambda>_. Inr dst))))"

text \<open>
  The magic number is read at a fixed distance from the start of the input, whose length is not
  checked. \<open>*input\<close> moves behind the footer.
\<close>

definition Footer_DecodeFrom :: "slice \<Rightarrow> Footer \<Rightarrow> (Status \<times> Footer \<times> slice) res" where
  "Footer_DecodeFrom inp f =
     bind_res (DecodeFixed32 (drop (kEncodedLength - 8) inp)) (\<lambda>magic_lo.
     bind_res (DecodeFixed32 (drop (kEncodedLength - 8 + 4) inp)) (\<lambda>magic_hi.
     let magic = push_bit 32 (ucast magic_hi :: u64) OR ucast magic_lo in
     if magic \<noteq> kTableMagicNumber then
       bind_res (Corruption (map char_byte ''not an sstable (bad magic number)'') []) (\<lambda>s. Inr (s, f, inp))
     else
       bind_res (BlockHandle_DecodeFrom inp (metaindex_handle f)) (\<lambda>(result, h, rest).
       let f = f\<lparr>metaindex_handle := h\<rparr> in
       bind_res (if ok result then
           bind_res (BlockHandle_DecodeFrom rest (index_handle f)) (\<lambda>(result, h, rest).
             Inr (result, f\<lparr>index_handle := h\<rparr>, rest))
         else Inr (result, f, rest)) (\<lambda>(result, f, rest).
         Inr (result, f, if ok result then drop kEncodedLength inp else rest)))))"

subsection \<open>Reading a block\<close>

record BlockContents =
  bc_data :: slice
  bc_cachable :: bool
  bc_heap_allocated :: bool

text \<open>
  The loop over the 256 entries of \<open>compressors\<close> stops at the first that is \<open>NULL\<close> or has the
  identifier; a \<open>char\<close> and an \<open>unsigned char\<close> are compared as \<open>int\<close>s.
\<close>

fun find_compressor :: "Compressor option list \<Rightarrow> byte \<Rightarrow> Compressor option" where
  "find_compressor [] compressionID = None"
| "find_compressor (None # cs) compressionID = None"
| "find_compressor (Some c # cs) compressionID =
     (if sint (uniqueCompressionID c) = uint compressionID then Some c else find_compressor cs compressionID)"

text \<open>
  The length \<open>n + kBlockTrailerSize\<close> is one of \<open>size_t\<close>. \<open>data[n]\<close> and the checksum are read from what
  \<open>Read\<close> returned. The buffer for decompression is empty, from the allocator or not.
\<close>

definition ReadBlock :: "(u32 \<Rightarrow> slice \<Rightarrow> u32) \<Rightarrow> 's RandomAccessFile \<Rightarrow> Options \<Rightarrow> ReadOptions \<Rightarrow> BlockHandle \<Rightarrow>
    's \<Rightarrow> (Status \<times> BlockContents) res" where
  "ReadBlock acc file dbOptions options handle s =
     (let result = \<lparr>bc_data = [], bc_cachable = False, bc_heap_allocated = False\<rparr>;
          failed = (\<lambda>s. bind_res s (\<lambda>s. Inr (s, result)));
          n = unat (bh_size handle); m = unat (bh_size handle + of_nat kBlockTrailerSize) in
      bind_res (ra_Read file (bh_offset handle) m s) (\<lambda>(st, contents, scratch).
      if \<not> ok st then Inr (st, result)
      else if length contents \<noteq> m then failed (Corruption (map char_byte ''truncated block read'') [])
      else
        bind_res (if verify_checksums options then
            bind_res (DecodeFixed32 (drop (n + 1) contents)) (\<lambda>stored.
            bind_res (guard_res (n + 1 \<le> length contents) Undefined) (\<lambda>_.
              Inr (crc_value acc 0 (take (n + 1) contents) = Unmask stored)))
          else Inr True) (\<lambda>intact.
        if \<not> intact then failed (Corruption (map char_byte ''block checksum mismatch'') [])
        else
          bind_res (vec_at contents (int n)) (\<lambda>compressionID.
          if compressionID = 0 then
            Inr (OK, \<lparr>bc_data = take n contents, bc_cachable = scratch, bc_heap_allocated = scratch\<rparr>)
          else
            (case find_compressor (compressors dbOptions) compressionID of
               None \<Rightarrow> failed (NotSupported
                 (map char_byte ''encountered a block compressed with an unknown decompressor'') [])
             | Some c \<Rightarrow>
                 bind_res (decompress c (take n contents) []) (\<lambda>(success, buffer).
                 if success then Inr (OK, \<lparr>bc_data = buffer, bc_cachable = True, bc_heap_allocated = True\<rparr>)
                 else failed (Corruption (map char_byte ''corrupted compressed block contents'') [])))))))"

subsection \<open>Handles and footers are read back\<close>

lemma BlockHandle_decode:
  "BlockHandle_DecodeFrom (EncodeVarint64 off @ EncodeVarint64 sz @ r) h = Inr (OK, \<lparr>bh_offset = off, bh_size = sz\<rparr>, r)"
  by (cases h) (simp add: BlockHandle_DecodeFrom_def)

lemma BlockHandle_encode:
  "BlockHandle_EncodeTo h dst = Inr e \<longleftrightarrow> bh_offset h \<noteq> NOT 0 \<and> bh_size h \<noteq> NOT 0 \<and>
     e = dst @ EncodeVarint64 (bh_offset h) @ EncodeVarint64 (bh_size h)"
  by (auto simp: BlockHandle_EncodeTo_def PutVarint64_def res_simps)

text \<open>The bytes of a handle and of a footer.\<close>

definition handle_bytes :: "BlockHandle \<Rightarrow> slice" where
  "handle_bytes h = EncodeVarint64 (bh_offset h) @ EncodeVarint64 (bh_size h)"

definition handle_ok :: "BlockHandle \<Rightarrow> bool" where
  "handle_ok h \<longleftrightarrow> bh_offset h \<noteq> NOT 0 \<and> bh_size h \<noteq> NOT 0"

definition footer_bytes :: "Footer \<Rightarrow> slice" where
  "footer_bytes f =
     (let hs = handle_bytes (metaindex_handle f) @ handle_bytes (index_handle f) in
      hs @ replicate (40 - length hs) 0 @ EncodeFixed32 0x8b80fb57 @ EncodeFixed32 0xdb477524)"

lemma EncodeTo_bytes: "handle_ok h \<Longrightarrow> BlockHandle_EncodeTo h dst = Inr (dst @ handle_bytes h)"
  by (simp add: BlockHandle_encode handle_ok_def handle_bytes_def)

lemma DecodeFrom_bytes: "BlockHandle_DecodeFrom (handle_bytes h @ r) h' = Inr (OK, h, r)"
  using BlockHandle_decode [of "bh_offset h" "bh_size h" r h'] by (simp add: handle_bytes_def)

lemma length_handle_bytes: "length (handle_bytes h) \<le> 20"
  using length_EncodeVarint(2) [of "bh_offset h"] length_EncodeVarint(2) [of "bh_size h"] by (simp add: handle_bytes_def)

lemma length_footer_bytes [simp]: "length (footer_bytes f) = 48"
  using length_handle_bytes [of "metaindex_handle f"] length_handle_bytes [of "index_handle f"]
  by (simp add: footer_bytes_def Let_def)

lemma magic_halves:
  "(ucast (kTableMagicNumber AND 0xffffffff) :: u32) = 0x8b80fb57" "(ucast (drop_bit 32 kTableMagicNumber) :: u32) = 0xdb477524"
  by (simp_all add: kTableMagicNumber_def)

lemma footer_sizes: "kMaxEncodedLength = 20" "kEncodedLength = 48" "kBlockTrailerSize = 5"
  by (simp_all add: kMaxEncodedLength_def kEncodedLength_def kBlockTrailerSize_def)

lemma Footer_encode:
  assumes "handle_ok (metaindex_handle f)" and "handle_ok (index_handle f)"
  shows "Footer_EncodeTo f [] = Inr (footer_bytes f)"
  using assms length_handle_bytes [of "metaindex_handle f"] length_handle_bytes [of "index_handle f"]
  by (simp add: Footer_EncodeTo_def EncodeTo_bytes footer_sizes string_resize_def PutFixed32_def magic_halves
    footer_bytes_def Let_def)

lemma Footer_decode: "Footer_DecodeFrom (footer_bytes f @ r) f' = Inr (OK, f, r)"
proof -
  let ?hs = "handle_bytes (metaindex_handle f) @ handle_bytes (index_handle f)"
  let ?p = "?hs @ replicate (40 - length ?hs) 0"
  have len: "length ?p = 40"
    using length_handle_bytes [of "metaindex_handle f"] length_handle_bytes [of "index_handle f"] by simp
  have b: "footer_bytes f @ r = ?p @ EncodeFixed32 0x8b80fb57 @ EncodeFixed32 0xdb477524 @ r"
    by (simp add: footer_bytes_def Let_def)
  have "drop 40 (footer_bytes f @ r) = EncodeFixed32 0x8b80fb57 @ EncodeFixed32 0xdb477524 @ r"
    "drop 44 (footer_bytes f @ r) = EncodeFixed32 0xdb477524 @ r"
    unfolding b using len by simp_all
  moreover have "BlockHandle_DecodeFrom (footer_bytes f @ r) (metaindex_handle f') =
      Inr (OK, metaindex_handle f, handle_bytes (index_handle f) @ replicate (40 - length ?hs) 0 @
        EncodeFixed32 0x8b80fb57 @ EncodeFixed32 0xdb477524 @ r)"
    unfolding b by (simp only: append_assoc DecodeFrom_bytes)
  moreover have "drop 48 (footer_bytes f @ r) = r" by simp
  ultimately show ?thesis
    by (cases f) (simp add: Footer_DecodeFrom_def footer_sizes kTableMagicNumber_def DecodeFrom_bytes)
qed

end
