(* ===== verification/Two_Level.thy ===== *)
theory Two_Level
  imports Iterators
begin

section \<open>Two-level iterators\<close>

text \<open>
  \<open>leveldb-mcpe/table/two_level_iterator.cc\<close>: an iterator over the blocks an index names, with the block
  function as a parameter. Its result may be \<open>NULL\<close>. The two loops that skip empty blocks recurse on
  fuel, one unit for each index entry they pass.
\<close>

record ('i, 'd) TwoLevelIterator =
  tl_status :: Status
  tl_index :: "'i wrapper"
  tl_data :: "'d wrapper"
  tl_handle :: slice

text \<open>The interfaces of the two levels, the block function and the fuel of the loops.\<close>

record ('i, 'd) levels =
  index_ops :: "'i iterator"
  data_ops :: "'d iterator"
  block_function :: "slice \<Rightarrow> 'd option res"
  skip_fuel :: nat

definition new_TwoLevelIterator :: "('i, 'd) levels \<Rightarrow> 'i \<Rightarrow> ('i, 'd) TwoLevelIterator res" where
  "new_TwoLevelIterator lv index_iter =
     bind_res (w_Set (index_ops lv) (Some index_iter) new_wrapper) (\<lambda>w.
     bind_res (w_Set (data_ops lv) None new_wrapper) (\<lambda>d.
       Inr \<lparr>tl_status = OK, tl_index = w, tl_data = d, tl_handle = []\<rparr>))"

definition tl_Valid :: "('i, 'd) TwoLevelIterator \<Rightarrow> bool" where
  "tl_Valid t \<longleftrightarrow> w_valid (tl_data t)"

definition tl_key :: "('i, 'd) TwoLevelIterator \<Rightarrow> slice res" where
  "tl_key t = bind_res (guard_res (tl_Valid t) AssertFail) (\<lambda>_. w_key_at (tl_data t))"

definition tl_value :: "('i, 'd) levels \<Rightarrow> ('i, 'd) TwoLevelIterator \<Rightarrow> slice res" where
  "tl_value lv t = bind_res (guard_res (tl_Valid t) AssertFail) (\<lambda>_. w_value (data_ops lv) (tl_data t))"

definition tl_status_of :: "('i, 'd) levels \<Rightarrow> ('i, 'd) TwoLevelIterator \<Rightarrow> Status res" where
  "tl_status_of lv t =
     bind_res (w_status (index_ops lv) (tl_index t)) (\<lambda>s.
     if \<not> ok s then Inr s
     else if w_iter (tl_data t) \<noteq> None then
       bind_res (w_status (data_ops lv) (tl_data t)) (\<lambda>s. if \<not> ok s then Inr s else Inr (tl_status t))
     else Inr (tl_status t))"

definition SaveError :: "Status \<Rightarrow> ('i, 'd) TwoLevelIterator \<Rightarrow> ('i, 'd) TwoLevelIterator" where
  "SaveError s t = (if ok (tl_status t) \<and> \<not> ok s then t\<lparr>tl_status := s\<rparr> else t)"

definition SetDataIterator :: "('i, 'd) levels \<Rightarrow> 'd option \<Rightarrow> ('i, 'd) TwoLevelIterator \<Rightarrow> ('i, 'd) TwoLevelIterator res" where
  "SetDataIterator lv data_iter t =
     bind_res (if w_iter (tl_data t) \<noteq> None then
         bind_res (w_status (data_ops lv) (tl_data t)) (\<lambda>s. Inr (SaveError s t))
       else Inr t) (\<lambda>t.
     bind_res (w_Set (data_ops lv) data_iter (tl_data t)) (\<lambda>w. Inr (t\<lparr>tl_data := w\<rparr>)))"

definition InitDataBlock :: "('i, 'd) levels \<Rightarrow> ('i, 'd) TwoLevelIterator \<Rightarrow> ('i, 'd) TwoLevelIterator res" where
  "InitDataBlock lv t =
     (if \<not> w_valid (tl_index t) then SetDataIterator lv None t
      else
        bind_res (w_value (index_ops lv) (tl_index t)) (\<lambda>handle.
        if w_iter (tl_data t) \<noteq> None \<and> slice_compare handle (tl_handle t) = 0 then Inr t
        else
          bind_res (block_function lv handle) (\<lambda>iter.
            SetDataIterator lv iter (t\<lparr>tl_handle := handle\<rparr>))))"

text \<open>The data iterator is moved where there is one.\<close>

definition move_data :: "('d wrapper \<Rightarrow> 'd wrapper res) \<Rightarrow> ('i, 'd) TwoLevelIterator \<Rightarrow> ('i, 'd) TwoLevelIterator res" where
  "move_data f t =
     (if w_iter (tl_data t) \<noteq> None then bind_res (f (tl_data t)) (\<lambda>w. Inr (t\<lparr>tl_data := w\<rparr>)) else Inr t)"

definition move_index :: "('i wrapper \<Rightarrow> 'i wrapper res) \<Rightarrow> ('i, 'd) TwoLevelIterator \<Rightarrow> ('i, 'd) TwoLevelIterator res" where
  "move_index f t = bind_res (f (tl_index t)) (\<lambda>w. Inr (t\<lparr>tl_index := w\<rparr>))"

fun SkipEmptyDataBlocksForward :: "nat \<Rightarrow> ('i, 'd) levels \<Rightarrow> ('i, 'd) TwoLevelIterator \<Rightarrow> ('i, 'd) TwoLevelIterator res" where
  "SkipEmptyDataBlocksForward 0 lv t = Inl OutOfFuel"
| "SkipEmptyDataBlocksForward (Suc fuel) lv t =
     (if w_iter (tl_data t) = None \<or> \<not> w_valid (tl_data t) then
        if \<not> w_valid (tl_index t) then SetDataIterator lv None t
        else
          bind_res (move_index (w_Next (index_ops lv)) t) (\<lambda>t.
          bind_res (InitDataBlock lv t) (\<lambda>t.
          bind_res (move_data (w_SeekToFirst (data_ops lv)) t) (SkipEmptyDataBlocksForward fuel lv)))
      else Inr t)"

fun SkipEmptyDataBlocksBackward :: "nat \<Rightarrow> ('i, 'd) levels \<Rightarrow> ('i, 'd) TwoLevelIterator \<Rightarrow> ('i, 'd) TwoLevelIterator res" where
  "SkipEmptyDataBlocksBackward 0 lv t = Inl OutOfFuel"
| "SkipEmptyDataBlocksBackward (Suc fuel) lv t =
     (if w_iter (tl_data t) = None \<or> \<not> w_valid (tl_data t) then
        if \<not> w_valid (tl_index t) then SetDataIterator lv None t
        else
          bind_res (move_index (w_Prev (index_ops lv)) t) (\<lambda>t.
          bind_res (InitDataBlock lv t) (\<lambda>t.
          bind_res (move_data (w_SeekToLast (data_ops lv)) t) (SkipEmptyDataBlocksBackward fuel lv)))
      else Inr t)"

definition tl_Seek :: "('i, 'd) levels \<Rightarrow> slice \<Rightarrow> ('i, 'd) TwoLevelIterator \<Rightarrow> ('i, 'd) TwoLevelIterator res" where
  "tl_Seek lv target t =
     bind_res (move_index (w_Seek (index_ops lv) target) t) (\<lambda>t.
     bind_res (InitDataBlock lv t) (\<lambda>t.
     bind_res (move_data (w_Seek (data_ops lv) target) t) (SkipEmptyDataBlocksForward (skip_fuel lv) lv)))"

definition tl_SeekToFirst :: "('i, 'd) levels \<Rightarrow> ('i, 'd) TwoLevelIterator \<Rightarrow> ('i, 'd) TwoLevelIterator res" where
  "tl_SeekToFirst lv t =
     bind_res (move_index (w_SeekToFirst (index_ops lv)) t) (\<lambda>t.
     bind_res (InitDataBlock lv t) (\<lambda>t.
     bind_res (move_data (w_SeekToFirst (data_ops lv)) t) (SkipEmptyDataBlocksForward (skip_fuel lv) lv)))"

definition tl_SeekToLast :: "('i, 'd) levels \<Rightarrow> ('i, 'd) TwoLevelIterator \<Rightarrow> ('i, 'd) TwoLevelIterator res" where
  "tl_SeekToLast lv t =
     bind_res (move_index (w_SeekToLast (index_ops lv)) t) (\<lambda>t.
     bind_res (InitDataBlock lv t) (\<lambda>t.
     bind_res (move_data (w_SeekToLast (data_ops lv)) t) (SkipEmptyDataBlocksBackward (skip_fuel lv) lv)))"

text \<open>\<open>Next\<close> and \<open>Prev\<close> call the wrapper, which asserts that it has an iterator.\<close>

definition tl_Next :: "('i, 'd) levels \<Rightarrow> ('i, 'd) TwoLevelIterator \<Rightarrow> ('i, 'd) TwoLevelIterator res" where
  "tl_Next lv t =
     bind_res (guard_res (tl_Valid t) AssertFail) (\<lambda>_.
     bind_res (w_Next (data_ops lv) (tl_data t)) (\<lambda>w.
       SkipEmptyDataBlocksForward (skip_fuel lv) lv (t\<lparr>tl_data := w\<rparr>)))"

definition tl_Prev :: "('i, 'd) levels \<Rightarrow> ('i, 'd) TwoLevelIterator \<Rightarrow> ('i, 'd) TwoLevelIterator res" where
  "tl_Prev lv t =
     bind_res (guard_res (tl_Valid t) AssertFail) (\<lambda>_.
     bind_res (w_Prev (data_ops lv) (tl_data t)) (\<lambda>w.
       SkipEmptyDataBlocksBackward (skip_fuel lv) lv (t\<lparr>tl_data := w\<rparr>)))"

definition two_level_iterator :: "('i, 'd) levels \<Rightarrow> ('i, 'd) TwoLevelIterator iterator" where
  "two_level_iterator lv =
     \<lparr>it_Valid = tl_Valid, it_SeekToFirst = tl_SeekToFirst lv, it_SeekToLast = tl_SeekToLast lv,
      it_Seek = tl_Seek lv, it_Next = tl_Next lv, it_Prev = tl_Prev lv, it_key = tl_key,
      it_value = tl_value lv, it_status = tl_status_of lv\<rparr>"

end
