(* ===== verification/Two_Level_Correct.thy ===== *)
theory Two_Level_Correct
  imports Two_Level Merger_Correct
begin

section \<open>Correctness of two-level iterators\<close>

text \<open>
  Over an index and blocks that meet the interface, with the keys of a block between the separators
  of the index, the two-level iterator meets it over the concatenation of the blocks.
\<close>

subsection \<open>Positions in a concatenation\<close>

definition block_off :: "'a list list \<Rightarrow> nat \<Rightarrow> nat" where
  "block_off Bs j = length (concat (take j Bs))"

lemma block_off_0 [simp]: "block_off Bs 0 = 0"
  by (simp add: block_off_def)

lemma block_off_Suc: "j < length Bs \<Longrightarrow> block_off Bs (Suc j) = block_off Bs j + length (Bs ! j)"
  by (simp add: block_off_def take_Suc_conv_app_nth)

lemma block_off_end: "length Bs \<le> j \<Longrightarrow> block_off Bs j = length (concat Bs)"
  by (simp add: block_off_def)

lemma concat_split: "j < length Bs \<Longrightarrow> concat Bs = concat (take j Bs) @ Bs ! j @ concat (drop (Suc j) Bs)"
  by (metis concat.simps(2) concat_append id_take_nth_drop)

lemma block_off_less: "j < length Bs \<Longrightarrow> p < length (Bs ! j) \<Longrightarrow> block_off Bs j + p < length (concat Bs)"
  using arg_cong [OF concat_split, of j Bs length] by (simp add: block_off_def)

lemma concat_nth: "j < length Bs \<Longrightarrow> p < length (Bs ! j) \<Longrightarrow> concat Bs ! (block_off Bs j + p) = Bs ! j ! p"
  by (subst concat_split [of j]) (simp_all add: block_off_def nth_append)

lemma count_keys_append: "count_keys p (kvs @ kvs') = count_keys p kvs + count_keys p kvs'"
  by (simp add: count_keys_def)

lemma count_keys_all: "(\<And>k. k \<in> fst ` set kvs \<Longrightarrow> p k) \<Longrightarrow> count_keys p kvs = length kvs"
  using count_keys_cong [of kvs p "\<lambda>_. True"] by simp

lemma count_keys_none: "(\<And>k. k \<in> fst ` set kvs \<Longrightarrow> \<not> p k) \<Longrightarrow> count_keys p kvs = 0"
  using count_keys_cong [of kvs p "\<lambda>_. False"] by simp

lemma keys_concat: "k \<in> fst ` set (concat L) \<Longrightarrow> \<exists>j < length L. k \<in> fst ` set (L ! j)"
proof -
  assume "k \<in> fst ` set (concat L)"
  then obtain kvs where "kvs \<in> set L" "k \<in> fst ` set kvs" by auto
  then show ?thesis by (metis in_set_conv_nth)
qed

subsection \<open>The levels\<close>

locale two_levels =
  I: sorted_iterator cmp valid before "index_ops lv" iat + D: sorted_iterator cmp valid before "data_ops lv" dat
  for cmp :: comparator and valid :: "slice \<Rightarrow> bool" and before :: "slice \<Rightarrow> slice \<Rightarrow> bool"
    and lv :: "('i, 'd) levels" and iat :: "(slice \<times> slice) list \<Rightarrow> nat \<Rightarrow> 'i \<Rightarrow> bool"
    and dat :: "(slice \<times> slice) list \<Rightarrow> nat \<Rightarrow> 'd \<Rightarrow> bool"
begin

definition blocks_of :: "(slice \<times> slice) list \<Rightarrow> (slice \<times> slice) list list \<Rightarrow> bool" where
  "blocks_of idx Bs \<longleftrightarrow> length idx = length Bs \<and> length idx + 2 \<le> skip_fuel lv \<and> I.increasing (map fst (concat Bs)) \<and>
     (\<forall>j < length Bs. \<exists>p s. block_function lv (snd (idx ! j)) = Inr (Some s) \<and> dat (Bs ! j) p s) \<and>
     (\<forall>i < length Bs. \<forall>j < length Bs. snd (idx ! i) = snd (idx ! j) \<longrightarrow> Bs ! i = Bs ! j) \<and>
     (\<forall>j < length Bs. \<forall>k \<in> fst ` set (Bs ! j). k = fst (idx ! j) \<or> before k (fst (idx ! j))) \<and>
     (\<forall>j < length Bs. \<forall>i < j. \<forall>k \<in> fst ` set (Bs ! j). before (fst (idx ! i)) k)"

lemma blocks_ofD:
  assumes "blocks_of idx Bs"
  shows "length idx = length Bs" and "length idx + 2 \<le> skip_fuel lv" and "I.increasing (map fst (concat Bs))"
    and "j < length Bs \<Longrightarrow> \<exists>p s. block_function lv (snd (idx ! j)) = Inr (Some s) \<and> dat (Bs ! j) p s"
    and "i < length Bs \<Longrightarrow> j < length Bs \<Longrightarrow> snd (idx ! i) = snd (idx ! j) \<Longrightarrow> Bs ! i = Bs ! j"
    and "j < length Bs \<Longrightarrow> k \<in> fst ` set (Bs ! j) \<Longrightarrow> k = fst (idx ! j) \<or> before k (fst (idx ! j))"
    and "j < length Bs \<Longrightarrow> i < j \<Longrightarrow> k \<in> fst ` set (Bs ! j) \<Longrightarrow> before (fst (idx ! i)) k"
proof -
  note b = assms [unfolded blocks_of_def, THEN conjunct1]
    assms [unfolded blocks_of_def, THEN conjunct2, THEN conjunct1]
    assms [unfolded blocks_of_def, THEN conjunct2, THEN conjunct2, THEN conjunct1]
  note c = assms [unfolded blocks_of_def, THEN conjunct2, THEN conjunct2, THEN conjunct2]
  note d = c [THEN conjunct2, THEN conjunct2]
  show "length idx = length Bs" "length idx + 2 \<le> skip_fuel lv" "I.increasing (map fst (concat Bs))" by (fact b)+
  show "\<exists>p s. block_function lv (snd (idx ! j)) = Inr (Some s) \<and> dat (Bs ! j) p s" if "j < length Bs"
    using c [THEN conjunct1] that by blast
  show "Bs ! i = Bs ! j" if "i < length Bs" "j < length Bs" "snd (idx ! i) = snd (idx ! j)"
    using c [THEN conjunct2, THEN conjunct1] that by blast
  show "k = fst (idx ! j) \<or> before k (fst (idx ! j))" if "j < length Bs" "k \<in> fst ` set (Bs ! j)"
    using d [THEN conjunct1] that by blast
  show "before (fst (idx ! i)) k" if "j < length Bs" "i < j" "k \<in> fst ` set (Bs ! j)"
    using d [THEN conjunct2] that by blast
qed

definition no_data :: "('i, 'd) TwoLevelIterator \<Rightarrow> bool" where
  "no_data t \<longleftrightarrow> w_iter (tl_data t) = None \<and> \<not> w_valid (tl_data t)"

text \<open>The data iterator is the one of block \<open>j\<close>, at position \<open>p\<close>.\<close>

definition data_of :: "(slice \<times> slice) list \<Rightarrow> (slice \<times> slice) list list \<Rightarrow> nat \<Rightarrow> nat \<Rightarrow> ('i, 'd) TwoLevelIterator \<Rightarrow> bool" where
  "data_of idx Bs j p t \<longleftrightarrow> j < length Bs \<and> D.w_at (Bs ! j) p (tl_data t) \<and> tl_handle t = snd (idx ! j)"

definition calm :: "(slice \<times> slice) list \<Rightarrow> (slice \<times> slice) list list \<Rightarrow> nat \<Rightarrow> ('i, 'd) TwoLevelIterator \<Rightarrow> bool" where
  "calm idx Bs q t \<longleftrightarrow> tl_status t = OK \<and> I.w_at idx q (tl_index t) \<and> (no_data t \<or> (\<exists>j p. data_of idx Bs j p t))"

definition loaded :: "(slice \<times> slice) list \<Rightarrow> (slice \<times> slice) list list \<Rightarrow> nat \<Rightarrow> nat \<Rightarrow> ('i, 'd) TwoLevelIterator \<Rightarrow> bool" where
  "loaded idx Bs j p t \<longleftrightarrow> calm idx Bs j t \<and> data_of idx Bs j p t"

definition unloaded :: "(slice \<times> slice) list \<Rightarrow> (slice \<times> slice) list list \<Rightarrow> nat \<Rightarrow> ('i, 'd) TwoLevelIterator \<Rightarrow> bool" where
  "unloaded idx Bs q t \<longleftrightarrow> calm idx Bs q t \<and> no_data t"

text \<open>The two-level iterator stands at position \<open>i\<close> of the concatenation.\<close>

definition tl_on :: "(slice \<times> slice) list \<Rightarrow> (slice \<times> slice) list list \<Rightarrow> nat \<Rightarrow> ('i, 'd) TwoLevelIterator \<Rightarrow> bool" where
  "tl_on idx Bs i t \<longleftrightarrow> i \<le> length (concat Bs) \<and>
     (if i < length (concat Bs) then \<exists>j p. loaded idx Bs j p t \<and> p < length (Bs ! j) \<and> block_off Bs j + p = i
      else \<exists>q. unloaded idx Bs q t)"

lemma data_iter_some: "data_of idx Bs j p t \<Longrightarrow> w_iter (tl_data t) \<noteq> None"
  by (auto simp: data_of_def D.w_at_def)

lemma data_valid: "data_of idx Bs j p t \<Longrightarrow> w_valid (tl_data t) \<longleftrightarrow> p < length (Bs ! j)"
  using D.w_read_at(1) by (auto simp: data_of_def)

lemma index_valid: "calm idx Bs q t \<Longrightarrow> w_valid (tl_index t) \<longleftrightarrow> q < length idx"
  using I.w_read_at(1) by (auto simp: calm_def)

lemma SaveError_OK [simp]: "SaveError OK t = t"
  by (simp add: SaveError_def ok_def OK_def)

lemma data_status: "calm idx Bs q t \<Longrightarrow> w_iter (tl_data t) \<noteq> None \<Longrightarrow> w_status (data_ops lv) (tl_data t) = Inr OK"
  using D.w_read_at(4) by (auto simp: calm_def no_data_def data_of_def)

lemma SetDataIterator_None:
  assumes "calm idx Bs q t"
  shows "\<exists>t'. SetDataIterator lv None t = Inr t' \<and> unloaded idx Bs q t'"
  using assms data_status [OF assms] by (simp add: SetDataIterator_def w_Set_def unloaded_def calm_def no_data_def)

lemma SetDataIterator_Some:
  assumes "calm idx Bs q t" and "q < length Bs" and "dat (Bs ! q) p s"
  shows "\<exists>t'. SetDataIterator lv (Some s) (t\<lparr>tl_handle := snd (idx ! q)\<rparr>) = Inr t' \<and> loaded idx Bs q p t'"
proof -
  obtain w where "w_Set (data_ops lv) (Some s) (tl_data t) = Inr w" "D.w_at (Bs ! q) p w"
    using D.w_Set_at [OF assms(3)] by blast
  then show ?thesis
    using assms(1,2) data_status [OF assms(1)] by (auto simp: SetDataIterator_def loaded_def calm_def data_of_def)
qed

text \<open>\<open>InitDataBlock\<close> at an index position.\<close>

lemma InitDataBlock_end:
  assumes "calm idx Bs q t" and "q = length idx"
  shows "\<exists>t'. InitDataBlock lv t = Inr t' \<and> unloaded idx Bs q t'"
  using SetDataIterator_None [OF assms(1)] index_valid [OF assms(1)] assms(2) by (simp add: InitDataBlock_def)

lemma InitDataBlock_block:
  assumes "blocks_of idx Bs" and t: "calm idx Bs q t" and q: "q < length idx"
  shows "\<exists>t' p. InitDataBlock lv t = Inr t' \<and> loaded idx Bs q p t'"
proof -
  note len = blocks_ofD(1) [OF assms(1)]
  have h: "w_value (index_ops lv) (tl_index t) = Inr (snd (idx ! q))" "w_valid (tl_index t)"
    using t I.w_read_at(1,3) q by (auto simp: calm_def)
  obtain p s where s: "block_function lv (snd (idx ! q)) = Inr (Some s)" "dat (Bs ! q) p s"
    using blocks_ofD(4) [OF assms(1), of q] q len by auto
  show ?thesis
  proof (cases "w_iter (tl_data t) \<noteq> None \<and> slice_compare (snd (idx ! q)) (tl_handle t) = 0")
    case True
    then obtain j p where d: "data_of idx Bs j p t" using t by (auto simp: calm_def no_data_def)
    have hq: "tl_handle t = snd (idx ! q)" using True by (simp add: slice_compare_order split: if_splits)
    have dj: "j < length Bs" "D.w_at (Bs ! j) p (tl_data t)" "tl_handle t = snd (idx ! j)"
      using d by (simp_all add: data_of_def)
    have "Bs ! j = Bs ! q" using blocks_ofD(5) [OF assms(1) dj(1), of q] q len dj(3) hq by simp
    then have "data_of idx Bs q p t" using dj(2) hq q len by (simp add: data_of_def)
    then show ?thesis using True h t by (auto simp: InitDataBlock_def loaded_def)
  next
    case False
    then show ?thesis
      using SetDataIterator_Some [OF t _ s(2)] q len h s(1) by (auto simp: InitDataBlock_def)
  qed
qed

lemma move_data_loaded:
  assumes "loaded idx Bs j p t" and "\<And>w. D.w_at (Bs ! j) p w \<Longrightarrow> \<exists>w'. f w = Inr w' \<and> D.w_at (Bs ! j) p' w'"
  shows "\<exists>t'. move_data f t = Inr t' \<and> loaded idx Bs j p' t'"
proof -
  have d: "data_of idx Bs j p t" using assms(1) by (simp add: loaded_def)
  then obtain w where "f (tl_data t) = Inr w" "D.w_at (Bs ! j) p' w" using assms(2) by (auto simp: data_of_def)
  then show ?thesis using assms(1) data_iter_some [OF d] by (auto simp: move_data_def loaded_def calm_def data_of_def)
qed

lemma move_data_unloaded: "unloaded idx Bs q t \<Longrightarrow> move_data f t = Inr t"
  by (simp add: unloaded_def no_data_def move_data_def)

lemma move_index_calm:
  assumes "calm idx Bs q t" and "\<And>w. I.w_at idx q w \<Longrightarrow> \<exists>w'. f w = Inr w' \<and> I.w_at idx q' w'"
  shows "\<exists>t'. move_index f t = Inr t' \<and> calm idx Bs q' t'"
proof -
  obtain w where "f (tl_index t) = Inr w" "I.w_at idx q' w" using assms by (auto simp: calm_def)
  then show ?thesis using assms(1) by (auto simp: move_index_def calm_def data_of_def no_data_def)
qed

text \<open>A move of the index, the block it stands at, and a move in the block.\<close>

definition arrive :: "('i wrapper \<Rightarrow> 'i wrapper res) \<Rightarrow> ('d wrapper \<Rightarrow> 'd wrapper res) \<Rightarrow>
    ('i, 'd) TwoLevelIterator \<Rightarrow> ('i, 'd) TwoLevelIterator res" where
  "arrive f g t = bind_res (move_index f t) (\<lambda>t. bind_res (InitDataBlock lv t) (move_data g))"

lemma arrive_at:
  assumes bl: "blocks_of idx Bs" and t: "calm idx Bs q t"
    and f: "\<And>w. I.w_at idx q w \<Longrightarrow> \<exists>w'. f w = Inr w' \<and> I.w_at idx q' w'" and q': "q' \<le> length idx"
    and g: "\<And>w p. q' < length idx \<Longrightarrow> D.w_at (Bs ! q') p w \<Longrightarrow> \<exists>w'. g w = Inr w' \<and> D.w_at (Bs ! q') p' w'"
  shows "\<exists>t'. arrive f g t = Inr t' \<and> (if q' < length idx then loaded idx Bs q' p' t' else unloaded idx Bs q' t')"
proof -
  have "\<exists>t'. move_index f t = Inr t' \<and> calm idx Bs q' t'" by (rule move_index_calm [OF t]) (rule f)
  then obtain t1 where t1: "move_index f t = Inr t1" "calm idx Bs q' t1" by blast
  show ?thesis
  proof (cases "q' < length idx")
    case True
    obtain t2 p where t2: "InitDataBlock lv t1 = Inr t2" "loaded idx Bs q' p t2" using InitDataBlock_block [OF bl t1(2) True] by blast
    have "\<exists>t'. move_data g t2 = Inr t' \<and> loaded idx Bs q' p' t'" by (rule move_data_loaded [OF t2(2)]) (rule g [OF True])
    then obtain t3 where "move_data g t2 = Inr t3" "loaded idx Bs q' p' t3" by blast
    then show ?thesis using True t1(1) t2(1) by (simp add: arrive_def)
  next
    case False
    then obtain t2 where "InitDataBlock lv t1 = Inr t2" "unloaded idx Bs q' t2" using InitDataBlock_end [OF t1(2)] q' by auto
    then show ?thesis using False t1(1) by (simp add: arrive_def move_data_unloaded)
  qed
qed

lemma SkipForward_step:
  "SkipEmptyDataBlocksForward (Suc fuel) lv t =
     (if w_iter (tl_data t) = None \<or> \<not> w_valid (tl_data t) then
        if \<not> w_valid (tl_index t) then SetDataIterator lv None t
        else bind_res (arrive (w_Next (index_ops lv)) (w_SeekToFirst (data_ops lv)) t) (SkipEmptyDataBlocksForward fuel lv)
      else Inr t)"
  by (simp add: arrive_def bind_res_assoc)

lemma SkipBackward_step:
  "SkipEmptyDataBlocksBackward (Suc fuel) lv t =
     (if w_iter (tl_data t) = None \<or> \<not> w_valid (tl_data t) then
        if \<not> w_valid (tl_index t) then SetDataIterator lv None t
        else bind_res (arrive (w_Prev (index_ops lv)) (w_SeekToLast (data_ops lv)) t) (SkipEmptyDataBlocksBackward fuel lv)
      else Inr t)"
  by (simp add: arrive_def bind_res_assoc)

declare SkipEmptyDataBlocksForward.simps(2) [simp del] SkipEmptyDataBlocksBackward.simps(2) [simp del]

lemma tl_on_end: "unloaded idx Bs q t \<Longrightarrow> tl_on idx Bs (length (concat Bs)) t"
  by (auto simp: tl_on_def)

lemma skip_unloaded:
  assumes "unloaded idx Bs (length idx) t" and "0 < fuel"
  shows "\<exists>t'. SkipEmptyDataBlocksForward fuel lv t = Inr t' \<and> tl_on idx Bs (length (concat Bs)) t'"
    and "\<exists>t'. SkipEmptyDataBlocksBackward fuel lv t = Inr t' \<and> tl_on idx Bs (length (concat Bs)) t'"
proof -
  have c: "calm idx Bs (length idx) t" "no_data t" using assms(1) by (simp_all add: unloaded_def)
  obtain n where n: "fuel = Suc n" using assms(2) by (cases fuel) auto
  obtain t' where "SetDataIterator lv None t = Inr t'" "tl_on idx Bs (length (concat Bs)) t'"
    using SetDataIterator_None [OF c(1)] tl_on_end by blast
  then show "\<exists>t'. SkipEmptyDataBlocksForward fuel lv t = Inr t' \<and> tl_on idx Bs (length (concat Bs)) t'"
    "\<exists>t'. SkipEmptyDataBlocksBackward fuel lv t = Inr t' \<and> tl_on idx Bs (length (concat Bs)) t'"
    using c(2) index_valid [OF c(1)] by (simp_all add: n SkipForward_step SkipBackward_step no_data_def)
qed

lemma loaded_valid:
  assumes "loaded idx Bs j p t"
  shows "w_valid (tl_data t) \<longleftrightarrow> p < length (Bs ! j)" and "w_iter (tl_data t) \<noteq> None" and "p \<le> length (Bs ! j)"
    and "j < length Bs" and "calm idx Bs j t"
  using assms data_valid data_iter_some D.w_read_at(6) unfolding loaded_def by (auto simp: data_of_def)

lemma tl_on_loaded: "loaded idx Bs j p t \<Longrightarrow> p < length (Bs ! j) \<Longrightarrow> tl_on idx Bs (block_off Bs j + p) t"
proof -
  assume "loaded idx Bs j p t" "p < length (Bs ! j)"
  moreover from this have "block_off Bs j + p < length (concat Bs)" using block_off_less loaded_valid(4) by blast
  ultimately show ?thesis unfolding tl_on_def by auto
qed

lemma skip_forward:
  assumes bl: "blocks_of idx Bs"
  shows "loaded idx Bs j p t \<Longrightarrow> length idx - j < fuel \<Longrightarrow>
    \<exists>t'. SkipEmptyDataBlocksForward fuel lv t = Inr t' \<and> tl_on idx Bs (block_off Bs j + p) t'"
proof (induction fuel arbitrary: j p t)
  case (Suc fuel)
  note l = loaded_valid [OF Suc.prems(1)] and len = blocks_ofD(1) [OF bl]
  show ?case
  proof (cases "p < length (Bs ! j)")
    case True
    then show ?thesis using tl_on_loaded [OF Suc.prems(1) True] l by (auto simp: SkipForward_step)
  next
    case False
    then have p: "block_off Bs j + p = block_off Bs (Suc j)" using l(3,4) by (simp add: block_off_Suc)
    have "\<exists>t'. arrive (w_Next (index_ops lv)) (w_SeekToFirst (data_ops lv)) t = Inr t' \<and>
        (if Suc j < length idx then loaded idx Bs (Suc j) 0 t' else unloaded idx Bs (Suc j) t')"
      using I.w_moves_at(4) D.w_moves_at(1) l(4) len by (intro arrive_at [OF bl l(5)]) auto
    then obtain t1 where t1: "arrive (w_Next (index_ops lv)) (w_SeekToFirst (data_ops lv)) t = Inr t1"
      "if Suc j < length idx then loaded idx Bs (Suc j) 0 t1 else unloaded idx Bs (Suc j) t1" by blast
    have step: "SkipEmptyDataBlocksForward (Suc fuel) lv t = SkipEmptyDataBlocksForward fuel lv t1"
      using False l(1,4) index_valid [OF l(5)] len t1(1) by (simp add: SkipForward_step)
    show ?thesis
    proof (cases "Suc j < length idx")
      case True
      then have "length idx - Suc j < fuel" "loaded idx Bs (Suc j) 0 t1" using Suc.prems(2) t1(2) by auto
      then show ?thesis using Suc.IH [of "Suc j" 0 t1] unfolding step p by simp
    next
      case False
      then have j: "Suc j = length idx" using l(4) len by simp
      then have "0 < fuel" using Suc.prems(2) by simp
      moreover have "unloaded idx Bs (length idx) t1" using t1(2) False j by simp
      ultimately show ?thesis using skip_unloaded(1) j len unfolding step p by (simp add: block_off_end)
    qed
  qed
qed simp

lemma skip_backward:
  assumes bl: "blocks_of idx Bs"
  shows "loaded idx Bs j p t \<Longrightarrow> Suc j < fuel \<Longrightarrow>
    \<exists>t'. SkipEmptyDataBlocksBackward fuel lv t = Inr t' \<and>
      tl_on idx Bs (if p < length (Bs ! j) then block_off Bs j + p
        else if block_off Bs j = 0 then length (concat Bs) else block_off Bs j - 1) t'"
proof (induction fuel arbitrary: j p t)
  case (Suc fuel)
  note l = loaded_valid [OF Suc.prems(1)] and len = blocks_ofD(1) [OF bl]
  show ?case
  proof (cases "p < length (Bs ! j)")
    case True
    then show ?thesis using tl_on_loaded [OF Suc.prems(1) True] l by (auto simp: SkipBackward_step)
  next
    case False
    let ?q = "if j = 0 then length idx else j - 1"
    have "\<exists>t'. arrive (w_Prev (index_ops lv)) (w_SeekToLast (data_ops lv)) t = Inr t' \<and>
        (if ?q < length idx then loaded idx Bs ?q (length (Bs ! ?q) - 1) t' else unloaded idx Bs ?q t')"
      using I.w_moves_at(5) D.w_moves_at(2) l(4) len by (intro arrive_at [OF bl l(5)]) auto
    then obtain t1 where t1: "arrive (w_Prev (index_ops lv)) (w_SeekToLast (data_ops lv)) t = Inr t1"
      "if ?q < length idx then loaded idx Bs ?q (length (Bs ! ?q) - 1) t1 else unloaded idx Bs ?q t1" by blast
    have step: "SkipEmptyDataBlocksBackward (Suc fuel) lv t = SkipEmptyDataBlocksBackward fuel lv t1"
      using False l(1,4) index_valid [OF l(5)] len t1(1) by (simp add: SkipBackward_step)
    show ?thesis
    proof (cases j)
      case 0
      then have "unloaded idx Bs (length idx) t1" "0 < fuel" using t1(2) Suc.prems(2) by auto
      then show ?thesis using skip_unloaded(2) False 0 unfolding step by simp
    next
      case (Suc i)
      then have i: "i < length Bs" "loaded idx Bs i (length (Bs ! i) - 1) t1" "Suc i < fuel"
        using t1(2) l(4) len Suc.prems(2) by auto
      have off: "block_off Bs j = block_off Bs i + length (Bs ! i)" using i(1) by (simp add: Suc block_off_Suc)
      obtain t' where t': "SkipEmptyDataBlocksBackward fuel lv t1 = Inr t'"
        "tl_on idx Bs (if length (Bs ! i) - 1 < length (Bs ! i) then block_off Bs i + (length (Bs ! i) - 1)
          else if block_off Bs i = 0 then length (concat Bs) else block_off Bs i - 1) t'"
        using Suc.IH [OF i(2,3)] by blast
      have "(if length (Bs ! i) - 1 < length (Bs ! i) then block_off Bs i + (length (Bs ! i) - 1)
          else if block_off Bs i = 0 then length (concat Bs) else block_off Bs i - 1) =
        (if block_off Bs j = 0 then length (concat Bs) else block_off Bs j - 1)"
        unfolding off by (cases "length (Bs ! i)") simp_all
      then show ?thesis using t' False unfolding step by simp
    qed
  qed
qed simp

lemma rank_concat:
  assumes bl: "blocks_of idx Bs" and idx: "I.increasing (map fst idx)" and t: "valid t"
  defines "j \<equiv> rank before t idx"
  shows "rank before t (concat Bs) = block_off Bs j + (if j < length idx then rank before t (Bs ! j) else 0)"
proof -
  note len = blocks_ofD(1) [OF bl]
  have valid_key: "valid k" if "k \<in> fst ` set (concat Bs)" for k
    using blocks_ofD(3) [OF bl] that by (auto simp: I.increasing_def)
  have key: "k \<in> fst ` set (concat Bs)" if "i < length Bs" "k \<in> fst ` set (Bs ! i)" for i k
    unfolding set_concat using nth_mem [OF that(1)] that(2) by blast
  have sep: "before (fst (idx ! i)) t \<longleftrightarrow> i < j" "valid (fst (idx ! i))" if "i < length idx" for i
    using I.count_keys_nth [OF idx I.downward_before [OF t] that] I.increasing_nth(1) [OF idx that]
    by (simp_all add: j_def rank_count)
  have below: "before k t" if k: "k \<in> fst ` set (concat (take j Bs))" for k
  proof -
    obtain i where "i < length (take j Bs)" "k \<in> fst ` set (take j Bs ! i)" using keys_concat [OF k] by blast
    then have i: "i < j" "i < length Bs" "k \<in> fst ` set (Bs ! i)" by simp_all
    have "k = fst (idx ! i) \<or> before k (fst (idx ! i))" by (rule blocks_ofD(6) [OF bl i(2,3)])
    moreover have "before (fst (idx ! i)) t" "valid (fst (idx ! i))" using sep [of i] i(1,2) len by simp_all
    ultimately show ?thesis
      using I.before_trans [OF valid_key [OF key [OF i(2,3)]] _ t, of "fst (idx ! i)"] by blast
  qed
  have above: "\<not> before k t" if k: "k \<in> fst ` set (concat (drop (Suc j) Bs))" and j: "j < length idx" for k
  proof
    assume b: "before k t"
    obtain i where "i < length (drop (Suc j) Bs)" "k \<in> fst ` set (drop (Suc j) Bs ! i)" using keys_concat [OF k] by blast
    then have i: "Suc j + i < length Bs" "k \<in> fst ` set (Bs ! (Suc j + i))" by simp_all
    have "before (fst (idx ! j)) k" using blocks_ofD(7) [OF bl i(1) _ i(2), of j] by simp
    then have "before (fst (idx ! j)) t"
      using b I.before_trans [OF sep(2) [OF j] valid_key [OF key [OF i]] t] by blast
    then show False using sep(1) [OF j] by simp
  qed
  have take: "count_keys (\<lambda>k. before k t) (concat (take j Bs)) = block_off Bs j"
    unfolding block_off_def using below by (rule count_keys_all)
  show ?thesis
  proof (cases "j < length idx")
    case True
    have "rank before t (concat Bs) = count_keys (\<lambda>k. before k t) (concat (take j Bs) @ Bs ! j @ concat (drop (Suc j) Bs))"
      using concat_split [of j Bs] True len by (simp add: rank_count)
    moreover have "count_keys (\<lambda>k. before k t) (concat (drop (Suc j) Bs)) = 0"
      by (rule count_keys_none) (rule above [OF _ True])
    ultimately show ?thesis using True take by (simp add: count_keys_append rank_count)
  next
    case False
    then have "take j Bs = Bs" using len by simp
    then show ?thesis using False take by (simp add: rank_count)
  qed
qed

subsection \<open>The operations\<close>

lemma tl_Seek_arrive: "tl_Seek lv t x = bind_res (arrive (w_Seek (index_ops lv) t) (w_Seek (data_ops lv) t) x)
    (SkipEmptyDataBlocksForward (skip_fuel lv) lv)"
  and tl_SeekToFirst_arrive: "tl_SeekToFirst lv x = bind_res (arrive (w_SeekToFirst (index_ops lv))
    (w_SeekToFirst (data_ops lv)) x) (SkipEmptyDataBlocksForward (skip_fuel lv) lv)"
  and tl_SeekToLast_arrive: "tl_SeekToLast lv x = bind_res (arrive (w_SeekToLast (index_ops lv))
    (w_SeekToLast (data_ops lv)) x) (SkipEmptyDataBlocksBackward (skip_fuel lv) lv)"
  by (simp_all add: tl_Seek_def tl_SeekToFirst_def tl_SeekToLast_def arrive_def bind_res_assoc)

definition tl_at :: "(slice \<times> slice) list \<Rightarrow> nat \<Rightarrow> ('i, 'd) TwoLevelIterator \<Rightarrow> bool" where
  "tl_at kvs i t \<longleftrightarrow> (\<exists>idx Bs. kvs = concat Bs \<and> blocks_of idx Bs \<and> tl_on idx Bs i t)"

lemma tl_on_calm:
  assumes "tl_on idx Bs i t"
  obtains q where "calm idx Bs q t" "I.increasing (map fst idx)" "q \<le> length idx"
proof -
  obtain q where q: "calm idx Bs q t"
    using assms by (auto simp: tl_on_def loaded_def unloaded_def split: if_splits)
  then have "I.w_at idx q (tl_index t)" by (simp add: calm_def)
  then show thesis using that q I.w_read_at(5,6) by blast
qed

lemma tl_Seek_on:
  assumes bl: "blocks_of idx Bs" and on: "tl_on idx Bs i x" and t: "valid t"
  shows "\<exists>x'. tl_Seek lv t x = Inr x' \<and> tl_on idx Bs (rank before t (concat Bs)) x'"
proof -
  obtain q where q: "calm idx Bs q x" "I.increasing (map fst idx)" using tl_on_calm [OF on] by blast
  let ?j = "rank before t idx"
  have le: "?j \<le> length idx" unfolding rank_count by (rule count_keys_le)
  have "\<exists>x'. arrive (w_Seek (index_ops lv) t) (w_Seek (data_ops lv) t) x = Inr x' \<and>
      (if ?j < length idx then loaded idx Bs ?j (rank before t (Bs ! ?j)) x' else unloaded idx Bs ?j x')"
    using I.w_moves_at(3) D.w_moves_at(3) t le by (intro arrive_at [OF bl q(1)]) auto
  then obtain x1 where x1: "arrive (w_Seek (index_ops lv) t) (w_Seek (data_ops lv) t) x = Inr x1"
    "if ?j < length idx then loaded idx Bs ?j (rank before t (Bs ! ?j)) x1 else unloaded idx Bs ?j x1" by blast
  note pos = rank_concat [OF bl q(2) t] and fuel = blocks_ofD(2) [OF bl]
  show ?thesis
  proof (cases "?j < length idx")
    case True
    then show ?thesis
      using skip_forward [OF bl, of ?j _ x1 "skip_fuel lv"] x1 fuel unfolding pos by (simp add: tl_Seek_arrive)
  next
    case False
    then have j: "?j = length idx" using le by simp
    then have "unloaded idx Bs (length idx) x1" using x1(2) by simp
    from skip_unloaded(1) [OF this, of "skip_fuel lv"] show ?thesis
      using x1(1) fuel j unfolding pos by (simp add: tl_Seek_arrive block_off_end blocks_ofD(1) [OF bl])
  qed
qed

lemma tl_SeekToFirst_on:
  assumes bl: "blocks_of idx Bs" and on: "tl_on idx Bs i x"
  shows "\<exists>x'. tl_SeekToFirst lv x = Inr x' \<and> tl_on idx Bs 0 x'"
proof -
  obtain q where q: "calm idx Bs q x" using tl_on_calm [OF on] by blast
  note len = blocks_ofD(1) [OF bl] and fuel = blocks_ofD(2) [OF bl]
  have "\<exists>x'. arrive (w_SeekToFirst (index_ops lv)) (w_SeekToFirst (data_ops lv)) x = Inr x' \<and>
      (if 0 < length idx then loaded idx Bs 0 0 x' else unloaded idx Bs 0 x')"
    using I.w_moves_at(1) D.w_moves_at(1) by (intro arrive_at [OF bl q]) auto
  then obtain x1 where x1: "arrive (w_SeekToFirst (index_ops lv)) (w_SeekToFirst (data_ops lv)) x = Inr x1"
    "if 0 < length idx then loaded idx Bs 0 0 x1 else unloaded idx Bs 0 x1" by blast
  show ?thesis
  proof (cases "0 < length idx")
    case True
    then show ?thesis using skip_forward [OF bl, of 0 0 x1 "skip_fuel lv"] x1 fuel by (simp add: tl_SeekToFirst_arrive)
  next
    case False
    then have "unloaded idx Bs (length idx) x1" "Bs = []" using x1(2) len by simp_all
    then show ?thesis using skip_unloaded(1) [of idx Bs x1 "skip_fuel lv"] x1(1) fuel by (simp add: tl_SeekToFirst_arrive)
  qed
qed

lemma tl_SeekToLast_on:
  assumes bl: "blocks_of idx Bs" and on: "tl_on idx Bs i x"
  shows "\<exists>x'. tl_SeekToLast lv x = Inr x' \<and> tl_on idx Bs (length (concat Bs) - 1) x'"
proof -
  obtain q where q: "calm idx Bs q x" using tl_on_calm [OF on] by blast
  note len = blocks_ofD(1) [OF bl] and fuel = blocks_ofD(2) [OF bl]
  let ?j = "length idx - 1"
  have "\<exists>x'. arrive (w_SeekToLast (index_ops lv)) (w_SeekToLast (data_ops lv)) x = Inr x' \<and>
      (if ?j < length idx then loaded idx Bs ?j (length (Bs ! ?j) - 1) x' else unloaded idx Bs ?j x')"
    using I.w_moves_at(2) D.w_moves_at(2) by (intro arrive_at [OF bl q]) auto
  then obtain x1 where x1: "arrive (w_SeekToLast (index_ops lv)) (w_SeekToLast (data_ops lv)) x = Inr x1"
    "if ?j < length idx then loaded idx Bs ?j (length (Bs ! ?j) - 1) x1 else unloaded idx Bs ?j x1" by blast
  show ?thesis
  proof (cases "idx = []")
    case False
    then have "0 < length Bs" using len by (cases idx) auto
    then have j: "?j < length idx" "Suc ?j = length Bs" "?j < length Bs" using len by simp_all
    have off: "length (concat Bs) = block_off Bs ?j + length (Bs ! ?j)"
      using block_off_Suc [OF j(3)] j(2) by (simp add: block_off_end)
    have "Suc ?j < skip_fuel lv" using fuel j(1) by linarith
    moreover have "loaded idx Bs ?j (length (Bs ! ?j) - 1) x1" using x1(2) j(1) by simp
    ultimately obtain x' where x': "SkipEmptyDataBlocksBackward (skip_fuel lv) lv x1 = Inr x'"
      "tl_on idx Bs (if length (Bs ! ?j) - 1 < length (Bs ! ?j) then block_off Bs ?j + (length (Bs ! ?j) - 1)
        else if block_off Bs ?j = 0 then length (concat Bs) else block_off Bs ?j - 1) x'"
      using skip_backward [OF bl] by blast
    have "(if length (Bs ! ?j) - 1 < length (Bs ! ?j) then block_off Bs ?j + (length (Bs ! ?j) - 1)
        else if block_off Bs ?j = 0 then length (concat Bs) else block_off Bs ?j - 1) = length (concat Bs) - 1"
      unfolding off by (cases "length (Bs ! ?j)") simp_all
    then show ?thesis using x1(1) x' by (simp add: tl_SeekToLast_arrive)
  next
    case True
    then have "unloaded idx Bs (length idx) x1" "Bs = []" using x1(2) len by simp_all
    then show ?thesis using skip_unloaded(2) [of idx Bs x1 "skip_fuel lv"] x1(1) fuel by (simp add: tl_SeekToLast_arrive)
  qed
qed

lemma tl_step:
  assumes "loaded idx Bs j p x" and "D.w_at (Bs ! j) p' w"
  shows "loaded idx Bs j p' (x\<lparr>tl_data := w\<rparr>)"
  using assms by (auto simp: loaded_def calm_def data_of_def)

lemma tl_moves_on:
  assumes bl: "blocks_of idx Bs" and on: "tl_on idx Bs i x" and i: "i < length (concat Bs)"
  shows "\<exists>x'. tl_Next lv x = Inr x' \<and> tl_on idx Bs (Suc i) x'"
    and "\<exists>x'. tl_Prev lv x = Inr x' \<and> tl_on idx Bs (if i = 0 then length (concat Bs) else i - 1) x'"
    and "tl_key x = Inr (fst (concat Bs ! i))" and "tl_value lv x = Inr (snd (concat Bs ! i))"
proof -
  obtain j p where l: "loaded idx Bs j p x" "p < length (Bs ! j)" "block_off Bs j + p = i"
    using on i by (auto simp: tl_on_def)
  note lv = loaded_valid [OF l(1)] and len = blocks_ofD(1) [OF bl] and fuel = blocks_ofD(2) [OF bl]
  have w: "D.w_at (Bs ! j) p (tl_data x)" using l(1) by (simp add: loaded_def data_of_def)
  have v: "tl_Valid x" using lv(1) l(2) by (simp add: tl_Valid_def)
  have nth: "concat Bs ! i = Bs ! j ! p" using concat_nth [OF lv(4) l(2)] l(3) by simp
  show "tl_key x = Inr (fst (concat Bs ! i))" "tl_value lv x = Inr (snd (concat Bs ! i))"
    using D.w_read_at(2,3) [OF w l(2)] v by (simp_all add: tl_key_def tl_value_def nth)
  obtain w1 where w1: "w_Next (data_ops lv) (tl_data x) = Inr w1" "D.w_at (Bs ! j) (Suc p) w1"
    using D.w_moves_at(4) [OF w l(2)] by blast
  have "length idx - j < skip_fuel lv" using fuel by linarith
  from skip_forward [OF bl tl_step [OF l(1) w1(2)] this] show "\<exists>x'. tl_Next lv x = Inr x' \<and> tl_on idx Bs (Suc i) x'"
    using v w1(1) l(3) by (simp add: tl_Next_def)
  obtain w2 where w2: "w_Prev (data_ops lv) (tl_data x) = Inr w2"
    "D.w_at (Bs ! j) (if p = 0 then length (Bs ! j) else p - 1) w2"
    using D.w_moves_at(5) [OF w l(2)] by blast
  have "Suc j < skip_fuel lv" using fuel lv(4) len by linarith
  from skip_backward [OF bl tl_step [OF l(1) w2(2)] this]
  show "\<exists>x'. tl_Prev lv x = Inr x' \<and> tl_on idx Bs (if i = 0 then length (concat Bs) else i - 1) x'"
    using v w2(1) l(2,3) by (cases p) (auto simp: tl_Prev_def)
qed

lemma tl_on_status:
  assumes "tl_on idx Bs i x"
  shows "tl_status_of lv x = Inr OK"
proof -
  obtain q where q: "calm idx Bs q x" using tl_on_calm [OF assms] by blast
  have "w_status (index_ops lv) (tl_index x) = Inr OK" using q I.w_read_at(4) by (auto simp: calm_def)
  then show ?thesis using data_status [OF q] q by (simp add: tl_status_of_def calm_def ok_def OK_def)
qed

lemma tl_on_Valid: "tl_on idx Bs i x \<Longrightarrow> tl_Valid x \<longleftrightarrow> i < length (concat Bs)"
  using loaded_valid(1) by (auto simp: tl_on_def tl_Valid_def unloaded_def no_data_def split: if_splits)

lemma two_level_sorted: "sorted_iterator cmp valid before (two_level_iterator lv) tl_at"
proof unfold_locales
  fix kvs i x
  assume "tl_at kvs i x"
  then obtain idx Bs where a: "kvs = concat Bs" "blocks_of idx Bs" "tl_on idx Bs i x" by (auto simp: tl_at_def)
  have at: "tl_at kvs j y" if "tl_on idx Bs j y" for j y using a(1,2) that by (auto simp: tl_at_def)
  note simps = two_level_iterator_def iterator.simps
  show "I.increasing (map fst kvs) \<and> i \<le> length kvs"
    using blocks_ofD(3) [OF a(2)] a(1,3) by (simp add: tl_on_def)
  show v: "it_Valid (two_level_iterator lv) x \<longleftrightarrow> i < length kvs"
    using tl_on_Valid [OF a(3)] by (simp add: simps a(1))
  show "it_key (two_level_iterator lv) x = Inr (fst (kvs ! i))" "it_value (two_level_iterator lv) x = Inr (snd (kvs ! i))"
    if "i < length kvs" using tl_moves_on(3,4) [OF a(2,3)] that by (simp_all add: simps a(1))
  show "it_status (two_level_iterator lv) x = Inr OK" using tl_on_status [OF a(3)] by (simp add: simps)
  show "\<exists>s'. it_SeekToFirst (two_level_iterator lv) x = Inr s' \<and> tl_at kvs 0 s'"
    using tl_SeekToFirst_on [OF a(2,3)] at unfolding simps by blast
  show "\<exists>s'. it_SeekToLast (two_level_iterator lv) x = Inr s' \<and> tl_at kvs (length kvs - 1) s'"
    using tl_SeekToLast_on [OF a(2,3)] at unfolding simps a(1) [symmetric] by blast
  show "\<exists>s'. it_Seek (two_level_iterator lv) t x = Inr s' \<and> tl_at kvs (rank before t kvs) s'" if "valid t" for t
    using tl_Seek_on [OF a(2,3) that] at unfolding simps a(1) [symmetric] by blast
  show "\<exists>s'. it_Next (two_level_iterator lv) x = Inr s' \<and> tl_at kvs (Suc i) s'" if "i < length kvs"
    using tl_moves_on(1) [OF a(2,3) that [unfolded a(1)]] at unfolding simps by blast
  show "\<exists>s'. it_Prev (two_level_iterator lv) x = Inr s' \<and> tl_at kvs (if i = 0 then length kvs else i - 1) s'" if "i < length kvs"
    using tl_moves_on(2) [OF a(2,3) that [unfolded a(1)]] at unfolding simps a(1) [symmetric] by blast
  show "it_Next (two_level_iterator lv) x = Inl AssertFail \<and> it_Prev (two_level_iterator lv) x = Inl AssertFail"
    if "i = length kvs" using v that by (simp add: simps tl_Next_def tl_Prev_def)
qed

lemma new_TwoLevelIterator_at:
  assumes "blocks_of idx Bs" and "iat idx i s"
  shows "\<exists>x. new_TwoLevelIterator lv s = Inr x \<and> tl_at (concat Bs) (length (concat Bs)) x"
proof -
  obtain w where w: "w_Set (index_ops lv) (Some s) new_wrapper = Inr w" "I.w_at idx i w" using I.w_Set_at [OF assms(2)] by blast
  then show ?thesis
    using assms(1) unfolding tl_at_def
    by (auto simp: new_TwoLevelIterator_def w_Set_def new_wrapper_def tl_on_def unloaded_def calm_def no_data_def)
qed

end

end
