(* ===== verification/Two_Level_Blocks.thy ===== *)
theory Two_Level_Blocks
  imports Block_Iterator Two_Level_Correct
begin

section \<open>Two levels of blocks\<close>

text \<open>
  The levels of a table: an index block whose values name data blocks. The iterators of both are those
  of blocks, for every order, so that \<open>two_levels\<close> holds for every block function and every fuel.
\<close>

definition block_levels :: "(slice \<Rightarrow> AnyIter option res) \<Rightarrow> nat \<Rightarrow> (AnyIter, AnyIter) levels" where
  "block_levels read_block fuel =
     \<lparr>index_ops = block_iterator, data_ops = block_iterator, block_function = read_block, skip_fuel = fuel\<rparr>"

lemma block_levels_simps [simp]:
  "index_ops (block_levels read_block fuel) = block_iterator" "data_ops (block_levels read_block fuel) = block_iterator"
  "block_function (block_levels read_block fuel) = read_block" "skip_fuel (block_levels read_block fuel) = fuel"
  by (simp_all add: block_levels_def)

sublocale key_order < levels: two_levels cmp valid before "block_levels read_block fuel" block_at block_at
  for read_block fuel
  unfolding block_levels_simps two_levels_def by (intro conjI blocks.sorted_iterator_axioms)

interpretation two_level_blocks: two_levels BytewiseComparator "\<lambda>_. True" "(<)" "block_levels read_block fuel"
  bytewise.block_at bytewise.block_at for read_block fuel
  unfolding block_levels_simps two_levels_def by (intro conjI bytewise.blocks.sorted_iterator_axioms)

end
