(* ===== verification/Table.thy ===== *)
theory Table
  imports Table_Format Two_Level_Blocks
begin

section \<open>Reading a table\<close>

text \<open>
  \<open>leveldb-mcpe/table/table.cc\<close> without a block cache (\<open>options.block_cache\<close> is \<open>NULL\<close>): opening a table reads the
  footer, the index block and, where there is a policy, the filter; its iterator is a two-level iterator
  over the index and the blocks; \<open>InternalGet\<close> asks the filter before it reads the block of a key.
  Reading does not change the file. The memory that the cleanup functions and the destructor free is not
  modelled.
\<close>

record Table =
  t_options :: Options
  t_metaindex_handle :: BlockHandle
  t_index_block :: Block
  t_filter :: "FilterBlockReader option"

definition meta_options :: "Options \<Rightarrow> ReadOptions" where
  "meta_options options =
     (let opt = new_ReadOptions in if paranoid_checks options then opt\<lparr>verify_checksums := True\<rparr> else opt)"

definition ReadFilter :: "(u32 \<Rightarrow> slice \<Rightarrow> u32) \<Rightarrow> 's RandomAccessFile \<Rightarrow> slice \<Rightarrow> Table \<Rightarrow> 's \<Rightarrow> Table res" where
  "ReadFilter acc file filter_handle_value t s =
     bind_res (BlockHandle_DecodeFrom filter_handle_value new_BlockHandle) (\<lambda>(st, filter_handle, _).
     if \<not> ok st then Inr t
     else
       bind_res (ReadBlock acc file (t_options t) (meta_options (t_options t)) filter_handle s) (\<lambda>(st, contents).
       if \<not> ok st then Inr t
       else bind_res (new_FilterBlockReader (bc_data contents)) (\<lambda>reader. Inr (t\<lparr>t_filter := Some reader\<rparr>))))"

definition ReadMeta :: "(u32 \<Rightarrow> slice \<Rightarrow> u32) \<Rightarrow> 's RandomAccessFile \<Rightarrow> Footer \<Rightarrow> Table \<Rightarrow> 's \<Rightarrow> Table res" where
  "ReadMeta acc file footer t s =
     (case options_filter_policy (t_options t) of None \<Rightarrow> Inr t
      | Some policy \<Rightarrow>
          bind_res (ReadBlock acc file (t_options t) (meta_options (t_options t)) (metaindex_handle footer) s)
            (\<lambda>(st, contents).
          if \<not> ok st then Inr t
          else
            bind_res (new_Block (bc_data contents)) (\<lambda>meta.
            bind_res (Block_NewIterator meta BytewiseComparator) (\<lambda>iter.
            let key = map char_byte ''filter.'' @ policy_Name policy in
            bind_res (it_Seek block_iterator key iter) (\<lambda>iter.
            if \<not> it_Valid block_iterator iter then Inr t
            else
              bind_res (it_key block_iterator iter) (\<lambda>k.
              if k = key then
                bind_res (it_value block_iterator iter) (\<lambda>v. ReadFilter acc file v t s)
              else Inr t))))))"

definition Table_Open :: "(u32 \<Rightarrow> slice \<Rightarrow> u32) \<Rightarrow> 's RandomAccessFile \<Rightarrow> Options \<Rightarrow> u64 \<Rightarrow> 's \<Rightarrow>
    (Status \<times> Table option) res" where
  "Table_Open acc file options sz s =
     (if sz < of_nat kEncodedLength then
        bind_res (Corruption (map char_byte ''file is too short to be an sstable'') []) (\<lambda>st. Inr (st, None))
      else
        bind_res (ra_Read file (sz - of_nat kEncodedLength) kEncodedLength s) (\<lambda>(st, footer_input, _).
        if \<not> ok st then Inr (st, None)
        else
          bind_res (Footer_DecodeFrom footer_input \<lparr>metaindex_handle = new_BlockHandle, index_handle = new_BlockHandle\<rparr>)
            (\<lambda>(st, footer, _).
          if \<not> ok st then Inr (st, None)
          else
            bind_res (ReadBlock acc file options (meta_options options) (index_handle footer) s) (\<lambda>(st, contents).
            if \<not> ok st then Inr (st, None)
            else
              bind_res (new_Block (bc_data contents)) (\<lambda>index_block.
              bind_res (ReadMeta acc file footer
                \<lparr>t_options = options, t_metaindex_handle = metaindex_handle footer, t_index_block = index_block,
                 t_filter = None\<rparr> s) (\<lambda>t.
                Inr (st, Some t)))))))"

text \<open>An iterator over the block that a value of the index names, or the iterator of an error.\<close>

definition BlockReader :: "(u32 \<Rightarrow> slice \<Rightarrow> u32) \<Rightarrow> 's RandomAccessFile \<Rightarrow> Table \<Rightarrow> ReadOptions \<Rightarrow> 's \<Rightarrow> slice \<Rightarrow> AnyIter res" where
  "BlockReader acc file t options s index_value =
     bind_res (BlockHandle_DecodeFrom index_value new_BlockHandle) (\<lambda>(st, handle, _).
     if \<not> ok st then Inr (ErrorIter st)
     else
       bind_res (ReadBlock acc file (t_options t) options handle s) (\<lambda>(st, contents).
       if \<not> ok st then Inr (ErrorIter st)
       else
         bind_res (new_Block (bc_data contents)) (\<lambda>block.
           Block_NewIterator block (options_comparator (t_options t)))))"

text \<open>
  The levels of the iterator, and the iterator. The fuel is one unit for each byte of the index block, in
  which an entry has at least three.
\<close>

definition table_levels :: "(u32 \<Rightarrow> slice \<Rightarrow> u32) \<Rightarrow> 's RandomAccessFile \<Rightarrow> Table \<Rightarrow> ReadOptions \<Rightarrow> 's \<Rightarrow>
    (AnyIter, AnyIter) levels" where
  "table_levels acc file t options s =
     block_levels (\<lambda>v. bind_res (BlockReader acc file t options s v) (\<lambda>a. Inr (Some a)))
       (length (b_data (t_index_block t)) + 2)"

definition Table_NewIterator :: "(u32 \<Rightarrow> slice \<Rightarrow> u32) \<Rightarrow> 's RandomAccessFile \<Rightarrow> Table \<Rightarrow> ReadOptions \<Rightarrow> 's \<Rightarrow>
    (AnyIter, AnyIter) TwoLevelIterator res" where
  "Table_NewIterator acc file t options s =
     bind_res (Block_NewIterator (t_index_block t) (options_comparator (t_options t))) (\<lambda>index_iter.
       new_TwoLevelIterator (table_levels acc file t options s) index_iter)"

text \<open>\<open>saver\<close> updates the argument of the caller.\<close>

definition InternalGet :: "(u32 \<Rightarrow> slice \<Rightarrow> u32) \<Rightarrow> 's RandomAccessFile \<Rightarrow> Table \<Rightarrow> ReadOptions \<Rightarrow> 's \<Rightarrow> slice \<Rightarrow>
    (slice \<Rightarrow> slice \<Rightarrow> 'a \<Rightarrow> 'a) \<Rightarrow> 'a \<Rightarrow> (Status \<times> 'a) res" where
  "InternalGet acc file t options s k saver arg =
     bind_res (Block_NewIterator (t_index_block t) (options_comparator (t_options t))) (\<lambda>iiter.
     bind_res (it_Seek block_iterator k iiter) (\<lambda>iiter.
     bind_res (if it_Valid block_iterator iiter then
         bind_res (it_value block_iterator iiter) (\<lambda>handle_value.
         bind_res (case t_filter t of None \<Rightarrow> Inr False
           | Some fr \<Rightarrow>
               bind_res (BlockHandle_DecodeFrom handle_value new_BlockHandle) (\<lambda>(st, handle, _).
               if ok st then
                 bind_res (deref (options_filter_policy (t_options t))) (\<lambda>policy.
                 bind_res (filter_key_may_match policy fr (bh_offset handle) k) (\<lambda>may. Inr (\<not> may)))
               else Inr False)) (\<lambda>absent.
         if absent then Inr (OK, arg)
         else
           bind_res (BlockReader acc file t options s handle_value) (\<lambda>block_iter.
           bind_res (it_Seek block_iterator k block_iter) (\<lambda>block_iter.
           bind_res (if it_Valid block_iterator block_iter then
               bind_res (it_key block_iterator block_iter) (\<lambda>bk.
               bind_res (it_value block_iterator block_iter) (\<lambda>bv. Inr (saver bk bv arg)))
             else Inr arg) (\<lambda>arg.
           bind_res (it_status block_iterator block_iter) (\<lambda>st. Inr (st, arg)))))))
       else Inr (OK, arg)) (\<lambda>(st, arg).
     if ok st then bind_res (it_status block_iterator iiter) (\<lambda>st. Inr (st, arg)) else Inr (st, arg))))"

definition ApproximateOffsetOf :: "Table \<Rightarrow> slice \<Rightarrow> u64 res" where
  "ApproximateOffsetOf t key =
     bind_res (Block_NewIterator (t_index_block t) (options_comparator (t_options t))) (\<lambda>index_iter.
     bind_res (it_Seek block_iterator key index_iter) (\<lambda>index_iter.
     if it_Valid block_iterator index_iter then
       bind_res (it_value block_iterator index_iter) (\<lambda>inp.
       bind_res (BlockHandle_DecodeFrom inp new_BlockHandle) (\<lambda>(st, handle, _).
         Inr (if ok st then bh_offset handle else bh_offset (t_metaindex_handle t))))
     else Inr (bh_offset (t_metaindex_handle t))))"

end
