(* ===== verification/Table_Builder.thy ===== *)
theory Table_Builder
  imports Table_Format
begin

section \<open>Writing a table\<close>

text \<open>
  \<open>leveldb-mcpe/table/table_builder.cc\<close>: keys in ascending order are cut into data blocks, each written with a
  trailer of its type and checksum; a block's entry of the index is added when the first key of the
  next block is known, under a key between the two; the filter block, the metaindex block, the index
  block and the footer end the file. The state of the builder and of the file are returned updated.
\<close>

text \<open>
  \<open>Rep\<close>, with the policy that the builder of the filter keeps beside it, less the file, which the operations
  get, and \<open>compressed_output\<close>, which is empty between two blocks. The two block builders read the
  options of the builder; what they use of them is in their state.
\<close>

record TableBuilder =
  tb_options :: Options
  tb_offset :: u64
  tb_status :: Status
  tb_data_block :: BlockBuilder
  tb_index_block :: BlockBuilder
  tb_last_key :: slice
  tb_num_entries :: int
  tb_closed :: bool
  tb_filter_block :: "(filter_policy \<times> FilterBlockBuilder) option"
  tb_pending_index_entry :: bool
  tb_pending_handle :: BlockHandle

definition tb_ok :: "TableBuilder \<Rightarrow> bool" where
  "tb_ok r \<longleftrightarrow> ok (tb_status r)"

definition tb_StartBlock :: "TableBuilder \<Rightarrow> u64 \<Rightarrow> TableBuilder res" where
  "tb_StartBlock r offset =
     (case tb_filter_block r of None \<Rightarrow> Inr r
      | Some (policy, fb) \<Rightarrow>
          bind_res (StartBlock policy fb offset) (\<lambda>fb. Inr (r\<lparr>tb_filter_block := Some (policy, fb)\<rparr>)))"

definition new_TableBuilder :: "Options \<Rightarrow> TableBuilder res" where
  "new_TableBuilder options =
     bind_res (new_BlockBuilder (block_restart_interval options) (options_comparator options)) (\<lambda>data_block.
     bind_res (new_BlockBuilder (block_restart_interval options) (options_comparator options)) (\<lambda>index_block.
       tb_StartBlock
         \<lparr>tb_options = options, tb_offset = 0, tb_status = OK, tb_data_block = data_block,
          tb_index_block = index_block\<lparr>bb_interval := 1\<rparr>, tb_last_key = [], tb_num_entries = 0, tb_closed = False,
          tb_filter_block = map_option (\<lambda>policy. (policy, new_FilterBlockBuilder)) (options_filter_policy options),
          tb_pending_index_entry = False, tb_pending_handle = new_BlockHandle\<rparr> 0))"

definition delete_TableBuilder :: "TableBuilder \<Rightarrow> unit res" where
  "delete_TableBuilder r = guard_res (tb_closed r) AssertFail"

definition ChangeOptions :: "Options \<Rightarrow> TableBuilder \<Rightarrow> (Status \<times> TableBuilder) res" where
  "ChangeOptions options r =
     (if comparator_at options \<noteq> comparator_at (tb_options r) then
        bind_res (InvalidArgument (map char_byte ''changing comparator while building table'') []) (\<lambda>s. Inr (s, r))
      else
        Inr (OK, r\<lparr>tb_options := options,
          tb_data_block := (tb_data_block r)\<lparr>bb_interval := block_restart_interval options,
            bb_comparator := options_comparator options\<rparr>,
          tb_index_block := (tb_index_block r)\<lparr>bb_interval := 1, bb_comparator := options_comparator options\<rparr>\<rparr>))"

subsection \<open>Blocks\<close>

text \<open>The checksum covers the contents and the type. The offset moves only when both parts are written.\<close>

definition WriteRawBlock :: "(u32 \<Rightarrow> slice \<Rightarrow> u32) \<Rightarrow> 's WritableFile \<Rightarrow> slice \<Rightarrow> Compressor option \<Rightarrow>
    TableBuilder \<Rightarrow> 's \<Rightarrow> (BlockHandle \<times> TableBuilder \<times> 's) res" where
  "WriteRawBlock acc file block_contents compressor r s =
     (let handle = \<lparr>bh_offset = tb_offset r, bh_size = of_nat (length block_contents)\<rparr> in
      bind_res (wf_Append file block_contents s) (\<lambda>(st, s).
      let r = r\<lparr>tb_status := st\<rparr> in
      if \<not> ok st then Inr (handle, r, s)
      else
        let block_type = (case compressor of None \<Rightarrow> 0 | Some c \<Rightarrow> uniqueCompressionID c);
            crc = crc_value acc 0 block_contents;
            crc = Extend acc 0 crc [block_type] in
        bind_res (wf_Append file (block_type # EncodeFixed32 (Mask crc)) s) (\<lambda>(st, s).
        let r = r\<lparr>tb_status := st\<rparr> in
        if \<not> ok st then Inr (handle, r, s)
        else Inr (handle, r\<lparr>tb_offset := tb_offset r + (of_nat (length block_contents) + of_nat kBlockTrailerSize)\<rparr>, s))))"

text \<open>
  What is stored of a finished block: the output of the first compressor, where that saves more than an
  eighth, or the block.
\<close>

definition stored_form :: "Options \<Rightarrow> slice \<Rightarrow> (slice \<times> Compressor option) res" where
  "stored_form options raw =
     bind_res (vec_at (compressors options) 0) (\<lambda>compressor.
     case compressor of None \<Rightarrow> Inr (raw, None)
     | Some c \<Rightarrow>
         bind_res (compress c raw []) (\<lambda>compressed.
         if length compressed < length raw - length raw div 8 then Inr (compressed, Some c) else Inr (raw, None)))"

definition WriteBlock :: "(u32 \<Rightarrow> slice \<Rightarrow> u32) \<Rightarrow> 's WritableFile \<Rightarrow> BlockBuilder \<Rightarrow>
    TableBuilder \<Rightarrow> 's \<Rightarrow> (BlockBuilder \<times> BlockHandle \<times> TableBuilder \<times> 's) res" where
  "WriteBlock acc file block r s =
     bind_res (guard_res (tb_ok r) AssertFail) (\<lambda>_.
     let (raw, block) = Block_Finish block in
     bind_res (stored_form (tb_options r) raw) (\<lambda>(block_contents, compressor).
     bind_res (WriteRawBlock acc file block_contents compressor r s) (\<lambda>(handle, r, s).
       Inr (Block_Reset block, handle, r, s))))"

definition tb_Flush :: "(u32 \<Rightarrow> slice \<Rightarrow> u32) \<Rightarrow> 's WritableFile \<Rightarrow> TableBuilder \<Rightarrow> 's \<Rightarrow> (TableBuilder \<times> 's) res" where
  "tb_Flush acc file r s =
     bind_res (guard_res (\<not> tb_closed r) AssertFail) (\<lambda>_.
     if \<not> tb_ok r then Inr (r, s)
     else if block_empty (tb_data_block r) then Inr (r, s)
     else
       bind_res (guard_res (\<not> tb_pending_index_entry r) AssertFail) (\<lambda>_.
       bind_res (WriteBlock acc file (tb_data_block r) r s) (\<lambda>(data_block, handle, r, s).
       let r = r\<lparr>tb_data_block := data_block, tb_pending_handle := handle\<rparr> in
       bind_res (if tb_ok r then
           bind_res (wf_Flush file s) (\<lambda>(st, s). Inr (r\<lparr>tb_pending_index_entry := True, tb_status := st\<rparr>, s))
         else Inr (r, s)) (\<lambda>(r, s).
       bind_res (tb_StartBlock r (tb_offset r)) (\<lambda>r. Inr (r, s))))))"

text \<open>The entry of the index for the block that was written last, under a key that was just found.\<close>

definition add_index_entry :: "slice \<Rightarrow> TableBuilder \<Rightarrow> TableBuilder res" where
  "add_index_entry last_key r =
     bind_res (BlockHandle_EncodeTo (tb_pending_handle r) []) (\<lambda>handle_encoding.
     bind_res (Block_Add (tb_index_block r) last_key handle_encoding) (\<lambda>index_block.
       Inr (r\<lparr>tb_last_key := last_key, tb_index_block := index_block, tb_pending_index_entry := False\<rparr>)))"

definition tb_Add :: "(u32 \<Rightarrow> slice \<Rightarrow> u32) \<Rightarrow> 's WritableFile \<Rightarrow> slice \<Rightarrow> slice \<Rightarrow> TableBuilder \<Rightarrow> 's \<Rightarrow>
    (TableBuilder \<times> 's) res" where
  "tb_Add acc file key value r s =
     bind_res (guard_res (\<not> tb_closed r) AssertFail) (\<lambda>_.
     if \<not> tb_ok r then Inr (r, s)
     else
       let cmp = options_comparator (tb_options r) in
       bind_res (if tb_num_entries r > 0 then
           bind_res (Compare cmp key (tb_last_key r)) (\<lambda>c. guard_res (c > 0) AssertFail)
         else Inr ()) (\<lambda>_.
       bind_res (if tb_pending_index_entry r then
           bind_res (guard_res (block_empty (tb_data_block r)) AssertFail) (\<lambda>_.
           bind_res (FindShortestSeparator cmp (tb_last_key r) key) (\<lambda>sep. add_index_entry sep r))
         else Inr r) (\<lambda>r.
       let r = r\<lparr>tb_filter_block := map_option (\<lambda>(policy, fb). (policy, AddKey fb key)) (tb_filter_block r),
             tb_last_key := key, tb_num_entries := tb_num_entries r + 1\<rparr> in
       bind_res (Block_Add (tb_data_block r) key value) (\<lambda>data_block.
       let r = r\<lparr>tb_data_block := data_block\<rparr> in
       if CurrentSizeEstimate data_block \<ge> block_size (tb_options r) then tb_Flush acc file r s
       else Inr (r, s)))))"

subsection \<open>The end of the table\<close>

definition filter_key :: "filter_policy \<Rightarrow> slice" where
  "filter_key policy = map char_byte ''filter.'' @ policy_Name policy"

text \<open>The four steps of \<open>Finish\<close> after the last flush; each runs if the ones before it succeeded.\<close>

definition write_filter_block :: "(u32 \<Rightarrow> slice \<Rightarrow> u32) \<Rightarrow> 's WritableFile \<Rightarrow> TableBuilder \<Rightarrow> 's \<Rightarrow>
    (BlockHandle \<times> TableBuilder \<times> 's) res" where
  "write_filter_block acc file r s =
     (case tb_filter_block r of
        Some (policy, fb) \<Rightarrow>
          if tb_ok r then bind_res (Finish policy fb) (\<lambda>contents. WriteRawBlock acc file contents None r s)
          else Inr (new_BlockHandle, r, s)
      | None \<Rightarrow> Inr (new_BlockHandle, r, s))"

definition write_metaindex_block :: "(u32 \<Rightarrow> slice \<Rightarrow> u32) \<Rightarrow> 's WritableFile \<Rightarrow> BlockHandle \<Rightarrow> TableBuilder \<Rightarrow> 's \<Rightarrow>
    (BlockHandle \<times> TableBuilder \<times> 's) res" where
  "write_metaindex_block acc file filter_block_handle r s =
     (if tb_ok r then
        bind_res (new_BlockBuilder (block_restart_interval (tb_options r)) (options_comparator (tb_options r)))
          (\<lambda>meta_index_block.
        bind_res (if tb_filter_block r \<noteq> None then
            bind_res (deref (options_filter_policy (tb_options r))) (\<lambda>policy.
            bind_res (BlockHandle_EncodeTo filter_block_handle []) (\<lambda>handle_encoding.
              Block_Add meta_index_block (filter_key policy) handle_encoding))
          else Inr meta_index_block) (\<lambda>meta_index_block.
        bind_res (WriteBlock acc file meta_index_block r s) (\<lambda>(_, handle, r, s). Inr (handle, r, s))))
      else Inr (new_BlockHandle, r, s))"

definition write_index_block :: "(u32 \<Rightarrow> slice \<Rightarrow> u32) \<Rightarrow> 's WritableFile \<Rightarrow> TableBuilder \<Rightarrow> 's \<Rightarrow>
    (BlockHandle \<times> TableBuilder \<times> 's) res" where
  "write_index_block acc file r s =
     (if tb_ok r then
        bind_res (if tb_pending_index_entry r then
            bind_res (FindShortSuccessor (options_comparator (tb_options r)) (tb_last_key r)) (\<lambda>succ.
              add_index_entry succ r)
          else Inr r) (\<lambda>r.
        bind_res (WriteBlock acc file (tb_index_block r) r s) (\<lambda>(index_block, handle, r, s).
          Inr (handle, r\<lparr>tb_index_block := index_block\<rparr>, s)))
      else Inr (new_BlockHandle, r, s))"

definition write_footer :: "'s WritableFile \<Rightarrow> BlockHandle \<Rightarrow> BlockHandle \<Rightarrow> TableBuilder \<Rightarrow> 's \<Rightarrow> (TableBuilder \<times> 's) res" where
  "write_footer file metaindex_block_handle index_block_handle r s =
     (if tb_ok r then
        bind_res (Footer_EncodeTo \<lparr>metaindex_handle = metaindex_block_handle, index_handle = index_block_handle\<rparr> [])
          (\<lambda>footer_encoding.
        bind_res (wf_Append file footer_encoding s) (\<lambda>(st, s).
        let r = r\<lparr>tb_status := st\<rparr> in
        if ok st then Inr (r\<lparr>tb_offset := tb_offset r + of_nat (length footer_encoding)\<rparr>, s) else Inr (r, s)))
      else Inr (r, s))"

definition tb_Finish :: "(u32 \<Rightarrow> slice \<Rightarrow> u32) \<Rightarrow> 's WritableFile \<Rightarrow> TableBuilder \<Rightarrow> 's \<Rightarrow> (Status \<times> TableBuilder \<times> 's) res" where
  "tb_Finish acc file r s =
     bind_res (tb_Flush acc file r s) (\<lambda>(r, s).
     bind_res (guard_res (\<not> tb_closed r) AssertFail) (\<lambda>_.
     let r = r\<lparr>tb_closed := True\<rparr> in
     bind_res (write_filter_block acc file r s) (\<lambda>(filter_block_handle, r, s).
     bind_res (write_metaindex_block acc file filter_block_handle r s) (\<lambda>(metaindex_block_handle, r, s).
     bind_res (write_index_block acc file r s) (\<lambda>(index_block_handle, r, s).
     bind_res (write_footer file metaindex_block_handle index_block_handle r s) (\<lambda>(r, s).
       Inr (tb_status r, r, s)))))))"

definition tb_Abandon :: "TableBuilder \<Rightarrow> TableBuilder res" where
  "tb_Abandon r = bind_res (guard_res (\<not> tb_closed r) AssertFail) (\<lambda>_. Inr (r\<lparr>tb_closed := True\<rparr>))"

definition tb_NumEntries :: "TableBuilder \<Rightarrow> u64" where
  "tb_NumEntries r = of_int (tb_num_entries r)"

definition tb_FileSize :: "TableBuilder \<Rightarrow> u64" where
  "tb_FileSize r = tb_offset r"

text \<open>A table of the given pairs, added one after the other.\<close>

fun tb_add_all :: "(u32 \<Rightarrow> slice \<Rightarrow> u32) \<Rightarrow> 's WritableFile \<Rightarrow> (slice \<times> slice) list \<Rightarrow> TableBuilder \<Rightarrow> 's \<Rightarrow>
    (TableBuilder \<times> 's) res" where
  "tb_add_all acc file [] r s = Inr (r, s)"
| "tb_add_all acc file ((k, v) # kvs) r s =
     bind_res (tb_Add acc file k v r s) (\<lambda>(r, s). tb_add_all acc file kvs r s)"

definition build_table :: "(u32 \<Rightarrow> slice \<Rightarrow> u32) \<Rightarrow> 's WritableFile \<Rightarrow> Options \<Rightarrow> (slice \<times> slice) list \<Rightarrow> 's \<Rightarrow>
    (Status \<times> TableBuilder \<times> 's) res" where
  "build_table acc file options kvs s =
     bind_res (new_TableBuilder options) (\<lambda>r.
     bind_res (tb_add_all acc file kvs r s) (\<lambda>(r, s). tb_Finish acc file r s))"

end
