(* ===== verification/Table_Stored.thy ===== *)
theory Table_Stored
  imports Table_Builder Log_Correct
begin

section \<open>Blocks in a file\<close>

text \<open>
  The bytes of a stored block, what it means that a handle names one in a file, that the writer stores
  blocks and \<open>ReadBlock\<close> reads them back, compressed or not.
\<close>

subsection \<open>The bytes\<close>

definition block_image :: "slice \<Rightarrow> byte \<Rightarrow> slice" where
  "block_image y t = y @ t # EncodeFixed32 (Mask (crc32c 0 (y @ [t])))"

lemma length_block_image [simp]: "length (block_image y t) = length y + 5"
  by (simp add: block_image_def)

lemma take_block_image [simp]: "take (length y) (block_image y t) = y"
  by (simp add: block_image_def)

text \<open>
  A compressor that can be used: its identifier is positive as a \<open>char\<close>, it always produces something,
  and gets its input back.
\<close>

definition lossless :: "Compressor \<Rightarrow> bool" where
  "lossless c \<longleftrightarrow> 0 < sint (uniqueCompressionID c) \<and>
     (\<forall>x. \<exists>y. compress c x [] = Inr y \<and> decompress c y [] = Inr (True, x))"

definition compressors_ok :: "Options \<Rightarrow> bool" where
  "compressors_ok opts \<longleftrightarrow> (\<exists>c cs. compressors opts = c # cs \<and> (\<forall>c'. c = Some c' \<longrightarrow> lossless c'))"

definition stores :: "Options \<Rightarrow> slice \<Rightarrow> slice \<Rightarrow> byte \<Rightarrow> bool" where
  "stores opts x y t \<longleftrightarrow> t = 0 \<and> y = x \<or>
     t \<noteq> 0 \<and> (\<exists>c. find_compressor (compressors opts) t = Some c \<and> decompress c y [] = Inr (True, x))"

definition stored_at :: "Options \<Rightarrow> slice \<Rightarrow> BlockHandle \<Rightarrow> slice \<Rightarrow> bool" where
  "stored_at opts d h x \<longleftrightarrow> (\<exists>pre y t post. d = pre @ block_image y t @ post \<and> unat (bh_offset h) = length pre \<and>
     unat (bh_size h) = length y \<and> stores opts x y t)"

lemma stored_at_append: "stored_at opts d h x \<Longrightarrow> stored_at opts (d @ e) h x"
  unfolding stored_at_def by (metis append_assoc)

lemma stored_at_offset: "stored_at opts d h x \<Longrightarrow> unat (bh_offset h) < length d"
  by (auto simp: stored_at_def)

lemma uint_of_sint:
  assumes "0 \<le> sint (w :: byte)"
  shows "uint w = sint w"
proof -
  have "sint w < 2 ^ 7" using sint_lt [of w] by simp
  with assms have "take_bit LENGTH(8) (sint w) = sint w" by (intro take_bit_int_eq_self) simp_all
  moreover have "uint (word_of_int (sint w) :: byte) = take_bit LENGTH(8) (sint w)" by (rule uint_word_of_int_eq)
  ultimately show ?thesis by simp
qed

lemma stored_form_stores:
  assumes "compressors_ok opts"
  shows "\<exists>y c. stored_form opts x = Inr (y, c) \<and> length y \<le> length x \<and>
    stores opts x y (case c of None \<Rightarrow> 0 | Some c \<Rightarrow> uniqueCompressionID c)"
proof -
  obtain c cs where c: "compressors opts = c # cs" "\<And>c'. c = Some c' \<Longrightarrow> lossless c'"
    using assms by (auto simp: compressors_ok_def)
  show ?thesis
  proof (cases c)
    case None
    then show ?thesis using c(1) by (simp add: stored_form_def vec_at_def stores_def)
  next
    case (Some c')
    obtain y where y: "compress c' x [] = Inr y" "decompress c' y [] = Inr (True, x)" "0 < sint (uniqueCompressionID c')"
      using c(2) [OF Some] by (auto simp: lossless_def)
    have "uint (uniqueCompressionID c') = sint (uniqueCompressionID c')" using y(3) by (intro uint_of_sint) simp
    then have "find_compressor (compressors opts) (uniqueCompressionID c') = Some c'"
      by (simp add: c(1) Some)
    moreover have "uniqueCompressionID c' \<noteq> 0" using y(3) by auto
    ultimately show ?thesis using y(1,2) c(1) Some by (auto simp: stored_form_def vec_at_def stores_def)
  qed
qed

subsection \<open>Reading\<close>

lemma u64_add_small: "unat (a :: u64) + k < 2 ^ 64 \<Longrightarrow> unat (a + of_nat k) = unat a + k"
  by (simp add: unat_word_ariths unat_of_nat)

context random_file
begin

lemma ReadBlock_stored:
  assumes "port_crc_ok acc" and "inv s" and "stored_at opts (contents s) h x" and "length (contents s) < 2 ^ 64"
  shows "\<exists>bc. ReadBlock acc f opts ro h s = Inr (OK, bc) \<and> bc_data bc = x"
proof -
  obtain pre y t post where st: "contents s = pre @ block_image y t @ post" "unat (bh_offset h) = length pre"
    "unat (bh_size h) = length y" "stores opts x y t"
    using assms(3) by (auto simp: stored_at_def)
  have m: "unat (bh_size h + of_nat 5) = length y + 5"
    using assms(4) st(1,3) by (subst u64_add_small) simp_all
  have "unat (bh_offset h) \<le> length (contents s)" using st(1,2) by simp
  from read [OF assms(2) this, of "length y + 5"] obtain b where
    b: "ra_Read f (bh_offset h) (length y + 5) s = Inr (OK, block_image y t, b)"
    using st(1,2) by auto
  have crc: "crc_value acc 0 (y @ [t]) = crc32c 0 (y @ [t])" using assms(1) by (simp add: crc_value_ok)
  have checked: "(if verify_checksums ro then
      bind_res (DecodeFixed32 (drop (length y + 1) (block_image y t))) (\<lambda>stored.
      bind_res (guard_res (length y + 1 \<le> length (block_image y t)) Undefined) (\<lambda>_.
        Inr (crc_value acc 0 (take (length y + 1) (block_image y t)) = Unmask stored)))
    else Inr True) = Inr True"
    using crc DecodeFixed32_Encode [of _ "[]"] by (simp add: block_image_def Unmask_Mask)
  have ty: "vec_at (block_image y t) (int (length y)) = Inr t" by (simp add: vec_at_def block_image_def)
  have read: "ReadBlock acc f opts ro h s = (if t = 0 then Inr (OK, \<lparr>bc_data = y, bc_cachable = b, bc_heap_allocated = b\<rparr>)
      else (case find_compressor (compressors opts) t of
        None \<Rightarrow> bind_res (NotSupported (map char_byte ''encountered a block compressed with an unknown decompressor'') [])
          (\<lambda>s. Inr (s, \<lparr>bc_data = [], bc_cachable = False, bc_heap_allocated = False\<rparr>))
      | Some c \<Rightarrow> bind_res (decompress c y []) (\<lambda>(success, buffer).
          if success then Inr (OK, \<lparr>bc_data = buffer, bc_cachable = True, bc_heap_allocated = True\<rparr>)
          else bind_res (Corruption (map char_byte ''corrupted compressed block contents'') [])
            (\<lambda>s. Inr (s, \<lparr>bc_data = [], bc_cachable = False, bc_heap_allocated = False\<rparr>)))))"
    unfolding ReadBlock_def footer_sizes(3) m st(3) b Let_def
    by (simp add: checked ty split: option.split)
  then show ?thesis using st(4) unfolding read by (auto simp: stores_def)
qed

end

subsection \<open>Writing\<close>

text \<open>The offset of the builder is the length of the file.\<close>

context writable_file
begin

lemma WriteRawBlock_ok:
  assumes "port_crc_ok acc" and "inv s"
  shows "\<exists>s'. WriteRawBlock acc f y c r s = Inr (\<lparr>bh_offset = tb_offset r, bh_size = of_nat (length y)\<rparr>,
      r\<lparr>tb_status := OK, tb_offset := tb_offset r + of_nat (length y + 5)\<rparr>, s') \<and> inv s' \<and>
    contents s' = contents s @ block_image y (case c of None \<Rightarrow> 0 | Some c \<Rightarrow> uniqueCompressionID c)"
proof -
  let ?t = "case c of None \<Rightarrow> 0 | Some c \<Rightarrow> uniqueCompressionID c"
  have crc: "Extend acc 0 (crc_value acc 0 y) [?t] = crc32c 0 (y @ [?t])"
    using assms(1) by (simp add: Extend_ok crc_value_ok crc32c_append)
  obtain s1 where s1: "wf_Append f y s = Inr (OK, s1)" "inv s1" "contents s1 = contents s @ y"
    using append [OF assms(2)] by blast
  obtain s2 where s2: "wf_Append f (?t # EncodeFixed32 (Mask (crc32c 0 (y @ [?t])))) s1 = Inr (OK, s2)" "inv s2"
    "contents s2 = contents s1 @ ?t # EncodeFixed32 (Mask (crc32c 0 (y @ [?t])))"
    using append [OF s1(2)] by blast
  show ?thesis
    using s1 s2 by (simp add: WriteRawBlock_def Let_def crc footer_sizes block_image_def)
qed

lemma WriteRawBlock_stored:
  assumes "port_crc_ok acc" and "inv s" and "tb_offset r = of_nat (length (contents s))"
    and "length (contents s) + length y + 5 < 2 ^ 64"
  shows "\<exists>h r' s'. WriteRawBlock acc f y c r s = Inr (h, r', s') \<and> inv s' \<and>
    r' = r\<lparr>tb_status := OK, tb_offset := of_nat (length (contents s'))\<rparr> \<and> unat (bh_offset h) = length (contents s) \<and>
    handle_ok h \<and> (\<exists>img. contents s' = contents s @ img \<and> length img = length y + 5) \<and>
    (\<forall>opts x. stores opts x y (case c of None \<Rightarrow> 0 | Some c \<Rightarrow> uniqueCompressionID c) \<longrightarrow>
      stored_at opts (contents s') h x)"
proof -
  obtain s' where s': "WriteRawBlock acc f y c r s = Inr (\<lparr>bh_offset = tb_offset r, bh_size = of_nat (length y)\<rparr>,
      r\<lparr>tb_status := OK, tb_offset := tb_offset r + of_nat (length y + 5)\<rparr>, s')" "inv s'"
    "contents s' = contents s @ block_image y (case c of None \<Rightarrow> 0 | Some c \<Rightarrow> uniqueCompressionID c)"
    using WriteRawBlock_ok [OF assms(1,2)] by blast
  let ?h = "\<lparr>bh_offset = tb_offset r, bh_size = of_nat (length y)\<rparr>"
  have small: "unat (of_nat n :: u64) = n" if "n < 2 ^ 64" for n using that by (simp add: unat_of_nat)
  have max: "unat (NOT 0 :: u64) = 2 ^ 64 - 1" by (simp add: unsigned_minus_1_eq_mask mask_eq_exp_minus_1)
  have u: "unat (bh_offset ?h) = length (contents s)" "unat (bh_size ?h) = length y"
    using small [of "length (contents s)"] small [of "length y"] assms(3,4) by simp_all
  moreover have "handle_ok ?h"
    unfolding handle_ok_def word_unat_eq_iff u max using assms(4) by simp
  moreover have "tb_offset r + of_nat (length y + 5) = of_nat (length (contents s'))"
    using s'(3) assms(3) by simp
  ultimately show ?thesis
    using s' by (fastforce simp: stored_at_def)
qed

lemma WriteBlock_stored:
  assumes "port_crc_ok acc" and "inv s" and "tb_offset r = of_nat (length (contents s))" and "tb_ok r"
    and "compressors_ok (tb_options r)" and "Block_Finish b = (raw, b')"
    and "length (contents s) + length raw + 5 < 2 ^ 64"
  shows "\<exists>h r' s'. WriteBlock acc f b r s = Inr (Block_Reset b', h, r', s') \<and> inv s' \<and>
    r' = r\<lparr>tb_status := OK, tb_offset := of_nat (length (contents s'))\<rparr> \<and> unat (bh_offset h) = length (contents s) \<and>
    handle_ok h \<and> (\<exists>img. contents s' = contents s @ img \<and> 5 \<le> length img \<and> length img \<le> length raw + 5) \<and>
    stored_at (tb_options r) (contents s') h raw"
proof -
  obtain y c where y: "stored_form (tb_options r) raw = Inr (y, c)" "length y \<le> length raw"
    "stores (tb_options r) raw y (case c of None \<Rightarrow> 0 | Some c \<Rightarrow> uniqueCompressionID c)"
    using stored_form_stores [OF assms(5)] by blast
  then have "length (contents s) + length y + 5 < 2 ^ 64" using assms(7) by linarith
  from WriteRawBlock_stored [OF assms(1-3) this, of c] y(2,3) obtain h r' s' img where
    "WriteRawBlock acc f y c r s = Inr (h, r', s')" "inv s'"
    "r' = r\<lparr>tb_status := OK, tb_offset := of_nat (length (contents s'))\<rparr>" "unat (bh_offset h) = length (contents s)"
    "handle_ok h" "contents s' = contents s @ img" "length img = length y + 5" "stored_at (tb_options r) (contents s') h raw"
    by blast
  then show ?thesis using assms(4,6) y(1,2) by (simp add: WriteBlock_def)
qed

end

end
