(* ===== verification/Block_Contents.thy ===== *)
theory Block_Contents
  imports Block_Iterator
begin

section \<open>The contents of a block\<close>

text \<open>
  What a writer of blocks needs to know of a builder and its readers of the bytes: the pairs a builder
  holds, the pairs a finished block holds, and how long it can be.
\<close>

definition block_cost :: "(slice \<times> slice) list \<Rightarrow> nat" where
  "block_cost kvs = 8 + (\<Sum>(k, v) \<leftarrow> kvs. length k + length v + 19)"

lemma block_cost_append: "block_cost (kvs @ [(k, v)]) = block_cost kvs + length k + length v + 19"
  by (simp add: block_cost_def)

lemma length_enc_entry_le: "length (enc_entry e) \<le> length (ekey e) + length (evalue e) + 15"
proof -
  obtain sh k v where e: "e = (sh, k, v)" by (cases e)
  show ?thesis
    using length_EncodeVarint(1) [of "of_nat sh"] length_EncodeVarint(1) [of "of_nat (length k - sh)"]
      length_EncodeVarint(1) [of "of_nat (length v)"]
    by (simp add: e enc_entry_def ekey_triple)
qed

lemma restarts_few:
  assumes "restarts_ok es rs"
  shows "length rs \<le> Suc (length es)"
proof -
  have "sorted_wrt (<) rs" "set rs \<subseteq> {..<Suc (length es)}" using assms by (auto simp: restarts_ok_def)
  then have "distinct rs" "card (set rs) \<le> card {..<Suc (length es)}"
    using card_mono [OF finite_lessThan, of "set rs" "Suc (length es)"] by (simp_all add: strict_sorted_iff)
  then show ?thesis by (simp add: distinct_card)
qed

lemma length_block_bytes_le:
  assumes "restarts_ok es rs"
  shows "length (block_bytes es rs) \<le> block_cost (pairs es)"
proof -
  have "length (entry_bytes es) + 4 * length es \<le> (\<Sum>(k, v) \<leftarrow> pairs es. length k + length v + 19)"
  proof (induction es)
    case (Cons e es)
    then show ?case using length_enc_entry_le [of e] by (simp add: pairs_def)
  qed (simp add: pairs_def)
  then show ?thesis using restarts_few [OF assms] by (simp add: length_block_bytes block_cost_def)
qed

context key_order
begin

definition builds :: "int \<Rightarrow> BlockBuilder \<Rightarrow> (slice \<times> slice) list \<Rightarrow> bool" where
  "builds interval b kvs \<longleftrightarrow> (\<exists>es rs. building cmp b es rs \<and> pairs es = kvs) \<and> bb_interval b = interval \<and>
     increasing (map fst kvs)"

definition block_holds :: "slice \<Rightarrow> (slice \<times> slice) list \<Rightarrow> bool" where
  "block_holds raw kvs \<longleftrightarrow> (\<exists>es rs. raw = block_bytes es rs \<and> layout es rs \<and> pairs es = kvs \<and> increasing (map ekey es))"

lemma builds_new:
  assumes "1 \<le> interval" and "interval < 2 ^ 31"
  shows "\<exists>b. new_BlockBuilder interval cmp = Inr b \<and> builds interval b []"
  using building_new [OF assms, of cmp] assms
  by (auto simp: builds_def new_BlockBuilder_def pairs_def increasing_def)

lemma builds_increasing: "builds interval b kvs \<Longrightarrow> increasing (map fst kvs)"
  by (simp add: builds_def)

lemma builds_empty:
  assumes "builds interval b kvs"
  shows "block_empty b \<longleftrightarrow> kvs = []"
proof -
  obtain es rs where es: "building cmp b es rs" "pairs es = kvs" using assms by (auto simp: builds_def)
  have "entry_bytes es = [] \<longleftrightarrow> es = []" using enc_entry_nonempty by (cases es) auto
  then show ?thesis using es by (auto simp: building_def block_empty_def pairs_def)
qed

lemma increasing_snoc:
  "increasing (ks @ [k]) \<longleftrightarrow> increasing ks \<and> valid k \<and> (ks \<noteq> [] \<longrightarrow> before (last ks) k)"
proof
  assume r: "increasing ks \<and> valid k \<and> (ks \<noteq> [] \<longrightarrow> before (last ks) k)"
  have "before x k" if "x \<in> set ks" for x
  proof -
    have ne: "ks \<noteq> []" using that by auto
    have v: "valid x" "valid (last ks)" using r that ne by (auto simp: increasing_def)
    have "x = last ks \<or> before x (last ks)"
      using that r ne by (cases ks rule: rev_cases) (auto simp: increasing_def sorted_wrt_append)
    then show ?thesis using r ne v before_trans by blast
  qed
  then show "increasing (ks @ [k])" using r by (simp add: increasing_def sorted_wrt_append)
qed (auto simp: increasing_def sorted_wrt_append)

lemma builds_Add:
  assumes b: "builds interval b kvs" and k: "valid k" "kvs \<noteq> [] \<Longrightarrow> before (fst (last kvs)) k"
    and fits: "length k + length v < 2 ^ 32"
  shows "\<exists>b'. Block_Add b k v = Inr b' \<and> builds interval b' (kvs @ [(k, v)])"
proof -
  obtain es rs where es: "building cmp b es rs" "pairs es = kvs" "bb_interval b = interval" "increasing (map fst kvs)"
    using b by (auto simp: builds_def)
  have "\<exists>r > 0. Compare cmp k (last_of es) = Inr r" if "es \<noteq> []"
  proof -
    have l: "last_of es = fst (last kvs)" "kvs \<noteq> []"
      using that es(2) by (auto simp: last_of_def pairs_def last_map)
    then have "valid (last_of es)" using es(4) by (simp add: increasing_def)
    then show ?thesis using compare_before [OF k(1), of "last_of es"] k(2) l by fastforce
  qed
  from Block_Add_building [OF es(1) fits this] obtain b' sh rs' where
    b': "Block_Add b k v = Inr b'" "building cmp b' (es @ [(sh, k, v)]) rs'" "bb_interval b' = bb_interval b" by blast
  moreover have "pairs (es @ [(sh, k, v)]) = kvs @ [(k, v)]" using es(2) by (simp add: pairs_def ekey_triple)
  moreover have "increasing (map fst (kvs @ [(k, v)]))" using es(4) k by (auto simp: increasing_snoc last_map)
  ultimately show ?thesis using es(3) by (auto simp: builds_def)
qed

lemma builds_Finish:
  assumes "builds interval b kvs" and "block_cost kvs < 2 ^ 32"
  shows "\<exists>raw b'. Block_Finish b = (raw, b') \<and> block_holds raw kvs \<and> builds interval (Block_Reset b') [] \<and>
    length raw = CurrentSizeEstimate b \<and> length raw \<le> block_cost kvs"
proof -
  obtain es rs where es: "building cmp b es rs" "pairs es = kvs" "bb_interval b = interval" "increasing (map fst kvs)"
    using assms(1) by (auto simp: builds_def)
  obtain raw b' where f: "Block_Finish b = (raw, b')" by fastforce
  have raw: "raw = block_bytes es rs" "CurrentSizeEstimate b = length raw"
    using Block_Finish_bytes [OF es(1)] f by simp_all
  have "restarts_ok es rs" using es(1) by (simp add: building_def)
  from length_block_bytes_le [OF this] have len: "length raw \<le> block_cost kvs" using raw es(2) by simp
  then have "layout es rs" using es(1) assms(2) raw by (simp add: layout_def building_def)
  then have "block_holds raw kvs" using raw es by (auto simp: block_holds_def ekey_pairs [symmetric])
  moreover have "building cmp (Block_Reset b') [] [0]" "bb_interval (Block_Reset b') = interval"
    using es(1,3) f
    by (auto simp: Block_Reset_def Block_Finish_def Let_def building_def last_of_def restarts_ok_def)
  then have "builds interval (Block_Reset b') []"
    by (auto simp: builds_def increasing_def pairs_def intro!: exI [of _ "[]"] exI [of _ "[0]"])
  ultimately show ?thesis using f len raw by simp
qed

lemma block_holds_open:
  assumes "block_holds raw kvs"
  shows "\<exists>b a. new_Block raw = Inr b \<and> Block_NewIterator b cmp = Inr a \<and> block_at kvs (length kvs) a \<and> b_data b = raw"
    and "length kvs \<le> length raw"
proof -
  obtain es rs where es: "raw = block_bytes es rs" "layout es rs" "pairs es = kvs" "increasing (map ekey es)"
    using assms by (auto simp: block_holds_def)
  obtain it where it: "open_block raw cmp = Inr (EntryIter it)" "iter_on es rs cmp it" "bi_current it = bi_restarts it"
    using open_block_on [OF es(2), of cmp] es(1) by auto
  then have "placed es rs cmp (length es) it" using es(2) by (simp add: placed_def past_def)
  from block_atI [OF this es(4)] have at: "block_at kvs (length kvs) (EntryIter it)" using es(3) by fastforce
  obtain b where b: "new_Block raw = Inr b" "Block_NewIterator b cmp = Inr (EntryIter it)"
    using it(1) by (auto simp: open_block_def res_simps)
  have "b_data b = raw" using b(1) by (auto simp: new_Block_def Let_def res_simps split: if_splits)
  then show "\<exists>b a. new_Block raw = Inr b \<and> Block_NewIterator b cmp = Inr a \<and> block_at kvs (length kvs) a \<and> b_data b = raw"
    using b at by blast
  show "length kvs \<le> length raw"
    using entries_small [OF es(2)] es(1,3) by (simp add: length_block_bytes pairs_def) auto
qed

end

end
