(* ===== verification/Table_Built.thy ===== *)
theory Table_Built
  imports Table_Stored Block_Contents
begin

section \<open>Correctness of the table builder\<close>

text \<open>
  What a table builder has written and what it holds back: the data blocks in the file, the entries of the
  index for all of them but the last, the pairs of the block it is filling, and the keys of the filter. The
  invariant is kept by \<open>Add\<close> and \<open>Flush\<close>, and \<open>Finish\<close> leaves a file that is a table of the pairs.
\<close>

subsection \<open>Sizes\<close>

definition kv_size :: "nat \<Rightarrow> (slice \<times> slice) list \<Rightarrow> nat" where
  "kv_size c kvs = (\<Sum>(k, v) \<leftarrow> kvs. length k + length v + c)"

lemma kv_size_simps [simp]: "kv_size c [] = 0" "kv_size c ((k, v) # kvs) = length k + length v + c + kv_size c kvs"
  "kv_size c (kvs @ kvs') = kv_size c kvs + kv_size c kvs'"
  by (simp_all add: kv_size_def)

lemma block_cost_size: "block_cost kvs = 8 + kv_size 19 kvs"
  by (simp add: block_cost_def kv_size_def)

lemma kv_size_add: "kv_size (c + d) kvs = kv_size c kvs + d * length kvs"
  by (induction kvs) auto

definition filter_name_length :: "Options \<Rightarrow> nat" where
  "filter_name_length opts = (case options_filter_policy opts of None \<Rightarrow> 0 | Some p \<Rightarrow> length (policy_Name p))"

text \<open>
  A bound on the bytes of a table and of each of its parts, where a filter of \<open>n\<close> keys has at most
  \<open>fsize * (n + 1)\<close> bytes.
\<close>

definition table_cost :: "nat \<Rightarrow> Options \<Rightarrow> (slice \<times> slice) list \<Rightarrow> nat" where
  "table_cost fsize opts kvs = 300 + filter_name_length opts + 3 * kv_size (40 + fsize) kvs"

lemma table_cost_mono: "table_cost fsize opts kvs \<le> table_cost fsize opts (kvs @ kvs')"
  by (simp add: table_cost_def)

subsection \<open>The filter\<close>

definition filter_size :: "nat \<Rightarrow> FilterBlockBuilder \<Rightarrow> nat" where
  "filter_size fsize fb = length (fb_result fb) + 2 * fsize * length (fb_start fb)"

definition small_filters :: "nat \<Rightarrow> filter_policy \<Rightarrow> bool" where
  "small_filters fsize p \<longleftrightarrow>
     (\<forall>ks dst r. CreateFilter p ks dst = Inr r \<longrightarrow> length r \<le> length dst + fsize * Suc (length ks))"

lemma GenerateFilter_size:
  assumes "small_filters fsize p" and "GenerateFilter p fb = Inr fb'"
  shows "filter_size fsize fb' \<le> filter_size fsize fb"
proof (cases "fb_start fb = []")
  case False
  let ?ks = "flat_keys (fb_keys fb) (fb_start fb @ [length (fb_keys fb)]) (length (fb_start fb))"
  obtain r where r: "CreateFilter p ?ks (fb_result fb) = Inr r" "fb_result fb' = r" "fb_start fb' = []"
    using assms(2) False by (auto simp: GenerateFilter_def Let_def res_simps)
  have "length ?ks = length (fb_start fb)" by (simp add: flat_keys_def)
  then have "length r \<le> length (fb_result fb) + fsize * Suc (length (fb_start fb))"
    using assms(1) r(1) unfolding small_filters_def by metis
  moreover have "fsize * Suc (length (fb_start fb)) \<le> fsize * (2 * length (fb_start fb))"
    using False by (intro mult_le_mono2) (cases "fb_start fb"; simp)
  ultimately have "length r \<le> length (fb_result fb) + fsize * (2 * length (fb_start fb))" by (rule order_trans [OF _ add_left_mono])
  then show ?thesis using r(2,3) by (simp add: filter_size_def mult.left_commute mult.assoc)
qed (use assms(2) in \<open>auto simp: GenerateFilter_def filter_size_def\<close>)

lemma start_loop_size:
  assumes "small_filters fsize p"
  shows "start_loop p n fb = Inr fb' \<Longrightarrow> filter_size fsize fb' \<le> filter_size fsize fb"
proof (induction "n - length (fb_offsets fb)" arbitrary: fb rule: less_induct)
  case less
  show ?case
  proof (cases "n > length (fb_offsets fb)")
    case True
    then obtain fb1 where fb1: "GenerateFilter p fb = Inr fb1" "start_loop p n fb1 = Inr fb'"
      using less.prems by (subst (asm) start_loop.simps) (auto simp: res_simps)
    have "n - length (fb_offsets fb1) < n - length (fb_offsets fb)" using GenerateFilter_offsets [OF fb1(1)] True by simp
    from less.hyps [OF this fb1(2)] GenerateFilter_size [OF assms fb1(1)] show ?thesis by simp
  qed (use less.prems in \<open>subst (asm) start_loop.simps; simp\<close>)
qed

lemma StartBlock_size:
  "small_filters fsize p \<Longrightarrow> StartBlock p fb off = Inr fb' \<Longrightarrow> filter_size fsize fb' \<le> filter_size fsize fb"
  by (auto simp: StartBlock_def Let_def res_simps intro: start_loop_size)

lemma length_foldl_fixed: "length (foldl PutFixed32 r vs) = length r + 4 * length vs"
  by (induction vs arbitrary: r) (simp_all add: PutFixed32_def)

lemma Finish_size:
  assumes "small_filters fsize p" and "Finish p fb = Inr contents"
  shows "length contents \<le> filter_size fsize fb + 4 * length (fb_offsets fb) + 9"
proof (cases "fb_start fb = []")
  case False
  then obtain fb' where fb': "GenerateFilter p fb = Inr fb'"
    "contents = PutFixed32 (foldl PutFixed32 (fb_result fb') (fb_offsets fb')) (of_nat (length (fb_result fb'))) @ [of_nat kFilterBaseLg]"
    using assms(2) by (auto simp: Finish_def Let_def res_simps)
  have "length (fb_result fb') \<le> filter_size fsize fb"
    using GenerateFilter_size [OF assms(1) fb'(1)] by (simp add: filter_size_def)
  then show ?thesis
    using GenerateFilter_offsets [OF fb'(1)] by (simp add: fb'(2) PutFixed32_def length_foldl_fixed)
qed (use assms(2) in \<open>auto simp: Finish_def Let_def PutFixed32_def length_foldl_fixed filter_size_def\<close>)

type_synonym data_blocks = "(BlockHandle \<times> (slice \<times> slice) list) list"

text \<open>
  The filter builder where the file has \<open>n\<close> bytes: the keys of the blocks that were written are, or will
  be, in the filter of their offset, and those of the current block in the one of the end of the file.
\<close>

definition filter_on :: "Options \<Rightarrow> (slice \<Rightarrow> bool) \<Rightarrow> nat \<Rightarrow> (filter_policy \<times> FilterBlockBuilder) option \<Rightarrow> nat \<Rightarrow>
    data_blocks \<Rightarrow> (slice \<times> slice) list \<Rightarrow> bool" where
  "filter_on opts valid fsize fo n D cur \<longleftrightarrow>
     (case options_filter_policy opts of None \<Rightarrow> fo = None
      | Some p \<Rightarrow> \<exists>fb groups pending segs. fo = Some (p, fb) \<and> builder_ok p fb groups pending segs \<and>
          (\<forall>k \<in> set pending. valid k) \<and> length groups = n div kFilterBase \<and>
          (\<forall>(h, kvs) \<in> set D. \<forall>k \<in> fst ` set kvs. (unat (bh_offset h) div kFilterBase, k) \<in> located groups pending) \<and>
          (\<forall>k \<in> fst ` set cur. (n div kFilterBase, k) \<in> located groups pending) \<and>
          filter_size fsize fb \<le> 2 * fsize * (length (concat (map snd D)) + length cur))"

definition policy_ok :: "Options \<Rightarrow> (slice \<Rightarrow> bool) \<Rightarrow> nat \<Rightarrow> bool" where
  "policy_ok opts valid fsize \<longleftrightarrow>
     (\<forall>p. options_filter_policy opts = Some p \<longrightarrow> filter_contract p valid \<and> small_filters fsize p)"

lemma filter_on_Add:
  assumes "filter_on opts valid fsize fo n D cur" and "valid k"
  shows "filter_on opts valid fsize (map_option (\<lambda>(p, fb). (p, AddKey fb k)) fo) n D (cur @ [(k, v)])"
proof (cases "options_filter_policy opts")
  case (Some p)
  obtain fb groups pending segs where f: "fo = Some (p, fb)" "builder_ok p fb groups pending segs"
    "\<forall>k \<in> set pending. valid k" "length groups = n div kFilterBase"
    "\<forall>(h, kvs) \<in> set D. \<forall>k \<in> fst ` set kvs. (unat (bh_offset h) div kFilterBase, k) \<in> located groups pending"
    "\<forall>k \<in> fst ` set cur. (n div kFilterBase, k) \<in> located groups pending"
    "filter_size fsize fb \<le> 2 * fsize * (length (concat (map snd D)) + length cur)"
    using assms(1) Some by (auto simp: filter_on_def)
  have "filter_size fsize (AddKey fb k) \<le> 2 * fsize * (length (concat (map snd D)) + length (cur @ [(k, v)]))"
    using f(7) by (simp add: filter_size_def AddKey_def algebra_simps)
  moreover have "located groups (pending @ [k]) = insert (n div kFilterBase, k) (located groups pending)"
    using located_add [of groups pending k] f(4) by simp
  moreover have "\<forall>k \<in> set (pending @ [k]). valid k" using f(3) assms(2) by simp
  ultimately show ?thesis
    unfolding filter_on_def Some option.case
    using builder_ok_AddKey [OF f(2), of k] f(1,4,5,6)
    by (intro exI [of _ "AddKey fb k"] exI [of _ groups] exI [of _ "pending @ [k]"] exI [of _ segs]) auto
qed (use assms in \<open>simp add: filter_on_def\<close>)

lemma tb_StartBlock_on:
  assumes "policy_ok opts valid fsize" and "filter_on opts valid fsize (tb_filter_block r) n D cur"
    and "n \<le> n'" and "n' < 2 ^ 64" and "unat (bh_offset h) = n"
  shows "\<exists>fo. tb_StartBlock r (of_nat n') = Inr (r\<lparr>tb_filter_block := fo\<rparr>) \<and> filter_on opts valid fsize fo n' (D @ [(h, cur)]) []"
proof (cases "options_filter_policy opts")
  case None
  then have "tb_filter_block r = None" using assms(2) by (simp add: filter_on_def)
  then show ?thesis using None
    by (intro exI [of _ None]) (simp add: tb_StartBlock_def filter_on_def)
next
  case (Some p)
  have p: "filter_contract p valid" "small_filters fsize p" using assms(1) Some by (auto simp: policy_ok_def)
  obtain fb groups pending segs where f: "tb_filter_block r = Some (p, fb)" "builder_ok p fb groups pending segs"
    "\<forall>k \<in> set pending. valid k" "length groups = n div kFilterBase"
    "\<forall>(h, kvs) \<in> set D. \<forall>k \<in> fst ` set kvs. (unat (bh_offset h) div kFilterBase, k) \<in> located groups pending"
    "\<forall>k \<in> fst ` set cur. (n div kFilterBase, k) \<in> located groups pending"
    "filter_size fsize fb \<le> 2 * fsize * (length (concat (map snd D)) + length cur)"
    using assms(2) Some by (auto simp: filter_on_def)
  have u: "unat (of_nat n' :: u64) = n'" using assms(4) by (simp add: unat_of_nat)
  have "length groups \<le> unat (of_nat n' :: u64) div kFilterBase" unfolding u f(4) by (rule div_le_mono [OF assms(3)])
  from filter_contract.StartBlock_ok [OF p(1) f(2,3) this] obtain fb' groups' pending' segs' where
    s: "StartBlock p fb (of_nat n') = Inr fb'" "builder_ok p fb' groups' pending' segs'" "\<forall>k \<in> set pending'. valid k"
      "length groups' = n' div kFilterBase" "located groups' pending' = located groups pending"
    unfolding u by blast
  have "filter_size fsize fb' \<le> 2 * fsize * (length (concat (map snd (D @ [(h, cur)]))) + length ([] :: (slice \<times> slice) list))"
    using StartBlock_size [OF p(2) s(1)] f(7) by simp
  then have "filter_on opts valid fsize (Some (p, fb')) n' (D @ [(h, cur)]) []"
    unfolding filter_on_def Some option.case
    using s f(5,6) assms(5)
    by (intro exI [of _ fb'] exI [of _ groups'] exI [of _ pending'] exI [of _ segs']) auto
  moreover have "tb_StartBlock r (of_nat n') = Inr (r\<lparr>tb_filter_block := Some (p, fb')\<rparr>)"
    using f(1) s(1) by (simp add: tb_StartBlock_def)
  ultimately show ?thesis by blast
qed

text \<open>What the filter block holds once it is finished.\<close>

definition filters_hold :: "filter_policy \<Rightarrow> slice list \<Rightarrow> data_blocks \<Rightarrow> bool" where
  "filters_hold p segs D \<longleftrightarrow> length (filter_block segs) < 2 ^ 32 \<and>
     (\<forall>(h, kvs) \<in> set D. \<forall>k \<in> fst ` set kvs. unat (bh_offset h) div kFilterBase < length segs \<and>
       KeyMayMatch p k (segs ! (unat (bh_offset h) div kFilterBase)) = Inr True)"

lemma filter_on_Finish:
  assumes "policy_ok opts valid fsize" and "filter_on opts valid fsize fo n D []" and "options_filter_policy opts = Some p"
    and "2 * fsize * length (concat (map snd D)) + n + 9 < 2 ^ 32"
  shows "\<exists>fb segs. fo = Some (p, fb) \<and> Finish p fb = Inr (filter_block segs) \<and> filters_hold p segs D \<and>
    length (filter_block segs) \<le> 2 * fsize * length (concat (map snd D)) + n + 9"
proof -
  have p: "filter_contract p valid" "small_filters fsize p" using assms(1,3) by (auto simp: policy_ok_def)
  obtain fb groups pending segs where f: "fo = Some (p, fb)" "builder_ok p fb groups pending segs"
    "\<forall>k \<in> set pending. valid k" "length groups = n div kFilterBase"
    "\<forall>(h, kvs) \<in> set D. \<forall>k \<in> fst ` set kvs. (unat (bh_offset h) div kFilterBase, k) \<in> located groups pending"
    "filter_size fsize fb \<le> 2 * fsize * length (concat (map snd D))"
    using assms(2,3) by (auto simp: filter_on_def)
  obtain segs' where s: "Finish p fb = Inr (filter_block segs')"
    "\<forall>(i, k) \<in> located groups pending. i < length segs' \<and> KeyMayMatch p k (segs' ! i) = Inr True"
    using filter_contract.Finish_ok [OF p(1) f(2,3)] by blast
  have "4 * (n div kFilterBase) \<le> n" by (simp add: kFilterBase_def kFilterBaseLg_def)
  then have len: "length (filter_block segs') \<le> 2 * fsize * length (concat (map snd D)) + n + 9"
    using Finish_size [OF p(2) s(1)] f(4,6) builder_ok_offsets [OF f(2)] by linarith
  moreover have "filters_hold p segs' D"
    unfolding filters_hold_def using len assms(4) f(5) s(2) by fastforce
  ultimately show ?thesis using f(1) s(1) by blast
qed

end
