(* ===== verification/Table_Correct.thy ===== *)
theory Table_Correct
  imports Table_Built
begin

section \<open>The invariant of the table builder\<close>

subsection \<open>Data blocks and the index\<close>

context key_order
begin

text \<open>The data blocks that lie in a file: none is empty, and each begins behind the ones before it.\<close>

definition blocks_in :: "Options \<Rightarrow> slice \<Rightarrow> data_blocks \<Rightarrow> bool" where
  "blocks_in opts d D \<longleftrightarrow>
     (\<forall>(h, kvs) \<in> set D. kvs \<noteq> [] \<and> handle_ok h \<and> (\<exists>raw. stored_at opts d h raw \<and> block_holds raw kvs)) \<and>
     sorted_wrt (<) (map (unat \<circ> bh_offset \<circ> fst) D)"

lemma blocks_inD:
  assumes "blocks_in opts d D" and "(h, kvs) \<in> set D"
  shows "kvs \<noteq> []" and "handle_ok h" and "\<exists>raw. block_holds raw kvs" and "\<exists>raw. stored_at opts d h raw \<and> block_holds raw kvs"
  using assms unfolding blocks_in_def by fastforce+

lemma block_holds_increasing: "block_holds raw kvs \<Longrightarrow> increasing (map fst kvs)"
  by (auto simp: block_holds_def ekey_pairs)

lemma increasing_last:
  assumes "increasing ks" and "k \<in> set ks"
  shows "k = last ks \<or> before k (last ks)"
  using assms by (cases ks rule: rev_cases) (auto simp: increasing_def sorted_wrt_append)

lemma blocks_in_append: "blocks_in opts d D \<Longrightarrow> blocks_in opts (d @ e) D"
  unfolding blocks_in_def using stored_at_append by (fastforce simp: case_prod_unfold)

lemma blocks_in_snoc:
  assumes "blocks_in opts d D" and "unat (bh_offset h) = length d" and "kvs \<noteq> []" and "handle_ok h"
    and "stored_at opts (d @ e) h raw" and "block_holds raw kvs"
  shows "blocks_in opts (d @ e) (D @ [(h, kvs)])"
proof -
  have "unat (bh_offset h') < length d" if "(h', kvs') \<in> set D" for h' kvs'
    using assms(1) that stored_at_offset by (fastforce simp: blocks_in_def)
  then show ?thesis
    using blocks_in_append [OF assms(1), of e] assms(2-6)
    by (auto simp: blocks_in_def sorted_wrt_append case_prod_unfold)
qed

text \<open>An entry of the index separates its block from the next ones.\<close>

definition separates :: "(slice \<times> slice) list \<Rightarrow> (slice \<times> slice) list list \<Rightarrow> bool" where
  "separates idx Bs \<longleftrightarrow> length idx \<le> length Bs \<and>
     (\<forall>j < length idx. \<forall>k \<in> fst ` set (Bs ! j). k = fst (idx ! j) \<or> before k (fst (idx ! j))) \<and>
     (\<forall>j < length Bs. \<forall>i < length idx. i < j \<longrightarrow> (\<forall>k \<in> fst ` set (Bs ! j). before (fst (idx ! i)) k))"

lemma separatesD:
  assumes "separates idx Bs"
  shows "length idx \<le> length Bs"
    and "j < length idx \<Longrightarrow> k \<in> fst ` set (Bs ! j) \<Longrightarrow> k = fst (idx ! j) \<or> before k (fst (idx ! j))"
    and "j < length Bs \<Longrightarrow> i < length idx \<Longrightarrow> i < j \<Longrightarrow> k \<in> fst ` set (Bs ! j) \<Longrightarrow> before (fst (idx ! i)) k"
  using assms unfolding separates_def by blast+

lemma separates_empty: "separates idx Bs \<Longrightarrow> separates idx (Bs @ [[]])"
  by (auto simp: separates_def nth_append less_Suc_eq)

text \<open>A pair is added to the last block; the separators lie before its key.\<close>

lemma separates_add:
  assumes "separates idx (Bs @ [cur])" and "length idx \<le> length Bs" and "\<forall>i < length idx. before (fst (idx ! i)) k"
  shows "separates idx (Bs @ [cur @ [(k, v)]])"
  using assms by (auto simp: separates_def nth_append less_Suc_eq split: if_splits)

text \<open>The separator of the last finished block, while the current one is empty.\<close>

lemma separates_index:
  assumes "separates idx (Bs @ [[]])" and "length Bs = Suc (length idx)"
    and "\<forall>k \<in> fst ` set (last Bs). k = sep \<or> before k sep"
  shows "separates (idx @ [(sep, h)]) (Bs @ [[]])"
proof -
  have l: "last Bs = Bs ! length idx" using assms(2) by (subst last_conv_nth) auto
  have "k = fst ((idx @ [(sep, h)]) ! j) \<or> before k (fst ((idx @ [(sep, h)]) ! j))"
    if "j < length (idx @ [(sep, h)])" "k \<in> fst ` set ((Bs @ [[]]) ! j)" for j k
  proof (cases "j = length idx")
    case True
    then have "k \<in> fst ` set (last Bs)" using that(2) assms(2) l by (simp add: nth_append)
    then have "k = sep \<or> before k sep" using assms(3) by blast
    then show ?thesis using True by simp
  next
    case False
    then have j: "j < length idx" using that(1) by simp
    then show ?thesis using separatesD(2) [OF assms(1) j that(2)] by (simp add: nth_append)
  qed
  moreover have "before (fst ((idx @ [(sep, h)]) ! i)) k"
    if "j < length (Bs @ [[]])" "i < length (idx @ [(sep, h)])" "i < j" "k \<in> fst ` set ((Bs @ [[]]) ! j)" for i j k
  proof (cases "i = length idx")
    case True
    then have "j = length Bs" using that(1,3) assms(2) by simp
    then show ?thesis using that(4) by (simp add: nth_append)
  next
    case False
    then have i: "i < length idx" using that(2) by simp
    then show ?thesis using separatesD(3) [OF assms(1) that(1) i that(3,4)] by (simp add: nth_append)
  qed
  ultimately show ?thesis using assms(2) unfolding separates_def by (simp del: nth_append_length)
qed

text \<open>Between two blocks, the entry is what the comparator gives for the keys on both sides.\<close>

definition separators :: "(slice \<times> slice) list \<Rightarrow> (slice \<times> slice) list list \<Rightarrow> bool" where
  "separators idx Bs \<longleftrightarrow> (\<forall>i < length idx. Suc i < length Bs \<longrightarrow> Bs ! Suc i \<noteq> [] \<longrightarrow>
     FindShortestSeparator cmp (fst (last (Bs ! i))) (fst (hd (Bs ! Suc i))) = Inr (fst (idx ! i)))"

lemma separatorsD:
  assumes "separators idx Bs" and "i < length idx" and "Suc i < length Bs" and "Bs ! Suc i \<noteq> []"
  shows "FindShortestSeparator cmp (fst (last (Bs ! i))) (fst (hd (Bs ! Suc i))) = Inr (fst (idx ! i))"
  using assms unfolding separators_def by blast

lemma separators_empty:
  assumes "separators idx Bs"
  shows "separators idx (Bs @ [[]])"
  unfolding separators_def
proof (intro allI impI)
  fix i assume i: "i < length idx" "Suc i < length (Bs @ [[]])" "(Bs @ [[]]) ! Suc i \<noteq> []"
  then have "Suc i < length Bs" by (auto simp: nth_append less_Suc_eq split: if_splits)
  then show "FindShortestSeparator cmp (fst (last ((Bs @ [[]]) ! i))) (fst (hd ((Bs @ [[]]) ! Suc i))) = Inr (fst (idx ! i))"
    using assms i by (simp add: separators_def nth_append)
qed

lemma separators_index:
  assumes "separators idx (Bs @ [[]])" and "length Bs = Suc (length idx)"
  shows "separators (idx @ [e]) (Bs @ [[]])"
  unfolding separators_def
proof (intro allI impI)
  fix i assume i: "i < length (idx @ [e])" "Suc i < length (Bs @ [[]])" "(Bs @ [[]]) ! Suc i \<noteq> []"
  then have "i < length idx" using assms(2) by (auto simp: nth_append less_Suc_eq split: if_splits)
  then show "FindShortestSeparator cmp (fst (last ((Bs @ [[]]) ! i))) (fst (hd ((Bs @ [[]]) ! Suc i))) = Inr (fst ((idx @ [e]) ! i))"
    using assms(1) i by (simp add: separators_def nth_append_left)
qed

lemma separators_add:
  assumes "separators idx (Bs @ [cur])"
    and "\<And>i. cur = [] \<Longrightarrow> i < length idx \<Longrightarrow> Suc i = length Bs \<Longrightarrow>
      FindShortestSeparator cmp (fst (last (Bs ! i))) k = Inr (fst (idx ! i))"
  shows "separators idx (Bs @ [cur @ [(k, v)]])"
  unfolding separators_def
proof (intro allI impI)
  fix i assume i: "i < length idx" "Suc i < length (Bs @ [cur @ [(k, v)]])" "(Bs @ [cur @ [(k, v)]]) ! Suc i \<noteq> []"
  show "FindShortestSeparator cmp (fst (last ((Bs @ [cur @ [(k, v)]]) ! i))) (fst (hd ((Bs @ [cur @ [(k, v)]]) ! Suc i))) =
      Inr (fst (idx ! i))"
  proof (cases "Suc i < length Bs")
    case True
    then show ?thesis using separatorsD [OF assms(1) i(1)] i(3) by (simp add: nth_append)
  next
    case False
    then have l: "Suc i = length Bs" using i(2) by simp
    show ?thesis
    proof (cases "cur = []")
      case True
      then show ?thesis using assms(2) [OF True i(1) l] l by (simp add: nth_append)
    next
      case False
      have "FindShortestSeparator cmp (fst (last ((Bs @ [cur]) ! i))) (fst (hd ((Bs @ [cur]) ! Suc i))) = Inr (fst (idx ! i))"
        using separatorsD [OF assms(1) i(1)] l False by (simp add: nth_append)
      then show ?thesis using l False by (simp add: nth_append)
    qed
  qed
qed

subsection \<open>The invariant\<close>

definition contract_ok :: "bool" where
  "contract_ok \<longleftrightarrow> (\<forall>a b s. FindShortestSeparator cmp a b = Inr s \<longrightarrow> length s \<le> length a) \<and>
     (\<forall>a s. FindShortSuccessor cmp a = Inr s \<longrightarrow> length s \<le> length a)"

definition options_ok :: "Options \<Rightarrow> nat \<Rightarrow> bool" where
  "options_ok opts fsize \<longleftrightarrow> options_comparator opts = cmp \<and> 1 \<le> block_restart_interval opts \<and>
     block_restart_interval opts < 2 ^ 31 \<and> compressors_ok opts \<and> policy_ok opts valid fsize \<and> contract_ok"

definition all_pairs :: "data_blocks \<Rightarrow> (slice \<times> slice) list \<Rightarrow> (slice \<times> slice) list" where
  "all_pairs D cur = concat (map snd D) @ cur"

text \<open>
  \<open>tb_on opts fsize n d r D cur idx\<close>: with \<open>d\<close> in the file, the builder has written the blocks \<open>D\<close>, fills a
  block with \<open>cur\<close>, and its index has the entries \<open>idx\<close>, all but the last one where that is pending.
\<close>

definition tb_on :: "Options \<Rightarrow> nat \<Rightarrow> slice \<Rightarrow> TableBuilder \<Rightarrow> data_blocks \<Rightarrow> (slice \<times> slice) list \<Rightarrow>
    (slice \<times> slice) list \<Rightarrow> bool" where
  "tb_on opts fsize d r D cur idx \<longleftrightarrow>
     tb_options r = opts \<and> tb_status r = OK \<and> \<not> tb_closed r \<and> tb_offset r = of_nat (length d) \<and>
     builds (block_restart_interval opts) (tb_data_block r) cur \<and> builds 1 (tb_index_block r) idx \<and>
     blocks_in opts d D \<and> separates idx (map snd D @ [cur]) \<and>
     map snd idx = map (handle_bytes \<circ> fst) (take (length idx) D) \<and> increasing (map fst (all_pairs D cur)) \<and>
     (if tb_pending_index_entry r then cur = [] \<and> length D = Suc (length idx) \<and> tb_pending_handle r = fst (last D)
      else length D = length idx \<and> (cur = [] \<longrightarrow> D = [])) \<and>
     tb_num_entries r = int (length (all_pairs D cur)) \<and>
     (all_pairs D cur \<noteq> [] \<longrightarrow> tb_last_key r = fst (last (all_pairs D cur))) \<and>
     filter_on opts valid fsize (tb_filter_block r) (length d) D cur \<and>
     length d \<le> kv_size 32 (concat (map snd D)) \<and>
     kv_size 19 idx \<le> kv_size 39 (concat (take (length idx) (map snd D))) \<and> separators idx (map snd D @ [cur])"

definition fits :: "Options \<Rightarrow> nat \<Rightarrow> (slice \<times> slice) list \<Rightarrow> bool" where
  "fits opts fsize kvs \<longleftrightarrow> table_cost fsize opts kvs < 2 ^ 32"

lemma fits_prefix: "fits opts fsize (kvs @ kvs') \<Longrightarrow> fits opts fsize kvs"
  using table_cost_mono [of fsize opts kvs kvs'] by (simp add: fits_def)

lemma kv_size_mono: "c \<le> d \<Longrightarrow> kv_size c kvs \<le> kv_size d kvs"
  using kv_size_add [of c "d - c" kvs] by simp

lemma fitsD:
  assumes "fits opts fsize kvs"
  shows "3 * kv_size (40 + fsize) kvs + 300 + filter_name_length opts < 2 ^ 32" and "c \<le> 40 \<Longrightarrow> 3 * kv_size c kvs + 300 < 2 ^ 32"
    and "fsize * length kvs \<le> kv_size (40 + fsize) kvs"
proof -
  show f: "3 * kv_size (40 + fsize) kvs + 300 + filter_name_length opts < 2 ^ 32"
    using assms by (simp add: fits_def table_cost_def)
  show "3 * kv_size c kvs + 300 < 2 ^ 32" if "c \<le> 40"
    using kv_size_mono [of c "40 + fsize" kvs] f that by linarith
  show "fsize * length kvs \<le> kv_size (40 + fsize) kvs" by (simp add: kv_size_add [of 40 fsize])
qed

lemma kv_size_member: "(k, v) \<in> set kvs \<Longrightarrow> length k + length v \<le> kv_size c kvs"
  by (induction kvs) auto

lemma nonempty_size: "kvs \<noteq> [] \<Longrightarrow> kv_size 19 kvs + 13 \<le> kv_size 32 kvs"
  using kv_size_add [of 19 13 kvs] by (cases kvs) simp_all

subsection \<open>Flush\<close>

lemma tb_Flush_on:
  assumes W: "writable_file f winv wcontents" "port_crc_ok acc" and O: "options_ok opts fsize"
    and on: "winv s" "tb_on opts fsize (wcontents s) r D cur idx" and fit: "fits opts fsize (all_pairs D cur)" and cur: "cur \<noteq> []"
  shows "\<exists>h r' s'. tb_Flush acc f r s = Inr (r', s') \<and> winv s' \<and> tb_on opts fsize (wcontents s') r' (D @ [(h, cur)]) [] idx"
proof -
  note on' = on(2) [unfolded tb_on_def]
  have np: "\<not> tb_pending_index_entry r" using on' cur by auto
  have dl: "length D = length idx" using on' np by auto
  have cost: "kv_size 19 cur \<le> kv_size 19 (all_pairs D cur)" "kv_size 32 (concat (map snd D)) \<le> kv_size 32 (all_pairs D cur)"
    by (simp_all add: all_pairs_def)
  have small: "3 * kv_size 19 (all_pairs D cur) + 300 < 2 ^ 32" "3 * kv_size 32 (all_pairs D cur) + 300 < 2 ^ 32"
    by (rule fitsD(2) [OF fit]; simp)+
  have "block_cost cur < 2 ^ 32" unfolding block_cost_size using cost(1) small(1) by linarith
  with builds_Finish [of "block_restart_interval opts" "tb_data_block r" cur] on' obtain raw b' where
    b': "Block_Finish (tb_data_block r) = (raw, b')" "block_holds raw cur" "builds (block_restart_interval opts) (Block_Reset b') []"
      "length raw \<le> block_cost cur" by blast
  have len: "length (wcontents s) \<le> kv_size 32 (concat (map snd D))" using on' by blast
  have "length (wcontents s) + length raw + 5 < 2 ^ 64"
    using len b'(4) cost small unfolding block_cost_size by simp
  moreover have "tb_offset r = of_nat (length (wcontents s))" "tb_ok r" "compressors_ok (tb_options r)"
    using on' O by (simp_all add: tb_ok_def options_ok_def)
  ultimately obtain h s1 img where w: "WriteBlock acc f (tb_data_block r) r s =
      Inr (Block_Reset b', h, r\<lparr>tb_status := OK, tb_offset := of_nat (length (wcontents s1))\<rparr>, s1)" "winv s1"
    "unat (bh_offset h) = length (wcontents s)" "handle_ok h" "wcontents s1 = wcontents s @ img"
    "length img \<le> length raw + 5" "stored_at opts (wcontents s1) h raw"
    using writable_file.WriteBlock_stored [OF W(1,2) on(1) _ _ _ b'(1)] on' by metis
  obtain s2 where fl: "wf_Flush f s1 = Inr (OK, s2)" "winv s2" "wcontents s2 = wcontents s1"
    using writable_file.flush [OF W(1) w(2)] by blast
  define r1 where "r1 = r\<lparr>tb_offset := of_nat (length (wcontents s1)), tb_data_block := Block_Reset b',
    tb_pending_handle := h, tb_pending_index_entry := True, tb_status := OK\<rparr>"
  have len1: "length (wcontents s1) \<le> kv_size 32 (concat (map snd D)) + kv_size 32 cur"
    using w(5,6) b'(4) len nonempty_size [OF cur] unfolding block_cost_size by simp
  then have "length (wcontents s1) < 2 ^ 64" using small(2) by (simp add: all_pairs_def)
  moreover have "policy_ok opts valid fsize" using O by (simp add: options_ok_def)
  moreover have "filter_on opts valid fsize (tb_filter_block r1) (length (wcontents s)) D cur" using on' by (simp add: r1_def)
  moreover have "length (wcontents s) \<le> length (wcontents s1)" by (simp add: w(5))
  ultimately obtain fo where fo: "tb_StartBlock r1 (of_nat (length (wcontents s1))) = Inr (r1\<lparr>tb_filter_block := fo\<rparr>)"
    "filter_on opts valid fsize fo (length (wcontents s1)) (D @ [(h, cur)]) []"
    using tb_StartBlock_on [OF _ _ _ _ w(3)] by blast
  have ne: "\<not> block_empty (tb_data_block r)" using builds_empty on' cur by blast
  have "tb_Flush acc f r s = Inr (r1\<lparr>tb_filter_block := fo\<rparr>, s2)"
    using on' np ne w(1) fl(1) fo(1) by (simp add: tb_Flush_def tb_ok_def r1_def)
  moreover have "tb_on opts fsize (wcontents s2) (r1\<lparr>tb_filter_block := fo\<rparr>) (D @ [(h, cur)]) [] idx"
  proof -
    have "blocks_in opts (wcontents s1) (D @ [(h, cur)])"
      using blocks_in_snoc [of opts "wcontents s" D h cur img raw] on' w(3,4,5,7) cur b'(2) by simp
    moreover have "separates idx (map snd (D @ [(h, cur)]) @ [[]])"
      using separates_empty [of idx "map snd D @ [cur]"] on' by simp
    moreover have "separators idx (map snd (D @ [(h, cur)]) @ [[]])"
      using separators_empty [of idx "map snd D @ [cur]"] on' by simp
    moreover have "all_pairs (D @ [(h, cur)]) [] = all_pairs D cur" by (simp add: all_pairs_def)
    ultimately show ?thesis
      using on' b'(3) fo(2) fl(3) len1 dl by (simp add: tb_on_def r1_def)
  qed
  ultimately show ?thesis using fl(2) by blast
qed

subsection \<open>Entries of the index\<close>

lemma pending_facts:
  assumes "tb_on opts fsize d r D cur idx" and "tb_pending_index_entry r"
  shows "cur = []" and "D \<noteq> []" and "snd (last D) \<noteq> []" and "last D = D ! length idx" and "length D = Suc (length idx)"
    and "handle_ok (fst (last D))" and "tb_pending_handle r = fst (last D)" and "all_pairs D cur \<noteq> []"
    and "last (all_pairs D cur) = last (snd (last D))" and "tb_last_key r = fst (last (snd (last D)))"
proof -
  note on = assms(1) [unfolded tb_on_def]
  show c: "cur = []" "length D = Suc (length idx)" "tb_pending_handle r = fst (last D)" using on assms(2) by simp_all
  then show ne: "D \<noteq> []" by auto
  then have l: "last D \<in> set D" by simp
  obtain h kvs where hk: "last D = (h, kvs)" by (cases "last D")
  have "blocks_in opts d D" using on by blast
  then show n: "snd (last D) \<noteq> []" "handle_ok (fst (last D))" using l unfolding hk by (auto simp: blocks_in_def)
  show "last D = D ! length idx" using ne c(2) by (simp add: last_conv_nth)
  have "concat (map snd D) = concat (map snd (butlast D)) @ snd (last D)"
    by (subst append_butlast_last_id [OF ne, symmetric]) simp
  then show "last (all_pairs D cur) = last (snd (last D))" "all_pairs D cur \<noteq> []"
    using n(1) c(1) by (simp_all add: all_pairs_def)
  then show "tb_last_key r = fst (last (snd (last D)))" using on by simp
qed

lemma all_valid: "tb_on opts fsize d r D cur idx \<Longrightarrow> all_pairs D cur \<noteq> [] \<Longrightarrow> valid (fst (last (all_pairs D cur)))"
  unfolding tb_on_def increasing_def by auto

lemma seps_before_last:
  assumes "tb_on opts fsize d r D cur idx" and "i < length idx"
  shows "before (fst (idx ! i)) (fst (last (all_pairs D cur)))"
proof (cases "tb_pending_index_entry r")
  case True
  note p = pending_facts [OF assms(1) True]
  have sep: "separates idx (map snd D @ [cur])" using assms(1) unfolding tb_on_def by blast
  have "fst (last (snd (last D))) \<in> fst ` set ((map snd D @ [cur]) ! length idx)"
    using p(3,4,5) by (simp add: nth_append)
  from separatesD(3) [OF sep _ assms(2,2) this] show ?thesis using p(5,9) by simp
next
  case False
  then have f: "length D = length idx" "cur = [] \<longrightarrow> D = []" "separates idx (map snd D @ [cur])"
    using assms(1) unfolding tb_on_def by auto
  then have ne: "cur \<noteq> []" using assms(2) by auto
  then have "fst (last cur) \<in> fst ` set ((map snd D @ [cur]) ! length idx)" using f(1) by (simp add: nth_append)
  from separatesD(3) [OF f(3) _ assms(2,2) this] show ?thesis using f(1) ne by (simp add: all_pairs_def)
qed

lemma index_entry_on:
  assumes on: "tb_on opts fsize d r D cur idx" and pending: "tb_pending_index_entry r"
    and sep: "valid sep" "tb_last_key r = sep \<or> before (tb_last_key r) sep" "length sep \<le> length (tb_last_key r)"
    and fit: "fits opts fsize (all_pairs D cur)"
  shows "\<exists>ib idx'. add_index_entry sep r = Inr (r\<lparr>tb_last_key := sep, tb_index_block := ib, tb_pending_index_entry := False\<rparr>) \<and>
    builds 1 ib idx' \<and> separates idx' (map snd D @ [[]]) \<and> map snd idx' = map (handle_bytes \<circ> fst) D \<and>
    length idx' = length D \<and> kv_size 19 idx' \<le> kv_size 39 (concat (map snd D)) \<and>
    map fst idx' = map fst idx @ [sep] \<and> separators idx' (map snd D @ [[]])"
proof -
  note p = pending_facts [OF on pending] and on' = on [unfolded tb_on_def]
  let ?h = "fst (last D)" and ?lk = "tb_last_key r"
  have lk: "valid ?lk" using all_valid [OF on p(8)] p(9,10) by simp
  have inc: "increasing (map fst idx)" using on' by (meson builds_increasing)
  have "before (fst (last idx)) sep" if "idx \<noteq> []"
  proof -
    have "length idx - 1 < length idx" using that by simp
    from seps_before_last [OF on this] have "before (fst (last idx)) ?lk" using p(9,10) that by (simp add: last_conv_nth)
    moreover have "valid (fst (last idx))" using inc that by (simp add: increasing_def)
    ultimately show ?thesis using sep(1,2) lk before_trans by metis
  qed
  moreover have "builds 1 (tb_index_block r) idx" using on' by blast
  moreover have small: "length sep + length (handle_bytes ?h) < 2 ^ 32"
  proof -
    have "fst (last (snd (last D))) = ?lk" using p(10) by simp
    then obtain v where "(?lk, v) \<in> set (snd (last D))" using p(3) by (metis last_in_set prod.collapse)
    moreover have "set (snd (last D)) \<subseteq> set (all_pairs D cur)"
      using p(2) by (auto simp: all_pairs_def) (metis last_in_set prod.collapse)
    ultimately have "(?lk, v) \<in> set (all_pairs D cur)" by blast
    then have "length ?lk \<le> kv_size 0 (all_pairs D cur)" using kv_size_member [of ?lk v "all_pairs D cur" 0] by linarith
    then show ?thesis using fitsD(2) [OF fit, of 0] sep(3) length_handle_bytes [of ?h] by simp
  qed
  ultimately obtain ib where ib: "Block_Add (tb_index_block r) sep (handle_bytes ?h) = Inr ib"
    "builds 1 ib (idx @ [(sep, handle_bytes ?h)])"
    using builds_Add [OF _ sep(1)] by blast
  let ?idx = "idx @ [(sep, handle_bytes ?h)]"
  have "add_index_entry sep r = Inr (r\<lparr>tb_last_key := sep, tb_index_block := ib, tb_pending_index_entry := False\<rparr>)"
    using ib(1) p(6,7) by (simp add: add_index_entry_def EncodeTo_bytes)
  moreover have "separates ?idx (map snd D @ [[]])"
  proof (rule separates_index)
    show "separates idx (map snd D @ [[]])" using on' p(1) by blast
    show "length (map snd D) = Suc (length idx)" using p(5) by simp
    show "\<forall>k \<in> fst ` set (last (map snd D)). k = sep \<or> before k sep"
    proof
      fix k assume "k \<in> fst ` set (last (map snd D))"
      then have k: "k \<in> fst ` set (snd (last D))" using p(2) by (simp add: last_map)
      have "last D \<in> set D" "blocks_in opts d D" using p(2) on' by (simp, blast)
      then obtain raw where "block_holds raw (snd (last D))" using blocks_inD(3) by (metis prod.collapse)
      from block_holds_increasing [OF this] have inc: "increasing (map fst (snd (last D)))" .
      have "k \<in> set (map fst (snd (last D)))" "last (map fst (snd (last D))) = ?lk"
        using k p(3,10) by (simp_all add: last_map)
      then have "k = ?lk \<or> before k ?lk" "valid k" using increasing_last [OF inc, of k] inc by (auto simp: increasing_def)
      then show "k = sep \<or> before k sep" using sep(1,2) lk before_trans by metis
    qed
  qed
  moreover have "map snd ?idx = map (handle_bytes \<circ> fst) D"
  proof -
    have t: "take (length idx) D @ [last D] = D" using p(4,5) take_Suc_conv_app_nth [of "length idx" D] by simp
    have "map snd idx = map (handle_bytes \<circ> fst) (take (length idx) D)" using on' by blast
    then have "map snd ?idx = map (handle_bytes \<circ> fst) (take (length idx) D @ [last D])" by simp
    then show ?thesis by (simp only: t)
  qed
  moreover have "kv_size 19 ?idx \<le> kv_size 39 (concat (map snd D))"
  proof -
    have t: "take (length idx) (map snd D) @ [snd (last D)] = map snd D"
      using p(4,5) take_Suc_conv_app_nth [of "length idx" "map snd D"] by simp
    obtain v where "last (snd (last D)) = (?lk, v)" using p(10) by (cases "last (snd (last D))") simp
    then have "snd (last D) = butlast (snd (last D)) @ [(?lk, v)]" using append_butlast_last_id [OF p(3)] by simp
    from arg_cong [OF this, of "kv_size 39"] have "length ?lk + 39 \<le> kv_size 39 (snd (last D))" by simp
    moreover have "kv_size 19 idx \<le> kv_size 39 (concat (take (length idx) (map snd D)))" using on' by blast
    moreover have "kv_size 39 (concat (map snd D)) =
        kv_size 39 (concat (take (length idx) (map snd D))) + kv_size 39 (snd (last D))"
      by (subst t [symmetric]) simp
    ultimately show ?thesis using sep(3) length_handle_bytes [of ?h] by simp
  qed
  moreover have "separators ?idx (map snd D @ [[]])"
  proof (rule separators_index)
    show "separators idx (map snd D @ [[]])" using on' p(1) by blast
  qed (use p(5) in simp)
  ultimately show ?thesis using ib(2) p(5) by (intro exI [of _ ib] exI [of _ ?idx]) simp
qed

subsection \<open>Add\<close>

text \<open>The key is accepted, and the entry of the index for the block before it made where one is pending.\<close>

lemma Add_prepare:
  assumes O: "options_ok opts fsize" and on: "tb_on opts fsize d r D cur idx" and k: "valid k"
    and after: "all_pairs D cur \<noteq> [] \<Longrightarrow> before (fst (last (all_pairs D cur))) k" and fit: "fits opts fsize (all_pairs D cur)"
  shows "\<exists>lk ib idx'. (if tb_pending_index_entry r then
        bind_res (guard_res (block_empty (tb_data_block r)) AssertFail) (\<lambda>_.
        bind_res (FindShortestSeparator cmp (tb_last_key r) k) (\<lambda>sep. add_index_entry sep r))
      else Inr r) = Inr (r\<lparr>tb_last_key := lk, tb_index_block := ib, tb_pending_index_entry := False\<rparr>) \<and>
    builds 1 ib idx' \<and> separates idx' (map snd D @ [cur]) \<and> map snd idx' = map (handle_bytes \<circ> fst) D \<and>
    length idx' = length D \<and> kv_size 19 idx' \<le> kv_size 39 (concat (map snd D)) \<and>
    (\<forall>i < length idx'. before (fst (idx' ! i)) k) \<and> separators idx' (map snd D @ [cur]) \<and>
    (\<forall>i. cur = [] \<longrightarrow> i < length idx' \<longrightarrow> Suc i = length (map snd D) \<longrightarrow>
      FindShortestSeparator cmp (fst (last (map snd D ! i))) k = Inr (fst (idx' ! i)))"
proof (cases "tb_pending_index_entry r")
  case True
  note p = pending_facts [OF on True]
  have lk: "valid (tb_last_key r)" "before (tb_last_key r) k" using all_valid [OF on p(8)] after [OF p(8)] p(9,10) by simp_all
  from separator [OF lk(1) k lk(2)] obtain sep where sep: "FindShortestSeparator cmp (tb_last_key r) k = Inr sep" "valid sep"
    "sep = tb_last_key r \<or> before (tb_last_key r) sep" "before sep k" by blast
  moreover have "length sep \<le> length (tb_last_key r)" using O sep(1) by (auto simp: options_ok_def contract_ok_def)
  ultimately obtain ib idx' where e: "add_index_entry sep r = Inr (r\<lparr>tb_last_key := sep, tb_index_block := ib, tb_pending_index_entry := False\<rparr>)"
    "builds 1 ib idx'" "separates idx' (map snd D @ [[]])" "map snd idx' = map (handle_bytes \<circ> fst) D"
    "length idx' = length D" "kv_size 19 idx' \<le> kv_size 39 (concat (map snd D))" "map fst idx' = map fst idx @ [sep]"
    "separators idx' (map snd D @ [[]])"
    using index_entry_on [OF on True sep(2) _ _ fit] by blast
  have new: "FindShortestSeparator cmp (fst (last (map snd D ! i))) k = Inr (fst (idx' ! i))" if i: "i < length idx'" "Suc i = length (map snd D)" for i
  proof -
    have l: "i = length idx" "length idx' = Suc (length idx)" using i p(5) e(5) by simp_all
    then have "fst (idx' ! i) = (map fst idx @ [sep]) ! i" using e(7) i(1) by (metis nth_map)
    then have "fst (idx' ! i) = sep" using l(1) by (simp add: nth_append)
    moreover have "map snd D ! i = snd (last D)" using p(4,5) l(1) by simp
    ultimately show ?thesis using sep(1) p(10) by simp
  qed
  have "before (fst (idx' ! i)) k" if i: "i < length idx'" for i
  proof -
    have f: "fst (idx' ! i) = (map fst idx @ [sep]) ! i" using e(7) i by (metis nth_map)
    show ?thesis
    proof (cases "i < length idx")
      case True
      have "valid (fst (idx ! i))" using on True unfolding tb_on_def builds_def by (auto simp: increasing_def)
      moreover have "before (fst (idx ! i)) (tb_last_key r)" using seps_before_last [OF on True] p(9,10) by simp
      ultimately show ?thesis using f True lk k before_trans by (metis length_map nth_append nth_map)
    next
      case False
      moreover have "length idx' = Suc (length idx)" using arg_cong [OF e(7), of length] by simp
      ultimately have "i = length (map fst idx)" using i by simp
      then show ?thesis using f sep(4) by (simp add: nth_append)
    qed
  qed
  moreover have "block_empty (tb_data_block r)" using on builds_empty p(1) unfolding tb_on_def by blast
  ultimately show ?thesis using True e(1-6,8) sep(1) p(1) new by (intro exI [of _ sep] exI [of _ ib] exI [of _ idx']) simp
next
  case False
  note on' = on [unfolded tb_on_def]
  have dl: "length D = length idx" using on' False by auto
  have "before (fst (idx ! i)) k" if i: "i < length idx" for i
  proof -
    have ne: "all_pairs D cur \<noteq> []"
    proof -
      have "D \<noteq> []" using i dl by auto
      then have "cur \<noteq> []" using on' False by auto
      then show ?thesis by (simp add: all_pairs_def)
    qed
    have "valid (fst (idx ! i))" using on i unfolding tb_on_def builds_def by (auto simp: increasing_def)
    then show ?thesis using seps_before_last [OF on i] after [OF ne] all_valid [OF on ne] k before_trans by blast
  qed
  moreover have "idx = []" if "cur = []" using that on' False by auto
  moreover have "r\<lparr>tb_last_key := tb_last_key r, tb_index_block := tb_index_block r, tb_pending_index_entry := False\<rparr> = r"
    using False by simp
  moreover have "take (length D) (map snd D) = map snd D" by simp
  ultimately show ?thesis using False on' dl
    by (intro exI [of _ "tb_last_key r"] exI [of _ "tb_index_block r"] exI [of _ idx]) simp
qed

lemma tb_Add_on:
  assumes W: "writable_file f winv wcontents" "port_crc_ok acc" and O: "options_ok opts fsize"
    and on: "winv s" "tb_on opts fsize (wcontents s) r D cur idx" and k: "valid k"
    and after: "all_pairs D cur \<noteq> [] \<Longrightarrow> before (fst (last (all_pairs D cur))) k"
    and fit: "fits opts fsize (all_pairs D cur @ [(k, v)])"
  shows "\<exists>r' s' D' cur' idx'. tb_Add acc f k v r s = Inr (r', s') \<and> winv s' \<and>
    tb_on opts fsize (wcontents s') r' D' cur' idx' \<and> all_pairs D' cur' = all_pairs D cur @ [(k, v)]"
proof -
  note on' = on(2) [unfolded tb_on_def]
  have cmp: "options_comparator opts = cmp" using O by (simp add: options_ok_def)
  have asserted: "(if tb_num_entries r > 0 then bind_res (Compare cmp k (tb_last_key r)) (\<lambda>c. guard_res (c > 0) AssertFail)
      else Inr ()) = Inr ()"
  proof (cases "all_pairs D cur = []")
    case False
    obtain c where "Compare cmp k (tb_last_key r) = Inr c" "c > 0"
      using compare_before [OF k all_valid [OF on(2) False]] after [OF False] on' False by auto
    then show ?thesis by simp
  qed (use on' in simp)
  obtain lk ib idx1 where prep: "(if tb_pending_index_entry r then
        bind_res (guard_res (block_empty (tb_data_block r)) AssertFail) (\<lambda>_.
        bind_res (FindShortestSeparator cmp (tb_last_key r) k) (\<lambda>sep. add_index_entry sep r))
      else Inr r) = Inr (r\<lparr>tb_last_key := lk, tb_index_block := ib, tb_pending_index_entry := False\<rparr>)"
    "builds 1 ib idx1" "separates idx1 (map snd D @ [cur])" "map snd idx1 = map (handle_bytes \<circ> fst) D"
    "length idx1 = length D" "kv_size 19 idx1 \<le> kv_size 39 (concat (map snd D))" "\<forall>i < length idx1. before (fst (idx1 ! i)) k" "separators idx1 (map snd D @ [cur])"
    "\<forall>i. cur = [] \<longrightarrow> i < length idx1 \<longrightarrow> Suc i = length (map snd D) \<longrightarrow>
      FindShortestSeparator cmp (fst (last (map snd D ! i))) k = Inr (fst (idx1 ! i))"
    using Add_prepare [OF O on(2) k after fits_prefix [OF fit]] by blast
  have "length k + length v \<le> kv_size 0 (all_pairs D cur @ [(k, v)])" by (intro kv_size_member) simp
  then have kv: "length k + length v < 2 ^ 32" using fitsD(2) [OF fit, of 0] by simp
  have "before (fst (last cur)) k" if "cur \<noteq> []" using after that by (simp add: all_pairs_def)
  moreover have "builds (block_restart_interval opts) (tb_data_block r) cur" using on' by blast
  ultimately obtain db where db: "Block_Add (tb_data_block r) k v = Inr db"
    "builds (block_restart_interval opts) db (cur @ [(k, v)])"
    using builds_Add [OF _ k _ kv] by blast
  define r1 where "r1 = r\<lparr>tb_index_block := ib, tb_pending_index_entry := False,
    tb_filter_block := map_option (\<lambda>(policy, fb). (policy, AddKey fb k)) (tb_filter_block r),
    tb_last_key := k, tb_num_entries := tb_num_entries r + 1, tb_data_block := db\<rparr>"
  have all: "all_pairs D (cur @ [(k, v)]) = all_pairs D cur @ [(k, v)]" by (simp add: all_pairs_def)
  have on1: "tb_on opts fsize (wcontents s) r1 D (cur @ [(k, v)]) idx1"
  proof -
    have "separates idx1 (map snd D @ [cur @ [(k, v)]])"
      using separates_add [OF prep(3) _ prep(7)] prep(5) by simp
    moreover have "separators idx1 (map snd D @ [cur @ [(k, v)]])"
      using separators_add [OF prep(8)] prep(9) by blast
    moreover have "increasing (map fst (all_pairs D cur @ [(k, v)]))"
      using on' k after by (auto simp: increasing_snoc last_map)
    moreover have "filter_on opts valid fsize (map_option (\<lambda>(policy, fb). (policy, AddKey fb k)) (tb_filter_block r))
        (length (wcontents s)) D (cur @ [(k, v)])"
      using filter_on_Add on' k by blast
    ultimately show ?thesis
      using on' prep(2,4,5,6) db(2) by (simp add: tb_on_def r1_def all)
  qed
  have state: "tb_options r = opts" "tb_ok r" "\<not> tb_closed r" using on' by (simp_all add: tb_ok_def)
  have add: "tb_Add acc f k v r s =
      (if CurrentSizeEstimate db \<ge> block_size opts then tb_Flush acc f r1 s else Inr (r1, s))"
    using state by (simp add: tb_Add_def Let_def cmp asserted prep(1) db(1) r1_def)
  show ?thesis
  proof (cases "CurrentSizeEstimate db \<ge> block_size opts")
    case True
    have "fits opts fsize (all_pairs D (cur @ [(k, v)]))" using fit all by simp
    from tb_Flush_on [OF W O on(1) on1 this] obtain h r' s' where
      "tb_Flush acc f r1 s = Inr (r', s')" "winv s'" "tb_on opts fsize (wcontents s') r' (D @ [(h, cur @ [(k, v)])]) [] idx1"
      by auto
    moreover have "all_pairs (D @ [(h, cur @ [(k, v)])]) [] = all_pairs D cur @ [(k, v)]" by (simp add: all_pairs_def)
    ultimately show ?thesis using add True by metis
  next
    case False
    then show ?thesis using add on(1) on1 all by auto
  qed
qed

lemma tb_add_all_on:
  assumes W: "writable_file f winv wcontents" "port_crc_ok acc" and O: "options_ok opts fsize"
  shows "winv s \<Longrightarrow> tb_on opts fsize (wcontents s) r D cur idx \<Longrightarrow> increasing (map fst (all_pairs D cur @ kvs)) \<Longrightarrow>
    fits opts fsize (all_pairs D cur @ kvs) \<Longrightarrow>
    \<exists>r' s' D' cur' idx'. tb_add_all acc f kvs r s = Inr (r', s') \<and> winv s' \<and>
      tb_on opts fsize (wcontents s') r' D' cur' idx' \<and> all_pairs D' cur' = all_pairs D cur @ kvs"
proof (induction kvs arbitrary: r s D cur idx)
  case (Cons kv kvs)
  obtain k v where kv: "kv = (k, v)" by (cases kv)
  have inc: "increasing (map fst (all_pairs D cur @ [(k, v)]))"
    using Cons.prems(3) by (auto simp: kv increasing_def sorted_wrt_append)
  then have k: "valid k" "all_pairs D cur \<noteq> [] \<Longrightarrow> before (fst (last (all_pairs D cur))) k"
    by (auto simp: increasing_snoc last_map)
  have "fits opts fsize ((all_pairs D cur @ [(k, v)]) @ kvs)" using Cons.prems(4) kv by simp
  from tb_Add_on [OF W O Cons.prems(1,2) k fits_prefix [OF this]] obtain r1 s1 D1 cur1 idx1 where
    1: "tb_Add acc f k v r s = Inr (r1, s1)" "winv s1" "tb_on opts fsize (wcontents s1) r1 D1 cur1 idx1"
      "all_pairs D1 cur1 = all_pairs D cur @ [(k, v)]" by blast
  from Cons.IH [OF 1(2,3)] Cons.prems(3,4) show ?case by (simp add: kv 1(1,4))
qed (metis append_Nil2 tb_add_all.simps(1))

lemma new_TableBuilder_on:
  assumes O: "options_ok opts fsize" and d: "d = []"
  shows "\<exists>r. new_TableBuilder opts = Inr r \<and> tb_on opts fsize d r [] [] []"
proof -
  have i: "1 \<le> block_restart_interval opts" "block_restart_interval opts < 2 ^ 31" "options_comparator opts = cmp"
    using O by (simp_all add: options_ok_def)
  obtain b where b: "new_BlockBuilder (block_restart_interval opts) cmp = Inr b" "builds (block_restart_interval opts) b []"
    using builds_new [OF i(1,2)] by blast
  have "builds 1 (b\<lparr>bb_interval := 1\<rparr>) []"
    using b i(1) by (auto simp: new_BlockBuilder_def builds_def building_def pairs_def last_of_def)
  define r where "r = \<lparr>tb_options = opts, tb_offset = 0, tb_status = OK, tb_data_block = b,
    tb_index_block = b\<lparr>bb_interval := 1\<rparr>, tb_last_key = [], tb_num_entries = 0, tb_closed = False,
    tb_filter_block = map_option (\<lambda>policy. (policy, new_FilterBlockBuilder)) (options_filter_policy opts),
    tb_pending_index_entry = False, tb_pending_handle = new_BlockHandle\<rparr>"
  have "filter_on opts valid fsize (tb_filter_block r) 0 [] []"
    using builder_ok_new by (auto simp: filter_on_def r_def filter_size_def new_FilterBlockBuilder_def
      split: option.split intro!: exI [of _ "[]"])
  moreover have "tb_StartBlock r 0 = Inr r"
    by (cases "options_filter_policy opts")
      (simp_all add: tb_StartBlock_def r_def StartBlock_def new_FilterBlockBuilder_def start_loop.simps)
  ultimately show ?thesis
    using b \<open>builds 1 (b\<lparr>bb_interval := 1\<rparr>) []\<close> d i(3)
    by (intro exI [of _ r])
      (simp add: new_TableBuilder_def tb_on_def r_def blocks_in_def separates_def separators_def all_pairs_def increasing_def)
qed

end

end
