(* ===== verification/Table_Finish.thy ===== *)
theory Table_Finish
  imports Table_Correct
begin

section \<open>The finished table\<close>

text \<open>
  What the file is after \<open>Finish\<close>: data blocks that hold the pairs, a filter block for their keys, the
  metaindex block that names it, the index, and the footer.
\<close>

context key_order
begin

definition is_table :: "Options \<Rightarrow> slice \<Rightarrow> data_blocks \<Rightarrow> (slice \<times> slice) list \<Rightarrow> bool" where
  "is_table opts d D idx \<longleftrightarrow> (\<exists>mh ih pre raw. d = pre @ footer_bytes \<lparr>metaindex_handle = mh, index_handle = ih\<rparr> \<and>
     length d < 2 ^ 32 \<and> blocks_in opts d D \<and> separates idx (map snd D) \<and> separators idx (map snd D) \<and> length idx = length D \<and>
     map snd idx = map (handle_bytes \<circ> fst) D \<and> increasing (map fst (concat (map snd D))) \<and>
     stored_at opts d ih raw \<and> block_holds raw idx \<and>
     (\<forall>p. options_filter_policy opts = Some p \<longrightarrow> (\<exists>fh segs mraw. stored_at opts d mh mraw \<and>
       bytewise.block_holds mraw [(filter_key p, handle_bytes fh)] \<and> stored_at opts d fh (filter_block segs) \<and>
       filters_hold p segs D)))"

text \<open>Between two steps of \<open>Finish\<close>: the builder is in order and its offset is the end of the file.\<close>

definition at_end :: "Options \<Rightarrow> TableBuilder \<Rightarrow> slice \<Rightarrow> bool" where
  "at_end opts r d \<longleftrightarrow> tb_options r = opts \<and> tb_status r = OK \<and> tb_offset r = of_nat (length d)"

abbreviation moved_to :: "TableBuilder \<Rightarrow> slice \<Rightarrow> TableBuilder" where
  "moved_to r d \<equiv> r\<lparr>tb_status := OK, tb_offset := of_nat (length d)\<rparr>"

lemma at_end_moved: "tb_options r = opts \<Longrightarrow> at_end opts (moved_to r d) d"
  by (simp add: at_end_def)

lemma moved_same: "at_end opts r d \<Longrightarrow> moved_to r d = r"
  by (simp add: at_end_def)

lemma filter_written:
  assumes W: "writable_file f winv wcontents" "port_crc_ok acc" and P: "policy_ok opts valid fsize"
    and r: "winv s" "at_end opts r (wcontents s)" "filter_on opts valid fsize (tb_filter_block r) (length (wcontents s)) D []"
    and small: "2 * fsize * length (concat (map snd D)) + length (wcontents s) + 9 < 2 ^ 32"
  shows "\<exists>fh s' img. write_filter_block acc f r s = Inr (fh, moved_to r (wcontents s'), s') \<and> winv s' \<and>
    wcontents s' = wcontents s @ img \<and> length img \<le> 2 * fsize * length (concat (map snd D)) + length (wcontents s) + 14 \<and>
    (\<forall>p. options_filter_policy opts = Some p \<longrightarrow> handle_ok fh \<and>
      (\<exists>segs. filters_hold p segs D \<and> stored_at opts (wcontents s') fh (filter_block segs)))"
proof (cases "options_filter_policy opts")
  case None
  then have "tb_filter_block r = None" using r(3) by (simp add: filter_on_def)
  then show ?thesis using None r(1) moved_same [OF r(2)]
    by (intro exI [of _ new_BlockHandle] exI [of _ s] exI [of _ "[]"]) (simp add: write_filter_block_def)
next
  case (Some p)
  obtain fb segs where fb: "tb_filter_block r = Some (p, fb)" "Finish p fb = Inr (filter_block segs)" "filters_hold p segs D"
    "length (filter_block segs) \<le> 2 * fsize * length (concat (map snd D)) + length (wcontents s) + 9"
    using filter_on_Finish [OF P r(3) Some small] by blast
  have "length (wcontents s) + length (filter_block segs) + 5 < 2 ^ 64" using fb(4) small by simp
  moreover have "tb_offset r = of_nat (length (wcontents s))" using r(2) by (simp add: at_end_def)
  ultimately obtain h s' img where w: "WriteRawBlock acc f (filter_block segs) None r s = Inr (h, moved_to r (wcontents s'), s')"
    "winv s'" "handle_ok h" "wcontents s' = wcontents s @ img" "length img = length (filter_block segs) + 5"
    "\<forall>opts x. stores opts x (filter_block segs) 0 \<longrightarrow> stored_at opts (wcontents s') h x"
    using writable_file.WriteRawBlock_stored [OF W(1,2) r(1), of r "filter_block segs" None] by auto
  have "stores opts (filter_block segs) (filter_block segs) 0" by (simp add: stores_def)
  then have "stored_at opts (wcontents s') h (filter_block segs)" using w(6) by blast
  moreover have "write_filter_block acc f r s = Inr (h, moved_to r (wcontents s'), s')"
    using fb(1,2) w(1) r(2) by (simp add: write_filter_block_def tb_ok_def at_end_def)
  ultimately show ?thesis using w fb(3,4) Some by auto
qed

lemma block_written:
  assumes W: "writable_file f winv wcontents" "port_crc_ok acc" and C: "compressors_ok opts"
    and r: "winv s" "at_end opts r (wcontents s)" and b: "Block_Finish b = (raw, b')"
    and small: "length (wcontents s) + length raw + 5 < 2 ^ 64"
  shows "\<exists>h s' img. WriteBlock acc f b r s = Inr (Block_Reset b', h, moved_to r (wcontents s'), s') \<and> winv s' \<and>
    wcontents s' = wcontents s @ img \<and> length img \<le> length raw + 5 \<and> handle_ok h \<and> stored_at opts (wcontents s') h raw"
proof -
  have "tb_offset r = of_nat (length (wcontents s))" "tb_ok r" "compressors_ok (tb_options r)" "tb_options r = opts"
    using r(2) C by (simp_all add: at_end_def tb_ok_def)
  from writable_file.WriteBlock_stored [OF W r(1) this(1-3) b small] this(4) show ?thesis by blast
qed

text \<open>The metaindex is a block of one pair or none, which any comparator reads.\<close>

lemma metaindex_written:
  assumes W: "writable_file f winv wcontents" "port_crc_ok acc" and O: "options_ok opts fsize"
    and r: "winv s" "at_end opts r (wcontents s)" "tb_filter_block r = None \<longleftrightarrow> options_filter_policy opts = None"
    and fh: "options_filter_policy opts \<noteq> None \<Longrightarrow> handle_ok fh"
    and small: "length (wcontents s) + filter_name_length opts + 60 < 2 ^ 32"
  shows "\<exists>mh s' img mraw. write_metaindex_block acc f fh r s = Inr (mh, moved_to r (wcontents s'), s') \<and> winv s' \<and>
    wcontents s' = wcontents s @ img \<and> length img \<le> filter_name_length opts + 59 \<and> handle_ok mh \<and>
    stored_at opts (wcontents s') mh mraw \<and>
    (\<forall>p. options_filter_policy opts = Some p \<longrightarrow> bytewise.block_holds mraw [(filter_key p, handle_bytes fh)])"
proof -
  have o: "tb_options r = opts" "tb_ok r" using r(2) by (simp_all add: at_end_def tb_ok_def)
  have C: "compressors_ok opts" and i: "1 \<le> block_restart_interval opts" "block_restart_interval opts < 2 ^ 31"
    using O by (simp_all add: options_ok_def)
  obtain b where b: "new_BlockBuilder (block_restart_interval opts) (options_comparator opts) = Inr b"
    "building (options_comparator opts) b [] [0]"
    using building_new [OF i] by blast
  have built: "\<exists>b1 es rs. (if tb_filter_block r \<noteq> None then
        bind_res (deref (options_filter_policy opts)) (\<lambda>policy.
        bind_res (BlockHandle_EncodeTo fh []) (\<lambda>handle_encoding. Block_Add b (filter_key policy) handle_encoding))
      else Inr b) = Inr b1 \<and> building (options_comparator opts) b1 es rs \<and>
    block_cost (pairs es) \<le> filter_name_length opts + 54 \<and> length es \<le> 1 \<and>
    (\<forall>p. options_filter_policy opts = Some p \<longrightarrow> pairs es = [(filter_key p, handle_bytes fh)])"
  proof (cases "options_filter_policy opts")
    case None
    then show ?thesis using r(3) b(2)
      by (intro exI [of _ b] exI [of _ "[]"] exI [of _ "[0]"]) (simp add: pairs_def block_cost_def)
  next
    case (Some p)
    have e: "BlockHandle_EncodeTo fh [] = Inr (handle_bytes fh)" using fh Some by (simp add: EncodeTo_bytes)
    have l: "length (filter_key p) = 7 + filter_name_length opts"
      by (simp add: filter_key_def filter_name_length_def Some)
    have "length (filter_key p) + length (handle_bytes fh) < 2 ^ 32"
      using small l length_handle_bytes [of fh] by simp
    from Block_Add_building [OF b(2) this] obtain b1 sh rs where b1: "Block_Add b (filter_key p) (handle_bytes fh) = Inr b1"
      "building (options_comparator opts) b1 [(sh, filter_key p, handle_bytes fh)] rs" by auto
    moreover have "block_cost (pairs [(sh, filter_key p, handle_bytes fh)]) \<le> filter_name_length opts + 54"
      using l length_handle_bytes [of fh] by (simp add: pairs_def block_cost_def ekey_triple)
    ultimately show ?thesis using Some r(3) e
      by (intro exI [of _ b1] exI [of _ "[(sh, filter_key p, handle_bytes fh)]"] exI [of _ rs])
        (simp add: pairs_def ekey_triple)
  qed
  then obtain b1 es rs where b1: "(if tb_filter_block r \<noteq> None then
        bind_res (deref (options_filter_policy opts)) (\<lambda>policy.
        bind_res (BlockHandle_EncodeTo fh []) (\<lambda>handle_encoding. Block_Add b (filter_key policy) handle_encoding))
      else Inr b) = Inr b1" "building (options_comparator opts) b1 es rs"
    "block_cost (pairs es) \<le> filter_name_length opts + 54" "length es \<le> 1"
    "\<forall>p. options_filter_policy opts = Some p \<longrightarrow> pairs es = [(filter_key p, handle_bytes fh)]" by blast
  obtain raw b' where f: "Block_Finish b1 = (raw, b')" by fastforce
  have raw: "raw = block_bytes es rs" using Block_Finish_bytes [OF b1(2)] f by simp
  have "restarts_ok es rs" using b1(2) by (simp add: building_def)
  from length_block_bytes_le [OF this] have len: "length raw \<le> filter_name_length opts + 54" using raw b1(3) by simp
  then have "layout es rs" using b1(2) small raw by (simp add: layout_def building_def)
  moreover have "bytewise.increasing (map ekey es)"
    using b1(4) by (cases es) (simp_all add: bytewise.increasing_def)
  ultimately have holds: "bytewise.block_holds raw (pairs es)" using raw by (auto simp: bytewise.block_holds_def)
  have "length (wcontents s) + length raw + 5 < 2 ^ 64" using len small by simp
  from block_written [OF W C r(1,2) f this] obtain h s' img where
    w: "WriteBlock acc f b1 r s = Inr (Block_Reset b', h, moved_to r (wcontents s'), s')" "winv s'"
    "wcontents s' = wcontents s @ img" "length img \<le> length raw + 5" "handle_ok h" "stored_at opts (wcontents s') h raw" by blast
  have "write_metaindex_block acc f fh r s = Inr (h, moved_to r (wcontents s'), s')"
    by (simp only: write_metaindex_block_def o if_True b(1) b1(1) bind_res_Inr w(1) prod.case)
  moreover have "length img \<le> filter_name_length opts + 59" using w(4) len by simp
  moreover have "\<forall>p. options_filter_policy opts = Some p \<longrightarrow> bytewise.block_holds raw [(filter_key p, handle_bytes fh)]"
    using holds b1(5) by auto
  ultimately show ?thesis using w(2,3,5,6) by blast
qed

subsection \<open>The index\<close>

lemma add_index_entry_moved:
  assumes "add_index_entry sep r = Inr (r\<lparr>tb_last_key := sep, tb_index_block := ib, tb_pending_index_entry := False\<rparr>)"
    and "tb_pending_handle r' = tb_pending_handle r" and "tb_index_block r' = tb_index_block r"
  shows "add_index_entry sep r' = Inr (r'\<lparr>tb_last_key := sep, tb_index_block := ib, tb_pending_index_entry := False\<rparr>)"
proof -
  obtain enc ib' where e: "BlockHandle_EncodeTo (tb_pending_handle r) [] = Inr enc" "Block_Add (tb_index_block r) sep enc = Inr ib'"
    "r\<lparr>tb_last_key := sep, tb_index_block := ib', tb_pending_index_entry := False\<rparr> =
      r\<lparr>tb_last_key := sep, tb_index_block := ib, tb_pending_index_entry := False\<rparr>"
    using assms(1) by (auto simp: add_index_entry_def res_simps)
  then have "ib' = ib" using arg_cong [OF e(3), of tb_index_block] by simp
  then show ?thesis using e(1,2) assms(2,3) by (simp add: add_index_entry_def)
qed

lemma last_index_entry:
  assumes O: "options_ok opts fsize" and on: "tb_on opts fsize d r D [] idx" and fit: "fits opts fsize (all_pairs D [])"
    and r': "tb_pending_handle r' = tb_pending_handle r" "tb_index_block r' = tb_index_block r" "tb_last_key r' = tb_last_key r"
      "tb_pending_index_entry r' = tb_pending_index_entry r"
  shows "\<exists>lk ib idx'. (if tb_pending_index_entry r' then
        bind_res (FindShortSuccessor cmp (tb_last_key r')) (\<lambda>succ. add_index_entry succ r')
      else Inr r') = Inr (r'\<lparr>tb_last_key := lk, tb_index_block := ib, tb_pending_index_entry := False\<rparr>) \<and>
    builds 1 ib idx' \<and> separates idx' (map snd D) \<and> separators idx' (map snd D) \<and> map snd idx' = map (handle_bytes \<circ> fst) D \<and>
    length idx' = length D \<and> kv_size 19 idx' \<le> kv_size 39 (concat (map snd D))"
proof -
  have cut: "separates idx' (map snd D)" if "separates idx' (map snd D @ [[]])" "length idx' = length D" for idx'
    unfolding separates_def
  proof (intro conjI allI impI ballI)
    fix j k assume "j < length idx'" "k \<in> fst ` set (map snd D ! j)"
    then show "k = fst (idx' ! j) \<or> before k (fst (idx' ! j))"
      using separatesD(2) [OF that(1), of j k] that(2) by (simp add: nth_append)
  next
    fix j i k assume "j < length (map snd D)" "i < length idx'" "i < j" "k \<in> fst ` set (map snd D ! j)"
    then show "before (fst (idx' ! i)) k" using separatesD(3) [OF that(1), of j i k] by (simp add: nth_append)
  qed (use that in simp)
  have cut': "separators idx' (map snd D)" if s: "separators idx' (map snd D @ [[]])" for idx'
    unfolding separators_def
  proof (intro allI impI)
    fix i assume i: "i < length idx'" "Suc i < length (map snd D)" "map snd D ! Suc i \<noteq> []"
    then show "FindShortestSeparator cmp (fst (last (map snd D ! i))) (fst (hd (map snd D ! Suc i))) = Inr (fst (idx' ! i))"
      using separatorsD [OF s i(1)] by (simp add: nth_append)
  qed
  show ?thesis
  proof (cases "tb_pending_index_entry r")
    case True
    note p = pending_facts [OF on True]
    have lk: "valid (tb_last_key r)" using all_valid [OF on p(8)] p(9,10) by simp
    then obtain s where s: "FindShortSuccessor cmp (tb_last_key r) = Inr s" "valid s"
      "s = tb_last_key r \<or> before (tb_last_key r) s" using successor by blast
    moreover have "length s \<le> length (tb_last_key r)" using O s(1) by (auto simp: options_ok_def contract_ok_def)
    ultimately obtain ib idx' where e: "add_index_entry s r = Inr (r\<lparr>tb_last_key := s, tb_index_block := ib, tb_pending_index_entry := False\<rparr>)"
      "builds 1 ib idx'" "separates idx' (map snd D @ [[]])" "map snd idx' = map (handle_bytes \<circ> fst) D"
      "length idx' = length D" "kv_size 19 idx' \<le> kv_size 39 (concat (map snd D))" "separators idx' (map snd D @ [[]])"
      using index_entry_on [OF on True s(2) _ _ fit] by blast
    from add_index_entry_moved [OF e(1) r'(1,2)] show ?thesis
      using True r'(3,4) s(1) e cut [OF e(3,5)] cut' [OF e(7)] by (intro exI [of _ s] exI [of _ ib] exI [of _ idx']) simp
  next
    case False
    note on' = on [unfolded tb_on_def]
    have "length D = length idx" "builds 1 (tb_index_block r) idx" "separates idx (map snd D @ [[]])" "separators idx (map snd D @ [[]])"
      using on' False by auto
    moreover have "r'\<lparr>tb_last_key := tb_last_key r', tb_index_block := tb_index_block r, tb_pending_index_entry := False\<rparr> = r'"
      using False r'(2,4) by simp
    ultimately show ?thesis
      using False r' on' cut [of idx] cut' [of idx]
      by (intro exI [of _ "tb_last_key r'"] exI [of _ "tb_index_block r"] exI [of _ idx]) simp
  qed
qed

subsection \<open>The file\<close>

lemma flushed:
  assumes W: "writable_file f winv wcontents" "port_crc_ok acc" and O: "options_ok opts fsize"
    and on: "winv s" "tb_on opts fsize (wcontents s) r D cur idx" and fit: "fits opts fsize (all_pairs D cur)"
  shows "\<exists>r' s' D'. tb_Flush acc f r s = Inr (r', s') \<and> winv s' \<and> tb_on opts fsize (wcontents s') r' D' [] idx \<and>
    all_pairs D' [] = all_pairs D cur"
proof (cases "cur = []")
  case True
  have "block_empty (tb_data_block r)" using on(2) True builds_empty unfolding tb_on_def by blast
  moreover have "tb_ok r" "\<not> tb_closed r" using on(2) by (simp_all add: tb_on_def tb_ok_def)
  ultimately show ?thesis using on True by (auto simp: tb_Flush_def)
next
  case False
  from tb_Flush_on [OF W O on fit False] obtain h r' s' where
    "tb_Flush acc f r s = Inr (r', s')" "winv s'" "tb_on opts fsize (wcontents s') r' (D @ [(h, cur)]) [] idx" by blast
  moreover have "all_pairs (D @ [(h, cur)]) [] = all_pairs D cur" by (simp add: all_pairs_def)
  ultimately show ?thesis by blast
qed

lemma tb_Finish_table:
  assumes W: "writable_file f winv wcontents" "port_crc_ok acc" and O: "options_ok opts fsize"
    and on: "winv s" "tb_on opts fsize (wcontents s) r D cur idx" and fit: "fits opts fsize (all_pairs D cur)"
  shows "\<exists>r' s' D' idx'. tb_Finish acc f r s = Inr (OK, r', s') \<and> winv s' \<and> tb_closed r' \<and>
    tb_offset r' = of_nat (length (wcontents s')) \<and> tb_num_entries r' = int (length (all_pairs D cur)) \<and>
    is_table opts (wcontents s') D' idx' \<and> concat (map snd D') = all_pairs D cur"
proof -
  obtain r1 s1 D1 where f1: "tb_Flush acc f r s = Inr (r1, s1)" "winv s1" "tb_on opts fsize (wcontents s1) r1 D1 [] idx"
    "all_pairs D1 [] = all_pairs D cur"
    using flushed [OF W O on fit] by blast
  note on1 = f1(3) [unfolded tb_on_def]
  let ?kvs = "concat (map snd D1)"
  have kvs: "all_pairs D cur = ?kvs" using f1(4) by (simp add: all_pairs_def)
  have fit1: "fits opts fsize (all_pairs D1 [])" using fit f1(4) by simp
  have n1: "length (wcontents s1) \<le> kv_size 32 ?kvs" using on1 by blast
  have sz: "3 * kv_size (40 + fsize) ?kvs + 300 + filter_name_length opts < 2 ^ 32"
    "kv_size (40 + fsize) ?kvs = kv_size 32 ?kvs + (8 + fsize) * length ?kvs"
    "kv_size 39 ?kvs = kv_size 32 ?kvs + 7 * length ?kvs"
    using fitsD(1) [OF fit1] kv_size_add [of 32 "8 + fsize" ?kvs] kv_size_add [of 32 7 ?kvs] by (simp_all add: all_pairs_def)
  have P: "policy_ok opts valid fsize" "compressors_ok opts" using O by (simp_all add: options_ok_def)
  define r2 where "r2 = r1\<lparr>tb_closed := True\<rparr>"
  have e2: "at_end opts r2 (wcontents s1)" using on1 by (simp add: at_end_def r2_def)
  have "filter_on opts valid fsize (tb_filter_block r2) (length (wcontents s1)) D1 []" using on1 by (simp add: r2_def)
  moreover have "2 * fsize * length ?kvs + length (wcontents s1) + 9 < 2 ^ 32"
    using n1 sz by (simp add: algebra_simps)
  ultimately obtain fh s2 img2 where w2: "write_filter_block acc f r2 s1 = Inr (fh, moved_to r2 (wcontents s2), s2)" "winv s2"
    "wcontents s2 = wcontents s1 @ img2" "length img2 \<le> 2 * fsize * length ?kvs + length (wcontents s1) + 14"
    "\<forall>p. options_filter_policy opts = Some p \<longrightarrow> handle_ok fh \<and>
      (\<exists>segs. filters_hold p segs D1 \<and> stored_at opts (wcontents s2) fh (filter_block segs))"
    using filter_written [OF W P(1) f1(2) e2] by blast
  have e3: "at_end opts (moved_to r2 (wcontents s2)) (wcontents s2)" using e2 by (simp add: at_end_def)
  have fb: "tb_filter_block (moved_to r2 (wcontents s2)) = None \<longleftrightarrow> options_filter_policy opts = None"
    using on1 by (auto simp: r2_def filter_on_def split: option.splits)
  have fho: "options_filter_policy opts \<noteq> None \<Longrightarrow> handle_ok fh" using w2(5) by auto
  have n2: "length (wcontents s2) \<le> 2 * kv_size 32 ?kvs + 2 * fsize * length ?kvs + 14" using w2(3,4) n1 by simp
  then have "length (wcontents s2) + filter_name_length opts + 60 < 2 ^ 32" using sz by (simp add: algebra_simps)
  from metaindex_written [OF W O w2(2) e3 fb fho this] obtain mh s3 img3 mraw where
    w3: "write_metaindex_block acc f fh (moved_to r2 (wcontents s2)) s2 = Inr (mh, moved_to r2 (wcontents s3), s3)" "winv s3"
    "wcontents s3 = wcontents s2 @ img3" "length img3 \<le> filter_name_length opts + 59" "handle_ok mh"
    "stored_at opts (wcontents s3) mh mraw"
    "\<forall>p. options_filter_policy opts = Some p \<longrightarrow> bytewise.block_holds mraw [(filter_key p, handle_bytes fh)]" by auto
  define r3 where "r3 = moved_to r2 (wcontents s3)"
  have "\<exists>lk ib idx'. (if tb_pending_index_entry r3 then
        bind_res (FindShortSuccessor cmp (tb_last_key r3)) (\<lambda>succ. add_index_entry succ r3)
      else Inr r3) = Inr (r3\<lparr>tb_last_key := lk, tb_index_block := ib, tb_pending_index_entry := False\<rparr>) \<and>
    builds 1 ib idx' \<and> separates idx' (map snd D1) \<and> separators idx' (map snd D1) \<and> map snd idx' = map (handle_bytes \<circ> fst) D1 \<and>
    length idx' = length D1 \<and> kv_size 19 idx' \<le> kv_size 39 (concat (map snd D1))"
    by (rule last_index_entry [OF O f1(3) fit1]) (simp_all add: r3_def r2_def)
  then obtain lk ib idx' where ix: "(if tb_pending_index_entry r3 then
        bind_res (FindShortSuccessor cmp (tb_last_key r3)) (\<lambda>succ. add_index_entry succ r3)
      else Inr r3) = Inr (r3\<lparr>tb_last_key := lk, tb_index_block := ib, tb_pending_index_entry := False\<rparr>)"
    "builds 1 ib idx'" "separates idx' (map snd D1)" "map snd idx' = map (handle_bytes \<circ> fst) D1"
    "length idx' = length D1" "kv_size 19 idx' \<le> kv_size 39 ?kvs" "separators idx' (map snd D1)" by blast
  define r4 where "r4 = r3\<lparr>tb_last_key := lk, tb_index_block := ib, tb_pending_index_entry := False\<rparr>"
  have e4: "at_end opts r4 (wcontents s3)" using e2 by (simp add: at_end_def r4_def r3_def)
  have "block_cost idx' < 2 ^ 32" unfolding block_cost_size using ix(6) sz by (simp add: algebra_simps)
  from builds_Finish [OF ix(2) this] obtain raw b' where fin: "Block_Finish ib = (raw, b')" "block_holds raw idx'"
    "length raw \<le> block_cost idx'" by blast
  have n3: "length (wcontents s3) \<le> 2 * kv_size 32 ?kvs + 2 * fsize * length ?kvs + filter_name_length opts + 73"
    using w3(3,4) n2 by simp
  then have "length (wcontents s3) + length raw + 5 < 2 ^ 64"
    using fin(3) ix(6) sz unfolding block_cost_size by (simp add: algebra_simps)
  from block_written [OF W P(2) w3(2) e4 fin(1) this] obtain ih s4 img4 where
    w4: "WriteBlock acc f ib r4 s3 = Inr (Block_Reset b', ih, moved_to r4 (wcontents s4), s4)" "winv s4"
    "wcontents s4 = wcontents s3 @ img4" "length img4 \<le> length raw + 5" "handle_ok ih" "stored_at opts (wcontents s4) ih raw" by blast
  define r5 where "r5 = (moved_to r4 (wcontents s4))\<lparr>tb_index_block := Block_Reset b'\<rparr>"
  let ?fb = "footer_bytes \<lparr>metaindex_handle = mh, index_handle = ih\<rparr>"
  obtain s5 where s5: "wf_Append f ?fb s4 = Inr (OK, s5)" "winv s5" "wcontents s5 = wcontents s4 @ ?fb"
    using writable_file.append [OF W(1) w4(2)] by blast
  have foot: "write_footer f mh ih r5 s4 = Inr (r5\<lparr>tb_status := OK, tb_offset := of_nat (length (wcontents s5))\<rparr>, s5)"
    using s5(1,3) Footer_encode [of "\<lparr>metaindex_handle = mh, index_handle = ih\<rparr>"] w3(5) w4(5)
    by (simp add: write_footer_def tb_ok_def r5_def)
  have o3: "tb_options r3 = opts" "tb_ok r3" "options_comparator opts = cmp"
    using e2 O by (simp_all add: r3_def at_end_def tb_ok_def options_ok_def)
  have "tb_index_block r4 = ib" by (simp add: r4_def)
  then have index: "write_index_block acc f r3 s3 = Inr (ih, r5, s4)"
    by (simp only: write_index_block_def o3 if_True ix(1) r4_def [symmetric] bind_res_Inr w4(1) prod.case r5_def)
  define r6 where "r6 = r5\<lparr>tb_status := OK, tb_offset := of_nat (length (wcontents s5))\<rparr>"
  have "tb_Finish acc f r s = Inr (OK, r6, s5)"
  proof -
    have "\<not> tb_closed r1" using on1 by blast
    then show ?thesis
      using f1(1) w2(1) w3(1) index foot
      by (simp add: tb_Finish_def flip: r2_def) (simp add: r3_def r6_def)
  qed
  moreover have "is_table opts (wcontents s5) D1 idx'"
  proof -
    have app: "wcontents s5 = wcontents s1 @ img2 @ img3 @ img4 @ ?fb" by (simp add: s5(3) w4(3) w3(3) w2(3))
    have "length (wcontents s5) < 2 ^ 32"
      using s5(3) w4(3,4) n3 fin(3) ix(6) sz unfolding block_cost_size by (simp add: algebra_simps)
    moreover have "blocks_in opts (wcontents s5) D1"
      unfolding app by (rule blocks_in_append) (use on1 in blast)
    moreover have "stored_at opts (wcontents s5) ih raw" unfolding s5(3) by (rule stored_at_append [OF w4(6)])
    moreover have "stored_at opts (wcontents s5) mh mraw"
      unfolding s5(3) w4(3) append_assoc by (rule stored_at_append [OF w3(6)])
    moreover have up: "stored_at opts (wcontents s5) fh x" if "stored_at opts (wcontents s2) fh x" for x
      unfolding s5(3) w4(3) w3(3) append_assoc by (rule stored_at_append [OF that])
    moreover have "increasing (map fst (concat (map snd D1)))" using on1 by (simp add: all_pairs_def)
    moreover have "\<exists>fh segs mraw. stored_at opts (wcontents s5) mh mraw \<and>
        bytewise.block_holds mraw [(filter_key p, handle_bytes fh)] \<and> stored_at opts (wcontents s5) fh (filter_block segs) \<and>
        filters_hold p segs D1" if p: "options_filter_policy opts = Some p" for p
    proof -
      obtain segs where "filters_hold p segs D1" "stored_at opts (wcontents s5) fh (filter_block segs)"
        using w2(5) p up by blast
      moreover have "bytewise.block_holds mraw [(filter_key p, handle_bytes fh)]" using w3(7) p by blast
      ultimately show ?thesis using \<open>stored_at opts (wcontents s5) mh mraw\<close> by blast
    qed
    ultimately show ?thesis
      unfolding is_table_def using s5(3) ix(3,4,5,7) fin(2)
      by (rule_tac exI [of _ mh], rule_tac exI [of _ ih], rule_tac exI [of _ "wcontents s4"], rule_tac exI [of _ raw]) blast
  qed
  moreover have "tb_num_entries r6 = int (length (all_pairs D cur))" "tb_closed r6" "tb_offset r6 = of_nat (length (wcontents s5))"
    using on1 f1(4) by (simp_all add: r6_def r5_def r4_def r3_def r2_def)
  ultimately show ?thesis using s5(2) kvs by (metis (no_types))
qed

lemma build_table_is_table:
  assumes W: "writable_file f winv wcontents" "port_crc_ok acc" and O: "options_ok opts fsize"
    and s: "winv s" "wcontents s = []" and kvs: "increasing (map fst kvs)" "fits opts fsize kvs"
  shows "\<exists>r s' D idx. build_table acc f opts kvs s = Inr (OK, r, s') \<and> winv s' \<and> tb_closed r \<and>
    tb_offset r = of_nat (length (wcontents s')) \<and> tb_num_entries r = int (length kvs) \<and>
    is_table opts (wcontents s') D idx \<and> concat (map snd D) = kvs"
proof -
  obtain r0 where r0: "new_TableBuilder opts = Inr r0" "tb_on opts fsize (wcontents s) r0 [] [] []"
    using new_TableBuilder_on [OF O s(2)] by blast
  have e: "all_pairs [] [] = []" by (simp add: all_pairs_def)
  obtain r1 s1 D cur idx where a: "tb_add_all acc f kvs r0 s = Inr (r1, s1)" "winv s1"
    "tb_on opts fsize (wcontents s1) r1 D cur idx" "all_pairs D cur = kvs"
    using tb_add_all_on [OF W O s(1) r0(2), of kvs] kvs unfolding e by auto
  have "fits opts fsize (all_pairs D cur)" using a(4) kvs(2) by simp
  from tb_Finish_table [OF W O a(2,3) this] show ?thesis
    using r0(1) a(1,4) by (simp add: build_table_def)
qed

end

end
