(* ===== verification/Table_Read.thy ===== *)
theory Table_Read
  imports Table Table_Finish
begin

section \<open>Reading a finished table\<close>

text \<open>
  Opening a file that is a table, its iterator, and \<open>InternalGet\<close>, over every file of the interface and for
  every comparator and filter policy that meets its contract.
\<close>

context key_order
begin

lemma is_tableD:
  assumes "is_table opts d D idx"
  shows "length d < 2 ^ 32" and "blocks_in opts d D" and "separates idx (map snd D)" and "separators idx (map snd D)"
    and "length idx = length D" and "map snd idx = map (handle_bytes \<circ> fst) D" and "increasing (map fst (concat (map snd D)))"
    and "\<exists>mh ih pre raw. d = pre @ footer_bytes \<lparr>metaindex_handle = mh, index_handle = ih\<rparr> \<and>
      stored_at opts d ih raw \<and> block_holds raw idx \<and>
      (\<forall>p. options_filter_policy opts = Some p \<longrightarrow> (\<exists>fh segs mraw. stored_at opts d mh mraw \<and>
        bytewise.block_holds mraw [(filter_key p, handle_bytes fh)] \<and> stored_at opts d fh (filter_block segs) \<and>
        filters_hold p segs D))"
  using assms unfolding is_table_def by blast+

text \<open>What an opened table has read of its file.\<close>

definition opened :: "Options \<Rightarrow> data_blocks \<Rightarrow> (slice \<times> slice) list \<Rightarrow> Table \<Rightarrow> bool" where
  "opened opts D idx t \<longleftrightarrow> t_options t = opts \<and>
     (\<exists>a. Block_NewIterator (t_index_block t) cmp = Inr a \<and> block_at idx (length idx) a) \<and>
     length idx \<le> length (b_data (t_index_block t)) \<and>
     (case options_filter_policy opts of None \<Rightarrow> t_filter t = None
      | Some p \<Rightarrow> \<exists>segs. t_filter t = Some (filter_reader segs) \<and> filters_hold p segs D)"

lemma DecodeFrom_handle [simp]: "BlockHandle_DecodeFrom (handle_bytes h) h' = Inr (OK, h, [])"
  using DecodeFrom_bytes [of h "[]" h'] by simp

lemma ReadFilter_opened:
  assumes R: "random_file rf winv wcontents" "port_crc_ok acc" and s: "winv s" "length (wcontents s) < 2 ^ 32"
    and fh: "stored_at (t_options t) (wcontents s) fh (filter_block segs)" "length (filter_block segs) < 2 ^ 32"
  shows "ReadFilter acc rf (handle_bytes fh) t s = Inr (t\<lparr>t_filter := Some (filter_reader segs)\<rparr>)"
proof -
  have "length (wcontents s) < 2 ^ 64" using s(2) by simp
  from random_file.ReadBlock_stored [OF R s(1) fh(1) this] obtain bc where
    "ReadBlock acc rf (t_options t) (meta_options (t_options t)) fh s = Inr (OK, bc)" "bc_data bc = filter_block segs" by blast
  then show ?thesis using read_filter_block [OF fh(2)] by (simp add: ReadFilter_def)
qed

lemma ReadMeta_opened:
  assumes R: "random_file rf winv wcontents" "port_crc_ok acc" and s: "winv s" "length (wcontents s) < 2 ^ 32"
    and p: "options_filter_policy (t_options t) = Some p"
    and m: "stored_at (t_options t) (wcontents s) (metaindex_handle footer) mraw"
      "bytewise.block_holds mraw [(filter_key p, handle_bytes fh)]"
    and fh: "stored_at (t_options t) (wcontents s) fh (filter_block segs)" "length (filter_block segs) < 2 ^ 32"
  shows "ReadMeta acc rf footer t s = Inr (t\<lparr>t_filter := Some (filter_reader segs)\<rparr>)"
proof -
  let ?kv = "[(filter_key p, handle_bytes fh)]"
  have "length (wcontents s) < 2 ^ 64" using s(2) by simp
  from random_file.ReadBlock_stored [OF R s(1) m(1) this] obtain bc where bc:
    "ReadBlock acc rf (t_options t) (meta_options (t_options t)) (metaindex_handle footer) s = Inr (OK, bc)" "bc_data bc = mraw" by blast
  obtain b a where a: "new_Block mraw = Inr b" "Block_NewIterator b BytewiseComparator = Inr a" "bytewise.block_at ?kv (length ?kv) a"
    using bytewise.block_holds_open(1) [OF m(2)] by blast
  have "rank (<) (filter_key p) ?kv = 0" by (simp add: rank_def)
  then obtain a' where a': "it_Seek block_iterator (filter_key p) a = Inr a'" "bytewise.block_at ?kv 0 a'"
    using bytewise.blocks.at_Seek [OF a(3), of "filter_key p"] by auto
  have "it_Valid block_iterator a'" "it_key block_iterator a' = Inr (filter_key p)" "it_value block_iterator a' = Inr (handle_bytes fh)"
    using bytewise.blocks.at_Valid [OF a'(2)] bytewise.blocks.at_key [OF a'(2)] bytewise.blocks.at_value [OF a'(2)] by simp_all
  then show ?thesis
    using p bc a(1,2) a'(1) ReadFilter_opened [OF R s fh] by (simp add: ReadMeta_def filter_key_def)
qed

lemma Table_Open_opened:
  assumes R: "random_file rf winv wcontents" "port_crc_ok acc" and s: "winv s" and T: "is_table opts (wcontents s) D idx"
    and cmp: "options_comparator opts = cmp"
  shows "\<exists>t. Table_Open acc rf opts (of_nat (length (wcontents s))) s = Inr (OK, Some t) \<and> opened opts D idx t"
proof -
  let ?d = "wcontents s" and ?sz = "of_nat (length (wcontents s)) :: u64"
  obtain mh ih pre raw where d: "?d = pre @ footer_bytes \<lparr>metaindex_handle = mh, index_handle = ih\<rparr>" "stored_at opts ?d ih raw"
    "block_holds raw idx"
    "\<forall>p. options_filter_policy opts = Some p \<longrightarrow> (\<exists>fh segs mraw. stored_at opts ?d mh mraw \<and>
        bytewise.block_holds mraw [(filter_key p, handle_bytes fh)] \<and> stored_at opts ?d fh (filter_block segs) \<and>
        filters_hold p segs D)"
    using is_tableD(8) [OF T] by blast
  have len: "length ?d < 2 ^ 32" by (rule is_tableD(1) [OF T])
  then have len64: "length ?d < 2 ^ 64" by simp
  have ld: "length ?d = length pre + 48" by (simp add: d(1))
  have usz: "unat ?sz = length ?d" using len64 by (simp add: unat_of_nat)
  have e48: "unat (of_nat kEncodedLength :: u64) = 48" by (simp add: footer_sizes)
  then have ge: "\<not> ?sz < of_nat kEncodedLength"
    unfolding word_less_nat_alt usz by (simp add: ld)
  have off: "unat (?sz - of_nat kEncodedLength) = length pre"
    unfolding unat_sub [OF leI [OF ge]] usz e48 by (simp add: ld)
  then have "unat (?sz - of_nat kEncodedLength) \<le> length ?d" using ld by simp
  from random_file.read [OF R(1) s this, of kEncodedLength] obtain b where
    foot: "ra_Read rf (?sz - of_nat kEncodedLength) kEncodedLength s =
      Inr (OK, footer_bytes \<lparr>metaindex_handle = mh, index_handle = ih\<rparr>, b)"
    unfolding off by (auto simp: d(1) footer_sizes)
  have dec: "Footer_DecodeFrom (footer_bytes f) f' = Inr (OK, f, [])" for f f' using Footer_decode [of f "[]" f'] by simp
  obtain bc where bc: "ReadBlock acc rf opts (meta_options opts) ih s = Inr (OK, bc)" "bc_data bc = raw"
    using random_file.ReadBlock_stored [OF R s d(2) len64] by blast
  obtain ib a where ib: "new_Block raw = Inr ib" "Block_NewIterator ib cmp = Inr a" "block_at idx (length idx) a" "b_data ib = raw"
    using block_holds_open(1) [OF d(3)] by blast
  have raw: "length idx \<le> length raw" by (rule block_holds_open(2) [OF d(3)])
  define t0 where "t0 = \<lparr>t_options = opts, t_metaindex_handle = mh, t_index_block = ib, t_filter = None\<rparr>"
  have t0: "opened opts D idx (t0\<lparr>t_filter := fr\<rparr>)"
    if "case options_filter_policy opts of None \<Rightarrow> fr = None | Some p \<Rightarrow> \<exists>segs. fr = Some (filter_reader segs) \<and> filters_hold p segs D"
    for fr using that ib raw by (cases "options_filter_policy opts") (simp_all add: opened_def t0_def)
  have "\<exists>t. ReadMeta acc rf \<lparr>metaindex_handle = mh, index_handle = ih\<rparr> t0 s = Inr t \<and> opened opts D idx t"
  proof (cases "options_filter_policy opts")
    case None
    then show ?thesis using t0 [of None] by (simp add: ReadMeta_def t0_def)
  next
    case (Some p)
    then obtain fh segs mraw where m: "stored_at opts ?d mh mraw" "bytewise.block_holds mraw [(filter_key p, handle_bytes fh)]"
      "stored_at opts ?d fh (filter_block segs)" "filters_hold p segs D"
      using d(4) by blast
    have "length (filter_block segs) < 2 ^ 32" using m(4) by (simp add: filters_hold_def)
    from ReadMeta_opened [OF R s len, of t0 p "\<lparr>metaindex_handle = mh, index_handle = ih\<rparr>" mraw fh segs] m this Some
    have "ReadMeta acc rf \<lparr>metaindex_handle = mh, index_handle = ih\<rparr> t0 s = Inr (t0\<lparr>t_filter := Some (filter_reader segs)\<rparr>)"
      by (simp add: t0_def)
    then show ?thesis using t0 [of "Some (filter_reader segs)"] Some m(4) by auto
  qed
  then show ?thesis
    using ge foot dec bc ib(1) by (auto simp: Table_Open_def t0_def)
qed

subsection \<open>The data blocks\<close>

lemma BlockReader_opened:
  assumes R: "random_file rf winv wcontents" "port_crc_ok acc" and s: "winv s" and T: "is_table opts (wcontents s) D idx"
    and cmp: "options_comparator opts = cmp" and t: "t_options t = opts" and h: "(h, kvs) \<in> set D"
  shows "\<exists>a. BlockReader acc rf t ro s (handle_bytes h) = Inr a \<and> block_at kvs (length kvs) a"
proof -
  obtain raw where raw: "stored_at opts (wcontents s) h raw" "block_holds raw kvs"
    using blocks_inD(4) [OF is_tableD(2) [OF T] h] by blast
  have "length (wcontents s) < 2 ^ 64" using is_tableD(1) [OF T] by simp
  from random_file.ReadBlock_stored [OF R s raw(1) this] obtain bc where
    "ReadBlock acc rf opts ro h s = Inr (OK, bc)" "bc_data bc = raw" by blast
  moreover obtain b a where "new_Block raw = Inr b" "Block_NewIterator b cmp = Inr a" "block_at kvs (length kvs) a"
    using block_holds_open(1) [OF raw(2)] by blast
  ultimately show ?thesis using cmp t by (simp add: BlockReader_def)
qed

lemma handle_of_index:
  assumes "is_table opts d D idx" and "n < length D"
  shows "snd (idx ! n) = handle_bytes (fst (D ! n))"
proof -
  have "map snd idx ! n = map (handle_bytes \<circ> fst) D ! n" by (rule arg_cong [OF is_tableD(6) [OF assms(1)]])
  then show ?thesis using is_tableD(5) [OF assms(1)] assms(2) by simp
qed

lemma same_handle:
  assumes "is_table opts d D idx" and "i < length D" and "j < length D" and "snd (idx ! i) = snd (idx ! j)"
  shows "i = j"
proof -
  have h: "snd (idx ! n) = handle_bytes (fst (D ! n))" if "n < length D" for n
    by (rule handle_of_index [OF assms(1) that])
  have "handle_bytes (fst (D ! i)) = handle_bytes (fst (D ! j))" using assms(2-4) h by simp
  then have "Inr (OK, fst (D ! i), []) = (Inr (OK, fst (D ! j), []) :: (Status \<times> BlockHandle \<times> slice) res)"
    using DecodeFrom_handle by metis
  then have e: "fst (D ! i) = fst (D ! j)" by simp
  have sorted: "sorted_wrt (<) (map (unat \<circ> bh_offset \<circ> fst) D)"
    using is_tableD(2) [OF assms(1)] by (simp add: blocks_in_def)
  show ?thesis
  proof (rule linorder_cases [of i j])
    assume "i < j"
    then show ?thesis using sorted_wrt_nth_less [OF sorted, of i j] assms(2,3) e by simp
  next
    assume "j < i"
    then show ?thesis using sorted_wrt_nth_less [OF sorted, of j i] assms(2,3) e by simp
  qed
qed

lemma table_blocks_of:
  assumes R: "random_file rf winv wcontents" "port_crc_ok acc" and s: "winv s" and T: "is_table opts (wcontents s) D idx"
    and cmp: "options_comparator opts = cmp" and t: "t_options t = opts" and fuel: "length idx + 2 \<le> fuel"
  shows "levels.blocks_of (\<lambda>v. bind_res (BlockReader acc rf t ro s v) (\<lambda>a. Inr (Some a))) fuel idx (map snd D)"
  unfolding levels.blocks_of_def block_levels_simps
proof (intro conjI allI impI ballI)
  note len = is_tableD(5) [OF T] and sep = is_tableD(3) [OF T]
  show "length idx = length (map snd D)" using len by simp
  show "length idx + 2 \<le> fuel" by (rule fuel)
  show "increasing (map fst (concat (map snd D)))" by (rule is_tableD(7) [OF T])
  fix j assume j: "j < length (map snd D)"
  have h: "snd (idx ! j) = handle_bytes (fst (D ! j))"
    using handle_of_index [OF T] j by simp
  have "(fst (D ! j), snd (D ! j)) \<in> set D" using j by simp
  from BlockReader_opened [OF R s T cmp t this, of ro]
  show "\<exists>p st. bind_res (BlockReader acc rf t ro s (snd (idx ! j))) (\<lambda>a. Inr (Some a)) = Inr (Some st) \<and> block_at (map snd D ! j) p st"
    unfolding h using j by auto
  show "k = fst (idx ! j) \<or> before k (fst (idx ! j))" if "k \<in> fst ` set (map snd D ! j)" for k
    using separatesD(2) [OF sep _ that] j len by simp
  show "before (fst (idx ! i)) k" if "i < j" "k \<in> fst ` set (map snd D ! j)" for i k
    using separatesD(3) [OF sep j _ that] that(1) j len by simp
next
  fix i j assume "i < length (map snd D)" "j < length (map snd D)" "snd (idx ! i) = snd (idx ! j)"
  then show "map snd D ! i = map snd D ! j" using same_handle [OF T, of i j] by simp
qed

text \<open>The iterator of the table stands behind the last pair, and meets the interface.\<close>

lemma Table_NewIterator_sorted:
  assumes R: "random_file rf winv wcontents" "port_crc_ok acc" and s: "winv s" and T: "is_table opts (wcontents s) D idx"
    and cmp: "options_comparator opts = cmp" and t: "opened opts D idx t" and kvs: "concat (map snd D) = kvs"
  shows "\<exists>x at. Table_NewIterator acc rf t ro s = Inr x \<and>
    sorted_iterator cmp valid before (two_level_iterator (table_levels acc rf t ro s)) at \<and> at kvs (length kvs) x"
proof -
  let ?f = "\<lambda>v. bind_res (BlockReader acc rf t ro s v) (\<lambda>a. Inr (Some a))"
  let ?n = "length (b_data (t_index_block t)) + 2"
  obtain a where a: "Block_NewIterator (t_index_block t) cmp = Inr a" "block_at idx (length idx) a" "t_options t = opts"
    "length idx + 2 \<le> ?n"
    using t by (auto simp: opened_def)
  have "levels.blocks_of ?f ?n idx (map snd D)" by (rule table_blocks_of [OF R s T cmp a(3,4)])
  from levels.new_TwoLevelIterator_at [OF this a(2)] obtain x where x:
    "new_TwoLevelIterator (block_levels ?f ?n) a = Inr x" "levels.tl_at ?f ?n kvs (length kvs) x"
    using kvs by blast
  have "Table_NewIterator acc rf t ro s = Inr x"
    using a(1,3) x(1) cmp by (simp add: Table_NewIterator_def table_levels_def)
  then show ?thesis using levels.two_level_sorted x(2) unfolding table_levels_def by blast
qed

lemma Table_NewIterator_at:
  assumes "random_file rf winv wcontents" and "port_crc_ok acc" and "winv s" and "is_table opts (wcontents s) D idx"
    and "options_comparator opts = cmp" and "opened opts D idx t" and "concat (map snd D) = kvs"
  shows "\<exists>x. Table_NewIterator acc rf t ro s = Inr x \<and>
    (\<forall>cs. (\<forall>k \<in> targets cs. valid k) \<longrightarrow>
      run_ops (two_level_iterator (table_levels acc rf t ro s)) cs x = run_cursor before kvs cs (length kvs))"
proof -
  obtain x at where x: "Table_NewIterator acc rf t ro s = Inr x"
    "sorted_iterator cmp valid before (two_level_iterator (table_levels acc rf t ro s)) at" "at kvs (length kvs) x"
    using Table_NewIterator_sorted [OF assms, of ro] by blast
  show ?thesis
    by (intro exI [of _ x] conjI allI impI x(1)) (rule sorted_iterator.run_ops_cursor [OF x(2,3)])
qed

end

end
