(* ===== verification/Table_Get.thy ===== *)
theory Table_Get
  imports Table_Read
begin

section \<open>Looking up a key in a table\<close>

text \<open>
  \<open>InternalGet\<close> calls \<open>saver\<close> with the first pair whose key is not before the target, or not at all; and it does
  call it where no entry of the index stands between the target and that key and the filter does not tell
  the two apart.
\<close>

context key_order
begin

lemma filter_answer:
  assumes T: "is_table opts d D idx" and t: "opened opts D idx t" and P: "policy_ok opts valid fsize"
    and k: "valid k" and j: "j < length D"
  shows "\<exists>absent. (case t_filter t of None \<Rightarrow> Inr False
     | Some fr \<Rightarrow>
         bind_res (BlockHandle_DecodeFrom (snd (idx ! j)) new_BlockHandle) (\<lambda>(st, handle, _).
         if ok st then
           bind_res (deref (options_filter_policy (t_options t))) (\<lambda>policy.
           bind_res (filter_key_may_match policy fr (bh_offset handle) k) (\<lambda>may. Inr (\<not> may)))
         else Inr False)) = Inr absent \<and>
    (\<forall>k' \<in> fst ` set (snd (D ! j)). (\<forall>p f. options_filter_policy opts = Some p \<longrightarrow>
       KeyMayMatch p k' f = Inr True \<longrightarrow> KeyMayMatch p k f = Inr True) \<longrightarrow> \<not> absent)"
proof (cases "options_filter_policy opts")
  case None
  then have "t_filter t = None" using t by (simp add: opened_def)
  then show ?thesis by (intro exI [of _ False]) simp
next
  case (Some p)
  then obtain segs where f: "t_filter t = Some (filter_reader segs)" "filters_hold p segs D" "t_options t = opts"
    using t by (auto simp: opened_def)
  let ?h = "fst (D ! j)"
  let ?i = "unat (bh_offset ?h) div kFilterBase"
  have m: "(?h, snd (D ! j)) \<in> set D" using j by simp
  then have "\<forall>k' \<in> fst ` set (snd (D ! j)). ?i < length segs \<and> KeyMayMatch p k' (segs ! ?i) = Inr True"
    using f(2) unfolding filters_hold_def by fastforce
  moreover have "snd (D ! j) \<noteq> []" by (rule blocks_inD(1) [OF is_tableD(2) [OF T] m])
  ultimately have i: "?i < length segs" "\<And>k'. k' \<in> fst ` set (snd (D ! j)) \<Longrightarrow> KeyMayMatch p k' (segs ! ?i) = Inr True"
    by (auto simp: neq_Nil_conv)
  have C: "filter_contract p valid" using P Some by (simp add: policy_ok_def)
  then obtain r where r: "KeyMayMatch p k (segs ! ?i) = Inr r"
    using filter_contract.match_total k by blast
  have len: "length (filter_block segs) < 2 ^ 32" using f(2) by (simp add: filters_hold_def)
  have "filter_key_may_match p (filter_reader segs) (bh_offset ?h) k = Inr r"
    using filter_contract.reader_match [OF C len i(1)] r by simp
  moreover have "r" if "k' \<in> fst ` set (snd (D ! j))"
      "\<forall>p f. options_filter_policy opts = Some p \<longrightarrow> KeyMayMatch p k' f = Inr True \<longrightarrow> KeyMayMatch p k f = Inr True" for k'
    using i(2) [OF that(1)] that(2) Some r by auto
  ultimately show ?thesis
    using f(1,3) Some by (auto simp: handle_of_index [OF T j] deref_def)
qed

lemma InternalGet_opened:
  assumes R: "random_file rf winv wcontents" "port_crc_ok acc" and s: "winv s" and T: "is_table opts (wcontents s) D idx"
    and cmp: "options_comparator opts = cmp" and t: "opened opts D idx t" and P: "policy_ok opts valid fsize" and k: "valid k"
    and kvs: "concat (map snd D) = kvs" and p: "p = rank before k kvs"
  shows "\<exists>x. InternalGet acc rf t ro s k saver arg = Inr (OK, x) \<and>
    (x = arg \<or> p < length kvs \<and> x = saver (fst (kvs ! p)) (snd (kvs ! p)) arg) \<and>
    (p < length kvs \<and> (\<forall>i < length idx. before (fst (idx ! i)) (fst (kvs ! p)) \<longrightarrow> before (fst (idx ! i)) k) \<and>
       (\<forall>pl f. options_filter_policy opts = Some pl \<longrightarrow>
          KeyMayMatch pl (fst (kvs ! p)) f = Inr True \<longrightarrow> KeyMayMatch pl k f = Inr True) \<longrightarrow>
       x = saver (fst (kvs ! p)) (snd (kvs ! p)) arg)"
proof -
  let ?f = "\<lambda>v. bind_res (BlockReader acc rf t ro s v) (\<lambda>a. Inr (Some a))"
  let ?n = "length (b_data (t_index_block t)) + 2" and ?Bs = "map snd D"
  obtain a where a: "Block_NewIterator (t_index_block t) cmp = Inr a" "block_at idx (length idx) a" "t_options t = opts"
    "length idx + 2 \<le> ?n"
    using t by (auto simp: opened_def)
  have bl: "levels.blocks_of ?f ?n idx ?Bs" by (rule table_blocks_of [OF R s T cmp a(3,4)])
  have inc: "increasing (map fst idx)" using blocks.at_increasing [OF a(2)] by simp
  have len: "length idx = length ?Bs" using is_tableD(5) [OF T] by simp
  define j where "j = rank before k idx"
  have jl: "j \<le> length idx" by (simp add: j_def rank_def)
  obtain a' where a': "it_Seek block_iterator k a = Inr a'" "block_at idx j a'"
    using blocks.at_Seek [OF a(2) k] by (auto simp: j_def)
  have pos: "p = block_off ?Bs j + (if j < length idx then rank before k (?Bs ! j) else 0)"
    using levels.rank_concat [OF bl inc k] by (simp add: p kvs j_def)
  note V = blocks.at_Valid [OF a'(2)] and st = blocks.at_status [OF a'(2)]
  show ?thesis
  proof (cases "j < length idx")
    case False
    then have "p = length kvs" using pos jl len kvs by (simp add: block_off_end)
    then show ?thesis using a(1,3) a'(1) V st False cmp by (simp add: InternalGet_def)
  next
    case True
    then have jD: "j < length D" using len by simp
    let ?q = "rank before k (?Bs ! j)"
    have hv: "it_value block_iterator a' = Inr (snd (idx ! j))" using blocks.at_value [OF a'(2) True] .
    obtain absent where ab: "(case t_filter t of None \<Rightarrow> Inr False
       | Some fr \<Rightarrow>
           bind_res (BlockHandle_DecodeFrom (snd (idx ! j)) new_BlockHandle) (\<lambda>(st, handle, _).
           if ok st then
             bind_res (deref (options_filter_policy (t_options t))) (\<lambda>policy.
             bind_res (filter_key_may_match policy fr (bh_offset handle) k) (\<lambda>may. Inr (\<not> may)))
           else Inr False)) = Inr absent"
      "\<forall>k' \<in> fst ` set (snd (D ! j)). (\<forall>p f. options_filter_policy opts = Some p \<longrightarrow>
         KeyMayMatch p k' f = Inr True \<longrightarrow> KeyMayMatch p k f = Inr True) \<longrightarrow> \<not> absent"
      using filter_answer [OF T t P k jD] by blast
    have "(fst (D ! j), snd (D ! j)) \<in> set D" using jD by simp
    from BlockReader_opened [OF R s T cmp a(3) this, of ro] obtain b where
      b: "BlockReader acc rf t ro s (snd (idx ! j)) = Inr b" "block_at (?Bs ! j) (length (?Bs ! j)) b"
      using jD by (auto simp: handle_of_index [OF T jD])
    obtain b' where b': "it_Seek block_iterator k b = Inr b'" "block_at (?Bs ! j) ?q b'"
      using blocks.at_Seek [OF b(2) k] by blast
    note Vb = blocks.at_Valid [OF b'(2)] and sb = blocks.at_status [OF b'(2)]
    have get: "InternalGet acc rf t ro s k saver arg = Inr (OK, if absent then arg
        else if ?q < length (?Bs ! j) then saver (fst (?Bs ! j ! ?q)) (snd (?Bs ! j ! ?q)) arg else arg)"
      using a(1,3) a'(1) V st True cmp hv ab(1) b(1) b'(1) Vb sb blocks.at_key [OF b'(2)] blocks.at_value [OF b'(2)]
      by (simp add: InternalGet_def)
    show ?thesis
    proof (cases "?q < length (?Bs ! j)")
      case q: True
      have pk: "p = block_off ?Bs j + ?q" using pos True by simp
      have e: "kvs ! p = ?Bs ! j ! ?q" unfolding pk kvs [symmetric] by (rule concat_nth) (use True len q in simp_all)
      have pl: "p < length kvs" unfolding pk kvs [symmetric] by (rule block_off_less) (use True len q in simp_all)
      have "kvs ! p \<in> set (snd (D ! j))" unfolding e using q jD by simp
      then have "fst (kvs ! p) \<in> fst ` set (snd (D ! j))" by simp
      note may = bspec [OF ab(2) this]
      have "InternalGet acc rf t ro s k saver arg = Inr (OK, if absent then arg else saver (fst (kvs ! p)) (snd (kvs ! p)) arg)"
        using get q unfolding e by simp
      then show ?thesis using may pl by (cases absent) auto
    next
      case q: False
      then have qe: "?q = length (?Bs ! j)" using len True by (simp add: rank_def le_antisym)
      have pe: "p = block_off ?Bs (Suc j)" using pos qe True len by (simp add: block_off_Suc)
      have far: "\<not> (\<forall>i < length idx. before (fst (idx ! i)) (fst (kvs ! p)) \<longrightarrow> before (fst (idx ! i)) k)" if pl: "p < length kvs"
      proof -
        have sj: "Suc j < length ?Bs"
        proof (rule ccontr)
          assume "\<not> Suc j < length ?Bs"
          then show False using pl pe kvs by (simp add: block_off_end)
        qed
        have "(fst (D ! Suc j), snd (D ! Suc j)) \<in> set D" using sj by simp
        from blocks_inD(1) [OF is_tableD(2) [OF T] this] have ne: "?Bs ! Suc j \<noteq> []" using sj by simp
        then have "kvs ! p = ?Bs ! Suc j ! 0" using concat_nth [OF sj, of 0] pe kvs by simp
        then have "fst (kvs ! p) \<in> fst ` set (?Bs ! Suc j)" using ne by simp
        then have "before (fst (idx ! j)) (fst (kvs ! p))"
          using separatesD(3) [OF is_tableD(3) [OF T] sj _ _, of j] True by simp
        moreover have "\<not> before (fst (idx ! j)) k"
          using count_keys_nth [OF inc downward_before [OF k] True] by (simp add: j_def rank_count)
        ultimately show ?thesis using True by blast
      qed
      then show ?thesis using get q by auto
    qed
  qed
qed

text \<open>
  An entry of the index that stands before the key that a seek finds stands before the target too, or it is the
  separator of two keys of which the first one is before the target and the second not behind the found key.
\<close>

lemma index_before_found:
  assumes T: "is_table opts d D idx" and idx: "increasing (map fst idx)" and k: "valid k" and kvs: "concat (map snd D) = kvs"
    and p: "p = rank before k kvs" "p < length kvs" and i: "i < length idx" "before (fst (idx ! i)) (fst (kvs ! p))"
  shows "\<exists>a b. FindShortestSeparator cmp a b = Inr (fst (idx ! i)) \<and> valid a \<and> valid b \<and> before a b \<and> before a k \<and>
    (b = fst (kvs ! p) \<or> before b (fst (kvs ! p)))"
proof -
  let ?Bs = "map snd D" and ?K = "fst (kvs ! p)"
  note len = is_tableD(5) [OF T] and sep = is_tableD(3) [OF T] and inc = is_tableD(7) [OF T, unfolded kvs]
  have nonempty: "?Bs ! n \<noteq> []" if "n < length D" for n
    using blocks_inD(1) [OF is_tableD(2) [OF T], of "fst (D ! n)" "snd (D ! n)"] that by simp
  have in_kvs: "x \<in> set kvs" if "n < length D" "x \<in> set (?Bs ! n)" for n x
    using that unfolding kvs [symmetric] by (auto intro!: bexI [of _ "D ! n"])
  have valid: "valid (fst x)" if "x \<in> set kvs" for x using inc that by (simp add: increasing_def)
  have vidx: "valid (fst (idx ! n))" if "n < length idx" for n by (rule increasing_nth(1) [OF idx that])
  have vK: "valid ?K" using valid p(2) by simp
  have "kvs ! p \<in> set (concat ?Bs)" using p(2) kvs by simp
  then obtain e where "e \<in> set D" "kvs ! p \<in> set (snd e)" by auto
  then obtain j where j: "j < length D" "kvs ! p \<in> set (?Bs ! j)" by (metis in_set_conv_nth nth_map)
  then have jK: "?K \<in> fst ` set (?Bs ! j)" by simp
  have upto: "?K = fst (idx ! j) \<or> before ?K (fst (idx ! j))" using separatesD(2) [OF sep _ jK] j(1) len by simp
  have ij: "i < j"
  proof (rule ccontr)
    assume "\<not> i < j"
    then have "j = i \<or> before (fst (idx ! j)) (fst (idx ! i))" using increasing_nth(2) [OF idx _ i(1), of j] by (cases "j < i") auto
    then have "before ?K (fst (idx ! i)) \<or> ?K = fst (idx ! i)"
      using upto before_trans [OF vK vidx vidx, of j i] i(1) j(1) len by auto
    then show False using before_asym [OF vidx [OF i(1)] vK i(2)] i(2) before_irrefl [OF vK] by auto
  qed
  then have sj: "Suc i < length D" using j(1) by simp
  let ?a = "fst (last (?Bs ! i))" and ?b = "fst (hd (?Bs ! Suc i))"
  have la: "last (?Bs ! i) \<in> set (?Bs ! i)" and hb: "hd (?Bs ! Suc i) \<in> set (?Bs ! Suc i)"
    using nonempty [of i] nonempty [of "Suc i"] sj by (auto intro: last_in_set hd_in_set)
  then have va: "valid ?a" and vb: "valid ?b" and ak: "last (?Bs ! i) \<in> set kvs"
    using valid in_kvs [OF _ la] in_kvs [OF sj hb] sj by auto
  have a1: "?a = fst (idx ! i) \<or> before ?a (fst (idx ! i))" using separatesD(2) [OF sep i(1)] la by auto
  have b1: "before (fst (idx ! i)) ?b" using separatesD(3) [OF sep _ i(1), of "Suc i"] sj hb by auto
  have ab: "before ?a ?b" using a1 b1 before_trans [OF va vidx [OF i(1)] vb] by auto
  have aK: "before ?a ?K" using a1 i(2) before_trans [OF va vidx [OF i(1)] vK] by auto
  obtain q where q: "q < length kvs" "kvs ! q = last (?Bs ! i)" using ak by (auto simp: in_set_conv_nth)
  have "q < p"
  proof (rule ccontr)
    assume "\<not> q < p"
    then have "?K = ?a \<or> before ?K ?a" using increasing_nth(2) [OF inc _ q(1), of p] q(2) by (cases "p = q") auto
    then show False using before_asym [OF va vK aK] aK before_irrefl [OF vK] by auto
  qed
  then have "before ?a k" using count_keys_nth [OF inc downward_before [OF k] q(1)] p(1) q(2) by (simp add: rank_count)
  moreover have "?b = ?K \<or> before ?b ?K"
  proof (cases "Suc i = j")
    case True
    then obtain y ys where y: "?Bs ! j = y # ys" using nonempty [OF j(1)] by (cases "?Bs ! j") auto
    have "concat ?Bs = concat (take j ?Bs) @ (?Bs ! j) @ concat (drop (Suc j) ?Bs)" by (rule concat_split) (use j(1) in simp)
    then have "sorted_wrt before (map fst (?Bs ! j))" using inc kvs by (simp add: increasing_def sorted_wrt_append)
    then show ?thesis using j(2) True y by auto
  next
    case False
    have "?b = fst (idx ! Suc i) \<or> before ?b (fst (idx ! Suc i))" using separatesD(2) [OF sep _, of "Suc i"] hb sj len by auto
    moreover have "before (fst (idx ! Suc i)) ?K" using separatesD(3) [OF sep _ _ _ jK, of "Suc i"] False ij j(1) len by simp
    ultimately show ?thesis using before_trans [OF vb vidx vK, of "Suc i"] sj len by auto
  qed
  moreover have "FindShortestSeparator cmp ?a ?b = Inr (fst (idx ! i))"
    using separatorsD [OF is_tableD(4) [OF T] i(1), of] sj nonempty [OF sj] by simp
  ultimately show ?thesis using va vb ab by blast
qed

end

end
