(* ===== verification/Entries.thy ===== *)
theory Entries
  imports Iterators
begin

section \<open>Entries\<close>

text \<open>
  Lists of internal keys with their values, in the order of internal keys: which entry a lookup at a sequence
  number is to find, and which entries an iterator over user keys is to show.
\<close>

type_synonym entries = "(ParsedInternalKey \<times> slice) list"

definition entry_key :: "ParsedInternalKey \<Rightarrow> slice" where
  "entry_key k = internal_key (user_key k) (push_bit 8 (sequence k) OR type_code (key_type k))"

definition entry_pairs :: "entries \<Rightarrow> (slice \<times> slice) list" where
  "entry_pairs es = map (\<lambda>(k, v). (entry_key k, v)) es"

definition visible :: "slice \<Rightarrow> SequenceNumber \<Rightarrow> ParsedInternalKey \<times> slice \<Rightarrow> bool" where
  "visible u s = (\<lambda>(k, v). user_key k = u \<and> sequence k \<le> s)"

definition good_entries :: "entries \<Rightarrow> bool" where
  "good_entries es \<longleftrightarrow> (\<forall>(k, v) \<in> set es. sequence k \<le> kMaxSequenceNumber) \<and>
     sorted_wrt internal_before (map fst (entry_pairs es))"

lemma entry_before_target:
  assumes "sequence k \<le> kMaxSequenceNumber" and "s \<le> kMaxSequenceNumber"
  shows "internal_before (entry_key k) (internal_key u (push_bit 8 s OR type_code kTypeValue)) \<longleftrightarrow>
    user_key k < u \<or> user_key k = u \<and> s < sequence k"
  using tag_newer [OF assms(2,1), of "key_type k"] by (simp add: entry_key_def)

definition passed :: "slice \<Rightarrow> SequenceNumber \<Rightarrow> ParsedInternalKey \<times> slice \<Rightarrow> bool" where
  "passed u s e \<longleftrightarrow> user_key (fst e) < u \<or> user_key (fst e) = u \<and> s < sequence (fst e)"

lemma rank_entries:
  assumes "good_entries es" and "s \<le> kMaxSequenceNumber"
  shows "rank internal_before (internal_key u (push_bit 8 s OR type_code kTypeValue)) (entry_pairs es) =
    length (filter (passed u s) es)"
proof -
  let ?t = "internal_key u (push_bit 8 s OR type_code kTypeValue)"
  have "filter (\<lambda>e. internal_before (entry_key (fst e)) ?t) es = filter (passed u s) es"
    using assms by (intro filter_cong) (auto simp: good_entries_def entry_before_target passed_def)
  then show ?thesis by (simp add: rank_def entry_pairs_def filter_map comp_def case_prod_unfold)
qed

text \<open>The first entry that is not before the target is the one the lookup is to find, or none is.\<close>

lemma later_entry:
  assumes "good_entries (e # es)" and "e' \<in> set es"
  shows "user_key (fst e) < user_key (fst e') \<or> user_key (fst e) = user_key (fst e') \<and> sequence (fst e') \<le> sequence (fst e)"
proof -
  obtain k v k' v' where e: "e = (k, v)" "e' = (k', v')" by fastforce
  have "sequence k \<le> kMaxSequenceNumber" "sequence k' \<le> kMaxSequenceNumber"
    using assms e by (auto simp: good_entries_def)
  from tag_less [OF this, of "key_type k" "key_type k'"] show ?thesis
    using assms e by (fastforce simp: good_entries_def entry_pairs_def entry_key_def not_less)
qed

lemma find_visible:
  assumes "good_entries es"
  shows "find (visible u s) es = (let p = length (filter (passed u s) es) in
    if p < length es \<and> user_key (fst (es ! p)) = u then Some (es ! p) else None)"
  using assms
proof (induction es)
  case (Cons e es)
  have g: "good_entries es" using Cons.prems by (simp add: good_entries_def entry_pairs_def)
  show ?case
  proof (cases "passed u s e")
    case True
    then have "\<not> visible u s e" by (auto simp: passed_def visible_def case_prod_unfold)
    then show ?thesis using Cons.IH [OF g] True by (simp add: Let_def)
  next
    case False
    have "\<not> passed u s e'" "user_key (fst e) \<noteq> u \<Longrightarrow> \<not> visible u s e'" if "e' \<in> set es" for e'
      using later_entry [OF Cons.prems that] False by (auto simp: passed_def visible_def case_prod_unfold)
    then have "filter (passed u s) es = []" "user_key (fst e) \<noteq> u \<Longrightarrow> find (visible u s) es = None"
      by (auto simp: filter_empty_conv find_None_iff)
    moreover have "visible u s e \<longleftrightarrow> user_key (fst e) = u"
      using False by (auto simp: passed_def visible_def case_prod_unfold)
    ultimately show ?thesis using False by (simp add: Let_def)
  qed
qed simp

subsection \<open>What a user sees\<close>

definition seen :: "SequenceNumber \<Rightarrow> entries \<Rightarrow> nat \<Rightarrow> bool" where
  "seen s es j \<longleftrightarrow> j < length es \<and> sequence (fst (es ! j)) \<le> s"

abbreviation ukey :: "entries \<Rightarrow> nat \<Rightarrow> slice" where
  "ukey es j \<equiv> user_key (fst (es ! j))"

text \<open>An entry is shown where it is the newest one of its key that is visible, and a value.\<close>

definition shown :: "SequenceNumber \<Rightarrow> entries \<Rightarrow> nat \<Rightarrow> bool" where
  "shown s es j \<longleftrightarrow> seen s es j \<and> key_type (fst (es ! j)) = kTypeValue \<and> (\<forall>i < j. ukey es i = ukey es j \<longrightarrow> \<not> seen s es i)"

definition shown_before :: "SequenceNumber \<Rightarrow> entries \<Rightarrow> nat \<Rightarrow> nat" where
  "shown_before s es n = length (filter (shown s es) [0..<n])"

definition user_view :: "SequenceNumber \<Rightarrow> entries \<Rightarrow> (slice \<times> slice) list" where
  "user_view s es = map (\<lambda>j. (ukey es j, snd (es ! j))) (filter (shown s es) [0..<length es])"

lemma length_user_view: "length (user_view s es) = shown_before s es (length es)"
  by (simp add: user_view_def shown_before_def)

lemma shown_before_Suc [simp]: "shown_before s es 0 = 0"
  "shown_before s es (Suc n) = shown_before s es n + (if shown s es n then 1 else 0)"
  by (simp_all add: shown_before_def)

lemma shown_less: "shown s es j \<Longrightarrow> j < length es"
  by (simp add: shown_def seen_def)

lemma shown_before_mono: "m \<le> n \<Longrightarrow> shown_before s es m \<le> shown_before s es n"
  by (induction n) (auto simp: le_Suc_eq)

lemma user_view_nth:
  assumes "shown s es j"
  shows "shown_before s es j < length (user_view s es)" and "user_view s es ! shown_before s es j = (ukey es j, snd (es ! j))"
proof -
  have j: "j < length es" using assms by (rule shown_less)
  then have "[0..<length es] = [0..<j] @ j # [Suc j..<length es]"
    by (metis upt_conv_Cons upt_add_eq_append le_add_diff_inverse less_imp_le zero_le)
  then have f: "filter (shown s es) [0..<length es] = filter (shown s es) [0..<j] @ j # filter (shown s es) [Suc j..<length es]"
    using assms by simp
  show "shown_before s es j < length (user_view s es)" by (simp add: user_view_def shown_before_def f)
  show "user_view s es ! shown_before s es j = (ukey es j, snd (es ! j))"
    by (simp add: user_view_def shown_before_def f nth_append)
qed

text \<open>No entry is shown from \<open>m\<close> to \<open>n\<close>.\<close>

lemma shown_before_same: "m \<le> n \<Longrightarrow> (\<And>j. m \<le> j \<Longrightarrow> j < n \<Longrightarrow> \<not> shown s es j) \<Longrightarrow> shown_before s es n = shown_before s es m"
proof (induction n)
  case (Suc n)
  then show ?case by (cases "m = Suc n") auto
qed simp

lemma ukey_mono: "good_entries es \<Longrightarrow> i \<le> j \<Longrightarrow> j < length es \<Longrightarrow> ukey es i \<le> ukey es j"
proof (induction es arbitrary: i j)
  case (Cons e es)
  have g: "good_entries es" using Cons.prems(1) by (simp add: good_entries_def entry_pairs_def)
  show ?case
  proof (cases i)
    case 0
    then show ?thesis using later_entry [OF Cons.prems(1), of "es ! (j - 1)"] Cons.prems(2,3) by (cases j) auto
  next
    case (Suc i')
    then show ?thesis using Cons.IH [OF g, of i' "j - 1"] Cons.prems(2,3) by (cases j) auto
  qed
qed simp

end
