(* ===== verification/Table_Roundtrip.thy ===== *)
theory Table_Roundtrip
  imports Table_Get Entries
begin

section \<open>Tables of user keys and of internal keys\<close>

text \<open>
  The contracts that the tables need, for the bytewise comparator, the comparator of internal keys and the
  Bloom filters: separators are not longer than the keys, and filters are small. Then what the builder
  writes is read back by an iterator and by \<open>InternalGet\<close>.
\<close>

subsection \<open>The comparators\<close>

lemma bytewise_separator_length: "bytewise_separator a b = Inr s \<Longrightarrow> length s \<le> length a"
  by (auto simp: bytewise_separator_def Let_def res_simps split: if_splits)

lemma bytewise_lengths_ok: "bytewise.contract_ok"
  unfolding bytewise.contract_ok_def using bytewise_successor_above bytewise_separator_length
  by (auto simp: BytewiseComparator_def)

lemma ExtractUserKey_length: "ExtractUserKey k = Inr u \<Longrightarrow> length u + 8 = length k"
  by (auto simp: ExtractUserKey_def res_simps)

lemma internal_separator_length:
  assumes "internal_separator c a b = Inr s"
  shows "length s \<le> length a"
proof -
  obtain ua where "ExtractUserKey a = Inr ua" using assms by (auto simp: internal_separator_def res_simps)
  with assms ExtractUserKey_length [OF this] show ?thesis
    by (auto simp: internal_separator_def res_simps Let_def PutFixed64_def split: if_splits)
qed

lemma internal_successor_length:
  assumes "internal_successor c a = Inr s"
  shows "length s \<le> length a"
proof -
  obtain ua where "ExtractUserKey a = Inr ua" using assms by (auto simp: internal_successor_def res_simps)
  with assms ExtractUserKey_length [OF this] show ?thesis
    by (auto simp: internal_successor_def res_simps Let_def PutFixed64_def split: if_splits)
qed

lemma internal_lengths_ok: "internal.contract_ok"
  unfolding internal.contract_ok_def using internal_separator_length internal_successor_length
  by (auto simp: InternalKeyComparator_def)

subsection \<open>The filters\<close>

lemma bloom_set_length: "bloom_set bits delta j h arr = Inr arr' \<Longrightarrow> length arr' = length arr"
  by (induction bits delta j h arr rule: bloom_set.induct) (auto simp: Let_def res_simps vec_set_def split: if_splits)

lemma bloom_add_length: "bloom_add bits k keys arr = Inr arr' \<Longrightarrow> length arr' = length arr"
  by (induction keys arbitrary: arr) (auto simp: Let_def res_simps dest: bloom_set_length)

lemma bloom_small: "small_filters (b + 9) (NewBloomFilterPolicy b)"
  unfolding small_filters_def
proof (intro allI impI)
  fix ks dst r assume "CreateFilter (NewBloomFilterPolicy b) ks dst = Inr r"
  then have c: "bloom_create b ks dst = Inr r" by (simp add: NewBloomFilterPolicy_def)
  define bits where "bits = (if length ks * b < 64 then 64 else length ks * b)"
  have "length r = length dst + (bits + 7) div 8 + 1"
    using c by (auto simp: bloom_create_def Let_def res_simps bits_def split: if_splits dest: bloom_add_length)
  moreover have "(bits + 7) div 8 + 1 \<le> 9 + length ks * b" unfolding bits_def by (cases "length ks * b < 64") auto
  moreover have "9 + length ks * b \<le> (b + 9) * Suc (length ks)" by (simp add: algebra_simps)
  ultimately show "length r \<le> length dst + (b + 9) * Suc (length ks)" by linarith
qed

lemma extract_user_keys_length: "extract_user_keys ks = Inr us \<Longrightarrow> length us = length ks"
  by (induction ks arbitrary: us) (auto simp: res_simps)

lemma internal_bloom_small: "small_filters (b + 9) (InternalFilterPolicy (NewBloomFilterPolicy b))"
  using bloom_small [of b] unfolding small_filters_def
  by (auto simp: InternalFilterPolicy_def res_simps dest!: extract_user_keys_length) (metis extract_user_keys_length)

subsection \<open>The value of a lookup\<close>

text \<open>
  \<open>SaveValue\<close> of \<open>db/version_set.cc\<close>, the function \<open>InternalGet\<close> calls with the pair it has found; the value is
  \<open>None\<close> where the caller asked for none.
\<close>

datatype SaverState = kNotFound | kFound | kDeleted | kCorrupt

record Saver =
  sv_state :: SaverState
  sv_ucmp :: comparator
  sv_user_key :: slice
  sv_value :: "slice option"

definition SaveValue :: "slice \<Rightarrow> slice \<Rightarrow> Saver \<Rightarrow> Saver res" where
  "SaveValue ikey v s =
     bind_res (ParseInternalKey ikey) (\<lambda>parsed.
       case parsed of None \<Rightarrow> Inr (s\<lparr>sv_state := kCorrupt\<rparr>)
       | Some parsed_key \<Rightarrow>
           bind_res (Compare (sv_ucmp s) (user_key parsed_key) (sv_user_key s)) (\<lambda>c.
           if c = 0 then
             let s = s\<lparr>sv_state := (if key_type parsed_key = kTypeValue then kFound else kDeleted)\<rparr> in
             Inr (if sv_state s = kFound then s\<lparr>sv_value := map_option (\<lambda>_. v) (sv_value s)\<rparr> else s)
           else Inr s))"

text \<open>What a lookup of \<open>u\<close> at \<open>s\<close> is to find among the entries of a table.\<close>

definition lookup_result :: "slice \<Rightarrow> SequenceNumber \<Rightarrow> entries \<Rightarrow> slice option \<Rightarrow> Saver" where
  "lookup_result u s es v0 =
     (case find (visible u s) es of
        None \<Rightarrow> \<lparr>sv_state = kNotFound, sv_ucmp = BytewiseComparator, sv_user_key = u, sv_value = v0\<rparr>
      | Some (k, v) \<Rightarrow>
          if key_type k = kTypeValue
          then \<lparr>sv_state = kFound, sv_ucmp = BytewiseComparator, sv_user_key = u, sv_value = map_option (\<lambda>_. v) v0\<rparr>
          else \<lparr>sv_state = kDeleted, sv_ucmp = BytewiseComparator, sv_user_key = u, sv_value = v0\<rparr>)"

subsection \<open>A lookup in an opened table\<close>

lemma new_LookupKey_internal:
  assumes "s \<le> kMaxSequenceNumber"
  shows "\<exists>lk. new_LookupKey u s = Inr lk \<and> lookup_internal_key lk = internal_key u (push_bit 8 s OR type_code kTypeValue)"
  using assms by (simp add: new_LookupKey_def Pack_ok Let_def kValueTypeForSeek_def lookup_internal_key_def internal_key_def)

lemma SaveValue_entry:
  assumes "sequence k \<le> kMaxSequenceNumber"
  shows "SaveValue (entry_key k) v \<lparr>sv_state = kNotFound, sv_ucmp = BytewiseComparator, sv_user_key = u, sv_value = v0\<rparr> =
    Inr (if user_key k = u then
        (if key_type k = kTypeValue
         then \<lparr>sv_state = kFound, sv_ucmp = BytewiseComparator, sv_user_key = u, sv_value = map_option (\<lambda>_. v) v0\<rparr>
         else \<lparr>sv_state = kDeleted, sv_ucmp = BytewiseComparator, sv_user_key = u, sv_value = v0\<rparr>)
      else \<lparr>sv_state = kNotFound, sv_ucmp = BytewiseComparator, sv_user_key = u, sv_value = v0\<rparr>)"
  using ParseInternalKey_internal [OF assms] by (auto simp: SaveValue_def entry_key_def slice_compare_order Let_def)

text \<open>
  The index never hides an entry of the user key: a separator that the comparator has shortened belongs to
  a user key strictly between those of two blocks.
\<close>

lemma index_keeps_user_key:
  assumes "FindShortestSeparator (InternalKeyComparator BytewiseComparator) a b = Inr sep" and "internal_valid a" and "internal_valid b"
    and "internal_before a b" and "internal_before a (internal_key u t)"
    and "b = internal_key u t' \<or> internal_before b (internal_key u t')"
  shows "internal_before sep (internal_key u t)"
proof -
  obtain ua ta ub tb where ab: "a = internal_key ua ta" "b = internal_key ub tb" using assms(2,3) by (auto simp: internal_valid_iff)
  then obtain w r where w: "internal_separator BytewiseComparator a b = Inr (internal_key w r)" "w = ua \<and> r = ta \<or> ua < w \<and> w < ub"
    using internal_separator_key [of ua ub tb ta] assms(4) by auto
  then have sep: "sep = internal_key w r" using assms(1) by (simp add: InternalKeyComparator_def)
  show ?thesis using w(2)
  proof
    assume "w = ua \<and> r = ta"
    then show ?thesis using assms(5) by (simp add: sep ab)
  next
    assume "ua < w \<and> w < ub"
    then show ?thesis using assms(6) by (auto simp: sep ab)
  qed
qed

lemma InternalGet_entries:
  assumes R: "random_file rf winv wcontents" "port_crc_ok acc" and st: "winv st"
    and T: "internal.is_table opts (wcontents st) D idx" and cmp: "options_comparator opts = InternalKeyComparator BytewiseComparator"
    and t: "internal.opened opts D idx t"
    and P: "options_filter_policy opts \<in> {None, Some (InternalFilterPolicy (NewBloomFilterPolicy b))}"
    and kvs: "concat (map snd D) = entry_pairs es" and es: "good_entries es" and s: "s \<le> kMaxSequenceNumber"
  shows "InternalGet acc rf t ro st (internal_key u (push_bit 8 s OR type_code kTypeValue)) (\<lambda>k v sv. bind_res sv (SaveValue k v))
      (Inr \<lparr>sv_state = kNotFound, sv_ucmp = BytewiseComparator, sv_user_key = u, sv_value = v0\<rparr>) =
    Inr (OK, Inr (lookup_result u s es v0))"
proof -
  let ?k = "internal_key u (push_bit 8 s OR type_code kTypeValue)" and ?kvs = "entry_pairs es"
  let ?sv = "\<lparr>sv_state = kNotFound, sv_ucmp = BytewiseComparator, sv_user_key = u, sv_value = v0\<rparr>"
  let ?saver = "\<lambda>k v sv. bind_res sv (SaveValue k v)"
  define p where "p = length (filter (passed u s) es)"
  have rank: "p = rank internal_before ?k ?kvs" using rank_entries [OF es s] by (simp add: p_def)
  have v: "internal_valid ?k" by (simp add: internal_valid_def)
  have pol: "policy_ok opts internal_valid (b + 9)"
    using P internal_bloom.filter_contract_axioms internal_bloom_small by (auto simp: policy_ok_def)
  have len: "length ?kvs = length es" by (simp add: entry_pairs_def)
  obtain x where x: "InternalGet acc rf t ro st ?k ?saver (Inr ?sv) = Inr (OK, x)"
    "x = Inr ?sv \<or> p < length ?kvs \<and> x = ?saver (fst (?kvs ! p)) (snd (?kvs ! p)) (Inr ?sv)"
    "p < length ?kvs \<and> (\<forall>i < length idx. internal_before (fst (idx ! i)) (fst (?kvs ! p)) \<longrightarrow> internal_before (fst (idx ! i)) ?k) \<and>
       (\<forall>pl f. options_filter_policy opts = Some pl \<longrightarrow>
          KeyMayMatch pl (fst (?kvs ! p)) f = Inr True \<longrightarrow> KeyMayMatch pl ?k f = Inr True) \<longrightarrow>
     x = ?saver (fst (?kvs ! p)) (snd (?kvs ! p)) (Inr ?sv)"
    using internal.InternalGet_opened [OF R st T cmp t pol v kvs rank, of ro ?saver "Inr ?sv"] by blast
  note res = lookup_result_def [of u s es v0] find_visible [OF es, of u s, folded p_def]
  have saved: "?saver (fst (?kvs ! p)) (snd (?kvs ! p)) (Inr ?sv) = Inr (lookup_result u s es v0)" if p: "p < length es"
  proof -
    obtain k v where e: "es ! p = (k, v)" by fastforce
    have "sequence k \<le> kMaxSequenceNumber" using es nth_mem [OF p] by (auto simp: good_entries_def e)
    moreover have "?kvs ! p = (entry_key k, v)" using p e by (simp add: entry_pairs_def)
    ultimately show ?thesis using SaveValue_entry [of k v u v0] p e by (simp add: res)
  qed
  show ?thesis
  proof (cases "p < length es \<and> user_key (fst (es ! p)) = u")
    case False
    then have "lookup_result u s es v0 = ?sv" unfolding res by (auto simp: Let_def)
    then show ?thesis using x(1,2) saved len by auto
  next
    case True
    obtain tag where K: "fst (?kvs ! p) = internal_key u tag" using True by (auto simp: entry_pairs_def entry_key_def case_prod_unfold)
    have "internal.increasing (map fst idx)"
      using internal.is_tableD(8) [OF T] internal.block_holds_increasing by blast
    note before = internal.index_before_found [OF T this v kvs rank]
    have b: "\<forall>i < length idx. internal_before (fst (idx ! i)) (fst (?kvs ! p)) \<longrightarrow> internal_before (fst (idx ! i)) ?k"
    proof (intro allI impI)
      fix i assume i: "i < length idx" "internal_before (fst (idx ! i)) (fst (?kvs ! p))"
      have "p < length ?kvs" using True len by simp
      from before [OF this i] show "internal_before (fst (idx ! i)) ?k" unfolding K using index_keeps_user_key by blast
    qed
    have m: "\<forall>pl f. options_filter_policy opts = Some pl \<longrightarrow>
        KeyMayMatch pl (fst (?kvs ! p)) f = Inr True \<longrightarrow> KeyMayMatch pl ?k f = Inr True"
      using P by (auto simp: InternalFilterPolicy_def K)
    have l: "p < length ?kvs" using True len by simp
    have "x = ?saver (fst (?kvs ! p)) (snd (?kvs ! p)) (Inr ?sv)" by (rule mp [OF x(3) conjI [OF l conjI [OF b m]]])
    then show ?thesis using x(1) saved True by simp
  qed
qed

subsection \<open>Tables that are built and opened\<close>

definition table_options :: "comparator \<Rightarrow> filter_policy \<Rightarrow> Options \<Rightarrow> bool" where
  "table_options c p opts \<longleftrightarrow> options_comparator opts = c \<and> options_filter_policy opts \<in> {None, Some p} \<and>
     1 \<le> block_restart_interval opts \<and> block_restart_interval opts < 2 ^ 31 \<and> compressors_ok opts"

lemma bytewise_options:
  "table_options BytewiseComparator (NewBloomFilterPolicy b) opts \<Longrightarrow> bytewise.options_ok opts (b + 9)"
  using bytewise_lengths_ok bloom.filter_contract_axioms bloom_small
  by (auto simp: table_options_def bytewise.options_ok_def policy_ok_def)

lemma internal_options:
  "table_options (InternalKeyComparator BytewiseComparator) (InternalFilterPolicy (NewBloomFilterPolicy b)) opts \<Longrightarrow>
    internal.options_ok opts (b + 9)"
  using internal_lengths_ok internal_bloom.filter_contract_axioms internal_bloom_small
  by (auto simp: table_options_def internal.options_ok_def policy_ok_def)

context key_order
begin

lemma built_and_opened:
  assumes W: "writable_file f winv wcontents" "random_file rf winv wcontents" "port_crc_ok acc" and O: "options_ok opts fsize"
    and s: "winv s" "wcontents s = []" and kvs: "increasing (map fst kvs)" "fits opts fsize kvs"
  shows "\<exists>r s' t D idx. build_table acc f opts kvs s = Inr (OK, r, s') \<and> winv s' \<and> tb_NumEntries r = of_nat (length kvs) \<and>
    tb_FileSize r = of_nat (length (wcontents s')) \<and> Table_Open acc rf opts (tb_FileSize r) s' = Inr (OK, Some t) \<and>
    is_table opts (wcontents s') D idx \<and> opened opts D idx t \<and> concat (map snd D) = kvs"
proof -
  obtain r s' D idx where b: "build_table acc f opts kvs s = Inr (OK, r, s')" "winv s'"
    "tb_offset r = of_nat (length (wcontents s'))" "tb_num_entries r = int (length kvs)"
    "is_table opts (wcontents s') D idx" "concat (map snd D) = kvs"
    using build_table_is_table [OF W(1,3) O s kvs] by blast
  have "options_comparator opts = cmp" using O by (simp add: options_ok_def)
  from Table_Open_opened [OF W(2,3) b(2,5) this] b show ?thesis
    by (auto simp: tb_NumEntries_def tb_FileSize_def)
qed

end

text \<open>A new file of the in-memory environment.\<close>

lemma new_file_ok: "wr_inv 0 (snd (alloc new_InMemoryEnv))" "wr_contents 0 (snd (alloc new_InMemoryEnv)) = []"
proof -
  have "heap (snd (alloc new_InMemoryEnv)) 0 = Some new_FileState"
    by (simp add: alloc_def new_InMemoryEnv_def set_object_def)
  then show "wr_inv 0 (snd (alloc new_InMemoryEnv))" "wr_contents 0 (snd (alloc new_InMemoryEnv)) = []"
    using holds_contents [OF holds_new] by (auto simp: wr_inv_def wr_contents_def intro: exI [of _ "[]"])
qed

lemma crc_portable: "port_crc_ok (\<lambda>_ _. 0)"
  by (simp add: port_crc_ok_def CanAccelerateCRC32C_def kTestCRCValue_def)

subsection \<open>Properties\<close>

text \<open>
  C2: a table that \<open>TableBuilder\<close> writes from pairs in the order of their keys is read back by \<open>Table::Open\<close> and
  \<open>NewIterator\<close>: under every sequence of calls the iterator shows what a cursor over the pairs shows, whatever the file,
  the block size, the restart interval, a compressor that gets its input back, and a Bloom filter or none. The pairs are
  few enough that \<open>table_cost\<close>, a bound on the bytes the builder writes for them, is below 2^32.
\<close>

theorem table_roundtrip:
  assumes "writable_file f winv wcontents" and "random_file rf winv wcontents" and "port_crc_ok acc"
    and "table_options BytewiseComparator (NewBloomFilterPolicy b) opts" and "winv s" and "wcontents s = []"
    and "sorted_wrt (<) (map fst kvs)" and "table_cost (b + 9) opts kvs < 2 ^ 32"
  shows "\<exists>r s' t x. build_table acc f opts kvs s = Inr (OK, r, s') \<and> tb_NumEntries r = of_nat (length kvs) \<and>
    tb_FileSize r = of_nat (length (wcontents s')) \<and> Table_Open acc rf opts (tb_FileSize r) s' = Inr (OK, Some t) \<and>
    Table_NewIterator acc rf t ro s' = Inr x \<and>
    (\<forall>cs. run_ops (two_level_iterator (table_levels acc rf t ro s')) cs x = run_cursor (<) kvs cs (length kvs))"
proof -
  have O: "bytewise.options_ok opts (b + 9)" by (rule bytewise_options [OF assms(4)])
  have "bytewise.increasing (map fst kvs)" "bytewise.fits opts (b + 9) kvs"
    using assms(7,8) by (simp_all add: bytewise.increasing_def bytewise.fits_def)
  from bytewise.built_and_opened [OF assms(1-3) O assms(5,6) this] obtain r s' t D idx where
    t: "build_table acc f opts kvs s = Inr (OK, r, s')" "winv s'" "tb_NumEntries r = of_nat (length kvs)"
    "tb_FileSize r = of_nat (length (wcontents s'))" "Table_Open acc rf opts (tb_FileSize r) s' = Inr (OK, Some t)"
    "bytewise.is_table opts (wcontents s') D idx" "bytewise.opened opts D idx t" "concat (map snd D) = kvs" by blast
  have "options_comparator opts = BytewiseComparator" using assms(4) by (simp add: table_options_def)
  from bytewise.Table_NewIterator_at [OF assms(2,3) t(2,6) this t(7,8), of ro] t(1,3-5) show ?thesis by auto
qed

theorem table_roundtrip_witness:
  "let c = \<lparr>uniqueCompressionID = 2, compress = \<lambda>x dst. Inr (dst @ rev x), decompress = \<lambda>y dst. Inr (True, dst @ rev y)\<rparr>;
       opts = \<lparr>comparator_at = 0, options_comparator = BytewiseComparator, paranoid_checks = True, block_size = 1,
         block_restart_interval = 2, compressors = [Some c], options_filter_policy = Some (NewBloomFilterPolicy 10)\<rparr>;
       e = snd (alloc new_InMemoryEnv); kvs = [([], [7]), ([1], []), ([1, 2], [8, 9])] in
   \<exists>r e' t x. build_table (\<lambda>_ _. 0) (mem_writable 0) opts kvs e = Inr (OK, r, e') \<and>
     Table_Open (\<lambda>_ _. 0) (mem_random 0) opts (tb_FileSize r) e' = Inr (OK, Some t) \<and>
     Table_NewIterator (\<lambda>_ _. 0) (mem_random 0) t new_ReadOptions e' = Inr x \<and>
     run_ops (two_level_iterator (table_levels (\<lambda>_ _. 0) (mem_random 0) t new_ReadOptions e')) [Seek [1], Next, Next] x =
       Inr [Some ([1], []), Some ([1, 2], [8, 9]), None]"
proof -
  define c where "c = \<lparr>uniqueCompressionID = 2, compress = \<lambda>x dst. Inr (dst @ rev x), decompress = \<lambda>y dst. Inr (True, dst @ rev y)\<rparr>"
  define opts where "opts = \<lparr>comparator_at = 0, options_comparator = BytewiseComparator, paranoid_checks = True, block_size = 1,
    block_restart_interval = 2, compressors = [Some c], options_filter_policy = Some (NewBloomFilterPolicy 10)\<rparr>"
  define kvs where "kvs = ([([], [7]), ([1], []), ([1, 2], [8, 9])] :: (slice \<times> slice) list)"
  have "lossless c" by (simp add: lossless_def c_def)
  then have o: "table_options BytewiseComparator (NewBloomFilterPolicy 10) opts"
    by (simp add: table_options_def opts_def compressors_ok_def)
  have "sorted_wrt (<) (map fst kvs)" "table_cost (10 + 9) opts kvs < 2 ^ 32"
    by (simp_all add: kvs_def table_cost_def filter_name_length_def opts_def NewBloomFilterPolicy_def)
  from table_roundtrip [OF mem_wr.writable_file_axioms mem_ra.random_file_axioms crc_portable o new_file_ok this, of new_ReadOptions]
  obtain r s' t x where "build_table (\<lambda>_ _. 0) (mem_writable 0) opts kvs (snd (alloc new_InMemoryEnv)) = Inr (OK, r, s')"
    "Table_Open (\<lambda>_ _. 0) (mem_random 0) opts (tb_FileSize r) s' = Inr (OK, Some t)"
    "Table_NewIterator (\<lambda>_ _. 0) (mem_random 0) t new_ReadOptions s' = Inr x"
    "run_ops (two_level_iterator (table_levels (\<lambda>_ _. 0) (mem_random 0) t new_ReadOptions s')) [Seek [1], Next, Next] x =
       run_cursor (<) kvs [Seek [1], Next, Next] (length kvs)" by blast
  moreover have "run_cursor (<) kvs [Seek [1], Next, Next] (length kvs) = Inr [Some ([1], []), Some ([1, 2], [8, 9]), None]"
    by (simp add: kvs_def cursor_op_def rank_def Let_def)
  ultimately show ?thesis unfolding Let_def opts_def c_def kvs_def by metis
qed

text \<open>
  C7: a lookup of a user key at a sequence number in a table of internal keys finds the newest entry of the key that is
  not newer than that number: \<open>InternalGet\<close> with \<open>SaveValue\<close> ends with its value, or with the deletion, and where
  there is no such entry with nothing, whatever block of the table, separator of the index and filter is in between. The
  sequence number is one of 56 bits, and \<open>table_cost\<close>, which bounds the bytes of the table, is below 2^32.
\<close>

theorem table_get_newest:
  assumes "writable_file f winv wcontents" and "random_file rf winv wcontents" and "port_crc_ok acc"
    and "table_options (InternalKeyComparator BytewiseComparator) (InternalFilterPolicy (NewBloomFilterPolicy b)) opts"
    and "winv st" and "wcontents st = []" and "good_entries es" and "table_cost (b + 9) opts (entry_pairs es) < 2 ^ 32"
    and "s \<le> kMaxSequenceNumber"
  shows "\<exists>r st' t lk. build_table acc f opts (entry_pairs es) st = Inr (OK, r, st') \<and>
    Table_Open acc rf opts (tb_FileSize r) st' = Inr (OK, Some t) \<and> new_LookupKey u s = Inr lk \<and>
    InternalGet acc rf t ro st' (lookup_internal_key lk) (\<lambda>k v sv. bind_res sv (SaveValue k v))
        (Inr \<lparr>sv_state = kNotFound, sv_ucmp = BytewiseComparator, sv_user_key = u, sv_value = v0\<rparr>) =
      Inr (OK, Inr (lookup_result u s es v0))"
proof -
  have O: "internal.options_ok opts (b + 9)" by (rule internal_options [OF assms(4)])
  have "internal.increasing (map fst (entry_pairs es))" "internal.fits opts (b + 9) (entry_pairs es)"
    using assms(7,8) by (auto simp: internal.increasing_def internal.fits_def good_entries_def entry_pairs_def
        entry_key_def internal_valid_def)
  from internal.built_and_opened [OF assms(1-3) O assms(5,6) this] obtain r st' t D idx where
    t: "build_table acc f opts (entry_pairs es) st = Inr (OK, r, st')" "winv st'"
    "Table_Open acc rf opts (tb_FileSize r) st' = Inr (OK, Some t)"
    "internal.is_table opts (wcontents st') D idx" "internal.opened opts D idx t" "concat (map snd D) = entry_pairs es" by blast
  obtain lk where lk: "new_LookupKey u s = Inr lk"
    "lookup_internal_key lk = internal_key u (push_bit 8 s OR type_code kTypeValue)"
    using new_LookupKey_internal [OF assms(9)] by blast
  have "options_comparator opts = InternalKeyComparator BytewiseComparator" using assms(4) by (simp add: table_options_def)
  from InternalGet_entries [OF assms(2,3) t(2,4) this t(5) _ t(6) assms(7,9)] t(1,3) lk assms(4) show ?thesis
    by (auto simp: table_options_def)
qed

theorem table_get_newest_witness:
  "let opts = \<lparr>comparator_at = 0, options_comparator = InternalKeyComparator BytewiseComparator, paranoid_checks = False,
         block_size = 4096, block_restart_interval = 16, compressors = [None],
         options_filter_policy = Some (InternalFilterPolicy (NewBloomFilterPolicy 10))\<rparr>;
       es = [(\<lparr>user_key = [5], sequence = 9, key_type = kTypeDeletion\<rparr>, []), (\<lparr>user_key = [5], sequence = 4, key_type = kTypeValue\<rparr>, [1])] in
   \<exists>r e' t lk sv. build_table (\<lambda>_ _. 0) (mem_writable 0) opts (entry_pairs es) (snd (alloc new_InMemoryEnv)) = Inr (OK, r, e') \<and>
     Table_Open (\<lambda>_ _. 0) (mem_random 0) opts (tb_FileSize r) e' = Inr (OK, Some t) \<and> new_LookupKey [5] 7 = Inr lk \<and>
     InternalGet (\<lambda>_ _. 0) (mem_random 0) t new_ReadOptions e' (lookup_internal_key lk) (\<lambda>k v sv. bind_res sv (SaveValue k v))
        (Inr \<lparr>sv_state = kNotFound, sv_ucmp = BytewiseComparator, sv_user_key = [5], sv_value = Some []\<rparr>) = Inr (OK, Inr sv) \<and>
     sv_state sv = kFound \<and> sv_value sv = Some [1]"
proof -
  define opts where "opts = \<lparr>comparator_at = 0, options_comparator = InternalKeyComparator BytewiseComparator, paranoid_checks = False,
    block_size = 4096, block_restart_interval = 16, compressors = [None],
    options_filter_policy = Some (InternalFilterPolicy (NewBloomFilterPolicy 10))\<rparr>"
  define es :: entries where "es = [(\<lparr>user_key = [5], sequence = 9, key_type = kTypeDeletion\<rparr>, []),
    (\<lparr>user_key = [5], sequence = 4, key_type = kTypeValue\<rparr>, [1])]"
  have o: "table_options (InternalKeyComparator BytewiseComparator) (InternalFilterPolicy (NewBloomFilterPolicy 10)) opts"
    by (simp add: table_options_def opts_def compressors_ok_def)
  have m: "(9 :: u64) \<le> kMaxSequenceNumber" "(4 :: u64) \<le> kMaxSequenceNumber" "(7 :: u64) \<le> kMaxSequenceNumber"
    by (simp_all add: kMaxSequenceNumber_def)
  have g: "good_entries es"
    using m tag_less [OF m(2,1), of kTypeValue kTypeDeletion] by (simp add: good_entries_def es_def entry_pairs_def entry_key_def)
  have "table_cost (10 + 9) opts (entry_pairs es) < 2 ^ 32"
    by (simp add: es_def entry_pairs_def entry_key_def table_cost_def filter_name_length_def opts_def InternalFilterPolicy_def
        NewBloomFilterPolicy_def)
  from table_get_newest [OF mem_wr.writable_file_axioms mem_ra.random_file_axioms crc_portable o new_file_ok g this m(3),
    of "[5]" new_ReadOptions "Some []"]
  obtain r e' t lk where "build_table (\<lambda>_ _. 0) (mem_writable 0) opts (entry_pairs es) (snd (alloc new_InMemoryEnv)) = Inr (OK, r, e')"
     "Table_Open (\<lambda>_ _. 0) (mem_random 0) opts (tb_FileSize r) e' = Inr (OK, Some t)" "new_LookupKey [5] 7 = Inr lk"
     "InternalGet (\<lambda>_ _. 0) (mem_random 0) t new_ReadOptions e' (lookup_internal_key lk) (\<lambda>k v sv. bind_res sv (SaveValue k v))
        (Inr \<lparr>sv_state = kNotFound, sv_ucmp = BytewiseComparator, sv_user_key = [5], sv_value = Some []\<rparr>) =
      Inr (OK, Inr (lookup_result [5] 7 es (Some [])))" by blast
  moreover have "sv_state (lookup_result [5] 7 es (Some [])) = kFound" "sv_value (lookup_result [5] 7 es (Some [])) = Some [1]"
    by (simp_all add: lookup_result_def es_def visible_def)
  ultimately show ?thesis unfolding Let_def opts_def es_def by metis
qed

end
