(* ===== verification/Table_Errors.thy ===== *)
theory Table_Errors
  imports Table_Roundtrip
begin

section \<open>Damaged tables\<close>

text \<open>
  What \<open>ReadBlock\<close> and \<open>Footer::DecodeFrom\<close> do with handles, blocks and footers that no builder has written.
\<close>

lemma DecodeFixed32_iff: "(\<exists>v. DecodeFixed32 d = Inr v) \<longleftrightarrow> 4 \<le> length d"
  using DecodeFixed32_Inr [of d] by (auto simp: DecodeFixed32_def split: list.splits)

lemma message_status [simp]:
  assumes "length msg < 2 ^ 32"
  shows "Corruption msg [] = Inr (status_of kCorruption msg)" and "NotSupported msg [] = Inr (status_of kNotSupported msg)"
  using assms by (simp_all add: Corruption_def NotSupported_def new_Status_one)

lemma BlockHandle_DecodeFrom_total: "\<exists>st h' rest. BlockHandle_DecodeFrom inp h = Inr (st, h', rest)"
  by (auto simp: BlockHandle_DecodeFrom_def Let_def split: option.split)

lemma find_compressor_in: "find_compressor cs t = Some c \<Longrightarrow> Some c \<in> set cs"
  by (induction cs t rule: find_compressor.induct) (auto split: if_splits)

subsection \<open>Properties\<close>

text \<open>
  C37: \<open>ReadBlock\<close> checks what it reads. With decompressors that return, on whatever bytes: for every handle whose size plus the trailer is a 64-bit number it returns, its
  result is OK only where the file gave all the bytes and, if checksums are verified, the stored one is that of
  the block and its type, and on an error it hands out no data. A handle with a larger size passes the length
  check with a few bytes, and the type of the block is read outside them.
\<close>

theorem ReadBlock_guards:
  assumes "ra_Read rf (bh_offset h) (unat (bh_size h + 5)) s = Inr (st, d, b)"
    and "\<forall>c x dst. Some c \<in> set (compressors opts) \<longrightarrow> (\<exists>r. decompress c x dst = Inr r)"
  shows "(unat (bh_size h) + 5 < 2 ^ 64 \<longrightarrow> (\<exists>st' bc. ReadBlock acc rf opts ro h s = Inr (st', bc) \<and>
      (ok st' \<longrightarrow> ok st \<and> length d = unat (bh_size h) + 5 \<and>
        (verify_checksums ro \<longrightarrow> (\<exists>stored. DecodeFixed32 (drop (unat (bh_size h) + 1) d) = Inr stored \<and>
          crc_value acc 0 (take (unat (bh_size h) + 1) d) = Unmask stored))) \<and>
      (\<not> ok st' \<longrightarrow> bc_data bc = []))) \<and>
    (2 ^ 64 \<le> unat (bh_size h) + 5 \<and> ok st \<and> length d = unat (bh_size h + 5) \<longrightarrow> (\<exists>e. ReadBlock acc rf opts ro h s = Inl e))"
proof (intro conjI impI)
  let ?n = "unat (bh_size h)" and ?result = "\<lparr>bc_data = [], bc_cachable = False, bc_heap_allocated = False\<rparr>"
  note read = assms(1) and sizes = footer_sizes(3)
  {
    assume "unat (bh_size h) + 5 < 2 ^ 64"
    then have m: "unat (bh_size h + 5) = ?n + 5" using u64_add_small [of "bh_size h" 5] by simp
    show "\<exists>st' bc. ReadBlock acc rf opts ro h s = Inr (st', bc) \<and>
      (ok st' \<longrightarrow> ok st \<and> length d = ?n + 5 \<and>
        (verify_checksums ro \<longrightarrow> (\<exists>stored. DecodeFixed32 (drop (?n + 1) d) = Inr stored \<and>
          crc_value acc 0 (take (?n + 1) d) = Unmask stored))) \<and>
      (\<not> ok st' \<longrightarrow> bc_data bc = [])"
    proof (cases "ok st \<and> length d = ?n + 5")
      case False
      then show ?thesis using read by (auto simp: ReadBlock_def sizes m Let_def)
    next
      case True
      then obtain stored where st: "DecodeFixed32 (drop (?n + 1) d) = Inr stored" using DecodeFixed32_Inr [of "drop (?n + 1) d"] by auto
      have ty: "vec_at d (int ?n) = Inr (d ! ?n)" using True by (simp add: vec_at_def)
      let ?good = "verify_checksums ro \<longrightarrow> crc_value acc 0 (take (?n + 1) d) = Unmask stored"
      have r: "ReadBlock acc rf opts ro h s = (if \<not> ?good then Inr (status_of kCorruption (map char_byte ''block checksum mismatch''), ?result)
        else if d ! ?n = 0 then Inr (OK, \<lparr>bc_data = take ?n d, bc_cachable = b, bc_heap_allocated = b\<rparr>)
        else case find_compressor (compressors opts) (d ! ?n) of
            None \<Rightarrow> Inr (status_of kNotSupported (map char_byte ''encountered a block compressed with an unknown decompressor''), ?result)
          | Some c \<Rightarrow> bind_res (decompress c (take ?n d) []) (\<lambda>(success, buffer).
              if success then Inr (OK, \<lparr>bc_data = buffer, bc_cachable = True, bc_heap_allocated = True\<rparr>)
              else Inr (status_of kCorruption (map char_byte ''corrupted compressed block contents''), ?result)))"
        using read True st ty by (simp add: ReadBlock_def sizes m Let_def cong: if_cong split: option.split)
      have "\<exists>x y. decompress c (take ?n d) [] = Inr (x, y)" if "find_compressor (compressors opts) (d ! ?n) = Some c" for c
        using find_compressor_in [OF that] assms(2) by fastforce
      then show ?thesis unfolding r using True st by (fastforce split: option.split)
    qed
  }
  assume a: "2 ^ 64 \<le> ?n + 5 \<and> ok st \<and> length d = unat (bh_size h + 5)"
  have lt: "?n < 2 ^ 64" using unsigned_less [of "bh_size h"] by simp
  have "unat (bh_size h + 5) = (?n + 5) mod 2 ^ 64" by (simp add: unat_word_ariths)
  also have "\<dots> = ?n + 5 - 2 ^ 64" using a lt by (subst le_mod_geq) simp_all
  finally have l: "length d = ?n + 5 - 2 ^ 64" "?n + 5 < 2 ^ 64 + 5" using a lt by simp_all
  then have "length d < ?n" using a by simp
  moreover from l have "length d < 5" by simp
  ultimately have "\<not> int ?n < int (length d)" "\<nexists>v. DecodeFixed32 (drop (?n + 1) d) = Inr v"
    unfolding DecodeFixed32_iff of_nat_less_iff by simp_all
  then have "vec_at d (int ?n) = Inl Undefined" "\<nexists>v. DecodeFixed32 (drop (?n + 1) d) = Inr v"
    unfolding vec_at_def by (simp_all only: simp_thms if_False)
  then show "\<exists>e. ReadBlock acc rf opts ro h s = Inl e"
    using read a by (cases "DecodeFixed32 (drop (?n + 1) d)") (auto simp: ReadBlock_def sizes Let_def)
qed

theorem ReadBlock_guards_witness:
  "let opts = \<lparr>comparator_at = 0, options_comparator = BytewiseComparator, paranoid_checks = True, block_size = 1,
         block_restart_interval = 2, compressors = [None], options_filter_policy = None\<rparr>;
       f = \<lparr>ra_Read = \<lambda>off n s. Inr (OK, take n (drop (unat off) s), True)\<rparr>; data = [7, 8, 9, 0, 1, 2, 3, 4] in
   (\<exists>e. ReadBlock (\<lambda>_ _. 0) f opts new_ReadOptions \<lparr>bh_offset = 0, bh_size = - 3\<rparr> data = Inl e) \<and>
   (\<exists>st bc. ReadBlock (\<lambda>_ _. 0) f opts new_ReadOptions \<lparr>bh_offset = 0, bh_size = 3\<rparr> data = Inr (st, bc))"
  using ReadBlock_guards [of "\<lparr>ra_Read = \<lambda>off n s. Inr (OK, take n (drop (unat off) s), True)\<rparr>"
      "\<lparr>bh_offset = 0, bh_size = - 3\<rparr>" "[7, 8, 9, 0, 1, 2, 3, 4]" OK "[7, 8]" True
      "\<lparr>comparator_at = 0, options_comparator = BytewiseComparator, paranoid_checks = True, block_size = 1,
         block_restart_interval = 2, compressors = [None], options_filter_policy = None\<rparr>" "\<lambda>_ _. 0" new_ReadOptions]
    ReadBlock_guards [of "\<lparr>ra_Read = \<lambda>off n s. Inr (OK, take n (drop (unat off) s), True)\<rparr>"
      "\<lparr>bh_offset = 0, bh_size = 3\<rparr>" "[7, 8, 9, 0, 1, 2, 3, 4]" OK "[7, 8, 9, 0, 1, 2, 3, 4]" True
      "\<lparr>comparator_at = 0, options_comparator = BytewiseComparator, paranoid_checks = True, block_size = 1,
         block_restart_interval = 2, compressors = [None], options_filter_policy = None\<rparr>" "\<lambda>_ _. 0" new_ReadOptions]
  by (simp add: Let_def) blast

theorem Footer_DecodeFrom_total: "(\<exists>r. Footer_DecodeFrom inp f = Inr r) \<longleftrightarrow> 48 \<le> length inp"
proof (cases "48 \<le> length inp")
  case True
  then have "4 \<le> length (drop 40 inp)" "4 \<le> length (drop 44 inp)" by simp_all
  from this [THEN DecodeFixed32_Inr] obtain lo hi where
    m: "DecodeFixed32 (drop 40 inp) = Inr lo" "DecodeFixed32 (drop 44 inp) = Inr hi" by blast
  obtain st h' rest where h: "BlockHandle_DecodeFrom inp (metaindex_handle f) = Inr (st, h', rest)"
    using BlockHandle_DecodeFrom_total by blast
  obtain st2 h2 rest2 where h2: "BlockHandle_DecodeFrom rest (index_handle f) = Inr (st2, h2, rest2)"
    using BlockHandle_DecodeFrom_total by blast
  show ?thesis using True m h h2 by (simp add: Footer_DecodeFrom_def footer_sizes Let_def)
next
  case False
  then have "\<nexists>v. DecodeFixed32 (drop 44 inp) = Inr v" unfolding DecodeFixed32_iff by simp
  then have "\<exists>e. DecodeFixed32 (drop 44 inp) = Inl e" by (cases "DecodeFixed32 (drop 44 inp)") auto
  then show ?thesis using False
    by (cases "DecodeFixed32 (drop 40 inp)") (auto simp: Footer_DecodeFrom_def footer_sizes)
qed

lemma high_id_not_found: "128 \<le> uint t \<Longrightarrow> find_compressor cs t = None"
proof (induction cs t rule: find_compressor.induct)
  case (3 c cs t)
  have "sint (uniqueCompressionID c) < 2 ^ 7" using sint_lt [of "uniqueCompressionID c"] by simp
  then show ?case using 3 by auto
qed auto

end
