(* ===== verification/Logging.thy ===== *)
theory Logging
  imports Comparator Cpp_Std
begin

section \<open>Printing and reading numbers\<close>

text \<open>
  \<open>leveldb-mcpe/util/logging.cc\<close>: numbers and keys as text. Texts and file names are \<open>string\<close>s, keys are slices.
\<close>

definition AppendNumberTo :: "string \<Rightarrow> u64 \<Rightarrow> string" where
  "AppendNumberTo str num = str @ nat_to_string (unat num)"

definition NumberToString :: "u64 \<Rightarrow> string" where
  "NumberToString num = AppendNumberTo [] num"

definition hex_digit :: "nat \<Rightarrow> char" where
  "hex_digit n = (if n < 10 then digit_char n else char_of (87 + n))"

text \<open>The type \<open>char\<close> is signed, so that the bytes from 128 on are below the space.\<close>

fun AppendEscapedStringTo :: "string \<Rightarrow> slice \<Rightarrow> string" where
  "AppendEscapedStringTo str [] = str"
| "AppendEscapedStringTo str (c # v) =
     AppendEscapedStringTo (str @ (if 32 \<le> sint c \<and> sint c \<le> 126 then [byte_char c]
       else [CHR 92, CHR ''x'', hex_digit (unat c div 16), hex_digit (unat c mod 16)])) v"

definition EscapeString :: "slice \<Rightarrow> string" where
  "EscapeString v = AppendEscapedStringTo [] v"

definition kMaxUint64 :: u64 where
  "kMaxUint64 = NOT 0"

text \<open>The loop over the digits: what is left, the value and the count, or what is left at an overflow.\<close>

fun consume_loop :: "string \<Rightarrow> u64 \<Rightarrow> int \<Rightarrow> string + string \<times> u64 \<times> int" where
  "consume_loop [] v digits = Inr ([], v, digits)"
| "consume_loop (c # s) v digits =
     (if is_digit c then
        let delta = digit_val c in
        if v > kMaxUint64 div 10 \<or> v = kMaxUint64 div 10 \<and> of_int delta > kMaxUint64 mod 10 then Inl (c # s)
        else consume_loop s (v * 10 + of_int delta) (digits + 1)
      else Inr (c # s, v, digits))"

text \<open>The result, what is left of the input, and the value where it is written.\<close>

definition ConsumeDecimalNumber :: "string \<Rightarrow> bool \<times> string \<times> u64 option" where
  "ConsumeDecimalNumber s =
     (case consume_loop s 0 0 of
        Inl rest \<Rightarrow> (False, rest, None)
      | Inr (rest, v, digits) \<Rightarrow> (digits > 0, rest, Some v))"

subsection \<open>The value of a run of digits\<close>

definition number_at :: "string \<Rightarrow> nat" where
  "number_at s = nat (digits_val 0 (takeWhile is_digit s))"

lemma digits_val_takeWhile: "digits_val acc (takeWhile is_digit s) = digits_val acc s"
  by (induction s arbitrary: acc) auto

lemma digit_val_range: "is_digit c \<Longrightarrow> 0 \<le> digit_val c \<and> digit_val c \<le> 9"
  by (auto simp: is_digit_def digit_val_def)

lemma digits_val_mono: "0 \<le> acc \<Longrightarrow> acc \<le> digits_val acc s"
proof (induction s arbitrary: acc)
  case (Cons c s)
  show ?case
  proof (cases "is_digit c")
    case True
    with Cons.prems have "acc \<le> 10 * acc + digit_val c" "0 \<le> 10 * acc + digit_val c" using digit_val_range by auto
    with Cons.IH [of "10 * acc + digit_val c"] True show ?thesis by simp
  qed simp
qed simp

lemma uint_of_int_small: "0 \<le> d \<Longrightarrow> d < 2 ^ 64 \<Longrightarrow> uint (of_int d :: u64) = d"
  by (simp add: unsigned_of_int take_bit_int_eq_self)

lemma overflow_test:
  assumes "0 \<le> d" and "d \<le> 9"
  shows "(v > kMaxUint64 div 10 \<or> v = kMaxUint64 div 10 \<and> of_int d > kMaxUint64 mod 10) \<longleftrightarrow> 10 * uint v + d \<ge> 2 ^ 64"
proof -
  have m: "uint kMaxUint64 = 2 ^ 64 - 1" by (simp add: kMaxUint64_def unsigned_minus_1_eq_mask mask_eq_exp_minus_1)
  have q: "uint (kMaxUint64 div 10) = 1844674407370955161" "uint (kMaxUint64 mod 10) = 5"
    by (simp_all add: uint_div uint_mod m)
  have d: "uint (of_int d :: u64) = d" using assms by (intro uint_of_int_small) simp_all
  have lt: "v > kMaxUint64 div 10 \<longleftrightarrow> uint v > 1844674407370955161" by (simp add: word_less_def q(1))
  have eq: "v = kMaxUint64 div 10 \<longleftrightarrow> uint v = 1844674407370955161" by (simp add: word_uint_eq_iff q(1))
  have gt: "of_int d > kMaxUint64 mod 10 \<longleftrightarrow> d > 5" unfolding word_less_def q(2) d by simp
  show ?thesis unfolding lt eq gt using assms by auto
qed

lemma consume_loop_exact:
  "if 2 ^ 64 \<le> digits_val (uint v) s then \<exists>rest. consume_loop s v digits = Inl rest
   else consume_loop s v digits =
     Inr (dropWhile is_digit s, of_int (digits_val (uint v) s), digits + int (length (takeWhile is_digit s)))"
proof (induction s arbitrary: v digits)
  case Nil
  then show ?case using uint_lt2p [of v] by simp
next
  case (Cons c s)
  let ?w = "10 * uint v + digit_val c"
  show ?case
  proof (cases "is_digit c")
    case False
    then show ?thesis using uint_lt2p [of v] by simp
  next
    case True
    then have d: "0 \<le> digit_val c" "digit_val c \<le> 9" using digit_val_range by auto
    then have step: "consume_loop (c # s) v digits =
        (if 2 ^ 64 \<le> ?w then Inl (c # s) else consume_loop s (v * 10 + of_int (digit_val c)) (digits + 1))"
      using overflow_test [of "digit_val c" v] True by (simp only: consume_loop.simps Let_def if_True)
    show ?thesis
    proof (cases "2 ^ 64 \<le> ?w")
      case over: True
      have "?w \<le> digits_val ?w s" using d by (intro digits_val_mono) simp
      then show ?thesis using over True step by simp
    next
      case False
      define w where "w = v * 10 + of_int (digit_val c)"
      have "w = of_int ?w" by (simp add: w_def mult.commute)
      then have "uint w = ?w" using False d uint_of_int_small [of ?w] by simp
      then have e: "digits_val (uint v) (c # s) = digits_val (uint w) s" using True by simp
      have "consume_loop (c # s) v digits = consume_loop s w (digits + 1)" using step False by (simp only: w_def if_False)
      then show ?thesis using Cons.IH [of w "digits + 1"] True unfolding e by (simp add: add.assoc)
    qed
  qed
qed

text \<open>
  reading a number is exact: the digits at the front of a text are read as the number they spell, with the rest
  left over, and there is no result where there are none of them or the number is not less than 2 to the 64.
\<close>

theorem ConsumeDecimalNumber_exact:
  "(let (ok, rest, v) = ConsumeDecimalNumber s in if ok then Some (v, rest) else None) =
   (if no_digit_first s \<or> 2 ^ 64 \<le> number_at s then None
    else Some (Some (of_nat (number_at s)), dropWhile is_digit s))"
proof -
  have pos: "0 \<le> digits_val 0 s" by (rule digits_val_mono) simp
  then have n: "2 ^ 64 \<le> number_at s \<longleftrightarrow> 2 ^ 64 \<le> digits_val 0 s" "int (number_at s) = digits_val 0 s"
    by (simp_all add: number_at_def digits_val_takeWhile nat_le_eq_zle flip: nat_numeral_as_int) (simp add: le_nat_iff)
  have e: "takeWhile is_digit s = [] \<longleftrightarrow> no_digit_first s" by (cases s) (simp_all add: no_digit_first_def)
  show ?thesis
  proof (cases "2 ^ 64 \<le> digits_val 0 s")
    case True
    then show ?thesis using consume_loop_exact [of 0 s 0] n(1) by (auto simp: ConsumeDecimalNumber_def)
  next
    case False
    then have "consume_loop s 0 0 = Inr (dropWhile is_digit s, of_int (int (number_at s)), int (length (takeWhile is_digit s)))"
      using consume_loop_exact [of 0 s 0] by (simp add: n(2))
    then show ?thesis using False n(1) e by (auto simp: ConsumeDecimalNumber_def)
  qed
qed

lemma number_at_digits: "(\<forall>c \<in> set ds. is_digit c) \<Longrightarrow> no_digit_first r \<Longrightarrow> number_at (ds @ r) = nat (digits_val 0 ds)"
  by (simp add: number_at_def digits_val_takeWhile digits_val_append digits_val_stop)

lemma digits_val_zeros: "digits_val 0 (replicate n (CHR ''0'') @ s) = digits_val 0 s"
  by (induction n) (simp_all add: is_digit_def digit_val_def)

text \<open>Numbers printed with zeros in front.\<close>

lemma Consume_printed:
  assumes "no_digit_first r"
  shows "ConsumeDecimalNumber (replicate k (CHR ''0'') @ nat_to_string (unat n) @ r) = (True, r, Some n)"
proof -
  let ?s = "replicate k (CHR ''0'') @ nat_to_string (unat n) @ r"
  have d: "\<forall>c \<in> set (replicate k (CHR ''0'') @ nat_to_string (unat n)). is_digit c"
    using nat_to_string_digits [of "unat n"] by (auto simp: is_digit_def)
  have v: "digits_val 0 ?s = int (unat n)" using assms by (simp add: digits_val_zeros digits_val_nat_to_string_rest)
  have u: "\<not> 2 ^ 64 \<le> int (unat n)" using uint_lt2p [of n] by simp
  have t: "takeWhile is_digit ?s = replicate k (CHR ''0'') @ nat_to_string (unat n)" "dropWhile is_digit ?s = r"
    using d assms by (cases r; simp add: no_digit_first_def takeWhile_append dropWhile_append)+
  have "of_int (int (unat n)) = n" by simp
  then have "consume_loop ?s 0 0 = Inr (r, n, int (length (replicate k (CHR ''0'') @ nat_to_string (unat n))))"
    using consume_loop_exact [of 0 ?s 0] u by (simp only: unsigned_0 v t if_False) simp
  moreover have "0 < length (nat_to_string (unat n))" by simp
  ultimately show ?thesis by (simp add: ConsumeDecimalNumber_def del: length_greater_0_conv)
qed

end
