(* ===== verification/File_Name.thy ===== *)
theory File_Name
  imports Logging Status
begin

section \<open>Names of files\<close>

text \<open>
  \<open>leveldb-mcpe/db/filename.h\<close> and \<open>filename.cc\<close>: the names of the files of a database, made from their numbers
  and parsed. A number is printed with six digits at least; the buffers of 100 characters are long enough for
  the 20 digits of the largest.
\<close>

datatype FileType = kLogFile | kDBLockFile | kTableFile | kDescriptorFile | kCurrentFile | kTempFile | kInfoLogFile

text \<open>The conversion \<open>%06llu\<close>.\<close>

definition six_digits :: "u64 \<Rightarrow> string" where
  "six_digits number = (let s = nat_to_string (unat number) in replicate (6 - length s) (CHR ''0'') @ s)"

definition MakeFileName :: "string \<Rightarrow> u64 \<Rightarrow> string \<Rightarrow> string" where
  "MakeFileName name number suffix = name @ ''/'' @ six_digits number @ ''.'' @ suffix"

definition LogFileName :: "string \<Rightarrow> u64 \<Rightarrow> string res" where
  "LogFileName name number = bind_res (guard_res (number > 0) AssertFail) (\<lambda>_. Inr (MakeFileName name number ''log''))"

definition TableFileName :: "string \<Rightarrow> u64 \<Rightarrow> string res" where
  "TableFileName name number = bind_res (guard_res (number > 0) AssertFail) (\<lambda>_. Inr (MakeFileName name number ''ldb''))"

definition SSTTableFileName :: "string \<Rightarrow> u64 \<Rightarrow> string res" where
  "SSTTableFileName name number = bind_res (guard_res (number > 0) AssertFail) (\<lambda>_. Inr (MakeFileName name number ''sst''))"

definition DescriptorFileName :: "string \<Rightarrow> u64 \<Rightarrow> string res" where
  "DescriptorFileName dbname number =
     bind_res (guard_res (number > 0) AssertFail) (\<lambda>_. Inr (dbname @ ''/MANIFEST-'' @ six_digits number))"

definition CurrentFileName :: "string \<Rightarrow> string" where
  "CurrentFileName dbname = dbname @ ''/CURRENT''"

definition LockFileName :: "string \<Rightarrow> string" where
  "LockFileName dbname = dbname @ ''/LOCK''"

definition TempFileName :: "string \<Rightarrow> u64 \<Rightarrow> string res" where
  "TempFileName dbname number = bind_res (guard_res (number > 0) AssertFail) (\<lambda>_. Inr (MakeFileName dbname number ''dbtmp''))"

definition InfoLogFileName :: "string \<Rightarrow> string" where
  "InfoLogFileName dbname = dbname @ ''/LOG''"

definition OldInfoLogFileName :: "string \<Rightarrow> string" where
  "OldInfoLogFileName dbname = dbname @ ''/LOG.old''"

text \<open>\<open>None\<close> is the result \<open>false\<close>.\<close>

definition ParseFileName :: "string \<Rightarrow> (u64 \<times> FileType) option" where
  "ParseFileName rest =
     (if rest = ''CURRENT'' then Some (0, kCurrentFile)
      else if rest = ''LOCK'' then Some (0, kDBLockFile)
      else if rest = ''LOG'' \<or> rest = ''LOG.old'' then Some (0, kInfoLogFile)
      else if take 9 rest = ''MANIFEST-'' then
        (case ConsumeDecimalNumber (drop 9 rest) of
           (True, rest, Some num) \<Rightarrow> if rest \<noteq> [] then None else Some (num, kDescriptorFile)
         | _ \<Rightarrow> None)
      else
        (case ConsumeDecimalNumber rest of
           (True, suffix, Some num) \<Rightarrow>
             if suffix = ''.log'' then Some (num, kLogFile)
             else if suffix = ''.sst'' \<or> suffix = ''.ldb'' then Some (num, kTableFile)
             else if suffix = ''.dbtmp'' then Some (num, kTempFile)
             else None
         | _ \<Rightarrow> None))"

subsection \<open>Parsing what was made\<close>

lemma six_digits_first: "\<exists>c cs. six_digits n @ r = c # cs \<and> is_digit c"
proof -
  obtain c cs where n: "nat_to_string (unat n) = c # cs" "is_digit c" by (rule nat_to_string_Cons)
  show ?thesis
  proof (cases "6 - length (nat_to_string (unat n))")
    case 0
    then show ?thesis using n by (simp add: six_digits_def Let_def)
  next
    case (Suc k)
    then show ?thesis by (simp add: six_digits_def Let_def is_digit_def)
  qed
qed

lemma Consume_six_digits: "no_digit_first r \<Longrightarrow> ConsumeDecimalNumber (six_digits n @ r) = (True, r, Some n)"
  by (simp add: six_digits_def Let_def Consume_printed)

lemma Parse_numbered:
  assumes "no_digit_first r"
  shows "ParseFileName (six_digits n @ r) =
    (if r = ''.log'' then Some (n, kLogFile) else if r = ''.sst'' \<or> r = ''.ldb'' then Some (n, kTableFile)
     else if r = ''.dbtmp'' then Some (n, kTempFile) else None)"
proof -
  obtain c cs where c: "six_digits n @ r = c # cs" "is_digit c" using six_digits_first by blast
  have no: "c \<noteq> CHR ''C''" "c \<noteq> CHR ''L''" "c \<noteq> CHR ''M''" using c(2) by (auto simp: is_digit_def)
  have "ParseFileName (c # cs) = (case ConsumeDecimalNumber (c # cs) of (True, suffix, Some num) \<Rightarrow>
             if suffix = ''.log'' then Some (num, kLogFile)
             else if suffix = ''.sst'' \<or> suffix = ''.ldb'' then Some (num, kTableFile)
             else if suffix = ''.dbtmp'' then Some (num, kTempFile)
             else None
         | _ \<Rightarrow> None)"
    using no by (simp add: ParseFileName_def)
  then show ?thesis using Consume_six_digits [OF assms, of n] by (simp add: c(1))
qed

text \<open>
  C34: the file names round trip: every name the library makes for a number, without the directory, parses to the
  number and the type, for every number but zero, of any number of digits.
\<close>

theorem file_name_roundtrip:
  assumes "number > 0"
  shows "\<exists>l t s d m. LogFileName db number = Inr (db @ CHR ''/'' # l) \<and> ParseFileName l = Some (number, kLogFile) \<and>
    TableFileName db number = Inr (db @ CHR ''/'' # t) \<and> ParseFileName t = Some (number, kTableFile) \<and>
    SSTTableFileName db number = Inr (db @ CHR ''/'' # s) \<and> ParseFileName s = Some (number, kTableFile) \<and>
    TempFileName db number = Inr (db @ CHR ''/'' # m) \<and> ParseFileName m = Some (number, kTempFile) \<and>
    DescriptorFileName db number = Inr (db @ CHR ''/'' # d) \<and> ParseFileName d = Some (number, kDescriptorFile)"
proof -
  have stop: "no_digit_first (CHR ''.'' # r)" for r by (simp add: no_digit_first_def is_digit_def)
  have d: "ParseFileName (''MANIFEST-'' @ six_digits number) = Some (number, kDescriptorFile)"
    using Consume_six_digits [of "[]" number] by (simp add: ParseFileName_def no_digit_first_def)
  show ?thesis
    by (intro exI [of _ "six_digits number @ ''.log''"] exI [of _ "six_digits number @ ''.ldb''"]
        exI [of _ "six_digits number @ ''.sst''"] exI [of _ "''MANIFEST-'' @ six_digits number"]
        exI [of _ "six_digits number @ ''.dbtmp''"])
      (use assms d in \<open>simp add: Parse_numbered stop LogFileName_def TableFileName_def SSTTableFileName_def
        TempFileName_def DescriptorFileName_def MakeFileName_def\<close>)
qed

theorem file_name_roundtrip_witness:
  "\<exists>l t s d m. LogFileName ''db'' 7 = Inr (''db'' @ CHR ''/'' # l) \<and> ParseFileName l = Some (7, kLogFile) \<and>
    TableFileName ''db'' 7 = Inr (''db'' @ CHR ''/'' # t) \<and> ParseFileName t = Some (7, kTableFile) \<and>
    SSTTableFileName ''db'' 7 = Inr (''db'' @ CHR ''/'' # s) \<and> ParseFileName s = Some (7, kTableFile) \<and>
    TempFileName ''db'' 7 = Inr (''db'' @ CHR ''/'' # m) \<and> ParseFileName m = Some (7, kTempFile) \<and>
    DescriptorFileName ''db'' 7 = Inr (''db'' @ CHR ''/'' # d) \<and> ParseFileName d = Some (7, kDescriptorFile)"
  by (rule file_name_roundtrip) simp

lemma fixed_names:
  "ParseFileName ''CURRENT'' = Some (0, kCurrentFile)" "ParseFileName ''LOCK'' = Some (0, kDBLockFile)"
  "ParseFileName ''LOG'' = Some (0, kInfoLogFile)" "ParseFileName ''LOG.old'' = Some (0, kInfoLogFile)"
  by (simp_all add: ParseFileName_def)

end
