(* ===== verification/Internal_Key.thy ===== *)
theory Internal_Key
  imports Logging DB_Format
begin

section \<open>Internal keys as objects\<close>

text \<open>
  The class \<open>InternalKey\<close> of \<open>leveldb-mcpe/db/dbformat.h\<close>, whose bytes \<open>rep_\<close> are empty in an invalid key, and the
  texts of keys for the log (\<open>dbformat.cc\<close>).
\<close>

type_synonym InternalKey = slice

definition empty_InternalKey :: InternalKey where
  "empty_InternalKey = []"

definition new_InternalKey :: "slice \<Rightarrow> SequenceNumber \<Rightarrow> ValueType \<Rightarrow> InternalKey res" where
  "new_InternalKey u s t = AppendInternalKey [] \<lparr>user_key = u, sequence = s, key_type = t\<rparr>"

definition InternalKey_DecodeFrom :: "slice \<Rightarrow> InternalKey" where
  "InternalKey_DecodeFrom s = s"

definition InternalKey_Encode :: "InternalKey \<Rightarrow> slice res" where
  "InternalKey_Encode k = bind_res (guard_res (k \<noteq> []) AssertFail) (\<lambda>_. Inr k)"

definition InternalKey_user_key :: "InternalKey \<Rightarrow> slice res" where
  "InternalKey_user_key k = ExtractUserKey k"

definition InternalKey_SetFrom :: "ParsedInternalKey \<Rightarrow> InternalKey res" where
  "InternalKey_SetFrom p = AppendInternalKey [] p"

definition InternalKey_Clear :: InternalKey where
  "InternalKey_Clear = []"

text \<open>The comparison of two keys, of the comparator \<open>cmp\<close> of internal keys.\<close>

definition icompare :: "comparator \<Rightarrow> InternalKey \<Rightarrow> InternalKey \<Rightarrow> int res" where
  "icompare cmp a b =
     bind_res (InternalKey_Encode a) (\<lambda>x. bind_res (InternalKey_Encode b) (\<lambda>y. Compare cmp x y))"

definition type_number :: "ValueType \<Rightarrow> nat" where
  "type_number t = unat (type_code t)"

definition ParsedInternalKey_DebugString :: "ParsedInternalKey \<Rightarrow> string" where
  "ParsedInternalKey_DebugString k =
     [CHR 39] @ EscapeString (user_key k) @ [CHR 39] @ '' @ '' @ nat_to_string (unat (sequence k)) @ '' : '' @
     nat_to_string (type_number (key_type k))"

definition InternalKey_DebugString :: "InternalKey \<Rightarrow> string res" where
  "InternalKey_DebugString rep =
     bind_res (ParseInternalKey rep) (\<lambda>parsed.
       Inr (case parsed of Some p \<Rightarrow> ParsedInternalKey_DebugString p | None \<Rightarrow> ''(bad)'' @ EscapeString rep))"

lemma Encode_key [simp]: "k \<noteq> [] \<Longrightarrow> InternalKey_Encode k = Inr k"
  by (simp add: InternalKey_Encode_def)

lemma icompare_keys: "a \<noteq> [] \<Longrightarrow> b \<noteq> [] \<Longrightarrow> icompare cmp a b = Compare cmp a b"
  by (simp add: icompare_def)

lemma new_InternalKey_ok: "s \<le> kMaxSequenceNumber \<Longrightarrow>
    new_InternalKey u s t = Inr (internal_key u (push_bit 8 s OR type_code t))"
  by (simp add: new_InternalKey_def AppendInternalKey_ok)

end
