(* ===== verification/Version_Edit.thy ===== *)
theory Version_Edit
  imports Internal_Key Status
begin

section \<open>Version edits\<close>

text \<open>
  \<open>leveldb-mcpe/db/version_edit.h\<close> and \<open>version_edit.cc\<close>: a change of the set of tables, as it is written to the
  manifest and read back. The set of deleted files is the sorted list of its elements.
\<close>

definition kNumLevels :: int where
  "kNumLevels = 7"

datatype Tag = kComparator | kLogNumber | kNextFileNumber | kLastSequence | kCompactPointer | kDeletedFile | kNewFile
  | kPrevLogNumber

definition tag_number :: "Tag \<Rightarrow> u32" where
  "tag_number t = (case t of kComparator \<Rightarrow> 1 | kLogNumber \<Rightarrow> 2 | kNextFileNumber \<Rightarrow> 3 | kLastSequence \<Rightarrow> 4
     | kCompactPointer \<Rightarrow> 5 | kDeletedFile \<Rightarrow> 6 | kNewFile \<Rightarrow> 7 | kPrevLogNumber \<Rightarrow> 9)"

record FileMetaData =
  f_refs :: int
  allowed_seeks :: int
  f_number :: u64
  f_file_size :: u64
  smallest :: InternalKey
  largest :: InternalKey

text \<open>A number the constructor leaves open is an argument.\<close>

definition new_FileMetaData :: "u64 \<Rightarrow> FileMetaData" where
  "new_FileMetaData n =
     \<lparr>f_refs = 0, allowed_seeks = 2 ^ 30, f_number = n, f_file_size = 0, smallest = empty_InternalKey, largest = empty_InternalKey\<rparr>"

record VersionEdit =
  ve_comparator :: slice
  log_number :: u64
  prev_log_number :: u64
  next_file_number :: u64
  last_sequence :: SequenceNumber
  has_comparator :: bool
  has_log_number :: bool
  has_prev_log_number :: bool
  has_next_file_number :: bool
  has_last_sequence :: bool
  compact_pointers :: "(int \<times> InternalKey) list"
  deleted_files :: "(int \<times> u64) list"
  new_files :: "(int \<times> FileMetaData) list"

text \<open>\<open>Clear\<close> leaves \<open>compact_pointers_\<close> as they are.\<close>

definition Edit_Clear :: "VersionEdit \<Rightarrow> VersionEdit" where
  "Edit_Clear e = e\<lparr>ve_comparator := [], log_number := 0, prev_log_number := 0, last_sequence := 0, next_file_number := 0,
     has_comparator := False, has_log_number := False, has_prev_log_number := False, has_next_file_number := False,
     has_last_sequence := False, deleted_files := [], new_files := []\<rparr>"

definition new_VersionEdit :: VersionEdit where
  "new_VersionEdit =
     \<lparr>ve_comparator = [], log_number = 0, prev_log_number = 0, next_file_number = 0, last_sequence = 0,
      has_comparator = False, has_log_number = False, has_prev_log_number = False, has_next_file_number = False,
      has_last_sequence = False, compact_pointers = [], deleted_files = [], new_files = []\<rparr>"

definition SetComparatorName :: "slice \<Rightarrow> VersionEdit \<Rightarrow> VersionEdit" where
  "SetComparatorName name e = e\<lparr>has_comparator := True, ve_comparator := name\<rparr>"

definition SetLogNumber :: "u64 \<Rightarrow> VersionEdit \<Rightarrow> VersionEdit" where
  "SetLogNumber num e = e\<lparr>has_log_number := True, log_number := num\<rparr>"

definition SetPrevLogNumber :: "u64 \<Rightarrow> VersionEdit \<Rightarrow> VersionEdit" where
  "SetPrevLogNumber num e = e\<lparr>has_prev_log_number := True, prev_log_number := num\<rparr>"

definition SetNextFile :: "u64 \<Rightarrow> VersionEdit \<Rightarrow> VersionEdit" where
  "SetNextFile num e = e\<lparr>has_next_file_number := True, next_file_number := num\<rparr>"

definition SetLastSequence :: "SequenceNumber \<Rightarrow> VersionEdit \<Rightarrow> VersionEdit" where
  "SetLastSequence num e = e\<lparr>has_last_sequence := True, last_sequence := num\<rparr>"

definition SetCompactPointer :: "int \<Rightarrow> InternalKey \<Rightarrow> VersionEdit \<Rightarrow> VersionEdit" where
  "SetCompactPointer level key e = e\<lparr>compact_pointers := compact_pointers e @ [(level, key)]\<rparr>"

definition AddFile :: "int \<Rightarrow> u64 \<Rightarrow> u64 \<Rightarrow> InternalKey \<Rightarrow> InternalKey \<Rightarrow> VersionEdit \<Rightarrow> VersionEdit" where
  "AddFile level file file_size small large e =
     (let f = (new_FileMetaData file)\<lparr>f_number := file, f_file_size := file_size, smallest := small, largest := large\<rparr> in
      e\<lparr>new_files := new_files e @ [(level, f)]\<rparr>)"

text \<open>Insertion into a \<open>std::set\<close> with the order \<open>lt\<close>.\<close>

fun set_insert :: "('a \<Rightarrow> 'a \<Rightarrow> bool) \<Rightarrow> 'a \<Rightarrow> 'a list \<Rightarrow> 'a list" where
  "set_insert lt x [] = [x]"
| "set_insert lt x (y # ys) = (if lt x y then x # y # ys else if lt y x then y # set_insert lt x ys else y # ys)"

definition pair_less :: "int \<times> u64 \<Rightarrow> int \<times> u64 \<Rightarrow> bool" where
  "pair_less a b \<longleftrightarrow> fst a < fst b \<or> fst a = fst b \<and> snd a < snd b"

definition Edit_DeleteFile :: "int \<Rightarrow> u64 \<Rightarrow> VersionEdit \<Rightarrow> VersionEdit" where
  "Edit_DeleteFile level file e = e\<lparr>deleted_files := set_insert pair_less (level, file) (deleted_files e)\<rparr>"

subsection \<open>Writing\<close>

definition put_tag :: "Tag \<Rightarrow> slice \<Rightarrow> slice" where
  "put_tag t dst = PutVarint32 dst (tag_number t)"

definition put_scalars :: "VersionEdit \<Rightarrow> slice \<Rightarrow> slice" where
  "put_scalars e dst =
     (let dst = (if has_comparator e then PutLengthPrefixedSlice (put_tag kComparator dst) (ve_comparator e) else dst);
          dst = (if has_log_number e then PutVarint64 (put_tag kLogNumber dst) (log_number e) else dst);
          dst = (if has_prev_log_number e then PutVarint64 (put_tag kPrevLogNumber dst) (prev_log_number e) else dst);
          dst = (if has_next_file_number e then PutVarint64 (put_tag kNextFileNumber dst) (next_file_number e) else dst)
      in if has_last_sequence e then PutVarint64 (put_tag kLastSequence dst) (last_sequence e) else dst)"

fun put_compact_pointers :: "(int \<times> InternalKey) list \<Rightarrow> slice \<Rightarrow> slice res" where
  "put_compact_pointers [] dst = Inr dst"
| "put_compact_pointers ((level, key) # ps) dst =
     bind_res (InternalKey_Encode key) (\<lambda>k.
       put_compact_pointers ps (PutLengthPrefixedSlice (PutVarint32 (put_tag kCompactPointer dst) (of_int level)) k))"

fun put_deleted_files :: "(int \<times> u64) list \<Rightarrow> slice \<Rightarrow> slice" where
  "put_deleted_files [] dst = dst"
| "put_deleted_files ((level, number) # ds) dst =
     put_deleted_files ds (PutVarint64 (PutVarint32 (put_tag kDeletedFile dst) (of_int level)) number)"

fun put_new_files :: "(int \<times> FileMetaData) list \<Rightarrow> slice \<Rightarrow> slice res" where
  "put_new_files [] dst = Inr dst"
| "put_new_files ((level, f) # fs) dst =
     (let dst = PutVarint64 (PutVarint64 (PutVarint32 (put_tag kNewFile dst) (of_int level)) (f_number f)) (f_file_size f) in
      bind_res (InternalKey_Encode (smallest f)) (\<lambda>s.
      bind_res (InternalKey_Encode (largest f)) (\<lambda>l.
        put_new_files fs (PutLengthPrefixedSlice (PutLengthPrefixedSlice dst s) l))))"

definition Edit_EncodeTo :: "VersionEdit \<Rightarrow> slice \<Rightarrow> slice res" where
  "Edit_EncodeTo e dst =
     bind_res (put_compact_pointers (compact_pointers e) (put_scalars e dst)) (\<lambda>dst.
       put_new_files (new_files e) (put_deleted_files (deleted_files e) dst))"

subsection \<open>Reading\<close>

definition GetInternalKey :: "slice \<Rightarrow> (InternalKey \<times> slice) option" where
  "GetInternalKey input =
     (case GetLengthPrefixedSlice input of Some (str, input) \<Rightarrow> Some (InternalKey_DecodeFrom str, input) | None \<Rightarrow> None)"

definition GetLevel :: "slice \<Rightarrow> (int \<times> slice) option" where
  "GetLevel input =
     (case GetVarint32 input of
        Some (v, input) \<Rightarrow> if uint v < kNumLevels then Some (uint v, input) else None
      | None \<Rightarrow> None)"

text \<open>The cases of the switch: the message, or the edit with what is left of the input.\<close>

definition get_number :: "string \<Rightarrow> (u64 \<Rightarrow> VersionEdit) \<Rightarrow> slice \<Rightarrow> string + VersionEdit \<times> slice" where
  "get_number msg upd input = (case GetVarint64 input of Some (v, input) \<Rightarrow> Inr (upd v, input) | None \<Rightarrow> Inl msg)"

definition get_compact_pointer :: "VersionEdit \<Rightarrow> slice \<Rightarrow> string + VersionEdit \<times> slice" where
  "get_compact_pointer e input =
     (case GetLevel input of None \<Rightarrow> Inl ''compaction pointer''
      | Some (level, input) \<Rightarrow>
          (case GetInternalKey input of None \<Rightarrow> Inl ''compaction pointer''
           | Some (key, input) \<Rightarrow> Inr (e\<lparr>compact_pointers := compact_pointers e @ [(level, key)]\<rparr>, input)))"

definition get_deleted_file :: "VersionEdit \<Rightarrow> slice \<Rightarrow> string + VersionEdit \<times> slice" where
  "get_deleted_file e input =
     (case GetLevel input of None \<Rightarrow> Inl ''deleted file''
      | Some (level, input) \<Rightarrow>
          (case GetVarint64 input of None \<Rightarrow> Inl ''deleted file''
           | Some (number, input) \<Rightarrow>
               Inr (e\<lparr>deleted_files := set_insert pair_less (level, number) (deleted_files e)\<rparr>, input)))"

definition get_new_file :: "VersionEdit \<Rightarrow> slice \<Rightarrow> string + VersionEdit \<times> slice" where
  "get_new_file e input =
     (case GetLevel input of None \<Rightarrow> Inl ''new-file entry'' | Some (level, input) \<Rightarrow>
     (case GetVarint64 input of None \<Rightarrow> Inl ''new-file entry'' | Some (number, input) \<Rightarrow>
     (case GetVarint64 input of None \<Rightarrow> Inl ''new-file entry'' | Some (file_size, input) \<Rightarrow>
     (case GetInternalKey input of None \<Rightarrow> Inl ''new-file entry'' | Some (small, input) \<Rightarrow>
     (case GetInternalKey input of None \<Rightarrow> Inl ''new-file entry'' | Some (large, input) \<Rightarrow>
        let f = (new_FileMetaData number)\<lparr>f_number := number, f_file_size := file_size, smallest := small, largest := large\<rparr> in
        Inr (e\<lparr>new_files := new_files e @ [(level, f)]\<rparr>, input))))))"

definition decode_field :: "u32 \<Rightarrow> VersionEdit \<Rightarrow> slice \<Rightarrow> string + VersionEdit \<times> slice" where
  "decode_field tag e input =
     (if tag = tag_number kComparator then
        (case GetLengthPrefixedSlice input of
           Some (str, input) \<Rightarrow> Inr (e\<lparr>ve_comparator := str, has_comparator := True\<rparr>, input)
         | None \<Rightarrow> Inl ''comparator name'')
      else if tag = tag_number kLogNumber then
        get_number ''log number'' (\<lambda>v. e\<lparr>log_number := v, has_log_number := True\<rparr>) input
      else if tag = tag_number kPrevLogNumber then
        get_number ''previous log number'' (\<lambda>v. e\<lparr>prev_log_number := v, has_prev_log_number := True\<rparr>) input
      else if tag = tag_number kNextFileNumber then
        get_number ''next file number'' (\<lambda>v. e\<lparr>next_file_number := v, has_next_file_number := True\<rparr>) input
      else if tag = tag_number kLastSequence then
        get_number ''last sequence number'' (\<lambda>v. e\<lparr>last_sequence := v, has_last_sequence := True\<rparr>) input
      else if tag = tag_number kCompactPointer then get_compact_pointer e input
      else if tag = tag_number kDeletedFile then get_deleted_file e input
      else if tag = tag_number kNewFile then get_new_file e input
      else Inl ''unknown tag'')"

lemma Get_shorter:
  "GetVarint32 p = Some (v, q) \<Longrightarrow> length q < length p" "GetVarint64 p = Some (w, q) \<Longrightarrow> length q < length p"
  "GetLengthPrefixedSlice p = Some (s, q) \<Longrightarrow> length q < length p"
  using GetVarint32_consumes [of p v q] GetVarint64_consumes [of p w q] GetLengthPrefixedSlice_consumes [of p s q]
  by (auto simp: Suc_le_eq)

lemma GetLevel_shorter: "GetLevel p = Some (l, q) \<Longrightarrow> length q < length p"
  using Get_shorter(1) by (auto simp: GetLevel_def split: option.splits if_splits)

lemma GetInternalKey_shorter: "GetInternalKey p = Some (k, q) \<Longrightarrow> length q < length p"
  using Get_shorter(3) by (auto simp: GetInternalKey_def split: option.splits)

lemmas shorter = Get_shorter GetLevel_shorter GetInternalKey_shorter

lemma get_shorter:
  "get_number m f p = Inr (e', q) \<Longrightarrow> length q < length p"
  "get_compact_pointer e p = Inr (e', q) \<Longrightarrow> length q < length p"
  "get_deleted_file e p = Inr (e', q) \<Longrightarrow> length q < length p"
  "get_new_file e p = Inr (e', q) \<Longrightarrow> length q < length p"
  unfolding get_number_def get_compact_pointer_def get_deleted_file_def get_new_file_def Let_def
  by (auto dest!: shorter split: option.splits)

lemma decode_field_shorter: "decode_field tag e p = Inr (e', q) \<Longrightarrow> length q < length p"
  unfolding decode_field_def by (auto dest!: shorter(1-3) get_shorter split: if_splits option.splits)

function decode_loop :: "slice \<Rightarrow> VersionEdit \<Rightarrow> string option \<times> slice \<times> VersionEdit" where
  "decode_loop input e =
     (case GetVarint32 input of None \<Rightarrow> (None, input, e)
      | Some (tag, input) \<Rightarrow>
          (case decode_field tag e input of Inl msg \<Rightarrow> (Some msg, input, e)
           | Inr (e, input) \<Rightarrow> decode_loop input e))"
  by pat_completeness auto
termination
  by (relation "measure (\<lambda>(input, e). length input)") (auto dest!: Get_shorter(1) decode_field_shorter)

declare decode_loop.simps [simp del]

definition Edit_DecodeFrom :: "slice \<Rightarrow> VersionEdit \<Rightarrow> (Status \<times> VersionEdit) res" where
  "Edit_DecodeFrom src e =
     (let (msg, input, e) = decode_loop src (Edit_Clear e);
          msg = (if msg = None \<and> input \<noteq> [] then Some ''invalid tag'' else msg)
      in case msg of None \<Rightarrow> Inr (OK, e)
         | Some m \<Rightarrow> bind_res (Corruption (map char_byte ''VersionEdit'') (map char_byte m)) (\<lambda>s. Inr (s, e)))"

subsection \<open>Reading what was written\<close>

lemma decode_loop_tag:
  "decode_loop (EncodeVarint32 (tag_number t) @ p) e =
    (case decode_field (tag_number t) e p of Inl m \<Rightarrow> (Some m, p, e) | Inr (e, q) \<Rightarrow> decode_loop q e)"
  by (subst decode_loop.simps) simp

lemma decode_loop_end: "decode_loop [] e = (None, [], e)"
proof -
  have "GetVarint32 [] = None" using GetVarint32_consumes [of "[]"] by (cases "GetVarint32 []") auto
  then show ?thesis by (subst decode_loop.simps) simp
qed

lemma decode_field_tags:
  "decode_field (tag_number kComparator) e p =
    (case GetLengthPrefixedSlice p of
       Some (str, p) \<Rightarrow> Inr (e\<lparr>ve_comparator := str, has_comparator := True\<rparr>, p) | None \<Rightarrow> Inl ''comparator name'')"
  "decode_field (tag_number kLogNumber) e p = get_number ''log number'' (\<lambda>v. e\<lparr>log_number := v, has_log_number := True\<rparr>) p"
  "decode_field (tag_number kPrevLogNumber) e p =
    get_number ''previous log number'' (\<lambda>v. e\<lparr>prev_log_number := v, has_prev_log_number := True\<rparr>) p"
  "decode_field (tag_number kNextFileNumber) e p =
    get_number ''next file number'' (\<lambda>v. e\<lparr>next_file_number := v, has_next_file_number := True\<rparr>) p"
  "decode_field (tag_number kLastSequence) e p =
    get_number ''last sequence number'' (\<lambda>v. e\<lparr>last_sequence := v, has_last_sequence := True\<rparr>) p"
  "decode_field (tag_number kCompactPointer) e p = get_compact_pointer e p"
  "decode_field (tag_number kDeletedFile) e p = get_deleted_file e p"
  "decode_field (tag_number kNewFile) e p = get_new_file e p"
  by (simp_all add: decode_field_def tag_number_def)

definition level_ok :: "int \<Rightarrow> bool" where
  "level_ok l \<longleftrightarrow> 0 \<le> l \<and> l < kNumLevels"

definition key_fits :: "InternalKey \<Rightarrow> bool" where
  "key_fits k \<longleftrightarrow> k \<noteq> [] \<and> length k < 2 ^ 32"

text \<open>A file as \<open>AddFile\<close> makes it.\<close>

definition fresh_file :: "FileMetaData \<Rightarrow> bool" where
  "fresh_file f \<longleftrightarrow> f_refs f = 0 \<and> allowed_seeks f = 2 ^ 30"

definition set_ok :: "(int \<times> u64) list \<Rightarrow> bool" where
  "set_ok ds \<longleftrightarrow> sorted_wrt pair_less ds"

definition scalars_ok :: "VersionEdit \<Rightarrow> bool" where
  "scalars_ok e \<longleftrightarrow> length (ve_comparator e) < 2 ^ 32 \<and> (has_comparator e \<or> ve_comparator e = []) \<and>
     (has_log_number e \<or> log_number e = 0) \<and> (has_prev_log_number e \<or> prev_log_number e = 0) \<and>
     (has_next_file_number e \<or> next_file_number e = 0) \<and> (has_last_sequence e \<or> last_sequence e = 0)"

definition edit_ok :: "VersionEdit \<Rightarrow> bool" where
  "edit_ok e \<longleftrightarrow> scalars_ok e \<and> set_ok (deleted_files e) \<and> (\<forall>(l, n) \<in> set (deleted_files e). level_ok l) \<and>
     (\<forall>(l, k) \<in> set (compact_pointers e). level_ok l \<and> key_fits k) \<and>
     (\<forall>(l, f) \<in> set (new_files e). level_ok l \<and> fresh_file f \<and> key_fits (smallest f) \<and> key_fits (largest f))"

lemma GetLevel_put [simp]: "level_ok l \<Longrightarrow> GetLevel (EncodeVarint32 (of_int l) @ p) = Some (l, p)"
  by (simp add: GetLevel_def level_ok_def kNumLevels_def unsigned_of_int take_bit_int_eq_self)

lemma GetInternalKey_put [simp]: "key_fits k \<Longrightarrow> GetInternalKey (PutLengthPrefixedSlice [] k @ p) = Some (k, p)"
  by (simp add: GetInternalKey_def key_fits_def InternalKey_DecodeFrom_def GetLengthPrefixedSlice_Put)

lemma get_number_put [simp]: "get_number m f (EncodeVarint64 v @ p) = Inr (f v, p)"
  by (simp add: get_number_def)

lemma InternalKey_Encode_fits [simp]: "key_fits k \<Longrightarrow> InternalKey_Encode k = Inr k"
  by (simp add: key_fits_def)

lemma put_tag_append: "put_tag t dst = dst @ EncodeVarint32 (tag_number t)"
  by (simp add: put_tag_def PutVarint32_def)

text \<open>What is put is appended, and the loop reads it.\<close>

lemma put_compact_pointers_read:
  assumes "\<forall>(l, k) \<in> set ps. level_ok l \<and> key_fits k"
  shows "\<exists>b. (\<forall>dst. put_compact_pointers ps dst = Inr (dst @ b)) \<and>
    (\<forall>e r. decode_loop (b @ r) e = decode_loop r (e\<lparr>compact_pointers := compact_pointers e @ ps\<rparr>))"
  using assms
proof (induction ps)
  case (Cons x ps)
  obtain l k where x: "x = (l, k)" by (cases x)
  have ok: "level_ok l" "key_fits k" using Cons.prems x by auto
  obtain b where b: "\<And>dst. put_compact_pointers ps dst = Inr (dst @ b)"
    "\<And>e r. decode_loop (b @ r) e = decode_loop r (e\<lparr>compact_pointers := compact_pointers e @ ps\<rparr>)"
    using Cons by auto
  let ?a = "EncodeVarint32 (tag_number kCompactPointer) @ EncodeVarint32 (of_int l) @ PutLengthPrefixedSlice [] k"
  have "put_compact_pointers (x # ps) dst = Inr (dst @ ?a @ b)" for dst
    using ok b(1) by (simp add: x put_tag_append PutVarint32_def) (subst PutLengthPrefixedSlice_append, simp)
  moreover have "decode_loop ((?a @ b) @ r) e = decode_loop r (e\<lparr>compact_pointers := compact_pointers e @ x # ps\<rparr>)" for e r
    using ok b(2) by (simp add: x decode_loop_tag decode_field_tags get_compact_pointer_def)
  ultimately show ?case by blast
qed simp

lemma set_insert_last: "\<forall>y \<in> set ys. lt y x \<and> \<not> lt x y \<Longrightarrow> set_insert lt x ys = ys @ [x]"
  by (induction ys) auto

lemma pair_less_irrefl: "\<not> pair_less a a" and pair_less_asym: "pair_less a b \<Longrightarrow> \<not> pair_less b a"
  by (auto simp: pair_less_def)

lemma put_deleted_files_read:
  assumes "\<forall>(l, n) \<in> set ds. level_ok l" 
  shows "\<exists>b. (\<forall>dst. put_deleted_files ds dst = dst @ b) \<and>
    (\<forall>e r. set_ok (deleted_files e @ ds) \<longrightarrow> decode_loop (b @ r) e = decode_loop r (e\<lparr>deleted_files := deleted_files e @ ds\<rparr>))"
  using assms
proof (induction ds)
  case (Cons x ds)
  obtain l n where x: "x = (l, n)" by (cases x)
  have ok: "level_ok l" using Cons.prems x by auto
  obtain b where b: "\<And>dst. put_deleted_files ds dst = dst @ b"
    "\<And>e r. set_ok (deleted_files e @ ds) \<Longrightarrow> decode_loop (b @ r) e = decode_loop r (e\<lparr>deleted_files := deleted_files e @ ds\<rparr>)"
    using Cons by auto
  let ?a = "EncodeVarint32 (tag_number kDeletedFile) @ EncodeVarint32 (of_int l) @ EncodeVarint64 n"
  have "put_deleted_files (x # ds) dst = dst @ ?a @ b" for dst
    using b(1) by (simp add: x put_tag_append PutVarint32_def PutVarint64_def)
  moreover have "decode_loop ((?a @ b) @ r) e = decode_loop r (e\<lparr>deleted_files := deleted_files e @ x # ds\<rparr>)"
    if s: "set_ok (deleted_files e @ x # ds)" for e r
  proof -
    have "set_insert pair_less x (deleted_files e) = deleted_files e @ [x]"
      using s pair_less_asym by (intro set_insert_last) (auto simp: set_ok_def sorted_wrt_append)
    then show ?thesis
      using ok s b(2) [of "e\<lparr>deleted_files := deleted_files e @ [x]\<rparr>" r]
      by (simp add: x decode_loop_tag decode_field_tags get_deleted_file_def)
  qed
  ultimately show ?case by blast
qed simp

lemma put_new_files_read:
  assumes "\<forall>(l, f) \<in> set fs. level_ok l \<and> fresh_file f \<and> key_fits (smallest f) \<and> key_fits (largest f)"
  shows "\<exists>b. (\<forall>dst. put_new_files fs dst = Inr (dst @ b)) \<and>
    (\<forall>e r. decode_loop (b @ r) e = decode_loop r (e\<lparr>new_files := new_files e @ fs\<rparr>))"
  using assms
proof (induction fs)
  case (Cons x fs)
  obtain l f where x: "x = (l, f)" by (cases x)
  have ok: "level_ok l" "fresh_file f" "key_fits (smallest f)" "key_fits (largest f)" using Cons.prems x by auto
  obtain b where b: "\<And>dst. put_new_files fs dst = Inr (dst @ b)"
    "\<And>e r. decode_loop (b @ r) e = decode_loop r (e\<lparr>new_files := new_files e @ fs\<rparr>)"
    using Cons by auto
  let ?a = "EncodeVarint32 (tag_number kNewFile) @ EncodeVarint32 (of_int l) @ EncodeVarint64 (f_number f) @
    EncodeVarint64 (f_file_size f) @ PutLengthPrefixedSlice [] (smallest f) @ PutLengthPrefixedSlice [] (largest f)"
  have "PutLengthPrefixedSlice (PutLengthPrefixedSlice dst s) l' = dst @ PutLengthPrefixedSlice [] s @ PutLengthPrefixedSlice [] l'"
    for dst s l' by (metis PutLengthPrefixedSlice_append append_assoc)
  then have "put_new_files (x # fs) dst = Inr (dst @ ?a @ b)" for dst
    using ok b(1) by (simp add: x put_tag_append PutVarint32_def PutVarint64_def Let_def)
  moreover have "(new_FileMetaData (f_number f))\<lparr>f_number := f_number f, f_file_size := f_file_size f, smallest := smallest f,
      largest := largest f\<rparr> = f"
    using ok(2) by (simp add: fresh_file_def new_FileMetaData_def)
  then have "decode_loop ((?a @ b) @ r) e = decode_loop r (e\<lparr>new_files := new_files e @ x # fs\<rparr>)" for e r
    using ok b(2) by (simp add: x decode_loop_tag decode_field_tags get_new_file_def Let_def)
  ultimately show ?case by blast
qed simp

definition take_scalars :: "VersionEdit \<Rightarrow> VersionEdit \<Rightarrow> VersionEdit" where
  "take_scalars e e0 = e0\<lparr>ve_comparator := ve_comparator e, log_number := log_number e, prev_log_number := prev_log_number e,
     next_file_number := next_file_number e, last_sequence := last_sequence e, has_comparator := has_comparator e,
     has_log_number := has_log_number e, has_prev_log_number := has_prev_log_number e,
     has_next_file_number := has_next_file_number e, has_last_sequence := has_last_sequence e\<rparr>"

lemma put_scalars_read:
  assumes "scalars_ok e"
  shows "\<exists>b. (\<forall>dst. put_scalars e dst = dst @ b) \<and>
    (\<forall>e0 r. decode_loop (b @ r) (Edit_Clear e0) = decode_loop r (take_scalars e (Edit_Clear e0)))"
proof -
  let ?b = "\<lambda>c t v. if c then EncodeVarint32 (tag_number t) @ v else []"
  let ?all = "?b (has_comparator e) kComparator (PutLengthPrefixedSlice [] (ve_comparator e)) @
    ?b (has_log_number e) kLogNumber (EncodeVarint64 (log_number e)) @
    ?b (has_prev_log_number e) kPrevLogNumber (EncodeVarint64 (prev_log_number e)) @
    ?b (has_next_file_number e) kNextFileNumber (EncodeVarint64 (next_file_number e)) @
    ?b (has_last_sequence e) kLastSequence (EncodeVarint64 (last_sequence e))"
  have "PutLengthPrefixedSlice (dst @ x) s = dst @ x @ PutLengthPrefixedSlice [] s" for dst x s
    by (metis PutLengthPrefixedSlice_append append_assoc)
  then have "put_scalars e dst = dst @ ?all" for dst
    by (simp add: put_scalars_def put_tag_append PutVarint64_def Let_def)
  moreover have "decode_loop (?all @ r) (Edit_Clear e0) = decode_loop r (take_scalars e (Edit_Clear e0))" for e0 r
    using assms
    by (cases e0; cases "has_comparator e"; cases "has_log_number e"; cases "has_prev_log_number e"; cases "has_next_file_number e";
        cases "has_last_sequence e")
      (simp_all add: scalars_ok_def decode_loop_tag decode_field_tags GetLengthPrefixedSlice_Put take_scalars_def Edit_Clear_def)
  ultimately show ?thesis by blast
qed

text \<open>The bytes of an edit are appended, and the loop reads them whatever follows.\<close>

lemma edit_read:
  assumes "edit_ok e"
  shows "\<exists>b. (\<forall>dst. Edit_EncodeTo e dst = Inr (dst @ b)) \<and>
    (\<forall>e0 r. decode_loop (b @ r) (Edit_Clear e0) = decode_loop r (e\<lparr>compact_pointers := compact_pointers e0 @ compact_pointers e\<rparr>))"
proof -
  have ok: "scalars_ok e" "\<forall>(l, k) \<in> set (compact_pointers e). level_ok l \<and> key_fits k"
    "\<forall>(l, n) \<in> set (deleted_files e). level_ok l" "set_ok (deleted_files e)"
    "\<forall>(l, f) \<in> set (new_files e). level_ok l \<and> fresh_file f \<and> key_fits (smallest f) \<and> key_fits (largest f)"
    using assms by (auto simp: edit_ok_def)
  obtain b1 where b1: "\<And>dst. put_scalars e dst = dst @ b1"
    "\<And>e0 r. decode_loop (b1 @ r) (Edit_Clear e0) = decode_loop r (take_scalars e (Edit_Clear e0))"
    using put_scalars_read [OF ok(1)] by blast
  obtain b2 where b2: "\<And>dst. put_compact_pointers (compact_pointers e) dst = Inr (dst @ b2)"
    "\<And>e' r. decode_loop (b2 @ r) e' = decode_loop r (e'\<lparr>compact_pointers := compact_pointers e' @ compact_pointers e\<rparr>)"
    using put_compact_pointers_read [OF ok(2)] by blast
  obtain b3 where b3: "\<And>dst. put_deleted_files (deleted_files e) dst = dst @ b3"
    "\<And>e' r. set_ok (deleted_files e' @ deleted_files e) \<Longrightarrow>
      decode_loop (b3 @ r) e' = decode_loop r (e'\<lparr>deleted_files := deleted_files e' @ deleted_files e\<rparr>)"
    using put_deleted_files_read [OF ok(3)] by blast
  obtain b4 where b4: "\<And>dst. put_new_files (new_files e) dst = Inr (dst @ b4)"
    "\<And>e' r. decode_loop (b4 @ r) e' = decode_loop r (e'\<lparr>new_files := new_files e' @ new_files e\<rparr>)"
    using put_new_files_read [OF ok(5)] by blast
  have "decode_loop ((b1 @ b2 @ b3 @ b4) @ r) (Edit_Clear e0) =
      decode_loop r (e\<lparr>compact_pointers := compact_pointers e0 @ compact_pointers e\<rparr>)" for e0 r
  proof -
    let ?e1 = "take_scalars e (Edit_Clear e0)"
    let ?e2 = "?e1\<lparr>compact_pointers := compact_pointers ?e1 @ compact_pointers e\<rparr>"
    let ?e3 = "?e2\<lparr>deleted_files := deleted_files ?e2 @ deleted_files e\<rparr>"
    have "set_ok (deleted_files ?e2 @ deleted_files e)" using ok(4) by (simp add: take_scalars_def Edit_Clear_def)
    then have "decode_loop ((b1 @ b2 @ b3 @ b4) @ r) (Edit_Clear e0) = decode_loop r (?e3\<lparr>new_files := new_files ?e3 @ new_files e\<rparr>)"
      by (simp only: append_assoc b1(2) b2(2) b3(2) b4(2))
    also have "?e3\<lparr>new_files := new_files ?e3 @ new_files e\<rparr> =
        e\<lparr>compact_pointers := compact_pointers e0 @ compact_pointers e\<rparr>"
      by (cases e; cases e0) (simp add: take_scalars_def Edit_Clear_def)
    finally show ?thesis .
  qed
  moreover have "Edit_EncodeTo e dst = Inr (dst @ b1 @ b2 @ b3 @ b4)" for dst by (simp add: Edit_EncodeTo_def b1(1) b2(1) b3(1) b4(1))
  ultimately show ?thesis by (intro exI [of _ "b1 @ b2 @ b3 @ b4"]) blast
qed

text \<open>
  C20: a version edit that is written to the manifest is read back: into a new edit exactly, and into any other edit
  with the compaction pointers of that edit still in front, which \<open>Clear\<close> forgets to drop. The edit is one the setters make
  (\<open>edit_ok\<close>): levels in range, keys that are not empty and lengths of 32 bits, files as \<open>AddFile\<close> makes them, scalars that
  were not set at their initial values.
\<close>

theorem version_edit_roundtrip:
  assumes "edit_ok e"
  shows "\<exists>b. Edit_EncodeTo e dst = Inr (dst @ b) \<and>
    Edit_DecodeFrom b e0 = Inr (OK, e\<lparr>compact_pointers := compact_pointers e0 @ compact_pointers e\<rparr>)"
proof -
  obtain b where b: "Edit_EncodeTo e dst = Inr (dst @ b)"
    "\<And>r. decode_loop (b @ r) (Edit_Clear e0) = decode_loop r (e\<lparr>compact_pointers := compact_pointers e0 @ compact_pointers e\<rparr>)"
    using edit_read [OF assms] by blast
  then show ?thesis using b(2) [of "[]"] by (simp add: Edit_DecodeFrom_def decode_loop_end)
qed

theorem version_edit_roundtrip_witness:
  "let e = Edit_DeleteFile 3 8 (Edit_DeleteFile 2 9 (AddFile 1 12 4096 [97] [98] (SetLogNumber 300 (SetComparatorName [99] new_VersionEdit))));
       e0 = SetCompactPointer 6 [100] new_VersionEdit in
   \<exists>b. Edit_EncodeTo e [] = Inr ([] @ b) \<and> Edit_DecodeFrom b e0 = Inr (OK, e\<lparr>compact_pointers := [(6, [100])]\<rparr>)"
proof -
  let ?e = "Edit_DeleteFile 3 8 (Edit_DeleteFile 2 9 (AddFile 1 12 4096 [97] [98] (SetLogNumber 300 (SetComparatorName [99] new_VersionEdit))))"
  note defs = Edit_DeleteFile_def AddFile_def SetLogNumber_def SetComparatorName_def new_VersionEdit_def new_FileMetaData_def
    SetCompactPointer_def Let_def
  have "edit_ok ?e"
    by (simp add: defs edit_ok_def scalars_ok_def set_ok_def level_ok_def kNumLevels_def key_fits_def fresh_file_def pair_less_def)
  from version_edit_roundtrip [OF this, of "[]" "SetCompactPointer 6 [100] new_VersionEdit"] show ?thesis
    by (simp add: defs)
qed

subsection \<open>Reading anything\<close>

definition edit_typed :: "VersionEdit \<Rightarrow> bool" where
  "edit_typed e \<longleftrightarrow> set_ok (deleted_files e) \<and> (\<forall>d \<in> set (deleted_files e). level_ok (fst d)) \<and>
     (\<forall>p \<in> set (compact_pointers e). level_ok (fst p)) \<and>
     (\<forall>f \<in> set (new_files e). level_ok (fst f) \<and> fresh_file (snd f))"

lemma set_set_insert: "(\<And>y. \<not> lt x y \<Longrightarrow> \<not> lt y x \<Longrightarrow> x = y) \<Longrightarrow> set (set_insert lt x ys) = insert x (set ys)"
  by (induction ys) auto

lemma set_insert_sorted:
  assumes "\<And>a b c. lt a b \<Longrightarrow> lt b c \<Longrightarrow> lt a c" and "\<And>y. \<not> lt x y \<Longrightarrow> \<not> lt y x \<Longrightarrow> x = y" and "sorted_wrt lt ys"
  shows "sorted_wrt lt (set_insert lt x ys)"
  using assms(3)
proof (induction ys)
  case (Cons y ys)
  then show ?case using assms(1,2) set_set_insert [of lt x ys, OF assms(2)] by auto
qed simp

lemma pair_less_linear: "\<not> pair_less a b \<Longrightarrow> \<not> pair_less b a \<Longrightarrow> a = b"
  by (cases a; cases b) (auto simp: pair_less_def)

lemma pair_less_trans: "pair_less a b \<Longrightarrow> pair_less b c \<Longrightarrow> pair_less a c"
  by (auto simp: pair_less_def)

lemma insert_deleted_typed:
  "set_ok ds \<Longrightarrow> set_ok (set_insert pair_less x ds) \<and> set (set_insert pair_less x ds) = insert x (set ds)"
  using set_insert_sorted [of pair_less x ds] set_set_insert [of pair_less x ds] pair_less_trans pair_less_linear
  by (auto simp: set_ok_def)

lemma GetLevel_ok: "GetLevel p = Some (l, q) \<Longrightarrow> level_ok l"
  by (auto simp: GetLevel_def level_ok_def split: option.splits if_splits)

lemma decode_field_typed:
  assumes "decode_field tag e p = Inr (e', q)" and "edit_typed e"
  shows "edit_typed e'"
proof -
  have n: "get_number m f p = Inr (e', q) \<Longrightarrow> (\<And>v. edit_typed (f v)) \<Longrightarrow> edit_typed e'" for m f
    by (auto simp: get_number_def split: option.splits)
  have fields: "edit_typed (e\<lparr>ve_comparator := c, has_comparator := b\<rparr>)" "edit_typed (e\<lparr>log_number := v, has_log_number := b\<rparr>)"
    "edit_typed (e\<lparr>prev_log_number := v, has_prev_log_number := b\<rparr>)" "edit_typed (e\<lparr>next_file_number := v, has_next_file_number := b\<rparr>)"
    "edit_typed (e\<lparr>last_sequence := v, has_last_sequence := b\<rparr>)" for c v b
    using assms(2) by (simp_all add: edit_typed_def)
  have c: "edit_typed e'" if r: "get_compact_pointer e p = Inr (e', q)"
  proof -
    obtain l k r' where "GetLevel p = Some (l, r')" "e' = e\<lparr>compact_pointers := compact_pointers e @ [(l, k)]\<rparr>"
      using r by (auto simp: get_compact_pointer_def split: option.splits)
    then show ?thesis using assms(2) GetLevel_ok [of p l r'] by (simp add: edit_typed_def)
  qed
  have d: "edit_typed e'" if r: "get_deleted_file e p = Inr (e', q)"
  proof -
    obtain l n r' where "GetLevel p = Some (l, r')" "e' = e\<lparr>deleted_files := set_insert pair_less (l, n) (deleted_files e)\<rparr>"
      using r by (auto simp: get_deleted_file_def split: option.splits)
    then show ?thesis using assms(2) GetLevel_ok [of p l r'] insert_deleted_typed [of "deleted_files e" "(l, n)"]
      by (simp add: edit_typed_def)
  qed
  have f: "edit_typed e'" if r: "get_new_file e p = Inr (e', q)"
  proof -
    obtain l r' f where "GetLevel p = Some (l, r')" "e' = e\<lparr>new_files := new_files e @ [(l, f)]\<rparr>" "fresh_file f"
      using r by (fastforce simp: get_new_file_def fresh_file_def new_FileMetaData_def Let_def split: option.splits)
    then show ?thesis using assms(2) GetLevel_ok [of p l r'] by (simp add: edit_typed_def)
  qed
  show ?thesis
    using assms(1) fields n c d f unfolding decode_field_def by (auto split: if_splits option.splits)
qed

lemma decode_loop_typed: "edit_typed e \<Longrightarrow> edit_typed (snd (snd (decode_loop p e)))"
proof (induction p e rule: decode_loop.induct)
  case (1 p e)
  then show ?case using decode_field_typed by (subst decode_loop.simps) (auto split: option.splits sum.splits)
qed

lemma decode_field_message: "decode_field tag e p = Inl m \<Longrightarrow> length m < 30"
  unfolding decode_field_def get_number_def get_compact_pointer_def get_deleted_file_def get_new_file_def Let_def
  by (auto split: if_splits option.splits)

lemma decode_loop_message: "fst (decode_loop p e) = Some m \<Longrightarrow> length m < 30"
proof (induction p e rule: decode_loop.induct)
  case (1 p e)
  have "fst (decode_loop p e) = (case GetVarint32 p of None \<Rightarrow> None | Some (tag, p) \<Rightarrow>
      (case decode_field tag e p of Inl msg \<Rightarrow> Some msg | Inr (e, p) \<Rightarrow> fst (decode_loop p e)))"
    by (subst decode_loop.simps) (simp split: option.split sum.split prod.split)
  then show ?case using 1 decode_field_message by (auto split: option.splits sum.splits)
qed

text \<open>
  C27: whatever bytes the manifest holds, decoding them into an edit whose own compaction pointers have valid levels (a new
  one has none, and \<open>Clear\<close> keeps them) returns, with \<open>OK\<close> or a corruption, and every level in
  the edit is one of the seven, so that it can index the levels of a version; files are fresh and deletions sorted.
\<close>

theorem DecodeFrom_typed:
  assumes "\<forall>p \<in> set (compact_pointers e0). level_ok (fst p)"
  shows "\<exists>s e. Edit_DecodeFrom src e0 = Inr (s, e) \<and> edit_typed e \<and> (s = OK \<or> status_code s = Inr (code_number kCorruption))"
proof -
  obtain m q e where r: "decode_loop src (Edit_Clear e0) = (m, q, e)" by (cases "decode_loop src (Edit_Clear e0)") auto
  have "edit_typed (Edit_Clear e0)" using assms by (simp add: edit_typed_def Edit_Clear_def set_ok_def)
  from decode_loop_typed [OF this, of src] have t: "edit_typed e" by (simp add: r)
  define m' where "m' = (if m = None \<and> q \<noteq> [] then Some ''invalid tag'' else m)"
  have short: "length x < 30" if "m' = Some x" for x
    using that decode_loop_message [of src "Edit_Clear e0" x] by (auto simp: m'_def r split: if_splits)
  have d: "Edit_DecodeFrom src e0 = (case m' of None \<Rightarrow> Inr (OK, e)
      | Some m \<Rightarrow> bind_res (Corruption (map char_byte ''VersionEdit'') (map char_byte m)) (\<lambda>s. Inr (s, e)))"
    unfolding Edit_DecodeFrom_def r m'_def Let_def by (simp only: case_prod_conv)
  show ?thesis
  proof (cases m')
    case (Some x)
    then obtain s where "Corruption (map char_byte ''VersionEdit'') (map char_byte x) = Inr s" "status_code s = Inr (code_number kCorruption)"
      using status_roundtrip [of kCorruption "map char_byte ''VersionEdit''" "map char_byte x"] short [OF Some]
      by (auto simp: Corruption_def)
    then show ?thesis using d Some t by simp
  qed (use d t in simp)
qed

theorem DecodeFrom_typed_witness:
  "\<exists>s e. Edit_DecodeFrom [6, 7, 1] (SetCompactPointer 2 [1] new_VersionEdit) = Inr (s, e) \<and> edit_typed e \<and>
    (s = OK \<or> status_code s = Inr (code_number kCorruption))"
  by (rule DecodeFrom_typed) (simp add: SetCompactPointer_def new_VersionEdit_def level_ok_def kNumLevels_def)

lemma put_empty_pointer: "put_compact_pointers (ps @ [(l, [])]) dst = Inl AssertFail" if "\<forall>(l, k) \<in> set ps. key_fits k"
  using that by (induction ps arbitrary: dst) (auto simp: InternalKey_Encode_def key_fits_def)

text \<open>
  C38: an empty key passes the reader of edits but not the writer. To the bytes of any edit that can be written (levels in
  range, keys that are not empty, lengths of 32 bits) a compaction pointer with an empty key is appended. What results
  decodes with \<open>OK\<close> exactly if the level of the pointer is one of the seven, into the edit with the pointer added, and
  with a corruption otherwise; and encoding the edit that was accepted always fails the assertion of
  \<open>InternalKey::Encode\<close>. The assertion is there in builds without \<open>NDEBUG\<close>; the default of the library's \<open>Makefile\<close>
  defines it.
\<close>

theorem empty_key_accepted:
  fixes level :: u32
  assumes "edit_ok e" and "Edit_EncodeTo e [] = Inr src"
  defines "bytes \<equiv> PutLengthPrefixedSlice (PutVarint32 (put_tag kCompactPointer src) level) []"
  shows "\<exists>s e'. Edit_DecodeFrom bytes new_VersionEdit = Inr (s, e') \<and>
    (if uint level < kNumLevels
     then s = OK \<and> e' = e\<lparr>compact_pointers := compact_pointers e @ [(uint level, [])]\<rparr> \<and> Edit_EncodeTo e' dst = Inl AssertFail
     else status_code s = Inr (code_number kCorruption))"
proof -
  obtain b where b: "\<And>dst. Edit_EncodeTo e dst = Inr (dst @ b)"
    "\<And>e0 r. decode_loop (b @ r) (Edit_Clear e0) = decode_loop r (e\<lparr>compact_pointers := compact_pointers e0 @ compact_pointers e\<rparr>)"
    using edit_read [OF assms(1)] by blast
  define tail where "tail = EncodeVarint32 level @ PutLengthPrefixedSlice [] []"
  have "src = b" using assms(2) b(1) by simp
  then have bytes: "bytes = b @ EncodeVarint32 (tag_number kCompactPointer) @ tail"
    by (simp add: bytes_def tail_def put_tag_append PutVarint32_def) (subst PutLengthPrefixedSlice_append, simp)
  have e: "e\<lparr>compact_pointers := compact_pointers new_VersionEdit @ compact_pointers e\<rparr> = e" by (simp add: new_VersionEdit_def)
  have run: "decode_loop bytes (Edit_Clear new_VersionEdit) =
      (case get_compact_pointer e tail of Inl m \<Rightarrow> (Some m, tail, e) | Inr (e, q) \<Rightarrow> decode_loop q e)"
    unfolding bytes b(2) decode_loop_tag decode_field_tags by (simp only: e)
  have key: "GetInternalKey (PutLengthPrefixedSlice [] []) = Some ([], [])"
    using GetLengthPrefixedSlice_Put [of "[]" "[]"] by (simp add: GetInternalKey_def InternalKey_DecodeFrom_def)
  show ?thesis
  proof (cases "uint level < kNumLevels")
    case True
    then have "get_compact_pointer e tail = Inr (e\<lparr>compact_pointers := compact_pointers e @ [(uint level, [])]\<rparr>, [])"
      by (simp add: get_compact_pointer_def tail_def GetLevel_def key)
    moreover have "\<forall>(l, k) \<in> set (compact_pointers e). key_fits k" using assms(1) by (auto simp: edit_ok_def)
    ultimately show ?thesis
      using True run put_empty_pointer by (simp add: Edit_DecodeFrom_def decode_loop_end Edit_EncodeTo_def)
  next
    case False
    then have "get_compact_pointer e tail = Inl ''compaction pointer''"
      by (simp add: get_compact_pointer_def tail_def GetLevel_def)
    then have "Edit_DecodeFrom bytes new_VersionEdit =
        bind_res (Corruption (map char_byte ''VersionEdit'') (map char_byte ''compaction pointer'')) (\<lambda>s. Inr (s, e))"
      by (simp add: Edit_DecodeFrom_def run)
    then show ?thesis
      using False status_roundtrip [of kCorruption "map char_byte ''VersionEdit''" "map char_byte ''compaction pointer''"]
      by (auto simp: Corruption_def)
  qed
qed

theorem empty_key_accepted_witness:
  "let e = SetLogNumber 300 new_VersionEdit in
   \<exists>src. Edit_EncodeTo e [] = Inr src \<and>
    Edit_DecodeFrom (PutLengthPrefixedSlice (PutVarint32 (put_tag kCompactPointer src) 6) []) new_VersionEdit =
      Inr (OK, e\<lparr>compact_pointers := [(6, [])]\<rparr>) \<and>
    Edit_EncodeTo (e\<lparr>compact_pointers := [(6, [])]\<rparr>) [] = Inl AssertFail"
proof -
  let ?e = "SetLogNumber 300 new_VersionEdit"
  have e: "edit_ok ?e"
    by (simp add: SetLogNumber_def new_VersionEdit_def edit_ok_def scalars_ok_def set_ok_def)
  obtain src where src: "Edit_EncodeTo ?e [] = Inr src" using edit_read [OF e] by blast
  have "compact_pointers ?e = []" by (simp add: SetLogNumber_def new_VersionEdit_def)
  then show ?thesis using empty_key_accepted [OF e src, of 6 "[]"] src by (simp add: kNumLevels_def Let_def)
qed

subsection \<open>The text of an edit\<close>

definition number_text :: "int \<Rightarrow> string" where
  "number_text i = NumberToString (of_int i)"

fun pointers_text :: "(int \<times> InternalKey) list \<Rightarrow> string res" where
  "pointers_text [] = Inr []"
| "pointers_text ((level, key) # ps) =
     bind_res (InternalKey_DebugString key) (\<lambda>k. bind_res (pointers_text ps) (\<lambda>r.
       Inr ([CHR 10] @ ''  CompactPointer: '' @ number_text level @ '' '' @ k @ r)))"

fun files_text :: "(int \<times> FileMetaData) list \<Rightarrow> string res" where
  "files_text [] = Inr []"
| "files_text ((level, f) # fs) =
     bind_res (InternalKey_DebugString (smallest f)) (\<lambda>s.
     bind_res (InternalKey_DebugString (largest f)) (\<lambda>l.
     bind_res (files_text fs) (\<lambda>r.
       Inr ([CHR 10] @ ''  AddFile: '' @ number_text level @ '' '' @ NumberToString (f_number f) @ '' '' @
         NumberToString (f_file_size f) @ '' '' @ s @ '' .. '' @ l @ r))))"

definition Edit_DebugString :: "VersionEdit \<Rightarrow> string res" where
  "Edit_DebugString e =
     bind_res (pointers_text (compact_pointers e)) (\<lambda>ps.
     bind_res (files_text (new_files e)) (\<lambda>fs.
       Inr (''VersionEdit {'' @
         (if has_comparator e then [CHR 10] @ ''  Comparator: '' @ map byte_char (ve_comparator e) else []) @
         (if has_log_number e then [CHR 10] @ ''  LogNumber: '' @ NumberToString (log_number e) else []) @
         (if has_prev_log_number e then [CHR 10] @ ''  PrevLogNumber: '' @ NumberToString (prev_log_number e) else []) @
         (if has_next_file_number e then [CHR 10] @ ''  NextFile: '' @ NumberToString (next_file_number e) else []) @
         (if has_last_sequence e then [CHR 10] @ ''  LastSeq: '' @ NumberToString (last_sequence e) else []) @
         ps @
         concat (map (\<lambda>(level, n). [CHR 10] @ ''  DeleteFile: '' @ number_text level @ '' '' @ NumberToString n) (deleted_files e)) @
         fs @ [CHR 10] @ ''}'' @ [CHR 10])))"

end
