(* ===== verification/Version_Files.thy ===== *)
theory Version_Files
  imports Version_Edit Iterators
begin

section \<open>The files of a version\<close>

text \<open>
  \<open>leveldb-mcpe/db/version_set.cc\<close>, the searches over the files of a level: a level is the list of its files, the levels
  from 1 on are sorted and disjoint. A missing bound of a range is \<open>None\<close>. Numbers of files fit 32 bits as in the code.
\<close>

definition TotalFileSize :: "FileMetaData list \<Rightarrow> int" where
  "TotalFileSize files = sint (fold (\<lambda>f sum. sum + f_file_size f) files (0 :: u64))"

text \<open>The binary search; one unit of fuel for each file is enough.\<close>

fun find_file_loop :: "nat \<Rightarrow> comparator \<Rightarrow> FileMetaData list \<Rightarrow> slice \<Rightarrow> u32 \<Rightarrow> u32 \<Rightarrow> u32 res" where
  "find_file_loop fuel icmp files key left right =
     (if left < right then
        (case fuel of 0 \<Rightarrow> Inl OutOfFuel
         | Suc fuel \<Rightarrow>
             let mid = (left + right) div 2 in
             bind_res (vec_at files (uint mid)) (\<lambda>f.
             bind_res (InternalKey_Encode (largest f)) (\<lambda>l.
             bind_res (Compare icmp l key) (\<lambda>r.
               if r < 0 then find_file_loop fuel icmp files key (mid + 1) right
               else find_file_loop fuel icmp files key left mid))))
      else Inr right)"

declare find_file_loop.simps [simp del]

definition FindFile :: "comparator \<Rightarrow> FileMetaData list \<Rightarrow> slice \<Rightarrow> int res" where
  "FindFile icmp files key =
     bind_res (find_file_loop (length files) icmp files key 0 (of_nat (length files))) (\<lambda>r. Inr (sint r))"

definition AfterFile :: "comparator \<Rightarrow> slice option \<Rightarrow> FileMetaData \<Rightarrow> bool res" where
  "AfterFile ucmp ukey f =
     (case ukey of None \<Rightarrow> Inr False
      | Some k \<Rightarrow>
          bind_res (InternalKey_user_key (largest f)) (\<lambda>l. bind_res (Compare ucmp k l) (\<lambda>r. Inr (r > 0))))"

definition BeforeFile :: "comparator \<Rightarrow> slice option \<Rightarrow> FileMetaData \<Rightarrow> bool res" where
  "BeforeFile ucmp ukey f =
     (case ukey of None \<Rightarrow> Inr False
      | Some k \<Rightarrow>
          bind_res (InternalKey_user_key (smallest f)) (\<lambda>s. bind_res (Compare ucmp k s) (\<lambda>r. Inr (r < 0))))"

fun overlaps_any :: "comparator \<Rightarrow> FileMetaData list \<Rightarrow> slice option \<Rightarrow> slice option \<Rightarrow> bool res" where
  "overlaps_any ucmp [] small large = Inr False"
| "overlaps_any ucmp (f # fs) small large =
     bind_res (AfterFile ucmp small f) (\<lambda>after.
     bind_res (if after then Inr True else BeforeFile ucmp large f) (\<lambda>apart.
       if apart then overlaps_any ucmp fs small large else Inr True))"

text \<open>The comparator of internal keys is the one over \<open>ucmp\<close>.\<close>

definition SomeFileOverlapsRange :: "comparator \<Rightarrow> bool \<Rightarrow> FileMetaData list \<Rightarrow> slice option \<Rightarrow> slice option \<Rightarrow> bool res" where
  "SomeFileOverlapsRange ucmp disjoint files small large =
     (if \<not> disjoint then overlaps_any ucmp files small large
      else
        bind_res (case small of None \<Rightarrow> Inr 0
          | Some k \<Rightarrow>
              bind_res (new_InternalKey k kMaxSequenceNumber kValueTypeForSeek) (\<lambda>s.
              bind_res (InternalKey_Encode s) (\<lambda>s. FindFile (InternalKeyComparator ucmp) files s))) (\<lambda>index.
        let index = (of_int index :: u32) in
        if uint index \<ge> int (length files) then Inr False
        else
          bind_res (vec_at files (uint index)) (\<lambda>f.
          bind_res (BeforeFile ucmp large f) (\<lambda>b. Inr (\<not> b)))))"

subsection \<open>The iterator over the files of a level\<close>

record LevelFileNumIterator =
  lf_icmp :: comparator
  lf_flist :: "FileMetaData list"
  lf_index :: u32

definition new_LevelFileNumIterator :: "comparator \<Rightarrow> FileMetaData list \<Rightarrow> LevelFileNumIterator" where
  "new_LevelFileNumIterator icmp flist = \<lparr>lf_icmp = icmp, lf_flist = flist, lf_index = of_nat (length flist)\<rparr>"

definition lf_Valid :: "LevelFileNumIterator \<Rightarrow> bool" where
  "lf_Valid x \<longleftrightarrow> unat (lf_index x) < length (lf_flist x)"

definition lf_Seek :: "slice \<Rightarrow> LevelFileNumIterator \<Rightarrow> LevelFileNumIterator res" where
  "lf_Seek target x = bind_res (FindFile (lf_icmp x) (lf_flist x) target) (\<lambda>i. Inr (x\<lparr>lf_index := of_int i\<rparr>))"

definition lf_SeekToFirst :: "LevelFileNumIterator \<Rightarrow> LevelFileNumIterator res" where
  "lf_SeekToFirst x = Inr (x\<lparr>lf_index := 0\<rparr>)"

definition lf_SeekToLast :: "LevelFileNumIterator \<Rightarrow> LevelFileNumIterator res" where
  "lf_SeekToLast x = Inr (x\<lparr>lf_index := (if lf_flist x = [] then 0 else of_nat (length (lf_flist x) - 1))\<rparr>)"

definition lf_Next :: "LevelFileNumIterator \<Rightarrow> LevelFileNumIterator res" where
  "lf_Next x = bind_res (guard_res (lf_Valid x) AssertFail) (\<lambda>_. Inr (x\<lparr>lf_index := lf_index x + 1\<rparr>))"

definition lf_Prev :: "LevelFileNumIterator \<Rightarrow> LevelFileNumIterator res" where
  "lf_Prev x =
     bind_res (guard_res (lf_Valid x) AssertFail) (\<lambda>_.
       Inr (x\<lparr>lf_index := (if lf_index x = 0 then of_nat (length (lf_flist x)) else lf_index x - 1)\<rparr>))"

definition lf_key :: "LevelFileNumIterator \<Rightarrow> slice res" where
  "lf_key x =
     bind_res (guard_res (lf_Valid x) AssertFail) (\<lambda>_.
     bind_res (vec_at (lf_flist x) (uint (lf_index x))) (\<lambda>f. InternalKey_Encode (largest f)))"

definition file_value :: "FileMetaData \<Rightarrow> slice" where
  "file_value f = EncodeFixed64 (f_number f) @ EncodeFixed64 (f_file_size f)"

definition lf_value :: "LevelFileNumIterator \<Rightarrow> slice res" where
  "lf_value x =
     bind_res (guard_res (lf_Valid x) AssertFail) (\<lambda>_.
     bind_res (vec_at (lf_flist x) (uint (lf_index x))) (\<lambda>f. Inr (file_value f)))"

definition level_file_iterator :: "LevelFileNumIterator iterator" where
  "level_file_iterator =
     \<lparr>it_Valid = lf_Valid, it_SeekToFirst = lf_SeekToFirst, it_SeekToLast = lf_SeekToLast, it_Seek = lf_Seek,
      it_Next = lf_Next, it_Prev = lf_Prev, it_key = lf_key, it_value = lf_value, it_status = (\<lambda>_. Inr OK)\<rparr>"

subsection \<open>The search\<close>

lemma vec_at_word [simp]: "unat i < length xs \<Longrightarrow> vec_at xs (uint i) = Inr (xs ! unat i)"
  using vec_at_nat [of "unat i" xs] by simp

lemma middle:
  assumes "(l :: u32) < r" and "unat r < 2 ^ 31"
  shows "l \<le> (l + r) div 2" and "(l + r) div 2 < r" and "unat ((l + r) div 2) = (unat l + unat r) div 2"
    and "unat ((l + r) div 2 + 1) = (unat l + unat r) div 2 + 1"
proof -
  have lr: "unat l < unat r" using assms(1) by (simp add: word_less_nat_alt)
  then have "unat (l + r) = unat l + unat r" using assms(2) by (simp add: unat_word_ariths)
  then show m: "unat ((l + r) div 2) = (unat l + unat r) div 2" by (simp add: unat_div)
  show "l \<le> (l + r) div 2" "(l + r) div 2 < r" using lr by (simp_all only: word_le_nat_alt word_less_nat_alt m)
  show "unat ((l + r) div 2 + 1) = (unat l + unat r) div 2 + 1"
    using lr assms(2) by (simp add: unat_word_ariths m)
qed

context key_order
begin

text \<open>The largest keys of a level, in order.\<close>

definition level_keys :: "FileMetaData list \<Rightarrow> slice list" where
  "level_keys files = map largest files"

definition files_before :: "slice \<Rightarrow> FileMetaData list \<Rightarrow> nat" where
  "files_before key files = length (filter (\<lambda>f. before (largest f) key) files)"

definition level_sorted :: "FileMetaData list \<Rightarrow> bool" where
  "level_sorted files \<longleftrightarrow> increasing (map largest files) \<and> length files < 2 ^ 31 \<and> (\<forall>f \<in> set files. largest f \<noteq> [])"

lemma files_before_index:
  assumes "increasing (map largest files)" and "valid key" and "i < length files"
  shows "before (largest (files ! i)) key \<longleftrightarrow> i < files_before key files"
  using assms(1,3)
proof (induction files arbitrary: i)
  case (Cons f files)
  have inc: "increasing (map largest files)" using Cons.prems(1) by (simp add: increasing_def)
  show ?case
  proof (cases "before (largest f) key")
    case True
    then show ?thesis using Cons.IH [OF inc] Cons.prems(2) by (cases i) (auto simp: files_before_def)
  next
    case False
    have later: "\<not> before (largest g) key" if "g \<in> set files" for g
    proof
      assume g: "before (largest g) key"
      have "before (largest f) (largest g)" "valid (largest f)" "valid (largest g)"
        using Cons.prems(1) that by (auto simp: increasing_def)
      then show False using before_trans [of "largest f" "largest g" key] g False assms(2) by blast
    qed
    then have "files_before key (f # files) = 0" using False by (auto simp: files_before_def filter_empty_conv)
    then show ?thesis using False later Cons.prems(2) by (cases i) auto
  qed
qed simp

lemma find_file_loop_ok:
  assumes "level_sorted files" and "valid key" and "unat left \<le> files_before key files" and "files_before key files \<le> unat right"
    and "unat right \<le> length files" and "unat right - unat left \<le> fuel"
  shows "\<exists>r. find_file_loop fuel cmp files key left right = Inr r \<and> unat r = files_before key files"
  using assms(3-6)
proof (induction fuel arbitrary: left right)
  case 0
  then have "unat left = unat right" by linarith
  then show ?case using 0 by (subst find_file_loop.simps) (simp add: word_less_nat_alt)
next
  case (Suc fuel)
  show ?case
  proof (cases "left < right")
    case False
    then have "unat right = files_before key files" using Suc.prems by (simp add: word_less_nat_alt)
    then show ?thesis using False by (subst find_file_loop.simps) simp
  next
    case True
    let ?m = "(left + right) div 2"
    have "unat right < 2 ^ 31" using Suc.prems(3) assms(1) by (simp add: level_sorted_def)
    note m = middle [OF True this]
    have lr: "unat left < unat right" using True by (simp add: word_less_nat_alt)
    then have ml: "unat ?m < length files" using m(3) Suc.prems(3) by linarith
    have v: "valid (largest (files ! unat ?m))" "largest (files ! unat ?m) \<noteq> []" "increasing (map largest files)"
      using assms(1) ml by (auto simp: level_sorted_def increasing_def)
    obtain r where r: "Compare cmp (largest (files ! unat ?m)) key = Inr r" "r < 0 \<longleftrightarrow> unat ?m < files_before key files"
      using compare_before [OF v(1) assms(2)] files_before_index [OF v(3) assms(2) ml] by auto
    have step: "find_file_loop (Suc fuel) cmp files key left right =
        (if r < 0 then find_file_loop fuel cmp files key (?m + 1) right else find_file_loop fuel cmp files key left ?m)"
      using True ml v(2) r(1) by (subst find_file_loop.simps) (simp add: Let_def)
    show ?thesis
    proof (cases "r < 0")
      case less: True
      have "unat (?m + 1) \<le> files_before key files" "unat right - unat (?m + 1) \<le> fuel"
        using less r(2) m(3,4) Suc.prems(4) lr by simp_all
      then show ?thesis using Suc.IH [of "?m + 1" right] Suc.prems(2,3) step less by simp
    next
      case False
      have "files_before key files \<le> unat ?m" "unat ?m - unat left \<le> fuel" "unat ?m \<le> length files"
        using False r(2) m(3) Suc.prems(4) lr ml by simp_all
      then show ?thesis using Suc.IH [of left ?m] Suc.prems(1) step False by simp
    qed
  qed
qed

lemma FindFile_ok:
  assumes "level_sorted files" and "valid key"
  shows "FindFile cmp files key = Inr (int (files_before key files))"
proof -
  have n: "files_before key files \<le> length files" by (simp add: files_before_def)
  have l: "unat (of_nat (length files) :: u32) = length files"
    using assms(1) by (intro unat_of_nat_small) (simp add: level_sorted_def)
  obtain r where r: "find_file_loop (length files) cmp files key 0 (of_nat (length files)) = Inr r" "unat r = files_before key files"
    using find_file_loop_ok [OF assms, of 0 "of_nat (length files)" "length files"] n l by auto
  have "unat r < 2 ^ 31" using r(2) n assms(1) by (simp add: level_sorted_def)
  then have "sint r = int (files_before key files)" by (simp only: sint_small r(2))
  then show ?thesis by (simp only: FindFile_def r(1) bind_res_Inr)
qed

text \<open>The iterator over the files.\<close>

definition file_pairs :: "FileMetaData list \<Rightarrow> (slice \<times> slice) list" where
  "file_pairs files = map (\<lambda>f. (largest f, file_value f)) files"

lemma rank_file_pairs: "rank before key (file_pairs files) = files_before key files"
  by (simp add: rank_def file_pairs_def files_before_def filter_map comp_def case_prod_unfold)

definition lf_at :: "(slice \<times> slice) list \<Rightarrow> nat \<Rightarrow> LevelFileNumIterator \<Rightarrow> bool" where
  "lf_at kvs i x \<longleftrightarrow> lf_icmp x = cmp \<and> level_sorted (lf_flist x) \<and> kvs = file_pairs (lf_flist x) \<and> unat (lf_index x) = i \<and>
     i \<le> length kvs"

lemma lf_atD:
  assumes "lf_at kvs i x"
  shows "length kvs = length (lf_flist x)" "length kvs < 2 ^ 31" "lf_Valid x \<longleftrightarrow> i < length kvs" "unat (lf_index x) = i"
    "unat (of_nat (length (lf_flist x)) :: u32) = length kvs"
proof -
  show l: "length kvs = length (lf_flist x)" "length kvs < 2 ^ 31" "unat (lf_index x) = i"
    using assms by (auto simp: lf_at_def file_pairs_def level_sorted_def)
  show "lf_Valid x \<longleftrightarrow> i < length kvs" using l by (simp add: lf_Valid_def)
  show "unat (of_nat (length (lf_flist x)) :: u32) = length kvs" using l by (simp add: unat_of_nat_small)
qed

lemma lf_at_move: "lf_at kvs i x \<Longrightarrow> unat j = k \<Longrightarrow> k \<le> length kvs \<Longrightarrow> lf_at kvs k (x\<lparr>lf_index := j\<rparr>)"
  by (auto simp: lf_at_def)

lemma level_files_sorted: "sorted_iterator cmp valid before level_file_iterator lf_at"
proof unfold_locales
  fix kvs i x
  assume at: "lf_at kvs i x"
  note d = lf_atD [OF at]
  note simps = level_file_iterator_def iterator.simps
  have k: "kvs = file_pairs (lf_flist x)" "level_sorted (lf_flist x)" "lf_icmp x = cmp" using at by (simp_all add: lf_at_def)
  show "increasing (map fst kvs) \<and> i \<le> length kvs"
    using at by (auto simp: lf_at_def file_pairs_def level_sorted_def comp_def)
  show "it_Valid level_file_iterator x \<longleftrightarrow> i < length kvs" by (simp add: simps d(3))
  show "it_key level_file_iterator x = Inr (fst (kvs ! i))" "it_value level_file_iterator x = Inr (snd (kvs ! i))" if "i < length kvs"
    using that d k by (simp_all add: simps lf_key_def lf_value_def file_pairs_def level_sorted_def)
  show "it_status level_file_iterator x = Inr OK" by (simp add: simps)
  show "\<exists>s'. it_SeekToFirst level_file_iterator x = Inr s' \<and> lf_at kvs 0 s'"
    using lf_at_move [OF at, of 0 0] by (simp add: simps lf_SeekToFirst_def)
  show "\<exists>s'. it_SeekToLast level_file_iterator x = Inr s' \<and> lf_at kvs (length kvs - 1) s'"
  proof -
    have "unat (if lf_flist x = [] then 0 else of_nat (length (lf_flist x) - 1) :: u32) = length kvs - 1"
      using d(1,2) by (auto simp: unat_of_nat_small)
    from lf_at_move [OF at this] show ?thesis by (simp add: simps lf_SeekToLast_def)
  qed
  show "\<exists>s'. it_Seek level_file_iterator t x = Inr s' \<and> lf_at kvs (rank before t kvs) s'" if "valid t" for t
  proof -
    have n: "rank before t kvs = files_before t (lf_flist x)" by (simp add: k(1) rank_file_pairs)
    moreover have "files_before t (lf_flist x) \<le> length kvs" by (simp add: d(1) files_before_def)
    moreover from this have "unat (of_int (int (files_before t (lf_flist x))) :: u32) = files_before t (lf_flist x)"
      using d(2) by (simp add: unat_of_nat_small)
    ultimately have "lf_at kvs (rank before t kvs) (x\<lparr>lf_index := of_int (int (files_before t (lf_flist x)))\<rparr>)"
      using lf_at_move [OF at] by metis
    then show ?thesis using FindFile_ok [OF k(2) that] k(3) by (simp add: simps lf_Seek_def)
  qed
  show "\<exists>s'. it_Next level_file_iterator x = Inr s' \<and> lf_at kvs (Suc i) s'" if "i < length kvs"
  proof -
    have "unat (lf_index x + 1) = Suc i" using that d(2,4) unat_add_small [of "lf_index x" 1] by simp
    from lf_at_move [OF at this] show ?thesis using that d(3) by (simp add: simps lf_Next_def)
  qed
  show "\<exists>s'. it_Prev level_file_iterator x = Inr s' \<and> lf_at kvs (if i = 0 then length kvs else i - 1) s'" if "i < length kvs"
  proof -
    have z: "lf_index x = 0 \<longleftrightarrow> i = 0" unfolding word_unat_eq_iff d(4) by simp
    have "unat (if lf_index x = 0 then of_nat (length (lf_flist x)) else lf_index x - 1) = (if i = 0 then length kvs else i - 1)"
    proof (cases "i = 0")
      case True
      then show ?thesis using z d(5) by simp
    next
      case False
      then have "unat (lf_index x - 1) = i - 1" using d(4) z by (simp add: unat_minus_one)
      then show ?thesis using z False by simp
    qed
    moreover have "(if i = 0 then length kvs else i - 1) \<le> length kvs" using that by (cases "i = 0") simp_all
    ultimately have "lf_at kvs (if i = 0 then length kvs else i - 1)
        (x\<lparr>lf_index := (if lf_index x = 0 then of_nat (length (lf_flist x)) else lf_index x - 1)\<rparr>)"
      by (rule lf_at_move [OF at])
    then show ?thesis using that d(3) by (simp only: simps lf_Prev_def guard_res_simps bind_res_Inr simp_thms) blast
  qed
  show "it_Next level_file_iterator x = Inl AssertFail \<and> it_Prev level_file_iterator x = Inl AssertFail" if "i = length kvs"
    using that d(3) by (simp add: simps lf_Next_def lf_Prev_def)
qed

lemma new_level_files_at:
  assumes "level_sorted files"
  shows "lf_at (file_pairs files) (length files) (new_LevelFileNumIterator cmp files)"
  using assms by (simp add: lf_at_def new_LevelFileNumIterator_def file_pairs_def level_sorted_def unat_of_nat_small)

end

interpretation level_files: sorted_iterator "InternalKeyComparator BytewiseComparator" internal_valid internal_before
  level_file_iterator internal.lf_at
  by (rule internal.level_files_sorted)

subsection \<open>Overlaps\<close>

text \<open>The user keys of a file, and whether a range of user keys meets them.\<close>

definition user_part :: "slice \<Rightarrow> slice" where
  "user_part k = take (length k - 8) k"

definition key_form :: "slice \<Rightarrow> bool" where
  "key_form k \<longleftrightarrow> (\<exists>u s t. s \<le> kMaxSequenceNumber \<and> k = internal_key u (push_bit 8 s OR type_code t))"

definition file_valid :: "FileMetaData \<Rightarrow> bool" where
  "file_valid f \<longleftrightarrow> key_form (smallest f) \<and> key_form (largest f)"

lemma user_part_key [simp]: "user_part (internal_key u t) = u"
  by (simp add: user_part_def internal_key_def)

lemma key_form_valid: "key_form k \<Longrightarrow> internal_valid k \<and> k \<noteq> []"
  by (auto simp: key_form_def internal_valid_iff internal_key_def) (metis length_0_conv length_EncodeFixed(2) zero_neq_numeral)

lemma before_user_part:
  assumes "internal_valid a" and "internal_valid b" and "internal_before a b"
  shows "user_part a \<le> user_part b"
proof -
  obtain u t v s where "a = internal_key u t" "b = internal_key v s" using assms(1,2) unfolding internal_valid_iff by blast
  then show ?thesis using assms(3) by auto
qed

text \<open>The first internal key of a user key.\<close>

definition first_key :: "slice \<Rightarrow> slice" where
  "first_key u = internal_key u (push_bit 8 kMaxSequenceNumber OR type_code kValueTypeForSeek)"

lemma before_first_key:
  assumes "key_form k"
  shows "internal_before k (first_key u) \<longleftrightarrow> user_part k < u"
proof -
  obtain v s t where k: "s \<le> kMaxSequenceNumber" "k = internal_key v (push_bit 8 s OR type_code t)"
    using assms by (auto simp: key_form_def)
  then show ?thesis using tag_newer [of kMaxSequenceNumber s t] by (auto simp: first_key_def kValueTypeForSeek_def)
qed

lemma first_key_valid: "internal_valid (first_key u)" "first_key u \<noteq> []"
  "new_InternalKey u kMaxSequenceNumber kValueTypeForSeek = Inr (first_key u)"
  using key_form_valid [of "first_key u"] by (auto simp: first_key_def key_form_def new_InternalKey_ok)

definition meets :: "slice option \<Rightarrow> slice option \<Rightarrow> FileMetaData \<Rightarrow> bool" where
  "meets small large f \<longleftrightarrow> (\<forall>s. small = Some s \<longrightarrow> s \<le> user_part (largest f)) \<and>
     (\<forall>l. large = Some l \<longrightarrow> user_part (smallest f) \<le> l)"

text \<open>The files of a level from 1 on: in order, each from its smallest to its largest key.\<close>

definition disjoint_files :: "FileMetaData list \<Rightarrow> bool" where
  "disjoint_files files \<longleftrightarrow> length files < 2 ^ 31 \<and>
     (\<forall>f \<in> set files. file_valid f \<and> (smallest f = largest f \<or> internal_before (smallest f) (largest f))) \<and>
     sorted_wrt (\<lambda>f g. internal_before (largest f) (smallest g)) files"

lemma user_key_of [simp]: "internal_valid k \<Longrightarrow> InternalKey_user_key k = Inr (user_part k)"
  by (auto simp: internal_valid_iff InternalKey_user_key_def user_part_def) (simp add: internal_key_def)

lemma file_valid_keys: "file_valid f \<Longrightarrow> internal_valid (smallest f) \<and> internal_valid (largest f) \<and> smallest f \<noteq> [] \<and> largest f \<noteq> []"
  using key_form_valid by (auto simp: file_valid_def)

lemma AfterFile_ok: "file_valid f \<Longrightarrow> AfterFile BytewiseComparator small f = Inr (\<exists>s. small = Some s \<and> user_part (largest f) < s)"
  by (auto simp: AfterFile_def slice_compare_order not_less dest!: file_valid_keys split: option.split)

lemma BeforeFile_ok: "file_valid f \<Longrightarrow> BeforeFile BytewiseComparator large f = Inr (\<exists>l. large = Some l \<and> l < user_part (smallest f))"
  by (auto simp: BeforeFile_def slice_compare_order not_less dest!: file_valid_keys split: option.split)

lemma overlaps_any_ok:
  "\<forall>f \<in> set files. file_valid f \<Longrightarrow> overlaps_any BytewiseComparator files small large = Inr (\<exists>f \<in> set files. meets small large f)"
proof (induction files)
  case (Cons f files)
  then show ?case by (auto simp: AfterFile_ok BeforeFile_ok meets_def not_less)
qed simp

text \<open>Sorted and disjoint levels are levels in the order of their largest keys.\<close>

lemma sorted_wrt_chain:
  assumes "sorted_wrt R xs" and "\<And>x y. x \<in> set xs \<Longrightarrow> y \<in> set xs \<Longrightarrow> R x y \<Longrightarrow> S x y"
  shows "sorted_wrt S xs"
  using assms by (rule sorted_wrt_mono_rel [rotated])

lemma disjoint_sorted:
  assumes "disjoint_files files"
  shows "internal.level_sorted files"
proof -
  have v: "internal_valid (smallest f)" "internal_valid (largest f)" "largest f \<noteq> []"
    "smallest f = largest f \<or> internal_before (smallest f) (largest f)" if "f \<in> set files" for f
    using assms that file_valid_keys [of f] by (auto simp: disjoint_files_def)
  have "sorted_wrt (\<lambda>f g. internal_before (largest f) (largest g)) files"
  proof (rule sorted_wrt_chain)
    show "sorted_wrt (\<lambda>f g. internal_before (largest f) (smallest g)) files" using assms by (simp add: disjoint_files_def)
    show "internal_before (largest f) (largest g)"
      if "f \<in> set files" "g \<in> set files" "internal_before (largest f) (smallest g)" for f g
      using internal.before_trans [of "largest f" "smallest g" "largest g"] v [OF that(1)] v [OF that(2)] that(3) by metis
  qed
  then show ?thesis using v assms
    by (auto simp: internal.level_sorted_def internal.increasing_def disjoint_files_def sorted_wrt_map)
qed

lemma disjoint_later:
  assumes "disjoint_files files" and "i \<le> j" and "j < length files"
  shows "user_part (smallest (files ! i)) \<le> user_part (smallest (files ! j))"
proof (cases "i = j")
  case False
  let ?f = "files ! i" and ?g = "files ! j"
  have m: "?f \<in> set files" "?g \<in> set files" using assms(2,3) by auto
  then have v: "file_valid ?f" "file_valid ?g" "smallest ?f = largest ?f \<or> internal_before (smallest ?f) (largest ?f)"
    using assms(1) by (auto simp: disjoint_files_def)
  have "internal_before (largest ?f) (smallest ?g)"
    using assms False by (auto simp: disjoint_files_def sorted_wrt_iff_nth_less)
  then have "user_part (largest ?f) \<le> user_part (smallest ?g)" "user_part (smallest ?f) \<le> user_part (largest ?f)"
    using before_user_part file_valid_keys v by (blast, metis before_user_part file_valid_keys order_refl)
  then show ?thesis by order
qed simp

lemma overlap_test:
  assumes "if disjoint then disjoint_files files else \<forall>f \<in> set files. file_valid f"
  shows "SomeFileOverlapsRange BytewiseComparator disjoint files small large = Inr (\<exists>f \<in> set files. meets small large f)"
proof (cases disjoint)
  case False
  then show ?thesis using assms overlaps_any_ok by (simp add: SomeFileOverlapsRange_def)
next
  case True
  then have D: "disjoint_files files" using assms by simp
  have valid: "file_valid f" if "f \<in> set files" for f using D that by (simp add: disjoint_files_def)
  have first: "internal.files_before (first_key k) files = length (filter (\<lambda>f. user_part (largest f) < k) files)" for k
    unfolding internal.files_before_def
    using valid by (intro arg_cong [of _ _ length] filter_cong) (auto simp: before_first_key file_valid_def)
  define n where "n = (case small of None \<Rightarrow> 0 | Some k \<Rightarrow> length (filter (\<lambda>f. user_part (largest f) < k) files))"
  have n: "n \<le> length files" by (simp add: n_def split: option.split)
  have len: "length files < 2 ^ 31" using D by (simp add: disjoint_files_def)
  have at: "(case small of None \<Rightarrow> False | Some k \<Rightarrow> user_part (largest (files ! i)) < k) \<longleftrightarrow> i < n" if i: "i < length files" for i
  proof (cases small)
    case (Some k)
    have "internal.increasing (map largest files)" using disjoint_sorted [OF D] by (simp add: internal.level_sorted_def)
    then show ?thesis
      using internal.files_before_index [of files "first_key k" i] i valid [of "files ! i"] before_first_key [of "largest (files ! i)" k]
        Some first [of k] first_key_valid(1) by (simp add: file_valid_def n_def)
  qed (simp add: n_def)
  have "(case small of None \<Rightarrow> Inr 0 | Some k \<Rightarrow>
      bind_res (new_InternalKey k kMaxSequenceNumber kValueTypeForSeek) (\<lambda>s.
      bind_res (InternalKey_Encode s) (\<lambda>s. FindFile (InternalKeyComparator BytewiseComparator) files s))) = Inr (int n)"
  proof (cases small)
    case (Some k)
    then show ?thesis using internal.FindFile_ok [OF disjoint_sorted [OF D] first_key_valid(1)] first [of k]
      by (simp add: first_key_valid n_def)
  qed (simp add: n_def)
  note index = this
  have u: "unat (of_int (int n) :: u32) = n" using n len by (simp add: unat_of_nat_small)
  then have w: "uint (of_int (int n) :: u32) = int n" by (simp only: uint_nat)
  have run: "SomeFileOverlapsRange BytewiseComparator disjoint files small large =
      (if length files \<le> n then Inr False
       else bind_res (BeforeFile BytewiseComparator large (files ! n)) (\<lambda>b. Inr (\<not> b)))"
    unfolding SomeFileOverlapsRange_def index bind_res_Inr Let_def w using True vec_at_nat [of n files] by simp
  have meets: "meets small large (files ! i) \<longleftrightarrow> n \<le> i \<and> (\<forall>l. large = Some l \<longrightarrow> user_part (smallest (files ! i)) \<le> l)"
    if "i < length files" for i
    using at [OF that] by (auto simp: meets_def not_less split: option.splits)
  show ?thesis
  proof (cases "length files \<le> n")
    case True
    then show ?thesis using run meets by (auto simp: in_set_conv_nth)
  next
    case False
    have "(\<exists>f \<in> set files. meets small large f) \<longleftrightarrow> (\<forall>l. large = Some l \<longrightarrow> user_part (smallest (files ! n)) \<le> l)"
    proof
      assume "\<exists>f \<in> set files. meets small large f"
      then obtain i where i: "i < length files" "meets small large (files ! i)" by (auto simp: in_set_conv_nth)
      then show "\<forall>l. large = Some l \<longrightarrow> user_part (smallest (files ! n)) \<le> l"
        using meets [OF i(1)] disjoint_later [OF D, of n i] by (auto intro: order_trans)
    next
      assume "\<forall>l. large = Some l \<longrightarrow> user_part (smallest (files ! n)) \<le> l"
      then show "\<exists>f \<in> set files. meets small large f" using meets [of n] False by auto
    qed
    moreover have "file_valid (files ! n)" using False valid by simp
    ultimately show ?thesis using run False by (auto simp: BeforeFile_ok not_less)
  qed
qed

text \<open>
  the test for overlaps is exact: a range of user keys, open at either end or both, is reported to overlap a level
  if and only if it meets the range of one of its files; with the binary search on a sorted, disjoint level, and
  with the scan on the files of level 0, which may overlap each other.
\<close>

theorem SomeFileOverlapsRange_exact:
  assumes "if disjoint then disjoint_files files else \<forall>f \<in> set files. file_valid f"
  shows "SomeFileOverlapsRange BytewiseComparator disjoint files small large = Inr (\<exists>f \<in> set files. meets small large f)"
  by (rule overlap_test [OF assms])

text \<open>Files from one key to another, for examples.\<close>

definition example_key :: "byte \<Rightarrow> SequenceNumber \<Rightarrow> InternalKey" where
  "example_key u s = internal_key [u] (push_bit 8 s OR type_code kTypeValue)"

definition example_file :: "u64 \<Rightarrow> byte \<Rightarrow> byte \<Rightarrow> FileMetaData" where
  "example_file n a b = (new_FileMetaData n)\<lparr>smallest := example_key a 3, largest := example_key b 1\<rparr>"

lemma example_key_form [simp]: "s \<le> 3 \<Longrightarrow> key_form (example_key u s)"
proof -
  assume "s \<le> 3"
  moreover have "(3 :: u64) \<le> kMaxSequenceNumber" by (simp add: kMaxSequenceNumber_def)
  ultimately have "s \<le> kMaxSequenceNumber" by order
  then show ?thesis unfolding key_form_def example_key_def by blast
qed

lemma example_file_simps [simp]: "smallest (example_file n a b) = example_key a 3" "largest (example_file n a b) = example_key b 1"
  "user_part (example_key u s) = [u]" "file_valid (example_file n a b)" "f_number (example_file n a b) = n"
  by (simp_all add: example_file_def file_valid_def new_FileMetaData_def) (simp add: example_key_def)

lemma example_key_before [simp]: "internal_before (example_key a s) (example_key b s') \<longleftrightarrow>
    a < b \<or> a = b \<and> push_bit 8 s' OR type_code kTypeValue < push_bit 8 s OR type_code kTypeValue"
  by (simp add: example_key_def)

theorem SomeFileOverlapsRange_exact_witness:
  "let files = [example_file 7 10 20, example_file 8 30 40] in
   SomeFileOverlapsRange BytewiseComparator True files (Some [21]) (Some [29]) =
     Inr (\<exists>f \<in> set files. meets (Some [21]) (Some [29]) f)"
  unfolding Let_def by (rule SomeFileOverlapsRange_exact) (simp add: disjoint_files_def)

end
