(* ===== verification/Version_Overlap.thy ===== *)
theory Version_Overlap
  imports Version_Files
begin

section \<open>The files that overlap a range\<close>

text \<open>
  \<open>leveldb-mcpe/db/version_set.cc\<close>: \<open>GetOverlappingInputs\<close>, which starts over at level 0 whenever a file widens the
  range, and the choice of the level of a new table. A version is the list of the files of its seven levels.
\<close>

type_synonym levels_of_files = "FileMetaData list list"

text \<open>The limits of a compaction are computed in \<open>int\<close>.\<close>

definition TargetFileSize :: "nat \<Rightarrow> int" where
  "TargetFileSize max_file_size = sint (of_nat max_file_size :: u32)"

definition MaxGrandParentOverlapBytes :: "nat \<Rightarrow> int res" where
  "MaxGrandParentOverlapBytes max_file_size = to_int32 (10 * TargetFileSize max_file_size)"

definition ExpandedCompactionByteSizeLimit :: "nat \<Rightarrow> int res" where
  "ExpandedCompactionByteSizeLimit max_file_size = to_int32 (25 * TargetFileSize max_file_size)"

text \<open>The comparison of a user key with a bound that may be missing.\<close>

definition below_bound :: "comparator \<Rightarrow> slice \<Rightarrow> slice option \<Rightarrow> bool res" where
  "below_bound ucmp k b = (case b of None \<Rightarrow> Inr False | Some u \<Rightarrow> bind_res (Compare ucmp k u) (\<lambda>r. Inr (r < 0)))"

definition above_bound :: "comparator \<Rightarrow> slice \<Rightarrow> slice option \<Rightarrow> bool res" where
  "above_bound ucmp k e = (case e of None \<Rightarrow> Inr False | Some u \<Rightarrow> bind_res (Compare ucmp k u) (\<lambda>r. Inr (r > 0)))"

fun overlap_loop :: "nat \<Rightarrow> comparator \<Rightarrow> bool \<Rightarrow> FileMetaData list \<Rightarrow> nat \<Rightarrow> slice option \<Rightarrow> slice option \<Rightarrow>
    FileMetaData list \<Rightarrow> FileMetaData list res" where
  "overlap_loop fuel ucmp level0 files i user_begin user_end inputs =
     (if i < length files then
        (case fuel of 0 \<Rightarrow> Inl OutOfFuel
         | Suc fuel \<Rightarrow>
             let f = files ! i; i = i + 1 in
             bind_res (InternalKey_user_key (smallest f)) (\<lambda>file_start.
             bind_res (InternalKey_user_key (largest f)) (\<lambda>file_limit.
             bind_res (below_bound ucmp file_limit user_begin) (\<lambda>skip.
             bind_res (if skip then Inr True else above_bound ucmp file_start user_end) (\<lambda>skip.
               if skip then overlap_loop fuel ucmp level0 files i user_begin user_end inputs
               else if level0 then
                 bind_res (below_bound ucmp file_start user_begin) (\<lambda>wider.
                 if wider then overlap_loop fuel ucmp level0 files 0 (Some file_start) user_end []
                 else
                   bind_res (above_bound ucmp file_limit user_end) (\<lambda>wider.
                   if wider then overlap_loop fuel ucmp level0 files 0 user_begin (Some file_limit) []
                   else overlap_loop fuel ucmp level0 files i user_begin user_end (inputs @ [f])))
               else overlap_loop fuel ucmp level0 files i user_begin user_end (inputs @ [f]))))))
      else Inr inputs)"

declare overlap_loop.simps [simp del]

text \<open>Every start over makes a bound pass one more file, on one side or the other.\<close>

definition overlap_fuel :: "FileMetaData list \<Rightarrow> nat" where
  "overlap_fuel files = (2 * length files + 1) * (length files + 1)"

definition opt_user_key :: "InternalKey option \<Rightarrow> slice option res" where
  "opt_user_key k = (case k of None \<Rightarrow> Inr None | Some k \<Rightarrow> bind_res (InternalKey_user_key k) (\<lambda>u. Inr (Some u)))"

definition GetOverlappingInputs :: "comparator \<Rightarrow> levels_of_files \<Rightarrow> int \<Rightarrow> InternalKey option \<Rightarrow> InternalKey option \<Rightarrow>
    FileMetaData list res" where
  "GetOverlappingInputs ucmp levels level begin_key end_key =
     bind_res (guard_res (level \<ge> 0) AssertFail) (\<lambda>_.
     bind_res (guard_res (level < kNumLevels) AssertFail) (\<lambda>_.
     bind_res (opt_user_key begin_key) (\<lambda>user_begin.
     bind_res (opt_user_key end_key) (\<lambda>user_end.
     bind_res (vec_at levels level) (\<lambda>files.
       overlap_loop (overlap_fuel files) ucmp (level = 0) files 0 user_begin user_end [])))))"

definition OverlapInLevel :: "comparator \<Rightarrow> levels_of_files \<Rightarrow> int \<Rightarrow> slice option \<Rightarrow> slice option \<Rightarrow> bool res" where
  "OverlapInLevel ucmp levels level small large =
     bind_res (vec_at levels level) (\<lambda>files. SomeFileOverlapsRange ucmp (level > 0) files small large)"

definition kMaxMemCompactLevel :: int where
  "kMaxMemCompactLevel = 2"

text \<open>The loop goes up at most twice.\<close>

fun pick_loop :: "nat \<Rightarrow> comparator \<Rightarrow> nat \<Rightarrow> levels_of_files \<Rightarrow> slice \<Rightarrow> slice \<Rightarrow> InternalKey \<Rightarrow> InternalKey \<Rightarrow> int \<Rightarrow> int res" where
  "pick_loop fuel ucmp max_file_size levels small large start limit level =
     (if level < kMaxMemCompactLevel then
        (case fuel of 0 \<Rightarrow> Inl OutOfFuel
         | Suc fuel \<Rightarrow>
             bind_res (OverlapInLevel ucmp levels (level + 1) (Some small) (Some large)) (\<lambda>overlap.
             if overlap then Inr level
             else
               bind_res (if level + 2 < kNumLevels then
                   bind_res (GetOverlappingInputs ucmp levels (level + 2) (Some start) (Some limit)) (\<lambda>overlaps.
                   bind_res (MaxGrandParentOverlapBytes max_file_size) (\<lambda>bytes. Inr (TotalFileSize overlaps > bytes)))
                 else Inr False) (\<lambda>stop.
               if stop then Inr level
               else pick_loop fuel ucmp max_file_size levels small large start limit (level + 1))))
      else Inr level)"

declare pick_loop.simps [simp del]

definition PickLevelForMemTableOutput :: "comparator \<Rightarrow> nat \<Rightarrow> levels_of_files \<Rightarrow> slice \<Rightarrow> slice \<Rightarrow> int res" where
  "PickLevelForMemTableOutput ucmp max_file_size levels small large =
     bind_res (OverlapInLevel ucmp levels 0 (Some small) (Some large)) (\<lambda>overlap.
     if overlap then Inr 0
     else
       bind_res (new_InternalKey small kMaxSequenceNumber kValueTypeForSeek) (\<lambda>start.
       bind_res (new_InternalKey large 0 kTypeDeletion) (\<lambda>limit.
         pick_loop 2 ucmp max_file_size levels small large start limit 0)))"

subsection \<open>The widening of the range\<close>

definition within :: "slice option \<Rightarrow> slice option \<Rightarrow> FileMetaData \<Rightarrow> bool" where
  "within b e f \<longleftrightarrow> (\<forall>u. b = Some u \<longrightarrow> u \<le> user_part (smallest f)) \<and> (\<forall>u. e = Some u \<longrightarrow> user_part (largest f) \<le> u)"

text \<open>The bound \<open>b'\<close> is not further in than \<open>b\<close>.\<close>

definition wider_begin :: "slice option \<Rightarrow> slice option \<Rightarrow> bool" where
  "wider_begin b b' \<longleftrightarrow> (b = None \<longleftrightarrow> b' = None) \<and> (\<forall>u u'. b = Some u \<longrightarrow> b' = Some u' \<longrightarrow> u' \<le> u)"

definition wider_end :: "slice option \<Rightarrow> slice option \<Rightarrow> bool" where
  "wider_end e e' \<longleftrightarrow> (e = None \<longleftrightarrow> e' = None) \<and> (\<forall>u u'. e = Some u \<longrightarrow> e' = Some u' \<longrightarrow> u \<le> u')"

lemma wider_refl [simp]: "wider_begin b b" "wider_end e e"
  by (auto simp: wider_begin_def wider_end_def)

lemma wider_trans: "wider_begin a b \<Longrightarrow> wider_begin b c \<Longrightarrow> wider_begin a c" "wider_end a b \<Longrightarrow> wider_end b c \<Longrightarrow> wider_end a c"
  unfolding wider_begin_def wider_end_def by (cases b; force)+

lemma wider_meets: "wider_begin b b' \<Longrightarrow> wider_end e e' \<Longrightarrow> meets b e f \<Longrightarrow> meets b' e' f"
  unfolding wider_begin_def wider_end_def meets_def by (cases b; cases b'; cases e; cases e') (auto intro: order_trans)

text \<open>How many files a bound may still pass.\<close>

definition outside :: "slice option \<Rightarrow> slice option \<Rightarrow> FileMetaData list \<Rightarrow> nat" where
  "outside b e files = length (filter (\<lambda>f. \<exists>u. b = Some u \<and> user_part (smallest f) < u) files) +
     length (filter (\<lambda>f. \<exists>u. e = Some u \<and> u < user_part (largest f)) files)"

lemma outside_bound: "outside b e files \<le> 2 * length files"
  unfolding outside_def by (simp add: mult_2 add_mono)

lemma fewer_filtered:
  assumes "\<And>x. P x \<Longrightarrow> Q x" and "x \<in> set xs" and "Q x" and "\<not> P x"
  shows "length (filter P xs) < length (filter Q xs)"
  using assms(2)
proof (induction xs)
  case (Cons y xs)
  have le: "length (filter P xs) \<le> length (filter Q xs)" using assms(1) by (induction xs) auto
  show ?case
  proof (cases "x = y")
    case True
    then show ?thesis using assms(3,4) le by simp
  next
    case False
    then show ?thesis using Cons assms(1) [of y] by auto
  qed
qed simp

lemma outside_less:
  assumes "f \<in> set files"
  shows "b = Some u \<Longrightarrow> user_part (smallest f) < u \<Longrightarrow> outside (Some (user_part (smallest f))) e files < outside b e files"
    and "e = Some u \<Longrightarrow> u < user_part (largest f) \<Longrightarrow> outside b (Some (user_part (largest f))) files < outside b e files"
  unfolding outside_def using assms
  by (auto intro!: add_strict_right_mono add_strict_left_mono fewer_filtered [of _ _ f])

lemma below_bound_ok [simp]: "below_bound BytewiseComparator k b = Inr (\<exists>u. b = Some u \<and> k < u)"
  by (auto simp: below_bound_def slice_compare_order split: option.split)

lemma above_bound_ok [simp]: "above_bound BytewiseComparator k e = Inr (\<exists>u. e = Some u \<and> u < k)"
  by (auto simp: above_bound_def slice_compare_order split: option.split)

lemma overlap_loop_ok:
  assumes "\<forall>f \<in> set files. file_valid f" and "inputs = filter (meets b e) (take i files)"
    and "level0 \<longrightarrow> (\<forall>f \<in> set inputs. within b e f)" and "i \<le> length files"
    and "outside b e files * (length files + 1) + (length files - i) \<le> fuel"
  shows "\<exists>b' e'. overlap_loop fuel BytewiseComparator level0 files i b e inputs = Inr (filter (meets b' e') files) \<and>
    wider_begin b b' \<and> wider_end e e' \<and> (if level0 then \<forall>f \<in> set files. meets b' e' f \<longrightarrow> within b' e' f else b' = b \<and> e' = e)"
  using assms(2-)
proof (induction fuel arbitrary: i b e inputs)
  case 0
  then show ?case by (subst overlap_loop.simps) (rule exI [of _ b], rule exI [of _ e], auto)
next
  case (Suc fuel)
  show ?case
  proof (cases "i < length files")
    case False
    then show ?thesis using Suc.prems by (subst overlap_loop.simps) (rule exI [of _ b], rule exI [of _ e], auto)
  next
    case i: True
    let ?f = "files ! i"
    let ?s = "user_part (smallest ?f)" and ?l = "user_part (largest ?f)"
    have f: "?f \<in> set files" using i by simp
    then have k: "InternalKey_user_key (smallest ?f) = Inr ?s" "InternalKey_user_key (largest ?f) = Inr ?l"
      using assms(1) file_valid_keys by auto
    have take: "take (Suc i) files = take i files @ [?f]" using i by (rule take_Suc_conv_app_nth)
    let ?go = "\<lambda>inputs. overlap_loop fuel BytewiseComparator level0 files (Suc i) b e inputs"
    let ?wb = "\<exists>u. b = Some u \<and> ?s < u" and ?we = "\<exists>u. e = Some u \<and> u < ?l"
    define pa where "pa \<longleftrightarrow> (\<exists>u. b = Some u \<and> ?l < u)"
    define pb where "pb \<longleftrightarrow> (\<exists>u. e = Some u \<and> u < ?s)"
    define wb where "wb \<longleftrightarrow> ?wb"
    define we where "we \<longleftrightarrow> ?we"
    have m: "meets b e ?f \<longleftrightarrow> \<not> pa \<and> \<not> pb" by (auto simp: meets_def not_less pa_def pb_def)
    have c: "below_bound BytewiseComparator ?l b = Inr pa" "above_bound BytewiseComparator ?s e = Inr pb"
      "below_bound BytewiseComparator ?s b = Inr wb" "above_bound BytewiseComparator ?l e = Inr we"
      by (simp_all add: pa_def pb_def wb_def we_def)
    have step: "overlap_loop (Suc fuel) BytewiseComparator level0 files i b e inputs =
        (if \<not> meets b e ?f then ?go inputs
         else if level0 \<and> ?wb then overlap_loop fuel BytewiseComparator level0 files 0 (Some ?s) e []
         else if level0 \<and> ?we then overlap_loop fuel BytewiseComparator level0 files 0 b (Some ?l) []
         else ?go (inputs @ [?f]))"
      unfolding m wb_def [symmetric] we_def [symmetric] using i
      by (subst overlap_loop.simps) (cases pa; cases pb; cases wb; cases we; simp add: k c Let_def del: below_bound_ok above_bound_ok)
    have fuel: "outside b e files * (length files + 1) + (length files - Suc i) \<le> fuel" using Suc.prems(4) i by simp
    have restart: "outside b' e' files * (length files + 1) + (length files - 0) \<le> fuel" if "outside b' e' files < outside b e files" for b' e'
    proof -
      have "Suc (outside b' e' files) * (length files + 1) \<le> outside b e files * (length files + 1)"
        using that by (intro mult_le_mono1) simp
      then show ?thesis using fuel by simp
    qed
    consider "\<not> meets b e ?f" | "meets b e ?f" "level0" ?wb | "meets b e ?f" "level0" "\<not> ?wb" ?we
      | "meets b e ?f" "\<not> (level0 \<and> (?wb \<or> ?we))" by blast
    then show ?thesis
    proof cases
      case 1
      then show ?thesis using Suc.IH [of inputs b e "Suc i"] Suc.prems fuel i step take by simp
    next
      case 2
      then obtain u where u: "b = Some u" "?s < u" by blast
      obtain b' e' where r: "overlap_loop fuel BytewiseComparator level0 files 0 (Some ?s) e [] = Inr (filter (meets b' e') files)"
        "wider_begin (Some ?s) b'" "wider_end e e'" "\<forall>f \<in> set files. meets b' e' f \<longrightarrow> within b' e' f"
        using Suc.IH [of "[]" "Some ?s" e 0, OF _ _ _ restart [OF outside_less(1) [OF f u]]] 2(2) by auto
      have "wider_begin b (Some ?s)" using u by (simp add: wider_begin_def)
      then have "wider_begin b b'" using r(2) by (rule wider_trans(1))
      then show ?thesis using r(1,3,4) 2 unfolding step by (intro exI [of _ b'] exI [of _ e']) simp
    next
      case 3
      then obtain u where u: "e = Some u" "u < ?l" by blast
      obtain b' e' where r: "overlap_loop fuel BytewiseComparator level0 files 0 b (Some ?l) [] = Inr (filter (meets b' e') files)"
        "wider_begin b b'" "wider_end (Some ?l) e'" "\<forall>f \<in> set files. meets b' e' f \<longrightarrow> within b' e' f"
        using Suc.IH [of "[]" b "Some ?l" 0, OF _ _ _ restart [OF outside_less(2) [OF f u]]] 3(2) by auto
      have "wider_end e (Some ?l)" using u by (simp add: wider_end_def)
      then have "wider_end e e'" using r(3) by (rule wider_trans(2))
      moreover have "(level0 \<and> ?wb) = False" "(level0 \<and> ?we) = True" "(\<not> meets b e ?f) = False" using 3 by blast+
      then have "overlap_loop (Suc fuel) BytewiseComparator level0 files i b e inputs = Inr (filter (meets b' e') files)"
        unfolding step r(1) by (simp only: if_False if_True)
      ultimately show ?thesis using r(2,4) 3(2) by auto
    next
      case 4
      have go: "overlap_loop (Suc fuel) BytewiseComparator level0 files i b e inputs = ?go (inputs @ [?f])" using 4 step by auto
      have "level0 \<longrightarrow> (\<forall>f \<in> set (inputs @ [?f]). within b e f)"
        using Suc.prems(2) 4(2) by (auto simp: within_def not_less)
      moreover have "inputs @ [?f] = filter (meets b e) (take (Suc i) files)" using Suc.prems(1) 4(1) take by simp
      ultimately show ?thesis using Suc.IH [of "inputs @ [?f]" b e "Suc i"] fuel i go by simp
    qed
  qed
qed

lemma opt_user_key_ok: "(\<And>x. k = Some x \<Longrightarrow> key_form x) \<Longrightarrow> opt_user_key k = Inr (map_option user_part k)"
  using key_form_valid by (auto simp: opt_user_key_def split: option.split)

lemma overlap_run:
  assumes "\<forall>f \<in> set files. file_valid f"
  shows "\<exists>b' e'. overlap_loop (overlap_fuel files) BytewiseComparator level0 files 0 b e [] = Inr (filter (meets b' e') files) \<and>
    wider_begin b b' \<and> wider_end e e' \<and> (if level0 then \<forall>f \<in> set files. meets b' e' f \<longrightarrow> within b' e' f else b' = b \<and> e' = e)"
proof (rule overlap_loop_ok [OF assms])
  have "outside b e files * (length files + 1) \<le> 2 * length files * (length files + 1)"
    by (intro mult_le_mono1 outside_bound)
  then show "outside b e files * (length files + 1) + (length files - 0) \<le> overlap_fuel files"
    by (simp add: overlap_fuel_def algebra_simps)
qed simp_all

text \<open>
  C22: \<open>GetOverlappingInputs\<close> finds, in every level, the files that meet the range, and on level 0, where files overlap
  each other, also every file that overlaps one it has found: the result is closed. The starting over ends, with the
  fuel of the model. The bounds of the range and of the files are internal keys with their eight bytes.
\<close>

theorem overlapping_inputs_closed:
  assumes "length levels = 7" and "0 \<le> level" and "level < 7" and "\<forall>f \<in> set (levels ! nat level). file_valid f"
    and "\<And>k. begin_key = Some k \<Longrightarrow> key_form k" and "\<And>k. end_key = Some k \<Longrightarrow> key_form k"
  shows "\<exists>inputs. GetOverlappingInputs BytewiseComparator levels level begin_key end_key = Inr inputs \<and>
    set inputs \<subseteq> set (levels ! nat level) \<and>
    (\<forall>f \<in> set (levels ! nat level). meets (map_option user_part begin_key) (map_option user_part end_key) f \<longrightarrow> f \<in> set inputs) \<and>
    (level \<noteq> 0 \<longrightarrow> inputs = filter (meets (map_option user_part begin_key) (map_option user_part end_key)) (levels ! nat level)) \<and>
    (level = 0 \<longrightarrow> (\<forall>f \<in> set inputs. \<forall>g \<in> set (levels ! nat level).
       meets (Some (user_part (smallest f))) (Some (user_part (largest f))) g \<longrightarrow> g \<in> set inputs))"
proof -
  let ?files = "levels ! nat level" and ?b = "map_option user_part begin_key" and ?e = "map_option user_part end_key"
  obtain b' e' where r: "overlap_loop (overlap_fuel ?files) BytewiseComparator (level = 0) ?files 0 ?b ?e [] = Inr (filter (meets b' e') ?files)"
    "wider_begin ?b b'" "wider_end ?e e'"
    "if level = 0 then \<forall>f \<in> set ?files. meets b' e' f \<longrightarrow> within b' e' f else b' = ?b \<and> e' = ?e"
    using overlap_run [OF assms(4), of "level = 0" ?b ?e] by auto
  have "vec_at levels level = Inr ?files" using assms(1-3) vec_at_nat [of "nat level" levels] by simp
  moreover have "opt_user_key begin_key = Inr ?b" "opt_user_key end_key = Inr ?e"
    using assms(5,6) by (simp_all add: opt_user_key_ok)
  ultimately have run: "GetOverlappingInputs BytewiseComparator levels level begin_key end_key = Inr (filter (meets b' e') ?files)"
    using assms(2,3) r(1) by (simp add: GetOverlappingInputs_def kNumLevels_def)
  have "meets b' e' g" if z: "level = 0" and f: "f \<in> set ?files" "meets b' e' f"
    and g: "meets (Some (user_part (smallest f))) (Some (user_part (largest f))) g" for f g
  proof -
    have "within b' e' f" using r(4) z f by simp
    then show ?thesis using g unfolding within_def meets_def by (auto intro: order_trans)
  qed
  then have "level = 0 \<longrightarrow> (\<forall>f \<in> set (filter (meets b' e') ?files). \<forall>g \<in> set ?files.
      meets (Some (user_part (smallest f))) (Some (user_part (largest f))) g \<longrightarrow> g \<in> set (filter (meets b' e') ?files))"
    unfolding set_filter mem_Collect_eq by blast
  moreover have "\<forall>f \<in> set ?files. meets ?b ?e f \<longrightarrow> f \<in> set (filter (meets b' e') ?files)"
    using wider_meets [OF r(2,3)] by simp
  moreover have "level \<noteq> 0 \<longrightarrow> filter (meets b' e') ?files = filter (meets ?b ?e) ?files" using r(4) by simp
  moreover have "set (filter (meets b' e') ?files) \<subseteq> set ?files" by simp
  ultimately show ?thesis using run by blast
qed

theorem overlapping_inputs_closed_witness:
  "let files = [example_file 7 10 20, example_file 8 15 30, example_file 9 40 50] in
   \<exists>inputs. GetOverlappingInputs BytewiseComparator [files, [], [], [], [], [], []] 0 None (Some (example_key 12 2)) = Inr inputs \<and>
     example_file 7 10 20 \<in> set inputs \<and> example_file 8 15 30 \<in> set inputs"
proof -
  define files where "files = [example_file 7 10 20, example_file 8 15 30, example_file 9 40 50]"
  have l: "[files, [], [], [], [], [], []] ! nat 0 = files" by simp
  have "\<forall>g \<in> set ([files, [], [], [], [], [], []] ! nat 0). file_valid g" by (simp add: files_def)
  from overlapping_inputs_closed [OF _ _ _ this, of None "Some (example_key 12 2)"]
  obtain inputs where i: "GetOverlappingInputs BytewiseComparator [files, [], [], [], [], [], []] 0 None (Some (example_key 12 2)) = Inr inputs"
    "\<forall>g \<in> set files. meets None (Some [12]) g \<longrightarrow> g \<in> set inputs"
    "\<forall>g \<in> set inputs. \<forall>h \<in> set files. meets (Some (user_part (smallest g))) (Some (user_part (largest g))) h \<longrightarrow> h \<in> set inputs"
    unfolding l by auto
  have "example_file 7 10 20 \<in> set inputs" using i(2) by (simp add: files_def meets_def)
  moreover from this have "example_file 8 15 30 \<in> set inputs" using bspec [OF i(3), of "example_file 7 10 20"] by (simp add: files_def meets_def)
  ultimately show ?thesis using i(1) unfolding Let_def files_def by blast
qed

subsection \<open>The level of a new table\<close>

definition version_ok :: "levels_of_files \<Rightarrow> bool" where
  "version_ok levels \<longleftrightarrow> length levels = 7 \<and> (\<forall>f \<in> set (levels ! 0). file_valid f) \<and> length (levels ! 0) < 2 ^ 31 \<and>
     (\<forall>files \<in> set (tl levels). disjoint_files files)"

lemma version_ok_level:
  assumes "version_ok levels" and "0 < l" and "l < 7"
  shows "disjoint_files (levels ! l)"
proof -
  have "levels ! l = tl levels ! (l - 1)" "l - 1 < length (tl levels)" using assms by (simp_all add: version_ok_def nth_tl)
  then have "levels ! l \<in> set (tl levels)" by simp
  then show ?thesis using assms(1) by (simp add: version_ok_def)
qed

lemma version_ok_valid: "version_ok levels \<Longrightarrow> l < 7 \<Longrightarrow> f \<in> set (levels ! l) \<Longrightarrow> file_valid f"
  using version_ok_level [of levels l] by (cases "l = 0") (auto simp: version_ok_def disjoint_files_def)

lemma OverlapInLevel_ok:
  assumes "version_ok levels" and "l < 7"
  shows "OverlapInLevel BytewiseComparator levels (int l) small large = Inr (\<exists>f \<in> set (levels ! l). meets small large f)"
proof -
  have "vec_at levels (int l) = Inr (levels ! l)" using assms by (simp add: version_ok_def)
  moreover have "if int l > 0 then disjoint_files (levels ! l) else \<forall>f \<in> set (levels ! l). file_valid f"
    using assms version_ok_valid [OF assms(1)] version_ok_level [OF assms(1)] by simp
  ultimately show ?thesis by (simp add: OverlapInLevel_def overlap_test)
qed

text \<open>The files two levels down are always found.\<close>

lemma deeper_inputs:
  assumes "version_ok levels" and "l < 2" and "key_form start" and "key_form limit"
  shows "\<exists>inputs. GetOverlappingInputs BytewiseComparator levels (int l + 2) (Some start) (Some limit) = Inr inputs"
proof -
  have "nat (int l + 2) = l + 2" by simp
  moreover have "vec_at levels (int l + 2) = Inr (levels ! (l + 2))"
    using assms(1,2) vec_at_nat [of "l + 2" levels] by (simp add: version_ok_def add.commute)
  moreover have "\<forall>f \<in> set (levels ! (l + 2)). file_valid f" using version_ok_valid [OF assms(1), of "l + 2"] assms(2) by simp
  moreover have "opt_user_key (Some start) = Inr (Some (user_part start))" "opt_user_key (Some limit) = Inr (Some (user_part limit))"
    using opt_user_key_ok [of "Some start"] opt_user_key_ok [of "Some limit"] assms(3,4) by simp_all
  ultimately show ?thesis
    using overlap_run [of "levels ! (l + 2)" "int l + 2 = 0" "Some (user_part start)" "Some (user_part limit)"] assms(2)
    by (auto simp: GetOverlappingInputs_def kNumLevels_def)
qed

lemma next_level_overlap:
  assumes "version_ok levels" and "l < 2"
  shows "OverlapInLevel BytewiseComparator levels (int l + 1) (Some small) (Some large) =
      Inr (\<exists>f \<in> set (levels ! Suc l). meets (Some small) (Some large) f)"
  using OverlapInLevel_ok [OF assms(1), of "Suc l"] assms(2) by (simp add: add.commute)

text \<open>One round of the loop below level 2.\<close>

lemma pick_loop_step:
  assumes "version_ok levels" and "l < 2" and "key_form start" and "key_form limit"
  shows "\<exists>inputs. pick_loop (Suc k) BytewiseComparator n levels small large start limit (int l) =
      (if \<exists>f \<in> set (levels ! Suc l). meets (Some small) (Some large) f then Inr (int l)
       else bind_res (MaxGrandParentOverlapBytes n) (\<lambda>bytes.
         if TotalFileSize inputs > bytes then Inr (int l)
         else pick_loop k BytewiseComparator n levels small large start limit (int (Suc l))))"
proof -
  obtain inputs where inputs: "GetOverlappingInputs BytewiseComparator levels (int l + 2) (Some start) (Some limit) = Inr inputs"
    using deeper_inputs [OF assms] by blast
  have s: "int (Suc l) = int l + 1" by simp
  show ?thesis
    using assms(2) next_level_overlap [OF assms(1,2), of small large]
    by (intro exI [of _ inputs], subst pick_loop.simps, cases "MaxGrandParentOverlapBytes n")
      (simp_all add: s inputs kMaxMemCompactLevel_def kNumLevels_def del: of_nat_Suc cong: if_cong)
qed

lemma pick_loop_ok:
  assumes "version_ok levels" and "MaxGrandParentOverlapBytes n = Inr bytes" and "key_form start" and "key_form limit"
    and "l + k = 2" and "\<forall>j \<le> l. \<forall>f \<in> set (levels ! j). \<not> meets (Some small) (Some large) f"
  shows "\<exists>r. pick_loop k BytewiseComparator n levels small large start limit (int l) = Inr (int r) \<and> r \<le> 2 \<and>
    (\<forall>j \<le> r. \<forall>f \<in> set (levels ! j). \<not> meets (Some small) (Some large) f)"
  using assms(5,6)
proof (induction k arbitrary: l)
  case 0
  then show ?case by (subst pick_loop.simps) (auto simp: kMaxMemCompactLevel_def intro!: exI [of _ 2])
next
  case (Suc k)
  have l: "l < 2" using Suc.prems(1) by simp
  obtain inputs where "pick_loop (Suc k) BytewiseComparator n levels small large start limit (int l) =
      (if \<exists>f \<in> set (levels ! Suc l). meets (Some small) (Some large) f then Inr (int l)
       else bind_res (MaxGrandParentOverlapBytes n) (\<lambda>bytes.
         if TotalFileSize inputs > bytes then Inr (int l)
         else pick_loop k BytewiseComparator n levels small large start limit (int (Suc l))))"
    using pick_loop_step [OF assms(1) l assms(3,4)] by blast
  then have step: "pick_loop (Suc k) BytewiseComparator n levels small large start limit (int l) =
      (if (\<exists>f \<in> set (levels ! Suc l). meets (Some small) (Some large) f) \<or> TotalFileSize inputs > bytes then Inr (int l)
       else pick_loop k BytewiseComparator n levels small large start limit (int (Suc l)))"
    by (simp add: assms(2))
  show ?case
  proof (cases "(\<exists>f \<in> set (levels ! Suc l). meets (Some small) (Some large) f) \<or> TotalFileSize inputs > bytes")
    case True
    then show ?thesis using step l Suc.prems(2) by (intro exI [of _ l]) simp
  next
    case False
    then have "\<forall>j \<le> Suc l. \<forall>f \<in> set (levels ! j). \<not> meets (Some small) (Some large) f"
      using Suc.prems(2) by (auto simp: le_Suc_eq)
    then show ?thesis using Suc.IH [of "Suc l"] Suc.prems(1) step False by simp
  qed
qed

text \<open>A table that meets a file of level 0 stays there, any other goes into the loop.\<close>

lemma pick_level:
  assumes "version_ok levels"
  obtains start limit where "key_form start" and "key_form limit"
    and "PickLevelForMemTableOutput BytewiseComparator n levels small large =
      (if \<exists>f \<in> set (levels ! 0). meets (Some small) (Some large) f then Inr 0
       else pick_loop 2 BytewiseComparator n levels small large start limit 0)"
proof -
  have first: "new_InternalKey small kMaxSequenceNumber kValueTypeForSeek = Inr (first_key small)" "key_form (first_key small)"
    by (auto simp: first_key_valid first_key_def key_form_def)
  define limit where "limit = internal_key large (push_bit 8 0 OR type_code kTypeDeletion)"
  have last: "new_InternalKey large 0 kTypeDeletion = Inr limit" "key_form limit"
    unfolding key_form_def limit_def by (simp add: new_InternalKey_ok, blast intro: word_zero_le)
  have "OverlapInLevel BytewiseComparator levels 0 (Some small) (Some large) =
      Inr (\<exists>f \<in> set (levels ! 0). meets (Some small) (Some large) f)"
    using OverlapInLevel_ok [OF assms, of 0] by simp
  then show thesis using first last that [of "first_key small" limit] by (simp add: PickLevelForMemTableOutput_def)
qed

lemma pick_level_ok:
  assumes "version_ok levels" and "MaxGrandParentOverlapBytes n = Inr bytes"
  shows "\<exists>r. PickLevelForMemTableOutput BytewiseComparator n levels small large = Inr (int r) \<and> r \<le> 2 \<and>
    (0 < r \<longrightarrow> (\<forall>j \<le> r. \<forall>f \<in> set (levels ! j). \<not> meets (Some small) (Some large) f))"
proof -
  obtain start limit where k: "key_form start" "key_form limit"
    "PickLevelForMemTableOutput BytewiseComparator n levels small large =
      (if \<exists>f \<in> set (levels ! 0). meets (Some small) (Some large) f then Inr 0
       else pick_loop 2 BytewiseComparator n levels small large start limit 0)"
    by (rule pick_level [OF assms(1)])
  show ?thesis
  proof (cases "\<exists>f \<in> set (levels ! 0). meets (Some small) (Some large) f")
    case True
    then show ?thesis using k(3) by (intro exI [of _ 0]) simp
  next
    case False
    then show ?thesis using k(3) pick_loop_ok [OF assms k(1,2), of 0 2 small large] by auto
  qed
qed

text \<open>
  C21: a new table is put at most at level 2, and above level 0 only where no file of that level or of a level before it
  meets its range: no older value of a key ends up in front of a newer one. The version has seven levels, of which those
  from 1 on are sorted with disjoint files (\<open>version_ok\<close>), and ten times the largest file size is an \<open>int\<close>. What happens
  beyond that bound is in \<open>overlap_limits_overflow\<close>.
\<close>

theorem PickLevel_safe:
  assumes "version_ok levels" and "10 * int max_file_size < 2 ^ 31"
  shows "\<exists>r. PickLevelForMemTableOutput BytewiseComparator max_file_size levels small large = Inr (int r) \<and> r \<le> 2 \<and>
    (0 < r \<longrightarrow> (\<forall>j \<le> r. \<forall>f \<in> set (levels ! j). \<not> meets (Some small) (Some large) f))"
proof (rule pick_level_ok [OF assms(1)])
  show "MaxGrandParentOverlapBytes max_file_size = Inr (10 * int max_file_size)"
    using assms(2) by (simp add: MaxGrandParentOverlapBytes_def TargetFileSize_def sint_of_nat_small to_int32_def int32_ok_def)
qed

theorem PickLevel_safe_witness:
  "let levels = [[example_file 7 10 20], [example_file 5 30 40], [], [], [], [], []] in
   \<exists>r. PickLevelForMemTableOutput BytewiseComparator (2 * 1048576) levels [50] [60] = Inr (int r) \<and> r \<le> 2 \<and>
    (0 < r \<longrightarrow> (\<forall>j \<le> r. \<forall>f \<in> set (levels ! j). \<not> meets (Some [50]) (Some [60]) f))"
  unfolding Let_def
  by (rule PickLevel_safe) (simp_all add: version_ok_def disjoint_files_def)

subsection \<open>The largest file size\<close>

text \<open>
  \<open>ClipToRange\<close> of \<open>db/db_impl.cc\<close> for \<open>max_file_size\<close>, a \<open>size_t\<close> that is compared after a conversion to \<open>int\<close>, and the
  size it leaves in the options of a database.
\<close>

definition ClipToRange :: "u64 \<Rightarrow> int \<Rightarrow> int \<Rightarrow> u64" where
  "ClipToRange p minvalue maxvalue =
     (let p = (if sint (ucast p :: u32) > maxvalue then of_int maxvalue else p)
      in if sint (ucast p :: u32) < minvalue then of_int minvalue else p)"

definition sanitized_max_file_size :: "u64 \<Rightarrow> nat" where
  "sanitized_max_file_size v = unat (ClipToRange v (2 ^ 20) (2 ^ 30))"

lemma sanitized_range:
  "2 ^ 20 \<le> TargetFileSize (sanitized_max_file_size v)" "TargetFileSize (sanitized_max_file_size v) \<le> 2 ^ 30"
  by (auto simp: TargetFileSize_def sanitized_max_file_size_def ClipToRange_def Let_def)

lemma sanitized_limits:
  fixes v :: u64
  defines "n \<equiv> sanitized_max_file_size v"
  shows "MaxGrandParentOverlapBytes n = (if 10 * TargetFileSize n < 2 ^ 31 then Inr (10 * TargetFileSize n) else Inl Undefined)"
    and "ExpandedCompactionByteSizeLimit n = (if 25 * TargetFileSize n < 2 ^ 31 then Inr (25 * TargetFileSize n) else Inl Undefined)"
  using sanitized_range [of v]
  by (simp_all add: n_def MaxGrandParentOverlapBytes_def ExpandedCompactionByteSizeLimit_def to_int32_def int32_ok_def)

text \<open>
  C39: where the limits of a compaction overflow. Whatever \<open>max_file_size\<close> a database is opened with, the target size
  after \<open>SanitizeOptions\<close> is between 1 MiB and 1 GiB; the limit on an expanded compaction is 25 times that size and
  undefined where this is no \<open>int\<close> (above 81.92 MiB); and the choice of the level of a new table has undefined
  behaviour exactly if ten times the size is no \<open>int\<close> (above 204.8 MiB) and no file of the levels 0 and 1 meets
  the range of the table, so that the limit is asked for at all.
\<close>

theorem overlap_limits_overflow:
  assumes "version_ok levels"
  shows "let n = sanitized_max_file_size v; size = TargetFileSize n in
    2 ^ 20 \<le> size \<and> size \<le> 2 ^ 30 \<and>
    ExpandedCompactionByteSizeLimit n = (if 25 * size < 2 ^ 31 then Inr (25 * size) else Inl Undefined) \<and>
    (PickLevelForMemTableOutput BytewiseComparator n levels small large = Inl Undefined \<longleftrightarrow>
      2 ^ 31 \<le> 10 * size \<and> (\<forall>j \<le> 1. \<forall>f \<in> set (levels ! j). \<not> meets (Some small) (Some large) f))"
proof -
  let ?n = "sanitized_max_file_size v"
  let ?free = "\<lambda>j. \<forall>f \<in> set (levels ! j). \<not> meets (Some small) (Some large) f"
  have bytes: "MaxGrandParentOverlapBytes ?n =
      (if 10 * TargetFileSize ?n < 2 ^ 31 then Inr (10 * TargetFileSize ?n) else Inl Undefined)"
    by (rule sanitized_limits(1))
  obtain start limit where k: "key_form start" "key_form limit"
    "PickLevelForMemTableOutput BytewiseComparator ?n levels small large =
      (if \<not> ?free 0 then Inr 0 else pick_loop 2 BytewiseComparator ?n levels small large start limit 0)"
    using pick_level [OF assms] by (metis (no_types, lifting))
  have "PickLevelForMemTableOutput BytewiseComparator ?n levels small large = Inl Undefined \<longleftrightarrow>
      2 ^ 31 \<le> 10 * TargetFileSize ?n \<and> ?free 0 \<and> ?free 1"
  proof (cases "10 * TargetFileSize ?n < 2 ^ 31")
    case True
    then have "MaxGrandParentOverlapBytes ?n = Inr (10 * TargetFileSize ?n)" using bytes by simp
    from pick_level_ok [OF assms this, of small large] True show ?thesis by auto
  next
    case False
    from pick_loop_step [OF assms _ k(1,2), of 0 1 ?n small large] obtain inputs where
      "pick_loop 2 BytewiseComparator ?n levels small large start limit 0 =
        (if \<not> ?free 1 then Inr 0 else Inl Undefined)"
      using False by (auto simp: bytes numeral_2_eq_2)
    then show ?thesis using k(3) False by simp
  qed
  moreover have "(\<forall>j \<le> 1. ?free j) \<longleftrightarrow> ?free 0 \<and> ?free 1" by (auto simp: le_Suc_eq)
  ultimately show ?thesis
    unfolding Let_def using sanitized_range [of v] sanitized_limits(2) [of v] by blast
qed

theorem overlap_limits_overflow_witness:
  "PickLevelForMemTableOutput BytewiseComparator (sanitized_max_file_size (2 ^ 30))
    [[example_file 7 10 20], [example_file 5 30 40], [], [], [], [], []] [50] [60] = Inl Undefined"
proof -
  let ?levels = "[[example_file 7 10 20], [example_file 5 30 40], [], [], [], [], []]"
  have "version_ok ?levels" by (simp_all add: version_ok_def disjoint_files_def)
  moreover have "TargetFileSize (sanitized_max_file_size (2 ^ 30)) = 2 ^ 30"
    by (simp add: TargetFileSize_def sanitized_max_file_size_def ClipToRange_def)
  moreover have "\<forall>j \<le> 1. \<forall>f \<in> set (?levels ! j). \<not> meets (Some [50]) (Some [60]) f"
    by (auto simp: le_Suc_eq meets_def)
  ultimately show ?thesis
    using overlap_limits_overflow [of ?levels "2 ^ 30" "[50]" "[60]"] unfolding Let_def by simp
qed

end
