(* ===== verification/DB_Iter.thy ===== *)
theory DB_Iter
  imports Iterators Random_Gen
begin

section \<open>The iterator of the database\<close>

text \<open>
  \<open>leveldb-mcpe/db/db_iter.cc\<close>: over an iterator of internal keys, the newest visible value of each user key,
  in both directions. Going forward the inner iterator stands at the entry that is shown; going back it
  stands before the entries of the key, which is saved with its value. From time to time the key that is parsed
  is reported to the database (\<open>RecordReadSample\<close>); the reports are a list of the state. A saved value
  is emptied with or without giving back its memory.
\<close>

datatype Direction = kForward | kReverse

record 's DBIter =
  di_user_comparator :: comparator
  di_iter :: 's
  di_sequence :: SequenceNumber
  di_status :: Status
  di_saved_key :: slice
  di_saved_value :: slice
  di_direction :: Direction
  di_valid :: bool
  di_rnd :: u32
  di_bytes_counter :: int
  di_samples :: "slice list"

definition kReadBytesPeriod :: int where
  "kReadBytesPeriod = 1048576"

definition RandomPeriod :: "u32 \<Rightarrow> (u32 \<times> u32) res" where
  "RandomPeriod rnd = Random_Uniform rnd (2 * kReadBytesPeriod)"

definition NewDBIterator :: "comparator \<Rightarrow> 's \<Rightarrow> SequenceNumber \<Rightarrow> u32 \<Rightarrow> 's DBIter res" where
  "NewDBIterator user_key_comparator internal_iter s seed =
     bind_res (RandomPeriod (new_Random seed)) (\<lambda>(period, rnd).
       Inr \<lparr>di_user_comparator = user_key_comparator, di_iter = internal_iter, di_sequence = s, di_status = OK,
         di_saved_key = [], di_saved_value = [], di_direction = kForward, di_valid = False, di_rnd = rnd,
         di_bytes_counter = uint period, di_samples = []\<rparr>)"

definition di_key :: "'s iterator \<Rightarrow> 's DBIter \<Rightarrow> slice res" where
  "di_key ops d =
     bind_res (guard_res (di_valid d) AssertFail) (\<lambda>_.
       if di_direction d = kForward then bind_res (it_key ops (di_iter d)) ExtractUserKey else Inr (di_saved_key d))"

definition di_value :: "'s iterator \<Rightarrow> 's DBIter \<Rightarrow> slice res" where
  "di_value ops d =
     bind_res (guard_res (di_valid d) AssertFail) (\<lambda>_.
       if di_direction d = kForward then it_value ops (di_iter d) else Inr (di_saved_value d))"

definition di_status_of :: "'s iterator \<Rightarrow> 's DBIter \<Rightarrow> Status res" where
  "di_status_of ops d = (if ok (di_status d) then it_status ops (di_iter d) else Inr (di_status d))"

text \<open>
  The loop that draws periods until the counter is not negative; two periods in a row are never both zero,
  so that twice the distance, and two more, bounds the rounds.
\<close>

fun sample_loop :: "nat \<Rightarrow> slice \<Rightarrow> 's DBIter \<Rightarrow> 's DBIter res" where
  "sample_loop fuel k d =
     (if di_bytes_counter d < 0 then
        (case fuel of 0 \<Rightarrow> Inl OutOfFuel
         | Suc fuel \<Rightarrow>
             bind_res (RandomPeriod (di_rnd d)) (\<lambda>(period, rnd).
               sample_loop fuel k (d\<lparr>di_rnd := rnd, di_bytes_counter := di_bytes_counter d + uint period,
                 di_samples := di_samples d @ [k]\<rparr>)))
      else Inr d)"

declare sample_loop.simps [simp del]

text \<open>The parsed key, or \<open>None\<close> for \<open>false\<close>.\<close>

definition ParseKey :: "'s iterator \<Rightarrow> 's DBIter \<Rightarrow> (ParsedInternalKey option \<times> 's DBIter) res" where
  "ParseKey ops d =
     bind_res (it_key ops (di_iter d)) (\<lambda>k.
     bind_res (it_value ops (di_iter d)) (\<lambda>v.
     let n = int (length k + length v); d = d\<lparr>di_bytes_counter := di_bytes_counter d - n\<rparr> in
     bind_res (sample_loop (2 * nat (- di_bytes_counter d) + 2) k d) (\<lambda>d.
     bind_res (ParseInternalKey k) (\<lambda>parsed.
     case parsed of None \<Rightarrow>
       bind_res (Corruption (map char_byte ''corrupted internal key in DBIter'') []) (\<lambda>s. Inr (None, d\<lparr>di_status := s\<rparr>))
     | Some ikey \<Rightarrow> Inr (Some ikey, d)))))"

subsection \<open>Forward\<close>

text \<open>
  What the loop does with the entry it stands at: whether it is to be shown, and whether keys are skipped
  afterwards. The key to skip is always \<open>saved_key_\<close>.
\<close>

definition accept_entry :: "bool \<Rightarrow> ParsedInternalKey option \<Rightarrow> 's DBIter \<Rightarrow> (bool \<times> bool \<times> 's DBIter) res" where
  "accept_entry skipping parsed d =
     (case parsed of None \<Rightarrow> Inr (False, skipping, d)
      | Some ikey \<Rightarrow>
          if sequence ikey \<le> di_sequence d then
            (case key_type ikey of
               kTypeDeletion \<Rightarrow> Inr (False, True, d\<lparr>di_saved_key := user_key ikey\<rparr>)
             | kTypeValue \<Rightarrow>
                 bind_res (if skipping then
                     bind_res (Compare (di_user_comparator d) (user_key ikey) (di_saved_key d)) (\<lambda>r. Inr (r \<le> 0))
                   else Inr False) (\<lambda>hidden.
                 if hidden then Inr (False, skipping, d)
                 else Inr (True, skipping, d\<lparr>di_valid := True, di_saved_key := []\<rparr>)))
          else Inr (False, skipping, d))"

fun next_loop :: "nat \<Rightarrow> 's iterator \<Rightarrow> bool \<Rightarrow> 's DBIter \<Rightarrow> 's DBIter res" where
  "next_loop 0 ops skipping d = Inl OutOfFuel"
| "next_loop (Suc fuel) ops skipping d =
     bind_res (ParseKey ops d) (\<lambda>(parsed, d).
     bind_res (accept_entry skipping parsed d) (\<lambda>(found, skipping, d).
     if found then Inr d
     else
       bind_res (it_Next ops (di_iter d)) (\<lambda>s.
       let d = d\<lparr>di_iter := s\<rparr> in
       if it_Valid ops s then next_loop fuel ops skipping d
       else Inr (d\<lparr>di_saved_key := [], di_valid := False\<rparr>))))"

definition FindNextUserEntry :: "nat \<Rightarrow> 's iterator \<Rightarrow> bool \<Rightarrow> 's DBIter \<Rightarrow> 's DBIter res" where
  "FindNextUserEntry fuel ops skipping d =
     bind_res (guard_res (it_Valid ops (di_iter d)) AssertFail) (\<lambda>_.
     bind_res (guard_res (di_direction d = kForward) AssertFail) (\<lambda>_. next_loop fuel ops skipping d))"

definition di_Next :: "nat \<Rightarrow> 's iterator \<Rightarrow> 's DBIter \<Rightarrow> 's DBIter res" where
  "di_Next fuel ops d =
     bind_res (guard_res (di_valid d) AssertFail) (\<lambda>_.
     if di_direction d = kReverse then
       let d = d\<lparr>di_direction := kForward\<rparr> in
       bind_res (if \<not> it_Valid ops (di_iter d) then it_SeekToFirst ops (di_iter d) else it_Next ops (di_iter d)) (\<lambda>s.
       let d = d\<lparr>di_iter := s\<rparr> in
       if \<not> it_Valid ops s then Inr (d\<lparr>di_valid := False, di_saved_key := []\<rparr>)
       else FindNextUserEntry fuel ops True d)
     else
       bind_res (it_key ops (di_iter d)) (\<lambda>k.
       bind_res (ExtractUserKey k) (\<lambda>u. FindNextUserEntry fuel ops True (d\<lparr>di_saved_key := u\<rparr>))))"

subsection \<open>Backward\<close>

text \<open>The loop ends before an entry of an earlier key once a value has been found.\<close>

definition stop_before :: "ValueType \<Rightarrow> ParsedInternalKey option \<Rightarrow> 's DBIter \<Rightarrow> bool res" where
  "stop_before value_type parsed d =
     (case parsed of None \<Rightarrow> Inr False
      | Some ikey \<Rightarrow>
          if sequence ikey \<le> di_sequence d \<and> value_type \<noteq> kTypeDeletion then
            bind_res (Compare (di_user_comparator d) (user_key ikey) (di_saved_key d)) (\<lambda>r. Inr (r < 0))
          else Inr False)"

definition take_entry :: "'s iterator \<Rightarrow> ValueType \<Rightarrow> ParsedInternalKey option \<Rightarrow> 's DBIter \<Rightarrow> (ValueType \<times> 's DBIter) res" where
  "take_entry ops value_type parsed d =
     (case parsed of None \<Rightarrow> Inr (value_type, d)
      | Some ikey \<Rightarrow>
          if sequence ikey \<le> di_sequence d then
            (if key_type ikey = kTypeDeletion then Inr (kTypeDeletion, d\<lparr>di_saved_key := [], di_saved_value := []\<rparr>)
             else
               bind_res (it_value ops (di_iter d)) (\<lambda>raw_value.
               bind_res (it_key ops (di_iter d)) (\<lambda>k.
               bind_res (ExtractUserKey k) (\<lambda>u.
                 Inr (key_type ikey, d\<lparr>di_saved_key := u, di_saved_value := raw_value\<rparr>)))))
          else Inr (value_type, d))"

fun prev_loop :: "nat \<Rightarrow> 's iterator \<Rightarrow> ValueType \<Rightarrow> 's DBIter \<Rightarrow> (ValueType \<times> 's DBIter) res" where
  "prev_loop 0 ops value_type d = Inl OutOfFuel"
| "prev_loop (Suc fuel) ops value_type d =
     bind_res (ParseKey ops d) (\<lambda>(parsed, d).
     bind_res (stop_before value_type parsed d) (\<lambda>stop.
     if stop then Inr (value_type, d)
     else
       bind_res (take_entry ops value_type parsed d) (\<lambda>(value_type, d).
       bind_res (it_Prev ops (di_iter d)) (\<lambda>s.
       let d = d\<lparr>di_iter := s\<rparr> in
       if it_Valid ops s then prev_loop fuel ops value_type d else Inr (value_type, d)))))"

definition FindPrevUserEntry :: "nat \<Rightarrow> 's iterator \<Rightarrow> 's DBIter \<Rightarrow> 's DBIter res" where
  "FindPrevUserEntry fuel ops d =
     bind_res (guard_res (di_direction d = kReverse) AssertFail) (\<lambda>_.
     bind_res (if it_Valid ops (di_iter d) then prev_loop fuel ops kTypeDeletion d else Inr (kTypeDeletion, d))
       (\<lambda>(value_type, d).
     Inr (if value_type = kTypeDeletion
       then d\<lparr>di_valid := False, di_saved_key := [], di_saved_value := [], di_direction := kForward\<rparr>
       else d\<lparr>di_valid := True\<rparr>)))"

text \<open>The scan to the entries of the key before \<open>saved_key_\<close>; \<open>False\<close> where there is none.\<close>

fun turn_loop :: "nat \<Rightarrow> 's iterator \<Rightarrow> 's DBIter \<Rightarrow> (bool \<times> 's DBIter) res" where
  "turn_loop 0 ops d = Inl OutOfFuel"
| "turn_loop (Suc fuel) ops d =
     bind_res (it_Prev ops (di_iter d)) (\<lambda>s.
     let d = d\<lparr>di_iter := s\<rparr> in
     if \<not> it_Valid ops s then Inr (False, d\<lparr>di_valid := False, di_saved_key := [], di_saved_value := []\<rparr>)
     else
       bind_res (it_key ops s) (\<lambda>k.
       bind_res (ExtractUserKey k) (\<lambda>u.
       bind_res (Compare (di_user_comparator d) u (di_saved_key d)) (\<lambda>r.
         if r < 0 then Inr (True, d) else turn_loop fuel ops d))))"

definition di_Prev :: "nat \<Rightarrow> 's iterator \<Rightarrow> 's DBIter \<Rightarrow> 's DBIter res" where
  "di_Prev fuel ops d =
     bind_res (guard_res (di_valid d) AssertFail) (\<lambda>_.
     if di_direction d = kForward then
       bind_res (guard_res (it_Valid ops (di_iter d)) AssertFail) (\<lambda>_.
       bind_res (it_key ops (di_iter d)) (\<lambda>k.
       bind_res (ExtractUserKey k) (\<lambda>u.
       bind_res (turn_loop fuel ops (d\<lparr>di_saved_key := u\<rparr>)) (\<lambda>(more, d).
         if more then FindPrevUserEntry fuel ops (d\<lparr>di_direction := kReverse\<rparr>) else Inr d))))
     else FindPrevUserEntry fuel ops d)"

subsection \<open>Positioning\<close>

definition di_Seek :: "nat \<Rightarrow> 's iterator \<Rightarrow> slice \<Rightarrow> 's DBIter \<Rightarrow> 's DBIter res" where
  "di_Seek fuel ops target d =
     (let d = d\<lparr>di_direction := kForward, di_saved_value := [], di_saved_key := []\<rparr> in
      bind_res (AppendInternalKey (di_saved_key d)
        \<lparr>user_key = target, sequence = di_sequence d, key_type = kValueTypeForSeek\<rparr>) (\<lambda>key.
      let d = d\<lparr>di_saved_key := key\<rparr> in
      bind_res (it_Seek ops key (di_iter d)) (\<lambda>s.
      let d = d\<lparr>di_iter := s\<rparr> in
      if it_Valid ops s then FindNextUserEntry fuel ops False d else Inr (d\<lparr>di_valid := False\<rparr>))))"

definition di_SeekToFirst :: "nat \<Rightarrow> 's iterator \<Rightarrow> 's DBIter \<Rightarrow> 's DBIter res" where
  "di_SeekToFirst fuel ops d =
     (let d = d\<lparr>di_direction := kForward, di_saved_value := []\<rparr> in
      bind_res (it_SeekToFirst ops (di_iter d)) (\<lambda>s.
      let d = d\<lparr>di_iter := s\<rparr> in
      if it_Valid ops s then FindNextUserEntry fuel ops False d else Inr (d\<lparr>di_valid := False\<rparr>)))"

definition di_SeekToLast :: "nat \<Rightarrow> 's iterator \<Rightarrow> 's DBIter \<Rightarrow> 's DBIter res" where
  "di_SeekToLast fuel ops d =
     (let d = d\<lparr>di_direction := kReverse, di_saved_value := []\<rparr> in
      bind_res (it_SeekToLast ops (di_iter d)) (\<lambda>s. FindPrevUserEntry fuel ops (d\<lparr>di_iter := s\<rparr>)))"

definition db_iterator :: "nat \<Rightarrow> 's iterator \<Rightarrow> 's DBIter iterator" where
  "db_iterator fuel ops =
     \<lparr>it_Valid = di_valid, it_SeekToFirst = di_SeekToFirst fuel ops, it_SeekToLast = di_SeekToLast fuel ops,
      it_Seek = di_Seek fuel ops, it_Next = di_Next fuel ops, it_Prev = di_Prev fuel ops, it_key = di_key ops,
      it_value = di_value ops, it_status = di_status_of ops\<rparr>"

end
