(* ===== verification/DB_Iter_Correct.thy ===== *)
theory DB_Iter_Correct
  imports DB_Iter Entries Block_Iterator
begin

section \<open>Correctness of the database iterator\<close>

text \<open>
  Over any iterator of internal keys that meets the interface, the database iterator is a cursor over
  the keys and values a user sees at its sequence number.
\<close>

subsection \<open>The samples\<close>

text \<open>Two periods in a row are not both zero.\<close>

definition zero_period :: "u32 \<Rightarrow> bool" where
  "zero_period seed \<longleftrightarrow> unat seed mod 2 ^ 21 = 0"

definition seed_ok :: "u32 \<Rightarrow> bool" where
  "seed_ok seed \<longleftrightarrow> 0 < unat seed \<and> unat seed < 2147483647"

lemma seed_ok_Next: "seed_ok seed \<Longrightarrow> seed_ok (Random_Next seed)"
  using Random_Next_range [of seed] by (simp add: seed_ok_def)

lemma zero_period_once:
  assumes "seed_ok seed" and "zero_period seed"
  shows "\<not> zero_period (Random_Next seed)"
proof -
  obtain k where k: "unat seed = 2 ^ 21 * k" using assms(2) by (auto simp: zero_period_def dvd_eq_mod_eq_0 [symmetric])
  have k1: "1 \<le> k" "k \<le> 1023" using assms(1) k by (auto simp: seed_ok_def)
  define a where "a = 16807 * k div 1024"
  define b where "b = 16807 * k mod 1024"
  have "16807 * k = 1024 * a + b" by (simp add: a_def b_def)
  then have e: "unat seed * 16807 = (a + 2 ^ 21 * b) + 2147483647 * a" by (simp add: k)
  have a: "1 \<le> a" "a < 16807" using k1 by (simp_all add: a_def)
  have b: "b < 1024" by (simp add: b_def)
  have "unat (Random_Next seed) = unat seed * 16807 mod 2147483647"
    using Random_Next_unat [of seed] assms(1) by (simp add: seed_ok_def)
  also have "\<dots> = (a + 2 ^ 21 * b) mod 2147483647" unfolding e by (rule mod_mult_self2)
  finally have "unat (Random_Next seed) = a + 2 ^ 21 * b" using a b by simp
  then show ?thesis using a by (simp add: zero_period_def)
qed

lemma RandomPeriod_ok:
  "RandomPeriod seed = Inr (Random_Next seed mod 2097152, Random_Next seed)"
  "uint (Random_Next seed mod 2097152) = int (unat (Random_Next seed) mod 2 ^ 21)"
proof -
  show "RandomPeriod seed = Inr (Random_Next seed mod 2097152, Random_Next seed)"
    by (simp add: RandomPeriod_def Random_Uniform_def kReadBytesPeriod_def Let_def)
  show "uint (Random_Next seed mod 2097152) = int (unat (Random_Next seed) mod 2 ^ 21)"
    by (simp add: uint_mod zmod_int)
qed

definition resampled :: "'s DBIter \<Rightarrow> 's DBIter \<Rightarrow> bool" where
  "resampled d d' \<longleftrightarrow> (\<exists>rnd c ss. d' = d\<lparr>di_rnd := rnd, di_bytes_counter := c, di_samples := ss\<rparr>) \<and>
     seed_ok (di_rnd d') \<and> 0 \<le> di_bytes_counter d'"

lemma resampled_again:
  assumes "resampled (d\<lparr>di_rnd := rnd, di_bytes_counter := c, di_samples := ss\<rparr>) d'"
  shows "resampled d d'"
proof -
  obtain rnd' c' ss' where "d' = d\<lparr>di_rnd := rnd, di_bytes_counter := c, di_samples := ss, di_rnd := rnd',
      di_bytes_counter := c', di_samples := ss'\<rparr>"
    using assms by (auto simp: resampled_def)
  then have "d' = d\<lparr>di_rnd := rnd', di_bytes_counter := c', di_samples := ss'\<rparr>" by simp
  then show ?thesis using assms unfolding resampled_def by blast
qed

lemma sample_loop_ok:
  assumes "seed_ok (di_rnd d)" and "2 * nat (- di_bytes_counter d) + (if zero_period (di_rnd d) then 1 else 2) \<le> fuel"
  shows "\<exists>d'. sample_loop fuel k d = Inr d' \<and> resampled d d'"
  using assms
proof (induction fuel arbitrary: d)
  case 0
  then show ?case by (simp split: if_splits)
next
  case (Suc fuel)
  show ?case
  proof (cases "di_bytes_counter d < 0")
    case False
    then have "sample_loop (Suc fuel) k d = Inr d" by (subst sample_loop.simps) simp
    moreover have "resampled d d"
      unfolding resampled_def using Suc.prems(1) False
      by (intro conjI exI [of _ "di_rnd d"] exI [of _ "di_bytes_counter d"] exI [of _ "di_samples d"]) simp_all
    ultimately show ?thesis by blast
  next
    case True
    let ?s = "Random_Next (di_rnd d)"
    let ?v = "int (unat ?s mod 2 ^ 21)"
    let ?d = "d\<lparr>di_rnd := ?s, di_bytes_counter := di_bytes_counter d + ?v, di_samples := di_samples d @ [k]\<rparr>"
    have ok: "seed_ok ?s" by (rule seed_ok_Next [OF Suc.prems(1)])
    have "zero_period ?s \<longleftrightarrow> ?v = 0" by (simp add: zero_period_def)
    moreover have "zero_period (di_rnd d) \<Longrightarrow> \<not> zero_period ?s" by (rule zero_period_once [OF Suc.prems(1)])
    ultimately have "2 * nat (- di_bytes_counter ?d) + (if zero_period (di_rnd ?d) then 1 else 2) \<le> fuel"
      using True Suc.prems(2) by (cases "zero_period ?s"; cases "zero_period (di_rnd d)") auto
    then obtain d' where "sample_loop fuel k ?d = Inr d'" "resampled ?d d'" using Suc.IH [of ?d] ok by auto
    moreover from this(1) have "sample_loop (Suc fuel) k d = Inr d'"
      using True by (subst sample_loop.simps) (simp add: RandomPeriod_ok)
    moreover from \<open>resampled ?d d'\<close> have "resampled d d'" by (rule resampled_again)
    ultimately show ?thesis by blast
  qed
qed

subsection \<open>The state\<close>

text \<open>An iterator of internal keys. The keys a client may ask for are those whose internal keys the iterator takes.\<close>

locale internal_iterator =
  sorted_iterator "InternalKeyComparator BytewiseComparator" valid internal_before ops at + user: key_order BytewiseComparator user_valid "(<)"
  for valid :: "slice \<Rightarrow> bool" and user_valid :: "slice \<Rightarrow> bool" and ops :: "'s iterator"
    and at :: "(slice \<times> slice) list \<Rightarrow> nat \<Rightarrow> 's \<Rightarrow> bool" +
  assumes valid_user: "valid (internal_key u t) \<longleftrightarrow> user_valid u"
begin

definition ready :: "nat \<Rightarrow> SequenceNumber \<Rightarrow> entries \<Rightarrow> 's DBIter \<Rightarrow> bool" where
  "ready fuel s es d \<longleftrightarrow> good_entries es \<and> s \<le> kMaxSequenceNumber \<and> length es < fuel \<and>
     di_sequence d = s \<and> di_user_comparator d = BytewiseComparator \<and> di_status d = OK \<and> seed_ok (di_rnd d)"

abbreviation child_at :: "entries \<Rightarrow> nat \<Rightarrow> 's DBIter \<Rightarrow> bool" where
  "child_at es p d \<equiv> at (entry_pairs es) p (di_iter d)"

text \<open>\<open>behind es r d\<close>: the child stands at the last of the first \<open>r\<close> entries, or nowhere.\<close>

abbreviation behind :: "entries \<Rightarrow> nat \<Rightarrow> 's DBIter \<Rightarrow> bool" where
  "behind es r d \<equiv> child_at es (if r = 0 then length es else r - 1) d"

definition shows_at :: "SequenceNumber \<Rightarrow> entries \<Rightarrow> nat \<Rightarrow> 's DBIter \<Rightarrow> bool" where
  "shows_at s es j d \<longleftrightarrow> shown s es j \<and>
     (if di_direction d = Direction.kForward then child_at es j d
      else di_saved_key d = ukey es j \<and> di_saved_value d = snd (es ! j) \<and>
        (\<exists>r \<le> j. (\<forall>i < r. ukey es i < ukey es j) \<and> (\<forall>i. r \<le> i \<and> i < j \<longrightarrow> \<not> seen s es i) \<and> behind es r d))"

definition db_at :: "nat \<Rightarrow> (slice \<times> slice) list \<Rightarrow> nat \<Rightarrow> 's DBIter \<Rightarrow> bool" where
  "db_at fuel kvs i d \<longleftrightarrow> (\<exists>s es. kvs = user_view s es \<and> ready fuel s es d \<and> (\<exists>p. child_at es p d) \<and> i \<le> length kvs \<and>
     (di_valid d \<longleftrightarrow> i < length kvs) \<and> (i < length kvs \<longrightarrow> (\<exists>j. i = shown_before s es j \<and> shows_at s es j d)))"

lemma length_entry_pairs [simp]: "length (entry_pairs es) = length es"
  by (simp add: entry_pairs_def)

lemma child_read:
  assumes "child_at es p d"
  shows "it_Valid ops (di_iter d) \<longleftrightarrow> p < length es"
    and "p < length es \<Longrightarrow> it_key ops (di_iter d) = Inr (entry_key (fst (es ! p)))"
    and "p < length es \<Longrightarrow> it_value ops (di_iter d) = Inr (snd (es ! p))"
    and "p \<le> length es"
  using at_Valid [OF assms] at_key [OF assms] at_value [OF assms] at_increasing [OF assms]
  by (simp_all add: entry_pairs_def case_prod_unfold)

lemma ParseKey_ok:
  assumes R: "ready fuel s es d" and p: "child_at es p d" "p < length es"
  shows "\<exists>d'. ParseKey ops d = Inr (Some (fst (es ! p)), d') \<and> resampled d d'"
proof -
  let ?k = "fst (es ! p)"
  have "sequence ?k \<le> kMaxSequenceNumber" using R p(2) by (auto simp: ready_def good_entries_def case_prod_unfold dest: nth_mem)
  from ParseInternalKey_internal [OF this] have k: "ParseInternalKey (entry_key ?k) = Inr (Some ?k)"
    by (simp add: entry_key_def)
  let ?d = "d\<lparr>di_bytes_counter := di_bytes_counter d - int (length (entry_key ?k) + length (snd (es ! p)))\<rparr>"
  have "seed_ok (di_rnd ?d)" using R by (simp add: ready_def)
  moreover have "2 * nat (- di_bytes_counter ?d) + (if zero_period (di_rnd ?d) then 1 else 2) \<le> 2 * nat (- di_bytes_counter ?d) + 2"
    by simp
  ultimately obtain d' where
    d': "sample_loop (2 * nat (- di_bytes_counter ?d) + 2) (entry_key ?k) ?d = Inr d'" "resampled ?d d'"
    using sample_loop_ok by blast
  have "d\<lparr>di_bytes_counter := c\<rparr> = d\<lparr>di_rnd := di_rnd d, di_bytes_counter := c, di_samples := di_samples d\<rparr>" for c by simp
  then have "resampled d d'" using d'(2) resampled_again by metis
  moreover have "ParseKey ops d = Inr (Some ?k, d')"
    using child_read(2,3) [OF p(1,2)] d'(1) k by (simp add: ParseKey_def Let_def)
  ultimately show ?thesis by blast
qed

text \<open>A sample changes nothing else.\<close>

lemma resampled_same:
  assumes "resampled d d'"
  shows "di_iter d' = di_iter d" "di_sequence d' = di_sequence d" "di_user_comparator d' = di_user_comparator d"
    "di_status d' = di_status d" "di_saved_key d' = di_saved_key d" "di_saved_value d' = di_saved_value d"
    "di_direction d' = di_direction d" "di_valid d' = di_valid d" "seed_ok (di_rnd d')"
  using assms by (auto simp: resampled_def)

lemma ready_resampled: "ready fuel s es d \<Longrightarrow> resampled d d' \<Longrightarrow> ready fuel s es d'"
  by (simp add: ready_def resampled_same)

lemma ready_updates [simp]:
  "ready fuel s es (d\<lparr>di_iter := x\<rparr>) = ready fuel s es d" "ready fuel s es (d\<lparr>di_saved_key := k\<rparr>) = ready fuel s es d"
  "ready fuel s es (d\<lparr>di_saved_value := v\<rparr>) = ready fuel s es d" "ready fuel s es (d\<lparr>di_direction := dir\<rparr>) = ready fuel s es d"
  "ready fuel s es (d\<lparr>di_valid := b\<rparr>) = ready fuel s es d"
  by (simp_all add: ready_def)

lemma shown_at_db:
  assumes "ready fuel s es d" and "shows_at s es j d" and "di_valid d" and "child_at es p d"
  shows "db_at fuel (user_view s es) (shown_before s es j) d"
proof -
  have "shown s es j" using assms(2) by (simp add: shows_at_def)
  then have "shown_before s es j < length (user_view s es)" by (rule user_view_nth(1))
  then show ?thesis
    unfolding db_at_def using assms by (intro exI [of _ s] exI [of _ es] conjI exI [of _ p] impI exI [of _ j]) simp_all
qed

lemma invalid_db:
  assumes "ready fuel s es d" and "\<not> di_valid d" and "child_at es p d"
  shows "db_at fuel (user_view s es) (length (user_view s es)) d"
  unfolding db_at_def using assms by (intro exI [of _ s] exI [of _ es]) auto

subsection \<open>Forward\<close>

text \<open>What is known of the entries ahead, where the keys up to \<open>sk\<close> are skipped or none.\<close>

definition ahead :: "SequenceNumber \<Rightarrow> entries \<Rightarrow> nat \<Rightarrow> bool \<Rightarrow> slice \<Rightarrow> bool" where
  "ahead s es p skipping sk \<longleftrightarrow> (\<forall>j \<ge> p. seen s es j \<longrightarrow> (skipping \<longrightarrow> sk \<le> ukey es j) \<and>
     (\<not> skipping \<or> sk < ukey es j \<longrightarrow> (\<forall>i < p. ukey es i = ukey es j \<longrightarrow> \<not> seen s es i)))"

lemma aheadD:
  assumes "ahead s es p skipping sk" and "p \<le> j" and "seen s es j"
  shows "skipping \<Longrightarrow> sk \<le> ukey es j"
    and "\<not> skipping \<or> sk < ukey es j \<Longrightarrow> i < p \<Longrightarrow> ukey es i = ukey es j \<Longrightarrow> \<not> seen s es i"
  using assms unfolding ahead_def by blast+

lemma next_loop_ok:
  assumes "ready fuel s es d" and "child_at es p d" and "p < length es" and "di_direction d = Direction.kForward" and "length es - p \<le> n"
    and "ahead s es p skipping (di_saved_key d)" and "m \<le> length es"
    and "\<forall>j. shown s es j \<longrightarrow> (m \<le> j \<longleftrightarrow> p \<le> j \<and> (skipping \<longrightarrow> di_saved_key d < ukey es j))"
  shows "\<exists>d'. next_loop n ops skipping d = Inr d' \<and> db_at fuel (user_view s es) (shown_before s es m) d'"
  using assms
proof (induction n arbitrary: p skipping d)
  case (Suc n)
  note R = Suc.prems(1) and ch = Suc.prems(2,3) and A = Suc.prems(6)[unfolded ahead_def] and M = Suc.prems(8)
  obtain d1 where d1: "ParseKey ops d = Inr (Some (fst (es ! p)), d1)" "resampled d d1" using ParseKey_ok [OF R ch] by blast
  note same = resampled_same [OF d1(2)]
  have R1: "ready fuel s es d1" by (rule ready_resampled [OF R d1(2)])
  have ch1: "child_at es p d1" using ch(1) same(1) by simp
  have seq: "di_sequence d1 = s" "di_user_comparator d1 = BytewiseComparator" using R1 by (simp_all add: ready_def)
  have good: "good_entries es" using R by (simp add: ready_def)
  let ?e = "fst (es ! p)" and ?sk = "di_saved_key d"
  let ?show = "seen s es p \<and> key_type ?e = kTypeValue \<and> (skipping \<longrightarrow> ?sk < ukey es p)"
  let ?skip = "skipping \<or> seen s es p \<and> key_type ?e = kTypeDeletion"
  let ?sk' = "if seen s es p \<and> key_type ?e = kTypeDeletion then ukey es p else ?sk"
  have acc: "accept_entry skipping (Some ?e) d1 = Inr (if ?show then (True, skipping, d1\<lparr>di_valid := True, di_saved_key := []\<rparr>)
      else (False, ?skip, d1\<lparr>di_saved_key := ?sk'\<rparr>))"
    using ch(2) seq same(5) by (cases "key_type ?e") (auto simp: accept_entry_def seen_def slice_compare_order)
  show ?case
  proof (cases ?show)
    case True
    have "shown s es p" unfolding shown_def using True A by blast
    moreover have "m \<le> p" using M \<open>shown s es p\<close> True by blast
    moreover have "shown_before s es p = shown_before s es m"
      using M by (intro shown_before_same [OF \<open>m \<le> p\<close>]) auto
    moreover have "next_loop (Suc n) ops skipping d = Inr (d1\<lparr>di_valid := True, di_saved_key := []\<rparr>)"
      using d1(1) acc True by simp
    moreover have "shows_at s es p (d1\<lparr>di_valid := True, di_saved_key := []\<rparr>)"
      using \<open>shown s es p\<close> ch1 same(7) Suc.prems(4) by (simp add: shows_at_def)
    ultimately show ?thesis using shown_at_db [of fuel s es "d1\<lparr>di_valid := True, di_saved_key := []\<rparr>" p p] R1 ch1 by simp
  next
    case False
    let ?d2 = "d1\<lparr>di_saved_key := ?sk'\<rparr>"
    obtain s' where s': "it_Next ops (di_iter d1) = Inr s'" "at (entry_pairs es) (Suc p) s'" using at_Next [OF ch1] ch(2) by auto
    have V: "it_Valid ops s' \<longleftrightarrow> Suc p < length es" using at_Valid [OF s'(2)] by simp
    have step: "next_loop (Suc n) ops skipping d = (if Suc p < length es then next_loop n ops ?skip (?d2\<lparr>di_iter := s'\<rparr>)
        else Inr (d1\<lparr>di_iter := s', di_saved_key := [], di_valid := False\<rparr>))"
      using d1(1) acc False s'(1) V by simp
    have later: "ukey es p \<le> ukey es j" if "Suc p \<le> j" "seen s es j" for j
      using ukey_mono [OF good, of p j] that by (simp add: seen_def)
    have notp: "\<not> (shown s es p \<and> (skipping \<longrightarrow> ?sk < ukey es p))" using False by (auto simp: shown_def)
    have M': "\<forall>j. shown s es j \<longrightarrow> (m \<le> j \<longleftrightarrow> Suc p \<le> j \<and> (?skip \<longrightarrow> ?sk' < ukey es j))"
    proof (intro allI impI)
      fix j assume j: "shown s es j"
      have "p \<le> j \<and> (skipping \<longrightarrow> ?sk < ukey es j) \<longleftrightarrow> Suc p \<le> j \<and> (?skip \<longrightarrow> ?sk' < ukey es j)"
      proof (cases "Suc p \<le> j")
        case True
        have js: "seen s es j" using j by (simp add: shown_def)
        have "ukey es p < ukey es j" "skipping \<Longrightarrow> ?sk < ukey es j" if "seen s es p"
          using that j True later [OF True js] A by (auto simp: shown_def order.strict_iff_order)
        then show ?thesis using True by auto
      next
        case False
        then show ?thesis using notp j by (cases "p = j") auto
      qed
      then show "m \<le> j \<longleftrightarrow> Suc p \<le> j \<and> (?skip \<longrightarrow> ?sk' < ukey es j)" using M j by blast
    qed
    show ?thesis
    proof (cases "Suc p < length es")
      case True
      have A': "ahead s es (Suc p) ?skip ?sk'"
        unfolding ahead_def
      proof (intro allI impI)
        fix j assume j: "Suc p \<le> j" "seen s es j"
        note o = aheadD [OF Suc.prems(6) Suc_leD [OF j(1)] j(2)]
        have "\<not> seen s es i" if i: "i < Suc p" "ukey es i = ukey es j" "\<not> ?skip \<or> ?sk' < ukey es j" for i
        proof
          assume si: "seen s es i"
          have up: "ukey es i \<le> ukey es p" using ukey_mono [OF good, of i p] i(1) ch(2) by simp
          show False
          proof (cases "seen s es p \<and> key_type ?e = kTypeDeletion")
            case True
            then show ?thesis using up i by auto
          next
            case nodel: False
            then have h: "\<not> skipping \<or> ?sk < ukey es j" using i(3) by auto
            show ?thesis
            proof (cases "i = p")
              case True
              then have "skipping" "ukey es p \<le> ?sk"
                using False nodel si by (cases "key_type ?e"; auto simp: not_less)+
              then show ?thesis using h i(2) True by auto
            next
              case False
              then show ?thesis using o(2) [OF h _ i(2)] i(1) si by simp
            qed
          qed
        qed
        moreover have "?skip \<longrightarrow> ?sk' \<le> ukey es j" using o(1) later [OF j] by auto
        ultimately show "(?skip \<longrightarrow> ?sk' \<le> ukey es j) \<and>
            (\<not> ?skip \<or> ?sk' < ukey es j \<longrightarrow> (\<forall>i < Suc p. ukey es i = ukey es j \<longrightarrow> \<not> seen s es i))" by blast
      qed
      have "\<exists>d'. next_loop n ops ?skip (?d2\<lparr>di_iter := s'\<rparr>) = Inr d' \<and> db_at fuel (user_view s es) (shown_before s es m) d'"
        by (rule Suc.IH [of "?d2\<lparr>di_iter := s'\<rparr>" "Suc p" ?skip])
          (use R1 s'(2) True Suc.prems(4,5,7) same(7) A' M' in simp_all)
      then show ?thesis using step True by simp
    next
      case last: False
      then have n: "length es = Suc p" using ch(2) by simp
      have "shown_before s es (length es) = shown_before s es m"
        using M' n by (intro shown_before_same [OF Suc.prems(7)]) auto
      then have "db_at fuel (user_view s es) (shown_before s es m) (d1\<lparr>di_iter := s', di_saved_key := [], di_valid := False\<rparr>)"
        using invalid_db [of fuel s es "d1\<lparr>di_iter := s', di_saved_key := [], di_valid := False\<rparr>" "Suc p"] R1 s'(2)
        by (simp add: length_user_view)
      then show ?thesis using step last by simp
    qed
  qed
qed simp

lemma FindNext_ok:
  assumes "ready fuel s es d" and "child_at es p d" and "p < length es" and "di_direction d = Direction.kForward"
    and "ahead s es p skipping (di_saved_key d)" and "m \<le> length es"
    and "\<forall>j. shown s es j \<longrightarrow> (m \<le> j \<longleftrightarrow> p \<le> j \<and> (skipping \<longrightarrow> di_saved_key d < ukey es j))"
  shows "\<exists>d'. FindNextUserEntry fuel ops skipping d = Inr d' \<and> db_at fuel (user_view s es) (shown_before s es m) d'"
proof -
  have "length es - p \<le> fuel" using assms(1) by (auto simp: ready_def)
  from next_loop_ok [OF assms(1-4) this assms(5-7)] show ?thesis
    using child_read(1) [OF assms(2)] assms(3,4) by (simp add: FindNextUserEntry_def)
qed

lemma SeekToFirst_ok:
  assumes "db_at fuel kvs i d"
  shows "\<exists>d'. di_SeekToFirst fuel ops d = Inr d' \<and> db_at fuel kvs 0 d'"
proof -
  obtain s es p where d: "kvs = user_view s es" "ready fuel s es d" "child_at es p d" using assms by (auto simp: db_at_def)
  obtain s' where s': "it_SeekToFirst ops (di_iter d) = Inr s'" "at (entry_pairs es) 0 s'" using at_SeekToFirst [OF d(3)] by blast
  let ?d = "d\<lparr>di_direction := Direction.kForward, di_saved_value := [], di_iter := s'\<rparr>"
  have V: "it_Valid ops s' \<longleftrightarrow> es \<noteq> []" using at_Valid [OF s'(2)] by simp
  show ?thesis
  proof (cases "es = []")
    case True
    then have "user_view s es = []" by (simp add: user_view_def)
    then show ?thesis using invalid_db [of fuel s es "?d\<lparr>di_valid := False\<rparr>" 0] d(1,2) s' V True
      by (simp add: di_SeekToFirst_def)
  next
    case False
    have "\<exists>d'. FindNextUserEntry fuel ops False ?d = Inr d' \<and> db_at fuel (user_view s es) (shown_before s es 0) d'"
      using d(2) s'(2) False by (intro FindNext_ok [of _ _ _ _ 0]) (simp_all add: ahead_def)
    then show ?thesis using d(1) s'(1) V False by (simp add: di_SeekToFirst_def)
  qed
qed

lemma rank_user_view:
  fixes u :: slice
  assumes "good_entries es" and "s \<le> kMaxSequenceNumber"
  defines "t \<equiv> internal_key u (push_bit 8 s OR type_code kTypeValue)"
  shows "j < length es \<Longrightarrow> passed u s (es ! j) \<longleftrightarrow> j < rank internal_before t (entry_pairs es)"
    and "rank (<) u (user_view s es) = shown_before s es (rank internal_before t (entry_pairs es))"
proof -
  let ?p = "rank internal_before t (entry_pairs es)"
  have inc: "internal.increasing (map fst (entry_pairs es))"
    using assms(1) by (auto simp: internal.increasing_def good_entries_def entry_pairs_def entry_key_def internal_valid_def)
  have v: "internal_valid t" by (simp add: t_def internal_valid_def)
  show passed: "passed u s (es ! j) \<longleftrightarrow> j < ?p" if j: "j < length es" for j
  proof -
    have "sequence (fst (es ! j)) \<le> kMaxSequenceNumber" using assms(1) nth_mem [OF j] by (auto simp: good_entries_def case_prod_unfold)
    then have "internal_before (fst (entry_pairs es ! j)) t \<longleftrightarrow> passed u s (es ! j)"
      using entry_before_target [OF _ assms(2), of "fst (es ! j)" u] j
      by (simp add: passed_def t_def entry_pairs_def case_prod_unfold)
    then show ?thesis using internal.count_keys_nth [OF inc internal.downward_before [OF v]] j by (simp add: rank_count)
  qed
  have pl: "?p \<le> length es" using length_filter_le [of _ "entry_pairs es"] by (simp add: rank_def)
  have "shown s es j \<and> ukey es j < u \<longleftrightarrow> shown s es j \<and> j < ?p" if "j < length es" for j
    using passed [OF that] by (auto simp: passed_def shown_def seen_def)
  then have "filter (\<lambda>j. shown s es j \<and> ukey es j < u) [0..<length es] = filter (\<lambda>j. shown s es j \<and> j < ?p) [0..<length es]"
    by (intro filter_cong) auto
  also have "\<dots> = filter (\<lambda>j. shown s es j \<and> j < ?p) ([0..<?p] @ [?p..<length es])"
    using upt_add_eq_append [of 0 ?p "length es - ?p"] pl by simp
  also have "\<dots> = filter (shown s es) [0..<?p]" by (auto simp: filter_empty_conv intro: filter_cong)
  finally show "rank (<) u (user_view s es) = shown_before s es ?p"
    by (simp add: rank_def user_view_def shown_before_def filter_map comp_def conj_commute)
qed

lemma Seek_ok:
  assumes "db_at fuel kvs i d" and "user_valid u"
  shows "\<exists>d'. di_Seek fuel ops u d = Inr d' \<and> db_at fuel kvs (rank (<) u kvs) d'"
proof -
  obtain s es p0 where d: "kvs = user_view s es" "ready fuel s es d" "child_at es p0 d" using assms by (auto simp: db_at_def)
  have good: "good_entries es" "s \<le> kMaxSequenceNumber" "di_sequence d = s" using d(2) by (simp_all add: ready_def)
  let ?t = "internal_key u (push_bit 8 s OR type_code kTypeValue)"
  define p where "p = rank internal_before ?t (entry_pairs es)"
  note rank = rank_user_view [OF good(1,2), where u = u, folded p_def]
  have app: "AppendInternalKey [] \<lparr>user_key = u, sequence = s, key_type = kValueTypeForSeek\<rparr> = Inr ?t"
    using AppendInternalKey_ok [of "\<lparr>user_key = u, sequence = s, key_type = kValueTypeForSeek\<rparr>" "[]"] good(2)
    by (simp add: kValueTypeForSeek_def)
  have "valid ?t" using assms(2) by (simp add: valid_user)
  from at_Seek [OF d(3) this] obtain s' where s': "it_Seek ops ?t (di_iter d) = Inr s'" "at (entry_pairs es) p s'"
    unfolding p_def by blast
  let ?d = "d\<lparr>di_direction := Direction.kForward, di_saved_value := [], di_saved_key := ?t, di_iter := s'\<rparr>"
  have V: "it_Valid ops s' \<longleftrightarrow> p < length es" using at_Valid [OF s'(2)] by simp
  have pl: "p \<le> length es" using at_increasing [OF s'(2)] by simp
  show ?thesis
  proof (cases "p < length es")
    case False
    then have "p = length es" using pl by simp
    then show ?thesis using invalid_db [of fuel s es "?d\<lparr>di_valid := False\<rparr>" p] d(1,2) s' V False app good(3) rank(2)
      by (simp add: di_Seek_def length_user_view)
  next
    case True
    have "ahead s es p False ?t"
      unfolding ahead_def
    proof (intro allI impI conjI)
      fix j i assume j: "p \<le> j" "seen s es j" and i: "i < p" "ukey es i = ukey es j"
      have jl: "j < length es" using j(2) by (simp add: seen_def)
      then have "\<not> passed u s (es ! j)" "passed u s (es ! i)" using rank(1) [of j] rank(1) [of i] j(1) i(1) by simp_all
      then show "\<not> seen s es i" using i(2) by (auto simp: passed_def seen_def)
    qed simp
    then have "\<exists>d'. FindNextUserEntry fuel ops False ?d = Inr d' \<and> db_at fuel (user_view s es) (shown_before s es p) d'"
      using d(2) s'(2) True by (intro FindNext_ok [of _ _ _ _ p]) (simp_all add: ready_def)
    then show ?thesis using d(1) s'(1) V True app good(3) rank(2) by (simp add: di_Seek_def)
  qed
qed

lemma shown_order:
  assumes "good_entries es" and "shown s es j" and "shown s es j'"
  shows "j < j' \<longleftrightarrow> ukey es j < ukey es j'"
proof
  assume "j < j'"
  then have "ukey es j \<noteq> ukey es j'" using assms(2,3) by (auto simp: shown_def)
  then show "ukey es j < ukey es j'"
    using ukey_mono [OF assms(1), of j j'] shown_less [OF assms(3)] \<open>j < j'\<close> by simp
next
  assume less: "ukey es j < ukey es j'"
  show "j < j'"
  proof (rule ccontr)
    assume "\<not> j < j'"
    then show False using ukey_mono [OF assms(1), of j' j] shown_less [OF assms(2)] less by simp
  qed
qed

text \<open>The key that is shown is skipped, from any place before its entry that no visible entry is in between.\<close>

lemma skip_shown:
  assumes "ready fuel s es d" and "child_at es r d" and "di_direction d = Direction.kForward" and "di_saved_key d = ukey es j"
    and "shown s es j" and "r \<le> j" and "\<forall>i. r \<le> i \<and> i < j \<longrightarrow> \<not> seen s es i"
  shows "\<exists>d'. FindNextUserEntry fuel ops True d = Inr d' \<and> db_at fuel (user_view s es) (Suc (shown_before s es j)) d'"
proof -
  have good: "good_entries es" using assms(1) by (simp add: ready_def)
  have j: "j < length es" by (rule shown_less [OF assms(5)])
  have "ahead s es r True (ukey es j)"
    unfolding ahead_def
  proof (intro allI impI conjI)
    fix j' assume j': "r \<le> j'" "seen s es j'"
    have "j \<le> j'" using assms(7) j' by (meson not_le)
    then show "ukey es j \<le> ukey es j'" using ukey_mono [OF good] j'(2) by (simp add: seen_def)
    fix i assume i: "\<not> True \<or> ukey es j < ukey es j'" "i < r" "ukey es i = ukey es j'"
    have "ukey es i \<le> ukey es j" using ukey_mono [OF good, of i j] i(2) assms(6) j by simp
    then show "\<not> seen s es i" using i(1,3) by simp
  qed
  moreover have "\<forall>j'. shown s es j' \<longrightarrow> (Suc j \<le> j' \<longleftrightarrow> r \<le> j' \<and> (True \<longrightarrow> ukey es j < ukey es j'))"
  proof (intro allI impI)
    fix j' assume "shown s es j'"
    from shown_order [OF good assms(5) this] show "Suc j \<le> j' \<longleftrightarrow> r \<le> j' \<and> (True \<longrightarrow> ukey es j < ukey es j')"
      using assms(6) by (cases "j < j'") (auto simp: Suc_le_eq)
  qed
  ultimately have "\<exists>d'. FindNextUserEntry fuel ops True d = Inr d' \<and> db_at fuel (user_view s es) (shown_before s es (Suc j)) d'"
    using j assms(6) by (intro FindNext_ok [OF assms(1,2) _ assms(3)]) (simp_all add: assms(4))
  then show ?thesis using assms(5) by simp
qed

lemma Next_ok:
  assumes "db_at fuel kvs i d" and "i < length kvs"
  shows "\<exists>d'. di_Next fuel ops d = Inr d' \<and> db_at fuel kvs (Suc i) d'"
proof -
  obtain s es j where d: "kvs = user_view s es" "ready fuel s es d" "di_valid d" "i = shown_before s es j" "shows_at s es j d"
    using assms unfolding db_at_def by auto
  have sh: "shown s es j" and j: "j < length es" using d(5) shown_less by (auto simp: shows_at_def)
  show ?thesis
  proof (cases "di_direction d")
    case kForward
    then have ch: "child_at es j d" using d(5) by (simp add: shows_at_def)
    have "\<exists>d'. FindNextUserEntry fuel ops True (d\<lparr>di_saved_key := ukey es j\<rparr>) = Inr d' \<and>
        db_at fuel (user_view s es) (Suc (shown_before s es j)) d'"
      using d(2) ch kForward sh by (intro skip_shown [of _ _ _ _ j]) auto
    then show ?thesis using child_read(2) [OF ch j] kForward d(1,3,4) by (simp add: di_Next_def entry_key_def)
  next
    case kReverse
    then obtain r where r: "r \<le> j" "\<forall>i. r \<le> i \<and> i < j \<longrightarrow> \<not> seen s es i" "behind es r d" "di_saved_key d = ukey es j"
      using d(5) by (auto simp: shows_at_def)
    have "\<exists>s'. (if \<not> it_Valid ops (di_iter d) then it_SeekToFirst ops (di_iter d) else it_Next ops (di_iter d)) = Inr s' \<and>
        at (entry_pairs es) r s'"
      using at_Valid [OF r(3)] at_SeekToFirst [OF r(3)] at_Next [OF r(3)] r(1) j by (cases "r = 0") auto
    then obtain s' where s': "(if \<not> it_Valid ops (di_iter d) then it_SeekToFirst ops (di_iter d) else it_Next ops (di_iter d)) = Inr s'"
      "at (entry_pairs es) r s'" by blast
    have "it_Valid ops s'" using at_Valid [OF s'(2)] r(1) j by simp
    moreover have "\<exists>d'. FindNextUserEntry fuel ops True (d\<lparr>di_direction := Direction.kForward, di_iter := s'\<rparr>) = Inr d' \<and>
        db_at fuel (user_view s es) (Suc (shown_before s es j)) d'"
      using d(2) s'(2) r sh by (intro skip_shown [of _ _ _ _ r]) simp_all
    ultimately show ?thesis using s'(1) kReverse d(1,3,4)
      by (cases "it_Valid ops (di_iter d)") (simp_all add: di_Next_def Let_def)
  qed
qed

subsection \<open>Backward\<close>

text \<open>
  \<open>found_behind s es R r vt k v\<close>: of the entries from \<open>r\<close> to \<open>R\<close>, the loop has found the oldest one of a key, or
  knows that none of them is shown.
\<close>

definition found_behind :: "SequenceNumber \<Rightarrow> entries \<Rightarrow> nat \<Rightarrow> nat \<Rightarrow> ValueType \<Rightarrow> slice \<Rightarrow> slice \<Rightarrow> bool" where
  "found_behind s es R r vt k v \<longleftrightarrow>
     (if vt = kTypeDeletion then \<forall>j. r \<le> j \<and> j < R \<longrightarrow> \<not> shown s es j
      else \<exists>c. r \<le> c \<and> c < R \<and> seen s es c \<and> key_type (fst (es ! c)) = kTypeValue \<and> k = ukey es c \<and> v = snd (es ! c) \<and>
        (\<forall>i. r \<le> i \<and> i < c \<longrightarrow> \<not> seen s es i) \<and> (\<forall>j. r \<le> j \<and> j < R \<and> j \<noteq> c \<longrightarrow> \<not> shown s es j))"

lemma found_unseen:
  assumes "found_behind s es R (Suc q) vt k v" and "\<not> seen s es q"
  shows "found_behind s es R q vt k v"
proof -
  have q: "\<not> shown s es q" using assms(2) by (simp add: shown_def)
  have le: "q \<le> j \<longleftrightarrow> j = q \<or> Suc q \<le> j" for j by auto
  show ?thesis
  proof (cases "vt = kTypeDeletion")
    case True
    then show ?thesis using assms(1) q by (auto simp: found_behind_def le)
  next
    case False
    then obtain c where "Suc q \<le> c" "c < R" "seen s es c" "key_type (fst (es ! c)) = kTypeValue" "k = ukey es c" "v = snd (es ! c)"
      "\<forall>i. Suc q \<le> i \<and> i < c \<longrightarrow> \<not> seen s es i" "\<forall>j. Suc q \<le> j \<and> j < R \<and> j \<noteq> c \<longrightarrow> \<not> shown s es j"
      using assms(1) by (auto simp: found_behind_def)
    then show ?thesis using False assms(2) q unfolding found_behind_def by (auto simp: le intro!: exI [of _ c])
  qed
qed

text \<open>A visible entry of the same key or of an earlier one, while nothing is held.\<close>

lemma found_seen:
  assumes "found_behind s es R (Suc q) vt k v" and "seen s es q" and "q < R" and "vt = kTypeDeletion \<or> ukey es q = k"
  shows "key_type (fst (es ! q)) = kTypeDeletion \<Longrightarrow> found_behind s es R q kTypeDeletion k' v'"
    and "key_type (fst (es ! q)) = kTypeValue \<Longrightarrow> found_behind s es R q kTypeValue (ukey es q) (snd (es ! q))"
proof -
  have later: "\<not> shown s es j" if "Suc q \<le> j" "j < R" for j
  proof (cases "vt = kTypeDeletion")
    case True
    then show ?thesis using assms(1) that by (simp add: found_behind_def)
  next
    case False
    then obtain c where c: "k = ukey es c" "\<forall>j. Suc q \<le> j \<and> j < R \<and> j \<noteq> c \<longrightarrow> \<not> shown s es j"
      using assms(1) by (auto simp: found_behind_def)
    show ?thesis
    proof (cases "j = c")
      case True
      then show ?thesis using assms(2,4) c(1) False that(1) by (auto simp: shown_def Suc_le_eq intro!: exI [of _ q])
    next
      case False
      then show ?thesis using c(2) that by blast
    qed
  qed
  have le: "q \<le> j \<longleftrightarrow> j = q \<or> Suc q \<le> j" for j by auto
  show "found_behind s es R q kTypeDeletion k' v'" if "key_type (fst (es ! q)) = kTypeDeletion"
    using later that by (auto simp: found_behind_def le shown_def)
  show "found_behind s es R q kTypeValue (ukey es q) (snd (es ! q))" if "key_type (fst (es ! q)) = kTypeValue"
    using later that assms(2,3) unfolding found_behind_def by (auto simp: le intro!: exI [of _ q])
qed

lemma prev_loop_ok:
  assumes "ready fuel s es d" and "child_at es q d" and "q < R" and "R \<le> length es" and "Suc q \<le> n"
    and "found_behind s es R (Suc q) vt (di_saved_key d) (di_saved_value d)"
  shows "\<exists>vt' d' r. prev_loop n ops vt d = Inr (vt', d') \<and> ready fuel s es d' \<and> r \<le> R \<and> behind es r d' \<and>
    di_direction d' = di_direction d \<and> found_behind s es R r vt' (di_saved_key d') (di_saved_value d') \<and>
    (if vt' = kTypeDeletion then r = 0 else \<forall>i < r. ukey es i < di_saved_key d')"
  using assms
proof (induction n arbitrary: q vt d)
  case (Suc n)
  note R = Suc.prems(1) and F = Suc.prems(6)
  have ql: "q < length es" using Suc.prems(3,4) by simp
  obtain d1 where d1: "ParseKey ops d = Inr (Some (fst (es ! q)), d1)" "resampled d d1"
    using ParseKey_ok [OF R Suc.prems(2) ql] by blast
  note same = resampled_same [OF d1(2)]
  have R1: "ready fuel s es d1" by (rule ready_resampled [OF R d1(2)])
  have ch1: "child_at es q d1" using Suc.prems(2) same(1) by simp
  have seq: "di_sequence d1 = s" "di_user_comparator d1 = BytewiseComparator" using R1 by (simp_all add: ready_def)
  have good: "good_entries es" using R by (simp add: ready_def)
  let ?e = "fst (es ! q)"
  let ?stop = "seen s es q \<and> vt \<noteq> kTypeDeletion \<and> ukey es q < di_saved_key d"
  have stop: "stop_before vt (Some ?e) d1 = Inr ?stop"
    using seq same(5) ql by (auto simp: stop_before_def seen_def slice_compare_order)
  show ?case
  proof (cases ?stop)
    case True
    have "ukey es i < di_saved_key d1" if "i < Suc q" for i
      using ukey_mono [OF good, of i q] that ql True same(5) by (auto intro: order.strict_trans1)
    then show ?thesis using True d1(1) stop R1 ch1 same(5,6,7) F Suc.prems(3)
      by (intro exI [of _ vt] exI [of _ d1] exI [of _ "Suc q"]) simp
  next
    case False
    let ?vt = "if seen s es q then key_type ?e else vt"
    let ?d2 = "if seen s es q then
        if key_type ?e = kTypeDeletion then d1\<lparr>di_saved_key := [], di_saved_value := []\<rparr>
        else d1\<lparr>di_saved_key := ukey es q, di_saved_value := snd (es ! q)\<rparr>
      else d1"
    have take: "take_entry ops vt (Some ?e) d1 = Inr (?vt, ?d2)"
      using seq(1) child_read(2,3) [OF ch1 ql] ql by (auto simp: take_entry_def seen_def entry_key_def)
    have d2: "ready fuel s es ?d2" "di_iter ?d2 = di_iter d1" "di_direction ?d2 = di_direction d" using R1 same(7) by auto
    have up: "ukey es q \<le> di_saved_key d" if "vt \<noteq> kTypeDeletion"
    proof -
      note nd = that
      obtain c where "Suc q \<le> c" "c < R" "di_saved_key d = ukey es c" using F nd by (auto simp: found_behind_def)
      then show ?thesis using ukey_mono [OF good, of q c] Suc.prems(4) by simp
    qed
    have F2: "found_behind s es R q ?vt (di_saved_key ?d2) (di_saved_value ?d2)"
    proof (cases "seen s es q")
      case seen: True
      have "vt = kTypeDeletion \<or> ukey es q = di_saved_key d" using False seen up by (auto simp: order.order_iff_strict)
      from found_seen [OF F seen Suc.prems(3) this] show ?thesis using seen by (cases "key_type ?e") simp_all
    next
      case False
      then show ?thesis using found_unseen [OF F False] same(5,6) by simp
    qed
    obtain s' where s': "it_Prev ops (di_iter d1) = Inr s'" "at (entry_pairs es) (if q = 0 then length es else q - 1) s'"
      using at_Prev [OF ch1, unfolded length_entry_pairs] ql by auto
    have V: "it_Valid ops s' \<longleftrightarrow> q \<noteq> 0" using at_Valid [OF s'(2)] ql by auto
    have step: "prev_loop (Suc n) ops vt d = (if q \<noteq> 0 then prev_loop n ops ?vt (?d2\<lparr>di_iter := s'\<rparr>) else Inr (?vt, ?d2\<lparr>di_iter := s'\<rparr>))"
      using d1(1) stop False take s'(1) d2(2) V by simp
    show ?thesis
    proof (cases "q = 0")
      case True
      then show ?thesis unfolding step using d2 s'(2) F2
        by (intro exI [of _ ?vt] exI [of _ "?d2\<lparr>di_iter := s'\<rparr>"] exI [of _ 0]) simp
    next
      case pos: False
      then have q: "Suc (q - 1) = q" by simp
      have "\<exists>vt' d' r. prev_loop n ops ?vt (?d2\<lparr>di_iter := s'\<rparr>) = Inr (vt', d') \<and> ready fuel s es d' \<and> r \<le> R \<and> behind es r d' \<and>
        di_direction d' = di_direction (?d2\<lparr>di_iter := s'\<rparr>) \<and> found_behind s es R r vt' (di_saved_key d') (di_saved_value d') \<and>
        (if vt' = kTypeDeletion then r = 0 else \<forall>i < r. ukey es i < di_saved_key d')"
        by (rule Suc.IH [of "?d2\<lparr>di_iter := s'\<rparr>" "q - 1"])
          (use d2 s'(2) F2 pos Suc.prems(3,4,5) in \<open>simp_all add: q\<close>)
      then show ?thesis using step pos d2(3) by simp
    qed
  qed
qed simp

text \<open>The entry shown last before \<open>R\<close>, or the end.\<close>

definition before_index :: "SequenceNumber \<Rightarrow> entries \<Rightarrow> nat \<Rightarrow> nat" where
  "before_index s es R = (if shown_before s es R = 0 then length (user_view s es) else shown_before s es R - 1)"

lemma FindPrev_ok:
  assumes "ready fuel s es d" and "behind es R d" and "R \<le> length es" and "di_direction d = Direction.kReverse"
  shows "\<exists>d'. FindPrevUserEntry fuel ops d = Inr d' \<and> db_at fuel (user_view s es) (before_index s es R) d'"
proof -
  have "\<exists>vt' d' r. (if it_Valid ops (di_iter d) then prev_loop fuel ops kTypeDeletion d else Inr (kTypeDeletion, d)) = Inr (vt', d') \<and>
    ready fuel s es d' \<and> r \<le> R \<and> behind es r d' \<and> di_direction d' = di_direction d \<and>
    found_behind s es R r vt' (di_saved_key d') (di_saved_value d') \<and>
    (if vt' = kTypeDeletion then r = 0 else \<forall>i < r. ukey es i < di_saved_key d')"
  proof (cases "R = 0")
    case True
    then have "\<not> it_Valid ops (di_iter d)" using at_Valid [of "entry_pairs es" "length es" "di_iter d"] assms(2) by simp
    then show ?thesis using assms(1,2) True
      by (intro exI [of _ kTypeDeletion] exI [of _ d] exI [of _ 0]) (simp add: found_behind_def)
  next
    case False
    then have V: "it_Valid ops (di_iter d)" using at_Valid [OF assms(2)] assms(3) by simp
    have "length es < fuel" using assms(1) by (simp add: ready_def)
    then have "\<exists>vt' d' r. prev_loop fuel ops kTypeDeletion d = Inr (vt', d') \<and> ready fuel s es d' \<and> r \<le> R \<and> behind es r d' \<and>
      di_direction d' = di_direction d \<and> found_behind s es R r vt' (di_saved_key d') (di_saved_value d') \<and>
      (if vt' = kTypeDeletion then r = 0 else \<forall>i < r. ukey es i < di_saved_key d')"
      using assms(1-3) False by (intro prev_loop_ok [of _ _ _ _ "R - 1"]) (auto simp: found_behind_def)
    then show ?thesis using V by simp
  qed
  then obtain vt d' r where p: "(if it_Valid ops (di_iter d) then prev_loop fuel ops kTypeDeletion d else Inr (kTypeDeletion, d)) = Inr (vt, d')"
    "ready fuel s es d'" "r \<le> R" "behind es r d'" "di_direction d' = di_direction d"
    "found_behind s es R r vt (di_saved_key d') (di_saved_value d')"
    "if vt = kTypeDeletion then r = 0 else \<forall>i < r. ukey es i < di_saved_key d'" by blast
  show ?thesis
  proof (cases "vt = kTypeDeletion")
    case True
    let ?d = "d'\<lparr>di_valid := False, di_saved_key := [], di_saved_value := [], di_direction := Direction.kForward\<rparr>"
    have "shown_before s es R = shown_before s es 0"
      using p(6,7) True by (intro shown_before_same) (simp_all add: found_behind_def)
    then have "before_index s es R = length (user_view s es)" by (simp add: before_index_def)
    moreover have "db_at fuel (user_view s es) (length (user_view s es)) ?d"
      using p(2,4) by (intro invalid_db) simp_all
    ultimately show ?thesis using p(1) True assms(4) by (simp add: FindPrevUserEntry_def)
  next
    case False
    then obtain c where c: "r \<le> c" "c < R" "seen s es c" "key_type (fst (es ! c)) = kTypeValue" "di_saved_key d' = ukey es c"
      "di_saved_value d' = snd (es ! c)" "\<forall>i. r \<le> i \<and> i < c \<longrightarrow> \<not> seen s es i" "\<forall>j. r \<le> j \<and> j < R \<and> j \<noteq> c \<longrightarrow> \<not> shown s es j"
      using p(6) by (auto simp: found_behind_def)
    have below: "\<forall>i < r. ukey es i < ukey es c" using p(7) False c(5) by simp
    have sh: "shown s es c"
      unfolding shown_def
    proof (intro conjI allI impI)
      fix i assume "i < c" "ukey es i = ukey es c"
      then show "\<not> seen s es i" using below c(7) by (cases "i < r") auto
    qed (use c(3,4) in simp_all)
    have "shown_before s es R = shown_before s es (Suc c)"
      using c(1,2,8) by (intro shown_before_same) auto
    then have "before_index s es R = shown_before s es c" using sh by (simp add: before_index_def)
    moreover have "shows_at s es c (d'\<lparr>di_valid := True\<rparr>)"
      unfolding shows_at_def using sh p(4,5) assms(4) c(1,5,6,7) below
      by (simp del: split_paired_Ex) (rule exI [of _ r], cases "r = 0", simp_all)
    ultimately show ?thesis
      using p(1,2,4) False assms(4) shown_at_db [of fuel s es "d'\<lparr>di_valid := True\<rparr>" c "if r = 0 then length es else r - 1"]
      by (simp add: FindPrevUserEntry_def)
  qed
qed

lemma turn_loop_ok:
  assumes "good_entries es" and "at (entry_pairs es) q (di_iter d)" and "q < length es" and "Suc q \<le> n"
    and "di_user_comparator d = BytewiseComparator" and "ukey es q = di_saved_key d"
  shows "\<exists>more s' r. turn_loop n ops d = Inr (more, if more then d\<lparr>di_iter := s'\<rparr>
      else d\<lparr>di_iter := s', di_valid := False, di_saved_key := [], di_saved_value := []\<rparr>) \<and> more = (r \<noteq> 0) \<and>
    r \<le> q \<and> (\<forall>i. r \<le> i \<and> i \<le> q \<longrightarrow> ukey es i = di_saved_key d) \<and> at (entry_pairs es) (if r = 0 then length es else r - 1) s'"
  using assms
proof (induction n arbitrary: q d)
  case (Suc n)
  obtain s' where s': "it_Prev ops (di_iter d) = Inr s'" "at (entry_pairs es) (if q = 0 then length es else q - 1) s'"
    using at_Prev [OF Suc.prems(2), unfolded length_entry_pairs] Suc.prems(3) by auto
  have V: "it_Valid ops s' \<longleftrightarrow> q \<noteq> 0" using at_Valid [OF s'(2)] Suc.prems(3) by auto
  show ?case
  proof (cases "q = 0")
    case True
    then show ?thesis using s' V Suc.prems(6) by (intro exI [of _ False] exI [of _ s'] exI [of _ 0]) simp
  next
    case False
    then have at: "child_at es (q - 1) (d\<lparr>di_iter := s'\<rparr>)" using s'(2) by simp
    have ql: "q - 1 < length es" using Suc.prems(3) by simp
    have le: "ukey es (q - 1) \<le> di_saved_key d" using ukey_mono [OF Suc.prems(1), of "q - 1" q] Suc.prems(3,6) by simp
    have step: "turn_loop (Suc n) ops d = (if ukey es (q - 1) < di_saved_key d then Inr (True, d\<lparr>di_iter := s'\<rparr>)
        else turn_loop n ops (d\<lparr>di_iter := s'\<rparr>))"
      using s'(1) V False child_read(2) [OF at ql] Suc.prems(5) by (simp add: entry_key_def slice_compare_order Let_def)
    show ?thesis
    proof (cases "ukey es (q - 1) < di_saved_key d")
      case True
      then show ?thesis unfolding step using at False Suc.prems(6)
        by (intro exI [of _ True] exI [of _ s'] exI [of _ q]) (auto dest: order_antisym)
    next
      case same: False
      then have k: "ukey es (q - 1) = di_saved_key (d\<lparr>di_iter := s'\<rparr>)" using le by simp
      have f: "Suc (q - 1) \<le> n" using Suc.prems(4) False by simp
      obtain more s'' r where t: "turn_loop n ops (d\<lparr>di_iter := s'\<rparr>) = Inr (more, if more then d\<lparr>di_iter := s'\<rparr>\<lparr>di_iter := s''\<rparr>
          else d\<lparr>di_iter := s'\<rparr>\<lparr>di_iter := s'', di_valid := False, di_saved_key := [], di_saved_value := []\<rparr>)" "more = (r \<noteq> 0)"
        "r \<le> q - 1" "\<forall>i. r \<le> i \<and> i \<le> q - 1 \<longrightarrow> ukey es i = di_saved_key (d\<lparr>di_iter := s'\<rparr>)"
        "at (entry_pairs es) (if r = 0 then length es else r - 1) s''"
        using Suc.IH [OF Suc.prems(1) at ql f _ k] Suc.prems(5) by auto
      have "\<forall>i. r \<le> i \<and> i \<le> q \<longrightarrow> ukey es i = di_saved_key d"
      proof (intro allI impI)
        fix i assume "r \<le> i \<and> i \<le> q"
        then show "ukey es i = di_saved_key d" using t(4) Suc.prems(6) by (cases "i = q") auto
      qed
      then show ?thesis unfolding step using same t(1,2,3,5)
        by (intro exI [of _ more] exI [of _ s''] exI [of _ r]) simp
    qed
  qed
qed simp

lemma Prev_ok:
  assumes "db_at fuel kvs i d" and "i < length kvs"
  shows "\<exists>d'. di_Prev fuel ops d = Inr d' \<and> db_at fuel kvs (if i = 0 then length kvs else i - 1) d'"
proof -
  obtain s es j where d: "kvs = user_view s es" "ready fuel s es d" "di_valid d" "i = shown_before s es j" "shows_at s es j d"
    using assms unfolding db_at_def by auto
  have sh: "shown s es j" and j: "j < length es" using d(5) shown_less by (auto simp: shows_at_def)
  have good: "good_entries es" "length es < fuel" "di_user_comparator d = BytewiseComparator" using d(2) by (simp_all add: ready_def)
  have goal: "before_index s es r = (if i = 0 then length kvs else i - 1)" if "r \<le> j" "\<forall>i. r \<le> i \<and> i < j \<longrightarrow> \<not> shown s es i" for r
    using shown_before_same [of r j s es] that by (simp add: before_index_def d(1,4))
  show ?thesis
  proof (cases "di_direction d")
    case kReverse
    then obtain r where r: "r \<le> j" "\<forall>i. r \<le> i \<and> i < j \<longrightarrow> \<not> seen s es i" "behind es r d"
      using d(5) by (auto simp: shows_at_def)
    have "before_index s es r = (if i = 0 then length kvs else i - 1)" using r(1,2) by (intro goal) (auto simp: shown_def)
    moreover have "r \<le> length es" using r(1) j by simp
    ultimately show ?thesis using FindPrev_ok [OF d(2) r(3) _ kReverse] d(1,3) kReverse by (simp add: di_Prev_def)
  next
    case kForward
    then have ch: "child_at es j d" using d(5) by (simp add: shows_at_def)
    let ?d = "d\<lparr>di_saved_key := ukey es j\<rparr>"
    have pre: "at (entry_pairs es) j (di_iter ?d)" "Suc j \<le> fuel" "di_user_comparator ?d = BytewiseComparator" "ukey es j = di_saved_key ?d"
      using ch good(2,3) j by simp_all
    obtain more s' r where t: "turn_loop fuel ops ?d = Inr (more, if more then ?d\<lparr>di_iter := s'\<rparr>
        else ?d\<lparr>di_iter := s', di_valid := False, di_saved_key := [], di_saved_value := []\<rparr>)" "more = (r \<noteq> 0)"
      "r \<le> j" "\<forall>i. r \<le> i \<and> i \<le> j \<longrightarrow> ukey es i = di_saved_key ?d" "at (entry_pairs es) (if r = 0 then length es else r - 1) s'"
      using turn_loop_ok [OF good(1) pre(1) j pre(2-4)] by (elim exE conjE) (rule that)
    have "\<not> shown s es i" if i: "r \<le> i" "i < j" for i
    proof -
      have "ukey es i = ukey es j" using spec [OF t(4), of i] i by simp
      then have "\<not> seen s es i" using sh i(2) by (simp add: shown_def)
      then show ?thesis by (simp add: shown_def)
    qed
    then have bi: "before_index s es r = (if i = 0 then length kvs else i - 1)" using t(3) by (intro goal) auto
    have key: "it_Valid ops (di_iter d)" "bind_res (it_key ops (di_iter d)) ExtractUserKey = Inr (ukey es j)"
      using child_read(1,2) [OF ch] j by (simp_all add: entry_key_def)
    have step: "di_Prev fuel ops d = (if more then FindPrevUserEntry fuel ops (?d\<lparr>di_iter := s', di_direction := Direction.kReverse\<rparr>)
        else Inr (?d\<lparr>di_iter := s', di_valid := False, di_saved_key := [], di_saved_value := []\<rparr>))"
      using child_read(1,2) [OF ch] j d(3) kForward t(1) by (simp add: di_Prev_def entry_key_def)
    show ?thesis
    proof (cases "r = 0")
      case True
      have "before_index s es 0 = length kvs" by (simp add: before_index_def d(1))
      moreover have "db_at fuel (user_view s es) (length (user_view s es))
          (?d\<lparr>di_iter := s', di_valid := False, di_saved_key := [], di_saved_value := []\<rparr>)"
        using d(2) t(5) by (intro invalid_db) simp_all
      ultimately show ?thesis using step t(2) True bi d(1) by simp
    next
      case False
      have "\<exists>d'. FindPrevUserEntry fuel ops (?d\<lparr>di_iter := s', di_direction := Direction.kReverse\<rparr>) = Inr d' \<and>
          db_at fuel (user_view s es) (before_index s es r) d'"
        using d(2) t(3,5) j by (intro FindPrev_ok) simp_all
      then show ?thesis using step t(2) False bi d(1) by simp
    qed
  qed
qed

lemma SeekToLast_ok:
  assumes "db_at fuel kvs i d"
  shows "\<exists>d'. di_SeekToLast fuel ops d = Inr d' \<and> db_at fuel kvs (length kvs - 1) d'"
proof -
  obtain s es p where d: "kvs = user_view s es" "ready fuel s es d" "child_at es p d" using assms by (auto simp: db_at_def)
  obtain s' where s': "it_SeekToLast ops (di_iter d) = Inr s'" "at (entry_pairs es) (length es - 1) s'"
    using at_SeekToLast [OF d(3)] by auto
  have "\<exists>d'. FindPrevUserEntry fuel ops (d\<lparr>di_direction := Direction.kReverse, di_saved_value := [], di_iter := s'\<rparr>) = Inr d' \<and>
      db_at fuel (user_view s es) (before_index s es (length es)) d'"
    using d(2) s'(2) by (intro FindPrev_ok) (auto split: if_splits)
  moreover have "before_index s es (length es) = length kvs - 1" by (simp add: before_index_def d(1) length_user_view)
  ultimately show ?thesis using s'(1) d(1) by (simp add: di_SeekToLast_def)
qed

subsection \<open>The interface\<close>

lemma user_view_increasing:
  assumes "good_entries es"
  shows "sorted_wrt (<) (map fst (user_view s es))"
proof -
  have "sorted_wrt (<) (filter (shown s es) [0..<length es])" by (rule sorted_wrt_filter) simp
  then have "sorted_wrt (\<lambda>i j. ukey es i < ukey es j) (filter (shown s es) [0..<length es])"
    by (rule sorted_wrt_mono_rel [rotated]) (use shown_order [OF assms] in auto)
  then show ?thesis by (simp add: user_view_def comp_def sorted_wrt_map)
qed

lemma db_sorted: "sorted_iterator BytewiseComparator user_valid (<) (db_iterator fuel ops) (db_at fuel)"
proof unfold_locales
  fix kvs i d
  assume at: "db_at fuel kvs i d"
  then obtain s es p where d: "kvs = user_view s es" "ready fuel s es d" "child_at es p d" "i \<le> length kvs" "di_valid d \<longleftrightarrow> i < length kvs"
    unfolding db_at_def by blast
  note simps = db_iterator_def iterator.simps
  have "user_valid k" if "k \<in> set (map fst (user_view s es))" for k
  proof -
    have "\<exists>j. shown s es j \<and> k = ukey es j" using that by (auto simp: user_view_def)
    then obtain j where j: "shown s es j" "k = ukey es j" by blast
    have "valid (entry_key (fst (es ! j)))"
      using at_increasing [OF d(3)] shown_less [OF j(1)] by (auto simp: increasing_def entry_pairs_def case_prod_unfold)
    then show ?thesis using j(2) by (simp add: entry_key_def valid_user)
  qed
  then show "user.increasing (map fst kvs) \<and> i \<le> length kvs"
    using user_view_increasing d(1,2,4) by (simp add: user.increasing_def ready_def)
  show "it_Valid (db_iterator fuel ops) d \<longleftrightarrow> i < length kvs" using d(5) by (simp add: simps)
  have read: "di_key ops d = Inr (fst (kvs ! i)) \<and> di_value ops d = Inr (snd (kvs ! i))" if i: "i < length kvs"
  proof -
    obtain s es j where e: "kvs = user_view s es" "i = shown_before s es j" "shows_at s es j d" using at i unfolding db_at_def by blast
    have sh: "shown s es j" using e(3) by (simp add: shows_at_def)
    show ?thesis
    proof (cases "di_direction d")
      case kForward
      then have ch: "child_at es j d" using e(3) by (simp add: shows_at_def)
      show ?thesis using child_read(2,3) [OF ch shown_less [OF sh]] kForward d(5) i user_view_nth(2) [OF sh] e(1,2)
        by (simp add: di_key_def di_value_def entry_key_def)
    next
      case kReverse
      then show ?thesis using e d(5) i user_view_nth(2) [OF sh] by (auto simp: di_key_def di_value_def shows_at_def)
    qed
  qed
  then show "it_key (db_iterator fuel ops) d = Inr (fst (kvs ! i))" "it_value (db_iterator fuel ops) d = Inr (snd (kvs ! i))"
    if "i < length kvs" using that by (simp_all add: simps)
  show "it_status (db_iterator fuel ops) d = Inr OK"
    using at_status [OF d(3)] d(2) by (simp add: simps di_status_of_def ready_def)
  show "\<exists>s'. it_SeekToFirst (db_iterator fuel ops) d = Inr s' \<and> db_at fuel kvs 0 s'" using SeekToFirst_ok [OF at] by (simp add: simps)
  show "\<exists>s'. it_SeekToLast (db_iterator fuel ops) d = Inr s' \<and> db_at fuel kvs (length kvs - 1) s'"
    using SeekToLast_ok [OF at] by (simp add: simps)
  show "\<exists>s'. it_Seek (db_iterator fuel ops) t d = Inr s' \<and> db_at fuel kvs (rank (<) t kvs) s'" if "user_valid t" for t
    using Seek_ok [OF at that] by (simp add: simps)
  show "\<exists>s'. it_Next (db_iterator fuel ops) d = Inr s' \<and> db_at fuel kvs (Suc i) s'" if "i < length kvs"
    using Next_ok [OF at that] by (simp add: simps)
  show "\<exists>s'. it_Prev (db_iterator fuel ops) d = Inr s' \<and> db_at fuel kvs (if i = 0 then length kvs else i - 1) s'" if "i < length kvs"
    using Prev_ok [OF at that] by (simp add: simps)
  show "it_Next (db_iterator fuel ops) d = Inl AssertFail \<and> it_Prev (db_iterator fuel ops) d = Inl AssertFail" if "i = length kvs"
    using d(5) that by (simp add: simps di_Next_def di_Prev_def)
qed

lemma NewDBIterator_ok:
  assumes "at (entry_pairs es) p x" and "good_entries es" and "s \<le> kMaxSequenceNumber" and "length es < fuel"
  shows "\<exists>d. NewDBIterator BytewiseComparator x s seed = Inr d \<and> db_at fuel (user_view s es) (length (user_view s es)) d"
proof -
  have "seed_ok (Random_Next (new_Random seed))"
    using new_Random_range [of seed] by (intro seed_ok_Next) (simp add: seed_ok_def)
  then show ?thesis using assms
    by (auto simp: NewDBIterator_def RandomPeriod_ok(1) ready_def intro!: invalid_db [of fuel s es _ p])
qed

end

lemma internal_iteratorI:
  assumes "sorted_iterator (InternalKeyComparator BytewiseComparator) internal_valid internal_before ops at"
  shows "internal_iterator internal_valid (\<lambda>_. True) ops at"
  using assms bytewise.key_order_axioms
  by (simp add: internal_iterator_def internal_iterator_axioms_def internal_valid_def)

interpretation internal_blocks: internal_iterator internal_valid "\<lambda>_. True" block_iterator internal.block_at
  by (rule internal_iteratorI, rule internal.blocks.sorted_iterator_axioms)

end
