(* ===== verification/Database_View.thy ===== *)
theory Database_View
  imports DB_Iter_Correct Table_Roundtrip
begin

section \<open>The view of a database\<close>

text \<open>
  Tables, the merging iterator and the database iterator put together: what a client of the database reads out
  of a set of tables at a sequence number, and that a lookup of one key gives the same answer.
\<close>

subsection \<open>Objects that bring their operations\<close>

text \<open>A call of a virtual function: the object says which operations are meant.\<close>

definition bundled :: "('c \<Rightarrow> 's iterator) \<Rightarrow> ('c \<times> 's) iterator" where
  "bundled ops =
     \<lparr>it_Valid = \<lambda>(c, x). it_Valid (ops c) x,
      it_SeekToFirst = \<lambda>(c, x). bind_res (it_SeekToFirst (ops c) x) (\<lambda>x. Inr (c, x)),
      it_SeekToLast = \<lambda>(c, x). bind_res (it_SeekToLast (ops c) x) (\<lambda>x. Inr (c, x)),
      it_Seek = \<lambda>k (c, x). bind_res (it_Seek (ops c) k x) (\<lambda>x. Inr (c, x)),
      it_Next = \<lambda>(c, x). bind_res (it_Next (ops c) x) (\<lambda>x. Inr (c, x)),
      it_Prev = \<lambda>(c, x). bind_res (it_Prev (ops c) x) (\<lambda>x. Inr (c, x)),
      it_key = \<lambda>(c, x). it_key (ops c) x, it_value = \<lambda>(c, x). it_value (ops c) x, it_status = \<lambda>(c, x). it_status (ops c) x\<rparr>"

context key_order
begin

definition bundle_at :: "('c \<Rightarrow> 's iterator) \<Rightarrow> (slice \<times> slice) list \<Rightarrow> nat \<Rightarrow> 'c \<times> 's \<Rightarrow> bool" where
  "bundle_at ops kvs i z \<longleftrightarrow> (\<exists>at. sorted_iterator cmp valid before (ops (fst z)) at \<and> at kvs i (snd z))"

lemma bundled_sorted: "sorted_iterator cmp valid before (bundled ops) (bundle_at ops)"
proof unfold_locales
  fix kvs i z
  assume "bundle_at ops kvs i z"
  then obtain c x at where z: "z = (c, x)" and S: "sorted_iterator cmp valid before (ops c) at" and a: "at kvs i x"
    by (cases z) (auto simp: bundle_at_def)
  have at: "bundle_at ops kvs j (c, y)" if "at kvs j y" for j y using S that by (auto simp: bundle_at_def)
  note simps = bundled_def iterator.simps z case_prod_conv
  show "increasing (map fst kvs) \<and> i \<le> length kvs" by (rule sorted_iterator.at_increasing [OF S a])
  show "it_Valid (bundled ops) z \<longleftrightarrow> i < length kvs" unfolding simps by (rule sorted_iterator.at_Valid [OF S a])
  show "it_key (bundled ops) z = Inr (fst (kvs ! i))" "it_value (bundled ops) z = Inr (snd (kvs ! i))" if "i < length kvs"
    unfolding simps using sorted_iterator.at_key [OF S a that] sorted_iterator.at_value [OF S a that] by simp_all
  show "it_status (bundled ops) z = Inr OK" unfolding simps by (rule sorted_iterator.at_status [OF S a])
  show "\<exists>z'. it_SeekToFirst (bundled ops) z = Inr z' \<and> bundle_at ops kvs 0 z'"
    unfolding simps using sorted_iterator.at_SeekToFirst [OF S a] at by auto
  show "\<exists>z'. it_SeekToLast (bundled ops) z = Inr z' \<and> bundle_at ops kvs (length kvs - 1) z'"
    unfolding simps using sorted_iterator.at_SeekToLast [OF S a] at by auto
  show "\<exists>z'. it_Seek (bundled ops) t z = Inr z' \<and> bundle_at ops kvs (rank before t kvs) z'" if "valid t" for t
    unfolding simps using sorted_iterator.at_Seek [OF S a that] at by auto
  show "\<exists>z'. it_Next (bundled ops) z = Inr z' \<and> bundle_at ops kvs (Suc i) z'" if "i < length kvs"
    unfolding simps using sorted_iterator.at_Next [OF S a that] at by auto
  show "\<exists>z'. it_Prev (bundled ops) z = Inr z' \<and> bundle_at ops kvs (if i = 0 then length kvs else i - 1) z'" if "i < length kvs"
    unfolding simps using sorted_iterator.at_Prev [OF S a that] at by auto
  show "it_Next (bundled ops) z = Inl AssertFail \<and> it_Prev (bundled ops) z = Inl AssertFail" if "i = length kvs"
    unfolding simps using sorted_iterator.at_end [OF S a that] by simp
qed

end

interpretation bundled_internal: sorted_iterator "InternalKeyComparator BytewiseComparator" internal_valid internal_before
  "bundled ops" "internal.bundle_at ops" for ops
  by (rule internal.bundled_sorted)

interpretation merged_internal: internal_iterator internal_valid "\<lambda>_. True" "merging_iterator (bundled ops)" "bundled_internal.merged_at ops" for ops
  by (rule internal_iteratorI, rule bundled_internal.merging_sorted)

interpretation bundled_view: internal_iterator internal_valid "\<lambda>_. True" "bundled ops" "internal.bundle_at ops" for ops
  by (rule internal_iteratorI, rule internal.bundled_sorted)

subsection \<open>Merged lists\<close>

lemma entries_increasing: "good_entries es \<Longrightarrow> internal.increasing (map fst (entry_pairs es))"
  by (auto simp: internal.increasing_def good_entries_def entry_pairs_def entry_key_def internal_valid_def)

lemma entries_merge:
  assumes "good_entries es" and "\<forall>e \<in> set ess. good_entries e" and "mset es = mset (concat ess)"
  shows "internal.merge_of (map entry_pairs ess) (entry_pairs es)"
proof (rule internal.merge_of_mset)
  have "mset (entry_pairs es) = mset (entry_pairs (concat ess))" using assms(3) by (simp add: entry_pairs_def)
  then show "mset (entry_pairs es) = mset (concat (map entry_pairs ess))" by (simp add: entry_pairs_def [abs_def] map_concat)
qed (use assms entries_increasing in auto)

subsection \<open>Opening tables\<close>

text \<open>The iterators of tables, each with the table and the state of the files it reads.\<close>

definition table_ops :: "(u32 \<Rightarrow> slice \<Rightarrow> u32) \<Rightarrow> 's RandomAccessFile \<Rightarrow> ReadOptions \<Rightarrow> Table \<times> 's \<Rightarrow>
    (AnyIter, AnyIter) TwoLevelIterator iterator" where
  "table_ops acc rf ro = (\<lambda>(t, st). two_level_iterator (table_levels acc rf t ro st))"

definition open_table :: "(u32 \<Rightarrow> slice \<Rightarrow> u32) \<Rightarrow> 's WritableFile \<Rightarrow> 's RandomAccessFile \<Rightarrow> Options \<Rightarrow> 's \<Rightarrow> entries \<Rightarrow> (Table \<times> 's) res" where
  "open_table acc f rf opts st es =
     bind_res (build_table acc f opts (entry_pairs es) st) (\<lambda>(_, r, st').
     bind_res (Table_Open acc rf opts (tb_FileSize r) st') (\<lambda>(_, t).
       case t of None \<Rightarrow> Inl AssertFail | Some t \<Rightarrow> Inr (t, st')))"

fun open_tables :: "(u32 \<Rightarrow> slice \<Rightarrow> u32) \<Rightarrow> 's WritableFile \<Rightarrow> 's RandomAccessFile \<Rightarrow> Options \<Rightarrow> ReadOptions \<Rightarrow> 's \<Rightarrow> entries list \<Rightarrow>
    ((Table \<times> 's) \<times> (AnyIter, AnyIter) TwoLevelIterator) list res" where
  "open_tables acc f rf opts ro st [] = Inr []"
| "open_tables acc f rf opts ro st (es # ess) =
     bind_res (open_table acc f rf opts st es) (\<lambda>(t, st').
     bind_res (Table_NewIterator acc rf t ro st') (\<lambda>x.
     bind_res (open_tables acc f rf opts ro st ess) (\<lambda>cs. Inr (((t, st'), x) # cs))))"

abbreviation internal_table_options :: "nat \<Rightarrow> Options \<Rightarrow> bool" where
  "internal_table_options b \<equiv>
    table_options (InternalKeyComparator BytewiseComparator) (InternalFilterPolicy (NewBloomFilterPolicy b))"

lemma open_table_ok:
  assumes W: "writable_file f winv wcontents" "random_file rf winv wcontents" "port_crc_ok acc" and O: "internal_table_options b opts"
    and st: "winv st" "wcontents st = []" and es: "good_entries es" "table_cost (b + 9) opts (entry_pairs es) < 2 ^ 32"
  shows "\<exists>t st' D idx. open_table acc f rf opts st es = Inr (t, st') \<and> winv st' \<and>
    internal.is_table opts (wcontents st') D idx \<and> internal.opened opts D idx t \<and> concat (map snd D) = entry_pairs es"
proof -
  have "internal.fits opts (b + 9) (entry_pairs es)" using es(2) by (simp add: internal.fits_def)
  from internal.built_and_opened [OF W internal_options [OF O] st entries_increasing [OF es(1)] this] obtain r st' t D idx where
    t: "build_table acc f opts (entry_pairs es) st = Inr (OK, r, st')" "winv st'"
    "Table_Open acc rf opts (tb_FileSize r) st' = Inr (OK, Some t)"
    "internal.is_table opts (wcontents st') D idx" "internal.opened opts D idx t" "concat (map snd D) = entry_pairs es" by blast
  then show ?thesis by (intro exI [of _ t] exI [of _ st'] exI [of _ D] exI [of _ idx]) (simp add: open_table_def)
qed

lemma open_table_iterator:
  assumes W: "writable_file f winv wcontents" "random_file rf winv wcontents" "port_crc_ok acc" and O: "internal_table_options b opts"
    and st: "winv st" "wcontents st = []" and es: "good_entries es" "table_cost (b + 9) opts (entry_pairs es) < 2 ^ 32"
  shows "\<exists>t st' x. open_table acc f rf opts st es = Inr (t, st') \<and> Table_NewIterator acc rf t ro st' = Inr x \<and>
    internal.bundle_at (table_ops acc rf ro) (entry_pairs es) (length es) ((t, st'), x)"
proof -
  obtain t st' D idx where t: "open_table acc f rf opts st es = Inr (t, st')" "winv st'"
    "internal.is_table opts (wcontents st') D idx" "internal.opened opts D idx t" "concat (map snd D) = entry_pairs es"
    using open_table_ok [OF assms] by blast
  have "options_comparator opts = InternalKeyComparator BytewiseComparator" using O by (simp add: table_options_def)
  from internal.Table_NewIterator_sorted [OF W(2,3) t(2,3) this t(4,5), of ro] obtain x at where
    "Table_NewIterator acc rf t ro st' = Inr x"
    "sorted_iterator (InternalKeyComparator BytewiseComparator) internal_valid internal_before
       (two_level_iterator (table_levels acc rf t ro st')) at"
    "at (entry_pairs es) (length (entry_pairs es)) x" by blast
  then show ?thesis using t(1) by (auto simp: internal.bundle_at_def table_ops_def)
qed

lemma open_tables_ok:
  assumes W: "writable_file f winv wcontents" "random_file rf winv wcontents" "port_crc_ok acc" and O: "internal_table_options b opts"
    and st: "winv st" "wcontents st = []"
    and ess: "\<forall>es \<in> set ess. good_entries es \<and> table_cost (b + 9) opts (entry_pairs es) < 2 ^ 32"
  shows "\<exists>cs. open_tables acc f rf opts ro st ess = Inr cs \<and> length cs = length ess \<and>
    (\<forall>d < length ess. internal.bundle_at (table_ops acc rf ro) (entry_pairs (ess ! d)) (length (ess ! d)) (cs ! d))"
  using ess
proof (induction ess)
  case (Cons es ess)
  obtain cs where cs: "open_tables acc f rf opts ro st ess = Inr cs" "length cs = length ess"
    "\<forall>d < length ess. internal.bundle_at (table_ops acc rf ro) (entry_pairs (ess ! d)) (length (ess ! d)) (cs ! d)"
    using Cons by auto
  obtain t st' x where t: "open_table acc f rf opts st es = Inr (t, st')" "Table_NewIterator acc rf t ro st' = Inr x"
    "internal.bundle_at (table_ops acc rf ro) (entry_pairs es) (length es) ((t, st'), x)"
    using open_table_iterator [OF W O st, of es ro] Cons.prems by auto
  show ?case using cs t by (auto simp: nth_Cons split: nat.splits)
qed simp

subsection \<open>Scans and lookups\<close>

lemma find_nth_first:
  "find P xs = Some x \<longleftrightarrow> (\<exists>j < length xs. xs ! j = x \<and> P x \<and> (\<forall>i < j. \<not> P (xs ! i)))"
  by (auto simp: find_Some_iff)

lemma user_view_find:
  "(u, v) \<in> set (user_view s es) \<longleftrightarrow> (\<exists>k. find (visible u s) es = Some (k, v) \<and> key_type k = kTypeValue)"
proof -
  have "(\<exists>j. shown s es j \<and> ukey es j = u \<and> snd (es ! j) = v) \<longleftrightarrow>
      (\<exists>j k. j < length es \<and> es ! j = (k, v) \<and> visible u s (k, v) \<and> (\<forall>i < j. \<not> visible u s (es ! i)) \<and> key_type k = kTypeValue)"
    by (rule arg_cong [of _ _ Ex], rule ext) (auto simp: shown_def seen_def visible_def case_prod_unfold prod_eq_iff)
  moreover have "(u, v) \<in> set (user_view s es) \<longleftrightarrow> (\<exists>j. shown s es j \<and> ukey es j = u \<and> snd (es ! j) = v)"
    by (auto simp: user_view_def dest: shown_less)
  ultimately show ?thesis unfolding find_nth_first by blast
qed

lemma rank_finds:
  assumes "sorted_wrt (<) (map fst kvs)"
  shows "rank (<) u kvs < length kvs \<and> kvs ! rank (<) u kvs = (u, v) \<longleftrightarrow> (u, v) \<in> set kvs"
  using assms
proof (induction kvs)
  case (Cons e kvs)
  show ?case
  proof (cases "fst e < u")
    case True
    then show ?thesis using Cons by (auto simp: rank_def case_prod_unfold)
  next
    case False
    have "\<not> fst e' < u \<and> e' \<noteq> (u, v)" if "e' \<in> set kvs" for e'
      using Cons.prems False that by fastforce
    then have "filter (\<lambda>(k, _). k < u) kvs = []" "(u, v) \<notin> set kvs" by (auto simp: filter_empty_conv)
    then show ?thesis using False by (auto simp: rank_def case_prod_unfold)
  qed
qed (simp add: rank_def)

subsection \<open>Properties\<close>

text \<open>
  C5: what a client reads out of a database of tables. Tables are built from lists of internal keys, opened, merged and
  put under the iterator of the database: under every sequence of calls, with turns anywhere, it shows what a cursor over
  the newest visible values of the user keys shows, at any sequence number of 56 bits. The internal keys of all tables
  are distinct (\<open>good_entries\<close>), and \<open>table_cost\<close> of every table is below 2^32.
\<close>

theorem database_view:
  assumes "writable_file f winv wcontents" and "random_file rf winv wcontents" and "port_crc_ok acc"
    and "internal_table_options b opts" and "winv st" and "wcontents st = []"
    and "\<forall>es \<in> set ess. good_entries es \<and> table_cost (b + 9) opts (entry_pairs es) < 2 ^ 32"
    and "good_entries es" and "mset es = mset (concat ess)" and "s \<le> kMaxSequenceNumber" and "length es < fuel"
  shows "\<exists>cs m d. open_tables acc f rf opts ro st ess = Inr cs \<and>
    NewMergingIterator (bundled (table_ops acc rf ro)) (InternalKeyComparator BytewiseComparator) cs = Inr m \<and>
    NewDBIterator BytewiseComparator m s seed = Inr d \<and>
    (\<forall>calls. run_ops (db_iterator fuel (merging_iterator (bundled (table_ops acc rf ro)))) calls d =
       run_cursor (<) (user_view s es) calls (length (user_view s es)))"
proof -
  obtain cs where cs: "open_tables acc f rf opts ro st ess = Inr cs" "length cs = length ess"
    "\<forall>d < length ess. internal.bundle_at (table_ops acc rf ro) (entry_pairs (ess ! d)) (length (ess ! d)) (cs ! d)"
    using open_tables_ok [OF assms(1-7), of ro] by blast
  have "internal.merge_of (map entry_pairs ess) (entry_pairs es)" using assms(7-9) by (intro entries_merge) auto
  from bundled_internal.NewMergingIterator_at [OF this, of cs "table_ops acc rf ro"] cs obtain m where
    m: "NewMergingIterator (bundled (table_ops acc rf ro)) (InternalKeyComparator BytewiseComparator) cs = Inr m"
    "bundled_internal.merged_at (table_ops acc rf ro) (entry_pairs es) (length (entry_pairs es)) m" by auto
  obtain d where d: "NewDBIterator BytewiseComparator m s seed = Inr d"
    "merged_internal.db_at (table_ops acc rf ro) fuel (user_view s es) (length (user_view s es)) d"
    using merged_internal.NewDBIterator_ok [OF m(2) assms(8,10,11)] by blast
  show ?thesis
    by (intro exI [of _ cs] exI [of _ m] exI [of _ d] conjI allI cs(1) m(1) d(1))
      (rule sorted_iterator.run_ops_cursor [OF merged_internal.db_sorted d(2)], simp)
qed

text \<open>A table whose deletion hides a value of another table.\<close>

definition example_options :: Options where
  "example_options = \<lparr>comparator_at = 0, options_comparator = InternalKeyComparator BytewiseComparator, paranoid_checks = False,
     block_size = 4096, block_restart_interval = 16, compressors = [None],
     options_filter_policy = Some (InternalFilterPolicy (NewBloomFilterPolicy 10))\<rparr>"

definition value_at :: "slice \<Rightarrow> SequenceNumber \<Rightarrow> slice \<Rightarrow> ParsedInternalKey \<times> slice" where
  "value_at u s v = (\<lparr>user_key = u, sequence = s, key_type = kTypeValue\<rparr>, v)"

definition deletion_at :: "slice \<Rightarrow> SequenceNumber \<Rightarrow> ParsedInternalKey \<times> slice" where
  "deletion_at u s = (\<lparr>user_key = u, sequence = s, key_type = kTypeDeletion\<rparr>, [])"

lemmas example_simps = example_options_def value_at_def deletion_at_def good_entries_def entry_pairs_def entry_key_def
  kMaxSequenceNumber_def

lemma example_options_ok: "internal_table_options 10 example_options"
  by (simp add: table_options_def example_options_def compressors_ok_def)

theorem database_view_witness:
  "\<exists>cs m d. open_tables (\<lambda>_ _. 0) (mem_writable 0) (mem_random 0) example_options new_ReadOptions (snd (alloc new_InMemoryEnv))
      [[deletion_at [5] 9, value_at [7] 8 [3]], [value_at [5] 4 [1], value_at [6] 3 [2]]] = Inr cs \<and>
    NewMergingIterator (bundled (table_ops (\<lambda>_ _. 0) (mem_random 0) new_ReadOptions)) (InternalKeyComparator BytewiseComparator) cs = Inr m \<and>
    NewDBIterator BytewiseComparator m 9 301 = Inr d \<and>
    run_ops (db_iterator 5 (merging_iterator (bundled (table_ops (\<lambda>_ _. 0) (mem_random 0) new_ReadOptions))))
      [SeekToFirst, Next, Prev, Seek [5], SeekToLast, Next] d =
      Inr [Some ([6], [2]), Some ([7], [3]), Some ([6], [2]), Some ([6], [2]), Some ([7], [3]), None]"
proof -
  define ess where "ess = [[deletion_at [5] 9, value_at [7] 8 [3]], [value_at [5] 4 [1], value_at [6] 3 [2]]]"
  define es where "es = [deletion_at [5] 9, value_at [5] 4 [1], value_at [6] 3 [2], value_at [7] 8 [3]]"
  have m: "(9 :: u64) \<le> kMaxSequenceNumber" "(8 :: u64) \<le> kMaxSequenceNumber" "(4 :: u64) \<le> kMaxSequenceNumber"
    "(3 :: u64) \<le> kMaxSequenceNumber"
    by (simp_all add: kMaxSequenceNumber_def)
  have g: "good_entries es" "\<forall>es \<in> set ess. good_entries es"
    using m tag_less [OF m(3,1), of kTypeValue kTypeDeletion] by (simp_all add: example_simps es_def ess_def)
  have "\<forall>es \<in> set ess. table_cost (10 + 9) example_options (entry_pairs es) < 2 ^ 32"
    by (simp add: ess_def example_simps table_cost_def filter_name_length_def InternalFilterPolicy_def NewBloomFilterPolicy_def)
  with g(2) have t: "\<forall>es \<in> set ess. good_entries es \<and> table_cost (10 + 9) example_options (entry_pairs es) < 2 ^ 32" by blast
  have e: "mset es = mset (concat ess)" "length es < 5" by (simp_all add: es_def ess_def)
  have v: "user_view 9 es = [([6], [2]), ([7], [3])]"
    unfolding es_def by code_simp
  have "run_cursor (<) (user_view 9 es) [SeekToFirst, Next, Prev, Seek [5], SeekToLast, Next] (length (user_view 9 es)) =
      Inr [Some ([6], [2]), Some ([7], [3]), Some ([6], [2]), Some ([6], [2]), Some ([7], [3]), None]"
    unfolding v by (simp add: cursor_op_def rank_def)
  then show ?thesis
    using database_view [OF mem_wr.writable_file_axioms mem_ra.random_file_axioms crc_portable example_options_ok new_file_ok t g(1) e(1) m(1) e(2),
      of new_ReadOptions 301] unfolding ess_def by metis
qed

text \<open>
  C8: a scan and a lookup agree. After \<open>Seek\<close> to a user key the iterator of a database of one table shows that key with a
  value exactly when \<open>InternalGet\<close> finds this value in the table, at any sequence number of 56 bits, for a table with
  \<open>table_cost\<close> below 2^32.
\<close>

theorem scan_agrees_with_get:
  assumes "writable_file f winv wcontents" and "random_file rf winv wcontents" and "port_crc_ok acc"
    and "internal_table_options b opts" and "winv st" and "wcontents st = []"
    and "good_entries es" and "table_cost (b + 9) opts (entry_pairs es) < 2 ^ 32" and "s \<le> kMaxSequenceNumber" and "length es < fuel"
  shows "\<exists>t st' x d lk shown sv. open_table acc f rf opts st es = Inr (t, st') \<and> Table_NewIterator acc rf t ro st' = Inr x \<and>
    NewDBIterator BytewiseComparator ((t, st'), x) s seed = Inr d \<and>
    run_ops (db_iterator fuel (bundled (table_ops acc rf ro))) [Seek u] d = Inr [shown] \<and> new_LookupKey u s = Inr lk \<and>
    InternalGet acc rf t ro' st' (lookup_internal_key lk) (\<lambda>k v sv. bind_res sv (SaveValue k v))
      (Inr \<lparr>sv_state = kNotFound, sv_ucmp = BytewiseComparator, sv_user_key = u, sv_value = Some []\<rparr>) = Inr (OK, Inr sv) \<and>
    (\<forall>v. shown = Some (u, v) \<longleftrightarrow> sv_state sv = kFound \<and> sv_value sv = Some v)"
proof -
  obtain t st' D idx where t: "open_table acc f rf opts st es = Inr (t, st')" "winv st'"
    "internal.is_table opts (wcontents st') D idx" "internal.opened opts D idx t" "concat (map snd D) = entry_pairs es"
    using open_table_ok [OF assms(1-8)] by blast
  obtain x where x: "Table_NewIterator acc rf t ro st' = Inr x"
    "internal.bundle_at (table_ops acc rf ro) (entry_pairs es) (length es) ((t, st'), x)"
    using open_table_iterator [OF assms(1-8), of ro] t(1) by auto
  obtain d where d: "NewDBIterator BytewiseComparator ((t, st'), x) s seed = Inr d"
    "bundled_view.db_at (table_ops acc rf ro) fuel (user_view s es) (length (user_view s es)) d"
    using bundled_view.NewDBIterator_ok [OF x(2) assms(7,9,10)] by blast
  let ?V = "user_view s es"
  let ?shown = "if rank (<) u ?V < length ?V then Some (?V ! rank (<) u ?V) else None"
  have "run_ops (db_iterator fuel (bundled (table_ops acc rf ro))) [Seek u] d = run_cursor (<) ?V [Seek u] (length ?V)"
    by (rule sorted_iterator.run_ops_cursor [OF bundled_view.db_sorted d(2)]) simp
  also have "\<dots> = Inr [?shown]" by (simp add: cursor_op_def)
  finally have scan: "run_ops (db_iterator fuel (bundled (table_ops acc rf ro))) [Seek u] d = Inr [?shown]" .
  obtain lk where lk: "new_LookupKey u s = Inr lk"
    "lookup_internal_key lk = internal_key u (push_bit 8 s OR type_code kTypeValue)"
    using new_LookupKey_internal [OF assms(9)] by blast
  have "options_comparator opts = InternalKeyComparator BytewiseComparator"
    "options_filter_policy opts \<in> {None, Some (InternalFilterPolicy (NewBloomFilterPolicy b))}"
    using assms(4) by (simp_all add: table_options_def)
  note get = InternalGet_entries [OF assms(2,3) t(2,3) this(1) t(4) this(2) t(5) assms(7,9), of ro' u "Some []"]
  have "?shown = Some (u, v) \<longleftrightarrow> sv_state (lookup_result u s es (Some [])) = kFound \<and> sv_value (lookup_result u s es (Some [])) = Some v" for v
    using rank_finds [OF bundled_view.user_view_increasing [OF assms(7)], where u = u and v = v] user_view_find [of u v s es]
    by (auto simp: lookup_result_def split: option.splits if_splits)
  then have agree: "\<forall>v. ?shown = Some (u, v) \<longleftrightarrow>
      sv_state (lookup_result u s es (Some [])) = kFound \<and> sv_value (lookup_result u s es (Some [])) = Some v" by blast
  show ?thesis
    by (intro exI [of _ t] exI [of _ st'] exI [of _ x] exI [of _ d] exI [of _ lk] exI [of _ ?shown]
        exI [of _ "lookup_result u s es (Some [])"] conjI t(1) x(1) d(1) scan lk(1) agree) (simp add: lk(2) get)
qed

theorem scan_agrees_with_get_witness:
  "\<exists>t st' x d lk shown sv. open_table (\<lambda>_ _. 0) (mem_writable 0) (mem_random 0) example_options (snd (alloc new_InMemoryEnv))
      [deletion_at [5] 9, value_at [5] 4 [1]] = Inr (t, st') \<and>
    Table_NewIterator (\<lambda>_ _. 0) (mem_random 0) t new_ReadOptions st' = Inr x \<and>
    NewDBIterator BytewiseComparator ((t, st'), x) 7 301 = Inr d \<and>
    run_ops (db_iterator 3 (bundled (table_ops (\<lambda>_ _. 0) (mem_random 0) new_ReadOptions))) [Seek [5]] d = Inr [shown] \<and>
    new_LookupKey [5] 7 = Inr lk \<and>
    InternalGet (\<lambda>_ _. 0) (mem_random 0) t new_ReadOptions st' (lookup_internal_key lk) (\<lambda>k v sv. bind_res sv (SaveValue k v))
      (Inr \<lparr>sv_state = kNotFound, sv_ucmp = BytewiseComparator, sv_user_key = [5], sv_value = Some []\<rparr>) = Inr (OK, Inr sv) \<and>
    (\<forall>v. shown = Some ([5], v) \<longleftrightarrow> sv_state sv = kFound \<and> sv_value sv = Some v)"
proof -
  have m: "(9 :: u64) \<le> kMaxSequenceNumber" "(4 :: u64) \<le> kMaxSequenceNumber" "(7 :: u64) \<le> kMaxSequenceNumber"
    by (simp_all add: kMaxSequenceNumber_def)
  have g: "good_entries [deletion_at [5] 9, value_at [5] 4 [1]]"
    using m tag_less [OF m(2,1), of kTypeValue kTypeDeletion] by (simp add: example_simps)
  have c: "table_cost (10 + 9) example_options (entry_pairs [deletion_at [5] 9, value_at [5] 4 [1]]) < 2 ^ 32"
    by (simp add: example_simps table_cost_def filter_name_length_def InternalFilterPolicy_def NewBloomFilterPolicy_def)
  have "length [deletion_at [5] 9, value_at [5] 4 [1]] < 3" by simp
  from scan_agrees_with_get [OF mem_wr.writable_file_axioms mem_ra.random_file_axioms crc_portable example_options_ok new_file_ok g c m(3) this]
  show ?thesis by blast
qed

end
