(* ===== verification/Version_Get.thy ===== *)
theory Version_Get
  imports Version_Overlap Table_Roundtrip Database_View
begin

section \<open>A lookup in a version\<close>

text \<open>
  \<open>leveldb-mcpe/db/version_set.cc\<close>: \<open>Version::Get\<close> searches the levels in order, the files of level 0 from the newest on.
  The table cache is an argument: what its \<open>Get\<close> does with the number, the size, the key and the saver. The statistics
  name the file a second seek is charged to, with its level; \<open>ForEachOverlapping\<close> and the samples of reads use the
  same search.
\<close>

type_synonym table_get = "u64 \<Rightarrow> u64 \<Rightarrow> slice \<Rightarrow> Saver \<Rightarrow> (Status \<times> Saver) res"

record GetStats =
  seek_file :: "FileMetaData option"
  seek_file_level :: int

definition NewestFirst :: "FileMetaData \<Rightarrow> FileMetaData \<Rightarrow> bool" where
  "NewestFirst a b \<longleftrightarrow> f_number a > f_number b"

text \<open>\<open>std::sort\<close> by that order: the numbers of files are distinct, so that the result is the only one there is.\<close>

definition sort_newest :: "FileMetaData list \<Rightarrow> FileMetaData list" where
  "sort_newest files = sort_key (\<lambda>f. - uint (f_number f)) files"

fun files_with_key :: "comparator \<Rightarrow> slice \<Rightarrow> FileMetaData list \<Rightarrow> FileMetaData list res" where
  "files_with_key ucmp uk [] = Inr []"
| "files_with_key ucmp uk (f # files) =
     bind_res (InternalKey_user_key (smallest f)) (\<lambda>s.
     bind_res (Compare ucmp uk s) (\<lambda>r.
     bind_res (if r \<ge> 0 then
         bind_res (InternalKey_user_key (largest f)) (\<lambda>l. bind_res (Compare ucmp uk l) (\<lambda>r. Inr (r \<le> 0)))
       else Inr False) (\<lambda>inside.
     bind_res (files_with_key ucmp uk files) (\<lambda>fs. Inr (if inside then f # fs else fs)))))"

text \<open>The one file of a level from 1 on that can have the key.\<close>

definition file_with_key :: "comparator \<Rightarrow> slice \<Rightarrow> slice \<Rightarrow> FileMetaData list \<Rightarrow> FileMetaData list res" where
  "file_with_key ucmp uk ikey files =
     bind_res (FindFile (InternalKeyComparator ucmp) files ikey) (\<lambda>index.
     let index = (of_int index :: u32) in
     if uint index \<ge> int (length files) then Inr []
     else
       bind_res (vec_at files (uint index)) (\<lambda>f.
       bind_res (InternalKey_user_key (smallest f)) (\<lambda>s.
       bind_res (Compare ucmp uk s) (\<lambda>r. Inr (if r < 0 then [] else [f])))))"

definition files_to_search :: "comparator \<Rightarrow> slice \<Rightarrow> slice \<Rightarrow> int \<Rightarrow> FileMetaData list \<Rightarrow> FileMetaData list res" where
  "files_to_search ucmp uk ikey level files =
     (if files = [] then Inr []
      else if level = 0 then bind_res (files_with_key ucmp uk files) (\<lambda>tmp. Inr (sort_newest tmp))
      else file_with_key ucmp uk ikey files)"

text \<open>What is found, if the search is over; the file that was read last; the statistics; the caller's value.\<close>

record search =
  last_file_read :: "(FileMetaData \<times> int) option"
  get_stats :: GetStats
  get_value :: "slice option"

definition charge_seek :: "search \<Rightarrow> search" where
  "charge_seek st =
     (case last_file_read st of
        Some (f, level) \<Rightarrow>
          if seek_file (get_stats st) = None then st\<lparr>get_stats := \<lparr>seek_file = Some f, seek_file_level = level\<rparr>\<rparr> else st
      | None \<Rightarrow> st)"

fun search_files :: "table_get \<Rightarrow> comparator \<Rightarrow> slice \<Rightarrow> slice \<Rightarrow> int \<Rightarrow> FileMetaData list \<Rightarrow> search \<Rightarrow> (Status option \<times> search) res" where
  "search_files tget ucmp uk ikey level [] st = Inr (None, st)"
| "search_files tget ucmp uk ikey level (f # files) st =
     (let st = (charge_seek st)\<lparr>last_file_read := Some (f, level)\<rparr>;
          saver = \<lparr>sv_state = SaverState.kNotFound, sv_ucmp = ucmp, sv_user_key = uk, sv_value = get_value st\<rparr> in
      bind_res (tget (f_number f) (f_file_size f) ikey saver) (\<lambda>(s, saver).
      let st = st\<lparr>get_value := sv_value saver\<rparr> in
      if \<not> ok s then Inr (Some s, st)
      else
        (case sv_state saver of
           SaverState.kNotFound \<Rightarrow> search_files tget ucmp uk ikey level files st
         | kFound \<Rightarrow> Inr (Some s, st)
         | kDeleted \<Rightarrow> bind_res (NotFound [] []) (\<lambda>s. Inr (Some s, st))
         | kCorrupt \<Rightarrow> bind_res (Corruption (map char_byte ''corrupted key for '') uk) (\<lambda>s. Inr (Some s, st)))))"

fun search_levels :: "table_get \<Rightarrow> comparator \<Rightarrow> slice \<Rightarrow> slice \<Rightarrow> int \<Rightarrow> levels_of_files \<Rightarrow> search \<Rightarrow> (Status option \<times> search) res" where
  "search_levels tget ucmp uk ikey level [] st = Inr (None, st)"
| "search_levels tget ucmp uk ikey level (files # levels) st =
     bind_res (files_to_search ucmp uk ikey level files) (\<lambda>fs.
     bind_res (search_files tget ucmp uk ikey level fs st) (\<lambda>(s, st).
       if s = None then search_levels tget ucmp uk ikey (level + 1) levels st else Inr (s, st)))"

definition Version_Get :: "table_get \<Rightarrow> comparator \<Rightarrow> levels_of_files \<Rightarrow> LookupKey \<Rightarrow> slice option \<Rightarrow>
    (Status \<times> slice option \<times> GetStats) res" where
  "Version_Get tget ucmp levels k value =
     (let ikey = lookup_internal_key k; uk = lookup_user_key k in
      bind_res (search_levels tget ucmp uk ikey 0 levels
          \<lparr>last_file_read = None, get_stats = \<lparr>seek_file = None, seek_file_level = - 1\<rparr>, get_value = value\<rparr>) (\<lambda>(s, st).
      bind_res (case s of Some s \<Rightarrow> Inr s | None \<Rightarrow> NotFound [] []) (\<lambda>s. Inr (s, get_value st, get_stats st))))"

text \<open>\<open>UpdateStats\<close> on the file the statistics name and on what is to be compacted.\<close>

record seek_state =
  file_to_compact :: "FileMetaData option"
  file_to_compact_level :: int

definition UpdateStats :: "GetStats \<Rightarrow> seek_state \<Rightarrow> (bool \<times> FileMetaData option \<times> seek_state) res" where
  "UpdateStats stats v =
     (case seek_file stats of None \<Rightarrow> Inr (False, None, v)
      | Some f \<Rightarrow>
          bind_res (to_int32 (allowed_seeks f - 1)) (\<lambda>n.
          let f = f\<lparr>allowed_seeks := n\<rparr> in
          if n \<le> 0 \<and> file_to_compact v = None
          then Inr (True, Some f, \<lparr>file_to_compact = Some f, file_to_compact_level = seek_file_level stats\<rparr>)
          else Inr (False, Some f, v)))"

fun each_file :: "('a \<Rightarrow> int \<Rightarrow> FileMetaData \<Rightarrow> bool \<times> 'a) \<Rightarrow> int \<Rightarrow> FileMetaData list \<Rightarrow> 'a \<Rightarrow> bool \<times> 'a" where
  "each_file func level [] arg = (True, arg)"
| "each_file func level (f # files) arg =
     (let (go, arg) = func arg level f in if go then each_file func level files arg else (False, arg))"

fun each_level :: "('a \<Rightarrow> int \<Rightarrow> FileMetaData \<Rightarrow> bool \<times> 'a) \<Rightarrow> comparator \<Rightarrow> slice \<Rightarrow> slice \<Rightarrow> int \<Rightarrow> levels_of_files \<Rightarrow> 'a \<Rightarrow> 'a res" where
  "each_level func ucmp uk ikey level [] arg = Inr arg"
| "each_level func ucmp uk ikey level (files # levels) arg =
     bind_res (files_to_search ucmp uk ikey level files) (\<lambda>fs.
     let (go, arg) = each_file func level fs arg in
     if go then each_level func ucmp uk ikey (level + 1) levels arg else Inr arg)"

definition ForEachOverlapping :: "comparator \<Rightarrow> levels_of_files \<Rightarrow> slice \<Rightarrow> slice \<Rightarrow> 'a \<Rightarrow>
    ('a \<Rightarrow> int \<Rightarrow> FileMetaData \<Rightarrow> bool \<times> 'a) \<Rightarrow> 'a res" where
  "ForEachOverlapping ucmp levels uk ikey arg func = each_level func ucmp uk ikey 0 levels arg"

text \<open>The first match and the number of matches; a second match ends the search.\<close>

definition sample_match :: "GetStats \<times> int \<Rightarrow> int \<Rightarrow> FileMetaData \<Rightarrow> bool \<times> GetStats \<times> int" where
  "sample_match st level f =
     (let (stats, matches) = st; matches = matches + 1;
          stats = (if matches = 1 then \<lparr>seek_file = Some f, seek_file_level = level\<rparr> else stats)
      in (matches < 2, stats, matches))"

definition RecordReadSample :: "comparator \<Rightarrow> levels_of_files \<Rightarrow> slice \<Rightarrow> seek_state \<Rightarrow> (bool \<times> FileMetaData option \<times> seek_state) res" where
  "RecordReadSample ucmp levels ikey v =
     bind_res (ParseInternalKey ikey) (\<lambda>parsed.
     case parsed of None \<Rightarrow> Inr (False, None, v)
     | Some k \<Rightarrow>
         bind_res (ForEachOverlapping ucmp levels (user_key k) ikey (\<lparr>seek_file = None, seek_file_level = - 1\<rparr>, 0) sample_match)
           (\<lambda>(stats, matches).
         if matches \<ge> 2 then UpdateStats stats v else Inr (False, None, v)))"

subsection \<open>What the files hold\<close>

text \<open>A file with the entries of its table: its bounds are the first and the last of their keys.\<close>

definition holds_entries :: "FileMetaData \<Rightarrow> entries \<Rightarrow> bool" where
  "holds_entries f es \<longleftrightarrow> good_entries es \<and> es \<noteq> [] \<and> smallest f = entry_key (fst (hd es)) \<and> largest f = entry_key (fst (last es))"

text \<open>The table cache finds in a file what its entries say.\<close>

definition serves :: "table_get \<Rightarrow> (FileMetaData \<Rightarrow> entries) \<Rightarrow> FileMetaData list \<Rightarrow> bool" where
  "serves tget E files \<longleftrightarrow> (\<forall>f \<in> set files. \<forall>u s v. s \<le> kMaxSequenceNumber \<longrightarrow>
     tget (f_number f) (f_file_size f) (internal_key u (push_bit 8 s OR type_code kTypeValue))
       \<lparr>sv_state = SaverState.kNotFound, sv_ucmp = BytewiseComparator, sv_user_key = u, sv_value = v\<rparr> =
     Inr (OK, lookup_result u s (E f) v))"

text \<open>The order of the search, and that it goes from newer to older entries of a key.\<close>

definition search_order :: "levels_of_files \<Rightarrow> FileMetaData list" where
  "search_order levels = sort_newest (levels ! 0) @ concat (tl levels)"

definition newer :: "(FileMetaData \<Rightarrow> entries) \<Rightarrow> FileMetaData \<Rightarrow> FileMetaData \<Rightarrow> bool" where
  "newer E f g \<longleftrightarrow> (\<forall>e \<in> set (E f). \<forall>e' \<in> set (E g).
     user_key (fst e) = user_key (fst e') \<longrightarrow> sequence (fst e') < sequence (fst e))"

text \<open>The first find in a list of files.\<close>

fun first_found :: "slice \<Rightarrow> SequenceNumber \<Rightarrow> (FileMetaData \<Rightarrow> entries) \<Rightarrow> FileMetaData list \<Rightarrow> (ParsedInternalKey \<times> slice) option" where
  "first_found u s E [] = None"
| "first_found u s E (f # fs) = (case find (visible u s) (E f) of None \<Rightarrow> first_found u s E fs | Some e \<Rightarrow> Some e)"

lemma find_NoneD: "find P xs = None \<Longrightarrow> x \<in> set xs \<Longrightarrow> \<not> P x"
  by (simp add: find_None_iff)

lemma first_found_append:
  "first_found u s E (fs @ gs) = (case first_found u s E fs of None \<Rightarrow> first_found u s E gs | Some e \<Rightarrow> Some e)"
  by (induction fs) (auto split: option.split)

lemma first_found_None: "first_found u s E fs = None \<longleftrightarrow> (\<forall>f \<in> set fs. find (visible u s) (E f) = None)"
  by (induction fs) (auto split: option.split)

lemma first_found_filter:
  "(\<And>f. f \<in> set fs \<Longrightarrow> \<not> P f \<Longrightarrow> find (visible u s) (E f) = None) \<Longrightarrow>
    first_found u s E (filter P fs) = first_found u s E fs"
  by (induction fs) (auto split: option.split)

text \<open>The status and the value of a find.\<close>

definition get_result :: "(ParsedInternalKey \<times> slice) option \<Rightarrow> slice option \<Rightarrow> Status \<times> slice option" where
  "get_result r v0 = (case r of
     Some (k, v) \<Rightarrow> if key_type k = kTypeValue then (OK, map_option (\<lambda>_. v) v0) else (status_of Code.kNotFound [], v0)
   | None \<Rightarrow> (status_of Code.kNotFound [], v0))"

lemma get_result_None [simp]: "snd (get_result None v0) = v0"
  by (simp add: get_result_def)

lemma NotFound_empty: "NotFound [] [] = Inr (status_of Code.kNotFound [])"
  by (simp add: NotFound_def new_Status_one)

lemma charge_seek_value [simp]: "get_value (charge_seek st) = get_value st"
  by (simp add: charge_seek_def split: option.split prod.split)

lemma search_files_ok:
  assumes "serves tget E fs" and "s \<le> kMaxSequenceNumber"
  shows "\<exists>st'. search_files tget BytewiseComparator u (internal_key u (push_bit 8 s OR type_code kTypeValue)) level fs st =
      Inr (map_option (\<lambda>e. fst (get_result (Some e) (get_value st))) (first_found u s E fs), st') \<and>
    get_value st' = snd (get_result (first_found u s E fs) (get_value st))"
  using assms(1)
proof (induction fs arbitrary: st)
  case Nil
  then show ?case by (simp add: get_result_def)
next
  case (Cons f fs)
  have S: "serves tget E fs" using Cons.prems by (simp add: serves_def)
  let ?st = "(charge_seek st)\<lparr>last_file_read := Some (f, level)\<rparr>"
  let ?ik = "internal_key u (push_bit 8 s OR type_code kTypeValue)"
  have g: "tget (f_number f) (f_file_size f) ?ik
      \<lparr>sv_state = SaverState.kNotFound, sv_ucmp = BytewiseComparator, sv_user_key = u, sv_value = get_value st\<rparr> =
      Inr (OK, lookup_result u s (E f) (get_value st))"
    using Cons.prems assms(2) by (simp add: serves_def)
  show ?case
  proof (cases "find (visible u s) (E f)")
    case None
    then show ?thesis using g Cons.IH [OF S, of "?st\<lparr>get_value := get_value st\<rparr>"] by (simp add: Let_def lookup_result_def)
  next
    case (Some e)
    then show ?thesis using g
      by (cases e) (simp add: Let_def lookup_result_def get_result_def NotFound_empty)
  qed
qed

subsection \<open>The bounds of a file\<close>

lemma entry_key_form: "sequence k \<le> kMaxSequenceNumber \<Longrightarrow> key_form (entry_key k)"
  unfolding key_form_def entry_key_def by blast

lemma user_part_entry [simp]: "user_part (entry_key k) = user_key k"
  by (simp add: entry_key_def)

lemma good_entries_seq: "good_entries es \<Longrightarrow> e \<in> set es \<Longrightarrow> sequence (fst e) \<le> kMaxSequenceNumber"
  by (auto simp: good_entries_def)

lemma good_entries_order:
  assumes "good_entries es" and "i < j" and "j < length es"
  shows "internal_before (entry_key (fst (es ! i))) (entry_key (fst (es ! j)))"
  using assms by (auto simp: good_entries_def entry_pairs_def sorted_wrt_iff_nth_less case_prod_unfold)

lemma holds_entries_entry:
  assumes "holds_entries f es" and "e \<in> set es"
  shows "entry_key (fst e) = largest f \<or> internal_before (entry_key (fst e)) (largest f)"
    and "entry_key (fst e) = smallest f \<or> internal_before (smallest f) (entry_key (fst e))"
proof -
  obtain i where i: "i < length es" "e = es ! i" using assms(2) by (auto simp: in_set_conv_nth)
  have g: "good_entries es" "es \<noteq> []" "smallest f = entry_key (fst (es ! 0))" "largest f = entry_key (fst (es ! (length es - 1)))"
    using assms(1) by (auto simp: holds_entries_def hd_conv_nth last_conv_nth)
  show "entry_key (fst e) = largest f \<or> internal_before (entry_key (fst e)) (largest f)"
    using good_entries_order [OF g(1), of i "length es - 1"] i g(2,4) by (cases "i = length es - 1") auto
  show "entry_key (fst e) = smallest f \<or> internal_before (smallest f) (entry_key (fst e))"
    using good_entries_order [OF g(1), of 0 i] i g(3) by (cases "i = 0") auto
qed

lemma holds_entries_valid: "holds_entries f es \<Longrightarrow> file_valid f"
  using good_entries_seq [of es "hd es"] good_entries_seq [of es "last es"]
  by (auto simp: holds_entries_def file_valid_def entry_key_form)

lemma entry_key_valid: "holds_entries f es \<Longrightarrow> e \<in> set es \<Longrightarrow> internal_valid (entry_key (fst e))"
  by (auto simp: entry_key_def internal_valid_def)

lemma holds_entries_user:
  assumes "holds_entries f es" and "e \<in> set es"
  shows "user_part (smallest f) \<le> user_key (fst e)" and "user_key (fst e) \<le> user_part (largest f)"
  using holds_entries_entry [OF assms] before_user_part file_valid_keys [OF holds_entries_valid [OF assms(1)]] entry_key_valid [OF assms]
    user_part_entry [of "fst e"]
  by (metis order_refl)+

lemma no_user_key:
  assumes "holds_entries f es" and "u < user_part (smallest f) \<or> user_part (largest f) < u"
  shows "find (visible u s) es = None"
proof -
  have "\<not> visible u s e" if "e \<in> set es" for e
    using holds_entries_user [OF assms(1) that] assms(2) by (auto simp: visible_def case_prod_unfold)
  then show ?thesis by (simp add: find_None_iff)
qed

text \<open>The key a lookup seeks for, and the entries it may find.\<close>

lemma before_seek_key:
  assumes "good_entries es" and "e \<in> set es" and "s \<le> kMaxSequenceNumber"
  shows "internal_before (entry_key (fst e)) (internal_key u (push_bit 8 s OR type_code kTypeValue)) \<longleftrightarrow>
    user_key (fst e) < u \<or> user_key (fst e) = u \<and> s < sequence (fst e)"
  using entry_before_target [OF good_entries_seq [OF assms(1,2)] assms(3)] by blast

lemma none_before_seek:
  assumes "holds_entries f es" and "s \<le> kMaxSequenceNumber"
    and "internal_before (largest f) (internal_key u (push_bit 8 s OR type_code kTypeValue))"
  shows "find (visible u s) es = None"
proof -
  let ?t = "internal_key u (push_bit 8 s OR type_code kTypeValue)"
  have g: "good_entries es" using assms(1) by (simp add: holds_entries_def)
  have t: "internal_valid ?t" by (auto simp: internal_valid_iff)
  have "\<not> visible u s e" if e: "e \<in> set es" for e
  proof -
    have "internal_before (entry_key (fst e)) ?t"
      using holds_entries_entry(1) [OF assms(1) e] internal.before_trans [OF entry_key_valid [OF assms(1) e] _ t, of "largest f"] assms(3)
        file_valid_keys [OF holds_entries_valid [OF assms(1)]] by metis
    then show ?thesis using before_seek_key [OF g e assms(2)] by (auto simp: visible_def case_prod_unfold)
  qed
  then show ?thesis by (simp add: find_None_iff)
qed

subsection \<open>The files of a level\<close>

lemma files_with_key_ok:
  "\<forall>f \<in> set files. file_valid f \<Longrightarrow> files_with_key BytewiseComparator u files = Inr (filter (meets (Some u) (Some u)) files)"
proof (induction files)
  case (Cons f files)
  have "internal_valid (smallest f)" "internal_valid (largest f)" using Cons.prems file_valid_keys by auto
  then show ?case using Cons by (auto simp: slice_compare_order meets_def not_less)
qed simp

lemma level0_found:
  assumes "\<forall>f \<in> set files. holds_entries f (E f)"
  shows "first_found u s E (sort_newest (filter (meets (Some u) (Some u)) files)) = first_found u s E (sort_newest files)"
  unfolding sort_newest_def filter_sort [symmetric]
proof (rule first_found_filter)
  fix f assume f: "f \<in> set (sort_key (\<lambda>f. - uint (f_number f)) files)" "\<not> meets (Some u) (Some u) f"
  then show "find (visible u s) (E f) = None"
    using assms no_user_key [of f "E f" u s] by (auto simp: meets_def not_le)
qed

lemma level_found:
  assumes "disjoint_files files" and E: "\<forall>f \<in> set files. holds_entries f (E f)" and s: "s \<le> kMaxSequenceNumber"
  shows "\<exists>fs. file_with_key BytewiseComparator u (internal_key u (push_bit 8 s OR type_code kTypeValue)) files = Inr fs \<and>
    set fs \<subseteq> set files \<and> first_found u s E fs = first_found u s E files"
proof -
  let ?t = "internal_key u (push_bit 8 s OR type_code kTypeValue)"
  define n where "n = internal.files_before ?t files"
  have t: "internal_valid ?t" by (auto simp: internal_valid_iff)
  note S = disjoint_sorted [OF assms(1)]
  have n: "n \<le> length files" by (simp add: n_def internal.files_before_def)
  have len: "length files < 2 ^ 31" using assms(1) by (simp add: disjoint_files_def)
  have at: "internal_before (largest (files ! i)) ?t \<longleftrightarrow> i < n" if "i < length files" for i
    using internal.files_before_index [OF _ t that] S by (simp add: n_def internal.level_sorted_def)
  have u: "unat (of_int (int n) :: u32) = n" using n len by (simp add: unat_of_nat_small)
  then have w: "uint (of_int (int n) :: u32) = int n" by (simp only: uint_nat)
  have early: "find (visible u s) (E (files ! i)) = None" if "i < n" for i
    using none_before_seek [of "files ! i" "E (files ! i)" s u] at [of i] that n E s by simp
  have take: "first_found u s E (take n files) = None"
    unfolding first_found_None using early by (auto simp: in_set_conv_nth)
  have run: "file_with_key BytewiseComparator u ?t files =
      (if length files \<le> n then Inr []
       else bind_res (InternalKey_user_key (smallest (files ! n))) (\<lambda>x. Inr (if u < x then [] else [files ! n])))"
  proof -
    have F: "FindFile (InternalKeyComparator BytewiseComparator) files ?t = Inr (int n)"
      using internal.FindFile_ok [OF S t] by (simp add: n_def)
    have neg: "slice_compare a b < 0 \<longleftrightarrow> a < b" for a b by (simp add: slice_compare_order)
    show ?thesis
      unfolding file_with_key_def F bind_res_Inr Let_def w using vec_at_nat [of n files] by (simp add: neg)
  qed
  show ?thesis
  proof (cases "length files \<le> n")
    case True
    then show ?thesis using run take by simp
  next
    case False
    let ?f = "files ! n"
    have f: "?f \<in> set files" using False by simp
    have h: "holds_entries ?f (E ?f)" using E f by simp
    note fv = file_valid_keys [OF holds_entries_valid [OF h]]
    have split: "files = take n files @ ?f # drop (Suc n) files" using False by (simp add: id_take_nth_drop)
    have found: "first_found u s E files = first_found u s E (?f # drop (Suc n) files)"
      by (subst split) (simp add: first_found_append take)
    have late: "first_found u s E (drop (Suc n) files) = None" if beyond: "\<And>j. n < j \<Longrightarrow> j < length files \<Longrightarrow> u < user_part (smallest (files ! j))"
    proof -
      have "find (visible u s) (E (drop (Suc n) files ! i)) = None" if "i < length files - Suc n" for i
        using no_user_key [of "files ! (Suc n + i)" "E (files ! (Suc n + i))" u s] beyond [of "Suc n + i"] that E by simp
      then show ?thesis unfolding first_found_None by (auto simp: in_set_conv_nth)
    qed
    show ?thesis
    proof (cases "u < user_part (smallest ?f)")
      case True
      have "u < user_part (smallest (files ! j))" if "n < j" "j < length files" for j
        using disjoint_later [OF assms(1), of n j] that True by (meson less_imp_le order_less_le_trans)
      then have "first_found u s E (drop (Suc n) files) = None" by (rule late)
      then have "first_found u s E files = None" using found no_user_key [OF h, of u s] True by simp
      then show ?thesis using run False True fv by simp
    next
      case in_file: False
      have "first_found u s E [?f] = first_found u s E files"
      proof (cases "find (visible u s) (E ?f)")
        case None
        let ?l = "last (E ?f)"
        have l: "?l \<in> set (E ?f)" "largest ?f = entry_key (fst ?l)" "good_entries (E ?f)" using h by (auto simp: holds_entries_def)
        have "\<not> visible u s ?l" using find_NoneD [OF None l(1)] .
        moreover have "\<not> internal_before (entry_key (fst ?l)) ?t" using at [of n] False l(2) by simp
        ultimately have big: "u < user_part (largest ?f)"
          using before_seek_key [OF l(3,1) s, of u] l(2) by (auto simp: visible_def case_prod_unfold not_less)
        have "u < user_part (smallest (files ! j))" if j: "n < j" "j < length files" for j
        proof -
          have "internal_before (largest ?f) (smallest (files ! j))" using assms(1) j by (auto simp: disjoint_files_def sorted_wrt_iff_nth_less)
          moreover have "internal_valid (smallest (files ! j))"
            using file_valid_keys [OF holds_entries_valid [of "files ! j" "E (files ! j)"]] E j by simp
          ultimately have "user_part (largest ?f) \<le> user_part (smallest (files ! j))" using before_user_part fv by blast
          then show ?thesis using big by order
        qed
        then have "first_found u s E (drop (Suc n) files) = None" by (rule late)
        then show ?thesis using found None by simp
      qed (use found in simp)
      then show ?thesis using run False in_file fv f by simp
    qed
  qed
qed

subsection \<open>The search\<close>

lemma first_found_member:
  "first_found u s E fs = Some e \<Longrightarrow> \<exists>gs f hs. fs = gs @ f # hs \<and> find (visible u s) (E f) = Some e \<and>
    (\<forall>g \<in> set gs. find (visible u s) (E g) = None)"
proof (induction fs)
  case (Cons f fs)
  show ?case
  proof (cases "find (visible u s) (E f)")
    case None
    then obtain gs g hs where "fs = gs @ g # hs" "find (visible u s) (E g) = Some e" "\<forall>g \<in> set gs. find (visible u s) (E g) = None"
      using Cons by auto
    then show ?thesis using None by (intro exI [of _ "f # gs"] exI [of _ g] exI [of _ hs]) simp
  next
    case (Some x)
    then show ?thesis using Cons.prems by (intro exI [of _ "[]"] exI [of _ f] exI [of _ fs]) simp
  qed
qed simp

lemma serves_subset: "serves tget E fs \<Longrightarrow> set gs \<subseteq> set fs \<Longrightarrow> serves tget E gs"
  by (auto simp: serves_def)

definition version_holds :: "levels_of_files \<Rightarrow> (FileMetaData \<Rightarrow> entries) \<Rightarrow> bool" where
  "version_holds levels E \<longleftrightarrow> version_ok levels \<and> (\<forall>f \<in> set (concat levels). holds_entries f (E f)) \<and>
     sorted_wrt (newer E) (search_order levels)"

definition found_in :: "slice \<Rightarrow> SequenceNumber \<Rightarrow> (FileMetaData \<Rightarrow> entries) \<Rightarrow> int \<Rightarrow> FileMetaData list \<Rightarrow> (ParsedInternalKey \<times> slice) option" where
  "found_in u s E level files = first_found u s E (if level = 0 then sort_newest files else files)"

lemma files_to_search_ok:
  assumes "if level = 0 then True else disjoint_files files" and E: "\<forall>f \<in> set files. holds_entries f (E f)" and s: "s \<le> kMaxSequenceNumber"
  shows "\<exists>fs. files_to_search BytewiseComparator u (internal_key u (push_bit 8 s OR type_code kTypeValue)) level files = Inr fs \<and>
    set fs \<subseteq> set files \<and> first_found u s E fs = found_in u s E level files"
proof (cases "level = 0")
  case True
  have "\<forall>f \<in> set files. file_valid f" using E holds_entries_valid by blast
  then have "files_to_search BytewiseComparator u (internal_key u (push_bit 8 s OR type_code kTypeValue)) level files =
      Inr (sort_newest (filter (meets (Some u) (Some u)) files))"
    using True by (simp add: files_to_search_def files_with_key_ok) (simp add: sort_newest_def)
  then show ?thesis using level0_found [OF E, of u s] True by (auto simp: found_in_def sort_newest_def)
next
  case False
  then show ?thesis using level_found [OF _ E s, of u] assms(1) by (auto simp: files_to_search_def found_in_def)
qed

lemma search_levels_ok:
  assumes "\<forall>i < length levels. level + int i \<noteq> 0 \<longrightarrow> disjoint_files (levels ! i)"
    and "\<forall>f \<in> set (concat levels). holds_entries f (E f)" and "serves tget E (concat levels)" and s: "s \<le> kMaxSequenceNumber" and "0 \<le> level"
  shows "\<exists>st'. search_levels tget BytewiseComparator u (internal_key u (push_bit 8 s OR type_code kTypeValue)) level levels st =
      Inr (map_option (\<lambda>e. fst (get_result (Some e) (get_value st)))
        (first_found u s E (concat (if level = 0 \<and> levels \<noteq> [] then sort_newest (hd levels) # tl levels else levels))), st') \<and>
    get_value st' = snd (get_result
        (first_found u s E (concat (if level = 0 \<and> levels \<noteq> [] then sort_newest (hd levels) # tl levels else levels))) (get_value st))"
  using assms
proof (induction levels arbitrary: level st)
  case Nil
  then show ?case by (simp add: get_result_def)
next
  case (Cons files levels)
  let ?ik = "internal_key u (push_bit 8 s OR type_code kTypeValue)"
  have d: "if level = 0 then True else disjoint_files files" using Cons.prems(1) by (auto dest: spec [of _ 0])
  have E: "\<forall>f \<in> set files. holds_entries f (E f)" using Cons.prems(2) by simp
  obtain fs where fs: "files_to_search BytewiseComparator u ?ik level files = Inr fs" "set fs \<subseteq> set files"
    "first_found u s E fs = found_in u s E level files"
    using files_to_search_ok [OF d E s] by blast
  have "serves tget E fs" using serves_subset [OF Cons.prems(3)] fs(2) by auto
  from search_files_ok [OF this s, of u level st] obtain st1 where st1:
    "search_files tget BytewiseComparator u ?ik level fs st =
      Inr (map_option (\<lambda>e. fst (get_result (Some e) (get_value st))) (found_in u s E level files), st1)"
    "get_value st1 = snd (get_result (found_in u s E level files) (get_value st))"
    using fs(3) by auto
  have rest: "concat (if level = 0 \<and> files # levels \<noteq> [] then sort_newest (hd (files # levels)) # tl (files # levels) else files # levels) =
      (if level = 0 then sort_newest files else files) @ concat levels" by simp
  have ff: "first_found u s E ((if level = 0 then sort_newest files else files) @ concat levels) =
      (case found_in u s E level files of None \<Rightarrow> first_found u s E (concat levels) | Some e \<Rightarrow> Some e)"
    by (simp add: first_found_append found_in_def)
  show ?case
  proof (cases "found_in u s E level files")
    case None
    then have v1: "get_value st1 = get_value st" using st1(2) by simp
    have "\<forall>i < length levels. level + 1 + int i \<noteq> 0 \<longrightarrow> disjoint_files (levels ! i)"
    proof (intro allI impI)
      fix i assume "i < length levels"
      then show "disjoint_files (levels ! i)" using Cons.prems(1,5) by (auto dest!: spec [of _ "Suc i"])
    qed
    from Cons.IH [OF this _ _ s, of st1] Cons.prems(2,3,5) serves_subset [OF Cons.prems(3), of "concat levels"]
    obtain st2 where "search_levels tget BytewiseComparator u ?ik (level + 1) levels st1 =
        Inr (map_option (\<lambda>e. fst (get_result (Some e) (get_value st1))) (first_found u s E (concat levels)), st2)"
      "get_value st2 = snd (get_result (first_found u s E (concat levels)) (get_value st1))"
      by auto
    then show ?thesis using fs(1) st1(1) None unfolding rest ff v1 by simp
  next
    case (Some e)
    then show ?thesis using fs(1) st1 unfolding rest ff by simp
  qed
qed

text \<open>The first find of the search is the newest of all.\<close>

lemma find_first_before:
  assumes "sorted_wrt R xs" and "find P xs = Some x" and "y \<in> set xs" and "P y"
  shows "y = x \<or> R x y"
  using assms by (induction xs) (auto split: if_splits)

lemma good_find_first:
  assumes "good_entries es" and "find (visible u s) es = Some e" and "e' \<in> set es" and "visible u s e'"
  shows "e' = e \<or> internal_before (entry_key (fst e)) (entry_key (fst e'))"
proof -
  have "sorted_wrt (\<lambda>e e'. internal_before (entry_key (fst e)) (entry_key (fst e'))) es"
    using assms(1) by (simp add: good_entries_def entry_pairs_def sorted_wrt_map case_prod_unfold)
  from find_first_before [OF this assms(2-4)] show ?thesis .
qed

lemma set_concat_map: "set (concat (map f xs)) = (\<Union>x \<in> set xs. set (f x))"
  by (induction xs) auto

lemma newer_before:
  assumes "newer E f g" and "e \<in> set (E f)" and "e' \<in> set (E g)" and "visible u s e" and "visible u s e'"
    and "sequence (fst e) \<le> kMaxSequenceNumber" and "sequence (fst e') \<le> kMaxSequenceNumber"
  shows "internal_before (entry_key (fst e)) (entry_key (fst e'))"
proof -
  have "sequence (fst e') < sequence (fst e)"
    using assms(1-5) by (auto simp: newer_def visible_def case_prod_unfold)
  then show ?thesis using tag_less assms(4-7) by (auto simp: entry_key_def visible_def case_prod_unfold)
qed

lemma entry_asym: "internal_before (entry_key k) (entry_key k') \<Longrightarrow> \<not> internal_before (entry_key k') (entry_key k)"
  using internal.before_asym [of "entry_key k" "entry_key k'"] by (auto simp: entry_key_def internal_valid_def)

lemma search_newest:
  assumes "version_holds levels E" and "good_entries es" and "mset es = mset (concat (map E (concat levels)))"
  shows "first_found u s E (search_order levels) = find (visible u s) es"
proof -
  have files: "set (search_order levels) = set (concat levels)"
    using assms(1) by (cases levels) (auto simp: search_order_def sort_newest_def version_holds_def version_ok_def)
  have all: "set es = (\<Union>f \<in> set (search_order levels). set (E f))"
  proof -
    have "set es = set (concat (map E (concat levels)))" using assms(3) by (metis set_mset_mset)
    also have "\<dots> = (\<Union>f \<in> set (concat levels). set (E f))" by (rule set_concat_map)
    finally show ?thesis by (simp only: files)
  qed
  have good: "good_entries (E f)" if "f \<in> set (search_order levels)" for f
    using that files assms(1) by (auto simp: version_holds_def holds_entries_def)
  show ?thesis
  proof (cases "first_found u s E (search_order levels)")
    case None
    have none: "\<not> visible u s e" if e: "e \<in> set es" for e
    proof -
      obtain f where f: "f \<in> set (search_order levels)" "e \<in> set (E f)" using e unfolding all by (elim UN_E)
      from None f(1) have "find (visible u s) (E f) = None" by (simp only: first_found_None)
      then show ?thesis using f(2) by (rule find_NoneD)
    qed
    have "find (visible u s) es = None" unfolding find_None_iff using none by blast
    then show ?thesis by (simp only: None)
  next
    case (Some e)
    then obtain gs f hs where f: "search_order levels = gs @ f # hs" "find (visible u s) (E f) = Some e"
      "\<forall>g \<in> set gs. find (visible u s) (E g) = None" using first_found_member by blast
    have e: "e \<in> set (E f)" "visible u s e" using f(2) by (auto simp: find_Some_iff)
    have ie: "e \<in> set es" using e(1) f(1) unfolding all by auto
    then obtain e' where e': "find (visible u s) es = Some e'" using e(2) by (cases "find (visible u s) es") (auto dest: find_NoneD)
    have ie': "e' \<in> set es" "visible u s e'" using e' by (auto simp: find_Some_iff)
    have "e' = e"
    proof (rule ccontr)
      assume ne: "e' \<noteq> e"
      have b: "internal_before (entry_key (fst e')) (entry_key (fst e))"
        using good_find_first [OF assms(2) e' ie e(2)] ne by blast
      obtain g where g: "g \<in> set (search_order levels)" "e' \<in> set (E g)" using ie'(1) unfolding all by blast
      have "g \<notin> set gs"
      proof
        assume "g \<in> set gs"
        then have "find (visible u s) (E g) = None" using f(3) by (elim bspec)
        from find_NoneD [OF this g(2)] show False using ie'(2) by simp
      qed
      then consider "g = f" | "g \<in> set hs" using g(1) f(1) by auto
      then have "internal_before (entry_key (fst e)) (entry_key (fst e'))"
      proof cases
        case 1
        then show ?thesis using good_find_first [OF good f(2), of e'] g ie'(2) ne by auto
      next
        case 2
        then have "newer E f g" using assms(1) f(1) by (auto simp: version_holds_def sorted_wrt_append)
        from newer_before [OF this e(1) g(2) e(2) ie'(2)] show ?thesis
          using good_entries_seq [OF assms(2)] ie ie'(1) by auto
      qed
      with entry_asym b show False by blast
    qed
    then show ?thesis using Some e' by simp
  qed
qed

lemma lookup_user_key_new: "s \<le> kMaxSequenceNumber \<Longrightarrow> new_LookupKey u s = Inr lk \<Longrightarrow> lookup_user_key lk = u"
  by (auto simp: new_LookupKey_def Pack_ok Let_def lookup_user_key_def)

lemma Version_Get_serves:
  assumes "version_holds levels E" and "serves tget E (concat levels)" and "good_entries es"
    and "mset es = mset (concat (map E (concat levels)))" and "s \<le> kMaxSequenceNumber"
  shows "\<exists>lk stats. new_LookupKey u s = Inr lk \<and> Version_Get tget BytewiseComparator levels lk v0 =
    Inr (fst (get_result (find (visible u s) es) v0), snd (get_result (find (visible u s) es) v0), stats)"
proof -
  let ?ik = "internal_key u (push_bit 8 s OR type_code kTypeValue)"
  obtain lk where lk: "new_LookupKey u s = Inr lk" "lookup_internal_key lk = ?ik" "lookup_user_key lk = u"
    using new_LookupKey_internal [OF assms(5)] lookup_user_key_new [OF assms(5)] by blast
  have V: "version_ok levels" "\<forall>f \<in> set (concat levels). holds_entries f (E f)" using assms(1) by (simp_all add: version_holds_def)
  then obtain l0 ls where levels: "levels = l0 # ls" by (cases levels) (auto simp: version_ok_def)
  have d: "\<forall>i < length levels. 0 + int i \<noteq> 0 \<longrightarrow> disjoint_files (levels ! i)"
    using version_ok_level [OF V(1)] V(1) by (auto simp: version_ok_def)
  let ?st = "\<lparr>last_file_read = None, get_stats = \<lparr>seek_file = None, seek_file_level = - 1\<rparr>, get_value = v0\<rparr>"
  have o: "concat (if (0 :: int) = 0 \<and> levels \<noteq> [] then sort_newest (hd levels) # tl levels else levels) = search_order levels"
    by (simp add: search_order_def levels)
  from search_levels_ok [OF d V(2) assms(2,5) order_refl, of u ?st, unfolded o search_newest [OF assms(1,3,4)]]
  obtain st' where "search_levels tget BytewiseComparator u ?ik 0 levels ?st =
      Inr (map_option (\<lambda>e. fst (get_result (Some e) v0)) (find (visible u s) es), st')"
    "get_value st' = snd (get_result (find (visible u s) es) v0)" by auto
  then have "Version_Get tget BytewiseComparator levels lk v0 =
      Inr (fst (get_result (find (visible u s) es) v0), snd (get_result (find (visible u s) es) v0), get_stats st')"
    by (cases "find (visible u s) es") (simp_all add: Version_Get_def lk(2,3) NotFound_empty, simp add: get_result_def)
  then show ?thesis using lk(1) by blast
qed

subsection \<open>Tables behind a version\<close>

text \<open>The lookup in the opened table of a number.\<close>

definition table_get_of :: "(u32 \<Rightarrow> slice \<Rightarrow> u32) \<Rightarrow> 's RandomAccessFile \<Rightarrow> ReadOptions \<Rightarrow> (u64 \<Rightarrow> (Table \<times> 's) option) \<Rightarrow> table_get" where
  "table_get_of acc rf ro tables number fsize k saver =
     (case tables number of None \<Rightarrow> Inl NullDeref
      | Some (t, st) \<Rightarrow>
          bind_res (InternalGet acc rf t ro st k (\<lambda>k v sv. bind_res sv (SaveValue k v)) (Inr saver)) (\<lambda>(s, r).
          bind_res r (\<lambda>saver. Inr (s, saver))))"

text \<open>The tables were built from the entries of the files.\<close>

definition tables_built :: "(u32 \<Rightarrow> slice \<Rightarrow> u32) \<Rightarrow> 's WritableFile \<Rightarrow> 's RandomAccessFile \<Rightarrow> Options \<Rightarrow> 's \<Rightarrow>
    (u64 \<Rightarrow> (Table \<times> 's) option) \<Rightarrow> (FileMetaData \<Rightarrow> entries) \<Rightarrow> FileMetaData list \<Rightarrow> bool" where
  "tables_built acc f rf opts st tables E files \<longleftrightarrow> (\<forall>m \<in> set files. \<exists>r st' t.
     build_table acc f opts (entry_pairs (E m)) st = Inr (OK, r, st') \<and>
     Table_Open acc rf opts (tb_FileSize r) st' = Inr (OK, Some t) \<and> tables (f_number m) = Some (t, st'))"

lemma built_table:
  assumes W: "writable_file f winv wcontents" "random_file rf winv wcontents" "port_crc_ok acc"
    and O: "table_options (InternalKeyComparator BytewiseComparator) (InternalFilterPolicy (NewBloomFilterPolicy b)) opts"
    and st: "winv st" "wcontents st = []" and g: "good_entries es" "table_cost (b + 9) opts (entry_pairs es) < 2 ^ 32"
  obtains r st' t D idx where "build_table acc f opts (entry_pairs es) st = Inr (OK, r, st')" "winv st'"
    "Table_Open acc rf opts (tb_FileSize r) st' = Inr (OK, Some t)"
    "internal.is_table opts (wcontents st') D idx" "internal.opened opts D idx t" "concat (map snd D) = entry_pairs es"
proof -
  have "internal.options_ok opts (b + 9)" by (rule internal_options [OF O])
  moreover have "internal.increasing (map fst (entry_pairs es))" "internal.fits opts (b + 9) (entry_pairs es)"
    using g by (auto simp: internal.increasing_def internal.fits_def good_entries_def entry_pairs_def entry_key_def internal_valid_def)
  ultimately show thesis using internal.built_and_opened [OF W _ st] that by metis
qed

lemma built_tables_serve:
  assumes W: "writable_file f winv wcontents" "random_file rf winv wcontents" "port_crc_ok acc"
    and O: "table_options (InternalKeyComparator BytewiseComparator) (InternalFilterPolicy (NewBloomFilterPolicy b)) opts"
    and st: "winv st" "wcontents st = []" and E: "\<forall>m \<in> set files. good_entries (E m) \<and> table_cost (b + 9) opts (entry_pairs (E m)) < 2 ^ 32"
    and T: "tables_built acc f rf opts st tables E files"
  shows "serves (table_get_of acc rf ro tables) E files"
  unfolding serves_def
proof (intro ballI allI impI)
  fix m u and s :: SequenceNumber and v
  assume m: "m \<in> set files" and s: "s \<le> kMaxSequenceNumber"
  have g: "good_entries (E m)" "table_cost (b + 9) opts (entry_pairs (E m)) < 2 ^ 32" using E m by auto
  obtain r st' t D idx where t: "build_table acc f opts (entry_pairs (E m)) st = Inr (OK, r, st')" "winv st'"
    "Table_Open acc rf opts (tb_FileSize r) st' = Inr (OK, Some t)"
    "internal.is_table opts (wcontents st') D idx" "internal.opened opts D idx t" "concat (map snd D) = entry_pairs (E m)"
    using built_table [OF W O st g] by blast
  then have n: "tables (f_number m) = Some (t, st')" using T m by (auto simp: tables_built_def)
  have "options_comparator opts = InternalKeyComparator BytewiseComparator"
    "options_filter_policy opts \<in> {None, Some (InternalFilterPolicy (NewBloomFilterPolicy b))}"
    using O by (simp_all add: table_options_def)
  from InternalGet_entries [OF W(2,3) t(2,4) this(1) t(5) this(2) t(6) g(1) s]
  show "table_get_of acc rf ro tables (f_number m) (f_file_size m) (internal_key u (push_bit 8 s OR type_code kTypeValue))
      \<lparr>sv_state = SaverState.kNotFound, sv_ucmp = BytewiseComparator, sv_user_key = u, sv_value = v\<rparr> =
    Inr (OK, lookup_result u s (E m) v)"
    by (simp add: table_get_of_def n)
qed

text \<open>Such tables exist where the numbers of the files are distinct.\<close>

lemma tables_exist:
  assumes "writable_file f winv wcontents" "random_file rf winv wcontents" "port_crc_ok acc"
    and "table_options (InternalKeyComparator BytewiseComparator) (InternalFilterPolicy (NewBloomFilterPolicy b)) opts"
    and "winv st" "wcontents st = []"
    and E: "\<forall>m \<in> set files. good_entries (E m) \<and> table_cost (b + 9) opts (entry_pairs (E m)) < 2 ^ 32"
    and d: "distinct (map f_number files)"
  shows "\<exists>tables. tables_built acc f rf opts st tables E files"
proof -
  let ?R = "\<lambda>m p. \<exists>r. build_table acc f opts (entry_pairs (E m)) st = Inr (OK, r, snd p) \<and>
     Table_Open acc rf opts (tb_FileSize r) (snd p) = Inr (OK, Some (fst p))"
  have "\<exists>p. ?R m p" if m: "m \<in> set files" for m
  proof -
    have g: "good_entries (E m)" "table_cost (b + 9) opts (entry_pairs (E m)) < 2 ^ 32" using E m by auto
    obtain r st' t D idx where t: "build_table acc f opts (entry_pairs (E m)) st = Inr (OK, r, st')" "winv st'"
      "Table_Open acc rf opts (tb_FileSize r) st' = Inr (OK, Some t)"
      "internal.is_table opts (wcontents st') D idx" "internal.opened opts D idx t" "concat (map snd D) = entry_pairs (E m)"
      using built_table [OF assms(1-6) g] by blast
    show ?thesis by (intro exI [of _ "(t, st')"] exI [of _ r]) (simp add: t(1,3))
  qed
  then have "\<forall>m \<in> set files. \<exists>p. ?R m p" by blast
  from bchoice [OF this] obtain p where p: "\<forall>m \<in> set files. ?R m (p m)" ..
  have "map_of (map (\<lambda>m. (f_number m, p m)) files) (f_number m) = Some (p m)" if "m \<in> set files" for m
    using that d by (intro map_of_is_SomeI) (simp_all add: o_def)
  note found = this
  have "tables_built acc f rf opts st (map_of (map (\<lambda>m. (f_number m, p m)) files)) E files"
    unfolding tables_built_def
  proof (intro ballI)
    fix m assume m: "m \<in> set files"
    from found [OF m] bspec [OF p m]
    show "\<exists>r st' t. build_table acc f opts (entry_pairs (E m)) st = Inr (OK, r, st') \<and>
        Table_Open acc rf opts (tb_FileSize r) st' = Inr (OK, Some t) \<and>
        map_of (map (\<lambda>m. (f_number m, p m)) files) (f_number m) = Some (t, st')"
      by (cases "p m") auto
  qed
  then show ?thesis by (rule exI [of _ "map_of (map (\<lambda>m. (f_number m, p m)) files)"])
qed

text \<open>
  C6: a lookup in a version finds the newest entry of the key at the sequence number, over the files of all levels:
  where every file is a table built from its entries and the files are searched from newer to older, the status and the value
  are those of the first visible entry of the list of all entries; with a deletion, or nothing, \<open>NotFound\<close>. The sequence
  number is one of 56 bits, and \<open>table_cost\<close> of every table is below 2^32.
\<close>

theorem Version_Get_newest:
  assumes "writable_file f winv wcontents" and "random_file rf winv wcontents" and "port_crc_ok acc"
    and "table_options (InternalKeyComparator BytewiseComparator) (InternalFilterPolicy (NewBloomFilterPolicy b)) opts"
    and "winv st" and "wcontents st = []" and "\<forall>m \<in> set (concat levels). table_cost (b + 9) opts (entry_pairs (E m)) < 2 ^ 32"
    and "tables_built acc f rf opts st tables E (concat levels)" and "version_holds levels E"
    and "good_entries es" and "mset es = mset (concat (map E (concat levels)))" and "s \<le> kMaxSequenceNumber"
  shows "\<exists>lk stats. new_LookupKey u s = Inr lk \<and> Version_Get (table_get_of acc rf ro tables) BytewiseComparator levels lk v0 =
    Inr (fst (get_result (find (visible u s) es) v0), snd (get_result (find (visible u s) es) v0), stats)"
proof -
  have "\<forall>m \<in> set (concat levels). good_entries (E m) \<and> table_cost (b + 9) opts (entry_pairs (E m)) < 2 ^ 32"
    using assms(7,9) by (simp add: version_holds_def holds_entries_def)
  from Version_Get_serves [OF assms(9) built_tables_serve [OF assms(1-6) this assms(8)] assms(10-12)] show ?thesis .
qed

text \<open>A file of level 0 that hides an entry of a file of level 1.\<close>

definition entries_file :: "u64 \<Rightarrow> entries \<Rightarrow> FileMetaData" where
  "entries_file n es = (new_FileMetaData n)\<lparr>smallest := entry_key (fst (hd es)), largest := entry_key (fst (last es))\<rparr>"

lemma entries_file_simps [simp]: "f_number (entries_file n es) = n" "smallest (entries_file n es) = entry_key (fst (hd es))"
  "largest (entries_file n es) = entry_key (fst (last es))"
  by (simp_all add: entries_file_def new_FileMetaData_def)

definition example_new :: entries where
  "example_new = [deletion_at [5] 9, value_at [7] 8 [3]]"

definition example_old :: entries where
  "example_old = [value_at [5] 4 [1], value_at [6] 3 [2]]"

definition example_levels :: levels_of_files where
  "example_levels = [[entries_file 8 example_new], [entries_file 7 example_old], [], [], [], [], []]"

definition example_entries :: "FileMetaData \<Rightarrow> entries" where
  "example_entries m = (if f_number m = 8 then example_new else example_old)"

lemma example_numbers: "(10 :: u64) \<le> kMaxSequenceNumber" "(9 :: u64) \<le> kMaxSequenceNumber" "(8 :: u64) \<le> kMaxSequenceNumber"
  "(4 :: u64) \<le> kMaxSequenceNumber" "(3 :: u64) \<le> kMaxSequenceNumber"
  by (simp_all add: kMaxSequenceNumber_def)

lemma example_files_simps [simp]: "example_entries (entries_file 8 es) = example_new" "example_entries (entries_file 7 es) = example_old"
  by (simp_all add: example_entries_def)

lemma example_good: "good_entries example_new" "good_entries example_old" "example_new \<noteq> []" "example_old \<noteq> []"
  using example_numbers by (simp_all add: example_simps example_new_def example_old_def)

lemma example_costs:
  "\<forall>m \<in> set (concat example_levels). table_cost (10 + 9) example_options (entry_pairs (example_entries m)) < 2 ^ 32"
  by (simp add: example_levels_def)
    (simp add: example_new_def example_old_def example_simps table_cost_def filter_name_length_def InternalFilterPolicy_def NewBloomFilterPolicy_def)

lemma example_distinct: "distinct (map f_number (concat example_levels))"
  by (simp add: example_levels_def)

lemma example_tables:
  "\<exists>tables. tables_built (\<lambda>_ _. 0) (mem_writable 0) (mem_random 0) example_options (snd (alloc new_InMemoryEnv)) tables
    example_entries (concat example_levels)"
proof (rule tables_exist [OF mem_wr.writable_file_axioms mem_ra.random_file_axioms crc_portable example_options_ok new_file_ok _ example_distinct])
  show "\<forall>m \<in> set (concat example_levels). good_entries (example_entries m) \<and>
      table_cost (10 + 9) example_options (entry_pairs (example_entries m)) < 2 ^ 32"
    using example_costs example_good by (simp add: example_levels_def)
qed

lemma example_version: "version_holds example_levels example_entries"
proof -
  have h: "holds_entries (entries_file 8 example_new) example_new" "holds_entries (entries_file 7 example_old) example_old"
    using example_good by (simp_all add: holds_entries_def)
  have "version_ok example_levels"
    using holds_entries_valid [OF h(1)] holds_entries_valid [OF h(2)] holds_entries_entry(1) [OF h(2) hd_in_set [OF example_good(4)]]
    by (simp add: version_ok_def example_levels_def disjoint_files_def)
  moreover have "newer example_entries (entries_file 8 example_new) (entries_file 7 example_old)"
    by (simp add: newer_def) (simp add: example_new_def example_old_def deletion_at_def value_at_def)
  ultimately show ?thesis
    unfolding version_holds_def using h by (simp add: example_levels_def search_order_def sort_newest_def)
qed

theorem Version_Get_newest_witness:
  "\<exists>tables lk stats. new_LookupKey [6] 9 = Inr lk \<and>
    Version_Get (table_get_of (\<lambda>_ _. 0) (mem_random 0) new_ReadOptions tables) BytewiseComparator example_levels lk (Some []) =
      Inr (OK, Some [2], stats)"
proof -
  define es where "es = [deletion_at [5] 9, value_at [5] 4 [1], value_at [6] 3 [2], value_at [7] 8 [3]]"
  have g: "good_entries es"
    using example_numbers tag_less [OF example_numbers(4,2), of kTypeValue kTypeDeletion] by (simp add: example_simps es_def)
  have me: "mset es = mset (concat (map example_entries (concat example_levels)))"
    by (simp add: example_levels_def) (simp add: es_def example_new_def example_old_def)
  obtain tables where T: "tables_built (\<lambda>_ _. 0) (mem_writable 0) (mem_random 0) example_options (snd (alloc new_InMemoryEnv)) tables
    example_entries (concat example_levels)" using example_tables ..
  from Version_Get_newest [OF mem_wr.writable_file_axioms mem_ra.random_file_axioms crc_portable example_options_ok new_file_ok
      example_costs T example_version g me example_numbers(2), where ro = new_ReadOptions and u = "[6]" and ?v0.0 = "Some []"]
  obtain lk stats where lk: "new_LookupKey [6] 9 = Inr lk"
    "Version_Get (table_get_of (\<lambda>_ _. 0) (mem_random 0) new_ReadOptions tables) BytewiseComparator example_levels lk (Some []) =
      Inr (fst (get_result (find (visible [6] 9) es) (Some [])), snd (get_result (find (visible [6] 9) es) (Some [])), stats)" by blast
  moreover have "get_result (find (visible [6] 9) es) (Some []) = (OK, Some [2])"
    by (simp add: es_def value_at_def deletion_at_def visible_def get_result_def)
  ultimately show ?thesis by auto
qed

end
