(* ===== verification/Virtual_Iterators.thy ===== *)
theory Virtual_Iterators
  imports Version_Get
begin

section \<open>Iterators of several kinds\<close>

text \<open>
  A pointer to the interface of \<open>include/leveldb/iterator.h\<close> may be to objects of several classes: the sum of two
  iterators calls the operations of the one that is there. An iterator that takes many keys also takes fewer.
\<close>

definition sum_move :: "('a \<Rightarrow> 'a res) \<Rightarrow> ('b \<Rightarrow> 'b res) \<Rightarrow> 'a + 'b \<Rightarrow> ('a + 'b) res" where
  "sum_move f g x =
     (case x of Inl a \<Rightarrow> bind_res (f a) (\<lambda>a. Inr (Inl a)) | Inr b \<Rightarrow> bind_res (g b) (\<lambda>b. Inr (Inr b)))"

definition sum_iterator :: "'a Iterators.iterator \<Rightarrow> 'b Iterators.iterator \<Rightarrow> ('a + 'b) Iterators.iterator" where
  "sum_iterator A B =
     \<lparr>it_Valid = case_sum (it_Valid A) (it_Valid B),
      it_SeekToFirst = sum_move (it_SeekToFirst A) (it_SeekToFirst B),
      it_SeekToLast = sum_move (it_SeekToLast A) (it_SeekToLast B),
      it_Seek = \<lambda>k. sum_move (it_Seek A k) (it_Seek B k),
      it_Next = sum_move (it_Next A) (it_Next B), it_Prev = sum_move (it_Prev A) (it_Prev B),
      it_key = case_sum (it_key A) (it_key B), it_value = case_sum (it_value A) (it_value B),
      it_status = case_sum (it_status A) (it_status B)\<rparr>"

definition sum_at :: "('k \<Rightarrow> nat \<Rightarrow> 'a \<Rightarrow> bool) \<Rightarrow> ('k \<Rightarrow> nat \<Rightarrow> 'b \<Rightarrow> bool) \<Rightarrow> 'k \<Rightarrow> nat \<Rightarrow> 'a + 'b \<Rightarrow> bool" where
  "sum_at P Q kvs i x = (case x of Inl a \<Rightarrow> P kvs i a | Inr b \<Rightarrow> Q kvs i b)"

lemma sum_at_simps [simp]: "sum_at P Q kvs i (Inl a) = P kvs i a" "sum_at P Q kvs i (Inr b) = Q kvs i b"
  by (simp_all add: sum_at_def)

context key_order
begin

lemma sum_sorted:
  assumes A: "sorted_iterator cmp valid before A P" and B: "sorted_iterator cmp valid before B Q"
  shows "sorted_iterator cmp valid before (sum_iterator A B) (sum_at P Q)"
proof unfold_locales
  fix kvs i x
  assume x: "sum_at P Q kvs i x"
  note simps = sum_iterator_def sum_move_def iterator.simps sum.case
  note a = sorted_iterator.at_Valid [OF A] sorted_iterator.at_key [OF A] sorted_iterator.at_value [OF A] sorted_iterator.at_status [OF A]
    and b = sorted_iterator.at_Valid [OF B] sorted_iterator.at_key [OF B] sorted_iterator.at_value [OF B] sorted_iterator.at_status [OF B]
  show "increasing (map fst kvs) \<and> i \<le> length kvs"
    using x sorted_iterator.at_increasing [OF A] sorted_iterator.at_increasing [OF B] by (cases x) simp_all
  show "it_Valid (sum_iterator A B) x \<longleftrightarrow> i < length kvs" "it_status (sum_iterator A B) x = Inr OK"
    using x a(1,4) b(1,4) by (cases x; simp add: simps)+
  show "it_key (sum_iterator A B) x = Inr (fst (kvs ! i))" "it_value (sum_iterator A B) x = Inr (snd (kvs ! i))" if "i < length kvs"
    using x that a(2,3) b(2,3) by (cases x; simp add: simps)+
  show "\<exists>x'. it_SeekToFirst (sum_iterator A B) x = Inr x' \<and> sum_at P Q kvs 0 x'"
    using x sorted_iterator.at_SeekToFirst [OF A] sorted_iterator.at_SeekToFirst [OF B] by (cases x) (fastforce simp: simps)+
  show "\<exists>x'. it_SeekToLast (sum_iterator A B) x = Inr x' \<and> sum_at P Q kvs (length kvs - 1) x'"
    using x sorted_iterator.at_SeekToLast [OF A] sorted_iterator.at_SeekToLast [OF B] by (cases x) (fastforce simp: simps)+
  show "\<exists>x'. it_Seek (sum_iterator A B) t x = Inr x' \<and> sum_at P Q kvs (rank before t kvs) x'" if "valid t" for t
    using x sorted_iterator.at_Seek [OF A _ that] sorted_iterator.at_Seek [OF B _ that] by (cases x) (fastforce simp: simps)+
  show "\<exists>x'. it_Next (sum_iterator A B) x = Inr x' \<and> sum_at P Q kvs (Suc i) x'" if "i < length kvs"
    using x sorted_iterator.at_Next [OF A _ that] sorted_iterator.at_Next [OF B _ that] by (cases x) (fastforce simp: simps)+
  show "\<exists>x'. it_Prev (sum_iterator A B) x = Inr x' \<and> sum_at P Q kvs (if i = 0 then length kvs else i - 1) x'" if "i < length kvs"
    using x sorted_iterator.at_Prev [OF A _ that] sorted_iterator.at_Prev [OF B _ that] by (cases x) (fastforce simp: simps)+
  show "it_Next (sum_iterator A B) x = Inl AssertFail \<and> it_Prev (sum_iterator A B) x = Inl AssertFail" if "i = length kvs"
    using x sorted_iterator.at_end [OF A _ that] sorted_iterator.at_end [OF B _ that] by (cases x) (simp_all add: simps)
qed

text \<open>From an iterator over the keys of a weaker \<open>wide\<close>.\<close>

lemma narrow_sorted:
  assumes S: "sorted_iterator cmp wide before ops at" and W: "\<And>k. valid k \<Longrightarrow> wide k"
  shows "sorted_iterator cmp valid before ops (\<lambda>kvs i x. at kvs i x \<and> (\<forall>k \<in> fst ` set kvs. valid k))"
proof unfold_locales
  fix kvs i x
  assume x: "at kvs i x \<and> (\<forall>k \<in> fst ` set kvs. valid k)"
  have "key_order cmp wide before" using S by (simp add: sorted_iterator_def)
  then have "key_order.increasing wide before (map fst kvs) = (sorted_wrt before (map fst kvs) \<and> (\<forall>k \<in> set (map fst kvs). wide k))"
    by (auto simp: key_order.increasing_def)
  then show "increasing (map fst kvs) \<and> i \<le> length kvs"
    using x sorted_iterator.at_increasing [OF S] by (auto simp: increasing_def)
  have at: "at kvs i x" and v: "\<forall>k \<in> fst ` set kvs. valid k" using x by simp_all
  have keep: "\<exists>x'. r = Inr x' \<and> at kvs j x' \<and> (\<forall>k \<in> fst ` set kvs. valid k)" if "\<exists>x'. r = Inr x' \<and> at kvs j x'" for r j
    using that v by blast
  show "it_Valid ops x \<longleftrightarrow> i < length kvs" by (rule sorted_iterator.at_Valid [OF S at])
  show "it_status ops x = Inr OK" by (rule sorted_iterator.at_status [OF S at])
  show "it_key ops x = Inr (fst (kvs ! i))" if "i < length kvs" by (rule sorted_iterator.at_key [OF S at that])
  show "it_value ops x = Inr (snd (kvs ! i))" if "i < length kvs" by (rule sorted_iterator.at_value [OF S at that])
  show "\<exists>x'. it_SeekToFirst ops x = Inr x' \<and> at kvs 0 x' \<and> (\<forall>k \<in> fst ` set kvs. valid k)"
    by (rule keep, rule sorted_iterator.at_SeekToFirst [OF S at])
  show "\<exists>x'. it_SeekToLast ops x = Inr x' \<and> at kvs (length kvs - 1) x' \<and> (\<forall>k \<in> fst ` set kvs. valid k)"
    by (rule keep, rule sorted_iterator.at_SeekToLast [OF S at])
  show "\<exists>x'. it_Seek ops t x = Inr x' \<and> at kvs (rank before t kvs) x' \<and> (\<forall>k \<in> fst ` set kvs. valid k)" if "valid t" for t
    by (rule keep, rule sorted_iterator.at_Seek [OF S at W [OF that]])
  show "\<exists>x'. it_Next ops x = Inr x' \<and> at kvs (Suc i) x' \<and> (\<forall>k \<in> fst ` set kvs. valid k)" if "i < length kvs"
    by (rule keep, rule sorted_iterator.at_Next [OF S at that])
  show "\<exists>x'. it_Prev ops x = Inr x' \<and> at kvs (if i = 0 then length kvs else i - 1) x' \<and> (\<forall>k \<in> fst ` set kvs. valid k)"
    if "i < length kvs"
    by (rule keep, rule sorted_iterator.at_Prev [OF S at that])
  show "it_Next ops x = Inl AssertFail \<and> it_Prev ops x = Inl AssertFail" if "i = length kvs"
    using x sorted_iterator.at_end [OF S _ that] by blast
qed

end

subsection \<open>Keys whose lengths fit 32 bits\<close>

text \<open>The memtable and the lookup keys write the length of an internal key in 32 bits.\<close>

definition short_user :: "slice \<Rightarrow> bool" where
  "short_user u \<longleftrightarrow> length u + 8 < 2 ^ 32"

definition short_key :: "slice \<Rightarrow> bool" where
  "short_key k \<longleftrightarrow> internal_valid k \<and> length k < 2 ^ 32"

lemma short_key_internal [simp]: "short_key (internal_key u t) \<longleftrightarrow> short_user u"
  by (auto simp: short_key_def short_user_def internal_valid_def internal_key_def)

lemma narrow_order:
  assumes K: "key_order cmp wide before" and W: "\<And>k. valid k \<Longrightarrow> wide k"
    and sep: "\<And>a b s. valid a \<Longrightarrow> valid b \<Longrightarrow> before a b \<Longrightarrow> FindShortestSeparator cmp a b = Inr s \<Longrightarrow> wide s \<Longrightarrow> valid s"
    and suc: "\<And>a s. valid a \<Longrightarrow> FindShortSuccessor cmp a = Inr s \<Longrightarrow> wide s \<Longrightarrow> valid s"
  shows "key_order cmp valid before"
proof
  fix a b c
  assume a: "valid a"
  show "\<exists>s. FindShortSuccessor cmp a = Inr s \<and> valid s \<and> (s = a \<or> before a s)"
    using key_order.successor [OF K W [OF a]] suc [OF a] by blast
  assume b: "valid b"
  show "\<exists>r. Compare cmp a b = Inr r \<and> (r < 0 \<longleftrightarrow> before a b) \<and> (r = 0 \<longleftrightarrow> a = b) \<and> (r > 0 \<longleftrightarrow> before b a)"
    by (rule key_order.compare_before [OF K W [OF a] W [OF b]])
  show "\<exists>s. FindShortestSeparator cmp a b = Inr s \<and> valid s \<and> (s = a \<or> before a s) \<and> before s b" if "before a b"
    using key_order.separator [OF K W [OF a] W [OF b] that] sep [OF a b that] by blast
  assume c: "valid c"
  show "before a c" if "before a b" "before b c"
    using key_order.before_trans [OF K W [OF a] W [OF b] W [OF c] that] .
qed

interpretation short: key_order "InternalKeyComparator BytewiseComparator" short_key internal_before
  by (rule narrow_order [OF internal.key_order_axioms])
    (auto simp: short_key_def internal_valid_def InternalKeyComparator_def
      dest: internal_separator_length internal_successor_length)

interpretation short_bytes: key_order BytewiseComparator short_user "(<)"
proof (rule narrow_order [OF bytewise.key_order_axioms])
  show "short_user s" if "short_user a" "a < b" "FindShortestSeparator BytewiseComparator a b = Inr s" for a b s
    using bytewise_separator_length [of a b s] that by (simp add: BytewiseComparator_def short_user_def)
  show "short_user s" if "short_user a" "FindShortSuccessor BytewiseComparator a = Inr s" for a s
    using bytewise_successor_above [of a] that by (auto simp: BytewiseComparator_def short_user_def)
qed simp

end
