(* ===== verification/Mem_Iterator.thy ===== *)
theory Mem_Iterator
  imports Mem_Table Virtual_Iterators
begin

section \<open>The iterator of a memtable\<close>

text \<open>
  \<open>MemTableIterator\<close> of \<open>leveldb-mcpe/db/memtable.cc\<close> as an implementation of the interface: over a table that holds a
  history of updates it is an iterator over the entries of the updates, for keys whose lengths fit 32 bits.
\<close>

definition mem_iterator :: "MemTable \<Rightarrow> Skip_List.iterator Iterators.iterator" where
  "mem_iterator m =
     \<lparr>it_Valid = Valid, it_SeekToFirst = \<lambda>_. mem_SeekToFirst m, it_SeekToLast = \<lambda>_. mem_SeekToLast m,
      it_Seek = \<lambda>k _. mem_Seek m k, it_Next = mem_Next m, it_Prev = mem_Prev m, it_key = mem_key m, it_value = mem_value m,
      it_status = \<lambda>_. Inr OK\<rparr>"

text \<open>The iterators of several tables: the object is the table with the position.\<close>

definition MemTable_NewIterator :: "MemTable \<Rightarrow> MemTable \<times> Skip_List.iterator" where
  "MemTable_NewIterator m = (m, new_Iterator)"

subsection \<open>The entries of a history\<close>

definition history_entry :: "SequenceNumber \<times> batch_op \<Rightarrow> ParsedInternalKey \<times> slice" where
  "history_entry = (\<lambda>(q, op). (\<lparr>user_key = op_key op, sequence = q, key_type = op_type op\<rparr>, op_value op))"

definition history_bytes :: "SequenceNumber \<times> batch_op \<Rightarrow> slice" where
  "history_bytes = (\<lambda>(q, op). Mem_Table.entry_bytes q op)"

text \<open>What the bytes of an entry say.\<close>

definition pair_of :: "slice \<Rightarrow> slice \<times> slice" where
  "pair_of e = (case get_prefixed e of Inr (k, rest) \<Rightarrow> (case get_prefixed rest of Inr (v, _) \<Rightarrow> (k, v) | Inl _ \<Rightarrow> ([], [])) | Inl _ \<Rightarrow> ([], []))"

lemma pair_of_bytes:
  assumes "mem_op_fits (snd x)"
  shows "pair_of (history_bytes x) = (entry_key (fst (history_entry x)), snd (history_entry x))"
  using entry_prefixed [OF assms, of "fst x"] entry_value [OF assms]
  by (simp add: pair_of_def history_bytes_def history_entry_def case_prod_unfold entry_key_def op_tag_def)

lemma history_okD:
  assumes "history_ok h" and "x \<in> set h"
  shows "fst x \<le> kMaxSequenceNumber" and "mem_op_fits (snd x)"
  using assms by (auto simp: history_ok_def case_prod_unfold)

lemma history_distinct: "history_ok h \<Longrightarrow> distinct h"
  by (auto simp: history_ok_def strict_sorted_iff distinct_map)

lemma entry_key_inj:
  assumes "sequence k \<le> kMaxSequenceNumber" and "sequence k' \<le> kMaxSequenceNumber" and "entry_key k = entry_key k'"
  shows "user_key k = user_key k' \<and> sequence k = sequence k' \<and> key_type k = key_type k'"
proof -
  note p = ParseInternalKey_internal [OF assms(1), of "user_key k" "key_type k", folded entry_key_def]
    ParseInternalKey_internal [OF assms(2), of "user_key k'" "key_type k'", folded entry_key_def]
  from p(1) [unfolded assms(3) p(2)] show ?thesis by simp
qed

lemma history_bytes_inj:
  assumes "history_ok h" and "x \<in> set h" and "y \<in> set h" and "history_bytes x = history_bytes y"
  shows "x = y"
proof -
  have "pair_of (history_bytes x) = pair_of (history_bytes y)" by (simp add: assms(4))
  then have "entry_key (fst (history_entry x)) = entry_key (fst (history_entry y))" and v: "snd (history_entry x) = snd (history_entry y)"
    using history_okD(2) [OF assms(1,2)] history_okD(2) [OF assms(1,3)] by (simp_all add: pair_of_bytes)
  then have "op_key (snd x) = op_key (snd y) \<and> fst x = fst y \<and> op_type (snd x) = op_type (snd y)"
    using entry_key_inj [of "fst (history_entry x)" "fst (history_entry y)"] history_okD(1) [OF assms(1,2)] history_okD(1) [OF assms(1,3)]
    by (simp add: history_entry_def case_prod_unfold)
  then show ?thesis using v by (cases x; cases y; cases "snd x"; cases "snd y") (auto simp: history_entry_def)
qed

lemma history_bytes_before:
  assumes "history_ok h" and "x \<in> set h" and "y \<in> set h"
  shows "mem_before (history_bytes x) (history_bytes y) \<longleftrightarrow> internal_before (entry_key (fst (history_entry x))) (entry_key (fst (history_entry y)))"
  using entry_before [OF history_okD(2) [OF assms(1,2)] history_okD(2) [OF assms(1,3)], of "fst x" "fst y"]
  by (simp add: history_bytes_def history_entry_def case_prod_unfold entry_key_def op_tag_def)

text \<open>The keys of the skip list are the bytes of the updates in the order of their entries.\<close>

lemma table_entries:
  assumes "history_ok h" and "mem.holds sl ks" and "set ks = (\<lambda>(q, op). Mem_Table.entry_bytes q op) ` set h"
  shows "\<exists>xs. ks = map history_bytes xs \<and> mset xs = mset h \<and> good_entries (map history_entry xs)"
proof -
  have s: "set ks = history_bytes ` set h" using assms(3) by (simp add: history_bytes_def)
  have "\<forall>k \<in> set ks. \<exists>x. x \<in> set h \<and> k = history_bytes x" using s by auto
  from bchoice [OF this] obtain g where g: "\<forall>k \<in> set ks. g k \<in> set h \<and> k = history_bytes (g k)" ..
  define xs where "xs = map g ks"
  have ks: "ks = map history_bytes xs" using g by (simp add: xs_def map_idI)
  have sub: "set xs \<subseteq> set h" using g by (auto simp: xs_def)
  have srt: "sorted_wrt mem_before ks" by (rule mem.holds_sorted [OF assms(2)])
  have v: "mem_valid k" if "k \<in> set ks" for k
    using that assms(1,3) entry_valid by (auto simp: history_ok_def simp del: mem_op_fits.simps)
  have d: "distinct ks"
    using srt v
  proof (induction ks)
    case (Cons k ks)
    then show ?case using mem.before_irrefl [of k] by auto
  qed simp
  have "set xs = set h"
  proof
    show "set h \<subseteq> set xs"
    proof
      fix x assume x: "x \<in> set h"
      then obtain y where y: "y \<in> set xs" "history_bytes x = history_bytes y" using s ks by (metis (no_types, lifting) image_iff list.set_map)
      then show "x \<in> set xs" using history_bytes_inj [OF assms(1) x _ y(2)] sub by auto
    qed
  qed (rule sub)
  moreover have "distinct xs" using d ks by (simp add: distinct_map)
  ultimately have m: "mset xs = mset h" using history_distinct [OF assms(1)] by (simp add: set_eq_iff_mset_eq_distinct)
  have "sorted_wrt (\<lambda>x y. internal_before (entry_key (fst (history_entry x))) (entry_key (fst (history_entry y)))) xs"
    using srt unfolding ks sorted_wrt_map
    by (rule sorted_wrt_mono_rel [rotated]) (use history_bytes_before [OF assms(1)] sub in blast)
  then have "good_entries (map history_entry xs)"
    using sub history_okD(1) [OF assms(1)]
    by (auto simp: good_entries_def entry_pairs_def sorted_wrt_map case_prod_unfold) (auto simp: history_entry_def case_prod_unfold)
  then show ?thesis using ks m by blast
qed

subsection \<open>The interface\<close>

definition mem_at :: "MemTable \<Rightarrow> (slice \<times> slice) list \<Rightarrow> nat \<Rightarrow> Skip_List.iterator \<Rightarrow> bool" where
  "mem_at m kvs i it \<longleftrightarrow> (\<exists>h xs. history_ok h \<and> set xs = set h \<and> good_entries (map history_entry xs) \<and>
     kvs = entry_pairs (map history_entry xs) \<and> mem.holds (mt_table m) (map history_bytes xs) \<and> i \<le> length xs \<and>
     (i < length xs \<longrightarrow> mem.iter_at (mt_table m) (map history_bytes xs) i it) \<and> (i = length xs \<longrightarrow> \<not> Valid it))"

lemma takeWhile_filter:
  assumes "sorted_wrt R xs" and "\<And>x y. x \<in> set xs \<Longrightarrow> y \<in> set xs \<Longrightarrow> R x y \<Longrightarrow> P y \<Longrightarrow> P x"
  shows "takeWhile P xs = filter P xs"
  using assms
proof (induction xs)
  case (Cons x xs)
  have "filter P xs = []" if "\<not> P x" using Cons.prems that by (auto simp: filter_empty_conv)
  then show ?case using Cons by auto
qed simp

lemma mem_at_read:
  assumes "mem_at m kvs i it"
  shows "i \<le> length kvs" and "short.increasing (map fst kvs)" and "Valid it \<longleftrightarrow> i < length kvs"
    and "i < length kvs \<Longrightarrow> mem_key m it = Inr (fst (kvs ! i)) \<and> mem_value m it = Inr (snd (kvs ! i))"
proof -
  obtain h xs where x: "history_ok h" "set xs = set h" "good_entries (map history_entry xs)" "kvs = entry_pairs (map history_entry xs)"
    "mem.holds (mt_table m) (map history_bytes xs)" "i \<le> length xs" "i < length xs \<longrightarrow> mem.iter_at (mt_table m) (map history_bytes xs) i it"
    "i = length xs \<longrightarrow> \<not> Valid it"
    using assms by (auto simp: mem_at_def)
  have l: "length kvs = length xs" by (simp add: x(4) entry_pairs_def)
  show "i \<le> length kvs" using x(6) l by simp
  show "Valid it \<longleftrightarrow> i < length kvs" using x(6-8) l mem.iter_at_Valid [of "mt_table m" "map history_bytes xs" i it] by auto
  have "short_key (entry_key (fst (history_entry x)))" if "x \<in> set xs" for x
    using history_okD(2) [OF x(1), of x] that x(2) by (simp add: entry_key_def history_entry_def case_prod_unfold short_user_def)
  then show "short.increasing (map fst kvs)"
    using x(3) by (auto simp: x(4) short.increasing_def good_entries_def entry_pairs_def case_prod_unfold)
  show "mem_key m it = Inr (fst (kvs ! i)) \<and> mem_value m it = Inr (snd (kvs ! i))" if i: "i < length kvs"
  proof -
    have "iter_key (mt_table m) it = Inr (history_bytes (xs ! i))"
      using mem.iter_Next_at [of "mt_table m" "map history_bytes xs" i it] x(7) i l by auto
    moreover have f: "mem_op_fits (snd (xs ! i))" using history_okD(2) [OF x(1)] x(2) i l by (metis nth_mem)
    ultimately show ?thesis
      using entry_prefixed [OF f, of "fst (xs ! i)"] entry_value [OF f] i l
      by (simp add: mem_key_def mem_value_def x(4) entry_pairs_def history_bytes_def history_entry_def case_prod_unfold entry_key_def op_tag_def
          del: mem_op_fits.simps)
  qed
qed

text \<open>What a move gives.\<close>

lemma mem_at_move:
  assumes "mem_at m kvs i it"
  obtains xs where "length kvs = length xs" and "kvs = entry_pairs (map history_entry xs)" and "mem.holds (mt_table m) (map history_bytes xs)"
    and "\<forall>x \<in> set xs. mem_op_fits (snd x)" and "sorted_wrt internal_before (map fst kvs)"
    and "i < length xs \<Longrightarrow> mem.iter_at (mt_table m) (map history_bytes xs) i it" and "i = length xs \<Longrightarrow> \<not> Valid it"
    and "\<And>j it'. mem.iter_at (mt_table m) (map history_bytes xs) j it' \<Longrightarrow> j \<le> length xs \<Longrightarrow> mem_at m kvs j it'"
proof -
  obtain h xs where x: "history_ok h" "set xs = set h" "good_entries (map history_entry xs)" "kvs = entry_pairs (map history_entry xs)"
    "mem.holds (mt_table m) (map history_bytes xs)" "i \<le> length xs" "i < length xs \<longrightarrow> mem.iter_at (mt_table m) (map history_bytes xs) i it"
    "i = length xs \<longrightarrow> \<not> Valid it"
    using assms by (auto simp: mem_at_def)
  have "mem_at m kvs j it'" if "mem.iter_at (mt_table m) (map history_bytes xs) j it'" "j \<le> length xs" for j it'
    unfolding mem_at_def using x(1-5) that mem.iter_at_Valid [OF that(1)] by (intro exI [of _ h] exI [of _ xs]) auto
  with that [of xs] x history_okD(2) [OF x(1)] show thesis by (auto simp: entry_pairs_def good_entries_def)
qed

lemma mem_sorted: "sorted_iterator (InternalKeyComparator BytewiseComparator) short_key internal_before (mem_iterator m) (mem_at m)"
proof unfold_locales
  fix kvs i it
  assume at: "mem_at m kvs i it"
  obtain xs where x: "length kvs = length xs" "kvs = entry_pairs (map history_entry xs)" "mem.holds (mt_table m) (map history_bytes xs)"
    "\<forall>x \<in> set xs. mem_op_fits (snd x)" "sorted_wrt internal_before (map fst kvs)"
    "i < length xs \<Longrightarrow> mem.iter_at (mt_table m) (map history_bytes xs) i it" "i = length xs \<Longrightarrow> \<not> Valid it"
    and move: "\<And>j it'. mem.iter_at (mt_table m) (map history_bytes xs) j it' \<Longrightarrow> j \<le> length xs \<Longrightarrow> mem_at m kvs j it'"
    using mem_at_move [OF at] by blast
  note simps = mem_iterator_def iterator.simps
  note read = mem_at_read [OF at]
  show "short.increasing (map fst kvs) \<and> i \<le> length kvs" using read(1,2) by blast
  show "it_Valid (mem_iterator m) it \<longleftrightarrow> i < length kvs" using read(3) by (simp add: simps)
  show "it_key (mem_iterator m) it = Inr (fst (kvs ! i))" "it_value (mem_iterator m) it = Inr (snd (kvs ! i))" if "i < length kvs"
    using read(4) [OF that] by (simp_all add: simps)
  show "it_status (mem_iterator m) it = Inr OK" by (simp add: simps)
  show "\<exists>it'. it_SeekToFirst (mem_iterator m) it = Inr it' \<and> mem_at m kvs 0 it'"
    using mem.iter_SeekToFirst_at [OF x(3)] move by (auto simp: simps mem_SeekToFirst_def)
  show "\<exists>it'. it_SeekToLast (mem_iterator m) it = Inr it' \<and> mem_at m kvs (length kvs - 1) it'"
    using mem.iter_SeekToLast_at [OF x(3)] move x(1) by (auto simp: simps mem_SeekToLast_def)
  show "\<exists>it'. it_Next (mem_iterator m) it = Inr it' \<and> mem_at m kvs (Suc i) it'" if "i < length kvs"
    using mem.iter_Next_at [OF x(6)] move that x(1) by (auto simp: simps mem_Next_def)
  show "\<exists>it'. it_Prev (mem_iterator m) it = Inr it' \<and> mem_at m kvs (if i = 0 then length kvs else i - 1) it'" if "i < length kvs"
    using mem.iter_Prev_at [OF x(6)] move that x(1) by (auto simp: simps mem_Prev_def)
  show "it_Next (mem_iterator m) it = Inl AssertFail \<and> it_Prev (mem_iterator m) it = Inl AssertFail" if "i = length kvs"
    using x(1,7) that by (simp add: simps mem_Next_def mem_Prev_def iter_Next_def iter_Prev_def iter_node_def Valid_def)
  show "\<exists>it'. it_Seek (mem_iterator m) t it = Inr it' \<and> mem_at m kvs (rank internal_before t kvs) it'" if t: "short_key t" for t
  proof -
    obtain u g where u: "t = internal_key u g" using t by (auto simp: short_key_def internal_valid_iff)
    have p: "get_prefixed (EncodeKey t) = Inr (t, [])"
      using get_prefixed_bytes [of t "[]"] t by (simp add: EncodeKey_def PutVarint32_def short_key_def)
    then have v: "mem_valid (EncodeKey t)" using u by (auto simp: mem_valid_def)
    let ?P = "\<lambda>e. mem_before e (EncodeKey t)"
    have before: "?P (history_bytes y) \<longleftrightarrow> internal_before (entry_key (fst (history_entry y))) t" if "y \<in> set xs" for y
      using entry_prefixed [of "snd y" "fst y"] x(4) that p
      by (simp add: mem_before_def ikey_of_def history_bytes_def history_entry_def case_prod_unfold entry_key_def op_tag_def del: mem_op_fits.simps)
    have valid: "mem_valid k" if "k \<in> set (map history_bytes xs)" for k
      using that x(4) Mem_Table.entry_valid by (auto simp: history_bytes_def case_prod_unfold simp del: mem_op_fits.simps)
    have "takeWhile ?P (map history_bytes xs) = filter ?P (map history_bytes xs)"
      by (rule takeWhile_filter [OF mem.holds_sorted [OF x(3)]]) (use mem.before_trans valid v in blast)
    also have "length \<dots> = length (filter (\<lambda>y. internal_before (entry_key (fst (history_entry y))) t) xs)"
      using before by (simp add: filter_map comp_def cong: filter_cong)
    also have "\<dots> = rank internal_before t kvs"
      by (simp add: x(2) rank_def entry_pairs_def filter_map comp_def case_prod_unfold)
    finally have n: "length (takeWhile ?P (map history_bytes xs)) = rank internal_before t kvs" .
    moreover have "rank internal_before t kvs \<le> length xs" using length_filter_le [of _ kvs] x(1) by (simp add: rank_def)
    ultimately show ?thesis using mem.iter_Seek_at [OF x(3) v] move by (auto simp: simps mem_Seek_def)
  qed
qed

lemma NewIterator_at:
  assumes "table_ok m h"
  shows "\<exists>es. good_entries es \<and> mset es = mset (map history_entry h) \<and> mem_at m (entry_pairs es) (length es) new_Iterator"
proof -
  obtain ks where ks: "history_ok h" "mem.holds (mt_table m) ks" "set ks = (\<lambda>(q, op). Mem_Table.entry_bytes q op) ` set h"
    using assms by (auto simp: table_ok_def)
  from table_entries [OF this] obtain xs where xs: "ks = map history_bytes xs" "mset xs = mset h" "good_entries (map history_entry xs)" by blast
  have "mem_at m (entry_pairs (map history_entry xs)) (length xs) new_Iterator"
    unfolding mem_at_def using ks(1,2) xs(1,3) mset_eq_setD [OF xs(2)]
    by (intro exI [of _ h] exI [of _ xs]) (simp add: new_Iterator_def Valid_def)
  then show ?thesis using xs by (intro exI [of _ "map history_entry xs"]) (simp add: mset_map)
qed

interpretation mem_tables: sorted_iterator "InternalKeyComparator BytewiseComparator" short_key internal_before
  "mem_iterator m" "mem_at m" for m
  by (rule mem_sorted)

end
