(* ===== verification/Version_Iter.thy ===== *)
theory Version_Iter
  imports Version_Get Mem_Iterator
begin

section \<open>The iterators of a version\<close>

text \<open>
  \<open>leveldb-mcpe/db/version_set.cc\<close>: \<open>AddIterators\<close> opens an iterator for every file of level 0 and one that opens the files
  of a level one after the other for each level below. What the table cache opens is an argument: the iterator for
  the number and the size of a file.
\<close>

type_synonym 't cache_iter = "u64 \<Rightarrow> u64 \<Rightarrow> 't res"

definition GetFileIterator :: "'t cache_iter \<Rightarrow> slice \<Rightarrow> ('t + Status) option res" where
  "GetFileIterator cache v =
     (if length v \<noteq> 16 then
        bind_res (Corruption (map char_byte ''FileReader invoked with unexpected value'') []) (\<lambda>s. Inr (Some (Inr s)))
      else
        bind_res (DecodeFixed64 v) (\<lambda>number.
        bind_res (DecodeFixed64 (drop 8 v)) (\<lambda>size.
        bind_res (cache number size) (\<lambda>t. Inr (Some (Inl t))))))"

type_synonym 't level_iterator = "(LevelFileNumIterator, 't + Status) TwoLevelIterator"

text \<open>The fuel is for the loops that skip empty files.\<close>

definition file_levels :: "'t Iterators.iterator \<Rightarrow> 't cache_iter \<Rightarrow> nat \<Rightarrow> (LevelFileNumIterator, 't + Status) levels" where
  "file_levels tops cache fuel =
     \<lparr>index_ops = level_file_iterator, data_ops = sum_iterator tops EmptyIterator, block_function = GetFileIterator cache,
      skip_fuel = fuel\<rparr>"

definition NewConcatenatingIterator :: "'t Iterators.iterator \<Rightarrow> 't cache_iter \<Rightarrow> nat \<Rightarrow> comparator \<Rightarrow> FileMetaData list \<Rightarrow> 't level_iterator res" where
  "NewConcatenatingIterator tops cache fuel ucmp files =
     new_TwoLevelIterator (file_levels tops cache fuel) (new_LevelFileNumIterator (InternalKeyComparator ucmp) files)"

fun level0_iterators :: "'t cache_iter \<Rightarrow> FileMetaData list \<Rightarrow> ('t + 't level_iterator) list res" where
  "level0_iterators cache [] = Inr []"
| "level0_iterators cache (f # fs) =
     bind_res (cache (f_number f) (f_file_size f)) (\<lambda>t.
     bind_res (level0_iterators cache fs) (\<lambda>ts. Inr (Inl t # ts)))"

fun lower_iterators :: "'t Iterators.iterator \<Rightarrow> 't cache_iter \<Rightarrow> nat \<Rightarrow> comparator \<Rightarrow> levels_of_files \<Rightarrow> ('t + 't level_iterator) list res" where
  "lower_iterators tops cache fuel ucmp [] = Inr []"
| "lower_iterators tops cache fuel ucmp (files # levels) =
     (if files = [] then lower_iterators tops cache fuel ucmp levels
      else
        bind_res (NewConcatenatingIterator tops cache fuel ucmp files) (\<lambda>x.
        bind_res (lower_iterators tops cache fuel ucmp levels) (\<lambda>xs. Inr (Inr x # xs))))"

definition version_fuel :: "levels_of_files \<Rightarrow> nat" where
  "version_fuel levels = length (concat levels) + 2"

definition AddIterators :: "'t Iterators.iterator \<Rightarrow> 't cache_iter \<Rightarrow> comparator \<Rightarrow> levels_of_files \<Rightarrow> ('t + 't level_iterator) list res" where
  "AddIterators tops cache ucmp levels =
     bind_res (vec_at levels 0) (\<lambda>level0.
     bind_res (level0_iterators cache level0) (\<lambda>xs.
     bind_res (lower_iterators tops cache (version_fuel levels) ucmp (tl levels)) (\<lambda>ys. Inr (xs @ ys))))"

text \<open>The operations of what is in that list.\<close>

definition file_iterator :: "'t Iterators.iterator \<Rightarrow> 't cache_iter \<Rightarrow> levels_of_files \<Rightarrow> ('t + 't level_iterator) Iterators.iterator" where
  "file_iterator tops cache levels = sum_iterator tops (two_level_iterator (file_levels tops cache (version_fuel levels)))"

subsection \<open>One level\<close>

definition empty_at :: "(slice \<times> slice) list \<Rightarrow> nat \<Rightarrow> Status \<Rightarrow> bool" where
  "empty_at kvs i s \<longleftrightarrow> kvs = [] \<and> i = 0 \<and> s = OK"

context key_order
begin

lemma empty_sorted: "sorted_iterator cmp valid before EmptyIterator empty_at"
  by unfold_locales (auto simp: empty_at_def EmptyIterator_def increasing_def rank_def)

end

text \<open>What the table cache opens shows the entries of the file.\<close>

definition cache_shows :: "((slice \<times> slice) list \<Rightarrow> nat \<Rightarrow> 't \<Rightarrow> bool) \<Rightarrow> 't cache_iter \<Rightarrow> (FileMetaData \<Rightarrow> entries) \<Rightarrow> FileMetaData list \<Rightarrow> bool" where
  "cache_shows tat cache E files \<longleftrightarrow> (\<forall>f \<in> set files. \<exists>t. cache (f_number f) (f_file_size f) = Inr t \<and>
     tat (entry_pairs (E f)) (length (E f)) t)"

definition short_entries :: "entries \<Rightarrow> bool" where
  "short_entries es \<longleftrightarrow> (\<forall>e \<in> set es. short_user (user_key (fst e)))"

lemma short_increasing: "good_entries es \<Longrightarrow> short_entries es \<Longrightarrow> short.increasing (map fst (entry_pairs es))"
  by (auto simp: short.increasing_def good_entries_def entry_pairs_def short_entries_def entry_key_def case_prod_unfold)

lemma file_function:
  assumes "cache_shows tat cache E files" and "f \<in> set files"
  shows "\<exists>t. GetFileIterator cache (file_value f) = Inr (Some (Inl t)) \<and> tat (entry_pairs (E f)) (length (E f)) t"
proof -
  obtain t where t: "cache (f_number f) (f_file_size f) = Inr t" "tat (entry_pairs (E f)) (length (E f)) t"
    using assms by (auto simp: cache_shows_def)
  have "DecodeFixed64 (file_value f) = Inr (f_number f)" by (simp add: file_value_def)
  moreover have "DecodeFixed64 (drop 8 (file_value f)) = Inr (f_file_size f)"
    using DecodeFixed64_Encode [of "f_file_size f" "[]"] by (simp add: file_value_def)
  ultimately show ?thesis using t by (simp add: GetFileIterator_def) (simp add: file_value_def)
qed

lemma file_value_number: "file_value f = file_value g \<Longrightarrow> f_number f = f_number g"
  using DecodeFixed64_Encode [of "f_number f" "EncodeFixed64 (f_file_size f)"] DecodeFixed64_Encode [of "f_number g" "EncodeFixed64 (f_file_size g)"]
  by (simp add: file_value_def)

text \<open>The files of a level from 1 on, each of which holds its entries.\<close>

definition level_holds :: "FileMetaData list \<Rightarrow> (FileMetaData \<Rightarrow> entries) \<Rightarrow> bool" where
  "level_holds files E \<longleftrightarrow> disjoint_files files \<and> (\<forall>f \<in> set files. holds_entries f (E f) \<and> short_entries (E f))"

lemma holds_short:
  assumes "holds_entries f es" and "short_entries es"
  shows "short_key (largest f)" and "short_key (smallest f)" and "e \<in> set es \<Longrightarrow> short_key (entry_key (fst e))"
  using assms by (auto simp: holds_entries_def short_entries_def entry_key_def)

lemma level_key_order:
  assumes "level_holds files E" and "i < j" and "j < length files" and "e \<in> set (E (files ! j))"
  shows "internal_before (largest (files ! i)) (entry_key (fst e))"
proof -
  have h: "holds_entries (files ! k) (E (files ! k))" "short_entries (E (files ! k))" if "k < length files" for k
    using assms(1) that by (auto simp: level_holds_def)
  have i: "i < length files" using assms(2,3) by simp
  have "internal_before (largest (files ! i)) (smallest (files ! j))"
    using assms(1-3) by (auto simp: level_holds_def disjoint_files_def sorted_wrt_iff_nth_less)
  then show ?thesis
    using holds_entries_entry(2) [OF h(1) [OF assms(3)] assms(4)] short.before_trans [of "largest (files ! i)" "smallest (files ! j)" "entry_key (fst e)"]
      holds_short [OF h [OF i]] holds_short [OF h [OF assms(3)]] assms(4) by auto
qed

lemma good_entries_append:
  "good_entries (xs @ ys) \<longleftrightarrow> good_entries xs \<and> good_entries ys \<and>
    (\<forall>e \<in> set xs. \<forall>e' \<in> set ys. internal_before (entry_key (fst e)) (entry_key (fst e')))"
  by (auto simp: good_entries_def entry_pairs_def sorted_wrt_append case_prod_unfold)

lemma level_concat:
  "level_holds files E \<Longrightarrow> good_entries (concat (map E files)) \<and> short_entries (concat (map E files))"
proof (induction files)
  case Nil
  show ?case by (simp add: good_entries_def entry_pairs_def short_entries_def)
next
  case (Cons f files)
  have IH: "good_entries (concat (map E files))" "short_entries (concat (map E files))"
    using Cons by (auto simp: level_holds_def disjoint_files_def)
  have h: "holds_entries f (E f)" "short_entries (E f)" using Cons.prems by (auto simp: level_holds_def)
  have "internal_before (entry_key (fst e)) (entry_key (fst e'))" if e: "e \<in> set (E f)" and e': "e' \<in> set (concat (map E files))" for e e'
  proof -
    obtain g where "g \<in> set files" "e' \<in> set (E g)" using e' by auto
    then obtain j where j: "j < length files" "e' \<in> set (E (files ! j))" by (auto simp: in_set_conv_nth [of g])
    have "internal_before (largest f) (entry_key (fst e'))"
      using level_key_order [OF Cons.prems, of 0 "Suc j" e'] j by simp
    moreover have "short_key (entry_key (fst e'))" using IH(2) e' by (auto simp: short_entries_def entry_key_def)
    ultimately show ?thesis
      using holds_entries_entry(1) [OF h(1) e] holds_short [OF h] e short.before_trans [of "entry_key (fst e)" "largest f" "entry_key (fst e')"]
      by auto
  qed
  moreover have "good_entries (E f)" using h(1) by (simp add: holds_entries_def)
  moreover have "short_entries (concat (map E (f # files)))" using IH(2) h(2) by (auto simp: short_entries_def)
  ultimately show ?case using IH(1) by (simp add: good_entries_append)
qed

lemma file_two_levels:
  assumes "sorted_iterator (InternalKeyComparator BytewiseComparator) short_key internal_before tops tat"
  shows "two_levels (InternalKeyComparator BytewiseComparator) short_key internal_before (file_levels tops cache fuel)
    short.lf_at (sum_at tat empty_at)"
  unfolding two_levels_def file_levels_def levels.simps
  using short.level_files_sorted short.sum_sorted [OF assms short.empty_sorted] by blast

lemma level_blocks:
  assumes T: "sorted_iterator (InternalKeyComparator BytewiseComparator) short_key internal_before tops tat"
    and L: "level_holds files E" and C: "cache_shows tat cache E files" and d: "distinct (map f_number files)"
    and n: "length files + 2 \<le> fuel"
  shows "two_levels.blocks_of short_key internal_before (file_levels tops cache fuel) (sum_at tat empty_at)
    (short.file_pairs files) (map (entry_pairs \<circ> E) files)"
proof -
  note S = file_two_levels [OF T, of cache fuel]
  have conc: "concat (map (entry_pairs \<circ> E) files) = entry_pairs (concat (map E files))"
    by (simp add: entry_pairs_def [abs_def] map_concat comp_def)
  note lc = level_concat [OF L]
  have nth: "map (entry_pairs \<circ> E) files ! j = entry_pairs (E (files ! j))" "short.file_pairs files ! j = (largest (files ! j), file_value (files ! j))"
    if "j < length files" for j using that by (simp_all add: short.file_pairs_def)
  show ?thesis
    unfolding two_levels.blocks_of_def [OF S]
  proof (intro conjI allI impI ballI)
    show "length (short.file_pairs files) = length (map (entry_pairs \<circ> E) files)"
      "length (short.file_pairs files) + 2 \<le> skip_fuel (file_levels tops cache fuel)"
      using n by (simp_all add: short.file_pairs_def file_levels_def)
    show "short.increasing (map fst (concat (map (entry_pairs \<circ> E) files)))"
      unfolding conc using short_increasing lc by blast
  next
    fix j assume "j < length (map (entry_pairs \<circ> E) files)"
    then have j: "j < length files" by simp
    then have "files ! j \<in> set files" by simp
    from file_function [OF C this] obtain t where t: "GetFileIterator cache (file_value (files ! j)) = Inr (Some (Inl t))"
      "tat (entry_pairs (E (files ! j))) (length (E (files ! j))) t" by blast
    show "\<exists>p s. block_function (file_levels tops cache fuel) (snd (short.file_pairs files ! j)) = Inr (Some s) \<and>
        sum_at tat empty_at (map (entry_pairs \<circ> E) files ! j) p s"
      unfolding nth [OF j] snd_conv file_levels_def levels.simps
      by (intro exI [of _ "length (E (files ! j))"] exI [of _ "Inl t"] conjI t(1)) (simp only: sum_at_simps t(2))
  next
    fix i j assume "i < length (map (entry_pairs \<circ> E) files)" "j < length (map (entry_pairs \<circ> E) files)"
      and eq: "snd (short.file_pairs files ! i) = snd (short.file_pairs files ! j)"
    then have ij: "i < length files" "j < length files" by simp_all
    have "file_value (files ! i) = file_value (files ! j)" using eq unfolding nth [OF ij(1)] nth [OF ij(2)] snd_conv .
    then have "f_number (files ! i) = f_number (files ! j)" by (rule file_value_number)
    then have "i = j" using d ij by (metis distinct_conv_nth length_map nth_map)
    then show "map (entry_pairs \<circ> E) files ! i = map (entry_pairs \<circ> E) files ! j" by (simp only:)
  next
    fix j k assume "j < length (map (entry_pairs \<circ> E) files)" and k: "k \<in> fst ` set (map (entry_pairs \<circ> E) files ! j)"
    then have j: "j < length files" by simp
    obtain e where e: "e \<in> set (E (files ! j))" "k = entry_key (fst e)" using k unfolding nth [OF j] by (auto simp: entry_pairs_def)
    have "files ! j \<in> set files" using j by simp
    then have h: "holds_entries (files ! j) (E (files ! j))" using L unfolding level_holds_def by blast
    show "k = fst (short.file_pairs files ! j) \<or> internal_before k (fst (short.file_pairs files ! j))"
      using holds_entries_entry(1) [OF h e(1)] unfolding e(2) nth [OF j] fst_conv .
    fix i assume i: "i < j"
    then have il: "i < length files" using j by simp
    show "internal_before (fst (short.file_pairs files ! i)) k"
      using level_key_order [OF L i j e(1)] unfolding e(2) nth [OF il] fst_conv .
  qed
qed

subsection \<open>All files\<close>

definition level_at :: "'t Iterators.iterator \<Rightarrow> ((slice \<times> slice) list \<Rightarrow> nat \<Rightarrow> 't \<Rightarrow> bool) \<Rightarrow> 't cache_iter \<Rightarrow> nat \<Rightarrow>
    (slice \<times> slice) list \<Rightarrow> nat \<Rightarrow> 't level_iterator \<Rightarrow> bool" where
  "level_at tops tat cache fuel =
     two_levels.tl_at short_key internal_before (file_levels tops cache fuel) short.lf_at (sum_at tat empty_at)"

lemma level_sorted_files: "level_holds files E \<Longrightarrow> short.level_sorted files"
proof -
  assume L: "level_holds files E"
  have "internal_before (largest (files ! i)) (largest (files ! j))" if "i < j" "j < length files" for i j
  proof -
    have "files ! j \<in> set files" using that(2) by simp
    then have h: "holds_entries (files ! j) (E (files ! j))" using L unfolding level_holds_def by blast
    then have "last (E (files ! j)) \<in> set (E (files ! j))" by (simp add: holds_entries_def)
    from level_key_order [OF L that this] h show ?thesis by (simp add: holds_entries_def)
  qed
  then have "sorted_wrt internal_before (map largest files)" by (simp add: sorted_wrt_iff_nth_less)
  moreover have "short_key (largest f)" if "f \<in> set files" for f using L that holds_short(1) by (auto simp: level_holds_def)
  moreover have "largest f \<noteq> []" if "f \<in> set files" for f
    using calculation(2) [OF that] by (auto simp: short_key_def internal_valid_def)
  ultimately show ?thesis
    using L by (auto simp: short.level_sorted_def short.increasing_def level_holds_def disjoint_files_def)
qed

lemma NewConcatenatingIterator_at:
  assumes "sorted_iterator (InternalKeyComparator BytewiseComparator) short_key internal_before tops tat"
    and "level_holds files E" and "cache_shows tat cache E files" and "distinct (map f_number files)" and "length files + 2 \<le> fuel"
  shows "\<exists>x. NewConcatenatingIterator tops cache fuel BytewiseComparator files = Inr x \<and>
    level_at tops tat cache fuel (entry_pairs (concat (map E files))) (length (concat (map E files))) x"
proof -
  have conc: "concat (map (entry_pairs \<circ> E) files) = entry_pairs (concat (map E files))"
    by (simp add: entry_pairs_def [abs_def] map_concat comp_def)
  from two_levels.new_TwoLevelIterator_at [OF file_two_levels [OF assms(1)] level_blocks [OF assms]
      short.new_level_files_at [OF level_sorted_files [OF assms(2)]]]
  show ?thesis unfolding NewConcatenatingIterator_def level_at_def conc by (simp add: entry_pairs_def)
qed

definition file_at :: "'t Iterators.iterator \<Rightarrow> ((slice \<times> slice) list \<Rightarrow> nat \<Rightarrow> 't \<Rightarrow> bool) \<Rightarrow> 't cache_iter \<Rightarrow> levels_of_files \<Rightarrow>
    (slice \<times> slice) list \<Rightarrow> nat \<Rightarrow> 't + 't level_iterator \<Rightarrow> bool" where
  "file_at tops tat cache levels = sum_at tat (level_at tops tat cache (version_fuel levels))"

lemma file_sorted:
  assumes "sorted_iterator (InternalKeyComparator BytewiseComparator) short_key internal_before tops tat"
  shows "sorted_iterator (InternalKeyComparator BytewiseComparator) short_key internal_before
    (file_iterator tops cache levels) (file_at tops tat cache levels)"
  unfolding file_iterator_def file_at_def level_at_def
  by (rule short.sum_sorted [OF assms two_levels.two_level_sorted [OF file_two_levels [OF assms]]])

text \<open>Each of the iterators shows one of the lists, at their ends.\<close>

definition shows_lists :: "((slice \<times> slice) list \<Rightarrow> nat \<Rightarrow> 'x \<Rightarrow> bool) \<Rightarrow> 'x list \<Rightarrow> entries list \<Rightarrow> bool" where
  "shows_lists at xs Es \<longleftrightarrow> list_all2 (\<lambda>x es. at (entry_pairs es) (length es) x) xs Es \<and>
     (\<forall>es \<in> set Es. good_entries es \<and> short_entries es)"

lemma level0_iterators_ok:
  assumes "cache_shows tat cache E files" and "\<forall>f \<in> set files. good_entries (E f) \<and> short_entries (E f)"
  shows "\<exists>xs. level0_iterators cache files = Inr xs \<and> shows_lists (sum_at tat lat) xs (map E files)"
  using assms by (induction files) (auto simp: cache_shows_def shows_lists_def)

lemma lower_iterators_ok:
  assumes T: "sorted_iterator (InternalKeyComparator BytewiseComparator) short_key internal_before tops tat"
    and "\<forall>files \<in> set levels. level_holds files E \<and> distinct (map f_number files) \<and> length files + 2 \<le> fuel"
    and "cache_shows tat cache E (concat levels)"
  shows "\<exists>xs Es. lower_iterators tops cache fuel BytewiseComparator levels = Inr xs \<and>
    shows_lists (sum_at tat (level_at tops tat cache fuel)) xs Es \<and> concat Es = concat (map E (concat levels))"
  using assms(2,3)
proof (induction levels)
  case (Cons files levels)
  have c: "cache_shows tat cache E files" "cache_shows tat cache E (concat levels)" using Cons.prems(2) by (auto simp: cache_shows_def)
  obtain xs Es where IH: "lower_iterators tops cache fuel BytewiseComparator levels = Inr xs"
    "shows_lists (sum_at tat (level_at tops tat cache fuel)) xs Es" "concat Es = concat (map E (concat levels))"
    using Cons.IH c(2) Cons.prems(1) by auto
  show ?case
  proof (cases "files = []")
    case False
    have l: "level_holds files E" "distinct (map f_number files)" "length files + 2 \<le> fuel" using Cons.prems(1) by auto
    obtain x where x: "NewConcatenatingIterator tops cache fuel BytewiseComparator files = Inr x"
      "level_at tops tat cache fuel (entry_pairs (concat (map E files))) (length (concat (map E files))) x"
      using NewConcatenatingIterator_at [OF T l(1) c(1) l(2,3)] by blast
    have "lower_iterators tops cache fuel BytewiseComparator (files # levels) = Inr (Inr x # xs)" using False x(1) IH(1) by simp
    moreover have "shows_lists (sum_at tat (level_at tops tat cache fuel)) (Inr x # xs) (concat (map E files) # Es)"
      using IH(2) x(2) level_concat [OF l(1)] by (simp add: shows_lists_def)
    moreover have "concat (concat (map E files) # Es) = concat (map E (concat (files # levels)))" using IH(3) by simp
    ultimately show ?thesis by blast
  qed (use IH in auto)
qed (simp add: shows_lists_def)

definition version_shows :: "levels_of_files \<Rightarrow> (FileMetaData \<Rightarrow> entries) \<Rightarrow> bool" where
  "version_shows levels E \<longleftrightarrow> version_ok levels \<and> (\<forall>f \<in> set (concat levels). holds_entries f (E f) \<and> short_entries (E f)) \<and>
     distinct (map f_number (concat levels))"

lemma AddIterators_ok:
  assumes T: "sorted_iterator (InternalKeyComparator BytewiseComparator) short_key internal_before tops tat"
    and V: "version_shows levels E" and C: "cache_shows tat cache E (concat levels)"
  shows "\<exists>xs Es. AddIterators tops cache BytewiseComparator levels = Inr xs \<and> shows_lists (file_at tops tat cache levels) xs Es \<and>
    concat Es = concat (map E (concat levels))"
proof -
  obtain l0 ls where levels: "levels = l0 # ls" using V by (cases levels) (auto simp: version_shows_def version_ok_def)
  have h: "\<forall>f \<in> set (concat levels). holds_entries f (E f) \<and> short_entries (E f)" using V by (simp add: version_shows_def)
  have "level_holds files E \<and> distinct (map f_number files) \<and> length files + 2 \<le> version_fuel levels" if f: "files \<in> set ls" for files
  proof (intro conjI)
    show "level_holds files E" using V f h by (auto simp: level_holds_def version_shows_def version_ok_def levels)
    obtain as bs where "ls = as @ files # bs" using f by (meson split_list)
    then show "distinct (map f_number files)" "length files + 2 \<le> version_fuel levels"
      using V by (auto simp: version_shows_def levels version_fuel_def)
  qed
  then have lh: "\<forall>files \<in> set ls. level_holds files E \<and> distinct (map f_number files) \<and> length files + 2 \<le> version_fuel levels" by blast
  have c0: "cache_shows tat cache E l0" and c1: "cache_shows tat cache E (concat ls)" using C by (simp_all add: levels cache_shows_def)
  from lower_iterators_ok [OF T lh c1] obtain ys Es where
    y: "lower_iterators tops cache (version_fuel levels) BytewiseComparator ls = Inr ys"
    "shows_lists (file_at tops tat cache levels) ys Es" "concat Es = concat (map E (concat ls))"
    unfolding file_at_def by blast
  have "\<forall>f \<in> set l0. good_entries (E f) \<and> short_entries (E f)" using h by (auto simp: levels holds_entries_def)
  then obtain xs where x: "level0_iterators cache l0 = Inr xs" "shows_lists (file_at tops tat cache levels) xs (map E l0)"
    using level0_iterators_ok [OF c0, of "level_at tops tat cache (version_fuel levels)"] by (auto simp: file_at_def)
  have "AddIterators tops cache BytewiseComparator levels = Inr (xs @ ys)"
    using x(1) y(1) by (simp add: AddIterators_def levels vec_at_def)
  moreover have "shows_lists (file_at tops tat cache levels) (xs @ ys) (map E l0 @ Es)"
    using x(2) y(2) by (auto simp: shows_lists_def list_all2_appendI)
  ultimately show ?thesis using y(3) by (auto simp: levels)
qed

end
