(* ===== verification/DB_Read.thy ===== *)
theory DB_Read
  imports Version_Iter
begin

section \<open>Reading the database\<close>

text \<open>
  \<open>leveldb-mcpe/db/db_impl.cc\<close>: \<open>DBImpl::Get\<close> looks in the memtable, in the one that is being written to a table, and in
  the version; \<open>NewIterator\<close> merges the iterators of all three under the iterator of the database. Both read at a
  snapshot or at the last sequence number. The lock around them does nothing in one thread, and a compaction that
  would be scheduled is a flag. A version is the files of its levels; the statistics of a read are in its files.
\<close>

record DB =
  db_ucmp :: comparator
  db_mem :: MemTable
  db_imm :: "MemTable option"
  db_levels :: levels_of_files
  db_version_refs :: int
  db_seek :: seek_state
  db_last_sequence :: SequenceNumber
  db_seed :: u32

definition ref_opt :: "MemTable option \<Rightarrow> MemTable option res" where
  "ref_opt m = (case m of None \<Rightarrow> Inr None | Some m \<Rightarrow> bind_res (MemTable_Ref m) (\<lambda>m. Inr (Some m)))"

definition ref_sources :: "DB \<Rightarrow> DB res" where
  "ref_sources db =
     bind_res (MemTable_Ref (db_mem db)) (\<lambda>mem.
     bind_res (ref_opt (db_imm db)) (\<lambda>imm.
     bind_res (to_int32 (db_version_refs db + 1)) (\<lambda>n.
       Inr (db\<lparr>db_mem := mem, db_imm := imm, db_version_refs := n\<rparr>))))"

text \<open>The database holds a reference of its own, so that none of the three is deleted.\<close>

definition unref_opt :: "MemTable option \<Rightarrow> MemTable option res" where
  "unref_opt m =
     (case m of None \<Rightarrow> Inr None
      | Some m \<Rightarrow> bind_res (MemTable_Unref m) (\<lambda>m. case m of None \<Rightarrow> Inl NullDeref | Some m \<Rightarrow> Inr (Some m)))"

definition unref_sources :: "DB \<Rightarrow> DB res" where
  "unref_sources db =
     bind_res (unref_opt (Some (db_mem db))) (\<lambda>mem.
     bind_res (unref_opt (db_imm db)) (\<lambda>imm.
     bind_res (guard_res (db_version_refs db \<ge> 1) AssertFail) (\<lambda>_.
     let n = db_version_refs db - 1 in
     bind_res (guard_res (n \<noteq> 0) NullDeref) (\<lambda>_.
       Inr (db\<lparr>db_mem := the mem, db_imm := imm, db_version_refs := n\<rparr>)))))"

text \<open>A value that is not wanted is a null pointer.\<close>

definition mem_get :: "MemTable \<Rightarrow> LookupKey \<Rightarrow> slice option \<Rightarrow> Status \<Rightarrow> (bool \<times> slice option \<times> Status) res" where
  "mem_get m lkey value s =
     bind_res (MemTable_Get m lkey (value \<noteq> None) (case value of None \<Rightarrow> [] | Some v \<Rightarrow> v) s) (\<lambda>(found, v, s).
       Inr (found, map_option (\<lambda>_. v) value, s))"




definition read_sequence :: "DB \<Rightarrow> SequenceNumber option \<Rightarrow> SequenceNumber" where
  "read_sequence db snapshot = (case snapshot of Some s \<Rightarrow> s | None \<Rightarrow> db_last_sequence db)"


subsection \<open>The iterator\<close>

type_synonym 't source = "(MemTable \<times> Skip_List.iterator) + ('t + 't level_iterator)"

definition mem_sources :: "DB \<Rightarrow> 't source list" where
  "mem_sources db = map (\<lambda>m. Inl (MemTable_NewIterator m)) (db_mem db # (case db_imm db of None \<Rightarrow> [] | Some imm \<Rightarrow> [imm]))"

definition source_iterator :: "'t Iterators.iterator \<Rightarrow> 't cache_iter \<Rightarrow> levels_of_files \<Rightarrow> 't source Iterators.iterator" where
  "source_iterator tops cache levels = sum_iterator (bundled mem_iterator) (file_iterator tops cache levels)"

text \<open>The merged iterator with the sequence number and the seed of its samples.\<close>

definition NewInternalIterator :: "'t Iterators.iterator \<Rightarrow> 't cache_iter \<Rightarrow> DB \<Rightarrow> ('t source Merged \<times> SequenceNumber \<times> u32 \<times> DB) res" where
  "NewInternalIterator tops cache db =
     bind_res (AddIterators tops cache (db_ucmp db) (db_levels db)) (\<lambda>files.
     bind_res (NewMergingIterator (source_iterator tops cache (db_levels db)) (InternalKeyComparator (db_ucmp db))
         (mem_sources db @ map Inr files)) (\<lambda>m.
     bind_res (ref_sources db) (\<lambda>db.
     let seed = db_seed db + 1 in Inr (m, db_last_sequence db, seed, db\<lparr>db_seed := seed\<rparr>))))"

definition DB_NewIterator :: "'t Iterators.iterator \<Rightarrow> 't cache_iter \<Rightarrow> DB \<Rightarrow> SequenceNumber option \<Rightarrow> ('t source Merged DBIter \<times> DB) res" where
  "DB_NewIterator tops cache db snapshot =
     bind_res (NewInternalIterator tops cache db) (\<lambda>(m, latest, seed, db').
     bind_res (NewDBIterator (db_ucmp db) m (case snapshot of Some s \<Rightarrow> s | None \<Rightarrow> latest) seed) (\<lambda>d. Inr (d, db')))"

text \<open>The state of the objects an iterator holds is given back when it is deleted.\<close>

definition CleanupIteratorState :: "DB \<Rightarrow> DB res" where
  "CleanupIteratorState db = unref_sources db"

subsection \<open>Snapshots\<close>

text \<open>The list of the snapshots from the oldest on, each with the address it was given.\<close>

type_synonym snapshots = "(nat \<times> SequenceNumber) list"

definition snapshot_New :: "nat \<Rightarrow> SequenceNumber \<Rightarrow> snapshots \<Rightarrow> snapshots" where
  "snapshot_New a s l = l @ [(a, s)]"

definition snapshot_Delete :: "nat \<Rightarrow> snapshots \<Rightarrow> snapshots res" where
  "snapshot_Delete a l = bind_res (guard_res (a \<in> fst ` set l) AssertFail) (\<lambda>_. Inr (filter (\<lambda>(b, _). b \<noteq> a) l))"

definition snapshot_oldest :: "snapshots \<Rightarrow> SequenceNumber res" where
  "snapshot_oldest l = bind_res (guard_res (l \<noteq> []) AssertFail) (\<lambda>_. Inr (snd (hd l)))"

definition GetSnapshot :: "DB \<Rightarrow> nat \<Rightarrow> snapshots \<Rightarrow> snapshots" where
  "GetSnapshot db a l = snapshot_New a (db_last_sequence db) l"

subsection \<open>The entries of the sources\<close>

text \<open>The histories of the memtables, the files with their entries, from newer to older for every key.\<close>

definition db_holds :: "DB \<Rightarrow> history \<Rightarrow> history \<Rightarrow> (FileMetaData \<Rightarrow> entries) \<Rightarrow> bool" where
  "db_holds db hm hi E \<longleftrightarrow> db_ucmp db = BytewiseComparator \<and> table_ok (db_mem db) hm \<and>
     (case db_imm db of None \<Rightarrow> hi = [] | Some imm \<Rightarrow> table_ok imm hi \<and> 1 \<le> mt_refs imm \<and> mt_refs imm < 2 ^ 31 - 1) \<and>
     1 \<le> mt_refs (db_mem db) \<and> mt_refs (db_mem db) < 2 ^ 31 - 1 \<and> 1 \<le> db_version_refs db \<and> db_version_refs db < 2 ^ 31 - 1"

definition newer_entries :: "entries \<Rightarrow> entries \<Rightarrow> bool" where
  "newer_entries es es' \<longleftrightarrow> (\<forall>e \<in> set es. \<forall>e' \<in> set es'. user_key (fst e) = user_key (fst e') \<longrightarrow> sequence (fst e') < sequence (fst e))"









subsection \<open>Statistics name files of the version\<close>











subsection \<open>The lookup\<close>

lemma ref_ok:
  assumes "1 \<le> mt_refs m" and "mt_refs m < 2 ^ 31 - 1"
  shows "MemTable_Ref m = Inr (m\<lparr>mt_refs := mt_refs m + 1\<rparr>)" and "MemTable_Unref (m\<lparr>mt_refs := mt_refs m + 1\<rparr>) = Inr (Some m)"
  using assms by (simp_all add: MemTable_Ref_def MemTable_Unref_def to_int32_def int32_ok_def Let_def)

definition referred :: "DB \<Rightarrow> DB" where
  "referred db = db\<lparr>db_mem := (db_mem db)\<lparr>mt_refs := mt_refs (db_mem db) + 1\<rparr>,
     db_imm := map_option (\<lambda>m. m\<lparr>mt_refs := mt_refs m + 1\<rparr>) (db_imm db), db_version_refs := db_version_refs db + 1\<rparr>"

lemma sources_ok:
  assumes "db_holds db hm hi E"
  shows "ref_sources db = Inr (referred db)"
    and "unref_sources ((referred db)\<lparr>db_levels := levels, db_seek := seek\<rparr>) = Inr (db\<lparr>db_levels := levels, db_seek := seek\<rparr>)"
  using assms
  by (auto simp: db_holds_def ref_sources_def unref_sources_def ref_opt_def unref_opt_def referred_def ref_ok to_int32_def int32_ok_def Let_def
      split: option.splits)

lemma MemTable_Get_refs [simp]: "MemTable_Get (m\<lparr>mt_refs := n\<rparr>) = MemTable_Get m"
  by (rule ext)+ (simp add: MemTable_Get_def cong: if_cong)

lemma mem_get_refs [simp]: "mem_get (m\<lparr>mt_refs := n\<rparr>) = mem_get m"
  by (rule ext)+ (simp add: mem_get_def)

text \<open>The entries of all sources in one list, newer sources before older ones.\<close>

definition db_entries :: "DB \<Rightarrow> history \<Rightarrow> history \<Rightarrow> (FileMetaData \<Rightarrow> entries) \<Rightarrow> entries \<Rightarrow> bool" where
  "db_entries db hm hi E es \<longleftrightarrow> good_entries es \<and>
     mset es = mset (map history_entry hm) + (mset (map history_entry hi) + mset (concat (map E (concat (db_levels db))))) \<and>
     newer_entries (map history_entry hm) (map history_entry hi @ concat (map E (concat (db_levels db)))) \<and>
     newer_entries (map history_entry hi) (concat (map E (concat (db_levels db))))"




subsection \<open>The iterator over all sources\<close>

lemma short_iteratorI:
  assumes "sorted_iterator (InternalKeyComparator BytewiseComparator) short_key internal_before ops at"
  shows "internal_iterator short_key short_user ops at"
  using assms short_bytes.key_order_axioms by (simp add: internal_iterator_def internal_iterator_axioms_def)

definition source_at :: "'t Iterators.iterator \<Rightarrow> ((slice \<times> slice) list \<Rightarrow> nat \<Rightarrow> 't \<Rightarrow> bool) \<Rightarrow> 't cache_iter \<Rightarrow> levels_of_files \<Rightarrow>
    (slice \<times> slice) list \<Rightarrow> nat \<Rightarrow> 't source \<Rightarrow> bool" where
  "source_at tops tat cache levels = sum_at (short.bundle_at mem_iterator) (file_at tops tat cache levels)"

lemma source_sorted:
  assumes "sorted_iterator (InternalKeyComparator BytewiseComparator) short_key internal_before tops tat"
  shows "sorted_iterator (InternalKeyComparator BytewiseComparator) short_key internal_before
    (source_iterator tops cache levels) (source_at tops tat cache levels)"
  unfolding source_iterator_def source_at_def by (rule short.sum_sorted [OF short.bundled_sorted file_sorted [OF assms]])

lemma memtable_shows:
  assumes "table_ok m h"
  shows "\<exists>es. short.bundle_at mem_iterator (entry_pairs es) (length es) (MemTable_NewIterator m) \<and>
    mset es = mset (map history_entry h) \<and> good_entries es \<and> short_entries es"
proof -
  obtain es where es: "good_entries es" "mset es = mset (map history_entry h)" "mem_at m (entry_pairs es) (length es) new_Iterator"
    using NewIterator_at [OF assms] by blast
  have "history_ok h" using assms by (simp add: table_ok_def)
  then have "short_entries es"
    using mset_eq_setD [OF es(2)] history_okD(2) by (auto simp: short_entries_def short_user_def history_entry_def case_prod_unfold)
  moreover have "short.bundle_at mem_iterator (entry_pairs es) (length es) (MemTable_NewIterator m)"
    unfolding short.bundle_at_def MemTable_NewIterator_def fst_conv snd_conv using mem_sorted es(3) by blast
  ultimately show ?thesis using es(1,2) by blast
qed

lemma mem_sources_show:
  assumes "db_holds db hm hi E"
  shows "\<exists>Es. shows_lists (source_at tops tat cache levels) (mem_sources db) Es \<and>
    mset (concat Es) = mset (map history_entry hm) + mset (map history_entry hi)"
proof -
  obtain em where em: "short.bundle_at mem_iterator (entry_pairs em) (length em) (MemTable_NewIterator (db_mem db))"
    "mset em = mset (map history_entry hm)" "good_entries em" "short_entries em"
    using memtable_shows assms by (metis db_holds_def)
  show ?thesis
  proof (cases "db_imm db")
    case None
    then have "hi = []" using assms by (simp add: db_holds_def)
    then show ?thesis using em None by (intro exI [of _ "[em]"]) (simp add: mem_sources_def shows_lists_def source_at_def)
  next
    case (Some imm)
    then have "table_ok imm hi" using assms by (simp add: db_holds_def)
    from memtable_shows [OF this] obtain ei where ei: "short.bundle_at mem_iterator (entry_pairs ei) (length ei) (MemTable_NewIterator imm)"
      "mset ei = mset (map history_entry hi)" "good_entries ei" "short_entries ei" by blast
    then show ?thesis using em Some by (intro exI [of _ "[em, ei]"]) (simp add: mem_sources_def shows_lists_def source_at_def)
  qed
qed

lemma shows_lists_append: "shows_lists at xs Es \<Longrightarrow> shows_lists at ys Fs \<Longrightarrow> shows_lists at (xs @ ys) (Es @ Fs)"
  by (auto simp: shows_lists_def list_all2_appendI)

lemma shows_lists_Inr: "shows_lists at xs Es \<Longrightarrow> shows_lists (sum_at bt at) (map Inr xs) Es"
  by (simp add: shows_lists_def list.rel_map)

lemma shows_lists_nth:
  assumes "shows_lists at xs Es"
  shows "length xs = length (map entry_pairs Es)"
    and "d < length (map entry_pairs Es) \<Longrightarrow> at (map entry_pairs Es ! d) (length (map entry_pairs Es ! d)) (xs ! d)"
proof -
  have r: "list_all2 (\<lambda>x es. at (entry_pairs es) (length es) x) xs Es" using assms by (simp add: shows_lists_def)
  show "length xs = length (map entry_pairs Es)" using list_all2_lengthD [OF r] by simp
  show "at (map entry_pairs Es ! d) (length (map entry_pairs Es ! d)) (xs ! d)" if "d < length (map entry_pairs Es)"
    using list_all2_nthD2 [OF r, of d] that by (simp add: entry_pairs_def)
qed

lemma lists_merge:
  assumes "good_entries es" and "short_entries es" and "\<forall>e \<in> set Es. good_entries e \<and> short_entries e" and "mset es = mset (concat Es)"
  shows "short.merge_of (map entry_pairs Es) (entry_pairs es)"
proof (rule short.merge_of_mset)
  have "mset (entry_pairs es) = mset (entry_pairs (concat Es))" using assms(4) by (simp add: entry_pairs_def)
  then show "mset (entry_pairs es) = mset (concat (map entry_pairs Es))" by (simp add: entry_pairs_def [abs_def] map_concat)
qed (use assms short_increasing in auto)

lemma DB_NewIterator_ok:
  assumes T: "sorted_iterator (InternalKeyComparator BytewiseComparator) short_key internal_before tops tat"
    and H: "db_holds db hm hi E" and V: "version_shows (db_levels db) E" and C: "cache_shows tat cache E (concat (db_levels db))"
    and g: "good_entries es"
    and m: "mset es = mset (map history_entry hm) + (mset (map history_entry hi) + mset (concat (map E (concat (db_levels db)))))"
    and s: "read_sequence db snapshot = s" "s \<le> kMaxSequenceNumber" and n: "length es < fuel"
  shows "\<exists>d db'. DB_NewIterator tops cache db snapshot = Inr (d, db') \<and> CleanupIteratorState db' = Inr (db\<lparr>db_seed := db_seed db + 1\<rparr>) \<and>
    (\<forall>calls. (\<forall>u. Seek u \<in> set calls \<longrightarrow> short_user u) \<longrightarrow>
      run_ops (db_iterator fuel (merging_iterator (source_iterator tops cache (db_levels db)))) calls d =
      run_cursor (<) (user_view s es) calls (length (user_view s es)))"
proof -
  let ?levels = "db_levels db" and ?at = "source_at tops tat cache (db_levels db)"
  have c: "db_ucmp db = BytewiseComparator" using H by (simp add: db_holds_def)
  obtain Es where Es: "shows_lists ?at (mem_sources db) Es" "mset (concat Es) = mset (map history_entry hm) + mset (map history_entry hi)"
    using mem_sources_show [OF H] by blast
  obtain xs Fs where xs: "AddIterators tops cache BytewiseComparator ?levels = Inr xs" "shows_lists (file_at tops tat cache ?levels) xs Fs"
    "concat Fs = concat (map E (concat ?levels))"
    using AddIterators_ok [OF T V C] by blast
  have all: "shows_lists ?at (mem_sources db @ map Inr xs) (Es @ Fs)"
    unfolding source_at_def by (rule shows_lists_append [OF Es(1) [unfolded source_at_def] shows_lists_Inr [OF xs(2)]])
  have me: "mset es = mset (concat (Es @ Fs))" using m Es(2) xs(3) by simp
  have "short_entries es" using all mset_eq_setD [OF me] by (auto simp: shows_lists_def short_entries_def)
  from lists_merge [OF g this _ me] all have M: "short.merge_of (map entry_pairs (Es @ Fs)) (entry_pairs es)" by (simp add: shows_lists_def)
  from sorted_iterator.NewMergingIterator_at [OF source_sorted [OF T] M shows_lists_nth [OF all]] obtain x where
    x: "NewMergingIterator (source_iterator tops cache ?levels) (InternalKeyComparator BytewiseComparator) (mem_sources db @ map Inr xs) = Inr x"
    "sorted_iterator.merged_at (InternalKeyComparator BytewiseComparator) short_key internal_before ?at (entry_pairs es) (length (entry_pairs es)) x"
    by blast
  note I = short_iteratorI [OF sorted_iterator.merging_sorted [OF source_sorted [OF T, of cache ?levels]]]
  obtain d where d: "NewDBIterator BytewiseComparator x s (db_seed db + 1) = Inr d"
    "internal_iterator.db_at (sorted_iterator.merged_at (InternalKeyComparator BytewiseComparator) short_key internal_before ?at) fuel
      (user_view s es) (length (user_view s es)) d"
    using internal_iterator.NewDBIterator_ok [OF I x(2) g s(2) n] by blast
  let ?db = "(referred db)\<lparr>db_seed := db_seed db + 1\<rparr>"
  have seq: "(case snapshot of None \<Rightarrow> db_last_sequence db | Some s \<Rightarrow> s) = s" using s(1) by (simp add: read_sequence_def)
  have "DB_NewIterator tops cache db snapshot = Inr (d, ?db)"
    using xs(1) x(1) d(1) sources_ok(1) [OF H] seq c by (simp add: DB_NewIterator_def NewInternalIterator_def Let_def referred_def)
  moreover have "unref_sources ?db = Inr (db\<lparr>db_seed := db_seed db + 1\<rparr>)"
    using H by (auto simp: db_holds_def unref_sources_def unref_opt_def referred_def ref_ok Let_def split: option.splits)
  moreover have "run_ops (db_iterator fuel (merging_iterator (source_iterator tops cache ?levels))) calls d =
      run_cursor (<) (user_view s es) calls (length (user_view s es))" if "\<forall>u. Seek u \<in> set calls \<longrightarrow> short_user u" for calls
    by (rule sorted_iterator.run_ops_cursor [OF internal_iterator.db_sorted [OF I] d(2)]) (use that in \<open>auto simp: targets_def\<close>)
  ultimately show ?thesis unfolding CleanupIteratorState_def by blast
qed

subsection \<open>Over tables\<close>

text \<open>The iterator of the opened table of a number.\<close>

definition cache_of :: "(u32 \<Rightarrow> slice \<Rightarrow> u32) \<Rightarrow> 's RandomAccessFile \<Rightarrow> ReadOptions \<Rightarrow> (u64 \<Rightarrow> (Table \<times> 's) option) \<Rightarrow>
    ((Table \<times> 's) \<times> (AnyIter, AnyIter) TwoLevelIterator) cache_iter" where
  "cache_of acc rf ro tables number fsize =
     (case tables number of None \<Rightarrow> Inl NullDeref
      | Some (t, st) \<Rightarrow> bind_res (Table_NewIterator acc rf t ro st) (\<lambda>x. Inr ((t, st), x)))"

definition table_at :: "('c \<Rightarrow> 's Iterators.iterator) \<Rightarrow> (slice \<times> slice) list \<Rightarrow> nat \<Rightarrow> 'c \<times> 's \<Rightarrow> bool" where
  "table_at ops kvs i z \<longleftrightarrow> internal.bundle_at ops kvs i z \<and> (\<forall>k \<in> fst ` set kvs. short_key k)"

lemma table_at_sorted:
  "sorted_iterator (InternalKeyComparator BytewiseComparator) short_key internal_before (bundled ops) (table_at ops)"
  using short.narrow_sorted [OF internal.bundled_sorted, of ops] by (simp add: table_at_def [abs_def] short_key_def)

lemma cost_short: "table_cost c opts (entry_pairs es) < 2 ^ 32 \<Longrightarrow> short_entries es"
proof -
  assume a: "table_cost c opts (entry_pairs es) < 2 ^ 32"
  have "length (user_key (fst e)) + 8 \<le> kv_size (40 + c) (entry_pairs es)" if "e \<in> set es" for e
    using that by (induction es) (auto simp: kv_size_def entry_pairs_def entry_key_def internal_key_def case_prod_unfold)
  then show ?thesis using a by (fastforce simp: short_entries_def short_user_def table_cost_def)
qed

lemma built_cache_shows:
  assumes W: "writable_file f winv wcontents" "random_file rf winv wcontents" "port_crc_ok acc"
    and O: "internal_table_options b opts"
    and st: "winv st" "wcontents st = []" and E: "\<forall>m \<in> set files. good_entries (E m) \<and> table_cost (b + 9) opts (entry_pairs (E m)) < 2 ^ 32"
    and T: "tables_built acc f rf opts st tables E files"
  shows "cache_shows (table_at (table_ops acc rf ro)) (cache_of acc rf ro tables) E files"
  unfolding cache_shows_def
proof
  fix m assume m: "m \<in> set files"
  have g: "good_entries (E m)" "table_cost (b + 9) opts (entry_pairs (E m)) < 2 ^ 32" using E m by auto
  obtain t st' x where t: "open_table acc f rf opts st (E m) = Inr (t, st')" "Table_NewIterator acc rf t ro st' = Inr x"
    "internal.bundle_at (table_ops acc rf ro) (entry_pairs (E m)) (length (E m)) ((t, st'), x)"
    using open_table_iterator [OF W O st g, of ro] by blast
  obtain r st1 t1 where b: "build_table acc f opts (entry_pairs (E m)) st = Inr (OK, r, st1)"
     "Table_Open acc rf opts (tb_FileSize r) st1 = Inr (OK, Some t1)" "tables (f_number m) = Some (t1, st1)"
    using T m by (auto simp: tables_built_def)
  then have "tables (f_number m) = Some (t, st')" using t(1) by (simp add: open_table_def)
  moreover have "short_key k" if "k \<in> fst ` set (entry_pairs (E m))" for k
    using cost_short [OF g(2)] that by (auto simp: short_entries_def entry_pairs_def entry_key_def case_prod_unfold)
  ultimately show "\<exists>t. cache_of acc rf ro tables (f_number m) (f_file_size m) = Inr t \<and>
      table_at (table_ops acc rf ro) (entry_pairs (E m)) (length (E m)) t"
    using t(2,3) by (intro exI [of _ "((t, st'), x)"]) (auto simp: cache_of_def table_at_def)
qed

subsection \<open>Properties\<close>


text \<open>
  C3: an iterator of the database shows the newest values. Under every sequence of calls, in both directions, the
  iterator over the memtables and the tables of all levels shows what a cursor over the newest visible values of the
  user keys shows; when it is deleted every reference it took has been given back. The tables are built from their
  entries with \<open>table_cost\<close> below 2^32, the levels are those of a version (\<open>version_holds\<close>), files have numbers of their own,
  the reference counts are off their limits, and keys and targets are \<open>short_user\<close>.
\<close>

theorem DB_NewIterator_view:
  fixes ro :: ReadOptions
  assumes "writable_file f winv wcontents" and "random_file rf winv wcontents" and "port_crc_ok acc"
    and "internal_table_options b opts" and "winv st" and "wcontents st = []"
    and "\<forall>m \<in> set (concat (db_levels db)). table_cost (b + 9) opts (entry_pairs (E m)) < 2 ^ 32"
    and "tables_built acc f rf opts st tables E (concat (db_levels db))" and "version_holds (db_levels db) E"
    and "distinct (map f_number (concat (db_levels db)))" and "db_holds db hm hi E" and "db_entries db hm hi E es"
    and "read_sequence db snapshot \<le> kMaxSequenceNumber" and "length es < fuel"
  defines "tops \<equiv> bundled (table_ops acc rf ro)" and "cache \<equiv> cache_of acc rf ro tables"
    and "kvs \<equiv> user_view (read_sequence db snapshot) es"
  shows "\<exists>d db'. DB_NewIterator tops cache db snapshot = Inr (d, db') \<and>
    CleanupIteratorState db' = Inr (db\<lparr>db_seed := db_seed db + 1\<rparr>) \<and>
    (\<forall>calls. (\<forall>u. Seek u \<in> set calls \<longrightarrow> short_user u) \<longrightarrow>
      run_ops (db_iterator fuel (merging_iterator (source_iterator tops cache (db_levels db)))) calls d =
      run_cursor (<) kvs calls (length kvs))"
proof -
  have E: "\<forall>m \<in> set (concat (db_levels db)). good_entries (E m) \<and> table_cost (b + 9) opts (entry_pairs (E m)) < 2 ^ 32"
    using assms(7,9) by (simp add: version_holds_def holds_entries_def)
  have "\<forall>m \<in> set (concat (db_levels db)). short_entries (E m)" using E cost_short by blast
  then have V: "version_shows (db_levels db) E"
    using assms(9,10) unfolding version_shows_def version_holds_def by blast
  have "good_entries es" "mset es = mset (map history_entry hm) + (mset (map history_entry hi) + mset (concat (map E (concat (db_levels db)))))"
    using assms(12) by (simp_all add: db_entries_def)
  from DB_NewIterator_ok [OF table_at_sorted assms(11) V built_cache_shows [OF assms(1-6) E assms(8)] this refl assms(13,14)]
  show ?thesis unfolding tops_def cache_def kvs_def .
qed

text \<open>The files of the example under a memtable with a newer value.\<close>

definition example_db :: "MemTable \<Rightarrow> DB" where
  "example_db m = \<lparr>db_ucmp = BytewiseComparator, db_mem = m\<lparr>mt_refs := 1\<rparr>, db_imm = None, db_levels = example_levels,
     db_version_refs = 1, db_seek = \<lparr>file_to_compact = None, file_to_compact_level = - 1\<rparr>, db_last_sequence = 10, db_seed = 0\<rparr>"

lemma example_db_holds:
  "\<exists>m. bind_res (new_MemTable BytewiseComparator) (insert_batches [batch_bytes 10 [PutOp [5] [9]]]) = Inr ([OK], m) \<and>
    db_holds (example_db m) [(10, PutOp [5] [9])] [] example_entries"
proof -
  obtain m0 where m0: "new_MemTable BytewiseComparator = Inr m0" "table_ok m0 []" using table_ok_new by blast
  have "batches_fit 0 [(10, [PutOp [5] [9]])]" by simp
  from table_ok_batches [OF m0(2) _ this] obtain m where
    "insert_batches [batch_bytes 10 [PutOp [5] [9]]] m0 = Inr ([OK], m)" "table_ok m [(10, PutOp [5] [9])]"
    by (auto simp: history_of_def)
  then show ?thesis using m0(1) by (intro exI [of _ m]) (simp add: example_db_def db_holds_def table_ok_def)
qed

definition example_all :: entries where
  "example_all = [value_at [5] 10 [9], deletion_at [5] 9, value_at [5] 4 [1], value_at [6] 3 [2], value_at [7] 8 [3]]"

lemma example_db_entries: "db_entries (example_db m) [(10, PutOp [5] [9])] [] example_entries example_all"
proof -
  have "good_entries example_all"
    using example_numbers tag_less [OF example_numbers(4,2), of kTypeValue kTypeDeletion] tag_less [OF example_numbers(2,1), of kTypeDeletion kTypeValue]
      tag_less [OF example_numbers(4,1), of kTypeValue kTypeValue] by (simp add: example_simps example_all_def)
  moreover have f: "concat (map example_entries (concat example_levels)) = [deletion_at [5] 9, value_at [7] 8 [3], value_at [5] 4 [1], value_at [6] 3 [2]]"
    by (simp add: example_levels_def) (simp add: example_new_def example_old_def)
  ultimately show ?thesis
    by (simp add: db_entries_def example_db_def f) (simp add: example_all_def history_entry_def newer_entries_def value_at_def deletion_at_def)
qed

lemma example_db_fields: "db_levels (example_db m) = example_levels" "read_sequence (example_db m) s = (case s of None \<Rightarrow> 10 | Some s \<Rightarrow> s)"
  by (simp_all add: example_db_def read_sequence_def split: option.splits)



theorem DB_NewIterator_view_witness:
  "\<exists>m tables d db'.
    bind_res (new_MemTable BytewiseComparator) (insert_batches [batch_bytes 10 [PutOp [5] [9]]]) = Inr ([OK], m) \<and>
    DB_NewIterator (bundled (table_ops (\<lambda>_ _. 0) (mem_random 0) new_ReadOptions)) (cache_of (\<lambda>_ _. 0) (mem_random 0) new_ReadOptions tables)
      (example_db m) None = Inr (d, db') \<and>
    CleanupIteratorState db' = Inr ((example_db m)\<lparr>db_seed := 1\<rparr>) \<and>
    run_ops (db_iterator 6 (merging_iterator (source_iterator (bundled (table_ops (\<lambda>_ _. 0) (mem_random 0) new_ReadOptions))
        (cache_of (\<lambda>_ _. 0) (mem_random 0) new_ReadOptions tables) example_levels)))
      [SeekToFirst, Next, Seek [7], Prev, Prev] d =
      Inr [Some ([5], [9]), Some ([6], [2]), Some ([7], [3]), Some ([6], [2]), Some ([5], [9])]"
proof -
  obtain m where m: "bind_res (new_MemTable BytewiseComparator) (insert_batches [batch_bytes 10 [PutOp [5] [9]]]) = Inr ([OK], m)"
    "db_holds (example_db m) [(10, PutOp [5] [9])] [] example_entries" using example_db_holds by blast
  obtain tables where T: "tables_built (\<lambda>_ _. 0) (mem_writable 0) (mem_random 0) example_options (snd (alloc new_InMemoryEnv)) tables
    example_entries (concat example_levels)" using example_tables ..
  have s: "read_sequence (example_db m) None \<le> kMaxSequenceNumber" using example_numbers(1) by (simp add: example_db_fields)
  have n: "length example_all < 6" by (simp add: example_all_def)
  have v: "user_view 10 example_all = [([5], [9]), ([6], [2]), ([7], [3])]" unfolding example_all_def by code_simp
  have c: "run_cursor (<) (user_view 10 example_all) [SeekToFirst, Next, Seek [7], Prev, Prev] (length (user_view 10 example_all)) =
      Inr [Some ([5], [9]), Some ([6], [2]), Some ([7], [3]), Some ([6], [2]), Some ([5], [9])]"
    unfolding v by (simp add: cursor_op_def rank_def)
  have "\<forall>u. Seek u \<in> set [SeekToFirst, Next, Seek [7], Prev, Prev] \<longrightarrow> short_user u" by (simp add: short_user_def)
  note calls = this
  have seq: "read_sequence (example_db m) None = 10" by (simp add: example_db_fields)
  from DB_NewIterator_view [OF mem_wr.writable_file_axioms mem_ra.random_file_axioms crc_portable example_options_ok new_file_ok _ _ _ _ m(2)
      example_db_entries s n, unfolded example_db_fields(1) seq, OF example_costs T example_version example_distinct, of new_ReadOptions]
  obtain d db' where d: "DB_NewIterator (bundled (table_ops (\<lambda>_ _. 0) (mem_random 0) new_ReadOptions)) (cache_of (\<lambda>_ _. 0) (mem_random 0) new_ReadOptions tables)
      (example_db m) None = Inr (d, db')"
    "CleanupIteratorState db' = Inr ((example_db m)\<lparr>db_seed := db_seed (example_db m) + 1\<rparr>)"
    and view: "\<forall>calls. (\<forall>u. Seek u \<in> set calls \<longrightarrow> short_user u) \<longrightarrow>
      run_ops (db_iterator 6 (merging_iterator (source_iterator (bundled (table_ops (\<lambda>_ _. 0) (mem_random 0) new_ReadOptions))
        (cache_of (\<lambda>_ _. 0) (mem_random 0) new_ReadOptions tables) example_levels))) calls d =
      run_cursor (<) (user_view 10 example_all) calls (length (user_view 10 example_all))" by blast
  note mp [OF spec [OF view, of "[SeekToFirst, Next, Seek [7], Prev, Prev]"] calls, unfolded c]
  moreover note d
  moreover have "db_seed (example_db m) + 1 = 1" by (simp add: example_db_def)
  ultimately show ?thesis using m(1) by metis
qed

end
